(* ===== verification/Prelude.thy ===== *)
theory Prelude
  imports Main "HOL-Library.Word" "HOL-Library.Monad_Syntax"
begin

text \<open>
  What every component of the model shares: the pointer type, the faults a C function
  can run into, the result types of operations that may fault or not return, and the
  generic lemmas on lists and options that carry the component proofs.

  An operation that can fault has type \<open>fault + 'a\<close>: \<open>Inl\<close> is the abnormal end
  (a failed \<open>assert\<close>, a null pointer dereference, an access outside an array),
  \<open>Inr\<close> the value the C code returns together with the state it leaves. An operation
  with a loop that may not stop, or a lock that may never be granted, has type
  \<open>'a option\<close>, \<open>None\<close> being "control never comes back to the caller".
\<close>

section \<open>Pointers, faults and results\<close>

type_synonym ptr = nat

datatype fault = Assert_failed | Null_deref | Out_of_bounds | Use_after_free | Fatal | Overflow

type_synonym 'a res = "fault + 'a"

abbreviation NUL :: char where
  "NUL \<equiv> CHR 0x00"

abbreviation CR :: char where
  "CR \<equiv> CHR 0x0D"

abbreviation LF :: char where
  "LF \<equiv> CHR 0x0A"

abbreviation HTAB :: char where
  "HTAB \<equiv> CHR 0x09"

abbreviation CRLF :: string where
  "CRLF \<equiv> [CR, LF]"

definition bind_res :: "'a res \<Rightarrow> ('a \<Rightarrow> 'b res) \<Rightarrow> 'b res" where
  "bind_res r f = (case r of Inl e \<Rightarrow> Inl e | Inr a \<Rightarrow> f a)"

lemma bind_res_simps [simp]:
  "bind_res (Inl e) f = Inl e"
  "bind_res (Inr a) f = f a"
  by (simp_all add: bind_res_def)

lemma bind_res_eq_Inr:
  "bind_res r f = Inr b \<longleftrightarrow> (\<exists>a. r = Inr a \<and> f a = Inr b)"
  by (cases r) auto

lemma bind_res_cong [fundef_cong]:
  "r = r' \<Longrightarrow> (\<And>a. r' = Inr a \<Longrightarrow> f a = g a) \<Longrightarrow> bind_res r f = bind_res r' g"
  by (cases r') auto

section \<open>Lists\<close>

lemma take_drop_append_split:
  "n \<le> length xs \<Longrightarrow> take n xs @ take k (drop n xs) = take (n + k) xs"
  by (simp add: take_add)

lemma map_upd_notin [simp]:
  "a \<notin> set xs \<Longrightarrow> map (f(a := v)) xs = map f xs"
  by auto

lemma find_Some_split:
  "find P xs = Some x \<Longrightarrow> \<exists>ys zs. xs = ys @ x # zs \<and> P x \<and> (\<forall>y \<in> set ys. \<not> P y)"
proof (induction xs)
  case Nil
  then show ?case by simp
next
  case (Cons a xs)
  show ?case
  proof (cases "P a")
    case True
    with Cons.prems have "a # xs = [] @ x # xs \<and> P x" by simp
    then show ?thesis by fastforce
  next
    case False
    with Cons obtain ys zs where "xs = ys @ x # zs" "P x" "\<forall>y \<in> set ys. \<not> P y"
      by auto
    with False have "a # xs = (a # ys) @ x # zs \<and> P x \<and> (\<forall>y \<in> set (a # ys). \<not> P y)"
      by simp
    then show ?thesis by blast
  qed
qed

lemma find_append:
  "find P (xs @ ys) = (case find P xs of None \<Rightarrow> find P ys | Some x \<Rightarrow> Some x)"
  by (induction xs) auto

lemma filter_eq_single_split:
  assumes "filter P xs = [x]"
  shows "\<exists>us vs. xs = us @ x # vs \<and> P x \<and> (\<forall>u \<in> set us. \<not> P u) \<and> (\<forall>v \<in> set vs. \<not> P v)"
proof -
  from assms obtain us vs where "xs = us @ x # vs" "\<forall>u \<in> set us. \<not> P u" "P x" "[] = filter P vs"
    unfolding filter_eq_Cons_iff by blast
  moreover from this have "\<forall>v \<in> set vs. \<not> P v"
    by (metis filter_empty_conv)
  ultimately show ?thesis by blast
qed

end
