(* ===== verification/Utlist.thy ===== *)
theory Utlist
  imports Prelude
begin

text \<open>
  The singly linked list macros of \<open>lib/ut/utlist.h\<close> over an explicit store. The
  \<open>next\<close> fields of all the nodes are one function \<open>nx :: ptr \<Rightarrow> ptr option\<close>
  (\<open>None\<close> is the null pointer), a list is its head pointer, and a macro returns the
  updated \<open>next\<close> fields with the updated head. The walks of the macros are
  \<^theory_text>\<open>partial_function (option)\<close>: on a cyclic list they do not return
  (\<open>None\<close>). Aliasing between two heads is visible, which is what the data buffer
  depends on.
\<close>

section \<open>The macros\<close>

type_synonym nexts = "ptr \<Rightarrow> ptr option"

text \<open>\<open>while (_tmp->next) { _tmp = _tmp->next; }\<close>\<close>

partial_function (option) ll_last :: "nexts \<Rightarrow> ptr \<Rightarrow> ptr option" where
  "ll_last nx p = (case nx p of None \<Rightarrow> Some p | Some q \<Rightarrow> ll_last nx q)"

definition LL_APPEND :: "nexts \<Rightarrow> ptr option \<Rightarrow> ptr \<Rightarrow> (nexts \<times> ptr option) option" where
  "LL_APPEND nx head add =
     (let nx1 = nx(add := None) in
      case head of
        None \<Rightarrow> Some (nx1, Some add)
      | Some h \<Rightarrow> do { t \<leftarrow> ll_last nx1 h; Some (nx1(t := Some add), head) })"

definition LL_CONCAT ::
  "nexts \<Rightarrow> ptr option \<Rightarrow> ptr option \<Rightarrow> (nexts \<times> ptr option) option" where
  "LL_CONCAT nx head1 head2 =
     (case head1 of
        None \<Rightarrow> Some (nx, head2)
      | Some h \<Rightarrow> do { t \<leftarrow> ll_last nx h; Some (nx(t := head2), head1) })"

definition LL_PREPEND :: "nexts \<Rightarrow> ptr option \<Rightarrow> ptr \<Rightarrow> nexts \<times> ptr option" where
  "LL_PREPEND nx head add = (nx(add := head), Some add)"

text \<open>
  \<open>while (_tmp->next && (_tmp->next != (del))) { _tmp = _tmp->next; }\<close>: the node
  before \<open>del\<close>, or the last node where \<open>del\<close> is not in the list.
\<close>

partial_function (option) ll_before :: "nexts \<Rightarrow> ptr \<Rightarrow> ptr \<Rightarrow> ptr option" where
  "ll_before nx p del =
     (case nx p of
        None \<Rightarrow> Some p
      | Some q \<Rightarrow> if q = del then Some p else ll_before nx q del)"

text \<open>
  A null \<open>head\<close> with a node to delete dereferences the null pointer: \<open>None\<close>, no
  caller gets there.
\<close>

definition LL_DELETE :: "nexts \<Rightarrow> ptr option \<Rightarrow> ptr \<Rightarrow> (nexts \<times> ptr option) option" where
  "LL_DELETE nx head del =
     (if head = Some del then Some (nx, nx del)
      else case head of
        None \<Rightarrow> None
      | Some h \<Rightarrow>
          do { t \<leftarrow> ll_before nx h del;
               Some (if nx t = None then nx else nx(t := nx del), head) })"

section \<open>Lists in the store\<close>

primrec lpath :: "nexts \<Rightarrow> ptr option \<Rightarrow> ptr list \<Rightarrow> ptr option \<Rightarrow> bool" where
  "lpath nx p [] q \<longleftrightarrow> p = q"
| "lpath nx p (a # as) q \<longleftrightarrow> p = Some a \<and> lpath nx (nx a) as q"

abbreviation llist :: "nexts \<Rightarrow> ptr option \<Rightarrow> ptr list \<Rightarrow> bool" where
  "llist nx p as \<equiv> lpath nx p as None"

lemma lpath_append [simp]:
  "lpath nx p (as @ bs) q \<longleftrightarrow> (\<exists>r. lpath nx p as r \<and> lpath nx r bs q)"
  by (induction as arbitrary: p) auto

lemma lpath_upd [simp]:
  "u \<notin> set as \<Longrightarrow> lpath (nx(u := v)) p as q = lpath nx p as q"
  by (induction as arbitrary: p) auto

lemma lpath_cong:
  "(\<And>a. a \<in> set as \<Longrightarrow> nx a = nx' a) \<Longrightarrow> lpath nx p as q = lpath nx' p as q"
  by (induction as arbitrary: p) auto

lemma llist_None [simp]: "llist nx None as \<longleftrightarrow> as = []"
  by (cases as) auto

lemma llist_Some: "llist nx (Some p) as \<longleftrightarrow> (\<exists>bs. as = p # bs \<and> llist nx (nx p) bs)"
  by (cases as) auto

lemma llist_unique: "llist nx p as \<Longrightarrow> llist nx p bs \<Longrightarrow> as = bs"
  by (induction as arbitrary: p bs) (auto simp: llist_Some)

lemma llist_head_notin: "llist nx (nx a) as \<Longrightarrow> a \<notin> set as"
proof
  assume l: "llist nx (nx a) as" and "a \<in> set as"
  then obtain us vs where as: "as = us @ a # vs" by (auto simp: in_set_conv_decomp)
  with l have "llist nx (nx a) vs" by auto
  with l have "as = vs" by (rule llist_unique)
  with as show False by simp
qed

lemma llist_distinct: "llist nx p as \<Longrightarrow> distinct as"
proof (induction as arbitrary: p)
  case Nil
  then show ?case by simp
next
  case (Cons a as)
  then show ?case using llist_head_notin [of nx a as] by auto
qed

lemma llist_snoc: "llist nx p (as @ [a]) \<longleftrightarrow> lpath nx p as (Some a) \<and> nx a = None"
  by auto

section \<open>What the macros do on a list\<close>

lemma ll_last_llist: "llist nx (Some p) as \<Longrightarrow> ll_last nx p = Some (last as)"
proof (induction as arbitrary: p)
  case Nil
  then show ?case by simp
next
  case (Cons a as)
  then show ?case
    by (cases as) (auto simp: ll_last.simps [of nx a])
qed

lemma llist_last_next: "llist nx p as \<Longrightarrow> as \<noteq> [] \<Longrightarrow> nx (last as) = None"
  by (induction as arbitrary: p rule: rev_induct) auto

lemma llist_extend:
  assumes "llist nx p as" and "as \<noteq> []" and "llist nx q bs" and "set as \<inter> set bs = {}"
  shows "llist (nx(last as := q)) p (as @ bs)"
proof -
  from assms(2) obtain us a where as: "as = us @ [a]" by (metis rev_exhaust)
  with assms have "a \<notin> set us" "a \<notin> set bs" "lpath nx p us (Some a)"
    using llist_distinct [OF assms(1)] by auto
  with as assms(3) show ?thesis by simp
qed

lemma LL_APPEND_llist:
  assumes "llist nx p as" and "a \<notin> set as"
  shows "\<exists>nx' p'. LL_APPEND nx p a = Some (nx', p') \<and> llist nx' p' (as @ [a]) \<and>
    (as \<noteq> [] \<longrightarrow> p' = p) \<and> (\<forall>x. x \<notin> set as \<longrightarrow> x \<noteq> a \<longrightarrow> nx' x = nx x)"
proof (cases p)
  case None
  with assms show ?thesis by (simp add: LL_APPEND_def)
next
  case (Some h)
  let ?nx = "nx(a := None)"
  from assms have l: "llist ?nx p as" by simp
  moreover from l Some have ne: "as \<noteq> []" by auto
  moreover have "llist ?nx (Some a) [a]" by simp
  moreover have "set as \<inter> set [a] = {}" using assms by simp
  ultimately have "llist (?nx(last as := Some a)) p (as @ [a])"
    by (intro llist_extend)
  moreover from l Some have "ll_last ?nx h = Some (last as)"
    by (intro ll_last_llist) simp
  ultimately show ?thesis
    using Some ne last_in_set [OF ne]
    by (auto simp: LL_APPEND_def Let_def simp del: lpath_append fun_upd_apply)
       (auto simp: fun_upd_apply)
qed

lemma LL_CONCAT_llist:
  assumes "llist nx p as" and "llist nx q bs" and "set as \<inter> set bs = {}"
  shows "\<exists>nx' p'. LL_CONCAT nx p q = Some (nx', p') \<and> llist nx' p' (as @ bs) \<and>
    (\<forall>x. x \<notin> set as \<longrightarrow> nx' x = nx x)"
proof (cases p)
  case None
  with assms show ?thesis by (simp add: LL_CONCAT_def)
next
  case (Some h)
  with assms(1) have ne: "as \<noteq> []" by auto
  from Some assms(1) have "ll_last nx h = Some (last as)"
    by (intro ll_last_llist) simp
  moreover have "llist (nx(last as := q)) p (as @ bs)"
    using assms ne by (intro llist_extend)
  ultimately show ?thesis
    using Some last_in_set [OF ne]
    by (auto simp: LL_CONCAT_def simp del: lpath_append fun_upd_apply)
       (auto simp: fun_upd_apply)
qed

lemma LL_DELETE_head:
  "llist nx (Some a) (a # as) \<Longrightarrow> LL_DELETE nx (Some a) a = Some (nx, nx a)"
  by (simp add: LL_DELETE_def)

lemma ll_before_llist:
  "llist nx (Some h) (us @ x # vs) \<Longrightarrow> us \<noteq> [] \<Longrightarrow> ll_before nx h x = Some (last us)"
proof (induction us arbitrary: h)
  case Nil
  then show ?case by simp
next
  case (Cons u us)
  show ?case
  proof (cases us)
    case Nil
    with Cons.prems show ?thesis by (simp add: ll_before.simps [of nx u])
  next
    case (Cons w ws)
    with Cons.prems(1) have n: "u = h" "nx h = Some w" "llist nx (Some w) (us @ x # vs)" by auto
    moreover from llist_distinct [OF n(3)] have "w \<noteq> x" using Cons by auto
    ultimately show ?thesis
      using Cons.IH [OF n(3)] Cons by (simp add: ll_before.simps [of nx h])
  qed
qed

lemma LL_DELETE_llist:
  assumes "llist nx p (us @ x # vs)"
  shows "\<exists>nx' p'. LL_DELETE nx p x = Some (nx', p') \<and> llist nx' p' (us @ vs) \<and>
    nx' x = nx x \<and> (\<forall>y. y \<notin> set us \<longrightarrow> nx' y = nx y)"
proof (cases us)
  case Nil
  with assms show ?thesis by (auto simp: LL_DELETE_def)
next
  case (Cons u us')
  from llist_distinct [OF assms] have d: "distinct (us @ x # vs)" .
  from Cons assms have p: "p = Some u" "u \<noteq> x" using d by auto
  from assms p Cons have t: "ll_before nx u x = Some (last us)" by (intro ll_before_llist) auto
  from Cons obtain us1 where us1: "us = us1 @ [last us]" by (metis append_butlast_last_id list.discI)
  then have l: "lpath nx p us1 (Some (last us))" "nx (last us) = Some x" "llist nx (nx x) vs"
    using assms by (metis lpath_append lpath.simps)+
  have lx: "last us \<noteq> x" "last us \<notin> set us1" "last us \<notin> set vs" "last us \<in> set us"
    using d us1 by (metis Un_iff distinct_append in_set_conv_decomp disjoint_iff list.set_intros set_append)+
  then have "llist (nx(last us := nx x)) p (us1 @ last us # vs)" using l by simp
  with us1 have "llist (nx(last us := nx x)) p (us @ vs)" by (metis append.assoc append_Cons append_Nil)
  with p t l(2) lx show ?thesis by (auto simp: LL_DELETE_def simp del: lpath_append)
qed

section \<open>Cyclic lists\<close>

text \<open>From inside a set of nodes with no end, the walk to the last node never returns.\<close>

lemma ll_last_diverges:
  assumes "\<And>a. a \<in> S \<Longrightarrow> \<exists>b \<in> S. nx a = Some b" and "p \<in> S"
  shows "ll_last nx p = None"
proof (rule ccontr)
  assume "ll_last nx p \<noteq> None"
  then obtain r where r: "ll_last nx p = Some r" by auto
  have "(\<forall>a \<in> S. \<exists>b \<in> S. nx a = Some b) \<longrightarrow> p \<notin> S"
    by (rule ll_last.raw_induct [where P = "\<lambda>nx p r. (\<forall>a \<in> S. \<exists>b \<in> S. nx a = Some b) \<longrightarrow> p \<notin> S",
          OF _ r])
       (force split: option.splits)
  with assms show False by blast
qed

lemma lpath_succ_in:
  assumes "lpath nx p as (Some r)" and "r \<in> set as" and "a \<in> set as"
  shows "\<exists>b \<in> set as. nx a = Some b"
proof -
  from assms(3) obtain us vs where as: "as = us @ a # vs"
    by (auto simp: in_set_conv_decomp)
  with assms(1) have "lpath nx (nx a) vs (Some r)" by auto
  then show ?thesis using as assms(2) by (cases vs) auto
qed

end
