(* ===== verification/Posix.thy ===== *)
theory Posix
  imports Prelude
begin

text \<open>
  The system calls the program makes on descriptors, as the environment of the model.
  What the kernel answers to the successive \<open>write\<close> calls on a descriptor is a
  function of the number of calls made so far, chosen by nobody: every theorem that
  mentions it holds for all answers, or names the answers it assumes. The bytes
  accepted so far are recorded in \<open>sent\<close>; \<open>errno\<close> is set by a failing call
  and left alone by a successful one, as POSIX has it.
\<close>

datatype errno = ENONE | EAGAIN | EBADF | EPIPE | EINVAL | EINTR | EOTHER nat

text \<open>\<open>EWOULDBLOCK\<close> is the same number as \<open>EAGAIN\<close> on Linux.\<close>

abbreviation EWOULDBLOCK :: errno where
  "EWOULDBLOCK \<equiv> EAGAIN"

datatype write_outcome = Accepts nat | Fails errno

record fd_world =
  outcome :: "nat \<Rightarrow> write_outcome"
  calls :: nat
  sent :: string
  errno :: errno

text \<open>\<open>write(fd, bs, length bs)\<close>: at most what was offered is accepted.\<close>

definition sys_write :: "fd_world \<Rightarrow> string \<Rightarrow> int \<times> fd_world" where
  "sys_write w bs =
     (case outcome w (calls w) of
        Accepts k \<Rightarrow>
          (let m = min k (length bs) in
           (int m, w\<lparr>calls := Suc (calls w), sent := sent w @ take m bs\<rparr>))
      | Fails e \<Rightarrow> (-1, w\<lparr>calls := Suc (calls w), errno := e\<rparr>))"

lemma sys_write_outcome [simp]: "outcome (snd (sys_write w bs)) = outcome w"
  by (simp add: sys_write_def Let_def split: write_outcome.splits)

lemma sys_write_cases:
  obtains (fails) e where "sys_write w bs = (-1, w\<lparr>calls := Suc (calls w), errno := e\<rparr>)"
      and "outcome w (calls w) = Fails e"
  | (accepts) m where "m \<le> length bs"
      and "sys_write w bs = (int m, w\<lparr>calls := Suc (calls w), sent := sent w @ take m bs\<rparr>)"
      and "\<And>k. outcome w (calls w) = Accepts k \<Longrightarrow> m = min k (length bs)"
proof (cases "outcome w (calls w)")
  case (Accepts k)
  have "sys_write w bs = (int (min k (length bs)),
      w\<lparr>calls := Suc (calls w), sent := sent w @ take (min k (length bs)) bs\<rparr>)"
    by (simp add: sys_write_def Let_def Accepts)
  moreover have "min k (length bs) \<le> length bs" by simp
  ultimately show ?thesis using Accepts by (intro accepts) auto
next
  case (Fails e)
  have "sys_write w bs = (-1, w\<lparr>calls := Suc (calls w), errno := e\<rparr>)"
    by (simp add: sys_write_def Fails)
  then show ?thesis using Fails by (intro fails) auto
qed

text \<open>
  The answers under which a loop over \<open>write\<close> makes progress: no call accepts zero
  bytes of a non-empty offer.
\<close>

definition makes_progress :: "fd_world \<Rightarrow> bool" where
  "makes_progress w \<longleftrightarrow> (\<forall>k. outcome w k \<noteq> Accepts 0)"

lemma makes_progress_step [simp]:
  "makes_progress (w\<lparr>calls := n, sent := b\<rparr>) = makes_progress w"
  "makes_progress (w\<lparr>calls := n, errno := e\<rparr>) = makes_progress w"
  by (simp_all add: makes_progress_def)

end
