(* ===== verification/Data_Buffer.thy ===== *)
theory Data_Buffer
  imports Utlist Posix
begin

text \<open>
  \<open>src/data-buffer.c\<close>: the list of 16 KiB buffers between the responses of a
  connection and its socket. The buffers live in an explicit store (one function per
  field of \<open>struct data_buffer\<close>), because \<open>data_buffer_list_append\<close> works through
  two pointers into the same list and what it does depends on the aliasing. The two
  mutexes of a list are flags: locking one that is held never returns.
\<close>

section \<open>State\<close>

record dbstore =
  db_buffer :: "ptr \<Rightarrow> string"
  db_size :: "ptr \<Rightarrow> nat"
  db_wOffset :: "ptr \<Rightarrow> nat"
  db_rOffset :: "ptr \<Rightarrow> nat"
  db_next :: nexts
  db_live :: "ptr \<Rightarrow> bool"
  db_fresh :: ptr

record data_buffer_list =
  dl_first :: "ptr option"
  dl_wrlock :: bool
  dl_rdlock :: bool

definition DATA_BUFFER_SIZE :: nat where
  "DATA_BUFFER_SIZE = 16 * 1024"

definition data_buffer_list_new :: data_buffer_list where
  "data_buffer_list_new = \<lparr>dl_first = None, dl_wrlock = False, dl_rdlock = False\<rparr>"

text \<open>\<open>calloc\<close> hands out an address never used before, its bytes zero.\<close>

definition data_buffer_new :: "dbstore \<Rightarrow> nat \<Rightarrow> ptr \<times> dbstore" where
  "data_buffer_new s n =
     (let p = db_fresh s in
      (p, s\<lparr>db_buffer := (db_buffer s)(p := replicate n NUL),
            db_size := (db_size s)(p := n),
            db_wOffset := (db_wOffset s)(p := 0),
            db_rOffset := (db_rOffset s)(p := 0),
            db_next := (db_next s)(p := None),
            db_live := (db_live s)(p := True),
            db_fresh := Suc p\<rparr>))"

definition data_buffer_delete :: "dbstore \<Rightarrow> ptr \<Rightarrow> dbstore" where
  "data_buffer_delete s p = s\<lparr>db_live := (db_live s)(p := False)\<rparr>"

section \<open>Locks\<close>

definition data_buffer_list_lock ::
  "data_buffer_list \<Rightarrow> bool \<Rightarrow> bool \<Rightarrow> data_buffer_list option" where
  "data_buffer_list_lock l rd wr =
     (if wr \<and> dl_wrlock l \<or> rd \<and> dl_rdlock l then None
      else Some (l\<lparr>dl_wrlock := dl_wrlock l \<or> wr, dl_rdlock := dl_rdlock l \<or> rd\<rparr>))"

definition data_buffer_list_unlock ::
  "data_buffer_list \<Rightarrow> bool \<Rightarrow> bool \<Rightarrow> data_buffer_list" where
  "data_buffer_list_unlock l rd wr =
     l\<lparr>dl_rdlock := dl_rdlock l \<and> \<not> rd, dl_wrlock := dl_wrlock l \<and> \<not> wr\<rparr>"

section \<open>Appending\<close>

text \<open>\<open>LL_FOREACH(list->first, elem) { if (elem->next == NULL) newbuf = elem; }\<close>\<close>

partial_function (option) find_newbuf ::
  "nexts \<Rightarrow> ptr option \<Rightarrow> ptr option \<Rightarrow> ptr option option" where
  "find_newbuf nx elem newbuf =
     (case elem of
        None \<Rightarrow> Some newbuf
      | Some e \<Rightarrow> find_newbuf nx (nx e) (if nx e = None then Some e else newbuf))"

text \<open>\<open>while (allocated < n)\<close>: buffers are appended to the list that starts at \<open>newbuf\<close>.\<close>

partial_function (option) append_grow ::
  "dbstore \<Rightarrow> ptr \<Rightarrow> nat \<Rightarrow> nat \<Rightarrow> dbstore option" where
  "append_grow s newbuf allocated n =
     (if allocated < n
      then Option.bind
        (LL_APPEND (db_next (snd (data_buffer_new s DATA_BUFFER_SIZE))) (Some newbuf)
           (fst (data_buffer_new s DATA_BUFFER_SIZE)))
        (\<lambda>(nx, _). append_grow
           (snd (data_buffer_new s DATA_BUFFER_SIZE)\<lparr>db_next := nx\<rparr>) newbuf
           (allocated + DATA_BUFFER_SIZE) n)
      else Some s)"

text \<open>One turn of the copy loop: \<open>memcpy\<close> into \<open>elem\<close> and both offsets moved.\<close>

definition copy_count :: "dbstore \<Rightarrow> ptr \<Rightarrow> string \<Rightarrow> nat \<Rightarrow> nat" where
  "copy_count s e src off =
     (if length src - off > db_size s e - db_wOffset s e
      then db_size s e - db_wOffset s e else length src - off)"

definition copy_into :: "dbstore \<Rightarrow> ptr \<Rightarrow> string \<Rightarrow> nat \<Rightarrow> dbstore" where
  "copy_into s e src off =
     (let c = copy_count s e src off; w = db_wOffset s e; b = db_buffer s e in
      s\<lparr>db_buffer := (db_buffer s)(e := take w b @ take c (drop off src) @ drop (w + c) b),
        db_wOffset := (db_wOffset s)(e := w + c)\<rparr>)"

partial_function (option) append_copy ::
  "dbstore \<Rightarrow> ptr option \<Rightarrow> string \<Rightarrow> nat \<Rightarrow> dbstore option" where
  "append_copy s elem src off =
     (case elem of
        None \<Rightarrow> Some s
      | Some e \<Rightarrow>
          append_copy (copy_into s e src off) (db_next (copy_into s e src off) e) src
            (off + copy_count s e src off))"

text \<open>
  The function after its two \<open>assert\<close>s. \<open>Inl\<close> is the failed assertion, \<open>None\<close> a walk
  or a lock that never comes back.
\<close>

definition data_buffer_list_append ::
  "dbstore \<Rightarrow> data_buffer_list \<Rightarrow> string \<Rightarrow> (dbstore \<times> data_buffer_list) res option" where
  "data_buffer_list_append s l src =
     (if src = [] then Some (Inl Assert_failed)
      else do {
        l1 \<leftarrow> data_buffer_list_lock l True True;
        found \<leftarrow> find_newbuf (db_next s) (dl_first l1) None;
        let (newbuf, first_is_new, s1) =
          (case found of
             None \<Rightarrow> (let (b, t) = data_buffer_new s DATA_BUFFER_SIZE in (b, True, t))
           | Some e \<Rightarrow>
               if db_wOffset s e = db_size s e
               then (let (b, t) = data_buffer_new s DATA_BUFFER_SIZE in (b, True, t))
               else (e, False, s));
        s2 \<leftarrow> append_grow s1 newbuf (db_size s1 newbuf - db_wOffset s1 newbuf) (length src);
        s3 \<leftarrow> append_copy s2 (Some newbuf) src 0;
        (nx4, newbuf4) \<leftarrow>
          (if \<not> first_is_new then LL_DELETE (db_next s3) (Some newbuf) newbuf
           else Some (db_next s3, Some newbuf));
        (nx5, first5) \<leftarrow> LL_CONCAT nx4 (dl_first l1) newbuf4;
        Some (Inr (s3\<lparr>db_next := nx5\<rparr>,
                   data_buffer_list_unlock (l1\<lparr>dl_first := first5\<rparr>) True True))
      })"

section \<open>Writing out\<close>

text \<open>The \<open>while(next != NULL)\<close> loop of \<open>data_buffer_list_writeto_fd\<close>.\<close>

definition unread :: "dbstore \<Rightarrow> ptr \<Rightarrow> string" where
  "unread s p = drop (db_rOffset s p) (take (db_wOffset s p) (db_buffer s p))"

partial_function (option) writeto_loop ::
  "dbstore \<Rightarrow> data_buffer_list \<Rightarrow> fd_world \<Rightarrow> ptr option \<Rightarrow> int \<Rightarrow>
   (int \<times> dbstore \<times> data_buffer_list \<times> fd_world) option" where
  "writeto_loop s l w next result =
     (case next of
        None \<Rightarrow> Some (result, s, l, w)
      | Some e \<Rightarrow>
          if db_wOffset s e - db_rOffset s e > 0
          then (case sys_write w (unread s e) of (written, w') \<Rightarrow>
            if written \<le> 0 \<and> (errno w' = EAGAIN \<or> errno w' = EWOULDBLOCK)
            then Some (-1, s, l, w')
            else if written < 0 then Some (-1, s, l, w')
            else writeto_loop
              (s\<lparr>db_rOffset := (db_rOffset s)(e := db_rOffset s e + nat written)\<rparr>) l w' next
              (result + written))
          else Option.bind (LL_DELETE (db_next s) (dl_first l) e)
            (\<lambda>(nx, first). writeto_loop
               (data_buffer_delete (s\<lparr>db_next := nx\<rparr>) e) (l\<lparr>dl_first := first\<rparr>) w first result))"

definition data_buffer_list_writeto_fd ::
  "dbstore \<Rightarrow> data_buffer_list \<Rightarrow> fd_world \<Rightarrow>
   (int \<times> dbstore \<times> data_buffer_list \<times> fd_world) option" where
  "data_buffer_list_writeto_fd s l w =
     do {
       l1 \<leftarrow> data_buffer_list_lock l True False;
       (result, s', l', w') \<leftarrow> writeto_loop s l1 w (dl_first l1) 0;
       Some (result, s', data_buffer_list_unlock l' True False, w')
     }"

text \<open>\<open>LL_FOREACH_SAFE\<close> with \<open>LL_DELETE\<close> of every node and its storage.\<close>

partial_function (option) list_delete_loop ::
  "dbstore \<Rightarrow> ptr option \<Rightarrow> ptr option \<Rightarrow> dbstore option" where
  "list_delete_loop s first elem =
     (case elem of
        None \<Rightarrow> Some s
      | Some e \<Rightarrow>
          Option.bind (LL_DELETE (db_next s) first e)
            (\<lambda>(nx, first'). list_delete_loop (data_buffer_delete (s\<lparr>db_next := nx\<rparr>) e) first'
               (db_next s e)))"

definition data_buffer_list_delete :: "dbstore \<Rightarrow> data_buffer_list \<Rightarrow> dbstore option" where
  "data_buffer_list_delete s l = list_delete_loop s (dl_first l) (dl_first l)"

section \<open>Well-formed lists and their content\<close>

definition buf_ok :: "dbstore \<Rightarrow> ptr \<Rightarrow> bool" where
  "buf_ok s p \<longleftrightarrow> db_live s p \<and> p < db_fresh s \<and> length (db_buffer s p) = db_size s p \<and>
     db_rOffset s p \<le> db_wOffset s p \<and> db_wOffset s p \<le> db_size s p"

definition dl_rep :: "dbstore \<Rightarrow> data_buffer_list \<Rightarrow> ptr list \<Rightarrow> bool" where
  "dl_rep s l ns \<longleftrightarrow> llist (db_next s) (dl_first l) ns \<and> (\<forall>p \<in> set ns. buf_ok s p)"

definition pending :: "dbstore \<Rightarrow> ptr list \<Rightarrow> string" where
  "pending s ns = concat (map (unread s) ns)"

definition room :: "dbstore \<Rightarrow> ptr \<Rightarrow> nat" where
  "room s p = db_size s p - db_wOffset s p"

definition unlocked :: "data_buffer_list \<Rightarrow> bool" where
  "unlocked l \<longleftrightarrow> \<not> dl_wrlock l \<and> \<not> dl_rdlock l"

text \<open>Two stores that agree on the contents of one buffer.\<close>

definition same_buf :: "dbstore \<Rightarrow> dbstore \<Rightarrow> ptr \<Rightarrow> bool" where
  "same_buf s s' p \<longleftrightarrow> db_buffer s' p = db_buffer s p \<and> db_size s' p = db_size s p \<and>
     db_wOffset s' p = db_wOffset s p \<and> db_rOffset s' p = db_rOffset s p \<and>
     db_live s' p = db_live s p"

lemma same_buf_refl [simp]: "same_buf s s p"
  by (simp add: same_buf_def)

lemma same_buf_trans: "same_buf s t p \<Longrightarrow> same_buf t u p \<Longrightarrow> same_buf s u p"
  by (simp add: same_buf_def)

lemma same_buf_next [simp]: "same_buf s (t\<lparr>db_next := nx\<rparr>) p = same_buf s t p"
  by (simp add: same_buf_def)

lemma same_buf_unread: "same_buf s s' p \<Longrightarrow> unread s' p = unread s p"
  by (simp add: same_buf_def unread_def)

lemma same_buf_room: "same_buf s s' p \<Longrightarrow> room s' p = room s p"
  by (simp add: same_buf_def room_def)

lemma same_buf_ok: "same_buf s s' p \<Longrightarrow> db_fresh s \<le> db_fresh s' \<Longrightarrow> buf_ok s p \<Longrightarrow> buf_ok s' p"
  by (auto simp: same_buf_def buf_ok_def)

lemma pending_cong:
  "(\<And>p. p \<in> set ns \<Longrightarrow> unread s' p = unread s p) \<Longrightarrow> pending s' ns = pending s ns"
  by (simp add: pending_def cong: map_cong)

lemma pending_simps [simp]:
  "pending s [] = []"
  "pending s (p # ns) = unread s p @ pending s ns"
  "pending s (ns @ ms) = pending s ns @ pending s ms"
  by (simp_all add: pending_def)

lemma pending_empty: "(\<And>p. p \<in> set ns \<Longrightarrow> unread s p = []) \<Longrightarrow> pending s ns = []"
  by (induction ns) auto

lemma unread_next [simp]: "unread (s\<lparr>db_next := nx\<rparr>) p = unread s p"
  by (simp add: unread_def)

lemma pending_next [simp]: "pending (s\<lparr>db_next := nx\<rparr>) ns = pending s ns"
  by (rule pending_cong) simp

lemma buf_ok_next [simp]: "buf_ok (s\<lparr>db_next := nx\<rparr>) p = buf_ok s p"
  by (simp add: buf_ok_def)

lemma length_unread: "buf_ok s p \<Longrightarrow> length (unread s p) = db_wOffset s p - db_rOffset s p"
  by (auto simp: buf_ok_def unread_def)

lemmas data_buffer_new_simps = data_buffer_new_def Let_def

lemma data_buffer_new_same: "p \<noteq> db_fresh s \<Longrightarrow> same_buf s (snd (data_buffer_new s n)) p"
  by (simp add: data_buffer_new_simps same_buf_def)

lemma data_buffer_new_facts [simp]:
  "fst (data_buffer_new s n) = db_fresh s"
  "db_fresh (snd (data_buffer_new s n)) = Suc (db_fresh s)"
  "db_next (snd (data_buffer_new s n)) = (db_next s)(db_fresh s := None)"
  by (simp_all add: data_buffer_new_simps)

lemma data_buffer_new_ok:
  "buf_ok (snd (data_buffer_new s n)) (db_fresh s)"
  "unread (snd (data_buffer_new s n)) (db_fresh s) = []"
  "room (snd (data_buffer_new s n)) (db_fresh s) = n"
  by (simp_all add: data_buffer_new_simps buf_ok_def unread_def room_def)

lemma map_eq_replicate: "(\<And>x. x \<in> set xs \<Longrightarrow> f x = c) \<Longrightarrow> map f xs = replicate (length xs) c"
  by (induction xs) auto

section \<open>The loops of append\<close>

lemma find_newbuf_llist:
  "llist nx p ns \<Longrightarrow> find_newbuf nx p acc = Some (if ns = [] then acc else Some (last ns))"
proof (induction ns arbitrary: p acc)
  case Nil
  then show ?case by (simp add: find_newbuf.simps [of nx None])
next
  case (Cons a ns)
  then show ?case by (cases ns) (auto simp: find_newbuf.simps [of nx "Some a"])
qed

lemma find_newbuf_diverges:
  assumes "\<And>a. a \<in> S \<Longrightarrow> \<exists>b \<in> S. nx a = Some b" and "p \<in> S"
  shows "find_newbuf nx (Some p) acc = None"
proof (rule ccontr)
  assume "find_newbuf nx (Some p) acc \<noteq> None"
  then obtain r where r: "find_newbuf nx (Some p) acc = Some r" by auto
  let ?P = "\<lambda>nx e (acc :: ptr option) (r :: ptr option).
    (\<forall>a \<in> S. \<exists>b \<in> S. nx a = Some b) \<longrightarrow> (\<forall>q. e = Some q \<longrightarrow> q \<notin> S)"
  have "?P nx (Some p) acc r"
  proof (rule find_newbuf.raw_induct [where P = ?P, OF _ r])
    fix f nx e acc r
    assume IH: "\<And>nx e acc r. f nx e acc = Some r \<Longrightarrow> ?P nx e acc r"
      and eq: "(case e of None \<Rightarrow> Some acc
        | Some e \<Rightarrow> f nx (nx e) (if nx e = None then Some e else acc)) = Some r"
    show "?P nx e acc r"
    proof (intro impI allI notI)
      fix q
      assume closed: "\<forall>a \<in> S. \<exists>b \<in> S. nx a = Some b" and e: "e = Some q" and "q \<in> S"
      then obtain b where "b \<in> S" "nx q = Some b" by blast
      moreover from this e eq have "f nx (Some b) acc = Some r" by simp
      ultimately show False using IH closed by blast
    qed
  qed
  with assms show False by blast
qed

lemma append_grow_llist:
  assumes "llist (db_next s) (Some b) bs" and "\<forall>p \<in> set bs. p < db_fresh s"
  shows "\<exists>s' cs. append_grow s b al n = Some s' \<and> llist (db_next s') (Some b) (bs @ cs) \<and>
    (\<forall>p < db_fresh s. same_buf s s' p) \<and>
    (\<forall>p < db_fresh s. p \<notin> set bs \<longrightarrow> db_next s' p = db_next s p) \<and>
    (\<forall>c \<in> set cs. db_fresh s \<le> c \<and> buf_ok s' c \<and> unread s' c = [] \<and> room s' c = DATA_BUFFER_SIZE) \<and>
    db_fresh s \<le> db_fresh s' \<and> n \<le> al + DATA_BUFFER_SIZE * length cs \<and> (n \<le> al \<longrightarrow> cs = [])"
  using assms
proof (induction "n - al" arbitrary: s bs al rule: less_induct)
  case less
  show ?case
  proof (cases "al < n")
    case False
    then have "append_grow s b al n = Some s" by (simp add: append_grow.simps [of s])
    with False less.prems show ?thesis by (intro exI [of _ s] exI [of _ "[]"]) simp
  next
    case True
    define t where "t = snd (data_buffer_new s DATA_BUFFER_SIZE)"
    let ?c = "db_fresh s"
    have nb: "?c \<notin> set bs" using less.prems(2) by auto
    have "llist (db_next t) (Some b) bs" using less.prems nb by (simp add: t_def)
    from LL_APPEND_llist [OF this nb] obtain nx p' where
      ap: "LL_APPEND (db_next t) (Some b) ?c = Some (nx, p')" and
      ll: "llist nx p' (bs @ [?c])" and p': "bs \<noteq> [] \<longrightarrow> p' = Some b" and
      fr: "\<forall>x. x \<notin> set bs \<longrightarrow> x \<noteq> ?c \<longrightarrow> nx x = db_next t x" by blast
    have "bs \<noteq> []" using less.prems(1) by auto
    with p' ll have ll: "llist (db_next (t\<lparr>db_next := nx\<rparr>)) (Some b) (bs @ [?c])" by simp
    have size: "0 < DATA_BUFFER_SIZE" by (simp add: DATA_BUFFER_SIZE_def)
    have fresh: "db_fresh (t\<lparr>db_next := nx\<rparr>) = Suc ?c" by (simp add: t_def)
    have "\<forall>p \<in> set (bs @ [?c]). p < db_fresh (t\<lparr>db_next := nx\<rparr>)"
      using less.prems(2) by (auto simp: fresh less_Suc_eq)
    from less.hyps [OF _ ll this, of "al + DATA_BUFFER_SIZE"] True size obtain s' cs where
      IH: "append_grow (t\<lparr>db_next := nx\<rparr>) b (al + DATA_BUFFER_SIZE) n = Some s'"
      "llist (db_next s') (Some b) ((bs @ [?c]) @ cs)"
      "\<forall>p < Suc ?c. same_buf t s' p"
      "\<forall>p < Suc ?c. p \<notin> set (bs @ [?c]) \<longrightarrow> db_next s' p = nx p"
      "\<forall>c \<in> set cs. Suc ?c \<le> c \<and> buf_ok s' c \<and> unread s' c = [] \<and> room s' c = DATA_BUFFER_SIZE"
      "Suc ?c \<le> db_fresh s'" "n \<le> al + DATA_BUFFER_SIZE + DATA_BUFFER_SIZE * length cs"
      unfolding fresh by (force simp: same_buf_def)
    have g: "append_grow s b al n = Some s'"
      using True ap IH(1) by (simp add: append_grow.simps [of s] t_def)
    have c: "same_buf t s' ?c" using IH(3) by simp
    have cok: "buf_ok s' ?c \<and> unread s' ?c = [] \<and> room s' ?c = DATA_BUFFER_SIZE"
      using same_buf_ok [OF c] same_buf_unread [OF c] same_buf_room [OF c] IH(6)
        data_buffer_new_ok [of s DATA_BUFFER_SIZE] by (simp add: t_def)
    have old: "\<forall>p < ?c. same_buf s s' p"
      using IH(3) data_buffer_new_same [of _ s DATA_BUFFER_SIZE]
      by (metis less_Suc_eq nat_neq_iff same_buf_trans t_def)
    have nx: "\<forall>p < ?c. p \<notin> set bs \<longrightarrow> db_next s' p = db_next s p"
      using IH(4) fr by (auto simp: t_def)
    show ?thesis
      using g IH(2,5,6,7) cok old nx True
      by (intro exI [of _ s'] exI [of _ "?c # cs"]) (auto simp: Suc_le_eq)
  qed
qed

lemma copy_into_facts [simp]:
  "db_next (copy_into s e src off) = db_next s"
  "db_fresh (copy_into s e src off) = db_fresh s"
  "p \<noteq> e \<Longrightarrow> same_buf s (copy_into s e src off) p"
  by (simp_all add: copy_into_def Let_def same_buf_def)

lemma copy_count_min: "copy_count s e src off = min (length src - off) (room s e)"
  by (simp add: copy_count_def room_def)

lemma copy_into_ok:
  assumes "buf_ok s e"
  shows "buf_ok (copy_into s e src off) e"
    and "unread (copy_into s e src off) e =
      unread s e @ take (copy_count s e src off) (drop off src)"
proof -
  let ?c = "copy_count s e src off" and ?w = "db_wOffset s e" and ?b = "db_buffer s e"
  have c: "?c \<le> length src - off" "?w + ?c \<le> db_size s e"
    using assms by (auto simp: copy_count_def buf_ok_def)
  then show "buf_ok (copy_into s e src off) e"
    using assms by (auto simp: buf_ok_def copy_into_def Let_def)
  have l: "length (take ?c (drop off src)) = ?c" using c by simp
  have "take (?w + ?c) (take ?w ?b @ take ?c (drop off src) @ drop (?w + ?c) ?b) =
      take ?w ?b @ take ?c (drop off src)"
    using assms l by (simp add: buf_ok_def)
  then show "unread (copy_into s e src off) e = unread s e @ take ?c (drop off src)"
    using assms by (simp add: unread_def copy_into_def Let_def buf_ok_def)
qed

lemma append_copy_llist:
  assumes "llist (db_next s) p bs" and "\<forall>b \<in> set bs. buf_ok s b"
    and "\<forall>b \<in> set (tl bs). unread s b = []"
  shows "\<exists>s'. append_copy s p src off = Some s' \<and> db_next s' = db_next s \<and>
    db_fresh s' = db_fresh s \<and> (\<forall>q. q \<notin> set bs \<longrightarrow> same_buf s s' q) \<and>
    (\<forall>b \<in> set bs. buf_ok s' b) \<and>
    pending s' bs = pending s bs @ take (sum_list (map (room s) bs)) (drop off src)"
  using assms
proof (induction bs arbitrary: s p off)
  case Nil
  then show ?case by (intro exI [of _ s]) (simp add: append_copy.simps [of _ None])
next
  case (Cons b bs)
  let ?t = "copy_into s b src off" and ?c = "copy_count s b src off"
  have b: "b \<notin> set bs" using llist_distinct [OF Cons.prems(1)] by simp
  have sb: "\<forall>q \<in> set bs. same_buf s ?t q" using b by (metis copy_into_facts(3))
  have 1: "llist (db_next ?t) (db_next ?t b) bs" using Cons.prems(1) by simp
  have 2: "\<forall>q \<in> set bs. buf_ok ?t q"
    using sb Cons.prems(2) by (auto intro: same_buf_ok)
  have un: "\<forall>q \<in> set bs. unread ?t q = []"
    using sb Cons.prems(3) by (auto simp: same_buf_unread)
  then have 3: "\<forall>q \<in> set (tl bs). unread ?t q = []" by (cases bs) auto
  from Cons.IH [OF 1 2 3, of "off + ?c"] obtain s' where
    IH: "append_copy ?t (db_next ?t b) src (off + ?c) = Some s'" "db_next s' = db_next ?t"
    "db_fresh s' = db_fresh ?t" "\<forall>q. q \<notin> set bs \<longrightarrow> same_buf ?t s' q" "\<forall>q \<in> set bs. buf_ok s' q"
    "pending s' bs = pending ?t bs @ take (sum_list (map (room ?t) bs)) (drop (off + ?c) src)"
    by blast
  have r: "map (room ?t) bs = map (room s) bs"
    using sb by (simp add: same_buf_room cong: map_cong)
  have "pending ?t bs = []" "pending s bs = []"
    using un Cons.prems(3) by (auto intro: pending_empty)
  moreover have "same_buf ?t s' b" using IH(4) b by simp
  then have "unread s' b = unread s b @ take ?c (drop off src)"
    using copy_into_ok(2) [of s b src off] Cons.prems(2) by (simp add: same_buf_unread)
  moreover have "take ?c (drop off src) @ take (sum_list (map (room s) bs)) (drop (off + ?c) src) =
      take (room s b + sum_list (map (room s) bs)) (drop off src)"
  proof (cases "length src - off \<le> room s b")
    case True
    then show ?thesis by (simp add: copy_count_min)
  next
    case False
    then have "?c = room s b" by (simp add: copy_count_min)
    then show ?thesis by (simp add: take_add add.commute)
  qed
  ultimately have "pending s' (b # bs) =
      pending s (b # bs) @ take (sum_list (map (room s) (b # bs))) (drop off src)"
    using IH(6) r by simp
  moreover have "buf_ok s' b"
    using IH(3,4) b copy_into_ok(1) [of s b src off] Cons.prems(2)
    by (auto intro: same_buf_ok)
  moreover have "\<forall>q. q \<notin> set (b # bs) \<longrightarrow> same_buf s s' q"
    using IH(4) copy_into_facts(3) [of _ b s src off] same_buf_trans by (metis set_ConsD list.set_intros)
  moreover have "append_copy s p src off = Some s'"
    using Cons.prems(1) IH(1) by (simp add: append_copy.simps [of s])
  ultimately show ?case using IH(2,3,5) by auto
qed

section \<open>Append\<close>

text \<open>
  The two ways append starts: a new buffer, or the last one of the list when it has
  room. \<open>last_room\<close> is the room left in the last buffer, 0 for an empty list.
\<close>

definition last_room :: "dbstore \<Rightarrow> ptr list \<Rightarrow> nat" where
  "last_room s ns = (if ns = [] then 0 else room s (last ns))"

lemma buf_ok_full: "buf_ok s e \<Longrightarrow> db_wOffset s e = db_size s e \<longleftrightarrow> room s e = 0"
  by (auto simp: buf_ok_def room_def)

lemma lock_unlocked:
  "unlocked l \<Longrightarrow> data_buffer_list_lock l True True = Some (l\<lparr>dl_wrlock := True, dl_rdlock := True\<rparr>)"
  by (simp add: unlocked_def data_buffer_list_lock_def)

lemma unlock_all: "unlocked (data_buffer_list_unlock l True True)"
  by (simp add: unlocked_def data_buffer_list_unlock_def)

text \<open>The list is empty or its last buffer full: a fresh chain is built and concatenated.\<close>

lemma append_fresh_chain:
  assumes rep: "dl_rep s l ns" and u: "unlocked l" and src: "src \<noteq> []" and r: "last_room s ns = 0"
  shows "\<exists>s' l' ms. data_buffer_list_append s l src = Some (Inr (s', l')) \<and> unlocked l' \<and>
    dl_rep s' l' (ns @ ms) \<and> pending s' (ns @ ms) = pending s ns @ src"
proof -
  let ?b = "db_fresh s" and ?n = DATA_BUFFER_SIZE
  let ?s1 = "snd (data_buffer_new s ?n)"
  from rep have ll: "llist (db_next s) (dl_first l) ns" and ok: "\<forall>p \<in> set ns. buf_ok s p"
    by (simp_all add: dl_rep_def)
  have lt: "\<forall>p \<in> set ns. p < ?b" using ok by (auto simp: buf_ok_def)
  have f: "find_newbuf (db_next s) (dl_first l) None = Some (if ns = [] then None else Some (last ns))"
    using ll by (rule find_newbuf_llist)
  have full: "ns \<noteq> [] \<Longrightarrow> db_wOffset s (last ns) = db_size s (last ns)"
    using r ok by (simp add: last_room_def buf_ok_full)
  have "llist (db_next ?s1) (Some ?b) [?b]" by simp
  moreover have "\<forall>p \<in> set [?b]. p < db_fresh ?s1" by simp
  ultimately obtain s2 cs where g:
    "append_grow ?s1 ?b ?n (length src) = Some s2" "llist (db_next s2) (Some ?b) ([?b] @ cs)"
    "\<forall>p < Suc ?b. same_buf ?s1 s2 p" "\<forall>p < Suc ?b. p \<notin> set [?b] \<longrightarrow> db_next s2 p = db_next ?s1 p"
    "\<forall>c \<in> set cs. Suc ?b \<le> c \<and> buf_ok s2 c \<and> unread s2 c = [] \<and> room s2 c = ?n"
    "Suc ?b \<le> db_fresh s2" "length src \<le> ?n + ?n * length cs"
    using append_grow_llist [of ?s1 ?b "[?b]" ?n "length src"] by auto
  have sb: "same_buf ?s1 s2 ?b" using g(3) by simp
  have bok: "buf_ok s2 ?b \<and> unread s2 ?b = [] \<and> room s2 ?b = ?n"
    using same_buf_ok [OF sb] same_buf_unread [OF sb] same_buf_room [OF sb] g(6)
      data_buffer_new_ok [of s ?n] by simp
  have "\<forall>b \<in> set (?b # cs). buf_ok s2 b" "\<forall>b \<in> set (tl (?b # cs)). unread s2 b = []"
    using bok g(5) by auto
  with g(2) obtain s3 where c:
    "append_copy s2 (Some ?b) src 0 = Some s3" "db_next s3 = db_next s2" "db_fresh s3 = db_fresh s2"
    "\<forall>q. q \<notin> set (?b # cs) \<longrightarrow> same_buf s2 s3 q" "\<forall>b \<in> set (?b # cs). buf_ok s3 b"
    "pending s3 (?b # cs) = pending s2 (?b # cs) @ take (sum_list (map (room s2) (?b # cs))) (drop 0 src)"
    using append_copy_llist [of s2 "Some ?b" "?b # cs" src 0] by auto
  have "map (room s2) cs = replicate (length cs) ?n"
    using g(5) by (auto simp: map_eq_replicate)
  then have "map (room s2) (?b # cs) = replicate (Suc (length cs)) ?n"
    using bok by simp
  then have "length src \<le> sum_list (map (room s2) (?b # cs))"
    using g(7) by (simp add: sum_list_replicate mult.commute)
  moreover have "pending s2 (?b # cs) = []" using bok g(5) by (intro pending_empty) auto
  ultimately have p3: "pending s3 (?b # cs) = src" using c(6) by simp
  have disj: "set ns \<inter> set (?b # cs) = {}" using lt g(5) by (force simp: Suc_le_eq)
  have same: "\<forall>p \<in> set ns. same_buf s s3 p"
  proof
    fix p assume p: "p \<in> set ns"
    then have "p < ?b" "p \<notin> set (?b # cs)" using lt disj by auto
    then show "same_buf s s3 p"
      using data_buffer_new_same [of p s ?n] g(3) c(4) by (metis less_SucI nat_neq_iff same_buf_trans)
  qed
  have "llist (db_next s3) (dl_first l) ns"
    using ll lt g(4) c(2) by (subst lpath_cong [where nx' = "db_next s"]) auto
  from LL_CONCAT_llist [OF this _ disj, of "Some ?b"] g(2) c(2) obtain nx5 p5 where
    cc: "LL_CONCAT (db_next s3) (dl_first l) (Some ?b) = Some (nx5, p5)" "llist nx5 p5 (ns @ ?b # cs)"
    by auto
  let ?s' = "s3\<lparr>db_next := nx5\<rparr>"
  let ?l' = "data_buffer_list_unlock (l\<lparr>dl_wrlock := True, dl_rdlock := True, dl_first := p5\<rparr>) True True"
  have "data_buffer_list_append s l src = Some (Inr (?s', ?l'))"
    using src u f full g(1) c(1) cc(1) bok
    by (auto simp: data_buffer_list_append_def lock_unlocked data_buffer_new_simps room_def)
  moreover have "\<forall>p \<in> set ns. buf_ok s3 p"
    using same ok g(6) c(3) by (auto intro: same_buf_ok)
  then have "dl_rep ?s' ?l' (ns @ ?b # cs)"
    using cc(2) c(5) by (auto simp: dl_rep_def data_buffer_list_unlock_def)
  moreover have "pending s3 ns = pending s ns"
    using same by (intro pending_cong) (auto simp: same_buf_unread)
  then have "pending ?s' (ns @ ?b # cs) = pending s ns @ src"
    using p3 by simp
  ultimately show ?thesis using unlock_all by blast
qed

text \<open>
  The last buffer has room. The chain that starts at it is the end of the list itself:
  after the copy its first node is dropped from the chain, and what is left is
  concatenated to the list it is already part of.
\<close>

lemma append_into_last:
  assumes rep: "dl_rep s l ns" and u: "unlocked l" and src: "src \<noteq> []" and r: "0 < last_room s ns"
  obtains s3 cs where
    "llist (db_next s3) (dl_first l) (ns @ cs)" and "\<forall>p \<in> set (ns @ cs). buf_ok s3 p"
    and "pending s3 (ns @ cs) = pending s ns @ take (last_room s ns + DATA_BUFFER_SIZE * length cs) src"
    and "length src \<le> last_room s ns + DATA_BUFFER_SIZE * length cs"
    and "length src \<le> last_room s ns \<longrightarrow> cs = []"
    and "data_buffer_list_append s l src =
      (case LL_CONCAT (db_next s3) (dl_first l) (db_next s3 (last ns)) of
         None \<Rightarrow> None
       | Some (nx5, p5) \<Rightarrow> Some (Inr (s3\<lparr>db_next := nx5\<rparr>,
           data_buffer_list_unlock (l\<lparr>dl_wrlock := True, dl_rdlock := True, dl_first := p5\<rparr>) True True)))"
proof -
  let ?n = DATA_BUFFER_SIZE
  from rep have ll: "llist (db_next s) (dl_first l) ns" and ok: "\<forall>p \<in> set ns. buf_ok s p"
    by (simp_all add: dl_rep_def)
  from r have ne: "ns \<noteq> []" by (auto simp: last_room_def)
  then obtain us e where ns: "ns = us @ [e]" by (metis rev_exhaust)
  have e: "last ns = e" "last_room s ns = room s e" "buf_ok s e" using ns ok by (auto simp: last_room_def)
  have le: "llist (db_next s) (Some e) [e]" using ll ns by auto
  have eu: "e \<notin> set us" using llist_distinct [OF ll] ns by simp
  have lt: "\<forall>p \<in> set ns. p < db_fresh s" using ok by (auto simp: buf_ok_def)
  have f: "find_newbuf (db_next s) (dl_first l) None = Some (Some e)"
    using find_newbuf_llist [OF ll] ne e by simp
  have nf: "db_wOffset s e \<noteq> db_size s e" using r e by (simp add: buf_ok_full)
  have "\<forall>p \<in> set [e]. p < db_fresh s" using lt ns by simp
  with le obtain s2 cs where g:
    "append_grow s e (room s e) (length src) = Some s2" "llist (db_next s2) (Some e) ([e] @ cs)"
    "\<forall>p < db_fresh s. same_buf s s2 p"
    "\<forall>p < db_fresh s. p \<notin> set [e] \<longrightarrow> db_next s2 p = db_next s p"
    "\<forall>c \<in> set cs. db_fresh s \<le> c \<and> buf_ok s2 c \<and> unread s2 c = [] \<and> room s2 c = ?n"
    "db_fresh s \<le> db_fresh s2" "length src \<le> room s e + ?n * length cs" "length src \<le> room s e \<longrightarrow> cs = []"
    using append_grow_llist [of s e "[e]" "room s e" "length src"] by blast
  have se: "same_buf s s2 e" using g(3) lt ns by auto
  have eok: "buf_ok s2 e" "unread s2 e = unread s e" "room s2 e = room s e"
    using se g(6) e(3) by (auto simp: same_buf_unread same_buf_room intro: same_buf_ok)
  have "\<forall>b \<in> set (e # cs). buf_ok s2 b" "\<forall>b \<in> set (tl (e # cs)). unread s2 b = []"
    using eok g(5) by auto
  with g(2) obtain s3 where c:
    "append_copy s2 (Some e) src 0 = Some s3" "db_next s3 = db_next s2" "db_fresh s3 = db_fresh s2"
    "\<forall>q. q \<notin> set (e # cs) \<longrightarrow> same_buf s2 s3 q" "\<forall>b \<in> set (e # cs). buf_ok s3 b"
    "pending s3 (e # cs) = pending s2 (e # cs) @ take (sum_list (map (room s2) (e # cs))) (drop 0 src)"
    using append_copy_llist [of s2 "Some e" "e # cs" src 0] by auto
  have "map (room s2) cs = replicate (length cs) ?n"
    using g(5) by (auto simp: map_eq_replicate)
  then have "sum_list (map (room s2) (e # cs)) = last_room s ns + ?n * length cs"
    using eok e by (simp add: sum_list_replicate mult.commute)
  moreover have "pending s2 cs = []" using g(5) by (intro pending_empty) auto
  ultimately have p3: "pending s3 (e # cs) = unread s e @ take (last_room s ns + ?n * length cs) src"
    using c(6) eok by simp
  have us: "\<forall>p \<in> set us. same_buf s s3 p"
  proof
    fix p assume p: "p \<in> set us"
    then have "p < db_fresh s" "p \<notin> set (e # cs)" using lt ns eu g(5) by force+
    then show "same_buf s s3 p" using g(3) c(4) by (blast intro: same_buf_trans)
  qed
  show ?thesis
  proof (rule that [of s3 cs])
    have "lpath (db_next s3) (dl_first l) us (Some e)"
      using ll ns lt eu g(4) c(2) by (subst lpath_cong [where nx' = "db_next s"]) auto
    then show "llist (db_next s3) (dl_first l) (ns @ cs)" using ns g(2) c(2) by auto
    have "\<forall>p \<in> set us. buf_ok s3 p"
      using us ok ns g(6) c(3) by (auto intro: same_buf_ok)
    then show "\<forall>p \<in> set (ns @ cs). buf_ok s3 p" using c(5) ns by auto
    have "pending s3 us = pending s us"
      using us by (intro pending_cong) (auto simp: same_buf_unread)
    then show "pending s3 (ns @ cs) = pending s ns @ take (last_room s ns + ?n * length cs) src"
      using p3 ns by simp
    show "length src \<le> last_room s ns + ?n * length cs" using g(7) e by simp
    show "length src \<le> last_room s ns \<longrightarrow> cs = []" using g(8) e by simp
    show "data_buffer_list_append s l src =
      (case LL_CONCAT (db_next s3) (dl_first l) (db_next s3 (last ns)) of
         None \<Rightarrow> None
       | Some (nx5, p5) \<Rightarrow> Some (Inr (s3\<lparr>db_next := nx5\<rparr>,
           data_buffer_list_unlock (l\<lparr>dl_wrlock := True, dl_rdlock := True, dl_first := p5\<rparr>) True True)))"
      using src u f nf g(1) c(1) e
      by (auto simp: data_buffer_list_append_def lock_unlocked LL_DELETE_def room_def
          split: option.splits Option.bind_splits)
  qed
qed

lemma append_in_place:
  assumes rep: "dl_rep s l ns" and u: "unlocked l" and src: "src \<noteq> []" and r: "length src \<le> last_room s ns"
  shows "\<exists>s' l'. data_buffer_list_append s l src = Some (Inr (s', l')) \<and> unlocked l' \<and>
    dl_rep s' l' ns \<and> pending s' ns = pending s ns @ src"
proof -
  from src r have r0: "0 < last_room s ns" by (metis length_greater_0_conv order_less_le_trans)
  then have ne: "ns \<noteq> []" by (auto simp: last_room_def)
  from append_into_last [OF rep u src r0] r obtain s3 where
    a: "llist (db_next s3) (dl_first l) ns" "\<forall>p \<in> set ns. buf_ok s3 p"
    "pending s3 ns = pending s ns @ take (last_room s ns) src"
    "data_buffer_list_append s l src =
      (case LL_CONCAT (db_next s3) (dl_first l) (db_next s3 (last ns)) of
         None \<Rightarrow> None
       | Some (nx5, p5) \<Rightarrow> Some (Inr (s3\<lparr>db_next := nx5\<rparr>,
           data_buffer_list_unlock (l\<lparr>dl_wrlock := True, dl_rdlock := True, dl_first := p5\<rparr>) True True)))"
    by (metis append.right_neutral length_0_conv mult_0_right add_0_right)
  have n: "db_next s3 (last ns) = None" using a(1) ne by (rule llist_last_next)
  from LL_CONCAT_llist [OF a(1), of None "[]"] obtain nx5 p5 where
    "LL_CONCAT (db_next s3) (dl_first l) None = Some (nx5, p5)" "llist nx5 p5 ns"
    by auto
  with a n r unlock_all show ?thesis
    by (auto simp: dl_rep_def data_buffer_list_unlock_def)
qed

text \<open>
  The last buffer has some room, but not enough. The nodes after it are already in the
  list when they are concatenated to it, so its end is linked back into it.
\<close>

lemma append_cycle:
  assumes rep: "dl_rep s l ns" and u: "unlocked l"
    and r: "0 < last_room s ns" "last_room s ns < length src"
  shows "\<exists>s' l'. data_buffer_list_append s l src = Some (Inr (s', l')) \<and> dl_first l' = dl_first l \<and>
    (\<exists>S. (\<forall>a \<in> S. \<exists>b \<in> S. db_next s' a = Some b) \<and> (\<exists>h \<in> S. dl_first l' = Some h))"
proof -
  from r have src: "src \<noteq> []" by auto
  from r have ne: "ns \<noteq> []" by (auto simp: last_room_def)
  from append_into_last [OF rep u src r(1)] r(2) obtain s3 cs where
    a: "llist (db_next s3) (dl_first l) (ns @ cs)" and cs: "cs \<noteq> []" and
    ap: "data_buffer_list_append s l src =
      (case LL_CONCAT (db_next s3) (dl_first l) (db_next s3 (last ns)) of
         None \<Rightarrow> None
       | Some (nx5, p5) \<Rightarrow> Some (Inr (s3\<lparr>db_next := nx5\<rparr>,
           data_buffer_list_unlock (l\<lparr>dl_wrlock := True, dl_rdlock := True, dl_first := p5\<rparr>) True True)))"
    by (metis add.right_neutral linorder_not_le list.size(3) mult_0_right)
  from cs obtain c ds where cs': "cs = c # ds" by (cases cs) auto
  from ne obtain us e where ns: "ns = us @ [e]" by (metis rev_exhaust)
  from a ns cs' have nxt: "db_next s3 (last ns) = Some c" by auto
  from ns a obtain h where h: "dl_first l = Some h" "h \<in> set (ns @ cs)"
    by (cases us) auto
  have tl: "ll_last (db_next s3) h = Some (last cs)"
    using ll_last_llist [of "db_next s3" h "ns @ cs"] a h cs by simp
  let ?nx = "(db_next s3)(last cs := Some c)"
  have cc: "LL_CONCAT (db_next s3) (dl_first l) (Some c) = Some (?nx, dl_first l)"
    using h tl by (simp add: LL_CONCAT_def)
  from cs obtain vs z where vz: "cs = vs @ [z]" by (metis rev_exhaust)
  then have z: "z = last cs" by simp
  have "distinct (ns @ cs)" using a by (rule llist_distinct)
  then have "z \<notin> set (ns @ vs)" using vz by auto
  moreover have "lpath (db_next s3) (dl_first l) ((ns @ vs) @ [z]) None" using a vz by simp
  ultimately have "lpath ?nx (dl_first l) ((ns @ vs) @ [z]) (Some c)"
    unfolding z [symmetric] by auto
  then have path: "lpath ?nx (dl_first l) (ns @ cs) (Some c)" using vz by simp
  have closed: "\<forall>x \<in> set (ns @ cs). \<exists>y \<in> set (ns @ cs). ?nx x = Some y"
    using lpath_succ_in [OF path] cs' by auto
  let ?s' = "s3\<lparr>db_next := ?nx\<rparr>"
  let ?l' = "data_buffer_list_unlock
    (l\<lparr>dl_wrlock := True, dl_rdlock := True, dl_first := dl_first l\<rparr>) True True"
  have "data_buffer_list_append s l src = Some (Inr (?s', ?l'))"
    using ap nxt cc by simp
  moreover have "dl_first ?l' = dl_first l" by (simp add: data_buffer_list_unlock_def)
  moreover have "db_next ?s' = ?nx" by simp
  ultimately show ?thesis using closed h by metis
qed

lemma append_on_cycle:
  assumes "\<forall>a \<in> S. \<exists>b \<in> S. db_next s a = Some b" and "h \<in> S" and "dl_first l = Some h" and "src \<noteq> []"
  shows "data_buffer_list_append s l src = None"
proof -
  have "find_newbuf (db_next s) (Some h) None = None"
    using assms(1,2) by (intro find_newbuf_diverges [of S]) auto
  then show ?thesis
    using assms(3,4)
    by (auto simp: data_buffer_list_append_def data_buffer_list_lock_def)
qed

section \<open>The write loop\<close>

lemma writeto_loop_llist:
  assumes "dl_rep s l ns" and "makes_progress w" and "0 \<le> result"
  shows "\<exists>r s' l' w' ns'. writeto_loop s l w (dl_first l) result = Some (r, s', l', w') \<and>
    dl_rep s' l' ns' \<and> sent w' @ pending s' ns' = sent w @ pending s ns \<and>
    outcome w' = outcome w \<and> calls w \<le> calls w' \<and>
    dl_rdlock l' = dl_rdlock l \<and> dl_wrlock l' = dl_wrlock l \<and>
    (if r = -1
     then pending s' ns' \<noteq> [] \<and> calls w < calls w' \<and> outcome w (calls w' - 1) = Fails (errno w')
     else ns' = [] \<and> r = result + int (length (pending s ns)))"
  using assms
proof (induction "length (pending s ns) + length ns" arbitrary: s l w ns result rule: less_induct)
  case less
  have ll: "llist (db_next s) (dl_first l) ns" and ok: "\<forall>p \<in> set ns. buf_ok s p"
    using less.prems(1) by (simp_all add: dl_rep_def)
  show ?case
  proof (cases ns)
    case Nil
    with ll have "dl_first l = None" by simp
    then have "writeto_loop s l w (dl_first l) result = Some (result, s, l, w)"
      by (simp add: writeto_loop.simps [of s])
    with Nil less.prems show ?thesis by (intro exI conjI) (auto simp: dl_rep_def)
  next
    case (Cons e ms)
    with ll have first: "dl_first l = Some e" and ms: "llist (db_next s) (db_next s e) ms" by auto
    have eok: "buf_ok s e" and em: "e \<notin> set ms"
      using ok Cons llist_distinct [OF ll] by auto
    show ?thesis
    proof (cases "db_wOffset s e - db_rOffset s e > 0")
      case False
      let ?s = "data_buffer_delete s e" and ?l = "l\<lparr>dl_first := db_next s e\<rparr>"
      have un: "unread s e = []" using length_unread [OF eok] False by simp
      have same: "\<And>p. p \<in> set ms \<Longrightarrow> same_buf s ?s p"
        using em by (auto simp: same_buf_def data_buffer_delete_def)
      then have p: "pending ?s ms = pending s ms"
        by (intro pending_cong) (auto simp: same_buf_unread)
      have "dl_rep ?s ?l ms"
        using ms ok Cons same_buf_ok [OF same] by (auto simp: dl_rep_def data_buffer_delete_def)
      moreover have "length (pending ?s ms) + length ms < length (pending s ns) + length ns"
        using Cons p by simp
      ultimately obtain r s' l' w' ns' where IH:
        "writeto_loop ?s ?l w (dl_first ?l) result = Some (r, s', l', w')"
        "dl_rep s' l' ns'" "sent w' @ pending s' ns' = sent w @ pending ?s ms"
        "outcome w' = outcome w" "calls w \<le> calls w'"
        "dl_rdlock l' = dl_rdlock l" "dl_wrlock l' = dl_wrlock l"
        "if r = -1
         then pending s' ns' \<noteq> [] \<and> calls w < calls w' \<and> outcome w (calls w' - 1) = Fails (errno w')
         else ns' = [] \<and> r = result + int (length (pending ?s ms))"
        using less.hyps [of ?s ms ?l w result] less.prems(2,3) by auto
      have st: "writeto_loop s l w (dl_first l) result = writeto_loop ?s ?l w (dl_first ?l) result"
        using False first by (simp add: writeto_loop.simps [of s] LL_DELETE_def)
      show ?thesis
        using IH st p Cons un
        by (intro exI [of _ r] exI [of _ s'] exI [of _ l'] exI [of _ w'] exI [of _ ns'])
           (auto split: if_splits)
    next
      case True
      have un: "unread s e \<noteq> []" using length_unread [OF eok] True by auto
      show ?thesis
      proof (cases rule: sys_write_cases [of w "unread s e"])
        case (fails x)
        then have "writeto_loop s l w (dl_first l) result =
            Some (-1, s, l, w\<lparr>calls := Suc (calls w), errno := x\<rparr>)"
          using True first by (simp add: writeto_loop.simps [of s])
        with fails(2) less.prems(1) Cons un show ?thesis
          by (intro exI [of _ "-1"] exI [of _ s] exI [of _ l]
                exI [of _ "w\<lparr>calls := Suc (calls w), errno := x\<rparr>"] exI [of _ ns]) simp
      next
        case (accepts m)
        have "outcome w (calls w) \<noteq> Accepts 0" using less.prems(2) by (simp add: makes_progress_def)
        moreover obtain k where k: "outcome w (calls w) = Accepts k"
          using accepts(2) by (cases "outcome w (calls w)") (auto simp: sys_write_def)
        ultimately have m0: "0 < m" using accepts(3) [OF k] un by (cases k) auto
        let ?w = "w\<lparr>calls := Suc (calls w), sent := sent w @ take m (unread s e)\<rparr>"
        let ?s = "s\<lparr>db_rOffset := (db_rOffset s)(e := db_rOffset s e + m)\<rparr>"
        have ml: "m \<le> db_wOffset s e - db_rOffset s e" using accepts(1) length_unread [OF eok] by simp
        have ue: "unread ?s e = drop m (unread s e)" by (simp add: unread_def add.commute)
        have same: "\<And>p. p \<in> set ms \<Longrightarrow> same_buf s ?s p" using em by (auto simp: same_buf_def)
        then have p: "pending ?s ns = drop m (unread s e) @ pending s ms"
          using Cons ue pending_cong [of ms ?s s] by (auto simp: same_buf_unread)
        have "buf_ok ?s e" using eok ml by (auto simp: buf_ok_def)
        then have "dl_rep ?s l ns"
          using ll ok Cons same by (auto simp: dl_rep_def intro!: same_buf_ok [OF same])
        moreover have "makes_progress ?w" using less.prems(2) by simp
        moreover have "0 \<le> result + int m" using less.prems(3) by simp
        moreover have "length (pending ?s ns) + length ns < length (pending s ns) + length ns"
          using p Cons m0 accepts(1) un by simp
        ultimately obtain r s' l' w' ns' where IH:
          "writeto_loop ?s l ?w (dl_first l) (result + int m) = Some (r, s', l', w')"
          "dl_rep s' l' ns'" "sent w' @ pending s' ns' = sent ?w @ pending ?s ns"
          "outcome w' = outcome ?w" "calls ?w \<le> calls w'"
          "dl_rdlock l' = dl_rdlock l" "dl_wrlock l' = dl_wrlock l"
          "if r = -1
           then pending s' ns' \<noteq> [] \<and> calls ?w < calls w' \<and> outcome ?w (calls w' - 1) = Fails (errno w')
           else ns' = [] \<and> r = result + int m + int (length (pending ?s ns))"
          using less.hyps [of ?s ns l ?w "result + int m"] by blast
        have st: "writeto_loop s l w (dl_first l) result =
            writeto_loop ?s l ?w (dl_first l) (result + int m)"
          using True first accepts(2) m0 by (simp add: writeto_loop.simps [of s])
        have len: "int m + int (length (pending ?s ns)) = int (length (pending s ns))"
          using p Cons accepts(1) by simp
        show ?thesis
          using IH st len p Cons accepts(1)
          by (intro exI [of _ r] exI [of _ s'] exI [of _ l'] exI [of _ w'] exI [of _ ns'])
             (auto split: if_splits)
      qed
    qed
  qed
qed

section \<open>The list as a byte queue\<close>

text \<open>
  The contract the write loop of the server relies on: a queue of bytes that is filled
  when it is empty and drained into a descriptor. \<open>rep q c\<close> says that the queue is
  well formed, nobody holds its locks, and \<open>c\<close> is what it still has to send.
\<close>

locale byte_fifo =
  fixes rep :: "'q \<Rightarrow> string \<Rightarrow> bool"
    and put :: "'q \<Rightarrow> string \<Rightarrow> 'q res option"
    and drain :: "'q \<Rightarrow> fd_world \<Rightarrow> (int \<times> 'q \<times> fd_world) option"
  assumes put_law: "rep q [] \<Longrightarrow> bs \<noteq> [] \<Longrightarrow> \<exists>q'. put q bs = Some (Inr q') \<and> rep q' bs"
    and drain_law: "rep q c \<Longrightarrow> makes_progress w \<Longrightarrow>
      \<exists>r q' w' c'. drain q w = Some (r, q', w') \<and> rep q' c' \<and> sent w' @ c' = sent w @ c \<and>
        outcome w' = outcome w \<and>
        (if r = -1 then c' \<noteq> [] \<and> outcome w (calls w' - 1) = Fails (errno w')
         else c' = [] \<and> r = int (length c))"
begin

text \<open>Draining again and again, whatever the socket answers in between.\<close>

primrec drains :: "nat \<Rightarrow> 'q \<Rightarrow> fd_world \<Rightarrow> ('q \<times> fd_world) option" where
  "drains 0 q w = Some (q, w)"
| "drains (Suc n) q w =
     (case drain q w of None \<Rightarrow> None | Some (r, q', w') \<Rightarrow> drains n q' w')"

lemma drains_conserve:
  "rep q c \<Longrightarrow> makes_progress w \<Longrightarrow>
   \<exists>q' w' c'. drains n q w = Some (q', w') \<and> rep q' c' \<and> sent w' @ c' = sent w @ c"
proof (induction n arbitrary: q w c)
  case 0
  then show ?case by auto
next
  case (Suc n)
  from drain_law [OF Suc.prems] obtain r q1 w1 c1 where
    d: "drain q w = Some (r, q1, w1)" "rep q1 c1" "sent w1 @ c1 = sent w @ c" "outcome w1 = outcome w"
    by blast
  moreover have "makes_progress w1" using d(4) Suc.prems(2) by (simp add: makes_progress_def)
  ultimately obtain q' w' c' where "drains n q1 w1 = Some (q', w')" "rep q' c'"
    "sent w' @ c' = sent w1 @ c1"
    using Suc.IH by blast
  with d show ?case by auto
qed

lemma put_then_drains:
  assumes "rep q []" and "bs \<noteq> []" and "makes_progress w"
  shows "\<exists>q1 q' w' c'. put q bs = Some (Inr q1) \<and> drains n q1 w = Some (q', w') \<and> rep q' c' \<and>
    sent w' @ c' = sent w @ bs"
  using put_law [OF assms(1,2)] drains_conserve [OF _ assms(3)] by metis

end

text \<open>The code's list, its store and its list head together, is such a queue.\<close>

type_synonym dl_state = "dbstore \<times> data_buffer_list"

definition dl_holds :: "dl_state \<Rightarrow> string \<Rightarrow> bool" where
  "dl_holds q c \<longleftrightarrow> (\<exists>ns. dl_rep (fst q) (snd q) ns \<and> unlocked (snd q) \<and>
     pending (fst q) ns = c \<and> (c = [] \<longrightarrow> ns = []))"

abbreviation dl_put :: "dl_state \<Rightarrow> string \<Rightarrow> dl_state res option" where
  "dl_put q \<equiv> data_buffer_list_append (fst q) (snd q)"

definition dl_drain :: "dl_state \<Rightarrow> fd_world \<Rightarrow> (int \<times> dl_state \<times> fd_world) option" where
  "dl_drain q w =
     (case data_buffer_list_writeto_fd (fst q) (snd q) w of
        None \<Rightarrow> None
      | Some (r, s, l, w') \<Rightarrow> Some (r, (s, l), w'))"

lemma dl_put_empty:
  assumes "dl_holds q []" and "bs \<noteq> []"
  shows "\<exists>q'. dl_put q bs = Some (Inr q') \<and> dl_holds q' bs"
proof -
  from assms(1) have "dl_rep (fst q) (snd q) []" "unlocked (snd q)" by (auto simp: dl_holds_def)
  from append_fresh_chain [OF this assms(2)] obtain s' l' ms where
    "dl_put q bs = Some (Inr (s', l'))" "unlocked l'" "dl_rep s' l' ms" "pending s' ms = bs"
    by (auto simp: last_room_def)
  with assms(2) show ?thesis by (auto simp: dl_holds_def)
qed

lemma writeto_fd_rep:
  assumes "dl_rep s l ns" and "unlocked l" and "makes_progress w"
  shows "\<exists>r s' l' w' ns'. data_buffer_list_writeto_fd s l w = Some (r, s', l', w') \<and>
    dl_rep s' l' ns' \<and> unlocked l' \<and> sent w' @ pending s' ns' = sent w @ pending s ns \<and>
    outcome w' = outcome w \<and>
    (if r = -1 then pending s' ns' \<noteq> [] \<and> outcome w (calls w' - 1) = Fails (errno w')
     else ns' = [] \<and> r = int (length (pending s ns)))"
proof -
  let ?l = "l\<lparr>dl_rdlock := True\<rparr>"
  have lock: "data_buffer_list_lock l True False = Some ?l"
    using assms(2) by (simp add: data_buffer_list_lock_def unlocked_def)
  have "dl_rep s ?l ns" using assms(1) by (simp add: dl_rep_def)
  from writeto_loop_llist [OF this assms(3), of 0] obtain r s' l' w' ns' where
    "writeto_loop s ?l w (dl_first ?l) 0 = Some (r, s', l', w')" "dl_rep s' l' ns'"
    "sent w' @ pending s' ns' = sent w @ pending s ns" "outcome w' = outcome w"
    "dl_rdlock l' = dl_rdlock ?l" "dl_wrlock l' = dl_wrlock ?l"
    "if r = -1
     then pending s' ns' \<noteq> [] \<and> calls w < calls w' \<and> outcome w (calls w' - 1) = Fails (errno w')
     else ns' = [] \<and> r = 0 + int (length (pending s ns))"
    by auto
  with lock assms(2) show ?thesis
    by (intro exI [of _ r] exI [of _ s'] exI [of _ "data_buffer_list_unlock l' True False"]
          exI [of _ w'] exI [of _ ns'])
       (auto simp: data_buffer_list_writeto_fd_def data_buffer_list_unlock_def unlocked_def dl_rep_def
          split: if_splits)
qed

lemma dl_drain_holds:
  assumes "dl_holds q c" and "makes_progress w"
  shows "\<exists>r q' w' c'. dl_drain q w = Some (r, q', w') \<and> dl_holds q' c' \<and> sent w' @ c' = sent w @ c \<and>
    outcome w' = outcome w \<and>
    (if r = -1 then c' \<noteq> [] \<and> outcome w (calls w' - 1) = Fails (errno w')
     else c' = [] \<and> r = int (length c))"
proof -
  from assms(1) obtain ns where ns: "dl_rep (fst q) (snd q) ns" "unlocked (snd q)" "pending (fst q) ns = c"
    by (auto simp: dl_holds_def)
  from writeto_fd_rep [OF ns(1,2) assms(2)] obtain r s' l' w' ns' where
    "data_buffer_list_writeto_fd (fst q) (snd q) w = Some (r, s', l', w')" "dl_rep s' l' ns'" "unlocked l'"
    "sent w' @ pending s' ns' = sent w @ c" "outcome w' = outcome w"
    "if r = -1 then pending s' ns' \<noteq> [] \<and> outcome w (calls w' - 1) = Fails (errno w')
     else ns' = [] \<and> r = int (length c)"
    unfolding ns(3) by blast
  then show ?thesis
    by (intro exI [of _ r] exI [of _ "(s', l')"] exI [of _ w'] exI [of _ "pending s' ns'"])
       (auto simp: dl_drain_def dl_holds_def split: if_splits)
qed

interpretation dl: byte_fifo dl_holds dl_put dl_drain
  by unfold_locales (use dl_put_empty dl_drain_holds in blast)+

section \<open>Properties\<close>

text \<open>
  Appending \<open>n\<close> bytes to a well-formed list that is empty, whose last buffer is full or
  whose last buffer has room for them leaves a well-formed list, both locks released,
  whose unsent bytes are the old ones followed by the new ones.
\<close>

theorem append_appends:
  assumes "dl_rep s l ns" and "unlocked l" and "src \<noteq> []"
    and "last_room s ns = 0 \<or> length src \<le> last_room s ns"
  shows "\<exists>s' l' ns'. data_buffer_list_append s l src = Some (Inr (s', l')) \<and> unlocked l' \<and>
    dl_rep s' l' ns' \<and> pending s' ns' = pending s ns @ src"
  using assms(4)
proof
  assume "last_room s ns = 0"
  from append_fresh_chain [OF assms(1-3) this] show ?thesis by blast
next
  assume "length src \<le> last_room s ns"
  from append_in_place [OF assms(1-3) this] show ?thesis by blast
qed

definition one_buffer :: dbstore where
  "one_buffer = \<lparr>db_buffer = (\<lambda>_. ''abc'' @ [NUL]), db_size = (\<lambda>_. 4), db_wOffset = (\<lambda>_. 3),
     db_rOffset = (\<lambda>_. 1), db_next = (\<lambda>_. None), db_live = (\<lambda>_. True), db_fresh = 1\<rparr>"

abbreviation one_list :: data_buffer_list where
  "one_list \<equiv> \<lparr>dl_first = Some 0, dl_wrlock = False, dl_rdlock = False\<rparr>"

lemma one_buffer_rep: "dl_rep one_buffer one_list [0]" "unlocked one_list"
  by (simp_all add: dl_rep_def one_buffer_def buf_ok_def unlocked_def)

theorem append_appends_witness:
  "\<exists>s' l' ns'. data_buffer_list_append one_buffer one_list ''x'' = Some (Inr (s', l')) \<and> unlocked l' \<and>
    dl_rep s' l' ns' \<and> pending s' ns' = ''bcx''"
proof -
  have "length ''x'' \<le> last_room one_buffer [0]" by (simp add: last_room_def room_def one_buffer_def)
  with append_appends [OF one_buffer_rep, of "''x''"] show ?thesis
    by (simp add: unread_def one_buffer_def)
qed

text \<open>
  When the last buffer has some room but not enough for the new bytes, the append makes
  the list cyclic: the walk over it that the next append starts with never returns, with
  both locks held.
\<close>

theorem append_partial_room_cycles:
  assumes "dl_rep s l ns" and "unlocked l"
    and "0 < last_room s ns" and "last_room s ns < length src"
  shows "\<exists>s' l'. data_buffer_list_append s l src = Some (Inr (s', l')) \<and>
    (\<forall>more. more \<noteq> [] \<longrightarrow> data_buffer_list_append s' l' more = None)"
proof -
  from append_cycle [OF assms] obtain s' l' S h where
    "data_buffer_list_append s l src = Some (Inr (s', l'))"
    "\<forall>a \<in> S. \<exists>b \<in> S. db_next s' a = Some b" "h \<in> S" "dl_first l' = Some h" by blast
  then show ?thesis using append_on_cycle by blast
qed

theorem append_partial_room_cycles_witness:
  "\<exists>s' l'. data_buffer_list_append one_buffer one_list ''xy'' = Some (Inr (s', l')) \<and>
    (\<forall>more. more \<noteq> [] \<longrightarrow> data_buffer_list_append s' l' more = None)"
  by (rule append_partial_room_cycles [OF one_buffer_rep])
     (simp_all add: last_room_def room_def one_buffer_def)

text \<open>
  C24: writing a well-formed list to a descriptor whose calls make progress returns, keeps the
  list well formed, and loses or repeats no byte: what was sent before and is pending
  before is what was sent and is pending after. It returns the number of bytes pending,
  with the list emptied, or -1 with \<open>errno\<close> from the failing call and bytes left.
\<close>

theorem writeto_fd_conserves:
  assumes "dl_rep s l ns" and "unlocked l" and "makes_progress w"
  shows "\<exists>r s' l' w' ns'. data_buffer_list_writeto_fd s l w = Some (r, s', l', w') \<and>
    dl_rep s' l' ns' \<and> unlocked l' \<and> sent w' @ pending s' ns' = sent w @ pending s ns \<and>
    (if r = -1 then pending s' ns' \<noteq> [] \<and> outcome w (calls w' - 1) = Fails (errno w')
     else ns' = [] \<and> r = int (length (pending s ns)))"
  using writeto_fd_rep [OF assms] by metis

definition stalling_fd :: fd_world where
  "stalling_fd = \<lparr>outcome = (\<lambda>k. if k = 0 then Accepts 1 else Fails EAGAIN), calls = 0, sent = [],
     errno = ENONE\<rparr>"

theorem writeto_fd_conserves_witness:
  "\<exists>r s' l' w' ns'. data_buffer_list_writeto_fd one_buffer one_list stalling_fd = Some (r, s', l', w') \<and>
    dl_rep s' l' ns' \<and> unlocked l' \<and> sent w' @ pending s' ns' = sent stalling_fd @ ''bc'' \<and>
    (if r = -1 then pending s' ns' \<noteq> [] \<and> outcome stalling_fd (calls w' - 1) = Fails (errno w')
     else ns' = [] \<and> r = int (length ''bc''))"
proof -
  have p: "pending one_buffer [0] = ''bc''" by (simp add: unread_def one_buffer_def)
  have "makes_progress stalling_fd" by (simp add: makes_progress_def stalling_fd_def)
  from writeto_fd_conserves [OF one_buffer_rep this] show ?thesis
    unfolding p .
qed

text \<open>
  C14: a response put into the empty list of a connection and written out over any number of
  calls of the write loop, whatever the socket answers, is sent in order: what has been
  sent and what is left make up the response.
\<close>

theorem response_bytes_in_order:
  assumes "dl_holds q []" and "bs \<noteq> []" and "makes_progress w"
  shows "\<exists>q1 q' w' c'. data_buffer_list_append (fst q) (snd q) bs = Some (Inr q1) \<and>
    dl.drains n q1 w = Some (q', w') \<and> dl_holds q' c' \<and> sent w' @ c' = sent w @ bs"
  using assms by (rule dl.put_then_drains)

theorem response_bytes_in_order_witness:
  "\<exists>q1 q' w' c'. data_buffer_list_append one_buffer data_buffer_list_new ''hi'' = Some (Inr q1) \<and>
    dl.drains 3 q1 stalling_fd = Some (q', w') \<and> dl_holds q' c' \<and> sent w' @ c' = ''hi''"
proof -
  have "dl_holds (one_buffer, data_buffer_list_new) []"
    by (simp add: dl_holds_def dl_rep_def data_buffer_list_new_def unlocked_def)
  moreover have "makes_progress stalling_fd" by (simp add: makes_progress_def stalling_fd_def)
  ultimately show ?thesis
    using response_bytes_in_order [of "(one_buffer, data_buffer_list_new)" "''hi''" stalling_fd 3]
    by (simp add: stalling_fd_def)
qed

end
