(* ===== verification/Socket.thy ===== *)
theory Socket
  imports Data_Buffer
begin

text \<open>
  \<open>src/socket.c\<close>: a client socket with its flags. What \<open>read\<close> answers is an argument of
  the function that calls it; what \<open>write\<close> answers is in the \<open>fd_world\<close>. The address and
  the time of a client are only printed and are left out. Mutexes are those of
  \<open>Data_Buffer\<close>: locking one that is held never returns.
\<close>

section \<open>State\<close>

record socket_info =
  skt_id :: "64 word"
  skt_fd :: int
  skt_closed :: bool
  skt_error :: bool

text \<open>\<open>n\<close> is the static counter \<open>id\<close>, which comes back incremented.\<close>

definition skt_nextid :: "64 word \<Rightarrow> 64 word \<times> 64 word" where
  "skt_nextid n = (n, n + 1)"

definition skt_new :: "64 word \<Rightarrow> int \<Rightarrow> (socket_info \<times> 64 word) res" where
  "skt_new n fd =
     (if fd > 0
      then case skt_nextid n of (i, n') \<Rightarrow>
        Inr (\<lparr>skt_id = i, skt_fd = fd, skt_closed = False, skt_error = False\<rparr>, n')
      else Inl Assert_failed)"

section \<open>Reading and writing\<close>

datatype read_outcome = Read_bytes string | Read_fails errno

text \<open>\<open>read(fd, buf, n)\<close>: at most \<open>n\<close> bytes; \<open>ioctl(FIONREAD)\<close> says how many wait.\<close>

definition sys_read :: "read_outcome \<Rightarrow> nat \<Rightarrow> read_outcome" where
  "sys_read r n = (case r of Read_bytes bs \<Rightarrow> Read_bytes (take n bs) | Read_fails e \<Rightarrow> Read_fails e)"

definition skt_canread :: "nat option \<Rightarrow> bool" where
  "skt_canread fionread = (case fionread of None \<Rightarrow> False | Some n \<Rightarrow> n > 0)"

definition skt_read :: "socket_info \<Rightarrow> read_outcome \<Rightarrow> nat \<Rightarrow> string \<times> socket_info" where
  "skt_read skt r n =
     (case sys_read r n of
        Read_fails e \<Rightarrow> ([], if e \<noteq> EAGAIN \<and> e \<noteq> EWOULDBLOCK then skt\<lparr>skt_error := True\<rparr> else skt)
      | Read_bytes bs \<Rightarrow> (bs, skt))"

definition skt_write :: "socket_info \<Rightarrow> string \<Rightarrow> fd_world \<Rightarrow> int \<times> socket_info \<times> fd_world" where
  "skt_write skt bs w =
     (case sys_write w bs of (result, w') \<Rightarrow>
        if result < 0
        then (0, if errno w' \<noteq> EAGAIN \<and> errno w' \<noteq> EWOULDBLOCK then skt\<lparr>skt_error := True\<rparr> else skt, w')
        else (result, skt, w'))"

text \<open>
  The loop of \<open>skt_data_buffer\<close>, entered with the read lock held; \<open>Inr\<close> is the state in
  which it stops.
\<close>

partial_function (option) skt_data_buffer_loop ::
  "socket_info \<Rightarrow> dbstore \<Rightarrow> data_buffer_list \<Rightarrow> fd_world \<Rightarrow>
   (socket_info \<times> dbstore \<times> data_buffer_list \<times> fd_world) res option" where
  "skt_data_buffer_loop skt s l w =
     do { l1 \<leftarrow> data_buffer_list_lock l True False;
          case dl_first l1 of
            None \<Rightarrow> Some (Inl Null_deref)
          | Some e \<Rightarrow>
              (case skt_write skt (unread s e) w of (written, skt', w') \<Rightarrow>
                 if written = 0 then Some (Inr (skt', s, l1, w'))
                 else
                   let s1 = s\<lparr>db_rOffset := (db_rOffset s)(e := db_rOffset s e + nat written)\<rparr> in
                   if db_rOffset s1 e = db_wOffset s1 e
                   then do { l2 \<leftarrow> data_buffer_list_lock l1 False True;
                             (nx, first) \<leftarrow> LL_DELETE (db_next s1) (dl_first l2) e;
                             let l3 = data_buffer_list_unlock
                               (data_buffer_list_unlock (l2\<lparr>dl_first := first\<rparr>) False True) True False;
                             let s2 = data_buffer_delete (s1\<lparr>db_next := nx\<rparr>) e;
                             if dl_first l3 \<noteq> None then skt_data_buffer_loop skt' s2 l3 w'
                             else Some (Inr (skt', s2, l3, w')) }
                   else
                     let l3 = data_buffer_list_unlock l1 True False in
                     if dl_first l3 \<noteq> None then skt_data_buffer_loop skt' s1 l3 w'
                     else Some (Inr (skt', s1, l3, w'))) }"

definition skt_data_buffer ::
  "socket_info \<Rightarrow> dbstore \<Rightarrow> data_buffer_list \<Rightarrow> fd_world \<Rightarrow>
   (int \<times> socket_info \<times> dbstore \<times> data_buffer_list \<times> fd_world) res option" where
  "skt_data_buffer skt s l w =
     do { l0 \<leftarrow> data_buffer_list_lock l True False;
          r \<leftarrow> skt_data_buffer_loop skt s l0 w;
          Some (bind_res r (\<lambda>(skt', s', l', w').
            Inr (if dl_first l' = None then 0 else 1, skt', s', data_buffer_list_unlock l' True False, w'))) }"

text \<open>\<open>close\<close> may fail; the flag is set all the same.\<close>

definition skt_close :: "socket_info \<Rightarrow> socket_info" where
  "skt_close skt = skt\<lparr>skt_closed := True\<rparr>"

section \<open>Lemmas\<close>

lemma skt_close_simps [simp]:
  "skt_closed (skt_close skt)" "skt_error (skt_close skt) = skt_error skt"
  by (simp_all add: skt_close_def)

text \<open>The loop takes the read lock its caller holds: \<open>skt_data_buffer\<close> never comes back.\<close>

lemma skt_data_buffer_deadlocks: "skt_data_buffer skt s l w = None"
proof (cases "data_buffer_list_lock l True False")
  case None
  then show ?thesis by (simp add: skt_data_buffer_def)
next
  case (Some l0)
  then have "dl_rdlock l0" by (auto simp: data_buffer_list_lock_def split: if_splits)
  then have "data_buffer_list_lock l0 True False = None" by (simp add: data_buffer_list_lock_def)
  then show ?thesis by (simp add: skt_data_buffer_def Some skt_data_buffer_loop.simps [of skt s l0 w])
qed

end
