(* ===== verification/Libc.thy ===== *)
theory Libc
  imports Prelude
begin

unbundle bit_operations_syntax

text \<open>
  What the source uses of the C library on characters and strings, in the C locale. A
  C string is the list of its characters before the terminating \<open>NUL\<close>; \<open>cstr\<close> is the
  string a C function sees in an array of bytes.
\<close>

section \<open>Characters\<close>

definition isspace :: "char \<Rightarrow> bool" where
  "isspace c \<longleftrightarrow> c = CHR '' '' \<or> (let n = (of_char c :: nat) in 9 \<le> n \<and> n \<le> 13)"

definition tolower :: "char \<Rightarrow> char" where
  "tolower c = (let n = (of_char c :: nat) in if 65 \<le> n \<and> n \<le> 90 then char_of (n + 32) else c)"

definition isdigit :: "char \<Rightarrow> bool" where
  "isdigit c \<longleftrightarrow> (let n = (of_char c :: nat) in 48 \<le> n \<and> n \<le> 57)"

definition digit_val :: "char \<Rightarrow> nat" where
  "digit_val c = of_char c - 48"

definition digit_char :: "nat \<Rightarrow> char" where
  "digit_char d = char_of (48 + d)"

lemma digit_char_val [simp]: "d < 10 \<Longrightarrow> digit_val (digit_char d) = d"
  by (simp add: digit_val_def digit_char_def)

lemma isdigit_digit_char [simp]: "d < 10 \<Longrightarrow> isdigit (digit_char d)"
  by (simp add: isdigit_def digit_char_def)

section \<open>Strings\<close>

definition cstr :: "string \<Rightarrow> string" where
  "cstr bs = takeWhile (\<lambda>c. c \<noteq> NUL) bs"

lemma cstr_ident [simp]: "NUL \<notin> set bs \<Longrightarrow> cstr bs = bs"
  by (auto simp: cstr_def takeWhile_eq_all_conv)

lemma cstr_no_nul [simp]: "NUL \<notin> set (cstr bs)"
  by (auto simp: cstr_def dest: set_takeWhileD)

text \<open>\<open>strcasecmp(a, b) == 0\<close> and \<open>strncmp(a, b, n) == 0\<close>.\<close>

definition strcaseeq :: "string \<Rightarrow> string \<Rightarrow> bool" where
  "strcaseeq a b \<longleftrightarrow> map tolower a = map tolower b"

definition strnceq :: "string \<Rightarrow> string \<Rightarrow> nat \<Rightarrow> bool" where
  "strnceq a b n \<longleftrightarrow> take n a = take n b"

lemma strcaseeq_refl [simp]: "strcaseeq a a"
  by (simp add: strcaseeq_def)

lemma strcaseeq_sym: "strcaseeq a b \<Longrightarrow> strcaseeq b a"
  by (simp add: strcaseeq_def)

text \<open>\<open>strrchr(s, c)\<close>: the suffix that starts at the last \<open>c\<close>.\<close>

fun strrchr :: "string \<Rightarrow> char \<Rightarrow> string option" where
  "strrchr [] c = None"
| "strrchr (x # xs) c =
     (case strrchr xs c of
        Some s \<Rightarrow> Some s
      | None \<Rightarrow> if x = c then Some (x # xs) else None)"

lemma strrchr_None: "strrchr s c = None \<longleftrightarrow> c \<notin> set s"
  by (induction s) (auto split: option.splits)

lemma strrchr_Some: "strrchr s c = Some t \<Longrightarrow> \<exists>p u. s = p @ t \<and> t = c # u \<and> c \<notin> set u"
proof (induction s)
  case Nil
  then show ?case by simp
next
  case (Cons x s)
  show ?case
  proof (cases "strrchr s c")
    case None
    with Cons.prems show ?thesis by (auto simp: strrchr_None split: if_splits)
  next
    case (Some v)
    with Cons obtain p u where "s = p @ t \<and> t = c # u \<and> c \<notin> set u" by auto
    then have "x # s = (x # p) @ t \<and> t = c # u \<and> c \<notin> set u" by simp
    then show ?thesis by blast
  qed
qed

text \<open>\<open>strstr\<close>: the offset of the first occurrence.\<close>

definition starts_with :: "string \<Rightarrow> string \<Rightarrow> bool" where
  "starts_with s p \<longleftrightarrow> take (length p) s = p"

fun strstr :: "string \<Rightarrow> string \<Rightarrow> nat option" where
  "strstr [] p = (if p = [] then Some 0 else None)"
| "strstr (x # xs) p =
     (if starts_with (x # xs) p then Some 0 else map_option Suc (strstr xs p))"

lemma starts_with_iff: "starts_with s p \<longleftrightarrow> (\<exists>t. s = p @ t)"
  by (metis append_eq_conv_conj append_take_drop_id starts_with_def)

lemma strstr_Some:
  "strstr s p = Some i \<Longrightarrow> \<exists>t. s = take i s @ p @ t \<and> i + length p \<le> length s"
proof (induction s arbitrary: i)
  case Nil
  then show ?case by (auto split: if_splits)
next
  case (Cons x xs)
  show ?case
  proof (cases "starts_with (x # xs) p")
    case True
    with Cons.prems have "i = 0" by simp
    moreover from True obtain t where "x # xs = p @ t" by (auto simp: starts_with_iff)
    moreover from this have "length p \<le> length (x # xs)" by (metis le_add1 length_append)
    ultimately show ?thesis by auto
  next
    case False
    with Cons.prems obtain j where "strstr xs p = Some j" "i = Suc j" by auto
    with Cons.IH show ?thesis by auto
  qed
qed

lemma strstr_None: "strstr s p = None \<longleftrightarrow> \<not> (\<exists>u v. s = u @ p @ v)"
proof (induction s)
  case Nil
  then show ?case by auto
next
  case (Cons x xs)
  show ?case
  proof (cases "starts_with (x # xs) p")
    case True
    then obtain v where "x # xs = [] @ p @ v" by (auto simp: starts_with_iff)
    with True show ?thesis by (metis option.distinct(1) strstr.simps(2))
  next
    case False
    then have "(\<exists>u v. x # xs = u @ p @ v) \<longleftrightarrow> (\<exists>u v. xs = u @ p @ v)"
      by (auto simp: starts_with_iff Cons_eq_append_conv)
    with False Cons.IH show ?thesis by simp
  qed
qed

text \<open>
  All the tokens a loop over \<open>strtok_r\<close> gets from \<open>s\<close>: the maximal runs of characters
  that are not delimiters.
\<close>

function strtok_all :: "(char \<Rightarrow> bool) \<Rightarrow> string \<Rightarrow> string list" where
  "strtok_all d s =
     (case dropWhile d s of
        [] \<Rightarrow> []
      | c # cs \<Rightarrow> (c # takeWhile (\<lambda>x. \<not> d x) cs) # strtok_all d (dropWhile (\<lambda>x. \<not> d x) cs))"
  by pat_completeness auto
termination
proof (relation "measure (\<lambda>(d, s). length s)", simp)
  fix d and s cs :: string and c :: char
  assume "dropWhile d s = c # cs"
  then have "length (c # cs) \<le> length s" by (metis length_dropWhile_le)
  moreover have "length (dropWhile (\<lambda>x. \<not> d x) cs) \<le> length cs" by (rule length_dropWhile_le)
  ultimately show "((d, dropWhile (\<lambda>x. \<not> d x) cs), d, s) \<in> measure (\<lambda>(d, s). length s)" by simp
qed

declare strtok_all.simps [simp del]

lemma strtok_all_nonempty: "t \<in> set (strtok_all d s) \<Longrightarrow> t \<noteq> []"
proof (induction d s rule: strtok_all.induct)
  case (1 d s)
  then show ?case by (cases "dropWhile d s") (auto simp: strtok_all.simps [of d s])
qed

section \<open>Numbers\<close>

text \<open>\<open>printf\<close> of \<open>%u\<close> and \<open>%zx\<close>.\<close>

fun dec :: "nat \<Rightarrow> string" where
  "dec n = (if n < 10 then [digit_char n] else dec (n div 10) @ [digit_char (n mod 10)])"

declare dec.simps [simp del]

definition hex_char :: "nat \<Rightarrow> char" where
  "hex_char d = (if d < 10 then char_of (48 + d) else char_of (87 + d))"

fun hex :: "nat \<Rightarrow> string" where
  "hex n = (if n < 16 then [hex_char n] else hex (n div 16) @ [hex_char (n mod 16)])"

declare hex.simps [simp del]

lemma hex_small: "n < 16 \<Longrightarrow> hex n = [hex_char n]"
  by (simp add: hex.simps [of n])

lemma hex_step: "16 \<le> n \<Longrightarrow> hex n = hex (n div 16) @ [hex_char (n mod 16)]"
  by (simp add: hex.simps [of n])

lemma dec_small: "n < 10 \<Longrightarrow> dec n = [digit_char n]"
  by (simp add: dec.simps [of n])

lemma dec_step: "10 \<le> n \<Longrightarrow> dec n = dec (n div 10) @ [digit_char (n mod 10)]"
  by (simp add: dec.simps [of n])

definition dec_val :: "string \<Rightarrow> nat" where
  "dec_val s = foldl (\<lambda>v c. 10 * v + digit_val c) 0 s"

lemma dec_nonempty [simp]: "dec n \<noteq> []"
  by (subst dec.simps) simp

lemma dec_digits: "c \<in> set (dec n) \<Longrightarrow> isdigit c"
proof (induction n rule: dec.induct)
  case (1 n)
  show ?case
  proof (cases "n < 10")
    case True
    with "1.prems" show ?thesis by (simp add: dec.simps [of n])
  next
    case False
    with "1" show ?thesis by (auto simp: dec.simps [of n])
  qed
qed

lemma dec_val_dec [simp]: "dec_val (dec n) = n"
proof (induction n rule: dec.induct)
  case (1 n)
  then show ?case by (subst dec.simps) (auto simp: dec_val_def)
qed

text \<open>
  \<open>strtoul(s, NULL, 10)\<close> on 64 bits: leading white space, a sign, the digits that follow,
  the largest value when they do not fit, and a negative number reduced modulo \<open>2 ^ 64\<close>.
\<close>

definition strtoul10 :: "string \<Rightarrow> nat" where
  "strtoul10 s =
     (let t = dropWhile isspace s;
          neg = (t \<noteq> [] \<and> hd t = CHR ''-'');
          u = (if t \<noteq> [] \<and> (hd t = CHR ''-'' \<or> hd t = CHR ''+'') then tl t else t);
          v = dec_val (takeWhile isdigit u)
      in if v \<ge> 2 ^ 64 then 2 ^ 64 - 1
         else if neg then (2 ^ 64 - v) mod 2 ^ 64 else v)"

end
