(* ===== verification/Http_Parser_Types.thy ===== *)
theory Http_Parser_Types
  imports Libc
begin

text \<open>
  The enumerations, tables and character classes of \<open>lib/http_parser.h\<close> and
  \<open>lib/http_parser.c\<close>, in the strict build (\<open>HTTP_PARSER_STRICT\<close> is 1 by default and
  no build file changes it). A bit mask of flags is the set of the flags that are on.
\<close>

section \<open>Enumerations\<close>

datatype (plugins only: code size) http_method =
    HTTP_DELETE | HTTP_GET | HTTP_HEAD | HTTP_POST | HTTP_PUT
  | HTTP_CONNECT | HTTP_OPTIONS | HTTP_TRACE
  | HTTP_COPY | HTTP_LOCK | HTTP_MKCOL | HTTP_MOVE | HTTP_PROPFIND | HTTP_PROPPATCH
  | HTTP_SEARCH | HTTP_UNLOCK
  | HTTP_REPORT | HTTP_MKACTIVITY | HTTP_CHECKOUT | HTTP_MERGE
  | HTTP_MSEARCH | HTTP_NOTIFY | HTTP_SUBSCRIBE | HTTP_UNSUBSCRIBE
  | HTTP_PATCH | HTTP_PURGE
  | HTTP_MKCALENDAR

datatype http_parser_type = HTTP_REQUEST | HTTP_RESPONSE | HTTP_BOTH

datatype flag =
    F_CHUNKED | F_CONNECTION_KEEP_ALIVE | F_CONNECTION_CLOSE | F_TRAILING | F_UPGRADE | F_SKIPBODY

datatype (plugins only: code size) http_errno =
    HPE_OK
  | HPE_CB_message_begin | HPE_CB_url | HPE_CB_header_field | HPE_CB_header_value
  | HPE_CB_headers_complete | HPE_CB_body | HPE_CB_message_complete | HPE_CB_status
  | HPE_INVALID_EOF_STATE | HPE_HEADER_OVERFLOW | HPE_CLOSED_CONNECTION
  | HPE_INVALID_VERSION | HPE_INVALID_STATUS | HPE_INVALID_METHOD | HPE_INVALID_URL
  | HPE_INVALID_HOST | HPE_INVALID_PORT | HPE_INVALID_PATH | HPE_INVALID_QUERY_STRING
  | HPE_INVALID_FRAGMENT | HPE_LF_EXPECTED | HPE_INVALID_HEADER_TOKEN
  | HPE_INVALID_CONTENT_LENGTH | HPE_INVALID_CHUNK_SIZE | HPE_INVALID_CONSTANT
  | HPE_INVALID_INTERNAL_STATE | HPE_STRICT | HPE_PAUSED | HPE_UNKNOWN

datatype (plugins only: code size) state =
    s_dead
  | s_start_req_or_res | s_res_or_resp_H | s_start_res | s_res_H | s_res_HT | s_res_HTT
  | s_res_HTTP | s_res_first_http_major | s_res_http_major | s_res_first_http_minor
  | s_res_http_minor | s_res_first_status_code | s_res_status_code | s_res_status_start
  | s_res_status | s_res_line_almost_done
  | s_start_req
  | s_req_method | s_req_spaces_before_url | s_req_schema | s_req_schema_slash
  | s_req_schema_slash_slash | s_req_server_start | s_req_server | s_req_server_with_at
  | s_req_path | s_req_query_string_start | s_req_query_string | s_req_fragment_start
  | s_req_fragment | s_req_http_start | s_req_http_H | s_req_http_HT | s_req_http_HTT
  | s_req_http_HTTP | s_req_first_http_major | s_req_http_major | s_req_first_http_minor
  | s_req_http_minor | s_req_line_almost_done
  | s_header_field_start | s_header_field | s_header_value_discard_ws
  | s_header_value_discard_ws_almost_done | s_header_value_discard_lws
  | s_header_value_start | s_header_value | s_header_value_lws
  | s_header_almost_done
  | s_chunk_size_start | s_chunk_size | s_chunk_parameters | s_chunk_size_almost_done
  | s_headers_almost_done | s_headers_done
  | s_chunk_data | s_chunk_data_almost_done | s_chunk_data_done
  | s_body_identity | s_body_identity_eof
  | s_message_done

text \<open>\<open>PARSING_HEADER\<close>: the states up to \<open>s_headers_done\<close>, all but the last six.\<close>

definition PARSING_HEADER :: "state \<Rightarrow> bool" where
  "PARSING_HEADER s \<longleftrightarrow>
     s \<notin> {s_chunk_data, s_chunk_data_almost_done, s_chunk_data_done, s_body_identity,
          s_body_identity_eof, s_message_done}"

datatype (plugins only: code size) header_states =
    h_general | h_C | h_CO | h_CON
  | h_matching_connection | h_matching_proxy_connection | h_matching_content_length
  | h_matching_transfer_encoding | h_matching_upgrade
  | h_connection | h_content_length | h_transfer_encoding | h_upgrade
  | h_matching_transfer_encoding_chunked | h_matching_connection_keep_alive
  | h_matching_connection_close
  | h_transfer_encoding_chunked | h_connection_keep_alive | h_connection_close

datatype http_host_state =
    s_http_host_dead | s_http_userinfo_start | s_http_userinfo | s_http_host_start
  | s_http_host_v6_start | s_http_host | s_http_host_v6 | s_http_host_v6_end
  | s_http_host_port_start | s_http_host_port

section \<open>Names\<close>

fun method_strings :: "http_method \<Rightarrow> string" where
  "method_strings HTTP_DELETE = ''DELETE''"
| "method_strings HTTP_GET = ''GET''"
| "method_strings HTTP_HEAD = ''HEAD''"
| "method_strings HTTP_POST = ''POST''"
| "method_strings HTTP_PUT = ''PUT''"
| "method_strings HTTP_CONNECT = ''CONNECT''"
| "method_strings HTTP_OPTIONS = ''OPTIONS''"
| "method_strings HTTP_TRACE = ''TRACE''"
| "method_strings HTTP_COPY = ''COPY''"
| "method_strings HTTP_LOCK = ''LOCK''"
| "method_strings HTTP_MKCOL = ''MKCOL''"
| "method_strings HTTP_MOVE = ''MOVE''"
| "method_strings HTTP_PROPFIND = ''PROPFIND''"
| "method_strings HTTP_PROPPATCH = ''PROPPATCH''"
| "method_strings HTTP_SEARCH = ''SEARCH''"
| "method_strings HTTP_UNLOCK = ''UNLOCK''"
| "method_strings HTTP_REPORT = ''REPORT''"
| "method_strings HTTP_MKACTIVITY = ''MKACTIVITY''"
| "method_strings HTTP_CHECKOUT = ''CHECKOUT''"
| "method_strings HTTP_MERGE = ''MERGE''"
| "method_strings HTTP_MSEARCH = ''M-SEARCH''"
| "method_strings HTTP_NOTIFY = ''NOTIFY''"
| "method_strings HTTP_SUBSCRIBE = ''SUBSCRIBE''"
| "method_strings HTTP_UNSUBSCRIBE = ''UNSUBSCRIBE''"
| "method_strings HTTP_PATCH = ''PATCH''"
| "method_strings HTTP_PURGE = ''PURGE''"
| "method_strings HTTP_MKCALENDAR = ''MKCALENDAR''"

text \<open>\<open>http_method_str\<close>: a value of the enumeration is never out of the table.\<close>

definition http_method_str :: "http_method \<Rightarrow> string" where
  "http_method_str m = method_strings m"

fun http_errno_description :: "http_errno \<Rightarrow> string" where
  "http_errno_description HPE_OK = ''success''"
| "http_errno_description HPE_CB_message_begin = ''the on_message_begin callback failed''"
| "http_errno_description HPE_CB_url = ''the on_url callback failed''"
| "http_errno_description HPE_CB_header_field = ''the on_header_field callback failed''"
| "http_errno_description HPE_CB_header_value = ''the on_header_value callback failed''"
| "http_errno_description HPE_CB_headers_complete = ''the on_headers_complete callback failed''"
| "http_errno_description HPE_CB_body = ''the on_body callback failed''"
| "http_errno_description HPE_CB_message_complete = ''the on_message_complete callback failed''"
| "http_errno_description HPE_CB_status = ''the on_status callback failed''"
| "http_errno_description HPE_INVALID_EOF_STATE = ''stream ended at an unexpected time''"
| "http_errno_description HPE_HEADER_OVERFLOW = ''too many header bytes seen; overflow detected''"
| "http_errno_description HPE_CLOSED_CONNECTION =
     ''data received after completed connection: close message''"
| "http_errno_description HPE_INVALID_VERSION = ''invalid HTTP version''"
| "http_errno_description HPE_INVALID_STATUS = ''invalid HTTP status code''"
| "http_errno_description HPE_INVALID_METHOD = ''invalid HTTP method''"
| "http_errno_description HPE_INVALID_URL = ''invalid URL''"
| "http_errno_description HPE_INVALID_HOST = ''invalid host''"
| "http_errno_description HPE_INVALID_PORT = ''invalid port''"
| "http_errno_description HPE_INVALID_PATH = ''invalid path''"
| "http_errno_description HPE_INVALID_QUERY_STRING = ''invalid query string''"
| "http_errno_description HPE_INVALID_FRAGMENT = ''invalid fragment''"
| "http_errno_description HPE_LF_EXPECTED = ''LF character expected''"
| "http_errno_description HPE_INVALID_HEADER_TOKEN = ''invalid character in header''"
| "http_errno_description HPE_INVALID_CONTENT_LENGTH =
     ''invalid character in content-length header''"
| "http_errno_description HPE_INVALID_CHUNK_SIZE = ''invalid character in chunk size header''"
| "http_errno_description HPE_INVALID_CONSTANT = ''invalid constant string''"
| "http_errno_description HPE_INVALID_INTERNAL_STATE = ''encountered unexpected internal state''"
| "http_errno_description HPE_STRICT = ''strict mode assertion failed''"
| "http_errno_description HPE_PAUSED = ''parser is paused''"
| "http_errno_description HPE_UNKNOWN = ''an unknown error occurred''"

definition PROXY_CONNECTION :: string where "PROXY_CONNECTION = ''proxy-connection''"
definition CONNECTION :: string where "CONNECTION = ''connection''"
definition CONTENT_LENGTH :: string where "CONTENT_LENGTH = ''content-length''"
definition TRANSFER_ENCODING :: string where "TRANSFER_ENCODING = ''transfer-encoding''"
definition UPGRADE :: string where "UPGRADE = ''upgrade''"
definition CHUNKED :: string where "CHUNKED = ''chunked''"
definition KEEP_ALIVE :: string where "KEEP_ALIVE = ''keep-alive''"
definition CLOSE :: string where "CLOSE = ''close''"

section \<open>Tables and character classes\<close>

text \<open>\<open>(unsigned char)(c | 0x20)\<close>\<close>

definition LOWER :: "char \<Rightarrow> char" where
  "LOWER c = char_of ((of_char c :: nat) OR 32)"

definition IS_ALPHA :: "char \<Rightarrow> bool" where
  "IS_ALPHA c \<longleftrightarrow> (let n = (of_char (LOWER c) :: nat) in 97 \<le> n \<and> n \<le> 122)"

abbreviation IS_NUM :: "char \<Rightarrow> bool" where
  "IS_NUM \<equiv> isdigit"

definition IS_ALPHANUM :: "char \<Rightarrow> bool" where
  "IS_ALPHANUM c \<longleftrightarrow> IS_ALPHA c \<or> IS_NUM c"

definition IS_HEX :: "char \<Rightarrow> bool" where
  "IS_HEX c \<longleftrightarrow> IS_NUM c \<or> (let n = (of_char (LOWER c) :: nat) in 97 \<le> n \<and> n \<le> 102)"

definition IS_MARK :: "char \<Rightarrow> bool" where
  "IS_MARK c \<longleftrightarrow> c \<in> set ''-_.!~*()'' \<or> c = CHR 0x27"

definition IS_USERINFO_CHAR :: "char \<Rightarrow> bool" where
  "IS_USERINFO_CHAR c \<longleftrightarrow> IS_ALPHANUM c \<or> IS_MARK c \<or> c \<in> set ''%;:&=+$,''"

text \<open>
  The 256 entries of \<open>tokens\<close>: the lower case of the characters of an RFC 2616 token,
  zero for every other character.
\<close>

definition is_token :: "char \<Rightarrow> bool" where
  "is_token c \<longleftrightarrow> IS_ALPHANUM c \<or> c \<in> set ''!#$%&*+-.^_`|~'' \<or> c = CHR 0x27"

definition TOKEN :: "char \<Rightarrow> char" where
  "TOKEN c = (if is_token c then tolower c else NUL)"

text \<open>
  \<open>BIT_AT(normal_url_char, c)\<close>: the bits of the 32 bytes of the table are on for the
  visible ASCII characters but \<open>#\<close> and \<open>?\<close>, and off above 127 in the strict build.
\<close>

definition IS_URL_CHAR :: "char \<Rightarrow> bool" where
  "IS_URL_CHAR c \<longleftrightarrow>
     (let n = (of_char c :: nat) in 33 \<le> n \<and> n \<le> 126 \<and> n \<noteq> 35 \<and> n \<noteq> 63)"

definition IS_HOST_CHAR :: "char \<Rightarrow> bool" where
  "IS_HOST_CHAR c \<longleftrightarrow> IS_ALPHANUM c \<or> c = CHR ''.'' \<or> c = CHR ''-''"

text \<open>
  \<open>unhex\<close>: \<open>None\<close> is the entry -1. The table has 256 entries but only 128 initialisers, so
  those of the bytes from 128 on are 0: such a byte is read as a digit 0, not as an error.
\<close>

definition unhex :: "char \<Rightarrow> nat option" where
  "unhex c =
     (let n = (of_char c :: nat) in
      if 48 \<le> n \<and> n \<le> 57 then Some (n - 48)
      else if 65 \<le> n \<and> n \<le> 70 then Some (n - 55)
      else if 97 \<le> n \<and> n \<le> 102 then Some (n - 87)
      else if 128 \<le> n then Some 0
      else None)"

lemma unhex_high: "128 \<le> (of_char c :: nat) \<Longrightarrow> unhex c = Some 0"
  by (simp add: unhex_def)

end
