(* ===== verification/Http_Url.thy ===== *)
theory Http_Url
  imports Http_Parser_Types
begin

text \<open>
  The URL parser of \<open>lib/http_parser.c\<close>: the byte machine \<open>parse_url_char\<close> shared with
  the request parser, and \<open>http_parser_parse_url\<close>, which turns its states into offsets
  and lengths. Offsets and lengths are 16-bit, as in \<open>struct http_parser_url\<close>; the
  struct passed in is the zeroed one of \<open>server_process_request\<close>.
\<close>

section \<open>The byte machine\<close>

text \<open>
  The switch on the state; a state with no case, and a character no case accepts, fall
  out of it to \<open>s_dead\<close>.
\<close>

definition parse_url_char :: "state \<Rightarrow> char \<Rightarrow> state" where
  "parse_url_char s ch =
     (if ch = CHR '' '' \<or> ch = CR \<or> ch = LF then s_dead
      else if ch = HTAB \<or> ch = CHR 0x0C then s_dead
      else if s = s_req_spaces_before_url then
        (if ch = CHR ''/'' \<or> ch = CHR ''*'' then s_req_path
         else if IS_ALPHA ch then s_req_schema else s_dead)
      else if s = s_req_schema then
        (if IS_ALPHA ch then s
         else if ch = CHR '':'' then s_req_schema_slash else s_dead)
      else if s = s_req_schema_slash then
        (if ch = CHR ''/'' then s_req_schema_slash_slash else s_dead)
      else if s = s_req_schema_slash_slash then
        (if ch = CHR ''/'' then s_req_server_start else s_dead)
      else if s = s_req_server_with_at \<and> ch = CHR ''@'' then s_dead
      else if s = s_req_server_with_at \<or> s = s_req_server_start \<or> s = s_req_server then
        (if ch = CHR ''/'' then s_req_path
         else if ch = CHR ''?'' then s_req_query_string_start
         else if ch = CHR ''@'' then s_req_server_with_at
         else if IS_USERINFO_CHAR ch \<or> ch = CHR ''['' \<or> ch = CHR '']'' then s_req_server
         else s_dead)
      else if s = s_req_path then
        (if IS_URL_CHAR ch then s
         else if ch = CHR ''?'' then s_req_query_string_start
         else if ch = CHR ''#'' then s_req_fragment_start else s_dead)
      else if s = s_req_query_string_start \<or> s = s_req_query_string then
        (if IS_URL_CHAR ch then s_req_query_string
         else if ch = CHR ''?'' then s_req_query_string
         else if ch = CHR ''#'' then s_req_fragment_start else s_dead)
      else if s = s_req_fragment_start then
        (if IS_URL_CHAR ch then s_req_fragment
         else if ch = CHR ''?'' then s_req_fragment
         else if ch = CHR ''#'' then s else s_dead)
      else if s = s_req_fragment then
        (if IS_URL_CHAR ch then s
         else if ch = CHR ''?'' \<or> ch = CHR ''#'' then s else s_dead)
      else s_dead)"

section \<open>The result structure\<close>

datatype http_parser_url_fields =
  UF_SCHEMA | UF_HOST | UF_PORT | UF_PATH | UF_QUERY | UF_FRAGMENT | UF_USERINFO

record http_parser_url =
  u_field_set :: "http_parser_url_fields set"
  u_port :: "16 word"
  u_off :: "http_parser_url_fields \<Rightarrow> 16 word"
  u_len :: "http_parser_url_fields \<Rightarrow> 16 word"

definition url_zero :: http_parser_url where
  "url_zero = \<lparr>u_field_set = {}, u_port = 0, u_off = (\<lambda>_. 0), u_len = (\<lambda>_. 0)\<rparr>"

definition set_off :: "http_parser_url_fields \<Rightarrow> nat \<Rightarrow> http_parser_url \<Rightarrow> http_parser_url" where
  "set_off f n u = u\<lparr>u_off := (u_off u)(f := of_nat n)\<rparr>"

definition set_len :: "http_parser_url_fields \<Rightarrow> 16 word \<Rightarrow> http_parser_url \<Rightarrow> http_parser_url" where
  "set_len f n u = u\<lparr>u_len := (u_len u)(f := n)\<rparr>"

definition inc_len :: "http_parser_url_fields \<Rightarrow> http_parser_url \<Rightarrow> http_parser_url" where
  "inc_len f u = u\<lparr>u_len := (u_len u)(f := u_len u f + 1)\<rparr>"

definition set_field :: "http_parser_url_fields \<Rightarrow> http_parser_url \<Rightarrow> http_parser_url" where
  "set_field f u = u\<lparr>u_field_set := insert f (u_field_set u)\<rparr>"

section \<open>The host\<close>

definition http_parse_host_char :: "http_host_state \<Rightarrow> char \<Rightarrow> http_host_state" where
  "http_parse_host_char s ch =
     (case s of
        s_http_userinfo \<Rightarrow>
          if ch = CHR ''@'' then s_http_host_start
          else if IS_USERINFO_CHAR ch then s_http_userinfo else s_http_host_dead
      | s_http_userinfo_start \<Rightarrow>
          if ch = CHR ''@'' then s_http_host_start
          else if IS_USERINFO_CHAR ch then s_http_userinfo else s_http_host_dead
      | s_http_host_start \<Rightarrow>
          if ch = CHR ''['' then s_http_host_v6_start
          else if IS_HOST_CHAR ch then s_http_host else s_http_host_dead
      | s_http_host \<Rightarrow>
          if IS_HOST_CHAR ch then s_http_host
          else if ch = CHR '':'' then s_http_host_port_start else s_http_host_dead
      | s_http_host_v6_end \<Rightarrow>
          if ch = CHR '':'' then s_http_host_port_start else s_http_host_dead
      | s_http_host_v6 \<Rightarrow>
          if ch = CHR '']'' then s_http_host_v6_end
          else if IS_HEX ch \<or> ch = CHR '':'' \<or> ch = CHR ''.'' then s_http_host_v6
          else s_http_host_dead
      | s_http_host_v6_start \<Rightarrow>
          if IS_HEX ch \<or> ch = CHR '':'' \<or> ch = CHR ''.'' then s_http_host_v6
          else s_http_host_dead
      | s_http_host_port \<Rightarrow> if IS_NUM ch then s_http_host_port else s_http_host_dead
      | s_http_host_port_start \<Rightarrow> if IS_NUM ch then s_http_host_port else s_http_host_dead
      | s_http_host_dead \<Rightarrow> s_http_host_dead)"

text \<open>The switch on the new state, with the old state \<open>s\<close>, at position \<open>p\<close>.\<close>

definition host_step :: "http_host_state \<Rightarrow> http_host_state \<Rightarrow> nat \<Rightarrow> http_parser_url \<Rightarrow> http_parser_url" where
  "host_step s n p u =
     (case n of
        s_http_host \<Rightarrow> inc_len UF_HOST (if s \<noteq> s_http_host then set_off UF_HOST p u else u)
      | s_http_host_v6 \<Rightarrow> inc_len UF_HOST (if s \<noteq> s_http_host_v6 then set_off UF_HOST p u else u)
      | s_http_host_port \<Rightarrow>
          inc_len UF_PORT
            (if s \<noteq> s_http_host_port
             then set_field UF_PORT (set_len UF_PORT 0 (set_off UF_PORT p u)) else u)
      | s_http_userinfo \<Rightarrow>
          inc_len UF_USERINFO
            (if s \<noteq> s_http_userinfo
             then set_field UF_USERINFO (set_len UF_USERINFO 0 (set_off UF_USERINFO p u)) else u)
      | _ \<Rightarrow> u)"

text \<open>
  The loop of \<open>http_parse_host\<close> from \<open>p\<close> over the bytes of the host. The state
  \<open>s_http_host_dead\<close> is the early \<open>return 1\<close>; what was written by then stays.
\<close>

fun parse_host_loop ::
  "string \<Rightarrow> nat \<Rightarrow> http_host_state \<Rightarrow> http_parser_url \<Rightarrow> http_host_state \<times> http_parser_url"
where
  "parse_host_loop [] p s u = (s, u)"
| "parse_host_loop (ch # cs) p s u =
     (let new_s = http_parse_host_char s ch in
      if new_s = s_http_host_dead then (s_http_host_dead, u)
      else parse_host_loop cs (Suc p) new_s (host_step s new_s p u))"

definition http_parse_host :: "string \<Rightarrow> http_parser_url \<Rightarrow> bool \<Rightarrow> int \<times> http_parser_url" where
  "http_parse_host buf u found_at =
     (let off = unat (u_off u UF_HOST);
          buflen = off + unat (u_len u UF_HOST);
          s = (if found_at then s_http_userinfo_start else s_http_host_start);
          (s', u') = parse_host_loop (drop off (take buflen buf)) off s (set_len UF_HOST 0 u)
      in if s' = s_http_host_dead then (1, u')
         else if s' \<in> {s_http_host_start, s_http_host_v6_start, s_http_host_v6,
                        s_http_host_port_start, s_http_userinfo, s_http_userinfo_start}
         then (1, u') else (0, u'))"

section \<open>The whole URL\<close>

text \<open>
  What the switch after \<open>parse_url_char\<close> makes of the new state: the function returns 1,
  the character is a delimiter, or it belongs to a field.
\<close>

datatype url_step = Url_dead | Url_delimiter | Url_field http_parser_url_fields

definition url_field_of :: "state \<Rightarrow> url_step" where
  "url_field_of s =
     (if s \<in> {s_req_schema_slash, s_req_schema_slash_slash, s_req_server_start,
              s_req_query_string_start, s_req_fragment_start} then Url_delimiter
      else if s = s_req_schema then Url_field UF_SCHEMA
      else if s = s_req_server_with_at \<or> s = s_req_server then Url_field UF_HOST
      else if s = s_req_path then Url_field UF_PATH
      else if s = s_req_query_string then Url_field UF_QUERY
      else if s = s_req_fragment then Url_field UF_FRAGMENT
      else Url_dead)"

text \<open>
  The loop: whether it got to the end (\<open>False\<close> is the early \<open>return 1\<close>), \<open>found_at\<close>, and
  the structure, which the caller sees in both cases.
\<close>

fun parse_url_loop ::
  "string \<Rightarrow> nat \<Rightarrow> state \<Rightarrow> http_parser_url_fields option \<Rightarrow> bool \<Rightarrow> http_parser_url \<Rightarrow>
   bool \<times> bool \<times> http_parser_url"
where
  "parse_url_loop [] p s old_uf found_at u = (True, found_at, u)"
| "parse_url_loop (ch # cs) p s old_uf found_at u =
     (let s' = parse_url_char s ch in
      case url_field_of s' of
        Url_dead \<Rightarrow> (False, found_at, u)
      | Url_delimiter \<Rightarrow> parse_url_loop cs (Suc p) s' old_uf found_at u
      | Url_field uf \<Rightarrow>
          let found' = (found_at \<or> s' = s_req_server_with_at) in
          if old_uf = Some uf then parse_url_loop cs (Suc p) s' old_uf found' (inc_len uf u)
          else parse_url_loop cs (Suc p) s' (Some uf) found'
                 (set_field uf (set_len uf 1 (set_off uf p u))))"

definition http_parser_parse_url ::
  "string \<Rightarrow> bool \<Rightarrow> http_parser_url \<Rightarrow> int \<times> http_parser_url"
where
  "http_parser_parse_url buf is_connect u0 =
     (let s = (if is_connect then s_req_server_start else s_req_spaces_before_url);
          (done, found_at, u) = parse_url_loop buf 0 s None False (u0\<lparr>u_port := 0, u_field_set := {}\<rparr>)
      in if \<not> done then (1, u)
         else
           let (r, u') = (if UF_SCHEMA \<in> u_field_set u \<or> UF_HOST \<in> u_field_set u
                          then http_parse_host buf u found_at else (0, u))
           in if r \<noteq> 0 then (1, u')
              else if is_connect \<and> u_field_set u' \<noteq> {UF_HOST, UF_PORT} then (1, u')
              else if UF_PORT \<in> u_field_set u' then
                (let v = strtoul10 (drop (unat (u_off u' UF_PORT)) buf) in
                 if v > 0xffff then (1, u') else (0, u'\<lparr>u_port := of_nat v\<rparr>))
              else (0, u'))"

text \<open>The bytes of the buffer that a field of the result names.\<close>

definition url_field :: "http_parser_url \<Rightarrow> http_parser_url_fields \<Rightarrow> string \<Rightarrow> string" where
  "url_field u f buf = take (unat (u_len u f)) (drop (unat (u_off u f)) buf)"

section \<open>The path of an origin-form target\<close>

lemma url_char_facts:
  assumes "IS_URL_CHAR c"
  shows "c \<noteq> CHR '' ''" "c \<noteq> CR" "c \<noteq> LF" "c \<noteq> HTAB" "c \<noteq> CHR 0x0C" "c \<noteq> CHR ''?''" "c \<noteq> CHR ''#''"
  using assms by (auto simp: IS_URL_CHAR_def)

lemma parse_path_char [simp]: "IS_URL_CHAR c \<Longrightarrow> parse_url_char s_req_path c = s_req_path"
  by (simp add: parse_url_char_def url_char_facts)

lemma parse_path_delimiter [simp]:
  "parse_url_char s_req_path (CHR ''?'') = s_req_query_string_start"
  "parse_url_char s_req_path (CHR ''#'') = s_req_fragment_start"
  by (simp_all add: parse_url_char_def IS_URL_CHAR_def)

lemma url_field_of_simps [simp]:
  "url_field_of s_req_path = Url_field UF_PATH"
  "url_field_of s_req_query_string = Url_field UF_QUERY"
  "url_field_of s_req_fragment = Url_field UF_FRAGMENT"
  "url_field_of s_req_query_string_start = Url_delimiter"
  "url_field_of s_req_fragment_start = Url_delimiter"
  by (simp_all add: url_field_of_def)

lemma field_updates [simp]:
  "u_field_set (inc_len f u) = u_field_set u"
  "u_field_set (set_len f n u) = u_field_set u"
  "u_field_set (set_off f m u) = u_field_set u"
  "u_field_set (set_field f u) = insert f (u_field_set u)"
  "u_off (inc_len f u) = u_off u"
  "u_off (set_len f n u) = u_off u"
  "u_off (set_off f m u) = (u_off u)(f := of_nat m)"
  "u_off (set_field f u) = u_off u"
  "u_len (inc_len f u) = (u_len u)(f := u_len u f + 1)"
  "u_len (set_len f n u) = (u_len u)(f := n)"
  "u_len (set_off f m u) = u_len u"
  "u_len (set_field f u) = u_len u"
  by (simp_all add: inc_len_def set_len_def set_off_def set_field_def)

definition add_len :: "http_parser_url_fields \<Rightarrow> nat \<Rightarrow> http_parser_url \<Rightarrow> http_parser_url" where
  "add_len f n u = u\<lparr>u_len := (u_len u)(f := u_len u f + of_nat n)\<rparr>"

lemma add_len_0 [simp]: "add_len f 0 u = u"
  by (simp add: add_len_def)

lemma add_len_inc [simp]: "add_len f n (inc_len f u) = add_len f (Suc n) u"
  by (simp add: add_len_def inc_len_def add_ac)

lemma add_len_fields [simp]:
  "u_field_set (add_len f n u) = u_field_set u"
  "u_off (add_len f n u) = u_off u"
  "u_len (add_len f n u) = (u_len u)(f := u_len u f + of_nat n)"
  by (simp_all add: add_len_def)

lemma parse_path_chars:
  "\<forall>c \<in> set cs. IS_URL_CHAR c \<Longrightarrow>
   parse_url_loop (cs @ rest) p s_req_path (Some UF_PATH) fa u =
   parse_url_loop rest (p + length cs) s_req_path (Some UF_PATH) fa (add_len UF_PATH (length cs) u)"
  by (induction cs arbitrary: p u) (simp_all add: Let_def)

definition url_tail_char :: "char \<Rightarrow> bool" where
  "url_tail_char c \<longleftrightarrow> IS_URL_CHAR c \<or> c = CHR ''?'' \<or> c = CHR ''#''"

definition tail_state :: "state \<Rightarrow> bool" where
  "tail_state s \<longleftrightarrow> s \<in> {s_req_query_string_start, s_req_query_string, s_req_fragment_start, s_req_fragment}"

lemma tail_state_step:
  assumes "tail_state s" and "url_tail_char c"
  shows "tail_state (parse_url_char s c)"
proof -
  have "c \<noteq> CHR '' ''" "c \<noteq> CR" "c \<noteq> LF" "c \<noteq> HTAB" "c \<noteq> CHR 0x0C"
    using assms(2) by (auto simp: url_tail_char_def IS_URL_CHAR_def)
  note c = this
  from assms(1) consider "s = s_req_query_string_start \<or> s = s_req_query_string"
    | "s = s_req_fragment_start" | "s = s_req_fragment"
    by (auto simp: tail_state_def)
  then show ?thesis
  proof cases
    case 1
    with assms(2) c show ?thesis
      by (elim disjE; simp add: parse_url_char_def tail_state_def url_tail_char_def; blast)
  next
    case 2
    with assms(2) c show ?thesis
      by (simp add: parse_url_char_def tail_state_def url_tail_char_def; blast)
  next
    case 3
    with assms(2) c show ?thesis
      by (simp add: parse_url_char_def tail_state_def url_tail_char_def; blast)
  qed
qed

text \<open>Past the path, the loop reaches the end and touches only the query and the fragment.\<close>

lemma parse_url_tail:
  assumes "tail_state s" and "\<forall>c \<in> set cs. url_tail_char c"
  shows "\<exists>u'. parse_url_loop cs p s uf fa u = (True, fa, u') \<and>
    u_field_set u \<subseteq> u_field_set u' \<and> u_field_set u' \<subseteq> u_field_set u \<union> {UF_QUERY, UF_FRAGMENT} \<and>
    u_off u' UF_PATH = u_off u UF_PATH \<and> u_len u' UF_PATH = u_len u UF_PATH"
  using assms
proof (induction cs arbitrary: p s uf u)
  case Nil
  then show ?case by auto
next
  case (Cons c cs)
  have t: "tail_state (parse_url_char s c)" using Cons.prems by (simp add: tail_state_step)
  then have "parse_url_char s c \<noteq> s_req_server_with_at" by (auto simp: tail_state_def)
  moreover have "url_field_of (parse_url_char s c) = Url_delimiter \<or>
      url_field_of (parse_url_char s c) = Url_field UF_QUERY \<or>
      url_field_of (parse_url_char s c) = Url_field UF_FRAGMENT"
    using t by (auto simp: tail_state_def)
  moreover note IH = Cons.IH [OF t]
  ultimately show ?case using Cons.prems(2)
    apply (elim disjE)
      apply simp
     subgoal
       using IH [of "Suc p" uf "inc_len UF_QUERY u"]
         IH [of "Suc p" "Some UF_QUERY" "set_field UF_QUERY (set_len UF_QUERY 1 (set_off UF_QUERY p u))"]
       by (auto simp: Let_def)
    subgoal
      using IH [of "Suc p" uf "inc_len UF_FRAGMENT u"]
        IH [of "Suc p" "Some UF_FRAGMENT"
          "set_field UF_FRAGMENT (set_len UF_FRAGMENT 1 (set_off UF_FRAGMENT p u))"]
      by (auto simp: Let_def)
    done
qed

text \<open>The targets of the shape \<open>/path\<close>, \<open>/path?query\<close> and \<open>/path#fragment\<close>.\<close>

definition origin_form :: "string \<Rightarrow> string \<Rightarrow> bool" where
  "origin_form pth rest \<longleftrightarrow>
     pth \<noteq> [] \<and> hd pth = CHR ''/'' \<and> (\<forall>c \<in> set pth. IS_URL_CHAR c) \<and>
     (rest = [] \<or> hd rest = CHR ''?'' \<or> hd rest = CHR ''#'') \<and> (\<forall>c \<in> set rest. url_tail_char c)"

lemma parse_url_origin_form:
  assumes "origin_form pth rest"
  shows "\<exists>u. http_parser_parse_url (pth @ rest) False url_zero = (0, u) \<and>
    UF_PATH \<in> u_field_set u \<and> u_off u UF_PATH = 0 \<and> u_len u UF_PATH = of_nat (length pth)"
proof -
  from assms obtain cs where pth: "pth = CHR ''/'' # cs" by (cases pth) (auto simp: origin_form_def)
  have cs: "\<forall>c \<in> set cs. IS_URL_CHAR c" using assms pth by (simp add: origin_form_def)
  let ?u1 = "set_field UF_PATH (set_len UF_PATH 1 (set_off UF_PATH 0 (url_zero\<lparr>u_port := 0, u_field_set := {}\<rparr>)))"
  let ?u2 = "add_len UF_PATH (length cs) ?u1"
  have start: "parse_url_loop (pth @ rest) 0 s_req_spaces_before_url None False
      (url_zero\<lparr>u_port := 0, u_field_set := {}\<rparr>) =
      parse_url_loop rest (Suc (length cs)) s_req_path (Some UF_PATH) False ?u2"
    using parse_path_chars [OF cs, of rest 1 False ?u1]
    by (simp add: pth parse_url_char_def Let_def)
  have "\<exists>u. parse_url_loop rest (Suc (length cs)) s_req_path (Some UF_PATH) False ?u2 = (True, False, u) \<and>
    u_field_set ?u2 \<subseteq> u_field_set u \<and> u_field_set u \<subseteq> u_field_set ?u2 \<union> {UF_QUERY, UF_FRAGMENT} \<and>
    u_off u UF_PATH = u_off ?u2 UF_PATH \<and> u_len u UF_PATH = u_len ?u2 UF_PATH"
  proof (cases rest)
    case Nil
    then show ?thesis by simp
  next
    case (Cons c ds)
    have "tail_state (parse_url_char s_req_path c)"
      "url_field_of (parse_url_char s_req_path c) = Url_delimiter" "\<forall>c \<in> set ds. url_tail_char c"
      using assms Cons by (auto simp: origin_form_def tail_state_def)
    with Cons show ?thesis
      using parse_url_tail [of "parse_url_char s_req_path c" ds "Suc (Suc (length cs))" "Some UF_PATH" False ?u2]
      by (simp add: Let_def)
  qed
  then obtain u where u: "parse_url_loop rest (Suc (length cs)) s_req_path (Some UF_PATH) False ?u2 = (True, False, u)"
    "{UF_PATH} \<subseteq> u_field_set u" "u_field_set u \<subseteq> {UF_PATH, UF_QUERY, UF_FRAGMENT}"
    "u_off u UF_PATH = 0" "u_len u UF_PATH = 1 + of_nat (length cs)"
    by (auto simp: url_zero_def)
  then have "UF_SCHEMA \<notin> u_field_set u" "UF_HOST \<notin> u_field_set u" "UF_PORT \<notin> u_field_set u" by auto
  with u start show ?thesis
    by (intro exI [of _ u]) (simp add: http_parser_parse_url_def pth)
qed

text \<open>
  For a request target of origin form (a path, then nothing, a query or a fragment),
  \<open>http_parser_parse_url\<close> on the zeroed structure succeeds, puts the path at offset 0, and
  gives it a length that is the real one modulo \<open>2 ^ 16\<close>: the field is a \<open>uint16_t\<close>.
\<close>

theorem parse_url_path_length:
  assumes "origin_form pth rest"
  shows "\<exists>u. http_parser_parse_url (pth @ rest) False url_zero = (0, u) \<and>
    UF_PATH \<in> u_field_set u \<and> unat (u_off u UF_PATH) = 0 \<and>
    unat (u_len u UF_PATH) = length pth mod 2 ^ 16 \<and>
    (length pth < 2 ^ 16 \<longrightarrow> url_field u UF_PATH (pth @ rest) = pth)"
proof -
  obtain u where u: "http_parser_parse_url (pth @ rest) False url_zero = (0, u)"
    "UF_PATH \<in> u_field_set u" "u_off u UF_PATH = 0" "u_len u UF_PATH = of_nat (length pth)"
    using parse_url_origin_form [OF assms] by auto
  then show ?thesis
    by (intro exI [of _ u]) (simp add: unat_of_nat url_field_def)
qed

theorem parse_url_path_length_witness:
  "\<exists>u. http_parser_parse_url (''/a/b'' @ ''?x=1'') False url_zero = (0, u) \<and>
     url_field u UF_PATH ''/a/b?x=1'' = ''/a/b''"
  using parse_url_path_length [of "''/a/b''" "''?x=1''"]
  by (auto simp: origin_form_def url_tail_char_def IS_URL_CHAR_def)

section \<open>Every field lies in the buffer\<close>

text \<open>The end of every field that is set, and of the host in any case, is at most \<open>B\<close> of the field.\<close>

definition url_bounded :: "(http_parser_url_fields \<Rightarrow> nat) \<Rightarrow> http_parser_url \<Rightarrow> bool" where
  "url_bounded B u \<longleftrightarrow>
     (\<forall>f. f = UF_HOST \<or> f \<in> u_field_set u \<longrightarrow> unat (u_off u f) + unat (u_len u f) \<le> B f)"

lemma url_bounded_port [simp]: "url_bounded B (u\<lparr>u_port := q\<rparr>) = url_bounded B u"
  by (simp add: url_bounded_def)

lemma url_bounded_mono: "url_bounded B u \<Longrightarrow> B \<le> C \<Longrightarrow> url_bounded C u"
  unfolding url_bounded_def le_fun_def by (blast intro: le_trans)

lemma unat_plus_1: "unat (x + 1) \<le> Suc (unat (x :: 16 word))"
  by (metis add.commute eq_iff unatSuc le0 unat_0)

lemma url_bounded_inc:
  assumes "url_bounded B u" and "B \<le> C" and "Suc (B f) \<le> C f"
  shows "url_bounded C (inc_len f u)"
  unfolding url_bounded_def
proof (intro allI impI)
  fix g assume "g = UF_HOST \<or> g \<in> u_field_set (inc_len f u)"
  then have "unat (u_off u g) + unat (u_len u g) \<le> B g" using assms(1) by (auto simp: url_bounded_def)
  moreover have "B g \<le> C g" using assms(2) by (simp add: le_fun_def)
  moreover have "unat (u_len u g + 1) \<le> Suc (unat (u_len u g))" by (rule unat_plus_1)
  ultimately show "unat (u_off (inc_len f u) g) + unat (u_len (inc_len f u) g) \<le> C g"
    using assms(3) by (cases "g = f") auto
qed

lemma url_bounded_start:
  assumes "url_bounded B u" and "B \<le> C" and "p < 2 ^ 16" and "p + unat l \<le> C f"
  shows "url_bounded C (set_field f (set_len f l (set_off f p u)))"
  using url_bounded_mono [OF assms(1,2)] assms(3,4) by (auto simp: url_bounded_def unat_of_nat)

lemma parse_url_loop_bounded:
  "parse_url_loop cs p s uf fa u = (fin, fa', u') \<Longrightarrow> url_bounded (\<lambda>_. p) u \<Longrightarrow>
   p + length cs < 2 ^ 16 \<Longrightarrow> url_bounded (\<lambda>_. p + length cs) u'"
proof (induction cs p s uf fa u rule: parse_url_loop.induct)
  case (1 p s uf fa u)
  then show ?case by simp
next
  case (2 ch cs p s uf fa u)
  let ?s = "parse_url_char s ch"
  have mono: "url_bounded (\<lambda>_. Suc p) u"
    by (rule url_bounded_mono [OF "2.prems"(2)]) (simp add: le_fun_def)
  show ?case
  proof (cases "url_field_of ?s")
    case Url_dead
    with "2.prems" show ?thesis by (auto intro: url_bounded_mono simp: le_fun_def)
  next
    case Url_delimiter
    with "2.prems" "2.IH"(1) [OF refl Url_delimiter] mono show ?thesis by simp
  next
    case (Url_field f)
    have "url_bounded (\<lambda>_. Suc p) (inc_len f u)"
      by (rule url_bounded_inc [OF "2.prems"(2)]) (simp_all add: le_fun_def)
    moreover have "url_bounded (\<lambda>_. Suc p) (set_field f (set_len f 1 (set_off f p u)))"
      using "2.prems"(3) by (intro url_bounded_start [OF "2.prems"(2)]) (simp_all add: le_fun_def)
    ultimately show ?thesis
      using "2.prems" "2.IH"(2) [OF refl Url_field refl] "2.IH"(3) [OF refl Url_field refl]
      by (cases "uf = Some f") (auto simp: Url_field Let_def)
  qed
qed

lemma url_field_of_range: "url_field_of s = Url_field f \<Longrightarrow> f \<noteq> UF_PORT \<and> f \<noteq> UF_USERINFO"
  by (auto simp: url_field_of_def split: if_splits)

lemma parse_url_loop_fields:
  "parse_url_loop cs p s uf fa u = (fin, fa', u') \<Longrightarrow> UF_PORT \<notin> u_field_set u \<Longrightarrow>
   UF_USERINFO \<notin> u_field_set u \<Longrightarrow> UF_PORT \<notin> u_field_set u' \<and> UF_USERINFO \<notin> u_field_set u'"
proof (induction cs p s uf fa u rule: parse_url_loop.induct)
  case (1 p s uf fa u)
  then show ?case by simp
next
  case (2 ch cs p s uf fa u)
  then show ?case
    using url_field_of_range [of "parse_url_char s ch"]
    by (cases "url_field_of (parse_url_char s ch)") (auto simp: Let_def split: if_splits)
qed

text \<open>The loop over the host moves the host, the port and the user info only.\<close>

definition host_bound :: "nat \<Rightarrow> nat \<Rightarrow> http_parser_url_fields \<Rightarrow> nat" where
  "host_bound n p f = (if f \<in> {UF_HOST, UF_PORT, UF_USERINFO} then p else n)"

lemma host_bound_simps [simp]:
  "host_bound n p UF_HOST = p" "host_bound n p UF_PORT = p" "host_bound n p UF_USERINFO = p"
  "p \<le> q \<Longrightarrow> host_bound n p \<le> host_bound n q"
  by (simp_all add: host_bound_def le_fun_def)

text \<open>The host field has no byte yet in the states before the host proper.\<close>

definition host_fresh :: "http_host_state \<Rightarrow> http_parser_url \<Rightarrow> bool" where
  "host_fresh s u \<longleftrightarrow>
     (s \<in> {s_http_userinfo_start, s_http_userinfo, s_http_host_start, s_http_host_v6_start} \<longrightarrow>
     u_len u UF_HOST = 0)"

lemma host_step_bounded:
  assumes "url_bounded (host_bound n p) u" and "host_fresh s u" and "p < 2 ^ 16"
    and "http_parse_host_char s ch \<noteq> s_http_host_dead"
  shows "url_bounded (host_bound n (Suc p)) (host_step s (http_parse_host_char s ch) p u)"
    and "host_fresh (http_parse_host_char s ch) (host_step s (http_parse_host_char s ch) p u)"
proof -
  let ?B = "host_bound n p" and ?C = "host_bound n (Suc p)"
  have keep: "url_bounded ?C u" by (rule url_bounded_mono [OF assms(1)]) simp
  have off: "url_bounded ?B (set_off UF_HOST p u)" if "u_len u UF_HOST = 0"
    using that assms(1,3) by (auto simp: url_bounded_def unat_of_nat)
  have inc: "url_bounded ?C (inc_len f v)"
    if "url_bounded ?B v" "f \<in> {UF_HOST, UF_PORT, UF_USERINFO}" for f v
    by (rule url_bounded_inc [OF that(1)]) (use that(2) in auto)
  have start: "url_bounded ?B (set_field f (set_len f 0 (set_off f p u)))"
    if "f \<in> {UF_HOST, UF_PORT, UF_USERINFO}" for f
    by (rule url_bounded_start [OF assms(1)]) (use that assms(3) in auto)
  show "url_bounded ?C (host_step s (http_parse_host_char s ch) p u)"
    using assms(1,2,4) keep
    by (cases s) (auto simp: host_step_def http_parse_host_char_def host_fresh_def
      intro!: inc off start)
  show "host_fresh (http_parse_host_char s ch) (host_step s (http_parse_host_char s ch) p u)"
    using assms(2,4)
    by (cases s) (auto simp: host_step_def http_parse_host_char_def host_fresh_def split: if_splits)
qed

lemma parse_host_loop_bounded:
  "parse_host_loop cs p s u = (s', u') \<Longrightarrow> url_bounded (host_bound n p) u \<Longrightarrow> host_fresh s u \<Longrightarrow>
   p + length cs < 2 ^ 16 \<Longrightarrow> url_bounded (host_bound n (p + length cs)) u'"
proof (induction cs p s u rule: parse_host_loop.induct)
  case (1 p s u)
  then show ?case by simp
next
  case (2 ch cs p s u)
  let ?n = "http_parse_host_char s ch"
  show ?case
  proof (cases "?n = s_http_host_dead")
    case True
    with "2.prems" show ?thesis by (auto intro: url_bounded_mono)
  next
    case False
    have "p < 2 ^ 16" using "2.prems" by simp
    note step = host_step_bounded [OF "2.prems"(2,3) this False]
    show ?thesis
      using "2.prems" "2.IH" [OF refl False _ step] False by (simp add: Let_def)
  qed
qed

lemma http_parse_host_bounded:
  assumes "http_parse_host buf v fa = (i, u)" and "url_bounded (\<lambda>_. length buf) v"
    and "UF_PORT \<notin> u_field_set v" and "UF_USERINFO \<notin> u_field_set v" and "length buf < 2 ^ 16"
  shows "url_bounded (\<lambda>_. length buf) u \<and> (i = 0 \<or> i = 1)"
proof -
  define h l where "h = unat (u_off v UF_HOST)" and "l = unat (u_len v UF_HOST)"
  let ?s = "if fa then s_http_userinfo_start else s_http_host_start"
  obtain t w where loop: "parse_host_loop (drop h (take (h + l) buf)) h ?s (set_len UF_HOST 0 v) = (t, w)"
    by (cases "parse_host_loop (drop h (take (h + l) buf)) h ?s (set_len UF_HOST 0 v)") auto
  have hl: "h + l \<le> length buf" using assms(2) by (auto simp: url_bounded_def h_def l_def)
  have "url_bounded (host_bound (length buf) h) (set_len UF_HOST 0 v)"
    using assms(2-4) by (auto simp: url_bounded_def host_bound_def h_def)
  moreover have "host_fresh ?s (set_len UF_HOST 0 v)" by (simp add: host_fresh_def)
  moreover have "length (drop h (take (h + l) buf)) = l" using hl by simp
  ultimately have "url_bounded (host_bound (length buf) (h + l)) w"
    using parse_host_loop_bounded [OF loop, of "length buf"] hl assms(5) by (simp only: le_less_trans)
  then have "url_bounded (\<lambda>_. length buf) w"
    by (rule url_bounded_mono) (use hl in \<open>simp add: host_bound_def le_fun_def\<close>)
  moreover have "u = w \<and> (i = 0 \<or> i = 1)"
    using assms(1) loop by (auto simp: http_parse_host_def Let_def h_def l_def split: if_splits)
  ultimately show ?thesis by simp
qed

text \<open>
  C28: On a buffer shorter than \<open>2 ^ 16\<close> every field that \<open>http_parser_parse_url\<close>
  reports, on success or failure, lies inside the buffer: its offset and length, 16 bits
  each, never name bytes past the end. The result is 0 or 1, never negative.
\<close>

theorem parse_url_fields_in_buffer:
  assumes "length buf < 2 ^ 16"
    and "http_parser_parse_url buf is_connect url_zero = (r, u)"
  shows "(r = 0 \<or> r = 1) \<and>
    (\<forall>f. f \<in> u_field_set u \<longrightarrow> unat (u_off u f) + unat (u_len u f) \<le> length buf)"
proof -
  let ?s = "if is_connect then s_req_server_start else s_req_spaces_before_url"
  have z: "url_zero\<lparr>u_port := 0, u_field_set := {}\<rparr> = url_zero" by (simp add: url_zero_def)
  obtain fin fa v where loop: "parse_url_loop buf 0 ?s None False url_zero = (fin, fa, v)"
    by (cases "parse_url_loop buf 0 ?s None False url_zero") auto
  have v: "url_bounded (\<lambda>_. length buf) v"
    using parse_url_loop_bounded [OF loop] assms(1) by (simp add: url_bounded_def url_zero_def)
  have nf: "UF_PORT \<notin> u_field_set v" "UF_USERINFO \<notin> u_field_set v"
    using parse_url_loop_fields [OF loop] by (simp_all add: url_zero_def)
  obtain i w where h: "http_parse_host buf v fa = (i, w)"
    by (cases "http_parse_host buf v fa") auto
  have w: "url_bounded (\<lambda>_. length buf) w"
    using http_parse_host_bounded [OF h v nf assms(1)] by simp
  have "(r = 0 \<or> r = 1) \<and> url_bounded (\<lambda>_. length buf) u"
  proof (cases "\<not> fin")
    case True
    then show ?thesis using assms(2) v by (simp add: http_parser_parse_url_def z loop)
  next
    case False
    have "http_parser_parse_url buf is_connect url_zero \<in>
        {(1, v), (0, v), (1, w), (0, w)} \<union> range (\<lambda>q. (0, v\<lparr>u_port := q\<rparr>)) \<union>
        range (\<lambda>q. (0, w\<lparr>u_port := q\<rparr>))"
      using False
      by (cases "UF_SCHEMA \<in> u_field_set v \<or> UF_HOST \<in> u_field_set v")
        (simp_all add: http_parser_parse_url_def z loop h Let_def)
    then show ?thesis using assms(2) v w by auto
  qed
  then show ?thesis by (auto simp: url_bounded_def)
qed

theorem parse_url_fields_in_buffer_witness:
  "\<exists>u. http_parser_parse_url ''/a/b?x=1'' False url_zero = (0, u) \<and>
     (\<forall>f. f \<in> u_field_set u \<longrightarrow> unat (u_off u f) + unat (u_len u f) \<le> 8)"
proof -
  obtain u where u: "http_parser_parse_url ''/a/b?x=1'' False url_zero = (0, u)"
    using parse_url_origin_form [of "''/a/b''" "''?x=1''"]
    by (auto simp: origin_form_def url_tail_char_def IS_URL_CHAR_def)
  then show ?thesis using parse_url_fields_in_buffer [OF _ u] by auto
qed

end
