(* ===== verification/Http_Parser.thy ===== *)
theory Http_Parser
  imports Http_Parser_Types Http_Url
begin

text \<open>
  \<open>http_parser_execute\<close> of \<open>lib/http_parser.c\<close>: the parser structure, the callbacks, one
  definition per state of the big switch, and the loop over the bytes. The local
  variables of the function (the position and the five marks) are the record \<open>exec\<close>.
  A callback reads the parser and changes the user state only, as those of
  \<open>src/http-reader.c\<close> do.
\<close>

section \<open>The parser and the callbacks\<close>

record http_parser =
  p_type :: http_parser_type
  p_flags :: "flag set"
  p_state :: state
  p_header_state :: header_states
  p_index :: nat
  p_nread :: nat
  p_content_length :: "64 word"
  p_http_major :: nat
  p_http_minor :: nat
  p_status_code :: nat
  p_method :: http_method
  p_errno :: http_errno
  p_upgrade :: bool

abbreviation ULLONG_MAX :: "64 word" where
  "ULLONG_MAX \<equiv> - 1"

abbreviation HTTP_MAX_HEADER_SIZE :: nat where
  "HTTP_MAX_HEADER_SIZE \<equiv> 80 * 1024"

text \<open>\<open>http_parser_init\<close>: everything zero but the type and the start state.\<close>

definition http_parser_init :: "http_parser_type \<Rightarrow> http_parser" where
  "http_parser_init t =
     \<lparr>p_type = t, p_flags = {},
      p_state = (if t = HTTP_REQUEST then s_start_req
                 else if t = HTTP_RESPONSE then s_start_res else s_start_req_or_res),
      p_header_state = h_general, p_index = 0, p_nread = 0, p_content_length = 0,
      p_http_major = 0, p_http_minor = 0, p_status_code = 0, p_method = HTTP_DELETE,
      p_errno = HPE_OK, p_upgrade = False\<rparr>"

definition http_message_needs_eof :: "http_parser \<Rightarrow> bool" where
  "http_message_needs_eof pr =
     (if p_type pr = HTTP_REQUEST then False
      else if p_status_code pr div 100 = 1 \<or> p_status_code pr = 204 \<or> p_status_code pr = 304 \<or>
              F_SKIPBODY \<in> p_flags pr then False
      else if F_CHUNKED \<in> p_flags pr \<or> p_content_length pr \<noteq> ULLONG_MAX then False
      else True)"

definition http_should_keep_alive :: "http_parser \<Rightarrow> bool" where
  "http_should_keep_alive pr =
     (if p_http_major pr > 0 \<and> p_http_minor pr > 0 then
        (if F_CONNECTION_CLOSE \<in> p_flags pr then False else \<not> http_message_needs_eof pr)
      else
        (if F_CONNECTION_KEEP_ALIVE \<notin> p_flags pr then False else \<not> http_message_needs_eof pr))"

definition start_state :: "http_parser \<Rightarrow> state" where
  "start_state pr = (if p_type pr = HTTP_REQUEST then s_start_req else s_start_res)"

definition NEW_MESSAGE :: "http_parser \<Rightarrow> state" where
  "NEW_MESSAGE pr = (if http_should_keep_alive pr then start_state pr else s_dead)"

type_synonym 'u http_cb = "http_parser \<Rightarrow> 'u \<Rightarrow> (int \<times> 'u) res"
type_synonym 'u http_data_cb = "http_parser \<Rightarrow> string \<Rightarrow> 'u \<Rightarrow> (int \<times> 'u) res"

record 'u http_parser_settings =
  on_message_begin :: "'u http_cb option"
  on_url :: "'u http_data_cb option"
  on_status :: "'u http_data_cb option"
  on_header_field :: "'u http_data_cb option"
  on_header_value :: "'u http_data_cb option"
  on_headers_complete :: "'u http_cb option"
  on_body :: "'u http_data_cb option"
  on_message_complete :: "'u http_cb option"

datatype data_cb = cb_url | cb_status | cb_header_field | cb_header_value | cb_body

fun on_data :: "data_cb \<Rightarrow> 'u http_parser_settings \<Rightarrow> 'u http_data_cb option" where
  "on_data cb_url st = on_url st"
| "on_data cb_status st = on_status st"
| "on_data cb_header_field st = on_header_field st"
| "on_data cb_header_value st = on_header_value st"
| "on_data cb_body st = on_body st"

fun data_errno :: "data_cb \<Rightarrow> http_errno" where
  "data_errno cb_url = HPE_CB_url"
| "data_errno cb_status = HPE_CB_status"
| "data_errno cb_header_field = HPE_CB_header_field"
| "data_errno cb_header_value = HPE_CB_header_value"
| "data_errno cb_body = HPE_CB_body"

section \<open>The run of one call\<close>

record 'u exec =
  x_parser :: http_parser
  x_user :: 'u
  x_p :: nat
  x_mark :: "data_cb \<Rightarrow> nat option"

text \<open>
  How the code of a state ends: \<open>break\<close>, \<open>goto reexecute_byte\<close>, a \<open>return\<close> of the
  function (\<open>goto error\<close> included), or a fault.
\<close>

datatype 'u step_result =
  Next "'u exec" | Again "'u exec" | Return "'u exec" nat | Fault fault

definition set_state :: "state \<Rightarrow> 'u exec \<Rightarrow> 'u exec" where
  "set_state s x = x\<lparr>x_parser := (x_parser x)\<lparr>p_state := s\<rparr>\<rparr>"

definition set_header_state :: "header_states \<Rightarrow> 'u exec \<Rightarrow> 'u exec" where
  "set_header_state h x = x\<lparr>x_parser := (x_parser x)\<lparr>p_header_state := h\<rparr>\<rparr>"

definition SET_ERRNO :: "http_errno \<Rightarrow> 'u exec \<Rightarrow> 'u exec" where
  "SET_ERRNO e x = x\<lparr>x_parser := (x_parser x)\<lparr>p_errno := e\<rparr>\<rparr>"

definition upd_parser :: "(http_parser \<Rightarrow> http_parser) \<Rightarrow> 'u exec \<Rightarrow> 'u exec" where
  "upd_parser f x = x\<lparr>x_parser := f (x_parser x)\<rparr>"

definition MARK :: "data_cb \<Rightarrow> 'u exec \<Rightarrow> 'u exec" where
  "MARK c x = (if x_mark x c = None then x\<lparr>x_mark := (x_mark x)(c := Some (x_p x))\<rparr> else x)"

text \<open>\<open>SET_ERRNO(e); goto error;\<close>\<close>

definition goto_error :: "http_errno \<Rightarrow> 'u exec \<Rightarrow> 'u step_result" where
  "goto_error e x = Return (SET_ERRNO e x) (x_p x)"

text \<open>
  \<open>CALLBACK_NOTIFY_(FOR, er)\<close> and \<open>CALLBACK_DATA_(FOR, end - mark, er)\<close>, with the code
  that follows them as the continuation \<open>k\<close>.
\<close>

definition CALLBACK_NOTIFY ::
  "'u http_cb option \<Rightarrow> http_errno \<Rightarrow> nat \<Rightarrow> 'u exec \<Rightarrow> ('u exec \<Rightarrow> 'u step_result) \<Rightarrow> 'u step_result"
where
  "CALLBACK_NOTIFY cb e er x k =
     (if p_errno (x_parser x) \<noteq> HPE_OK then Fault Assert_failed
      else case cb of
        None \<Rightarrow> k x
      | Some f \<Rightarrow>
          (case f (x_parser x) (x_user x) of
             Inl ft \<Rightarrow> Fault ft
           | Inr (r, u) \<Rightarrow>
               if r \<noteq> 0 then Return (SET_ERRNO e (x\<lparr>x_user := u\<rparr>)) er
               else k (x\<lparr>x_user := u\<rparr>)))"

definition CALLBACK_DATA ::
  "'u http_parser_settings \<Rightarrow> string \<Rightarrow> data_cb \<Rightarrow> nat \<Rightarrow> nat \<Rightarrow> 'u exec \<Rightarrow>
   ('u exec \<Rightarrow> 'u step_result) \<Rightarrow> 'u step_result"
where
  "CALLBACK_DATA st data c stop er x k =
     (if p_errno (x_parser x) \<noteq> HPE_OK then Fault Assert_failed
      else case x_mark x c of
        None \<Rightarrow> k x
      | Some m \<Rightarrow>
          (case on_data c st of
             None \<Rightarrow> k (x\<lparr>x_mark := (x_mark x)(c := None)\<rparr>)
           | Some f \<Rightarrow>
               (case f (x_parser x) (drop m (take stop data)) (x_user x) of
                  Inl ft \<Rightarrow> Fault ft
                | Inr (r, u) \<Rightarrow>
                    if r \<noteq> 0 then Return (SET_ERRNO (data_errno c) (x\<lparr>x_user := u\<rparr>)) er
                    else k (x\<lparr>x_user := u, x_mark := (x_mark x)(c := None)\<rparr>))))"

definition message_begin :: "'u http_parser_settings \<Rightarrow> 'u exec \<Rightarrow> 'u step_result" where
  "message_begin st x =
     CALLBACK_NOTIFY (on_message_begin st) HPE_CB_message_begin (Suc (x_p x)) x Next"

definition message_complete :: "'u http_parser_settings \<Rightarrow> 'u exec \<Rightarrow> 'u step_result" where
  "message_complete st x =
     CALLBACK_NOTIFY (on_message_complete st) HPE_CB_message_complete (Suc (x_p x)) x Next"

text \<open>\<open>parser->state = NEW_MESSAGE(); CALLBACK_NOTIFY(message_complete);\<close>\<close>

definition end_message :: "'u http_parser_settings \<Rightarrow> 'u exec \<Rightarrow> 'u step_result" where
  "end_message st x = message_complete st (set_state (NEW_MESSAGE (x_parser x)) x)"

definition STRICT_CHECK :: "bool \<Rightarrow> 'u exec \<Rightarrow> 'u step_result \<Rightarrow> 'u step_result" where
  "STRICT_CHECK cond x k = (if cond then goto_error HPE_STRICT x else k)"

section \<open>The start of a message and the status line\<close>

definition in_dead :: "char \<Rightarrow> 'u exec \<Rightarrow> 'u step_result" where
  "in_dead ch x = (if ch = CR \<or> ch = LF then Next x else goto_error HPE_CLOSED_CONNECTION x)"

definition reset_message :: "http_parser \<Rightarrow> http_parser" where
  "reset_message pr = pr\<lparr>p_flags := {}, p_content_length := ULLONG_MAX\<rparr>"

definition in_start_req_or_res ::
  "'u http_parser_settings \<Rightarrow> char \<Rightarrow> 'u exec \<Rightarrow> 'u step_result" where
  "in_start_req_or_res st ch x =
     (if ch = CR \<or> ch = LF then Next x
      else
        let x = upd_parser reset_message x in
        if ch = CHR ''H'' then message_begin st (set_state s_res_or_resp_H x)
        else Again (set_state s_start_req (upd_parser (\<lambda>pr. pr\<lparr>p_type := HTTP_REQUEST\<rparr>) x)))"

definition in_res_or_resp_H :: "char \<Rightarrow> 'u exec \<Rightarrow> 'u step_result" where
  "in_res_or_resp_H ch x =
     (if ch = CHR ''T'' then
        Next (set_state s_res_HT (upd_parser (\<lambda>pr. pr\<lparr>p_type := HTTP_RESPONSE\<rparr>) x))
      else if ch \<noteq> CHR ''E'' then goto_error HPE_INVALID_CONSTANT x
      else
        Next (set_state s_req_method
          (upd_parser (\<lambda>pr. pr\<lparr>p_type := HTTP_REQUEST, p_method := HTTP_HEAD, p_index := 2\<rparr>) x)))"

definition in_start_res :: "'u http_parser_settings \<Rightarrow> char \<Rightarrow> 'u exec \<Rightarrow> 'u step_result" where
  "in_start_res st ch x =
     (let x = upd_parser reset_message x in
      if ch = CHR ''H'' then message_begin st (set_state s_res_H x)
      else if ch = CR \<or> ch = LF then message_begin st x
      else goto_error HPE_INVALID_CONSTANT x)"

text \<open>The states that wait for one fixed character in the strict build.\<close>

definition expect :: "char \<Rightarrow> state \<Rightarrow> char \<Rightarrow> 'u exec \<Rightarrow> 'u step_result" where
  "expect c s ch x = STRICT_CHECK (ch \<noteq> c) x (Next (set_state s x))"

definition push_digit :: "nat \<Rightarrow> char \<Rightarrow> nat" where
  "push_digit n ch = 10 * n + digit_val ch"

definition in_res_first_http_major :: "char \<Rightarrow> 'u exec \<Rightarrow> 'u step_result" where
  "in_res_first_http_major ch x =
     (if \<not> IS_NUM ch then goto_error HPE_INVALID_VERSION x
      else Next (set_state s_res_http_major (upd_parser (\<lambda>pr. pr\<lparr>p_http_major := digit_val ch\<rparr>) x)))"

definition next_http_major :: "char \<Rightarrow> 'u exec \<Rightarrow> 'u step_result" where
  "next_http_major ch x =
     (if \<not> IS_NUM ch then goto_error HPE_INVALID_VERSION x
      else
        let x = upd_parser (\<lambda>pr. pr\<lparr>p_http_major := push_digit (p_http_major pr) ch\<rparr>) x in
        if p_http_major (x_parser x) > 999 then goto_error HPE_INVALID_VERSION x else Next x)"

definition next_http_minor :: "char \<Rightarrow> 'u exec \<Rightarrow> 'u step_result" where
  "next_http_minor ch x =
     (if \<not> IS_NUM ch then goto_error HPE_INVALID_VERSION x
      else
        let x = upd_parser (\<lambda>pr. pr\<lparr>p_http_minor := push_digit (p_http_minor pr) ch\<rparr>) x in
        if p_http_minor (x_parser x) > 999 then goto_error HPE_INVALID_VERSION x else Next x)"

definition in_res_http_major :: "char \<Rightarrow> 'u exec \<Rightarrow> 'u step_result" where
  "in_res_http_major ch x =
     (if ch = CHR ''.'' then Next (set_state s_res_first_http_minor x) else next_http_major ch x)"

definition first_http_minor :: "state \<Rightarrow> char \<Rightarrow> 'u exec \<Rightarrow> 'u step_result" where
  "first_http_minor s ch x =
     (if \<not> IS_NUM ch then goto_error HPE_INVALID_VERSION x
      else Next (set_state s (upd_parser (\<lambda>pr. pr\<lparr>p_http_minor := digit_val ch\<rparr>) x)))"

definition in_res_http_minor :: "char \<Rightarrow> 'u exec \<Rightarrow> 'u step_result" where
  "in_res_http_minor ch x =
     (if ch = CHR '' '' then Next (set_state s_res_first_status_code x) else next_http_minor ch x)"

definition in_res_first_status_code :: "char \<Rightarrow> 'u exec \<Rightarrow> 'u step_result" where
  "in_res_first_status_code ch x =
     (if \<not> IS_NUM ch then
        (if ch = CHR '' '' then Next x else goto_error HPE_INVALID_STATUS x)
      else Next (set_state s_res_status_code (upd_parser (\<lambda>pr. pr\<lparr>p_status_code := digit_val ch\<rparr>) x)))"

definition in_res_status_code :: "char \<Rightarrow> 'u exec \<Rightarrow> 'u step_result" where
  "in_res_status_code ch x =
     (if \<not> IS_NUM ch then
        (if ch = CHR '' '' then Next (set_state s_res_status_start x)
         else if ch = CR then Next (set_state s_res_line_almost_done x)
         else if ch = LF then Next (set_state s_header_field_start x)
         else goto_error HPE_INVALID_STATUS x)
      else
        let x = upd_parser (\<lambda>pr. pr\<lparr>p_status_code := push_digit (p_status_code pr) ch\<rparr>) x in
        if p_status_code (x_parser x) > 999 then goto_error HPE_INVALID_STATUS x else Next x)"

definition in_res_status_start :: "char \<Rightarrow> 'u exec \<Rightarrow> 'u step_result" where
  "in_res_status_start ch x =
     (if ch = CR then Next (set_state s_res_line_almost_done x)
      else if ch = LF then Next (set_state s_header_field_start x)
      else Next (set_state s_res_status (upd_parser (\<lambda>pr. pr\<lparr>p_index := 0\<rparr>) (MARK cb_status x))))"

definition in_res_status ::
  "'u http_parser_settings \<Rightarrow> string \<Rightarrow> char \<Rightarrow> 'u exec \<Rightarrow> 'u step_result" where
  "in_res_status st data ch x =
     (if ch = CR then
        CALLBACK_DATA st data cb_status (x_p x) (Suc (x_p x)) (set_state s_res_line_almost_done x) Next
      else if ch = LF then
        CALLBACK_DATA st data cb_status (x_p x) (Suc (x_p x)) (set_state s_header_field_start x) Next
      else Next x)"

section \<open>The request line\<close>

text \<open>The method picked by the first letter.\<close>

definition first_method :: "char \<Rightarrow> http_method option" where
  "first_method ch =
     (if ch = CHR ''C'' then Some HTTP_CONNECT
      else if ch = CHR ''D'' then Some HTTP_DELETE
      else if ch = CHR ''G'' then Some HTTP_GET
      else if ch = CHR ''H'' then Some HTTP_HEAD
      else if ch = CHR ''L'' then Some HTTP_LOCK
      else if ch = CHR ''M'' then Some HTTP_MKCOL
      else if ch = CHR ''N'' then Some HTTP_NOTIFY
      else if ch = CHR ''O'' then Some HTTP_OPTIONS
      else if ch = CHR ''P'' then Some HTTP_POST
      else if ch = CHR ''R'' then Some HTTP_REPORT
      else if ch = CHR ''S'' then Some HTTP_SUBSCRIBE
      else if ch = CHR ''T'' then Some HTTP_TRACE
      else if ch = CHR ''U'' then Some HTTP_UNLOCK
      else None)"

definition in_start_req :: "'u http_parser_settings \<Rightarrow> char \<Rightarrow> 'u exec \<Rightarrow> 'u step_result" where
  "in_start_req st ch x =
     (if ch = CR \<or> ch = LF then Next x
      else
        let x = upd_parser reset_message x in
        if \<not> IS_ALPHA ch then goto_error HPE_INVALID_METHOD x
        else
          let x = upd_parser (\<lambda>pr. pr\<lparr>p_method := HTTP_DELETE, p_index := 1\<rparr>) x in
          case first_method ch of
            None \<Rightarrow> goto_error HPE_INVALID_METHOD x
          | Some m \<Rightarrow> message_begin st (set_state s_req_method (upd_parser (\<lambda>pr. pr\<lparr>p_method := m\<rparr>) x)))"

text \<open>The method the code switches to when the next character is not the expected one.\<close>

definition switch_method :: "http_method \<Rightarrow> nat \<Rightarrow> char \<Rightarrow> http_method option" where
  "switch_method m i ch =
     (if m = HTTP_CONNECT then
        (if i = 1 \<and> ch = CHR ''H'' then Some HTTP_CHECKOUT
         else if i = 2 \<and> ch = CHR ''P'' then Some HTTP_COPY
         else None)
      else if m = HTTP_MKCOL then
        (if i = 1 \<and> ch = CHR ''O'' then Some HTTP_MOVE
         else if i = 1 \<and> ch = CHR ''E'' then Some HTTP_MERGE
         else if i = 1 \<and> ch = CHR ''-'' then Some HTTP_MSEARCH
         else if i = 2 \<and> ch = CHR ''A'' then Some HTTP_MKACTIVITY
         else if i = 3 \<and> ch = CHR ''A'' then Some HTTP_MKCALENDAR
         else None)
      else if m = HTTP_SUBSCRIBE then
        (if i = 1 \<and> ch = CHR ''E'' then Some HTTP_SEARCH else None)
      else if i = 1 \<and> m = HTTP_POST then
        (if ch = CHR ''R'' then Some HTTP_PROPFIND
         else if ch = CHR ''U'' then Some HTTP_PUT
         else if ch = CHR ''A'' then Some HTTP_PATCH
         else None)
      else if i = 2 then
        (if m = HTTP_PUT then (if ch = CHR ''R'' then Some HTTP_PURGE else None)
         else if m = HTTP_UNLOCK then (if ch = CHR ''S'' then Some HTTP_UNSUBSCRIBE else None)
         else None)
      else if i = 4 \<and> m = HTTP_PROPFIND \<and> ch = CHR ''P'' then Some HTTP_PROPPATCH
      else None)"

definition in_req_method :: "char \<Rightarrow> 'u exec \<Rightarrow> 'u step_result" where
  "in_req_method ch x =
     (let pr = x_parser x; i = p_index pr;
          matcher = method_strings (p_method pr) @ [NUL] in
      if ch = NUL then goto_error HPE_INVALID_METHOD x
      else if i \<ge> length matcher then Fault Out_of_bounds
      else if ch = CHR '' '' \<and> matcher ! i = NUL then
        Next (set_state s_req_spaces_before_url (upd_parser (\<lambda>pr. pr\<lparr>p_index := Suc i\<rparr>) x))
      else if ch = matcher ! i then Next (upd_parser (\<lambda>pr. pr\<lparr>p_index := Suc i\<rparr>) x)
      else
        case switch_method (p_method pr) i ch of
          None \<Rightarrow> goto_error HPE_INVALID_METHOD x
        | Some m \<Rightarrow> Next (upd_parser (\<lambda>pr. pr\<lparr>p_method := m, p_index := Suc i\<rparr>) x))"

text \<open>\<open>parser->state = parse_url_char(parser->state, ch)\<close>, with its check.\<close>

definition url_char :: "char \<Rightarrow> 'u exec \<Rightarrow> 'u step_result" where
  "url_char ch x =
     (let x = set_state (parse_url_char (p_state (x_parser x)) ch) x in
      if p_state (x_parser x) = s_dead then goto_error HPE_INVALID_URL x else Next x)"

definition in_req_spaces_before_url :: "char \<Rightarrow> 'u exec \<Rightarrow> 'u step_result" where
  "in_req_spaces_before_url ch x =
     (if ch = CHR '' '' then Next x
      else
        let x = MARK cb_url x in
        url_char ch (if p_method (x_parser x) = HTTP_CONNECT then set_state s_req_server_start x else x))"

definition in_req_schema :: "char \<Rightarrow> 'u exec \<Rightarrow> 'u step_result" where
  "in_req_schema ch x =
     (if ch = CHR '' '' \<or> ch = CR \<or> ch = LF then goto_error HPE_INVALID_URL x else url_char ch x)"

definition in_req_url ::
  "'u http_parser_settings \<Rightarrow> string \<Rightarrow> char \<Rightarrow> 'u exec \<Rightarrow> 'u step_result" where
  "in_req_url st data ch x =
     (if ch = CHR '' '' then
        CALLBACK_DATA st data cb_url (x_p x) (Suc (x_p x)) (set_state s_req_http_start x) Next
      else if ch = CR \<or> ch = LF then
        CALLBACK_DATA st data cb_url (x_p x) (Suc (x_p x))
          (set_state (if ch = CR then s_req_line_almost_done else s_header_field_start)
            (upd_parser (\<lambda>pr. pr\<lparr>p_http_major := 0, p_http_minor := 9\<rparr>) x)) Next
      else url_char ch x)"

definition in_req_http_start :: "char \<Rightarrow> 'u exec \<Rightarrow> 'u step_result" where
  "in_req_http_start ch x =
     (if ch = CHR ''H'' then Next (set_state s_req_http_H x)
      else if ch = CHR '' '' then Next x
      else goto_error HPE_INVALID_CONSTANT x)"

definition in_req_first_http_major :: "char \<Rightarrow> 'u exec \<Rightarrow> 'u step_result" where
  "in_req_first_http_major ch x =
     (if \<not> IS_NUM ch \<or> ch = CHR ''0'' then goto_error HPE_INVALID_VERSION x
      else Next (set_state s_req_http_major (upd_parser (\<lambda>pr. pr\<lparr>p_http_major := digit_val ch\<rparr>) x)))"

definition in_req_http_major :: "char \<Rightarrow> 'u exec \<Rightarrow> 'u step_result" where
  "in_req_http_major ch x =
     (if ch = CHR ''.'' then Next (set_state s_req_first_http_minor x) else next_http_major ch x)"

definition in_req_http_minor :: "char \<Rightarrow> 'u exec \<Rightarrow> 'u step_result" where
  "in_req_http_minor ch x =
     (if ch = CR then Next (set_state s_req_line_almost_done x)
      else if ch = LF then Next (set_state s_header_field_start x)
      else next_http_minor ch x)"

definition in_req_line_almost_done :: "char \<Rightarrow> 'u exec \<Rightarrow> 'u step_result" where
  "in_req_line_almost_done ch x =
     (if ch \<noteq> LF then goto_error HPE_LF_EXPECTED x else Next (set_state s_header_field_start x))"

section \<open>The headers\<close>

definition in_header_field_start :: "char \<Rightarrow> 'u exec \<Rightarrow> 'u step_result" where
  "in_header_field_start ch x =
     (if ch = CR then Next (set_state s_headers_almost_done x)
      else if ch = LF then Again (set_state s_headers_almost_done x)
      else if TOKEN ch = NUL then goto_error HPE_INVALID_HEADER_TOKEN x
      else
        Next (set_header_state
          (if TOKEN ch = CHR ''c'' then h_C
           else if TOKEN ch = CHR ''p'' then h_matching_proxy_connection
           else if TOKEN ch = CHR ''t'' then h_matching_transfer_encoding
           else if TOKEN ch = CHR ''u'' then h_matching_upgrade
           else h_general)
          (set_state s_header_field (upd_parser (\<lambda>pr. pr\<lparr>p_index := 0\<rparr>) (MARK cb_header_field x)))))"

text \<open>
  One more character of a name or a value that is being matched against \<open>word\<close>: the six
  lines each matching state repeats, ending in \<open>found\<close> at the last character.
\<close>

definition match_next :: "string \<Rightarrow> header_states \<Rightarrow> char \<Rightarrow> http_parser \<Rightarrow> http_parser" where
  "match_next word found c pr =
     (let i = Suc (p_index pr) in
      pr\<lparr>p_index := i,
         p_header_state :=
           (if i > length word \<or> c \<noteq> (word @ [NUL]) ! i then h_general
            else if i = length word - 1 then found
            else p_header_state pr)\<rparr>)"

text \<open>The switch on the header state for a character of the name; \<open>None\<close> is its \<open>assert(0)\<close>.\<close>

definition field_char :: "char \<Rightarrow> char \<Rightarrow> http_parser \<Rightarrow> http_parser option" where
  "field_char ch c pr =
     (let next = (\<lambda>h. Some (pr\<lparr>p_index := Suc (p_index pr), p_header_state := h\<rparr>)) in
      case p_header_state pr of
        h_general \<Rightarrow> Some pr
      | h_C \<Rightarrow> next (if c = CHR ''o'' then h_CO else h_general)
      | h_CO \<Rightarrow> next (if c = CHR ''n'' then h_CON else h_general)
      | h_CON \<Rightarrow>
          next (if c = CHR ''n'' then h_matching_connection
                else if c = CHR ''t'' then h_matching_content_length else h_general)
      | h_matching_connection \<Rightarrow> Some (match_next CONNECTION h_connection c pr)
      | h_matching_proxy_connection \<Rightarrow> Some (match_next PROXY_CONNECTION h_connection c pr)
      | h_matching_content_length \<Rightarrow> Some (match_next CONTENT_LENGTH h_content_length c pr)
      | h_matching_transfer_encoding \<Rightarrow> Some (match_next TRANSFER_ENCODING h_transfer_encoding c pr)
      | h_matching_upgrade \<Rightarrow> Some (match_next UPGRADE h_upgrade c pr)
      | h_connection \<Rightarrow> Some (if ch \<noteq> CHR '' '' then pr\<lparr>p_header_state := h_general\<rparr> else pr)
      | h_content_length \<Rightarrow> Some (if ch \<noteq> CHR '' '' then pr\<lparr>p_header_state := h_general\<rparr> else pr)
      | h_transfer_encoding \<Rightarrow> Some (if ch \<noteq> CHR '' '' then pr\<lparr>p_header_state := h_general\<rparr> else pr)
      | h_upgrade \<Rightarrow> Some (if ch \<noteq> CHR '' '' then pr\<lparr>p_header_state := h_general\<rparr> else pr)
      | _ \<Rightarrow> None)"

definition in_header_field ::
  "'u http_parser_settings \<Rightarrow> string \<Rightarrow> char \<Rightarrow> 'u exec \<Rightarrow> 'u step_result" where
  "in_header_field st data ch x =
     (let leave = (\<lambda>s. CALLBACK_DATA st data cb_header_field (x_p x) (Suc (x_p x)) (set_state s x) Next) in
      if TOKEN ch \<noteq> NUL then
        (case field_char ch (TOKEN ch) (x_parser x) of
           None \<Rightarrow> Fault Assert_failed
         | Some pr \<Rightarrow> Next (x\<lparr>x_parser := pr\<rparr>))
      else if ch = CHR '':'' then leave s_header_value_discard_ws
      else if ch = CR then leave s_header_almost_done
      else if ch = LF then leave s_header_field_start
      else goto_error HPE_INVALID_HEADER_TOKEN x)"

text \<open>The first character of a value.\<close>

definition in_header_value_start :: "char \<Rightarrow> 'u exec \<Rightarrow> 'u step_result" where
  "in_header_value_start ch x =
     (let x = set_state s_header_value (upd_parser (\<lambda>pr. pr\<lparr>p_index := 0\<rparr>) (MARK cb_header_value x));
          c = LOWER ch in
      case p_header_state (x_parser x) of
        h_upgrade \<Rightarrow>
          Next (set_header_state h_general
            (upd_parser (\<lambda>pr. pr\<lparr>p_flags := insert F_UPGRADE (p_flags pr)\<rparr>) x))
      | h_transfer_encoding \<Rightarrow>
          Next (set_header_state
            (if c = CHR ''c'' then h_matching_transfer_encoding_chunked else h_general) x)
      | h_content_length \<Rightarrow>
          if \<not> IS_NUM ch then goto_error HPE_INVALID_CONTENT_LENGTH x
          else Next (upd_parser (\<lambda>pr. pr\<lparr>p_content_length := of_nat (digit_val ch)\<rparr>) x)
      | h_connection \<Rightarrow>
          Next (set_header_state
            (if c = CHR ''k'' then h_matching_connection_keep_alive
             else if c = CHR ''c'' then h_matching_connection_close else h_general) x)
      | _ \<Rightarrow> Next (set_header_state h_general x))"

definition in_header_value_discard_ws :: "char \<Rightarrow> 'u exec \<Rightarrow> 'u step_result" where
  "in_header_value_discard_ws ch x =
     (if ch = CHR '' '' \<or> ch = HTAB then Next x
      else if ch = CR then Next (set_state s_header_value_discard_ws_almost_done x)
      else if ch = LF then Next (set_state s_header_value_discard_lws x)
      else in_header_value_start ch x)"

definition next_content_length :: "char \<Rightarrow> 'u exec \<Rightarrow> 'u step_result" where
  "next_content_length ch x =
     (if ch = CHR '' '' then Next x
      else if \<not> IS_NUM ch then goto_error HPE_INVALID_CONTENT_LENGTH x
      else
        let old = p_content_length (x_parser x);
            t = old * 10 + of_nat (digit_val ch) in
        if (ULLONG_MAX - 10) div 10 < old then goto_error HPE_INVALID_CONTENT_LENGTH x
        else Next (upd_parser (\<lambda>pr. pr\<lparr>p_content_length := t\<rparr>) x))"

definition value_char ::
  "char \<Rightarrow> 'u exec \<Rightarrow> 'u step_result" where
  "value_char ch x =
     (let c = LOWER ch;
          drop_found = (if ch \<noteq> CHR '' '' then Next (set_header_state h_general x) else Next x) in
      case p_header_state (x_parser x) of
        h_general \<Rightarrow> Next x
      | h_connection \<Rightarrow> Fault Assert_failed
      | h_transfer_encoding \<Rightarrow> Fault Assert_failed
      | h_content_length \<Rightarrow> next_content_length ch x
      | h_matching_transfer_encoding_chunked \<Rightarrow>
          Next (upd_parser (match_next CHUNKED h_transfer_encoding_chunked c) x)
      | h_matching_connection_keep_alive \<Rightarrow>
          Next (upd_parser (match_next KEEP_ALIVE h_connection_keep_alive c) x)
      | h_matching_connection_close \<Rightarrow>
          Next (upd_parser (match_next CLOSE h_connection_close c) x)
      | h_transfer_encoding_chunked \<Rightarrow> drop_found
      | h_connection_keep_alive \<Rightarrow> drop_found
      | h_connection_close \<Rightarrow> drop_found
      | _ \<Rightarrow> Next (set_state s_header_value (set_header_state h_general x)))"

definition in_header_value ::
  "'u http_parser_settings \<Rightarrow> string \<Rightarrow> char \<Rightarrow> 'u exec \<Rightarrow> 'u step_result" where
  "in_header_value st data ch x =
     (if ch = CR then
        CALLBACK_DATA st data cb_header_value (x_p x) (Suc (x_p x)) (set_state s_header_almost_done x) Next
      else if ch = LF then
        CALLBACK_DATA st data cb_header_value (x_p x) (x_p x) (set_state s_header_almost_done x) Again
      else value_char ch x)"

definition in_header_value_lws :: "char \<Rightarrow> 'u exec \<Rightarrow> 'u step_result" where
  "in_header_value_lws ch x =
     (if ch = CHR '' '' \<or> ch = HTAB then Again (set_state s_header_value_start x)
      else
        let on = (\<lambda>f. upd_parser (\<lambda>pr. pr\<lparr>p_flags := insert f (p_flags pr)\<rparr>) x) in
        Again (set_state s_header_field_start
          (case p_header_state (x_parser x) of
             h_connection_keep_alive \<Rightarrow> on F_CONNECTION_KEEP_ALIVE
           | h_connection_close \<Rightarrow> on F_CONNECTION_CLOSE
           | h_transfer_encoding_chunked \<Rightarrow> on F_CHUNKED
           | _ \<Rightarrow> x)))"

definition in_header_value_discard_lws ::
  "'u http_parser_settings \<Rightarrow> string \<Rightarrow> char \<Rightarrow> 'u exec \<Rightarrow> 'u step_result" where
  "in_header_value_discard_lws st data ch x =
     (if ch = CHR '' '' \<or> ch = HTAB then Next (set_state s_header_value_discard_ws x)
      else
        CALLBACK_DATA st data cb_header_value (x_p x) (x_p x)
          (set_state s_header_field_start (MARK cb_header_value x)) Again)"

definition in_headers_almost_done ::
  "'u http_parser_settings \<Rightarrow> char \<Rightarrow> 'u exec \<Rightarrow> 'u step_result" where
  "in_headers_almost_done st ch x =
     STRICT_CHECK (ch \<noteq> LF) x
       (if F_TRAILING \<in> p_flags (x_parser x) then end_message st x
        else
          let x = set_state s_headers_done
                (upd_parser (\<lambda>pr. pr\<lparr>p_upgrade := (F_UPGRADE \<in> p_flags pr \<or> p_method pr = HTTP_CONNECT)\<rparr>) x)
          in
          (case on_headers_complete st of
             None \<Rightarrow> if p_errno (x_parser x) \<noteq> HPE_OK then Return x (x_p x) else Again x
           | Some f \<Rightarrow>
               (case f (x_parser x) (x_user x) of
                  Inl ft \<Rightarrow> Fault ft
                | Inr (r, u) \<Rightarrow>
                    let x = x\<lparr>x_user := u\<rparr> in
                    if r = 0 \<or> r = 1 then
                      (let x = (if r = 1
                           then upd_parser (\<lambda>pr. pr\<lparr>p_flags := insert F_SKIPBODY (p_flags pr)\<rparr>) x else x)
                       in if p_errno (x_parser x) \<noteq> HPE_OK then Return x (x_p x) else Again x)
                    else Return (SET_ERRNO HPE_CB_headers_complete x) (x_p x))))"

definition in_headers_done ::
  "'u http_parser_settings \<Rightarrow> char \<Rightarrow> 'u exec \<Rightarrow> 'u step_result" where
  "in_headers_done st ch x =
     STRICT_CHECK (ch \<noteq> LF) x
       (let x = upd_parser (\<lambda>pr. pr\<lparr>p_nread := 0\<rparr>) x; pr = x_parser x in
        if p_upgrade pr then
          CALLBACK_NOTIFY (on_message_complete st) HPE_CB_message_complete (Suc (x_p x))
            (set_state (NEW_MESSAGE pr) x) (\<lambda>x. Return x (Suc (x_p x)))
        else if F_SKIPBODY \<in> p_flags pr then end_message st x
        else if F_CHUNKED \<in> p_flags pr then Next (set_state s_chunk_size_start x)
        else if p_content_length pr = 0 then end_message st x
        else if p_content_length pr \<noteq> ULLONG_MAX then Next (set_state s_body_identity x)
        else if p_type pr = HTTP_REQUEST \<or> \<not> http_message_needs_eof pr then end_message st x
        else Next (set_state s_body_identity_eof x))"

section \<open>The body\<close>

text \<open>\<open>MIN(parser->content_length, data + len - p)\<close>\<close>

definition to_read :: "string \<Rightarrow> 'u exec \<Rightarrow> nat" where
  "to_read data x = min (unat (p_content_length (x_parser x))) (length data - x_p x)"

text \<open>\<open>MARK(body); parser->content_length -= to_read; p += to_read - 1;\<close>\<close>

definition take_body :: "string \<Rightarrow> 'u exec \<Rightarrow> 'u exec" where
  "take_body data x =
     (let n = to_read data x; x = MARK cb_body x in
      (upd_parser (\<lambda>pr. pr\<lparr>p_content_length := p_content_length pr - of_nat n\<rparr>) x)
        \<lparr>x_p := x_p x + (n - 1)\<rparr>)"

definition in_body_identity ::
  "'u http_parser_settings \<Rightarrow> string \<Rightarrow> char \<Rightarrow> 'u exec \<Rightarrow> 'u step_result" where
  "in_body_identity st data ch x =
     (if p_content_length (x_parser x) = 0 \<or> p_content_length (x_parser x) = ULLONG_MAX
      then Fault Assert_failed
      else
        let x = take_body data x in
        if p_content_length (x_parser x) = 0 then
          CALLBACK_DATA st data cb_body (Suc (x_p x)) (x_p x) (set_state s_message_done x) Again
        else Next x)"

definition in_body_identity_eof :: "string \<Rightarrow> 'u exec \<Rightarrow> 'u step_result" where
  "in_body_identity_eof data x = Next ((MARK cb_body x)\<lparr>x_p := length data - 1\<rparr>)"

definition in_chunk_size_start :: "char \<Rightarrow> 'u exec \<Rightarrow> 'u step_result" where
  "in_chunk_size_start ch x =
     (if p_nread (x_parser x) \<noteq> 1 \<or> F_CHUNKED \<notin> p_flags (x_parser x) then Fault Assert_failed
      else case unhex ch of
        None \<Rightarrow> goto_error HPE_INVALID_CHUNK_SIZE x
      | Some v \<Rightarrow> Next (set_state s_chunk_size (upd_parser (\<lambda>pr. pr\<lparr>p_content_length := of_nat v\<rparr>) x)))"

definition in_chunk_size :: "char \<Rightarrow> 'u exec \<Rightarrow> 'u step_result" where
  "in_chunk_size ch x =
     (if F_CHUNKED \<notin> p_flags (x_parser x) then Fault Assert_failed
      else if ch = CR then Next (set_state s_chunk_size_almost_done x)
      else case unhex ch of
        None \<Rightarrow>
          if ch = CHR '';'' \<or> ch = CHR '' '' then Next (set_state s_chunk_parameters x)
          else goto_error HPE_INVALID_CHUNK_SIZE x
      | Some v \<Rightarrow>
          let old = p_content_length (x_parser x); t = old * 16 + of_nat v in
          if (ULLONG_MAX - 16) div 16 < old then goto_error HPE_INVALID_CONTENT_LENGTH x
          else Next (upd_parser (\<lambda>pr. pr\<lparr>p_content_length := t\<rparr>) x))"

definition in_chunk_parameters :: "char \<Rightarrow> 'u exec \<Rightarrow> 'u step_result" where
  "in_chunk_parameters ch x =
     (if F_CHUNKED \<notin> p_flags (x_parser x) then Fault Assert_failed
      else if ch = CR then Next (set_state s_chunk_size_almost_done x)
      else Next x)"

definition in_chunk_size_almost_done :: "char \<Rightarrow> 'u exec \<Rightarrow> 'u step_result" where
  "in_chunk_size_almost_done ch x =
     (if F_CHUNKED \<notin> p_flags (x_parser x) then Fault Assert_failed
      else STRICT_CHECK (ch \<noteq> LF) x
        (let x = upd_parser (\<lambda>pr. pr\<lparr>p_nread := 0\<rparr>) x in
         if p_content_length (x_parser x) = 0 then
           Next (set_state s_header_field_start
             (upd_parser (\<lambda>pr. pr\<lparr>p_flags := insert F_TRAILING (p_flags pr)\<rparr>) x))
         else Next (set_state s_chunk_data x)))"

definition in_chunk_data :: "string \<Rightarrow> 'u exec \<Rightarrow> 'u step_result" where
  "in_chunk_data data x =
     (if F_CHUNKED \<notin> p_flags (x_parser x) \<or> p_content_length (x_parser x) = 0 \<or>
         p_content_length (x_parser x) = ULLONG_MAX
      then Fault Assert_failed
      else
        let x = take_body data x in
        Next (if p_content_length (x_parser x) = 0 then set_state s_chunk_data_almost_done x else x))"

definition in_chunk_data_almost_done ::
  "'u http_parser_settings \<Rightarrow> string \<Rightarrow> char \<Rightarrow> 'u exec \<Rightarrow> 'u step_result" where
  "in_chunk_data_almost_done st data ch x =
     (if F_CHUNKED \<notin> p_flags (x_parser x) \<or> p_content_length (x_parser x) \<noteq> 0
      then Fault Assert_failed
      else STRICT_CHECK (ch \<noteq> CR) x
        (CALLBACK_DATA st data cb_body (x_p x) (Suc (x_p x)) (set_state s_chunk_data_done x) Next))"

definition in_chunk_data_done :: "char \<Rightarrow> 'u exec \<Rightarrow> 'u step_result" where
  "in_chunk_data_done ch x =
     (if F_CHUNKED \<notin> p_flags (x_parser x) then Fault Assert_failed
      else STRICT_CHECK (ch \<noteq> LF) x
        (Next (set_state s_chunk_size_start (upd_parser (\<lambda>pr. pr\<lparr>p_nread := 0\<rparr>) x))))"

section \<open>The switch\<close>

definition step ::
  "'u http_parser_settings \<Rightarrow> string \<Rightarrow> char \<Rightarrow> 'u exec \<Rightarrow> 'u step_result" where
  "step st data ch x =
     (case p_state (x_parser x) of
        s_dead \<Rightarrow> in_dead ch x
      | s_start_req_or_res \<Rightarrow> in_start_req_or_res st ch x
      | s_res_or_resp_H \<Rightarrow> in_res_or_resp_H ch x
      | s_start_res \<Rightarrow> in_start_res st ch x
      | s_res_H \<Rightarrow> expect (CHR ''T'') s_res_HT ch x
      | s_res_HT \<Rightarrow> expect (CHR ''T'') s_res_HTT ch x
      | s_res_HTT \<Rightarrow> expect (CHR ''P'') s_res_HTTP ch x
      | s_res_HTTP \<Rightarrow> expect (CHR ''/'') s_res_first_http_major ch x
      | s_res_first_http_major \<Rightarrow> in_res_first_http_major ch x
      | s_res_http_major \<Rightarrow> in_res_http_major ch x
      | s_res_first_http_minor \<Rightarrow> first_http_minor s_res_http_minor ch x
      | s_res_http_minor \<Rightarrow> in_res_http_minor ch x
      | s_res_first_status_code \<Rightarrow> in_res_first_status_code ch x
      | s_res_status_code \<Rightarrow> in_res_status_code ch x
      | s_res_status_start \<Rightarrow> in_res_status_start ch x
      | s_res_status \<Rightarrow> in_res_status st data ch x
      | s_res_line_almost_done \<Rightarrow> expect LF s_header_field_start ch x
      | s_start_req \<Rightarrow> in_start_req st ch x
      | s_req_method \<Rightarrow> in_req_method ch x
      | s_req_spaces_before_url \<Rightarrow> in_req_spaces_before_url ch x
      | s_req_schema \<Rightarrow> in_req_schema ch x
      | s_req_schema_slash \<Rightarrow> in_req_schema ch x
      | s_req_schema_slash_slash \<Rightarrow> in_req_schema ch x
      | s_req_server_start \<Rightarrow> in_req_schema ch x
      | s_req_server \<Rightarrow> in_req_url st data ch x
      | s_req_server_with_at \<Rightarrow> in_req_url st data ch x
      | s_req_path \<Rightarrow> in_req_url st data ch x
      | s_req_query_string_start \<Rightarrow> in_req_url st data ch x
      | s_req_query_string \<Rightarrow> in_req_url st data ch x
      | s_req_fragment_start \<Rightarrow> in_req_url st data ch x
      | s_req_fragment \<Rightarrow> in_req_url st data ch x
      | s_req_http_start \<Rightarrow> in_req_http_start ch x
      | s_req_http_H \<Rightarrow> expect (CHR ''T'') s_req_http_HT ch x
      | s_req_http_HT \<Rightarrow> expect (CHR ''T'') s_req_http_HTT ch x
      | s_req_http_HTT \<Rightarrow> expect (CHR ''P'') s_req_http_HTTP ch x
      | s_req_http_HTTP \<Rightarrow> expect (CHR ''/'') s_req_first_http_major ch x
      | s_req_first_http_major \<Rightarrow> in_req_first_http_major ch x
      | s_req_http_major \<Rightarrow> in_req_http_major ch x
      | s_req_first_http_minor \<Rightarrow> first_http_minor s_req_http_minor ch x
      | s_req_http_minor \<Rightarrow> in_req_http_minor ch x
      | s_req_line_almost_done \<Rightarrow> in_req_line_almost_done ch x
      | s_header_field_start \<Rightarrow> in_header_field_start ch x
      | s_header_field \<Rightarrow> in_header_field st data ch x
      | s_header_value_discard_ws \<Rightarrow> in_header_value_discard_ws ch x
      | s_header_value_discard_ws_almost_done \<Rightarrow> expect LF s_header_value_discard_lws ch x
      | s_header_value_discard_lws \<Rightarrow> in_header_value_discard_lws st data ch x
      | s_header_value_start \<Rightarrow> in_header_value_start ch x
      | s_header_value \<Rightarrow> in_header_value st data ch x
      | s_header_value_lws \<Rightarrow> in_header_value_lws ch x
      | s_header_almost_done \<Rightarrow> expect LF s_header_value_lws ch x
      | s_chunk_size_start \<Rightarrow> in_chunk_size_start ch x
      | s_chunk_size \<Rightarrow> in_chunk_size ch x
      | s_chunk_parameters \<Rightarrow> in_chunk_parameters ch x
      | s_chunk_size_almost_done \<Rightarrow> in_chunk_size_almost_done ch x
      | s_headers_almost_done \<Rightarrow> in_headers_almost_done st ch x
      | s_headers_done \<Rightarrow> in_headers_done st ch x
      | s_chunk_data \<Rightarrow> in_chunk_data data x
      | s_chunk_data_almost_done \<Rightarrow> in_chunk_data_almost_done st data ch x
      | s_chunk_data_done \<Rightarrow> in_chunk_data_done ch x
      | s_body_identity \<Rightarrow> in_body_identity st data ch x
      | s_body_identity_eof \<Rightarrow> in_body_identity_eof data x
      | s_message_done \<Rightarrow> end_message st x)"

section \<open>What a step can result in\<close>

text \<open>
  A predicate for each way a step ends. The rules for the callback macros reduce a goal on
  them to one on the code after them.
\<close>

fun step_all ::
  "('u exec \<Rightarrow> bool) \<Rightarrow> ('u exec \<Rightarrow> bool) \<Rightarrow> ('u exec \<Rightarrow> nat \<Rightarrow> bool) \<Rightarrow> (fault \<Rightarrow> bool) \<Rightarrow> 'u step_result \<Rightarrow> bool"
where
  "step_all N A R F (Next x) = N x"
| "step_all N A R F (Again x) = A x"
| "step_all N A R F (Return x n) = R x n"
| "step_all N A R F (Fault ft) = F ft"

lemma step_all_if [simp]:
  "step_all N A R F (if c then r else r') = (if c then step_all N A R F r else step_all N A R F r')"
  by simp

lemma exec_user_ident [simp]: "x\<lparr>x_user := x_user x\<rparr> = x"
  by simp

named_theorems setters

lemma setter_fields [simp, setters]:
  "x_p (set_state s x) = x_p x" "x_p (set_header_state h x) = x_p x" "x_p (SET_ERRNO e x) = x_p x"
  "x_p (upd_parser f x) = x_p x" "x_p (MARK c x) = x_p x"
  "x_user (set_state s x) = x_user x" "x_user (set_header_state h x) = x_user x"
  "x_user (SET_ERRNO e x) = x_user x" "x_user (upd_parser f x) = x_user x" "x_user (MARK c x) = x_user x"
  "x_mark (set_state s x) = x_mark x" "x_mark (set_header_state h x) = x_mark x"
  "x_mark (SET_ERRNO e x) = x_mark x" "x_mark (upd_parser f x) = x_mark x"
  "x_parser (set_state s x) = (x_parser x)\<lparr>p_state := s\<rparr>"
  "x_parser (set_header_state h x) = (x_parser x)\<lparr>p_header_state := h\<rparr>"
  "x_parser (SET_ERRNO e x) = (x_parser x)\<lparr>p_errno := e\<rparr>"
  "x_parser (upd_parser f x) = f (x_parser x)"
  "x_parser (MARK c x) = x_parser x"
  "x_mark (MARK c x) = (if x_mark x c = None then (x_mark x)(c := Some (x_p x)) else x_mark x)"
  by (simp_all add: set_state_def set_header_state_def SET_ERRNO_def upd_parser_def MARK_def)

lemma CALLBACK_NOTIFY_all:
  assumes "p_errno (x_parser x) = HPE_OK \<or> F Assert_failed"
    and "\<And>f ft. cb = Some f \<Longrightarrow> f (x_parser x) (x_user x) = Inl ft \<Longrightarrow> F ft"
    and "\<And>u. R (SET_ERRNO e (x\<lparr>x_user := u\<rparr>)) er"
    and "\<And>u. step_all N A R F (k (x\<lparr>x_user := u\<rparr>))"
  shows "step_all N A R F (CALLBACK_NOTIFY cb e er x k)"
  using assms(1) assms(2) assms(3) assms(4) assms(4) [of "x_user x"]
  by (auto simp: CALLBACK_NOTIFY_def split: option.splits sum.splits)

lemma CALLBACK_DATA_all:
  assumes "p_errno (x_parser x) = HPE_OK \<or> F Assert_failed"
    and "\<And>f ft bs. on_data c st = Some f \<Longrightarrow> f (x_parser x) bs (x_user x) = Inl ft \<Longrightarrow> F ft"
    and "\<And>u. R (SET_ERRNO (data_errno c) (x\<lparr>x_user := u\<rparr>)) er"
    and "\<And>u. step_all N A R F (k (x\<lparr>x_user := u, x_mark := (x_mark x)(c := None)\<rparr>))"
  shows "step_all N A R F (CALLBACK_DATA st data c stop er x k)"
proof -
  have id: "x\<lparr>x_user := x_user x, x_mark := m\<rparr> = x\<lparr>x_mark := m\<rparr>" for m by simp
  have "x\<lparr>x_user := x_user x, x_mark := (x_mark x)(c := None)\<rparr> = x" if "x_mark x c = None"
    using that by (simp add: fun_upd_idem)
  then show ?thesis
    using assms(1) assms(2) assms(3) assms(4) assms(4) [of "x_user x"]
    by (auto simp: CALLBACK_DATA_def id split: option.splits sum.splits)
qed

lemma notify_Next_all:
  "p_errno (x_parser x) = HPE_OK \<or> F Assert_failed \<Longrightarrow>
   (\<And>f ft. on_message_begin st = Some f \<Longrightarrow> f (x_parser x) (x_user x) = Inl ft \<Longrightarrow> F ft) \<Longrightarrow>
   (\<And>u. R (SET_ERRNO HPE_CB_message_begin (x\<lparr>x_user := u\<rparr>)) (Suc (x_p x))) \<Longrightarrow>
   (\<And>u. N (x\<lparr>x_user := u\<rparr>)) \<Longrightarrow> step_all N A R F (message_begin st x)"
  "p_errno (x_parser x) = HPE_OK \<or> F Assert_failed \<Longrightarrow>
   (\<And>f ft. on_message_complete st = Some f \<Longrightarrow> f (x_parser x) (x_user x) = Inl ft \<Longrightarrow> F ft) \<Longrightarrow>
   (\<And>u. R (SET_ERRNO HPE_CB_message_complete (x\<lparr>x_user := u\<rparr>)) (Suc (x_p x))) \<Longrightarrow>
   (\<And>u. N (x\<lparr>x_user := u\<rparr>)) \<Longrightarrow> step_all N A R F (message_complete st x)"
  by (simp_all add: message_begin_def message_complete_def CALLBACK_NOTIFY_all)

text \<open>A byte is looked at again only in a state of smaller rank, so the \<open>goto\<close> ends.\<close>

definition rank :: "state \<Rightarrow> nat" where
  "rank s =
     (if s \<in> {s_header_value_discard_lws, s_header_value_lws} then 4
      else if s = s_header_field_start then 3
      else if s = s_headers_almost_done then 2
      else if s \<in> {s_headers_done, s_start_req_or_res, s_header_value, s_body_identity} then 1
      else 0)"

lemma rank_simps [simp]:
  "rank s_header_value_discard_lws = 4" "rank s_header_value_lws = 4" "rank s_header_field_start = 3"
  "rank s_headers_almost_done = 2" "rank s_headers_done = 1" "rank s_start_req_or_res = 1"
  "rank s_header_value = 1" "rank s_body_identity = 1" "rank s_start_req = 0"
  "rank s_header_value_start = 0" "rank s_header_almost_done = 0" "rank s_message_done = 0"
  by (simp_all add: rank_def)

lemmas in_defs =
  in_dead_def in_start_req_or_res_def in_res_or_resp_H_def in_start_res_def expect_def
  in_res_first_http_major_def in_res_http_major_def next_http_major_def next_http_minor_def
  first_http_minor_def in_res_http_minor_def in_res_first_status_code_def in_res_status_code_def
  in_res_status_start_def in_res_status_def in_start_req_def in_req_method_def
  in_req_spaces_before_url_def in_req_schema_def in_req_url_def url_char_def in_req_http_start_def
  in_req_first_http_major_def in_req_http_major_def in_req_http_minor_def in_req_line_almost_done_def
  in_header_field_start_def in_header_field_def in_header_value_start_def in_header_value_discard_ws_def
  next_content_length_def value_char_def in_header_value_def in_header_value_lws_def
  in_header_value_discard_lws_def in_headers_almost_done_def in_headers_done_def
  in_body_identity_def in_body_identity_eof_def in_chunk_size_start_def in_chunk_size_def
  in_chunk_parameters_def in_chunk_size_almost_done_def in_chunk_data_def
  in_chunk_data_almost_done_def in_chunk_data_done_def
  STRICT_CHECK_def

lemma take_body_p [simp]: "x_p (take_body data x) = x_p x + (to_read data x - 1)"
  by (simp add: take_body_def Let_def)

lemma take_body_state [simp]: "p_state (x_parser (take_body data x)) = p_state (x_parser x)"
  by (simp add: take_body_def Let_def)

definition progresses :: "string \<Rightarrow> 'u exec \<Rightarrow> 'u step_result \<Rightarrow> bool" where
  "progresses data x = step_all (\<lambda>y. min (x_p x) (length data - 1) \<le> x_p y)
    (\<lambda>y. x_p x \<le> x_p y \<and> rank (p_state (x_parser y)) < rank (p_state (x_parser x)))
    (\<lambda>_ _. True) (\<lambda>_. True)"

lemmas callback_all = CALLBACK_NOTIFY_all CALLBACK_DATA_all notify_Next_all

lemma progress_start:
  "progresses data x (in_dead ch x)" "progresses data x (in_res_or_resp_H ch x)" "progresses data x (in_start_res st ch x)"
  "progresses data x (expect c s ch x)" "progresses data x (in_start_req st ch x)"
  "p_state (x_parser x) = s_start_req_or_res \<Longrightarrow> progresses data x (in_start_req_or_res st ch x)"
  "progresses data x (in_res_first_http_major ch x)" "progresses data x (next_http_major ch x)"
  "progresses data x (next_http_minor ch x)" "progresses data x (first_http_minor s ch x)"
  "progresses data x (in_res_first_status_code ch x)" "progresses data x (in_res_status_code ch x)"
  "progresses data x (in_res_status_start ch x)" "progresses data x (in_res_status st data ch x)"
  by (auto simp: progresses_def in_defs goto_error_def end_message_def Let_def intro!: callback_all split: option.splits)

lemma progress_request:
  "progresses data x (in_req_method ch x)" "progresses data x (url_char ch x)"
  "progresses data x (in_req_http_start ch x)" "progresses data x (in_req_first_http_major ch x)"
  "progresses data x (in_req_line_almost_done ch x)"
  "progresses data x (in_req_schema ch x)" "progresses data x (in_req_url st data ch x)" 
  "progresses data x (in_req_spaces_before_url ch x)" 
  by (auto simp: progresses_def in_defs goto_error_def end_message_def Let_def intro!: callback_all split: option.splits)

lemma progress_version:
  "progresses data x (in_res_http_major ch x)" "progresses data x (in_res_http_minor ch x)"
  "progresses data x (in_req_http_major ch x)" "progresses data x (in_req_http_minor ch x)"
  using progress_start(8,9) [of data x ch]
  by (simp_all add: in_res_http_major_def in_res_http_minor_def in_req_http_major_def in_req_http_minor_def)
    (simp_all add: progresses_def)

lemma progress_value_start: "progresses data x (in_header_value_start ch x)"
  by (cases "p_header_state (x_parser x)")
    (simp_all add: progresses_def in_header_value_start_def goto_error_def Let_def)

lemma progress_header_name:
  "p_state (x_parser x) = s_header_field_start \<Longrightarrow> progresses data x (in_header_field_start ch x)"
  "progresses data x (in_header_field st data ch x)"
  by (auto simp: progresses_def in_header_field_start_def in_header_field_def goto_error_def Let_def
    intro!: callback_all split: option.splits)

lemma progress_header_value:
  "progresses data x (in_header_value_discard_ws ch x)"
  "p_state (x_parser x) = s_header_value \<Longrightarrow> progresses data x (in_header_value st data ch x)"
  "p_state (x_parser x) = s_header_value_lws \<Longrightarrow> progresses data x (in_header_value_lws ch x)"
  "p_state (x_parser x) = s_header_value_discard_lws \<Longrightarrow>
   progresses data x (in_header_value_discard_lws st data ch x)"
proof -
  show "progresses data x (in_header_value_discard_ws ch x)"
    using progress_value_start [of data x ch] by (simp add: in_header_value_discard_ws_def progresses_def)
  have "progresses data x (value_char ch x)"
    by (cases "p_header_state (x_parser x)")
      (simp_all add: progresses_def value_char_def next_content_length_def goto_error_def Let_def)
  then show "p_state (x_parser x) = s_header_value \<Longrightarrow> progresses data x (in_header_value st data ch x)"
    by (auto simp: progresses_def in_header_value_def intro!: callback_all)
  show "p_state (x_parser x) = s_header_value_lws \<Longrightarrow> progresses data x (in_header_value_lws ch x)"
    by (cases "p_header_state (x_parser x)") (simp_all add: progresses_def in_header_value_lws_def Let_def)
  show "p_state (x_parser x) = s_header_value_discard_lws \<Longrightarrow>
      progresses data x (in_header_value_discard_lws st data ch x)"
    by (auto simp: progresses_def in_header_value_discard_lws_def intro!: callback_all)
qed

lemma progress_headers_end:
  "p_state (x_parser x) = s_headers_almost_done \<Longrightarrow> progresses data x (in_headers_almost_done st ch x)"
  "progresses data x (in_headers_done st ch x)" "progresses data x (end_message st x)"
  by (auto simp: progresses_def in_headers_almost_done_def in_headers_done_def STRICT_CHECK_def
    goto_error_def end_message_def Let_def intro!: callback_all split: option.splits sum.splits)

lemma progress_body:
  "p_state (x_parser x) = s_body_identity \<Longrightarrow> progresses data x (in_body_identity st data ch x)"
  "progresses data x (in_body_identity_eof data x)"
  "progresses data x (in_chunk_size_start ch x)" "progresses data x (in_chunk_size ch x)"
  "progresses data x (in_chunk_parameters ch x)" "progresses data x (in_chunk_size_almost_done ch x)"
  "progresses data x (in_chunk_data data x)" "progresses data x (in_chunk_data_almost_done st data ch x)"
  "progresses data x (in_chunk_data_done ch x)"
  by (auto simp: progresses_def in_body_identity_def in_body_identity_eof_def in_chunk_size_start_def
    in_chunk_size_def in_chunk_parameters_def in_chunk_size_almost_done_def in_chunk_data_def
    in_chunk_data_almost_done_def in_chunk_data_done_def STRICT_CHECK_def goto_error_def Let_def
    intro!: callback_all split: option.splits)

lemma step_progress: "progresses data x (step st data ch x)"
  by (cases "p_state (x_parser x)")
    (simp_all add: step_def progress_start progress_request progress_version progress_value_start
      progress_header_name progress_header_value progress_headers_end progress_body)

section \<open>The loop\<close>

text \<open>\<open>reexecute_byte\<close>: the switch again and again on one byte.\<close>

function exec_byte ::
  "'u http_parser_settings \<Rightarrow> string \<Rightarrow> char \<Rightarrow> 'u exec \<Rightarrow> 'u step_result" where
  "exec_byte st data ch x =
     (case step st data ch x of Again x' \<Rightarrow> exec_byte st data ch x' | r \<Rightarrow> r)"
  by pat_completeness auto
termination
proof (relation "measure (\<lambda>(st, data, ch, x). rank (p_state (x_parser x)))", simp)
  fix st :: "'u http_parser_settings" and data ch x x'
  assume "step st data ch x = Again x'"
  then have "rank (p_state (x_parser x')) < rank (p_state (x_parser x))"
    using step_progress [of data x st ch] by (simp add: progresses_def)
  then show "((st, data, ch, x'), st, data, ch, x) \<in>
      measure (\<lambda>(st, data, ch, x). rank (p_state (x_parser x)))" by simp
qed

declare exec_byte.simps [simp del]

lemma exec_byte_all:
  "I x \<Longrightarrow> (\<And>x. I x \<Longrightarrow> step_all N I R F (step st data ch x)) \<Longrightarrow>
   step_all N (\<lambda>_. False) R F (exec_byte st data ch x)"
proof (induction st data ch x rule: exec_byte.induct)
  case (1 st data ch x)
  have "step_all N I R F (step st data ch x)" using "1.prems" by blast
  moreover note IH = "1.IH" [OF _ _ "1.prems"(2)]
  ultimately show ?case
    by (cases "step st data ch x") (simp_all add: exec_byte.simps [of st data ch x] IH)
qed

text \<open>
  The callbacks for the marks left over, in the order of the code, with the assertion
  that at most one mark is set.
\<close>

definition finish :: "'u http_parser_settings \<Rightarrow> string \<Rightarrow> 'u exec \<Rightarrow> 'u step_result" where
  "finish st data x =
     (if (\<Sum>c \<leftarrow> [cb_header_field, cb_header_value, cb_url, cb_body, cb_status].
            if x_mark x c \<noteq> None then 1 else 0 :: nat) > 1
      then Fault Assert_failed
      else
        CALLBACK_DATA st data cb_header_field (x_p x) (x_p x) x (\<lambda>x.
        CALLBACK_DATA st data cb_header_value (x_p x) (x_p x) x (\<lambda>x.
        CALLBACK_DATA st data cb_url (x_p x) (x_p x) x (\<lambda>x.
        CALLBACK_DATA st data cb_body (x_p x) (x_p x) x (\<lambda>x.
        CALLBACK_DATA st data cb_status (x_p x) (x_p x) x (\<lambda>x. Return x (length data)))))))"

definition count_byte :: "'u exec \<Rightarrow> 'u exec" where
  "count_byte x =
     (if PARSING_HEADER (p_state (x_parser x))
      then upd_parser (\<lambda>pr. pr\<lparr>p_nread := Suc (p_nread pr)\<rparr>) x else x)"

lemma count_byte_fields [simp]:
  "x_p (count_byte x) = x_p x" "x_user (count_byte x) = x_user x" "x_mark (count_byte x) = x_mark x"
  "p_state (x_parser (count_byte x)) = p_state (x_parser x)"
  by (simp_all add: count_byte_def)

definition header_overflow :: "'u exec \<Rightarrow> bool" where
  "header_overflow x \<longleftrightarrow>
     PARSING_HEADER (p_state (x_parser x)) \<and> p_nread (x_parser x) > HTTP_MAX_HEADER_SIZE"

text \<open>The \<open>for\<close> loop. \<open>exec_byte\<close> never gives \<open>Again\<close> (\<open>exec_byte_all\<close>).\<close>

lemma exec_byte_progress:
  assumes "x_p x < length data" and "exec_byte st data ch x = Next y"
  shows "x_p x \<le> x_p y"
proof -
  have "step_all (\<lambda>y. x_p x \<le> x_p y) (\<lambda>y. x_p x \<le> x_p y) (\<lambda>_ _. True) (\<lambda>_. True) (step st data ch z)"
    if "x_p x \<le> x_p z" for z
    using step_progress [of data z st ch] that assms(1)
    by (cases "step st data ch z") (auto simp: progresses_def)
  then have "step_all (\<lambda>y. x_p x \<le> x_p y) (\<lambda>_. False) (\<lambda>_ _. True) (\<lambda>_. True) (exec_byte st data ch x)"
    by (intro exec_byte_all [where I = "\<lambda>z. x_p x \<le> x_p z"]) auto
  with assms(2) show ?thesis by simp
qed

function exec_loop :: "'u http_parser_settings \<Rightarrow> string \<Rightarrow> 'u exec \<Rightarrow> 'u step_result" where
  "exec_loop st data x =
     (if x_p x \<ge> length data then finish st data x
      else
        let y = count_byte x in
        if header_overflow y then goto_error HPE_HEADER_OVERFLOW y
        else case exec_byte st data (data ! x_p y) y of
          Next z \<Rightarrow> exec_loop st data (z\<lparr>x_p := Suc (x_p z)\<rparr>)
        | r \<Rightarrow> r)"
  by pat_completeness auto
termination
proof (relation "measure (\<lambda>(st, data, x). length data - x_p x)", simp)
  fix st :: "'u http_parser_settings" and data x y z
  assume x: "\<not> length data \<le> x_p x" and y: "y = count_byte x"
    and z: "exec_byte st data (data ! x_p y) y = Next z"
  have "x_p x \<le> x_p z" using exec_byte_progress [OF _ z] x y by simp
  with x show "((st, data, z\<lparr>x_p := Suc (x_p z)\<rparr>), st, data, x) \<in>
      measure (\<lambda>(st, data, x). length data - x_p x)" by simp
qed

declare exec_loop.simps [simp del]

text \<open>The marks at the entry: a field cut by the end of the previous call goes on at 0.\<close>

definition initial_mark :: "state \<Rightarrow> data_cb \<Rightarrow> nat option" where
  "initial_mark s c =
     (if (case c of
            cb_header_field \<Rightarrow> s = s_header_field
          | cb_header_value \<Rightarrow> s = s_header_value
          | cb_url \<Rightarrow> s \<in> {s_req_path, s_req_schema, s_req_schema_slash, s_req_schema_slash_slash,
              s_req_server_start, s_req_server, s_req_server_with_at, s_req_query_string_start,
              s_req_query_string, s_req_fragment_start, s_req_fragment}
          | cb_status \<Rightarrow> s = s_res_status
          | cb_body \<Rightarrow> False)
      then Some 0 else None)"

definition start_exec :: "http_parser \<Rightarrow> 'u \<Rightarrow> 'u exec" where
  "start_exec pr u = \<lparr>x_parser = pr, x_user = u, x_p = 0, x_mark = initial_mark (p_state pr)\<rparr>"

definition returned :: "'u step_result \<Rightarrow> (nat \<times> http_parser \<times> 'u) res" where
  "returned r =
     (case r of
        Return x n \<Rightarrow> Inr (n, x_parser x, x_user x)
      | Fault f \<Rightarrow> Inl f
      | Next x \<Rightarrow> Inr (0, x_parser x, x_user x)
      | Again x \<Rightarrow> Inr (0, x_parser x, x_user x))"

text \<open>What a call with no byte (the end of the stream) does.\<close>

definition execute_eof ::
  "'u http_parser_settings \<Rightarrow> http_parser \<Rightarrow> 'u \<Rightarrow> (nat \<times> http_parser \<times> 'u) res" where
  "execute_eof st pr u =
     (let x = start_exec pr u in
      if p_state pr = s_body_identity_eof then
        returned (CALLBACK_NOTIFY (on_message_complete st) HPE_CB_message_complete 0 x (\<lambda>x. Return x 0))
      else if p_state pr \<in> {s_dead, s_start_req_or_res, s_start_res, s_start_req} then Inr (0, pr, u)
      else Inr (1, pr\<lparr>p_errno := HPE_INVALID_EOF_STATE\<rparr>, u))"

definition http_parser_execute ::
  "'u http_parser_settings \<Rightarrow> string \<Rightarrow> http_parser \<Rightarrow> 'u \<Rightarrow> (nat \<times> http_parser \<times> 'u) res" where
  "http_parser_execute st data pr u =
     (if p_errno pr \<noteq> HPE_OK then Inr (0, pr, u)
      else if data = [] then execute_eof st pr u
      else returned (exec_loop st data (start_exec pr u)))"

end
