(* ===== verification/Http_Parser_Safety.thy ===== *)
theory Http_Parser_Safety
  imports Http_Parser
begin

text \<open>
  The invariant of \<open>http_parser_execute\<close>: what each state promises of the parser, which
  mark may be set in which state, and from it the absence of faults (no failed assertion,
  no index out of a table) and the bounds on what a call consumes.
\<close>

section \<open>The invariant\<close>

definition field_states :: "header_states set" where
  "field_states =
     {h_general, h_C, h_CO, h_CON, h_matching_connection, h_matching_proxy_connection,
      h_matching_content_length, h_matching_transfer_encoding, h_matching_upgrade,
      h_connection, h_content_length, h_transfer_encoding, h_upgrade}"

text \<open>What the state promises; the length of the body is never the mark \<open>ULLONG_MAX\<close> in a body.\<close>

definition state_ok :: "http_parser \<Rightarrow> bool" where
  "state_ok pr =
     (case p_state pr of
        s_req_method \<Rightarrow> p_index pr \<le> length (method_strings (p_method pr))
      | s_header_field \<Rightarrow> p_header_state pr \<in> field_states
      | s_header_value \<Rightarrow> p_header_state pr \<noteq> h_connection \<and> p_header_state pr \<noteq> h_transfer_encoding
      | s_chunk_size_start \<Rightarrow> F_CHUNKED \<in> p_flags pr
      | s_chunk_size \<Rightarrow> F_CHUNKED \<in> p_flags pr \<and> p_content_length pr \<noteq> ULLONG_MAX
      | s_chunk_parameters \<Rightarrow> F_CHUNKED \<in> p_flags pr \<and> p_content_length pr \<noteq> ULLONG_MAX
      | s_chunk_size_almost_done \<Rightarrow> F_CHUNKED \<in> p_flags pr \<and> p_content_length pr \<noteq> ULLONG_MAX
      | s_chunk_data \<Rightarrow>
          F_CHUNKED \<in> p_flags pr \<and> p_content_length pr \<noteq> ULLONG_MAX \<and> p_content_length pr \<noteq> 0
      | s_chunk_data_almost_done \<Rightarrow> F_CHUNKED \<in> p_flags pr \<and> p_content_length pr = 0
      | s_chunk_data_done \<Rightarrow> F_CHUNKED \<in> p_flags pr
      | s_body_identity \<Rightarrow> p_content_length pr \<noteq> ULLONG_MAX \<and> p_content_length pr \<noteq> 0
      | _ \<Rightarrow> True)"

text \<open>Between two bytes; \<open>nread\<close> counts from the end of a chunk.\<close>

definition parser_ok :: "http_parser \<Rightarrow> bool" where
  "parser_ok pr \<longleftrightarrow> p_errno pr = HPE_OK \<and> state_ok pr \<and> (p_state pr = s_chunk_size_start \<longrightarrow> p_nread pr = 0)"

definition url_states :: "state set" where
  "url_states =
     {s_req_path, s_req_schema, s_req_schema_slash, s_req_schema_slash_slash, s_req_server_start,
      s_req_server, s_req_server_with_at, s_req_query_string_start, s_req_query_string,
      s_req_fragment_start, s_req_fragment}"

fun mark_state :: "data_cb \<Rightarrow> state \<Rightarrow> bool" where
  "mark_state cb_url s = (s \<in> url_states)"
| "mark_state cb_status s = (s = s_res_status)"
| "mark_state cb_header_field s = (s = s_header_field)"
| "mark_state cb_header_value s = (s = s_header_value)"
| "mark_state cb_body s = (s \<in> {s_body_identity, s_body_identity_eof, s_chunk_data, s_chunk_data_almost_done})"

definition marks_ok :: "'u exec \<Rightarrow> bool" where
  "marks_ok x \<longleftrightarrow> (\<forall>c. x_mark x c \<noteq> None \<longrightarrow> mark_state c (p_state (x_parser x)))"

text \<open>At the start of a loop iteration, inside the switch, and at a \<open>break\<close>.\<close>

definition loop_ok :: "string \<Rightarrow> 'u exec \<Rightarrow> bool" where
  "loop_ok data x \<longleftrightarrow> parser_ok (x_parser x) \<and> marks_ok x \<and> x_p x \<le> length data"

definition byte_ok :: "string \<Rightarrow> 'u exec \<Rightarrow> bool" where
  "byte_ok data x \<longleftrightarrow>
     p_errno (x_parser x) = HPE_OK \<and> state_ok (x_parser x) \<and>
     (p_state (x_parser x) = s_chunk_size_start \<longrightarrow> p_nread (x_parser x) = 1) \<and>
     marks_ok x \<and> x_p x < length data"

definition break_ok :: "string \<Rightarrow> 'u exec \<Rightarrow> bool" where
  "break_ok data x \<longleftrightarrow> parser_ok (x_parser x) \<and> marks_ok x \<and> x_p x < length data"

text \<open>Callbacks that return; what they return is free.\<close>

definition callbacks_return :: "'u http_parser_settings \<Rightarrow> bool" where
  "callbacks_return st \<longleftrightarrow>
     (\<forall>g pr u ft. on_message_begin st = Some g \<longrightarrow> g pr u \<noteq> Inl ft) \<and>
     (\<forall>g pr u ft. on_message_complete st = Some g \<longrightarrow> g pr u \<noteq> Inl ft) \<and>
     (\<forall>g pr u ft. on_headers_complete st = Some g \<longrightarrow> g pr u \<noteq> Inl ft) \<and>
     (\<forall>c h pr bs u ft. on_data c st = Some h \<longrightarrow> h pr bs u \<noteq> Inl ft)"

text \<open>
  A call that returns: what it says it consumed is in range, and without an error the parser
  is fit for the next call and all was consumed, or an upgrade was seen.
\<close>

definition return_ok :: "string \<Rightarrow> http_parser \<Rightarrow> nat \<Rightarrow> bool" where
  "return_ok data pr n \<longleftrightarrow>
     n \<le> length data \<and> (p_errno pr = HPE_OK \<longrightarrow> parser_ok pr \<and> (n = length data \<or> p_upgrade pr))"

lemma return_ok_error [simp]: "p_errno pr \<noteq> HPE_OK \<Longrightarrow> return_ok data pr n = (n \<le> length data)"
  by (simp add: return_ok_def)

lemma data_errno_not_ok [simp]: "data_errno c \<noteq> HPE_OK"
  by (cases c) simp_all

definition keeps :: "string \<Rightarrow> 'u step_result \<Rightarrow> bool" where
  "keeps data = step_all (break_ok data) (byte_ok data) (\<lambda>x. return_ok data (x_parser x)) (\<lambda>_. False)"

lemma callbacks_return_notify:
  assumes "callbacks_return st"
  shows "on_message_begin st = Some f \<Longrightarrow> f pr u \<noteq> Inl ft"
    "on_message_complete st = Some f \<Longrightarrow> f pr u \<noteq> Inl ft"
    "on_headers_complete st = Some f \<Longrightarrow> f pr u \<noteq> Inl ft"
    "on_data c st = Some h \<Longrightarrow> h pr bs u \<noteq> Inl ft"
  using assms unfolding callbacks_return_def by blast+

lemma keeps_message_begin:
  assumes "callbacks_return st" and "break_ok data x"
  shows "keeps data (message_begin st x)"
  unfolding keeps_def
  by (rule notify_Next_all) (use assms in \<open>auto simp: break_ok_def parser_ok_def marks_ok_def
    dest: callbacks_return_notify\<close>)

lemma keeps_end_message:
  assumes "callbacks_return st" and "p_errno (x_parser x) = HPE_OK" and "x_p x < length data"
    and "x_mark x = (\<lambda>_. None)"
  shows "keeps data (end_message st x)"
  unfolding keeps_def end_message_def
  by (rule notify_Next_all) (use assms in \<open>auto simp: break_ok_def parser_ok_def marks_ok_def
    state_ok_def NEW_MESSAGE_def start_state_def dest: callbacks_return_notify\<close>)

lemma keeps_data:
  assumes "callbacks_return st" and "p_errno (x_parser x) = HPE_OK" and "er \<le> length data"
    and "\<And>u. keeps data (k (x\<lparr>x_user := u, x_mark := (x_mark x)(c := None)\<rparr>))"
  shows "keeps data (CALLBACK_DATA st data c stop er x k)"
  using assms unfolding keeps_def
  by (intro CALLBACK_DATA_all) (auto dest: callbacks_return_notify)

lemma keeps_simps [simp]:
  "keeps data (Next x) = break_ok data x"
  "keeps data (Again x) = byte_ok data x"
  "keeps data (Return x n) = return_ok data (x_parser x) n"
  "keeps data (Fault ft) = False"
  "keeps data (if c then r else r') = (if c then keeps data r else keeps data r')"
  by (simp_all add: keeps_def)

lemma keeps_error [simp]: "e \<noteq> HPE_OK \<Longrightarrow> keeps data (goto_error e x) = (x_p x \<le> length data)"
  by (simp add: goto_error_def)

text \<open>No mark is left outside the states that go with one.\<close>

lemma no_marks:
  assumes "marks_ok x" and "\<And>c. \<not> mark_state c (p_state (x_parser x))"
  shows "x_mark x = (\<lambda>_. None)"
  using assms by (auto simp: marks_ok_def fun_eq_iff)

lemma mark_state_none:
  "s \<notin> url_states \<Longrightarrow> s \<notin> {s_res_status, s_header_field, s_header_value, s_body_identity,
     s_body_identity_eof, s_chunk_data, s_chunk_data_almost_done} \<Longrightarrow> \<not> mark_state c s"
  by (cases c) auto

lemmas ok_defs = break_ok_def byte_ok_def parser_ok_def state_ok_def

section \<open>Every state keeps it\<close>

lemma keeps_quiet:
  assumes "byte_ok data x" and "p_state (x_parser x) = s"
    and "s \<notin> url_states" and "s \<notin> {s_res_status, s_header_field, s_header_value, s_body_identity,
     s_body_identity_eof, s_chunk_data, s_chunk_data_almost_done}"
  shows "x_mark x = (\<lambda>_. None)"
  using assms by (intro no_marks) (auto simp: byte_ok_def mark_state_none simp del: mark_state.simps)

lemma marks_ok_empty [simp]: "x_mark x = (\<lambda>_. None) \<Longrightarrow> marks_ok x"
  by (simp add: marks_ok_def)

text \<open>A state without marks; what it reads is in range and no error has been set.\<close>

definition quiet :: "string \<Rightarrow> 'u exec \<Rightarrow> bool" where
  "quiet data x \<longleftrightarrow> x_mark x = (\<lambda>_. None) \<and> p_errno (x_parser x) = HPE_OK \<and> x_p x < length data"

lemma quiet_break:
  "quiet data x \<Longrightarrow> state_ok (x_parser x) \<Longrightarrow>
   (p_state (x_parser x) = s_chunk_size_start \<longrightarrow> p_nread (x_parser x) = 0) \<Longrightarrow> break_ok data x"
  by (simp add: quiet_def break_ok_def parser_ok_def)

lemma quiet_byte:
  "quiet data x \<Longrightarrow> state_ok (x_parser x) \<Longrightarrow>
   (p_state (x_parser x) = s_chunk_size_start \<longrightarrow> p_nread (x_parser x) = 1) \<Longrightarrow> byte_ok data x"
  by (simp add: quiet_def byte_ok_def)

lemma quiet_set [simp]:
  "quiet data (set_state s x) = quiet data x"
  "quiet data (set_header_state h x) = quiet data x"
  by (simp_all add: quiet_def)

lemma quiet_upd:
  "quiet data x \<Longrightarrow> p_errno (f (x_parser x)) = p_errno (x_parser x) \<Longrightarrow> quiet data (upd_parser f x)"
  by (simp add: quiet_def)

lemma quiet_p: "quiet data x \<Longrightarrow> x_p x < length data" "quiet data x \<Longrightarrow> x_p x \<le> length data"
  by (simp_all add: quiet_def)

lemma keeps_quiet_start:
  assumes "quiet data x"
  shows "p_state (x_parser x) = s_dead \<Longrightarrow> keeps data (in_dead ch x)"
    and "p_state (x_parser x) = s_req_http_start \<Longrightarrow> keeps data (in_req_http_start ch x)"
    and "keeps data (in_res_or_resp_H ch x)"
    and "keeps data (in_res_first_http_major ch x)"
    and "keeps data (in_req_first_http_major ch x)"
    and "keeps data (in_req_line_almost_done ch x)"
    and "p_state (x_parser x) = s_res_first_status_code \<Longrightarrow> keeps data (in_res_first_status_code ch x)"
    and "p_state (x_parser x) = s_res_status_code \<Longrightarrow> keeps data (in_res_status_code ch x)"
  using assms
  by (auto simp: in_defs state_ok_def Let_def quiet_p intro!: quiet_break quiet_upd)

lemma keeps_expect:
  assumes "quiet data x" and "state_ok (x_parser x\<lparr>p_state := s\<rparr>)" and "s \<noteq> s_chunk_size_start"
  shows "keeps data (expect c s ch x)"
  using assms by (auto simp: expect_def STRICT_CHECK_def quiet_p intro!: quiet_break)

lemma keeps_version:
  assumes "quiet data x"
  shows "keeps data (first_http_minor s_res_http_minor ch x)"
    and "keeps data (first_http_minor s_req_http_minor ch x)"
    and "p_state (x_parser x) = s_res_http_major \<Longrightarrow> keeps data (in_res_http_major ch x)"
    and "p_state (x_parser x) = s_res_http_minor \<Longrightarrow> keeps data (in_res_http_minor ch x)"
    and "p_state (x_parser x) = s_req_http_major \<Longrightarrow> keeps data (in_req_http_major ch x)"
    and "p_state (x_parser x) = s_req_http_minor \<Longrightarrow> keeps data (in_req_http_minor ch x)"
  using assms
  by (auto simp: in_defs state_ok_def Let_def quiet_p intro!: quiet_break quiet_upd)

lemma keeps_message_begins:
  assumes "quiet data x" and "callbacks_return st"
  shows "p_state (x_parser x) = s_start_req_or_res \<Longrightarrow> keeps data (in_start_req_or_res st ch x)"
    and "p_state (x_parser x) = s_start_res \<Longrightarrow> keeps data (in_start_res st ch x)"
    and "p_state (x_parser x) = s_start_req \<Longrightarrow> keeps data (in_start_req st ch x)"
proof -
  show "p_state (x_parser x) = s_start_req_or_res \<Longrightarrow> keeps data (in_start_req_or_res st ch x)"
    using assms by (auto simp: in_start_req_or_res_def state_ok_def Let_def reset_message_def
      intro!: quiet_break quiet_byte quiet_upd keeps_message_begin)
  show "p_state (x_parser x) = s_start_res \<Longrightarrow> keeps data (in_start_res st ch x)"
    using assms by (auto simp: in_start_res_def state_ok_def Let_def reset_message_def quiet_p
      intro!: quiet_break quiet_upd keeps_message_begin)
  have "1 \<le> length (method_strings m)" if "first_method ch = Some m" for m
    using that by (auto simp: first_method_def split: if_splits)
  then show "p_state (x_parser x) = s_start_req \<Longrightarrow> keeps data (in_start_req st ch x)"
    using assms by (auto simp: in_start_req_def state_ok_def Let_def reset_message_def quiet_p
      intro!: quiet_break quiet_upd keeps_message_begin split: option.splits)
qed

lemma switch_method_length:
  "switch_method m i ch = Some m' \<Longrightarrow> Suc i \<le> length (method_strings m')"
  by (auto simp: switch_method_def split: if_splits)

lemma keeps_method:
  assumes "quiet data x" and "p_state (x_parser x) = s_req_method"
    and "p_index (x_parser x) \<le> length (method_strings (p_method (x_parser x)))"
  shows "keeps data (in_req_method ch x)"
proof -
  let ?i = "p_index (x_parser x)" and ?m = "method_strings (p_method (x_parser x))"
  have "?i < length ?m" if "ch = (?m @ [NUL]) ! ?i" "ch \<noteq> NUL"
    using that assms(3) by (cases "?i = length ?m") auto
  then show ?thesis
    using assms by (auto simp: in_req_method_def Let_def quiet_p state_ok_def switch_method_length
      intro!: quiet_break quiet_upd split: option.splits)
qed

lemma url_states_simps [simp]:
  "s_req_path \<in> url_states" "s_req_schema \<in> url_states" "s_req_schema_slash \<in> url_states"
  "s_req_schema_slash_slash \<in> url_states" "s_req_server_start \<in> url_states" "s_req_server \<in> url_states"
  "s_req_server_with_at \<in> url_states" "s_req_query_string_start \<in> url_states"
  "s_req_query_string \<in> url_states" "s_req_fragment_start \<in> url_states" "s_req_fragment \<in> url_states"
  by (simp_all add: url_states_def)

definition url_result :: "state \<Rightarrow> bool" where
  "url_result s \<longleftrightarrow> s = s_dead \<or> s \<in> url_states"

lemma url_result_if:
  "(c \<Longrightarrow> url_result a) \<Longrightarrow> (\<not> c \<Longrightarrow> url_result b) \<Longrightarrow> url_result (if c then a else b)"
  by simp

lemma parse_url_char_result: "url_result (parse_url_char s ch)"
  unfolding parse_url_char_def by (intro url_result_if) (simp_all add: url_result_def)

lemma parse_url_char_states: "parse_url_char s ch \<noteq> s_dead \<Longrightarrow> parse_url_char s ch \<in> url_states"
  using parse_url_char_result [of s ch] by (simp add: url_result_def)

lemma url_state_ok: "p_state pr \<in> url_states \<Longrightarrow> state_ok pr"
  by (auto simp: url_states_def state_ok_def)

text \<open>At most the mark \<open>c\<close> is set.\<close>

definition only_mark :: "data_cb \<Rightarrow> string \<Rightarrow> 'u exec \<Rightarrow> bool" where
  "only_mark c data x \<longleftrightarrow>
     (\<forall>d. d \<noteq> c \<longrightarrow> x_mark x d = None) \<and> p_errno (x_parser x) = HPE_OK \<and> x_p x < length data"

lemma quiet_only: "quiet data x \<Longrightarrow> only_mark c data x"
  by (simp add: quiet_def only_mark_def)

lemma only_mark_p: "only_mark c data x \<Longrightarrow> x_p x < length data" "only_mark c data x \<Longrightarrow> x_p x \<le> length data"
  by (simp_all add: only_mark_def)

lemma only_mark_set [simp]:
  "only_mark c data (set_state s x) = only_mark c data x"
  "only_mark c data (set_header_state h x) = only_mark c data x"
  "only_mark c data (MARK c x) = only_mark c data x"
  by (auto simp: only_mark_def)

lemma only_mark_upd:
  "only_mark c data x \<Longrightarrow> p_errno (f (x_parser x)) = p_errno (x_parser x) \<Longrightarrow> only_mark c data (upd_parser f x)"
  by (simp add: only_mark_def)

lemma only_mark_break:
  "only_mark c data x \<Longrightarrow> mark_state c (p_state (x_parser x)) \<Longrightarrow> state_ok (x_parser x) \<Longrightarrow>
   p_state (x_parser x) \<noteq> s_chunk_size_start \<Longrightarrow> break_ok data x"
  by (auto simp: only_mark_def break_ok_def parser_ok_def marks_ok_def)

text \<open>After the data callback of its only mark the run is quiet.\<close>

lemma keeps_data_quiet:
  assumes "callbacks_return st" and "only_mark c data x" and "er \<le> length data"
    and "\<And>u. quiet data (x\<lparr>x_user := u, x_mark := (x_mark x)(c := None)\<rparr>) \<Longrightarrow>
      keeps data (k (x\<lparr>x_user := u, x_mark := (x_mark x)(c := None)\<rparr>))"
  shows "keeps data (CALLBACK_DATA st data c stop er x k)"
  using assms
  by (intro keeps_data) (auto simp: only_mark_def quiet_def fun_eq_iff)

lemma not_url_states [simp]:
  "s_res_status \<notin> url_states" "s_header_field \<notin> url_states" "s_header_value \<notin> url_states"
  "s_body_identity \<notin> url_states" "s_body_identity_eof \<notin> url_states" "s_chunk_data \<notin> url_states"
  "s_chunk_data_almost_done \<notin> url_states"
  by (simp_all add: url_states_def)

lemma mark_state_unique:
  assumes "mark_state c s" and "mark_state d s"
  shows "c = d"
proof -
  consider "s \<in> url_states" | "s = s_res_status" | "s = s_header_field" | "s = s_header_value"
    | "s \<in> {s_body_identity, s_body_identity_eof, s_chunk_data, s_chunk_data_almost_done}"
    using assms(1) by (cases c) simp_all
  then show ?thesis
  proof cases
    case 1
    then have "s \<noteq> s_res_status" "s \<noteq> s_header_field" "s \<noteq> s_header_value"
      "s \<notin> {s_body_identity, s_body_identity_eof, s_chunk_data, s_chunk_data_almost_done}"
      by auto
    with assms show ?thesis by (cases c; cases d; simp only: mark_state.simps)
  qed (use assms in \<open>cases c; cases d; auto\<close>)+
qed

lemma byte_only_mark:
  assumes "byte_ok data x" and "mark_state c (p_state (x_parser x))"
  shows "only_mark c data x"
  unfolding only_mark_def
proof (intro conjI allI impI)
  show "x_mark x d = None" if "d \<noteq> c" for d
  proof (rule ccontr)
    assume "x_mark x d \<noteq> None"
    then have "mark_state d (p_state (x_parser x))" using assms(1) unfolding byte_ok_def marks_ok_def by blast
    with assms(2) that show False using mark_state_unique by blast
  qed
qed (use assms(1) in \<open>simp_all add: byte_ok_def\<close>)

lemma keeps_url_char:
  assumes "only_mark cb_url data x"
  shows "keeps data (url_char ch x)"
proof -
  let ?x = "set_state (parse_url_char (p_state (x_parser x)) ch) x"
  show ?thesis
  proof (cases "p_state (x_parser ?x) = s_dead")
    case True
    then show ?thesis using assms by (simp add: url_char_def only_mark_p)
  next
    case False
    then have "p_state (x_parser ?x) \<in> url_states" using parse_url_char_states by simp
    moreover from this have "p_state (x_parser ?x) \<noteq> s_chunk_size_start" by (auto simp: url_states_def)
    ultimately have "break_ok data ?x"
      using assms by (intro only_mark_break [of cb_url]) (simp_all add: url_state_ok)
    with False show ?thesis by (simp add: url_char_def)
  qed
qed

lemma keeps_url:
  assumes "byte_ok data x" and "callbacks_return st"
  shows "p_state (x_parser x) = s_req_spaces_before_url \<Longrightarrow> keeps data (in_req_spaces_before_url ch x)"
    and "p_state (x_parser x) \<in> url_states \<Longrightarrow> keeps data (in_req_schema ch x)"
    and "p_state (x_parser x) \<in> url_states \<Longrightarrow> keeps data (in_req_url st data ch x)"
proof -
  show "keeps data (in_req_spaces_before_url ch x)" if "p_state (x_parser x) = s_req_spaces_before_url"
  proof -
    have "quiet data x" using keeps_quiet [OF assms(1) that] assms(1) by (simp add: quiet_def byte_ok_def url_states_def)
    then show ?thesis using that by (auto simp: in_req_spaces_before_url_def Let_def state_ok_def
      quiet_only intro!: keeps_url_char quiet_break)
  qed
  assume "p_state (x_parser x) \<in> url_states"
  then have o: "only_mark cb_url data x" using assms(1) by (simp add: byte_only_mark)
  show "keeps data (in_req_schema ch x)"
    using o by (simp add: in_req_schema_def only_mark_p keeps_url_char)
  show "keeps data (in_req_url st data ch x)"
    using o assms(2) by (auto simp: in_req_url_def keeps_url_char only_mark_p Suc_le_eq state_ok_def
      intro!: keeps_data_quiet only_mark_upd quiet_break)
qed

lemma keeps_status:
  assumes "byte_ok data x" and "callbacks_return st"
  shows "quiet data x \<Longrightarrow> keeps data (in_res_status_start ch x)"
    and "p_state (x_parser x) = s_res_status \<Longrightarrow> keeps data (in_res_status st data ch x)"
proof -
  show "keeps data (in_res_status_start ch x)" if q: "quiet data x"
  proof -
    have "break_ok data (set_state s_res_status (upd_parser (\<lambda>pr. pr\<lparr>p_index := 0\<rparr>) (MARK cb_status x)))"
      using q by (intro only_mark_break [of cb_status])
        (simp_all add: state_ok_def quiet_only only_mark_upd)
    with q show ?thesis
      by (auto simp: in_res_status_start_def state_ok_def intro!: quiet_break)
  qed
  assume s: "p_state (x_parser x) = s_res_status"
  then have o: "only_mark cb_status data x" using assms(1) by (simp add: byte_only_mark)
  have "break_ok data x" using o s by (intro only_mark_break [of cb_status]) (simp_all add: state_ok_def)
  then show "keeps data (in_res_status st data ch x)"
    using o assms(2) by (auto simp: in_res_status_def only_mark_p Suc_le_eq state_ok_def
      intro!: keeps_data_quiet quiet_break)
qed

section \<open>The headers and the body keep it\<close>

lemma field_char_ok:
  assumes "p_header_state pr \<in> field_states" and "field_char ch c pr = r"
  shows "\<exists>pr'. r = Some pr' \<and> p_header_state pr' \<in> field_states \<and> p_errno pr' = p_errno pr \<and>
    p_state pr' = p_state pr \<and> p_nread pr' = p_nread pr"
  using assms
  by (auto simp: field_states_def field_char_def match_next_def Let_def)

lemma keeps_field:
  assumes "byte_ok data x" and "callbacks_return st"
  shows "quiet data x \<Longrightarrow> p_state (x_parser x) = s_header_field_start \<Longrightarrow>
      keeps data (in_header_field_start ch x)"
    and "p_state (x_parser x) = s_header_field \<Longrightarrow> keeps data (in_header_field st data ch x)"
proof -
  show "keeps data (in_header_field_start ch x)" if q: "quiet data x" and "p_state (x_parser x) = s_header_field_start"
  proof -
    let ?h = "if TOKEN ch = CHR ''c'' then h_C
      else if TOKEN ch = CHR ''p'' then h_matching_proxy_connection
      else if TOKEN ch = CHR ''t'' then h_matching_transfer_encoding
      else if TOKEN ch = CHR ''u'' then h_matching_upgrade else h_general"
    have "?h \<in> field_states" by (simp add: field_states_def)
    then have "break_ok data (set_header_state ?h (set_state s_header_field
        (upd_parser (\<lambda>pr. pr\<lparr>p_index := 0\<rparr>) (MARK cb_header_field x))))"
      using q by (intro only_mark_break [of cb_header_field])
        (simp_all add: state_ok_def quiet_only only_mark_upd)
    moreover have "break_ok data (set_state s_headers_almost_done x)"
      "byte_ok data (set_state s_headers_almost_done x)"
      using q by (auto simp: state_ok_def intro!: quiet_break quiet_byte)
    ultimately show ?thesis
      using q by (simp add: in_header_field_start_def quiet_p)
  qed
  assume s: "p_state (x_parser x) = s_header_field"
  then have o: "only_mark cb_header_field data x" using assms(1) by (simp add: byte_only_mark)
  have h: "p_header_state (x_parser x) \<in> field_states" using assms(1) s by (simp add: byte_ok_def state_ok_def)
  obtain pr where f: "field_char ch (TOKEN ch) (x_parser x) = Some pr" "p_header_state pr \<in> field_states"
    "p_errno pr = p_errno (x_parser x)" "p_state pr = s_header_field"
    using field_char_ok [OF h refl] s by metis
  then have "break_ok data (x\<lparr>x_parser := pr\<rparr>)"
    using o by (intro only_mark_break [of cb_header_field]) (simp_all add: state_ok_def only_mark_def)
  with f(1) show "keeps data (in_header_field st data ch x)"
    using o assms(2) by (auto simp: in_header_field_def Let_def only_mark_p Suc_le_eq state_ok_def
      intro!: keeps_data_quiet quiet_break)
qed

lemma value_start_break:
  assumes "quiet data x" and "y = set_state s_header_value (upd_parser (\<lambda>pr. pr\<lparr>p_index := 0\<rparr>) (MARK cb_header_value x))"
  shows "only_mark cb_header_value data y" and "p_state (x_parser y) = s_header_value"
  using assms by (simp_all add: quiet_only only_mark_upd)

lemma header_value_break:
  "only_mark cb_header_value data y \<Longrightarrow> p_state (x_parser y) = s_header_value \<Longrightarrow>
   p_header_state (x_parser y) \<noteq> h_connection \<Longrightarrow> p_header_state (x_parser y) \<noteq> h_transfer_encoding \<Longrightarrow>
   break_ok data y"
  by (rule only_mark_break [of cb_header_value]) (simp_all add: state_ok_def)

lemma keeps_value_start:
  assumes "quiet data x"
  shows "keeps data (in_header_value_start ch x)"
proof -
  define y where "y = set_state s_header_value (upd_parser (\<lambda>pr. pr\<lparr>p_index := 0\<rparr>) (MARK cb_header_value x))"
  note y = value_start_break [OF assms y_def]
  show ?thesis
    unfolding in_header_value_start_def y_def [symmetric] Let_def
    using y by (cases "p_header_state (x_parser y)")
      (auto intro!: header_value_break only_mark_upd simp: only_mark_p)
qed

lemma keeps_value_char:
  assumes "only_mark cb_header_value data x" and "state_ok (x_parser x)" and "p_state (x_parser x) = s_header_value"
  shows "keeps data (value_char ch x)"
proof -
  have "break_ok data x"
    using assms by (intro header_value_break) (simp_all add: state_ok_def)
  then show ?thesis
    using assms by (cases "p_header_state (x_parser x)")
      (auto simp: value_char_def next_content_length_def match_next_def state_ok_def Let_def only_mark_p
        intro!: header_value_break only_mark_upd split: if_splits)
qed

lemma keeps_value:
  assumes "byte_ok data x" and "callbacks_return st"
  shows "quiet data x \<Longrightarrow> p_state (x_parser x) = s_header_value_discard_ws \<Longrightarrow>
      keeps data (in_header_value_discard_ws ch x)"
    and "p_state (x_parser x) = s_header_value \<Longrightarrow> keeps data (in_header_value st data ch x)"
    and "quiet data x \<Longrightarrow> keeps data (in_header_value_lws ch x)"
    and "quiet data x \<Longrightarrow> keeps data (in_header_value_discard_lws st data ch x)"
proof -
  show "quiet data x \<Longrightarrow> p_state (x_parser x) = s_header_value_discard_ws \<Longrightarrow>
      keeps data (in_header_value_discard_ws ch x)"
    by (auto simp: in_header_value_discard_ws_def state_ok_def intro!: quiet_break keeps_value_start)
  show "keeps data (in_header_value st data ch x)" if s: "p_state (x_parser x) = s_header_value"
  proof -
    have o: "only_mark cb_header_value data x" using assms(1) s by (simp add: byte_only_mark)
    have "state_ok (x_parser x)" using assms(1) by (simp add: byte_ok_def)
    with o s show ?thesis
      using assms(2) by (auto simp: in_header_value_def only_mark_p Suc_le_eq state_ok_def
        intro!: keeps_data_quiet quiet_break quiet_byte keeps_value_char)
  qed
  assume q: "quiet data x"
  show "keeps data (in_header_value_lws ch x)"
    using q by (cases "p_header_state (x_parser x)")
      (auto simp: in_header_value_lws_def Let_def state_ok_def intro!: quiet_byte quiet_upd)
  have "only_mark cb_header_value data (set_state s_header_field_start (MARK cb_header_value x))"
    using q by (simp add: quiet_only)
  then show "keeps data (in_header_value_discard_lws st data ch x)"
    using q assms(2) by (auto simp: in_header_value_discard_lws_def state_ok_def quiet_p
      intro!: keeps_data_quiet [of _ cb_header_value] quiet_break quiet_byte)
qed

lemma keeps_headers_end:
  assumes "quiet data x" and "callbacks_return st"
  shows "keeps data (end_message st x)" and "keeps data (in_headers_almost_done st ch x)"
    and "keeps data (in_headers_done st ch x)"
proof -
  have e: "keeps data (end_message st y)" if "quiet data y" for y
    using that assms(2) by (intro keeps_end_message) (simp_all add: quiet_def)
  then show "keeps data (end_message st x)" using assms(1) .
  show "keeps data (in_headers_almost_done st ch x)"
    using assms by (auto simp: in_headers_almost_done_def STRICT_CHECK_def Let_def state_ok_def quiet_p e
      intro!: quiet_byte quiet_upd dest: callbacks_return_notify split: option.splits sum.splits)
      (auto simp: quiet_def)
  have u: "quiet data (upd_parser (\<lambda>pr. pr\<lparr>p_nread := 0\<rparr>) x)" using assms(1) by (simp add: quiet_def)
  have c: "keeps data (CALLBACK_NOTIFY (on_message_complete st) HPE_CB_message_complete n y
      (\<lambda>x. Return x (Suc (x_p x))))"
    if "quiet data y" "n \<le> length data" "parser_ok (x_parser y)" "p_upgrade (x_parser y)" for y n
    using that assms(2) unfolding keeps_def
    by (intro CALLBACK_NOTIFY_all) (auto simp: quiet_def return_ok_def dest: callbacks_return_notify)
  have st: "state_ok (pr\<lparr>p_nread := 0, p_state := NEW_MESSAGE pr'\<rparr>)" "NEW_MESSAGE pr' \<noteq> s_chunk_size_start"
    "state_ok (pr\<lparr>p_nread := 0, p_state := s_chunk_size_start\<rparr>) = (F_CHUNKED \<in> p_flags pr)"
    "state_ok (pr\<lparr>p_nread := 0, p_state := s_body_identity\<rparr>) =
      (p_content_length pr \<noteq> ULLONG_MAX \<and> p_content_length pr \<noteq> 0)"
    "state_ok (pr\<lparr>p_nread := 0, p_state := s_body_identity_eof\<rparr>)"
    for pr pr'
    by (simp_all add: state_ok_def NEW_MESSAGE_def start_state_def)
  show "keeps data (in_headers_done st ch x)"
  proof (cases "p_upgrade (x_parser x)")
    case True
    have "parser_ok (x_parser x\<lparr>p_nread := 0, p_state := NEW_MESSAGE (x_parser x\<lparr>p_nread := 0\<rparr>)\<rparr>)"
      using assms(1) by (simp add: parser_ok_def st quiet_def)
    with True show ?thesis
      using assms u by (simp add: in_headers_done_def STRICT_CHECK_def Let_def quiet_p Suc_le_eq c)
  next
    case False
    then show ?thesis
      using assms u e [OF u]
      by (auto simp: in_headers_done_def STRICT_CHECK_def Let_def quiet_p st intro!: quiet_break)
  qed
qed

lemma unat_take_body:
  "unat (p_content_length (x_parser (take_body data x))) =
   unat (p_content_length (x_parser x)) - to_read data x"
proof -
  let ?c = "p_content_length (x_parser x)"
  have le: "to_read data x \<le> unat ?c" by (simp add: to_read_def)
  also have "unat ?c < 2 ^ LENGTH(64)" by (rule unsigned_less)
  finally have n: "unat (of_nat (to_read data x) :: 64 word) = to_read data x"
    by (simp add: unat_of_nat)
  with le have "(of_nat (to_read data x) :: 64 word) \<le> ?c" by (simp add: word_le_nat_alt)
  then have "unat (?c - of_nat (to_read data x)) = unat ?c - to_read data x"
    by (simp add: unat_sub n)
  then show ?thesis by (simp add: take_body_def Let_def)
qed

lemma not_ullong_max: "x \<noteq> ULLONG_MAX \<Longrightarrow> unat (y :: 64 word) \<le> unat x \<Longrightarrow> y \<noteq> ULLONG_MAX"
  by (metis antisym word_le_nat_alt word_order.extremum)

lemma take_body_ok:
  assumes "only_mark cb_body data x" and "p_content_length (x_parser x) \<noteq> ULLONG_MAX"
    and "p_content_length (x_parser x) \<noteq> 0"
  shows "only_mark cb_body data (take_body data x)"
    and "p_content_length (x_parser (take_body data x)) \<noteq> ULLONG_MAX"
    and "p_flags (x_parser (take_body data x)) = p_flags (x_parser x)"
proof -
  have p: "x_p x < length data" using assms(1) by (rule only_mark_p)
  then have "x_p (take_body data x) < length data" by (auto simp: to_read_def)
  with assms(1) show "only_mark cb_body data (take_body data x)"
    by (simp add: only_mark_def take_body_def Let_def)
  show "p_content_length (x_parser (take_body data x)) \<noteq> ULLONG_MAX"
    by (rule not_ullong_max [OF assms(2)]) (simp add: unat_take_body)
qed (simp add: take_body_def Let_def)

lemma keeps_body:
  assumes "byte_ok data x" and "callbacks_return st"
  shows "p_state (x_parser x) = s_body_identity \<Longrightarrow> keeps data (in_body_identity st data ch x)"
    and "p_state (x_parser x) = s_body_identity_eof \<Longrightarrow> keeps data (in_body_identity_eof data x)"
    and "p_state (x_parser x) = s_chunk_data \<Longrightarrow> keeps data (in_chunk_data data x)"
    and "p_state (x_parser x) = s_chunk_data_almost_done \<Longrightarrow>
      keeps data (in_chunk_data_almost_done st data ch x)"
proof -
  let ?y = "take_body data x"
  have ok: "state_ok (x_parser x)" using assms(1) by (simp add: byte_ok_def)
  have o: "only_mark cb_body data x" if "mark_state cb_body (p_state (x_parser x))"
    using assms(1) that by (rule byte_only_mark)
  show "keeps data (in_body_identity st data ch x)" if s: "p_state (x_parser x) = s_body_identity"
  proof -
    have c: "p_content_length (x_parser x) \<noteq> 0" "p_content_length (x_parser x) \<noteq> ULLONG_MAX"
      using ok s by (simp_all add: state_ok_def)
    note y = take_body_ok [OF o c(2,1)]
    have "break_ok data ?y" if "p_content_length (x_parser ?y) \<noteq> 0"
      using y s that by (intro only_mark_break [of cb_body]) (simp_all add: state_ok_def)
    then show ?thesis
      using c y(1) s assms(2) only_mark_p [OF y(1)]
      by (auto simp: in_body_identity_def Let_def state_ok_def simp del: take_body_p
        intro!: keeps_data_quiet quiet_byte)
  qed
  show "keeps data (in_body_identity_eof data x)" if s: "p_state (x_parser x) = s_body_identity_eof"
  proof -
    have "only_mark cb_body data ((MARK cb_body x)\<lparr>x_p := length data - 1\<rparr>)"
      using o s by (auto simp: only_mark_def)
    then show ?thesis
      using s by (auto simp: in_body_identity_eof_def state_ok_def intro!: only_mark_break [of cb_body])
  qed
  show "keeps data (in_chunk_data data x)" if s: "p_state (x_parser x) = s_chunk_data"
  proof -
    have c: "p_content_length (x_parser x) \<noteq> 0" "p_content_length (x_parser x) \<noteq> ULLONG_MAX"
      and f: "F_CHUNKED \<in> p_flags (x_parser x)"
      using ok s by (simp_all add: state_ok_def)
    note y = take_body_ok [OF o c(2,1)]
    show ?thesis
      using c f y s by (auto simp: in_chunk_data_def Let_def state_ok_def intro!: only_mark_break [of cb_body])
  qed
  show "keeps data (in_chunk_data_almost_done st data ch x)"
    if s: "p_state (x_parser x) = s_chunk_data_almost_done"
    using o ok s assms(2)
    by (auto simp: in_chunk_data_almost_done_def STRICT_CHECK_def state_ok_def only_mark_p Suc_le_eq
      intro!: keeps_data_quiet quiet_break)
qed

lemma unhex_lt: "unhex ch = Some v \<Longrightarrow> v < 16"
  by (auto simp: unhex_def Let_def split: if_splits)

lemma chunk_no_wrap:
  assumes "\<not> (ULLONG_MAX - 16) div 16 < old" and "v < 16"
  shows "unat (old * 16 + of_nat v) = unat old * 16 + v" and "old * 16 + of_nat v \<noteq> ULLONG_MAX"
proof -
  have "old \<le> (ULLONG_MAX - 16) div 16" using assms(1) by simp
  then have "unat old \<le> unat ((ULLONG_MAX - 16) div 16)" by (simp add: word_le_nat_alt)
  then have le: "unat old \<le> 1152921504606846974" by simp
  have m: "unat (old * 16) = unat old * 16"
    using le by (subst unat_mult_lem [THEN iffD1]) simp_all
  have v: "unat (of_nat v :: 64 word) = v" using assms(2) by (simp add: unat_of_nat)
  show u: "unat (old * 16 + of_nat v) = unat old * 16 + v"
    using le assms(2) by (subst unat_add_lem [THEN iffD1]) (simp_all add: m v)
  show "old * 16 + of_nat v \<noteq> ULLONG_MAX"
  proof
    assume "old * 16 + of_nat v = ULLONG_MAX"
    then have "unat old * 16 + v = unat ULLONG_MAX" using u by metis
    then show False using le assms(2) by (simp add: unsigned_minus_1_eq_mask mask_eq_exp_minus_1)
  qed
qed

lemma keeps_chunk:
  assumes "byte_ok data x" and "quiet data x"
  shows "p_state (x_parser x) = s_chunk_size_start \<Longrightarrow> keeps data (in_chunk_size_start ch x)"
    and "p_state (x_parser x) = s_chunk_size \<Longrightarrow> keeps data (in_chunk_size ch x)"
    and "p_state (x_parser x) = s_chunk_parameters \<Longrightarrow> keeps data (in_chunk_parameters ch x)"
    and "p_state (x_parser x) = s_chunk_size_almost_done \<Longrightarrow> keeps data (in_chunk_size_almost_done ch x)"
    and "p_state (x_parser x) = s_chunk_data_done \<Longrightarrow> keeps data (in_chunk_data_done ch x)"
proof -
  have small: "of_nat v \<noteq> ULLONG_MAX" if "unhex ch = Some v" for v
    using chunk_no_wrap(2) [of 0 v] unhex_lt [OF that] by simp
  show "p_state (x_parser x) = s_chunk_size_start \<Longrightarrow> keeps data (in_chunk_size_start ch x)"
    using assms small by (auto simp: in_chunk_size_start_def byte_ok_def state_ok_def quiet_p
      intro!: quiet_break quiet_upd split: option.splits)
  show "keeps data (in_chunk_size ch x)" if s: "p_state (x_parser x) = s_chunk_size"
  proof -
    have f: "F_CHUNKED \<in> p_flags (x_parser x)" "p_content_length (x_parser x) \<noteq> ULLONG_MAX"
      using assms(1) s by (simp_all add: byte_ok_def state_ok_def)
    let ?old = "p_content_length (x_parser x)"
    have "break_ok data (upd_parser (\<lambda>pr. pr\<lparr>p_content_length := ?old * 16 + of_nat v\<rparr>) x)"
      if "unhex ch = Some v" "\<not> (ULLONG_MAX - 16) div 16 < ?old" for v
    proof (rule quiet_break)
      show "state_ok (x_parser (upd_parser (\<lambda>pr. pr\<lparr>p_content_length := ?old * 16 + of_nat v\<rparr>) x))"
        using chunk_no_wrap(2) [OF that(2) unhex_lt [OF that(1)]] f s by (simp add: state_ok_def)
    qed (use assms(2) s in \<open>simp_all add: quiet_upd\<close>)
    moreover have "break_ok data (set_state s_chunk_size_almost_done x)"
      "break_ok data (set_state s_chunk_parameters x)"
      using assms(2) f by (auto simp: state_ok_def intro!: quiet_break)
    ultimately show ?thesis
      using f assms(2) unfolding in_chunk_size_def Let_def
      by (cases "unhex ch") (simp_all add: quiet_p del: not_less)
  qed
  show "p_state (x_parser x) = s_chunk_parameters \<Longrightarrow> keeps data (in_chunk_parameters ch x)"
    "p_state (x_parser x) = s_chunk_size_almost_done \<Longrightarrow> keeps data (in_chunk_size_almost_done ch x)"
    "p_state (x_parser x) = s_chunk_data_done \<Longrightarrow> keeps data (in_chunk_data_done ch x)"
    using assms by (auto simp: in_chunk_parameters_def in_chunk_size_almost_done_def in_chunk_data_done_def
      STRICT_CHECK_def byte_ok_def state_ok_def quiet_p Let_def intro!: quiet_break quiet_upd)
qed

section \<open>The whole call\<close>

lemma step_keeps:
  assumes "callbacks_return st" and "byte_ok data x"
  shows "keeps data (step st data ch x)"
proof -
  let ?s = "p_state (x_parser x)"
  have ok: "state_ok (x_parser x)" using assms(2) by (simp add: byte_ok_def)
  have q: "quiet data x" if "\<And>c. \<not> mark_state c ?s"
    using assms(2) no_marks [OF _ that] by (simp add: byte_ok_def quiet_def)
  have quiet: "quiet data x" if "?s \<notin> url_states" and "?s \<notin> {s_res_status, s_header_field, s_header_value,
      s_body_identity, s_body_identity_eof, s_chunk_data, s_chunk_data_almost_done}"
    using that by (intro q) (rule mark_state_none)
  have ex: "keeps data (expect c s ch x)"
    if "quiet data x" "s \<in> {s_res_HT, s_res_HTT, s_res_HTTP, s_res_first_http_major, s_header_field_start,
      s_req_http_HT, s_req_http_HTT, s_req_http_HTTP, s_req_first_http_major,
      s_header_value_discard_lws, s_header_value_lws}" for c s
    by (rule keeps_expect [OF that(1)]) (use that(2) in \<open>auto simp: state_ok_def\<close>)
  note k = keeps_quiet_start keeps_version keeps_message_begins [OF _ assms(1)]
    keeps_url [OF assms(2,1)] keeps_status [OF assms(2,1)] keeps_field [OF assms(2,1)]
    keeps_value [OF assms(2,1)] keeps_value_start keeps_headers_end [OF _ assms(1)] keeps_body [OF assms(2,1)]
    keeps_chunk [OF assms(2)] keeps_method ex
  have u: "s \<in> url_states \<longleftrightarrow> s \<in> {s_req_path, s_req_schema, s_req_schema_slash,
      s_req_schema_slash_slash, s_req_server_start, s_req_server, s_req_server_with_at,
      s_req_query_string_start, s_req_query_string, s_req_fragment_start, s_req_fragment}" for s
    by (simp add: url_states_def)
  show ?thesis
    using ok quiet
    by (cases ?s) (simp_all add: step_def k u, simp_all add: state_ok_def k)
qed

lemma exec_byte_keeps:
  assumes "callbacks_return st" and "byte_ok data x"
  shows "step_all (break_ok data) (\<lambda>_. False) (\<lambda>x. return_ok data (x_parser x)) (\<lambda>_. False)
    (exec_byte st data ch x)"
  using assms(2) by (rule exec_byte_all) (use step_keeps [OF assms(1)] in \<open>simp add: keeps_def\<close>)

lemma finish_keeps:
  assumes "callbacks_return st" and "loop_ok data x"
  shows "keeps data (finish st data x)"
proof -
  have "(\<Sum>c \<leftarrow> [cb_header_field, cb_header_value, cb_url, cb_body, cb_status].
      if x_mark x c \<noteq> None then 1 else 0 :: nat) \<le> 1"
  proof (cases "\<exists>c. x_mark x c \<noteq> None")
    case True
    then obtain c where c: "x_mark x c \<noteq> None" by blast
    have "x_mark x d = None" if "d \<noteq> c" for d
      using assms(2) that c mark_state_unique unfolding loop_ok_def marks_ok_def by blast
    then show ?thesis by (cases c) simp_all
  qed simp
  then show ?thesis
    using assms unfolding finish_def
    by (auto intro!: keeps_data simp: loop_ok_def return_ok_def parser_ok_def)
qed

lemma count_byte_ok:
  assumes "loop_ok data x" and "x_p x < length data"
  shows "byte_ok data (count_byte x)"
proof -
  have "state_ok (pr\<lparr>p_nread := n\<rparr>) = state_ok pr" for pr n
    by (cases "p_state pr") (simp_all add: state_ok_def)
  with assms show ?thesis
    by (auto simp: loop_ok_def byte_ok_def parser_ok_def count_byte_def PARSING_HEADER_def marks_ok_def)
qed

lemma exec_loop_keeps:
  "callbacks_return st \<Longrightarrow> loop_ok data x \<Longrightarrow>
   \<exists>y n. exec_loop st data x = Return y n \<and> return_ok data (x_parser y) n"
proof (induction st data x rule: exec_loop.induct)
  case (1 st data x)
  show ?case
  proof (cases "length data \<le> x_p x")
    case True
    have "keeps data (finish st data x)" using "1.prems" by (rule finish_keeps)
    moreover have "step_all (\<lambda>_. False) (\<lambda>_. False) (\<lambda>_ _. True) (\<lambda>_. True) (finish st data x)"
      unfolding finish_def by (auto intro!: CALLBACK_DATA_all)
    ultimately show ?thesis
      by (cases "finish st data x") (simp_all add: exec_loop.simps [of st data x] True)
  next
    case False
    let ?y = "count_byte x" and ?ch = "data ! x_p x"
    have y: "byte_ok data ?y" using "1.prems" False by (intro count_byte_ok) auto
    show ?thesis
    proof (cases "header_overflow ?y")
      case True
      then show ?thesis using False
        by (auto simp: exec_loop.simps [of st data x] goto_error_def Let_def)
    next
      case ok: False
      have k: "step_all (break_ok data) (\<lambda>_. False) (\<lambda>x. return_ok data (x_parser x)) (\<lambda>_. False)
          (exec_byte st data ?ch ?y)"
        using "1.prems"(1) y by (rule exec_byte_keeps)
      have IH: "\<exists>w n. exec_loop st data (z\<lparr>x_p := Suc (x_p z)\<rparr>) = Return w n \<and> return_ok data (x_parser w) n"
        if z: "exec_byte st data ?ch ?y = Next z" for z
      proof (rule "1.IH" [OF _ refl ok])
        show "\<not> length data \<le> x_p x" using False .
        show "exec_byte st data (data ! x_p ?y) ?y = Next z" using z by simp
        show "callbacks_return st" by fact
        show "loop_ok data (z\<lparr>x_p := Suc (x_p z)\<rparr>)"
          using k z by (simp add: break_ok_def loop_ok_def marks_ok_def)
      qed
      show ?thesis
        using k IH False ok
        by (cases "exec_byte st data ?ch ?y") (auto simp: exec_loop.simps [of st data x] Let_def)
    qed
  qed
qed

lemma start_exec_ok:
  assumes "parser_ok pr"
  shows "loop_ok data (start_exec pr u)"
proof -
  have "mark_state c (p_state pr)" if "initial_mark (p_state pr) c \<noteq> None" for c
    using that by (cases c) (auto simp: initial_mark_def url_states_def split: if_splits)
  with assms show ?thesis by (simp add: loop_ok_def start_exec_def marks_ok_def)
qed

lemma parser_ok_init [simp]: "parser_ok (http_parser_init t)"
  by (simp add: parser_ok_def state_ok_def http_parser_init_def)

lemma execute_eof_ok:
  assumes "callbacks_return st" and "parser_ok pr"
  shows "\<exists>n pr' u'. execute_eof st pr u = Inr (n, pr', u') \<and> n \<le> 1 \<and>
    (n = 1 \<longrightarrow> p_errno pr' = HPE_INVALID_EOF_STATE) \<and>
    (p_errno pr' = HPE_OK \<longrightarrow> parser_ok pr' \<and> n = 0)"
proof (cases "p_state pr = s_body_identity_eof")
  case True
  have "step_all (\<lambda>_. False) (\<lambda>_. False) (\<lambda>x n. n = 0 \<and> (p_errno (x_parser x) = HPE_OK \<longrightarrow> x_parser x = pr))
      (\<lambda>_. False)
    (CALLBACK_NOTIFY (on_message_complete st) HPE_CB_message_complete 0 (start_exec pr u) (\<lambda>x. Return x 0))"
    using assms by (auto simp: CALLBACK_NOTIFY_def start_exec_def parser_ok_def
        dest: callbacks_return_notify split: option.splits sum.splits)
  then show ?thesis
    using True assms(2) by (auto simp: execute_eof_def Let_def returned_def split: step_result.splits)
next
  case False
  then show ?thesis using assms(2) by (auto simp: execute_eof_def Let_def parser_ok_def)
qed

text \<open>
  C1: With callbacks that return (whatever they answer), a call of \<open>http_parser_execute\<close> on
  a parser fresh from \<open>http_parser_init\<close>, or left by an earlier call, never fails one of its
  assertions and never reads a table out of bounds, whether it is given bytes, of any kind, or
  none, which is the end of the stream. Given bytes it returns a count of at most these; at
  the end of the stream it returns 0, or 1 for the error that the message was not complete.
  Unless an error is set the parser is fit for the next call (the statement composes over the
  reads of a connection) and the count is all the bytes, or an upgrade was seen.
\<close>

theorem execute_no_fault:
  assumes "callbacks_return st" and "parser_ok pr"
  shows "\<exists>n pr' u'. http_parser_execute st data pr u = Inr (n, pr', u') \<and>
    n \<le> (if data = [] then 1 else length data) \<and>
    (data = [] \<and> n = 1 \<longrightarrow> p_errno pr' = HPE_INVALID_EOF_STATE) \<and>
    (p_errno pr' = HPE_OK \<longrightarrow> parser_ok pr' \<and> (n = length data \<or> p_upgrade pr'))"
proof (cases "data = []")
  case True
  have "http_parser_execute st data pr u = execute_eof st pr u"
    using True assms(2) by (simp add: http_parser_execute_def parser_ok_def)
  with execute_eof_ok [OF assms, of u] True show ?thesis by auto
next
  case False
  obtain y n where "exec_loop st data (start_exec pr u) = Return y n" "return_ok data (x_parser y) n"
    using exec_loop_keeps [OF assms(1) start_exec_ok [OF assms(2)]] by blast
  then show ?thesis
    using assms(2) False by (simp add: http_parser_execute_def returned_def return_ok_def parser_ok_def)
qed

definition silent :: "unit http_parser_settings" where
  "silent = \<lparr>on_message_begin = None, on_url = None, on_status = None, on_header_field = None,
     on_header_value = None, on_headers_complete = None, on_body = None, on_message_complete = None\<rparr>"

theorem execute_no_fault_witness:
  "(\<exists>n pr' u'. http_parser_execute silent ''GET / HTTP/1.1'' (http_parser_init HTTP_REQUEST) () = Inr (n, pr', u') \<and>
     n \<le> 14) \<and>
   (\<exists>n pr' u'. http_parser_execute silent [] (http_parser_init HTTP_REQUEST) () = Inr (n, pr', u') \<and> n \<le> 1)"
proof -
  have "on_data c silent = None" for c by (cases c) (simp_all add: silent_def)
  then have "callbacks_return silent" by (simp add: callbacks_return_def silent_def)
  from execute_no_fault [OF this, of "http_parser_init HTTP_REQUEST" "''GET / HTTP/1.1''" "()"]
    execute_no_fault [OF this, of "http_parser_init HTTP_REQUEST" "[]" "()"]
  show ?thesis by fastforce
qed

end
