(* ===== verification/Http_Parser_Request.thy ===== *)
theory Http_Parser_Request
  imports Http_Parser_Safety
begin

text \<open>
  What \<open>http_parser_execute\<close> makes of a well-formed request without a body: which
  callbacks run, with which bytes and in which order. The request line, the header names
  and the header values are proved one by one, as runs of the loop over a piece of the
  input, and then put together.
\<close>

section \<open>Events\<close>

text \<open>A callback with what it reads of the parser.\<close>

datatype event =
    E_message_begin
  | E_url http_method string
  | E_status string
  | E_header_field nat nat string
  | E_header_value string
  | E_headers_complete
  | E_body string
  | E_message_complete

type_synonym 'u handler = "event \<Rightarrow> 'u \<Rightarrow> (int \<times> 'u) res"

definition settings_of :: "'u handler \<Rightarrow> 'u http_parser_settings" where
  "settings_of h =
     \<lparr>on_message_begin = Some (\<lambda>pr. h E_message_begin),
      on_url = Some (\<lambda>pr bs. h (E_url (p_method pr) bs)),
      on_status = Some (\<lambda>pr bs. h (E_status bs)),
      on_header_field = Some (\<lambda>pr bs. h (E_header_field (p_http_major pr) (p_http_minor pr) bs)),
      on_header_value = Some (\<lambda>pr bs. h (E_header_value bs)),
      on_headers_complete = Some (\<lambda>pr. h E_headers_complete),
      on_body = Some (\<lambda>pr bs. h (E_body bs)),
      on_message_complete = Some (\<lambda>pr. h E_message_complete)\<rparr>"

text \<open>The events are handled one after the other and each handler returns 0.\<close>

fun handles :: "'u handler \<Rightarrow> event list \<Rightarrow> 'u \<Rightarrow> 'u \<Rightarrow> bool" where
  "handles h [] u v \<longleftrightarrow> u = v"
| "handles h (e # es) u v \<longleftrightarrow>
     (case h e u of Inr (r, w) \<Rightarrow> r = 0 \<and> handles h es w v | Inl _ \<Rightarrow> False)"

lemma handles_Cons: "handles h (e # es) u v \<longleftrightarrow> (\<exists>w. h e u = Inr (0, w) \<and> handles h es w v)"
  by (auto split: sum.splits)

lemma handles_append: "handles h (es @ fs) u v \<longleftrightarrow> (\<exists>w. handles h es u w \<and> handles h fs w v)"
  by (induction es arbitrary: u) (auto simp: handles_Cons simp del: handles.simps(2))

declare handles.simps(2) [simp del]

section \<open>Runs\<close>

text \<open>\<open>at data x cs\<close>: the bytes from the position of \<open>x\<close> on are \<open>cs\<close>.\<close>

definition at :: "string \<Rightarrow> 'u exec \<Rightarrow> string \<Rightarrow> bool" where
  "at data x cs \<longleftrightarrow> drop (x_p x) data = cs"

definition header_room :: "'u exec \<Rightarrow> nat \<Rightarrow> bool" where
  "header_room x n \<longleftrightarrow> p_nread (x_parser x) + n \<le> HTTP_MAX_HEADER_SIZE"

definition advance :: "'u exec \<Rightarrow> 'u exec" where
  "advance x = x\<lparr>x_p := Suc (x_p x)\<rparr>"

lemma advance_fields [simp]:
  "x_parser (advance x) = x_parser x" "x_user (advance x) = x_user x" "x_mark (advance x) = x_mark x"
  "x_p (advance x) = Suc (x_p x)"
  by (simp_all add: advance_def)

lemma at_nth: "at data x (c # cs) \<Longrightarrow> x_p x < length data \<and> data ! x_p x = c"
  unfolding at_def by (metis drop_all hd_drop_conv_nth leI list.distinct(1) list.sel(1))

lemma at_advance: "at data x (c # cs) \<Longrightarrow> x_p z = Suc (x_p x) \<Longrightarrow> at data z cs"
  unfolding at_def by (metis drop_Suc list.sel(3) tl_drop)

definition counted :: "'u exec \<Rightarrow> 'u exec" where
  "counted x = upd_parser (\<lambda>pr. pr\<lparr>p_nread := Suc (p_nread pr)\<rparr>) x"

lemma counted_fields [simp]:
  "x_parser (counted x) = (x_parser x)\<lparr>p_nread := Suc (p_nread (x_parser x))\<rparr>"
  "x_user (counted x) = x_user x" "x_mark (counted x) = x_mark x" "x_p (counted x) = x_p x"
  by (simp_all add: counted_def)

text \<open>One byte of the header part, when the code of the state ends in a \<open>break\<close>.\<close>

lemma run_byte:
  assumes "at data x (c # cs)" and "PARSING_HEADER (p_state (x_parser x))" and "header_room x 1"
    and "exec_byte st data c (counted x) = Next z"
  shows "exec_loop st data x = exec_loop st data (advance z)"
proof -
  have "count_byte x = counted x" using assms(2) by (simp add: count_byte_def counted_def)
  moreover have "\<not> header_overflow (counted x)" using assms(3) by (simp add: header_overflow_def header_room_def)
  ultimately show ?thesis
    using assms(4) at_nth [OF assms(1)]
    by (simp add: exec_loop.simps [of st data x] Let_def advance_def)
qed

lemma exec_byte_step: "step st data c x = Next z \<Longrightarrow> exec_byte st data c x = Next z"
  by (simp add: exec_byte.simps [of st data c x])

lemma exec_byte_again: "step st data c x = Again z \<Longrightarrow> exec_byte st data c x = exec_byte st data c z"
  by (simp add: exec_byte.simps [of st data c x])

lemma run_step:
  assumes "at data x (c # cs)" and "PARSING_HEADER (p_state (x_parser x))" and "header_room x 1"
    and "step st data c (counted x) = Next z"
  shows "exec_loop st data x = exec_loop st data (advance z)"
  using run_byte [OF assms(1-3) exec_byte_step [OF assms(4)]] .

section \<open>The method\<close>

text \<open>
  The method states on their own: the parser after the first letter, after each further
  letter, and the verdict at the space.
\<close>

fun method_loop :: "string \<Rightarrow> http_method \<Rightarrow> nat \<Rightarrow> (http_method \<times> nat) option" where
  "method_loop [] m i = Some (m, i)"
| "method_loop (c # cs) m i =
     (if c = NUL then None
      else if i < length (method_strings m) \<and> method_strings m ! i = c then method_loop cs m (Suc i)
      else case switch_method m i c of None \<Rightarrow> None | Some m' \<Rightarrow> method_loop cs m' (Suc i))"

definition method_scan :: "string \<Rightarrow> http_method option" where
  "method_scan s =
     (case s of
        [] \<Rightarrow> None
      | c # cs \<Rightarrow>
          (case first_method c of
             None \<Rightarrow> None
           | Some m \<Rightarrow>
               (case method_loop cs m 1 of
                  None \<Rightarrow> None
                | Some (m', i) \<Rightarrow> if i = length (method_strings m') then Some m' else None)))"

lemma method_scan_complete: "method_scan (method_strings m) = Some m"
  by (cases m) (simp_all add: method_scan_def first_method_def switch_method_def)

lemma switch_method_prefix:
  assumes "switch_method m i c = Some m'"
  shows "take (Suc i) (method_strings m') = take i (method_strings m) @ [c] \<and>
    Suc i \<le> length (method_strings m')"
  using assms by (auto simp: switch_method_def split: if_splits)

lemma method_loop_prefix:
  "method_loop cs m i = Some (m', j) \<Longrightarrow> i \<le> length (method_strings m) \<Longrightarrow>
   take j (method_strings m') = take i (method_strings m) @ cs \<and> j \<le> length (method_strings m') \<and>
   j = i + length cs"
proof (induction cs arbitrary: m i)
  case Nil
  then show ?case by simp
next
  case (Cons c cs)
  show ?case
  proof (cases "i < length (method_strings m) \<and> method_strings m ! i = c")
    case True
    with Cons.prems Cons.IH [of m "Suc i"] show ?thesis
      by (auto simp: take_Suc_conv_app_nth split: if_splits)
  next
    case False
    with Cons.prems obtain n where n: "switch_method m i c = Some n" "method_loop cs n (Suc i) = Some (m', j)"
      by (auto split: if_splits option.splits)
    with switch_method_prefix [OF n(1)] Cons.IH [OF n(2)] show ?thesis by auto
  qed
qed

lemma first_method_hd: "first_method c = Some m \<Longrightarrow> take 1 (method_strings m) = [c]"
  by (auto simp: first_method_def split: if_splits)

lemma method_scan_sound:
  assumes "method_scan s = Some m"
  shows "s = method_strings m"
proof -
  obtain c cs m0 where s: "s = c # cs" "first_method c = Some m0"
    "method_loop cs m0 1 = Some (m, length (method_strings m))"
    using assms by (auto simp: method_scan_def split: list.splits option.splits if_splits)
  have "1 \<le> length (method_strings m0)" using first_method_hd [OF s(2)] by (cases "method_strings m0") auto
  from method_loop_prefix [OF s(3) this] first_method_hd [OF s(2)] s(1) show ?thesis by simp
qed

text \<open>The position, the count of header bytes and the parser after \<open>n\<close> more bytes.\<close>

definition moved :: "nat \<Rightarrow> (http_parser \<Rightarrow> http_parser) \<Rightarrow> 'u exec \<Rightarrow> 'u exec" where
  "moved n f x =
     x\<lparr>x_parser := f ((x_parser x)\<lparr>p_nread := p_nread (x_parser x) + n\<rparr>), x_p := x_p x + n\<rparr>"

lemma moved_fields [simp]:
  "x_parser (moved n f x) = f ((x_parser x)\<lparr>p_nread := p_nread (x_parser x) + n\<rparr>)"
  "x_p (moved n f x) = x_p x + n" "x_user (moved n f x) = x_user x" "x_mark (moved n f x) = x_mark x"
  by (simp_all add: moved_def)

lemma at_moved [simp]: "at data x (cs @ ds) \<Longrightarrow> at data (moved (length cs) f x) ds"
  unfolding at_def moved_fields by (metis add.commute append_eq_conv_conj drop_drop)

lemma at_moved_1 [simp]: "at data x (c # ds) \<Longrightarrow> at data (moved (Suc 0) f x) ds"
  using at_moved [of data x "[c]" ds f] by simp

definition with_method :: "http_method \<Rightarrow> nat \<Rightarrow> http_parser \<Rightarrow> http_parser" where
  "with_method m i pr = pr\<lparr>p_method := m, p_index := i\<rparr>"

lemma req_method_step:
  assumes "p_state (x_parser x) = s_req_method" and "p_index (x_parser x) \<le> length (method_strings (p_method (x_parser x)))"
    and "c \<noteq> CHR '' ''" and "method_loop [c] (p_method (x_parser x)) (p_index (x_parser x)) = r"
  shows "step st data c x =
    (case r of None \<Rightarrow> goto_error HPE_INVALID_METHOD x
     | Some (m, i) \<Rightarrow> Next (upd_parser (with_method m i) x))"
proof -
  let ?i = "p_index (x_parser x)" and ?m = "p_method (x_parser x)"
  have e: "upd_parser (\<lambda>pr. pr\<lparr>p_index := Suc ?i\<rparr>) x = upd_parser (with_method ?m (Suc ?i)) x"
    "upd_parser (\<lambda>pr. pr\<lparr>p_method := m, p_index := j\<rparr>) x = upd_parser (with_method m j) x" for m j
    by (simp_all add: upd_parser_def with_method_def)
  have n: "(method_strings ?m @ [NUL]) ! ?i = (if ?i < length (method_strings ?m) then method_strings ?m ! ?i else NUL)"
    using assms(2) by (auto simp: nth_append)
  show ?thesis
    using assms by (auto simp: step_def in_req_method_def Let_def n e split: option.splits if_splits)
qed

lemma method_loop_Cons:
  "method_loop (c # cs) m i =
   (case method_loop [c] m i of None \<Rightarrow> None | Some (m', j) \<Rightarrow> method_loop cs m' j)"
  by (auto split: option.splits)

declare method_loop.simps(2) [simp del]

lemma method_loop_1:
  "method_loop [c] m i = Some (m', j) \<Longrightarrow> j = Suc i"
  by (auto simp: method_loop.simps(2) split: option.splits if_splits)

lemma method_loop_bound:
  "method_loop [c] m i = Some (m', j) \<Longrightarrow> i \<le> length (method_strings m) \<Longrightarrow> j \<le> length (method_strings m')"
  using method_loop_prefix [of "[c]" m i m' j] by simp

lemma moved_method_0: "p_method (x_parser x) = m \<Longrightarrow> p_index (x_parser x) = i \<Longrightarrow> moved 0 (with_method m i) x = x"
  by (cases x; cases "x_parser x") (auto simp: moved_def with_method_def)

lemma run_method:
  "method_loop cs m i = Some (m', j) \<Longrightarrow> at data x (cs @ rest) \<Longrightarrow> p_state (x_parser x) = s_req_method \<Longrightarrow>
   p_method (x_parser x) = m \<Longrightarrow> p_index (x_parser x) = i \<Longrightarrow> i \<le> length (method_strings m) \<Longrightarrow>
   CHR '' '' \<notin> set cs \<Longrightarrow> header_room x (length cs) \<Longrightarrow>
   exec_loop st data x = exec_loop st data (moved (length cs) (with_method m' j) x)"
proof (induction cs arbitrary: m i x)
  case Nil
  then have "moved 0 (with_method m' j) x = x" by (intro moved_method_0) simp_all
  then show ?case by simp
next
  case (Cons c cs)
  then obtain m1 where m1: "method_loop [c] m i = Some (m1, Suc i)" "method_loop cs m1 (Suc i) = Some (m', j)"
    by (subst (asm) method_loop_Cons) (auto split: option.splits dest: method_loop_1)
  have "step st data c (counted x) = Next (upd_parser (with_method m1 (Suc i)) (counted x))"
    using Cons.prems m1 req_method_step [of "counted x" c "Some (m1, Suc i)"] by auto
  then have "exec_loop st data x = exec_loop st data (advance (upd_parser (with_method m1 (Suc i)) (counted x)))"
    using Cons.prems by (intro run_step [of _ _ c "cs @ rest"]) (simp_all add: PARSING_HEADER_def header_room_def)
  also have "advance (upd_parser (with_method m1 (Suc i)) (counted x)) = moved 1 (with_method m1 (Suc i)) x"
    by (simp add: advance_def upd_parser_def counted_def moved_def)
  also have "exec_loop st data (moved 1 (with_method m1 (Suc i)) x) =
      exec_loop st data (moved (length cs) (with_method m' j) (moved 1 (with_method m1 (Suc i)) x))"
    using Cons.prems m1 method_loop_bound [OF m1(1)]
    by (intro Cons.IH [OF m1(2)]) (simp_all add: with_method_def header_room_def)
  also have "moved (length cs) (with_method m' j) (moved 1 (with_method m1 (Suc i)) x) =
      moved (length (c # cs)) (with_method m' j) x"
    by (simp add: moved_def with_method_def)
  finally show ?case .
qed

lemma run_method_error:
  "method_loop cs m i = None \<Longrightarrow> at data x (cs @ rest) \<Longrightarrow> p_state (x_parser x) = s_req_method \<Longrightarrow>
   p_method (x_parser x) = m \<Longrightarrow> p_index (x_parser x) = i \<Longrightarrow> i \<le> length (method_strings m) \<Longrightarrow>
   CHR '' '' \<notin> set cs \<Longrightarrow> header_room x (length cs) \<Longrightarrow>
   \<exists>y n. exec_loop st data x = Return y n \<and> p_errno (x_parser y) = HPE_INVALID_METHOD \<and> x_user y = x_user x"
proof (induction cs arbitrary: m i x)
  case Nil
  then show ?case by simp
next
  case (Cons c cs)
  show ?case
  proof (cases "method_loop [c] m i")
    case None
    then have "step st data c (counted x) = goto_error HPE_INVALID_METHOD (counted x)"
      using Cons.prems by (subst req_method_step [of _ _ None]) auto
    moreover have "count_byte x = counted x" using Cons.prems by (simp add: count_byte_def counted_def PARSING_HEADER_def)
    moreover have "\<not> header_overflow (counted x)" using Cons.prems by (simp add: header_overflow_def header_room_def)
    ultimately show ?thesis
      using at_nth [of data x c "cs @ rest"] Cons.prems
      by (simp add: exec_loop.simps [of st data x] exec_byte.simps [of st data c] goto_error_def Let_def)
  next
    case (Some p)
    then obtain m1 where m1: "method_loop [c] m i = Some (m1, Suc i)" "method_loop cs m1 (Suc i) = None"
      using Cons.prems(1) method_loop_Cons [of c cs m i] by (cases p) (auto dest: method_loop_1)
    have "step st data c (counted x) = Next (upd_parser (with_method m1 (Suc i)) (counted x))"
      using Cons.prems m1 req_method_step [of "counted x" c "Some (m1, Suc i)"] by auto
    then have "exec_loop st data x = exec_loop st data (advance (upd_parser (with_method m1 (Suc i)) (counted x)))"
      using Cons.prems by (intro run_step [of _ _ c "cs @ rest"]) (simp_all add: PARSING_HEADER_def header_room_def)
    moreover have "advance (upd_parser (with_method m1 (Suc i)) (counted x)) = moved 1 (with_method m1 (Suc i)) x"
      by (simp add: advance_def upd_parser_def counted_def moved_def)
    moreover have "\<exists>y n. exec_loop st data (moved 1 (with_method m1 (Suc i)) x) = Return y n \<and>
        p_errno (x_parser y) = HPE_INVALID_METHOD \<and> x_user y = x_user (moved 1 (with_method m1 (Suc i)) x)"
      using Cons.prems m1 method_loop_bound [OF m1(1)]
      by (intro Cons.IH [of m1 "Suc i"]) (simp_all add: with_method_def header_room_def)
    ultimately show ?thesis by simp
  qed
qed

text \<open>The first letter, which starts the message.\<close>

definition message_started :: "http_method \<Rightarrow> http_parser \<Rightarrow> http_parser" where
  "message_started m pr =
     pr\<lparr>p_flags := {}, p_content_length := ULLONG_MAX, p_method := m, p_index := 1, p_state := s_req_method\<rparr>"

lemma first_method_char: "first_method c = Some m \<Longrightarrow> IS_ALPHA c \<and> c \<noteq> CR \<and> c \<noteq> LF"
  by (auto simp: first_method_def IS_ALPHA_def LOWER_def split: if_splits)

lemma run_first_letter:
  assumes "at data x (c # rest)" and "p_state (x_parser x) = s_start_req" and "first_method c = Some m"
    and "p_errno (x_parser x) = HPE_OK" and "header_room x 1"
    and "h E_message_begin (x_user x) = Inr (0, u)"
  shows "exec_loop (settings_of h) data x =
    exec_loop (settings_of h) data ((moved 1 (message_started m) x)\<lparr>x_user := u\<rparr>)"
proof -
  let ?z = "set_state s_req_method (upd_parser (\<lambda>pr. pr\<lparr>p_method := m\<rparr>)
    (upd_parser (\<lambda>pr. pr\<lparr>p_method := HTTP_DELETE, p_index := 1\<rparr>) (upd_parser reset_message (counted x))))"
  have "step (settings_of h) data c (counted x) = Next (?z\<lparr>x_user := u\<rparr>)"
    using assms(2-6) first_method_char [OF assms(3)]
    by (simp add: step_def in_start_req_def Let_def message_begin_def CALLBACK_NOTIFY_def settings_of_def
      reset_message_def)
  then have "exec_loop (settings_of h) data x = exec_loop (settings_of h) data (advance (?z\<lparr>x_user := u\<rparr>))"
    using assms by (intro run_step [of _ _ c rest]) (simp_all add: PARSING_HEADER_def)
  also have "advance (?z\<lparr>x_user := u\<rparr>) = (moved 1 (message_started m) x)\<lparr>x_user := u\<rparr>"
    by (simp add: advance_def set_state_def upd_parser_def counted_def moved_def message_started_def reset_message_def)
  finally show ?thesis .
qed

lemma run_method_space:
  assumes "at data x (CHR '' '' # rest)" and "p_state (x_parser x) = s_req_method"
    and "p_index (x_parser x) = length (method_strings (p_method (x_parser x)))" and "header_room x 1"
  shows "exec_loop st data x = exec_loop st data
    (moved 1 (\<lambda>pr. pr\<lparr>p_index := Suc (p_index pr), p_state := s_req_spaces_before_url\<rparr>) x)"
proof -
  let ?z = "set_state s_req_spaces_before_url
    (upd_parser (\<lambda>pr. pr\<lparr>p_index := Suc (p_index (x_parser x))\<rparr>) (counted x))"
  have "step st data (CHR '' '') (counted x) = Next ?z"
    using assms(2,3) by (simp add: step_def in_req_method_def Let_def nth_append)
  then have "exec_loop st data x = exec_loop st data (advance ?z)"
    using assms by (intro run_step [of _ _ "CHR '' ''" rest]) (simp_all add: PARSING_HEADER_def)
  also have "advance ?z = moved 1 (\<lambda>pr. pr\<lparr>p_index := Suc (p_index pr), p_state := s_req_spaces_before_url\<rparr>) x"
    by (simp add: advance_def set_state_def upd_parser_def counted_def moved_def)
  finally show ?thesis .
qed

lemma method_no_space: "CHR '' '' \<notin> set (method_strings m)"
  by (cases m) simp_all

lemma method_no_nul: "NUL \<notin> set (method_strings m)"
  by (cases m) simp_all

lemma method_nth:
  assumes "i < length (method_strings m)"
  shows "method_strings m ! i \<noteq> CHR '' ''" and "method_strings m ! i \<noteq> NUL"
  using method_no_space [of m] method_no_nul [of m] nth_mem [OF assms] by metis+

lemma switch_method_space: "switch_method m i (CHR '' '') = None"
  by (simp add: switch_method_def)

text \<open>A space before the end of the method, or past no method at all, is an error.\<close>

lemma run_method_space_error:
  assumes "at data x (CHR '' '' # rest)" and "p_state (x_parser x) = s_req_method"
    and "p_index (x_parser x) < length (method_strings (p_method (x_parser x)))" and "header_room x 1"
  shows "\<exists>y n. exec_loop st data x = Return y n \<and> p_errno (x_parser y) = HPE_INVALID_METHOD"
proof -
  have "step st data (CHR '' '') (counted x) = goto_error HPE_INVALID_METHOD (counted x)"
    using assms(2,3) method_nth [OF assms(3)]
    by (auto simp: step_def in_req_method_def Let_def nth_append switch_method_space)
  moreover have "count_byte x = counted x" using assms by (simp add: count_byte_def counted_def PARSING_HEADER_def)
  moreover have "\<not> header_overflow (counted x)" using assms by (simp add: header_overflow_def header_room_def)
  ultimately show ?thesis
    using at_nth [OF assms(1)]
    by (simp add: exec_loop.simps [of st data x] exec_byte.simps [of st data "CHR '' ''"] goto_error_def Let_def)
qed

lemma exec_loop_end:
  assumes "at data x []" and "x_mark x = (\<lambda>_. None)" and "p_errno (x_parser x) = HPE_OK"
  shows "exec_loop st data x = Return x (length data)"
  using assms by (simp add: exec_loop.simps [of st data x] at_def finish_def CALLBACK_DATA_def)

lemma first_letter_error:
  assumes "at data x (c # rest)" and "p_state (x_parser x) = s_start_req" and "first_method c = None"
    and "c \<noteq> CR" and "c \<noteq> LF" and "header_room x 1"
  shows "\<exists>y n. exec_loop st data x = Return y n \<and> p_errno (x_parser y) = HPE_INVALID_METHOD"
proof -
  obtain z where "step st data c (counted x) = goto_error HPE_INVALID_METHOD z"
    using assms(2-5) by (cases "IS_ALPHA c") (simp_all add: step_def in_start_req_def Let_def)
  moreover have "count_byte x = counted x" using assms by (simp add: count_byte_def counted_def PARSING_HEADER_def)
  moreover have "\<not> header_overflow (counted x)" using assms by (simp add: header_overflow_def header_room_def)
  ultimately show ?thesis
    using at_nth [OF assms(1)]
    by (simp add: exec_loop.simps [of st data x] exec_byte.simps [of st data c] goto_error_def Let_def)
qed

lemma initial_mark_start [simp]: "initial_mark s_start_req = (\<lambda>_. None)"
  by (auto simp: initial_mark_def fun_eq_iff split: data_cb.splits)

lemma start_exec_init:
  "x_p (start_exec (http_parser_init HTTP_REQUEST) u) = 0"
  "x_user (start_exec (http_parser_init HTTP_REQUEST) u) = u"
  "x_mark (start_exec (http_parser_init HTTP_REQUEST) u) = (\<lambda>_. None)"
  "x_parser (start_exec (http_parser_init HTTP_REQUEST) u) = http_parser_init HTTP_REQUEST"
  "p_state (http_parser_init HTTP_REQUEST) = s_start_req" "p_errno (http_parser_init HTTP_REQUEST) = HPE_OK"
  "p_nread (http_parser_init HTTP_REQUEST) = 0"
  by (simp_all add: start_exec_def http_parser_init_def)

lemma method_scan_step:
  "first_method c = Some m \<Longrightarrow> method_loop cs m 1 = Some (m', j) \<Longrightarrow>
   method_scan (c # cs) = (if j = length (method_strings m') then Some m' else None)"
  by (simp add: method_scan_def)

lemma exec_loop_method:
  assumes "at data x (c # cs @ '' '')" and "p_state (x_parser x) = s_start_req" and "c \<noteq> CR" and "c \<noteq> LF"
    and "CHR '' '' \<notin> set cs" and "header_room x (Suc (Suc (length cs)))" and "p_errno (x_parser x) = HPE_OK"
    and "x_mark x = (\<lambda>_. None)" and "h E_message_begin (x_user x) = Inr (0, v)"
  shows "\<exists>y n. exec_loop (settings_of h) data x = Return y n \<and>
    (case method_scan (c # cs) of
       Some m \<Rightarrow> n = length data \<and> p_errno (x_parser y) = HPE_OK \<and> p_method (x_parser y) = m \<and>
         p_state (x_parser y) = s_req_spaces_before_url \<and> x_user y = v
     | None \<Rightarrow> p_errno (x_parser y) = HPE_INVALID_METHOD)"
proof (cases "first_method c")
  case None
  then have "method_scan (c # cs) = None" by (simp add: method_scan_def)
  moreover have "header_room x 1" using assms(6) by (simp add: header_room_def)
  ultimately show ?thesis using first_letter_error [OF assms(1,2) None assms(3,4)] by simp
next
  case (Some m)
  let ?x1 = "(moved 1 (message_started m) x)\<lparr>x_user := v\<rparr>"
  have r1: "exec_loop (settings_of h) data x = exec_loop (settings_of h) data ?x1"
    using assms Some by (intro run_first_letter [of _ _ c]) (simp_all add: header_room_def)
  have at1: "at data ?x1 (cs @ '' '')"
    using at_moved [of data x "[c]" "cs @ '' ''" "message_started m"] assms(1) by (simp add: at_def)
  have i1: "1 \<le> length (method_strings m)" using first_method_hd [OF Some] by (cases "method_strings m") auto
  have x1: "p_state (x_parser ?x1) = s_req_method" "p_method (x_parser ?x1) = m" "p_index (x_parser ?x1) = 1"
    "header_room ?x1 (Suc (length cs))"
    using assms(6) by (simp_all add: message_started_def header_room_def)
  show ?thesis
  proof (cases "method_loop cs m 1")
    case None
    then have "method_scan (c # cs) = None" using Some by (simp add: method_scan_def)
    then show ?thesis
      using run_method_error [OF None at1 x1(1-3) i1 assms(5), of "settings_of h"] x1(4) r1
      by (fastforce simp: header_room_def)
  next
    case (Some p)
    obtain m' j where p: "method_loop cs m 1 = Some (m', j)" using Some by (cases p) auto
    have j: "j \<le> length (method_strings m')" using method_loop_prefix [OF p i1] by simp
    let ?x2 = "moved (length cs) (with_method m' j) ?x1"
    have r2: "exec_loop (settings_of h) data ?x1 = exec_loop (settings_of h) data ?x2"
      using run_method [OF p at1 x1(1-3) i1 assms(5)] x1(4) by (simp add: header_room_def)
    have at2: "at data ?x2 '' ''" using at_moved [OF at1] .
    have x2: "p_state (x_parser ?x2) = s_req_method" "p_method (x_parser ?x2) = m'" "p_index (x_parser ?x2) = j"
      "header_room ?x2 1"
      using assms(6) by (simp_all add: message_started_def with_method_def header_room_def)
    show ?thesis
    proof (cases "j = length (method_strings m')")
      case True
      let ?x3 = "moved 1 (\<lambda>pr. pr\<lparr>p_index := Suc (p_index pr), p_state := s_req_spaces_before_url\<rparr>) ?x2"
      have "exec_loop (settings_of h) data ?x2 = exec_loop (settings_of h) data ?x3"
        using x2 True by (intro run_method_space [OF at2]) simp_all
      also have "\<dots> = Return ?x3 (length data)"
        using assms(7,8) at_moved [of data ?x2 "'' ''" "[]"] at2
        by (intro exec_loop_end) (simp_all add: with_method_def message_started_def)
      finally show ?thesis
        using r1 r2 True p \<open>first_method c = Some m\<close> assms(7)
        by (simp add: method_scan_step [OF _ p] with_method_def message_started_def)
    next
      case False
      with j x2 run_method_space_error [OF at2 x2(1) _ x2(4), of "settings_of h"]
      show ?thesis using r1 r2 p \<open>first_method c = Some m\<close> by (simp add: method_scan_step [OF _ p])
    qed
  qed
qed

text \<open>
  C25: A word in front of the first space of a request is taken for a method exactly when it
  is one of the 27 of \<open>method_strings\<close>, and the parser then holds that method: the matcher
  that switches between candidates letter by letter neither misses a method nor accepts
  another word. Every other word is \<open>HPE_INVALID_METHOD\<close>.
\<close>

theorem execute_method:
  assumes "w \<noteq> []" and "hd w \<noteq> CR" and "hd w \<noteq> LF" and "CHR '' '' \<notin> set w"
    and "length w < HTTP_MAX_HEADER_SIZE" and "h E_message_begin u = Inr (0, v)"
  shows "\<exists>n pr u'. http_parser_execute (settings_of h) (w @ '' '') (http_parser_init HTTP_REQUEST) u =
      Inr (n, pr, u') \<and>
    (if \<exists>m. http_method_str m = w
     then n = Suc (length w) \<and> p_errno pr = HPE_OK \<and> p_state pr = s_req_spaces_before_url \<and>
       http_method_str (p_method pr) = w
     else p_errno pr = HPE_INVALID_METHOD)"
proof -
  let ?x = "start_exec (http_parser_init HTTP_REQUEST) u"
  from assms(1) obtain c cs where w: "w = c # cs" by (cases w) auto
  have "at (w @ '' '') ?x (c # cs @ '' '')" by (simp add: at_def start_exec_init w)
  then obtain y n where y: "exec_loop (settings_of h) (w @ '' '') ?x = Return y n"
    "case method_scan w of
       Some m \<Rightarrow> n = length (w @ '' '') \<and> p_errno (x_parser y) = HPE_OK \<and> p_method (x_parser y) = m \<and>
         p_state (x_parser y) = s_req_spaces_before_url \<and> x_user y = v
     | None \<Rightarrow> p_errno (x_parser y) = HPE_INVALID_METHOD"
    using exec_loop_method [of "w @ '' ''" ?x c cs h v] assms w
    by (auto simp: start_exec_init header_room_def)
  have run: "http_parser_execute (settings_of h) (w @ '' '') (http_parser_init HTTP_REQUEST) u =
      Inr (n, x_parser y, x_user y)"
    using y(1) by (simp add: http_parser_execute_def returned_def start_exec_init)
  show ?thesis
  proof (cases "method_scan w")
    case None
    then have "\<nexists>m. http_method_str m = w"
      using method_scan_complete by (auto simp: http_method_str_def)
    with run y(2) None show ?thesis by auto
  next
    case (Some m)
    then have "http_method_str m = w" using method_scan_sound by (simp add: http_method_str_def)
    with run y(2) Some show ?thesis by auto
  qed
qed

theorem execute_method_witness:
  "\<exists>n pr u'. http_parser_execute (settings_of (\<lambda>_ u. Inr (0, u))) ''PUT '' (http_parser_init HTTP_REQUEST) () =
      Inr (n, pr, u') \<and> p_errno pr = HPE_OK \<and> http_method_str (p_method pr) = ''PUT''"
proof -
  have "\<exists>m. http_method_str m = ''PUT''" by (intro exI [of _ HTTP_PUT]) (simp add: http_method_str_def)
  then show ?thesis
    using execute_method [of "''PUT''" "\<lambda>_ u. Inr (0, u)" "()" "()"] by auto
qed

end
