(* ===== verification/Http_Parser_Headers.thy ===== *)
theory Http_Parser_Headers
  imports Http_Parser_Request
begin

text \<open>
  The rest of a request in \<open>http_parser_execute\<close>: the target, the version, the header
  lines, the end of the headers, and from them the callbacks of a whole request.
\<close>

section \<open>Bytes that only change the parser\<close>

text \<open>
  A piece of the input with, for each byte, the change of the parser: \<open>plain_run\<close> says
  that the code of the states makes just these changes.
\<close>

fun plain_run ::
  "'u http_parser_settings \<Rightarrow> string \<Rightarrow> (char \<times> (http_parser \<Rightarrow> http_parser)) list \<Rightarrow> 'u exec \<Rightarrow> bool"
where
  "plain_run st data [] x \<longleftrightarrow> True"
| "plain_run st data ((c, f) # ps) x \<longleftrightarrow>
     PARSING_HEADER (p_state (x_parser x)) \<and>
     step st data c (counted x) = Next (upd_parser f (counted x)) \<and>
     (\<forall>pr. p_nread (f pr) = p_nread pr) \<and>
     plain_run st data ps (moved 1 f x)"

fun plain_end :: "(char \<times> (http_parser \<Rightarrow> http_parser)) list \<Rightarrow> 'u exec \<Rightarrow> 'u exec" where
  "plain_end [] x = x"
| "plain_end ((c, f) # ps) x = plain_end ps (moved 1 f x)"

lemma run_plain_1:
  assumes "at data x (c # rest)" and "PARSING_HEADER (p_state (x_parser x))" and "header_room x 1"
    and "step st data c (counted x) = Next (upd_parser f (counted x))"
  shows "exec_loop st data x = exec_loop st data (moved 1 f x)"
proof -
  have "advance (upd_parser f (counted x)) = moved 1 f x"
    by (simp add: advance_def upd_parser_def counted_def moved_def)
  then show ?thesis using run_step [OF assms] by (simp only:)
qed

lemma run_plain:
  "plain_run st data ps x \<Longrightarrow> at data x (map fst ps @ rest) \<Longrightarrow> header_room x (length ps) \<Longrightarrow>
   exec_loop st data x = exec_loop st data (plain_end ps x) \<and> at data (plain_end ps x) rest"
proof (induction ps arbitrary: x)
  case Nil
  then show ?case by simp
next
  case (Cons p ps)
  obtain c f where p: "p = (c, f)" by (cases p)
  have "exec_loop st data x = exec_loop st data (moved 1 f x)"
    using Cons.prems p by (intro run_plain_1 [of _ _ c "map fst ps @ rest"]) (simp_all add: header_room_def)
  moreover have "at data (moved 1 f x) (map fst ps @ rest)"
    using Cons.prems p at_moved_1 by simp
  moreover have "header_room (moved 1 f x) (length ps)"
    using Cons.prems p by (simp add: header_room_def)
  ultimately show ?case using Cons.IH [of "moved 1 f x"] Cons.prems p by simp
qed

section \<open>The target\<close>

definition target_ok :: "string \<Rightarrow> bool" where
  "target_ok t \<longleftrightarrow>
     t \<noteq> [] \<and> foldl parse_url_char s_req_spaces_before_url t \<in>
       {s_req_server, s_req_server_with_at, s_req_path, s_req_query_string_start, s_req_query_string,
        s_req_fragment_start, s_req_fragment}"

lemma parse_url_char_dead [simp]: "parse_url_char s_dead c = s_dead"
  by (simp add: parse_url_char_def)

lemma foldl_dead [simp]: "foldl parse_url_char s_dead cs = s_dead"
  by (induction cs) simp_all

lemma parse_url_char_no_space:
  "parse_url_char s c \<noteq> s_dead \<Longrightarrow> c \<noteq> CHR '' '' \<and> c \<noteq> CR \<and> c \<noteq> LF"
  by (auto simp: parse_url_char_def)

lemma url_step:
  assumes "p_state (x_parser x) \<in> url_states" and "parse_url_char (p_state (x_parser x)) c \<noteq> s_dead"
  shows "step st data c x = Next (set_state (parse_url_char (p_state (x_parser x)) c) x)"
proof -
  have "url_char c x = Next (set_state (parse_url_char (p_state (x_parser x)) c) x)"
    using assms(2) by (simp add: url_char_def Let_def)
  then show ?thesis
    using assms(1) parse_url_char_no_space [OF assms(2)]
    unfolding url_states_def by (elim insertE) (simp_all add: step_def in_req_schema_def in_req_url_def)
qed

lemma url_states_header: "s \<in> url_states \<Longrightarrow> PARSING_HEADER s"
  unfolding url_states_def by (elim insertE) (simp_all add: PARSING_HEADER_def)

lemma moved_state_id: "p_state (x_parser x) = s \<Longrightarrow> moved 0 (\<lambda>pr. pr\<lparr>p_state := s\<rparr>) x = x"
  by (cases x; cases "x_parser x") (auto simp: moved_def)

lemma run_url:
  "foldl parse_url_char s cs \<noteq> s_dead \<Longrightarrow> at data x (cs @ rest) \<Longrightarrow> p_state (x_parser x) = s \<Longrightarrow>
   s \<in> url_states \<Longrightarrow> header_room x (length cs) \<Longrightarrow>
   exec_loop st data x =
   exec_loop st data (moved (length cs) (\<lambda>pr. pr\<lparr>p_state := foldl parse_url_char s cs\<rparr>) x)"
proof (induction cs arbitrary: s x)
  case Nil
  then show ?case by (simp add: moved_state_id)
next
  case (Cons c cs)
  let ?s = "parse_url_char s c"
  let ?f = "\<lambda>s pr. pr\<lparr>p_state := s\<rparr>"
  have n: "?s \<noteq> s_dead" using Cons.prems(1) by auto
  have "step st data c (counted x) = Next (upd_parser (?f ?s) (counted x))"
    using url_step [of "counted x" c] Cons.prems n by (simp add: set_state_def upd_parser_def)
  then have "exec_loop st data x = exec_loop st data (moved 1 (?f ?s) x)"
    using Cons.prems by (intro run_plain_1 [of _ _ c "cs @ rest"]) (simp_all add: url_states_header header_room_def)
  also have "\<dots> = exec_loop st data (moved (length cs) (?f (foldl parse_url_char ?s cs)) (moved 1 (?f ?s) x))"
    using Cons.prems n by (intro Cons.IH) (simp_all add: header_room_def parse_url_char_states)
  also have "moved (length cs) (?f (foldl parse_url_char ?s cs)) (moved 1 (?f ?s) x) =
      moved (length (c # cs)) (?f (foldl parse_url_char s (c # cs))) x"
    by (simp add: moved_def)
  finally show ?case .
qed

lemma at_slice:
  "at data x (cs @ rest) \<Longrightarrow> drop (x_p x) (take (x_p x + length cs) data) = cs"
  unfolding at_def by (metis add_diff_cancel_left' append_eq_conv_conj drop_take)

text \<open>The target and the space after it: one callback, with exactly the target.\<close>

lemma run_target:
  assumes "at data x (t @ CHR '' '' # rest)" and "target_ok t"
    and "p_state (x_parser x) = s_req_spaces_before_url" and "p_method (x_parser x) \<noteq> HTTP_CONNECT"
    and "p_errno (x_parser x) = HPE_OK" and "x_mark x = (\<lambda>_. None)" and "header_room x (Suc (length t))"
    and "h (E_url (p_method (x_parser x)) t) (x_user x) = Inr (0, v)"
  shows "exec_loop (settings_of h) data x =
    exec_loop (settings_of h) data ((moved (Suc (length t)) (\<lambda>pr. pr\<lparr>p_state := s_req_http_start\<rparr>) x)\<lparr>x_user := v\<rparr>)"
proof -
  from assms(2) obtain c cs where t: "t = c # cs" by (cases t) (auto simp: target_ok_def)
  let ?st = "settings_of h" and ?s = "parse_url_char s_req_spaces_before_url c"
  let ?e = "foldl parse_url_char s_req_spaces_before_url t"
  let ?f = "\<lambda>s pr. pr\<lparr>p_state := s\<rparr>"
  have e: "?e \<in> {s_req_server, s_req_server_with_at, s_req_path, s_req_query_string_start,
      s_req_query_string, s_req_fragment_start, s_req_fragment}"
    using assms(2) by (simp add: target_ok_def)
  then have ne: "?e \<noteq> s_dead" by auto
  then have n: "?s \<noteq> s_dead" using t by auto
  let ?m = "[cb_url \<mapsto> x_p x]"
  let ?x1 = "(moved 1 (?f ?s) x)\<lparr>x_mark := ?m\<rparr>"
  have "step ?st data c (counted x) = Next (set_state ?s (MARK cb_url (counted x)))"
    using assms(3,4) n parse_url_char_no_space [OF n]
    by (simp add: step_def in_req_spaces_before_url_def url_char_def Let_def)
  then have "exec_loop ?st data x = exec_loop ?st data (advance (set_state ?s (MARK cb_url (counted x))))"
    using assms t by (intro run_step [of _ _ c "cs @ CHR '' '' # rest"]) (simp_all add: PARSING_HEADER_def header_room_def)
  moreover have "advance (set_state ?s (MARK cb_url (counted x))) = ?x1"
    using assms(6) by (simp add: advance_def set_state_def MARK_def counted_def upd_parser_def moved_def)
  ultimately have r1: "exec_loop ?st data x = exec_loop ?st data ?x1" by (simp only:)
  have at1: "at data ?x1 (cs @ CHR '' '' # rest)"
    using at_moved_1 [of data x c "cs @ CHR '' '' # rest" "?f ?s"] assms(1) t by (simp add: at_def)
  let ?x2 = "(moved (length t) (?f ?e) x)\<lparr>x_mark := ?m\<rparr>"
  have "exec_loop ?st data ?x1 = exec_loop ?st data (moved (length cs) (?f (foldl parse_url_char ?s cs)) ?x1)"
    using at1 ne n t assms(7) by (intro run_url) (simp_all add: parse_url_char_states header_room_def)
  moreover have "moved (length cs) (?f (foldl parse_url_char ?s cs)) ?x1 = ?x2"
    using t by (simp add: moved_def)
  ultimately have r2: "exec_loop ?st data ?x1 = exec_loop ?st data ?x2" by (simp only:)
  have at2: "at data ?x2 (CHR '' '' # rest)"
    using at_moved [OF assms(1), of "?f ?e"] by (simp add: at_def)
  let ?z = "(set_state s_req_http_start (counted ?x2))\<lparr>x_user := v, x_mark := (\<lambda>_. None)\<rparr>"
  have slice: "drop (x_p x) (take (x_p x + length t) data) = t" using at_slice [OF assms(1)] .
  have "step ?st data (CHR '' '') (counted ?x2) = in_req_url ?st data (CHR '' '') (counted ?x2)"
    using e by (elim insertE) (simp_all add: step_def)
  moreover have "in_req_url ?st data (CHR '' '') (counted ?x2) = Next ?z"
    using assms(5,8) slice by (simp add: in_req_url_def CALLBACK_DATA_def settings_of_def)
  ultimately have sp: "step ?st data (CHR '' '') (counted ?x2) = Next ?z" by simp
  have "PARSING_HEADER ?e" using e by (elim insertE) (simp_all add: PARSING_HEADER_def)
  then have "exec_loop ?st data ?x2 = exec_loop ?st data (advance ?z)"
    using assms(7) by (intro run_step [OF at2 _ _ sp]) (simp_all add: header_room_def)
  moreover have "advance ?z = (moved (Suc (length t)) (?f s_req_http_start) x)\<lparr>x_user := v\<rparr>"
    using assms(6) by (cases x) (simp add: advance_def set_state_def counted_def upd_parser_def moved_def)
  ultimately show ?thesis using r1 r2 by (simp only:)
qed

section \<open>The version\<close>

definition name_steps :: "(char \<times> (http_parser \<Rightarrow> http_parser)) list" where
  "name_steps =
     [(CHR ''H'', \<lambda>pr. pr\<lparr>p_state := s_req_http_H\<rparr>), (CHR ''T'', \<lambda>pr. pr\<lparr>p_state := s_req_http_HT\<rparr>),
      (CHR ''T'', \<lambda>pr. pr\<lparr>p_state := s_req_http_HTT\<rparr>), (CHR ''P'', \<lambda>pr. pr\<lparr>p_state := s_req_http_HTTP\<rparr>),
      (CHR ''/'', \<lambda>pr. pr\<lparr>p_state := s_req_first_http_major\<rparr>)]"

definition number_steps :: "char \<Rightarrow> (char \<times> (http_parser \<Rightarrow> http_parser)) list" where
  "number_steps d =
     [(CHR ''1'', \<lambda>pr. pr\<lparr>p_http_major := 1, p_state := s_req_http_major\<rparr>),
      (CHR ''.'', \<lambda>pr. pr\<lparr>p_state := s_req_first_http_minor\<rparr>),
      (d, \<lambda>pr. pr\<lparr>p_http_minor := digit_val d, p_state := s_req_http_minor\<rparr>),
      (CR, \<lambda>pr. pr\<lparr>p_state := s_req_line_almost_done\<rparr>), (LF, \<lambda>pr. pr\<lparr>p_state := s_header_field_start\<rparr>)]"

lemma digit_not_CR: "\<not> isdigit CR" "\<not> isdigit LF" "isdigit (CHR ''1'')" "digit_val (CHR ''1'') = 1"
  by (simp_all add: isdigit_def digit_val_def)

definition http_1 :: "char \<Rightarrow> http_parser \<Rightarrow> http_parser" where
  "http_1 d pr = pr\<lparr>p_http_major := 1, p_http_minor := digit_val d, p_state := s_header_field_start\<rparr>"

lemma run_version:
  assumes "at data x (''HTTP/1.'' @ d # CRLF @ rest)" and "isdigit d" and "p_state (x_parser x) = s_req_http_start"
    and "header_room x 10"
  shows "exec_loop st data x = exec_loop st data (moved 10 (http_1 d) x)"
    and "at data (moved 10 (http_1 d) x) rest"
proof -
  let ?y = "moved 5 (\<lambda>pr. pr\<lparr>p_state := s_req_first_http_major\<rparr>) x"
  have p1: "plain_run st data name_steps x"
    using assms(3) by (simp add: name_steps_def step_def in_req_http_start_def expect_def STRICT_CHECK_def
      PARSING_HEADER_def set_state_def upd_parser_def)
  have e1: "plain_end name_steps x = ?y" by (simp add: name_steps_def moved_def)
  have a1: "at data x (map fst name_steps @ ''1.'' @ d # CRLF @ rest)"
    using assms(1) by (simp add: name_steps_def)
  have h1: "header_room x (length name_steps)" using assms(4) by (simp add: name_steps_def header_room_def)
  note r1 = run_plain [OF p1 a1 h1, unfolded e1]
  have p2: "plain_run st data (number_steps d) ?y"
    using assms(2) digit_not_CR
    by (simp add: number_steps_def step_def STRICT_CHECK_def
      in_req_first_http_major_def in_req_http_major_def first_http_minor_def in_req_http_minor_def
      in_req_line_almost_done_def PARSING_HEADER_def set_state_def upd_parser_def)
  have e2: "plain_end (number_steps d) ?y = moved 10 (http_1 d) x"
    by (simp add: number_steps_def moved_def http_1_def)
  have a2: "at data ?y (map fst (number_steps d) @ rest)"
    using r1 by (simp add: number_steps_def)
  have h2: "header_room ?y (length (number_steps d))"
    using assms(4) by (simp add: number_steps_def header_room_def)
  note r2 = run_plain [OF p2 a2 h2, unfolded e2]
  show "exec_loop st data x = exec_loop st data (moved 10 (http_1 d) x)"
    using r1 r2 by (blast intro: trans)
  show "at data (moved 10 (http_1 d) x) rest" using r2 by blast
qed

section \<open>Header names\<close>

text \<open>What the parser should make of a name, in lower case, seen so far.\<close>

definition is_prefix :: "string \<Rightarrow> string \<Rightarrow> bool" where
  "is_prefix w v \<longleftrightarrow> take (length w) v = w"

definition classify :: "string \<Rightarrow> header_states" where
  "classify w =
     (if w = CONNECTION \<or> w = PROXY_CONNECTION then h_connection
      else if w = CONTENT_LENGTH then h_content_length
      else if w = TRANSFER_ENCODING then h_transfer_encoding
      else if w = UPGRADE then h_upgrade
      else if w = ''c'' then h_C
      else if w = ''co'' then h_CO
      else if w = ''con'' then h_CON
      else if is_prefix w CONNECTION then h_matching_connection
      else if is_prefix w CONTENT_LENGTH then h_matching_content_length
      else if is_prefix w PROXY_CONNECTION then h_matching_proxy_connection
      else if is_prefix w TRANSFER_ENCODING then h_matching_transfer_encoding
      else if is_prefix w UPGRADE then h_matching_upgrade
      else h_general)"

text \<open>The parser has read the name \<open>w\<close>; the index matters while a word is being matched.\<close>

definition name_read :: "string \<Rightarrow> http_parser \<Rightarrow> bool" where
  "name_read w pr \<longleftrightarrow> w \<noteq> [] \<and> p_header_state pr = classify w \<and>
     (p_header_state pr \<noteq> h_general \<longrightarrow> Suc (p_index pr) = length w)"

lemma is_prefix_Suc: "is_prefix (w @ [c]) v \<longleftrightarrow> is_prefix w v \<and> length w < length v \<and> v ! length w = c"
proof
  assume a: "is_prefix (w @ [c]) v"
  then obtain u where "v = (w @ [c]) @ u" unfolding is_prefix_def by (metis append_take_drop_id)
  then show "is_prefix w v \<and> length w < length v \<and> v ! length w = c" by (simp add: is_prefix_def)
next
  assume "is_prefix w v \<and> length w < length v \<and> v ! length w = c"
  then show "is_prefix (w @ [c]) v" by (auto simp: is_prefix_def take_Suc_conv_app_nth)
qed

lemma is_prefix_nth: "is_prefix w v \<Longrightarrow> w = take (length w) v"
  by (simp add: is_prefix_def)

lemma classify_general:
  "classify w = h_general \<Longrightarrow> w \<noteq> [] \<Longrightarrow>
   \<not> is_prefix w CONNECTION \<and> \<not> is_prefix w CONTENT_LENGTH \<and> \<not> is_prefix w PROXY_CONNECTION \<and>
   \<not> is_prefix w TRANSFER_ENCODING \<and> \<not> is_prefix w UPGRADE"
  by (simp add: classify_def split: if_split_asm)

lemma general_classify:
  assumes "\<not> is_prefix w CONNECTION" "\<not> is_prefix w CONTENT_LENGTH" "\<not> is_prefix w PROXY_CONNECTION"
    "\<not> is_prefix w TRANSFER_ENCODING" "\<not> is_prefix w UPGRADE"
  shows "classify w = h_general"
proof -
  have "w \<noteq> CONNECTION" "w \<noteq> CONTENT_LENGTH" "w \<noteq> PROXY_CONNECTION" "w \<noteq> TRANSFER_ENCODING" "w \<noteq> UPGRADE"
    "w \<noteq> ''c''" "w \<noteq> ''co''" "w \<noteq> ''con''"
    using assms by (auto simp: is_prefix_def CONNECTION_def)
  with assms show ?thesis by (simp add: classify_def)
qed

text \<open>The header state after one more character, as \<open>field_char\<close> computes it.\<close>

definition match_state :: "string \<Rightarrow> header_states \<Rightarrow> header_states \<Rightarrow> nat \<Rightarrow> char \<Rightarrow> header_states" where
  "match_state word found h i c =
     (if i > length word \<or> c \<noteq> (word @ [NUL]) ! i then h_general
      else if i = length word - 1 then found else h)"

definition next_state :: "header_states \<Rightarrow> nat \<Rightarrow> char \<Rightarrow> header_states" where
  "next_state h i c =
     (case h of
        h_C \<Rightarrow> (if c = CHR ''o'' then h_CO else h_general)
      | h_CO \<Rightarrow> (if c = CHR ''n'' then h_CON else h_general)
      | h_CON \<Rightarrow> (if c = CHR ''n'' then h_matching_connection
                 else if c = CHR ''t'' then h_matching_content_length else h_general)
      | h_matching_connection \<Rightarrow> match_state CONNECTION h_connection h i c
      | h_matching_proxy_connection \<Rightarrow> match_state PROXY_CONNECTION h_connection h i c
      | h_matching_content_length \<Rightarrow> match_state CONTENT_LENGTH h_content_length h i c
      | h_matching_transfer_encoding \<Rightarrow> match_state TRANSFER_ENCODING h_transfer_encoding h i c
      | h_matching_upgrade \<Rightarrow> match_state UPGRADE h_upgrade h i c
      | _ \<Rightarrow> h_general)"

lemmas header_words = CONNECTION_def PROXY_CONNECTION_def CONTENT_LENGTH_def TRANSFER_ENCODING_def UPGRADE_def

definition prefixes_of :: "string \<Rightarrow> string list" where
  "prefixes_of v = map (\<lambda>k. take k v) [1..<Suc (length v)]"

lemma is_prefix_in:
  assumes "is_prefix w v" and "w \<noteq> []"
  shows "w \<in> set (prefixes_of v)"
proof -
  have w: "w = take (length w) v" using assms(1) by (simp add: is_prefix_def)
  then have "length w \<le> length v" by (metis length_take min.cobounded1)
  then have "length w \<in> {1..<Suc (length v)}" using assms(2) by (cases w) auto
  with w show ?thesis unfolding prefixes_of_def set_map set_upt by (rule image_eqI)
qed

lemma classify_next_word:
  assumes "w \<noteq> []"
  shows "is_prefix w UPGRADE \<Longrightarrow> classify (w @ [c]) = next_state (classify w) (length w) c"
    and "is_prefix w CONNECTION \<Longrightarrow> classify (w @ [c]) = next_state (classify w) (length w) c"
    and "is_prefix w CONTENT_LENGTH \<Longrightarrow> classify (w @ [c]) = next_state (classify w) (length w) c"
    and "is_prefix w PROXY_CONNECTION \<Longrightarrow> classify (w @ [c]) = next_state (classify w) (length w) c"
    and "is_prefix w TRANSFER_ENCODING \<Longrightarrow> classify (w @ [c]) = next_state (classify w) (length w) c"
  by (drule is_prefix_in [OF _ assms],
      simp add: prefixes_of_def upt_rec header_words del: upt_Suc,
      elim disjE;
      simp add: classify_def next_state_def match_state_def is_prefix_def header_words)+

lemma classify_next:
  assumes "w \<noteq> []"
  shows "classify (w @ [c]) = next_state (classify w) (length w) c"
proof (cases "classify w = h_general")
  case True
  then have "classify (w @ [c]) = h_general"
    using classify_general [OF True assms] by (intro general_classify) (simp_all add: is_prefix_Suc)
  with True show ?thesis by (simp add: next_state_def)
next
  case False
  then have "is_prefix w CONNECTION \<or> is_prefix w CONTENT_LENGTH \<or> is_prefix w PROXY_CONNECTION \<or>
      is_prefix w TRANSFER_ENCODING \<or> is_prefix w UPGRADE"
    using general_classify by blast
  then show ?thesis using classify_next_word [OF assms] by blast
qed

lemma classify_field_states: "classify w \<in> field_states"
  by (simp add: classify_def field_states_def)

lemma match_next_state:
  "match_next word found c pr =
   pr\<lparr>p_index := Suc (p_index pr), p_header_state := match_state word found (p_header_state pr) (Suc (p_index pr)) c\<rparr>"
  by (simp add: match_next_def match_state_def Let_def)

definition settled :: "header_states \<Rightarrow> bool" where
  "settled h \<longleftrightarrow> h \<in> {h_general, h_connection, h_content_length, h_transfer_encoding, h_upgrade}"

lemma field_char_next:
  assumes "p_header_state pr \<in> field_states" and "ch \<noteq> CHR '' ''"
  shows "field_char ch c pr =
    Some (pr\<lparr>p_index := (if settled (p_header_state pr) then p_index pr else Suc (p_index pr)),
             p_header_state := next_state (p_header_state pr) (Suc (p_index pr)) c\<rparr>)"
proof -
  have s: "pr\<lparr>p_index := p_index pr, p_header_state := h\<rparr> = pr\<lparr>p_header_state := h\<rparr>" for h
    by (cases pr) simp
  have g: "pr\<lparr>p_header_state := h_general\<rparr> = pr" if "p_header_state pr = h_general"
    using that by (cases pr) simp
  show ?thesis
    using assms unfolding field_states_def
    by (elim insertE)
      (simp_all add: field_char_def Let_def match_next_state next_state_def settled_def s g)
qed

lemma settled_next: "settled h \<Longrightarrow> next_state h i c = h_general"
  by (auto simp: settled_def next_state_def)

lemma name_step:
  assumes "name_read w pr" and "ch \<noteq> CHR '' ''"
  shows "\<exists>i. field_char ch c pr = Some (pr\<lparr>p_index := i, p_header_state := classify (w @ [c])\<rparr>) \<and>
    name_read (w @ [c]) (pr\<lparr>p_index := i, p_header_state := classify (w @ [c])\<rparr>)"
proof -
  have w: "w \<noteq> []" "p_header_state pr = classify w"
    "classify w \<noteq> h_general \<Longrightarrow> Suc (p_index pr) = length w"
    using assms(1) by (auto simp: name_read_def)
  have g: "next_state h_general i c = h_general" for i by (simp add: next_state_def)
  have n: "classify (w @ [c]) = next_state (classify w) (Suc (p_index pr)) c"
    using classify_next [OF w(1), of c] w(3) g by (cases "classify w = h_general") simp_all
  let ?i = "if settled (classify w) then p_index pr else Suc (p_index pr)"
  have "field_char ch c pr = Some (pr\<lparr>p_index := ?i, p_header_state := classify (w @ [c])\<rparr>)"
    using field_char_next [of pr ch c] classify_field_states [of w] assms(2) w(2) n by simp
  moreover have "Suc ?i = length (w @ [c])" if "classify (w @ [c]) \<noteq> h_general"
  proof -
    have "\<not> settled (classify w)" using that n settled_next by metis
    then show ?thesis using w(3) by (auto simp: settled_def)
  qed
  ultimately show ?thesis by (intro exI [of _ ?i]) (simp add: name_read_def)
qed

lemma token_char:
  assumes "is_token ch"
  shows "ch \<noteq> CR" "ch \<noteq> LF" "ch \<noteq> CHR '' ''" "ch \<noteq> CHR '':''" "TOKEN ch = tolower ch" "tolower ch \<noteq> NUL"
proof -
  show "ch \<noteq> CR" "ch \<noteq> LF" "ch \<noteq> CHR '' ''" "ch \<noteq> CHR '':''"
    using assms by (auto simp: is_token_def IS_ALPHANUM_def IS_ALPHA_def LOWER_def isdigit_def)
  show "TOKEN ch = tolower ch" using assms by (simp add: TOKEN_def)
  have "ch \<noteq> NUL" using assms by (auto simp: is_token_def IS_ALPHANUM_def IS_ALPHA_def LOWER_def isdigit_def)
  moreover have "ch = NUL" if "tolower ch = NUL"
  proof (cases "65 \<le> (of_char ch :: nat) \<and> (of_char ch :: nat) \<le> 90")
    case True
    have e: "(of_char (char_of (of_char ch + 32 :: nat)) :: nat) = (of_char ch + 32) mod 256" by simp
    have "char_of (of_char ch + 32 :: nat) = NUL" using that True by (simp add: tolower_def Let_def)
    then have "(of_char ch + 32 :: nat) mod 256 = 0" using e by simp
    with True show ?thesis by simp
  next
    case False
    then have "tolower ch = ch" by (auto simp: tolower_def Let_def)
    with that show ?thesis by simp
  qed
  ultimately show "tolower ch \<noteq> NUL" by blast
qed

definition name_ok :: "string \<Rightarrow> bool" where
  "name_ok name \<longleftrightarrow> name \<noteq> [] \<and> (\<forall>c \<in> set name. is_token c)"

definition named :: "nat \<Rightarrow> string \<Rightarrow> http_parser \<Rightarrow> http_parser" where
  "named i w pr = pr\<lparr>p_index := i, p_header_state := classify w\<rparr>"

lemma named_fields [simp]:
  "p_state (named i w pr) = p_state pr" "p_nread (named i w pr) = p_nread pr"
  by (simp_all add: named_def)

lemma classify_1:
  "classify [c] =
     (if c = CHR ''c'' then h_C else if c = CHR ''p'' then h_matching_proxy_connection
      else if c = CHR ''t'' then h_matching_transfer_encoding
      else if c = CHR ''u'' then h_matching_upgrade else h_general)"
  by (simp add: classify_def is_prefix_def header_words)

lemma moved_named_0: "name_read w (x_parser x) \<Longrightarrow> moved 0 (named (p_index (x_parser x)) w) x = x"
  by (cases x; cases "x_parser x") (auto simp: moved_def named_def name_read_def)

lemma run_name_chars:
  "\<forall>c \<in> set cs. is_token c \<Longrightarrow> at data x (cs @ rest) \<Longrightarrow> p_state (x_parser x) = s_header_field \<Longrightarrow>
   name_read w (x_parser x) \<Longrightarrow> header_room x (length cs) \<Longrightarrow>
   \<exists>i. exec_loop st data x = exec_loop st data (moved (length cs) (named i (w @ map tolower cs)) x)"
proof (induction cs arbitrary: w x)
  case Nil
  then show ?case using moved_named_0 [of w x] by (intro exI [of _ "p_index (x_parser x)"]) simp
next
  case (Cons c cs)
  have t: "TOKEN c = tolower c" "tolower c \<noteq> NUL" "c \<noteq> CHR '' ''"
    using Cons.prems(1) token_char [of c] by auto
  have r: "name_read w (x_parser (counted x))" using Cons.prems(4) by (simp add: name_read_def)
  obtain i where i: "field_char c (tolower c) (x_parser (counted x)) =
      Some (named i (w @ [tolower c]) (x_parser (counted x)))"
    "name_read (w @ [tolower c]) (named i (w @ [tolower c]) (x_parser (counted x)))"
    using name_step [OF r t(3), of "tolower c"] unfolding named_def by metis
  let ?f = "named i (w @ [tolower c])"
  have "step st data c (counted x) = Next (upd_parser ?f (counted x))"
    using i(1) t Cons.prems(3) by (simp add: step_def in_header_field_def Let_def upd_parser_def)
  then have "exec_loop st data x = exec_loop st data (moved 1 ?f x)"
    using Cons.prems by (intro run_plain_1 [of _ _ c "cs @ rest"]) (simp_all add: PARSING_HEADER_def header_room_def)
  moreover have "at data (moved 1 ?f x) (cs @ rest)"
    using Cons.prems(2) at_moved [of data x "[c]"] by simp
  moreover have "name_read (w @ [tolower c]) (x_parser (moved 1 ?f x))" using i(2) by (simp add: name_read_def named_def)
  ultimately obtain j where "exec_loop st data x = exec_loop st data
      (moved (length cs) (named j ((w @ [tolower c]) @ map tolower cs)) (moved 1 ?f x))"
    using Cons.IH [of "moved 1 ?f x" "w @ [tolower c]"] Cons.prems
    by (auto simp: header_room_def)
  moreover have "moved (length cs) (named j ((w @ [tolower c]) @ map tolower cs)) (moved 1 ?f x) =
      moved (length (c # cs)) (named j (w @ map tolower (c # cs))) x"
    by (simp add: moved_def named_def)
  ultimately show ?case by auto
qed

text \<open>The name and the colon: one callback with the name, and the name is recognised.\<close>

definition to_value :: "nat \<Rightarrow> string \<Rightarrow> http_parser \<Rightarrow> http_parser" where
  "to_value i name pr =
     pr\<lparr>p_index := i, p_header_state := classify (map tolower name), p_state := s_header_value_discard_ws\<rparr>"

lemma run_name:
  assumes "at data x (name @ CHR '':'' # rest)" and "name_ok name"
    and "p_state (x_parser x) = s_header_field_start" and "p_errno (x_parser x) = HPE_OK"
    and "x_mark x = (\<lambda>_. None)" and "header_room x (Suc (length name))"
    and "h (E_header_field (p_http_major (x_parser x)) (p_http_minor (x_parser x)) name) (x_user x) = Inr (0, v)"
  shows "\<exists>i. exec_loop (settings_of h) data x =
    exec_loop (settings_of h) data ((moved (Suc (length name)) (to_value i name) x)\<lparr>x_user := v\<rparr>)"
proof -
  from assms(2) obtain c cs where n: "name = c # cs" by (cases name) (auto simp: name_ok_def)
  have tok: "is_token c" "\<forall>c \<in> set cs. is_token c" using assms(2) n by (auto simp: name_ok_def)
  note t = token_char [OF tok(1)]
  let ?st = "settings_of h" and ?m = "[cb_header_field \<mapsto> x_p x]"
  let ?f = "\<lambda>pr. pr\<lparr>p_index := 0, p_header_state := classify [tolower c], p_state := s_header_field\<rparr>"
  let ?x1 = "(moved 1 ?f x)\<lparr>x_mark := ?m\<rparr>"
  let ?z1 = "set_header_state (classify [tolower c]) (set_state s_header_field
    (upd_parser (\<lambda>pr. pr\<lparr>p_index := 0\<rparr>) (MARK cb_header_field (counted x))))"
  have "step ?st data c (counted x) = Next ?z1"
    using assms(3) t by (simp add: step_def in_header_field_start_def classify_1)
  then have "exec_loop ?st data x = exec_loop ?st data (advance ?z1)"
    using assms n by (intro run_step [of _ _ c "cs @ CHR '':'' # rest"]) (simp_all add: PARSING_HEADER_def header_room_def)
  moreover have "advance ?z1 = ?x1"
    using assms(5) by (simp add: advance_def set_state_def set_header_state_def MARK_def counted_def upd_parser_def moved_def)
  ultimately have r1: "exec_loop ?st data x = exec_loop ?st data ?x1" by (simp only:)
  have at1: "at data ?x1 (cs @ CHR '':'' # rest)"
    using at_moved_1 [of data x c "cs @ CHR '':'' # rest" ?f] assms(1) n by (simp add: at_def)
  have "name_read [tolower c] (x_parser ?x1)" by (simp add: name_read_def)
  then obtain i where i: "exec_loop ?st data ?x1 =
      exec_loop ?st data (moved (length cs) (named i ([tolower c] @ map tolower cs)) ?x1)"
    using run_name_chars [OF tok(2) at1, of "[tolower c]" ?st] assms(6) n by (auto simp: header_room_def)
  let ?g = "\<lambda>pr. pr\<lparr>p_index := i, p_header_state := classify (map tolower name), p_state := s_header_field\<rparr>"
  let ?x2 = "(moved (length name) ?g x)\<lparr>x_mark := ?m\<rparr>"
  have "moved (length cs) (named i ([tolower c] @ map tolower cs)) ?x1 = ?x2"
    using n by (simp add: moved_def named_def)
  with i have r2: "exec_loop ?st data ?x1 = exec_loop ?st data ?x2" by (simp only:)
  have at2: "at data ?x2 (CHR '':'' # rest)" using at_moved [OF assms(1), of ?g] by (simp add: at_def)
  let ?z = "(set_state s_header_value_discard_ws (counted ?x2))\<lparr>x_user := v, x_mark := (\<lambda>_. None)\<rparr>"
  have slice: "drop (x_p x) (take (x_p x + length name) data) = name" using at_slice [OF assms(1)] .
  have colon: "TOKEN (CHR '':'') = NUL"
    by (simp add: TOKEN_def is_token_def IS_ALPHANUM_def IS_ALPHA_def LOWER_def isdigit_def)
  have sp: "step ?st data (CHR '':'') (counted ?x2) = Next ?z"
    using assms(4,7) slice
    by (simp add: step_def in_header_field_def colon Let_def CALLBACK_DATA_def settings_of_def)
  have "exec_loop ?st data ?x2 = exec_loop ?st data (advance ?z)"
    using assms(6) by (intro run_step [OF at2 _ _ sp]) (simp_all add: PARSING_HEADER_def header_room_def)
  moreover have "advance ?z = (moved (Suc (length name)) (to_value i name) x)\<lparr>x_user := v\<rparr>"
    using assms(5) by (cases x) (simp add: advance_def set_state_def counted_def upd_parser_def moved_def to_value_def)
  ultimately show ?thesis using r1 r2 by (intro exI [of _ i]) (simp only:)
qed

section \<open>Header values\<close>

definition value_ok :: "string \<Rightarrow> bool" where
  "value_ok v \<longleftrightarrow> v \<noteq> [] \<and> hd v \<noteq> CHR '' '' \<and> hd v \<noteq> HTAB \<and> CR \<notin> set v \<and> LF \<notin> set v"

text \<open>The states of a value that says nothing of the body.\<close>

definition value_states :: "header_states set" where
  "value_states =
     {h_general, h_matching_connection_keep_alive, h_matching_connection_close,
      h_connection_keep_alive, h_connection_close}"

definition bodyless_name :: "header_states \<Rightarrow> bool" where
  "bodyless_name h \<longleftrightarrow> h \<noteq> h_content_length \<and> h \<noteq> h_transfer_encoding \<and> h \<noteq> h_upgrade"

definition valued :: "nat \<Rightarrow> header_states \<Rightarrow> http_parser \<Rightarrow> http_parser" where
  "valued i h pr = pr\<lparr>p_index := i, p_header_state := h\<rparr>"

lemma valued_fields [simp]:
  "p_state (valued i h pr) = p_state pr" "p_nread (valued i h pr) = p_nread pr"
  "p_header_state (valued i h pr) = h" "p_errno (valued i h pr) = p_errno pr"
  by (simp_all add: valued_def)

lemma value_char_step:
  assumes "p_header_state (x_parser x) \<in> value_states"
  shows "\<exists>i h. h \<in> value_states \<and> (p_header_state (x_parser x) = h_general \<longrightarrow> h = h_general) \<and>
    value_char ch x = Next (upd_parser (valued i h) x)"
proof -
  have id: "x = upd_parser (valued (p_index (x_parser x)) (p_header_state (x_parser x))) x"
    by (cases x; cases "x_parser x") (auto simp: upd_parser_def valued_def)
  have g: "set_header_state h x = upd_parser (valued (p_index (x_parser x)) h) x" for h
    by (cases x; cases "x_parser x") (auto simp: upd_parser_def valued_def set_header_state_def)
  have m: "upd_parser (match_next word found c) x =
      upd_parser (valued (Suc (p_index (x_parser x)))
        (match_state word found (p_header_state (x_parser x)) (Suc (p_index (x_parser x))) c)) x" for word found c
    by (simp add: upd_parser_def match_next_state valued_def)
  have ms: "match_state word found h i c \<in> value_states" if "found \<in> value_states" "h \<in> value_states" for word found h i c
    using that by (simp add: match_state_def) (simp add: value_states_def)
  consider "p_header_state (x_parser x) = h_general" | "p_header_state (x_parser x) = h_matching_connection_keep_alive"
    | "p_header_state (x_parser x) = h_matching_connection_close"
    | "p_header_state (x_parser x) \<in> {h_connection_keep_alive, h_connection_close}"
    using assms by (auto simp: value_states_def)
  then show ?thesis
  proof cases
    case 1
    then have "value_char ch x = Next (upd_parser (valued (p_index (x_parser x)) h_general) x)"
      using id by (simp add: value_char_def Let_def)
    then show ?thesis using 1 assms by auto
  next
    case 2
    have not_general: "p_header_state (x_parser x) \<noteq> h_general" using 2 by simp
    have "value_char ch x = Next (upd_parser (match_next KEEP_ALIVE h_connection_keep_alive (LOWER ch)) x)"
      using 2 by (simp add: value_char_def Let_def)
    moreover have "h_connection_keep_alive \<in> value_states" by (simp add: value_states_def)
    ultimately show ?thesis using ms [OF _ assms] not_general unfolding m by blast
  next
    case 3
    have not_general: "p_header_state (x_parser x) \<noteq> h_general" using 3 by simp
    have "value_char ch x = Next (upd_parser (match_next CLOSE h_connection_close (LOWER ch)) x)"
      using 3 by (simp add: value_char_def Let_def)
    moreover have "h_connection_close \<in> value_states" by (simp add: value_states_def)
    ultimately show ?thesis using ms [OF _ assms] not_general unfolding m by blast
  next
    case 4
    then have "value_char ch x = Next (if ch \<noteq> CHR '' '' then set_header_state h_general x else x)"
      by (auto simp: value_char_def Let_def)
    then show ?thesis
      using id g [of h_general] assms by (cases "ch = CHR '' ''") (auto simp: value_states_def)
  qed
qed

lemma moved_valued_0: "moved 0 (valued (p_index (x_parser x)) (p_header_state (x_parser x))) x = x"
  by (cases x; cases "x_parser x") (auto simp: moved_def valued_def)

lemma run_value_chars:
  "CR \<notin> set cs \<Longrightarrow> LF \<notin> set cs \<Longrightarrow> at data x (cs @ rest) \<Longrightarrow> p_state (x_parser x) = s_header_value \<Longrightarrow>
   p_header_state (x_parser x) \<in> value_states \<Longrightarrow> header_room x (length cs) \<Longrightarrow>
   \<exists>i h. h \<in> value_states \<and> (p_header_state (x_parser x) = h_general \<longrightarrow> h = h_general) \<and>
     exec_loop st data x = exec_loop st data (moved (length cs) (valued i h) x)"
proof (induction cs arbitrary: x)
  case Nil
  then show ?case using moved_valued_0 [of x] by (metis list.size(3))
next
  case (Cons c cs)
  obtain i h where ih: "h \<in> value_states" "value_char c (counted x) = Next (upd_parser (valued i h) (counted x))"
    "p_header_state (x_parser x) = h_general \<longrightarrow> h = h_general"
    using value_char_step [of "counted x" c] Cons.prems(5) by auto
  then have "step st data c (counted x) = Next (upd_parser (valued i h) (counted x))"
    using Cons.prems by (auto simp: step_def in_header_value_def)
  then have "exec_loop st data x = exec_loop st data (moved 1 (valued i h) x)"
    using Cons.prems by (intro run_plain_1 [of _ _ c "cs @ rest"]) (simp_all add: PARSING_HEADER_def header_room_def)
  moreover have "at data (moved 1 (valued i h) x) (cs @ rest)"
    using Cons.prems(3) at_moved [of data x "[c]"] by simp
  ultimately obtain j k where "k \<in> value_states" "exec_loop st data x = exec_loop st data
      (moved (length cs) (valued j k) (moved 1 (valued i h) x))" "h = h_general \<longrightarrow> k = h_general"
    using Cons.IH [of "moved 1 (valued i h) x"] Cons.prems ih(1) by (auto simp: header_room_def)
  moreover have "moved (length cs) (valued j k) (moved 1 (valued i h) x) = moved (length (c # cs)) (valued j k) x"
    by (simp add: moved_def valued_def)
  ultimately show ?case using ih(3) by auto
qed

definition to_lws :: "nat \<Rightarrow> header_states \<Rightarrow> http_parser \<Rightarrow> http_parser" where
  "to_lws i h pr = pr\<lparr>p_index := i, p_header_state := h, p_state := s_header_value_lws\<rparr>"

text \<open>A space, the value and the end of the line: one callback with exactly the value.\<close>

lemma run_value:
  assumes "at data x (CHR '' '' # v @ CRLF @ rest)" and "value_ok v"
    and "p_state (x_parser x) = s_header_value_discard_ws" and "bodyless_name (p_header_state (x_parser x))"
    and "p_errno (x_parser x) = HPE_OK" and "x_mark x = (\<lambda>_. None)" and "header_room x (length v + 3)"
    and "h (E_header_value v) (x_user x) = Inr (0, w)"
  shows "\<exists>i k. k \<in> value_states \<and>
    (p_header_state (x_parser x) \<noteq> h_connection \<longrightarrow> k = h_general) \<and> exec_loop (settings_of h) data x =
    exec_loop (settings_of h) data ((moved (length v + 3) (to_lws i k) x)\<lparr>x_user := w\<rparr>)"
proof -
  from assms(2) obtain c cs where v: "v = c # cs" by (cases v) (auto simp: value_ok_def)
  have c: "c \<noteq> CHR '' ''" "c \<noteq> HTAB" "c \<noteq> CR" "c \<noteq> LF" "CR \<notin> set cs" "LF \<notin> set cs"
    using assms(2) v by (auto simp: value_ok_def)
  let ?st = "settings_of h"
  let ?x0 = "moved 1 (\<lambda>pr. pr) x"
  have "step ?st data (CHR '' '') (counted x) = Next (upd_parser (\<lambda>pr. pr) (counted x))"
    using assms(3) by (simp add: step_def in_header_value_discard_ws_def upd_parser_def)
  then have r0: "exec_loop ?st data x = exec_loop ?st data ?x0"
    using assms by (intro run_plain_1 [of _ _ "CHR '' ''" "v @ CRLF @ rest"]) (simp_all add: PARSING_HEADER_def header_room_def)
  have at0: "at data ?x0 (v @ CRLF @ rest)" using at_moved_1 [OF assms(1)] by simp
  let ?m = "[cb_header_value \<mapsto> x_p ?x0]"
  let ?k = "if p_header_state (x_parser x) = h_connection then
      (if LOWER c = CHR ''k'' then h_matching_connection_keep_alive
       else if LOWER c = CHR ''c'' then h_matching_connection_close else h_general) else h_general"
  let ?z1 = "set_header_state ?k (set_state s_header_value
    (upd_parser (\<lambda>pr. pr\<lparr>p_index := 0\<rparr>) (MARK cb_header_value (counted ?x0))))"
  have "in_header_value_start c (counted ?x0) = Next ?z1"
    using assms(4) by (cases "p_header_state (x_parser x)")
      (simp_all add: in_header_value_start_def Let_def bodyless_name_def)
  then have "step ?st data c (counted ?x0) = Next ?z1"
    using assms(3) c by (simp add: step_def in_header_value_discard_ws_def)
  then have "exec_loop ?st data ?x0 = exec_loop ?st data (advance ?z1)"
    using assms at0 v by (intro run_step [of _ _ c "cs @ CRLF @ rest"]) (simp_all add: PARSING_HEADER_def header_room_def)
  moreover let ?f = "\<lambda>pr. pr\<lparr>p_index := 0, p_header_state := ?k, p_state := s_header_value\<rparr>"
  let ?x1 = "(moved 2 ?f x)\<lparr>x_mark := ?m\<rparr>"
  have "advance ?z1 = ?x1"
    using assms(6) by (simp add: advance_def set_state_def set_header_state_def MARK_def counted_def upd_parser_def moved_def)
  ultimately have r1: "exec_loop ?st data ?x0 = exec_loop ?st data ?x1" by (simp only:)
  have "at data (moved 1 (\<lambda>pr. pr) ?x0) (cs @ CRLF @ rest)" using at0 v at_moved_1 by simp
  then have at1: "at data ?x1 (cs @ CRLF @ rest)" by (simp add: at_def)
  have kv: "p_header_state (x_parser ?x1) \<in> value_states" by (simp add: value_states_def)
  obtain i k where ik: "k \<in> value_states"
      "exec_loop ?st data ?x1 = exec_loop ?st data (moved (length cs) (valued i k) ?x1)"
      "p_header_state (x_parser ?x1) = h_general \<longrightarrow> k = h_general"
    using run_value_chars [OF c(5,6) at1 _ kv, of ?st] assms(7) v by (auto simp: header_room_def)
  let ?g = "\<lambda>pr. pr\<lparr>p_index := i, p_header_state := k, p_state := s_header_value\<rparr>"
  let ?x2 = "(moved (Suc (length v)) ?g x)\<lparr>x_mark := ?m\<rparr>"
  have "moved (length cs) (valued i k) ?x1 = ?x2" using v by (simp add: moved_def valued_def)
  with ik(2) have r2: "exec_loop ?st data ?x1 = exec_loop ?st data ?x2" by (simp only:)
  have "at data (moved (length v) (\<lambda>pr. pr) ?x0) (CRLF @ rest)" using at_moved [OF at0] .
  then have at2: "at data ?x2 (CR # LF # rest)" by (simp add: at_def)
  let ?z = "(set_state s_header_almost_done (counted ?x2))\<lparr>x_user := w, x_mark := (\<lambda>_. None)\<rparr>"
  have slice: "drop (x_p ?x0) (take (x_p ?x0 + length v) data) = v" using at_slice [OF at0] .
  have sp: "step ?st data CR (counted ?x2) = Next ?z"
    using assms(5,8) slice
    by (simp add: step_def in_header_value_def CALLBACK_DATA_def settings_of_def)
  have "exec_loop ?st data ?x2 = exec_loop ?st data (advance ?z)"
    using assms(7) by (intro run_step [OF at2 _ _ sp]) (simp_all add: PARSING_HEADER_def header_room_def)
  moreover let ?g3 = "\<lambda>pr. pr\<lparr>p_index := i, p_header_state := k, p_state := s_header_almost_done\<rparr>"
  let ?x3 = "(moved (length v + 2) ?g3 x)\<lparr>x_user := w\<rparr>"
  have "advance ?z = ?x3"
    using assms(6) by (cases x) (simp add: advance_def set_state_def counted_def upd_parser_def moved_def)
  ultimately have r3: "exec_loop ?st data ?x2 = exec_loop ?st data ?x3" by (simp only:)
  have "at data (moved 1 (\<lambda>pr. pr) ?x2) (LF # rest)" using at_moved_1 [OF at2] by simp
  then have at3: "at data ?x3 (LF # rest)" by (simp add: at_def)
  let ?s = "\<lambda>pr. pr\<lparr>p_state := s_header_value_lws\<rparr>"
  have "step ?st data LF (counted ?x3) = Next (upd_parser ?s (counted ?x3))"
    by (simp add: step_def expect_def STRICT_CHECK_def set_state_def upd_parser_def)
  then have "exec_loop ?st data ?x3 = exec_loop ?st data (moved 1 ?s ?x3)"
    using at3 assms(7) by (intro run_plain_1 [of _ _ LF rest]) (simp_all add: PARSING_HEADER_def header_room_def)
  moreover have "moved 1 ?s ?x3 = (moved (length v + 3) (to_lws i k) x)\<lparr>x_user := w\<rparr>"
    by (simp add: moved_def to_lws_def)
  moreover have "p_header_state (x_parser x) \<noteq> h_connection \<longrightarrow> k = h_general" using ik(3) by simp
  ultimately show ?thesis using ik(1) r0 r1 r2 r3 by (intro exI [of _ i] exI [of _ k]) (simp only: simp_thms)
qed

section \<open>Header lines\<close>

definition lws_flags :: "header_states \<Rightarrow> flag set \<Rightarrow> flag set" where
  "lws_flags k fl =
     (if k = h_connection_keep_alive then insert F_CONNECTION_KEEP_ALIVE fl
      else if k = h_connection_close then insert F_CONNECTION_CLOSE fl else fl)"

definition next_line :: "http_parser \<Rightarrow> http_parser" where
  "next_line pr = pr\<lparr>p_flags := lws_flags (p_header_state pr) (p_flags pr), p_state := s_header_field_start\<rparr>"

lemma run_lws:
  assumes "at data x (c # rest)" and "c \<noteq> CHR '' ''" and "c \<noteq> HTAB" and "header_room x 1"
    and "p_state (x_parser x) = s_header_value_lws" and "p_header_state (x_parser x) \<in> value_states"
  shows "exec_loop st data x = exec_loop st data (upd_parser next_line x)"
proof -
  let ?y = "upd_parser next_line x"
  have f: "upd_parser (\<lambda>pr. pr) x = x" by (simp add: upd_parser_def)
  have "step st data c (counted x) = Again (counted ?y)"
    using assms(2,3,5,6) unfolding value_states_def
    by (elim insertE) (simp_all add: step_def in_header_value_lws_def Let_def counted_def upd_parser_def
      set_state_def next_line_def lws_flags_def)
  then have e: "exec_byte st data c (counted x) = exec_byte st data c (counted ?y)" by (rule exec_byte_again)
  have "count_byte x = counted x" "count_byte ?y = counted ?y"
    using assms(5) by (simp_all add: count_byte_def counted_def PARSING_HEADER_def next_line_def)
  moreover have "\<not> header_overflow (counted x)" "\<not> header_overflow (counted ?y)"
    using assms(4) by (simp_all add: header_overflow_def header_room_def next_line_def)
  ultimately show ?thesis
    using at_nth [OF assms(1)] e
    by (simp add: exec_loop.simps [of st data x] exec_loop.simps [of st data ?y] Let_def)
qed

type_synonym header_line = "string \<times> string"

fun header_text :: "header_line \<Rightarrow> string" where
  "header_text (n, v) = n @ '': '' @ v @ CRLF"

fun header_ok :: "header_line \<Rightarrow> bool" where
  "header_ok (n, v) \<longleftrightarrow> name_ok n \<and> value_ok v \<and> bodyless_name (classify (map tolower n))"

fun header_events :: "nat \<Rightarrow> nat \<Rightarrow> header_line \<Rightarrow> event list" where
  "header_events major minor (n, v) = [E_header_field major minor n, E_header_value v]"

text \<open>What the header lines of a bodyless request leave alone.\<close>

definition same_message :: "http_parser \<Rightarrow> http_parser \<Rightarrow> bool" where
  "same_message pr pr' \<longleftrightarrow>
     p_type pr' = p_type pr \<and> p_content_length pr' = p_content_length pr \<and>
     p_http_major pr' = p_http_major pr \<and> p_http_minor pr' = p_http_minor pr \<and>
     p_method pr' = p_method pr \<and> p_errno pr' = p_errno pr \<and>
     p_flags pr' - {F_CONNECTION_KEEP_ALIVE, F_CONNECTION_CLOSE} = p_flags pr - {F_CONNECTION_KEEP_ALIVE, F_CONNECTION_CLOSE}"

lemma same_message_trans: "same_message a b \<Longrightarrow> same_message b c \<Longrightarrow> same_message a c"
  by (simp add: same_message_def)

lemma run_header:
  assumes "at data x (header_text nv @ c # rest)" and "header_ok nv" and "c \<noteq> CHR '' ''" and "c \<noteq> HTAB"
    and "p_state (x_parser x) = s_header_field_start" and "p_errno (x_parser x) = HPE_OK"
    and "x_mark x = (\<lambda>_. None)" and "header_room x (Suc (length (header_text nv)))"
    and "handles h (header_events (p_http_major (x_parser x)) (p_http_minor (x_parser x)) nv) (x_user x) v"
  shows "\<exists>y. exec_loop (settings_of h) data x = exec_loop (settings_of h) data y \<and> at data y (c # rest) \<and>
    p_state (x_parser y) = s_header_field_start \<and> x_mark y = (\<lambda>_. None) \<and> x_user y = v \<and>
    p_nread (x_parser y) = p_nread (x_parser x) + length (header_text nv) \<and>
    same_message (x_parser x) (x_parser y) \<and>
    (classify (map tolower (fst nv)) \<noteq> h_connection \<longrightarrow> p_flags (x_parser y) = p_flags (x_parser x))"
proof -
  obtain n val where nv: "nv = (n, val)" by (cases nv)
  let ?st = "settings_of h"
  obtain w where w: "h (E_header_field (p_http_major (x_parser x)) (p_http_minor (x_parser x)) n) (x_user x) = Inr (0, w)"
    "h (E_header_value val) w = Inr (0, v)"
    using assms(9) nv by (auto simp: handles_Cons)
  have at: "at data x (n @ CHR '':'' # CHR '' '' # val @ CRLF @ c # rest)" using assms(1) nv by simp
  have ok: "name_ok n" "value_ok val" "bodyless_name (classify (map tolower n))" using assms(2) nv by simp_all
  obtain i where i: "exec_loop ?st data x =
      exec_loop ?st data ((moved (Suc (length n)) (to_value i n) x)\<lparr>x_user := w\<rparr>)"
    using run_name [of data x n "CHR '' '' # val @ CRLF @ c # rest" h w] at ok(1) assms(5-8) w(1) nv
    by (auto simp: header_room_def)
  let ?x1 = "(moved (Suc (length n)) (to_value i n) x)\<lparr>x_user := w\<rparr>"
  have "at data (moved (length (n @ '':'')) (to_value i n) x) (CHR '' '' # val @ CRLF @ c # rest)"
    using at by (intro at_moved) simp
  then have at1: "at data ?x1 (CHR '' '' # val @ CRLF @ c # rest)" by (simp add: at_def)
  have h1: "p_state (x_parser ?x1) = s_header_value_discard_ws"
    "bodyless_name (p_header_state (x_parser ?x1))" "p_errno (x_parser ?x1) = HPE_OK"
    "x_mark ?x1 = (\<lambda>_. None)" "header_room ?x1 (length val + 3)" "h (E_header_value val) (x_user ?x1) = Inr (0, v)"
    using ok(3) assms(6-8) w(2) nv by (simp_all add: to_value_def header_room_def)
  obtain j k where jk: "k \<in> value_states" "exec_loop ?st data ?x1 =
      exec_loop ?st data ((moved (length val + 3) (to_lws j k) ?x1)\<lparr>x_user := v\<rparr>)"
      "p_header_state (x_parser ?x1) \<noteq> h_connection \<longrightarrow> k = h_general"
    using run_value [of data ?x1 val "c # rest" h v, OF at1 ok(2) h1] by blast
  let ?x2 = "(moved (length val + 3) (to_lws j k) ?x1)\<lparr>x_user := v\<rparr>"
  have "at data (moved (length ('' '' @ val @ CRLF)) (to_lws j k) ?x1) (c # rest)"
    using at1 by (intro at_moved) simp
  then have at2: "at data ?x2 (c # rest)" by (simp add: at_def eval_nat_numeral ac_simps)
  let ?y = "upd_parser next_line ?x2"
  have "exec_loop ?st data ?x2 = exec_loop ?st data ?y"
    using assms(3,4,8) jk(1) nv
    by (intro run_lws [OF at2]) (simp_all add: to_lws_def to_value_def header_room_def)
  moreover have "at data ?y (c # rest)" using at2 by (simp add: at_def)
  moreover have "p_state (x_parser ?y) = s_header_field_start" "x_mark ?y = (\<lambda>_. None)" "x_user ?y = v"
    "p_nread (x_parser ?y) = p_nread (x_parser x) + length (header_text nv)"
    using assms(7) nv by (simp_all add: next_line_def to_lws_def to_value_def)
  moreover have "same_message (x_parser x) (x_parser ?y)"
    by (auto simp: same_message_def next_line_def lws_flags_def to_lws_def to_value_def)
  moreover have "classify (map tolower (fst nv)) \<noteq> h_connection \<longrightarrow> p_flags (x_parser ?y) = p_flags (x_parser x)"
    using jk(3) nv by (simp add: next_line_def lws_flags_def to_lws_def to_value_def)
  ultimately show ?thesis using i jk(2) by (intro exI [of _ ?y]) (simp only: simp_thms)
qed

lemma header_text_hd: "header_ok nv \<Longrightarrow> \<exists>c cs. header_text nv = c # cs \<and> c \<noteq> CHR '' '' \<and> c \<noteq> HTAB"
proof -
  assume ok: "header_ok nv"
  obtain n v where nv: "nv = (n, v)" by (cases nv)
  with ok obtain c cs where "n = c # cs" "is_token c" by (cases n) (auto simp: name_ok_def)
  moreover from this have "c \<noteq> HTAB"
    by (auto simp: is_token_def IS_ALPHANUM_def IS_ALPHA_def LOWER_def isdigit_def)
  ultimately show ?thesis using nv token_char(3) [of c] by auto
qed

lemma run_headers:
  "\<forall>nv \<in> set hs. header_ok nv \<Longrightarrow> at data x (concat (map header_text hs) @ CRLF @ rest) \<Longrightarrow>
   p_state (x_parser x) = s_header_field_start \<Longrightarrow> p_errno (x_parser x) = HPE_OK \<Longrightarrow>
   x_mark x = (\<lambda>_. None) \<Longrightarrow> header_room x (Suc (length (concat (map header_text hs)))) \<Longrightarrow>
   handles h (concat (map (header_events (p_http_major (x_parser x)) (p_http_minor (x_parser x))) hs)) (x_user x) v \<Longrightarrow>
   \<exists>y. exec_loop (settings_of h) data x = exec_loop (settings_of h) data y \<and> at data y (CRLF @ rest) \<and>
     p_state (x_parser y) = s_header_field_start \<and> x_mark y = (\<lambda>_. None) \<and> x_user y = v \<and>
     p_nread (x_parser y) = p_nread (x_parser x) + length (concat (map header_text hs)) \<and>
     same_message (x_parser x) (x_parser y) \<and>
     ((\<forall>nv \<in> set hs. classify (map tolower (fst nv)) \<noteq> h_connection) \<longrightarrow>
       p_flags (x_parser y) = p_flags (x_parser x))"
proof (induction hs arbitrary: x)
  case Nil
  then show ?case by (intro exI [of _ x]) (simp add: same_message_def)
next
  case (Cons nv hs)
  obtain w where w: "handles h (header_events (p_http_major (x_parser x)) (p_http_minor (x_parser x)) nv) (x_user x) w"
    "handles h (concat (map (header_events (p_http_major (x_parser x)) (p_http_minor (x_parser x))) hs)) w v"
    using Cons.prems(7) by (auto simp: handles_append)
  have "\<exists>c cs. concat (map header_text hs) @ CRLF @ rest = c # cs \<and> c \<noteq> CHR '' '' \<and> c \<noteq> HTAB"
  proof (cases hs)
    case (Cons a as)
    with Cons.prems(1) obtain c cs where "header_text a = c # cs" "c \<noteq> CHR '' ''" "c \<noteq> HTAB"
      using header_text_hd [of a] by auto
    with Cons show ?thesis by simp
  qed simp
  then obtain c cs where c: "concat (map header_text hs) @ CRLF @ rest = c # cs" "c \<noteq> CHR '' ''" "c \<noteq> HTAB" by blast
  have "at data x (header_text nv @ c # cs)" using Cons.prems(2) c(1) by simp
  then obtain y where y: "exec_loop (settings_of h) data x = exec_loop (settings_of h) data y" "at data y (c # cs)"
    "p_state (x_parser y) = s_header_field_start" "x_mark y = (\<lambda>_. None)" "x_user y = w"
    "p_nread (x_parser y) = p_nread (x_parser x) + length (header_text nv)" "same_message (x_parser x) (x_parser y)"
    "classify (map tolower (fst nv)) \<noteq> h_connection \<longrightarrow> p_flags (x_parser y) = p_flags (x_parser x)"
    using run_header [of data x nv c cs h w] Cons.prems c(2,3) w(1) by (auto simp: header_room_def)
  have "handles h (concat (map (header_events (p_http_major (x_parser y)) (p_http_minor (x_parser y))) hs)) (x_user y) v"
    using w(2) y(5,7) by (simp add: same_message_def)
  moreover have "header_room y (Suc (length (concat (map header_text hs))))"
    using Cons.prems(6) y(6) by (simp add: header_room_def)
  moreover have "p_errno (x_parser y) = HPE_OK" using Cons.prems(4) y(7) by (simp add: same_message_def)
  ultimately obtain z where z: "exec_loop (settings_of h) data y = exec_loop (settings_of h) data z" "at data z (CRLF @ rest)"
    "p_state (x_parser z) = s_header_field_start" "x_mark z = (\<lambda>_. None)" "x_user z = v"
    "p_nread (x_parser z) = p_nread (x_parser y) + length (concat (map header_text hs))"
    "same_message (x_parser y) (x_parser z)"
    "(\<forall>nv \<in> set hs. classify (map tolower (fst nv)) \<noteq> h_connection) \<longrightarrow>
       p_flags (x_parser z) = p_flags (x_parser y)"
    using Cons.IH [of y] Cons.prems(1) y(2-4) c(1) by auto
  then show ?case
    using y same_message_trans [OF y(7) z(7)] by (intro exI [of _ z]) simp
qed

section \<open>A whole request\<close>

definition between_messages :: "http_parser \<Rightarrow> http_parser" where
  "between_messages pr = pr\<lparr>p_nread := 0, p_upgrade := False, p_state := NEW_MESSAGE pr\<rparr>"

text \<open>The empty line: the headers are complete, and without a body so is the message.\<close>

lemma run_end:
  assumes "at data x (CRLF @ rest)" and "p_state (x_parser x) = s_header_field_start"
    and "p_errno (x_parser x) = HPE_OK" and "x_mark x = (\<lambda>_. None)" and "header_room x 2"
    and "p_type (x_parser x) = HTTP_REQUEST" and "p_content_length (x_parser x) = ULLONG_MAX"
    and "p_flags (x_parser x) \<subseteq> {F_CONNECTION_KEEP_ALIVE, F_CONNECTION_CLOSE}"
    and "p_method (x_parser x) \<noteq> HTTP_CONNECT"
    and "handles h [E_headers_complete, E_message_complete] (x_user x) v"
  shows "exec_loop (settings_of h) data x = exec_loop (settings_of h) data
      ((moved 2 between_messages x)\<lparr>x_user := v\<rparr>)"
proof -
  let ?st = "settings_of h"
  obtain w where w: "h E_headers_complete (x_user x) = Inr (0, w)" "h E_message_complete w = Inr (0, v)"
    using assms(10) by (auto simp: handles_Cons)
  have fl: "F_TRAILING \<notin> p_flags (x_parser x)" "F_UPGRADE \<notin> p_flags (x_parser x)"
    "F_SKIPBODY \<notin> p_flags (x_parser x)" "F_CHUNKED \<notin> p_flags (x_parser x)"
    using assms(8) by auto
  let ?f = "\<lambda>pr. pr\<lparr>p_state := s_headers_almost_done\<rparr>"
  let ?x1 = "moved 1 ?f x"
  have "step ?st data CR (counted x) = Next (upd_parser ?f (counted x))"
    using assms(2) by (simp add: step_def in_header_field_start_def set_state_def upd_parser_def)
  then have r1: "exec_loop ?st data x = exec_loop ?st data ?x1"
    using assms by (intro run_plain_1 [of _ _ CR "LF # rest"]) (simp_all add: PARSING_HEADER_def header_room_def)
  have at1: "at data ?x1 (LF # rest)" using assms(1) at_moved_1 by simp
  let ?c = "counted ?x1"
  let ?x2 = "(set_state s_headers_done (upd_parser (\<lambda>pr. pr\<lparr>p_upgrade := False\<rparr>) ?c))\<lparr>x_user := w\<rparr>"
  have "upd_parser (\<lambda>pr. pr\<lparr>p_upgrade := (F_UPGRADE \<in> p_flags pr \<or> p_method pr = HTTP_CONNECT)\<rparr>) ?c =
      upd_parser (\<lambda>pr. pr\<lparr>p_upgrade := False\<rparr>) ?c"
    using fl(2) assms(9) by (simp add: upd_parser_def)
  then have "step ?st data LF ?c = Again ?x2"
    using assms(3) fl w(1) by (simp add: step_def in_headers_almost_done_def STRICT_CHECK_def Let_def settings_of_def)
  then have e1: "exec_byte ?st data LF ?c = exec_byte ?st data LF ?x2" by (rule exec_byte_again)
  let ?x3 = "(upd_parser (\<lambda>pr. pr\<lparr>p_nread := 0, p_state := NEW_MESSAGE (x_parser x)\<rparr>) ?x2)\<lparr>x_user := v\<rparr>"
  have nm: "NEW_MESSAGE (x_parser ?x2\<lparr>p_nread := 0\<rparr>) = NEW_MESSAGE (x_parser x)"
    by (simp add: NEW_MESSAGE_def http_should_keep_alive_def http_message_needs_eof_def start_state_def)
  have s3: "set_state (NEW_MESSAGE (x_parser x)) (upd_parser (\<lambda>pr. pr\<lparr>p_nread := 0\<rparr>) ?x2) =
      upd_parser (\<lambda>pr. pr\<lparr>p_nread := 0, p_state := NEW_MESSAGE (x_parser x)\<rparr>) ?x2"
    by (simp add: set_state_def upd_parser_def)
  have "step ?st data LF ?x2 = end_message ?st (upd_parser (\<lambda>pr. pr\<lparr>p_nread := 0\<rparr>) ?x2)"
    using fl assms(6,7) by (simp add: step_def in_headers_done_def STRICT_CHECK_def Let_def)
  also have "\<dots> = message_complete ?st (upd_parser (\<lambda>pr. pr\<lparr>p_nread := 0, p_state := NEW_MESSAGE (x_parser x)\<rparr>) ?x2)"
    unfolding end_message_def s3 [symmetric] using nm by simp
  also have "\<dots> = Next ?x3"
    using assms(3) w(2) by (simp add: message_complete_def CALLBACK_NOTIFY_def settings_of_def)
  finally have "exec_byte ?st data LF ?c = Next ?x3" using e1 exec_byte_step by metis
  then have "exec_loop ?st data ?x1 = exec_loop ?st data (advance ?x3)"
    using assms(5) by (intro run_byte [OF at1]) (simp_all add: PARSING_HEADER_def header_room_def)
  moreover have "advance ?x3 = (moved 2 between_messages x)\<lparr>x_user := v\<rparr>"
    by (simp add: advance_def upd_parser_def set_state_def counted_def moved_def between_messages_def
      NEW_MESSAGE_def http_should_keep_alive_def http_message_needs_eof_def start_state_def)
  ultimately show ?thesis using r1 by (simp only:)
qed

text \<open>The text of a request and the callbacks it stands for.\<close>

definition request_text :: "http_method \<Rightarrow> string \<Rightarrow> char \<Rightarrow> header_line list \<Rightarrow> string" where
  "request_text m t d hs =
     method_strings m @ '' '' @ t @ '' HTTP/1.'' @ [d] @ CRLF @ concat (map header_text hs) @ CRLF"

definition request_events :: "http_method \<Rightarrow> string \<Rightarrow> char \<Rightarrow> header_line list \<Rightarrow> event list" where
  "request_events m t d hs =
     [E_message_begin, E_url m t] @ concat (map (header_events 1 (digit_val d)) hs) @
     [E_headers_complete, E_message_complete]"

definition request_ok :: "http_method \<Rightarrow> string \<Rightarrow> char \<Rightarrow> header_line list \<Rightarrow> bool" where
  "request_ok m t d hs \<longleftrightarrow>
     m \<noteq> HTTP_CONNECT \<and> target_ok t \<and> isdigit d \<and> (\<forall>nv \<in> set hs. header_ok nv) \<and>
     length (request_text m t d hs) \<le> HTTP_MAX_HEADER_SIZE"

lemma run_request_line_method:
  assumes "at data x (method_strings m @ CHR '' '' # rest)" and "p_state (x_parser x) = s_start_req"
    and "p_errno (x_parser x) = HPE_OK" and "header_room x (Suc (length (method_strings m)))"
    and "h E_message_begin (x_user x) = Inr (0, u)"
  shows "\<exists>f. exec_loop (settings_of h) data x = exec_loop (settings_of h) data
      ((moved (Suc (length (method_strings m))) f x)\<lparr>x_user := u\<rparr>) \<and>
    (\<forall>pr. p_state (f pr) = s_req_spaces_before_url \<and> p_method (f pr) = m \<and> p_flags (f pr) = {} \<and>
      p_content_length (f pr) = ULLONG_MAX \<and> p_nread (f pr) = p_nread pr \<and> p_errno (f pr) = p_errno pr \<and>
      p_type (f pr) = p_type pr)"
proof -
  obtain c cs m0 where s: "method_strings m = c # cs" "first_method c = Some m0"
    "method_loop cs m0 1 = Some (m, length (method_strings m))"
    using method_scan_complete [of m]
    by (auto simp: method_scan_def split: list.splits option.splits if_splits)
  let ?st = "settings_of h"
  let ?x1 = "(moved 1 (message_started m0) x)\<lparr>x_user := u\<rparr>"
  have r1: "exec_loop ?st data x = exec_loop ?st data ?x1"
    using assms s by (intro run_first_letter [of _ _ c "cs @ CHR '' '' # rest"]) (simp_all add: header_room_def)
  have at1: "at data ?x1 (cs @ CHR '' '' # rest)"
    using at_moved_1 [of data x c "cs @ CHR '' '' # rest" "message_started m0"] assms(1) s(1) by (simp add: at_def)
  have i1: "1 \<le> length (method_strings m0)" using first_method_hd [OF s(2)] by (cases "method_strings m0") auto
  have x1: "p_state (x_parser ?x1) = s_req_method" "p_method (x_parser ?x1) = m0" "p_index (x_parser ?x1) = 1"
    "header_room ?x1 (length cs)"
    using assms(4) s(1) by (simp_all add: message_started_def header_room_def)
  have sp: "CHR '' '' \<notin> set cs" using method_no_space [of m] s(1) by auto
  let ?n = "length (method_strings m)"
  let ?x2 = "moved (length cs) (with_method m ?n) ?x1"
  have r2: "exec_loop ?st data ?x1 = exec_loop ?st data ?x2"
    using run_method [OF s(3) at1 x1(1-3) i1 sp x1(4)] .
  have at2: "at data ?x2 (CHR '' '' # rest)" using at_moved [OF at1] .
  have r3: "exec_loop ?st data ?x2 = exec_loop ?st data
      (moved 1 (\<lambda>pr. pr\<lparr>p_index := Suc (p_index pr), p_state := s_req_spaces_before_url\<rparr>) ?x2)"
    using assms(4) s(1) by (intro run_method_space [OF at2]) (simp_all add: message_started_def with_method_def header_room_def)
  let ?f = "\<lambda>pr. pr\<lparr>p_flags := {}, p_content_length := ULLONG_MAX, p_method := m, p_index := Suc ?n,
    p_state := s_req_spaces_before_url\<rparr>"
  have "moved 1 (\<lambda>pr. pr\<lparr>p_index := Suc (p_index pr), p_state := s_req_spaces_before_url\<rparr>) ?x2 =
      (moved (Suc ?n) ?f x)\<lparr>x_user := u\<rparr>"
    using s(1) by (simp add: moved_def message_started_def with_method_def)
  with r1 r2 r3 have "exec_loop ?st data x = exec_loop ?st data ((moved (Suc ?n) ?f x)\<lparr>x_user := u\<rparr>)"
    by (simp only:)
  then show ?thesis by (intro exI [of _ ?f]) simp
qed

text \<open>From the space after the target to the end of the message.\<close>

lemma run_after_target:
  assumes "at data x (''HTTP/1.'' @ d # CRLF @ concat (map header_text hs) @ CRLF @ rest)"
    and "isdigit d" and "\<forall>nv \<in> set hs. header_ok nv" and "p_state (x_parser x) = s_req_http_start"
    and "p_errno (x_parser x) = HPE_OK" and "x_mark x = (\<lambda>_. None)" and "p_type (x_parser x) = HTTP_REQUEST"
    and "p_content_length (x_parser x) = ULLONG_MAX" and "p_flags (x_parser x) = {}"
    and "p_method (x_parser x) \<noteq> HTTP_CONNECT"
    and "header_room x (12 + length (concat (map header_text hs)))"
    and "handles h (concat (map (header_events 1 (digit_val d)) hs) @ [E_headers_complete, E_message_complete])
      (x_user x) v"
  shows "\<exists>y. exec_loop (settings_of h) data x = exec_loop (settings_of h) data y \<and> at data y rest \<and>
    x_user y = v \<and> x_mark y = (\<lambda>_. None) \<and> p_errno (x_parser y) = HPE_OK \<and>
    p_type (x_parser y) = HTTP_REQUEST \<and> p_nread (x_parser y) = 0 \<and> p_method (x_parser y) = p_method (x_parser x) \<and>
    p_http_major (x_parser y) = 1 \<and> p_http_minor (x_parser y) = digit_val d \<and> \<not> p_upgrade (x_parser y) \<and>
    p_state (x_parser y) = (if http_should_keep_alive (x_parser y) then s_start_req else s_dead) \<and>
    ((\<forall>nv \<in> set hs. classify (map tolower (fst nv)) \<noteq> h_connection) \<longrightarrow>
      (http_should_keep_alive (x_parser y) \<longleftrightarrow> 0 < digit_val d))"
proof -
  let ?st = "settings_of h" and ?H = "concat (map header_text hs)"
  obtain u3 where u: "handles h (concat (map (header_events 1 (digit_val d)) hs)) (x_user x) u3"
    "handles h [E_headers_complete, E_message_complete] u3 v"
    using assms(12) by (auto simp: handles_append)
  let ?x3 = "moved 10 (http_1 d) x"
  have room: "header_room x 10" using assms(11) by (simp add: header_room_def)
  have r3: "exec_loop ?st data x = exec_loop ?st data ?x3" and at3: "at data ?x3 (?H @ CRLF @ rest)"
    using run_version(1) [OF assms(1,2,4) room, of ?st] run_version(2) [OF assms(1,2,4) room] by simp_all
  have "\<exists>y. exec_loop ?st data ?x3 = exec_loop ?st data y \<and> at data y (CRLF @ rest) \<and>
     p_state (x_parser y) = s_header_field_start \<and> x_mark y = (\<lambda>_. None) \<and> x_user y = u3 \<and>
     p_nread (x_parser y) = p_nread (x_parser ?x3) + length ?H \<and> same_message (x_parser ?x3) (x_parser y) \<and>
     ((\<forall>nv \<in> set hs. classify (map tolower (fst nv)) \<noteq> h_connection) \<longrightarrow>
       p_flags (x_parser y) = p_flags (x_parser ?x3))"
    using assms(3,5,6,11) u(1) by (intro run_headers [OF _ at3]) (simp_all add: http_1_def header_room_def)
  then obtain y where y: "exec_loop ?st data ?x3 = exec_loop ?st data y" "at data y (CRLF @ rest)"
    "p_state (x_parser y) = s_header_field_start" "x_mark y = (\<lambda>_. None)" "x_user y = u3"
    "p_nread (x_parser y) = p_nread (x_parser ?x3) + length ?H" "same_message (x_parser ?x3) (x_parser y)"
    "(\<forall>nv \<in> set hs. classify (map tolower (fst nv)) \<noteq> h_connection) \<longrightarrow>
       p_flags (x_parser y) = p_flags (x_parser ?x3)"
    by blast
  have py: "p_errno (x_parser y) = HPE_OK" "p_type (x_parser y) = HTTP_REQUEST"
    "p_content_length (x_parser y) = ULLONG_MAX" "p_method (x_parser y) = p_method (x_parser x)"
    "p_flags (x_parser y) \<subseteq> {F_CONNECTION_KEEP_ALIVE, F_CONNECTION_CLOSE}"
    "p_http_major (x_parser y) = 1" "p_http_minor (x_parser y) = digit_val d" "header_room y 2"
    using y(6,7) assms(5,7-9,11) by (auto simp: same_message_def http_1_def header_room_def)
  let ?z = "(moved 2 between_messages y)\<lparr>x_user := v\<rparr>"
  have r5: "exec_loop ?st data y = exec_loop ?st data ?z"
    using run_end [of data y rest h v] y(2-5) py assms(10) u(2) by simp
  have "at data (moved (length CRLF) between_messages y) rest" using at_moved [OF y(2)] .
  then have at5: "at data ?z rest" by (simp add: at_def eval_nat_numeral)
  have "p_state (x_parser ?z) = (if http_should_keep_alive (x_parser ?z) then s_start_req else s_dead)"
    using py(2) by (simp add: between_messages_def NEW_MESSAGE_def http_should_keep_alive_def
      http_message_needs_eof_def start_state_def)
  moreover have "(\<forall>nv \<in> set hs. classify (map tolower (fst nv)) \<noteq> h_connection) \<longrightarrow>
      (http_should_keep_alive (x_parser ?z) \<longleftrightarrow> 0 < digit_val d)"
    using y(8) assms(9) py by (auto simp: between_messages_def http_should_keep_alive_def
      http_message_needs_eof_def http_1_def)
  ultimately show ?thesis
    using r3 y(1,4) r5 at5 py by (intro exI [of _ ?z]) (simp add: between_messages_def)
qed

lemma run_request:
  assumes "at data x (request_text m t d hs @ rest)" and "request_ok m t d hs"
    and "p_state (x_parser x) = s_start_req" and "p_errno (x_parser x) = HPE_OK"
    and "x_mark x = (\<lambda>_. None)" and "p_type (x_parser x) = HTTP_REQUEST" and "p_nread (x_parser x) = 0"
    and "handles h (request_events m t d hs) (x_user x) v"
  shows "\<exists>y. exec_loop (settings_of h) data x = exec_loop (settings_of h) data y \<and> at data y rest \<and>
    x_user y = v \<and> x_mark y = (\<lambda>_. None) \<and> p_errno (x_parser y) = HPE_OK \<and>
    p_type (x_parser y) = HTTP_REQUEST \<and> p_nread (x_parser y) = 0 \<and> p_method (x_parser y) = m \<and>
    p_http_major (x_parser y) = 1 \<and> p_http_minor (x_parser y) = digit_val d \<and> \<not> p_upgrade (x_parser y) \<and>
    p_state (x_parser y) = (if http_should_keep_alive (x_parser y) then s_start_req else s_dead) \<and>
    ((\<forall>nv \<in> set hs. classify (map tolower (fst nv)) \<noteq> h_connection) \<longrightarrow>
      (http_should_keep_alive (x_parser y) \<longleftrightarrow> 0 < digit_val d))"
proof -
  let ?st = "settings_of h" and ?n = "length (method_strings m)" and ?H = "concat (map header_text hs)"
  have ok: "target_ok t" "isdigit d" "\<forall>nv \<in> set hs. header_ok nv" "m \<noteq> HTTP_CONNECT"
    and len: "?n + length t + length ?H + 14 \<le> HTTP_MAX_HEADER_SIZE"
    using assms(2) by (simp_all add: request_ok_def request_text_def)
  obtain u1 u2 where u: "h E_message_begin (x_user x) = Inr (0, u1)" "h (E_url m t) u1 = Inr (0, u2)"
    "handles h (concat (map (header_events 1 (digit_val d)) hs) @ [E_headers_complete, E_message_complete]) u2 v"
    using assms(8) by (auto simp: request_events_def handles_Cons)
  have at0: "at data x (method_strings m @ CHR '' '' # t @ CHR '' '' # ''HTTP/1.'' @ d # CRLF @ ?H @ CRLF @ rest)"
    using assms(1) by (simp add: request_text_def)
  have room0: "header_room x (Suc ?n)" using len assms(7) by (simp add: header_room_def)
  obtain f where f: "exec_loop ?st data x = exec_loop ?st data ((moved (Suc ?n) f x)\<lparr>x_user := u1\<rparr>)"
    "\<forall>pr. p_state (f pr) = s_req_spaces_before_url \<and> p_method (f pr) = m \<and> p_flags (f pr) = {} \<and>
      p_content_length (f pr) = ULLONG_MAX \<and> p_nread (f pr) = p_nread pr \<and> p_errno (f pr) = p_errno pr \<and>
      p_type (f pr) = p_type pr"
    using run_request_line_method [of data x m _ h u1, OF at0 assms(3,4) room0 u(1)] by blast
  let ?x1 = "(moved (Suc ?n) f x)\<lparr>x_user := u1\<rparr>"
  have "at data (moved (length (method_strings m @ '' '')) f x) (t @ CHR '' '' # ''HTTP/1.'' @ d # CRLF @ ?H @ CRLF @ rest)"
    using at0 by (intro at_moved) simp
  then have at1: "at data ?x1 (t @ CHR '' '' # ''HTTP/1.'' @ d # CRLF @ ?H @ CRLF @ rest)" by (simp add: at_def)
  let ?x2 = "(moved (Suc (length t)) (\<lambda>pr. pr\<lparr>p_state := s_req_http_start\<rparr>) ?x1)\<lparr>x_user := u2\<rparr>"
  have r2: "exec_loop ?st data ?x1 = exec_loop ?st data ?x2"
    using f(2) assms(4,5,7) ok len u(2) by (intro run_target [OF at1]) (simp_all add: header_room_def)
  have "at data (moved (length (t @ '' '')) (\<lambda>pr. pr\<lparr>p_state := s_req_http_start\<rparr>) ?x1)
      (''HTTP/1.'' @ d # CRLF @ ?H @ CRLF @ rest)"
    using at1 by (intro at_moved) simp
  then have at2: "at data ?x2 (''HTTP/1.'' @ d # CRLF @ ?H @ CRLF @ rest)" by (simp add: at_def)
  have x2: "p_state (x_parser ?x2) = s_req_http_start" "p_errno (x_parser ?x2) = HPE_OK" "x_mark ?x2 = (\<lambda>_. None)"
    "p_type (x_parser ?x2) = HTTP_REQUEST" "p_content_length (x_parser ?x2) = ULLONG_MAX"
    "p_flags (x_parser ?x2) = {}" "p_method (x_parser ?x2) = m" "x_user ?x2 = u2"
    "header_room ?x2 (12 + length ?H)"
    using f(2) assms(4-7) len by (simp_all add: header_room_def)
  have c2: "p_method (x_parser ?x2) \<noteq> HTTP_CONNECT" using x2(7) ok(4) by simp
  have u2: "handles h (concat (map (header_events 1 (digit_val d)) hs) @ [E_headers_complete, E_message_complete])
      (x_user ?x2) v"
    using u(3) by simp
  from run_after_target [OF at2 ok(2,3) x2(1-6) c2 x2(9) u2] f(1) r2 show ?thesis
    unfolding x2(7) by (simp only:)
qed

lemma execute_request_run:
  assumes "request_ok m t d hs" and "handles h (request_events m t d hs) u v"
  shows "\<exists>pr. http_parser_execute (settings_of h) (request_text m t d hs) (http_parser_init HTTP_REQUEST) u =
      Inr (length (request_text m t d hs), pr, v) \<and>
    p_errno pr = HPE_OK \<and> p_method pr = m \<and> p_http_major pr = 1 \<and> p_http_minor pr = digit_val d \<and>
    \<not> p_upgrade pr \<and> p_state pr = (if http_should_keep_alive pr then s_start_req else s_dead)"
proof -
  let ?x = "start_exec (http_parser_init HTTP_REQUEST) u" and ?text = "request_text m t d hs"
  have "at ?text ?x (?text @ [])" by (simp add: at_def start_exec_init)
  moreover have "p_type (x_parser ?x) = HTTP_REQUEST" by (simp add: start_exec_def http_parser_init_def)
  ultimately obtain y where y: "exec_loop (settings_of h) ?text ?x = exec_loop (settings_of h) ?text y"
    "at ?text y []" "x_user y = v" "x_mark y = (\<lambda>_. None)" "p_errno (x_parser y) = HPE_OK"
    "p_method (x_parser y) = m" "p_http_major (x_parser y) = 1" "p_http_minor (x_parser y) = digit_val d"
    "\<not> p_upgrade (x_parser y)"
    "p_state (x_parser y) = (if http_should_keep_alive (x_parser y) then s_start_req else s_dead)"
    using run_request [of ?text ?x m t d hs "[]" h v] assms by (auto simp: start_exec_init)
  have "exec_loop (settings_of h) ?text ?x = Return y (length ?text)"
    using y(1) exec_loop_end [OF y(2,4,5)] by simp
  moreover have "?text \<noteq> []" by (simp add: request_text_def)
  ultimately have "http_parser_execute (settings_of h) ?text (http_parser_init HTTP_REQUEST) u =
      Inr (length ?text, x_parser y, v)"
    using y(3) by (simp add: http_parser_execute_def returned_def start_exec_init)
  then show ?thesis using y by blast
qed

text \<open>
  C3: On the text of a well-formed request without a body (any method but \<open>CONNECT\<close>, a
  target the URL machine accepts, \<open>HTTP/1.d\<close>, header lines with token names and values
  that do not start with white space, none of which announces a body or an upgrade, at
  most 80 KiB in all), a fresh parser runs exactly these callbacks, in this order and with
  these bytes: message begin, the target, each header name and value, headers complete,
  message complete. It consumes all the text, sets no error and holds the method and the
  version of the request; the state it is left in depends on keep-alive alone.
\<close>

theorem execute_request:
  assumes "request_ok m t d hs" and "handles h (request_events m t d hs) u v"
  shows "\<exists>pr. http_parser_execute (settings_of h) (request_text m t d hs) (http_parser_init HTTP_REQUEST) u =
      Inr (length (request_text m t d hs), pr, v) \<and>
    p_errno pr = HPE_OK \<and> p_method pr = m \<and> p_http_major pr = 1 \<and> p_http_minor pr = digit_val d \<and>
    \<not> p_upgrade pr \<and> p_state pr = (if http_should_keep_alive pr then s_start_req else s_dead)"
  by (rule execute_request_run [OF assms])

text \<open>The handler that lists the events it sees.\<close>

definition record_event :: "event list handler" where
  "record_event e es = Inr (0, es @ [e])"

lemma handles_record: "handles record_event es u (u @ es)"
proof (induction es arbitrary: u)
  case (Cons e es)
  then show ?case using Cons.IH [of "u @ [e]"] by (simp add: handles_Cons record_event_def)
qed simp

lemma target_ok_slash: "target_ok ''/''"
  by (simp add: target_ok_def parse_url_char_def)

theorem execute_request_witness:
  "\<exists>pr. http_parser_execute (settings_of record_event)
      (''GET / HTTP/1.1'' @ CRLF @ ''Host: a'' @ CRLF @ CRLF) (http_parser_init HTTP_REQUEST) [] =
    Inr (27, pr, [E_message_begin, E_url HTTP_GET ''/'', E_header_field 1 1 ''Host'', E_header_value ''a'',
      E_headers_complete, E_message_complete]) \<and> p_errno pr = HPE_OK"
proof -
  let ?hs = "[(''Host'', ''a'')]"
  have "map tolower ''Host'' = ''host''" by code_simp
  then have w: "classify (map tolower ''Host'') = h_general"
    by (simp add: classify_def is_prefix_def header_words del: list.map)
  have ok: "request_ok HTTP_GET ''/'' (CHR ''1'') ?hs"
    using target_ok_slash w by (auto simp: request_ok_def request_text_def name_ok_def value_ok_def
      bodyless_name_def isdigit_def is_token_def IS_ALPHANUM_def IS_ALPHA_def LOWER_def)
  have "handles record_event (request_events HTTP_GET ''/'' (CHR ''1'') ?hs) []
      ([] @ request_events HTTP_GET ''/'' (CHR ''1'') ?hs)"
    by (rule handles_record)
  from execute_request [OF ok this] show ?thesis
    by (auto simp: request_text_def request_events_def digit_val_def)
qed

lemma classify_words:
  "classify w = h_content_length \<longleftrightarrow> w = CONTENT_LENGTH"
  "classify w = h_transfer_encoding \<longleftrightarrow> w = TRANSFER_ENCODING"
  "classify w = h_upgrade \<longleftrightarrow> w = UPGRADE"
  "classify w = h_connection \<longleftrightarrow> w = CONNECTION \<or> w = PROXY_CONNECTION"
  by (simp_all add: classify_def header_words)

lemma map_tolower_words [simp]:
  "map tolower CONTENT_LENGTH = CONTENT_LENGTH" "map tolower TRANSFER_ENCODING = TRANSFER_ENCODING"
  "map tolower UPGRADE = UPGRADE" "map tolower CONNECTION = CONNECTION"
  "map tolower PROXY_CONNECTION = PROXY_CONNECTION"
  by code_simp+

text \<open>
  The letter by letter matcher of header names is right: after a token name and its
  colon the header state says content length, transfer encoding, upgrade or connection
  exactly when the name is that word (or \<open>Proxy-Connection\<close>), ignoring case, and the
  callback has got the name as it was sent.
\<close>

theorem header_name_recognised:
  assumes "at data x (name @ CHR '':'' # rest)" and "name_ok name"
    and "p_state (x_parser x) = s_header_field_start" and "p_errno (x_parser x) = HPE_OK"
    and "x_mark x = (\<lambda>_. None)" and "header_room x (Suc (length name))"
    and "h (E_header_field (p_http_major (x_parser x)) (p_http_minor (x_parser x)) name) (x_user x) = Inr (0, v)"
  shows "\<exists>y. exec_loop (settings_of h) data x = exec_loop (settings_of h) data y \<and> x_user y = v \<and>
    x_p y = x_p x + Suc (length name) \<and> p_state (x_parser y) = s_header_value_discard_ws \<and>
    (p_header_state (x_parser y) = h_content_length \<longleftrightarrow> strcaseeq name ''Content-Length'') \<and>
    (p_header_state (x_parser y) = h_transfer_encoding \<longleftrightarrow> strcaseeq name ''Transfer-Encoding'') \<and>
    (p_header_state (x_parser y) = h_upgrade \<longleftrightarrow> strcaseeq name ''Upgrade'') \<and>
    (p_header_state (x_parser y) = h_connection \<longleftrightarrow>
      strcaseeq name ''Connection'' \<or> strcaseeq name ''Proxy-Connection'')"
proof -
  obtain i where i: "exec_loop (settings_of h) data x =
      exec_loop (settings_of h) data ((moved (Suc (length name)) (to_value i name) x)\<lparr>x_user := v\<rparr>)"
    using run_name [of data x name rest h v] assms by blast
  have w: "map tolower ''Content-Length'' = CONTENT_LENGTH" "map tolower ''Transfer-Encoding'' = TRANSFER_ENCODING"
    "map tolower ''Upgrade'' = UPGRADE" "map tolower ''Connection'' = CONNECTION"
    "map tolower ''Proxy-Connection'' = PROXY_CONNECTION"
    by code_simp+
  show ?thesis
    using i by (intro exI [of _ "(moved (Suc (length name)) (to_value i name) x)\<lparr>x_user := v\<rparr>"])
      (simp add: to_value_def classify_words strcaseeq_def w del: list.map)
qed

theorem header_name_recognised_witness:
  "\<exists>x y. exec_loop (settings_of record_event) ''upGRADE: x'' x = exec_loop (settings_of record_event) ''upGRADE: x'' y \<and>
     x_user y = [E_header_field 0 0 ''upGRADE''] \<and> p_header_state (x_parser y) = h_upgrade"
proof -
  let ?x = "\<lparr>x_parser = (http_parser_init HTTP_REQUEST)\<lparr>p_state := s_header_field_start\<rparr>, x_user = [],
    x_p = 0, x_mark = (\<lambda>_. None)\<rparr>"
  have "name_ok ''upGRADE''" by (simp add: name_ok_def is_token_def IS_ALPHANUM_def IS_ALPHA_def LOWER_def)
  then have "\<exists>y. exec_loop (settings_of record_event) ''upGRADE: x'' ?x =
      exec_loop (settings_of record_event) ''upGRADE: x'' y \<and>
      x_user y = [E_header_field 0 0 ''upGRADE''] \<and>
      (p_header_state (x_parser y) = h_upgrade \<longleftrightarrow> strcaseeq ''upGRADE'' ''Upgrade'')"
    using header_name_recognised [of "''upGRADE: x''" ?x "''upGRADE''" "'' x''" record_event
      "[E_header_field 0 0 ''upGRADE'']"]
    by (auto simp: at_def http_parser_init_def header_room_def record_event_def)
  moreover have "strcaseeq ''upGRADE'' ''Upgrade''" by code_simp
  ultimately show ?thesis by blast
qed

end
