(* ===== verification/Http_Parser_Body.thy ===== *)
theory Http_Parser_Body
  imports Http_Parser_Headers
begin

text \<open>
  The length of a body in \<open>http_parser_execute\<close>: what a \<open>Content-Length\<close> value is read
  as, with the 64-bit overflow check, and which bytes the body callback gets when the
  body is all in one call or split over calls.
\<close>

section \<open>Content-Length\<close>

text \<open>\<open>(ULLONG_MAX - 10) / 10\<close>\<close>

definition length_limit :: nat where
  "length_limit = 1844674407370955160"

lemma unat_length_limit: "unat ((ULLONG_MAX - 10) div 10) = length_limit"
  by (simp add: length_limit_def)

lemma content_length_digit:
  assumes "\<not> (ULLONG_MAX - 10) div 10 < old" and "d < 10"
  shows "unat (old * 10 + of_nat d) = 10 * unat old + d"
proof -
  have "old \<le> (ULLONG_MAX - 10) div 10" using assms(1) by simp
  then have "unat old \<le> unat ((ULLONG_MAX - 10) div 10)" by (simp add: word_le_nat_alt)
  then have le: "unat old \<le> 1844674407370955160" by simp
  have m: "unat (old * 10) = unat old * 10"
    using le by (subst unat_mult_lem [THEN iffD1]) simp_all
  have v: "unat (of_nat d :: 64 word) = d" using assms(2) by (simp add: unat_of_nat)
  show ?thesis
    using le assms(2) by (subst unat_add_lem [THEN iffD1]) (simp_all add: m v)
qed

lemma digit_val_lt: "isdigit c \<Longrightarrow> digit_val c < 10"
  by (auto simp: isdigit_def digit_val_def Let_def)

lemma dec_val_snoc [simp]: "dec_val (s @ [c]) = 10 * dec_val s + digit_val c"
  by (simp add: dec_val_def)

lemma dec_val_mono: "dec_val s \<le> dec_val (s @ t)"
proof (induction t rule: rev_induct)
  case (snoc c t)
  have "dec_val (s @ t) \<le> 10 * dec_val (s @ t) + digit_val c" by simp
  with snoc show ?case by (metis append_assoc dec_val_snoc le_trans)
qed simp

definition with_length :: "64 word \<Rightarrow> http_parser \<Rightarrow> http_parser" where
  "with_length n pr = pr\<lparr>p_content_length := n\<rparr>"

lemma with_length_fields [simp]:
  "p_state (with_length n pr) = p_state pr" "p_nread (with_length n pr) = p_nread pr"
  "p_header_state (with_length n pr) = p_header_state pr" "p_errno (with_length n pr) = p_errno pr"
  "p_content_length (with_length n pr) = n"
  by (simp_all add: with_length_def)

lemma moved_length_0: "p_content_length (x_parser x) = n \<Longrightarrow> moved 0 (with_length n) x = x"
  by (cases x; cases "x_parser x") (auto simp: moved_def with_length_def)

text \<open>The digits after the first, from the value of those read: all of them, or an error.\<close>

lemma run_digits:
  "\<forall>c \<in> set cs. isdigit c \<Longrightarrow> at data x (cs @ rest) \<Longrightarrow> p_state (x_parser x) = s_header_value \<Longrightarrow>
   p_header_state (x_parser x) = h_content_length \<Longrightarrow> unat (p_content_length (x_parser x)) = dec_val pre \<Longrightarrow>
   header_room x (length cs) \<Longrightarrow>
   (if cs \<noteq> [] \<and> dec_val (pre @ butlast cs) > length_limit
    then \<exists>y n. exec_loop st data x = Return y n \<and> p_errno (x_parser y) = HPE_INVALID_CONTENT_LENGTH
    else \<exists>n. unat n = dec_val (pre @ cs) \<and>
      exec_loop st data x = exec_loop st data (moved (length cs) (with_length n) x))"
proof (induction cs arbitrary: pre x)
  case Nil
  then show ?case
    using moved_length_0 [of x "p_content_length (x_parser x)"]
    by (auto intro!: exI [of _ "p_content_length (x_parser x)"])
next
  case (Cons c cs)
  let ?old = "p_content_length (x_parser x)"
  have c: "isdigit c" "c \<noteq> CR" "c \<noteq> LF" "c \<noteq> CHR '' ''" "digit_val c < 10"
    using Cons.prems(1) digit_not_CR digit_val_lt by (auto simp: isdigit_def)
  have lim: "(ULLONG_MAX - 10) div 10 < ?old \<longleftrightarrow> length_limit < dec_val pre"
    using Cons.prems(5) unat_length_limit by (metis word_less_nat_alt)
  have vc: "step st data c (counted x) = next_content_length c (counted x)"
    using Cons.prems(3,4) c by (simp add: step_def in_header_value_def value_char_def Let_def)
  show ?case
  proof (cases "length_limit < dec_val pre")
    case True
    then have "step st data c (counted x) = goto_error HPE_INVALID_CONTENT_LENGTH (counted x)"
      using vc c lim by (simp add: next_content_length_def Let_def)
    moreover have "count_byte x = counted x" using Cons.prems by (simp add: count_byte_def counted_def PARSING_HEADER_def)
    moreover have "\<not> header_overflow (counted x)" using Cons.prems by (simp add: header_overflow_def header_room_def)
    ultimately have "\<exists>y n. exec_loop st data x = Return y n \<and> p_errno (x_parser y) = HPE_INVALID_CONTENT_LENGTH"
      using at_nth [of data x c "cs @ rest"] Cons.prems(2)
      by (simp add: exec_loop.simps [of st data x] exec_byte.simps [of st data c] goto_error_def Let_def)
    moreover have "length_limit < dec_val (pre @ butlast (c # cs))"
      using True dec_val_mono [of pre "butlast (c # cs)"] by simp
    ultimately show ?thesis by simp
  next
    case False
    define t where "t = ?old * 10 + of_nat (digit_val c)"
    have nl: "\<not> (ULLONG_MAX - 10) div 10 < ?old" using False lim by simp
    have t: "unat t = dec_val (pre @ [c])"
      using content_length_digit [OF nl c(5)] Cons.prems(5) by (simp add: t_def)
    have "step st data c (counted x) = Next (upd_parser (with_length t) (counted x))"
      unfolding vc using c nl by (simp add: next_content_length_def Let_def t_def upd_parser_def with_length_def)
    then have r: "exec_loop st data x = exec_loop st data (moved 1 (with_length t) x)"
      using Cons.prems by (intro run_plain_1 [of _ _ c "cs @ rest"]) (simp_all add: PARSING_HEADER_def header_room_def)
    have "at data (moved 1 (with_length t) x) (cs @ rest)"
      using Cons.prems(2) at_moved [of data x "[c]"] by simp
    then have IH: "if cs \<noteq> [] \<and> dec_val ((pre @ [c]) @ butlast cs) > length_limit
        then \<exists>y n. exec_loop st data (moved 1 (with_length t) x) = Return y n \<and>
          p_errno (x_parser y) = HPE_INVALID_CONTENT_LENGTH
        else \<exists>n. unat n = dec_val ((pre @ [c]) @ cs) \<and> exec_loop st data (moved 1 (with_length t) x) =
          exec_loop st data (moved (length cs) (with_length n) (moved 1 (with_length t) x))"
      using Cons.prems t by (intro Cons.IH) (simp_all add: header_room_def)
    have m: "moved (length cs) (with_length n) (moved 1 (with_length t) x) = moved (length (c # cs)) (with_length n) x" for n
      by (simp add: moved_def with_length_def)
    have "dec_val (pre @ butlast (c # cs)) > length_limit \<longleftrightarrow>
        cs \<noteq> [] \<and> dec_val ((pre @ [c]) @ butlast cs) > length_limit"
      using False by simp
    note b = this
    show ?thesis
    proof (cases "cs \<noteq> [] \<and> dec_val ((pre @ [c]) @ butlast cs) > length_limit")
      case True
      then show ?thesis using IH [unfolded if_P [OF True]] r b by simp
    next
      case False
      from IH [unfolded if_not_P [OF False]] obtain n where n: "unat n = dec_val ((pre @ [c]) @ cs)"
        "exec_loop st data (moved 1 (with_length t) x) = exec_loop st data (moved (length (c # cs)) (with_length n) x)"
        unfolding m by blast
      have nb: "\<not> (c # cs \<noteq> [] \<and> dec_val (pre @ butlast (c # cs)) > length_limit)" using False b by blast
      have "unat n = dec_val (pre @ c # cs)" using n(1) by simp
      moreover have "exec_loop st data x = exec_loop st data (moved (length (c # cs)) (with_length n) x)"
        using r n(2) by (rule trans)
      ultimately show ?thesis unfolding if_not_P [OF nb] by blast
    qed
  qed
qed

text \<open>The check of the digits before the last, as one of the number: its last digit is free.\<close>

lemma length_limit_iff:
  assumes "ds \<noteq> []" and "\<forall>c \<in> set ds. isdigit c"
  shows "dec_val (butlast ds) > length_limit \<longleftrightarrow> dec_val ds > 2 ^ 64 - 7"
proof -
  have "dec_val ds = 10 * dec_val (butlast ds) + digit_val (last ds)"
    using dec_val_snoc [of "butlast ds" "last ds"] assms(1) by simp
  moreover have "digit_val (last ds) < 10" using assms by (simp add: digit_val_lt)
  ultimately show ?thesis by (simp add: length_limit_def) presburger
qed

text \<open>
  C26: A \<open>Content-Length\<close> value that begins with decimal digits (the whole header section within
  the parser's limit) has these read as exactly its number, up to 18446744073709551609, and never as one
  wrapped around \<open>2 ^ 64\<close>: for every larger number the parser stops with
  \<open>HPE_INVALID_CONTENT_LENGTH\<close>. That includes the six largest numbers of 64 bits, as the
  check looks at the digits before the last only, against a limit the code calls conservative.
\<close>

theorem content_length_exact:
  assumes "at data x (ds @ rest)" and "ds \<noteq> []" and "\<forall>c \<in> set ds. isdigit c"
    and "p_state (x_parser x) = s_header_value_start" and "p_header_state (x_parser x) = h_content_length"
    and "x_mark x = (\<lambda>_. None)" and "header_room x (length ds)"
  shows "if dec_val ds > 18446744073709551609
    then \<exists>y n. exec_loop st data x = Return y n \<and> p_errno (x_parser y) = HPE_INVALID_CONTENT_LENGTH
    else \<exists>y. exec_loop st data x = exec_loop st data y \<and> x_p y = x_p x + length ds \<and>
      p_state (x_parser y) = s_header_value \<and> unat (p_content_length (x_parser y)) = dec_val ds"
proof -
  from assms(2) obtain c cs where ds: "ds = c # cs" by (cases ds) auto
  have c: "isdigit c" "digit_val c < 10" "\<forall>c \<in> set cs. isdigit c" using assms(3) ds digit_val_lt by auto
  let ?f = "\<lambda>pr. pr\<lparr>p_index := 0, p_state := s_header_value, p_content_length := of_nat (digit_val c)\<rparr>"
  let ?x1 = "(moved 1 ?f x)\<lparr>x_mark := [cb_header_value \<mapsto> x_p x]\<rparr>"
  let ?z = "upd_parser (\<lambda>pr. pr\<lparr>p_content_length := of_nat (digit_val c)\<rparr>)
    (set_state s_header_value (upd_parser (\<lambda>pr. pr\<lparr>p_index := 0\<rparr>) (MARK cb_header_value (counted x))))"
  have "step st data c (counted x) = Next ?z"
    using assms(4,5) c by (simp add: step_def in_header_value_start_def Let_def)
  then have "exec_loop st data x = exec_loop st data (advance ?z)"
    using assms ds by (intro run_step [of _ _ c "cs @ rest"]) (simp_all add: PARSING_HEADER_def header_room_def)
  moreover have "advance ?z = ?x1"
    using assms(6) by (simp add: advance_def set_state_def MARK_def counted_def upd_parser_def moved_def)
  ultimately have r1: "exec_loop st data x = exec_loop st data ?x1" by (simp only:)
  have at1: "at data ?x1 (cs @ rest)"
    using at_moved_1 [of data x c "cs @ rest" ?f] assms(1) ds by (simp add: at_def)
  have "unat (p_content_length (x_parser ?x1)) = dec_val [c]"
    using c(2) by (simp add: unat_of_nat dec_val_def)
  from run_digits [OF c(3) at1 _ _ this, of st] have d:
    "if cs \<noteq> [] \<and> dec_val ([c] @ butlast cs) > length_limit
     then \<exists>y n. exec_loop st data ?x1 = Return y n \<and> p_errno (x_parser y) = HPE_INVALID_CONTENT_LENGTH
     else \<exists>n. unat n = dec_val ([c] @ cs) \<and>
       exec_loop st data ?x1 = exec_loop st data (moved (length cs) (with_length n) ?x1)"
    using assms(5,7) ds by (simp add: header_room_def)
  have "dec_val ds > 18446744073709551609 \<longleftrightarrow> dec_val (butlast ds) > length_limit"
    using length_limit_iff [OF assms(2,3)] by simp
  then have b: "dec_val ds > 18446744073709551609 \<longleftrightarrow> cs \<noteq> [] \<and> dec_val ([c] @ butlast cs) > length_limit"
    using ds by (simp add: dec_val_def length_limit_def)
  show ?thesis
  proof (cases "dec_val ds > 18446744073709551609")
    case True
    with d b r1 show ?thesis by simp
  next
    case False
    then have "\<not> (cs \<noteq> [] \<and> dec_val ([c] @ butlast cs) > length_limit)" using b by blast
    from d [unfolded if_not_P [OF this]] obtain n where n: "unat n = dec_val ([c] @ cs)"
      "exec_loop st data ?x1 = exec_loop st data (moved (length cs) (with_length n) ?x1)"
      by blast
    with False r1 ds show ?thesis
      by (auto intro!: exI [of _ "moved (length cs) (with_length n) ?x1"])
  qed
qed

definition at_content_length :: "unit exec" where
  "at_content_length =
     \<lparr>x_parser = (http_parser_init HTTP_REQUEST)\<lparr>p_state := s_header_value_start, p_header_state := h_content_length\<rparr>,
      x_user = (), x_p = 0, x_mark = (\<lambda>_. None)\<rparr>"

theorem content_length_exact_witness:
  "(\<exists>y. exec_loop silent ''1024'' at_content_length = exec_loop silent ''1024'' y \<and>
     unat (p_content_length (x_parser y)) = 1024) \<and>
   (\<exists>y n. exec_loop silent ''18446744073709551610'' at_content_length = Return y n \<and>
     p_errno (x_parser y) = HPE_INVALID_CONTENT_LENGTH)"
proof
  have d: "dec_val ''1024'' = 1024" "dec_val ''18446744073709551610'' = 18446744073709551610"
    by (simp_all add: dec_val_def digit_val_def)
  have "\<forall>c \<in> set ''1024''. isdigit c" by code_simp
  then show "\<exists>y. exec_loop silent ''1024'' at_content_length = exec_loop silent ''1024'' y \<and>
     unat (p_content_length (x_parser y)) = 1024"
    using content_length_exact [of "''1024''" at_content_length "''1024''" "[]" silent] d
    by (auto simp: at_content_length_def at_def http_parser_init_def header_room_def)
  have "\<forall>c \<in> set ''18446744073709551610''. isdigit c" by code_simp
  then show "\<exists>y n. exec_loop silent ''18446744073709551610'' at_content_length = Return y n \<and>
     p_errno (x_parser y) = HPE_INVALID_CONTENT_LENGTH"
    using content_length_exact [of "''18446744073709551610''" at_content_length "''18446744073709551610''" "[]" silent] d
    by (auto simp: at_content_length_def at_def http_parser_init_def header_room_def)
qed

section \<open>The bytes of the body\<close>

lemma run_byte_body:
  assumes "at data x (c # cs)" and "\<not> PARSING_HEADER (p_state (x_parser x))"
    and "exec_byte st data c x = Next z"
  shows "exec_loop st data x = exec_loop st data (advance z)"
proof -
  have "count_byte x = x" using assms(2) by (simp add: count_byte_def)
  moreover have "\<not> header_overflow x" using assms(2) by (simp add: header_overflow_def)
  ultimately show ?thesis
    using assms(3) at_nth [OF assms(1)]
    by (simp add: exec_loop.simps [of st data x] Let_def advance_def)
qed

lemma at_length: "at data x cs \<Longrightarrow> length data - x_p x = length cs"
  unfolding at_def by (metis length_drop)

definition body_done :: "http_parser \<Rightarrow> http_parser" where
  "body_done pr = pr\<lparr>p_content_length := 0, p_state := NEW_MESSAGE (pr\<lparr>p_content_length := 0\<rparr>)\<rparr>"

text \<open>A body that is all there: one callback with the body, then the end of the message.\<close>

lemma run_body:
  assumes "at data x (b @ rest)" and "b \<noteq> []" and "p_state (x_parser x) = s_body_identity"
    and "unat (p_content_length (x_parser x)) = length b" and "p_content_length (x_parser x) \<noteq> ULLONG_MAX"
    and "x_mark x = (\<lambda>_. None)" and "p_errno (x_parser x) = HPE_OK"
    and "handles h [E_body b, E_message_complete] (x_user x) v"
  shows "exec_loop (settings_of h) data x = exec_loop (settings_of h) data
    (x\<lparr>x_parser := body_done (x_parser x), x_user := v, x_p := x_p x + length b\<rparr>)"
proof -
  let ?st = "settings_of h" and ?n = "length b" and ?pr = "x_parser x"
  from assms(2) obtain c cs where b: "b = c # cs" by (cases b) auto
  define k where "k = length cs"
  have k: "length b = Suc k" using b by (simp add: k_def)
  obtain w where w: "h (E_body b) (x_user x) = Inr (0, w)" "h E_message_complete w = Inr (0, v)"
    using assms(8) by (auto simp: handles_Cons)
  have n: "to_read data x = ?n" using at_length [OF assms(1)] assms(4) by (simp add: to_read_def)
  have nz: "p_content_length ?pr \<noteq> 0" using assms(4) b by auto
  have cl: "p_content_length ?pr - of_nat ?n = 0" by (simp add: assms(4) [symmetric])
  let ?t = "x\<lparr>x_parser := ?pr\<lparr>p_content_length := 0\<rparr>, x_p := x_p x + k, x_mark := [cb_body \<mapsto> x_p x]\<rparr>"
  have t: "take_body data x = ?t"
    using assms(6) n cl k by (simp add: take_body_def Let_def MARK_def upd_parser_def)
  let ?y = "x\<lparr>x_parser := ?pr\<lparr>p_content_length := 0, p_state := s_message_done\<rparr>, x_user := w, x_p := x_p x + k\<rparr>"
  have slice: "drop (x_p x) (take (Suc (x_p x + k)) data) = b" using at_slice [OF assms(1)] k by simp
  have "step ?st data c x = Again ?y"
    using assms(3,5,7) nz t slice w(1) assms(6)
    by (cases x) (simp add: step_def in_body_identity_def CALLBACK_DATA_def settings_of_def set_state_def Let_def)
  then have e: "exec_byte ?st data c x = exec_byte ?st data c ?y" by (rule exec_byte_again)
  let ?z = "x\<lparr>x_parser := body_done ?pr, x_user := v, x_p := x_p x + k\<rparr>"
  have nm: "NEW_MESSAGE (?pr\<lparr>p_content_length := 0, p_state := s_message_done\<rparr>) = NEW_MESSAGE (?pr\<lparr>p_content_length := 0\<rparr>)"
    by (simp add: NEW_MESSAGE_def http_should_keep_alive_def http_message_needs_eof_def start_state_def)
  have "step ?st data c ?y = Next ?z"
    using assms(7) w(2) nm by (simp add: step_def end_message_def message_complete_def CALLBACK_NOTIFY_def
      settings_of_def set_state_def body_done_def)
  then have "exec_byte ?st data c x = Next ?z" using e exec_byte_step by metis
  then have "exec_loop ?st data x = exec_loop ?st data (advance ?z)"
    using assms(1,3) b by (intro run_byte_body [of _ _ c "cs @ rest"]) (simp_all add: PARSING_HEADER_def)
  moreover have "advance ?z = x\<lparr>x_parser := body_done ?pr, x_user := v, x_p := x_p x + ?n\<rparr>"
    using k by (simp add: advance_def)
  ultimately show ?thesis by (simp only:)
qed

text \<open>A part of the body: one callback with the bytes there are, and that many less to come.\<close>

lemma run_body_part:
  assumes "at data x b" and "b \<noteq> []" and "p_state (x_parser x) = s_body_identity"
    and "length b < unat (p_content_length (x_parser x))" and "p_content_length (x_parser x) \<noteq> ULLONG_MAX"
    and "x_mark x = (\<lambda>_. None)" and "p_errno (x_parser x) = HPE_OK"
    and "h (E_body b) (x_user x) = Inr (0, v)"
  shows "exec_loop (settings_of h) data x = Return (x\<lparr>x_parser := (x_parser x)
      \<lparr>p_content_length := p_content_length (x_parser x) - of_nat (length b)\<rparr>, x_user := v, x_p := length data\<rparr>) (length data)"
proof -
  let ?st = "settings_of h" and ?n = "length b" and ?pr = "x_parser x"
  from assms(2) obtain c cs where b: "b = c # cs" by (cases b) auto
  have n: "to_read data x = ?n" using at_length [OF assms(1)] assms(4) by (simp add: to_read_def)
  have px: "x_p x < length data" using at_nth [of data x c cs] assms(1) b by simp
  have p: "x_p x + ?n = length data" using at_length [OF assms(1)] px by simp
  have nz: "p_content_length ?pr \<noteq> 0" using assms(4) by auto
  let ?cl = "p_content_length ?pr - of_nat ?n"
  have "unat (p_content_length (x_parser (take_body data x))) > 0"
    using assms(4) n by (simp add: unat_take_body)
  moreover have "p_content_length (x_parser (take_body data x)) = ?cl"
    using n by (simp add: take_body_def Let_def)
  ultimately have ncl: "?cl \<noteq> 0" by auto
  let ?t = "x\<lparr>x_parser := ?pr\<lparr>p_content_length := ?cl\<rparr>, x_p := x_p x + (?n - 1), x_mark := [cb_body \<mapsto> x_p x]\<rparr>"
  have t: "take_body data x = ?t"
    using assms(6) n by (simp add: take_body_def Let_def MARK_def upd_parser_def)
  have "step ?st data c x = Next ?t"
    using assms(3,5) nz ncl t by (simp add: step_def in_body_identity_def Let_def)
  then have "exec_loop ?st data x = exec_loop ?st data (advance ?t)"
    using assms(1,3) b by (intro run_byte_body [of _ _ c cs] exec_byte_step) (simp_all add: PARSING_HEADER_def)
  moreover have "advance ?t = x\<lparr>x_parser := ?pr\<lparr>p_content_length := ?cl\<rparr>, x_p := length data, x_mark := [cb_body \<mapsto> x_p x]\<rparr>"
    (is "_ = ?e") using b p by (simp add: advance_def)
  ultimately have r: "exec_loop ?st data x = exec_loop ?st data ?e" by (simp only:)
  have d: "drop (x_p x) data = b" using assms(1) by (simp add: at_def)
  have "exec_loop ?st data ?e = finish ?st data ?e" by (simp add: exec_loop.simps [of ?st data ?e])
  also have "\<dots> = Return (x\<lparr>x_parser := ?pr\<lparr>p_content_length := ?cl\<rparr>, x_user := v, x_p := length data\<rparr>) (length data)"
    using assms(6-8) d by (cases x) (simp add: finish_def CALLBACK_DATA_def settings_of_def)
  finally show ?thesis using r by (simp only:)
qed

text \<open>
  C27: A body of known length that is split over two calls of \<open>http_parser_execute\<close> is
  handed on as it was sent: the first call gives the body callback its part and counts it
  off, the second gives it the rest and ends the message exactly after the last byte of
  the body. No byte is lost, doubled or taken from what follows.
\<close>

theorem body_split_over_calls:
  assumes "p_state pr = s_body_identity" and "p_errno pr = HPE_OK"
    and "b1 \<noteq> []" and "b2 \<noteq> []" and "unat (p_content_length pr) = length b1 + length b2"
    and "p_content_length pr \<noteq> ULLONG_MAX"
    and "handles h [E_body b1, E_body b2, E_message_complete] u v"
  shows "\<exists>pr1 u1 pr2. http_parser_execute (settings_of h) b1 pr u = Inr (length b1, pr1, u1) \<and>
    http_parser_execute (settings_of h) b2 pr1 u1 = Inr (length b2, pr2, v) \<and>
    p_errno pr2 = HPE_OK \<and> p_state pr2 = NEW_MESSAGE pr2"
proof -
  obtain u1 where u1: "h (E_body b1) u = Inr (0, u1)" "handles h [E_body b2, E_message_complete] u1 v"
    using assms(7) by (auto simp: handles_Cons)
  have im: "initial_mark s_body_identity = (\<lambda>_. None)"
    by (auto simp: initial_mark_def fun_eq_iff split: data_cb.splits)
  let ?pr1 = "pr\<lparr>p_content_length := p_content_length pr - of_nat (length b1)\<rparr>"
  let ?x1 = "start_exec pr u"
  have x1: "x_parser ?x1 = pr" "x_user ?x1 = u" "x_p ?x1 = 0" "x_mark ?x1 = (\<lambda>_. None)"
    using assms(1) im by (simp_all add: start_exec_def)
  have l1: "length b1 < unat (p_content_length pr)" using assms(4,5) by simp
  have "exec_loop (settings_of h) b1 ?x1 = Return (?x1\<lparr>x_parser := ?pr1, x_user := u1, x_p := length b1\<rparr>) (length b1)"
    using run_body_part [of b1 ?x1 b1 h u1] assms(1-3,6) x1 l1 u1(1) by (simp add: at_def)
  then have r1: "http_parser_execute (settings_of h) b1 pr u = Inr (length b1, ?pr1, u1)"
    using assms(2,3) by (simp add: http_parser_execute_def returned_def)
  let ?x2 = "start_exec ?pr1 u1"
  have x2: "x_parser ?x2 = ?pr1" "x_user ?x2 = u1" "x_p ?x2 = 0" "x_mark ?x2 = (\<lambda>_. None)"
    using assms(1) im by (simp_all add: start_exec_def)
  have "to_read b1 ?x1 = length b1" using l1 x1 by (simp add: to_read_def)
  then have l2: "unat (p_content_length ?pr1) = length b2"
    using unat_take_body [of b1 ?x1] assms(5) x1 by (simp add: take_body_def Let_def)
  have "p_content_length ?pr1 \<noteq> ULLONG_MAX"
    by (rule not_ullong_max [OF assms(6)]) (use l2 assms(5) in simp)
  then have "exec_loop (settings_of h) b2 ?x2 = exec_loop (settings_of h) b2
      (?x2\<lparr>x_parser := body_done ?pr1, x_user := v, x_p := x_p ?x2 + length b2\<rparr>)"
    using run_body [of b2 ?x2 b2 "[]" h v] assms(1,2,4) x2 l2 u1(2) by (simp add: at_def)
  also have "\<dots> = Return (?x2\<lparr>x_parser := body_done ?pr1, x_user := v, x_p := x_p ?x2 + length b2\<rparr>) (length b2)"
    using assms(2) x2 by (intro exec_loop_end) (simp_all add: at_def body_done_def)
  finally have "http_parser_execute (settings_of h) b2 ?pr1 u1 = Inr (length b2, body_done ?pr1, v)"
    using assms(2,4) by (simp add: http_parser_execute_def returned_def)
  moreover have "p_state (body_done ?pr1) = NEW_MESSAGE (body_done ?pr1)"
    by (simp add: body_done_def NEW_MESSAGE_def http_should_keep_alive_def http_message_needs_eof_def start_state_def)
  moreover have "p_errno (body_done ?pr1) = HPE_OK" using assms(2) by (simp add: body_done_def)
  ultimately show ?thesis using r1 by blast
qed

theorem body_split_over_calls_witness:
  "\<exists>pr pr1 u1 pr2. http_parser_execute (settings_of record_event) ''ab'' pr [] = Inr (2, pr1, u1) \<and>
     http_parser_execute (settings_of record_event) ''cde'' pr1 u1 =
       Inr (3, pr2, [E_body ''ab'', E_body ''cde'', E_message_complete])"
proof -
  let ?pr = "(http_parser_init HTTP_REQUEST)\<lparr>p_state := s_body_identity, p_content_length := 5\<rparr>"
  have "handles record_event [E_body ''ab'', E_body ''cde'', E_message_complete] []
      ([] @ [E_body ''ab'', E_body ''cde'', E_message_complete])"
    by (rule handles_record)
  from body_split_over_calls [of ?pr "''ab''" "''cde''", OF _ _ _ _ _ _ this]
  have "\<exists>pr1 u1 pr2. http_parser_execute (settings_of record_event) ''ab'' ?pr [] = Inr (2, pr1, u1) \<and>
     http_parser_execute (settings_of record_event) ''cde'' pr1 u1 =
       Inr (3, pr2, [E_body ''ab'', E_body ''cde'', E_message_complete])"
    by (auto simp: http_parser_init_def)
  then show ?thesis by blast
qed

end
