(* ===== verification/Http_Parser_Calls.thy ===== *)
theory Http_Parser_Calls
  imports Http_Parser_Body
begin

text \<open>
  Several requests in one call of \<open>http_parser_execute\<close>, one request in several calls, and
  callbacks that stop the program: what the parser does at the seams.
\<close>

section \<open>A body whose callback faults\<close>

lemma exec_loop_fault:
  assumes "x_p x < length data" and "\<not> PARSING_HEADER (p_state (x_parser x))"
    and "step st data (data ! x_p x) x = Fault f"
  shows "exec_loop st data x = Fault f"
  using assms by (simp add: exec_loop.simps [of st data x] exec_byte.simps [of st data _ x] count_byte_def
      header_overflow_def Let_def)

lemma execute_body_fault:
  assumes "p_state pr = s_body_identity" and "p_errno pr = HPE_OK" and "data \<noteq> []"
    and "p_content_length pr \<noteq> 0" and "p_content_length pr \<noteq> ULLONG_MAX"
    and "\<And>bs. h (E_body bs) u = Inl f"
  shows "http_parser_execute (settings_of h) data pr u = Inl f"
proof -
  let ?st = "settings_of h" and ?x = "start_exec pr u"
  have im: "initial_mark s_body_identity = (\<lambda>_. None)"
    by (auto simp: initial_mark_def fun_eq_iff split: data_cb.splits)
  have x: "x_parser ?x = pr" "x_user ?x = u" "x_p ?x = 0" "x_mark ?x = (\<lambda>_. None)"
    using assms(1) im by (simp_all add: start_exec_def)
  let ?t = "take_body data ?x"
  have t: "p_errno (x_parser ?t) = HPE_OK" "x_user ?t = u" "x_mark ?t = [cb_body \<mapsto> 0]"
    "p_state (x_parser ?t) = s_body_identity" "x_p ?t = to_read data ?x - 1"
    using x assms(1,2) by (simp_all add: take_body_def Let_def MARK_def upd_parser_def)
  have "exec_loop ?st data ?x = Fault f"
  proof (cases "p_content_length (x_parser ?t) = 0")
    case True
    have "CALLBACK_DATA ?st data cb_body e r (set_state s_message_done ?t) k = Fault f" for e r k
      using t(1-3) assms(6) by (simp add: CALLBACK_DATA_def settings_of_def)
    then have "step ?st data (data ! x_p ?x) ?x = Fault f"
      using assms(1,4,5) x True by (simp add: step_def in_body_identity_def Let_def)
    then show ?thesis using assms(1,3) x by (intro exec_loop_fault) (simp_all add: PARSING_HEADER_def)
  next
    case False
    have "step ?st data (data ! x_p ?x) ?x = Next ?t"
      using assms(1,4,5) x False by (simp add: step_def in_body_identity_def Let_def)
    then have eb: "exec_byte ?st data (data ! x_p ?x) ?x = Next ?t" by (rule exec_byte_step)
    have "count_byte ?x = ?x" "\<not> header_overflow ?x"
      using assms(1) x by (simp_all add: count_byte_def header_overflow_def PARSING_HEADER_def)
    then have r: "exec_loop ?st data ?x = exec_loop ?st data (advance ?t)"
      using eb assms(3) x by (simp add: exec_loop.simps [of ?st data ?x] Let_def advance_def)
    have "to_read data ?x = length data"
    proof (rule ccontr)
      assume "to_read data ?x \<noteq> length data"
      then have "to_read data ?x = unat (p_content_length pr)" using x by (auto simp: to_read_def)
      then have "p_content_length (x_parser ?t) = 0" using x by (simp add: take_body_def Let_def)
      with False show False by simp
    qed
    then have "x_p (advance ?t) = length data" using t(5) assms(3) by (simp add: advance_def)
    then have "exec_loop ?st data (advance ?t) = finish ?st data (advance ?t)"
      by (simp add: exec_loop.simps [of ?st data "advance ?t"])
    also have "\<dots> = Fault f"
      using t(1-3) assms(6) by (simp add: finish_def CALLBACK_DATA_def settings_of_def advance_def)
    finally show ?thesis using r by simp
  qed
  with assms(2,3) show ?thesis by (simp add: http_parser_execute_def returned_def)
qed

section \<open>Two requests in one call\<close>

definition plain_headers :: "header_line list \<Rightarrow> bool" where
  "plain_headers hs \<longleftrightarrow> (\<forall>nv \<in> set hs. classify (map tolower (fst nv)) \<noteq> h_connection)"

lemma execute_two_run:
  assumes "request_ok m1 t1 d1 hs1" and "request_ok m2 t2 d2 hs2" and "plain_headers hs1" and "0 < digit_val d1"
    and "handles h (request_events m1 t1 d1 hs1 @ request_events m2 t2 d2 hs2) u v"
  shows "\<exists>pr. http_parser_execute (settings_of h) (request_text m1 t1 d1 hs1 @ request_text m2 t2 d2 hs2)
      (http_parser_init HTTP_REQUEST) u =
    Inr (length (request_text m1 t1 d1 hs1) + length (request_text m2 t2 d2 hs2), pr, v) \<and> p_errno pr = HPE_OK"
proof -
  let ?x = "start_exec (http_parser_init HTTP_REQUEST) u"
    and ?t1 = "request_text m1 t1 d1 hs1" and ?t2 = "request_text m2 t2 d2 hs2"
  let ?data = "?t1 @ ?t2" and ?st = "settings_of h"
  obtain w where w: "handles h (request_events m1 t1 d1 hs1) u w" "handles h (request_events m2 t2 d2 hs2) w v"
    using assms(5) by (auto simp: handles_append)
  have "at ?data ?x (?t1 @ ?t2)" by (simp add: at_def start_exec_init)
  moreover have ty: "p_type (x_parser ?x) = HTTP_REQUEST" by (simp add: start_exec_def http_parser_init_def)
  ultimately obtain y where y: "exec_loop ?st ?data ?x = exec_loop ?st ?data y" "at ?data y (?t2 @ [])"
    "x_user y = w" "x_mark y = (\<lambda>_. None)" "p_errno (x_parser y) = HPE_OK" "p_type (x_parser y) = HTTP_REQUEST"
    "p_nread (x_parser y) = 0" "p_state (x_parser y) = s_start_req"
    using run_request [of ?data ?x m1 t1 d1 hs1 ?t2 h w] assms(1,3,4) w(1)
    by (auto simp: start_exec_init plain_headers_def)
  obtain z where z: "exec_loop ?st ?data y = exec_loop ?st ?data z" "at ?data z []"
    "x_user z = v" "x_mark z = (\<lambda>_. None)" "p_errno (x_parser z) = HPE_OK"
    using run_request [OF y(2) assms(2) y(8,5,4,6,7)] w(2) y(3) by blast
  have "exec_loop ?st ?data ?x = Return z (length ?data)"
    using y(1) z(1) exec_loop_end [OF z(2,4,5)] by simp
  moreover have "?data \<noteq> []" by (simp add: request_text_def)
  moreover have "p_errno (http_parser_init HTTP_REQUEST) = HPE_OK" by (simp add: start_exec_init)
  ultimately have "http_parser_execute ?st ?data (http_parser_init HTTP_REQUEST) u =
      Inr (length ?data, x_parser z, v)"
    unfolding http_parser_execute_def using z(3) by (simp only: if_False simp_thms) (simp add: returned_def)
  with z(5) show ?thesis by simp
qed

section \<open>A target split over two calls\<close>

definition rest_text :: "char \<Rightarrow> header_line list \<Rightarrow> string" where
  "rest_text d hs = '' HTTP/1.'' @ [d] @ CRLF @ concat (map header_text hs) @ CRLF"

lemma request_text_split:
  "request_text m (a @ b) d hs = (method_strings m @ '' '' @ a) @ (b @ rest_text d hs)"
  by (simp add: request_text_def rest_text_def)

lemma initial_url_mark:
  "s \<in> url_states \<Longrightarrow> initial_mark s = [cb_url \<mapsto> 0]"
  unfolding url_states_def
  by (elim insertE) (auto simp: initial_mark_def fun_eq_iff split: data_cb.splits)

text \<open>The first call: the mark is still set at its end, and the callback gets what there is.\<close>

lemma run_target_part:
  assumes "at data x a" and "a \<noteq> []" and "foldl parse_url_char s_req_spaces_before_url a \<noteq> s_dead"
    and "p_state (x_parser x) = s_req_spaces_before_url" and "p_method (x_parser x) \<noteq> HTTP_CONNECT"
    and "p_errno (x_parser x) = HPE_OK" and "x_mark x = (\<lambda>_. None)" and "header_room x (length a)"
    and "h (E_url (p_method (x_parser x)) a) (x_user x) = Inr (0, v)"
  shows "exec_loop (settings_of h) data x = Return
    ((moved (length a) (\<lambda>pr. pr\<lparr>p_state := foldl parse_url_char s_req_spaces_before_url a\<rparr>) x)\<lparr>x_user := v\<rparr>)
    (length data)"
proof -
  from assms(2) obtain c cs where a: "a = c # cs" by (cases a) auto
  let ?st = "settings_of h" and ?s = "parse_url_char s_req_spaces_before_url c"
  let ?e = "foldl parse_url_char s_req_spaces_before_url a"
  let ?f = "\<lambda>s pr. pr\<lparr>p_state := s\<rparr>"
  have n: "?s \<noteq> s_dead" using assms(3) a by auto
  let ?m = "[cb_url \<mapsto> x_p x]"
  let ?x1 = "(moved 1 (?f ?s) x)\<lparr>x_mark := ?m\<rparr>"
  have "step ?st data c (counted x) = Next (set_state ?s (MARK cb_url (counted x)))"
    using assms(4,5) n parse_url_char_no_space [OF n]
    by (simp add: step_def in_req_spaces_before_url_def url_char_def Let_def)
  then have "exec_loop ?st data x = exec_loop ?st data (advance (set_state ?s (MARK cb_url (counted x))))"
    using assms a by (intro run_step [of _ _ c cs]) (simp_all add: PARSING_HEADER_def header_room_def)
  moreover have "advance (set_state ?s (MARK cb_url (counted x))) = ?x1"
    using assms(7) by (simp add: advance_def set_state_def MARK_def counted_def upd_parser_def moved_def)
  ultimately have r1: "exec_loop ?st data x = exec_loop ?st data ?x1" by (simp only:)
  have at1: "at data ?x1 (cs @ [])"
    using at_moved_1 [of data x c cs "?f ?s"] assms(1) a by (simp add: at_def)
  let ?x2 = "(moved (length a) (?f ?e) x)\<lparr>x_mark := ?m\<rparr>"
  have "exec_loop ?st data ?x1 = exec_loop ?st data (moved (length cs) (?f (foldl parse_url_char ?s cs)) ?x1)"
    using assms(3) n a assms(8) by (intro run_url [OF _ at1]) (simp_all add: parse_url_char_states header_room_def)
  moreover have "moved (length cs) (?f (foldl parse_url_char ?s cs)) ?x1 = ?x2"
    using a by (simp add: moved_def)
  ultimately have r2: "exec_loop ?st data ?x1 = exec_loop ?st data ?x2" by (simp only:)
  have le: "x_p x + length a = length data"
    using at_length [OF assms(1)] assms(1,2) by (auto simp: at_def)
  have slice: "drop (x_p x) (take (x_p x + length a) data) = a" using at_slice [of data x a "[]"] assms(1) by simp
  have "exec_loop ?st data ?x2 = finish ?st data ?x2"
    using le by (simp add: exec_loop.simps [of ?st data ?x2])
  also have "\<dots> = Return ((moved (length a) (?f ?e) x)\<lparr>x_user := v\<rparr>) (length data)"
    using assms(6,7,9) slice by (cases x) (simp add: finish_def CALLBACK_DATA_def settings_of_def moved_def)
  finally show ?thesis using r1 r2 by (simp only:)
qed

text \<open>The second call: the mark starts at 0.\<close>

lemma run_target_rest:
  assumes "at data x (b @ CHR '' '' # rest)" and "x_p x = 0" and "p_state (x_parser x) = s" and "s \<in> url_states"
    and "foldl parse_url_char s b \<in> {s_req_server, s_req_server_with_at, s_req_path, s_req_query_string_start,
      s_req_query_string, s_req_fragment_start, s_req_fragment}"
    and "p_errno (x_parser x) = HPE_OK" and "x_mark x = [cb_url \<mapsto> 0]" and "header_room x (Suc (length b))"
    and "h (E_url (p_method (x_parser x)) b) (x_user x) = Inr (0, v)"
  shows "exec_loop (settings_of h) data x = exec_loop (settings_of h) data
    (((moved (Suc (length b)) (\<lambda>pr. pr\<lparr>p_state := s_req_http_start\<rparr>) x)\<lparr>x_user := v\<rparr>)\<lparr>x_mark := (\<lambda>_. None)\<rparr>)"
proof -
  let ?st = "settings_of h" and ?e = "foldl parse_url_char s b" and ?f = "\<lambda>s pr. pr\<lparr>p_state := s\<rparr>"
  have ne: "?e \<noteq> s_dead" using assms(5) by auto
  let ?x2 = "moved (length b) (?f ?e) x"
  have r2: "exec_loop ?st data x = exec_loop ?st data ?x2"
    using assms(1,3,4,8) ne by (intro run_url) (simp_all add: header_room_def)
  have at2: "at data ?x2 (CHR '' '' # rest)" using at_moved [OF assms(1)] .
  let ?z = "(set_state s_req_http_start (counted ?x2))\<lparr>x_user := v, x_mark := (\<lambda>_. None)\<rparr>"
  have slice: "take (length b) data = b" using at_slice [OF assms(1)] assms(2) by simp
  have "step ?st data (CHR '' '') (counted ?x2) = in_req_url ?st data (CHR '' '') (counted ?x2)"
    using assms(5) by (elim insertE) (simp_all add: step_def)
  moreover have "in_req_url ?st data (CHR '' '') (counted ?x2) = Next ?z"
    using assms(2,6,7,9) slice by (simp add: in_req_url_def CALLBACK_DATA_def settings_of_def)
  ultimately have sp: "step ?st data (CHR '' '') (counted ?x2) = Next ?z" by simp
  have "PARSING_HEADER ?e" using assms(5) by (elim insertE) (simp_all add: PARSING_HEADER_def)
  then have "exec_loop ?st data ?x2 = exec_loop ?st data (advance ?z)"
    using assms(8) by (intro run_step [OF at2 _ _ sp]) (simp_all add: header_room_def)
  moreover have "advance ?z =
      ((moved (Suc (length b)) (?f s_req_http_start) x)\<lparr>x_user := v\<rparr>)\<lparr>x_mark := (\<lambda>_. None)\<rparr>"
    by (cases x) (simp add: advance_def set_state_def counted_def upd_parser_def moved_def)
  ultimately show ?thesis using r2 by (simp only:)
qed

lemma execute_split_target_run:
  assumes "request_ok m (a @ b) d hs" and "a \<noteq> []" and "b \<noteq> []"
    and "handles h ([E_message_begin, E_url m a, E_url m b] @ concat (map (header_events 1 (digit_val d)) hs) @
      [E_headers_complete, E_message_complete]) u v"
  shows "\<exists>pr1 u1 pr2.
    http_parser_execute (settings_of h) (method_strings m @ '' '' @ a) (http_parser_init HTTP_REQUEST) u =
      Inr (length (method_strings m @ '' '' @ a), pr1, u1) \<and>
    http_parser_execute (settings_of h) (b @ rest_text d hs) pr1 u1 =
      Inr (length (b @ rest_text d hs), pr2, v) \<and> p_errno pr2 = HPE_OK"
proof -
  let ?st = "settings_of h" and ?n = "length (method_strings m)" and ?H = "concat (map header_text hs)"
  let ?d1 = "method_strings m @ '' '' @ a" and ?d2 = "b @ rest_text d hs"
  let ?E = "foldl parse_url_char s_req_spaces_before_url"
  have ok: "?E (a @ b) \<in> {s_req_server, s_req_server_with_at, s_req_path, s_req_query_string_start,
      s_req_query_string, s_req_fragment_start, s_req_fragment}"
    "isdigit d" "\<forall>nv \<in> set hs. header_ok nv" "m \<noteq> HTTP_CONNECT"
    and len: "?n + (length a + length b) + length ?H + 14 \<le> HTTP_MAX_HEADER_SIZE"
    using assms(1) by (simp_all add: request_ok_def request_text_def target_ok_def)
  obtain u0 u1 u2 where u: "h E_message_begin u = Inr (0, u0)" "h (E_url m a) u0 = Inr (0, u1)"
    "h (E_url m b) u1 = Inr (0, u2)"
    "handles h (concat (map (header_events 1 (digit_val d)) hs) @ [E_headers_complete, E_message_complete]) u2 v"
    using assms(4) by (auto simp: handles_Cons)
  have ea: "?E a \<noteq> s_dead" using ok(1) by auto
  obtain c cs where a: "a = c # cs" using assms(2) by (cases a) auto
  have ua: "?E a \<in> url_states"
  proof -
    obtain a' c' where "a = a' @ [c']" using assms(2) by (metis rev_exhaust)
    then show ?thesis using ea parse_url_char_states [of "?E a'" c'] by simp
  qed
  let ?x = "start_exec (http_parser_init HTTP_REQUEST) u"
  have "at ?d1 ?x (method_strings m @ CHR '' '' # a)" by (simp add: at_def start_exec_init)
  moreover have "header_room ?x (Suc ?n)" using len by (simp add: header_room_def start_exec_init)
  ultimately obtain f where f: "exec_loop ?st ?d1 ?x = exec_loop ?st ?d1 ((moved (Suc ?n) f ?x)\<lparr>x_user := u0\<rparr>)"
    "\<forall>pr. p_state (f pr) = s_req_spaces_before_url \<and> p_method (f pr) = m \<and> p_flags (f pr) = {} \<and>
      p_content_length (f pr) = ULLONG_MAX \<and> p_nread (f pr) = p_nread pr \<and> p_errno (f pr) = p_errno pr \<and>
      p_type (f pr) = p_type pr"
    using run_request_line_method [of ?d1 ?x m a h u0] u(1) by (auto simp: start_exec_init)
  let ?x1 = "(moved (Suc ?n) f ?x)\<lparr>x_user := u0\<rparr>"
  have "at ?d1 (moved (length (method_strings m @ '' '')) f ?x) a"
    by (intro at_moved) (simp add: at_def start_exec_init)
  then have at1: "at ?d1 ?x1 a" by (simp add: at_def)
  let ?y = "(moved (length a) (\<lambda>pr. pr\<lparr>p_state := ?E a\<rparr>) ?x1)\<lparr>x_user := u1\<rparr>"
  have "exec_loop ?st ?d1 ?x1 = Return ?y (length ?d1)"
    using f(2) ok(4) len u(2) ea assms(2)
    by (intro run_target_part [OF at1]) (simp_all add: header_room_def start_exec_init)
  then have call1: "http_parser_execute ?st ?d1 (http_parser_init HTTP_REQUEST) u = Inr (length ?d1, x_parser ?y, u1)"
    using f(1) by (simp add: http_parser_execute_def returned_def start_exec_init)
  let ?pr = "x_parser ?y"
  have pr: "p_state ?pr = ?E a" "p_method ?pr = m" "p_flags ?pr = {}" "p_content_length ?pr = ULLONG_MAX"
    "p_nread ?pr = Suc ?n + length a" "p_errno ?pr = HPE_OK" "p_type ?pr = HTTP_REQUEST"
    using f(2) by (simp_all add: start_exec_init start_exec_def http_parser_init_def)
  let ?z = "start_exec ?pr u1"
  have z: "x_parser ?z = ?pr" "x_user ?z = u1" "x_p ?z = 0" "x_mark ?z = [cb_url \<mapsto> 0]"
    using initial_url_mark [OF ua] pr(1) by (simp_all add: start_exec_def)
  have atz: "at ?d2 ?z (b @ CHR '' '' # ''HTTP/1.'' @ d # CRLF @ ?H @ CRLF)"
    using z(3) by (simp add: at_def rest_text_def)
  let ?w = "((moved (Suc (length b)) (\<lambda>pr. pr\<lparr>p_state := s_req_http_start\<rparr>) ?z)\<lparr>x_user := u2\<rparr>)\<lparr>x_mark := (\<lambda>_. None)\<rparr>"
  have eb: "foldl parse_url_char (?E a) b \<in> {s_req_server, s_req_server_with_at, s_req_path,
      s_req_query_string_start, s_req_query_string, s_req_fragment_start, s_req_fragment}"
    using ok(1) by simp
  have hz: "p_state (x_parser ?z) = ?E a" "p_errno (x_parser ?z) = HPE_OK" "header_room ?z (Suc (length b))"
    "h (E_url (p_method (x_parser ?z)) b) (x_user ?z) = Inr (0, u2)"
    using pr(1,2,5,6) z(1,2) len u(3) by (simp_all add: header_room_def)
  have r2: "exec_loop ?st ?d2 ?z = exec_loop ?st ?d2 ?w"
    using atz z(3) hz(1) ua eb hz(2) z(4) hz(3,4) by (rule run_target_rest [of ?d2 ?z b _ "?E a" h u2])
  have "at ?d2 (moved (length (b @ '' '')) (\<lambda>pr. pr\<lparr>p_state := s_req_http_start\<rparr>) ?z)
      (''HTTP/1.'' @ d # CRLF @ ?H @ CRLF)"
    using atz by (intro at_moved) simp
  then have atw: "at ?d2 ?w (''HTTP/1.'' @ d # CRLF @ ?H @ CRLF @ [])" by (simp add: at_def)
  have w: "p_state (x_parser ?w) = s_req_http_start" "p_errno (x_parser ?w) = HPE_OK" "x_mark ?w = (\<lambda>_. None)"
    "p_type (x_parser ?w) = HTTP_REQUEST" "p_content_length (x_parser ?w) = ULLONG_MAX"
    "p_flags (x_parser ?w) = {}" "p_method (x_parser ?w) \<noteq> HTTP_CONNECT"
    "header_room ?w (12 + length ?H)"
    using pr z(1) len ok(4) by (simp_all add: header_room_def)
  have uw: "handles h (concat (map (header_events 1 (digit_val d)) hs) @ [E_headers_complete, E_message_complete])
      (x_user ?w) v"
    using u(4) by simp
  obtain q where q: "exec_loop ?st ?d2 ?w = exec_loop ?st ?d2 q" "at ?d2 q []" "x_user q = v"
    "x_mark q = (\<lambda>_. None)" "p_errno (x_parser q) = HPE_OK"
    using run_after_target [OF atw ok(2,3) w uw] by blast
  have "exec_loop ?st ?d2 ?z = Return q (length ?d2)"
    using r2 q(1) exec_loop_end [OF q(2,4,5)] by simp
  then have "http_parser_execute ?st ?d2 ?pr u1 = Inr (length ?d2, x_parser q, v)"
    using pr(6) q(3) assms(3) by (simp add: http_parser_execute_def returned_def)
  with call1 q(5) show ?thesis by blast
qed

end
