(* ===== verification/Http_Headers.thy ===== *)
theory Http_Headers
  imports Libc
begin

text \<open>
  The headers of a message: \<open>http_header\<close> and \<open>http_header_list\<close> of \<open>src/http.c\<close>, the
  latter a \<open>UT_array\<close> of \<open>lib/ut/utarray.h\<close> that owns the two strings of each element.
  \<open>utarray_erase\<close> calls the destructor on \<open>utarray_eltptr\<close>, which is \<open>NULL\<close> past the end.
\<close>

section \<open>Headers\<close>

record http_header =
  h_name :: string
  h_content :: "string option"

definition http_header_append_content :: "http_header \<Rightarrow> string \<Rightarrow> http_header" where
  "http_header_append_content h c =
     h\<lparr>h_content := Some (case h_content h of None \<Rightarrow> c | Some d \<Rightarrow> d @ c)\<rparr>"

definition http_header_new :: "string \<Rightarrow> string option \<Rightarrow> http_header" where
  "http_header_new name content =
     (let h = \<lparr>h_name = name, h_content = None\<rparr> in
      case content of None \<Rightarrow> h | Some c \<Rightarrow> http_header_append_content h c)"

lemma http_header_new_fields [simp]:
  "h_name (http_header_new n c) = n" "h_content (http_header_new n c) = c"
  by (cases c; simp add: http_header_new_def http_header_append_content_def)+

section \<open>The list\<close>

type_synonym http_header_list = "http_header list"

definition http_header_list_new :: http_header_list where
  "http_header_list_new = []"

definition utarray_push_back :: "'a list \<Rightarrow> 'a \<Rightarrow> 'a list" where
  "utarray_push_back a e = a @ [e]"

definition utarray_erase :: "'a list \<Rightarrow> nat \<Rightarrow> 'a list res" where
  "utarray_erase a pos = (if pos \<ge> length a then Inl Null_deref else Inr (take pos a @ drop (Suc pos) a))"

definition http_header_list_get :: "http_header_list \<Rightarrow> string \<Rightarrow> http_header option" where
  "http_header_list_get l name = (if name = [] then None else find (\<lambda>h. h_name h = name) l)"

text \<open>The pointers \<open>http_header_list_getall\<close> collects, as positions from \<open>i\<close> on.\<close>

fun getall_from :: "nat \<Rightarrow> http_header_list \<Rightarrow> string \<Rightarrow> nat list" where
  "getall_from i [] name = []"
| "getall_from i (h # hs) name =
     (if h_name h = name then i # getall_from (Suc i) hs name else getall_from (Suc i) hs name)"

definition http_header_list_getall :: "http_header_list \<Rightarrow> string \<Rightarrow> nat list" where
  "http_header_list_getall l name = getall_from 0 l name"

text \<open>
  The loop of \<open>http_header_list_remove\<close>: the positions are those of the list before the
  first removal.
\<close>

fun remove_positions :: "http_header_list \<Rightarrow> nat list \<Rightarrow> http_header_list res" where
  "remove_positions l [] = Inr l"
| "remove_positions l (p # ps) = bind_res (utarray_erase l p) (\<lambda>l'. remove_positions l' ps)"

definition http_header_list_remove :: "http_header_list \<Rightarrow> string \<Rightarrow> http_header_list res" where
  "http_header_list_remove l name = remove_positions l (http_header_list_getall l name)"

definition http_header_list_add :: "http_header_list \<Rightarrow> http_header \<Rightarrow> bool \<Rightarrow> http_header_list res" where
  "http_header_list_add l h replace =
     bind_res (if replace then http_header_list_remove l (h_name h) else Inr l)
       (\<lambda>l'. Inr (utarray_push_back l' h))"

section \<open>Removal\<close>

definition others :: "string \<Rightarrow> http_header_list \<Rightarrow> http_header_list" where
  "others name l = filter (\<lambda>h. h_name h \<noteq> name) l"

definition matches :: "string \<Rightarrow> http_header_list \<Rightarrow> nat" where
  "matches name l = length (filter (\<lambda>h. h_name h = name) l)"

lemma getall_shift: "getall_from (i + k) l name = map ((+) k) (getall_from i l name)"
  by (induction l arbitrary: i) (simp_all flip: add_Suc)

lemma getall_none: "matches name l = 0 \<Longrightarrow> getall_from i l name = [] \<and> others name l = l"
  by (induction l arbitrary: i) (auto simp: matches_def others_def)

lemma length_getall: "length (getall_from i l name) = matches name l"
  by (induction l arbitrary: i) (simp_all add: matches_def)

lemma getall_bounds: "p \<in> set (getall_from i l name) \<Longrightarrow> i \<le> p \<and> p < i + length l \<and> h_name (l ! (p - i)) = name"
proof (induction l arbitrary: i)
  case (Cons h l)
  show ?case
  proof (cases "p = i")
    case True
    have "i \<notin> set (getall_from (Suc i) l name)" using Cons.IH [of "Suc i"] True by fastforce
    with True Cons.prems show ?thesis by (auto split: if_splits)
  next
    case False
    with Cons.prems have "p \<in> set (getall_from (Suc i) l name)" by (auto split: if_splits)
    with Cons.IH have "Suc i \<le> p \<and> p < Suc i + length l \<and> h_name (l ! (p - Suc i)) = name" by blast
    moreover from this have "p - i = Suc (p - Suc i)" by linarith
    ultimately show ?thesis by simp
  qed
qed simp

lemma sorted_getall: "sorted_wrt (<) (getall_from i l name)"
proof (induction l arbitrary: i)
  case (Cons h l)
  have "i < p" if "p \<in> set (getall_from (Suc i) l name)" for p
    using getall_bounds [OF that] by simp
  with Cons show ?case by simp
qed simp

lemma remove_one:
  assumes "matches name l \<le> 1"
  shows "http_header_list_remove l name = Inr (others name l)"
proof (cases "matches name l = 0")
  case True
  then show ?thesis
    using getall_none by (simp add: http_header_list_remove_def http_header_list_getall_def)
next
  case False
  with assms have "length (filter (\<lambda>h. h_name h = name) l) = 1" unfolding matches_def by linarith
  then obtain h where "filter (\<lambda>h. h_name h = name) l = [h]"
    by (metis One_nat_def length_0_conv length_Suc_conv)
  from filter_eq_single_split [OF this] obtain us vs where l: "l = us @ h # vs" "h_name h = name"
    "\<forall>u \<in> set us. h_name u \<noteq> name" "\<forall>v \<in> set vs. h_name v \<noteq> name"
    by blast
  have n: "getall_from i us name = []" "getall_from j vs name = []" for i j
    using l(3,4) getall_none by (simp_all add: matches_def)
  have "getall_from i (us @ h # vs) name = [i + length us]" for i
    using l(3) l(2) n(2) by (induction us arbitrary: i) (auto split: if_splits)
  then have "http_header_list_getall l name = [length us]"
    using l(1) by (simp add: http_header_list_getall_def)
  moreover have "others name l = us @ vs" using l by (simp add: others_def)
  ultimately show ?thesis
    using l(1) by (simp add: http_header_list_remove_def utarray_erase_def)
qed

text \<open>Erasing at positions above \<open>j\<close> keeps the element at \<open>j\<close>.\<close>

lemma remove_above:
  "remove_positions l ps = Inr l' \<Longrightarrow> \<forall>p \<in> set ps. j < p \<Longrightarrow> j < length l \<Longrightarrow> j < length l' \<and> l' ! j = l ! j"
proof (induction ps arbitrary: l)
  case (Cons p ps)
  from Cons.prems(1) have p: "p < length l" and r: "remove_positions (take p l @ drop (Suc p) l) ps = Inr l'"
    by (auto simp: utarray_erase_def bind_res_eq_Inr split: if_splits)
  have j: "j < p" using Cons.prems(2) by simp
  have "j < length (take p l @ drop (Suc p) l)" using j p by simp
  with Cons.IH [OF r] Cons.prems(2) have "j < length l' \<and> l' ! j = (take p l @ drop (Suc p) l) ! j" by simp
  with j p show ?case by (simp add: nth_append)
qed simp

lemma remove_several:
  assumes "matches name l \<ge> 2" and "http_header_list_remove l name = Inr l'"
  shows "\<exists>h \<in> set l'. h_name h = name"
proof -
  obtain p q ps where g: "getall_from 0 l name = p # q # ps"
  proof (cases "getall_from 0 l name")
    case Nil
    then show ?thesis using assms(1) length_getall [of 0 l name] by simp
  next
    case (Cons p ps)
    then show ?thesis using that assms(1) length_getall [of 0 l name] by (cases ps) auto
  qed
  have s: "p < q" "\<forall>r \<in> set ps. q < r" using sorted_getall [of 0 l name] g by auto
  have q: "q < length l" "h_name (l ! q) = name" using getall_bounds [of q 0 l name] g by auto
  let ?l1 = "take p l @ drop (Suc p) l"
  have r: "remove_positions ?l1 (q # ps) = Inr l'"
    using assms(2) g s q by (simp add: http_header_list_remove_def http_header_list_getall_def utarray_erase_def)
  have "q - 1 < length ?l1" using s q by simp
  moreover have "\<forall>r \<in> set (q # ps). q - 1 < r" using s by auto
  ultimately have "q - 1 < length l' \<and> l' ! (q - 1) = ?l1 ! (q - 1)" using remove_above [OF r] by blast
  moreover have "?l1 ! (q - 1) = l ! q" using s q by (simp add: nth_append)
  ultimately show ?thesis using q(2) by (metis nth_mem)
qed

text \<open>
  \<open>http_header_list_remove\<close> removes the headers of a name, and nothing else, exactly
  when there is at most one: the positions it collected are stale after its first
  \<open>utarray_erase\<close>. With two or more it either runs into the destructor of \<open>NULL\<close> or
  leaves a header of that name in the list.
\<close>

theorem header_remove_exact:
  "http_header_list_remove l name = Inr (others name l) \<longleftrightarrow> matches name l \<le> 1"
proof
  assume r: "http_header_list_remove l name = Inr (others name l)"
  show "matches name l \<le> 1"
  proof (rule ccontr)
    assume "\<not> matches name l \<le> 1"
    then have "matches name l \<ge> 2" by simp
    from remove_several [OF this r] show False by (auto simp: others_def)
  qed
qed (rule remove_one)

section \<open>A list as a table of names\<close>

definition unique_names :: "http_header_list \<Rightarrow> bool" where
  "unique_names l \<longleftrightarrow> distinct (map h_name l)"

lemma unique_matches: "unique_names l \<Longrightarrow> matches name l \<le> 1"
proof (induction l)
  case (Cons h l)
  have "matches name l = 0" if "h_name h = name"
  proof -
    have "name \<notin> h_name ` set l" using Cons.prems that by (simp add: unique_names_def)
    then have "h_name x \<noteq> name" if "x \<in> set l" for x using that by blast
    then show ?thesis by (simp add: matches_def filter_empty_conv)
  qed
  with Cons show ?case by (auto simp: unique_names_def matches_def)
qed (simp add: matches_def)

text \<open>Several values set one after the other.\<close>

fun put_all ::
  "('s \<Rightarrow> string \<Rightarrow> string \<Rightarrow> 's res) \<Rightarrow> 's \<Rightarrow> (string \<times> string) list \<Rightarrow> 's res"
where
  "put_all put s [] = Inr s"
| "put_all put s ((n, v) # nvs) = bind_res (put s n v) (\<lambda>s'. put_all put s' nvs)"

text \<open>What the users of the list rely on: a value set under a name replaces the old one.\<close>

locale header_store =
  fixes put :: "'s \<Rightarrow> string \<Rightarrow> string \<Rightarrow> 's res"
    and lookup :: "'s \<Rightarrow> string \<Rightarrow> string option"
    and valid :: "'s \<Rightarrow> bool"
  assumes put_valid: "valid s \<Longrightarrow> \<exists>s'. put s n v = Inr s' \<and> valid s'"
    and lookup_put: "valid s \<Longrightarrow> put s n v = Inr s' \<Longrightarrow> m \<noteq> [] \<Longrightarrow>
      lookup s' m = (if m = n then Some v else lookup s m)"
begin

lemma put_all_valid: "valid s \<Longrightarrow> \<exists>s'. put_all put s nvs = Inr s' \<and> valid s'"
proof (induction nvs arbitrary: s)
  case (Cons nv nvs)
  obtain n v where nv: "nv = (n, v)" by (cases nv)
  obtain s1 where "put s n v = Inr s1" "valid s1" using put_valid [OF Cons.prems] by blast
  with Cons.IH [of s1] nv show ?case by simp
qed simp

lemma lookup_put_all:
  "valid s \<Longrightarrow> put_all put s nvs = Inr s' \<Longrightarrow> m \<noteq> [] \<Longrightarrow>
   lookup s' m = (case map_of (rev nvs) m of Some v \<Rightarrow> Some v | None \<Rightarrow> lookup s m)"
proof (induction nvs arbitrary: s)
  case (Cons nv nvs)
  obtain n v where nv: "nv = (n, v)" by (cases nv)
  obtain s1 where s1: "put s n v = Inr s1" "valid s1" using put_valid [OF Cons.prems(1)] by blast
  with Cons.prems nv have "put_all put s1 nvs = Inr s'" by simp
  from Cons.IH [OF s1(2) this Cons.prems(3)] lookup_put [OF Cons.prems(1) s1(1) Cons.prems(3)] nv
  show ?case by (auto simp: map_add_def split: option.splits)
qed simp

end

definition header_put :: "http_header_list \<Rightarrow> string \<Rightarrow> string \<Rightarrow> http_header_list res" where
  "header_put l n v = http_header_list_add l (http_header_new n (Some v)) True"

definition header_value :: "http_header_list \<Rightarrow> string \<Rightarrow> string option" where
  "header_value l n = Option.bind (http_header_list_get l n) h_content"

lemma header_put_eq:
  "unique_names l \<Longrightarrow> header_put l n v = Inr (others n l @ [http_header_new n (Some v)])"
  by (simp add: header_put_def http_header_list_add_def remove_one [OF unique_matches] utarray_push_back_def)

lemma unique_names_put:
  "unique_names l \<Longrightarrow> unique_names (others n l @ [http_header_new n (Some v)])"
  by (auto simp: unique_names_def others_def distinct_map intro: inj_on_subset)

lemma find_others: "n \<noteq> m \<Longrightarrow> find (\<lambda>h. h_name h = m) (others n l) = find (\<lambda>h. h_name h = m) l"
  by (induction l) (auto simp: others_def)

lemma find_others_same: "find (\<lambda>h. h_name h = n) (others n l) = None"
  by (simp add: find_None_iff others_def)

interpretation hdrs: header_store header_put header_value unique_names
proof unfold_locales
  fix s :: http_header_list and n v
  assume "unique_names s"
  then show "\<exists>s'. header_put s n v = Inr s' \<and> unique_names s'"
    by (simp add: header_put_eq unique_names_put)
next
  fix s s' :: http_header_list and n v m :: string
  assume "unique_names s" "header_put s n v = Inr s'" "m \<noteq> []"
  then show "header_value s' m = (if m = n then Some v else header_value s m)"
    by (auto simp: header_put_eq header_value_def http_header_list_get_def find_append find_others
      find_others_same split: option.splits)
qed

text \<open>
  C33: On a list with distinct names, setting headers one after the other with
  \<open>http_header_list_add(..., true)\<close> never faults, keeps the names distinct, and a later
  \<open>http_header_list_get\<close> finds the last value set under the name, or the one that was
  there before.
\<close>

theorem header_replace_lookup:
  assumes "unique_names l" and "m \<noteq> []"
  shows "\<exists>l'. put_all header_put l nvs = Inr l' \<and> unique_names l' \<and>
    header_value l' m = (case map_of (rev nvs) m of Some v \<Rightarrow> Some v | None \<Rightarrow> header_value l m)"
  using hdrs.put_all_valid [OF assms(1), of nvs] hdrs.lookup_put_all [OF assms(1) _ assms(2)] by blast

theorem header_replace_lookup_witness:
  "\<exists>l'. put_all header_put [] [(''Date'', ''x''), (''Date'', ''y'')] = Inr l' \<and> header_value l' ''Date'' = Some ''y''"
  using header_replace_lookup [of "[]" "''Date''" "[(''Date'', ''x''), (''Date'', ''y'')]"]
  by (auto simp: unique_names_def)

end
