(* ===== verification/Http_Body.thy ===== *)
theory Http_Body
  imports Libc Posix
begin

text \<open>
  \<open>src/http-body.c\<close>: the body of a message, a C string, a mapped file or an open file,
  and the three loops that write it out from \<open>rOffset\<close> on. The union of pointers is a
  datatype that also says what was freed. The bytes of a file do not change while it is
  open; which reads of it fail (by the offset read from), and with which \<open>errno\<close>, is a
  parameter. A body whose pointer is of another type than the body says is undefined
  behaviour of the program, an \<open>Out_of_bounds\<close> here.
\<close>

section \<open>State\<close>

datatype http_body_type = BODY_NONE | BODY_STRING | BODY_FILEMAP | BODY_FILE

datatype http_body_write_result = HBWRITE_DONE | HBWRITE_MORE | HBWRITE_BLOCKED | HBWRITE_ERROR

record open_file =
  f_bytes :: string
  f_fails :: "nat \<Rightarrow> errno option"

datatype body_ptr = P_null | P_str string | P_map string | P_file open_file | P_freed

record http_body =
  b_type :: http_body_type
  r_offset :: nat
  b_data :: body_ptr

definition http_body_new :: "http_body_type \<Rightarrow> body_ptr \<Rightarrow> http_body" where
  "http_body_new t p = \<lparr>b_type = t, r_offset = 0, b_data = (if t = BODY_NONE then P_null else p)\<rparr>"

text \<open>The pointer is of the type the body says.\<close>

fun ptr_fits :: "http_body_type \<Rightarrow> body_ptr \<Rightarrow> bool" where
  "ptr_fits BODY_STRING (P_str s) = True"
| "ptr_fits BODY_FILEMAP (P_map s) = True"
| "ptr_fits BODY_FILE (P_file f) = True"
| "ptr_fits t p = False"

definition http_body_clear :: "http_body \<Rightarrow> http_body res" where
  "http_body_clear b =
     (let done = Inr (b\<lparr>r_offset := 0\<rparr>) in
      if b_type b = BODY_NONE then done
      else if b_data b = P_null then done
      else if b_data b = P_freed then Inl Use_after_free
      else if \<not> ptr_fits (b_type b) (b_data b) then Inl Out_of_bounds
      else Inr (b\<lparr>r_offset := 0, b_data := P_freed\<rparr>))"

definition http_body_delete :: "http_body \<Rightarrow> unit res" where
  "http_body_delete b = bind_res (http_body_clear b) (\<lambda>_. Inr ())"

definition http_body_set_type :: "http_body \<Rightarrow> http_body_type \<Rightarrow> http_body res" where
  "http_body_set_type b t = bind_res (http_body_clear b) (\<lambda>b'. Inr (b'\<lparr>b_type := t\<rparr>))"

text \<open>
  \<open>http_body_append_str(body, str, n)\<close>: \<open>strncat\<close> takes as many characters of \<open>str\<close> as the
  new string could hold in all, not \<open>n\<close>.
\<close>

definition http_body_append_str :: "http_body \<Rightarrow> string \<Rightarrow> nat \<Rightarrow> (nat \<times> http_body) res" where
  "http_body_append_str b str n =
     (if b_type b \<noteq> BODY_STRING then Inl Assert_failed
      else if n = 0 then Inr (0, b)
      else
        let append = (\<lambda>old.
          let new_len = n + 1 + length old; add = take (new_len - 1) str in
          if length old + length add + 1 > new_len then Inl Out_of_bounds
          else Inr (new_len - 1, b\<lparr>b_data := P_str (old @ add)\<rparr>)) in
        case b_data b of
          P_null \<Rightarrow> append []
        | P_str s \<Rightarrow> append s
        | P_freed \<Rightarrow> Inl Use_after_free
        | _ \<Rightarrow> Inl Out_of_bounds)"

fun ptr_bytes :: "body_ptr \<Rightarrow> string" where
  "ptr_bytes (P_str s) = s"
| "ptr_bytes (P_map s) = s"
| "ptr_bytes (P_file f) = f_bytes f"
| "ptr_bytes p = []"

definition http_body_len :: "http_body \<Rightarrow> nat res" where
  "http_body_len b =
     (if b_type b = BODY_NONE then Inr 0
      else if b_data b = P_null then Inr 0
      else if b_data b = P_freed then Inl Use_after_free
      else if \<not> ptr_fits (b_type b) (b_data b) then Inl Out_of_bounds
      else Inr (length (ptr_bytes (b_data b))))"

section \<open>Writing to a descriptor\<close>

text \<open>
  \<open>_http_body_file_fill_buffer\<close>: the result with the bytes read, or the \<open>errno\<close> of the
  read that failed.
\<close>

datatype fill_result = Fill_error errno | Fill_more string | Fill_done string

definition fill_buffer :: "nat \<Rightarrow> nat \<Rightarrow> open_file \<Rightarrow> nat \<Rightarrow> fill_result" where
  "fill_buffer buf_len read_len f offset =
     (let n = min read_len buf_len; got = take n (drop offset (f_bytes f)) in
      case f_fails f offset of
        Some e \<Rightarrow> Fill_error e
      | None \<Rightarrow> if length got < n then Fill_done got else Fill_more got)"

definition buffer_len :: nat where
  "buffer_len = 16 * 1024"

text \<open>\<open>rOffset += written\<close>, where \<open>written\<close> may be \<open>-1\<close>.\<close>

definition advance :: "http_body \<Rightarrow> int \<Rightarrow> http_body" where
  "advance b written = b\<lparr>r_offset := nat ((int (r_offset b) + written) mod 2 ^ 64)\<rparr>"

text \<open>The switch of the loop: the result, \<open>written\<close> and the descriptor.\<close>

definition body_write :: "http_body \<Rightarrow> nat \<Rightarrow> fd_world \<Rightarrow> http_body_write_result \<times> int \<times> fd_world" where
  "body_write b write_len w =
     (case b_data b of
        P_file f \<Rightarrow>
          (case fill_buffer buffer_len write_len f (r_offset b) of
             Fill_error e \<Rightarrow> (HBWRITE_ERROR, -1, w\<lparr>errno := e\<rparr>)
           | Fill_more got \<Rightarrow> (HBWRITE_MORE, if got \<noteq> [] then sys_write w got else (-1, w))
           | Fill_done got \<Rightarrow> (HBWRITE_DONE, if got \<noteq> [] then sys_write w got else (-1, w)))
      | p \<Rightarrow> (HBWRITE_MORE, sys_write w (take write_len (drop (r_offset b) (ptr_bytes p)))))"

partial_function (option) body_fd_loop ::
  "http_body \<Rightarrow> fd_world \<Rightarrow> (http_body_write_result \<times> http_body \<times> fd_world) res option"
where
  "body_fd_loop b w =
     (case http_body_len b of
        Inl e \<Rightarrow> Some (Inl e)
      | Inr len \<Rightarrow>
          if r_offset b < len then
            (case body_write b (len - r_offset b) w of (result, written, w') \<Rightarrow>
               if written < 0 \<or> result = HBWRITE_ERROR then
                 Some (Inr (if errno w' = EAGAIN \<or> errno w' = EWOULDBLOCK then HBWRITE_BLOCKED
                            else HBWRITE_ERROR, b, w'))
               else if result = HBWRITE_DONE then
                 Some (Inr (HBWRITE_DONE, advance b written, w'\<lparr>errno := ENONE\<rparr>))
               else body_fd_loop (advance b written) w')
          else Some (Inr (HBWRITE_DONE, b, w\<lparr>errno := ENONE\<rparr>)))"

definition http_body_writeto_fd ::
  "http_body \<Rightarrow> fd_world \<Rightarrow> (http_body_write_result \<times> http_body \<times> fd_world) res option"
where
  "http_body_writeto_fd b w =
     (if b_type b \<noteq> BODY_NONE \<and> b_data b = P_null then Some (Inl Assert_failed)
      else body_fd_loop b w)"

section \<open>Writing to strings\<close>

text \<open>
  \<open>http_body_writeto_str\<close>: the bytes \<open>strncat\<close> adds, up to the first \<open>NUL\<close>, and
  \<open>written\<close>.
\<close>

definition body_str_copy :: "http_body \<Rightarrow> nat \<Rightarrow> http_body_write_result \<times> int \<times> string" where
  "body_str_copy b write_len =
     (case b_data b of
        P_file f \<Rightarrow>
          (case fill_buffer buffer_len write_len f (r_offset b) of
             Fill_error e \<Rightarrow> (HBWRITE_ERROR, -1, [])
           | Fill_more got \<Rightarrow> (HBWRITE_MORE, if got \<noteq> [] then (int (length got), cstr got) else (-1, []))
           | Fill_done got \<Rightarrow> (HBWRITE_DONE, if got \<noteq> [] then (int (length got), cstr got) else (-1, [])))
      | p \<Rightarrow> (HBWRITE_MORE, int write_len, cstr (take write_len (drop (r_offset b) (ptr_bytes p)))))"

text \<open>A null \<open>*str\<close> is allocated without room for the \<open>NUL\<close> that ends the string.\<close>

partial_function (option) body_str_loop ::
  "http_body \<Rightarrow> string option \<Rightarrow> (http_body_write_result \<times> http_body \<times> string option) res option"
where
  "body_str_loop b str =
     (case http_body_len b of
        Inl e \<Rightarrow> Some (Inl e)
      | Inr len \<Rightarrow>
          if r_offset b < len then
            (let write_len = len - r_offset b;
                 base = (case str of None \<Rightarrow> [] | Some s \<Rightarrow> s);
                 size = (case str of None \<Rightarrow> write_len | Some s \<Rightarrow> length s + write_len + 1)
             in case body_str_copy b write_len of (result, written, add) \<Rightarrow>
               if length base + length add + 1 > size then Some (Inl Out_of_bounds)
               else if result = HBWRITE_ERROR then Some (Inr (HBWRITE_ERROR, advance b written, Some base))
               else if result = HBWRITE_DONE then
                 Some (Inr (HBWRITE_DONE, advance b written, Some (base @ add)))
               else body_str_loop (advance b written) (Some (base @ add)))
          else Some (Inr (HBWRITE_DONE, b, str)))"

definition http_body_writeto_str ::
  "http_body \<Rightarrow> string option \<Rightarrow> (http_body_write_result \<times> http_body \<times> string option) res option"
where
  "http_body_writeto_str b str =
     (if b_type b \<noteq> BODY_NONE \<and> b_data b = P_null then Some (Inl Assert_failed)
      else body_str_loop b str)"

text \<open>
  \<open>http_body_writeto_utstring\<close>. The copy of a string or a mapped file starts at the first
  byte of the body, whatever \<open>rOffset\<close> is.
\<close>

definition body_ut_copy :: "http_body \<Rightarrow> nat \<Rightarrow> http_body_write_result \<times> int \<times> string" where
  "body_ut_copy b write_len =
     (case b_data b of
        P_file f \<Rightarrow>
          (case fill_buffer buffer_len write_len f (r_offset b) of
             Fill_error e \<Rightarrow> (HBWRITE_ERROR, -1, [])
           | Fill_more got \<Rightarrow> (HBWRITE_MORE, if got \<noteq> [] then (int (length got), got) else (-1, []))
           | Fill_done got \<Rightarrow> (HBWRITE_DONE, if got \<noteq> [] then (int (length got), got) else (-1, [])))
      | p \<Rightarrow> (HBWRITE_MORE, int write_len, take write_len (ptr_bytes p)))"

partial_function (option) body_ut_loop ::
  "http_body \<Rightarrow> string \<Rightarrow> (http_body_write_result \<times> http_body \<times> string) res option"
where
  "body_ut_loop b out =
     (case http_body_len b of
        Inl e \<Rightarrow> Some (Inl e)
      | Inr len \<Rightarrow>
          if r_offset b < len then
            (case body_ut_copy b (len - r_offset b) of (result, written, got) \<Rightarrow>
               if result = HBWRITE_ERROR then
                 Some (Inr (HBWRITE_ERROR, advance b written, out))
               else if result = HBWRITE_DONE then
                 Some (Inr (HBWRITE_DONE, advance b written, out @ got))
               else body_ut_loop (advance b written) (out @ got))
          else Some (Inr (HBWRITE_DONE, b, out)))"

definition http_body_writeto_utstring ::
  "http_body \<Rightarrow> string \<Rightarrow> (http_body_write_result \<times> http_body \<times> string) res option"
where
  "http_body_writeto_utstring b out =
     (if b_type b \<noteq> BODY_NONE \<and> b_data b = P_null then Some (Inl Assert_failed)
      else body_ut_loop b out)"

section \<open>Bodies that can be written\<close>

definition body_bytes :: "http_body \<Rightarrow> string" where
  "body_bytes b = (if b_type b = BODY_NONE then [] else ptr_bytes (b_data b))"

definition body_ok :: "http_body \<Rightarrow> bool" where
  "body_ok b \<longleftrightarrow> (b_type b = BODY_NONE \<or> ptr_fits (b_type b) (b_data b)) \<and>
     r_offset b \<le> length (body_bytes b) \<and> length (body_bytes b) < 2 ^ 63"

lemma ptr_fits_cases:
  assumes "ptr_fits t p"
  obtains (str) s where "t = BODY_STRING" "p = P_str s"
  | (map) s where "t = BODY_FILEMAP" "p = P_map s"
  | (open_file) f where "t = BODY_FILE" "p = P_file f"
  using assms by (cases rule: ptr_fits.cases [of "(t, p)"]) auto

lemma ptr_fits_null: "ptr_fits t P_null \<Longrightarrow> False"
  by (cases t) auto

lemma http_body_len_ok [simp]:
  "body_ok b \<Longrightarrow> http_body_len b = Inr (length (body_bytes b))"
  by (auto simp: body_ok_def http_body_len_def body_bytes_def elim: ptr_fits_cases)

lemma r_offset_advance [simp]:
  "r_offset b + m < 2 ^ 64 \<Longrightarrow> r_offset (advance b (int m)) = r_offset b + m"
  by (simp add: advance_def zmod_int [symmetric] flip: of_nat_add)

lemma advance_simps [simp]:
  "b_type (advance b i) = b_type b"
  "b_data (advance b i) = b_data b"
  "body_bytes (advance b i) = body_bytes b"
  by (simp_all add: advance_def body_bytes_def)

lemma advance_nat: "r_offset b + m < 2 ^ 64 \<Longrightarrow> advance b (int m) = b\<lparr>r_offset := r_offset b + m\<rparr>"
  using r_offset_advance [of b m] by (simp add: advance_def)

lemma body_ok_advance:
  "body_ok b \<Longrightarrow> r_offset b + m \<le> length (body_bytes b) \<Longrightarrow> body_ok (b\<lparr>r_offset := r_offset b + m\<rparr>)"
  by (auto simp: body_ok_def body_bytes_def split: if_splits)

text \<open>A read between \<open>rOffset\<close> and the length of the file is never short.\<close>

lemma fill_buffer_within:
  assumes "r_offset b < length (f_bytes f)"
  shows "(\<exists>e. fill_buffer buffer_len (length (f_bytes f) - r_offset b) f (r_offset b) = Fill_error e) \<or>
    (\<exists>n. 0 < n \<and> r_offset b + n \<le> length (f_bytes f) \<and>
      fill_buffer buffer_len (length (f_bytes f) - r_offset b) f (r_offset b) =
        Fill_more (take n (drop (r_offset b) (f_bytes f))))"
proof (cases "f_fails f (r_offset b)")
  case (Some e)
  then show ?thesis by (simp add: fill_buffer_def Let_def)
next
  case None
  let ?n = "min (length (f_bytes f) - r_offset b) buffer_len"
  have "0 < ?n" using assms by (simp add: buffer_len_def)
  moreover have "fill_buffer buffer_len (length (f_bytes f) - r_offset b) f (r_offset b) =
      Fill_more (take ?n (drop (r_offset b) (f_bytes f)))"
    using None by (simp add: fill_buffer_def Let_def)
  moreover have "r_offset b + ?n \<le> length (f_bytes f)" using assms by simp
  ultimately show ?thesis by blast
qed

lemma sys_write_piece:
  assumes "makes_progress w" and "0 < n" and "i + n \<le> length bs"
  shows "(\<exists>e. sys_write w (take n (drop i bs)) = (-1, w\<lparr>calls := Suc (calls w), errno := e\<rparr>)) \<or>
    (\<exists>m. 0 < m \<and> i + m \<le> length bs \<and> sys_write w (take n (drop i bs)) =
      (int m, w\<lparr>calls := Suc (calls w), sent := sent w @ take m (drop i bs)\<rparr>))"
proof (cases rule: sys_write_cases [of w "take n (drop i bs)"])
  case (fails e)
  then show ?thesis by blast
next
  case (accepts m)
  have len: "length (take n (drop i bs)) = n" using assms(3) by simp
  have "0 < m"
  proof (cases "outcome w (calls w)")
    case (Accepts k)
    with assms(1) have "0 < k" by (metis gr0I makes_progress_def)
    with accepts(3) [OF Accepts] len assms(2) show ?thesis by simp
  next
    case (Fails e)
    with accepts(2) show ?thesis by (simp add: sys_write_def)
  qed
  moreover from accepts(1) len have "m \<le> n" by simp
  ultimately show ?thesis using accepts(2) assms(3) by (intro disjI2 exI [of _ m]) (simp add: min_def)
qed

lemma body_write_within:
  assumes ok: "body_ok b" and lt: "r_offset b < length (body_bytes b)" and mp: "makes_progress w"
    and r: "body_write b (length (body_bytes b) - r_offset b) w = (res, written, w')"
  shows "(written = -1 \<and> sent w' = sent w \<and> res \<noteq> HBWRITE_DONE) \<or>
    (\<exists>m. written = int m \<and> 0 < m \<and> res = HBWRITE_MORE \<and> r_offset b + m \<le> length (body_bytes b) \<and>
      makes_progress w' \<and> sent w' = sent w @ take m (drop (r_offset b) (body_bytes b)))"
proof -
  from ok lt have "ptr_fits (b_type b) (b_data b)" by (auto simp: body_ok_def body_bytes_def)
  then show ?thesis
  proof (cases rule: ptr_fits_cases)
    case (str s)
    then have bb: "body_bytes b = s" by (simp add: body_bytes_def)
    from sys_write_piece [OF mp, of "length s - r_offset b" "r_offset b" s] lt bb mp r str
    show ?thesis by (auto simp: body_write_def)
  next
    case (map s)
    then have bb: "body_bytes b = s" by (simp add: body_bytes_def)
    from sys_write_piece [OF mp, of "length s - r_offset b" "r_offset b" s] lt bb mp r map
    show ?thesis by (auto simp: body_write_def)
  next
    case (open_file f)
    then have bb: "body_bytes b = f_bytes f" by (simp add: body_bytes_def)
    from lt bb have lt': "r_offset b < length (f_bytes f)" by simp
    from fill_buffer_within [OF lt'] show ?thesis
    proof (elim disjE exE conjE)
      fix e
      assume "fill_buffer buffer_len (length (f_bytes f) - r_offset b) f (r_offset b) = Fill_error e"
      with r bb open_file show ?thesis by (auto simp: body_write_def)
    next
      fix n
      assume n: "0 < n" "r_offset b + n \<le> length (f_bytes f)" and
        "fill_buffer buffer_len (length (f_bytes f) - r_offset b) f (r_offset b) =
          Fill_more (take n (drop (r_offset b) (f_bytes f)))"
      with r bb open_file have "(res, written, w') =
          (HBWRITE_MORE, sys_write w (take n (drop (r_offset b) (f_bytes f))))"
        by (auto simp: body_write_def)
      with sys_write_piece [OF mp n] mp bb show ?thesis by auto
    qed
  qed
qed

lemma body_fd_loop_writes:
  assumes "body_ok b" and "makes_progress w"
  shows "\<exists>res k w'. body_fd_loop b w = Some (Inr (res, b\<lparr>r_offset := r_offset b + k\<rparr>, w')) \<and>
    r_offset b + k \<le> length (body_bytes b) \<and>
    sent w' = sent w @ take k (drop (r_offset b) (body_bytes b)) \<and>
    res \<noteq> HBWRITE_MORE \<and> (res = HBWRITE_DONE \<longrightarrow> r_offset b + k = length (body_bytes b))"
  using assms
proof (induction "length (body_bytes b) - r_offset b" arbitrary: b w rule: less_induct)
  case less
  note ok = less.prems(1) and mp = less.prems(2)
  show ?case
  proof (cases "r_offset b < length (body_bytes b)")
    case False
    with ok have "r_offset b = length (body_bytes b)" by (simp add: body_ok_def)
    with ok show ?thesis
      by (intro exI [of _ HBWRITE_DONE] exI [of _ 0] exI [of _ "w\<lparr>errno := ENONE\<rparr>"])
         (simp add: body_fd_loop.simps [of b w])
  next
    case True
    obtain res written w1 where
      bw: "body_write b (length (body_bytes b) - r_offset b) w = (res, written, w1)"
      using prod_cases3 by blast
    from body_write_within [OF ok True mp bw] show ?thesis
    proof (elim disjE exE conjE)
      assume "written = -1" "sent w1 = sent w" "res \<noteq> HBWRITE_DONE"
      with ok True bw show ?thesis
        by (intro exI [of _ "if errno w1 = EAGAIN then HBWRITE_BLOCKED else HBWRITE_ERROR"]
              exI [of _ 0] exI [of _ w1]) (simp add: body_fd_loop.simps [of b w])
    next
      fix m
      assume m: "written = int m" "0 < m" "res = HBWRITE_MORE" "r_offset b + m \<le> length (body_bytes b)"
        "makes_progress w1" "sent w1 = sent w @ take m (drop (r_offset b) (body_bytes b))"
      let ?b = "b\<lparr>r_offset := r_offset b + m\<rparr>"
      have bytes: "body_bytes ?b = body_bytes b" by (simp add: body_bytes_def)
      have ok': "body_ok ?b" using ok m(4) by (rule body_ok_advance)
      from ok m(4) have "r_offset b + m < 2 ^ 64" by (simp add: body_ok_def)
      then have adv: "advance b (int m) = ?b" by (rule advance_nat)
      have step: "body_fd_loop b w = body_fd_loop ?b w1"
        using ok True bw m(1,3) by (simp add: body_fd_loop.simps [of b w] adv)
      have "length (body_bytes ?b) - r_offset ?b < length (body_bytes b) - r_offset b"
        using m(2,4) bytes by simp
      from less.hyps [OF this ok' m(5)] obtain res' k w' where
        r: "body_fd_loop ?b w1 = Some (Inr (res', ?b\<lparr>r_offset := r_offset ?b + k\<rparr>, w'))"
        "r_offset ?b + k \<le> length (body_bytes ?b)"
        "sent w' = sent w1 @ take k (drop (r_offset ?b) (body_bytes ?b))"
        "res' \<noteq> HBWRITE_MORE" "res' = HBWRITE_DONE \<longrightarrow> r_offset ?b + k = length (body_bytes ?b)"
        by blast
      have "sent w' = sent w @ take (m + k) (drop (r_offset b) (body_bytes b))"
        unfolding take_add using r(3) m(6) bytes by (simp add: add.commute)
      with r step bytes show ?thesis
        by (intro exI [of _ res'] exI [of _ "m + k"] exI [of _ w']) (simp add: add.assoc)
    qed
  qed
qed

section \<open>Properties\<close>

text \<open>
  C21: writing a body to a descriptor returns whatever the kernel answers (as long as it
  takes something when it takes), appends to the descriptor exactly the bytes of the body
  that \<open>rOffset\<close> moves over, never moves it beyond the end, and reports \<open>HBWRITE_DONE\<close>
  only when everything was sent: a blocked write is resumed without loss or repetition.
\<close>

theorem body_writeto_fd_resumes:
  assumes "body_ok b" and "makes_progress w"
  shows "\<exists>res k w'. http_body_writeto_fd b w = Some (Inr (res, b\<lparr>r_offset := r_offset b + k\<rparr>, w')) \<and>
    r_offset b + k \<le> length (body_bytes b) \<and>
    sent w' = sent w @ take k (drop (r_offset b) (body_bytes b)) \<and>
    (res = HBWRITE_DONE \<longrightarrow> r_offset b + k = length (body_bytes b))"
proof -
  have "http_body_writeto_fd b w = body_fd_loop b w"
    using assms(1) by (auto simp: http_body_writeto_fd_def body_ok_def)
  with body_fd_loop_writes [OF assms] show ?thesis by metis
qed

definition blocking_fd :: fd_world where
  "blocking_fd = \<lparr>outcome = (\<lambda>n. if n = 1 then Fails EAGAIN else Accepts 2), calls = 0,
     sent = [], errno = ENONE\<rparr>"

definition hello_body :: http_body where
  "hello_body = http_body_new BODY_STRING (P_str ''hello'')"

lemma hello_body_ok: "body_ok hello_body"
  by (simp add: body_ok_def hello_body_def http_body_new_def body_bytes_def)

theorem body_writeto_fd_resumes_witness:
  "\<exists>res k w'. http_body_writeto_fd hello_body blocking_fd =
      Some (Inr (res, hello_body\<lparr>r_offset := r_offset hello_body + k\<rparr>, w')) \<and>
    r_offset hello_body + k \<le> length (body_bytes hello_body) \<and>
    sent w' = sent blocking_fd @ take k (drop (r_offset hello_body) (body_bytes hello_body)) \<and>
    (res = HBWRITE_DONE \<longrightarrow> r_offset hello_body + k = length (body_bytes hello_body))"
proof -
  have "makes_progress blocking_fd" by (simp add: makes_progress_def blocking_fd_def)
  with hello_body_ok show ?thesis by (rule body_writeto_fd_resumes)
qed

text \<open>
  Appending \<open>n \<ge> 1\<close> bytes to a string body stays inside the string it reallocates
  exactly when the body was empty or the source string has no more than \<open>n\<close> characters:
  the copy is bounded by the length of the whole new string instead of by \<open>n\<close>.
\<close>

theorem append_str_in_bounds:
  assumes "b_type b = BODY_STRING" and "b_data b = P_str s" and "0 < n"
  shows "http_body_append_str b str n \<noteq> Inl Out_of_bounds \<longleftrightarrow> s = [] \<or> length str \<le> n"
  using assms by (auto simp: http_body_append_str_def Let_def)

theorem append_str_in_bounds_witness:
  "(http_body_append_str hello_body ''abcd'' 2 \<noteq> Inl Out_of_bounds) =
   (''hello'' = ([] :: string) \<or> length ''abcd'' \<le> 2)"
  by (rule append_str_in_bounds) (simp_all add: hello_body_def http_body_new_def)

text \<open>
  A string body of at least one character written to a null string always writes one
  byte past the \<open>calloc\<close>ated array: there is no room for the terminating \<open>NUL\<close>.
\<close>

theorem writeto_str_overflows:
  assumes "body_ok b" and "b_data b = P_str s" and "b_type b = BODY_STRING"
    and "NUL \<notin> set s" and "r_offset b < length s"
  shows "http_body_writeto_str b None = Some (Inl Out_of_bounds)"
proof -
  have bytes: "body_bytes b = s" using assms(2,3) by (simp add: body_bytes_def)
  have "NUL \<notin> set (take (length s - r_offset b) (drop (r_offset b) s))"
    using assms(4) by (meson in_set_dropD in_set_takeD)
  then have "body_str_copy b (length s - r_offset b) =
      (HBWRITE_MORE, int (length s - r_offset b), drop (r_offset b) s)"
    using assms(2) by (simp add: body_str_copy_def)
  with assms bytes show ?thesis
    by (simp add: http_body_writeto_str_def body_str_loop.simps [of b None] Let_def)
qed

theorem writeto_str_overflows_witness:
  "http_body_writeto_str hello_body None = Some (Inl Out_of_bounds)"
  by (rule writeto_str_overflows [OF hello_body_ok, of "''hello''"])
     (simp_all add: hello_body_def http_body_new_def)

text \<open>The loop over a file read in pieces, when no read fails.\<close>

lemma body_ut_loop_file:
  assumes "body_ok b" and "b_data b = P_file f" and "b_type b = BODY_FILE"
    and "\<And>i. f_fails f i = None"
  shows "body_ut_loop b out =
    Some (Inr (HBWRITE_DONE, b\<lparr>r_offset := length (f_bytes f)\<rparr>, out @ drop (r_offset b) (f_bytes f)))"
  using assms
proof (induction "length (body_bytes b) - r_offset b" arbitrary: b out rule: less_induct)
  case less
  note ok = less.prems(1)
  have bytes: "body_bytes b = f_bytes f" using less.prems(2,3) by (simp add: body_bytes_def)
  show ?case
  proof (cases "r_offset b < length (f_bytes f)")
    case False
    with ok bytes have "r_offset b = length (f_bytes f)" by (simp add: body_ok_def)
    with ok bytes show ?thesis by (simp add: body_ut_loop.simps [of b out])
  next
    case True
    have "\<nexists>e. fill_buffer buffer_len (length (f_bytes f) - r_offset b) f (r_offset b) = Fill_error e"
      using less.prems(4) by (simp add: fill_buffer_def Let_def)
    with fill_buffer_within [OF True] obtain n where
      n: "0 < n" "r_offset b + n \<le> length (f_bytes f)" and
      fb: "fill_buffer buffer_len (length (f_bytes f) - r_offset b) f (r_offset b) =
          Fill_more (take n (drop (r_offset b) (f_bytes f)))"
      by blast
    let ?b = "b\<lparr>r_offset := r_offset b + n\<rparr>" and ?got = "take n (drop (r_offset b) (f_bytes f))"
    from ok n bytes have "r_offset b + n < 2 ^ 64" by (simp add: body_ok_def)
    then have adv: "advance b (int n) = ?b" by (rule advance_nat)
    have ok': "body_ok ?b" using ok n(2) bytes by (intro body_ok_advance) simp_all
    have len: "length ?got = n" using n(2) by simp
    then have "?got \<noteq> []" using n(1) by (metis less_numeral_extra(3) list.size(3))
    with fb len have "body_ut_copy b (length (f_bytes f) - r_offset b) = (HBWRITE_MORE, int n, ?got)"
      by (simp only: body_ut_copy_def less.prems(2)) simp
    then have "body_ut_loop b out = body_ut_loop ?b (out @ ?got)"
      using ok True bytes by (simp add: body_ut_loop.simps [of b out] adv)
    also have "\<dots> = Some (Inr (HBWRITE_DONE, ?b\<lparr>r_offset := length (f_bytes f)\<rparr>,
        (out @ ?got) @ drop (r_offset ?b) (f_bytes f)))"
      using n(1,2) bytes less.prems(2-4) True ok' by (intro less.hyps) (simp_all add: body_bytes_def)
    also have "\<dots> = Some (Inr (HBWRITE_DONE, b\<lparr>r_offset := length (f_bytes f)\<rparr>,
        out @ drop (r_offset b) (f_bytes f)))"
      by (simp add: append_take_drop_id add.commute flip: drop_drop)
    finally show ?thesis .
  qed
qed

text \<open>A string or a mapped file goes in one piece.\<close>

lemma body_ut_loop_direct:
  assumes "body_ok b" and "r_offset b = 0" and "body_bytes b = s"
    and "b_data b = P_str s \<or> b_data b = P_map s"
  shows "body_ut_loop b out = Some (Inr (HBWRITE_DONE, b\<lparr>r_offset := length s\<rparr>, out @ s))"
proof -
  let ?b = "b\<lparr>r_offset := length s\<rparr>"
  have bytes: "body_bytes ?b = s" using assms(3) by (simp add: body_bytes_def split: if_splits)
  have ok': "body_ok ?b" using body_ok_advance [of b "length s"] assms by simp
  have fin: "body_ut_loop ?b o' = Some (Inr (HBWRITE_DONE, ?b, o'))" for o'
    using ok' bytes by (simp add: body_ut_loop.simps [of ?b o'])
  have adv: "advance b (int (length s)) = ?b"
    using advance_nat [of b "length s"] assms by (simp add: body_ok_def)
  have same: "b = ?b" if "s = []" using assms(2) that by simp
  show ?thesis
  proof (cases "s = []")
    case True
    with fin [of out] same show ?thesis by simp
  next
    case False
    with assms have "body_ut_loop b out = body_ut_loop ?b (out @ s)"
      using adv by (auto simp: body_ut_loop.simps [of b out] body_ut_copy_def)
    with fin show ?thesis by simp
  qed
qed

text \<open>
  A body none of which was written yet goes to a string buffer whole and in order,
  whatever its kind, an open file in pieces of at most 16 KiB.
\<close>

theorem writeto_utstring_whole:
  assumes "body_ok b" and "r_offset b = 0" and "\<And>f i. b_data b = P_file f \<Longrightarrow> f_fails f i = None"
  shows "\<exists>b'. http_body_writeto_utstring b out = Some (Inr (HBWRITE_DONE, b', out @ body_bytes b)) \<and>
    r_offset b' = length (body_bytes b)"
proof -
  have wt: "http_body_writeto_utstring b out = body_ut_loop b out"
    using assms(1) by (auto simp: http_body_writeto_utstring_def body_ok_def)
  show ?thesis
  proof (cases "body_bytes b = []")
    case True
    with assms(1,2) wt show ?thesis by (simp add: body_ut_loop.simps [of b out])
  next
    case False
    with assms(1) have "ptr_fits (b_type b) (b_data b)" by (auto simp: body_ok_def body_bytes_def)
    then show ?thesis
    proof (cases rule: ptr_fits_cases)
      case (open_file f)
      with assms wt body_ut_loop_file [OF assms(1) open_file(2,1)] show ?thesis
        by (simp add: body_bytes_def)
    next
      case (str s)
      with assms(1,2) wt body_ut_loop_direct [of b s] show ?thesis by (simp add: body_bytes_def)
    next
      case (map s)
      with assms(1,2) wt body_ut_loop_direct [of b s] show ?thesis by (simp add: body_bytes_def)
    qed
  qed
qed

theorem writeto_utstring_whole_witness:
  "\<exists>b'. http_body_writeto_utstring hello_body ''x'' = Some (Inr (HBWRITE_DONE, b', ''x'' @ body_bytes hello_body)) \<and>
    r_offset b' = length (body_bytes hello_body)"
  by (rule writeto_utstring_whole [OF hello_body_ok]) (simp_all add: hello_body_def http_body_new_def)

end
