(* ===== verification/Util.thy ===== *)
theory Util
  imports Libc
begin

text \<open>
  \<open>src/util.c\<close>: the string helpers and the mapped files. A string argument is a C string,
  so it holds no \<open>NUL\<close>; the functions that write past the array they allocated give
  \<open>Out_of_bounds\<close>. The log messages of \<open>fatal\<close>, \<open>warning\<close> and \<open>info\<close> are left out.
\<close>

section \<open>Lines\<close>

definition chomp_cr :: "string \<Rightarrow> string" where
  "chomp_cr t = (if last t = CR then butlast t else t)"

text \<open>
  Without a line feed the copy of the string gets no byte for its \<open>NUL\<close>; with line feeds
  the result has as many slots as there are line feeds, which may be fewer than the lines.
\<close>

definition str_splitlines :: "string \<Rightarrow> (string list \<times> nat) res" where
  "str_splitlines str =
     (let line_count = count_list str LF in
      if line_count = 0 then Inl Out_of_bounds
      else
        let lines = strtok_all (\<lambda>c. c = LF) str in
        if length lines > line_count then Inl Out_of_bounds
        else Inr (map chomp_cr lines, line_count))"

section \<open>Trimming\<close>

text \<open>The loop \<open>while(end > str && isspace(*end)) end--\<close>, on the index of \<open>end\<close>.\<close>

fun trim_end :: "string \<Rightarrow> nat \<Rightarrow> nat" where
  "trim_end str 0 = 0"
| "trim_end str (Suc e) = (if isspace (str ! Suc e) then trim_end str e else Suc e)"

definition str_trimwhitespace :: "string \<Rightarrow> string" where
  "str_trimwhitespace s =
     (let str = dropWhile isspace s in
      if str = [] then str else take (Suc (trim_end str (length str - 1))) str)"

lemma trim_end_le: "trim_end str e \<le> e"
  by (induction str e rule: trim_end.induct) auto

lemma trim_end_spaces: "trim_end str e < i \<Longrightarrow> i \<le> e \<Longrightarrow> isspace (str ! i)"
  by (induction str e rule: trim_end.induct) (auto simp: le_Suc_eq split: if_splits)

lemma trim_end_stops: "0 < trim_end str e \<Longrightarrow> \<not> isspace (str ! trim_end str e)"
  by (induction str e rule: trim_end.induct) auto

section \<open>Replacing\<close>

text \<open>The loop of \<open>str_replace\<close>, the offset kept in a \<open>uint32_t\<close>.\<close>

fun replace_loop :: "nat \<Rightarrow> string \<Rightarrow> string \<Rightarrow> string \<Rightarrow> string" where
  "replace_loop 0 result search replacement = result"
| "replace_loop (Suc n) result search replacement =
     (case strstr result search of
        None \<Rightarrow> result
      | Some pos \<Rightarrow>
          replace_loop n
            (take (pos mod 2 ^ 32) result @ replacement @ drop (pos + length search) result)
            search replacement)"

definition str_replace :: "string \<Rightarrow> string \<Rightarrow> string \<Rightarrow> string" where
  "str_replace haystack search replacement =
     (if length search > length haystack \<or> search = [] then haystack
      else replace_loop 1000 haystack search replacement)"

lemma count_take_le: "m \<le> n \<Longrightarrow> count_list (take m xs) c \<le> count_list (take n xs) c"
  by (metis append_take_drop_id count_list_append le_add1 min.absorb_iff2 min.commute take_take)

lemma drop_append_long: "length (xs @ ys) = n \<Longrightarrow> drop n (xs @ ys @ zs) = zs"
  by (metis append.assoc append_eq_conv_conj)

lemma replace_count:
  assumes "strstr result search = Some pos" and "c \<in> set search" and "c \<notin> set replacement"
  shows "count_list (take (pos mod 2 ^ 32) result @ replacement @ drop (pos + length search) result) c
    < count_list result c"
proof -
  obtain t where t: "result = take pos result @ search @ t" "pos + length search \<le> length result"
    using strstr_Some [OF assms(1)] by blast
  have "length (take pos result @ search) = pos + length search" using t(2) by simp
  then have "drop (pos + length search) result = t"
    using arg_cong [OF t(1), of "drop (pos + length search)"] by (simp only: drop_append_long)
  moreover have "count_list result c = count_list (take pos result) c + count_list search c + count_list t c"
    using arg_cong [OF t(1), of "\<lambda>r. count_list r c"] by (simp only: count_list_append add.assoc)
  moreover have "0 < count_list search c" using assms(2) by (metis count_list_0_iff gr0I)
  moreover have "count_list replacement c = 0" using assms(3) by (metis count_list_0_iff)
  moreover have "count_list (take (pos mod 2 ^ 32) result) c \<le> count_list (take pos result) c"
    by (intro count_take_le) simp
  ultimately show ?thesis by simp
qed

lemma replace_loop_removes:
  assumes "c \<in> set search" and "c \<notin> set replacement" and "count_list result c \<le> n"
  shows "strstr (replace_loop n result search replacement) search = None"
  using assms(3)
proof (induction n arbitrary: result)
  case 0
  then have "c \<notin> set result" by (simp add: count_list_0_iff)
  with assms(1) show ?case by (auto simp: strstr_None)
next
  case (Suc n)
  show ?case
  proof (cases "strstr result search")
    case None
    then show ?thesis by simp
  next
    case (Some pos)
    with replace_count [OF Some assms(1,2)] Suc show ?thesis by simp
  qed
qed

text \<open>When the marker cannot start inside what precedes it, the first occurrence is there.\<close>

lemma strstr_at:
  assumes "c \<notin> set a"
  shows "strstr (a @ (c # p) @ b) (c # p) = Some (length a)"
  using assms
proof (induction a)
  case Nil
  then show ?case by (simp add: starts_with_def)
next
  case (Cons x a)
  then have "\<not> starts_with ((x # a) @ (c # p) @ b) (c # p)" by (auto simp: starts_with_def)
  with Cons show ?case by simp
qed

lemma strstr_skip:
  "c \<notin> set u \<Longrightarrow> strstr (u @ w) (c # p) = map_option (\<lambda>i. length u + i) (strstr w (c # p))"
proof (induction u)
  case Nil
  then show ?case by (simp add: option.map_ident)
next
  case (Cons x u)
  then have "\<not> starts_with ((x # u) @ w) (c # p)" by (auto simp: starts_with_def)
  with Cons show ?case by (simp add: option.map_comp comp_def)
qed

lemma replace_loop_absent:
  "strstr h search = None \<Longrightarrow> replace_loop n h search replacement = h"
  by (cases n) simp_all

lemma str_replace_absent: "strstr h search = None \<Longrightarrow> str_replace h search replacement = h"
  by (simp add: str_replace_def replace_loop_absent)

lemma strstr_absent: "c \<notin> set a \<Longrightarrow> strstr a (c # p) = None"
  by (auto simp: strstr_None)

lemma str_replace_once:
  assumes "c \<notin> set a" and "c \<notin> set replacement" and "length a < 2 ^ 32"
    and "strstr (a @ replacement @ b) (c # p) = None"
  shows "str_replace (a @ (c # p) @ b) (c # p) replacement = a @ replacement @ b"
proof -
  have "strstr (a @ (c # p) @ b) (c # p) = Some (length a)" by (rule strstr_at [OF assms(1)])
  moreover have "length a mod 2 ^ 32 = length a" using assms(3) by simp
  moreover have "drop (length a + length (c # p)) (a @ (c # p) @ b) = b" by simp
  moreover have "take (length a) (a @ (c # p) @ b) = a" by simp
  ultimately have once: "replace_loop (Suc n) (a @ (c # p) @ b) (c # p) replacement =
      replace_loop n (a @ replacement @ b) (c # p) replacement" for n
    by (simp only: replace_loop.simps(2) option.case)
  have stop: "replace_loop (Suc n) (a @ replacement @ b) (c # p) replacement = a @ replacement @ b" for n
    using assms(4) by (simp only: replace_loop.simps(2) option.case)
  have "replace_loop (Suc (Suc 998)) (a @ (c # p) @ b) (c # p) replacement = a @ replacement @ b"
    by (simp only: once stop)
  moreover have "Suc (Suc 998) = (1000 :: nat)" by simp
  ultimately have "replace_loop 1000 (a @ (c # p) @ b) (c # p) replacement = a @ replacement @ b"
    by (simp only:)
  then show ?thesis by (simp add: str_replace_def)
qed

section \<open>File names and mapped files\<close>

text \<open>\<open>basename_r\<close>, on the GNU \<open>basename\<close>.\<close>

definition basename_r :: "string \<Rightarrow> string" where
  "basename_r path = (case strrchr path (CHR ''/'') of None \<Rightarrow> path | Some s \<Rightarrow> tl s)"

text \<open>
  \<open>file_map_new\<close>, on what \<open>open\<close> finds under the name (a parameter): \<open>mmap\<close> refuses a file
  of no bytes.
\<close>

definition file_map_new :: "(string \<Rightarrow> string option) \<Rightarrow> string \<Rightarrow> string option" where
  "file_map_new fs filename =
     (case fs filename of
        None \<Rightarrow> None
      | Some bytes \<Rightarrow> if bytes = [] then None else Some bytes)"

definition file_map_copyto_string :: "string \<Rightarrow> string \<Rightarrow> nat \<Rightarrow> string res" where
  "file_map_copyto_string m str str_len =
     (let add = cstr m; newsize = str_len + length m in
      if length str + length add + 1 > newsize + 1 then Inl Out_of_bounds else Inr (str @ add))"

definition file_map_copyto_utstring :: "string \<Rightarrow> string \<Rightarrow> string" where
  "file_map_copyto_utstring m utstr = utstr @ m"

section \<open>Properties\<close>

text \<open>
  A string as its pieces, with the marker between them: \<open>filled n\<close> has the first \<open>n\<close> markers
  replaced.
\<close>

fun filled :: "nat \<Rightarrow> string \<Rightarrow> string \<Rightarrow> string list \<Rightarrow> string" where
  "filled n search replacement [] = []"
| "filled n search replacement [p] = p"
| "filled n search replacement (p # q # ps) =
     p @ (if n = 0 then search else replacement) @ filled (n - 1) search replacement (q # ps)"

lemma filled_merge:
  "filled n search replacement ((p @ replacement @ q) # ps) = p @ replacement @ filled n search replacement (q # ps)"
  by (cases ps) simp_all

text \<open>
  The first marker is found where it is: every occurrence has the first \<open>c\<close> of the marker at a
  \<open>c\<close> of the string, and there is none before.
\<close>

lemma strstr_first:
  assumes "c \<in> set search" and "c \<notin> set p"
  shows "strstr (p @ search @ t) search = Some (length p)"
proof -
  from split_list_first [OF assms(1)] obtain u v where uv: "search = u @ c # v" "c \<notin> set u" by blast
  have "strstr (p @ search @ t) search = Some (length p)" if "c \<notin> set p" for p
    using that
  proof (induction p)
    case Nil
    have "starts_with (search @ t) search" by (simp add: starts_with_def)
    then show ?case using uv(1) by (cases "search @ t") auto
  next
    case (Cons x p)
    have "\<not> starts_with ((x # p) @ search @ t) search"
    proof
      assume "starts_with ((x # p) @ search @ t) search"
      then have "take (length search) ((x # p) @ search @ t) ! length u = search ! length u"
        by (simp add: starts_with_def)
      moreover have "length u < length search" by (simp add: uv(1))
      ultimately have "((x # p) @ search @ t) ! length u = search ! length u" by (simp only: nth_take)
      then have "((x # p) @ u @ c # v @ t) ! length u = c" by (simp add: uv(1))
      moreover have "((x # p) @ u @ c # v @ t) ! length u \<in> set (x # p) \<union> set u"
      proof -
        have "((x # p) @ u @ c # v @ t) ! length u = ((x # p) @ u) ! length u"
          using nth_append [of "(x # p) @ u" "c # v @ t" "length u"] by simp
        moreover have "((x # p) @ u) ! length u \<in> set ((x # p) @ u)" by (rule nth_mem) simp
        ultimately show ?thesis by simp
      qed
      ultimately show False using Cons.prems uv(2) by auto
    qed
    with Cons show ?case by simp
  qed
  with assms(2) show ?thesis by blast
qed

lemma replace_loop_filled:
  assumes "c \<in> set search" and "c \<notin> set replacement"
  shows "\<forall>p \<in> set ps. c \<notin> set p \<Longrightarrow> length (filled n search replacement ps) < 2 ^ 32 \<Longrightarrow>
    replace_loop n (filled 0 search replacement ps) search replacement = filled n search replacement ps"
proof (induction n arbitrary: ps)
  case 0
  then show ?case by simp
next
  case (Suc n)
  consider "ps = []" | p where "ps = [p]" | p q qs where "ps = p # q # qs"
    by (cases ps; cases "tl ps") auto
  then show ?case
  proof cases
    case 1
    with assms(1) have "strstr (filled 0 search replacement ps) search = None" by (auto simp: strstr_None)
    with 1 show ?thesis by simp
  next
    case 2
    with assms(1) Suc.prems have "strstr (filled 0 search replacement ps) search = None" by (auto simp: strstr_None)
    with 2 show ?thesis by simp
  next
    case 3
    let ?rest = "filled 0 search replacement (q # qs)" and ?p = "p @ replacement @ q"
    have at: "strstr (p @ search @ ?rest) search = Some (length p)"
      using strstr_first [OF assms(1), of p ?rest] Suc.prems(1) 3 by simp
    have len: "length (filled n search replacement (?p # qs)) < 2 ^ 32"
      using Suc.prems(2) unfolding filled_merge by (simp add: 3)
    then have "length p mod 2 ^ 32 = length p" unfolding filled_merge by simp
    with at have "replace_loop (Suc n) (filled 0 search replacement ps) search replacement =
        replace_loop n (filled 0 search replacement (?p # qs)) search replacement"
      unfolding filled_merge by (simp add: 3)
    also have "\<dots> = filled n search replacement (?p # qs)"
      using Suc.prems(1) assms(2) 3 by (intro Suc.IH [OF _ len]) auto
    also have "\<dots> = filled (Suc n) search replacement ps" unfolding filled_merge by (simp add: 3)
    finally show ?thesis .
  qed
qed

text \<open>
  C36: let some character \<open>c\<close> of the marker be missing from the replacement. Then on any
  string in which \<open>c\<close> occurs at most a thousand times, replacing removes the marker
  altogether, whatever the occurrences that appear on the way. And on pieces without \<open>c\<close> with
  the marker between them, the result is these pieces with the replacement between them, up to
  the thousandth marker; the markers after that stay, as the loop stops after a thousand
  turns. (The result is to be shorter than 4 GiB, the offset being a \<open>uint32_t\<close>.)
\<close>

theorem str_replace_removes:
  assumes "c \<in> set search" and "c \<notin> set replacement"
  shows "(count_list haystack c \<le> 1000 \<longrightarrow> strstr (str_replace haystack search replacement) search = None) \<and>
    ((\<forall>p \<in> set pieces. c \<notin> set p) \<and> length (filled 1000 search replacement pieces) < 2 ^ 32 \<longrightarrow>
      str_replace (filled 0 search replacement pieces) search replacement = filled 1000 search replacement pieces)"
proof (intro conjI impI)
  have some: "search \<noteq> []" using assms(1) by auto
  show "strstr (str_replace haystack search replacement) search = None" if "count_list haystack c \<le> 1000"
  proof (cases "length search > length haystack")
    case True
    then show ?thesis by (auto simp: str_replace_def strstr_None)
  next
    case False
    with some replace_loop_removes [OF assms that] show ?thesis by (simp add: str_replace_def)
  qed
  assume p: "(\<forall>p \<in> set pieces. c \<notin> set p) \<and> length (filled 1000 search replacement pieces) < 2 ^ 32"
  then have run: "replace_loop 1000 (filled 0 search replacement pieces) search replacement =
      filled 1000 search replacement pieces"
    by (intro replace_loop_filled [OF assms]) auto
  have "pieces = [] \<or> (\<exists>p. pieces = [p]) \<or> length search \<le> length (filled 0 search replacement pieces)"
    by (cases pieces; cases "tl pieces") auto
  then show "str_replace (filled 0 search replacement pieces) search replacement = filled 1000 search replacement pieces"
    using run some by (auto simp: str_replace_def)
qed

text \<open>
  The marker between three pieces; and, of a thousand and one markers, the last stays.
\<close>

lemma filled_all:
  "length ps \<le> Suc n \<Longrightarrow> filled n search replacement (ps @ [[]]) =
    (if length ps \<le> n then concat (map (\<lambda>p. p @ replacement) ps)
     else concat (map (\<lambda>p. p @ replacement) (butlast ps)) @ last ps @ search)"
proof (induction ps arbitrary: n)
  case (Cons p ps)
  then show ?case by (cases ps; cases n) auto
qed simp

theorem str_replace_removes_witness:
  "strstr (str_replace ''a{{t}}b{{t}}'' ''{{t}}'' ''xy'') ''{{t}}'' = None \<and>
   str_replace ''a{{t}}b{{t}}c'' ''{{t}}'' ''xy'' = ''axybxyc'' \<and>
   str_replace (filled 0 ''{{t}}'' ''x'' (replicate 1001 ''a'' @ [[]])) ''{{t}}'' ''x'' =
     concat (replicate 1000 ''ax'') @ ''a{{t}}''"
proof (intro conjI)
  have c: "CHR ''{'' \<in> set ''{{t}}''" "CHR ''{'' \<notin> set ''xy''" "CHR ''{'' \<notin> set ''x''" by simp_all
  show "strstr (str_replace ''a{{t}}b{{t}}'' ''{{t}}'' ''xy'') ''{{t}}'' = None"
    using str_replace_removes [OF c(1,2), of "''a{{t}}b{{t}}''" "[]"] by simp
  show "str_replace ''a{{t}}b{{t}}c'' ''{{t}}'' ''xy'' = ''axybxyc''"
    using str_replace_removes [OF c(1,2), of "[]" "[''a'', ''b'', ''c'']"] by simp
  have r: "filled 1000 ''{{t}}'' ''x'' (replicate 1001 ''a'' @ [[]]) = concat (replicate 1000 ''ax'') @ ''a{{t}}''"
    using filled_all [of "replicate 1001 ''a''" 1000 "''{{t}}''" "''x''"]
    by (simp add: butlast_conv_take last_replicate del: replicate.simps)
  have "length (concat (replicate n ''ax'')) = 2 * n" for n by (induction n) simp_all
  then have "length (concat (replicate 1000 ''ax'') @ ''a{{t}}'') < 2 ^ 32" by (simp del: replicate.simps)
  then show "str_replace (filled 0 ''{{t}}'' ''x'' (replicate 1001 ''a'' @ [[]])) ''{{t}}'' ''x'' =
     concat (replicate 1000 ''ax'') @ ''a{{t}}''"
    using str_replace_removes [OF c(1,3), of "[]" "replicate 1001 ''a'' @ [[]]"] r
    by (simp del: replicate.simps)
qed

text \<open>
  Trimming takes off spaces only, and all of those at both ends.
\<close>

theorem trim_spec:
  "\<exists>a b. s = a @ str_trimwhitespace s @ b \<and> (\<forall>c \<in> set a \<union> set b. isspace c) \<and>
     (str_trimwhitespace s \<noteq> [] \<longrightarrow>
        \<not> isspace (hd (str_trimwhitespace s)) \<and> \<not> isspace (last (str_trimwhitespace s)))"
proof -
  let ?a = "takeWhile isspace s" and ?t = "dropWhile isspace s"
  have a: "\<forall>c \<in> set ?a. isspace c" by (auto dest: set_takeWhileD)
  have s: "s = ?a @ ?t" by simp
  show ?thesis
  proof (cases "?t = []")
    case True
    then have "s = ?a @ str_trimwhitespace s @ []" by (simp add: str_trimwhitespace_def Let_def)
    moreover have "str_trimwhitespace s = []" using True by (simp add: str_trimwhitespace_def Let_def)
    ultimately show ?thesis using a by (intro exI [of _ ?a] exI [of _ "[]"]) auto
  next
    case False
    let ?e = "trim_end ?t (length ?t - 1)"
    have r: "str_trimwhitespace s = take (Suc ?e) ?t"
      by (simp only: str_trimwhitespace_def Let_def False if_False)
    have e: "?e < length ?t" using trim_end_le [of ?t "length ?t - 1"] False by (cases ?t) auto
    have "isspace c" if "c \<in> set (drop (Suc ?e) ?t)" for c
    proof -
      from that obtain i where "i < length ?t - Suc ?e" "c = ?t ! (Suc ?e + i)"
        by (auto simp: in_set_conv_nth)
      with trim_end_spaces [of ?t "length ?t - 1" "Suc ?e + i"] show ?thesis by simp
    qed
    moreover have hd: "\<not> isspace (hd ?t)" using hd_dropWhile [OF False] .
    moreover have "\<not> isspace (?t ! ?e)"
      using trim_end_stops [of ?t "length ?t - 1"] hd False by (cases "?e = 0") (simp_all add: hd_conv_nth)
    then have "\<not> isspace (last (take (Suc ?e) ?t))" using e by (simp add: take_Suc_conv_app_nth)
    moreover have "hd (take (Suc ?e) ?t) = hd ?t" by (cases ?t) simp_all
    moreover have "s = ?a @ take (Suc ?e) ?t @ drop (Suc ?e) ?t" by (simp only: append_take_drop_id s [symmetric])
    ultimately show ?thesis unfolding r using a hd
      by (intro exI [of _ ?a] exI [of _ "drop (Suc ?e) ?t"]) (simp only:, blast)
  qed
qed

theorem trim_spec_witness:
  "\<exists>a b. '' x y '' = a @ str_trimwhitespace '' x y '' @ b \<and> (\<forall>c \<in> set a \<union> set b. isspace c)"
  using trim_spec [of "'' x y ''"] by blast

end
