(* ===== verification/Http_Message.thy ===== *)
theory Http_Message
  imports Http_Headers Http_Body Util Utlist
begin

text \<open>
  Requests and responses, the rest of \<open>src/http.c\<close>: request and response lines, the text
  they are written as, the built-in error pages, chunks, and the list of responses that wait
  on a connection. The date of a response, which \<open>strftime\<close> prints, is a parameter.
\<close>

section \<open>Methods\<close>

datatype http_request_method =
  METHOD_GET | METHOD_POST | METHOD_HEAD | METHOD_PUT | METHOD_DELETE | METHOD_OPTIONS |
  METHOD_TRACE | METHOD_CONNECT | METHOD_OTHER | METHOD_INVALID

fun http_method_getstring :: "http_request_method \<Rightarrow> string option \<Rightarrow> string res" where
  "http_method_getstring METHOD_GET other = Inr ''GET''"
| "http_method_getstring METHOD_POST other = Inr ''POST''"
| "http_method_getstring METHOD_HEAD other = Inr ''HEAD''"
| "http_method_getstring METHOD_PUT other = Inr ''PUT''"
| "http_method_getstring METHOD_DELETE other = Inr ''DELETE''"
| "http_method_getstring METHOD_OPTIONS other = Inr ''OPTIONS''"
| "http_method_getstring METHOD_TRACE other = Inr ''TRACE''"
| "http_method_getstring METHOD_CONNECT other = Inr ''CONNECT''"
| "http_method_getstring METHOD_INVALID other = Inr ''<INVALID>''"
| "http_method_getstring METHOD_OTHER other =
     (case other of None \<Rightarrow> Inl Assert_failed | Some s \<Rightarrow> Inr s)"

definition known_methods :: "http_request_method list" where
  "known_methods = [METHOD_GET, METHOD_POST, METHOD_HEAD, METHOD_PUT, METHOD_DELETE,
     METHOD_OPTIONS, METHOD_TRACE, METHOD_CONNECT]"

fun find_method :: "http_request_method list \<Rightarrow> string \<Rightarrow> http_request_method" where
  "find_method [] s = METHOD_INVALID"
| "find_method (m # ms) s = (if http_method_getstring m None = Inr s then m else find_method ms s)"

definition http_method_fromstring :: "string \<Rightarrow> http_request_method" where
  "http_method_fromstring s = find_method known_methods s"

section \<open>Request and response lines\<close>

datatype http_version = HTTP10 | HTTP11 | HTTPXX

record http_request_line =
  rl_method :: http_request_method
  rl_method_other :: "string option"
  rl_uri :: "string option"
  rl_version :: http_version

definition http_request_line_new :: "http_request_method \<Rightarrow> string option \<Rightarrow> http_request_line res" where
  "http_request_line_new m other =
     (if m = METHOD_OTHER then
        (case other of
           None \<Rightarrow> Inl Assert_failed
         | Some s \<Rightarrow> Inr \<lparr>rl_method = m, rl_method_other = Some s, rl_uri = None, rl_version = HTTPXX\<rparr>)
      else Inr \<lparr>rl_method = m, rl_method_other = None, rl_uri = None, rl_version = HTTPXX\<rparr>)"

record http_response_line =
  sl_version :: http_version
  sl_code :: "16 word"
  sl_custom_message :: "string option"

definition http_response_line_new :: "16 word \<Rightarrow> http_response_line" where
  "http_response_line_new code = \<lparr>sl_version = HTTP11, sl_code = code, sl_custom_message = None\<rparr>"

definition status_messages :: "(nat \<times> string) list" where
  "status_messages =
    [(100, ''Continue''), (101, ''Switching Protocols''), (200, ''OK''), (201, ''Created''),
     (202, ''Accepted''), (203, ''Non-Authoritative Information''), (204, ''No Content''),
     (205, ''Reset Content''), (206, ''Partial Content''), (300, ''Multiple Choices''),
     (301, ''Moved Permanently''), (302, ''Found''), (303, ''See Other''), (304, ''Not Modified''),
     (305, ''Use Proxy''), (307, ''Temporary Redirect''), (400, ''Bad Request''),
     (401, ''Unauthorized''), (403, ''Forbidden''), (404, ''Not Found''),
     (405, ''Method Not Allowed''), (406, ''Not Acceptable''),
     (407, ''Proxy Authentication Required''), (408, ''Request Timeout''), (409, ''Conflict''),
     (410, ''Gone''), (411, ''Length Required''), (412, ''Precondition Failed''),
     (413, ''Request Entity Too Large''), (414, ''Request-URI Too Long''),
     (415, ''Unsupported Media Type''), (416, ''Requested Range Not Satisfiable''),
     (417, ''Expectation Failed''), (500, ''Internal Server Error''), (501, ''Not Implemented''),
     (502, ''Bad Gateway''), (503, ''Service Unavailable''), (504, ''Gateway Timeout''),
     (505, ''HTTP Version Not Supported'')]"

definition http_response_line_get_message :: "http_response_line \<Rightarrow> string" where
  "http_response_line_get_message r =
     (case sl_custom_message r of
        Some m \<Rightarrow> m
      | None \<Rightarrow> (case map_of status_messages (unat (sl_code r)) of Some m \<Rightarrow> m | None \<Rightarrow> []))"

section \<open>Requests\<close>

datatype http_request_parsestatus = PARSE_REQUESTLINE | PARSE_HEADERS | PARSE_BODY | PARSE_DONE | PARSE_FAIL

record http_request =
  rq_line :: "http_request_line option"
  rq_parsestatus :: http_request_parsestatus
  rq_headers :: http_header_list
  rq_body :: http_body

definition http_request_new :: http_request where
  "http_request_new = \<lparr>rq_line = None, rq_parsestatus = PARSE_REQUESTLINE,
     rq_headers = http_header_list_new, rq_body = http_body_new BODY_NONE P_null\<rparr>"

definition http_request_append_body :: "http_request \<Rightarrow> string \<Rightarrow> http_request res" where
  "http_request_append_body r body =
     (if b_type (rq_body r) \<noteq> BODY_STRING then Inl Assert_failed
      else bind_res (http_body_append_str (rq_body r) body (length body))
        (\<lambda>(_, b). Inr (r\<lparr>rq_body := b\<rparr>)))"

text \<open>What \<open>printf\<close> makes of a \<open>%s\<close> whose argument may be null.\<close>

definition printf_s :: "string option \<Rightarrow> string" where
  "printf_s s = (case s of None \<Rightarrow> ''(null)'' | Some t \<Rightarrow> t)"

definition header_line :: "http_header \<Rightarrow> string" where
  "header_line h = h_name h @ '': '' @ printf_s (h_content h) @ CRLF"

definition header_lines :: "http_header_list \<Rightarrow> string" where
  "header_lines l = concat (map header_line l)"

definition request_line_text :: "string \<Rightarrow> http_request_line \<Rightarrow> string" where
  "request_line_text m l = m @ '' '' @ printf_s (rl_uri l) @ '' '' @
     (if rl_version l = HTTP10 then ''HTTP/1.0'' else ''HTTP/1.1'') @ CRLF"

definition http_request_write :: "http_request \<Rightarrow> (string \<times> http_request) res option" where
  "http_request_write r =
     (case rq_line r of
        None \<Rightarrow> Some (Inl Assert_failed)
      | Some l \<Rightarrow>
          (case http_method_getstring (rl_method l) (rl_method_other l) of
             Inl e \<Rightarrow> Some (Inl e)
           | Inr m \<Rightarrow>
               (case http_body_writeto_utstring (rq_body r)
                       (request_line_text m l @ header_lines (rq_headers r) @ CRLF) of
                  None \<Rightarrow> None
                | Some (Inl e) \<Rightarrow> Some (Inl e)
                | Some (Inr (_, b, out)) \<Rightarrow> Some (Inr (out, r\<lparr>rq_body := b\<rparr>)))))"

definition http_request_delete :: "http_request \<Rightarrow> unit res" where
  "http_request_delete r = http_body_delete (rq_body r)"

section \<open>Responses\<close>

datatype http_response_send_status = SEND_RESPONSE_LINE | SEND_HEADERS | SEND_BODY | SEND_DONE

record http_response =
  rs_line :: http_response_line
  rs_headers :: http_header_list
  rs_body_chunked :: bool
  rs_body :: http_body
  rs_send_status :: http_response_send_status

definition http_response_new :: "http_response_line \<Rightarrow> http_response" where
  "http_response_new l = \<lparr>rs_line = l, rs_headers = http_header_list_new, rs_body_chunked = False,
     rs_body = http_body_new BODY_NONE P_null, rs_send_status = SEND_RESPONSE_LINE\<rparr>"

definition http_response_append_body :: "http_response \<Rightarrow> string \<Rightarrow> http_response res" where
  "http_response_append_body r body =
     (if b_type (rs_body r) \<noteq> BODY_STRING then Inl Assert_failed
      else bind_res (http_body_append_str (rs_body r) body (length body))
        (\<lambda>(_, b). Inr (r\<lparr>rs_body := b\<rparr>)))"

definition http_response_delete :: "http_response \<Rightarrow> unit res" where
  "http_response_delete r = http_body_delete (rs_body r)"

abbreviation HEADER_CONTENT_TYPE :: string where "HEADER_CONTENT_TYPE \<equiv> ''Content-Type''"
abbreviation HEADER_CONTENT_LENGTH :: string where "HEADER_CONTENT_LENGTH \<equiv> ''Content-Length''"
abbreviation HEADER_TRANSFER_ENCODING :: string where "HEADER_TRANSFER_ENCODING \<equiv> ''Transfer-Encoding''"
abbreviation HEADER_DATE :: string where "HEADER_DATE \<equiv> ''Date''"
abbreviation HEADER_SERVER :: string where "HEADER_SERVER \<equiv> ''Server''"

definition SERVER_NAME :: string where "SERVER_NAME = ''KHTTP/0.1''"

definition DEFAULT_CONTENT_TYPE :: string where "DEFAULT_CONTENT_TYPE = ''text/plain''"

definition status_line_text :: "http_response_line \<Rightarrow> string" where
  "status_line_text l =
     (case sl_version l of HTTP10 \<Rightarrow> ''HTTP/1.0 '' | HTTP11 \<Rightarrow> ''HTTP/1.1 '' | HTTPXX \<Rightarrow> []) @
     dec (unat (sl_code l)) @ '' '' @ http_response_line_get_message l @ CRLF"

text \<open>The headers every response but \<open>100\<close> gets; the length is a \<open>uint32_t\<close>.\<close>

definition framing_header :: "http_response \<Rightarrow> (string \<times> string) res" where
  "framing_header r =
     (if rs_body_chunked r then Inr (HEADER_TRANSFER_ENCODING, ''chunked'')
      else bind_res (http_body_len (rs_body r))
        (\<lambda>n. Inr (HEADER_CONTENT_LENGTH, dec (n mod 2 ^ 32))))"

definition add_default_type :: "http_header_list \<Rightarrow> http_header_list res" where
  "add_default_type l =
     (case http_header_list_get l HEADER_CONTENT_TYPE of
        None \<Rightarrow> http_header_list_add l (http_header_new HEADER_CONTENT_TYPE (Some DEFAULT_CONTENT_TYPE)) False
      | Some _ \<Rightarrow> Inr l)"

definition response_headers :: "string \<Rightarrow> http_response \<Rightarrow> http_header_list res" where
  "response_headers date r =
     (if unat (sl_code (rs_line r)) = 100 then Inr (rs_headers r)
      else
        bind_res (framing_header r) (\<lambda>(n, v).
        bind_res (header_put (rs_headers r) n v) (\<lambda>l.
        bind_res (add_default_type l) (\<lambda>l.
        bind_res (header_put l HEADER_DATE date) (\<lambda>l.
        header_put l HEADER_SERVER SERVER_NAME)))))"

text \<open>\<open>http_response_write\<close>: \<open>None\<close> is the null pointer it returns once the headers are out.\<close>

definition http_response_write :: "string \<Rightarrow> http_response \<Rightarrow> (string option \<times> http_response) res" where
  "http_response_write date r =
     (if rs_send_status r = SEND_BODY \<or> rs_send_status r = SEND_DONE then Inr (None, r)
      else
        let line = (if rs_send_status r = SEND_RESPONSE_LINE then status_line_text (rs_line r) else []) in
        bind_res (response_headers date r)
          (\<lambda>l. Inr (Some (line @ header_lines l @ CRLF), r\<lparr>rs_headers := l, rs_send_status := SEND_BODY\<rparr>)))"

section \<open>Built-in pages\<close>

text \<open>
  The contents of \<open>error.html\<close>, when there is such a file, come through \<open>file_map_new\<close> of
  the file system \<open>fs\<close>; the map is read as a C string.
\<close>

definition builtin_template :: "(string \<Rightarrow> string option) \<Rightarrow> http_response \<Rightarrow> http_response res" where
  "builtin_template fs r =
     (case file_map_new fs ''error.html'' of
        Some m \<Rightarrow> http_response_append_body r (cstr m)
      | None \<Rightarrow>
          bind_res (http_response_append_body r (''{{title}}'' @ [LF, LF] @ ''{{message}}'')) (\<lambda>r.
          bind_res (http_header_list_add (rs_headers r) (http_header_new HEADER_CONTENT_TYPE (Some ''text/plain'')) True)
            (\<lambda>l. Inr (r\<lparr>rs_headers := l\<rparr>))))"

definition builtin_title :: "16 word \<Rightarrow> string \<Rightarrow> string" where
  "builtin_title code message =
     take 1022 ((if 400 \<le> code then ''Error'' else ''Response Code'') @ '' '' @ dec (unat code) @
       '' - '' @ message)"

definition builtin_fill :: "string \<Rightarrow> string \<Rightarrow> string \<Rightarrow> string" where
  "builtin_fill str title errmsg =
     str_replace (str_replace (str_replace str ''{{title}}'' title) ''{{body_title}}'' title)
       ''{{message}}'' errmsg"

definition http_response_create_builtin ::
  "(string \<Rightarrow> string option) \<Rightarrow> 16 word \<Rightarrow> string option \<Rightarrow> http_response res"
where
  "http_response_create_builtin fs code errmsg =
     bind_res (http_body_set_type (rs_body (http_response_new (http_response_line_new code))) BODY_STRING) (\<lambda>b.
     bind_res (http_header_list_add http_header_list_new (http_header_new HEADER_CONTENT_TYPE (Some ''text/html'')) False) (\<lambda>l.
     bind_res (builtin_template fs
       ((http_response_new (http_response_line_new code))\<lparr>rs_body := b, rs_headers := l\<rparr>)) (\<lambda>r.
       case b_data (rs_body r) of
         P_str str \<Rightarrow>
           Inr (r\<lparr>rs_body := (rs_body r)\<lparr>b_data := P_str (builtin_fill str
                  (builtin_title code (http_response_line_get_message (rs_line r)))
                  (case errmsg of None \<Rightarrow> [] | Some m \<Rightarrow> m))\<rparr>\<rparr>)
       | _ \<Rightarrow> Inl Null_deref)))"

section \<open>Chunks\<close>

definition HTTP_CHUNK_MAXSIZE :: nat where "HTTP_CHUNK_MAXSIZE = 1024 * 16"

definition chunk_line :: "nat \<Rightarrow> string" where
  "chunk_line n = hex n @ '';'' @ CRLF"

definition chunk_overhead :: nat where
  "chunk_overhead = length (chunk_line HTTP_CHUNK_MAXSIZE) + 3"

text \<open>The loop of \<open>http_chunks_write\<close>, on what is left of the source.\<close>

definition chunk_len :: "nat \<Rightarrow> nat" where
  "chunk_len sourcerem =
     (if sourcerem > HTTP_CHUNK_MAXSIZE - chunk_overhead
      then HTTP_CHUNK_MAXSIZE - chunk_overhead else sourcerem)"

lemma hex_4000: "hex 16384 = ''4000''"
proof -
  have "hex_char 4 = CHR ''4''" "hex_char 0 = CHR ''0''" by code_simp+
  then show ?thesis by (simp add: hex_step hex_small)
qed

lemma chunk_overhead: "chunk_overhead = 10"
  by (simp add: chunk_overhead_def chunk_line_def HTTP_CHUNK_MAXSIZE_def hex_4000)

lemma chunk_len_pos: "0 < n \<Longrightarrow> 0 < chunk_len n \<and> chunk_len n \<le> n"
  by (simp add: chunk_len_def chunk_overhead HTTP_CHUNK_MAXSIZE_def)

function chunks_loop :: "string \<Rightarrow> string \<Rightarrow> string" where
  "chunks_loop rest output =
     (if rest = [] then output
      else chunks_loop (drop (chunk_len (length rest)) rest)
        (output @ chunk_line (chunk_len (length rest)) @ take (chunk_len (length rest)) rest))"
  by pat_completeness auto
termination
  by (relation "measure (\<lambda>(rest, _). length rest)") (auto simp: chunk_len_pos)

declare chunks_loop.simps [simp del]

definition http_chunks_write :: "string \<Rightarrow> string \<Rightarrow> string" where
  "http_chunks_write source output = chunks_loop source output"

definition http_chunks_terminate :: "http_header_list option \<Rightarrow> string \<Rightarrow> string" where
  "http_chunks_terminate footers output =
     output @ ''0'' @ CRLF @ (case footers of None \<Rightarrow> [] | Some l \<Rightarrow> header_lines l) @ CRLF"

section \<open>Lists of responses\<close>

text \<open>The nodes are the responses, known by their address; only \<open>next\<close> matters here.\<close>

definition http_response_list_new :: "ptr option" where
  "http_response_list_new = None"

definition http_response_list_append :: "nexts \<Rightarrow> ptr option \<Rightarrow> ptr \<Rightarrow> (nexts \<times> ptr option) option" where
  "http_response_list_append nx first r = LL_APPEND nx first r"

definition http_response_list_remove :: "nexts \<Rightarrow> ptr option \<Rightarrow> ptr \<Rightarrow> (nexts \<times> ptr option) option" where
  "http_response_list_remove nx first r = LL_DELETE nx first r"

definition http_response_list_next2 ::
  "nexts \<Rightarrow> ptr option \<Rightarrow> bool \<Rightarrow> (ptr option \<times> nexts \<times> ptr option) option"
where
  "http_response_list_next2 nx first remove =
     (case first of
        None \<Rightarrow> Some (None, nx, first)
      | Some r \<Rightarrow>
          if remove then
            Option.bind (LL_DELETE nx first r) (\<lambda>(nx', first'). Some (Some r, nx'(r := None), first'))
          else Some (Some r, nx, first))"

definition http_response_list_next :: "nexts \<Rightarrow> ptr option \<Rightarrow> (ptr option \<times> nexts \<times> ptr option) option" where
  "http_response_list_next nx first = http_response_list_next2 nx first False"

text \<open>\<open>http_response_list_delete\<close>: every response is freed, none unlinked first.\<close>

partial_function (option) response_list_delete_loop ::
  "(ptr \<Rightarrow> http_response) \<Rightarrow> nexts \<Rightarrow> ptr option \<Rightarrow> unit res option"
where
  "response_list_delete_loop rs nx elem =
     (case elem of
        None \<Rightarrow> Some (Inr ())
      | Some e \<Rightarrow>
          (case http_response_delete (rs e) of
             Inl f \<Rightarrow> Some (Inl f)
           | Inr _ \<Rightarrow> response_list_delete_loop rs nx (nx e)))"

definition http_response_list_delete ::
  "(ptr \<Rightarrow> http_response) \<Rightarrow> nexts \<Rightarrow> ptr option \<Rightarrow> unit res option" where
  "http_response_list_delete rs nx first = response_list_delete_loop rs nx first"

section \<open>The headers of a response\<close>

lemma header_put_ok:
  assumes "unique_names l"
  obtains l' where "header_put l n v = Inr l'" "unique_names l'"
    "\<And>m. m \<noteq> [] \<Longrightarrow> header_value l' m = (if m = n then Some v else header_value l m)"
  using hdrs.put_valid [OF assms, of n v] hdrs.lookup_put [OF assms] by blast

lemma add_default_type_ok:
  assumes "unique_names l"
  obtains l' where "add_default_type l = Inr l'" "unique_names l'"
    "\<And>m. header_value l' m =
      (if m = HEADER_CONTENT_TYPE \<and> http_header_list_get l m = None then Some DEFAULT_CONTENT_TYPE
       else header_value l m)"
proof (cases "http_header_list_get l HEADER_CONTENT_TYPE")
  case None
  let ?l = "l @ [http_header_new HEADER_CONTENT_TYPE (Some DEFAULT_CONTENT_TYPE)]"
  from None have none: "\<not> (\<exists>h \<in> set l. h_name h = HEADER_CONTENT_TYPE)"
    by (simp add: http_header_list_get_def find_None_iff)
  have "add_default_type l = Inr ?l"
    using None by (simp add: add_default_type_def http_header_list_add_def utarray_push_back_def)
  moreover have "unique_names ?l" using assms none by (auto simp: unique_names_def)
  moreover have "header_value ?l m = (if m = HEADER_CONTENT_TYPE \<and> http_header_list_get l m = None
      then Some DEFAULT_CONTENT_TYPE else header_value l m)" for m
    using None by (auto simp: header_value_def http_header_list_get_def find_append split: option.splits)
  ultimately show ?thesis by (rule that)
next
  case (Some h)
  with assms show ?thesis by (intro that [of l]) (auto simp: add_default_type_def)
qed

lemma get_after_put:
  assumes "unique_names l" and "header_put l n v = Inr l'" and "m \<noteq> n" and "m \<noteq> []"
  shows "http_header_list_get l' m = http_header_list_get l m"
proof -
  have "l' = others n l @ [http_header_new n (Some v)]" using assms(1,2) by (simp add: header_put_eq)
  with assms(3,4) show ?thesis
    by (simp add: http_header_list_get_def find_append find_others [of n m l] split: option.splits)
qed

lemma response_headers_ok:
  assumes "unat (sl_code (rs_line r)) \<noteq> 100" and "unique_names (rs_headers r)"
    and "framing_header r = Inr (n, v)" and "n \<notin> {HEADER_CONTENT_TYPE, HEADER_DATE, HEADER_SERVER}"
  shows "\<exists>l'. response_headers date r = Inr l' \<and> unique_names l' \<and>
    (\<forall>m. m \<noteq> [] \<longrightarrow> header_value l' m =
      (if m = HEADER_SERVER then Some SERVER_NAME
       else if m = HEADER_DATE then Some date
       else if m = n then Some v
       else if m = HEADER_CONTENT_TYPE \<and> http_header_list_get (rs_headers r) m = None
       then Some DEFAULT_CONTENT_TYPE
       else header_value (rs_headers r) m))"
proof -
  obtain l1 where l1: "header_put (rs_headers r) n v = Inr l1" "unique_names l1"
    "\<And>m. m \<noteq> [] \<Longrightarrow> header_value l1 m = (if m = n then Some v else header_value (rs_headers r) m)"
    using header_put_ok [OF assms(2)] by blast
  obtain l2 where l2: "add_default_type l1 = Inr l2" "unique_names l2"
    "\<And>m. header_value l2 m = (if m = HEADER_CONTENT_TYPE \<and> http_header_list_get l1 m = None
      then Some DEFAULT_CONTENT_TYPE else header_value l1 m)"
    using add_default_type_ok [OF l1(2)] by blast
  obtain l3 where l3: "header_put l2 HEADER_DATE date = Inr l3" "unique_names l3"
    "\<And>m. m \<noteq> [] \<Longrightarrow> header_value l3 m = (if m = HEADER_DATE then Some date else header_value l2 m)"
    using header_put_ok [OF l2(2)] by blast
  obtain l4 where l4: "header_put l3 HEADER_SERVER SERVER_NAME = Inr l4" "unique_names l4"
    "\<And>m. m \<noteq> [] \<Longrightarrow> header_value l4 m = (if m = HEADER_SERVER then Some SERVER_NAME else header_value l3 m)"
    using header_put_ok [OF l3(2)] by blast
  have type: "http_header_list_get l1 HEADER_CONTENT_TYPE = http_header_list_get (rs_headers r) HEADER_CONTENT_TYPE"
    using assms(4) by (intro get_after_put [OF assms(2) l1(1)]) auto
  have "response_headers date r = Inr l4"
    using assms(1,3) l1(1) l2(1) l3(1) l4(1) by (simp add: response_headers_def)
  then show ?thesis
    using l4(2,3) l3(3) l2(3) l1(3) type assms(4) by (intro exI [of _ l4]) auto
qed

lemma framing_header_eq:
  assumes "body_ok (rs_body r)"
  shows "framing_header r = Inr (if rs_body_chunked r then (HEADER_TRANSFER_ENCODING, ''chunked'')
    else (HEADER_CONTENT_LENGTH, dec (length (body_bytes (rs_body r)) mod 2 ^ 32)))"
  using assms by (simp add: framing_header_def)

lemma response_headers_all:
  assumes "unique_names (rs_headers r)" and "body_ok (rs_body r)"
  shows "\<exists>l'. response_headers date r = Inr l' \<and> unique_names l' \<and>
    (unat (sl_code (rs_line r)) = 100 \<longrightarrow> l' = rs_headers r) \<and>
    (unat (sl_code (rs_line r)) \<noteq> 100 \<longrightarrow> (\<forall>m. m \<noteq> [] \<longrightarrow> header_value l' m =
      (if m = HEADER_SERVER then Some SERVER_NAME
       else if m = HEADER_DATE then Some date
       else if m = HEADER_CONTENT_LENGTH \<and> \<not> rs_body_chunked r
       then Some (dec (length (body_bytes (rs_body r)) mod 2 ^ 32))
       else if m = HEADER_TRANSFER_ENCODING \<and> rs_body_chunked r then Some ''chunked''
       else if m = HEADER_CONTENT_TYPE \<and> http_header_list_get (rs_headers r) m = None
       then Some DEFAULT_CONTENT_TYPE
       else header_value (rs_headers r) m)))"
proof (cases "unat (sl_code (rs_line r)) = 100")
  case True
  with assms(1) show ?thesis by (simp add: response_headers_def)
next
  case code: False
  show ?thesis
  proof (cases "rs_body_chunked r")
    case True
    with framing_header_eq [OF assms(2)]
    have "framing_header r = Inr (HEADER_TRANSFER_ENCODING, ''chunked'')" by simp
    from response_headers_ok [OF code assms(1) this, of date] code True
    show ?thesis by (simp cong: if_cong split del: if_split)
  next
    case False
    with framing_header_eq [OF assms(2)]
    have "framing_header r = Inr (HEADER_CONTENT_LENGTH, dec (length (body_bytes (rs_body r)) mod 2 ^ 32))"
      by simp
    from response_headers_ok [OF code assms(1) this, of date] code False
    show ?thesis by (simp cong: if_cong split del: if_split)
  qed
qed

section \<open>Properties\<close>

text \<open>
  The text of a method and the method of a text are inverse to each other on the eight
  known methods, and every other text is \<open>METHOD_INVALID\<close>.
\<close>

theorem method_fromstring_iff:
  "http_method_fromstring s = m \<longleftrightarrow>
     (if m \<in> set known_methods then http_method_getstring m None = Inr s
      else m = METHOD_INVALID \<and> Inr s \<notin> (\<lambda>k. http_method_getstring k None) ` set known_methods)"
  by (cases m) (auto simp: http_method_fromstring_def known_methods_def)

text \<open>
  C16: the first \<open>http_response_write\<close> of a response with a well-formed body and distinct
  header names gives the status line, the headers and the empty line. The headers of a
  \<open>100 Continue\<close> are the ones it has, none is added. Every other response keeps its headers
  with their content and its names stay distinct, except that the framing header is set (the
  length of the body modulo \<open>2 ^ 32\<close>, or \<open>chunked\<close> when the body is sent in chunks), the date
  and the server are set, and the type defaults to \<open>text/plain\<close>. A second call gives nothing.
\<close>

theorem response_write_headers:
  assumes "rs_send_status r = SEND_RESPONSE_LINE"
    and "unique_names (rs_headers r)" and "body_ok (rs_body r)"
  shows "\<exists>l' r'. http_response_write date r =
      Inr (Some (status_line_text (rs_line r) @ header_lines l' @ CRLF), r') \<and>
    r' = r\<lparr>rs_headers := l', rs_send_status := SEND_BODY\<rparr> \<and> unique_names l' \<and>
    (unat (sl_code (rs_line r)) = 100 \<longrightarrow> l' = rs_headers r) \<and>
    (unat (sl_code (rs_line r)) \<noteq> 100 \<longrightarrow> (\<forall>m. m \<noteq> [] \<longrightarrow> header_value l' m =
      (if m = HEADER_SERVER then Some SERVER_NAME
       else if m = HEADER_DATE then Some date
       else if m = HEADER_CONTENT_LENGTH \<and> \<not> rs_body_chunked r
       then Some (dec (length (body_bytes (rs_body r)) mod 2 ^ 32))
       else if m = HEADER_TRANSFER_ENCODING \<and> rs_body_chunked r then Some ''chunked''
       else if m = HEADER_CONTENT_TYPE \<and> http_header_list_get (rs_headers r) m = None
       then Some DEFAULT_CONTENT_TYPE
       else header_value (rs_headers r) m))) \<and>
    http_response_write date r' = Inr (None, r')"
proof -
  obtain l' where "response_headers date r = Inr l'" and l': "unique_names l'"
    "unat (sl_code (rs_line r)) = 100 \<longrightarrow> l' = rs_headers r"
    "unat (sl_code (rs_line r)) \<noteq> 100 \<longrightarrow> (\<forall>m. m \<noteq> [] \<longrightarrow> header_value l' m =
      (if m = HEADER_SERVER then Some SERVER_NAME
       else if m = HEADER_DATE then Some date
       else if m = HEADER_CONTENT_LENGTH \<and> \<not> rs_body_chunked r
       then Some (dec (length (body_bytes (rs_body r)) mod 2 ^ 32))
       else if m = HEADER_TRANSFER_ENCODING \<and> rs_body_chunked r then Some ''chunked''
       else if m = HEADER_CONTENT_TYPE \<and> http_header_list_get (rs_headers r) m = None
       then Some DEFAULT_CONTENT_TYPE
       else header_value (rs_headers r) m))"
    using response_headers_all [OF assms(2,3), of date] by blast
  then have "http_response_write date r = Inr (Some (status_line_text (rs_line r) @ header_lines l' @ CRLF),
      r\<lparr>rs_headers := l', rs_send_status := SEND_BODY\<rparr>)"
    "http_response_write date (r\<lparr>rs_headers := l', rs_send_status := SEND_BODY\<rparr>) =
      Inr (None, r\<lparr>rs_headers := l', rs_send_status := SEND_BODY\<rparr>)"
    using assms(1) by (simp_all add: http_response_write_def)
  with l' show ?thesis by blast
qed

definition ok_response :: http_response where
  "ok_response = (http_response_new (http_response_line_new 200))\<lparr>rs_body := hello_body\<rparr>"

lemma digit_char_5: "digit_char 5 = CHR ''5''"
  by code_simp

definition chunked_response :: http_response where
  "chunked_response = ok_response\<lparr>rs_body_chunked := True\<rparr>"

definition continue_response :: http_response where
  "continue_response = http_response_new (http_response_line_new 100)"

lemma new_body_ok: "body_ok (http_body_new BODY_NONE p)"
  by (simp add: body_ok_def http_body_new_def body_bytes_def)

lemma sample_responses:
  "r \<in> {ok_response, chunked_response, continue_response} \<Longrightarrow>
   rs_send_status r = SEND_RESPONSE_LINE \<and> unique_names (rs_headers r) \<and> body_ok (rs_body r)"
  using hello_body_ok new_body_ok
  by (auto simp: chunked_response_def continue_response_def ok_response_def http_response_new_def
      http_header_list_new_def unique_names_def)

theorem response_write_headers_witness:
  "(\<exists>l'. http_response_write ''now'' ok_response =
      Inr (Some (status_line_text (http_response_line_new 200) @ header_lines l' @ CRLF),
        ok_response\<lparr>rs_headers := l', rs_send_status := SEND_BODY\<rparr>) \<and>
    header_value l' ''Content-Length'' = Some ''5'') \<and>
   (\<exists>l'. http_response_write ''now'' chunked_response =
      Inr (Some (status_line_text (http_response_line_new 200) @ header_lines l' @ CRLF),
        chunked_response\<lparr>rs_headers := l', rs_send_status := SEND_BODY\<rparr>) \<and>
    header_value l' ''Transfer-Encoding'' = Some ''chunked'' \<and> header_value l' ''Content-Length'' = None) \<and>
   (\<exists>r'. http_response_write ''now'' continue_response =
      Inr (Some (status_line_text (http_response_line_new 100) @ CRLF), r'))"
proof (intro conjI)
  have five: "dec (length (body_bytes (rs_body ok_response)) mod 2 ^ 32) = ''5''"
    using digit_char_5 by (simp add: ok_response_def hello_body_def http_body_new_def body_bytes_def dec_small)
  have line: "rs_line ok_response = http_response_line_new 200" "rs_line chunked_response = http_response_line_new 200"
    "rs_line continue_response = http_response_line_new 100"
    by (simp_all add: ok_response_def chunked_response_def continue_response_def http_response_new_def)
  have code: "unat (sl_code (http_response_line_new 200)) \<noteq> 100" "unat (sl_code (http_response_line_new 100)) = 100"
    by (simp_all add: http_response_line_new_def)
  have chunked: "\<not> rs_body_chunked ok_response" "rs_body_chunked chunked_response"
    by (simp_all add: chunked_response_def ok_response_def http_response_new_def)
  have none: "rs_headers chunked_response = []" "rs_headers continue_response = []"
    by (simp_all add: chunked_response_def continue_response_def ok_response_def http_response_new_def
        http_header_list_new_def)
  obtain l where w: "http_response_write ''now'' ok_response =
      Inr (Some (status_line_text (rs_line ok_response) @ header_lines l @ CRLF),
        ok_response\<lparr>rs_headers := l, rs_send_status := SEND_BODY\<rparr>)"
    and v: "\<forall>m. m \<noteq> [] \<longrightarrow> header_value l m = (if m = HEADER_SERVER then Some SERVER_NAME
       else if m = HEADER_DATE then Some ''now''
       else if m = HEADER_CONTENT_LENGTH \<and> \<not> rs_body_chunked ok_response
       then Some (dec (length (body_bytes (rs_body ok_response)) mod 2 ^ 32))
       else if m = HEADER_TRANSFER_ENCODING \<and> rs_body_chunked ok_response then Some ''chunked''
       else if m = HEADER_CONTENT_TYPE \<and> http_header_list_get (rs_headers ok_response) m = None
       then Some DEFAULT_CONTENT_TYPE
       else header_value (rs_headers ok_response) m)"
    using response_write_headers [of ok_response "''now''"] sample_responses [of ok_response] code(1)
    unfolding line(1) by blast
  from spec [OF v, of HEADER_CONTENT_LENGTH] chunked(1) five
  have "header_value l HEADER_CONTENT_LENGTH = Some ''5''" by simp
  with w show "\<exists>l'. http_response_write ''now'' ok_response =
      Inr (Some (status_line_text (http_response_line_new 200) @ header_lines l' @ CRLF),
        ok_response\<lparr>rs_headers := l', rs_send_status := SEND_BODY\<rparr>) \<and>
    header_value l' ''Content-Length'' = Some ''5''"
    unfolding line(1) by blast
  obtain l where w: "http_response_write ''now'' chunked_response =
      Inr (Some (status_line_text (rs_line chunked_response) @ header_lines l @ CRLF),
        chunked_response\<lparr>rs_headers := l, rs_send_status := SEND_BODY\<rparr>)"
    and v: "\<forall>m. m \<noteq> [] \<longrightarrow> header_value l m = (if m = HEADER_SERVER then Some SERVER_NAME
       else if m = HEADER_DATE then Some ''now''
       else if m = HEADER_CONTENT_LENGTH \<and> \<not> rs_body_chunked chunked_response
       then Some (dec (length (body_bytes (rs_body chunked_response)) mod 2 ^ 32))
       else if m = HEADER_TRANSFER_ENCODING \<and> rs_body_chunked chunked_response then Some ''chunked''
       else if m = HEADER_CONTENT_TYPE \<and> http_header_list_get (rs_headers chunked_response) m = None
       then Some DEFAULT_CONTENT_TYPE
       else header_value (rs_headers chunked_response) m)"
    using response_write_headers [of chunked_response "''now''"] sample_responses [of chunked_response] code(1)
    unfolding line(2) by blast
  from spec [OF v, of HEADER_TRANSFER_ENCODING] spec [OF v, of HEADER_CONTENT_LENGTH] chunked(2) none(1)
  have "header_value l HEADER_TRANSFER_ENCODING = Some ''chunked''" "header_value l HEADER_CONTENT_LENGTH = None"
    by (simp_all add: header_value_def http_header_list_get_def)
  with w show "\<exists>l'. http_response_write ''now'' chunked_response =
      Inr (Some (status_line_text (http_response_line_new 200) @ header_lines l' @ CRLF),
        chunked_response\<lparr>rs_headers := l', rs_send_status := SEND_BODY\<rparr>) \<and>
    header_value l' ''Transfer-Encoding'' = Some ''chunked'' \<and> header_value l' ''Content-Length'' = None"
    unfolding line(2) by blast
  show "\<exists>r'. http_response_write ''now'' continue_response =
      Inr (Some (status_line_text (http_response_line_new 100) @ CRLF), r')"
    using response_write_headers [of continue_response "''now''"] sample_responses [of continue_response]
    by (auto simp: line code none header_lines_def)
qed

text \<open>
  Chunked writing appends chunks whose data together are the source; every chunk is of
  1 to 16374 bytes, says its length in hexadecimal, and is followed at once by the next
  (there is no line end after the data).
\<close>

theorem chunks_write_pieces:
  "\<exists>ps. concat ps = source \<and> (\<forall>p \<in> set ps. 0 < length p \<and> length p \<le> 16374) \<and>
     http_chunks_write source output = output @ concat (map (\<lambda>p. chunk_line (length p) @ p) ps)"
proof -
  have "\<exists>ps. concat ps = rest \<and> (\<forall>p \<in> set ps. 0 < length p \<and> length p \<le> 16374) \<and>
     chunks_loop rest out = out @ concat (map (\<lambda>p. chunk_line (length p) @ p) ps)" for rest out
  proof (induction rest out rule: chunks_loop.induct)
    case (1 rest out)
    show ?case
    proof (cases "rest = []")
      case True
      then show ?thesis by (intro exI [of _ "[]"]) (simp add: chunks_loop.simps [of "[]" out])
    next
      case False
      let ?n = "chunk_len (length rest)"
      have n: "0 < ?n" "?n \<le> length rest" "?n \<le> 16374"
        using False chunk_len_pos [of "length rest"]
        by (auto simp: chunk_len_def chunk_overhead HTTP_CHUNK_MAXSIZE_def)
      from 1 [OF False] obtain ps where "concat ps = drop ?n rest"
        "\<forall>p \<in> set ps. 0 < length p \<and> length p \<le> 16374"
        "chunks_loop (drop ?n rest) (out @ chunk_line ?n @ take ?n rest) =
          (out @ chunk_line ?n @ take ?n rest) @ concat (map (\<lambda>p. chunk_line (length p) @ p) ps)"
        by blast
      with n False show ?thesis
        by (intro exI [of _ "take ?n rest # ps"]) (simp add: chunks_loop.simps [of rest out] min_def)
    qed
  qed
  then show ?thesis by (simp add: http_chunks_write_def)
qed

theorem chunks_write_pieces_witness:
  "\<exists>ps. concat ps = ''hello'' \<and> http_chunks_write ''hello'' ''x'' =
     ''x'' @ concat (map (\<lambda>p. chunk_line (length p) @ p) ps)"
  using chunks_write_pieces [of "''hello''" "''x''"] by blast

section \<open>The built-in page\<close>

lemma message_no_brace: "CHR ''{'' \<notin> set (http_response_line_get_message (http_response_line_new code))"
proof -
  have "list_all (\<lambda>(_, m). CHR ''{'' \<notin> set m) status_messages"
    by (simp add: status_messages_def)
  then have "CHR ''{'' \<notin> set m" if "map_of status_messages k = Some m" for k m
    using map_of_SomeD [OF that] by (auto simp: list_all_iff)
  then show ?thesis
    by (auto simp: http_response_line_get_message_def http_response_line_new_def split: option.splits)
qed

lemma dec_no_brace: "CHR ''{'' \<notin> set (dec n)"
  using dec_digits [of "CHR ''{''" n] by (auto simp: isdigit_def)

lemma title_no_brace:
  "CHR ''{'' \<notin> set m \<Longrightarrow> CHR ''{'' \<notin> set (builtin_title code m)"
  by (auto simp: builtin_title_def dec_no_brace dest!: in_set_takeD)

lemma title_length: "length (builtin_title code m) < 2000"
proof -
  have "length (builtin_title code m) \<le> 1022"
    unfolding builtin_title_def by (simp only: length_take min.cobounded2)
  then show ?thesis by simp
qed

lemma builtin_fill_plain:
  assumes "CHR ''{'' \<notin> set title" and "CHR ''{'' \<notin> set msg" and "length title < 2000"
  shows "builtin_fill (''{{title}}'' @ [LF, LF] @ ''{{message}}'') title msg = title @ [LF, LF] @ msg"
proof -
  let ?R = "[LF, LF] @ ''{{message}}''"
  have none: "strstr ?R ''{{title}}'' = None" "strstr ?R ''{{body_title}}'' = None"
    by (simp_all add: starts_with_def)
  have absent: "strstr (title @ ?R) ''{{title}}'' = None" "strstr (title @ ?R) ''{{body_title}}'' = None"
    using none assms(1) by (simp_all only: strstr_skip option.map not_False_eq_True)
  have "str_replace ([] @ ''{{title}}'' @ ?R) ''{{title}}'' title = [] @ title @ ?R"
    using assms absent(1) by (intro str_replace_once) simp_all
  moreover have "str_replace (title @ ?R) ''{{body_title}}'' title = title @ ?R"
    by (rule str_replace_absent [OF absent(2)])
  moreover have "str_replace ((title @ [LF, LF]) @ ''{{message}}'' @ []) ''{{message}}'' msg =
      (title @ [LF, LF]) @ msg @ []"
    using assms by (intro str_replace_once strstr_absent) simp_all
  ultimately show ?thesis by (simp add: builtin_fill_def)
qed

lemma create_builtin_none:
  assumes "file_map_new fs ''error.html'' = None" and "CHR ''{'' \<notin> set msg"
  shows "\<exists>r. http_response_create_builtin fs code (Some msg) = Inr r \<and>
    rs_line r = http_response_line_new code \<and> rs_send_status r = SEND_RESPONSE_LINE \<and>
    rs_headers r = [http_header_new HEADER_CONTENT_TYPE (Some ''text/plain'')] \<and>
    \<not> rs_body_chunked r \<and> rs_body r = \<lparr>b_type = BODY_STRING, r_offset = 0, b_data =
      P_str (builtin_title code (http_response_line_get_message (http_response_line_new code)) @ [LF, LF] @ msg)\<rparr>"
proof -
  let ?m = "http_response_line_get_message (http_response_line_new code)"
  have fill: "builtin_fill (''{{title}}'' @ [LF, LF] @ ''{{message}}'') (builtin_title code ?m) msg =
      builtin_title code ?m @ [LF, LF] @ msg"
    using assms(2) title_length [of code ?m] by (intro builtin_fill_plain title_no_brace message_no_brace) simp_all
  let ?r = "http_response_new (http_response_line_new code)"
  have line: "rs_line ?r = http_response_line_new code" by (simp add: http_response_new_def)
  have type: "http_body_set_type (rs_body ?r) BODY_STRING =
      Inr \<lparr>b_type = BODY_STRING, r_offset = 0, b_data = P_null\<rparr>"
    by (simp add: http_response_new_def http_body_new_def http_body_set_type_def http_body_clear_def)
  from assms(1) have template: "builtin_template fs
      (?r\<lparr>rs_body := \<lparr>b_type = BODY_STRING, r_offset = 0, b_data = P_null\<rparr>,
          rs_headers := [http_header_new HEADER_CONTENT_TYPE (Some ''text/html'')]\<rparr>) =
    Inr (?r\<lparr>rs_body := \<lparr>b_type = BODY_STRING, r_offset = 0,
              b_data = P_str (''{{title}}'' @ [LF, LF] @ ''{{message}}'')\<rparr>,
            rs_headers := [http_header_new HEADER_CONTENT_TYPE (Some ''text/plain'')]\<rparr>)"
    by (simp add: builtin_template_def http_response_append_body_def http_body_append_str_def Let_def
        http_header_list_add_def http_header_list_remove_def http_header_list_getall_def
        utarray_erase_def utarray_push_back_def)
  have "http_response_create_builtin fs code (Some msg) =
      Inr (?r\<lparr>rs_body := \<lparr>b_type = BODY_STRING, r_offset = 0,
                b_data = P_str (builtin_fill (''{{title}}'' @ [LF, LF] @ ''{{message}}'') (builtin_title code ?m) msg)\<rparr>,
              rs_headers := [http_header_new HEADER_CONTENT_TYPE (Some ''text/plain'')]\<rparr>)"
    unfolding http_response_create_builtin_def type
    by (simp add: http_header_list_add_def http_header_list_new_def utarray_push_back_def
        template [simplified] line)
  then show ?thesis unfolding fill
    by (simp add: http_response_new_def body_bytes_def)
qed

lemma create_builtin_run:
  assumes "fs ''error.html'' = None" and "CHR ''{'' \<notin> set msg"
  shows "\<exists>r. http_response_create_builtin fs code (Some msg) = Inr r \<and>
    rs_line r = http_response_line_new code \<and> rs_send_status r = SEND_RESPONSE_LINE \<and>
    rs_headers r = [http_header_new HEADER_CONTENT_TYPE (Some ''text/plain'')] \<and>
    \<not> rs_body_chunked r \<and> rs_body r = \<lparr>b_type = BODY_STRING, r_offset = 0, b_data =
      P_str (builtin_title code (http_response_line_get_message (http_response_line_new code)) @ [LF, LF] @ msg)\<rparr>"
  using assms by (intro create_builtin_none) (simp_all add: file_map_new_def)

text \<open>
  The type and the text of a built-in page: the plain one when there is no \<open>error.html\<close> or an
  empty one, else that file with its markers filled in. A file that begins with a \<open>NUL\<close> gives
  no page: the body stays the null pointer.
\<close>

definition builtin_page :: "(string \<Rightarrow> string option) \<Rightarrow> 16 word \<Rightarrow> string \<Rightarrow> (string \<times> string) option" where
  "builtin_page fs code msg =
     (let title = builtin_title code (http_response_line_get_message (http_response_line_new code)) in
      case file_map_new fs ''error.html'' of
        None \<Rightarrow> Some (''text/plain'', title @ [LF, LF] @ msg)
      | Some m \<Rightarrow> if cstr m = [] then None else Some (''text/html'', builtin_fill (cstr m) title msg))"

lemma create_builtin_page:
  assumes "builtin_page fs code msg = Some (mt, page)" and "CHR ''{'' \<notin> set msg"
  shows "\<exists>r. http_response_create_builtin fs code (Some msg) = Inr r \<and>
    rs_line r = http_response_line_new code \<and> rs_send_status r = SEND_RESPONSE_LINE \<and>
    rs_headers r = [http_header_new HEADER_CONTENT_TYPE (Some mt)] \<and>
    \<not> rs_body_chunked r \<and> rs_body r = \<lparr>b_type = BODY_STRING, r_offset = 0, b_data = P_str page\<rparr>"
proof (cases "file_map_new fs ''error.html''")
  case None
  with assms create_builtin_none [OF None assms(2), of code] show ?thesis by (auto simp: builtin_page_def Let_def)
next
  case (Some m)
  let ?title = "builtin_title code (http_response_line_get_message (http_response_line_new code))"
  let ?r = "http_response_new (http_response_line_new code)"
  from Some assms(1) have m: "cstr m \<noteq> []" "mt = ''text/html''" "page = builtin_fill (cstr m) ?title msg"
    by (auto simp: builtin_page_def Let_def split: if_splits)
  have type: "http_body_set_type (rs_body ?r) BODY_STRING =
      Inr \<lparr>b_type = BODY_STRING, r_offset = 0, b_data = P_null\<rparr>"
    by (simp add: http_response_new_def http_body_new_def http_body_set_type_def http_body_clear_def)
  have template: "builtin_template fs
      (?r\<lparr>rs_body := \<lparr>b_type = BODY_STRING, r_offset = 0, b_data = P_null\<rparr>,
          rs_headers := [http_header_new HEADER_CONTENT_TYPE (Some ''text/html'')]\<rparr>) =
    Inr (?r\<lparr>rs_body := \<lparr>b_type = BODY_STRING, r_offset = 0, b_data = P_str (cstr m)\<rparr>,
            rs_headers := [http_header_new HEADER_CONTENT_TYPE (Some ''text/html'')]\<rparr>)"
    using m(1) by (simp add: builtin_template_def Some http_response_append_body_def http_body_append_str_def Let_def)
  have line: "rs_line ?r = http_response_line_new code" by (simp add: http_response_new_def)
  have "http_response_create_builtin fs code (Some msg) =
      Inr (?r\<lparr>rs_body := \<lparr>b_type = BODY_STRING, r_offset = 0, b_data = P_str page\<rparr>,
              rs_headers := [http_header_new HEADER_CONTENT_TYPE (Some ''text/html'')]\<rparr>)"
    unfolding http_response_create_builtin_def type
    by (simp add: http_header_list_add_def http_header_list_new_def utarray_push_back_def
        template [simplified] line m(3))
  then show ?thesis by (simp add: http_response_new_def m(2))
qed

text \<open>
  A template with one marker of each kind, in this order and with no other brace, is filled in
  as one expects. The \<open>error.html\<close> of the repository is of this form.
\<close>

lemma builtin_fill_html:
  assumes "CHR ''{'' \<notin> set (a @ b @ c @ d @ title @ msg)" and "length (a @ title @ b @ title @ c) < 2 ^ 32"
  shows "builtin_fill (a @ ''{{title}}'' @ b @ ''{{body_title}}'' @ c @ ''{{message}}'' @ d) title msg =
    a @ title @ b @ title @ c @ msg @ d"
proof -
  have free: "CHR ''{'' \<notin> set a" "CHR ''{'' \<notin> set b" "CHR ''{'' \<notin> set c" "CHR ''{'' \<notin> set d"
    "CHR ''{'' \<notin> set title" "CHR ''{'' \<notin> set msg" using assms(1) by simp_all
  have none: "strstr v ''{{title}}'' = None \<Longrightarrow> strstr (''{{body_title}}'' @ v) ''{{title}}'' = None"
    "strstr (''{{message}}'' @ d) ''{{title}}'' = None" "strstr (''{{message}}'' @ d) ''{{body_title}}'' = None" for v
    using strstr_skip [of "CHR ''{''" "''body_title}}''" v "''{title}}''"] strstr_absent [OF free(4)]
      strstr_skip [of "CHR ''{''" "''message}}''" d "''{title}}''"]
      strstr_skip [of "CHR ''{''" "''message}}''" d "''{body_title}}''"]
    by (auto simp: starts_with_def option.map_comp comp_def)
  have "strstr (c @ ''{{message}}'' @ d) ''{{title}}'' = None" "strstr (c @ ''{{message}}'' @ d) ''{{body_title}}'' = None"
    by (simp_all only: strstr_skip [OF free(3)] none(2,3) option.map)
  then have rest: "strstr (a @ title @ b @ ''{{body_title}}'' @ c @ ''{{message}}'' @ d) ''{{title}}'' = None"
    "strstr ((a @ title @ b) @ title @ c @ ''{{message}}'' @ d) ''{{body_title}}'' = None"
    by (simp_all only: append.assoc strstr_skip [OF free(1)] strstr_skip [OF free(2)] strstr_skip [OF free(5)]
        none(1) option.map)
  have small: "length a < 2 ^ 32" "length (a @ title @ b) < 2 ^ 32" "CHR ''{'' \<notin> set (a @ title @ b)"
    using assms by simp_all
  have "str_replace (a @ ''{{title}}'' @ b @ ''{{body_title}}'' @ c @ ''{{message}}'' @ d) ''{{title}}'' title =
      a @ title @ b @ ''{{body_title}}'' @ c @ ''{{message}}'' @ d"
    by (rule str_replace_once [OF free(1,5) small(1) rest(1)])
  moreover have "str_replace ((a @ title @ b) @ ''{{body_title}}'' @ c @ ''{{message}}'' @ d) ''{{body_title}}'' title =
      (a @ title @ b) @ title @ c @ ''{{message}}'' @ d"
    by (rule str_replace_once [OF small(3) free(5) small(2) rest(2)])
  moreover have "str_replace ((a @ title @ b @ title @ c) @ ''{{message}}'' @ d) ''{{message}}'' msg =
      (a @ title @ b @ title @ c) @ msg @ d"
    using free assms(2) by (intro str_replace_once strstr_absent) simp_all
  ultimately show ?thesis unfolding builtin_fill_def by (simp only: append.assoc)
qed

text \<open>
  Without an \<open>error.html\<close> the built-in page of a status code is \<open>text/plain\<close>, with the
  code and its reason on the first line and the message (if it has no brace) on the third.
\<close>

theorem create_builtin_plain:
  assumes "fs ''error.html'' = None" and "CHR ''{'' \<notin> set msg"
  shows "\<exists>r. http_response_create_builtin fs code (Some msg) = Inr r \<and>
    rs_line r = http_response_line_new code \<and> rs_send_status r = SEND_RESPONSE_LINE \<and>
    rs_headers r = [http_header_new HEADER_CONTENT_TYPE (Some ''text/plain'')] \<and>
    body_bytes (rs_body r) =
      builtin_title code (http_response_line_get_message (http_response_line_new code)) @ [LF, LF] @ msg"
proof -
  from create_builtin_run [of fs msg code, OF assms] obtain r where
    "http_response_create_builtin fs code (Some msg) = Inr r \<and> rs_line r = http_response_line_new code \<and>
     rs_send_status r = SEND_RESPONSE_LINE \<and>
     rs_headers r = [http_header_new HEADER_CONTENT_TYPE (Some ''text/plain'')] \<and>
     rs_body r = \<lparr>b_type = BODY_STRING, r_offset = 0, b_data =
       P_str (builtin_title code (http_response_line_get_message (http_response_line_new code)) @ [LF, LF] @ msg)\<rparr>"
    by blast
  then show ?thesis by (intro exI [of _ r]) (simp add: body_bytes_def)
qed

theorem create_builtin_plain_witness:
  "\<exists>r. http_response_create_builtin (\<lambda>_. None) 404 (Some ''No such file'') = Inr r \<and>
    body_bytes (rs_body r) =
      builtin_title 404 (http_response_line_get_message (http_response_line_new 404)) @ [LF, LF] @ ''No such file''"
proof -
  have "CHR ''{'' \<notin> set ''No such file''" by simp
  with create_builtin_plain [of "\<lambda>_. None" "''No such file''" 404] show ?thesis by blast
qed

section \<open>The list of responses as a queue\<close>

text \<open>
  On a list of responses in memory, appending adds at the end and \<open>next2\<close> takes from the
  front: the responses of a connection are written in the order the workers finished them.
\<close>

theorem response_list_fifo:
  assumes "llist nx first rs" and "r \<notin> set rs"
  shows "\<exists>nx' first'. http_response_list_append nx first r = Some (nx', first') \<and>
      llist nx' first' (rs @ [r]) \<and>
    (\<exists>nx'' first''. http_response_list_next2 nx' first' True = Some (Some (hd (rs @ [r])), nx'', first'') \<and>
      llist nx'' first'' (tl (rs @ [r])) \<and> nx'' (hd (rs @ [r])) = None)"
proof -
  obtain nx' first' where a: "http_response_list_append nx first r = Some (nx', first')"
    "llist nx' first' (rs @ [r])"
    using LL_APPEND_llist [OF assms] by (auto simp: http_response_list_append_def)
  obtain h t where ht: "rs @ [r] = h # t" by (cases "rs @ [r]") auto
  with a(2) have f: "first' = Some h" and l: "llist nx' (Some h) (h # t)" by auto
  have "h \<notin> set t" using llist_distinct [OF l] by simp
  moreover have "LL_DELETE nx' (Some h) h = Some (nx', nx' h)" by (rule LL_DELETE_head [OF l])
  ultimately have "http_response_list_next2 nx' first' True = Some (Some h, nx'(h := None), nx' h)"
    "llist (nx'(h := None)) (nx' h) t"
    using f l by (simp_all add: http_response_list_next2_def)
  with a ht show ?thesis by auto
qed

theorem response_list_fifo_witness:
  "\<exists>nx' first'. http_response_list_append (\<lambda>_. None) (Some 1) 2 = Some (nx', first') \<and>
      llist nx' first' [1, 2]"
proof -
  have "llist (\<lambda>_. None) (Some 1) [1]" by simp
  from response_list_fifo [OF this, of 2] show ?thesis by auto
qed

end
