(* ===== verification/Http_Reader.thy ===== *)
theory Http_Reader
  imports Http_Parser_Calls Http_Message
begin

text \<open>
  \<open>src/http-reader.c\<close> with the parse status of \<open>src/server-connection.c\<close>: the callbacks that
  build a request while the parser runs, and what the server gets when the two run together.
  The parser itself is kept beside the status, as \<open>http_parser_execute\<close> takes it.
\<close>

section \<open>The parse status\<close>

datatype server_parse_header_state = HSTATE_NONE | HSTATE_VALUE | HSTATE_FIELD

record server_parse_status =
  sp_current_request :: "http_request option"
  sp_request_complete :: bool
  sp_current_header :: "http_header option"
  sp_header_state :: server_parse_header_state

definition server_parse_status_new :: "server_parse_status \<times> http_parser" where
  "server_parse_status_new =
     (\<lparr>sp_current_request = None, sp_request_complete = False, sp_current_header = None,
       sp_header_state = HSTATE_NONE\<rparr>, http_parser_init HTTP_REQUEST)"

definition server_parse_status_delete :: "server_parse_status \<Rightarrow> unit res" where
  "server_parse_status_delete s =
     (case sp_current_request s of None \<Rightarrow> Inr () | Some r \<Rightarrow> http_request_delete r)"

definition server_parser_status_reset :: "server_parse_status \<Rightarrow> server_parse_status \<times> http_parser" where
  "server_parser_status_reset s =
     (s\<lparr>sp_current_request := None, sp_request_complete := False, sp_header_state := HSTATE_NONE,
        sp_current_header := None\<rparr>, http_parser_init HTTP_REQUEST)"

section \<open>The callbacks\<close>

text \<open>\<open>GET_CB_STR\<close>: \<open>strncpy\<close> into zeroed memory, so the string ends at the first \<open>NUL\<close>.\<close>

abbreviation GET_CB_STR :: "string \<Rightarrow> string" where
  "GET_CB_STR at_length \<equiv> cstr at_length"

definition parser_cb_on_message_begin :: "server_parse_status \<Rightarrow> (int \<times> server_parse_status) res" where
  "parser_cb_on_message_begin s =
     bind_res (case sp_current_request s of None \<Rightarrow> Inr () | Some r \<Rightarrow> http_request_delete r)
       (\<lambda>_. Inr (0, s\<lparr>sp_current_request := Some http_request_new, sp_request_complete := False\<rparr>))"

definition parser_cb_on_url ::
  "http_method \<Rightarrow> string \<Rightarrow> server_parse_status \<Rightarrow> (int \<times> server_parse_status) res"
where
  "parser_cb_on_url m bs s =
     (case sp_current_request s of
        None \<Rightarrow> Inl Null_deref
      | Some r \<Rightarrow>
          bind_res (http_request_line_new (http_method_fromstring (http_method_str m)) None) (\<lambda>l.
          Inr (0, s\<lparr>sp_current_request := Some (r\<lparr>rq_line := Some (l\<lparr>rl_uri := Some (GET_CB_STR bs)\<rparr>)\<rparr>)\<rparr>)))"

definition parser_cb_on_status :: "string \<Rightarrow> server_parse_status \<Rightarrow> (int \<times> server_parse_status) res" where
  "parser_cb_on_status bs s = Inr (0, s)"

text \<open>The version is set from the parser at the first header.\<close>

definition set_version :: "nat \<Rightarrow> nat \<Rightarrow> server_parse_status \<Rightarrow> (bool \<times> server_parse_status) res" where
  "set_version major minor s =
     (if major = 1 \<and> (minor = 0 \<or> minor = 1) then
        (case sp_current_request s of
           None \<Rightarrow> Inl Null_deref
         | Some r \<Rightarrow>
             (case rq_line r of
                None \<Rightarrow> Inl Null_deref
              | Some l \<Rightarrow> Inr (True, s\<lparr>sp_current_request := Some (r\<lparr>rq_line :=
                  Some (l\<lparr>rl_version := (if minor = 0 then HTTP10 else HTTP11)\<rparr>)\<rparr>)\<rparr>)))
      else Inr (False, s))"

text \<open>\<open>http_header_list_add(current_request->headers, parser_current_header, false)\<close>\<close>

definition save_header :: "server_parse_status \<Rightarrow> server_parse_status res" where
  "save_header s =
     (case sp_current_header s of
        None \<Rightarrow> Inr s
      | Some h \<Rightarrow>
          (case sp_current_request s of
             None \<Rightarrow> Inl Null_deref
           | Some r \<Rightarrow>
               bind_res (http_header_list_add (rq_headers r) h False)
                 (\<lambda>l. Inr (s\<lparr>sp_current_request := Some (r\<lparr>rq_headers := l\<rparr>)\<rparr>))))"

definition parser_cb_on_header_field ::
  "nat \<Rightarrow> nat \<Rightarrow> string \<Rightarrow> server_parse_status \<Rightarrow> (int \<times> server_parse_status) res"
where
  "parser_cb_on_header_field major minor bs s =
     (case sp_header_state s of
        HSTATE_NONE \<Rightarrow>
          bind_res (set_version major minor
              (s\<lparr>sp_current_header := Some (http_header_new (GET_CB_STR bs) None)\<rparr>))
            (\<lambda>(ok, s). Inr (if ok then (0, s\<lparr>sp_header_state := HSTATE_FIELD\<rparr>) else (-1, s)))
      | HSTATE_VALUE \<Rightarrow>
          bind_res (save_header s) (\<lambda>s.
            Inr (0, s\<lparr>sp_current_header := Some (http_header_new (GET_CB_STR bs) None),
                      sp_header_state := HSTATE_FIELD\<rparr>))
      | HSTATE_FIELD \<Rightarrow>
          (case sp_current_header s of
             None \<Rightarrow> Inl Null_deref
           | Some h \<Rightarrow>
               Inr (0, s\<lparr>sp_current_header := Some (h\<lparr>h_name := h_name h @ GET_CB_STR bs\<rparr>),
                         sp_header_state := HSTATE_FIELD\<rparr>)))"

definition parser_cb_on_header_value :: "string \<Rightarrow> server_parse_status \<Rightarrow> (int \<times> server_parse_status) res" where
  "parser_cb_on_header_value bs s =
     (case sp_current_header s of
        None \<Rightarrow> Inl Assert_failed
      | Some h \<Rightarrow> Inr (0, s\<lparr>sp_current_header := Some (http_header_append_content h (GET_CB_STR bs)),
                           sp_header_state := HSTATE_VALUE\<rparr>))"

definition parser_cb_on_headers_complete :: "server_parse_status \<Rightarrow> (int \<times> server_parse_status) res" where
  "parser_cb_on_headers_complete s =
     bind_res (save_header s) (\<lambda>s. Inr (0, s\<lparr>sp_current_header := None\<rparr>))"

definition parser_cb_on_body :: "string \<Rightarrow> server_parse_status \<Rightarrow> (int \<times> server_parse_status) res" where
  "parser_cb_on_body bs s =
     (case sp_current_request s of
        None \<Rightarrow> Inl Assert_failed
      | Some r \<Rightarrow>
          bind_res (http_request_append_body r (GET_CB_STR bs))
            (\<lambda>r. Inr (0, s\<lparr>sp_current_request := Some r\<rparr>)))"

definition parser_cb_on_message_complete :: "server_parse_status \<Rightarrow> (int \<times> server_parse_status) res" where
  "parser_cb_on_message_complete s = Inr (0, s\<lparr>sp_request_complete := True\<rparr>)"

text \<open>\<open>parser_get_settings\<close>, as the handler of the parser's events.\<close>

fun reader :: "server_parse_status handler" where
  "reader E_message_begin s = parser_cb_on_message_begin s"
| "reader (E_url m bs) s = parser_cb_on_url m bs s"
| "reader (E_status bs) s = parser_cb_on_status bs s"
| "reader (E_header_field major minor bs) s = parser_cb_on_header_field major minor bs s"
| "reader (E_header_value bs) s = parser_cb_on_header_value bs s"
| "reader E_headers_complete s = parser_cb_on_headers_complete s"
| "reader (E_body bs) s = parser_cb_on_body bs s"
| "reader E_message_complete s = parser_cb_on_message_complete s"

definition parser_get_settings :: "server_parse_status http_parser_settings" where
  "parser_get_settings = settings_of reader"

section \<open>What the reader makes of a request\<close>

definition header_of :: "header_line \<Rightarrow> http_header" where
  "header_of nv = http_header_new (fst nv) (Some (snd nv))"

definition no_nul :: "header_line \<Rightarrow> bool" where
  "no_nul nv \<longleftrightarrow> NUL \<notin> set (fst nv) \<and> NUL \<notin> set (snd nv)"

definition version_of :: "nat \<Rightarrow> http_version" where
  "version_of minor = (if minor = 0 then HTTP10 else HTTP11)"

text \<open>The request with a target, before its headers.\<close>

definition line_of :: "http_method \<Rightarrow> string \<Rightarrow> http_version \<Rightarrow> http_request_line" where
  "line_of m t v =
     \<lparr>rl_method = http_method_fromstring (method_strings m), rl_method_other = None, rl_uri = Some t,
      rl_version = v\<rparr>"

lemma line_new_known:
  "m \<noteq> METHOD_OTHER \<Longrightarrow> http_request_line_new m None =
     Inr \<lparr>rl_method = m, rl_method_other = None, rl_uri = None, rl_version = HTTPXX\<rparr>"
  by (simp add: http_request_line_new_def)

lemma fromstring_not_other: "http_method_fromstring s \<noteq> METHOD_OTHER"
  by (simp add: http_method_fromstring_def known_methods_def)

definition with_headers :: "http_request \<Rightarrow> http_header_list \<Rightarrow> http_request" where
  "with_headers r hs = r\<lparr>rq_headers := rq_headers r @ hs\<rparr>"

lemma with_headers_with_headers [simp]: "with_headers (with_headers r a) b = with_headers r (a @ b)"
  by (simp add: with_headers_def)

lemma with_headers_Nil [simp]: "with_headers r [] = r"
  by (simp add: with_headers_def)

text \<open>
  The headers after the first, from a status that holds the one before: each is saved when
  the next begins, the last by the end of the headers.
\<close>

lemma reader_more_headers:
  "\<forall>nv \<in> set hs. no_nul nv \<Longrightarrow> sp_header_state s = HSTATE_VALUE \<Longrightarrow> sp_current_request s = Some r \<Longrightarrow>
   sp_current_header s = Some h \<Longrightarrow>
   handles reader (concat (map (header_events major minor) hs) @ [E_headers_complete, E_message_complete]) s
     (s\<lparr>sp_current_request := Some (with_headers r (h # map header_of hs)), sp_current_header := None,
        sp_request_complete := True\<rparr>)"
proof (induction hs arbitrary: s r h)
  case Nil
  then show ?case
    by (simp add: handles_Cons parser_cb_on_headers_complete_def save_header_def http_header_list_add_def
        utarray_push_back_def parser_cb_on_message_complete_def with_headers_def)
next
  case (Cons nv hs)
  obtain n v where nv: "nv = (n, v)" by (cases nv)
  let ?s = "s\<lparr>sp_current_request := Some (with_headers r [h]), sp_current_header := Some (header_of nv)\<rparr>"
  have "handles reader (concat (map (header_events major minor) hs) @ [E_headers_complete, E_message_complete]) ?s
     (?s\<lparr>sp_current_request := Some (with_headers (with_headers r [h]) (header_of nv # map header_of hs)),
        sp_current_header := None, sp_request_complete := True\<rparr>)"
    using Cons.prems by (intro Cons.IH) simp_all
  moreover have "handles reader (header_events major minor nv) s ?s"
    using Cons.prems nv
    by (simp add: handles_Cons parser_cb_on_header_field_def save_header_def http_header_list_add_def
        utarray_push_back_def parser_cb_on_header_value_def with_headers_def header_of_def no_nul_def
        http_header_new_def http_header_append_content_def)
  ultimately show ?case
    by (simp only: list.map concat.simps append_assoc handles_append) (fastforce simp: handles_append)
qed

text \<open>
  A whole request, from a status whose header state is \<open>st\<close>: the version is set only when
  there are headers and the state was \<open>HSTATE_NONE\<close>.
\<close>

definition built_request :: "http_method \<Rightarrow> string \<Rightarrow> http_version \<Rightarrow> header_line list \<Rightarrow> http_request" where
  "built_request m t v hs =
     http_request_new\<lparr>rq_line := Some (line_of m t v), rq_headers := map header_of hs\<rparr>"

lemma delete_new_request [simp]:
  "b_type (rq_body r) = BODY_NONE \<Longrightarrow> http_request_delete r = Inr ()"
  by (simp add: http_request_delete_def http_body_delete_def http_body_clear_def)

lemma reader_request:
  assumes "sp_header_state s = st" and "st \<noteq> HSTATE_FIELD" and "sp_current_header s = None"
    and "\<And>r. sp_current_request s = Some r \<Longrightarrow> b_type (rq_body r) = BODY_NONE"
    and "NUL \<notin> set t" and "\<forall>nv \<in> set hs. no_nul nv" and "minor \<le> 1"
  shows "handles reader ([E_message_begin, E_url m t] @ concat (map (header_events 1 minor) hs) @
      [E_headers_complete, E_message_complete]) s
    \<lparr>sp_current_request = Some (built_request m t
       (if hs \<noteq> [] \<and> st = HSTATE_NONE then version_of minor else HTTPXX) hs),
     sp_request_complete = True, sp_current_header = None,
     sp_header_state = (if hs = [] then st else HSTATE_VALUE)\<rparr>"
proof -
  let ?s0 = "s\<lparr>sp_current_request := Some http_request_new, sp_request_complete := False\<rparr>"
  let ?r1 = "http_request_new\<lparr>rq_line := Some (line_of m t HTTPXX)\<rparr>"
  let ?s1 = "s\<lparr>sp_current_request := Some ?r1, sp_request_complete := False\<rparr>"
  have b: "reader E_message_begin s = Inr (0, ?s0)"
    using assms(4) by (cases "sp_current_request s") (simp_all add: parser_cb_on_message_begin_def)
  have u: "reader (E_url m t) ?s0 = Inr (0, ?s1)"
    using assms(5) by (simp add: parser_cb_on_url_def line_new_known [OF fromstring_not_other]
        http_method_str_def line_of_def)
  have start: "handles reader ([E_message_begin, E_url m t] @ es) s v" if "handles reader es ?s1 v" for es v
    using that b u by (simp add: handles_Cons del: reader.simps)
  show ?thesis
  proof (cases hs)
    case Nil
    have "handles reader [E_headers_complete, E_message_complete] ?s1
        (?s1\<lparr>sp_current_header := None, sp_request_complete := True\<rparr>)"
      using assms(3) by (simp add: handles_Cons parser_cb_on_headers_complete_def save_header_def
          parser_cb_on_message_complete_def)
    moreover have "?s1\<lparr>sp_current_header := None, sp_request_complete := True\<rparr> =
        \<lparr>sp_current_request = Some (built_request m t HTTPXX []), sp_request_complete = True,
         sp_current_header = None, sp_header_state = st\<rparr>"
      using assms(1) by (simp add: built_request_def http_request_new_def http_header_list_new_def)
    ultimately show ?thesis using Nil start by simp
  next
    case (Cons nv hs')
    obtain n v where nv: "nv = (n, v)" by (cases nv)
    let ?ver = "if st = HSTATE_NONE then version_of minor else HTTPXX"
    let ?r2 = "http_request_new\<lparr>rq_line := Some (line_of m t ?ver)\<rparr>"
    let ?s2 = "\<lparr>sp_current_request = Some ?r2, sp_request_complete = False,
      sp_current_header = Some (header_of nv), sp_header_state = HSTATE_VALUE\<rparr>"
    have "minor = 0 \<or> minor = 1" using assms(7) by auto
    then have "handles reader (header_events 1 minor nv) ?s1 ?s2"
      using assms(1-3,6) Cons nv
      by (cases st) (auto simp: handles_Cons parser_cb_on_header_field_def set_version_def save_header_def
          parser_cb_on_header_value_def header_of_def no_nul_def http_header_new_def
          http_header_append_content_def version_of_def line_of_def)
    moreover have "handles reader (concat (map (header_events 1 minor) hs') @ [E_headers_complete, E_message_complete]) ?s2
        (?s2\<lparr>sp_current_request := Some (with_headers ?r2 (header_of nv # map header_of hs')),
           sp_current_header := None, sp_request_complete := True\<rparr>)"
      using assms(6) Cons by (intro reader_more_headers) simp_all
    ultimately have "handles reader (header_events 1 minor nv @ concat (map (header_events 1 minor) hs') @
        [E_headers_complete, E_message_complete]) ?s1
        (?s2\<lparr>sp_current_request := Some (with_headers ?r2 (header_of nv # map header_of hs')),
           sp_current_header := None, sp_request_complete := True\<rparr>)"
      by (subst handles_append) blast
    moreover have "?s2\<lparr>sp_current_request := Some (with_headers ?r2 (header_of nv # map header_of hs')),
           sp_current_header := None, sp_request_complete := True\<rparr> =
        \<lparr>sp_current_request = Some (built_request m t ?ver hs), sp_request_complete = True,
         sp_current_header = None, sp_header_state = HSTATE_VALUE\<rparr>"
      using Cons by (simp add: built_request_def with_headers_def http_request_new_def http_header_list_new_def)
    ultimately show ?thesis using Cons start by simp
  qed
qed

section \<open>The parser and the reader together\<close>

definition reader_final ::
  "http_method \<Rightarrow> string \<Rightarrow> http_version \<Rightarrow> header_line list \<Rightarrow> server_parse_status" where
  "reader_final m t v hs =
     \<lparr>sp_current_request = Some (built_request m t v hs), sp_request_complete = True,
      sp_current_header = None, sp_header_state = (if hs = [] then HSTATE_NONE else HSTATE_VALUE)\<rparr>"

abbreviation fresh_status :: server_parse_status where
  "fresh_status \<equiv> fst server_parse_status_new"

lemma reader_from_fresh:
  assumes "NUL \<notin> set t" and "\<forall>nv \<in> set hs. no_nul nv" and "digit_val d \<le> 1"
  shows "handles reader (request_events m t d hs) fresh_status
    (reader_final m t (if hs = [] then HTTPXX else version_of (digit_val d)) hs)"
proof -
  have "handles reader (request_events m t d hs) fresh_status
    \<lparr>sp_current_request = Some (built_request m t
       (if hs \<noteq> [] \<and> HSTATE_NONE = HSTATE_NONE then version_of (digit_val d) else HTTPXX) hs),
     sp_request_complete = True, sp_current_header = None,
     sp_header_state = (if hs = [] then HSTATE_NONE else HSTATE_VALUE)\<rparr>"
    unfolding request_events_def
    by (rule reader_request) (use assms in \<open>simp_all add: server_parse_status_new_def\<close>)
  then show ?thesis by (cases "hs = []") (simp_all add: reader_final_def)
qed

section \<open>Properties\<close>

text \<open>
  C9: on the text of a well-formed HTTP/1.0 or 1.1 request without a body, a new connection
  ends with exactly that request: its method (if the server knows it), the target, every
  header in order with its content, and the complete flag. The version is that of the text
  only if there is a header.
\<close>

theorem reader_builds_request:
  assumes "request_ok m t d hs" and "NUL \<notin> set t" and "\<forall>nv \<in> set hs. no_nul nv" and "digit_val d \<le> 1"
  shows "\<exists>pr. http_parser_execute parser_get_settings (request_text m t d hs)
      (snd server_parse_status_new) (fst server_parse_status_new) =
    Inr (length (request_text m t d hs), pr,
      \<lparr>sp_current_request = Some (http_request_new\<lparr>
         rq_line := Some \<lparr>rl_method = http_method_fromstring (method_strings m), rl_method_other = None,
           rl_uri = Some t,
           rl_version = (if hs = [] then HTTPXX else version_of (digit_val d))\<rparr>,
         rq_headers := map (\<lambda>(n, v). http_header_new n (Some v)) hs\<rparr>),
       sp_request_complete = True, sp_current_header = None,
       sp_header_state = (if hs = [] then HSTATE_NONE else HSTATE_VALUE)\<rparr>) \<and>
    p_errno pr = HPE_OK \<and> \<not> p_upgrade pr"
proof -
  have "map header_of hs = map (\<lambda>(n, v). http_header_new n (Some v)) hs"
    by (auto simp: header_of_def)
  then have final: "reader_final m t (if hs = [] then HTTPXX else version_of (digit_val d)) hs =
      \<lparr>sp_current_request = Some (http_request_new\<lparr>
         rq_line := Some \<lparr>rl_method = http_method_fromstring (method_strings m), rl_method_other = None,
           rl_uri = Some t, rl_version = (if hs = [] then HTTPXX else version_of (digit_val d))\<rparr>,
         rq_headers := map (\<lambda>(n, v). http_header_new n (Some v)) hs\<rparr>),
       sp_request_complete = True, sp_current_header = None,
       sp_header_state = (if hs = [] then HSTATE_NONE else HSTATE_VALUE)\<rparr>"
    by (simp add: reader_final_def built_request_def line_of_def)
  have "snd server_parse_status_new = http_parser_init HTTP_REQUEST"
    by (simp add: server_parse_status_new_def)
  with execute_request_run [OF assms(1) reader_from_fresh [OF assms(2-4)]] show ?thesis
    unfolding parser_get_settings_def final by auto
qed

lemma get_request_ok: "request_ok HTTP_GET ''/'' (CHR ''1'') [(''Host'', ''a'')]"
proof -
  have "map tolower ''Host'' = ''host''" by code_simp
  then have w: "classify (map tolower ''Host'') = h_general"
    by (simp add: classify_def is_prefix_def header_words del: list.map)
  show ?thesis
    using target_ok_slash w by (auto simp: request_ok_def request_text_def name_ok_def value_ok_def
      bodyless_name_def isdigit_def is_token_def IS_ALPHANUM_def IS_ALPHA_def LOWER_def)
qed

theorem reader_builds_request_witness:
  "\<exists>pr s. http_parser_execute parser_get_settings (''GET / HTTP/1.1'' @ CRLF @ ''Host: a'' @ CRLF @ CRLF)
      (snd server_parse_status_new) (fst server_parse_status_new) = Inr (27, pr, s) \<and>
    sp_request_complete s \<and>
    map_option rq_headers (sp_current_request s) = Some [http_header_new ''Host'' (Some ''a'')]"
proof -
  have d: "digit_val (CHR ''1'') = 1" by code_simp
  have "NUL \<notin> set ''/''" "\<forall>nv \<in> set [(''Host'', ''a'')]. no_nul nv" "digit_val (CHR ''1'') \<le> 1"
    by (simp_all add: no_nul_def d)
  from reader_builds_request [OF get_request_ok this] show ?thesis
    by (auto simp: request_text_def)
qed

section \<open>Round trip\<close>

definition method_of :: "http_method \<Rightarrow> http_request_method option" where
  "method_of m =
     (let k = http_method_fromstring (method_strings m) in if k = METHOD_INVALID then None else Some k)"

lemma method_of_getstring:
  "method_of m = Some k \<Longrightarrow> http_method_getstring k other = Inr (method_strings m)"
  by (cases m) (auto simp: method_of_def Let_def http_method_fromstring_def known_methods_def)

lemma digit_0_1: "isdigit d \<Longrightarrow> digit_val d \<le> 1 \<Longrightarrow> d = CHR ''0'' \<or> d = CHR ''1''"
proof -
  assume d: "isdigit d" "digit_val d \<le> 1"
  then have "(of_char d :: nat) = 48 \<or> (of_char d :: nat) = 49"
    by (auto simp: isdigit_def digit_val_def Let_def)
  then have "d = char_of (48 :: nat) \<or> d = char_of (49 :: nat)" by (metis char_of_char)
  moreover have "char_of (48 :: nat) = CHR ''0''" "char_of (49 :: nat) = CHR ''1''" by code_simp+
  ultimately show ?thesis by simp
qed

lemma writeto_utstring_empty:
  "body_ok b \<Longrightarrow> body_bytes b = [] \<Longrightarrow>
   http_body_writeto_utstring b out = Some (Inr (HBWRITE_DONE, b, out))"
  by (auto simp: http_body_writeto_utstring_def body_ut_loop.simps [of b out] body_ok_def
      dest: ptr_fits_null)

lemma request_text_write:
  assumes "isdigit d" and "digit_val d \<le> 1"
  shows "request_line_text (method_strings m) \<lparr>rl_method = k, rl_method_other = o', rl_uri = Some t,
      rl_version = version_of (digit_val d)\<rparr> @ header_lines (map header_of hs) @ CRLF =
    request_text m t d hs"
proof -
  have "header_line (header_of nv) = header_text nv" for nv
    by (cases nv) (simp add: header_line_def header_of_def printf_s_def)
  then have h: "header_lines (map header_of hs) = concat (map header_text hs)"
    by (simp add: header_lines_def comp_def)
  have v: "digit_val (CHR ''0'') = 0" "digit_val (CHR ''1'') = 1" by code_simp+
  from digit_0_1 [OF assms] show ?thesis
    by (elim disjE) (simp_all add: request_line_text_def request_text_def printf_s_def h v version_of_def)
qed

text \<open>
  C15: what \<open>http_request_write\<close> writes for a request without a body, the parser and the
  callbacks read back: the same method, target, version and headers (when there is at least
  one header, and the text is one the parser takes).
\<close>

theorem request_write_read:
  assumes "method_of m = Some k" and "rq_line r = Some \<lparr>rl_method = k, rl_method_other = None,
      rl_uri = Some t, rl_version = version_of (digit_val d)\<rparr>"
    and "rq_headers r = map (\<lambda>(n, v). http_header_new n (Some v)) hs" and "hs \<noteq> []"
    and "body_ok (rq_body r)" and "body_bytes (rq_body r) = []"
    and "request_ok m t d hs" and "NUL \<notin> set t" and "\<forall>nv \<in> set hs. no_nul nv" and "digit_val d \<le> 1"
  shows "\<exists>text r' pr s q. http_request_write r = Some (Inr (text, r')) \<and>
    http_parser_execute parser_get_settings text (snd server_parse_status_new) (fst server_parse_status_new) =
      Inr (length text, pr, s) \<and>
    sp_request_complete s \<and> sp_current_request s = Some q \<and>
    rq_line q = rq_line r \<and> rq_headers q = rq_headers r"
proof -
  let ?v = "version_of (digit_val d)" and ?text = "request_text m t d hs"
  have d: "isdigit d" using assms(7) by (simp add: request_ok_def)
  have hs: "rq_headers r = map header_of hs" using assms(3) by (auto simp: header_of_def)
  have k: "http_method_fromstring (method_strings m) = k"
    using assms(1) by (auto simp: method_of_def Let_def split: if_splits)
  have w: "http_request_write r = Some (Inr (?text, r))"
    using method_of_getstring [OF assms(1)] request_text_write [OF d assms(10)]
    by (simp add: http_request_write_def assms(2) hs writeto_utstring_empty [OF assms(5,6)])
  obtain pr where pr: "http_parser_execute (settings_of reader) ?text (http_parser_init HTTP_REQUEST) fresh_status =
      Inr (length ?text, pr, reader_final m t (if hs = [] then HTTPXX else ?v) hs)"
    using execute_request_run [OF assms(7) reader_from_fresh [OF assms(8-10)]] by blast
  let ?s = "reader_final m t ?v hs"
  have "http_parser_execute parser_get_settings ?text (snd server_parse_status_new) (fst server_parse_status_new) =
      Inr (length ?text, pr, ?s)"
    using pr assms(4) by (simp add: parser_get_settings_def server_parse_status_new_def)
  moreover have "sp_current_request ?s = Some (built_request m t ?v hs)" "sp_request_complete ?s"
    by (simp_all add: reader_final_def)
  moreover have "rq_line (built_request m t ?v hs) = rq_line r" "rq_headers (built_request m t ?v hs) = rq_headers r"
    using assms(2) hs k by (simp_all add: built_request_def line_of_def)
  ultimately show ?thesis using w by blast
qed

definition get_request :: http_request where
  "get_request = http_request_new\<lparr>rq_line := Some \<lparr>rl_method = METHOD_GET, rl_method_other = None,
     rl_uri = Some ''/'', rl_version = HTTP11\<rparr>, rq_headers := [http_header_new ''Host'' (Some ''a'')]\<rparr>"

theorem request_write_read_witness:
  "\<exists>text r' pr s q. http_request_write get_request = Some (Inr (text, r')) \<and>
    http_parser_execute parser_get_settings text (snd server_parse_status_new) (fst server_parse_status_new) =
      Inr (length text, pr, s) \<and>
    sp_request_complete s \<and> sp_current_request s = Some q \<and>
    rq_line q = rq_line get_request \<and> rq_headers q = rq_headers get_request"
proof (rule request_write_read [of HTTP_GET METHOD_GET get_request "''/''" "CHR ''1''" "[(''Host'', ''a'')]"])
  have d: "digit_val (CHR ''1'') = 1" by code_simp
  show "method_of HTTP_GET = Some METHOD_GET"
    by (simp add: method_of_def http_method_fromstring_def known_methods_def)
  show "rq_line get_request = Some \<lparr>rl_method = METHOD_GET, rl_method_other = None, rl_uri = Some ''/'',
      rl_version = version_of (digit_val (CHR ''1''))\<rparr>"
    by (simp add: get_request_def d version_of_def)
  show "digit_val (CHR ''1'') \<le> 1" by (simp add: d)
  show "body_ok (rq_body get_request)" "body_bytes (rq_body get_request) = []"
    by (simp_all add: get_request_def http_request_new_def http_body_new_def body_ok_def body_bytes_def)
qed (use get_request_ok in \<open>simp_all add: get_request_def no_nul_def\<close>)

section \<open>Bodies\<close>

text \<open>No request the callbacks build ever gets a body of another type than \<open>BODY_NONE\<close>.\<close>

definition bodiless :: "server_parse_status \<Rightarrow> bool" where
  "bodiless s \<longleftrightarrow> (\<forall>r. sp_current_request s = Some r \<longrightarrow> b_type (rq_body r) = BODY_NONE)"

lemma save_header_bodiless: "save_header s = Inr s' \<Longrightarrow> bodiless s \<Longrightarrow> bodiless s'"
  by (auto simp: save_header_def bodiless_def bind_res_eq_Inr split: option.splits)

lemma set_version_bodiless: "set_version major minor s = Inr (ok, s') \<Longrightarrow> bodiless s \<Longrightarrow> bodiless s'"
  by (auto simp: set_version_def bodiless_def split: if_splits option.splits)

lemma bodiless_upd [simp]:
  "bodiless (s\<lparr>sp_current_header := h\<rparr>) = bodiless s"
  "bodiless (s\<lparr>sp_header_state := st\<rparr>) = bodiless s"
  "bodiless (s\<lparr>sp_request_complete := c\<rparr>) = bodiless s"
  by (simp_all add: bodiless_def)

lemma append_body_bodiless:
  "http_request_append_body r str = Inr r' \<Longrightarrow> b_type (rq_body r) \<noteq> BODY_NONE"
  by (auto simp: http_request_append_body_def split: if_splits)

lemma header_field_bodiless:
  assumes "parser_cb_on_header_field major minor bs s = Inr (r, s')" and "bodiless s"
  shows "bodiless s'"
  using assms
  by (auto simp: parser_cb_on_header_field_def bind_res_eq_Inr
      split: server_parse_header_state.splits option.splits if_splits
      dest: save_header_bodiless set_version_bodiless)

lemma reader_bodiless:
  assumes "reader e s = Inr (r, s')" and "bodiless s"
  shows "bodiless s'"
proof (cases e)
  case E_message_begin
  then show ?thesis using assms
    by (auto simp: parser_cb_on_message_begin_def bind_res_eq_Inr bodiless_def http_request_new_def http_body_new_def)
next
  case (E_url m bs)
  then show ?thesis using assms
    by (auto simp: parser_cb_on_url_def bind_res_eq_Inr bodiless_def split: option.splits)
next
  case (E_status bs)
  then show ?thesis using assms by (simp add: parser_cb_on_status_def)
next
  case (E_header_field major minor bs)
  then show ?thesis using assms header_field_bodiless by simp
next
  case (E_header_value bs)
  then show ?thesis using assms by (auto simp: parser_cb_on_header_value_def split: option.splits)
next
  case E_headers_complete
  then show ?thesis using assms
    by (auto simp: parser_cb_on_headers_complete_def bind_res_eq_Inr dest: save_header_bodiless)
next
  case (E_body bs)
  then show ?thesis using assms
    by (auto simp: parser_cb_on_body_def bind_res_eq_Inr bodiless_def split: option.splits
        dest!: append_body_bodiless)
next
  case E_message_complete
  then show ?thesis using assms by (auto simp: parser_cb_on_message_complete_def)
qed

lemma handles_bodiless: "handles reader es s s' \<Longrightarrow> bodiless s \<Longrightarrow> bodiless s'"
  by (induction es arbitrary: s) (auto simp: handles_Cons dest: reader_bodiless)

lemma body_faults: "bodiless s \<Longrightarrow> reader (E_body bs) s = Inl Assert_failed"
  by (auto simp: parser_cb_on_body_def bodiless_def http_request_append_body_def split: option.splits)

text \<open>
  C34: whatever a connection has read before, the first byte of a message body makes the
  server fail an assertion: \<open>http_request_append_body\<close> insists on a string body, and no
  callback ever makes the body of a request one.
\<close>

theorem reader_body_aborts:
  assumes "handles reader es fresh_status s" and "p_state pr = s_body_identity" and "p_errno pr = HPE_OK"
    and "p_content_length pr \<noteq> 0" and "p_content_length pr \<noteq> ULLONG_MAX" and "data \<noteq> []"
  shows "http_parser_execute parser_get_settings data pr s = Inl Assert_failed"
proof -
  have "bodiless fresh_status" by (simp add: bodiless_def server_parse_status_new_def)
  with assms(1) have "bodiless s" by (rule handles_bodiless)
  then show ?thesis unfolding parser_get_settings_def
    using assms(2-6) by (intro execute_body_fault) (simp_all add: body_faults del: reader.simps)
qed

theorem reader_body_aborts_witness:
  "http_parser_execute parser_get_settings ''x=1''
     ((http_parser_init HTTP_REQUEST)\<lparr>p_state := s_body_identity, p_content_length := 3\<rparr>)
     (fresh_status\<lparr>sp_current_request := Some http_request_new\<rparr>) = Inl Assert_failed"
proof (rule reader_body_aborts [of "[E_message_begin]"])
  show "handles reader [E_message_begin] fresh_status (fresh_status\<lparr>sp_current_request := Some http_request_new\<rparr>)"
    by (simp add: handles_Cons parser_cb_on_message_begin_def server_parse_status_new_def)
qed (simp_all add: http_parser_init_def)

section \<open>Several requests in one read\<close>

text \<open>The state after the second request: only without headers in the first is the version seen.\<close>

definition second_version :: "header_line list \<Rightarrow> char \<Rightarrow> header_line list \<Rightarrow> http_version" where
  "second_version hs1 d2 hs2 = (if hs1 = [] \<and> hs2 \<noteq> [] then version_of (digit_val d2) else HTTPXX)"

definition second_final ::
  "header_line list \<Rightarrow> http_method \<Rightarrow> string \<Rightarrow> char \<Rightarrow> header_line list \<Rightarrow> server_parse_status" where
  "second_final hs1 m2 t2 d2 hs2 =
     (reader_final m2 t2 (second_version hs1 d2 hs2) hs2)
       \<lparr>sp_header_state := (if hs1 = [] \<and> hs2 = [] then HSTATE_NONE else HSTATE_VALUE)\<rparr>"

lemma reader_second:
  assumes "NUL \<notin> set t1" and "\<forall>nv \<in> set hs1. no_nul nv" and "digit_val d1 \<le> 1"
    and "NUL \<notin> set t2" and "\<forall>nv \<in> set hs2. no_nul nv" and "digit_val d2 \<le> 1"
  shows "handles reader (request_events m1 t1 d1 hs1 @ request_events m2 t2 d2 hs2) fresh_status
    (second_final hs1 m2 t2 d2 hs2)"
proof -
  let ?s = "reader_final m1 t1 (if hs1 = [] then HTTPXX else version_of (digit_val d1)) hs1"
    and ?st = "if hs1 = [] then HSTATE_NONE else HSTATE_VALUE"
  have "handles reader (request_events m2 t2 d2 hs2) ?s
    \<lparr>sp_current_request = Some (built_request m2 t2
       (if hs2 \<noteq> [] \<and> ?st = HSTATE_NONE then version_of (digit_val d2) else HTTPXX) hs2),
     sp_request_complete = True, sp_current_header = None,
     sp_header_state = (if hs2 = [] then ?st else HSTATE_VALUE)\<rparr>"
    unfolding request_events_def
    by (rule reader_request)
       (use assms in \<open>auto simp: reader_final_def built_request_def http_request_new_def http_body_new_def\<close>)
  moreover have "handles reader (request_events m1 t1 d1 hs1) fresh_status ?s"
    using assms by (intro reader_from_fresh)
  ultimately show ?thesis
    by (cases "hs1 = []"; cases "hs2 = []")
      (auto simp: handles_append reader_final_def second_final_def second_version_def)
qed

text \<open>
  C35: two well-formed requests without a body arrive in one read on a new connection, the
  first of HTTP/1.1 and without a \<open>Connection\<close> header (so that the parser goes on), the second
  of HTTP/1.0 or 1.1, no byte of them a \<open>NUL\<close>. Then the second makes the callbacks delete the
  first, which is never answered: the connection ends with the second alone, complete, with
  its target and headers. Its version is set only when it has headers and the first had none;
  after a first request with headers it stays unset.
\<close>

theorem pipelined_request_lost:
  assumes "request_ok m1 t1 d1 hs1" and "request_ok m2 t2 d2 hs2" and "plain_headers hs1"
    and "digit_val d1 = 1" and "digit_val d2 \<le> 1" and "NUL \<notin> set t1" and "NUL \<notin> set t2"
    and "\<forall>nv \<in> set (hs1 @ hs2). no_nul nv"
  shows "\<exists>pr s q. http_parser_execute parser_get_settings
      (request_text m1 t1 d1 hs1 @ request_text m2 t2 d2 hs2)
      (snd server_parse_status_new) (fst server_parse_status_new) =
      Inr (length (request_text m1 t1 d1 hs1) + length (request_text m2 t2 d2 hs2), pr, s) \<and>
    sp_request_complete s \<and> sp_current_request s = Some q \<and>
    map_option rl_uri (rq_line q) = Some (Some t2) \<and>
    map_option rl_version (rq_line q) =
      Some (if hs1 = [] \<and> hs2 \<noteq> [] then version_of (digit_val d2) else HTTPXX) \<and>
    rq_headers q = map (\<lambda>(n, v). http_header_new n (Some v)) hs2"
proof -
  let ?f = "second_final hs1 m2 t2 d2 hs2" and ?v = "second_version hs1 d2 hs2"
  have "handles reader (request_events m1 t1 d1 hs1 @ request_events m2 t2 d2 hs2) fresh_status ?f"
    using assms by (intro reader_second) auto
  from execute_two_run [OF assms(1-3) _ this] assms(4) obtain pr where pr:
    "http_parser_execute (settings_of reader) (request_text m1 t1 d1 hs1 @ request_text m2 t2 d2 hs2)
      (http_parser_init HTTP_REQUEST) fresh_status =
    Inr (length (request_text m1 t1 d1 hs1) + length (request_text m2 t2 d2 hs2), pr, ?f)"
    by auto
  have "map header_of hs2 = map (\<lambda>(n, v). http_header_new n (Some v)) hs2"
    by (auto simp: header_of_def)
  then have "sp_current_request ?f = Some (built_request m2 t2 ?v hs2) \<and> sp_request_complete ?f \<and>
    map_option rl_uri (rq_line (built_request m2 t2 ?v hs2)) = Some (Some t2) \<and>
    map_option rl_version (rq_line (built_request m2 t2 ?v hs2)) =
      Some (if hs1 = [] \<and> hs2 \<noteq> [] then version_of (digit_val d2) else HTTPXX) \<and>
    rq_headers (built_request m2 t2 ?v hs2) = map (\<lambda>(n, v). http_header_new n (Some v)) hs2"
    by (simp add: second_final_def reader_final_def built_request_def line_of_def second_version_def)
  moreover have "snd server_parse_status_new = http_parser_init HTTP_REQUEST"
    by (simp add: server_parse_status_new_def)
  ultimately show ?thesis using pr unfolding parser_get_settings_def by metis
qed

lemma host_plain: "plain_headers [(''Host'', ''a'')]"
proof -
  have "map tolower ''Host'' = ''host''" by code_simp
  then show ?thesis
    by (simp add: plain_headers_def classify_def is_prefix_def header_words del: list.map)
qed

theorem pipelined_request_lost_witness:
  "\<exists>pr s q. http_parser_execute parser_get_settings
      (request_text HTTP_GET ''/'' (CHR ''1'') [(''Host'', ''a'')] @
       request_text HTTP_GET ''/'' (CHR ''1'') [(''Host'', ''a'')])
      (snd server_parse_status_new) (fst server_parse_status_new) = Inr (54, pr, s) \<and>
    sp_current_request s = Some q \<and> map_option rl_version (rq_line q) = Some HTTPXX"
proof -
  have d: "digit_val (CHR ''1'') = 1" by code_simp
  have "length (request_text HTTP_GET ''/'' (CHR ''1'') [(''Host'', ''a'')]) = 27"
    by (simp add: request_text_def)
  with pipelined_request_lost [OF get_request_ok get_request_ok host_plain] show ?thesis
    using d by (fastforce simp: no_nul_def)
qed

section \<open>A target that arrives in two reads\<close>

text \<open>
  When a read ends inside the target, the request gets only the part of the target that
  came with the second read: the callback replaces the line it had made of the first part.
\<close>

theorem split_target_truncated:
  assumes "request_ok m (a @ b) d hs" and "a \<noteq> []" and "b \<noteq> []" and "NUL \<notin> set a" and "NUL \<notin> set b"
    and "\<forall>nv \<in> set hs. no_nul nv" and "digit_val d \<le> 1"
  shows "\<exists>pr1 s1 pr2 s2 q.
    http_parser_execute parser_get_settings (method_strings m @ '' '' @ a)
      (snd server_parse_status_new) (fst server_parse_status_new) =
      Inr (length (method_strings m @ '' '' @ a), pr1, s1) \<and>
    http_parser_execute parser_get_settings (b @ rest_text d hs) pr1 s1 =
      Inr (length (b @ rest_text d hs), pr2, s2) \<and>
    p_errno pr2 = HPE_OK \<and> sp_request_complete s2 \<and> sp_current_request s2 = Some q \<and>
    map_option rl_uri (rq_line q) = Some (Some b)"
proof -
  let ?s0 = "fresh_status\<lparr>sp_current_request := Some http_request_new\<rparr>"
  let ?s1 = "fresh_status\<lparr>sp_current_request := Some (http_request_new\<lparr>rq_line := Some (line_of m a HTTPXX)\<rparr>)\<rparr>"
  let ?e = "concat (map (header_events 1 (digit_val d)) hs) @ [E_headers_complete, E_message_complete]"
  let ?f = "reader_final m b (if hs = [] then HTTPXX else version_of (digit_val d)) hs"
  have url: "reader (E_url m c) (s\<lparr>sp_current_request := Some r\<rparr>) =
      Inr (0, s\<lparr>sp_current_request := Some (r\<lparr>rq_line := Some (line_of m c HTTPXX)\<rparr>)\<rparr>)"
    if "NUL \<notin> set c" for s r c
    using that by (simp add: parser_cb_on_url_def line_new_known [OF fromstring_not_other]
        http_method_str_def line_of_def)
  have b: "reader E_message_begin fresh_status = Inr (0, ?s0)"
    by (simp add: parser_cb_on_message_begin_def server_parse_status_new_def)
  have "handles reader ([E_message_begin, E_url m b] @ ?e) fresh_status ?f"
    using reader_from_fresh [of b hs d m] assms(5-7) by (simp add: request_events_def)
  then obtain w where w: "reader (E_url m b) ?s0 = Inr (0, w)" "handles reader ?e w ?f"
    using b by (auto simp: handles_Cons simp del: reader.simps)
  have "reader (E_url m b) ?s1 = reader (E_url m b) ?s0" using url [OF assms(5)] by simp
  then have "handles reader ([E_message_begin, E_url m a, E_url m b] @ ?e) fresh_status ?f"
    using b url [OF assms(4)] w by (simp add: handles_Cons del: reader.simps)
  from execute_split_target_run [OF assms(1-3) this] obtain pr1 s1 pr2 where r:
    "http_parser_execute (settings_of reader) (method_strings m @ '' '' @ a) (http_parser_init HTTP_REQUEST) fresh_status =
      Inr (length (method_strings m @ '' '' @ a), pr1, s1)"
    "http_parser_execute (settings_of reader) (b @ rest_text d hs) pr1 s1 =
      Inr (length (b @ rest_text d hs), pr2, ?f)" "p_errno pr2 = HPE_OK"
    by blast
  have "sp_request_complete ?f" "sp_current_request ?f =
      Some (built_request m b (if hs = [] then HTTPXX else version_of (digit_val d)) hs)"
    "map_option rl_uri (rq_line (built_request m b (if hs = [] then HTTPXX else version_of (digit_val d)) hs)) =
      Some (Some b)"
    by (simp_all add: reader_final_def built_request_def line_of_def)
  moreover have "snd server_parse_status_new = http_parser_init HTTP_REQUEST"
    by (simp add: server_parse_status_new_def)
  ultimately show ?thesis using r unfolding parser_get_settings_def by metis
qed

theorem split_target_truncated_witness:
  "\<exists>pr1 s1 pr2 s2 q.
    http_parser_execute parser_get_settings ''GET /ad''
      (snd server_parse_status_new) (fst server_parse_status_new) = Inr (7, pr1, s1) \<and>
    http_parser_execute parser_get_settings (''min'' @ rest_text (CHR ''1'') []) pr1 s1 =
      Inr (length (''min'' @ rest_text (CHR ''1'') []), pr2, s2) \<and>
    sp_current_request s2 = Some q \<and> map_option rl_uri (rq_line q) = Some (Some ''min'')"
proof -
  have d: "digit_val (CHR ''1'') = 1" by code_simp
  have "target_ok (''/ad'' @ ''min'')"
    by (simp add: target_ok_def parse_url_char_def IS_URL_CHAR_def)
  then have "request_ok HTTP_GET (''/ad'' @ ''min'') (CHR ''1'') []"
    by (simp add: request_ok_def request_text_def isdigit_def)
  from split_target_truncated [OF this] d show ?thesis by fastforce
qed

end
