(* ===== verification/Ini.thy ===== *)
theory Ini
  imports Libc
begin

text \<open>
  \<open>lib/ini.c\<close>: the INI reader, as modified here (the handler is called with a null name
  at every new section). The makefiles compile it with \<open>INI_ALLOW_BOM=0\<close> and
  \<open>INI_ALLOW_MULTILINE=0\<close>: no byte order mark is skipped, and a line with leading spaces is
  one like others; both are flags below. Of \<open>ini.h\<close> are the line buffer of \<open>INI_MAX_LINE\<close>
  characters on the stack, and that there is no stop at the first error. The file is the string of its bytes; lines with a \<open>NUL\<close> byte are cut
  there, as the string functions of the code do. The handler is a function of the user
  state, giving its integer result with the new state.
\<close>

section \<open>Scanning\<close>

definition MAX_SECTION :: nat where
  "MAX_SECTION = 50"

definition MAX_NAME :: nat where
  "MAX_NAME = 50"

definition INI_MAX_LINE :: nat where
  "INI_MAX_LINE = 200"

definition rstrip :: "string \<Rightarrow> string" where
  "rstrip s = rev (dropWhile isspace (rev s))"

definition lskip :: "string \<Rightarrow> string" where
  "lskip s = dropWhile isspace s"

text \<open>The offset of the pointer it returns.\<close>

fun find_from :: "bool \<Rightarrow> string \<Rightarrow> char \<Rightarrow> nat" where
  "find_from was_whitespace [] c = 0"
| "find_from was_whitespace (x # xs) c =
     (if x = c \<or> was_whitespace \<and> x = CHR '';'' then 0 else Suc (find_from (isspace x) xs c))"

definition find_char_or_comment :: "string \<Rightarrow> char \<Rightarrow> nat" where
  "find_char_or_comment s c = find_from False s c"

definition strncpy0 :: "string \<Rightarrow> nat \<Rightarrow> string" where
  "strncpy0 src n = take (n - 1) src"

text \<open>\<open>fgets\<close>: at most \<open>siz - 1\<close> characters, up to and with a newline.\<close>

definition fgets :: "nat \<Rightarrow> string \<Rightarrow> (string \<times> string) option" where
  "fgets siz inp =
     (if inp = [] then None
      else let l = takeWhile (\<lambda>c. c \<noteq> LF) (take (siz - 1) inp);
               n = (if length l < min (siz - 1) (length inp) then Suc (length l) else length l)
           in Some (take n inp, drop n inp))"

section \<open>Lines\<close>

record 'u ini_state =
  section_of :: string
  prev_name :: string
  error_line :: nat
  user :: 'u

type_synonym 'u ini_handler = "'u \<Rightarrow> string \<Rightarrow> string option \<Rightarrow> string option \<Rightarrow> int \<times> 'u"

text \<open>\<open>if (!handler(...) && !error) error = lineno;\<close>\<close>

definition report :: "nat \<Rightarrow> bool \<Rightarrow> 'u ini_state \<Rightarrow> 'u ini_state" where
  "report lineno failed st =
     (if failed \<and> error_line st = 0 then st\<lparr>error_line := lineno\<rparr> else st)"

definition call_handler ::
  "'u ini_handler \<Rightarrow> nat \<Rightarrow> string option \<Rightarrow> string option \<Rightarrow> 'u ini_state \<Rightarrow> 'u ini_state" where
  "call_handler h lineno name value st =
     (let (r, u) = h (user st) (section_of st) name value in report lineno (r = 0) (st\<lparr>user := u\<rparr>))"

text \<open>A line that begins with a bracket, after the bracket.\<close>

definition section_line :: "'u ini_handler \<Rightarrow> nat \<Rightarrow> string \<Rightarrow> 'u ini_state \<Rightarrow> 'u ini_state" where
  "section_line h lineno s st =
     (let e = find_char_or_comment s (CHR '']'') in
      if e < length s \<and> s ! e = CHR '']''
      then call_handler h lineno None None
             (st\<lparr>section_of := strncpy0 (take e s) MAX_SECTION, prev_name := []\<rparr>)
      else report lineno True st)"

text \<open>The offset of the separator: \<open>=\<close> if there is one before a comment, else \<open>:\<close>.\<close>

definition separator :: "string \<Rightarrow> nat option" where
  "separator s =
     (let e = find_char_or_comment s (CHR ''='');
          e = (if e < length s \<and> s ! e = CHR ''='' then e else find_char_or_comment s (CHR '':''))
      in if e < length s \<and> (s ! e = CHR ''='' \<or> s ! e = CHR '':'') then Some e else None)"

definition value_of :: "string \<Rightarrow> string" where
  "value_of s = (let v = lskip s; e = find_char_or_comment v NUL in rstrip (take e v))"

definition pair_line :: "'u ini_handler \<Rightarrow> nat \<Rightarrow> string \<Rightarrow> 'u ini_state \<Rightarrow> 'u ini_state" where
  "pair_line h lineno s st =
     (case separator s of
        None \<Rightarrow> report lineno True st
      | Some e \<Rightarrow>
          (let name = rstrip (take e s); value = value_of (drop (Suc e) s) in
           call_handler h lineno (Some name) (Some value) (st\<lparr>prev_name := strncpy0 name MAX_NAME\<rparr>)))"

text \<open>The flags of the build (\<open>nbproject/Makefile-Release.mk\<close>, \<open>nbproject/Makefile-Debug.mk\<close>).\<close>

abbreviation INI_ALLOW_BOM :: bool where
  "INI_ALLOW_BOM \<equiv> False"

abbreviation INI_ALLOW_MULTILINE :: bool where
  "INI_ALLOW_MULTILINE \<equiv> False"

definition BOM :: string where
  "BOM = [char_of (0xEF :: nat), char_of (0xBB :: nat), char_of (0xBF :: nat)]"

definition ini_line :: "'u ini_handler \<Rightarrow> nat \<Rightarrow> string \<Rightarrow> 'u ini_state \<Rightarrow> 'u ini_state" where
  "ini_line h lineno buf st =
     (let line = cstr buf;
          skipped = (if INI_ALLOW_BOM \<and> lineno = 1 \<and> starts_with line BOM then drop 3 line else line);
          start = lskip (rstrip skipped);
          indented = (length start < length (rstrip skipped) \<or> length skipped < length line)
      in if start \<noteq> [] \<and> (hd start = CHR '';'' \<or> hd start = CHR ''#'') then st
         else if INI_ALLOW_MULTILINE \<and> prev_name st \<noteq> [] \<and> start \<noteq> [] \<and> indented
         then call_handler h lineno (Some (prev_name st)) (Some start) st
         else if start \<noteq> [] \<and> hd start = CHR ''['' then section_line h lineno (tl start) st
         else if start \<noteq> [] then pair_line h lineno start st
         else st)"

section \<open>Files\<close>

lemma fgets_shorter: "fgets siz inp = Some (line, rest) \<Longrightarrow> 1 < siz \<Longrightarrow> length rest < length inp"
  by (cases inp) (auto simp: fgets_def Let_def split: if_splits)

function ini_loop :: "'u ini_handler \<Rightarrow> nat \<Rightarrow> string \<Rightarrow> 'u ini_state \<Rightarrow> 'u ini_state" where
  "ini_loop h lineno inp st =
     (case fgets INI_MAX_LINE inp of
        None \<Rightarrow> st
      | Some (line, rest) \<Rightarrow> ini_loop h (Suc lineno) rest (ini_line h (Suc lineno) line st))"
  by pat_completeness auto
termination
  by (relation "measure (\<lambda>(h, lineno, inp, st). length inp)")
    (auto dest: fgets_shorter simp: INI_MAX_LINE_def)

declare ini_loop.simps [simp del]

definition ini_parse_file :: "'u ini_handler \<Rightarrow> string \<Rightarrow> 'u \<Rightarrow> nat \<times> 'u" where
  "ini_parse_file h inp u =
     (let st = ini_loop h 0 inp \<lparr>section_of = [], prev_name = [], error_line = 0, user = u\<rparr>
      in (error_line st, user st))"

definition ini_parse :: "(string \<Rightarrow> string option) \<Rightarrow> 'u ini_handler \<Rightarrow> string \<Rightarrow> 'u \<Rightarrow> int \<times> 'u" where
  "ini_parse files h filename u =
     (case files filename of
        None \<Rightarrow> (-1, u)
      | Some inp \<Rightarrow> (let (e, u) = ini_parse_file h inp u in (int e, u)))"

section \<open>Reading back a file\<close>

lemma call_handler_fields [simp]:
  "user (call_handler h k n v st) = snd (h (user st) (section_of st) n v)"
  "section_of (call_handler h k n v st) = section_of st"
  "prev_name (call_handler h k n v st) = prev_name st"
  by (auto simp: call_handler_def report_def split: prod.splits)

text \<open>What every call of the handler keeps, the whole file keeps.\<close>

lemma ini_line_user:
  assumes "\<And>u s n v. P u \<Longrightarrow> P (snd (h u s n v))" and "P (user st)"
  shows "P (user (ini_line h k l st))"
  using assms
  by (auto simp: ini_line_def Let_def section_line_def pair_line_def report_def split: option.splits)

lemma ini_loop_user:
  assumes "\<And>u s n v. P u \<Longrightarrow> P (snd (h u s n v))" and "P (user st)"
  shows "P (user (ini_loop h k inp st))"
  using assms
proof (induction h k inp st rule: ini_loop.induct)
  case (1 h k inp st)
  show ?case
  proof (cases "fgets INI_MAX_LINE inp")
    case None
    with "1.prems"(2) show ?thesis by (simp add: ini_loop.simps [of h k inp])
  next
    case (Some r)
    obtain l rest where r: "r = (l, rest)" by (cases r)
    have "P (user (ini_line h (Suc k) l st))" by (rule ini_line_user [OF "1.prems"])
    then have "P (user (ini_loop h (Suc k) rest (ini_line h (Suc k) l st)))"
      using "1.IH" [OF Some r [symmetric]] "1.prems"(1) by blast
    with Some r show ?thesis by (simp add: ini_loop.simps [of h k inp])
  qed
qed

datatype ini_entry = Section string | Pair string string

fun entry_text :: "ini_entry \<Rightarrow> string" where
  "entry_text (Section s) = CHR ''['' # s @ CHR '']'' # [LF]"
| "entry_text (Pair n v) = n @ CHR ''='' # v @ [LF]"

definition ini_word :: "string \<Rightarrow> bool" where
  "ini_word s \<longleftrightarrow> (\<forall>c \<in> set s. \<not> isspace c \<and> c \<noteq> NUL \<and> c \<noteq> CHR ''='' \<and> c \<noteq> CHR '';'' \<and>
     c \<noteq> CHR '']'' \<and> c \<noteq> CHR ''['' \<and> c \<noteq> CHR ''#'')"

definition ini_value :: "string \<Rightarrow> bool" where
  "ini_value v \<longleftrightarrow> (\<forall>c \<in> set v. c \<noteq> LF \<and> c \<noteq> NUL \<and> c \<noteq> CHR '';'') \<and>
     (v \<noteq> [] \<longrightarrow> \<not> isspace (hd v) \<and> \<not> isspace (last v))"

fun entry_ok :: "ini_entry \<Rightarrow> bool" where
  "entry_ok (Section s) \<longleftrightarrow> ini_word s \<and> length s < MAX_SECTION"
| "entry_ok (Pair n v) \<longleftrightarrow> ini_word n \<and> n \<noteq> [] \<and> ini_value v \<and> length n + length v < INI_MAX_LINE - 2"

fun entry_calls :: "string \<Rightarrow> ini_entry list \<Rightarrow> (string \<times> string option \<times> string option) list" where
  "entry_calls sec [] = []"
| "entry_calls sec (Section s # es) = (s, None, None) # entry_calls s es"
| "entry_calls sec (Pair n v # es) = (sec, Some n, Some v) # entry_calls sec es"

definition do_call :: "'u ini_handler \<Rightarrow> string \<times> string option \<times> string option \<Rightarrow> 'u \<Rightarrow> 'u" where
  "do_call h c u = (case c of (s, n, v) \<Rightarrow> snd (h u s n v))"

lemma isspace_LF [simp]: "isspace LF"
  by (simp add: isspace_def)

lemma not_space [simp]:
  "\<not> isspace (CHR ''['')" "\<not> isspace (CHR '']'')" "\<not> isspace (CHR ''='')" "\<not> isspace (CHR '';'')"
  by (simp_all add: isspace_def)

lemma fgets_line:
  assumes "LF \<notin> set l" and "length l < INI_MAX_LINE - 1"
  shows "fgets INI_MAX_LINE (l @ LF # rest) = Some (l @ [LF], rest)"
proof -
  have t: "take 199 (l @ LF # rest) = l @ take (199 - length l) (LF # rest)"
    using assms(2) by (simp add: INI_MAX_LINE_def)
  obtain k where k: "199 - length l = Suc k"
    using assms(2) by (cases "199 - length l") (auto simp: INI_MAX_LINE_def)
  have "takeWhile (\<lambda>c. c \<noteq> LF) (take 199 (l @ LF # rest)) = l"
  proof -
    have "x \<in> set l \<Longrightarrow> x \<noteq> LF" for x using assms(1) by blast
    then show ?thesis unfolding t k by (subst takeWhile_append2) simp_all
  qed
  with assms show ?thesis by (simp add: fgets_def Let_def INI_MAX_LINE_def)
qed

lemma rstrip_LF: "s \<noteq> [] \<Longrightarrow> \<not> isspace (last s) \<Longrightarrow> rstrip (s @ [LF]) = s"
  by (cases s rule: rev_cases) (auto simp: rstrip_def)

lemma rstrip_id: "s = [] \<or> \<not> isspace (last s) \<Longrightarrow> rstrip s = s"
  by (cases s rule: rev_cases) (auto simp: rstrip_def)

lemma rstrip_eq_LF: "rstrip (s @ [LF]) = rstrip s"
  by (simp add: rstrip_def)

lemma lskip_id: "s = [] \<or> \<not> isspace (hd s) \<Longrightarrow> lskip s = s"
  by (cases s) (auto simp: lskip_def)

lemma find_from_stop:
  "\<forall>x \<in> set s. x \<noteq> c \<and> x \<noteq> CHR '';'' \<Longrightarrow> find_from w (s @ c # r) c = length s"
  by (induction s arbitrary: w) auto

lemma find_from_none:
  "\<forall>x \<in> set s. x \<noteq> c \<and> x \<noteq> CHR '';'' \<Longrightarrow> find_from w s c = length s"
  by (induction s arbitrary: w) auto

lemma ini_word_no_LF: "ini_word s \<Longrightarrow> LF \<notin> set s"
  using isspace_LF unfolding ini_word_def by blast

lemma ini_word_chars:
  "ini_word s \<Longrightarrow> x \<in> set s \<Longrightarrow> \<not> isspace x \<and> x \<noteq> NUL \<and> x \<noteq> CHR ''='' \<and> x \<noteq> CHR '';'' \<and> x \<noteq> CHR '']'' \<and>
    x \<noteq> CHR ''['' \<and> x \<noteq> CHR ''#''"
  unfolding ini_word_def by blast

lemma ini_line_section:
  assumes "ini_word s" and "length s < MAX_SECTION"
  shows "ini_line h n (CHR ''['' # s @ [CHR '']'', LF]) st =
    call_handler h n None None (st\<lparr>section_of := s, prev_name := []\<rparr>)"
proof -
  let ?l = "CHR ''['' # s @ [CHR '']'', LF]"
  have "NUL \<notin> set ?l" using ini_word_chars [OF assms(1)] by auto
  then have c: "cstr ?l = ?l" by simp
  have r: "rstrip ?l = CHR ''['' # s @ [CHR '']'']"
    using rstrip_LF [of "CHR ''['' # s @ [CHR '']'']"] by simp
  have l: "lskip (CHR ''['' # s @ [CHR '']'']) = CHR ''['' # s @ [CHR '']'']" by (simp add: lskip_id)
  have f: "find_char_or_comment (s @ [CHR '']'']) (CHR '']'') = length s"
    unfolding find_char_or_comment_def by (rule find_from_stop) (use ini_word_chars [OF assms(1)] in auto)
  show ?thesis
    using assms(2) by (simp add: ini_line_def c r l section_line_def f strncpy0_def)
qed

lemma ini_line_pair:
  assumes "ini_word n" and "n \<noteq> []" and "ini_value v"
  shows "ini_line h k (n @ CHR ''='' # v @ [LF]) st =
    call_handler h k (Some n) (Some v) (st\<lparr>prev_name := take (MAX_NAME - 1) n\<rparr>)"
proof -
  let ?l = "n @ CHR ''='' # v @ [LF]" and ?s = "n @ CHR ''='' # v"
  have "NUL \<notin> set ?l" using ini_word_chars [OF assms(1)] assms(3) by (auto simp: ini_value_def)
  then have c: "cstr ?l = ?l" by simp
  have last: "\<not> isspace (last ?s)" using assms(3) by (auto simp: ini_value_def)
  have r: "rstrip ?l = ?s" using rstrip_LF [OF _ last] by simp
  have hd: "\<not> isspace (hd n)" "hd n \<noteq> CHR '';''" "hd n \<noteq> CHR ''#''" "hd n \<noteq> CHR ''[''"
    using ini_word_chars [OF assms(1) hd_in_set [OF assms(2)]] by auto
  have l: "lskip ?s = ?s" using hd(1) assms(2) by (simp add: lskip_id)
  have f: "find_char_or_comment ?s (CHR ''='') = length n"
    unfolding find_char_or_comment_def by (rule find_from_stop) (use ini_word_chars [OF assms(1)] in auto)
  have sep: "separator ?s = Some (length n)" by (simp add: separator_def f)
  have nm: "rstrip n = n"
    using assms(1,2) ini_word_chars [OF assms(1) last_in_set [OF assms(2)]] by (simp add: rstrip_id)
  have lv: "lskip v = v" using assms(3) by (intro lskip_id) (auto simp: ini_value_def)
  have fv: "find_char_or_comment v NUL = length v"
    unfolding find_char_or_comment_def by (rule find_from_none) (use assms(3) in \<open>auto simp: ini_value_def\<close>)
  have val: "value_of v = v"
    using assms(3) by (simp add: value_of_def lv fv) (intro rstrip_id, auto simp: ini_value_def)
  have "ini_line h k ?l st = pair_line h k ?s st"
    using hd assms(2) by (auto simp: ini_line_def c Let_def r l)
  also have "\<dots> = call_handler h k (Some n) (Some v) (st\<lparr>prev_name := take (MAX_NAME - 1) n\<rparr>)"
    by (simp add: pair_line_def sep nm val strncpy0_def)
  finally show ?thesis .
qed

lemma call_handler_error:
  "(\<forall>u s n v. fst (h u s n v) \<noteq> 0) \<Longrightarrow> error_line (call_handler h k n v st) = error_line st"
  by (auto simp: call_handler_def report_def split: prod.splits) (metis fst_conv)

lemma ini_loop_line:
  assumes "LF \<notin> set l" and "length l < INI_MAX_LINE - 1"
  shows "ini_loop h k (l @ LF # rest) st = ini_loop h (Suc k) rest (ini_line h (Suc k) (l @ [LF]) st)"
  by (simp add: ini_loop.simps [of h k] fgets_line [OF assms])

lemma ini_loop_entries:
  assumes "\<forall>e \<in> set es. entry_ok e"
  shows "user (ini_loop h k (concat (map entry_text es)) st) =
      fold (do_call h) (entry_calls (section_of st) es) (user st) \<and>
    ((\<forall>u s n v. fst (h u s n v) \<noteq> 0) \<longrightarrow>
      error_line (ini_loop h k (concat (map entry_text es)) st) = error_line st)"
  using assms
proof (induction es arbitrary: k st)
  case Nil
  then show ?case by (simp add: ini_loop.simps fgets_def)
next
  case (Cons e es)
  have es: "\<forall>e \<in> set es. entry_ok e" using Cons.prems by auto
  show ?case
  proof (cases e)
    case (Section s)
    with Cons.prems have s: "ini_word s" "length s < MAX_SECTION" by auto
    have l: "LF \<notin> set (CHR ''['' # s @ [CHR '']''])" "length (CHR ''['' # s @ [CHR '']'']) < INI_MAX_LINE - 1"
      using s ini_word_no_LF by (auto simp: MAX_SECTION_def INI_MAX_LINE_def)
    let ?st = "call_handler h (Suc k) None None (st\<lparr>section_of := s, prev_name := []\<rparr>)"
    have step: "ini_loop h k (concat (map entry_text (e # es))) st = ini_loop h (Suc k) (concat (map entry_text es)) ?st"
      using ini_loop_line [OF l, of h k "concat (map entry_text es)" st] ini_line_section [OF s, of h "Suc k" st]
      by (simp add: Section)
    from Cons.IH [OF es, of "Suc k" ?st] show ?thesis
      unfolding step by (auto simp: Section do_call_def call_handler_error)
  next
    case (Pair n v)
    with Cons.prems have p: "ini_word n" "n \<noteq> []" "ini_value v" "length n + length v < INI_MAX_LINE - 2" by auto
    have l: "LF \<notin> set (n @ CHR ''='' # v)" "length (n @ CHR ''='' # v) < INI_MAX_LINE - 1"
      using p ini_word_no_LF by (auto simp: ini_value_def INI_MAX_LINE_def)
    note line = ini_line_pair [OF p(1-3), of h "Suc k" st]
    let ?st = "call_handler h (Suc k) (Some n) (Some v) (st\<lparr>prev_name := take (MAX_NAME - 1) n\<rparr>)"
    have step: "ini_loop h k (concat (map entry_text (e # es))) st = ini_loop h (Suc k) (concat (map entry_text es)) ?st"
      using ini_loop_line [OF l, of h k "concat (map entry_text es)" st] line by (simp add: Pair)
    from Cons.IH [OF es, of "Suc k" ?st] show ?thesis
      unfolding step by (auto simp: Pair do_call_def call_handler_error)
  qed
qed

text \<open>
  C30: reading back a configuration: for a file of sections and \<open>name=value\<close> lines, each
  short enough for the line buffer and without comment characters, the handler is called
  exactly once per line, in order, with the section in force, the name and the value;
  and if it never gives zero, the result is zero.
\<close>

theorem ini_reads_entries:
  assumes "\<forall>e \<in> set es. entry_ok e"
  shows "snd (ini_parse_file h (concat (map entry_text es)) u) = fold (do_call h) (entry_calls [] es) u \<and>
    ((\<forall>u s n v. fst (h u s n v) \<noteq> 0) \<longrightarrow> fst (ini_parse_file h (concat (map entry_text es)) u) = 0)"
  using ini_loop_entries [OF assms, of h 0]
  by (simp add: ini_parse_file_def Let_def)

theorem ini_reads_entries_witness:
  "snd (ini_parse_file (\<lambda>u s n v. (1, u @ [(s, n, v)])) (''[Host]'' @ LF # ''name=a b'' @ [LF]) []) =
    [(''Host'', None, None), (''Host'', Some ''name'', Some ''a b'')]"
proof -
  let ?es = "[Section ''Host'', Pair ''name'' ''a b'']"
  have t: "concat (map entry_text ?es) = (''[Host]'' @ LF # ''name=a b'' @ [LF])" by simp
  have "\<forall>e \<in> set ?es. entry_ok e"
    by (simp add: ini_word_def ini_value_def isspace_def MAX_SECTION_def INI_MAX_LINE_def)
  then show ?thesis
    using ini_reads_entries [of ?es "\<lambda>u s n v. (1, u @ [(s, n, v)])" "[]"] unfolding t
    by (simp add: do_call_def)
qed

end
