(* ===== verification/Config.thy ===== *)
theory Config
  imports Ini Util
begin

text \<open>
  \<open>config.c\<close> and \<open>config.h\<close>: the configuration of the server and its hosts, and the
  handler that fills it from the INI file. The hosts are pointers, since the loop macro
  over them visits the first one twice and the last one never; \<open>host_at\<close> is their
  storage. What the handler asks the system (the canonical form of a path, whether it is
  a directory that can be opened) is a parameter.
\<close>

section \<open>Servers and hosts\<close>

record config_host =
  hostname :: "string option"
  default_host :: bool
  enabled :: bool
  serve_dir :: "string option"
  index_files :: "string list"
  dir_listings :: bool

record config_server =
  servername :: string
  administrator :: string
  listen_port :: "16 word"
  hosts :: "ptr list"
  host_count :: nat
  host_at :: "ptr \<Rightarrow> config_host option"
  next_host :: ptr

record config_env =
  gethostname :: "string option"
  realpath :: "string \<Rightarrow> string option"
  opendir_ok :: "string \<Rightarrow> bool"

definition default_servername :: string where
  "default_servername = ''localhost''"

definition config_server_new :: "config_env \<Rightarrow> config_server" where
  "config_server_new env =
     \<lparr>servername = (case gethostname env of None \<Rightarrow> default_servername | Some n \<Rightarrow> n),
      administrator = default_servername, listen_port = 80, hosts = [], host_count = 0,
      host_at = (\<lambda>_. None), next_host = 0\<rparr>"

definition config_server_addhost :: "config_server \<Rightarrow> ptr \<Rightarrow> config_server" where
  "config_server_addhost config host =
     config\<lparr>hosts := take (host_count config) (hosts config) @ [host], host_count := Suc (host_count config)\<rparr>"

text \<open>
  \<open>elem = hosts[0]; for(i=0; i < host_count; elem = hosts[i++])\<close>: the values \<open>elem\<close> has
  at the start of each turn.
\<close>

function foreach_from :: "ptr list \<Rightarrow> nat \<Rightarrow> nat \<Rightarrow> ptr \<Rightarrow> ptr list" where
  "foreach_from hs count i elem =
     (if i < count then elem # foreach_from hs count (Suc i) (hs ! i) else [])"
  by pat_completeness auto
termination
  by (relation "measure (\<lambda>(hs, count, i, elem). count - i)") auto

declare foreach_from.simps [simp del]

definition CONFIG_SERVER_FOREACH_HOST :: "config_server \<Rightarrow> ptr list" where
  "CONFIG_SERVER_FOREACH_HOST config =
     (case hosts config of
        [] \<Rightarrow> []
      | h # _ \<Rightarrow> foreach_from (hosts config) (host_count config) 0 h)"

text \<open>A host without a name makes \<open>strcasecmp\<close> read a null pointer.\<close>

fun gethost_loop ::
  "(ptr \<Rightarrow> config_host option) \<Rightarrow> string option \<Rightarrow> ptr list \<Rightarrow> ptr option \<Rightarrow> ptr option res" where
  "gethost_loop at name [] defaulthost = Inr defaulthost"
| "gethost_loop at name (p # ps) defaulthost =
     (case at p of
        None \<Rightarrow> Inl Use_after_free
      | Some host \<Rightarrow>
          (case name of
             None \<Rightarrow> gethost_loop at name ps (if default_host host then Some p else defaulthost)
           | Some n \<Rightarrow>
               (case hostname host of
                  None \<Rightarrow> Inl Null_deref
                | Some hn \<Rightarrow>
                    if strcaseeq n hn then Inr (Some p)
                    else gethost_loop at name ps (if default_host host then Some p else defaulthost))))"

definition config_server_gethost :: "config_server \<Rightarrow> string option \<Rightarrow> ptr option res" where
  "config_server_gethost config name =
     gethost_loop (host_at config) name (CONFIG_SERVER_FOREACH_HOST config) None"

definition config_host_new :: config_host where
  "config_host_new = \<lparr>hostname = None, default_host = False, enabled = True, serve_dir = None,
     index_files = [''index.html''], dir_listings = True\<rparr>"

definition config_host_delete :: "ptr \<Rightarrow> (ptr \<Rightarrow> config_host option) \<Rightarrow> (ptr \<Rightarrow> config_host option) res" where
  "config_host_delete p at = (case at p of None \<Rightarrow> Inl Use_after_free | Some _ \<Rightarrow> Inr (at(p := None)))"

fun delete_hosts :: "ptr list \<Rightarrow> (ptr \<Rightarrow> config_host option) \<Rightarrow> (ptr \<Rightarrow> config_host option) res" where
  "delete_hosts [] at = Inr at"
| "delete_hosts (p # ps) at = bind_res (config_host_delete p at) (delete_hosts ps)"

text \<open>The hosts still allocated when the server configuration is gone.\<close>

definition config_server_delete :: "config_server \<Rightarrow> (ptr \<Rightarrow> config_host option) res" where
  "config_server_delete config =
     delete_hosts (CONFIG_SERVER_FOREACH_HOST config) (host_at config)"

section \<open>The INI handler\<close>

text \<open>\<open>strtol(s, NULL, 10)\<close> on 64 bits.\<close>

definition strtol10 :: "string \<Rightarrow> int" where
  "strtol10 s =
     (let t = dropWhile isspace s;
          neg = (t \<noteq> [] \<and> hd t = CHR ''-'');
          u = (if t \<noteq> [] \<and> (hd t = CHR ''-'' \<or> hd t = CHR ''+'') then tl t else t);
          v = int (dec_val (takeWhile isdigit u));
          r = (if neg then - v else v)
      in max (- (2 ^ 63)) (min (2 ^ 63 - 1) r))"

text \<open>The server being filled and the function's static \<open>host\<close>.\<close>

record ini_config =
  config :: config_server
  cur_host :: "ptr option"

definition update_host :: "(config_host \<Rightarrow> config_host) \<Rightarrow> ptr \<Rightarrow> config_server \<Rightarrow> config_server" where
  "update_host f p c = c\<lparr>host_at := (host_at c)(p := map_option f (host_at c p))\<rparr>"

definition with_host :: "(config_host \<Rightarrow> config_host) \<Rightarrow> ini_config \<Rightarrow> ini_config" where
  "with_host f st =
     (case cur_host st of None \<Rightarrow> st | Some p \<Rightarrow> st\<lparr>config := update_host f p (config st)\<rparr>)"

definition new_host :: "ini_config \<Rightarrow> ini_config" where
  "new_host st =
     (let c = config st; p = next_host c;
          c = c\<lparr>host_at := (host_at c)(p \<mapsto> config_host_new), next_host := Suc p\<rparr>
      in \<lparr>config = config_server_addhost c p, cur_host = Some p\<rparr>)"

definition no_default :: "config_server \<Rightarrow> config_server" where
  "no_default c =
     fold (update_host (\<lambda>h. h\<lparr>default_host := False\<rparr>)) (CONFIG_SERVER_FOREACH_HOST c) c"

text \<open>\<open>strcasecmp(value, "yes") == 0 ... else if "no"\<close>\<close>

definition yes_no :: "string \<Rightarrow> (bool \<Rightarrow> config_host \<Rightarrow> config_host) \<Rightarrow> ini_config \<Rightarrow> ini_config" where
  "yes_no value f st =
     (if strcaseeq value ''yes'' then with_host (f True) st
      else if strcaseeq value ''no'' then with_host (f False) st else st)"

definition set_default :: "string \<Rightarrow> ini_config \<Rightarrow> ini_config" where
  "set_default value st =
     (if strcaseeq value ''yes''
      then with_host (\<lambda>h. h\<lparr>default_host := True\<rparr>) (st\<lparr>config := no_default (config st)\<rparr>)
      else if strcaseeq value ''no'' then with_host (\<lambda>h. h\<lparr>default_host := False\<rparr>) st else st)"

definition set_serve :: "config_env \<Rightarrow> string \<Rightarrow> ini_config \<Rightarrow> int \<times> ini_config" where
  "set_serve env value st =
     (case realpath env value of
        None \<Rightarrow> (-1, st)
      | Some dir \<Rightarrow>
          if opendir_ok env dir then (1, with_host (\<lambda>h. h\<lparr>serve_dir := Some dir\<rparr>) st) else (-1, st))"

definition set_index_files :: "string \<Rightarrow> ini_config \<Rightarrow> ini_config" where
  "set_index_files value =
     with_host (\<lambda>h. h\<lparr>index_files := map str_trimwhitespace (strtok_all (\<lambda>c. c = CHR '','') value)\<rparr>)"

definition MATCH :: "string \<Rightarrow> string \<Rightarrow> string \<Rightarrow> string \<Rightarrow> bool" where
  "MATCH s n sec name \<longleftrightarrow> strcaseeq s sec \<and> strcaseeq n name"

definition config_pair ::
  "config_env \<Rightarrow> ini_config \<Rightarrow> string \<Rightarrow> string \<Rightarrow> string \<Rightarrow> int \<times> ini_config" where
  "config_pair env st sec name value =
     (if MATCH ''Server'' ''name'' sec name
      then (1, st\<lparr>config := (config st)\<lparr>servername := value\<rparr>\<rparr>)
      else if MATCH ''Server'' ''admin'' sec name
      then (1, st\<lparr>config := (config st)\<lparr>administrator := value\<rparr>\<rparr>)
      else if MATCH ''Server'' ''listen'' sec name
      then (-1, st\<lparr>config := (config st)\<lparr>listen_port := of_int (strtol10 value)\<rparr>\<rparr>)
      else if MATCH ''Host'' ''name'' sec name
      then (1, with_host (\<lambda>h. h\<lparr>hostname := Some value\<rparr>) st)
      else if MATCH ''Host'' ''enabled'' sec name
      then (1, yes_no value (\<lambda>b h. h\<lparr>enabled := b\<rparr>) st)
      else if MATCH ''Host'' ''default'' sec name then (1, set_default value st)
      else if MATCH ''Host'' ''serve'' sec name then set_serve env value st
      else if MATCH ''Host'' ''index_files'' sec name then (1, set_index_files value st)
      else if MATCH ''Host'' ''dir_listings'' sec name
      then (1, yes_no value (\<lambda>b h. h\<lparr>dir_listings := b\<rparr>) st)
      else (1, st))"

text \<open>The reader gives a value with every name.\<close>

definition config_read_ini_cb :: "config_env \<Rightarrow> ini_config ini_handler" where
  "config_read_ini_cb env st sec name value =
     (case name of
        None \<Rightarrow>
          if strcaseeq sec ''Host'' then (1, new_host st)
          else if strcaseeq ''Host'' sec \<and> cur_host st = None then (-1, st) else (1, st)
      | Some n \<Rightarrow>
          if strcaseeq ''Host'' sec \<and> cur_host st = None then (-1, st)
          else config_pair env st sec n (case value of None \<Rightarrow> [] | Some v \<Rightarrow> v))"

text \<open>The static \<open>host\<close> is null when the program starts; it reads one file.\<close>

definition config_read_ini ::
  "config_env \<Rightarrow> (string \<Rightarrow> string option) \<Rightarrow> string \<Rightarrow> config_server \<Rightarrow> int \<times> config_server" where
  "config_read_ini env files filename c =
     (let (r, st) = ini_parse files (config_read_ini_cb env) filename \<lparr>config = c, cur_host = None\<rparr>
      in (r, config st))"

section \<open>The loop over the hosts\<close>

definition hosts_ok :: "config_server \<Rightarrow> bool" where
  "hosts_ok c \<longleftrightarrow> host_count c = length (hosts c) \<and> (\<forall>p \<in> set (hosts c). host_at c p \<noteq> None)"

lemma foreach_from_drop:
  "i \<le> length hs \<Longrightarrow> foreach_from hs (length hs) i e = butlast (e # drop i hs)"
proof (induction "length hs - i" arbitrary: i e)
  case 0
  then show ?case by (simp add: foreach_from.simps)
next
  case (Suc n)
  then have i: "i < length hs" by simp
  then have "drop i hs = hs ! i # drop (Suc i) hs" by (simp add: Cons_nth_drop_Suc)
  moreover have "foreach_from hs (length hs) (Suc i) (hs ! i) = butlast (hs ! i # drop (Suc i) hs)"
    using Suc i by (intro Suc.hyps(1)) auto
  ultimately show ?case using i by (simp add: foreach_from.simps [of hs "length hs" i])
qed

text \<open>The first host twice, the last one never.\<close>

lemma foreach_host:
  assumes "host_count c = length (hosts c)"
  shows "CONFIG_SERVER_FOREACH_HOST c = (case hosts c of [] \<Rightarrow> [] | h # _ \<Rightarrow> h # butlast (hosts c))"
  using assms foreach_from_drop [of 0 "hosts c"]
  by (auto simp: CONFIG_SERVER_FOREACH_HOST_def split: list.splits)

lemma foreach_one: "host_count c = 1 \<Longrightarrow> hosts c = [h] \<Longrightarrow> CONFIG_SERVER_FOREACH_HOST c = [h]"
  by (simp add: foreach_host)

lemma foreach_several:
  "host_count c = length (hosts c) \<Longrightarrow> hosts c = h # hs \<Longrightarrow> hs \<noteq> [] \<Longrightarrow>
    CONFIG_SERVER_FOREACH_HOST c = h # h # butlast hs"
  by (simp add: foreach_host)

text \<open>
  Looking a host up among the hosts \<open>ps\<close>: the first with the name, else the last that
  is the default.
\<close>

definition has_name :: "string option \<Rightarrow> config_host \<Rightarrow> bool" where
  "has_name name h \<longleftrightarrow>
     (case (name, hostname h) of (Some n, Some hn) \<Rightarrow> strcaseeq n hn | _ \<Rightarrow> False)"

definition lookup_host :: "(ptr \<Rightarrow> config_host) \<Rightarrow> string option \<Rightarrow> ptr list \<Rightarrow> ptr option" where
  "lookup_host at name ps =
     (case find (\<lambda>p. has_name name (at p)) ps of
        Some p \<Rightarrow> Some p
      | None \<Rightarrow> find (\<lambda>p. default_host (at p)) (rev ps))"

text \<open>
  A host without a name that is looked at before the one with the name, when a name is asked
  for: \<open>strcasecmp\<close> reads a null pointer.
\<close>

definition unnamed_before :: "(ptr \<Rightarrow> config_host) \<Rightarrow> string option \<Rightarrow> ptr list \<Rightarrow> bool" where
  "unnamed_before at name ps \<longleftrightarrow> name \<noteq> None \<and>
     list_ex (\<lambda>p. hostname (at p) = None) (takeWhile (\<lambda>p. \<not> has_name name (at p)) ps)"

lemma gethost_loop_run:
  assumes "\<forall>p \<in> set ps. at p \<noteq> None"
  shows "gethost_loop at name ps d =
    (if unnamed_before (\<lambda>p. the (at p)) name ps then Inl Null_deref
     else Inr (case find (\<lambda>p. has_name name (the (at p))) ps of
       Some p \<Rightarrow> Some p
     | None \<Rightarrow> (case find (\<lambda>p. default_host (the (at p))) (rev ps) of Some p \<Rightarrow> Some p | None \<Rightarrow> d)))"
  using assms
proof (induction ps arbitrary: d)
  case Nil
  then show ?case by (simp add: unnamed_before_def)
next
  case (Cons p ps)
  then obtain h where h: "at p = Some h" by auto
  have "\<forall>p \<in> set ps. at p \<noteq> None" using Cons.prems by simp
  note ih = Cons.IH [OF this]
  show ?case
  proof (cases name)
    case None
    have none: "find (\<lambda>p. has_name None (the (at p))) ps = None" for ps by (simp add: find_None_iff has_name_def)
    show ?thesis
      using None by (auto simp: h ih [unfolded None] none unnamed_before_def find_append split: option.splits)
  next
    case (Some n)
    have n: "has_name (Some n) h \<longleftrightarrow> (case hostname h of None \<Rightarrow> False | Some hn \<Rightarrow> strcaseeq n hn)"
      by (simp add: has_name_def)
    show ?thesis
      using Some by (cases "hostname h")
        (auto simp: h n ih [unfolded Some] unnamed_before_def find_append split: option.splits)
  qed
qed

lemma lookup_twice:
  "lookup_host at name (p # p # ps) = lookup_host at name (p # ps)"
  "unnamed_before at name (p # p # ps) = unnamed_before at name (p # ps)"
  by (auto simp: lookup_host_def unnamed_before_def find_append split: option.splits)

text \<open>
  C32: with one host the lookup is over it, with more it is over all but the last: a name
  or a default that only the last host has is not found. When a name is asked for and one of
  these hosts, before any that has the name, was given no name in the file, the code compares
  with a null pointer. (The hosts are as reading a file leaves them: allocated, and as many as
  their count says.)
\<close>

theorem gethost_skips_last:
  assumes "hosts_ok c" and "seen = (if length (hosts c) = 1 then hosts c else butlast (hosts c))"
  shows "config_server_gethost c name =
    (if unnamed_before (\<lambda>p. the (host_at c p)) name seen then Inl Null_deref
     else Inr (lookup_host (\<lambda>p. the (host_at c p)) name seen))"
proof -
  let ?at = "\<lambda>p. the (host_at c p)"
  have run: "gethost_loop (host_at c) name ps None =
      (if unnamed_before ?at name ps then Inl Null_deref else Inr (lookup_host ?at name ps))"
    if "set ps \<subseteq> set (hosts c)" for ps
    using that assms(1) by (subst gethost_loop_run)
      (auto simp: hosts_ok_def lookup_host_def split: option.splits)
  have len: "host_count c = length (hosts c)" using assms(1) by (simp add: hosts_ok_def)
  show ?thesis
  proof (cases "hosts c")
    case Nil
    with len assms(2) show ?thesis
      by (simp add: config_server_gethost_def CONFIG_SERVER_FOREACH_HOST_def lookup_host_def unnamed_before_def)
  next
    case (Cons h hs)
    show ?thesis
    proof (cases "hs = []")
      case True
      with Cons len foreach_one [of c h] run [of "[h]"] assms(2) show ?thesis
        by (simp add: config_server_gethost_def)
    next
      case False
      have "set (h # h # butlast hs) \<subseteq> set (hosts c)"
        using Cons by (auto dest: in_set_butlastD)
      from run [OF this] foreach_several [OF len Cons False] Cons False assms(2) show ?thesis
        by (simp add: config_server_gethost_def lookup_twice)
    qed
  qed
qed

definition two_hosts :: config_server where
  "two_hosts = \<lparr>servername = ''s'', administrator = ''a'', listen_port = 80, hosts = [0, 1], host_count = 2,
     host_at = [0 \<mapsto> config_host_new\<lparr>hostname := Some ''a'', default_host := True\<rparr>,
                1 \<mapsto> config_host_new\<lparr>hostname := Some ''b''\<rparr>], next_host = 2\<rparr>"

definition unnamed_first :: config_server where
  "unnamed_first = two_hosts\<lparr>host_at := (host_at two_hosts)(0 \<mapsto> config_host_new)\<rparr>"

theorem gethost_skips_last_witness:
  "config_server_gethost two_hosts (Some ''b'') = Inr (Some 0) \<and>
   config_server_gethost unnamed_first (Some ''b'') = Inl Null_deref"
proof -
  have ok: "hosts_ok two_hosts" "hosts_ok unnamed_first"
    by (simp_all add: hosts_ok_def two_hosts_def unnamed_first_def)
  have seen: "[0] = (if length (hosts two_hosts) = 1 then hosts two_hosts else butlast (hosts two_hosts))"
    "[0] = (if length (hosts unnamed_first) = 1 then hosts unnamed_first else butlast (hosts unnamed_first))"
    by (simp_all add: two_hosts_def unnamed_first_def)
  from gethost_skips_last [OF ok(1) seen(1), of "Some ''b''"] gethost_skips_last [OF ok(2) seen(2), of "Some ''b''"]
  show ?thesis
    by (simp add: two_hosts_def unnamed_first_def config_host_new_def unnamed_before_def lookup_host_def has_name_def
        strcaseeq_def tolower_def)
qed

text \<open>
  Deleting the configuration frees its hosts when there is at most one; with two or
  more it frees the first host twice.
\<close>

theorem config_delete_frees_first_twice:
  assumes "hosts_ok c"
  shows "config_server_delete c =
    (case hosts c of
       [] \<Rightarrow> Inr (host_at c)
     | [h] \<Rightarrow> Inr ((host_at c)(h := None))
     | _ \<Rightarrow> Inl Use_after_free)"
proof -
  have len: "host_count c = length (hosts c)" using assms by (simp add: hosts_ok_def)
  show ?thesis
  proof (cases "hosts c")
    case Nil
    with len show ?thesis by (simp add: config_server_delete_def foreach_host)
  next
    case (Cons h hs)
    with assms obtain x where h: "host_at c h = Some x" by (auto simp: hosts_ok_def)
    show ?thesis
    proof (cases hs)
      case Nil
      with Cons len h foreach_one [of c h] show ?thesis
        by (simp add: config_server_delete_def config_host_delete_def)
    next
      case (Cons h' hs')
      with \<open>hosts c = h # hs\<close> h foreach_several [OF len \<open>hosts c = h # hs\<close>] show ?thesis
        by (simp add: config_server_delete_def config_host_delete_def)
    qed
  qed
qed

theorem config_delete_frees_first_twice_witness:
  "config_server_delete two_hosts = Inl Use_after_free"
proof -
  have "hosts_ok two_hosts" by (simp add: hosts_ok_def two_hosts_def)
  from config_delete_frees_first_twice [OF this] show ?thesis by (simp add: two_hosts_def)
qed

section \<open>What reading a file keeps\<close>

text \<open>The host being filled is the last one, and at most one host is the default.\<close>

definition default_at :: "config_server \<Rightarrow> ptr \<Rightarrow> bool" where
  "default_at c p \<longleftrightarrow> default_host (the (host_at c p))"

definition reading_ok :: "ini_config \<Rightarrow> bool" where
  "reading_ok st \<longleftrightarrow>
     hosts_ok (config st) \<and> distinct (hosts (config st)) \<and>
     (\<forall>p \<in> set (hosts (config st)). p < next_host (config st)) \<and>
     cur_host st = (if hosts (config st) = [] then None else Some (last (hosts (config st)))) \<and>
     (\<forall>p \<in> set (hosts (config st)). \<forall>q \<in> set (hosts (config st)).
        default_at (config st) p \<longrightarrow> default_at (config st) q \<longrightarrow> p = q)"

lemma update_host_fields [simp]:
  "hosts (update_host f p c) = hosts c" "host_count (update_host f p c) = host_count c"
  "next_host (update_host f p c) = next_host c"
  "host_at (update_host f p c) = (host_at c)(p := map_option f (host_at c p))"
  by (simp_all add: update_host_def)

lemma hosts_ok_update [simp]: "hosts_ok (update_host f p c) = hosts_ok c"
  by (auto simp: hosts_ok_def)

lemma reading_ok_server:
  "reading_ok st \<Longrightarrow> hosts c = hosts (config st) \<Longrightarrow> host_count c = host_count (config st) \<Longrightarrow>
    next_host c = next_host (config st) \<Longrightarrow> host_at c = host_at (config st) \<Longrightarrow> reading_ok (st\<lparr>config := c\<rparr>)"
  by (simp add: reading_ok_def hosts_ok_def default_at_def)

lemma reading_ok_with_host:
  assumes "reading_ok st" and "\<And>h. default_host (f h) \<Longrightarrow> default_host h"
  shows "reading_ok (with_host f st)"
proof (cases "cur_host st")
  case None
  with assms show ?thesis by (simp add: with_host_def)
next
  case (Some p)
  then have p: "host_at (config st) p \<noteq> None"
    using assms(1) by (auto simp: reading_ok_def hosts_ok_def split: if_splits)
  then have "default_at (update_host f p (config st)) q \<Longrightarrow> default_at (config st) q" for q
    using assms(2) by (auto simp: default_at_def split: if_splits)
  then have d: "\<forall>q r. default_at (update_host f p (config st)) q \<longrightarrow> default_at (update_host f p (config st)) r \<longrightarrow>
      default_at (config st) q \<and> default_at (config st) r" by blast
  have w: "with_host f st = st\<lparr>config := update_host f p (config st)\<rparr>"
    by (simp add: with_host_def Some)
  let ?c = "config (st\<lparr>config := update_host f p (config st)\<rparr>)"
  show ?thesis
    unfolding w reading_ok_def
  proof (intro conjI ballI impI)
    fix q r assume "q \<in> set (hosts ?c)" "r \<in> set (hosts ?c)" "default_at ?c q" "default_at ?c r"
    with d assms(1) show "q = r" by (simp add: reading_ok_def)
  qed (use assms(1) in \<open>simp_all add: reading_ok_def\<close>)
qed

lemma reading_ok_fields:
  assumes "reading_ok st"
  shows "reading_ok (with_host (\<lambda>h. h\<lparr>hostname := n\<rparr>) st)" "reading_ok (with_host (\<lambda>h. h\<lparr>enabled := b\<rparr>) st)"
    "reading_ok (with_host (\<lambda>h. h\<lparr>serve_dir := d\<rparr>) st)" "reading_ok (with_host (\<lambda>h. h\<lparr>index_files := i\<rparr>) st)"
    "reading_ok (with_host (\<lambda>h. h\<lparr>dir_listings := b\<rparr>) st)" "reading_ok (with_host (\<lambda>h. h\<lparr>default_host := False\<rparr>) st)"
  by (rule reading_ok_with_host [OF assms]; simp)+

lemma reading_ok_new:
  assumes "reading_ok st"
  shows "reading_ok (new_host st)"
proof -
  let ?c = "config st"
  have nx: "next_host ?c \<notin> set (hosts ?c)" using assms by (auto simp: reading_ok_def)
  have len: "host_count ?c = length (hosts ?c)" using assms by (simp add: reading_ok_def hosts_ok_def)
  have d: "default_at (config (new_host st)) p \<longleftrightarrow> p \<noteq> next_host ?c \<and> default_at ?c p" for p
    by (simp add: new_host_def Let_def default_at_def config_server_addhost_def config_host_new_def)
  show ?thesis
    unfolding reading_ok_def d using assms nx len
    by (auto simp: new_host_def Let_def config_server_addhost_def reading_ok_def hosts_ok_def)
qed

lemma fold_update_fields:
  "hosts (fold (update_host f) ps c) = hosts c" "host_count (fold (update_host f) ps c) = host_count c"
  "next_host (fold (update_host f) ps c) = next_host c" "hosts_ok (fold (update_host f) ps c) = hosts_ok c"
  by (induction ps arbitrary: c) auto

lemma fold_undefault:
  "host_at c p \<noteq> None \<Longrightarrow>
    default_at (fold (update_host (\<lambda>h. h\<lparr>default_host := False\<rparr>)) ps c) p \<longleftrightarrow> p \<notin> set ps \<and> default_at c p"
proof (induction ps arbitrary: c)
  case Nil
  then show ?case by simp
next
  case (Cons q ps)
  let ?c = "update_host (\<lambda>h. h\<lparr>default_host := False\<rparr>) q c"
  from Cons.prems have "host_at ?c p \<noteq> None" by auto
  note ih = Cons.IH [OF this]
  have "default_at ?c p \<longleftrightarrow> p \<noteq> q \<and> default_at c p" using Cons.prems by (auto simp: default_at_def)
  with ih show ?case by auto
qed

lemma reading_ok_default:
  assumes "reading_ok st"
  shows "reading_ok (set_default value st)"
proof (cases "strcaseeq value ''yes''")
  case False
  with assms show ?thesis by (simp add: set_default_def reading_ok_fields)
next
  case True
  let ?c = "no_default (config st)"
  have f: "hosts ?c = hosts (config st)" "host_count ?c = host_count (config st)"
    "next_host ?c = next_host (config st)" "hosts_ok ?c = hosts_ok (config st)"
    by (simp_all add: no_default_def fold_update_fields)
  show ?thesis
  proof (cases "hosts (config st)" rule: rev_cases)
    case Nil
    with assms True f show ?thesis by (simp add: set_default_def with_host_def reading_ok_def)
  next
    case (snoc ps l)
    have cur: "cur_host st = Some l" and ok: "hosts_ok (config st)" and dist: "distinct (ps @ [l])"
      using assms snoc by (auto simp: reading_ok_def)
    have l: "host_at ?c l \<noteq> None" using ok f snoc unfolding hosts_ok_def by simp
    have "set ps \<subseteq> set (CONFIG_SERVER_FOREACH_HOST (config st))"
      using ok snoc by (cases ps) (auto simp: foreach_host hosts_ok_def butlast_append)
    then have "\<not> default_at ?c p" if "p \<in> set ps" for p
      using that ok snoc by (auto simp: no_default_def fold_undefault hosts_ok_def)
    then have "default_at (update_host (\<lambda>h. h\<lparr>default_host := True\<rparr>) l ?c) p \<longleftrightarrow> p = l"
      if "p \<in> set (ps @ [l])" for p
      using that dist l by (auto simp: default_at_def)
    moreover have "set_default value st =
        st\<lparr>config := update_host (\<lambda>h. h\<lparr>default_host := True\<rparr>) l ?c\<rparr>"
      using True cur by (simp add: set_default_def with_host_def)
    ultimately show ?thesis
      using assms f snoc by (simp add: reading_ok_def)
  qed
qed

lemma reading_ok_pair:
  assumes "reading_ok st"
  shows "reading_ok (snd (config_pair env st s n v))"
  unfolding config_pair_def
  by (simp add: assms reading_ok_default reading_ok_fields reading_ok_server yes_no_def set_serve_def
      set_index_files_def split: option.split)

lemma reading_ok_cb:
  assumes "reading_ok st"
  shows "reading_ok (snd (config_read_ini_cb env st s n v))"
  unfolding config_read_ini_cb_def
  by (simp add: assms reading_ok_new reading_ok_pair split: option.split)

lemma at_most_one:
  assumes "distinct xs" and "\<And>x y. x \<in> set xs \<Longrightarrow> y \<in> set xs \<Longrightarrow> P x \<Longrightarrow> P y \<Longrightarrow> x = y"
  shows "length (filter P xs) \<le> 1"
proof (cases "filter P xs")
  case (Cons x ys)
  have "y = x" if "y \<in> set ys" for y
  proof -
    have "{x, y} \<subseteq> set (filter P xs)" using that Cons by auto
    then show ?thesis using assms(2) [of y x] by auto
  qed
  moreover have "x \<notin> set ys" using distinct_filter [OF assms(1), of P] Cons by auto
  ultimately have "ys = []" by (cases ys) auto
  with Cons show ?thesis by simp
qed simp

lemma read_ini_ok: "hosts_ok (snd (config_read_ini env files f (config_server_new env))) \<and>
  distinct (hosts (snd (config_read_ini env files f (config_server_new env)))) \<and>
  (\<forall>p \<in> set (hosts (snd (config_read_ini env files f (config_server_new env)))).
    \<forall>q \<in> set (hosts (snd (config_read_ini env files f (config_server_new env)))).
      default_at (snd (config_read_ini env files f (config_server_new env))) p \<longrightarrow>
      default_at (snd (config_read_ini env files f (config_server_new env))) q \<longrightarrow> p = q)"
proof -
  have start: "reading_ok \<lparr>config = config_server_new env, cur_host = None\<rparr>"
    by (simp add: reading_ok_def hosts_ok_def config_server_new_def)
  have "reading_ok (snd (ini_parse files (config_read_ini_cb env) f \<lparr>config = config_server_new env, cur_host = None\<rparr>))"
  proof (cases "files f")
    case None
    with start show ?thesis by (simp add: ini_parse_def)
  next
    case (Some inp)
    have "reading_ok (user (ini_loop (config_read_ini_cb env) 0 inp
        \<lparr>section_of = [], prev_name = [], error_line = 0, user = \<lparr>config = config_server_new env, cur_host = None\<rparr>\<rparr>))"
      by (rule ini_loop_user [where P = reading_ok]) (use reading_ok_cb start in auto)
    with Some show ?thesis by (simp add: ini_parse_def ini_parse_file_def Let_def)
  qed
  then show ?thesis by (auto simp: config_read_ini_def reading_ok_def split: prod.splits)
qed

text \<open>
  C31: whatever the file says, and whatever \<open>realpath\<close> and \<open>opendir\<close> answer, after reading it
  the hosts are as many as the count says, all allocated and different, and at most one of
  them is the default, although the loop that clears the flag never visits the last host: that
  one is the host whose flag is being set.
\<close>

theorem config_single_default:
  assumes "c = snd (config_read_ini env files f (config_server_new env))"
  shows "hosts_ok c \<and> distinct (hosts c) \<and> length (filter (default_at c) (hosts c)) \<le> 1"
proof -
  have "hosts_ok c" "distinct (hosts c)"
    and one: "\<forall>p \<in> set (hosts c). \<forall>q \<in> set (hosts c). default_at c p \<longrightarrow> default_at c q \<longrightarrow> p = q"
    unfolding assms using read_ini_ok [of env files f] by blast+
  moreover have "length (filter (default_at c) (hosts c)) \<le> 1"
    using one by (intro at_most_one \<open>distinct (hosts c)\<close>) blast
  ultimately show ?thesis by blast
qed

definition no_env :: config_env where
  "no_env = \<lparr>gethostname = None, realpath = Some, opendir_ok = (\<lambda>_. True)\<rparr>"

definition default_ini :: string where
  "default_ini = ''[Host]'' @ LF # ''default=yes'' @ [LF]"

definition read_default_ini :: "int \<times> config_server" where
  "read_default_ini = config_read_ini no_env (\<lambda>_. Some default_ini) ''khttpd.ini'' (config_server_new no_env)"

lemma read_default_ini_run: "hosts (snd read_default_ini) = [0] \<and> default_at (snd read_default_ini) 0"
  by code_simp

text \<open>Two hosts that both want to be the default.\<close>

definition two_default_ini :: string where
  "two_default_ini = default_ini @ default_ini"

theorem config_single_default_witness:
  "hosts_ok (snd read_default_ini) \<and>
   length (filter (default_at (snd (config_read_ini no_env (\<lambda>_. Some two_default_ini) ''f'' (config_server_new no_env))))
     (hosts (snd (config_read_ini no_env (\<lambda>_. Some two_default_ini) ''f'' (config_server_new no_env))))) = 1 \<and>
   hosts (snd (config_read_ini no_env (\<lambda>_. Some two_default_ini) ''f'' (config_server_new no_env))) = [0, 1]"
proof -
  let ?c = "snd (config_read_ini no_env (\<lambda>_. Some two_default_ini) ''f'' (config_server_new no_env))"
  have run: "hosts ?c = [0, 1] \<and> default_at ?c 1" by code_simp
  then have "filter (default_at ?c) (hosts ?c) \<noteq> []" by simp
  moreover have "length (filter (default_at ?c) (hosts ?c)) \<le> 1" using config_single_default [OF refl] by blast
  moreover have "hosts_ok (snd read_default_ini)"
    using config_single_default [OF read_default_ini_def [THEN arg_cong [where f = snd]]] by blast
  ultimately show ?thesis using run by (simp add: le_Suc_eq)
qed

end
