(* ===== verification/Mime.thy ===== *)
theory Mime
  imports Libc
begin

text \<open>
  \<open>mime.c\<close>: the table of types by extension, read from a file in the form of
  \<open>/etc/mime.types\<close>, and the lookup by the extension of a file name. The library behind
  \<open>mime_get_type_magic\<close> is a parameter: what \<open>magic_file\<close> answers for a file name. Its
  answer lives in the handle, which is closed before the answer is returned, so it comes
  back as a \<open>Dangling\<close> pointer.
\<close>

record mime_type =
  mime :: string
  extension :: string

datatype mime_answer = Text string | Dangling string

definition MIME_DEFAULT_FILE :: string where
  "MIME_DEFAULT_FILE = ''/etc/mime.types''"

definition isblank :: "char \<Rightarrow> bool" where
  "isblank c \<longleftrightarrow> c = CHR '' '' \<or> c = HTAB"

definition ext_char :: "char \<Rightarrow> bool" where
  "ext_char c \<longleftrightarrow> isblank c \<or> isdigit c \<or> (let n = (of_char c :: nat) in 97 \<le> n \<and> n \<le> 122)"

text \<open>\<open>sscanf\<close>: a word of at most 511 characters, blanks, and at most 511 characters of small letters, digits and blanks; both parts have to be there.\<close>

definition scan_line :: "string \<Rightarrow> (string \<times> string) option" where
  "scan_line line =
     (let t = dropWhile isspace line;
          m = take 511 (takeWhile (\<lambda>c. \<not> isspace c) t);
          r = drop (length m) t;
          e = take 511 (takeWhile ext_char (dropWhile isblank r))
      in if m = [] \<or> takeWhile isblank r = [] \<or> e = [] then None else Some (m, e))"

definition line_types :: "string \<Rightarrow> mime_type list" where
  "line_types buffer =
     (if buffer = [] \<or> hd buffer = CHR ''#'' \<or> hd buffer = LF then []
      else (case scan_line (cstr buffer) of
              None \<Rightarrow> []
            | Some (m, e) \<Rightarrow> map (\<lambda>x. \<lparr>mime = m, extension = x\<rparr>) (strtok_all isblank e)))"

text \<open>The lines \<open>getline\<close> gives, with their newline.\<close>

function getlines :: "string \<Rightarrow> string list" where
  "getlines s =
     (if s = [] then []
      else let l = takeWhile (\<lambda>c. c \<noteq> LF) s @ (if LF \<in> set s then [LF] else [])
           in l # getlines (drop (length l) s))"
  by pat_completeness auto
termination
proof (relation "measure length", simp)
  fix s l :: string
  assume "s \<noteq> []" "l = takeWhile (\<lambda>c. c \<noteq> LF) s @ (if LF \<in> set s then [LF] else [])"
  then have "l \<noteq> []" by (cases s) auto
  with \<open>s \<noteq> []\<close> show "(drop (length l) s, s) \<in> measure length" by (simp add: length_greater_0_conv)
qed

declare getlines.simps [simp del]

text \<open>The number of types read, or -1; the list is left alone when the file cannot be read.\<close>

definition mime_load ::
  "(string \<Rightarrow> string option) \<Rightarrow> mime_type list \<Rightarrow> string option \<Rightarrow> int \<times> mime_type list" where
  "mime_load files lst f =
     (case files (case f of None \<Rightarrow> MIME_DEFAULT_FILE | Some n \<Rightarrow> n) of
        None \<Rightarrow> (-1, lst)
      | Some s \<Rightarrow> (let l = concat (map line_types (getlines s)) in (int (length l), l)))"

definition mime_destroy :: "mime_type list \<Rightarrow> mime_type list" where
  "mime_destroy mime_list = []"

text \<open>\<open>mime_init\<close> does not look at its argument.\<close>

definition mime_init ::
  "(string \<Rightarrow> string option) \<Rightarrow> mime_type list \<Rightarrow> string option \<Rightarrow> int \<times> mime_type list" where
  "mime_init files mime_list f = mime_load files (mime_destroy mime_list) None"

definition mime_get_type_magic :: "(string \<Rightarrow> string option) \<Rightarrow> string \<Rightarrow> string \<Rightarrow> mime_answer" where
  "mime_get_type_magic magic filename fallback =
     (case magic filename of None \<Rightarrow> Text fallback | Some m \<Rightarrow> Dangling m)"

definition mime_list_get_type ::
  "(string \<Rightarrow> string option) \<Rightarrow> mime_type list \<Rightarrow> string \<Rightarrow> string \<Rightarrow> mime_answer" where
  "mime_list_get_type magic lst filename fallback =
     (case strrchr filename (CHR ''.'') of
        Some (_ # e) \<Rightarrow>
          (case (if e = [] then None else find (\<lambda>t. extension t = e) lst) of
             Some t \<Rightarrow> Text (mime t)
           | None \<Rightarrow> mime_get_type_magic magic filename fallback)
      | _ \<Rightarrow> mime_get_type_magic magic filename fallback)"

definition mime_get_type ::
  "(string \<Rightarrow> string option) \<Rightarrow> mime_type list \<Rightarrow> string \<Rightarrow> string \<Rightarrow> mime_answer" where
  "mime_get_type magic mime_list filename fallback = mime_list_get_type magic mime_list filename fallback"

lemma strrchr_append: "c \<notin> set e \<Longrightarrow> strrchr (p @ c # e) c = Some (c # e)"
proof (induction p)
  case Nil
  then have "strrchr e c = None" by (simp add: strrchr_None)
  then show ?case by simp
next
  case (Cons x p)
  then show ?case by simp
qed

lemma mime_known_type:
  assumes "find (\<lambda>t. extension t = e) l = Some t" and "e \<noteq> []" and "CHR ''.'' \<notin> set e"
  shows "mime_get_type magic l (p @ CHR ''.'' # e) d = Text (mime t)"
  using strrchr_append [OF assms(3)] assms(1,2)
  by (simp add: mime_get_type_def mime_list_get_type_def)

end
