(* ===== verification/Http_Server.thy ===== *)
theory Http_Server
  imports Http_Message Http_Url Config Mime
begin

text \<open>
  \<open>http-server.c\<close>: from a request to its response. The file system and the clock are the
  environment: what \<open>realpath\<close>, \<open>stat\<close>, \<open>readdir\<close> and \<open>fopen\<close> say of a path and how
  \<open>ctime_r\<close> prints its modification time; the table of MIME types is part of it, and the
  answers of the library for files of unknown type.
\<close>

section \<open>The environment\<close>

datatype file_kind = S_IFDIR | S_IFREG | S_IFOTHER

record server_env =
  se_realpath :: "string \<Rightarrow> string option"
  se_stat :: "string \<Rightarrow> file_kind option"
  se_readdir :: "string \<Rightarrow> string list option"
  se_open :: "string \<Rightarrow> open_file option"
  se_ctime :: "string \<Rightarrow> string"
  se_tmpfile :: bool
  se_mime_list :: "mime_type list"
  se_magic :: "string \<Rightarrow> string option"

definition se_files :: "server_env \<Rightarrow> string \<Rightarrow> string option" where
  "se_files env path = map_option f_bytes (se_open env path)"

abbreviation HEADER_HOST :: string where "HEADER_HOST \<equiv> ''Host''"
abbreviation HEADER_CONNECTION :: string where "HEADER_CONNECTION \<equiv> ''Connection''"

section \<open>Finding the file\<close>

record server_file_result =
  fr_error :: bool
  fr_code :: "16 word"
  fr_text :: "string option"
  fr_dir :: bool
  fr_path :: "string option"

definition server_file_result_new :: server_file_result where
  "server_file_result_new = \<lparr>fr_error = False, fr_code = 0, fr_text = None, fr_dir = False, fr_path = None\<rparr>"

definition server_file_result_seterror ::
  "server_file_result \<Rightarrow> 16 word \<Rightarrow> string \<Rightarrow> server_file_result" where
  "server_file_result_seterror r code message = r\<lparr>fr_error := True, fr_code := code, fr_text := Some message\<rparr>"

text \<open>The first entry, in the order of the directory, that is one of the index files.\<close>

definition server_find_directory_index :: "server_env \<Rightarrow> config_host \<Rightarrow> string \<Rightarrow> string option" where
  "server_find_directory_index env hconfig path =
     (case se_readdir env path of
        None \<Rightarrow> None
      | Some entries \<Rightarrow>
          map_option (\<lambda>e. path @ ''/'' @ e)
            (find (\<lambda>e. \<exists>i \<in> set (index_files hconfig). strcaseeq e i) entries))"

definition server_determine_file ::
  "server_env \<Rightarrow> config_host \<Rightarrow> string \<Rightarrow> server_file_result res" where
  "server_determine_file env hconfig requested_path =
     (let result = server_file_result_new;
          not_found = Inr (server_file_result_seterror result 404 ''File not found'')
      in case se_realpath env requested_path of
           None \<Rightarrow> not_found
         | Some actual \<Rightarrow>
             (case serve_dir hconfig of
                None \<Rightarrow> Inl Null_deref
              | Some sd \<Rightarrow>
                  if \<not> strnceq sd actual (length sd) then not_found
                  else (case se_stat env actual of
                          None \<Rightarrow> not_found
                        | Some S_IFDIR \<Rightarrow>
                            (case server_find_directory_index env hconfig actual of
                               Some dir_index \<Rightarrow> Inr (result\<lparr>fr_path := Some dir_index\<rparr>)
                             | None \<Rightarrow>
                                 if dir_listings hconfig
                                 then Inr (result\<lparr>fr_dir := True, fr_path := Some actual\<rparr>)
                                 else Inr (server_file_result_seterror result 403
                                        ''No index file was found and directory indexes are disabled''))
                        | Some S_IFREG \<Rightarrow> Inr (result\<lparr>fr_path := Some actual\<rparr>)
                        | Some S_IFOTHER \<Rightarrow> Inr result)))"

section \<open>Directory listings\<close>

definition sizenames :: "string list" where
  "sizenames = [''b'', ''kb'', ''mb'', ''gb'', ''pb'']"

text \<open>\<open>while (size > 1024) { if (size_i > 5) break; size_i++; size /= 1024; }\<close>\<close>

function size_loop :: "nat \<Rightarrow> nat \<Rightarrow> nat \<times> nat" where
  "size_loop siz i =
     (if siz > 1024 then (if i > length sizenames then (siz, i) else size_loop (siz div 1024) (Suc i))
      else (siz, i))"
  by pat_completeness auto
termination
  by (relation "measure fst") auto

declare size_loop.simps [simp del]

definition server_get_filesize :: "server_env \<Rightarrow> string \<Rightarrow> string option res" where
  "server_get_filesize env filename =
     (case se_open env filename of
        None \<Rightarrow> Inr None
      | Some f \<Rightarrow>
          (case size_loop (length (f_bytes f)) 0 of
             (siz, i) \<Rightarrow>
               if i < length sizenames then Inr (Some (take 99 (dec siz @ sizenames ! i)))
               else Inl Out_of_bounds))"

text \<open>\<open>if (uri[0] = '/')\<close> is an assignment: the first character always goes.\<close>

definition entry_uri :: "string \<Rightarrow> string \<Rightarrow> string res" where
  "entry_uri filepath sd =
     (let uri = str_replace filepath sd [] in
      if uri = [] then Inl Out_of_bounds else Inr (tl uri))"

definition index_row :: "string \<Rightarrow> string option \<Rightarrow> string \<Rightarrow> string" where
  "index_row uri filesize mod_time =
     ''<tr><td><a href='' @ [CHR 0x22] @ uri @ [CHR 0x22] @ ''>'' @ basename_r uri @ ''</a></td><td>'' @
     (case filesize of None \<Rightarrow> ''N/A'' | Some s \<Rightarrow> s) @ ''</td><td>'' @ mod_time @ ''</td></tr>'' @ CRLF"

definition index_entry :: "server_env \<Rightarrow> string \<Rightarrow> string \<Rightarrow> string \<Rightarrow> string res" where
  "index_entry env sd dirpath e =
     (let filepath = dirpath @ ''/'' @ e in
      case se_stat env filepath of
        None \<Rightarrow> Inr []
      | Some S_IFOTHER \<Rightarrow> Inr []
      | Some k \<Rightarrow>
          bind_res (if k = S_IFDIR then Inr (Some ''[DIR]'') else server_get_filesize env filepath) (\<lambda>filesize.
          bind_res (entry_uri filepath sd) (\<lambda>uri.
            Inr (index_row uri filesize (se_ctime env filepath)))))"

fun index_rows :: "server_env \<Rightarrow> string \<Rightarrow> string \<Rightarrow> nat \<Rightarrow> string list \<Rightarrow> string res" where
  "index_rows env sd dirpath count [] = Inr []"
| "index_rows env sd dirpath count (e # es) =
     (if count > 1024 * 8 then Inr []
      else bind_res (index_entry env sd dirpath e) (\<lambda>row.
           bind_res (index_rows env sd dirpath (Suc count) es) (\<lambda>rows. Inr (row @ rows))))"

definition server_generate_directory_index ::
  "server_env \<Rightarrow> config_host \<Rightarrow> string \<Rightarrow> open_file option res" where
  "server_generate_directory_index env hconfig dirpath =
     (case se_readdir env dirpath of
        None \<Rightarrow> Inr None
      | Some entries \<Rightarrow>
          (case serve_dir hconfig of
             None \<Rightarrow> Inl Null_deref
           | Some sd \<Rightarrow>
               bind_res (index_rows env sd dirpath 0 entries) (\<lambda>index.
                 case file_map_new (se_files env) ''dirindex.html'' of
                   None \<Rightarrow> Inr None
                 | Some m \<Rightarrow>
                     (let page = str_replace (cstr m) ''{{dirname}}'' (str_replace dirpath sd []);
                          page = str_replace page ''{{index}}'' index
                      in if se_tmpfile env then Inr (Some \<lparr>f_bytes = page, f_fails = (\<lambda>_. None)\<rparr>)
                         else Inl Null_deref))))"

section \<open>Processing a request\<close>

definition add_close :: "http_response \<Rightarrow> http_response res" where
  "add_close r =
     bind_res (http_header_list_add (rs_headers r) (http_header_new HEADER_CONNECTION (Some ''close'')) False)
       (\<lambda>l. Inr (r\<lparr>rs_headers := l\<rparr>))"

definition closing_builtin :: "server_env \<Rightarrow> 16 word \<Rightarrow> string option \<Rightarrow> http_response res" where
  "closing_builtin env code message =
     bind_res (http_response_create_builtin (se_files env) code message) add_close"

definition acceptable_methods :: "http_request_method list" where
  "acceptable_methods = [METHOD_GET, METHOD_HEAD, METHOD_POST]"

text \<open>Whether the connection is closed after the response.\<close>

definition header_is :: "http_header option \<Rightarrow> string \<Rightarrow> bool res" where
  "header_is h s =
     (case h of
        None \<Rightarrow> Inr False
      | Some h \<Rightarrow> (case h_content h of None \<Rightarrow> Inl Null_deref | Some c \<Rightarrow> Inr (strcaseeq c s)))"

definition close_connection :: "http_version \<Rightarrow> http_header option \<Rightarrow> bool res" where
  "close_connection version request_connection =
     bind_res (header_is request_connection ''close'') (\<lambda>close.
       if close then Inr True
       else if version = HTTP10
       then bind_res (header_is request_connection ''Keep-Alive'') (\<lambda>keep. Inr (\<not> keep))
       else Inr False)"

text \<open>The header value read from the MIME answer.\<close>

definition mime_text :: "mime_answer \<Rightarrow> string res" where
  "mime_text m = (case m of Text s \<Rightarrow> Inr s | Dangling _ \<Rightarrow> Inl Use_after_free)"

text \<open>The response with an open file; \<open>filepath\<close> is null for a directory listing.\<close>

definition file_response ::
  "server_env \<Rightarrow> http_request_line \<Rightarrow> http_header_list \<Rightarrow> string option \<Rightarrow> open_file \<Rightarrow> http_response res" where
  "file_response env req hs filepath f =
     (let r = http_response_new (http_response_line_new 200);
          r = r\<lparr>rs_line := (rs_line r)\<lparr>sl_version := rl_version req\<rparr>\<rparr>
      in bind_res (case filepath of
                     None \<Rightarrow> Inr ''text/html''
                   | Some p \<Rightarrow> mime_text (mime_get_type (se_magic env) (se_mime_list env) p DEFAULT_CONTENT_TYPE)) (\<lambda>t.
         bind_res (http_header_list_add (rs_headers r) (http_header_new HEADER_CONTENT_TYPE (Some t)) False) (\<lambda>l.
         bind_res (if rl_method req = METHOD_HEAD then http_body_set_type (rs_body r) BODY_NONE
                   else bind_res (http_body_set_type (rs_body r) BODY_FILE) (\<lambda>b. Inr (b\<lparr>b_data := P_file f\<rparr>))) (\<lambda>b.
         bind_res (close_connection (rl_version req) (http_header_list_get hs HEADER_CONNECTION)) (\<lambda>close.
           if close then add_close (r\<lparr>rs_headers := l, rs_body := b\<rparr>)
           else Inr (r\<lparr>rs_headers := l, rs_body := b\<rparr>))))))"

definition open_response ::
  "server_env \<Rightarrow> config_host \<Rightarrow> http_request_line \<Rightarrow> http_header_list \<Rightarrow> string \<Rightarrow> http_response res" where
  "open_response env hconfig req hs filepath =
     bind_res (server_determine_file env hconfig filepath) (\<lambda>fr.
       if fr_error fr then closing_builtin env (fr_code fr) (fr_text fr)
       else if fr_dir fr then
         bind_res (server_generate_directory_index env hconfig (case fr_path fr of None \<Rightarrow> [] | Some p \<Rightarrow> p)) (\<lambda>f.
           case f of
             None \<Rightarrow> closing_builtin env 500 (Some ''Failed to generate directory index'')
           | Some f \<Rightarrow> file_response env req hs None f)
       else
         (case fr_path fr of
            None \<Rightarrow> Inl Null_deref
          | Some p \<Rightarrow>
              (case se_open env p of
                 None \<Rightarrow> closing_builtin env 404 (Some ''File not found'')
               | Some f \<Rightarrow> file_response env req hs (Some p) f)))"

text \<open>From the target on, with the host found and the method accepted.\<close>

definition target_response ::
  "server_env \<Rightarrow> config_host \<Rightarrow> http_request_line \<Rightarrow> http_header_list \<Rightarrow> http_response res" where
  "target_response env hconfig req hs =
     (case rl_uri req of
        None \<Rightarrow> Inl Null_deref
      | Some uri \<Rightarrow>
          (case http_parser_parse_url uri False url_zero of
             (r, url) \<Rightarrow>
               if r < 0 then closing_builtin env 400 (Some ''Invalid request'')
               else if UF_PATH \<notin> u_field_set url
               then closing_builtin env 400 (Some ''URI is required or was invalid'')
               else
                 (case serve_dir hconfig of
                    None \<Rightarrow> Inl Null_deref
                  | Some sd \<Rightarrow> open_response env hconfig req hs (sd @ url_field url UF_PATH uri))))"

text \<open>The \<open>Host\<close> header of an HTTP/1.1 request: \<open>None\<close> when there has to be one and is none.\<close>

definition request_host :: "http_request_line \<Rightarrow> http_header_list \<Rightarrow> string option option res" where
  "request_host req hs =
     (if rl_version req = HTTP11
      then (case http_header_list_get hs HEADER_HOST of
              None \<Rightarrow> Inr None
            | Some h \<Rightarrow> (case h_content h of None \<Rightarrow> Inl Null_deref | Some c \<Rightarrow> Inr (Some (Some c))))
      else Inr (Some None))"

definition server_process_request ::
  "server_env \<Rightarrow> config_server \<Rightarrow> http_request \<Rightarrow> http_response res" where
  "server_process_request env conf request =
     (case rq_line request of
        None \<Rightarrow> Inl Null_deref
      | Some req \<Rightarrow>
          bind_res (request_host req (rq_headers request)) (\<lambda>host.
            case host of
              None \<Rightarrow> closing_builtin env 400 (Some ''Host header required'')
            | Some name \<Rightarrow>
                bind_res (config_server_gethost conf name) (\<lambda>p.
                  case p of
                    None \<Rightarrow> closing_builtin env 500
                      (Some ''Server configuration error. Host not provided and default not found.'')
                  | Some p \<Rightarrow>
                      (case host_at conf p of
                         None \<Rightarrow> Inl Use_after_free
                       | Some hconfig \<Rightarrow>
                           if rl_method req \<notin> set acceptable_methods
                           then closing_builtin env 411 (Some ''Method is not valid'')
                           else target_response env hconfig req (rq_headers request)))))"

section \<open>The file that is served\<close>

lemma serves_file_run:
  assumes "rq_line request = Some req" and "rl_method req \<in> set acceptable_methods"
    and "request_host req (rq_headers request) = Inr (Some name)"
    and "config_server_gethost conf name = Inr (Some p)" and "host_at conf p = Some h" and "serve_dir h = Some sd"
    and "rl_uri req = Some (pth @ rest)" and "origin_form pth rest" and "length pth < 65536"
    and "se_realpath env (sd @ pth) = Some path" and "starts_with path sd"
    and "se_stat env path = Some S_IFREG" and "se_open env path = Some f"
    and "mime_get_type (se_magic env) (se_mime_list env) path DEFAULT_CONTENT_TYPE = Text t"
    and "close_connection (rl_version req) (http_header_list_get (rq_headers request) HEADER_CONNECTION) = Inr close"
  shows "server_process_request env conf request = Inr
    \<lparr>rs_line = \<lparr>sl_version = rl_version req, sl_code = 200, sl_custom_message = None\<rparr>,
     rs_headers = http_header_new HEADER_CONTENT_TYPE (Some t) #
       (if close then [http_header_new HEADER_CONNECTION (Some ''close'')] else []),
     rs_body_chunked = False,
     rs_body = (if rl_method req = METHOD_HEAD then http_body_new BODY_NONE P_null else http_body_new BODY_FILE (P_file f)),
     rs_send_status = SEND_RESPONSE_LINE\<rparr>"
proof -
  obtain u where u: "http_parser_parse_url (pth @ rest) False url_zero = (0, u)"
    "UF_PATH \<in> u_field_set u" "u_off u UF_PATH = 0" "u_len u UF_PATH = of_nat (length pth)"
    using parse_url_origin_form [OF assms(8)] by blast
  then have field: "url_field u UF_PATH (pth @ rest) = pth"
    using assms(9) by (simp add: url_field_def unat_of_nat)
  have "strnceq sd path (length sd)" using assms(11) by (simp add: strnceq_def starts_with_def)
  then have det: "server_determine_file env h (sd @ pth) = Inr (server_file_result_new\<lparr>fr_path := Some path\<rparr>)"
    using assms by (simp add: server_determine_file_def)
  have resp: "file_response env req (rq_headers request) (Some path) f = Inr
    \<lparr>rs_line = \<lparr>sl_version = rl_version req, sl_code = 200, sl_custom_message = None\<rparr>,
     rs_headers = http_header_new HEADER_CONTENT_TYPE (Some t) #
       (if close then [http_header_new HEADER_CONNECTION (Some ''close'')] else []),
     rs_body_chunked = False,
     rs_body = (if rl_method req = METHOD_HEAD then http_body_new BODY_NONE P_null else http_body_new BODY_FILE (P_file f)),
     rs_send_status = SEND_RESPONSE_LINE\<rparr>"
    using assms(14,15)
    by (simp add: file_response_def http_response_new_def http_response_line_new_def mime_text_def
        http_header_list_add_def http_header_list_new_def utarray_push_back_def http_body_set_type_def
        http_body_clear_def http_body_new_def add_close_def)
  show ?thesis
    using assms u field det resp
    by (simp add: server_process_request_def target_response_def open_response_def server_file_result_new_def)
qed

text \<open>
  C10: a request for a regular file under the directory of its host is answered with 200,
  the version of the request, the type of the file, a \<open>Connection: close\<close> header exactly
  when the connection is to be closed, and the open file as body; the answer to \<open>HEAD\<close>
  has no body.
\<close>

theorem request_serves_file:
  assumes "rq_line request = Some req" and "rl_method req \<in> set acceptable_methods"
    and "request_host req (rq_headers request) = Inr (Some name)"
    and "config_server_gethost conf name = Inr (Some p)" and "host_at conf p = Some h" and "serve_dir h = Some sd"
    and "rl_uri req = Some (pth @ rest)" and "origin_form pth rest" and "length pth < 65536"
    and "se_realpath env (sd @ pth) = Some path" and "starts_with path sd"
    and "se_stat env path = Some S_IFREG" and "se_open env path = Some f"
    and "mime_get_type (se_magic env) (se_mime_list env) path DEFAULT_CONTENT_TYPE = Text t"
    and "close_connection (rl_version req) (http_header_list_get (rq_headers request) HEADER_CONNECTION) = Inr close"
  shows "server_process_request env conf request = Inr
    \<lparr>rs_line = \<lparr>sl_version = rl_version req, sl_code = 200, sl_custom_message = None\<rparr>,
     rs_headers = http_header_new HEADER_CONTENT_TYPE (Some t) #
       (if close then [http_header_new HEADER_CONNECTION (Some ''close'')] else []),
     rs_body_chunked = False,
     rs_body = (if rl_method req = METHOD_HEAD then http_body_new BODY_NONE P_null else http_body_new BODY_FILE (P_file f)),
     rs_send_status = SEND_RESPONSE_LINE\<rparr>"
  using assms by (rule serves_file_run)

definition small_env :: server_env where
  "small_env = \<lparr>se_realpath = Some, se_stat = (\<lambda>_. Some S_IFREG), se_readdir = (\<lambda>_. None),
     se_open = (\<lambda>p. if p = ''error.html'' then None else Some \<lparr>f_bytes = ''hi'', f_fails = (\<lambda>_. None)\<rparr>),
     se_ctime = (\<lambda>_. []), se_tmpfile = True, se_mime_list = [\<lparr>mime = ''text/html'', extension = ''html''\<rparr>],
     se_magic = (\<lambda>_. None)\<rparr>"

definition www_host :: config_host where
  "www_host = config_host_new\<lparr>hostname := Some ''a'', default_host := True, serve_dir := Some ''/www''\<rparr>"

definition small_conf :: config_server where
  "small_conf = \<lparr>servername = ''s'', administrator = ''a'', listen_port = 80, hosts = [0], host_count = 1,
     host_at = [0 \<mapsto> www_host], next_host = 1\<rparr>"

definition small_request :: http_request where
  "small_request = http_request_new\<lparr>rq_line := Some \<lparr>rl_method = METHOD_GET, rl_method_other = None,
     rl_uri = Some (''/a.html'' @ ''?x''), rl_version = HTTP11\<rparr>,
     rq_headers := [http_header_new ''Host'' (Some ''a'')]\<rparr>"

theorem request_serves_file_witness:
  "server_process_request small_env small_conf small_request = Inr
    \<lparr>rs_line = \<lparr>sl_version = HTTP11, sl_code = 200, sl_custom_message = None\<rparr>,
     rs_headers = [http_header_new HEADER_CONTENT_TYPE (Some ''text/html'')],
     rs_body_chunked = False,
     rs_body = http_body_new BODY_FILE (P_file \<lparr>f_bytes = ''hi'', f_fails = (\<lambda>_. None)\<rparr>),
     rs_send_status = SEND_RESPONSE_LINE\<rparr>"
proof -
  have host: "config_server_gethost small_conf (Some ''a'') = Inr (Some 0)"
    by (simp add: config_server_gethost_def foreach_host small_conf_def www_host_def)
  have form: "origin_form ''/a.html'' ''?x''"
    by (simp add: origin_form_def url_tail_char_def IS_URL_CHAR_def)
  have mtype: "mime_get_type (se_magic small_env) (se_mime_list small_env) ''/www/a.html'' DEFAULT_CONTENT_TYPE = Text ''text/html''"
    using mime_known_type [of "''html''" "se_mime_list small_env" "\<lparr>mime = ''text/html'', extension = ''html''\<rparr>" _ "''/www/a''"]
    by (simp add: small_env_def)
  show ?thesis
    using request_serves_file [of small_request _ "Some ''a''" small_conf 0 www_host "''/www''" "''/a.html''" "''?x''"
        small_env "''/www/a.html''" _ "''text/html''" False] host form mtype
    by (simp add: small_request_def acceptable_methods_def request_host_def http_header_list_get_def
        small_conf_def www_host_def small_env_def starts_with_def close_connection_def header_is_def)
qed

section \<open>What is never served\<close>

text \<open>
  C22: whatever path a request asks for, what is served, a file, an index file or a
  listing, has a path that starts with the name of the directory of the host. The
  comparison is of characters: the witness serves a file of the sibling directory
  \<open>/www-private\<close> for a host that serves \<open>/www\<close>.
\<close>

theorem served_path_has_prefix:
  assumes "server_determine_file env h requested = Inr fr" and "serve_dir h = Some sd" and "fr_path fr = Some path"
  shows "\<not> fr_error fr \<and> starts_with path sd"
proof -
  have pre: "starts_with (a @ x) sd" if "strnceq sd a (length sd)" for a x
  proof -
    from that have "take (length sd) a = sd" by (simp add: strnceq_def)
    then show ?thesis by (metis append.assoc append_take_drop_id starts_with_iff)
  qed
  from pre [of _ "[]"] have pre0: "\<And>a. strnceq sd a (length sd) \<Longrightarrow> starts_with a sd" by simp
  show ?thesis
    using assms pre pre0
    by (auto simp: server_determine_file_def server_file_result_new_def server_file_result_seterror_def Let_def
        server_find_directory_index_def split: option.splits file_kind.splits if_splits)
qed

theorem served_path_has_prefix_witness:
  "server_determine_file (small_env\<lparr>se_realpath := (\<lambda>_. Some ''/www-private/key'')\<rparr>) www_host
      (''/www'' @ ''/../www-private/key'') =
    Inr (server_file_result_new\<lparr>fr_path := Some ''/www-private/key''\<rparr>) \<and>
   starts_with ''/www-private/key'' ''/www''"
proof -
  have r: "server_determine_file (small_env\<lparr>se_realpath := (\<lambda>_. Some ''/www-private/key'')\<rparr>) www_host
      (''/www'' @ ''/../www-private/key'') =
    Inr (server_file_result_new\<lparr>fr_path := Some ''/www-private/key''\<rparr>)"
    by (simp add: server_determine_file_def small_env_def www_host_def strnceq_def)
  from served_path_has_prefix [OF r, of "''/www''" "''/www-private/key''"] r show ?thesis
    by (simp add: www_host_def)
qed

section \<open>The codes of the responses\<close>

lemma append_body_fields:
  "http_response_append_body r x = Inr s \<Longrightarrow>
    rs_line s = rs_line r \<and> rs_headers s = rs_headers r \<and> rs_send_status s = rs_send_status r"
  by (auto simp: http_response_append_body_def bind_res_eq_Inr split: if_splits)

lemma builtin_template_fields:
  assumes "builtin_template fs r = Inr s" and "rs_headers r = [http_header_new HEADER_CONTENT_TYPE (Some t)]"
  shows "rs_line s = rs_line r \<and> rs_send_status s = rs_send_status r \<and>
    http_header_list_get (rs_headers s) HEADER_CONNECTION = None"
proof (cases "file_map_new fs ''error.html''")
  case None
  with assms(1) obtain r1 l where r1: "http_response_append_body r (''{{title}}'' @ [LF, LF] @ ''{{message}}'') = Inr r1"
    and l: "http_header_list_add (rs_headers r1) (http_header_new HEADER_CONTENT_TYPE (Some ''text/plain'')) True = Inr l"
    and s: "s = r1\<lparr>rs_headers := l\<rparr>"
    by (auto simp: builtin_template_def bind_res_eq_Inr)
  have "l = [http_header_new HEADER_CONTENT_TYPE (Some ''text/plain'')]"
    using l append_body_fields [OF r1] assms(2)
    by (simp add: http_header_list_add_def http_header_list_remove_def http_header_list_getall_def
        utarray_erase_def utarray_push_back_def)
  with append_body_fields [OF r1] s show ?thesis by (simp add: http_header_list_get_def)
next
  case (Some m)
  with assms(1) have "http_response_append_body r (cstr m) = Inr s" by (simp add: builtin_template_def)
  from append_body_fields [OF this] assms(2) show ?thesis by (simp add: http_header_list_get_def)
qed

lemma builtin_fields:
  assumes "http_response_create_builtin fs code msg = Inr r"
  shows "sl_code (rs_line r) = code \<and> http_header_list_get (rs_headers r) HEADER_CONNECTION = None \<and>
    rs_send_status r = SEND_RESPONSE_LINE"
proof -
  let ?r = "\<lambda>b. (http_response_new (http_response_line_new code))\<lparr>rs_body := b,
      rs_headers := [http_header_new HEADER_CONTENT_TYPE (Some ''text/html'')]\<rparr>"
  from assms obtain b s where s: "builtin_template fs (?r b) = Inr s"
    and c: "(case b_data (rs_body s) of
         P_str str \<Rightarrow>
           Inr (s\<lparr>rs_body := (rs_body s)\<lparr>b_data := P_str (builtin_fill str
                  (builtin_title code (http_response_line_get_message (rs_line s)))
                  (case msg of None \<Rightarrow> [] | Some m \<Rightarrow> m))\<rparr>\<rparr>)
       | _ \<Rightarrow> Inl Null_deref) = Inr r"
    unfolding http_response_create_builtin_def bind_res_eq_Inr
    by (auto simp: http_header_list_add_def http_header_list_new_def utarray_push_back_def)
  from c have r: "rs_line r = rs_line s" "rs_headers r = rs_headers s" "rs_send_status r = rs_send_status s"
    by (auto split: body_ptr.splits)
  from builtin_template_fields [OF s] r show ?thesis
    by (simp add: http_response_new_def http_response_line_new_def)
qed

definition closing :: "http_response \<Rightarrow> bool" where
  "closing r \<longleftrightarrow> rs_send_status r = SEND_RESPONSE_LINE \<and>
     http_header_list_get (rs_headers r) HEADER_CONNECTION = Some (http_header_new HEADER_CONNECTION (Some ''close''))"

lemma closing_builtin_fields:
  assumes "closing_builtin env code msg = Inr r"
  shows "sl_code (rs_line r) = code \<and> closing r"
proof -
  from assms obtain b where b: "http_response_create_builtin (se_files env) code msg = Inr b"
    and r: "r = b\<lparr>rs_headers := rs_headers b @ [http_header_new HEADER_CONNECTION (Some ''close'')]\<rparr>"
    by (auto simp: closing_builtin_def bind_res_eq_Inr add_close_def http_header_list_add_def utarray_push_back_def)
  from builtin_fields [OF b] show ?thesis
    by (auto simp: r closing_def http_header_list_get_def find_append)
qed

lemma file_response_fields:
  "file_response env req hs path f = Inr r \<Longrightarrow> sl_code (rs_line r) = 200 \<and> rs_send_status r = SEND_RESPONSE_LINE"
  by (auto simp: file_response_def bind_res_eq_Inr http_response_new_def http_response_line_new_def add_close_def
      Let_def split: if_splits)

definition reply_ok :: "http_response \<Rightarrow> bool" where
  "reply_ok r \<longleftrightarrow> sl_code (rs_line r) = 200 \<and> rs_send_status r = SEND_RESPONSE_LINE \<or>
     sl_code (rs_line r) \<in> {400, 403, 404, 411, 500} \<and> closing r"

lemma reply_ok_builtin:
  "closing_builtin env code msg = Inr r \<Longrightarrow> code \<in> {400, 403, 404, 411, 500} \<Longrightarrow> reply_ok r"
  using closing_builtin_fields by (metis reply_ok_def)

lemma reply_ok_file: "file_response env req hs path f = Inr r \<Longrightarrow> reply_ok r"
  using file_response_fields by (metis reply_ok_def)

lemma determine_file_codes:
  "server_determine_file env h requested = Inr fr \<Longrightarrow> fr_error fr \<Longrightarrow> fr_code fr \<in> {403, 404}"
  by (auto simp: server_determine_file_def server_file_result_new_def server_file_result_seterror_def Let_def
      split: option.splits file_kind.splits if_splits)

lemma reply_ok_open:
  assumes "open_response env h req hs path = Inr r"
  shows "reply_ok r"
proof -
  from assms obtain fr where fr: "server_determine_file env h path = Inr fr"
    by (auto simp: open_response_def bind_res_eq_Inr)
  show ?thesis
    using assms fr determine_file_codes [OF fr]
    by (auto simp: open_response_def bind_res_eq_Inr intro: reply_ok_builtin reply_ok_file
        split: if_splits option.splits)
qed

lemma reply_ok_target:
  assumes "target_response env h req hs = Inr r"
  shows "reply_ok r"
proof -
  from assms obtain uri where uri: "rl_uri req = Some uri"
    by (cases "rl_uri req") (auto simp: target_response_def)
  obtain n url where "http_parser_parse_url uri False url_zero = (n, url)" by (cases "http_parser_parse_url uri False url_zero")
  then show ?thesis
    using assms uri
    by (auto simp: target_response_def intro: reply_ok_builtin reply_ok_open split: if_splits option.splits)
qed

lemma reply_ok_process:
  assumes "server_process_request env conf request = Inr r"
  shows "reply_ok r"
proof -
  from assms obtain req where req: "rq_line request = Some req"
    by (cases "rq_line request") (auto simp: server_process_request_def)
  with assms obtain host where host: "request_host req (rq_headers request) = Inr host"
    by (auto simp: server_process_request_def bind_res_eq_Inr)
  show ?thesis
  proof (cases host)
    case None
    with assms req host show ?thesis
      by (auto simp: server_process_request_def intro: reply_ok_builtin)
  next
    case (Some name)
    with assms req host obtain p where p: "config_server_gethost conf name = Inr p"
      by (auto simp: server_process_request_def bind_res_eq_Inr)
    show ?thesis
    proof (cases p)
      case None
      with assms req host Some p show ?thesis
        by (auto simp: server_process_request_def intro: reply_ok_builtin)
    next
      case (Some q)
      with assms req host \<open>host = Some name\<close> p obtain h where "host_at conf q = Some h"
        by (cases "host_at conf q") (auto simp: server_process_request_def)
      with assms req host \<open>host = Some name\<close> p Some show ?thesis
        by (cases "rl_method req \<in> set acceptable_methods")
          (auto simp: server_process_request_def intro: reply_ok_builtin reply_ok_target)
    qed
  qed
qed

text \<open>
  C23: a request that is answered at all is answered with one of six codes, and every
  answer but 200 says that the connection closes.
\<close>

theorem request_reply_codes:
  assumes "server_process_request env conf request = Inr r"
  shows "rs_send_status r = SEND_RESPONSE_LINE \<and> sl_code (rs_line r) \<in> {200, 400, 403, 404, 411, 500} \<and>
    (sl_code (rs_line r) \<noteq> 200 \<longrightarrow> http_header_list_get (rs_headers r) HEADER_CONNECTION =
       Some (http_header_new HEADER_CONNECTION (Some ''close'')))"
  using reply_ok_process [OF assms] by (auto simp: reply_ok_def closing_def)

theorem request_reply_codes_witness:
  "\<exists>r. server_process_request small_env small_conf (small_request\<lparr>rq_headers := [http_header_new ''host'' (Some ''a'')]\<rparr>) = Inr r \<and>
    sl_code (rs_line r) \<noteq> 200 \<and> http_header_list_get (rs_headers r) HEADER_CONNECTION =
      Some (http_header_new HEADER_CONNECTION (Some ''close''))"
proof -
  have "se_files small_env ''error.html'' = None" by (simp add: se_files_def small_env_def)
  with create_builtin_run [of "se_files small_env" "''Host header required''" 400] obtain b0 where
    "http_response_create_builtin (se_files small_env) 400 (Some ''Host header required'') = Inr b0" by auto
  then obtain b where b: "closing_builtin small_env 400 (Some ''Host header required'') = Inr b"
    by (simp add: closing_builtin_def add_close_def http_header_list_add_def)
  then have r: "server_process_request small_env small_conf (small_request\<lparr>rq_headers := [http_header_new ''host'' (Some ''a'')]\<rparr>) = Inr b"
    by (simp add: server_process_request_def small_request_def request_host_def http_header_list_get_def)
  from closing_builtin_fields [OF b] have "sl_code (rs_line b) = 400" by simp
  with request_reply_codes [OF r] r show ?thesis by (intro exI [of _ b]) simp
qed

section \<open>File sizes\<close>

lemma size_loop_step: "size_loop n i = (if n > 1024 then (if i > 5 then (n, i) else size_loop (n div 1024) (Suc i)) else (n, i))"
  by (simp add: size_loop.simps [of n i] sizenames_def)

lemma size_text: "n \<le> 1024 \<Longrightarrow> length u \<le> 2 \<Longrightarrow> take 99 (dec n @ u) = dec n @ u"
proof -
  assume n: "n \<le> 1024" and u: "length u \<le> 2"
  have "length (dec n) \<le> 4"
  proof -
    consider "n < 10" | "10 \<le> n" "n < 100" | "100 \<le> n" "n < 1000" | "1000 \<le> n" using n by linarith
    then show ?thesis
    proof cases
      case 4
      with n show ?thesis by (simp add: dec_step dec_small)
    qed (simp_all add: dec_step dec_small)
  qed
  with u show ?thesis by simp
qed

text \<open>
  The size of a file is printed in the first unit, of bytes and four powers of 1024,
  in which it is at most 1024, rounded down; above 1024 units of the last one the table of
  unit names is read past its end. The fourth power is called \<open>pb\<close>.
\<close>

theorem filesize_units:
  assumes "se_open env name = Some f"
  shows "server_get_filesize env name =
    (let n = length (f_bytes f) in
     if n \<le> 1024 then Inr (Some (dec n @ ''b''))
     else if n div 1024 \<le> 1024 then Inr (Some (dec (n div 1024) @ ''kb''))
     else if n div 1024 ^ 2 \<le> 1024 then Inr (Some (dec (n div 1024 ^ 2) @ ''mb''))
     else if n div 1024 ^ 3 \<le> 1024 then Inr (Some (dec (n div 1024 ^ 3) @ ''gb''))
     else if n div 1024 ^ 4 \<le> 1024 then Inr (Some (dec (n div 1024 ^ 4) @ ''pb''))
     else Inl Out_of_bounds)"
proof -
  define n where "n = length (f_bytes f)"
  define m where "m = (\<lambda>k. n div 1024 ^ k)"
  have m: "m 0 = n" "m k div 1024 = m (k + 1)" for k
    by (simp_all add: m_def div_mult2_eq [symmetric] mult.commute)
  have step: "size_loop (m k) k = (if m k > 1024 then size_loop (m (k + 1)) (k + 1) else (m k, k))" if "k < 5" for k
    using that by (subst size_loop_step) (simp add: m)
  have late: "5 \<le> snd (size_loop x i)" if "5 \<le> i" for x i
    using that by (induction x i rule: size_loop.induct) (subst size_loop.simps, auto)
  have "size_loop n 0 = (if n \<le> 1024 then (n, 0) else if m 1 \<le> 1024 then (m 1, 1) else if m 2 \<le> 1024 then (m 2, 2)
      else if m 3 \<le> 1024 then (m 3, 3) else if m 4 \<le> 1024 then (m 4, 4) else size_loop (m 5) 5)"
  proof -
    have "size_loop (m 0) 0 = (if m 0 > 1024 then size_loop (m 1) 1 else (m 0, 0))"
      using step [of 0] by (simp cong del: if_weak_cong)
    moreover have "size_loop (m 1) 1 = (if m 1 > 1024 then size_loop (m 2) 2 else (m 1, 1))"
      using step [of 1] unfolding one_add_one by simp
    moreover have "size_loop (m 2) 2 = (if m 2 > 1024 then size_loop (m 3) 3 else (m 2, 2))"
      "size_loop (m 3) 3 = (if m 3 > 1024 then size_loop (m 4) 4 else (m 3, 3))"
      "size_loop (m 4) 4 = (if m 4 > 1024 then size_loop (m 5) 5 else (m 4, 4))"
      using step [of 2] step [of 3] step [of 4] by (simp_all cong del: if_weak_cong)
    ultimately show ?thesis unfolding m(1) by (simp only: not_less [symmetric]) simp
  qed
  moreover obtain x i where "size_loop (m 5) 5 = (x, i)" "5 \<le> i"
    using late [of 5 "m 5"] by (cases "size_loop (m 5) 5") auto
  ultimately have "(case size_loop n 0 of (siz, i) \<Rightarrow>
      if i < length sizenames then Inr (Some (take 99 (dec siz @ sizenames ! i))) else Inl Out_of_bounds) =
    (if n \<le> 1024 then Inr (Some (dec n @ ''b''))
     else if m 1 \<le> 1024 then Inr (Some (dec (m 1) @ ''kb''))
     else if m 2 \<le> 1024 then Inr (Some (dec (m 2) @ ''mb''))
     else if m 3 \<le> 1024 then Inr (Some (dec (m 3) @ ''gb''))
     else if m 4 \<le> 1024 then Inr (Some (dec (m 4) @ ''pb''))
     else Inl Out_of_bounds)"
    by (simp add: sizenames_def size_text del: take_append)
  then show ?thesis
    using assms by (simp add: server_get_filesize_def n_def m_def Let_def del: take_append)
qed

theorem filesize_units_witness:
  "server_get_filesize small_env ''a'' = Inr (Some ''2b'')"
proof -
  have "dec 2 = ''2''" by (simp add: dec_small digit_char_def) code_simp
  moreover have "se_open small_env ''a'' = Some \<lparr>f_bytes = ''hi'', f_fails = (\<lambda>_. None)\<rparr>"
    by (simp add: small_env_def)
  ultimately show ?thesis using filesize_units [of small_env "''a''"] by (simp add: Let_def numeral_2_eq_2)
qed

end
