(* ===== verification/Server_Connection.thy ===== *)
theory Server_Connection
  imports Socket Http_Reader Http_Server
begin

text \<open>
  \<open>src/server-connection.c\<close>: what the server keeps for a client. The output of a
  connection, \<open>pending_writes\<close>, is the list of buffers of \<open>Data_Buffer\<close> with its storage;
  the two linked lists of requests and responses are sequences (\<open>response_list_fifo\<close> of
  \<open>Http_Message\<close> is about the links). \<open>CONN_ENQUEUE\<close> adds the connection to the queue of a
  pool: \<open>c_queued\<close> records these calls in order. The mutex of a connection is held through
  each handler, so that a handler is one step.
\<close>

datatype server_pool = POOL_READ | POOL_WRITE | POOL_WORKER

record server_connection =
  c_id :: "64 word"
  c_skt :: socket_info
  c_requests :: "http_request list"
  c_responses :: "http_response list"
  c_writes :: dl_state
  c_status :: server_parse_status
  c_parser :: http_parser
  c_queued :: "(server_pool \<times> string) list"

text \<open>No buffer is allocated yet.\<close>

definition empty_store :: dbstore where
  "empty_store = \<lparr>db_buffer = (\<lambda>_. []), db_size = (\<lambda>_. 0), db_wOffset = (\<lambda>_. 0), db_rOffset = (\<lambda>_. 0),
     db_next = (\<lambda>_. None), db_live = (\<lambda>_. False), db_fresh = 0\<rparr>"

definition server_connection_new :: "64 word \<Rightarrow> socket_info \<Rightarrow> server_connection \<times> 64 word" where
  "server_connection_new nextid skt =
     (\<lparr>c_id = nextid, c_skt = skt, c_requests = [], c_responses = [],
       c_writes = (empty_store, data_buffer_list_new),
       c_status = fst server_parse_status_new, c_parser = snd server_parse_status_new, c_queued = []\<rparr>,
      nextid + 1)"

text \<open>\<open>http_response_list_delete\<close> on the sequence; the requests are not freed.\<close>

fun delete_responses :: "http_response list \<Rightarrow> unit res" where
  "delete_responses [] = Inr ()"
| "delete_responses (r # rs) = bind_res (http_response_delete r) (\<lambda>_. delete_responses rs)"

definition server_connection_delete :: "server_connection \<Rightarrow> unit res option" where
  "server_connection_delete c =
     (case server_parse_status_delete (c_status c) of
        Inl e \<Rightarrow> Some (Inl e)
      | Inr _ \<Rightarrow>
          (case delete_responses (c_responses c) of
             Inl e \<Rightarrow> Some (Inl e)
           | Inr _ \<Rightarrow>
               do { _ \<leftarrow> data_buffer_list_delete (fst (c_writes c)) (snd (c_writes c));
                    Some (Inr ()) }))"

definition CONN_ENQUEUE :: "server_pool \<Rightarrow> string \<Rightarrow> server_connection \<Rightarrow> server_connection" where
  "CONN_ENQUEUE pool name c = c\<lparr>c_queued := c_queued c @ [(pool, name)]\<rparr>"

definition add_response :: "http_response \<Rightarrow> server_connection \<Rightarrow> server_connection" where
  "add_response r c = c\<lparr>c_responses := c_responses c @ [r]\<rparr>"

lemma connection_new_writes: "dl_holds (c_writes (fst (server_connection_new n skt))) []"
  unfolding dl_holds_def
  by (intro exI [of _ "[]"])
    (simp add: server_connection_new_def dl_rep_def data_buffer_list_new_def unlocked_def)

end
