(* ===== verification/Utdlist.thy ===== *)
theory Utdlist
  imports Utlist
begin

text \<open>
  The doubly linked list macros of \<open>lib/ut/utlist.h\<close> that the queues use, over the \<open>next\<close>
  and \<open>prev\<close> fields of all nodes: the \<open>prev\<close> of the head is the last node, the \<open>next\<close> of
  the last node is null. What the macros do to a well-formed list is what \<open>@ [x]\<close> and
  \<open>remove1 x\<close> do to its sequence of nodes.
\<close>

section \<open>The macros\<close>

record dlinks =
  d_next :: nexts
  d_prev :: "ptr \<Rightarrow> ptr option"

definition set_next :: "ptr \<Rightarrow> ptr option \<Rightarrow> dlinks \<Rightarrow> dlinks" where
  "set_next p q s = s\<lparr>d_next := (d_next s)(p := q)\<rparr>"

definition set_prev :: "ptr \<Rightarrow> ptr option \<Rightarrow> dlinks \<Rightarrow> dlinks" where
  "set_prev p q s = s\<lparr>d_prev := (d_prev s)(p := q)\<rparr>"

definition DL_APPEND :: "dlinks \<Rightarrow> ptr option \<Rightarrow> ptr \<Rightarrow> (dlinks \<times> ptr option) res" where
  "DL_APPEND s head add =
     (case head of
        Some h \<Rightarrow>
          (let s = set_prev add (d_prev s h) s in
           case d_prev s h of
             None \<Rightarrow> Inl Null_deref
           | Some l \<Rightarrow>
               let s = set_next l (Some add) s; s = set_prev h (Some add) s; s = set_next add None s
               in Inr (s, head))
      | None \<Rightarrow> Inr (set_next add None (set_prev add (Some add) s), Some add))"

definition DL_DELETE :: "dlinks \<Rightarrow> ptr option \<Rightarrow> ptr \<Rightarrow> (dlinks \<times> ptr option) res" where
  "DL_DELETE s head del =
     (case d_prev s del of
        None \<Rightarrow> Inl Assert_failed
      | Some p \<Rightarrow>
          if p = del then Inr (s, None)
          else if head = Some del then
            (case d_next s del of
               None \<Rightarrow> Inl Null_deref
             | Some n \<Rightarrow> Inr (set_prev n (Some p) s, Some n))
          else
            (let s = set_next p (d_next s del) s in
             case d_next s del of
               Some n \<Rightarrow> Inr (set_prev n (Some p) s, head)
             | None \<Rightarrow>
                 (case head of
                    None \<Rightarrow> Inl Null_deref
                  | Some h \<Rightarrow> Inr (set_prev h (Some p) s, head))))"

section \<open>Well-formed lists\<close>

text \<open>\<open>prev\<close> along a list whose first node has the predecessor \<open>p\<close>.\<close>

fun dprevs :: "dlinks \<Rightarrow> ptr \<Rightarrow> ptr list \<Rightarrow> bool" where
  "dprevs s p [] \<longleftrightarrow> True"
| "dprevs s p (a # as) \<longleftrightarrow> d_prev s a = Some p \<and> dprevs s a as"

definition dlist :: "dlinks \<Rightarrow> ptr option \<Rightarrow> ptr list \<Rightarrow> bool" where
  "dlist s head as \<longleftrightarrow> llist (d_next s) head as \<and> (as \<noteq> [] \<longrightarrow> dprevs s (last as) as)"

lemma dlinks_simps [simp]:
  "d_next (set_next p q s) = (d_next s)(p := q)" "d_prev (set_next p q s) = d_prev s"
  "d_prev (set_prev p q s) = (d_prev s)(p := q)" "d_next (set_prev p q s) = d_next s"
  by (simp_all add: set_next_def set_prev_def)

lemma dprevs_upd [simp]:
  "dprevs (set_next u v s) p as = dprevs s p as"
  "u \<notin> set as \<Longrightarrow> dprevs (set_prev u v s) p as = dprevs s p as"
  by (induction as arbitrary: p) auto

lemma dprevs_append [simp]:
  "dprevs s p (as @ bs) \<longleftrightarrow> dprevs s p as \<and> dprevs s (if as = [] then p else last as) bs"
  by (induction as arbitrary: p) auto

lemma dlist_empty [simp]: "dlist s None as \<longleftrightarrow> as = []"
  by (auto simp: dlist_def)

lemma dlist_Cons: "dlist s head (a # as) \<longleftrightarrow>
    head = Some a \<and> llist (d_next s) (d_next s a) as \<and> d_prev s a = Some (last (a # as)) \<and> dprevs s a as"
  by (auto simp: dlist_def)

lemma dlist_distinct: "dlist s head as \<Longrightarrow> distinct as"
  by (auto simp: dlist_def dest: llist_distinct)

lemma DL_APPEND_dlist:
  assumes "dlist s head as" and "x \<notin> set as"
  shows "\<exists>s' head'. DL_APPEND s head x = Inr (s', head') \<and> dlist s' head' (as @ [x]) \<and>
    (\<forall>y. y \<notin> set as \<and> y \<noteq> x \<longrightarrow> d_next s' y = d_next s y \<and> d_prev s' y = d_prev s y)"
proof (cases as)
  case Nil
  with assms(1) have "head = None" by (simp add: dlist_def)
  with Nil show ?thesis by (simp add: DL_APPEND_def dlist_Cons)
next
  case (Cons a bs)
  let ?l = "last (a # bs)"
  from assms Cons have h: "head = Some a" and prev: "d_prev s a = Some ?l" "dprevs s a bs"
    and nx: "llist (d_next s) (d_next s a) bs" and x: "x \<noteq> a" "x \<notin> set bs" and d: "a \<notin> set bs" "distinct bs"
    using dlist_distinct [OF assms(1)] by (auto simp: dlist_Cons)
  let ?s = "set_next x None (set_prev a (Some x) (set_next ?l (Some x) (set_prev x (Some ?l) s)))"
  have r: "DL_APPEND s head x = Inr (?s, head)"
    using h prev(1) x by (simp add: DL_APPEND_def)
  have lin: "?l \<in> set (a # bs)" by (rule last_in_set) simp
  have xl: "x \<noteq> ?l" using lin x by auto
  have l: "llist ((d_next s)(x := None)) (Some a) (a # bs)" using nx x by simp
  moreover have "llist ((d_next s)(x := None)) (Some x) [x]" by simp
  ultimately have "llist (((d_next s)(x := None))(?l := Some x)) (Some a) ((a # bs) @ [x])"
    using x by (intro llist_extend) auto
  moreover have "d_next ?s = ((d_next s)(x := None))(?l := Some x)"
  proof (rule ext)
    fix y
    show "d_next ?s y = (((d_next s)(x := None))(?l := Some x)) y"
      using xl by (simp add: set_next_def set_prev_def)
  qed
  ultimately have n: "llist (d_next ?s) (Some a) ((a # bs) @ [x])" by (simp only:)
  have p: "dprevs ?s x ((a # bs) @ [x])" using prev(2) x d xl by auto
  have "dlist ?s head (as @ [x])" unfolding dlist_def using n p h Cons by simp
  moreover have "\<forall>y. y \<notin> set as \<and> y \<noteq> x \<longrightarrow> d_next ?s y = d_next s y \<and> d_prev ?s y = d_prev s y"
    using lin Cons by auto
  ultimately show ?thesis using r by blast
qed

lemma lpath_split_next:
  "llist nx head (us @ x # vs) \<Longrightarrow> lpath nx head us (Some x) \<and> llist nx (nx x) vs"
  by auto

lemma DL_DELETE_dlist:
  assumes "dlist s head as" and "x \<in> set as"
  shows "\<exists>s' head'. DL_DELETE s head x = Inr (s', head') \<and> dlist s' head' (remove1 x as) \<and>
    d_next s' x = d_next s x \<and>
    (\<forall>y. y \<notin> set as \<longrightarrow> d_next s' y = d_next s y \<and> d_prev s' y = d_prev s y)"
proof -
  from split_list [OF assms(2)] obtain us vs where as: "as = us @ x # vs" by blast
  have dist: "distinct (us @ x # vs)" using dlist_distinct [OF assms(1)] as by simp
  then have rem: "remove1 x as = us @ vs" using as by (simp add: remove1_append)
  have l: "llist (d_next s) head (us @ x # vs)" and pr: "dprevs s (last as) (us @ x # vs)"
    using assms(1) as by (auto simp: dlist_def)
  show ?thesis
  proof (cases us)
    case Nil
    show ?thesis
    proof (cases vs)
      case Nil
      with \<open>us = []\<close> pr as have "d_prev s x = Some x" by simp
      with Nil \<open>us = []\<close> rem show ?thesis by (simp add: DL_DELETE_def)
    next
      case (Cons v ws)
      let ?l = "last (v # ws)"
      have p: "d_prev s x = Some ?l" "?l \<noteq> x" "d_next s x = Some v" "head = Some x"
        using pr l as dist Cons \<open>us = []\<close> last_in_set [of "v # ws"] by auto
      let ?s = "set_prev v (Some ?l) s"
      have "DL_DELETE s head x = Inr (?s, Some v)" using p by (simp add: DL_DELETE_def)
      moreover have "dlist ?s (Some v) (v # ws)"
        using l pr p(3) dist Cons \<open>us = []\<close> as by (auto simp: dlist_Cons)
      ultimately show ?thesis using rem Cons \<open>us = []\<close> as by auto
    qed
  next
    case (Cons u0 us')
    let ?p = "last us"
    have ne: "us \<noteq> []" using Cons by simp
    have pin: "?p \<in> set us" by (rule last_in_set [OF ne])
    have h: "head = Some u0" "u0 \<in> set us" using l Cons by auto
    have px: "d_prev s x = Some ?p" "?p \<noteq> x" "u0 \<noteq> x" using pr ne pin dist h(2) by auto
    let ?s1 = "set_next ?p (d_next s x) s"
    have nx1: "d_next ?s1 x = d_next s x" using px(2) by simp
    have l1: "llist (d_next ?s1) head (us @ vs)"
    proof -
      obtain us1 where us1: "us = us1 @ [?p]" using ne by (metis append_butlast_last_id)
      have "lpath (d_next s) head us1 (Some ?p)" "llist (d_next s) (d_next s x) vs"
        using l us1 by (metis lpath_append lpath.simps(2), auto)
      moreover have "?p \<notin> set us1" "?p \<notin> set vs" using dist us1 by (metis distinct_append not_distinct_conv_prefix distinct.simps(2)) (use dist pin in auto)
      ultimately have "llist (d_next ?s1) head ((us1 @ [?p]) @ vs)" by simp
      with us1 show ?thesis by simp
    qed
    show ?thesis
    proof (cases vs)
      case Nil
      have nn: "d_next s x = None" using l Nil by auto
      let ?s = "set_prev u0 (Some ?p) ?s1"
      have "DL_DELETE s head x = Inr (?s, head)"
        using px h(1) nn by (simp add: DL_DELETE_def)
      moreover have "dlist ?s head us"
      proof -
        have "dprevs s (last as) us" using pr by simp
        then have "dprevs ?s ?p us" using Cons dist by auto
        with l1 Nil ne show ?thesis by (simp add: dlist_def)
      qed
      moreover have "\<forall>y. y \<notin> set as \<longrightarrow> d_next ?s y = d_next s y \<and> d_prev ?s y = d_prev s y"
        using as pin h(2) by auto
      ultimately show ?thesis using rem Nil px(2) by auto
    next
      case (Cons v ws)
      have nn: "d_next s x = Some v" using l Cons by auto
      let ?s = "set_prev v (Some ?p) ?s1"
      have "DL_DELETE s head x = Inr (?s, head)"
        using px h(1) nn by (simp add: DL_DELETE_def)
      moreover have "dlist ?s head (us @ vs)"
      proof -
        have "dprevs s (last as) us" "dprevs s v ws" "last as = last (us @ vs)" "v \<notin> set us" "v \<notin> set ws"
          using pr Cons as dist by auto
        then have "dprevs ?s (last (us @ vs)) (us @ vs)" using Cons ne by simp
        with l1 show ?thesis by (simp add: dlist_def)
      qed
      moreover have "\<forall>y. y \<notin> set as \<longrightarrow> d_next ?s y = d_next s y \<and> d_prev ?s y = d_prev s y"
        using as pin Cons by auto
      ultimately show ?thesis using rem px(2) by auto
    qed
  qed
qed

end
