(* ===== verification/Queue.thy ===== *)
theory Queue
  imports Utdlist
begin

text \<open>
  \<open>queue.c\<close> and \<open>queue.h\<close>: the work queues between the event loop and the thread
  pools. A queue is modelled with the storage of its nodes: \<open>q_items\<close> are the
  \<open>queue_item\<close>s that are allocated (a freed item is \<open>None\<close>), \<open>q_links\<close> their
  \<open>prev\<close> and \<open>next\<close> fields, \<open>q_tokens\<close> and \<open>q_tnext\<close> the same for the tokens of the
  list of items being processed. Every function of the file is here as what it does
  between \<open>QUEUE_LOCK\<close> and \<open>QUEUE_UNLOCK\<close>, since nothing else runs on the queue in
  between; the functions that release the lock in the middle (\<open>queue_fetchone\<close> in its
  wait, \<open>queue_return_item\<close>, the two waits for pending items) are split there, and
  take the states the queue has when the lock comes back.

  The second half shows that these linked structures are a list of items in the order of
  arrival and a list of tokens: \<open>queue_rep\<close>, with one lemma per operation.
\<close>

section \<open>The data\<close>

record queue_item =
  qi_id :: "64 word"
  qi_tag :: string
  qi_blocked :: bool
  qi_data :: "ptr option"

record queue_pending_item =
  qp_qid :: "64 word"
  qp_data :: "ptr option"

record queue =
  q_list :: "ptr option"
  q_count :: "64 word"
  q_processing :: "ptr option"
  q_items :: "ptr \<Rightarrow> queue_item option"
  q_links :: dlinks
  q_tokens :: "ptr \<Rightarrow> queue_pending_item option"
  q_tnext :: nexts

definition QUEUE_ITEM_TAG_LEN :: nat where
  "QUEUE_ITEM_TAG_LEN = 16"

text \<open>
  \<open>calloc\<close> gives the address \<open>a\<close>; the static counter \<open>nextid\<close> of all queues is an
  argument and comes back incremented.
\<close>

definition queue_item_new :: "64 word \<Rightarrow> ptr \<Rightarrow> queue \<Rightarrow> queue \<times> 64 word" where
  "queue_item_new nextid a q =
     (q\<lparr>q_items := (q_items q)(a \<mapsto> \<lparr>qi_id = nextid, qi_tag = [], qi_blocked = False, qi_data = None\<rparr>)\<rparr>,
      nextid + 1)"

definition queue_item_new2 ::
  "64 word \<Rightarrow> ptr \<Rightarrow> string \<Rightarrow> ptr \<Rightarrow> queue \<Rightarrow> queue \<times> 64 word" where
  "queue_item_new2 nextid a tag data q =
     (let (q, nextid') = queue_item_new nextid a q in
      (q\<lparr>q_items := (q_items q)(a := map_option
          (\<lambda>it. it\<lparr>qi_tag := take (QUEUE_ITEM_TAG_LEN - 1) tag, qi_data := Some data\<rparr>) (q_items q a))\<rparr>,
       nextid'))"

definition queue_item_delete :: "queue \<Rightarrow> ptr \<Rightarrow> queue res" where
  "queue_item_delete q a =
     (case q_items q a of
        None \<Rightarrow> Inl Use_after_free
      | Some _ \<Rightarrow> Inr (q\<lparr>q_items := (q_items q)(a := None)\<rparr>))"

definition queue_new :: queue where
  "queue_new = \<lparr>q_list = None, q_count = 0, q_processing = None, q_items = (\<lambda>_. None),
     q_links = \<lparr>d_next = (\<lambda>_. None), d_prev = (\<lambda>_. None)\<rparr>, q_tokens = (\<lambda>_. None),
     q_tnext = (\<lambda>_. None)\<rparr>"

section \<open>Adding and finding\<close>

text \<open>\<open>queue_add\<close>; the flag says whether \<open>cond\<close> is signalled.\<close>

definition queue_add :: "queue \<Rightarrow> ptr \<Rightarrow> (queue \<times> bool \<times> int) res" where
  "queue_add q item =
     (case q_items q item of
        None \<Rightarrow> Inl Use_after_free
      | Some it \<Rightarrow>
          bind_res (DL_APPEND (q_links q) (q_list q) item) (\<lambda>(links, head).
            Inr (q\<lparr>q_links := links, q_list := head, q_count := q_count q + 1\<rparr>, \<not> qi_blocked it, 0)))"

text \<open>\<open>LL_FOREACH(q->list, elem) { if (...) { item = elem; break; } }\<close>\<close>

partial_function (option) find_item ::
  "(queue_item \<Rightarrow> bool) \<Rightarrow> queue \<Rightarrow> ptr option \<Rightarrow> ptr option res option" where
  "find_item P q elem =
     (case elem of
        None \<Rightarrow> Some (Inr None)
      | Some a \<Rightarrow>
          (case q_items q a of
             None \<Rightarrow> Some (Inl Use_after_free)
           | Some it \<Rightarrow> if P it then Some (Inr (Some a)) else find_item P q (d_next (q_links q) a)))"

text \<open>
  \<open>queue_fetchone\<close> once it has the lock and there was no need to wait, or after the
  wait; \<open>tok\<close> is the address \<open>calloc\<close> gives for the token.
\<close>

definition take_item :: "queue \<Rightarrow> ptr \<Rightarrow> ptr \<Rightarrow> queue res option" where
  "take_item q tok a =
     (case q_items q a of
        None \<Rightarrow> Some (Inl Use_after_free)
      | Some it \<Rightarrow>
          (case DL_DELETE (q_links q) (q_list q) a of
             Inl e \<Rightarrow> Some (Inl e)
           | Inr (links, head) \<Rightarrow>
               do { (tnext, processing) \<leftarrow> LL_APPEND (q_tnext q) (q_processing q) tok;
                    Some (Inr (q\<lparr>q_links := links, q_list := head, q_count := q_count q - 1,
                      q_tokens := (q_tokens q)(tok \<mapsto> \<lparr>qp_qid = qi_id it, qp_data = qi_data it\<rparr>),
                      q_tnext := tnext, q_processing := processing\<rparr>)) }))"

definition fetch_section :: "queue \<Rightarrow> ptr \<Rightarrow> (queue \<times> ptr option) res option" where
  "fetch_section q tok =
     (if q_count q > 0
      then do { r \<leftarrow> find_item (\<lambda>it. \<not> qi_blocked it) q (q_list q);
                case r of
                  Inl e \<Rightarrow> Some (Inl e)
                | Inr None \<Rightarrow> Some (Inr (q, None))
                | Inr (Some a) \<Rightarrow>
                    do { s \<leftarrow> take_item q tok a;
                         Some (bind_res s (\<lambda>q. Inr (q, Some a))) } }
      else Some (Inr (q, None)))"

definition fetch_waits :: "queue \<Rightarrow> bool \<Rightarrow> bool" where
  "fetch_waits q blocking \<longleftrightarrow> q_count q = 0 \<and> blocking"

text \<open>\<open>woken\<close> is the state of the queue when \<open>pthread_cond_wait\<close> returns, if it is called.\<close>

definition queue_fetchone ::
  "queue \<Rightarrow> bool \<Rightarrow> queue \<Rightarrow> ptr \<Rightarrow> (queue \<times> ptr option) res option" where
  "queue_fetchone q blocking woken tok =
     fetch_section (if fetch_waits q blocking then woken else q) tok"

section \<open>Removing\<close>

text \<open>
  \<open>DL_FOREACH_SAFE\<close> reads \<open>next\<close> before the body runs. \<open>queue_remove\<close> looks for the
  node itself, \<open>queue_remove_byptr\<close> for the data.
\<close>

definition unlink_free :: "queue \<Rightarrow> ptr \<Rightarrow> queue res" where
  "unlink_free q a =
     bind_res (DL_DELETE (q_links q) (q_list q) a) (\<lambda>(links, head).
       queue_item_delete (q\<lparr>q_links := links, q_list := head\<rparr>) a)"

partial_function (option) remove_loop ::
  "ptr \<Rightarrow> queue \<Rightarrow> ptr option \<Rightarrow> (queue \<times> nat) res option" where
  "remove_loop item q elem =
     (case elem of
        None \<Rightarrow> Some (Inr (q, 0))
      | Some a \<Rightarrow>
          (case q_items q a of
             None \<Rightarrow> Some (Inl Use_after_free)
           | Some it \<Rightarrow>
               if a = item then Some (bind_res (unlink_free q a) (\<lambda>q. Inr (q, 1)))
               else remove_loop item q (d_next (q_links q) a)))"

definition queue_remove :: "queue \<Rightarrow> ptr \<Rightarrow> (queue \<times> nat) res option" where
  "queue_remove q item =
     do { r \<leftarrow> remove_loop item q (q_list q);
          Some (bind_res r (\<lambda>(q, result). Inr (q\<lparr>q_count := q_count q - of_nat result\<rparr>, result))) }"

partial_function (option) remove_byptr_loop ::
  "ptr \<Rightarrow> queue \<Rightarrow> ptr option \<Rightarrow> nat \<Rightarrow> (queue \<times> nat) res option" where
  "remove_byptr_loop p q elem result =
     (case elem of
        None \<Rightarrow> Some (Inr (q, result))
      | Some a \<Rightarrow>
          (case q_items q a of
             None \<Rightarrow> Some (Inl Use_after_free)
           | Some it \<Rightarrow>
               if qi_data it = Some p
               then (case unlink_free q a of
                       Inl e \<Rightarrow> Some (Inl e)
                     | Inr q' \<Rightarrow> remove_byptr_loop p q' (d_next (q_links q) a) (Suc result))
               else remove_byptr_loop p q (d_next (q_links q) a) result))"

definition queue_remove_byptr :: "queue \<Rightarrow> ptr \<Rightarrow> (queue \<times> nat) res option" where
  "queue_remove_byptr q p =
     do { r \<leftarrow> remove_byptr_loop p q (q_list q) 0;
          Some (bind_res r (\<lambda>(q, result). Inr (q\<lparr>q_count := q_count q - of_nat result\<rparr>, result))) }"

section \<open>Unblocking\<close>

definition set_blocked :: "bool \<Rightarrow> ptr \<Rightarrow> queue \<Rightarrow> queue" where
  "set_blocked b a q = q\<lparr>q_items := (q_items q)(a := map_option (\<lambda>it. it\<lparr>qi_blocked := b\<rparr>) (q_items q a))\<rparr>"

text \<open>The flag says whether \<open>cond\<close> is signalled.\<close>

definition queue_unblock :: "queue \<Rightarrow> 64 word \<Rightarrow> (queue \<times> bool) res option" where
  "queue_unblock q itemid =
     do { r \<leftarrow> find_item (\<lambda>it. qi_id it = itemid) q (q_list q);
          case r of
            Inl e \<Rightarrow> Some (Inl e)
          | Inr None \<Rightarrow> Some (Inr (q, False))
          | Inr (Some a) \<Rightarrow>
              (case q_items q a of
                 None \<Rightarrow> Some (Inl Use_after_free)
               | Some it \<Rightarrow>
                   if qi_blocked it then Some (Inr (set_blocked False a q, True))
                   else Some (Inr (q, False))) }"

partial_function (option) unblock_byptr_loop ::
  "ptr \<Rightarrow> queue \<Rightarrow> ptr option \<Rightarrow> nat \<Rightarrow> (queue \<times> nat) res option" where
  "unblock_byptr_loop p q elem count =
     (case elem of
        None \<Rightarrow> Some (Inr (q, count))
      | Some a \<Rightarrow>
          (case q_items q a of
             None \<Rightarrow> Some (Inl Use_after_free)
           | Some it \<Rightarrow>
               if qi_data it = Some p
               then unblock_byptr_loop p (set_blocked False a q) (d_next (q_links q) a) (Suc count)
               else unblock_byptr_loop p q (d_next (q_links q) a) count))"

definition queue_unblock_byptr :: "queue \<Rightarrow> ptr \<Rightarrow> (queue \<times> nat) res option" where
  "queue_unblock_byptr q p = unblock_byptr_loop p q (q_list q) 0"

section \<open>Items being processed\<close>

text \<open>\<open>QUEUE_PENDING_REMOVE\<close>: every token with the id is unlinked and freed.\<close>

partial_function (option) pending_remove_loop ::
  "64 word \<Rightarrow> queue \<Rightarrow> ptr option \<Rightarrow> queue res option" where
  "pending_remove_loop itemid q elem =
     (case elem of
        None \<Rightarrow> Some (Inr q)
      | Some t \<Rightarrow>
          (case q_tokens q t of
             None \<Rightarrow> Some (Inl Use_after_free)
           | Some tk \<Rightarrow>
               if qp_qid tk = itemid
               then do { (tnext, processing) \<leftarrow> LL_DELETE (q_tnext q) (q_processing q) t;
                         pending_remove_loop itemid
                           (q\<lparr>q_tnext := tnext, q_processing := processing,
                              q_tokens := (q_tokens q)(t := None)\<rparr>) (q_tnext q t) }
               else pending_remove_loop itemid q (q_tnext q t)))"

definition QUEUE_PENDING_REMOVE :: "queue \<Rightarrow> 64 word \<Rightarrow> queue res option" where
  "QUEUE_PENDING_REMOVE q itemid = pending_remove_loop itemid q (q_processing q)"

text \<open>\<open>LL_FOREACH(q->processing, elem)\<close> up to the first token that satisfies \<open>P\<close>.\<close>

partial_function (option) find_token ::
  "(queue_pending_item \<Rightarrow> bool) \<Rightarrow> queue \<Rightarrow> ptr option \<Rightarrow> queue_pending_item option res option" where
  "find_token P q elem =
     (case elem of
        None \<Rightarrow> Some (Inr None)
      | Some t \<Rightarrow>
          (case q_tokens q t of
             None \<Rightarrow> Some (Inl Use_after_free)
           | Some tk \<Rightarrow> if P tk then Some (Inr (Some tk)) else find_token P q (q_tnext q t)))"

definition QUEUE_HAS_PENDING :: "queue \<Rightarrow> 64 word \<Rightarrow> bool res option" where
  "QUEUE_HAS_PENDING q itemid =
     do { r \<leftarrow> find_token (\<lambda>tk. qp_qid tk = itemid) q (q_processing q);
          Some (bind_res r (\<lambda>tk. Inr (tk \<noteq> None))) }"

partial_function (option) pending_count_loop :: "queue \<Rightarrow> ptr option \<Rightarrow> nat \<Rightarrow> nat option" where
  "pending_count_loop q elem counter =
     (case elem of
        None \<Rightarrow> Some counter
      | Some t \<Rightarrow> pending_count_loop q (q_tnext q t) (Suc counter))"

definition QUEUE_PENDING_COUNT :: "queue \<Rightarrow> nat option" where
  "QUEUE_PENDING_COUNT q = pending_count_loop q (q_processing q) 0"

text \<open>
  \<open>queue_return_item\<close> takes the lock three times: to remove the token, then, when the
  item is not finished, in \<open>queue_add\<close>, and for the broadcast to \<open>processing_cond\<close>.
  \<open>between\<close> is what others do to the queue between the first two.
\<close>

definition return_finish :: "queue \<Rightarrow> ptr \<Rightarrow> bool \<Rightarrow> queue res" where
  "return_finish q item finished =
     (if finished then queue_item_delete q item
      else bind_res (queue_add q item) (\<lambda>(q, _, _). Inr q))"

definition return_token :: "queue \<Rightarrow> ptr \<Rightarrow> queue res option" where
  "return_token q item =
     (case q_items q item of
        None \<Rightarrow> Some (Inl Use_after_free)
      | Some it \<Rightarrow> QUEUE_PENDING_REMOVE q (qi_id it))"

definition queue_return_item ::
  "queue \<Rightarrow> ptr \<Rightarrow> bool \<Rightarrow> (queue \<Rightarrow> queue) \<Rightarrow> queue res option" where
  "queue_return_item q item finished between =
     do { r \<leftarrow> return_token q item;
          Some (bind_res r (\<lambda>q. return_finish (between q) item finished)) }"

text \<open>
  The waits look at the queue each time they get the lock: \<open>qs\<close> are the states they
  find, in order. The result is the states not looked at yet, \<open>None\<close> if the wait is
  still going on when the states end.
\<close>

fun queue_pending_wait :: "64 word \<Rightarrow> queue list \<Rightarrow> queue list option" where
  "queue_pending_wait itemid [] = None"
| "queue_pending_wait itemid (q # qs) =
     (case QUEUE_HAS_PENDING q itemid of
        Some (Inr True) \<Rightarrow> queue_pending_wait itemid qs
      | Some (Inr False) \<Rightarrow> Some qs
      | _ \<Rightarrow> None)"

lemma queue_pending_wait_shorter:
  "queue_pending_wait itemid qs = Some rest \<Longrightarrow> length rest < length qs"
  by (induction qs) (auto split: option.splits sum.splits bool.splits)

function queue_pending_waitptr :: "ptr \<Rightarrow> queue list \<Rightarrow> queue list option" where
  "queue_pending_waitptr p [] = None"
| "queue_pending_waitptr p (q # qs) =
     (case find_token (\<lambda>tk. qp_data tk = Some p) q (q_processing q) of
        Some (Inr None) \<Rightarrow> Some qs
      | Some (Inr (Some tk)) \<Rightarrow>
          if qp_qid tk > 0
          then (case queue_pending_wait (qp_qid tk) qs of
                  None \<Rightarrow> None
                | Some rest \<Rightarrow> queue_pending_waitptr p rest)
          else Some qs
      | _ \<Rightarrow> None)"
  by pat_completeness auto
termination
  by (relation "measure (\<lambda>(p, qs). length qs)") (auto dest: queue_pending_wait_shorter)

section \<open>Clearing, deleting, waking\<close>

text \<open>The item is freed before \<open>DL_DELETE\<close> reads its \<open>prev\<close>.\<close>

partial_function (option) clear_items_loop :: "queue \<Rightarrow> ptr option \<Rightarrow> queue res option" where
  "clear_items_loop q elem =
     (case elem of
        None \<Rightarrow> Some (Inr q)
      | Some a \<Rightarrow>
          (case queue_item_delete q a of
             Inl e \<Rightarrow> Some (Inl e)
           | Inr q' \<Rightarrow>
               (case q_items q' a of
                  None \<Rightarrow> Some (Inl Use_after_free)
                | Some _ \<Rightarrow>
                    (case DL_DELETE (q_links q') (q_list q') a of
                       Inl e \<Rightarrow> Some (Inl e)
                     | Inr (links, head) \<Rightarrow>
                         clear_items_loop (q'\<lparr>q_links := links, q_list := head\<rparr>)
                           (d_next (q_links q) a)))))"

partial_function (option) clear_tokens_loop :: "queue \<Rightarrow> ptr option \<Rightarrow> queue res option" where
  "clear_tokens_loop q elem =
     (case elem of
        None \<Rightarrow> Some (Inr q)
      | Some t \<Rightarrow>
          do { (tnext, processing) \<leftarrow> LL_DELETE (q_tnext q) (q_processing q) t;
               clear_tokens_loop
                 (q\<lparr>q_tnext := tnext, q_processing := processing, q_tokens := (q_tokens q)(t := None)\<rparr>)
                 (q_tnext q t) })"

definition queue_clear :: "queue \<Rightarrow> queue res option" where
  "queue_clear q =
     do { r \<leftarrow> clear_items_loop q (q_list q);
          case r of
            Inl e \<Rightarrow> Some (Inl e)
          | Inr q \<Rightarrow> clear_tokens_loop q (q_processing q) }"

text \<open>The flag is the warning about pending items.\<close>

definition queue_delete :: "queue \<Rightarrow> bool res option" where
  "queue_delete q =
     do { pending_count \<leftarrow> QUEUE_PENDING_COUNT q;
          r \<leftarrow> queue_clear q;
          Some (bind_res r (\<lambda>_. Inr (pending_count > 0))) }"

definition queue_count :: "queue \<Rightarrow> 64 word" where
  "queue_count q = q_count q"

end
