(* ===== verification/Queue_Rep.thy ===== *)
theory Queue_Rep
  imports Queue
begin

text \<open>
  The linked queue of \<open>Queue\<close> is a sequence of items in the order of arrival and a
  sequence of tokens. One lemma per function says what it does to the two sequences and
  to the storage, and that it neither faults nor loops.
\<close>

definition queue_rep :: "queue \<Rightarrow> ptr list \<Rightarrow> ptr list \<Rightarrow> bool" where
  "queue_rep q as ts \<longleftrightarrow>
     dlist (q_links q) (q_list q) as \<and> (\<forall>a \<in> set as. q_items q a \<noteq> None) \<and>
     llist (q_tnext q) (q_processing q) ts \<and> (\<forall>t \<in> set ts. q_tokens q t \<noteq> None) \<and>
     q_count q = of_nat (length as)"

abbreviation item_at :: "queue \<Rightarrow> ptr \<Rightarrow> queue_item" where
  "item_at q a \<equiv> the (q_items q a)"

abbreviation token_at :: "queue \<Rightarrow> ptr \<Rightarrow> queue_pending_item" where
  "token_at q t \<equiv> the (q_tokens q t)"

definition holds :: "queue \<Rightarrow> ptr \<Rightarrow> ptr \<Rightarrow> bool" where
  "holds q p a \<longleftrightarrow> qi_data (item_at q a) = Some p"

lemma queue_rep_distinct: "queue_rep q as ts \<Longrightarrow> distinct as \<and> distinct ts"
  by (auto simp: queue_rep_def dest: dlist_distinct llist_distinct)

lemma queue_rep_new: "queue_rep queue_new [] []"
  by (simp add: queue_rep_def queue_new_def)

lemma queue_rep_items:
  "queue_rep q as ts \<Longrightarrow> \<forall>a \<in> set as. m a \<noteq> None \<Longrightarrow> queue_rep (q\<lparr>q_items := m\<rparr>) as ts"
  by (simp add: queue_rep_def)

lemma dlist_nexts: "dlist s h as \<Longrightarrow> llist (d_next s) h as"
  by (simp add: dlist_def)

lemma queue_rep_item_new:
  assumes "queue_rep q as ts" and "q_items q a = None"
  shows "queue_rep (fst (queue_item_new2 n a tag p q)) as ts"
    and "q_items (fst (queue_item_new2 n a tag p q)) =
      (q_items q)(a \<mapsto> \<lparr>qi_id = n, qi_tag = take 15 tag, qi_blocked = False, qi_data = Some p\<rparr>)"
    and "q_tokens (fst (queue_item_new2 n a tag p q)) = q_tokens q"
  using assms
  by (auto simp: queue_item_new2_def queue_item_new_def QUEUE_ITEM_TAG_LEN_def queue_rep_def)

lemma word_length_remove1:
  assumes "x \<in> set xs"
  shows "(of_nat (length xs) :: 64 word) - 1 = of_nat (length (remove1 x xs))"
proof -
  have "length xs = Suc (length (remove1 x xs))"
    using assms length_pos_if_in_set [OF assms] by (simp add: length_remove1)
  then show ?thesis by (simp only: of_nat_Suc) simp
qed

section \<open>Adding and fetching\<close>

lemma queue_add_rep:
  assumes "queue_rep q as ts" and "a \<notin> set as" and "q_items q a \<noteq> None"
  shows "\<exists>q'. queue_add q a = Inr (q', \<not> qi_blocked (item_at q a), 0) \<and> queue_rep q' (as @ [a]) ts \<and>
    q_items q' = q_items q \<and> q_tokens q' = q_tokens q"
proof -
  from assms(1) have "dlist (q_links q) (q_list q) as" by (simp add: queue_rep_def)
  from DL_APPEND_dlist [OF this assms(2)] obtain l h where
    "DL_APPEND (q_links q) (q_list q) a = Inr (l, h)" "dlist l h (as @ [a])" by blast
  then show ?thesis using assms by (auto simp: queue_add_def queue_rep_def)
qed

lemma find_item_llist:
  assumes "llist (d_next (q_links q)) e as" and "\<forall>a \<in> set as. q_items q a \<noteq> None"
  shows "find_item P q e = Some (Inr (find (\<lambda>a. P (item_at q a)) as))"
  using assms
proof (induction as arbitrary: e)
  case Nil
  then show ?case by (simp add: find_item.simps)
next
  case (Cons a as)
  then show ?case by (auto simp: find_item.simps [of P q "Some a"])
qed

lemma find_item_rep:
  "queue_rep q as ts \<Longrightarrow>
    find_item P q (q_list q) = Some (Inr (find (\<lambda>a. P (item_at q a)) as))"
  by (rule find_item_llist) (auto simp: queue_rep_def dlist_nexts)

text \<open>An address for a token is good when no token on the list has it.\<close>

lemma take_item_rep:
  assumes "queue_rep q as ts" and "a \<in> set as" and "t \<notin> set ts"
  shows "\<exists>q'. take_item q t a = Some (Inr q') \<and> queue_rep q' (remove1 a as) (ts @ [t]) \<and>
    q_items q' = q_items q \<and>
    q_tokens q' = (q_tokens q)(t \<mapsto> \<lparr>qp_qid = qi_id (item_at q a), qp_data = qi_data (item_at q a)\<rparr>)"
proof -
  from assms obtain it where it: "q_items q a = Some it" by (auto simp: queue_rep_def)
  from assms(1) have d: "dlist (q_links q) (q_list q) as" and l: "llist (q_tnext q) (q_processing q) ts"
    by (auto simp: queue_rep_def)
  from DL_DELETE_dlist [OF d assms(2)] obtain s h where
    s: "DL_DELETE (q_links q) (q_list q) a = Inr (s, h)" "dlist s h (remove1 a as)" by blast
  from LL_APPEND_llist [OF l assms(3)] obtain n p where
    n: "LL_APPEND (q_tnext q) (q_processing q) t = Some (n, p)" "llist n p (ts @ [t])" by blast
  note len = word_length_remove1 [OF assms(2)]
  have "\<forall>x \<in> set (remove1 a as). q_items q x \<noteq> None"
    using assms(1) set_remove1_subset [of a as] by (auto simp: queue_rep_def)
  then show ?thesis
    using assms(1) s n it len by (auto simp: take_item_def queue_rep_def)
qed

lemma fetch_section_rep:
  assumes "queue_rep q as ts" and "t \<notin> set ts" and "length as < 2 ^ 64"
  shows "case find (\<lambda>a. \<not> qi_blocked (item_at q a)) as of
      None \<Rightarrow> fetch_section q t = Some (Inr (q, None))
    | Some a \<Rightarrow> \<exists>q'. fetch_section q t = Some (Inr (q', Some a)) \<and>
        queue_rep q' (remove1 a as) (ts @ [t]) \<and> q_items q' = q_items q \<and>
        q_tokens q' = (q_tokens q)(t \<mapsto> \<lparr>qp_qid = qi_id (item_at q a), qp_data = qi_data (item_at q a)\<rparr>)"
proof (cases "find (\<lambda>a. \<not> qi_blocked (item_at q a)) as")
  case None
  with find_item_rep [OF assms(1), of "\<lambda>it. \<not> qi_blocked it"] show ?thesis
    by (simp add: fetch_section_def)
next
  case (Some a)
  then have a: "a \<in> set as" by (auto simp: find_Some_iff)
  then have "length as > 0" by (cases as) auto
  with assms(1,3) have "q_count q > 0"
    by (simp add: queue_rep_def word_gt_0 of_nat_eq_0_iff word_of_nat_eq_0_iff)
       (use nat_dvd_not_less in blast)
  then show ?thesis
    using find_item_rep [OF assms(1), of "\<lambda>it. \<not> qi_blocked it"] Some
      take_item_rep [OF assms(1) a assms(2)]
    by (auto simp: fetch_section_def)
qed

section \<open>Removing\<close>

lemma unlink_free_rep:
  assumes "dlist (q_links q) (q_list q) as" and "a \<in> set as" and "q_items q a \<noteq> None"
  shows "\<exists>l h. unlink_free q a = Inr (q\<lparr>q_links := l, q_list := h, q_items := (q_items q)(a := None)\<rparr>) \<and>
    dlist l h (remove1 a as) \<and> d_next l a = d_next (q_links q) a"
proof -
  from DL_DELETE_dlist [OF assms(1,2)] obtain l h where
    "DL_DELETE (q_links q) (q_list q) a = Inr (l, h)" "dlist l h (remove1 a as)"
    "d_next l a = d_next (q_links q) a" by blast
  then show ?thesis using assms(3)
    by (intro exI [of _ l] exI [of _ h]) (auto simp: unlink_free_def queue_item_delete_def)
qed

lemma remove_loop_rep:
  assumes "dlist (q_links q) (q_list q) (us @ vs)" and "llist (d_next (q_links q)) e vs"
    and "\<forall>a \<in> set (us @ vs). q_items q a \<noteq> None"
  shows "if x \<in> set vs
    then \<exists>l h. remove_loop x q e = Some (Inr (q\<lparr>q_links := l, q_list := h, q_items := (q_items q)(x := None)\<rparr>, 1)) \<and>
      dlist l h (remove1 x (us @ vs))
    else remove_loop x q e = Some (Inr (q, 0))"
  using assms
proof (induction vs arbitrary: us e)
  case Nil
  then show ?case by (simp add: remove_loop.simps)
next
  case (Cons a vs)
  from Cons.prems have a: "e = Some a" "q_items q a \<noteq> None" "llist (d_next (q_links q)) (d_next (q_links q) a) vs"
    by auto
  show ?case
  proof (cases "a = x")
    case True
    have "x \<in> set (us @ a # vs)" using True by simp
    from unlink_free_rep [OF Cons.prems(1) this] a(2) True obtain l h where
      "unlink_free q x = Inr (q\<lparr>q_links := l, q_list := h, q_items := (q_items q)(x := None)\<rparr>)"
      "dlist l h (remove1 x (us @ x # vs))" by auto
    then have "remove_loop x q e =
          Some (Inr (q\<lparr>q_links := l, q_list := h, q_items := (q_items q)(x := None)\<rparr>, 1))"
      using a True by (auto simp: remove_loop.simps [of x q "Some x"])
    with \<open>dlist l h _\<close> True show ?thesis by auto
  next
    case False
    have "dlist (q_links q) (q_list q) ((us @ [a]) @ vs)" "\<forall>b \<in> set ((us @ [a]) @ vs). q_items q b \<noteq> None"
      using Cons.prems by auto
    note ih = Cons.IH [OF this(1) a(3) this(2)]
    have "remove_loop x q e = remove_loop x q (d_next (q_links q) a)"
      using a(1,2) False by (auto simp: remove_loop.simps [of x q "Some a"])
    with ih False [symmetric] show ?thesis
      by (simp only: list.set insert_iff append_assoc append_Cons append_Nil simp_thms)
  qed
qed

lemma queue_remove_rep:
  assumes "queue_rep q as ts"
  shows "\<exists>q'. queue_remove q x = Some (Inr (q', if x \<in> set as then 1 else 0)) \<and>
    queue_rep q' (remove1 x as) ts \<and> q_tokens q' = q_tokens q \<and>
    q_items q' = (if x \<in> set as then (q_items q)(x := None) else q_items q)"
proof -
  from assms have d: "dlist (q_links q) (q_list q) ([] @ as)" and al: "\<forall>a \<in> set ([] @ as). q_items q a \<noteq> None"
    by (auto simp: queue_rep_def)
  note l = remove_loop_rep [OF d dlist_nexts [OF d, simplified] al, of x]
  show ?thesis
  proof (cases "x \<in> set as")
    case True
    from l True obtain l h where
      r: "remove_loop x q (q_list q) = Some (Inr (q\<lparr>q_links := l, q_list := h, q_items := (q_items q)(x := None)\<rparr>, 1))"
      and dl: "dlist l h (remove1 x as)" by auto
    note len = word_length_remove1 [OF True]
    have "\<forall>a \<in> set (remove1 x as). a \<noteq> x \<and> q_items q a \<noteq> None"
      using al queue_rep_distinct [OF assms] by auto
    with r dl len assms True show ?thesis by (auto simp: queue_remove_def queue_rep_def)
  next
    case False
    with l assms show ?thesis by (auto simp: queue_remove_def remove1_idem)
  qed
qed

text \<open>The items with data \<open>p\<close> go, the others stay in their order.\<close>

lemma remove_byptr_loop_rep:
  assumes "dlist (q_links q) (q_list q) (us @ vs)" and "llist (d_next (q_links q)) e vs"
    and "\<forall>a \<in> set (us @ vs). q_items q a \<noteq> None" and "\<forall>a \<in> set us. \<not> holds q p a"
  shows "\<exists>l h. remove_byptr_loop p q e n =
      Some (Inr (q\<lparr>q_links := l, q_list := h,
        q_items := (\<lambda>a. if a \<in> set vs \<and> holds q p a then None else q_items q a)\<rparr>,
        n + length (filter (holds q p) vs))) \<and>
    dlist l h (us @ filter (\<lambda>a. \<not> holds q p a) vs)"
  using assms
proof (induction vs arbitrary: us e q n)
  case Nil
  then show ?case
    by (intro exI [of _ "q_links q"] exI [of _ "q_list q"]) (simp add: remove_byptr_loop.simps)
next
  case (Cons a vs)
  from Cons.prems have a: "e = Some a" "q_items q a \<noteq> None" "llist (d_next (q_links q)) (d_next (q_links q) a) vs"
    by auto
  from dlist_distinct [OF Cons.prems(1)] have nd: "a \<notin> set us" "a \<notin> set vs" by auto
  show ?case
  proof (cases "holds q p a")
    case True
    have "a \<in> set (us @ a # vs)" by simp
    from unlink_free_rep [OF Cons.prems(1) this a(2)] nd obtain l h where
      u: "unlink_free q a = Inr (q\<lparr>q_links := l, q_list := h, q_items := (q_items q)(a := None)\<rparr>)"
      and dl: "dlist l h (us @ vs)" and nx: "d_next l a = d_next (q_links q) a"
      by (auto simp: remove1_append)
    let ?q = "q\<lparr>q_links := l, q_list := h, q_items := (q_items q)(a := None)\<rparr>"
    have h: "\<forall>b \<in> set us \<union> set vs. holds ?q p b = holds q p b" using nd by (auto simp: holds_def)
    have f: "filter (holds ?q p) vs = filter (holds q p) vs"
      "filter (\<lambda>b. \<not> holds ?q p b) vs = filter (\<lambda>b. \<not> holds q p b) vs"
      using h by (auto intro!: filter_cong)
    have l2: "llist (d_next l) (d_next (q_links q) a) vs"
    proof -
      \<comment> \<open>the walk goes on from the old successor, which is the head of the rest in the new links\<close>
      from dlist_nexts [OF dl] obtain r where r: "lpath (d_next l) h us r" "llist (d_next l) r vs" by auto
      show ?thesis
      proof (cases vs)
        case Nil
        with a(3) show ?thesis by simp
      next
        case (Cons v ws)
        with r(2) a(3) show ?thesis by simp
      qed
    qed
    have ih: "dlist (q_links ?q) (q_list ?q) (us @ vs)" "llist (d_next (q_links ?q)) (d_next (q_links q) a) vs"
      "\<forall>b \<in> set (us @ vs). q_items ?q b \<noteq> None" "\<forall>b \<in> set us. \<not> holds ?q p b"
      using dl l2 Cons.prems(3,4) nd h by auto
    have items: "(\<lambda>b. if b \<in> set vs \<and> holds ?q p b then None else q_items ?q b) =
        (\<lambda>b. if b \<in> set (a # vs) \<and> holds q p b then None else q_items q b)"
      using True nd h by (auto simp: fun_eq_iff)
    from Cons.IH [OF ih, of "Suc n"] obtain l' h' where
      "remove_byptr_loop p ?q (d_next (q_links q) a) (Suc n) =
         Some (Inr (?q\<lparr>q_links := l', q_list := h',
           q_items := (\<lambda>b. if b \<in> set (a # vs) \<and> holds q p b then None else q_items q b)\<rparr>,
           Suc n + length (filter (holds q p) vs)))"
      "dlist l' h' (us @ filter (\<lambda>b. \<not> holds q p b) vs)"
      unfolding items f by blast
    moreover have "remove_byptr_loop p q e n = remove_byptr_loop p ?q (d_next (q_links q) a) (Suc n)"
      using u a(1,2) True [unfolded holds_def] by (auto simp: remove_byptr_loop.simps [of p q "Some a"])
    ultimately show ?thesis using True by auto
  next
    case False
    have ih: "dlist (q_links q) (q_list q) ((us @ [a]) @ vs)"
      "\<forall>b \<in> set ((us @ [a]) @ vs). q_items q b \<noteq> None" "\<forall>b \<in> set (us @ [a]). \<not> holds q p b"
      using Cons.prems False by auto
    have items: "(\<lambda>b. if b \<in> set vs \<and> holds q p b then None else q_items q b) =
        (\<lambda>b. if b \<in> set (a # vs) \<and> holds q p b then None else q_items q b)"
      using False by auto
    have "remove_byptr_loop p q e n = remove_byptr_loop p q (d_next (q_links q) a) n"
      using a(1,2) False [unfolded holds_def] by (auto simp: remove_byptr_loop.simps [of p q "Some a"])
    with Cons.IH [OF ih(1) a(3) ih(2,3), of n] False show ?thesis
      unfolding items by auto
  qed
qed

lemma queue_remove_byptr_rep:
  assumes "queue_rep q as ts"
  shows "\<exists>q'. queue_remove_byptr q p = Some (Inr (q', length (filter (holds q p) as))) \<and>
    queue_rep q' (filter (\<lambda>a. \<not> holds q p a) as) ts \<and> q_tokens q' = q_tokens q \<and>
    q_items q' = (\<lambda>a. if a \<in> set as \<and> holds q p a then None else q_items q a)"
proof -
  from assms have d: "dlist (q_links q) (q_list q) ([] @ as)" and al: "\<forall>a \<in> set ([] @ as). q_items q a \<noteq> None"
    by (auto simp: queue_rep_def)
  from remove_byptr_loop_rep [OF d dlist_nexts [OF d, simplified] al, of p 0] obtain l h where
    r: "remove_byptr_loop p q (q_list q) 0 = Some (Inr (q\<lparr>q_links := l, q_list := h,
          q_items := (\<lambda>a. if a \<in> set as \<and> holds q p a then None else q_items q a)\<rparr>,
          length (filter (holds q p) as)))"
      and dl: "dlist l h (filter (\<lambda>a. \<not> holds q p a) as)" by auto
  have len: "(of_nat (length as) :: 64 word) - of_nat (length (filter (holds q p) as)) =
      of_nat (length (filter (\<lambda>a. \<not> holds q p a) as))"
  proof -
    have "length as = length (filter (holds q p) as) + length (filter (\<lambda>a. \<not> holds q p a) as)"
      using sum_length_filter_compl [of "holds q p" as] by simp
    then show ?thesis by (metis add_diff_cancel_left' of_nat_add)
  qed
  show ?thesis using r dl len assms by (auto simp: queue_remove_byptr_def queue_rep_def)
qed

section \<open>Unblocking\<close>

lemma set_blocked_fields [simp]:
  "q_links (set_blocked b a q) = q_links q" "q_list (set_blocked b a q) = q_list q"
  "q_count (set_blocked b a q) = q_count q" "q_processing (set_blocked b a q) = q_processing q"
  "q_tokens (set_blocked b a q) = q_tokens q" "q_tnext (set_blocked b a q) = q_tnext q"
  "q_items (set_blocked b a q) = (q_items q)(a := map_option (\<lambda>it. it\<lparr>qi_blocked := b\<rparr>) (q_items q a))"
  by (simp_all add: set_blocked_def)

lemma queue_rep_set_blocked: "queue_rep (set_blocked b a q) as ts = queue_rep q as ts"
  by (auto simp: queue_rep_def)

lemma queue_unblock_rep:
  assumes "queue_rep q as ts"
  shows "queue_unblock q i = Some (Inr
    (case find (\<lambda>a. qi_id (item_at q a) = i) as of
       None \<Rightarrow> (q, False)
     | Some a \<Rightarrow> if qi_blocked (item_at q a) then (set_blocked False a q, True) else (q, False)))"
proof (cases "find (\<lambda>a. qi_id (item_at q a) = i) as")
  case None
  then show ?thesis using find_item_rep [OF assms] by (simp add: queue_unblock_def)
next
  case (Some a)
  then have "a \<in> set as" by (auto simp: find_Some_iff)
  with assms obtain it where "q_items q a = Some it" by (auto simp: queue_rep_def)
  then show ?thesis using find_item_rep [OF assms] Some by (simp add: queue_unblock_def)
qed

definition unblocked_items :: "queue \<Rightarrow> ptr \<Rightarrow> ptr list \<Rightarrow> ptr \<Rightarrow> queue_item option" where
  "unblocked_items q p as a =
     (if a \<in> set as \<and> holds q p a then map_option (\<lambda>it. it\<lparr>qi_blocked := False\<rparr>) (q_items q a)
      else q_items q a)"

lemma unblock_byptr_loop_rep:
  assumes "llist (d_next (q_links q)) e vs" and "\<forall>a \<in> set vs. q_items q a \<noteq> None" and "distinct vs"
  shows "unblock_byptr_loop p q e n =
    Some (Inr (q\<lparr>q_items := unblocked_items q p vs\<rparr>, n + length (filter (holds q p) vs)))"
  using assms
proof (induction vs arbitrary: e q n)
  case Nil
  have "unblocked_items q p [] = q_items q" by (simp add: unblocked_items_def fun_eq_iff)
  with Nil show ?case by (simp add: unblock_byptr_loop.simps)
next
  case (Cons a vs)
  then have a: "e = Some a" "q_items q a \<noteq> None" "llist (d_next (q_links q)) (d_next (q_links q) a) vs"
    "a \<notin> set vs" "distinct vs" by auto
  show ?case
  proof (cases "holds q p a")
    case True
    let ?q = "set_blocked False a q"
    have h: "\<forall>b \<in> set vs. holds ?q p b = holds q p b" using a by (auto simp: holds_def)
    then have f: "filter (holds ?q p) vs = filter (holds q p) vs" by (auto intro: filter_cong)
    have "unblocked_items ?q p vs = unblocked_items q p (a # vs)"
      using h a True by (auto simp: unblocked_items_def fun_eq_iff)
    then have i: "?q\<lparr>q_items := unblocked_items ?q p vs\<rparr> = q\<lparr>q_items := unblocked_items q p (a # vs)\<rparr>"
      by (simp add: set_blocked_def)
    have "unblock_byptr_loop p q e n = unblock_byptr_loop p ?q (d_next (q_links q) a) (Suc n)"
      using a True [unfolded holds_def] by (auto simp: unblock_byptr_loop.simps [of p q "Some a"])
    also have "\<dots> = Some (Inr (?q\<lparr>q_items := unblocked_items ?q p vs\<rparr>, Suc n + length (filter (holds ?q p) vs)))"
      using Cons.prems a by (intro Cons.IH) auto
    finally show ?thesis unfolding f i using True by simp
  next
    case False
    have i: "unblocked_items q p vs = unblocked_items q p (a # vs)"
      using False by (auto simp: unblocked_items_def fun_eq_iff)
    have "unblock_byptr_loop p q e n = unblock_byptr_loop p q (d_next (q_links q) a) n"
      using a False [unfolded holds_def] by (auto simp: unblock_byptr_loop.simps [of p q "Some a"])
    also have "\<dots> = Some (Inr (q\<lparr>q_items := unblocked_items q p vs\<rparr>, n + length (filter (holds q p) vs)))"
      using Cons.prems a by (intro Cons.IH) auto
    finally show ?thesis unfolding i using False by simp
  qed
qed

lemma queue_unblock_byptr_rep:
  assumes "queue_rep q as ts"
  shows "queue_unblock_byptr q p =
      Some (Inr (q\<lparr>q_items := unblocked_items q p as\<rparr>, length (filter (holds q p) as))) \<and>
    queue_rep (q\<lparr>q_items := unblocked_items q p as\<rparr>) as ts"
  using assms queue_rep_distinct [OF assms]
    unblock_byptr_loop_rep [of q "q_list q" as p 0]
  by (auto simp: queue_unblock_byptr_def queue_rep_def dlist_nexts unblocked_items_def)

section \<open>Tokens\<close>

definition has_id :: "queue \<Rightarrow> 64 word \<Rightarrow> ptr \<Rightarrow> bool" where
  "has_id q i t \<longleftrightarrow> qp_qid (token_at q t) = i"

definition other_tokens :: "queue \<Rightarrow> 64 word \<Rightarrow> ptr list \<Rightarrow> ptr \<Rightarrow> queue_pending_item option" where
  "other_tokens q i ts t = (if t \<in> set ts \<and> has_id q i t then None else q_tokens q t)"

lemma pending_remove_loop_rep:
  assumes "llist (q_tnext q) (q_processing q) (us @ vs)" and "llist (q_tnext q) e vs"
    and "\<forall>t \<in> set (us @ vs). q_tokens q t \<noteq> None" and "\<forall>t \<in> set us. \<not> has_id q i t"
  shows "\<exists>n h. pending_remove_loop i q e =
      Some (Inr (q\<lparr>q_tnext := n, q_processing := h, q_tokens := other_tokens q i vs\<rparr>)) \<and>
    llist n h (us @ filter (\<lambda>t. \<not> has_id q i t) vs)"
  using assms
proof (induction vs arbitrary: us e q)
  case Nil
  have "other_tokens q i [] = q_tokens q" by (simp add: other_tokens_def fun_eq_iff)
  with Nil show ?case
    by (intro exI [of _ "q_tnext q"] exI [of _ "q_processing q"]) (simp add: pending_remove_loop.simps)
next
  case (Cons t vs)
  from Cons.prems have t: "e = Some t" "q_tokens q t \<noteq> None" "llist (q_tnext q) (q_tnext q t) vs"
    by auto
  from llist_distinct [OF Cons.prems(1)] have nd: "t \<notin> set us" "t \<notin> set vs" "set us \<inter> set vs = {}" by auto
  show ?case
  proof (cases "has_id q i t")
    case True
    from LL_DELETE_llist [OF Cons.prems(1)] obtain n h where
      d: "LL_DELETE (q_tnext q) (q_processing q) t = Some (n, h)" "llist n h (us @ vs)"
      and fr: "\<forall>y. y \<notin> set us \<longrightarrow> n y = q_tnext q y" by blast
    let ?q = "q\<lparr>q_tnext := n, q_processing := h, q_tokens := (q_tokens q)(t := None)\<rparr>"
    have hi: "\<forall>b \<in> set us \<union> set vs. has_id ?q i b = has_id q i b" using nd by (auto simp: has_id_def)
    then have f: "filter (\<lambda>b. \<not> has_id ?q i b) vs = filter (\<lambda>b. \<not> has_id q i b) vs"
      by (auto intro: filter_cong)
    have tk: "other_tokens ?q i vs = other_tokens q i (t # vs)"
      using True nd hi by (auto simp: other_tokens_def fun_eq_iff)
    have "llist n (q_tnext q t) vs"
      using t(3) fr nd by (subst lpath_cong [of vs n "q_tnext q"]) auto
    then have ih: "llist (q_tnext ?q) (q_processing ?q) (us @ vs)" "llist (q_tnext ?q) (q_tnext q t) vs"
      "\<forall>b \<in> set (us @ vs). q_tokens ?q b \<noteq> None" "\<forall>b \<in> set us. \<not> has_id ?q i b"
      using d(2) Cons.prems(3,4) nd hi by auto
    from Cons.IH [OF ih] obtain n' h' where
      "pending_remove_loop i ?q (q_tnext q t) =
         Some (Inr (?q\<lparr>q_tnext := n', q_processing := h', q_tokens := other_tokens q i (t # vs)\<rparr>))"
      "llist n' h' (us @ filter (\<lambda>b. \<not> has_id q i b) vs)"
      unfolding tk f by blast
    moreover have "pending_remove_loop i q e = pending_remove_loop i ?q (q_tnext q t)"
      using d(1) t(1,2) True [unfolded has_id_def] by (auto simp: pending_remove_loop.simps [of i q "Some t"])
    ultimately show ?thesis using True by auto
  next
    case False
    have ih: "llist (q_tnext q) (q_processing q) ((us @ [t]) @ vs)"
      "\<forall>b \<in> set ((us @ [t]) @ vs). q_tokens q b \<noteq> None" "\<forall>b \<in> set (us @ [t]). \<not> has_id q i b"
      using Cons.prems False by auto
    have tk: "other_tokens q i vs = other_tokens q i (t # vs)"
      using False by (auto simp: other_tokens_def fun_eq_iff)
    have "pending_remove_loop i q e = pending_remove_loop i q (q_tnext q t)"
      using t(1,2) False [unfolded has_id_def] by (auto simp: pending_remove_loop.simps [of i q "Some t"])
    with Cons.IH [OF ih(1) t(3) ih(2,3)] False show ?thesis
      unfolding tk by auto
  qed
qed

lemma pending_remove_rep:
  assumes "queue_rep q as ts"
  shows "\<exists>q'. QUEUE_PENDING_REMOVE q i = Some (Inr q') \<and>
    queue_rep q' as (filter (\<lambda>t. \<not> has_id q i t) ts) \<and> q_items q' = q_items q \<and>
    q_tokens q' = other_tokens q i ts"
proof -
  from assms have l: "llist (q_tnext q) (q_processing q) ([] @ ts)" "\<forall>t \<in> set ([] @ ts). q_tokens q t \<noteq> None"
    by (auto simp: queue_rep_def)
  from pending_remove_loop_rep [OF l(1) l(1) [simplified] l(2), of i] obtain n h where
    "pending_remove_loop i q (q_processing q) =
       Some (Inr (q\<lparr>q_tnext := n, q_processing := h, q_tokens := other_tokens q i ts\<rparr>))"
    "llist n h (filter (\<lambda>t. \<not> has_id q i t) ts)" by auto
  then show ?thesis using assms
    by (auto simp: QUEUE_PENDING_REMOVE_def queue_rep_def other_tokens_def)
qed

lemma find_token_llist:
  assumes "llist (q_tnext q) e ts" and "\<forall>t \<in> set ts. q_tokens q t \<noteq> None"
  shows "find_token P q e =
    Some (Inr (map_option (token_at q) (find (\<lambda>t. P (token_at q t)) ts)))"
  using assms
proof (induction ts arbitrary: e)
  case Nil
  then show ?case by (simp add: find_token.simps)
next
  case (Cons t ts)
  then show ?case by (auto simp: find_token.simps [of P q "Some t"])
qed

lemma find_token_rep:
  "queue_rep q as ts \<Longrightarrow> find_token P q (q_processing q) =
    Some (Inr (map_option (token_at q) (find (\<lambda>t. P (token_at q t)) ts)))"
  by (rule find_token_llist) (auto simp: queue_rep_def)

lemma has_pending_rep:
  assumes "queue_rep q as ts"
  shows "QUEUE_HAS_PENDING q i = Some (Inr (\<exists>t \<in> set ts. has_id q i t))"
proof -
  have "find (has_id q i) ts \<noteq> None \<longleftrightarrow> (\<exists>t \<in> set ts. has_id q i t)"
    unfolding find_None_iff by blast
  then show ?thesis
    using find_token_rep [OF assms, of "\<lambda>tk. qp_qid tk = i"]
    by (simp add: QUEUE_HAS_PENDING_def has_id_def [abs_def])
qed

lemma pending_count_rep:
  assumes "queue_rep q as ts"
  shows "QUEUE_PENDING_COUNT q = Some (length ts)"
proof -
  have "llist (q_tnext q) e ts \<Longrightarrow> pending_count_loop q e n = Some (n + length ts)" for e n
  proof (induction ts arbitrary: e n)
    case Nil
    then show ?case by (simp add: pending_count_loop.simps)
  next
    case (Cons t ts)
    then show ?case by (auto simp: pending_count_loop.simps [of q "Some t"])
  qed
  with assms show ?thesis by (simp add: QUEUE_PENDING_COUNT_def queue_rep_def)
qed

section \<open>Clearing\<close>

lemma clear_tokens_loop_rep:
  "llist (q_tnext q) (q_processing q) ts \<Longrightarrow>
    \<exists>q'. clear_tokens_loop q (q_processing q) = Some (Inr q') \<and> q_processing q' = None \<and>
      q_items q' = q_items q \<and> q_list q' = q_list q \<and> q_count q' = q_count q"
proof (induction ts arbitrary: q)
  case Nil
  then show ?case by (simp add: clear_tokens_loop.simps)
next
  case (Cons t ts)
  then have t: "q_processing q = Some t" "llist (q_tnext q) (q_tnext q t) ts" by auto
  let ?q = "q\<lparr>q_processing := q_tnext q t, q_tokens := (q_tokens q)(t := None)\<rparr>"
  have "clear_tokens_loop q (Some t) = clear_tokens_loop ?q (q_processing ?q)"
    using t by (auto simp: clear_tokens_loop.simps [of q "Some t"] LL_DELETE_def)
  moreover have "llist (q_tnext ?q) (q_processing ?q) ts" using t by simp
  from Cons.IH [OF this] obtain q' where
    "clear_tokens_loop ?q (q_processing ?q) = Some (Inr q')" "q_processing q' = None"
    "q_items q' = q_items ?q" "q_list q' = q_list ?q" "q_count q' = q_count ?q" by blast
  ultimately show ?case using t(1) by auto
qed

lemma queue_clear_empty:
  assumes "queue_rep q [] ts"
  shows "\<exists>q'. queue_clear q = Some (Inr q') \<and> queue_rep q' [] []"
proof -
  from assms have q: "q_list q = None" "q_count q = 0" and l: "llist (q_tnext q) (q_processing q) ts"
    by (auto simp: queue_rep_def dlist_def)
  from clear_tokens_loop_rep [OF l] show ?thesis
    using q by (auto simp: queue_clear_def clear_items_loop.simps queue_rep_def)
qed

lemma queue_clear_faults:
  assumes "queue_rep q as ts" and "as \<noteq> []"
  shows "queue_clear q = Some (Inl Use_after_free)"
proof -
  from assms(2) obtain a bs where as: "as = a # bs" by (cases as) auto
  with assms obtain it where "q_list q = Some a" "q_items q a = Some it"
    by (auto simp: queue_rep_def dlist_Cons)
  then show ?thesis
    by (simp add: queue_clear_def clear_items_loop.simps [of q "Some a"] queue_item_delete_def)
qed

section \<open>The contract of a work queue\<close>

text \<open>
  What the pools rely on: a queue that holds the items \<open>is\<close>, none of them blocked, takes
  another one at its end and gives out its first. \<open>addable\<close> and \<open>usable\<close> are the
  items that may be added and the token addresses that may be used.
\<close>

locale work_queue =
  fixes waiting :: "'q \<Rightarrow> 'i list \<Rightarrow> bool"
    and addable :: "'q \<Rightarrow> 'i \<Rightarrow> bool"
    and usable :: "'q \<Rightarrow> 't \<Rightarrow> bool"
    and put :: "'q \<Rightarrow> 'i \<Rightarrow> 'q option"
    and get :: "'q \<Rightarrow> 't \<Rightarrow> ('q \<times> 'i option) option"
  assumes put_law: "waiting q is \<Longrightarrow> addable q i \<Longrightarrow> i \<notin> set is \<Longrightarrow> length is < 2 ^ 64 - 1 \<Longrightarrow>
      \<exists>q'. put q i = Some q' \<and> waiting q' (is @ [i]) \<and>
        (\<forall>j. addable q j \<longrightarrow> addable q' j) \<and> (\<forall>t. usable q t \<longrightarrow> usable q' t)"
    and get_law: "waiting q (i # is) \<Longrightarrow> usable q t \<Longrightarrow>
      \<exists>q'. get q t = Some (q', Some i) \<and> waiting q' is \<and>
        (\<forall>u. usable q u \<longrightarrow> u \<noteq> t \<longrightarrow> usable q' u)"
begin

primrec puts :: "'q \<Rightarrow> 'i list \<Rightarrow> 'q option" where
  "puts q [] = Some q"
| "puts q (i # is) = Option.bind (put q i) (\<lambda>q. puts q is)"

primrec gets :: "'q \<Rightarrow> 't list \<Rightarrow> ('q \<times> 'i option list) option" where
  "gets q [] = Some (q, [])"
| "gets q (t # ts) = Option.bind (get q t) (\<lambda>(q, i).
     Option.bind (gets q ts) (\<lambda>(q, is). Some (q, i # is)))"

lemma puts_waiting:
  assumes "waiting q js" and "\<forall>i \<in> set is. addable q i" and "distinct (js @ is)"
    and "length js + length is < 2 ^ 64"
  shows "\<exists>q'. puts q is = Some q' \<and> waiting q' (js @ is) \<and> (\<forall>t. usable q t \<longrightarrow> usable q' t)"
  using assms
proof (induction "is" arbitrary: q js)
  case Nil
  then show ?case by simp
next
  case (Cons i "is")
  then have "addable q i" "i \<notin> set js" "length js < 2 ^ 64 - 1" by auto
  from put_law [OF Cons.prems(1) this] obtain q' where
    q': "put q i = Some q'" "waiting q' (js @ [i])" "\<forall>j. addable q j \<longrightarrow> addable q' j"
      "\<forall>t. usable q t \<longrightarrow> usable q' t" by blast
  have "\<forall>i \<in> set is. addable q' i" "distinct ((js @ [i]) @ is)" "length (js @ [i]) + length is < 2 ^ 64"
    using Cons.prems q'(3) by auto
  from Cons.IH [OF q'(2) this] q' show ?case by auto
qed

lemma gets_waiting:
  assumes "waiting q is" and "length ts = length is" and "\<forall>t \<in> set ts. usable q t" and "distinct ts"
  shows "\<exists>q'. gets q ts = Some (q', map Some is) \<and> waiting q' []"
  using assms
proof (induction "is" arbitrary: q ts)
  case Nil
  then show ?case by simp
next
  case (Cons i "is")
  then obtain t us where ts: "ts = t # us" by (cases ts) auto
  with Cons.prems have "usable q t" by simp
  from get_law [OF Cons.prems(1) this] obtain q' where
    q': "get q t = Some (q', Some i)" "waiting q' is" "\<forall>u. usable q u \<longrightarrow> u \<noteq> t \<longrightarrow> usable q' u" by blast
  with Cons.prems ts have "length us = length is" "\<forall>u \<in> set us. usable q' u" "distinct us" by auto
  from Cons.IH [OF q'(2) this] q'(1) ts show ?case by auto
qed

lemma first_in_first_out:
  assumes "waiting q []" and "\<forall>i \<in> set is. addable q i" and "distinct is" and "length is < 2 ^ 64"
    and "\<forall>t \<in> set ts. usable q t" and "distinct ts" and "length ts = length is"
  shows "\<exists>q1 q2. puts q is = Some q1 \<and> gets q1 ts = Some (q2, map Some is) \<and> waiting q2 []"
proof -
  from puts_waiting [OF assms(1), of "is"] assms obtain q1 where
    "puts q is = Some q1" "waiting q1 is" "\<forall>t. usable q t \<longrightarrow> usable q1 t" by auto
  moreover from this assms have "\<forall>t \<in> set ts. usable q1 t" by blast
  ultimately show ?thesis using gets_waiting [of q1 "is" ts] assms by blast
qed

end

definition q_waiting :: "queue \<Rightarrow> ptr list \<Rightarrow> bool" where
  "q_waiting q is \<longleftrightarrow> (\<exists>ts. queue_rep q is ts) \<and> length is < 2 ^ 64 \<and>
     (\<forall>a \<in> set is. \<not> qi_blocked (item_at q a))"

definition q_addable :: "queue \<Rightarrow> ptr \<Rightarrow> bool" where
  "q_addable q a \<longleftrightarrow> q_items q a \<noteq> None \<and> \<not> qi_blocked (item_at q a)"

definition q_usable :: "queue \<Rightarrow> ptr \<Rightarrow> bool" where
  "q_usable q t \<longleftrightarrow> q_tokens q t = None"

definition q_put :: "queue \<Rightarrow> ptr \<Rightarrow> queue option" where
  "q_put q a = (case queue_add q a of Inl _ \<Rightarrow> None | Inr (q, _, _) \<Rightarrow> Some q)"

definition q_get :: "queue \<Rightarrow> ptr \<Rightarrow> (queue \<times> ptr option) option" where
  "q_get q t = (case queue_fetchone q False q t of Some (Inr r) \<Rightarrow> Some r | _ \<Rightarrow> None)"

lemma q_put_law:
  assumes "q_waiting q is" and "q_addable q a" and "a \<notin> set is" and "length is < 2 ^ 64 - 1"
  shows "\<exists>q'. q_put q a = Some q' \<and> q_waiting q' (is @ [a]) \<and>
    (\<forall>j. q_addable q j \<longrightarrow> q_addable q' j) \<and> (\<forall>t. q_usable q t \<longrightarrow> q_usable q' t)"
proof -
  from assms(1) obtain ts where "queue_rep q is ts" by (auto simp: q_waiting_def)
  from queue_add_rep [OF this assms(3)] assms(2) obtain q' where
    "queue_add q a = Inr (q', \<not> qi_blocked (item_at q a), 0)" "queue_rep q' (is @ [a]) ts"
    "q_items q' = q_items q" "q_tokens q' = q_tokens q" by (auto simp: q_addable_def)
  then show ?thesis using assms
    by (auto simp: q_put_def q_waiting_def q_addable_def q_usable_def)
qed

lemma q_get_law:
  assumes "q_waiting q (a # is)" and "q_usable q t"
  shows "\<exists>q'. q_get q t = Some (q', Some a) \<and> q_waiting q' is \<and>
    (\<forall>u. q_usable q u \<longrightarrow> u \<noteq> t \<longrightarrow> q_usable q' u)"
proof -
  from assms(1) obtain ts where r: "queue_rep q (a # is) ts" and l: "length (a # is) < 2 ^ 64"
    and nb: "\<forall>b \<in> set (a # is). \<not> qi_blocked (item_at q b)" by (auto simp: q_waiting_def)
  from r assms(2) have t: "t \<notin> set ts" by (auto simp: queue_rep_def q_usable_def)
  have "find (\<lambda>b. \<not> qi_blocked (item_at q b)) (a # is) = Some a" using nb by simp
  with fetch_section_rep [OF r t l] obtain q' where
    "fetch_section q t = Some (Inr (q', Some a))" "queue_rep q' is (ts @ [t])" "q_items q' = q_items q"
    "q_tokens q' = (q_tokens q)(t \<mapsto> \<lparr>qp_qid = qi_id (item_at q a), qp_data = qi_data (item_at q a)\<rparr>)"
    by auto
  with l nb show ?thesis
    by (auto simp: q_get_def q_waiting_def q_usable_def queue_fetchone_def fetch_waits_def)
qed

interpretation wq: work_queue q_waiting q_addable q_usable q_put q_get
  by unfold_locales (use q_put_law q_get_law in blast)+

text \<open>
  C20: items are fetched in the order they were added: any number of distinct items that
  are not blocked, added one after the other to an empty queue and fetched without
  waiting, come out first in first out, and leave the queue empty.
\<close>

theorem queue_fifo:
  assumes "queue_rep q [] us" and "\<forall>a \<in> set is. q_items q a \<noteq> None \<and> \<not> qi_blocked (item_at q a)"
    and "distinct is" and "length is < 2 ^ 64"
    and "\<forall>t \<in> set ts. q_tokens q t = None" and "distinct ts" and "length ts = length is"
  shows "\<exists>q1 q2 vs. wq.puts q is = Some q1 \<and> wq.gets q1 ts = Some (q2, map Some is) \<and> queue_rep q2 [] vs"
proof -
  have "q_waiting q []" using assms(1) by (auto simp: q_waiting_def)
  from wq.first_in_first_out [OF this, of "is" ts] assms show ?thesis
    by (auto simp: q_addable_def q_usable_def q_waiting_def)
qed

text \<open>Two items, made by \<open>queue_item_new2\<close>.\<close>

definition two_items :: queue where
  "two_items = fst (queue_item_new2 2 6 ''RESP'' 7 (fst (queue_item_new2 1 5 ''READ'' 7 queue_new)))"

lemma two_items_rep: "queue_rep two_items [] []"
  unfolding two_items_def
  by (intro queue_rep_item_new queue_rep_new)
    (simp_all add: queue_item_new2_def queue_item_new_def queue_new_def)

theorem queue_fifo_witness:
  "\<exists>q1 q2 vs. wq.puts two_items [6, 5] = Some q1 \<and> wq.gets q1 [3, 4] = Some (q2, [Some 6, Some 5]) \<and>
    queue_rep q2 [] vs"
proof -
  have "\<forall>a \<in> set [6, 5]. q_items two_items a \<noteq> None \<and> \<not> qi_blocked (item_at two_items a)"
    "\<forall>t \<in> set [3, 4]. q_tokens two_items t = None"
    by (simp_all add: two_items_def queue_item_new2_def queue_item_new_def queue_new_def)
  from queue_fifo [OF two_items_rep this(1) _ _ this(2)] show ?thesis by simp
qed

text \<open>
  When every item on the queue is blocked, a fetch that should block neither waits
  nor gives an item: the threads of a pool turn at full speed in \<open>queue_fetchone\<close>.
\<close>

theorem all_blocked_spins:
  assumes "queue_rep q as ts" and "as \<noteq> []" and "length as < 2 ^ 64"
    and "\<forall>a \<in> set as. qi_blocked (item_at q a)" and "q_tokens q t = None"
  shows "\<not> fetch_waits q True \<and> queue_fetchone q True woken t = Some (Inr (q, None))"
proof -
  from assms(1,5) have t: "t \<notin> set ts" by (auto simp: queue_rep_def)
  have "q_count q \<noteq> 0"
    using assms(1,2,3) nat_dvd_not_less [of "length as" "2 ^ 64"]
    by (auto simp: queue_rep_def word_of_nat_eq_0_iff)
  moreover from assms(4) have "find (\<lambda>a. \<not> qi_blocked (item_at q a)) as = None" by (auto simp: find_None_iff)
  ultimately show ?thesis
    using fetch_section_rep [OF assms(1) t assms(3)] by (simp add: fetch_waits_def queue_fetchone_def)
qed

theorem all_blocked_spins_witness:
  "\<exists>q. q_count q = 1 \<and> \<not> fetch_waits q True \<and> queue_fetchone q True queue_new 9 = Some (Inr (q, None))"
proof -
  let ?q0 = "set_blocked True 5 two_items"
  have r0: "queue_rep ?q0 [] []" using two_items_rep by (simp add: queue_rep_set_blocked)
  have i: "q_items two_items 5 \<noteq> None" "q_tokens two_items 9 = None"
    by (simp_all add: two_items_def queue_item_new2_def queue_item_new_def queue_new_def)
  then have "q_items ?q0 5 \<noteq> None" by simp
  from queue_add_rep [OF r0 _ this] obtain q where
    q: "queue_rep q [5] []" "q_items q = q_items ?q0" "q_tokens q = q_tokens ?q0" by auto
  have "\<forall>a \<in> set [5]. qi_blocked (item_at q a)" "q_tokens q 9 = None" using q i by auto
  from all_blocked_spins [OF q(1) _ _ this] q(1) show ?thesis
    by (intro exI [of _ q]) (simp add: queue_rep_def)
qed

text \<open>
  Deleting a queue works exactly when nothing is on it; with an item left
  \<open>queue_clear\<close> frees the item first and then unlinks it, reading freed memory.
\<close>

theorem queue_delete_iff_empty:
  assumes "queue_rep q as ts"
  shows "queue_delete q = Some (if as = [] then Inr (ts \<noteq> []) else Inl Use_after_free)"
proof (cases "as = []")
  case True
  with queue_clear_empty [of q ts] assms obtain q' where "queue_clear q = Some (Inr q')" by blast
  with True pending_count_rep [OF assms] show ?thesis by (simp add: queue_delete_def)
next
  case False
  with queue_clear_faults [OF assms] pending_count_rep [OF assms] show ?thesis
    by (simp add: queue_delete_def)
qed

theorem queue_delete_iff_empty_witness:
  "\<exists>q. queue_count q = 1 \<and> queue_delete q = Some (Inl Use_after_free) \<and> queue_delete two_items = Some (Inr False)"
proof -
  have "q_items two_items 5 \<noteq> None"
    by (simp add: two_items_def queue_item_new2_def queue_item_new_def queue_new_def)
  from queue_add_rep [OF two_items_rep _ this] obtain q where q: "queue_rep q [5] []" by auto
  from queue_delete_iff_empty [OF q] queue_delete_iff_empty [OF two_items_rep] q show ?thesis
    by (intro exI [of _ q]) (simp add: queue_rep_def queue_count_def)
qed

end
