(* ===== verification/Server_Loop.thy ===== *)
theory Server_Loop
  imports Server_Connection Queue_Rep
begin

text \<open>
  \<open>src/server-loop.c\<close>: the event loop. The state of the server is its connections, by
  address, the list of clients, and the queue of each pool with its storage (\<open>Queue\<close>).
  \<open>epoll_wait\<close> is the list of events it gives; what \<open>accept\<close> and \<open>epoll_ctl\<close> answer comes
  with the event. \<open>calloc\<close> hands out addresses never used before.

  The lemmas say what an event does to the queues as sequences of items (\<open>queue_rep\<close>).
\<close>

section \<open>State\<close>

record server_state =
  ss_started :: bool
  ss_stopped :: bool
  ss_shutdown_requested :: bool
  ss_pools :: "server_pool \<Rightarrow> queue"
  ss_clients :: "ptr list"
  ss_conns :: "ptr \<Rightarrow> server_connection option"
  ss_item_id :: "64 word"
  ss_conn_id :: "64 word"
  ss_skt_id :: "64 word"
  ss_fresh :: ptr

section \<open>Queueing a connection\<close>

text \<open>\<open>queue_add(pools[pool]->queue, queue_item_new2(name, conn))\<close>\<close>

definition enqueue :: "server_pool \<Rightarrow> string \<Rightarrow> ptr \<Rightarrow> server_state \<Rightarrow> server_state res" where
  "enqueue pool name conn st =
     (case queue_item_new2 (ss_item_id st) (ss_fresh st) name conn (ss_pools st pool) of
        (q, n) \<Rightarrow> bind_res (queue_add q (ss_fresh st)) (\<lambda>(q', _, _).
          Inr (st\<lparr>ss_pools := (ss_pools st)(pool := q'), ss_item_id := n, ss_fresh := Suc (ss_fresh st)\<rparr>)))"

text \<open>\<open>if (queue_unblock_byptr(pools[a]->queue, conn) == 0) queue_add(pools[b]->queue, ...)\<close>\<close>

definition unblock_or_add ::
  "server_pool \<Rightarrow> server_pool \<Rightarrow> string \<Rightarrow> ptr \<Rightarrow> server_state \<Rightarrow> server_state res option" where
  "unblock_or_add a b name conn st =
     do { r \<leftarrow> queue_unblock_byptr (ss_pools st a) conn;
          Some (bind_res r (\<lambda>(q, n).
            let st = st\<lparr>ss_pools := (ss_pools st)(a := q)\<rparr> in
            if n = 0 then enqueue b name conn st else Inr st)) }"

section \<open>New connections\<close>

text \<open>One \<open>accept4\<close> that gave a descriptor, and whether \<open>epoll_ctl\<close> takes it.\<close>

definition accept_one :: "int \<Rightarrow> bool \<Rightarrow> server_state \<Rightarrow> server_state res option" where
  "accept_one fd registered st =
     (case skt_new (ss_skt_id st) fd of
        Inl e \<Rightarrow> Some (Inl e)
      | Inr (skt, sid) \<Rightarrow>
          (case server_connection_new (ss_conn_id st) skt of
             (client, cid) \<Rightarrow>
               let a = ss_fresh st; st = st\<lparr>ss_skt_id := sid, ss_conn_id := cid, ss_fresh := Suc a\<rparr> in
               if \<not> registered
               then do { r \<leftarrow> server_connection_delete (client\<lparr>c_skt := skt_close (c_skt client)\<rparr>);
                         Some (bind_res r (\<lambda>_. Inr st)) }
               else Some (enqueue POOL_READ ''READ'' a
                 (st\<lparr>ss_clients := ss_clients st @ [a], ss_conns := (ss_conns st)(a \<mapsto> client)\<rparr>))))"

fun accept_all :: "(int \<times> bool) list \<Rightarrow> server_state \<Rightarrow> server_state res option" where
  "accept_all [] st = Some (Inr st)"
| "accept_all ((fd, registered) # rest) st =
     (case accept_one fd registered st of
        Some (Inr st') \<Rightarrow> accept_all rest st'
      | r \<Rightarrow> r)"

section \<open>Events\<close>

text \<open>
  The data of an event is the listening socket, with what \<open>accept4\<close> will answer until it
  would block, or the address of a connection.
\<close>

datatype ev_data = Listener "(int \<times> bool) list" | Client ptr

record epoll_event =
  ev_in :: bool
  ev_out :: bool
  ev_rdhup :: bool
  ev_err :: bool
  ev_data :: ev_data

definition close_client :: "ptr \<Rightarrow> server_state \<Rightarrow> server_state res" where
  "close_client p st =
     (if p \<notin> set (ss_clients st) then Inl Assert_failed
      else case ss_conns st p of
        None \<Rightarrow> Inl Use_after_free
      | Some c \<Rightarrow> Inr (st\<lparr>ss_conns := (ss_conns st)(p \<mapsto> c\<lparr>c_skt := skt_close (c_skt c)\<rparr>)\<rparr>))"

text \<open>
  One event; the flag says that the \<open>for\<close> loop is left. A connection that is not in the list
  has a null \<open>conn\<close>: an assertion in all cases but \<open>EPOLLOUT\<close>, where the null pointer goes to
  the threads of the write pool, which dereference it.
\<close>

definition handle_event :: "epoll_event \<Rightarrow> server_state \<Rightarrow> (bool \<times> server_state) res option" where
  "handle_event ev st =
     (let go = map_option (\<lambda>r. bind_res r (\<lambda>st. Inr (False, st))) in
      if ev_err ev \<or> (\<not> ev_in ev \<and> \<not> ev_out ev \<and> \<not> ev_rdhup ev) then
        (case ev_data ev of
           Listener _ \<Rightarrow> Some (Inr (True, st\<lparr>ss_shutdown_requested := True\<rparr>))
         | Client p \<Rightarrow> go (Some (close_client p st)))
      else if ev_rdhup ev then
        (case ev_data ev of
           Listener _ \<Rightarrow> Some (Inl Assert_failed)
         | Client p \<Rightarrow> go (Some (close_client p st)))
      else if ev_in ev then
        (case ev_data ev of
           Listener fds \<Rightarrow> go (accept_all fds st)
         | Client p \<Rightarrow>
             if p \<notin> set (ss_clients st) then Some (Inl Assert_failed)
             else go (unblock_or_add POOL_READ POOL_READ ''READ'' p st))
      else
        (case ev_data ev of
           Listener _ \<Rightarrow> Some (Inl Null_deref)
         | Client p \<Rightarrow>
             if p \<notin> set (ss_clients st) then Some (Inl Null_deref)
             else go (unblock_or_add POOL_READ POOL_WRITE ''WRITE'' p st)))"

fun handle_events :: "epoll_event list \<Rightarrow> server_state \<Rightarrow> server_state res option" where
  "handle_events [] st = Some (Inr st)"
| "handle_events (ev # evs) st =
     (case handle_event ev st of
        None \<Rightarrow> None
      | Some (Inl e) \<Rightarrow> Some (Inl e)
      | Some (Inr (stop, st')) \<Rightarrow> if stop then Some (Inr st') else handle_events evs st')"

section \<open>Cleaning up\<close>

text \<open>
  \<open>queue_pending_waitptr\<close> releases the locks: \<open>seen pool\<close> are the states of the queue it finds
  each time it is woken, \<open>after\<close> the queues when the last wait is over.
\<close>

definition remove_from :: "ptr \<Rightarrow> server_pool \<Rightarrow> server_state \<Rightarrow> server_state res option" where
  "remove_from p pool st =
     do { r \<leftarrow> queue_remove_byptr (ss_pools st pool) p;
          Some (bind_res r (\<lambda>(q, _). Inr (st\<lparr>ss_pools := (ss_pools st)(pool := q)\<rparr>))) }"

fun remove_from_all :: "server_pool list \<Rightarrow> ptr \<Rightarrow> server_state \<Rightarrow> server_state res option" where
  "remove_from_all [] p st = Some (Inr st)"
| "remove_from_all (pool # pools) p st =
     (case remove_from p pool st of
        Some (Inr st') \<Rightarrow> remove_from_all pools p st'
      | r \<Rightarrow> r)"

definition all_pools :: "server_pool list" where
  "all_pools = [POOL_READ, POOL_WRITE, POOL_WORKER]"

definition cleanup_client ::
  "(server_pool \<Rightarrow> queue list) \<Rightarrow> (server_pool \<Rightarrow> queue) \<Rightarrow> ptr \<Rightarrow> server_state \<Rightarrow> server_state res option" where
  "cleanup_client seen after p st =
     (case ss_conns st p of
        None \<Rightarrow> Some (Inl Use_after_free)
      | Some c0 \<Rightarrow>
          let c = (if skt_error (c_skt c0) then c0\<lparr>c_skt := skt_close (c_skt c0)\<rparr> else c0);
              st = st\<lparr>ss_conns := (ss_conns st)(p \<mapsto> c)\<rparr> in
          if \<not> skt_closed (c_skt c) then Some (Inr st)
          else
            do { r \<leftarrow> remove_from_all all_pools p st;
                 case r of
                   Inl e \<Rightarrow> Some (Inl e)
                 | Inr st \<Rightarrow>
                     if \<exists>pool \<in> set all_pools. queue_pending_waitptr p (seen pool) = None then None
                     else
                       do { d \<leftarrow> server_connection_delete c;
                            Some (bind_res d (\<lambda>_. Inr (st\<lparr>ss_pools := after,
                              ss_clients := remove1 p (ss_clients st),
                              ss_conns := (ss_conns st)(p := None)\<rparr>))) } })"

text \<open>
  \<open>LL_FOREACH_SAFE\<close> over the clients; what the waits for a client see depends on when they
  are.
\<close>

fun cleanup_all ::
  "(ptr \<Rightarrow> server_pool \<Rightarrow> queue list) \<Rightarrow> (ptr \<Rightarrow> server_pool \<Rightarrow> queue) \<Rightarrow> ptr list \<Rightarrow> server_state \<Rightarrow>
   server_state res option" where
  "cleanup_all seen after [] st = Some (Inr st)"
| "cleanup_all seen after (p # ps) st =
     (case cleanup_client (seen p) (after p) p st of
        Some (Inr st') \<Rightarrow> cleanup_all seen after ps st'
      | r \<Rightarrow> r)"

text \<open>One turn of the loop, and the loop over the turns that \<open>epoll_wait\<close> gives it.\<close>

record turn =
  t_events :: "epoll_event list"
  t_seen :: "ptr \<Rightarrow> server_pool \<Rightarrow> queue list"
  t_after :: "ptr \<Rightarrow> server_pool \<Rightarrow> queue"

definition server_turn :: "turn \<Rightarrow> server_state \<Rightarrow> server_state res option" where
  "server_turn t st =
     (case handle_events (t_events t) st of
        Some (Inr st') \<Rightarrow> cleanup_all (t_seen t) (t_after t) (ss_clients st') st'
      | r \<Rightarrow> r)"

fun server_turns :: "turn list \<Rightarrow> server_state \<Rightarrow> server_state res option" where
  "server_turns ts st =
     (if ss_shutdown_requested st
      then Some (Inr (st\<lparr>ss_shutdown_requested := False, ss_started := False, ss_stopped := True\<rparr>))
      else case ts of
        [] \<Rightarrow> Some (Inr st)
      | t # rest \<Rightarrow>
          (case server_turn t st of
             Some (Inr st') \<Rightarrow> server_turns rest st'
           | r \<Rightarrow> r))"

declare server_turns.simps [simp del]

definition server_loop :: "turn list \<Rightarrow> server_state \<Rightarrow> server_state res option" where
  "server_loop ts st = (if \<not> ss_started st then Some (Inl Assert_failed) else server_turns ts st)"

section \<open>The invariant\<close>

definition pool_ok :: "ptr \<Rightarrow> queue \<Rightarrow> bool" where
  "pool_ok fresh q \<longleftrightarrow> (\<exists>as ts. queue_rep q as ts) \<and> (\<forall>a. q_items q a \<noteq> None \<longrightarrow> a < fresh)"

definition server_inv :: "server_state \<Rightarrow> bool" where
  "server_inv st \<longleftrightarrow> (\<forall>pool. pool_ok (ss_fresh st) (ss_pools st pool)) \<and>
     distinct (ss_clients st) \<and> (\<forall>p \<in> set (ss_clients st). ss_conns st p \<noteq> None \<and> p < ss_fresh st)"

text \<open>The connection is in the queue, and not blocked.\<close>

definition scheduled :: "queue \<Rightarrow> ptr \<Rightarrow> bool" where
  "scheduled q p \<longleftrightarrow>
     (\<exists>as ts a. queue_rep q as ts \<and> a \<in> set as \<and> holds q p a \<and> \<not> qi_blocked (item_at q a))"

lemma pool_ok_mono: "pool_ok n q \<Longrightarrow> n \<le> m \<Longrightarrow> pool_ok m q"
  by (auto simp: pool_ok_def dest: order_less_le_trans)

lemma server_inv_pool: "server_inv st \<Longrightarrow> pool_ok (ss_fresh st) (ss_pools st pool)"
  by (simp add: server_inv_def)

lemma enqueue_run:
  assumes "server_inv st"
  shows "\<exists>st'. enqueue pool name p st = Inr st' \<and> server_inv st' \<and> scheduled (ss_pools st' pool) p \<and>
    (\<forall>other. other \<noteq> pool \<longrightarrow> ss_pools st' other = ss_pools st other) \<and>
    ss_clients st' = ss_clients st \<and> ss_conns st' = ss_conns st"
proof -
  let ?q = "ss_pools st pool" and ?a = "ss_fresh st"
  from server_inv_pool [OF assms, of pool] obtain as ts where rep: "queue_rep ?q as ts"
    and fresh: "\<And>a. q_items ?q a \<noteq> None \<Longrightarrow> a < ?a" by (auto simp: pool_ok_def)
  have none: "q_items ?q ?a = None" using fresh [of ?a] by (cases "q_items ?q ?a") auto
  then have new: "?a \<notin> set as" using rep by (auto simp: queue_rep_def)
  obtain q1 n where q1: "queue_item_new2 (ss_item_id st) ?a name p ?q = (q1, n)" by fastforce
  let ?it = "\<lparr>qi_id = ss_item_id st, qi_tag = take 15 name, qi_blocked = False, qi_data = Some p\<rparr>"
  have r1: "queue_rep q1 as ts" "q_items q1 = (q_items ?q)(?a \<mapsto> ?it)"
    using queue_rep_item_new [OF rep none, of "ss_item_id st" name p] by (simp_all add: q1)
  have "q_items q1 ?a \<noteq> None" using r1(2) by simp
  from queue_add_rep [OF r1(1) new this] obtain q2 where
    q2: "queue_add q1 ?a = Inr (q2, True, 0)" "queue_rep q2 (as @ [?a]) ts" "q_items q2 = q_items q1"
    using r1(2) by auto
  let ?st = "st\<lparr>ss_pools := (ss_pools st)(pool := q2), ss_item_id := n, ss_fresh := Suc ?a\<rparr>"
  have run: "enqueue pool name p st = Inr ?st" by (simp add: enqueue_def q1 q2(1))
  have "pool_ok (Suc ?a) q2"
    using q2 r1(2) fresh by (auto simp: pool_ok_def less_Suc_eq)
  moreover have "pool_ok (Suc ?a) (ss_pools st other)" for other
    using server_inv_pool [OF assms, of other] pool_ok_mono by fastforce
  ultimately have "server_inv ?st" using assms by (auto simp: server_inv_def)
  moreover have "scheduled q2 p"
    unfolding scheduled_def using q2 r1(2)
    by (intro exI [of _ "as @ [?a]"] exI [of _ ts] exI [of _ ?a]) (simp add: holds_def)
  ultimately show ?thesis using run by (intro exI [of _ ?st]) simp
qed

lemma unblocked_scheduled:
  assumes "queue_rep q as ts" and "a \<in> set as" and "holds q p a"
  shows "scheduled (q\<lparr>q_items := unblocked_items q p as\<rparr>) p"
proof -
  let ?q = "q\<lparr>q_items := unblocked_items q p as\<rparr>"
  from assms obtain it where it: "q_items q a = Some it" by (auto simp: queue_rep_def)
  have "queue_rep ?q as ts" using queue_unblock_byptr_rep [OF assms(1)] by blast
  moreover have "q_items ?q a = Some (it\<lparr>qi_blocked := False\<rparr>)"
    using assms(2,3) it by (simp add: unblocked_items_def)
  moreover from this have "holds ?q p a" using assms(3) it by (simp add: holds_def)
  ultimately show ?thesis
    unfolding scheduled_def using assms(2) by (intro exI [of _ as] exI [of _ ts] exI [of _ a]) simp
qed

text \<open>The two cases of \<open>queue_unblock_byptr\<close>: an item for the connection, or none.\<close>

definition waits_in :: "queue \<Rightarrow> ptr \<Rightarrow> bool" where
  "waits_in q p \<longleftrightarrow> (\<exists>as ts a. queue_rep q as ts \<and> a \<in> set as \<and> holds q p a)"

lemma unblock_or_add_run:
  assumes "server_inv st"
  shows "\<exists>st'. unblock_or_add a b name p st = Some (Inr st') \<and> server_inv st' \<and>
    scheduled (ss_pools st' (if waits_in (ss_pools st a) p then a else b)) p \<and>
    (waits_in (ss_pools st a) p \<longrightarrow> (\<forall>other. other \<noteq> a \<longrightarrow> ss_pools st' other = ss_pools st other)) \<and>
    ss_clients st' = ss_clients st \<and> ss_conns st' = ss_conns st"
proof -
  let ?q = "ss_pools st a"
  from server_inv_pool [OF assms, of a] obtain as ts where rep: "queue_rep ?q as ts"
    and fresh: "\<And>x. q_items ?q x \<noteq> None \<Longrightarrow> x < ss_fresh st" by (auto simp: pool_ok_def)
  let ?q1 = "?q\<lparr>q_items := unblocked_items ?q p as\<rparr>" and ?n = "length (filter (holds ?q p) as)"
  let ?st = "st\<lparr>ss_pools := (ss_pools st)(a := ?q1)\<rparr>"
  have un: "queue_unblock_byptr ?q p = Some (Inr (?q1, ?n))" and rep1: "queue_rep ?q1 as ts"
    using queue_unblock_byptr_rep [OF rep] by blast+
  have "pool_ok (ss_fresh st) ?q1"
    using rep1 fresh by (auto simp: pool_ok_def unblocked_items_def split: if_splits)
  then have inv: "server_inv ?st" using assms by (auto simp: server_inv_def)
  have w: "waits_in ?q p \<longleftrightarrow> (\<exists>x \<in> set as. holds ?q p x)"
  proof
    assume "waits_in ?q p"
    then obtain as' ts' x where x: "queue_rep ?q as' ts'" "x \<in> set as'" "holds ?q p x" by (auto simp: waits_in_def)
    have "as' = as" using x(1) rep by (auto simp: queue_rep_def dest: dlist_nexts llist_unique)
    with x show "\<exists>x \<in> set as. holds ?q p x" by blast
  qed (use rep in \<open>auto simp: waits_in_def\<close>)
  show ?thesis
  proof (cases "waits_in ?q p")
    case True
    with w obtain x where x: "x \<in> set as" "holds ?q p x" by blast
    then have "?n \<noteq> 0" by (auto simp: filter_empty_conv)
    then have "unblock_or_add a b name p st = Some (Inr ?st)" by (simp add: unblock_or_add_def un Let_def)
    with inv True unblocked_scheduled [OF rep x] show ?thesis by (intro exI [of _ ?st]) simp
  next
    case False
    with w have "?n = 0" by (simp add: filter_empty_conv)
    then have "unblock_or_add a b name p st = Some (enqueue b name p ?st)"
      by (simp add: unblock_or_add_def un Let_def)
    with enqueue_run [OF inv, of b name p] False show ?thesis by auto
  qed
qed

section \<open>Events keep the invariant\<close>

lemma new_connection_delete:
  "server_connection_delete ((fst (server_connection_new n skt))\<lparr>c_skt := s\<rparr>) = Some (Inr ())"
  by (simp add: server_connection_delete_def server_connection_new_def server_parse_status_delete_def
      server_parse_status_new_def data_buffer_list_delete_def list_delete_loop.simps data_buffer_list_new_def)

lemma accept_one_run:
  assumes "server_inv st" and "0 < fd"
  shows "\<exists>st'. accept_one fd registered st = Some (Inr st') \<and> server_inv st' \<and>
    ss_clients st' = (if registered then ss_clients st @ [ss_fresh st] else ss_clients st) \<and>
    (registered \<longrightarrow> scheduled (ss_pools st' POOL_READ) (ss_fresh st))"
proof -
  let ?a = "ss_fresh st"
  obtain skt sid where skt: "skt_new (ss_skt_id st) fd = Inr (skt, sid)"
    using assms(2) by (simp add: skt_new_def skt_nextid_def)
  obtain client cid where client: "server_connection_new (ss_conn_id st) skt = (client, cid)" by fastforce
  let ?st = "st\<lparr>ss_skt_id := sid, ss_conn_id := cid, ss_fresh := Suc ?a\<rparr>"
  have pools: "\<forall>pool. pool_ok (Suc ?a) (ss_pools st pool)"
    by (intro allI pool_ok_mono [OF server_inv_pool [OF assms(1)]]) simp
  have fresh: "?a \<notin> set (ss_clients st)" using assms(1) by (auto simp: server_inv_def)
  show ?thesis
  proof (cases registered)
    case False
    have "server_inv ?st" using assms(1) pools by (auto simp: server_inv_def)
    moreover have "accept_one fd registered st = Some (Inr ?st)"
      using False new_connection_delete [where n = "ss_conn_id st" and skt = skt] client
      by (simp add: accept_one_def skt Let_def)
    ultimately show ?thesis using False by simp
  next
    case True
    let ?st1 = "?st\<lparr>ss_clients := ss_clients st @ [?a], ss_conns := (ss_conns st)(?a \<mapsto> client)\<rparr>"
    have "server_inv ?st1" using assms(1) pools fresh by (auto simp: server_inv_def)
    from enqueue_run [OF this, of POOL_READ "''READ''" ?a] True show ?thesis
      by (auto simp: accept_one_def skt client Let_def)
  qed
qed

lemma accept_all_run:
  "server_inv st \<Longrightarrow> \<forall>(fd, r) \<in> set fds. 0 < fd \<Longrightarrow>
   \<exists>st'. accept_all fds st = Some (Inr st') \<and> server_inv st' \<and>
     length (ss_clients st') = length (ss_clients st) + length (filter snd fds) \<and>
     set (ss_clients st) \<subseteq> set (ss_clients st')"
proof (induction fds arbitrary: st)
  case Nil
  then show ?case by simp
next
  case (Cons x fds)
  obtain fd r where x: "x = (fd, r)" by (cases x)
  from Cons.prems x have "0 < fd" by simp
  from accept_one_run [OF Cons.prems(1) this, of r] obtain st1 where
    1: "accept_one fd r st = Some (Inr st1)" "server_inv st1"
      "ss_clients st1 = (if r then ss_clients st @ [ss_fresh st] else ss_clients st)" by blast
  from Cons.IH [OF 1(2)] Cons.prems(2) obtain st2 where
    "accept_all fds st1 = Some (Inr st2)" "server_inv st2"
    "length (ss_clients st2) = length (ss_clients st1) + length (filter snd fds)"
    "set (ss_clients st1) \<subseteq> set (ss_clients st2)" by auto
  with 1 x show ?case by (auto split: if_splits)
qed

lemma close_client_run:
  assumes "server_inv st" and "p \<in> set (ss_clients st)"
  shows "\<exists>st' c. close_client p st = Inr st' \<and> server_inv st' \<and> ss_conns st' p = Some c \<and> skt_closed (c_skt c) \<and>
    ss_clients st' = ss_clients st \<and> ss_pools st' = ss_pools st"
proof -
  from assms obtain c where "ss_conns st p = Some c" by (auto simp: server_inv_def)
  with assms show ?thesis by (auto simp: close_client_def server_inv_def)
qed

text \<open>The events the kernel can give: those of a registered connection or of the listener.\<close>

definition possible_event :: "server_state \<Rightarrow> epoll_event \<Rightarrow> bool" where
  "possible_event st ev =
     (case ev_data ev of
        Listener fds \<Rightarrow> (\<forall>(fd, r) \<in> set fds. 0 < fd) \<and> \<not> ev_rdhup ev \<and> (ev_out ev \<longrightarrow> ev_in ev)
      | Client p \<Rightarrow> p \<in> set (ss_clients st))"

lemma handle_event_run:
  assumes "server_inv st" and "possible_event st ev"
  shows "\<exists>stop st'. handle_event ev st = Some (Inr (stop, st')) \<and> server_inv st' \<and>
    set (ss_clients st) \<subseteq> set (ss_clients st')"
proof (cases "ev_data ev")
  case (Listener fds)
  have "server_inv (st\<lparr>ss_shutdown_requested := True\<rparr>)" using assms(1) by (simp add: server_inv_def)
  with Listener assms accept_all_run [OF assms(1), of fds] show ?thesis
    by (auto simp: handle_event_def possible_event_def Let_def)
next
  case (Client p)
  with assms(2) have p: "p \<in> set (ss_clients st)" by (simp add: possible_event_def)
  from close_client_run [OF assms(1) p] obtain st1 where
    1: "close_client p st = Inr st1" "server_inv st1" "ss_clients st1 = ss_clients st" by blast
  from unblock_or_add_run [OF assms(1), of POOL_READ POOL_READ "''READ''" p] obtain st2 where
    2: "unblock_or_add POOL_READ POOL_READ ''READ'' p st = Some (Inr st2)" "server_inv st2" "ss_clients st2 = ss_clients st"
    by blast
  from unblock_or_add_run [OF assms(1), of POOL_READ POOL_WRITE "''WRITE''" p] obtain st3 where
    3: "unblock_or_add POOL_READ POOL_WRITE ''WRITE'' p st = Some (Inr st3)" "server_inv st3" "ss_clients st3 = ss_clients st"
    by blast
  show ?thesis using Client p 1 2 3 by (intro exI [of _ False]) (simp add: handle_event_def Let_def)
qed

lemma handle_events_run:
  "server_inv st \<Longrightarrow> \<forall>ev \<in> set evs. possible_event st ev \<Longrightarrow>
   \<exists>st'. handle_events evs st = Some (Inr st') \<and> server_inv st'"
proof (induction evs arbitrary: st)
  case Nil
  then show ?case by simp
next
  case (Cons ev evs)
  from handle_event_run [OF Cons.prems(1), of ev] Cons.prems(2) obtain stop st1 where
    1: "handle_event ev st = Some (Inr (stop, st1))" "server_inv st1" "set (ss_clients st) \<subseteq> set (ss_clients st1)"
    by auto
  have "possible_event st1 e" if "e \<in> set evs" for e
    using Cons.prems(2) 1(3) that by (force simp: possible_event_def split: ev_data.splits)
  with Cons.IH [OF 1(2)] 1 show ?case by auto
qed

section \<open>Cleaning up takes the connection off every queue\<close>

lemma remove_from_run:
  assumes "server_inv st"
  shows "\<exists>st'. remove_from p pool st = Some (Inr st') \<and> server_inv st' \<and> \<not> waits_in (ss_pools st' pool) p \<and>
    (\<forall>other. other \<noteq> pool \<longrightarrow> ss_pools st' other = ss_pools st other) \<and>
    ss_clients st' = ss_clients st \<and> ss_conns st' = ss_conns st"
proof -
  let ?q = "ss_pools st pool"
  from server_inv_pool [OF assms, of pool] obtain as ts where rep: "queue_rep ?q as ts"
    and fresh: "\<And>x. q_items ?q x \<noteq> None \<Longrightarrow> x < ss_fresh st" by (auto simp: pool_ok_def)
  from queue_remove_byptr_rep [OF rep, of p] obtain q1 where
    q1: "queue_remove_byptr ?q p = Some (Inr (q1, length (filter (holds ?q p) as)))"
      "queue_rep q1 (filter (\<lambda>a. \<not> holds ?q p a) as) ts"
      "q_items q1 = (\<lambda>a. if a \<in> set as \<and> holds ?q p a then None else q_items ?q a)" by blast
  let ?st = "st\<lparr>ss_pools := (ss_pools st)(pool := q1)\<rparr>"
  have run: "remove_from p pool st = Some (Inr ?st)" by (simp add: remove_from_def q1(1))
  have "pool_ok (ss_fresh st) q1"
    using q1(2,3) fresh by (auto simp: pool_ok_def split: if_splits)
  then have inv: "server_inv ?st" using assms by (auto simp: server_inv_def)
  have "\<not> waits_in q1 p"
  proof
    assume "waits_in q1 p"
    then obtain as' ts' x where x: "queue_rep q1 as' ts'" "x \<in> set as'" "holds q1 p x" by (auto simp: waits_in_def)
    have "as' = filter (\<lambda>a. \<not> holds ?q p a) as"
      using x(1) q1(2) by (auto simp: queue_rep_def dest: dlist_nexts llist_unique)
    with x(2,3) q1(3) show False by (auto simp: holds_def)
  qed
  with run inv show ?thesis by (intro exI [of _ ?st]) simp
qed

lemma remove_from_all_run:
  assumes "server_inv st"
  shows "\<exists>st'. remove_from_all all_pools p st = Some (Inr st') \<and> server_inv st' \<and>
    (\<forall>pool. \<not> waits_in (ss_pools st' pool) p) \<and> ss_clients st' = ss_clients st \<and> ss_conns st' = ss_conns st"
proof -
  from remove_from_run [OF assms, of p POOL_READ] obtain s1 where
    1: "remove_from p POOL_READ st = Some (Inr s1)" "server_inv s1" "\<not> waits_in (ss_pools s1 POOL_READ) p"
      "ss_clients s1 = ss_clients st" "ss_conns s1 = ss_conns st" by blast
  from remove_from_run [OF 1(2), of p POOL_WRITE] obtain s2 where
    2: "remove_from p POOL_WRITE s1 = Some (Inr s2)" "server_inv s2" "\<not> waits_in (ss_pools s2 POOL_WRITE) p"
      "\<forall>other. other \<noteq> POOL_WRITE \<longrightarrow> ss_pools s2 other = ss_pools s1 other"
      "ss_clients s2 = ss_clients s1" "ss_conns s2 = ss_conns s1" by blast
  from remove_from_run [OF 2(2), of p POOL_WORKER] obtain s3 where
    3: "remove_from p POOL_WORKER s2 = Some (Inr s3)" "server_inv s3" "\<not> waits_in (ss_pools s3 POOL_WORKER) p"
      "\<forall>other. other \<noteq> POOL_WORKER \<longrightarrow> ss_pools s3 other = ss_pools s2 other"
      "ss_clients s3 = ss_clients s2" "ss_conns s3 = ss_conns s2" by blast
  have "\<not> waits_in (ss_pools s3 pool) p" for pool
    using 1(3) 2(3,4) 3(3,4) by (cases pool) simp_all
  with 1 2 3 show ?thesis by (intro exI [of _ s3]) (simp add: all_pools_def)
qed

section \<open>Properties\<close>

lemma handle_in:
  "\<not> ev_err ev \<Longrightarrow> \<not> ev_rdhup ev \<Longrightarrow> ev_in ev \<Longrightarrow> ev_data ev = Client p \<Longrightarrow> p \<in> set (ss_clients st) \<Longrightarrow>
   unblock_or_add POOL_READ POOL_READ ''READ'' p st = Some (Inr st') \<Longrightarrow> handle_event ev st = Some (Inr (False, st'))"
  by (simp add: handle_event_def Let_def)

lemma handle_out:
  "\<not> ev_err ev \<Longrightarrow> \<not> ev_rdhup ev \<Longrightarrow> \<not> ev_in ev \<Longrightarrow> ev_out ev \<Longrightarrow> ev_data ev = Client p \<Longrightarrow>
   p \<in> set (ss_clients st) \<Longrightarrow>
   unblock_or_add POOL_READ POOL_WRITE ''WRITE'' p st = Some (Inr st') \<Longrightarrow> handle_event ev st = Some (Inr (False, st'))"
  by (simp add: handle_event_def Let_def)

definition empty_server :: server_state where
  "empty_server = \<lparr>ss_started = True, ss_stopped = False, ss_shutdown_requested = False,
     ss_pools = (\<lambda>_. queue_new), ss_clients = [], ss_conns = (\<lambda>_. None), ss_item_id = 1, ss_conn_id = 1,
     ss_skt_id = 1, ss_fresh = 1\<rparr>"

lemma empty_server_inv: "server_inv empty_server"
proof -
  have "pool_ok 1 queue_new" using queue_rep_new by (auto simp: pool_ok_def queue_new_def)
  then show ?thesis by (simp add: server_inv_def empty_server_def)
qed

lemma one_client_server:
  "\<exists>st. server_inv st \<and> ss_clients st = [1] \<and> waits_in (ss_pools st POOL_READ) 1"
proof -
  from accept_one_run [OF empty_server_inv, of 7 True] obtain st where
    "server_inv st" "ss_clients st = [1]" "scheduled (ss_pools st POOL_READ) 1"
    by (auto simp: empty_server_def)
  then show ?thesis by (auto simp: scheduled_def waits_in_def)
qed

definition event :: "bool \<Rightarrow> bool \<Rightarrow> ev_data \<Rightarrow> epoll_event" where
  "event i out d = \<lparr>ev_in = i, ev_out = out, ev_rdhup = False, ev_err = False, ev_data = d\<rparr>"

text \<open>
  C12: the events of a turn, whatever they are and whatever \<open>accept4\<close> answers, run without a
  fault, a failed assertion or an endless walk, and keep the invariant of the server: every
  queue well formed, the clients distinct and allocated.
\<close>

theorem events_keep_invariant:
  assumes "server_inv st" and "\<forall>ev \<in> set evs. possible_event st ev"
  shows "\<exists>st'. handle_events evs st = Some (Inr st') \<and> server_inv st'"
  using assms by (rule handle_events_run)

theorem events_keep_invariant_witness:
  "\<exists>st'. handle_events [event True False (Listener [(7, True), (8, True)])] empty_server = Some (Inr st') \<and> server_inv st'"
proof -
  have "\<forall>ev \<in> set [event True False (Listener [(7, True), (8, True)])]. possible_event empty_server ev"
    by (simp add: possible_event_def event_def)
  with empty_server_inv show ?thesis by (rule events_keep_invariant)
qed

text \<open>
  C29: in a server whose queues are well formed and whose clients are allocated (what every
  event keeps), an event that says there are bytes on a connection of its clients, and neither an error nor that the
  client has ended its side, leaves the read pool with an item for the connection that is not
  blocked, whether its item was blocked, was waiting, was being processed or had gone. With
  \<open>EPOLLERR\<close> or \<open>EPOLLRDHUP\<close> in the same event (a client that sends its request and shuts its
  side down) the socket is closed instead and no queue is touched: the bytes are not read.
\<close>

theorem readable_is_scheduled:
  assumes "server_inv st" and "p \<in> set (ss_clients st)" and "ev_data ev = Client p" and "ev_in ev"
  shows "\<exists>st'. handle_event ev st = Some (Inr (False, st')) \<and> server_inv st' \<and>
    (if ev_err ev \<or> ev_rdhup ev
     then ss_pools st' = ss_pools st \<and> (\<exists>c. ss_conns st' p = Some c \<and> skt_closed (c_skt c))
     else scheduled (ss_pools st' POOL_READ) p)"
proof (cases "ev_err ev \<or> ev_rdhup ev")
  case True
  from close_client_run [OF assms(1,2)] obtain st' c where
    "close_client p st = Inr st'" "server_inv st'" "ss_conns st' p = Some c" "skt_closed (c_skt c)"
    "ss_pools st' = ss_pools st" by blast
  with True assms(3) show ?thesis by (intro exI [of _ st']) (auto simp: handle_event_def Let_def)
next
  case False
  from unblock_or_add_run [OF assms(1), of POOL_READ POOL_READ "''READ''" p] obtain st' where
    u: "unblock_or_add POOL_READ POOL_READ ''READ'' p st = Some (Inr st')" "server_inv st'"
    "scheduled (ss_pools st' POOL_READ) p" by auto
  from False have quiet: "\<not> ev_err ev" "\<not> ev_rdhup ev" by simp_all
  from handle_in [OF quiet assms(4,3,2) u(1)] u(2,3) False show ?thesis by simp
qed

definition half_closed :: "ptr \<Rightarrow> epoll_event" where
  "half_closed p = (event True False (Client p))\<lparr>ev_rdhup := True\<rparr>"

theorem readable_is_scheduled_witness:
  "\<exists>st st1 st2. ss_clients st = [1] \<and>
    handle_event (event True False (Client 1)) st = Some (Inr (False, st1)) \<and> scheduled (ss_pools st1 POOL_READ) 1 \<and>
    handle_event (half_closed 1) st = Some (Inr (False, st2)) \<and> ss_pools st2 = ss_pools st"
proof -
  obtain st where st: "server_inv st" "ss_clients st = [1]" using one_client_server by blast
  then have "1 \<in> set (ss_clients st)" by simp
  from readable_is_scheduled [OF st(1) this, of "event True False (Client 1)"]
    readable_is_scheduled [OF st(1) this, of "half_closed 1"] st show ?thesis
    by (auto simp: event_def half_closed_def)
qed

text \<open>
  When a connection can be written again, the queue of the write pool is left as it is
  if the queue of the read pool has an item for the connection: an item that a full socket
  left blocked on the write queue stays blocked. Only without an item for it on the read
  queue does the write pool get one.
\<close>

theorem writable_looks_at_read_queue:
  assumes "server_inv st" and "p \<in> set (ss_clients st)"
    and "ev_data ev = Client p" and "ev_out ev" and "\<not> ev_in ev" and "\<not> ev_err ev" and "\<not> ev_rdhup ev"
  shows "\<exists>st'. handle_event ev st = Some (Inr (False, st')) \<and> server_inv st' \<and>
    (if waits_in (ss_pools st POOL_READ) p then ss_pools st' POOL_WRITE = ss_pools st POOL_WRITE
     else scheduled (ss_pools st' POOL_WRITE) p)"
proof -
  from unblock_or_add_run [OF assms(1), of POOL_READ POOL_WRITE "''WRITE''" p] obtain st' where
    u: "unblock_or_add POOL_READ POOL_WRITE ''WRITE'' p st = Some (Inr st')" "server_inv st'"
    and s: "scheduled (ss_pools st' (if waits_in (ss_pools st POOL_READ) p then POOL_READ else POOL_WRITE)) p"
    "waits_in (ss_pools st POOL_READ) p \<longrightarrow> (\<forall>other. other \<noteq> POOL_READ \<longrightarrow> ss_pools st' other = ss_pools st other)"
    by blast
  from handle_out [OF assms(6,7,5,4,3,2) u(1)] u(2) s show ?thesis by (auto split: if_splits)
qed

theorem writable_looks_at_read_queue_witness:
  "\<exists>st st'. waits_in (ss_pools st POOL_READ) 1 \<and>
    handle_event (event False True (Client 1)) st = Some (Inr (False, st')) \<and>
    ss_pools st' POOL_WRITE = ss_pools st POOL_WRITE"
proof -
  obtain st where st: "server_inv st" "ss_clients st = [1]" "waits_in (ss_pools st POOL_READ) 1"
    using one_client_server by blast
  then have "1 \<in> set (ss_clients st)" by simp
  from writable_looks_at_read_queue [OF st(1) this, of "event False True (Client 1)"] st(3) show ?thesis
    by (auto simp: event_def)
qed

text \<open>
  Before a closed connection is freed, no queue has an item for it any more, and then it
  is no client and no allocated connection.
\<close>

theorem cleanup_unqueues:
  assumes "server_inv st" and "p \<in> set (ss_clients st)" and "ss_conns st p = Some c"
    and "skt_closed (c_skt c)" and "\<forall>pool. queue_pending_waitptr p (seen pool) \<noteq> None"
    and "server_connection_delete (if skt_error (c_skt c) then c\<lparr>c_skt := skt_close (c_skt c)\<rparr> else c) = Some (Inr ())"
  shows "\<exists>st1 st'. remove_from_all all_pools p
      (st\<lparr>ss_conns := (ss_conns st)(p \<mapsto> if skt_error (c_skt c) then c\<lparr>c_skt := skt_close (c_skt c)\<rparr> else c)\<rparr>) =
      Some (Inr st1) \<and>
    (\<forall>pool. \<not> waits_in (ss_pools st1 pool) p) \<and>
    cleanup_client seen after p st = Some (Inr st') \<and> p \<notin> set (ss_clients st') \<and> ss_conns st' p = None"
proof -
  let ?c = "if skt_error (c_skt c) then c\<lparr>c_skt := skt_close (c_skt c)\<rparr> else c"
  let ?st = "st\<lparr>ss_conns := (ss_conns st)(p \<mapsto> ?c)\<rparr>"
  have "server_inv ?st" using assms(1) by (auto simp: server_inv_def)
  from remove_from_all_run [OF this, of p] obtain st1 where
    r: "remove_from_all all_pools p ?st = Some (Inr st1)" "server_inv st1" "\<forall>pool. \<not> waits_in (ss_pools st1 pool) p"
      "ss_clients st1 = ss_clients st" by auto
  have closed: "skt_closed (c_skt ?c)" using assms(4) by simp
  have waits: "\<not> (\<exists>pool \<in> set all_pools. queue_pending_waitptr p (seen pool) = None)" using assms(5) by simp
  let ?st2 = "st1\<lparr>ss_pools := after, ss_clients := remove1 p (ss_clients st1), ss_conns := (ss_conns st1)(p := None)\<rparr>"
  have "cleanup_client seen after p st = Some (Inr ?st2)"
  proof -
    obtain d where d: "d = ?c" by simp
    have "cleanup_client seen after p st =
        (if \<not> skt_closed (c_skt d) then Some (Inr (st\<lparr>ss_conns := (ss_conns st)(p \<mapsto> d)\<rparr>))
         else do { r \<leftarrow> remove_from_all all_pools p (st\<lparr>ss_conns := (ss_conns st)(p \<mapsto> d)\<rparr>);
                 case r of
                   Inl e \<Rightarrow> Some (Inl e)
                 | Inr st \<Rightarrow>
                     if \<exists>pool \<in> set all_pools. queue_pending_waitptr p (seen pool) = None then None
                     else
                       do { x \<leftarrow> server_connection_delete d;
                            Some (bind_res x (\<lambda>_. Inr (st\<lparr>ss_pools := after,
                              ss_clients := remove1 p (ss_clients st),
                              ss_conns := (ss_conns st)(p := None)\<rparr>))) } })"
      unfolding cleanup_client_def assms(3) d option.case Let_def ..
    with closed r(1) waits assms(6) show ?thesis unfolding d [symmetric] by simp
  qed
  moreover have "p \<notin> set (remove1 p (ss_clients st1))" using assms(1) r(4) by (simp add: server_inv_def)
  ultimately show ?thesis using r(1,3) by (intro exI [of _ st1] exI [of _ ?st2]) simp
qed

definition closed_conn :: server_connection where
  "closed_conn = fst (server_connection_new 1 \<lparr>skt_id = 1, skt_fd = 7, skt_closed = True, skt_error = False\<rparr>)"

theorem cleanup_unqueues_witness:
  "\<exists>st'. cleanup_client (\<lambda>_. [queue_new]) (\<lambda>_. queue_new) 1
      (empty_server\<lparr>ss_clients := [1], ss_conns := [1 \<mapsto> closed_conn], ss_fresh := 2\<rparr>) = Some (Inr st') \<and>
    1 \<notin> set (ss_clients st') \<and> ss_conns st' 1 = None"
proof -
  let ?st = "empty_server\<lparr>ss_clients := [1], ss_conns := [1 \<mapsto> closed_conn], ss_fresh := 2\<rparr>"
  have "pool_ok 2 queue_new" using queue_rep_new by (auto simp: pool_ok_def queue_new_def)
  then have inv: "server_inv ?st" by (simp add: server_inv_def empty_server_def)
  have wait: "queue_pending_waitptr 1 [queue_new] = Some []"
    by (simp add: find_token.simps queue_new_def)
  have del: "server_connection_delete closed_conn = Some (Inr ())"
    unfolding closed_conn_def
    by (simp add: server_connection_delete_def server_connection_new_def server_parse_status_delete_def
      server_parse_status_new_def data_buffer_list_delete_def list_delete_loop.simps data_buffer_list_new_def)
  have cl: "skt_closed (c_skt closed_conn)" "\<not> skt_error (c_skt closed_conn)"
    by (simp_all add: closed_conn_def server_connection_new_def)
  from cleanup_unqueues [OF inv, of 1 closed_conn "\<lambda>_. [queue_new]"] wait del cl show ?thesis by fastforce
qed

end
