(* ===== verification/Server_Loop_Read.thy ===== *)
theory Server_Loop_Read
  imports Server_Connection
begin

text \<open>
  \<open>src/server-loop-read.c\<close> and \<open>src/server-loop-worker.c\<close>: what a thread of the read pool
  and of the worker pool does with one item of its queue. The result of a read item says
  whether the item was left blocked; \<open>queue_return_item\<close> gets the negation.

  The condition \<open>if (error = true)\<close> at the end of the loop of the read thread is an
  assignment, so that the branch is always taken: an item is one \<open>read\<close>, and every
  \<open>read\<close> that got bytes ends with the connection in the queue of the write pool.
\<close>

section \<open>Reading\<close>

definition READ_BUFFER_LEN :: nat where
  "READ_BUFFER_LEN = 16 * 1024"

text \<open>A built-in page with \<open>Connection: Close\<close> is appended to the responses.\<close>

definition reply_closing ::
  "server_env \<Rightarrow> 16 word \<Rightarrow> string \<Rightarrow> server_connection \<Rightarrow> server_connection res" where
  "reply_closing env code message c =
     bind_res (http_response_create_builtin (se_files env) code (Some message)) (\<lambda>r.
     bind_res (http_header_list_add (rs_headers r) (http_header_new HEADER_CONNECTION (Some ''Close'')) False) (\<lambda>l.
       Inr (add_response (r\<lparr>rs_headers := l\<rparr>) c)))"

text \<open>\<open>LL_APPEND(conn->pending_requests, current_request)\<close> and the reset of the parser.\<close>

definition queue_request :: "server_connection \<Rightarrow> server_connection res" where
  "queue_request c =
     (case sp_current_request (c_status c) of
        None \<Rightarrow> Inl Null_deref
      | Some r \<Rightarrow>
          (case server_parser_status_reset (c_status c) of
             (st, pr) \<Rightarrow> Inr (CONN_ENQUEUE POOL_WORKER ''REQ''
               (c\<lparr>c_requests := c_requests c @ [r], c_status := st, c_parser := pr\<rparr>))))"

definition wants_continue :: "server_parse_status \<Rightarrow> bool" where
  "wants_continue st =
     (case sp_current_request st of
        None \<Rightarrow> False
      | Some r \<Rightarrow> (case rq_line r of None \<Rightarrow> False | Some l \<Rightarrow> rl_version l = HTTP11))"

text \<open>The bytes of one read.\<close>

definition read_bytes :: "server_env \<Rightarrow> string \<Rightarrow> server_connection \<Rightarrow> server_connection res" where
  "read_bytes env bs c =
     bind_res (http_parser_execute parser_get_settings bs (c_parser c) (c_status c)) (\<lambda>(parsed, pr, st).
     bind_res
       (let c = c\<lparr>c_parser := pr, c_status := st\<rparr> in
        if p_upgrade pr then reply_closing env 501 ''Protocol upgrade is not supported'' c
        else if parsed \<noteq> length bs \<or> p_errno pr \<noteq> HPE_OK
        then reply_closing env 400 (http_errno_description (p_errno pr)) c
        else if sp_request_complete st then queue_request c
        else if wants_continue st
        then Inr (CONN_ENQUEUE POOL_WRITE ''RESP''
          (add_response (http_response_new (http_response_line_new 100)) c))
        else Inr c)
       (\<lambda>c. Inr (CONN_ENQUEUE POOL_WRITE ''RESP'' c)))"

definition read_item ::
  "server_env \<Rightarrow> read_outcome \<Rightarrow> server_connection \<Rightarrow> (bool \<times> server_connection) res" where
  "read_item env r c =
     (case sys_read r READ_BUFFER_LEN of
        Read_fails e \<Rightarrow>
          if e = EAGAIN \<or> e = EWOULDBLOCK then Inr (True, c)
          else Inr (False, c\<lparr>c_skt := (c_skt c)\<lparr>skt_error := True\<rparr>\<rparr>)
      | Read_bytes bs \<Rightarrow>
          if bs = [] then Inr (False, c)
          else bind_res (read_bytes env bs c) (\<lambda>c. Inr (False, c)))"

section \<open>Working\<close>

text \<open>
  Every pending request is answered in order. \<open>server_process_request\<close> returns no null
  pointer, so the page for that case is not reached.
\<close>

fun work_requests ::
  "server_env \<Rightarrow> config_server \<Rightarrow> http_request list \<Rightarrow> server_connection \<Rightarrow> server_connection res" where
  "work_requests env conf [] c = Inr c"
| "work_requests env conf (request # rest) c =
     bind_res (server_process_request env conf request) (\<lambda>resp.
     bind_res (http_request_delete request) (\<lambda>_.
       work_requests env conf rest
         (CONN_ENQUEUE POOL_WRITE ''RESP'' (add_response resp (c\<lparr>c_requests := rest\<rparr>)))))"

definition worker_item :: "server_env \<Rightarrow> config_server \<Rightarrow> server_connection \<Rightarrow> server_connection res" where
  "worker_item env conf c = work_requests env conf (c_requests c) c"

end
