(* ===== verification/Server_Loop_Write.thy ===== *)
theory Server_Loop_Write
  imports Server_Connection
begin

text \<open>
  \<open>src/server-loop-write.c\<close>: what a thread of the write pool does with one item of its
  queue. First the bytes left over from before, then the responses in order: the text of
  the line and the headers goes through the buffers of the connection, the body from where
  it is to the descriptor. The loop looks at the same response again as long as the buffers
  are not empty, so it may not end: \<open>None\<close>.

  The second half is about a descriptor that takes all it is given: the item sends what
  was left over and every response, up to the first that closes the connection.
\<close>

section \<open>The handler\<close>

text \<open>\<open>if (pending_writes->first != NULL) { errno = 0; ... }\<close>, twice in the file.\<close>

definition flush_writes ::
  "server_connection \<Rightarrow> bool \<Rightarrow> fd_world \<Rightarrow> (server_connection \<times> bool \<times> fd_world) option" where
  "flush_writes c blocked w =
     (if dl_first (snd (c_writes c)) \<noteq> None
      then do { (result, q, w') \<leftarrow> dl_drain (c_writes c) (w\<lparr>errno := ENONE\<rparr>);
                let c = c\<lparr>c_writes := q\<rparr>;
                Some (if result < 0
                      then if errno w' = EAGAIN \<or> errno w' = EWOULDBLOCK then (c, True, w')
                           else (c\<lparr>c_skt := (c_skt c)\<lparr>skt_error := True\<rparr>\<rparr>, blocked, w')
                      else (c, blocked, w')) }
      else Some (c, blocked, w))"

text \<open>
  The body of the response, when its line and headers are out: whether \<open>response\<close> is set
  to null, whether the socket has an error, the response and the descriptor.
\<close>

definition send_body ::
  "http_response \<Rightarrow> fd_world \<Rightarrow> (bool \<times> bool \<times> http_response \<times> fd_world) res option" where
  "send_body r w =
     (if rs_send_status r = SEND_BODY then
        if b_type (rs_body r) = BODY_NONE
        then Some (Inr (False, False, r\<lparr>rs_send_status := SEND_DONE\<rparr>, w))
        else do { x \<leftarrow> http_body_writeto_fd (rs_body r) w;
                  Some (bind_res x (\<lambda>(result, b, w'). Inr
                    (case result of
                       HBWRITE_DONE \<Rightarrow> (False, False, r\<lparr>rs_body := b, rs_send_status := SEND_DONE\<rparr>, w')
                     | HBWRITE_ERROR \<Rightarrow> (False, True, r\<lparr>rs_body := b, rs_send_status := SEND_DONE\<rparr>, w')
                     | HBWRITE_BLOCKED \<Rightarrow> (True, False, r\<lparr>rs_body := b\<rparr>, w')
                     | HBWRITE_MORE \<Rightarrow> (True, False, r\<lparr>rs_body := b\<rparr>, w')))) }
      else Some (Inr (False, False, r, w)))"

text \<open>The text of a response as \<open>strlen\<close> sees it, appended to the buffers.\<close>

definition put_text :: "string option \<Rightarrow> server_connection \<Rightarrow> server_connection res option" where
  "put_text text c =
     (case text of
        None \<Rightarrow> Some (Inr c)
      | Some t \<Rightarrow>
          do { x \<leftarrow> dl_put (c_writes c) (cstr t); Some (bind_res x (\<lambda>q. Inr (c\<lparr>c_writes := q\<rparr>))) })"

text \<open>A response that is done goes; the flag says whether the connection was closed.\<close>

definition finish_response :: "http_response \<Rightarrow> server_connection \<Rightarrow> (bool \<times> server_connection) res" where
  "finish_response r c =
     bind_res (header_is (http_header_list_get (rs_headers r) HEADER_CONNECTION) ''close'') (\<lambda>closed.
     bind_res (http_response_delete r) (\<lambda>_.
       let c = c\<lparr>c_responses := tl (c_responses c)\<rparr> in
       Inr (closed, if closed then c\<lparr>c_skt := skt_close (c_skt c)\<rparr> else c)))"

partial_function (option) write_loop ::
  "string \<Rightarrow> server_connection \<Rightarrow> bool \<Rightarrow> fd_world \<Rightarrow> (bool \<times> server_connection \<times> fd_world) res option"
where
  "write_loop date c blocked w =
     (case c_responses c of
        [] \<Rightarrow> Some (Inr (blocked, c, w))
      | response # rest \<Rightarrow>
          (case http_response_write date response of
             Inl e \<Rightarrow> Some (Inl e)
           | Inr (text, r1) \<Rightarrow>
               do { x \<leftarrow> put_text text (c\<lparr>c_responses := r1 # rest\<rparr>);
                    case x of
                      Inl e \<Rightarrow> Some (Inl e)
                    | Inr c1 \<Rightarrow>
                        do { (c2, blocked2, w2) \<leftarrow> flush_writes c1 blocked w;
                             if \<not> skt_error (c_skt c2) \<and> dl_first (snd (c_writes c2)) = None then
                               do { y \<leftarrow> send_body r1 w2;
                                    case y of
                                      Inl e \<Rightarrow> Some (Inl e)
                                    | Inr (stop, err, r2, w3) \<Rightarrow>
                                        let c3 = c2\<lparr>c_responses := r2 # rest,
                                          c_skt := (c_skt c2)\<lparr>skt_error := skt_error (c_skt c2) \<or> err\<rparr>\<rparr> in
                                        if stop then Some (Inr (blocked2, c3, w3))
                                        else if rs_send_status r2 = SEND_DONE then
                                          (case finish_response r2 c3 of
                                             Inl e \<Rightarrow> Some (Inl e)
                                           | Inr (closed, c4) \<Rightarrow>
                                               if closed then Some (Inr (blocked2, c4, w3))
                                               else write_loop date c4 blocked2 w3)
                                        else write_loop date c3 blocked2 w3 }
                             else write_loop date c2 blocked2 w2 } }))"

definition write_item ::
  "string \<Rightarrow> server_connection \<Rightarrow> fd_world \<Rightarrow> (bool \<times> server_connection \<times> fd_world) res option" where
  "write_item date c w =
     do { (c, blocked, w) \<leftarrow> flush_writes c False w;
          if dl_first (snd (c_writes c)) = None then write_loop date c blocked w
          else Some (Inr (blocked, c, w)) }"

section \<open>A descriptor that takes everything\<close>

definition never_fails :: "fd_world \<Rightarrow> bool" where
  "never_fails w \<longleftrightarrow> (\<forall>k e. outcome w k \<noteq> Fails e)"

definition takes_all :: "fd_world \<Rightarrow> bool" where
  "takes_all w \<longleftrightarrow> makes_progress w \<and> never_fails w"

definition file_reads :: "http_body \<Rightarrow> bool" where
  "file_reads b \<longleftrightarrow> (case b_data b of P_file f \<Rightarrow> (\<forall>i. f_fails f i = None) | _ \<Rightarrow> True)"

lemma takes_all_outcome: "takes_all w \<Longrightarrow> outcome w' = outcome w \<Longrightarrow> takes_all w'"
  by (simp add: takes_all_def makes_progress_def never_fails_def)

lemma takes_all_piece:
  assumes "takes_all w" and "0 < n" and "i + n \<le> length bs"
  shows "\<exists>m. 0 < m \<and> i + m \<le> length bs \<and> sys_write w (take n (drop i bs)) =
      (int m, w\<lparr>calls := Suc (calls w), sent := sent w @ take m (drop i bs)\<rparr>)"
proof -
  have "\<not> (\<exists>e. sys_write w (take n (drop i bs)) = (-1, w\<lparr>calls := Suc (calls w), errno := e\<rparr>))"
  proof (cases "outcome w (calls w)")
    case (Accepts k)
    then show ?thesis by (simp add: sys_write_def Let_def)
  next
    case (Fails e)
    with assms(1) show ?thesis by (simp add: takes_all_def never_fails_def)
  qed
  with sys_write_piece [of w n i bs] assms show ?thesis by (auto simp: takes_all_def)
qed

lemma body_write_all:
  assumes ok: "body_ok b" and lt: "r_offset b < length (body_bytes b)" and w: "takes_all w" and f: "file_reads b"
  shows "\<exists>m. 0 < m \<and> r_offset b + m \<le> length (body_bytes b) \<and>
    body_write b (length (body_bytes b) - r_offset b) w =
      (HBWRITE_MORE, int m, w\<lparr>calls := Suc (calls w), sent := sent w @ take m (drop (r_offset b) (body_bytes b))\<rparr>)"
proof -
  from ok lt have "ptr_fits (b_type b) (b_data b)" by (auto simp: body_ok_def body_bytes_def)
  then show ?thesis
  proof (cases rule: ptr_fits_cases)
    case (open_file fl)
    then have bb: "body_bytes b = f_bytes fl" by (simp add: body_bytes_def)
    with lt have lt': "r_offset b < length (f_bytes fl)" by simp
    have "\<not> (\<exists>e. fill_buffer buffer_len (length (f_bytes fl) - r_offset b) fl (r_offset b) = Fill_error e)"
      using f open_file by (simp add: fill_buffer_def file_reads_def Let_def)
    with fill_buffer_within [OF lt'] obtain n where n: "0 < n" "r_offset b + n \<le> length (f_bytes fl)" and
      fb: "fill_buffer buffer_len (length (f_bytes fl) - r_offset b) fl (r_offset b) =
          Fill_more (take n (drop (r_offset b) (f_bytes fl)))" by blast
    have "take n (drop (r_offset b) (f_bytes fl)) \<noteq> []" using n by auto
    then have "body_write b (length (f_bytes fl) - r_offset b) w =
        (HBWRITE_MORE, sys_write w (take n (drop (r_offset b) (f_bytes fl))))"
      using fb open_file by (simp add: body_write_def)
    with takes_all_piece [OF w n] bb show ?thesis by auto
  next
    case (str s)
    then have bb: "body_bytes b = s" by (simp add: body_bytes_def)
    with takes_all_piece [OF w, of "length s - r_offset b" "r_offset b" s] lt str show ?thesis
      by (auto simp: body_write_def)
  next
    case (map s)
    then have bb: "body_bytes b = s" by (simp add: body_bytes_def)
    with takes_all_piece [OF w, of "length s - r_offset b" "r_offset b" s] lt map show ?thesis
      by (auto simp: body_write_def)
  qed
qed

lemma body_fd_loop_all:
  assumes "body_ok b" and "takes_all w" and "file_reads b"
  shows "\<exists>w'. body_fd_loop b w = Some (Inr (HBWRITE_DONE, b\<lparr>r_offset := length (body_bytes b)\<rparr>, w')) \<and>
    outcome w' = outcome w \<and> sent w' = sent w @ drop (r_offset b) (body_bytes b)"
  using assms
proof (induction "length (body_bytes b) - r_offset b" arbitrary: b w rule: less_induct)
  case less
  note ok = less.prems(1)
  show ?case
  proof (cases "r_offset b < length (body_bytes b)")
    case False
    with ok have "r_offset b = length (body_bytes b)" by (simp add: body_ok_def)
    with ok show ?thesis by (simp add: body_fd_loop.simps [of b w])
  next
    case True
    from body_write_all [OF ok True less.prems(2,3)] obtain m where m: "0 < m" "r_offset b + m \<le> length (body_bytes b)"
      and bw: "body_write b (length (body_bytes b) - r_offset b) w =
        (HBWRITE_MORE, int m, w\<lparr>calls := Suc (calls w), sent := sent w @ take m (drop (r_offset b) (body_bytes b))\<rparr>)"
      by blast
    let ?b = "b\<lparr>r_offset := r_offset b + m\<rparr>"
    let ?w = "w\<lparr>calls := Suc (calls w), sent := sent w @ take m (drop (r_offset b) (body_bytes b))\<rparr>"
    have bytes: "body_bytes ?b = body_bytes b" by (simp add: body_bytes_def)
    have ok': "body_ok ?b" using ok m(2) by (rule body_ok_advance)
    from ok m(2) have "r_offset b + m < 2 ^ 64" by (simp add: body_ok_def)
    then have adv: "advance b (int m) = ?b" by (rule advance_nat)
    have step: "body_fd_loop b w = body_fd_loop ?b ?w"
      using ok True bw by (simp add: body_fd_loop.simps [of b w] adv)
    have "length (body_bytes ?b) - r_offset ?b < length (body_bytes b) - r_offset b"
      using m bytes by simp
    moreover have "takes_all ?w" "file_reads ?b"
      using less.prems(2,3) takes_all_outcome [of w ?w] by (simp_all add: file_reads_def)
    ultimately obtain w' where
      "body_fd_loop ?b ?w = Some (Inr (HBWRITE_DONE, ?b\<lparr>r_offset := length (body_bytes ?b)\<rparr>, w'))"
      "outcome w' = outcome ?w" "sent w' = sent ?w @ drop (r_offset ?b) (body_bytes ?b)"
      using less.hyps [OF _ ok'] by blast
    then show ?thesis
      using step bytes
      by (intro exI [of _ w']) (simp add: append_take_drop_id add.commute flip: drop_drop)
  qed
qed

lemma body_writeto_fd_all:
  assumes "body_ok b" and "takes_all w" and "file_reads b"
  shows "\<exists>w'. http_body_writeto_fd b w = Some (Inr (HBWRITE_DONE, b\<lparr>r_offset := length (body_bytes b)\<rparr>, w')) \<and>
    outcome w' = outcome w \<and> sent w' = sent w @ drop (r_offset b) (body_bytes b)"
proof -
  have "http_body_writeto_fd b w = body_fd_loop b w"
    using assms(1) by (auto simp: http_body_writeto_fd_def body_ok_def)
  with body_fd_loop_all [OF assms] show ?thesis by simp
qed

lemma dl_holds_first: "dl_holds q c \<Longrightarrow> dl_first (snd q) = None \<longleftrightarrow> c = []"
  by (auto simp: dl_holds_def dl_rep_def neq_Nil_conv)

lemma flush_all:
  assumes "dl_holds (c_writes c) left" and "takes_all w"
  shows "\<exists>q w'. flush_writes c blocked w = Some (c\<lparr>c_writes := q\<rparr>, blocked, w') \<and> dl_holds q [] \<and>
    outcome w' = outcome w \<and> sent w' = sent w @ left"
proof (cases "left = []")
  case True
  with dl_holds_first [OF assms(1)] have "flush_writes c blocked w = Some (c, blocked, w)"
    by (simp add: flush_writes_def)
  with assms(1) True show ?thesis by (intro exI [of _ "c_writes c"] exI [of _ w]) simp
next
  case False
  let ?w = "w\<lparr>errno := ENONE\<rparr>"
  have w: "takes_all ?w" using assms(2) takes_all_outcome [of w ?w] by simp
  then have "makes_progress ?w" by (simp add: takes_all_def)
  from dl_drain_holds [OF assms(1) this] obtain r q w' c' where d: "dl_drain (c_writes c) ?w = Some (r, q, w')"
    "dl_holds q c'" "sent w' @ c' = sent ?w @ left" "outcome w' = outcome ?w"
    "if r = -1 then c' \<noteq> [] \<and> outcome ?w (calls w' - 1) = Fails (errno w') else c' = [] \<and> r = int (length left)"
    by blast
  have "r \<noteq> -1" using d(5) w by (auto simp: takes_all_def never_fails_def)
  with d False dl_holds_first [OF assms(1)] show ?thesis
    by (intro exI [of _ q] exI [of _ w']) (simp add: flush_writes_def)
qed

section \<open>What a response is on the wire\<close>

text \<open>
  A response that was not begun, whose line and headers can be written, whose body can be
  read, and which says whether the connection closes.
\<close>

definition sendable :: "string \<Rightarrow> http_response \<Rightarrow> bool" where
  "sendable date r \<longleftrightarrow> rs_send_status r = SEND_RESPONSE_LINE \<and> body_ok (rs_body r) \<and> file_reads (rs_body r) \<and>
     r_offset (rs_body r) = 0 \<and>
     (case response_headers date r of
        Inl _ \<Rightarrow> False
      | Inr l \<Rightarrow> header_is (http_header_list_get l HEADER_CONNECTION) ''close'' \<in> {Inr True, Inr False})"

definition closes :: "string \<Rightarrow> http_response \<Rightarrow> bool" where
  "closes date r =
     (case response_headers date r of
        Inl _ \<Rightarrow> False
      | Inr l \<Rightarrow> header_is (http_header_list_get l HEADER_CONNECTION) ''close'' = Inr True)"

definition wire :: "string \<Rightarrow> http_response \<Rightarrow> string" where
  "wire date r =
     (case response_headers date r of
        Inl _ \<Rightarrow> []
      | Inr l \<Rightarrow> cstr (status_line_text (rs_line r) @ header_lines l @ CRLF) @ body_bytes (rs_body r))"

text \<open>The responses up to the first that closes the connection.\<close>

fun upto_close :: "string \<Rightarrow> http_response list \<Rightarrow> http_response list" where
  "upto_close date [] = []"
| "upto_close date (r # rs) = r # (if closes date r then [] else upto_close date rs)"

lemma isdigit_not_nul: "isdigit c \<Longrightarrow> c \<noteq> NUL"
  by (auto simp: isdigit_def)

lemma status_line_start: "\<exists>c cs. c \<noteq> NUL \<and> status_line_text l = c # cs"
proof (cases "sl_version l")
  case HTTPXX
  obtain d ds where d: "dec (unat (sl_code l)) = d # ds"
    by (cases "dec (unat (sl_code l))") auto
  then have "isdigit d" using dec_digits [of d "unat (sl_code l)"] by simp
  then have "d \<noteq> NUL" by (rule isdigit_not_nul)
  with d HTTPXX show ?thesis by (simp add: status_line_text_def)
qed (auto simp: status_line_text_def)

lemma put_text_empty:
  assumes "dl_holds (c_writes c) []" and "cstr t \<noteq> []"
  shows "\<exists>q. put_text (Some t) c = Some (Inr (c\<lparr>c_writes := q\<rparr>)) \<and> dl_holds q (cstr t)"
proof -
  from dl_put_empty [OF assms] obtain q where "dl_put (c_writes c) (cstr t) = Some (Inr q)" "dl_holds q (cstr t)" by blast
  then show ?thesis by (intro exI [of _ q]) (simp add: put_text_def)
qed

lemma send_body_all:
  assumes "body_ok (rs_body r)" and "file_reads (rs_body r)" and "r_offset (rs_body r) = 0" and "takes_all w"
    and "rs_send_status r = SEND_BODY"
  shows "\<exists>b w'. send_body r w = Some (Inr (False, False, r\<lparr>rs_body := b, rs_send_status := SEND_DONE\<rparr>, w')) \<and>
    body_ok b \<and> outcome w' = outcome w \<and> sent w' = sent w @ body_bytes (rs_body r)"
proof (cases "b_type (rs_body r) = BODY_NONE")
  case True
  with assms show ?thesis
    by (intro exI [of _ "rs_body r"] exI [of _ w]) (simp add: send_body_def body_bytes_def)
next
  case False
  let ?b = "rs_body r\<lparr>r_offset := length (body_bytes (rs_body r))\<rparr>"
  from body_writeto_fd_all [OF assms(1,4,2)] obtain w' where
    "http_body_writeto_fd (rs_body r) w = Some (Inr (HBWRITE_DONE, ?b, w'))"
    "outcome w' = outcome w" "sent w' = sent w @ body_bytes (rs_body r)"
    using assms(3) by auto
  moreover have "body_ok ?b"
    using body_ok_advance [OF assms(1), of "length (body_bytes (rs_body r))"] assms(3) by simp
  ultimately show ?thesis using False assms(5)
    by (intro exI [of _ ?b] exI [of _ w']) (simp add: send_body_def)
qed

lemma body_ok_delete: "body_ok (rs_body r) \<Longrightarrow> http_response_delete r = Inr ()"
  by (auto simp: body_ok_def http_response_delete_def http_body_delete_def http_body_clear_def Let_def
      elim: ptr_fits_cases)

text \<open>One response.\<close>

lemma write_loop_response:
  assumes "c_responses c = r # rest" and "sendable date r" and "dl_holds (c_writes c) []"
    and "\<not> skt_error (c_skt c)" and "takes_all w"
  shows "\<exists>q w'. dl_holds q [] \<and> takes_all w' \<and> sent w' = sent w @ wire date r \<and>
    write_loop date c blocked w =
      (if closes date r
       then Some (Inr (blocked, c\<lparr>c_writes := q, c_responses := rest, c_skt := skt_close (c_skt c)\<rparr>, w'))
       else write_loop date (c\<lparr>c_writes := q, c_responses := rest\<rparr>) blocked w')"
proof -
  from assms(2) obtain l where l: "response_headers date r = Inr l"
    and hdr: "header_is (http_header_list_get l HEADER_CONNECTION) ''close'' = Inr (closes date r)"
    by (auto simp: sendable_def closes_def split: sum.splits)
  let ?t = "status_line_text (rs_line r) @ header_lines l @ CRLF"
  let ?r1 = "r\<lparr>rs_headers := l, rs_send_status := SEND_BODY\<rparr>"
  have hw: "http_response_write date r = Inr (Some ?t, ?r1)"
    using assms(2) l by (simp add: http_response_write_def sendable_def)
  have "cstr ?t \<noteq> []" using status_line_start [of "rs_line r"] by (auto simp: cstr_def)
  from put_text_empty [OF _ this, of "c\<lparr>c_responses := ?r1 # rest\<rparr>"] assms(3) obtain q1 where
    q1: "put_text (Some ?t) (c\<lparr>c_responses := ?r1 # rest\<rparr>) = Some (Inr (c\<lparr>c_responses := ?r1 # rest, c_writes := q1\<rparr>))"
    "dl_holds q1 (cstr ?t)" by auto
  from flush_all [of "c\<lparr>c_responses := ?r1 # rest, c_writes := q1\<rparr>" "cstr ?t" w blocked] q1(2) assms(5)
  obtain q w1 where
    f: "flush_writes (c\<lparr>c_responses := ?r1 # rest, c_writes := q1\<rparr>) blocked w =
      Some (c\<lparr>c_responses := ?r1 # rest, c_writes := q\<rparr>, blocked, w1)"
    and q: "dl_holds q []" "outcome w1 = outcome w" "sent w1 = sent w @ cstr ?t" by auto
  have w1: "takes_all w1" using assms(5) q(2) by (rule takes_all_outcome)
  from send_body_all [of ?r1 w1] assms(2) w1 obtain b w' where
    sb: "send_body ?r1 w1 = Some (Inr (False, False, ?r1\<lparr>rs_body := b, rs_send_status := SEND_DONE\<rparr>, w'))"
    and b: "body_ok b" "outcome w' = outcome w1" "sent w' = sent w1 @ body_bytes (rs_body r)"
    by (auto simp: sendable_def)
  let ?r2 = "?r1\<lparr>rs_body := b, rs_send_status := SEND_DONE\<rparr>"
  have skt: "(c_skt c)\<lparr>skt_error := False\<rparr> = c_skt c" using assms(4) by simp
  have del: "http_response_delete ?r2 = Inr ()" using b(1) by (intro body_ok_delete) simp
  have first: "dl_first (snd q) = None" using dl_holds_first [OF q(1)] by simp
  have sent: "sent w' = sent w @ wire date r" using b(3) q(3) l by (simp add: wire_def)
  have "takes_all w'" using w1 b(2) by (rule takes_all_outcome)
  moreover have "write_loop date c blocked w =
      (if closes date r
       then Some (Inr (blocked, c\<lparr>c_writes := q, c_responses := rest, c_skt := skt_close (c_skt c)\<rparr>, w'))
       else write_loop date (c\<lparr>c_writes := q, c_responses := rest\<rparr>) blocked w')"
    using assms(4) del first hdr
    by (simp add: skt write_loop.simps [of date c] assms(1) hw q1(1) f sb finish_response_def)
  ultimately show ?thesis using q(1) sent by blast
qed

lemma write_loop_all:
  assumes "\<forall>r \<in> set (c_responses c). sendable date r" and "dl_holds (c_writes c) []"
    and "\<not> skt_error (c_skt c)" and "takes_all w"
  shows "\<exists>q w'. write_loop date c blocked w = Some (Inr (blocked, c\<lparr>c_writes := q,
      c_responses := drop (length (upto_close date (c_responses c))) (c_responses c),
      c_skt := (if \<exists>r \<in> set (c_responses c). closes date r then skt_close (c_skt c) else c_skt c)\<rparr>, w')) \<and>
    dl_holds q [] \<and> sent w' = sent w @ concat (map (wire date) (upto_close date (c_responses c)))"
  using assms
proof (induction "c_responses c" arbitrary: c w)
  case Nil
  then show ?case
    by (intro exI [of _ "c_writes c"] exI [of _ w]) (simp add: write_loop.simps [of date c] flip: Nil.hyps)
next
  case (Cons r rs)
  from write_loop_response [OF Cons.hyps(2) [symmetric] _ Cons.prems(2-4), of date blocked] Cons.prems(1) Cons.hyps(2)
  obtain q w' where q: "dl_holds q []" "takes_all w'" "sent w' = sent w @ wire date r"
    and step: "write_loop date c blocked w =
      (if closes date r
       then Some (Inr (blocked, c\<lparr>c_writes := q, c_responses := rs, c_skt := skt_close (c_skt c)\<rparr>, w'))
       else write_loop date (c\<lparr>c_writes := q, c_responses := rs\<rparr>) blocked w')"
    by (metis list.set_intros(1))
  show ?case
  proof (cases "closes date r")
    case True
    with q step show ?thesis unfolding Cons.hyps(2) [symmetric]
      by (intro exI [of _ q] exI [of _ w']) simp
  next
    case False
    let ?c = "c\<lparr>c_writes := q, c_responses := rs\<rparr>"
    have "\<forall>r \<in> set (c_responses ?c). sendable date r" using Cons.prems(1) by (simp flip: Cons.hyps(2))
    then obtain q2 w2 where
      "write_loop date ?c blocked w' = Some (Inr (blocked, ?c\<lparr>c_writes := q2,
        c_responses := drop (length (upto_close date rs)) rs,
        c_skt := (if \<exists>r \<in> set rs. closes date r then skt_close (c_skt c) else c_skt c)\<rparr>, w2))"
      "dl_holds q2 []" "sent w2 = sent w' @ concat (map (wire date) (upto_close date rs))"
      using Cons.hyps(1) [of ?c w'] q(1,2) Cons.prems(3)
      by (simp del: split_paired_Ex cong del: if_weak_cong) (elim exE conjE, simp)
    with False step q(3) show ?thesis unfolding Cons.hyps(2) [symmetric]
      by (intro exI [of _ q2] exI [of _ w2]) simp
  qed
qed

section \<open>A descriptor that fails\<close>

definition always_fails :: "fd_world \<Rightarrow> bool" where
  "always_fails w \<longleftrightarrow> (\<forall>k. \<exists>e. outcome w k = Fails e)"

lemma always_fails_write: "always_fails w \<Longrightarrow> \<exists>e. sys_write w bs = (-1, w\<lparr>calls := Suc (calls w), errno := e\<rparr>)"
  unfolding always_fails_def sys_write_def by (metis write_outcome.simps(6))

lemma always_fails_outcome: "always_fails w \<Longrightarrow> outcome w' = outcome w \<Longrightarrow> always_fails w'"
  by (simp add: always_fails_def)

lemma always_fails_progress: "always_fails w \<Longrightarrow> makes_progress w"
  by (metis always_fails_def makes_progress_def write_outcome.distinct(1))

lemma writeto_loop_fails:
  assumes "writeto_loop s l w n r = Some y" and "always_fails w"
  shows "sent (snd (snd (snd y))) = sent w"
proof -
  let ?P = "\<lambda>(s :: dbstore) (l :: data_buffer_list) w (n :: ptr option) (r :: int)
    (y :: int \<times> dbstore \<times> data_buffer_list \<times> fd_world). always_fails w \<longrightarrow> sent (snd (snd (snd y))) = sent w"
  have "?P s l w n r y"
  proof (rule writeto_loop.raw_induct [where P = ?P, OF _ assms(1)], rule impI)
    fix f s l w n r y
    assume IH: "\<And>s l w n r y. f s l w n r = Some y \<Longrightarrow> ?P s l w n r y" and w: "always_fails w"
      and eq: "(case n of None \<Rightarrow> Some (r, s, l, w)
        | Some e \<Rightarrow>
          if db_wOffset s e - db_rOffset s e > 0
          then (case sys_write w (unread s e) of (written, w') \<Rightarrow>
            if written \<le> 0 \<and> (errno w' = EAGAIN \<or> errno w' = EWOULDBLOCK)
            then Some (-1, s, l, w')
            else if written < 0 then Some (-1, s, l, w')
            else f (s\<lparr>db_rOffset := (db_rOffset s)(e := db_rOffset s e + nat written)\<rparr>) l w' n (r + written))
          else Option.bind (LL_DELETE (db_next s) (dl_first l) e)
            (\<lambda>(nx, first). f (data_buffer_delete (s\<lparr>db_next := nx\<rparr>) e) (l\<lparr>dl_first := first\<rparr>) w first r)) = Some y"
    show "sent (snd (snd (snd y))) = sent w"
    proof (cases n)
      case None
      with eq show ?thesis by auto
    next
      case (Some e)
      with eq w IH always_fails_write [OF w, of "unread s e"] show ?thesis
        by (auto split: if_splits Option.bind_splits prod.splits)
    qed
  qed
  with assms(2) show ?thesis by simp
qed

lemma flush_fails:
  assumes "dl_holds (c_writes c) left" and "left \<noteq> []" and "always_fails w"
  shows "\<exists>c' blocked' w'. flush_writes c blocked w = Some (c', blocked', w') \<and> always_fails w' \<and>
    dl_holds (c_writes c') left \<and> c_responses c' = c_responses c"
proof -
  let ?w = "w\<lparr>errno := ENONE\<rparr>"
  have w: "always_fails ?w" using assms(3) always_fails_outcome [of w ?w] by simp
  from dl_drain_holds [OF assms(1) always_fails_progress [OF w]] obtain r q w' c' where
    d: "dl_drain (c_writes c) ?w = Some (r, q, w')" "dl_holds q c'" "sent w' @ c' = sent ?w @ left" "outcome w' = outcome ?w"
    by blast
  have "sent w' = sent ?w"
    using d(1) writeto_loop_fails [OF _ w]
    by (auto simp: dl_drain_def data_buffer_list_writeto_fd_def split: option.splits Option.bind_splits)
  with d(3) have "c' = left" by simp
  have nz: "dl_first (snd (c_writes c)) \<noteq> None" using dl_holds_first [OF assms(1)] assms(2) by simp
  show ?thesis
    unfolding flush_writes_def if_P [OF nz] d(1)
    using d(2,4) \<open>c' = left\<close> always_fails_outcome [OF w, of w'] by (auto simp: Let_def)
qed

text \<open>A response whose line and headers wait in the buffers is looked at for ever.\<close>

lemma write_loop_stuck:
  assumes "write_loop date c blocked w = Some y"
  shows "\<not> (always_fails w \<and> dl_holds (c_writes c) left \<and> left \<noteq> [] \<and>
    (\<exists>r rest. c_responses c = r # rest \<and> rs_send_status r = SEND_BODY))"
proof -
  let ?P = "\<lambda>(date :: string) c (blocked :: bool) w (y :: (bool \<times> server_connection \<times> fd_world) res).
    \<not> (always_fails w \<and> dl_holds (c_writes c) left \<and> left \<noteq> [] \<and>
      (\<exists>r rest. c_responses c = r # rest \<and> rs_send_status r = SEND_BODY))"
  show "?P date c blocked w y"
  proof (rule write_loop.raw_induct [where P = ?P, OF _ assms], rule notI, elim conjE exE)
    fix f date c blocked w y r rest
    assume IH: "\<And>date c blocked w y. f date c blocked w = Some y \<Longrightarrow> ?P date c blocked w y"
      and w: "always_fails w" and holds: "dl_holds (c_writes c) left" "left \<noteq> []"
      and r: "c_responses c = r # rest" "rs_send_status r = SEND_BODY"
      and eq: "(case c_responses c of
        [] \<Rightarrow> Some (Inr (blocked, c, w))
      | response # rest \<Rightarrow>
          (case http_response_write date response of
             Inl e \<Rightarrow> Some (Inl e)
           | Inr (text, r1) \<Rightarrow>
               do { x \<leftarrow> put_text text (c\<lparr>c_responses := r1 # rest\<rparr>);
                    case x of
                      Inl e \<Rightarrow> Some (Inl e)
                    | Inr c1 \<Rightarrow>
                        do { (c2, blocked2, w2) \<leftarrow> flush_writes c1 blocked w;
                             if \<not> skt_error (c_skt c2) \<and> dl_first (snd (c_writes c2)) = None then
                               do { y \<leftarrow> send_body r1 w2;
                                    case y of
                                      Inl e \<Rightarrow> Some (Inl e)
                                    | Inr (stop, err, r2, w3) \<Rightarrow>
                                        let c3 = c2\<lparr>c_responses := r2 # rest,
                                          c_skt := (c_skt c2)\<lparr>skt_error := skt_error (c_skt c2) \<or> err\<rparr>\<rparr> in
                                        if stop then Some (Inr (blocked2, c3, w3))
                                        else if rs_send_status r2 = SEND_DONE then
                                          (case finish_response r2 c3 of
                                             Inl e \<Rightarrow> Some (Inl e)
                                           | Inr (closed, c4) \<Rightarrow>
                                               if closed then Some (Inr (blocked2, c4, w3))
                                               else f date c4 blocked2 w3)
                                        else f date c3 blocked2 w3 }
                             else f date c2 blocked2 w2 } })) = Some y"
    have hw: "http_response_write date r = Inr (None, r)" using r(2) by (simp add: http_response_write_def)
    from flush_fails [of "c\<lparr>c_responses := r # rest\<rparr>" left w blocked] holds w obtain c' b' w' where
      fl: "flush_writes (c\<lparr>c_responses := r # rest\<rparr>) blocked w = Some (c', b', w')" "always_fails w'"
      "dl_holds (c_writes c') left" "c_responses c' = r # rest" by auto
    have "dl_first (snd (c_writes c')) \<noteq> None" using dl_holds_first [OF fl(3)] holds(2) by simp
    with eq have "f date c' b' w' = Some y" by (auto simp: r(1) hw put_text_def fl(1))
    with IH fl holds(2) r(2) show False by blast
  qed
qed

lemma write_fails_spins:
  assumes "c_responses c = r # rest" and "sendable date r" and "dl_holds (c_writes c) []" and "always_fails w"
  shows "write_item date c w = None"
proof (rule ccontr)
  assume "write_item date c w \<noteq> None"
  then obtain y where y: "write_item date c w = Some y" by auto
  from assms(2) obtain l where l: "response_headers date r = Inr l" by (auto simp: sendable_def split: sum.splits)
  let ?t = "status_line_text (rs_line r) @ header_lines l @ CRLF"
  let ?r1 = "r\<lparr>rs_headers := l, rs_send_status := SEND_BODY\<rparr>"
  have hw: "http_response_write date r = Inr (Some ?t, ?r1)"
    using assms(2) l by (simp add: http_response_write_def sendable_def)
  have t: "cstr ?t \<noteq> []" using status_line_start [of "rs_line r"] by (auto simp: cstr_def)
  from put_text_empty [OF _ t, of "c\<lparr>c_responses := ?r1 # rest\<rparr>"] assms(3) obtain q1 where
    q1: "put_text (Some ?t) (c\<lparr>c_responses := ?r1 # rest\<rparr>) = Some (Inr (c\<lparr>c_responses := ?r1 # rest, c_writes := q1\<rparr>))"
    "dl_holds q1 (cstr ?t)" by auto
  from flush_fails [of "c\<lparr>c_responses := ?r1 # rest, c_writes := q1\<rparr>" "cstr ?t" w False] q1(2) t assms(4)
  obtain c' b' w' where
    fl: "flush_writes (c\<lparr>c_responses := ?r1 # rest, c_writes := q1\<rparr>) False w = Some (c', b', w')" "always_fails w'"
      "dl_holds (c_writes c') (cstr ?t)" "c_responses c' = ?r1 # rest" by auto
  have "dl_first (snd (c_writes c')) \<noteq> None" using dl_holds_first [OF fl(3)] t by simp
  then have "write_loop date c False w = write_loop date c' b' w'"
    by (auto simp: write_loop.simps [of date c] assms(1) hw q1(1) fl(1))
  moreover have "write_item date c w = write_loop date c False w"
    using dl_holds_first [OF assms(3)] by (simp add: write_item_def flush_writes_def)
  ultimately have "write_loop date c' b' w' = Some y" using y by simp
  from write_loop_stuck [OF this, of "cstr ?t"] fl(2-4) t show False by auto
qed

section \<open>Properties\<close>

lemma write_item_run:
  assumes "\<forall>r \<in> set (c_responses c). sendable date r" and "dl_holds (c_writes c) left"
    and "\<not> skt_error (c_skt c)" and "takes_all w"
  shows "\<exists>q w'. write_item date c w = Some (Inr (False, c\<lparr>c_writes := q,
      c_responses := drop (length (upto_close date (c_responses c))) (c_responses c),
      c_skt := (if \<exists>r \<in> set (c_responses c). closes date r then skt_close (c_skt c) else c_skt c)\<rparr>, w')) \<and>
    dl_holds q [] \<and> sent w' = sent w @ left @ concat (map (wire date) (upto_close date (c_responses c)))"
proof -
  from flush_all [OF assms(2,4), of False] obtain q1 w1 where
    f: "flush_writes c False w = Some (c\<lparr>c_writes := q1\<rparr>, False, w1)" "dl_holds q1 []"
      "outcome w1 = outcome w" "sent w1 = sent w @ left" by blast
  have "dl_first (snd q1) = None" using dl_holds_first [OF f(2)] by simp
  then have "write_item date c w = write_loop date (c\<lparr>c_writes := q1\<rparr>) False w1"
    by (simp add: write_item_def f(1))
  with write_loop_all [of "c\<lparr>c_writes := q1\<rparr>" date w1 False] assms(1,3) f takes_all_outcome [OF assms(4) f(3)]
  show ?thesis by (simp del: split_paired_Ex cong del: if_weak_cong)
qed

text \<open>
  C11: an item of the write pool on a connection whose socket takes what it is given (in
  whatever pieces) comes back, not blocked, and has sent the bytes left over from before
  followed by the responses in order, each as its line, its headers and its body, up to the
  first that says \<open>Connection: close\<close>; those responses are gone, the others stay, and the
  socket is closed exactly when there was such a response.
\<close>

theorem write_item_sends:
  assumes "\<forall>r \<in> set (c_responses c). sendable date r" and "dl_holds (c_writes c) left"
    and "\<not> skt_error (c_skt c)" and "takes_all w"
  shows "\<exists>q w'. write_item date c w = Some (Inr (False, c\<lparr>c_writes := q,
      c_responses := drop (length (upto_close date (c_responses c))) (c_responses c),
      c_skt := (if \<exists>r \<in> set (c_responses c). closes date r then skt_close (c_skt c) else c_skt c)\<rparr>, w')) \<and>
    dl_holds q [] \<and> sent w' = sent w @ left @ concat (map (wire date) (upto_close date (c_responses c)))"
  using assms by (rule write_item_run)

definition plain_continue :: http_response where
  "plain_continue = http_response_new (http_response_line_new 100)"

definition closing_continue :: http_response where
  "closing_continue = plain_continue\<lparr>rs_headers := [http_header_new HEADER_CONNECTION (Some ''Close'')]\<rparr>"

definition three_responses :: server_connection where
  "three_responses = (fst (server_connection_new 1 \<lparr>skt_id = 1, skt_fd = 5, skt_closed = False, skt_error = False\<rparr>))
     \<lparr>c_responses := [plain_continue, closing_continue, plain_continue]\<rparr>"

definition slow_fd :: fd_world where
  "slow_fd = \<lparr>outcome = (\<lambda>_. Accepts 2), calls = 0, sent = [], errno = ENONE\<rparr>"

lemma close_text: "strcaseeq ''Close'' ''close''"
  by (simp add: strcaseeq_def) code_simp

lemma continue_headers:
  "response_headers date plain_continue = Inr []"
  "response_headers date closing_continue = Inr [http_header_new HEADER_CONNECTION (Some ''Close'')]"
  by (simp_all add: response_headers_def plain_continue_def closing_continue_def http_response_new_def
      http_response_line_new_def http_header_list_new_def)

lemma three_responses_sendable: "\<forall>r \<in> set (c_responses three_responses). sendable date r"
proof -
  have "sendable date plain_continue" "sendable date closing_continue"
    unfolding sendable_def continue_headers
    by (simp_all add: plain_continue_def closing_continue_def http_response_new_def http_body_new_def
        body_ok_def body_bytes_def file_reads_def header_is_def http_header_list_get_def close_text)
  then show ?thesis by (simp add: three_responses_def)
qed

lemma continue_closes: "\<not> closes date plain_continue" "closes date closing_continue"
  by (simp_all add: closes_def continue_headers header_is_def http_header_list_get_def close_text)

theorem write_item_sends_witness:
  "\<exists>c' w'. write_item ''now'' three_responses slow_fd = Some (Inr (False, c', w')) \<and>
    c_responses c' = [plain_continue] \<and> skt_closed (c_skt c') \<and>
    sent w' = wire ''now'' plain_continue @ wire ''now'' closing_continue"
proof -
  have "dl_holds (c_writes three_responses) []"
    using connection_new_writes by (simp add: three_responses_def)
  moreover have "\<not> skt_error (c_skt three_responses)"
    by (simp add: three_responses_def server_connection_new_def)
  moreover have "takes_all slow_fd"
    by (simp add: takes_all_def makes_progress_def never_fails_def slow_fd_def)
  moreover have "c_responses three_responses = [plain_continue, closing_continue, plain_continue]"
    by (simp add: three_responses_def)
  moreover have "sent slow_fd = []" by (simp add: slow_fd_def)
  ultimately show ?thesis
    using write_item_sends [OF three_responses_sendable, of "[]" slow_fd "''now''"] continue_closes
    by auto
qed

text \<open>
  C37: when the socket refuses the first bytes of a response for good, say because the client
  has gone, the thread never comes back: it marks the socket and then looks at the same
  response again and again, holding the connection. A socket that answers \<open>EAGAIN\<close> for ever
  is the same case.
\<close>

theorem write_error_spins:
  assumes "c_responses c = r # rest" and "sendable date r" and "dl_holds (c_writes c) []" and "always_fails w"
  shows "write_item date c w = None"
  using assms by (rule write_fails_spins)

theorem write_error_spins_witness:
  "write_item ''now'' three_responses
     \<lparr>outcome = (\<lambda>_. Fails EPIPE), calls = 0, sent = [], errno = ENONE\<rparr> = None"
proof -
  have "dl_holds (c_writes three_responses) []"
    using connection_new_writes by (simp add: three_responses_def)
  moreover have "c_responses three_responses = [plain_continue, closing_continue, plain_continue]"
    by (simp add: three_responses_def)
  moreover have "sendable ''now'' plain_continue" using three_responses_sendable by (simp add: three_responses_def)
  ultimately show ?thesis by (rule_tac write_error_spins) (simp_all add: always_fails_def)
qed

end
