(* ===== verification/Queue_Threads.thy ===== *)
theory Queue_Threads
  imports Queue_Rep
begin

text \<open>
  One queue under any number of threads. A thread of a pool is between two items
  (\<open>Idle\<close>), in the wait of \<open>queue_fetchone\<close>, at work on the item it fetched, or
  inside \<open>queue_return_item\<close> after the first of its critical sections. A step is one
  critical section of one thread, or of the event loop; the mutex makes these atomic,
  the scheduler chooses their order. \<open>pthread_cond_wait\<close> may return at any time, as
  POSIX allows. A step carries the raw result of the section, so that a fault is a step
  to \<open>Some (Inl _)\<close> and a walk that does not end a step to \<open>None\<close>.
\<close>

section \<open>The steps\<close>

datatype qpc = Idle | Waiting | Working ptr | Returning ptr bool

record qsys =
  sq :: queue
  nextid :: "64 word"
  pc :: "nat \<Rightarrow> qpc"

definition qinit :: qsys where
  "qinit = \<lparr>sq = queue_new, nextid = 1, pc = (\<lambda>_. Idle)\<rparr>"

text \<open>
  \<open>enqueue\<close> is \<open>queue_add(q, queue_item_new2(tag, p))\<close> at a fresh address, before the
  64-bit counters wrap.
\<close>

inductive qstep :: "qsys \<Rightarrow> qsys res option \<Rightarrow> bool" where
  enqueue: "q_items (sq s) a = None \<Longrightarrow> nextid s \<noteq> -1 \<Longrightarrow> q_count (sq s) \<noteq> -1 \<Longrightarrow>
    queue_item_new2 (nextid s) a tag p (sq s) = (q, n) \<Longrightarrow>
    qstep s (Some (bind_res (queue_add q a) (\<lambda>(q, _, _). Inr (s\<lparr>sq := q, nextid := n\<rparr>))))"
| wait: "pc s t = Idle \<Longrightarrow> fetch_waits (sq s) True \<Longrightarrow>
    qstep s (Some (Inr (s\<lparr>pc := (pc s)(t := Waiting)\<rparr>)))"
| fetch: "pc s t = Idle \<and> \<not> fetch_waits (sq s) True \<or> pc s t = Waiting \<Longrightarrow>
    q_tokens (sq s) tok = None \<Longrightarrow>
    qstep s (Option.bind (fetch_section (sq s) tok) (\<lambda>r. Some (bind_res r (\<lambda>(q, item).
      Inr (s\<lparr>sq := q, pc := (pc s)(t := case item of None \<Rightarrow> Idle | Some a \<Rightarrow> Working a)\<rparr>)))))"
| block: "pc s t = Working a \<Longrightarrow>
    qstep s (Some (case q_items (sq s) a of
      None \<Rightarrow> Inl Use_after_free
    | Some _ \<Rightarrow> Inr (s\<lparr>sq := set_blocked True a (sq s)\<rparr>)))"
| return_begin: "pc s t = Working a \<Longrightarrow>
    qstep s (Option.bind (return_token (sq s) a) (\<lambda>r. Some (bind_res r (\<lambda>q.
      Inr (s\<lparr>sq := q, pc := (pc s)(t := Returning a finished)\<rparr>)))))"
| return_end: "pc s t = Returning a finished \<Longrightarrow> q_count (sq s) \<noteq> -1 \<Longrightarrow>
    qstep s (Some (bind_res (return_finish (sq s) a finished) (\<lambda>q.
      Inr (s\<lparr>sq := q, pc := (pc s)(t := Idle)\<rparr>))))"
| remove_ptr: "qstep s (Option.bind (queue_remove_byptr (sq s) p) (\<lambda>r. Some (bind_res r (\<lambda>(q, _).
      Inr (s\<lparr>sq := q\<rparr>)))))"
| unblock_ptr: "qstep s (Option.bind (queue_unblock_byptr (sq s) p) (\<lambda>r. Some (bind_res r (\<lambda>(q, _).
      Inr (s\<lparr>sq := q\<rparr>)))))"
| unblock_id: "qstep s (Option.bind (queue_unblock (sq s) i) (\<lambda>r. Some (bind_res r (\<lambda>(q, _).
      Inr (s\<lparr>sq := q\<rparr>)))))"

inductive qreach :: "qsys \<Rightarrow> bool" where
  start: "qreach qinit"
| more: "qreach s \<Longrightarrow> qstep s (Some (Inr s')) \<Longrightarrow> qreach s'"

section \<open>The invariant\<close>

fun held :: "qpc \<Rightarrow> ptr option" where
  "held (Working a) = Some a"
| "held (Returning a _) = Some a"
| "held _ = None"

definition is_token_of :: "queue \<Rightarrow> ptr \<Rightarrow> ptr \<Rightarrow> bool" where
  "is_token_of q a x \<longleftrightarrow>
     qp_qid (token_at q x) = qi_id (item_at q a) \<and> qp_data (token_at q x) = qi_data (item_at q a)"

text \<open>
  Every allocated item is on the list or in the hands of one thread, not both, its
  identifier is its own and below the counter; the tokens are those of the threads at
  work.
\<close>

definition qinv :: "qsys \<Rightarrow> ptr list \<Rightarrow> ptr list \<Rightarrow> bool" where
  "qinv s as ts \<longleftrightarrow>
     queue_rep (sq s) as ts \<and> length as < 2 ^ 64 \<and>
     (\<forall>t a. held (pc s t) = Some a \<longrightarrow> q_items (sq s) a \<noteq> None \<and> a \<notin> set as) \<and>
     (\<forall>t u a. held (pc s t) = Some a \<longrightarrow> held (pc s u) = Some a \<longrightarrow> t = u) \<and>
     (\<forall>a. q_items (sq s) a \<noteq> None \<longrightarrow> a \<in> set as \<or> (\<exists>t. held (pc s t) = Some a)) \<and>
     (\<forall>a b. q_items (sq s) a \<noteq> None \<longrightarrow> q_items (sq s) b \<noteq> None \<longrightarrow>
        qi_id (item_at (sq s) a) = qi_id (item_at (sq s) b) \<longrightarrow> a = b) \<and>
     (\<forall>a. q_items (sq s) a \<noteq> None \<longrightarrow> qi_id (item_at (sq s) a) < nextid s) \<and>
     (\<forall>x \<in> set ts. \<exists>t a. pc s t = Working a \<and> is_token_of (sq s) a x) \<and>
     (\<forall>t a. pc s t = Working a \<longrightarrow> (\<exists>x \<in> set ts. is_token_of (sq s) a x))"

lemma qinvD:
  assumes "qinv s as ts"
  shows "queue_rep (sq s) as ts" "length as < 2 ^ 64"
    "\<And>t a. held (pc s t) = Some a \<Longrightarrow> q_items (sq s) a \<noteq> None \<and> a \<notin> set as"
    "\<And>t u a. held (pc s t) = Some a \<Longrightarrow> held (pc s u) = Some a \<Longrightarrow> t = u"
    "\<And>a. q_items (sq s) a \<noteq> None \<Longrightarrow> a \<in> set as \<or> (\<exists>t. held (pc s t) = Some a)"
    "\<And>a b. q_items (sq s) a \<noteq> None \<Longrightarrow> q_items (sq s) b \<noteq> None \<Longrightarrow>
        qi_id (item_at (sq s) a) = qi_id (item_at (sq s) b) \<Longrightarrow> a = b"
    "\<And>a. q_items (sq s) a \<noteq> None \<Longrightarrow> qi_id (item_at (sq s) a) < nextid s"
    "\<And>x. x \<in> set ts \<Longrightarrow> \<exists>t a. pc s t = Working a \<and> is_token_of (sq s) a x"
    "\<And>t a. pc s t = Working a \<Longrightarrow> \<exists>x \<in> set ts. is_token_of (sq s) a x"
  using assms unfolding qinv_def by blast+

lemma qinv_sq_pc:
  "qinv (s\<lparr>sq := q, pc := p\<rparr>) as ts \<longleftrightarrow>
     queue_rep q as ts \<and> length as < 2 ^ 64 \<and>
     (\<forall>t a. held (p t) = Some a \<longrightarrow> q_items q a \<noteq> None \<and> a \<notin> set as) \<and>
     (\<forall>t u a. held (p t) = Some a \<longrightarrow> held (p u) = Some a \<longrightarrow> t = u) \<and>
     (\<forall>a. q_items q a \<noteq> None \<longrightarrow> a \<in> set as \<or> (\<exists>t. held (p t) = Some a)) \<and>
     (\<forall>a b. q_items q a \<noteq> None \<longrightarrow> q_items q b \<noteq> None \<longrightarrow>
        qi_id (item_at q a) = qi_id (item_at q b) \<longrightarrow> a = b) \<and>
     (\<forall>a. q_items q a \<noteq> None \<longrightarrow> qi_id (item_at q a) < nextid s) \<and>
     (\<forall>x \<in> set ts. \<exists>t a. p t = Working a \<and> is_token_of q a x) \<and>
     (\<forall>t a. p t = Working a \<longrightarrow> (\<exists>x \<in> set ts. is_token_of q a x))"
  by (simp add: qinv_def)

lemma qinv_init: "qinv qinit [] []"
  by (simp add: qinv_def qinit_def queue_rep_new) (simp add: queue_new_def)

lemma length_no_wrap:
  "queue_rep q as ts \<Longrightarrow> length as < 2 ^ 64 \<Longrightarrow> q_count q \<noteq> -1 \<Longrightarrow> Suc (length as) < 2 ^ 64"
proof (rule ccontr)
  assume r: "queue_rep q as ts" "length as < 2 ^ 64" "q_count q \<noteq> -1" "\<not> Suc (length as) < 2 ^ 64"
  then have "length as = 2 ^ 64 - 1" by simp
  with r(1) have "q_count q = of_nat (2 ^ 64 - 1)" by (simp only: queue_rep_def)
  then have "q_count q = -1" by simp
  with r(3) show False by simp
qed

section \<open>Every step keeps it\<close>

definition ident :: "queue_item \<Rightarrow> 64 word \<times> ptr option" where
  "ident it = (qi_id it, qi_data it)"

lemma qinv_same_items:
  assumes "qinv s as ts" and "queue_rep q as ts" and "q_tokens q = q_tokens (sq s)"
    and "\<And>a. map_option ident (q_items q a) = map_option ident (q_items (sq s) a)"
  shows "qinv (s\<lparr>sq := q\<rparr>) as ts"
proof -
  have al: "q_items q a = None \<longleftrightarrow> q_items (sq s) a = None" for a
    using assms(4) [of a] by (metis map_option_is_None)
  have id: "qi_id (item_at q a) = qi_id (item_at (sq s) a)" "qi_data (item_at q a) = qi_data (item_at (sq s) a)" for a
    using assms(4) [of a] al [of a]
    by (cases "q_items q a"; cases "q_items (sq s) a"; simp add: ident_def)+
  have "is_token_of q a x = is_token_of (sq s) a x" for a x
    by (simp add: is_token_of_def id assms(3))
  with assms(1,2) show ?thesis by (simp add: qinv_def al id)
qed

lemma qinv_same_pc:
  assumes "qinv s as ts" and "\<And>u. held (p u) = held (pc s u)"
    and "\<And>u a. p u = Working a \<longleftrightarrow> pc s u = Working a"
  shows "qinv (s\<lparr>pc := p\<rparr>) as ts"
  using assms(1) by (simp add: qinv_def assms(2,3))

lemma qinv_enqueue:
  assumes q: "qinv s as ts" and new: "q_items (sq s) a = None" "nextid s \<noteq> -1" "q_count (sq s) \<noteq> -1"
    and i: "queue_item_new2 (nextid s) a tag p (sq s) = (q, n)"
  shows "\<exists>q'. bind_res (queue_add q a) (\<lambda>(q, _, _). Inr (s\<lparr>sq := q, nextid := n\<rparr>)) =
      Inr (s\<lparr>sq := q', nextid := n\<rparr>) \<and> qinv (s\<lparr>sq := q', nextid := n\<rparr>) (as @ [a]) ts"
proof -
  note d = qinvD [OF q]
  have a: "a \<notin> set as" using d(1) new(1) by (auto simp: queue_rep_def)
  have n: "n = nextid s + 1" using i by (simp add: queue_item_new2_def queue_item_new_def)
  from queue_rep_item_new [OF d(1) new(1), of "nextid s" tag p] i
  have rq: "queue_rep q as ts" and iq: "q_items q = (q_items (sq s))(a \<mapsto>
      \<lparr>qi_id = nextid s, qi_tag = take 15 tag, qi_blocked = False, qi_data = Some p\<rparr>)"
    and tq: "q_tokens q = q_tokens (sq s)" by auto
  from queue_add_rep [OF rq a] iq obtain q' where
    add: "queue_add q a = Inr (q', \<not> qi_blocked (item_at q a), 0)" and r': "queue_rep q' (as @ [a]) ts"
    and q': "q_items q' = q_items q" "q_tokens q' = q_tokens q" by auto
  have "1 + nextid s \<noteq> 0" using new(2) by (metis add.commute eq_neg_iff_add_eq_0)
  from unatSuc [OF this] have lt: "nextid s < n" using n by (simp add: word_less_nat_alt add.commute)
  have old: "a \<noteq> b" if "q_items (sq s) b \<noteq> None" for b using that new(1) by auto
  have heldb: "held (pc s t) = Some b \<Longrightarrow> b \<noteq> a" for t b using d(3) [of t b] new(1) by auto
  have ida: "qi_id (item_at q' a) = nextid s" by (simp add: q' iq)
  have idb: "q_items q' b \<noteq> None \<Longrightarrow> b \<noteq> a \<Longrightarrow>
      q_items (sq s) b \<noteq> None \<and> qi_id (item_at q' b) = qi_id (item_at (sq s) b) \<and> qi_id (item_at q' b) < nextid s" for b
    using d(7) [of b] by (simp add: q' iq)
  have tok: "b \<noteq> a \<Longrightarrow> is_token_of q' b x = is_token_of (sq s) b x" for b x
    by (simp add: is_token_of_def q' iq tq)
  have workb: "pc s t = Working b \<Longrightarrow> b \<noteq> a" for t b using heldb [of t b] by simp
  have "qinv (s\<lparr>sq := q', nextid := n\<rparr>) (as @ [a]) ts"
    unfolding qinv_def
  proof (intro conjI allI impI ballI)
    show "queue_rep (sq (s\<lparr>sq := q', nextid := n\<rparr>)) (as @ [a]) ts" using r' by simp
    show "length (as @ [a]) < 2 ^ 64" using length_no_wrap [OF d(1,2) new(3)] by simp
  next
    fix t b assume "held (pc (s\<lparr>sq := q', nextid := n\<rparr>) t) = Some b"
    with d(3) [of t b] heldb [of t b]
    show "q_items (sq (s\<lparr>sq := q', nextid := n\<rparr>)) b \<noteq> None" "b \<notin> set (as @ [a])"
      by (auto simp: q' iq)
  next
    fix t u b
    assume "held (pc (s\<lparr>sq := q', nextid := n\<rparr>) t) = Some b" "held (pc (s\<lparr>sq := q', nextid := n\<rparr>) u) = Some b"
    with d(4) show "t = u" by simp
  next
    fix b assume "q_items (sq (s\<lparr>sq := q', nextid := n\<rparr>)) b \<noteq> None"
    with d(5) [of b] show "b \<in> set (as @ [a]) \<or> (\<exists>t. held (pc (s\<lparr>sq := q', nextid := n\<rparr>) t) = Some b)"
      by (auto simp: q' iq split: if_splits)
  next
    fix b c assume "q_items (sq (s\<lparr>sq := q', nextid := n\<rparr>)) b \<noteq> None"
      "q_items (sq (s\<lparr>sq := q', nextid := n\<rparr>)) c \<noteq> None"
      "qi_id (item_at (sq (s\<lparr>sq := q', nextid := n\<rparr>)) b) = qi_id (item_at (sq (s\<lparr>sq := q', nextid := n\<rparr>)) c)"
    then have bc: "q_items q' b \<noteq> None" "q_items q' c \<noteq> None" "qi_id (item_at q' b) = qi_id (item_at q' c)"
      by simp_all
    show "b = c"
    proof (cases "b = a \<or> c = a")
      case True
      then show ?thesis using bc idb [of b] idb [of c] ida by (metis less_irrefl)
    next
      case False
      then show ?thesis using bc idb [of b] idb [of c] d(6) [of b c] by metis
    qed
  next
    fix b assume "q_items (sq (s\<lparr>sq := q', nextid := n\<rparr>)) b \<noteq> None"
    then have "q_items q' b \<noteq> None" by simp
    then have "qi_id (item_at q' b) < n"
      using idb [of b] ida lt by (cases "b = a") (auto intro: less_trans)
    then show "qi_id (item_at (sq (s\<lparr>sq := q', nextid := n\<rparr>)) b) < nextid (s\<lparr>sq := q', nextid := n\<rparr>)"
      by simp
  next
    fix x assume "x \<in> set ts"
    from d(8) [OF this] obtain t b where "pc s t = Working b" "is_token_of (sq s) b x" by blast
    with tok [OF workb] show "\<exists>t b. pc (s\<lparr>sq := q', nextid := n\<rparr>) t = Working b \<and>
        is_token_of (sq (s\<lparr>sq := q', nextid := n\<rparr>)) b x" by fastforce
  next
    fix t b assume "pc (s\<lparr>sq := q', nextid := n\<rparr>) t = Working b"
    then have w: "pc s t = Working b" by simp
    from d(9) [OF w] tok [OF workb [OF w]]
    show "\<exists>x \<in> set ts. is_token_of (sq (s\<lparr>sq := q', nextid := n\<rparr>)) b x" by simp
  qed
  with add show ?thesis by (intro exI [of _ q']) simp
qed

lemma qinv_fetch:
  assumes q: "qinv s as ts" and t: "held (pc s t) = None" and tok: "q_tokens (sq s) tok = None"
  shows "\<exists>q' i as' ts'. fetch_section (sq s) tok = Some (Inr (q', i)) \<and>
    qinv (s\<lparr>sq := q', pc := (pc s)(t := case i of None \<Rightarrow> Idle | Some a \<Rightarrow> Working a)\<rparr>) as' ts'"
proof -
  note d = qinvD [OF q]
  have tk: "tok \<notin> set ts" using d(1) tok by (auto simp: queue_rep_def)
  note f = fetch_section_rep [OF d(1) tk d(2)]
  show ?thesis
  proof (cases "find (\<lambda>a. \<not> qi_blocked (item_at (sq s) a)) as")
    case None
    let ?s = "s\<lparr>sq := sq s, pc := (pc s)(t := Idle)\<rparr>"
    have "qinv ?s as ts"
    proof -
      have "qinv (s\<lparr>pc := (pc s)(t := Idle)\<rparr>) as ts"
        by (rule qinv_same_pc [OF q]) (use t in auto)
      then show ?thesis by simp
    qed
    with f None show ?thesis by (intro exI [of _ "sq s"] exI [of _ None]) auto
  next
    case (Some a)
    with f obtain q' where fs: "fetch_section (sq s) tok = Some (Inr (q', Some a))"
      and r: "queue_rep q' (remove1 a as) (ts @ [tok])" and qi: "q_items q' = q_items (sq s)"
      and qt: "q_tokens q' = (q_tokens (sq s))(tok \<mapsto>
        \<lparr>qp_qid = qi_id (item_at (sq s) a), qp_data = qi_data (item_at (sq s) a)\<rparr>)" by auto
    from Some have a: "a \<in> set as" by (auto simp: find_Some_iff)
    then have al: "q_items (sq s) a \<noteq> None" using d(1) by (auto simp: queue_rep_def)
    have dist: "distinct as" using queue_rep_distinct [OF d(1)] by simp
    have nh: "held (pc s u) \<noteq> Some a" for u using d(3) [of u a] a by auto
    let ?pc = "(pc s)(t := Working a)"
    have old: "x \<in> set ts \<Longrightarrow> is_token_of q' b x = is_token_of (sq s) b x" for b x
      using tk by (auto simp: is_token_of_def qi qt)
    have new: "is_token_of q' a tok" by (simp add: is_token_of_def qi qt)
    have "qinv (s\<lparr>sq := q', pc := ?pc\<rparr>) (remove1 a as) (ts @ [tok])"
      unfolding qinv_sq_pc
    proof (intro conjI allI impI ballI)
      show "queue_rep q' (remove1 a as) (ts @ [tok])" by (rule r)
      show "length (remove1 a as) < 2 ^ 64" using d(2) by (simp add: length_remove1 less_imp_diff_less)
    next
      fix u b assume "held (?pc u) = Some b"
      then have "u = t \<and> b = a \<or> held (pc s u) = Some b" by (auto split: if_splits)
      with d(3) [of u b] al dist show "q_items q' b \<noteq> None" "b \<notin> set (remove1 a as)"
        by (auto simp: qi)
    next
      fix u v b assume "held (?pc u) = Some b" "held (?pc v) = Some b"
      then show "u = v" using nh d(4) by (auto split: if_splits)
    next
      fix b assume "q_items q' b \<noteq> None"
      then consider "b = a" | "b \<noteq> a" "b \<in> set as" | u where "held (pc s u) = Some b"
        using d(5) [of b] unfolding qi by blast
      then show "b \<in> set (remove1 a as) \<or> (\<exists>u. held (?pc u) = Some b)"
      proof cases
        case 1
        then show ?thesis by (intro disjI2 exI [of _ t]) simp
      next
        case 2
        then show ?thesis using dist by simp
      next
        case (3 u)
        with t have "u \<noteq> t" by auto
        with 3 show ?thesis by (intro disjI2 exI [of _ u]) simp
      qed
    next
      fix b c assume "q_items q' b \<noteq> None" "q_items q' c \<noteq> None"
        "qi_id (item_at q' b) = qi_id (item_at q' c)"
      then show "b = c" using d(6) unfolding qi by blast
    next
      fix b assume "q_items q' b \<noteq> None"
      then show "qi_id (item_at q' b) < nextid s" using d(7) unfolding qi by blast
    next
      fix x assume "x \<in> set (ts @ [tok])"
      then consider "x = tok" | "x \<in> set ts" by auto
      then show "\<exists>u b. ?pc u = Working b \<and> is_token_of q' b x"
      proof cases
        case 1
        then show ?thesis using new by (intro exI [of _ t] exI [of _ a]) simp
      next
        case 2
        from d(8) [OF 2] obtain u b where ub: "pc s u = Working b" "is_token_of (sq s) b x" by blast
        with t have "u \<noteq> t" by auto
        with ub old [OF 2] show ?thesis by (intro exI [of _ u] exI [of _ b]) simp
      qed
    next
      fix u b assume u: "?pc u = Working b"
      show "\<exists>x \<in> set (ts @ [tok]). is_token_of q' b x"
      proof (cases "u = t")
        case True
        with u new show ?thesis by auto
      next
        case False
        with u d(9) [of u b] obtain x where "x \<in> set ts" "is_token_of (sq s) b x" by auto
        with old show ?thesis by auto
      qed
    qed
    with fs show ?thesis by (intro exI [of _ q'] exI [of _ "Some a"]) auto
  qed
qed

lemma qinv_return_token:
  assumes q: "qinv s as ts" and t: "pc s t = Working a"
  shows "\<exists>q' ts'. return_token (sq s) a = Some (Inr q') \<and>
    qinv (s\<lparr>sq := q', pc := (pc s)(t := Returning a f)\<rparr>) as ts'"
proof -
  note d = qinvD [OF q]
  let ?i = "qi_id (item_at (sq s) a)"
  let ?pc = "(pc s)(t := Returning a f)"
  from d(3) [of t a] t obtain it where it: "q_items (sq s) a = Some it" by auto
  from pending_remove_rep [OF d(1), of ?i] obtain q' where
    r: "QUEUE_PENDING_REMOVE (sq s) ?i = Some (Inr q')"
    and rq: "queue_rep q' as (filter (\<lambda>x. \<not> has_id (sq s) ?i x) ts)"
    and qi: "q_items q' = q_items (sq s)" and qt: "q_tokens q' = other_tokens (sq s) ?i ts" by blast
  have h: "held (?pc u) = held (pc s u)" for u using t by simp
  have old: "\<not> has_id (sq s) ?i x \<Longrightarrow> is_token_of q' b x = is_token_of (sq s) b x" for b x
    by (auto simp: is_token_of_def qi qt other_tokens_def)
  have own: "is_token_of (sq s) b x \<Longrightarrow> pc s u = Working b \<Longrightarrow> has_id (sq s) ?i x \<longleftrightarrow> b = a" for b x u
    using d(6) [of b a] d(3) [of u b] it by (auto simp: is_token_of_def has_id_def)
  have "qinv (s\<lparr>sq := q', pc := ?pc\<rparr>) as (filter (\<lambda>x. \<not> has_id (sq s) ?i x) ts)"
    unfolding qinv_sq_pc qi h
  proof (intro conjI allI impI ballI)
    show "queue_rep q' as (filter (\<lambda>x. \<not> has_id (sq s) ?i x) ts)" by (rule rq)
    show "length as < 2 ^ 64" by (rule d(2))
  next
    fix x assume "x \<in> set (filter (\<lambda>x. \<not> has_id (sq s) ?i x) ts)"
    then have x: "x \<in> set ts" "\<not> has_id (sq s) ?i x" by auto
    from d(8) [OF x(1)] obtain u b where ub: "pc s u = Working b" "is_token_of (sq s) b x" by blast
    with own x(2) t have "u \<noteq> t" by auto
    with ub old x(2) show "\<exists>u b. ?pc u = Working b \<and> is_token_of q' b x"
      by (intro exI [of _ u] exI [of _ b]) simp
  next
    fix u b assume u: "?pc u = Working b"
    then have ut: "u \<noteq> t" "pc s u = Working b" by (auto split: if_splits)
    then have "b \<noteq> a" using d(4) [of u b t] t by auto
    moreover from d(9) [OF ut(2)] obtain x where "x \<in> set ts" "is_token_of (sq s) b x" by blast
    ultimately show "\<exists>x \<in> set (filter (\<lambda>x. \<not> has_id (sq s) ?i x) ts). is_token_of q' b x"
      using own [OF _ ut(2)] old by auto
  qed (use d(3-7) in blast)+
  with r it show ?thesis by (auto simp: return_token_def)
qed

lemma qinv_finished:
  assumes q: "qinv s as ts" and t: "pc s t = Returning a f"
  shows "\<exists>q'. queue_item_delete (sq s) a = Inr q' \<and> qinv (s\<lparr>sq := q', pc := (pc s)(t := Idle)\<rparr>) as ts"
proof -
  note d = qinvD [OF q]
  let ?pc = "(pc s)(t := Idle)"
  let ?q = "(sq s)\<lparr>q_items := (q_items (sq s))(a := None)\<rparr>"
  from d(3) [of t a] t obtain it where it: "q_items (sq s) a = Some it" "a \<notin> set as" by auto
  have nt: "u \<noteq> t \<Longrightarrow> held (pc s u) \<noteq> Some a" for u using d(4) [of u a t] t by force
  have h: "held (?pc u) = Some b \<longleftrightarrow> held (pc s u) = Some b \<and> b \<noteq> a" for u b
    using nt [of u] t by (cases "u = t") auto
  have w: "?pc u = Working b \<longleftrightarrow> pc s u = Working b" for u b using t by auto
  have wa: "pc s u = Working b \<Longrightarrow> b \<noteq> a" for u b using nt [of u] t by (cases "u = t") auto
  have tok: "b \<noteq> a \<Longrightarrow> is_token_of ?q b x = is_token_of (sq s) b x" for b x
    by (simp add: is_token_of_def)
  have ib: "q_items ?q b \<noteq> None \<longleftrightarrow> q_items (sq s) b \<noteq> None \<and> b \<noteq> a"
    "b \<noteq> a \<Longrightarrow> item_at ?q b = item_at (sq s) b" for b by auto
  have "qinv (s\<lparr>sq := ?q, pc := ?pc\<rparr>) as ts"
    unfolding qinv_sq_pc h w ib(1)
  proof (intro conjI allI impI ballI)
    show "queue_rep ?q as ts" using d(1) it(2) by (auto simp: queue_rep_def)
    show "length as < 2 ^ 64" by (rule d(2))
  next
    fix x assume "x \<in> set ts"
    from d(8) [OF this] wa tok show "\<exists>u b. pc s u = Working b \<and> is_token_of ?q b x" by metis
  next
    fix u b assume "pc s u = Working b"
    from d(9) [OF this] wa [OF this] tok show "\<exists>x \<in> set ts. is_token_of ?q b x" by metis
  next
    fix b c assume "q_items (sq s) b \<noteq> None \<and> b \<noteq> a" "q_items (sq s) c \<noteq> None \<and> c \<noteq> a"
      "qi_id (item_at ?q b) = qi_id (item_at ?q c)"
    with d(6) [of b c] ib(2) show "b = c" by simp
  next
    fix b assume "q_items (sq s) b \<noteq> None \<and> b \<noteq> a"
    with d(7) [of b] ib(2) show "qi_id (item_at ?q b) < nextid s" by simp
  qed (use d(3-5) in blast)+
  with it show ?thesis by (auto simp: queue_item_delete_def)
qed

lemma qinv_put_back:
  assumes q: "qinv s as ts" and t: "pc s t = Returning a f" and n: "q_count (sq s) \<noteq> -1"
  shows "\<exists>q' b. queue_add (sq s) a = Inr (q', b, 0) \<and>
    qinv (s\<lparr>sq := q', pc := (pc s)(t := Idle)\<rparr>) (as @ [a]) ts"
proof -
  note d = qinvD [OF q]
  let ?pc = "(pc s)(t := Idle)"
  from d(3) [of t a] t have a: "q_items (sq s) a \<noteq> None" "a \<notin> set as" by auto
  from queue_add_rep [OF d(1) a(2,1)] obtain q' where
    add: "queue_add (sq s) a = Inr (q', \<not> qi_blocked (item_at (sq s) a), 0)"
    and r: "queue_rep q' (as @ [a]) ts" and qi: "q_items q' = q_items (sq s)"
    and qt: "q_tokens q' = q_tokens (sq s)" by blast
  have nt: "u \<noteq> t \<Longrightarrow> held (pc s u) \<noteq> Some a" for u using d(4) [of u a t] t by force
  have h: "held (?pc u) = Some b \<longleftrightarrow> held (pc s u) = Some b \<and> b \<noteq> a" for u b
    using nt [of u] t by (cases "u = t") auto
  have w: "?pc u = Working b \<longleftrightarrow> pc s u = Working b" for u b using t by auto
  have tok: "is_token_of q' b x = is_token_of (sq s) b x" for b x
    by (simp add: is_token_of_def qi qt)
  have "qinv (s\<lparr>sq := q', pc := ?pc\<rparr>) (as @ [a]) ts"
    unfolding qinv_sq_pc h w tok qi
  proof (intro conjI allI impI ballI)
    show "queue_rep q' (as @ [a]) ts" by (rule r)
    show "length (as @ [a]) < 2 ^ 64" using length_no_wrap [OF d(1,2) n] by simp
  next
    fix u b assume "held (pc s u) = Some b \<and> b \<noteq> a"
    with d(3) [of u b] show "q_items (sq s) b \<noteq> None" "b \<notin> set (as @ [a])" by auto
  next
    fix b assume "q_items (sq s) b \<noteq> None"
    from d(5) [OF this] show "b \<in> set (as @ [a]) \<or> (\<exists>u. held (pc s u) = Some b \<and> b \<noteq> a)" by auto
  qed (use d(4,6-9) in blast)+
  with add show ?thesis by blast
qed

lemma qinv_remove_ptr:
  assumes q: "qinv s as ts"
  shows "\<exists>q' n. queue_remove_byptr (sq s) p = Some (Inr (q', n)) \<and>
    qinv (s\<lparr>sq := q'\<rparr>) (filter (\<lambda>a. \<not> holds (sq s) p a) as) ts"
proof -
  note d = qinvD [OF q]
  from queue_remove_byptr_rep [OF d(1), of p] obtain q' where
    rm: "queue_remove_byptr (sq s) p = Some (Inr (q', length (filter (holds (sq s) p) as)))"
    and r: "queue_rep q' (filter (\<lambda>a. \<not> holds (sq s) p a) as) ts"
    and qt: "q_tokens q' = q_tokens (sq s)"
    and qi: "q_items q' = (\<lambda>a. if a \<in> set as \<and> holds (sq s) p a then None else q_items (sq s) a)" by blast
  have ib: "q_items q' b \<noteq> None \<longleftrightarrow> q_items (sq s) b \<noteq> None \<and> \<not> (b \<in> set as \<and> holds (sq s) p b)"
    "\<not> (b \<in> set as \<and> holds (sq s) p b) \<Longrightarrow> item_at q' b = item_at (sq s) b" for b
    by (auto simp: qi)
  have tok: "\<not> (b \<in> set as \<and> holds (sq s) p b) \<Longrightarrow> is_token_of q' b x = is_token_of (sq s) b x" for b x
    by (simp add: is_token_of_def ib(2) qt)
  have wa: "pc s u = Working b \<Longrightarrow> b \<notin> set as" for u b using d(3) [of u b] by simp
  have "qinv (s\<lparr>sq := q', pc := pc s\<rparr>) (filter (\<lambda>a. \<not> holds (sq s) p a) as) ts"
    unfolding qinv_sq_pc ib(1)
  proof (intro conjI allI impI ballI)
    show "queue_rep q' (filter (\<lambda>a. \<not> holds (sq s) p a) as) ts" by (rule r)
    show "length (filter (\<lambda>a. \<not> holds (sq s) p a) as) < 2 ^ 64"
      using d(2) length_filter_le [of "\<lambda>a. \<not> holds (sq s) p a" as] by linarith
  next
    fix x assume "x \<in> set ts"
    from d(8) [OF this] wa tok show "\<exists>u b. pc s u = Working b \<and> is_token_of q' b x" by metis
  next
    fix u b assume "pc s u = Working b"
    from d(9) [OF this] wa [OF this] tok show "\<exists>x \<in> set ts. is_token_of q' b x" by metis
  next
    fix b c assume "q_items (sq s) b \<noteq> None \<and> \<not> (b \<in> set as \<and> holds (sq s) p b)"
      "q_items (sq s) c \<noteq> None \<and> \<not> (c \<in> set as \<and> holds (sq s) p c)"
      "qi_id (item_at q' b) = qi_id (item_at q' c)"
    with d(6) [of b c] ib(2) show "b = c" by simp
  next
    fix b assume "q_items (sq s) b \<noteq> None \<and> \<not> (b \<in> set as \<and> holds (sq s) p b)"
    with d(7) [of b] ib(2) show "qi_id (item_at q' b) < nextid s" by simp
  next
    fix u b assume "held (pc s u) = Some b"
    with d(3) [of u b] show "q_items (sq s) b \<noteq> None" "\<not> (b \<in> set as \<and> holds (sq s) p b)"
      "b \<notin> set (filter (\<lambda>a. \<not> holds (sq s) p a) as)" by auto
  next
    fix b assume "q_items (sq s) b \<noteq> None \<and> \<not> (b \<in> set as \<and> holds (sq s) p b)"
    with d(5) [of b] show "b \<in> set (filter (\<lambda>a. \<not> holds (sq s) p a) as) \<or> (\<exists>u. held (pc s u) = Some b)"
      by auto
  qed (use d(4) in blast)+
  with rm show ?thesis by simp
qed

lemma ident_set_blocked:
  "map_option ident (q_items (set_blocked b a q) c) = map_option ident (q_items q c)"
  by (cases "q_items q a") (auto simp: ident_def option.map_comp comp_def)

lemma qinv_set_blocked: "qinv s as ts \<Longrightarrow> qinv (s\<lparr>sq := set_blocked b a (sq s)\<rparr>) as ts"
  by (rule qinv_same_items) (simp_all add: queue_rep_set_blocked qinvD(1) ident_set_blocked del: set_blocked_fields(7))

lemma qinv_unblock_ptr:
  assumes "qinv s as ts"
  shows "\<exists>q' n. queue_unblock_byptr (sq s) p = Some (Inr (q', n)) \<and> qinv (s\<lparr>sq := q'\<rparr>) as ts"
proof -
  let ?q = "(sq s)\<lparr>q_items := unblocked_items (sq s) p as\<rparr>"
  have "map_option ident (unblocked_items (sq s) p as c) = map_option ident (q_items (sq s) c)" for c
    by (cases "q_items (sq s) c") (simp_all add: unblocked_items_def ident_def)
  then have "qinv (s\<lparr>sq := ?q\<rparr>) as ts"
    using queue_unblock_byptr_rep [OF qinvD(1) [OF assms], of p]
    by (intro qinv_same_items [OF assms]) auto
  then show ?thesis using queue_unblock_byptr_rep [OF qinvD(1) [OF assms], of p] by blast
qed

lemma qinv_unblock_id:
  assumes "qinv s as ts"
  shows "\<exists>q' b. queue_unblock (sq s) i = Some (Inr (q', b)) \<and> qinv (s\<lparr>sq := q'\<rparr>) as ts"
proof -
  have "qinv (s\<lparr>sq := sq s\<rparr>) as ts" using assms by simp
  with qinv_set_blocked [OF assms, of False] queue_unblock_rep [OF qinvD(1) [OF assms], of i]
  show ?thesis by (auto split: option.splits if_splits)
qed

definition queue_ok :: "qsys \<Rightarrow> bool" where
  "queue_ok s \<longleftrightarrow> (\<exists>as ts. qinv s as ts)"

lemma queue_okI [intro]: "qinv s as ts \<Longrightarrow> queue_ok s"
  by (auto simp: queue_ok_def)

lemma qstep_ok:
  assumes "queue_ok s" and "qstep s r"
  shows "\<exists>s'. r = Some (Inr s') \<and> queue_ok s'"
proof -
  from assms(1) obtain as ts where q: "qinv s as ts" by (auto simp: queue_ok_def)
  from assms(2) show ?thesis
  proof cases
    case (enqueue a tag p q' n)
    then show ?thesis using qinv_enqueue [OF q, of a tag p q' n] by auto
  next
    case (wait t)
    have "qinv (s\<lparr>pc := (pc s)(t := Waiting)\<rparr>) as ts"
      by (rule qinv_same_pc [OF q]) (use wait in auto)
    with wait show ?thesis by auto
  next
    case (fetch t tok)
    then have "held (pc s t) = None" by auto
    from qinv_fetch [OF q this fetch(3)] fetch(1) show ?thesis by auto
  next
    case (block t a)
    with qinvD(3) [OF q, of t a] obtain it where "q_items (sq s) a = Some it" by auto
    with block qinv_set_blocked [OF q, of True a] show ?thesis by auto
  next
    case (return_begin t a f)
    with qinv_return_token [OF q, of t a f] show ?thesis by auto
  next
    case (return_end t a f)
    with qinv_finished [OF q, of t a f] qinv_put_back [OF q, of t a f]
    show ?thesis by (cases f) (auto simp: return_finish_def)
  next
    case (remove_ptr p)
    with qinv_remove_ptr [OF q, of p] show ?thesis by auto
  next
    case (unblock_ptr p)
    with qinv_unblock_ptr [OF q, of p] show ?thesis by auto
  next
    case (unblock_id i)
    with qinv_unblock_id [OF q, of i] show ?thesis by auto
  qed
qed

lemma qreach_ok: "qreach s \<Longrightarrow> queue_ok s"
proof (induction rule: qreach.induct)
  case start
  then show ?case using qinv_init by blast
next
  case (more s s')
  then show ?case using qstep_ok by blast
qed

section \<open>What holds of every schedule\<close>

lemma qinv_places:
  assumes "qinv s as ts"
  shows "q_items (sq s) a \<noteq> None \<longrightarrow>
      a \<in> set as \<and> (\<forall>t. held (pc s t) \<noteq> Some a) \<or> a \<notin> set as \<and> (\<exists>!t. held (pc s t) = Some a)"
proof
  assume a: "q_items (sq s) a \<noteq> None"
  show "a \<in> set as \<and> (\<forall>t. held (pc s t) \<noteq> Some a) \<or> a \<notin> set as \<and> (\<exists>!t. held (pc s t) = Some a)"
  proof (cases "a \<in> set as")
    case True
    then show ?thesis using qinvD(3) [OF assms] by blast
  next
    case False
    with qinvD(5) [OF assms a] obtain t where t: "held (pc s t) = Some a" by blast
    moreover have "u = t" if "held (pc s u) = Some a" for u
      by (rule qinvD(4) [OF assms that t])
    ultimately show ?thesis using False by blast
  qed
qed

text \<open>
  C8: whatever the schedule, no operation on a queue touches a freed item or token,
  dereferences null or walks for ever; every allocated item is either on the list or held
  by exactly one thread; and a thread at work on an item has a token for it, which is
  what the waits for pending items look at.
\<close>

theorem queue_threads_safe:
  assumes "qreach s"
  shows "(\<forall>r. qstep s r \<longrightarrow> (\<exists>s'. r = Some (Inr s'))) \<and>
    (\<exists>as ts. queue_rep (sq s) as ts \<and>
      (\<forall>a. q_items (sq s) a \<noteq> None \<longrightarrow>
        a \<in> set as \<and> (\<forall>t. held (pc s t) \<noteq> Some a) \<or> a \<notin> set as \<and> (\<exists>!t. held (pc s t) = Some a)) \<and>
      (\<forall>t a. pc s t = Working a \<longrightarrow> (\<exists>x \<in> set ts. is_token_of (sq s) a x)))"
proof -
  from qreach_ok [OF assms] obtain as ts where q: "qinv s as ts" by (auto simp: queue_ok_def)
  with qstep_ok have "\<forall>r. qstep s r \<longrightarrow> (\<exists>s'. r = Some (Inr s'))" by blast
  moreover have "queue_rep (sq s) as ts" by (rule qinvD(1) [OF q])
  moreover note qinv_places [OF q] qinvD(9) [OF q]
  ultimately show ?thesis by blast
qed

text \<open>A run: an item for the connection \<open>p\<close> is added, fetched, and its token removed.\<close>

lemma qreach_returning:
  "\<exists>s q. qreach s \<and> s = \<lparr>sq = q, nextid = 2, pc = (\<lambda>_. Idle)(0 := Returning 5 False)\<rparr> \<and>
    queue_rep q [] [] \<and> q_items q 5 \<noteq> None \<and> holds q p 5"
proof -
  obtain q0 n where q0: "queue_item_new2 1 5 ''READ'' p queue_new = (q0, n)" by fastforce
  then have n: "n = 2" by (simp add: queue_item_new2_def queue_item_new_def)
  have free: "q_items queue_new 5 = None" by (simp add: queue_new_def)
  from queue_rep_item_new [OF queue_rep_new free, of 1 "''READ''" p] q0
  have r0: "queue_rep q0 [] []" and i0: "q_items q0 5 \<noteq> None" "\<not> qi_blocked (item_at q0 5)" "holds q0 p 5"
    and t0: "q_tokens q0 = q_tokens queue_new" by (simp_all add: holds_def)
  from queue_add_rep [OF r0 _ i0(1)] obtain q1 where
    a1: "queue_add q0 5 = Inr (q1, \<not> qi_blocked (item_at q0 5), 0)" "queue_rep q1 [5] []"
      "q_items q1 = q_items q0" "q_tokens q1 = q_tokens q0" by auto
  let ?s1 = "\<lparr>sq = q1, nextid = 2, pc = (\<lambda>_. Idle)\<rparr>"
  have "qstep qinit (Some (bind_res (queue_add q0 5) (\<lambda>(q, _, _). Inr (qinit\<lparr>sq := q, nextid := n\<rparr>))))"
    using q0 by (intro qstep.enqueue [where tag = "''READ''" and p = p])
      (simp_all add: qinit_def free, simp add: queue_new_def)
  then have "qstep qinit (Some (Inr ?s1))" using a1(1) n by (simp add: qinit_def)
  with qreach.start have s1: "qreach ?s1" by (rule qreach.more)
  have f: "find (\<lambda>a. \<not> qi_blocked (item_at q1 a)) [5] = Some 5" using i0(2) a1(3) by simp
  from fetch_section_rep [OF a1(2), of 9] f i0 a1 obtain q2 where
    a2: "fetch_section q1 9 = Some (Inr (q2, Some 5))" "queue_rep q2 [] [9]"
      "q_items q2 = q_items q1"
      "q_tokens q2 = (q_tokens q1)(9 \<mapsto> \<lparr>qp_qid = qi_id (item_at q1 5), qp_data = qi_data (item_at q1 5)\<rparr>)"
    by auto
  let ?s2 = "\<lparr>sq = q2, nextid = 2, pc = (\<lambda>_. Idle)(0 := Working 5)\<rparr>"
  have "q_count q1 \<noteq> 0" using a1(2) by (simp add: queue_rep_def)
  then have "qstep ?s1 (Option.bind (fetch_section (sq ?s1) 9) (\<lambda>r. Some (bind_res r (\<lambda>(q, item).
      Inr (?s1\<lparr>sq := q, pc := (pc ?s1)(0 := case item of None \<Rightarrow> Idle | Some a \<Rightarrow> Working a)\<rparr>)))))"
    using a1(4) t0 by (intro qstep.fetch) (simp_all add: fetch_waits_def queue_new_def)
  then have "qstep ?s1 (Some (Inr ?s2))" using a2(1) by simp
  with s1 have s2: "qreach ?s2" by (rule qreach.more)
  have h: "has_id q2 (qi_id (item_at q1 5)) 9" using a2(4) by (simp add: has_id_def)
  from pending_remove_rep [OF a2(2), of "qi_id (item_at q1 5)"] h obtain q3 where
    a3: "QUEUE_PENDING_REMOVE q2 (qi_id (item_at q1 5)) = Some (Inr q3)" "queue_rep q3 [] []"
      "q_items q3 = q_items q2" by auto
  let ?s3 = "\<lparr>sq = q3, nextid = 2, pc = (\<lambda>_. Idle)(0 := Returning 5 False)\<rparr>"
  have rt: "return_token q2 5 = Some (Inr q3)"
    using a3(1) i0(1) a1(3) a2(3) by (auto simp: return_token_def)
  have "qstep ?s2 (Option.bind (return_token (sq ?s2) 5) (\<lambda>r. Some (bind_res r (\<lambda>q.
      Inr (?s2\<lparr>sq := q, pc := (pc ?s2)(0 := Returning 5 False)\<rparr>)))))"
    by (intro qstep.return_begin) simp
  then have "qstep ?s2 (Some (Inr ?s3))" using rt by simp
  with s2 have "qreach ?s3" by (rule qreach.more)
  then show ?thesis using a3(2,3) a2(3) a1(3) i0 by (auto simp: holds_def)
qed

theorem queue_threads_safe_witness:
  "\<exists>s. qreach s \<and> held (pc s 0) = Some 5 \<and> (\<forall>r. qstep s r \<longrightarrow> (\<exists>s'. r = Some (Inr s')))"
proof -
  from qreach_returning [of 7] obtain s q where
    "qreach s" "s = \<lparr>sq = q, nextid = 2, pc = (\<lambda>_. Idle)(0 := Returning 5 False)\<rparr>" by blast
  with queue_threads_safe [of s] show ?thesis by (intro exI [of _ s]) simp
qed

text \<open>
  The clean-up of a closed connection in \<open>server_loop\<close> (remove its items, then
  wait until no token names it) does not stop an item a thread is just giving back
  unfinished: the wait finds no token and returns at once, and the item is appended
  afterwards, with the address of the connection that the loop has freed.
\<close>

theorem cleanup_misses_returned_item:
  assumes "qreach s" and "pc s t = Returning a False" and "holds (sq s) p a"
    and "\<forall>u b. pc s u = Working b \<longrightarrow> \<not> holds (sq s) p b"
  shows "\<exists>q1 n q2 as ts. queue_remove_byptr (sq s) p = Some (Inr (q1, n)) \<and>
    queue_pending_waitptr p [q1] = Some [] \<and>
    return_finish q1 a False = Inr q2 \<and> queue_rep q2 (as @ [a]) ts \<and> holds q2 p a"
proof -
  from qreach_ok [OF assms(1)] obtain as ts where q: "qinv s as ts" by (auto simp: queue_ok_def)
  note d = qinvD [OF q]
  from d(3) [of t a] assms(2) have a: "q_items (sq s) a \<noteq> None" "a \<notin> set as" by auto
  let ?as = "filter (\<lambda>a. \<not> holds (sq s) p a) as"
  from queue_remove_byptr_rep [OF d(1), of p] obtain q1 where
    r: "queue_remove_byptr (sq s) p = Some (Inr (q1, length (filter (holds (sq s) p) as)))" "queue_rep q1 ?as ts"
      "q_tokens q1 = q_tokens (sq s)"
      "q_items q1 = (\<lambda>a. if a \<in> set as \<and> holds (sq s) p a then None else q_items (sq s) a)" by blast
  have "qp_data (token_at q1 x) \<noteq> Some p" if x: "x \<in> set ts" for x
  proof -
    from d(8) [OF x] obtain u b where "pc s u = Working b" "is_token_of (sq s) b x" by blast
    with assms(4) r(3) show ?thesis by (auto simp: is_token_of_def holds_def)
  qed
  then have none: "find (\<lambda>t. qp_data (token_at q1 t) = Some p) ts = None" by (auto simp: find_None_iff)
  have w: "queue_pending_waitptr p [q1] = Some []"
    using find_token_rep [OF r(2), of "\<lambda>tk. qp_data tk = Some p"] none by simp
  have a1: "q_items q1 a \<noteq> None" "a \<notin> set ?as" "item_at q1 a = item_at (sq s) a" using a r(4) by auto
  from queue_add_rep [OF r(2) a1(2,1)] obtain q2 where
    "queue_add q1 a = Inr (q2, \<not> qi_blocked (item_at q1 a), 0)" "queue_rep q2 (?as @ [a]) ts"
    "q_items q2 = q_items q1" by blast
  with r(1) w a1(3) assms(3) show ?thesis
    by (intro exI [of _ q1] exI [of _ "length (filter (holds (sq s) p) as)"] exI [of _ q2]
        exI [of _ ?as] exI [of _ ts]) (simp add: return_finish_def holds_def)
qed

theorem cleanup_misses_returned_item_witness:
  "\<exists>s q1 q2 n as ts. qreach s \<and> queue_remove_byptr (sq s) 7 = Some (Inr (q1, n)) \<and>
    queue_pending_waitptr 7 [q1] = Some [] \<and>
    return_finish q1 5 False = Inr q2 \<and> queue_rep q2 (as @ [5]) ts \<and> holds q2 7 5"
proof -
  from qreach_returning [of 7] obtain s q where
    s: "qreach s" "s = \<lparr>sq = q, nextid = 2, pc = (\<lambda>_. Idle)(0 := Returning 5 False)\<rparr>" and h: "holds q 7 5" by blast
  from s(2) h have "pc s 0 = Returning 5 False" "holds (sq s) 7 5"
    "\<forall>u b. pc s u = Working b \<longrightarrow> \<not> holds (sq s) 7 b" by auto
  from cleanup_misses_returned_item [OF s(1) this] s(1) show ?thesis by blast
qed

text \<open>
  When \<open>queue_pending_waitptr\<close> returns, the last state of the queue it looked at
  has no token for the connection: no thread is at work on it there.
\<close>

theorem pending_waitptr_done:
  assumes "queue_pending_waitptr p qs = Some rest"
    and "\<forall>q \<in> set qs. \<exists>as ts. queue_rep q as ts \<and> (\<forall>t \<in> set ts. qp_qid (token_at q t) > 0)"
  shows "\<exists>us q as ts. qs = us @ q # rest \<and> queue_rep q as ts \<and>
    (\<forall>t \<in> set ts. qp_data (token_at q t) \<noteq> Some p)"
proof -
  have wait: "queue_pending_wait i qs = Some rest \<Longrightarrow> \<exists>us. qs = us @ rest" for i qs rest
    by (induction qs) (auto split: option.splits sum.splits bool.splits)
  show ?thesis using assms
  proof (induction p qs rule: queue_pending_waitptr.induct)
    case (1 p)
    then show ?case by simp
  next
    case (2 p q qs)
    from 2(3) obtain as ts where r: "queue_rep q as ts" "\<forall>t \<in> set ts. qp_qid (token_at q t) > 0" by auto
    note f = find_token_rep [OF r(1), of "\<lambda>tk. qp_data tk = Some p"]
    show ?case
    proof (cases "find (\<lambda>t. qp_data (token_at q t) = Some p) ts")
      case None
      with f 2(2) have "rest = qs" by simp
      moreover from None have "\<forall>t \<in> set ts. qp_data (token_at q t) \<noteq> Some p" by (auto simp: find_None_iff)
      ultimately show ?thesis using r(1) by (intro exI [of _ "[]"]) auto
    next
      case (Some t)
      then have t: "t \<in> set ts" by (auto simp: find_Some_iff)
      from f Some have tk: "find_token (\<lambda>tk. qp_data tk = Some p) q (q_processing q) = Some (Inr (Some (token_at q t)))"
        by simp
      from 2(2) tk r(2) t obtain mid where m: "queue_pending_wait (qp_qid (token_at q t)) qs = Some mid"
        "queue_pending_waitptr p mid = Some rest" by (auto split: option.splits)
      from wait [OF m(1)] obtain vs where vs: "qs = vs @ mid" by blast
      with 2(3) have all: "\<forall>q \<in> set mid. \<exists>as ts. queue_rep q as ts \<and> (\<forall>t \<in> set ts. qp_qid (token_at q t) > 0)"
        by simp
      have "0 < qp_qid (token_at q t)" using r(2) t by blast
      from 2(1) [OF tk refl refl this m(1) m(2) all] vs show ?thesis by (metis append_Cons append_assoc)
    qed
  qed
qed

theorem pending_waitptr_done_witness:
  "queue_pending_waitptr 7 [queue_new] = Some [] \<and>
    (\<exists>us q as ts. [queue_new] = us @ q # [] \<and> queue_rep q as ts \<and>
      (\<forall>t \<in> set ts. qp_data (token_at q t) \<noteq> Some 7))"
proof -
  have "queue_pending_waitptr 7 [queue_new] = Some []"
    using find_token_rep [OF queue_rep_new, of "\<lambda>tk. qp_data tk = Some 7"] by simp
  with pending_waitptr_done [OF this] queue_rep_new show ?thesis by fastforce
qed

end
