(* ===== verification/Server_System.thy ===== *)
theory Server_System
  imports Server_Loop Server_Loop_Read Server_Loop_Write Queue_Threads
begin

text \<open>
  The whole server: the event loop and the threads of the three pools, over the same queues
  and connections. What one of them does at a time is an action: the loop handles an event,
  takes the next step of the clean-up of a closed connection, or a thread of a pool fetches
  an item, runs the handler of its pool on the connection of the item, or gives the item
  back, in the two sections of \<open>queue_return_item\<close>. The actions are those of
  \<open>Server_Loop\<close>, \<open>Server_Loop_Read\<close>, \<open>Server_Loop_Write\<close> and \<open>Queue\<close>; here they are put
  together. Which action comes next is up to the scheduler, what \<open>read\<close>, \<open>write\<close> and
  \<open>epoll_wait\<close> answer comes with the action or with the descriptor.

  The mutex of the connection is held through a handler, so that it is one action. The
  clean-up is split where it gives up the locks of the queues.
\<close>

section \<open>State\<close>

text \<open>
  A thread has no item, waits in \<open>queue_fetchone\<close>, has an item, has handled it (and
  whether it left it blocked), or is inside \<open>queue_return_item\<close>.
\<close>

datatype tpc = T_Idle | T_Waiting | T_Item ptr | T_Done ptr bool | T_Returning ptr bool

text \<open>The loop is at its events, or removes the items of a client, or waits for the threads.\<close>

datatype loop_pc = L_Events | L_Remove ptr "server_pool list" | L_Wait ptr "server_pool list"

record system =
  sy_server :: server_state
  sy_loop :: loop_pc
  sy_pc :: "server_pool \<Rightarrow> nat \<Rightarrow> tpc"
  sy_fd :: "int \<Rightarrow> fd_world"

definition set_pc :: "server_pool \<Rightarrow> nat \<Rightarrow> tpc \<Rightarrow> system \<Rightarrow> system" where
  "set_pc pool t x s = s\<lparr>sy_pc := (sy_pc s)(pool := (sy_pc s pool)(t := x))\<rparr>"

definition set_queue :: "server_pool \<Rightarrow> queue \<Rightarrow> system \<Rightarrow> system" where
  "set_queue pool q s = s\<lparr>sy_server := (sy_server s)\<lparr>ss_pools := (ss_pools (sy_server s))(pool := q)\<rparr>\<rparr>"

section \<open>Actions of a thread\<close>

text \<open>The handlers of the three pools; the worker leaves no item blocked.\<close>

definition run_handler ::
  "server_env \<Rightarrow> config_server \<Rightarrow> server_pool \<Rightarrow> string \<Rightarrow> read_outcome \<Rightarrow> server_connection \<Rightarrow> fd_world \<Rightarrow>
   (bool \<times> server_connection \<times> fd_world) res option" where
  "run_handler env conf pool date r c w =
     (case pool of
        POOL_READ \<Rightarrow> Some (bind_res (read_item env r c) (\<lambda>(blocked, c). Inr (blocked, c, w)))
      | POOL_WORKER \<Rightarrow> Some (bind_res (worker_item env conf c) (\<lambda>c. Inr (False, c, w)))
      | POOL_WRITE \<Rightarrow> write_item date c w)"

text \<open>The calls of \<open>CONN_ENQUEUE\<close> that a handler made.\<close>

fun enqueue_all :: "ptr \<Rightarrow> (server_pool \<times> string) list \<Rightarrow> server_state \<Rightarrow> server_state res" where
  "enqueue_all p [] st = Inr st"
| "enqueue_all p ((pool, name) # rest) st = bind_res (enqueue pool name p st) (enqueue_all p rest)"

text \<open>The connection of the item that a thread has.\<close>

definition item_conn :: "server_pool \<Rightarrow> ptr \<Rightarrow> server_state \<Rightarrow> (ptr \<times> server_connection) res" where
  "item_conn pool a st =
     (case q_items (ss_pools st pool) a of
        None \<Rightarrow> Inl Use_after_free
      | Some it \<Rightarrow>
          (case qi_data it of
             None \<Rightarrow> Inl Null_deref
           | Some p \<Rightarrow>
               (case ss_conns st p of
                  None \<Rightarrow> Inl Use_after_free
                | Some c \<Rightarrow> Inr (p, c))))"

definition handled ::
  "server_pool \<Rightarrow> nat \<Rightarrow> ptr \<Rightarrow> ptr \<Rightarrow> int \<Rightarrow> bool \<Rightarrow> server_connection \<Rightarrow> fd_world \<Rightarrow> system \<Rightarrow> system res" where
  "handled pool t a p fd blocked c w s =
     (let st = (sy_server s)\<lparr>ss_conns := (ss_conns (sy_server s))(p \<mapsto> c\<lparr>c_queued := []\<rparr>)\<rparr>;
          st = (if blocked
                then st\<lparr>ss_pools := (ss_pools st)(pool := set_blocked True a (ss_pools st pool))\<rparr> else st)
      in bind_res (enqueue_all p (c_queued c) st) (\<lambda>st.
           Inr (set_pc pool t (T_Done a blocked) (s\<lparr>sy_server := st, sy_fd := (sy_fd s)(fd := w)\<rparr>))))"

definition handle_item ::
  "server_env \<Rightarrow> config_server \<Rightarrow> server_pool \<Rightarrow> nat \<Rightarrow> ptr \<Rightarrow> string \<Rightarrow> read_outcome \<Rightarrow> system \<Rightarrow>
   system res option" where
  "handle_item env conf pool t a date r s =
     (case item_conn pool a (sy_server s) of
        Inl e \<Rightarrow> Some (Inl e)
      | Inr (p, c) \<Rightarrow>
          do { x \<leftarrow> run_handler env conf pool date r c (sy_fd s (skt_fd (c_skt c)));
               Some (bind_res x (\<lambda>(blocked, c', w). handled pool t a p (skt_fd (c_skt c)) blocked c' w s)) })"

definition fetch_item :: "server_pool \<Rightarrow> nat \<Rightarrow> ptr \<Rightarrow> system \<Rightarrow> system res option" where
  "fetch_item pool t tok s =
     do { r \<leftarrow> fetch_section (ss_pools (sy_server s) pool) tok;
          Some (bind_res r (\<lambda>(q, item). Inr (set_pc pool t
            (case item of None \<Rightarrow> T_Idle | Some a \<Rightarrow> T_Item a) (set_queue pool q s)))) }"

definition return_item :: "server_pool \<Rightarrow> nat \<Rightarrow> ptr \<Rightarrow> bool \<Rightarrow> system \<Rightarrow> system res option" where
  "return_item pool t a blocked s =
     do { r \<leftarrow> return_token (ss_pools (sy_server s) pool) a;
          Some (bind_res r (\<lambda>q. Inr (set_pc pool t (T_Returning a (\<not> blocked)) (set_queue pool q s)))) }"

definition finish_item :: "server_pool \<Rightarrow> nat \<Rightarrow> ptr \<Rightarrow> bool \<Rightarrow> system \<Rightarrow> system res option" where
  "finish_item pool t a finished s =
     Some (bind_res (return_finish (ss_pools (sy_server s) pool) a finished) (\<lambda>q.
       Inr (set_pc pool t T_Idle (set_queue pool q s))))"

section \<open>Actions of the loop\<close>

text \<open>A new descriptor is a new world.\<close>

definition loop_event :: "epoll_event \<Rightarrow> (int \<Rightarrow> fd_world) \<Rightarrow> system \<Rightarrow> system res option" where
  "loop_event ev fds s =
     do { r \<leftarrow> handle_event ev (sy_server s);
          Some (bind_res r (\<lambda>(_, st). Inr (s\<lparr>sy_server := st, sy_fd := (\<lambda>fd.
            case ev_data ev of
              Listener new \<Rightarrow> if fd \<in> fst ` set new then fds fd else sy_fd s fd
            | Client _ \<Rightarrow> sy_fd s fd)\<rparr>))) }"

text \<open>The loop looks at a client; one that is closed is to be cleaned up.\<close>

definition loop_clean :: "ptr \<Rightarrow> system \<Rightarrow> system res option" where
  "loop_clean p s =
     (let st = sy_server s in
      case ss_conns st p of
        None \<Rightarrow> Some (Inl Use_after_free)
      | Some c0 \<Rightarrow>
          let c = (if skt_error (c_skt c0) then c0\<lparr>c_skt := skt_close (c_skt c0)\<rparr> else c0) in
          Some (Inr (s\<lparr>sy_server := st\<lparr>ss_conns := (ss_conns st)(p \<mapsto> c)\<rparr>,
            sy_loop := (if skt_closed (c_skt c) then L_Remove p all_pools else L_Events)\<rparr>)))"

text \<open>The two \<open>for\<close> loops over the pools.\<close>

definition loop_remove :: "system \<Rightarrow> system res option" where
  "loop_remove s =
     (case sy_loop s of
        L_Remove p (pool # pools) \<Rightarrow>
          do { r \<leftarrow> remove_from p pool (sy_server s);
               Some (bind_res r (\<lambda>st. Inr (s\<lparr>sy_server := st,
                 sy_loop := (if pools = [] then L_Wait p all_pools else L_Remove p pools)\<rparr>))) }
      | _ \<Rightarrow> Some (Inr s))"

text \<open>\<open>queue_pending_waitptr\<close> is over when it finds no token for the client.\<close>

definition loop_waited :: "system \<Rightarrow> system res option" where
  "loop_waited s =
     (case sy_loop s of
        L_Wait p (pool # pools) \<Rightarrow> Some (Inr (s\<lparr>sy_loop := L_Wait p pools\<rparr>))
      | _ \<Rightarrow> Some (Inr s))"

definition loop_free :: "ptr \<Rightarrow> system \<Rightarrow> system res option" where
  "loop_free p s =
     (let st = sy_server s in
      case ss_conns st p of
        None \<Rightarrow> Some (Inl Use_after_free)
      | Some c \<Rightarrow>
          do { d \<leftarrow> server_connection_delete c;
               Some (bind_res d (\<lambda>_. Inr (s\<lparr>sy_loop := L_Events,
                 sy_server := st\<lparr>ss_clients := remove1 p (ss_clients st),
                   ss_conns := (ss_conns st)(p := None)\<rparr>\<rparr>))) })"

section \<open>Runs\<close>

datatype action =
  A_Event epoll_event "int \<Rightarrow> fd_world"
| A_Clean ptr
| A_Remove
| A_Waited
| A_Free
| A_Sleep server_pool nat
| A_Fetch server_pool nat ptr
| A_Handle server_pool nat string read_outcome
| A_Return server_pool nat
| A_Finish server_pool nat

text \<open>The 64-bit counter of items does not wrap in \<open>n\<close> more items.\<close>

definition room :: "nat \<Rightarrow> server_state \<Rightarrow> bool" where
  "room n st \<longleftrightarrow> unat (ss_item_id st) + n < 2 ^ 64"

definition room_for ::
  "server_env \<Rightarrow> config_server \<Rightarrow> server_pool \<Rightarrow> ptr \<Rightarrow> string \<Rightarrow> read_outcome \<Rightarrow> system \<Rightarrow> bool" where
  "room_for env conf pool a date r s =
     (case item_conn pool a (sy_server s) of
        Inl _ \<Rightarrow> True
      | Inr (p, c) \<Rightarrow>
          (case run_handler env conf pool date r c (sy_fd s (skt_fd (c_skt c))) of
             Some (Inr (_, c', _)) \<Rightarrow> room (length (c_queued c')) (sy_server s)
           | _ \<Rightarrow> True))"

text \<open>Nothing comes from a descriptor that was closed.\<close>

definition readable :: "server_pool \<Rightarrow> ptr \<Rightarrow> read_outcome \<Rightarrow> system \<Rightarrow> bool" where
  "readable pool a r s =
     (case item_conn pool a (sy_server s) of
        Inl _ \<Rightarrow> True
      | Inr (p, c) \<Rightarrow> skt_closed (c_skt c) \<longrightarrow> r = Read_fails EBADF)"

fun enabled :: "server_env \<Rightarrow> config_server \<Rightarrow> action \<Rightarrow> system \<Rightarrow> bool" where
  "enabled env conf (A_Event ev fds) s \<longleftrightarrow>
     sy_loop s = L_Events \<and> \<not> ss_shutdown_requested (sy_server s) \<and> possible_event (sy_server s) ev \<and>
     room (case ev_data ev of Listener new \<Rightarrow> length new | Client _ \<Rightarrow> 1) (sy_server s)"
| "enabled env conf (A_Clean p) s \<longleftrightarrow> sy_loop s = L_Events \<and> p \<in> set (ss_clients (sy_server s))"
| "enabled env conf A_Remove s \<longleftrightarrow> (case sy_loop s of L_Remove p (pool # pools) \<Rightarrow> True | _ \<Rightarrow> False)"
| "enabled env conf A_Waited s \<longleftrightarrow>
     (case sy_loop s of
        L_Wait p (pool # pools) \<Rightarrow> queue_pending_waitptr p [ss_pools (sy_server s) pool] = Some []
      | _ \<Rightarrow> False)"
| "enabled env conf A_Free s \<longleftrightarrow> (case sy_loop s of L_Wait p [] \<Rightarrow> True | _ \<Rightarrow> False)"
| "enabled env conf (A_Sleep pool t) s \<longleftrightarrow>
     sy_pc s pool t = T_Idle \<and> fetch_waits (ss_pools (sy_server s) pool) True"
| "enabled env conf (A_Fetch pool t tok) s \<longleftrightarrow>
     (sy_pc s pool t = T_Idle \<and> \<not> fetch_waits (ss_pools (sy_server s) pool) True \<or> sy_pc s pool t = T_Waiting) \<and>
     q_tokens (ss_pools (sy_server s) pool) tok = None"
| "enabled env conf (A_Handle pool t date r) s \<longleftrightarrow>
     (case sy_pc s pool t of
        T_Item a \<Rightarrow> readable pool a r s \<and> room_for env conf pool a date r s
      | _ \<Rightarrow> False)"
| "enabled env conf (A_Return pool t) s \<longleftrightarrow> (case sy_pc s pool t of T_Done a b \<Rightarrow> True | _ \<Rightarrow> False)"
| "enabled env conf (A_Finish pool t) s \<longleftrightarrow> (case sy_pc s pool t of T_Returning a f \<Rightarrow> True | _ \<Rightarrow> False)"

fun act :: "server_env \<Rightarrow> config_server \<Rightarrow> action \<Rightarrow> system \<Rightarrow> system res option" where
  "act env conf (A_Event ev fds) s = loop_event ev fds s"
| "act env conf (A_Clean p) s = loop_clean p s"
| "act env conf A_Remove s = loop_remove s"
| "act env conf A_Waited s = loop_waited s"
| "act env conf A_Free s = (case sy_loop s of L_Wait p _ \<Rightarrow> loop_free p s | _ \<Rightarrow> Some (Inr s))"
| "act env conf (A_Sleep pool t) s = Some (Inr (set_pc pool t T_Waiting s))"
| "act env conf (A_Fetch pool t tok) s = fetch_item pool t tok s"
| "act env conf (A_Handle pool t date r) s =
     (case sy_pc s pool t of T_Item a \<Rightarrow> handle_item env conf pool t a date r s | _ \<Rightarrow> Some (Inr s))"
| "act env conf (A_Return pool t) s =
     (case sy_pc s pool t of T_Done a b \<Rightarrow> return_item pool t a b s | _ \<Rightarrow> Some (Inr s))"
| "act env conf (A_Finish pool t) s =
     (case sy_pc s pool t of T_Returning a f \<Rightarrow> finish_item pool t a f s | _ \<Rightarrow> Some (Inr s))"

declare enabled.simps [simp del] act.simps [simp del]

text \<open>The server after \<open>server_start\<close>, before the first client.\<close>

definition started_system :: system where
  "started_system = \<lparr>sy_server = empty_server, sy_loop = L_Events, sy_pc = (\<lambda>_ _. T_Idle),
     sy_fd = (\<lambda>_. \<lparr>outcome = (\<lambda>_. Fails EBADF), calls = 0, sent = [], errno = ENONE\<rparr>)\<rparr>"

text \<open>A run is a list of actions, each enabled where it is done; it stops at a fault.\<close>

fun run :: "server_env \<Rightarrow> config_server \<Rightarrow> action list \<Rightarrow> system \<Rightarrow> system res option" where
  "run env conf [] s = Some (Inr s)"
| "run env conf (x # xs) s =
     (if \<not> enabled env conf x s then None
      else case act env conf x s of
        Some (Inr s') \<Rightarrow> run env conf xs s'
      | r \<Rightarrow> r)"

inductive reach :: "server_env \<Rightarrow> config_server \<Rightarrow> system \<Rightarrow> bool" for env conf where
  start: "reach env conf started_system"
| more: "reach env conf s \<Longrightarrow> enabled env conf x s \<Longrightarrow> act env conf x s = Some (Inr s') \<Longrightarrow> reach env conf s'"

lemma run_reach: "reach env conf s \<Longrightarrow> run env conf xs s = Some (Inr s') \<Longrightarrow> reach env conf s'"
proof (induction xs arbitrary: s)
  case Nil
  then show ?case by simp
next
  case (Cons x xs)
  then show ?case by (auto split: if_splits option.splits sum.splits intro: reach.more)
qed

end
