(* ===== verification/Server_Queues.thy ===== *)
theory Server_Queues
  imports Server_System
begin

text \<open>
  The queues of the whole server. Each pool, seen alone, is the queue under threads of
  \<open>Queue_Threads\<close>, but the three share the counter of items, and the other end is the loop
  and the handlers of all pools. The invariant is that of \<open>Queue_Threads\<close> for every pool,
  with clients that are distinct and allocated; every action keeps it, and none but the
  handlers and the freeing of a connection can fail.
\<close>

section \<open>One queue\<close>

lemma queue_ok_nextid:
  assumes "queue_ok v" and "nextid v \<le> n"
  shows "queue_ok (v\<lparr>nextid := n\<rparr>)"
proof -
  from assms(1) obtain as ts where q: "qinv v as ts" by (auto simp: queue_ok_def)
  then have "\<forall>a. q_items (sq v) a \<noteq> None \<longrightarrow> qi_id (item_at (sq v) a) < n"
    using assms(2) qinvD(7) [OF q] by (meson less_le_trans)
  with q have "qinv (v\<lparr>nextid := n\<rparr>) as ts" unfolding qinv_def by (simp del: not_None_eq)
  then show ?thesis by blast
qed

lemma unat_count: "n < 2 ^ 64 \<Longrightarrow> unat (of_nat n :: 64 word) = n"
  by (simp add: unsigned_of_nat take_bit_nat_eq_self)

lemma unat_top: "unat (-1 :: 64 word) = 2 ^ 64 - 1"
  by (simp add: unsigned_minus_1_eq_mask mask_eq_exp_minus_1)

text \<open>The items have different numbers below the counter, so that they are not more.\<close>

lemma items_below:
  assumes "qinv v as ts" and "\<And>b. b \<in> set bs \<Longrightarrow> q_items (sq v) b \<noteq> None" and "distinct bs"
  shows "length bs \<le> unat (nextid v)"
proof -
  let ?f = "\<lambda>b. unat (qi_id (item_at (sq v) b))"
  have "inj_on ?f (set bs)"
    using assms(2) qinvD(6) [OF assms(1)] by (auto simp: inj_on_def word_unat_eq_iff)
  moreover have "?f ` set bs \<subseteq> {..<unat (nextid v)}"
    using assms(2) qinvD(7) [OF assms(1)] by (auto simp: word_less_nat_alt)
  ultimately have "card (set bs) \<le> card {..<unat (nextid v)}" by (intro card_inj_on_le) auto
  then show ?thesis by (simp add: distinct_card [OF assms(3)])
qed

lemma count_below:
  assumes "qinv v as ts" and "length as < 2 ^ 64 - 1"
  shows "q_count (sq v) \<noteq> -1"
proof
  assume m: "q_count (sq v) = -1"
  have "q_count (sq v) = of_nat (length as)" using qinvD(1) [OF assms(1)] by (simp add: queue_rep_def)
  then have "unat (q_count (sq v)) = length as"
    using assms(2) by (simp add: unat_count)
  with m assms(2) show False by (simp add: unat_top)
qed

text \<open>What an item that is allocated points to.\<close>

definition data_of :: "queue \<Rightarrow> ptr \<Rightarrow> ptr option option" where
  "data_of q b = map_option qi_data (q_items q b)"

lemma data_of_None [simp]: "data_of q b = None \<longleftrightarrow> q_items q b = None"
  by (simp add: data_of_def)

lemma data_of_holds: "data_of q b = Some (Some p) \<longleftrightarrow> q_items q b \<noteq> None \<and> holds q p b"
  by (cases "q_items q b") (simp_all add: data_of_def holds_def)

lemma data_of_same: "q_items q' = q_items q \<Longrightarrow> data_of q' = data_of q"
  by (simp add: data_of_def fun_eq_iff)

lemma data_of_set_blocked [simp]: "data_of (set_blocked b a q) = data_of q"
  by (cases "q_items q a") (simp_all add: data_of_def fun_eq_iff)

lemma ok_enqueue:
  assumes "queue_ok v" and "q_items (sq v) a = None" and "unat (nextid v) + 1 < 2 ^ 64"
  shows "\<exists>q q' b. queue_item_new2 (nextid v) a tag p (sq v) = (q, nextid v + 1) \<and> queue_add q a = Inr (q', b, 0) \<and>
    queue_ok (v\<lparr>sq := q', nextid := nextid v + 1\<rparr>) \<and> data_of q' = (data_of (sq v))(a \<mapsto> Some p)"
proof -
  from assms(1) obtain as ts where q: "qinv v as ts" by (auto simp: queue_ok_def)
  note d = qinvD [OF q]
  have "length as \<le> unat (nextid v)"
    using items_below [OF q, of as] d(1) queue_rep_distinct [OF d(1)] by (auto simp: queue_rep_def)
  with assms(3) have c: "q_count (sq v) \<noteq> -1" by (intro count_below [OF q]) linarith
  have n: "nextid v \<noteq> -1" using assms(3) by (auto simp: unat_top)
  obtain q1 where q1: "queue_item_new2 (nextid v) a tag p (sq v) = (q1, nextid v + 1)"
    by (simp add: queue_item_new2_def queue_item_new_def)
  from qinv_enqueue [OF q assms(2) n c q1] obtain q' where
    e: "bind_res (queue_add q1 a) (\<lambda>(q, _, _). Inr (v\<lparr>sq := q, nextid := nextid v + 1\<rparr>)) =
      Inr (v\<lparr>sq := q', nextid := nextid v + 1\<rparr>)" "qinv (v\<lparr>sq := q', nextid := nextid v + 1\<rparr>) (as @ [a]) ts"
    by blast
  from queue_rep_item_new [OF d(1) assms(2), of "nextid v" tag p] q1
  have r: "queue_rep q1 as ts" and i: "q_items q1 = (q_items (sq v))(a \<mapsto>
      \<lparr>qi_id = nextid v, qi_tag = take 15 tag, qi_blocked = False, qi_data = Some p\<rparr>)" by auto
  have "a \<notin> set as" using d(1) assms(2) by (auto simp: queue_rep_def)
  moreover have "q_items q1 a \<noteq> None" using i by simp
  ultimately obtain q2 where q2: "queue_add q1 a = Inr (q2, \<not> qi_blocked (item_at q1 a), 0)" "q_items q2 = q_items q1"
    using queue_add_rep [OF r] by blast
  have "v\<lparr>sq := q2, nextid := nextid v + 1\<rparr> = v\<lparr>sq := q', nextid := nextid v + 1\<rparr>" using e(1) q2(1) by simp
  then have "q2 = q'" by (cases v) simp
  moreover have "data_of q2 = (data_of (sq v))(a \<mapsto> Some p)"
    by (simp add: q2(2) i data_of_def fun_eq_iff)
  ultimately show ?thesis using q1 q2(1) e(2) by auto
qed

lemma ok_fetch:
  assumes "queue_ok v" and "held (pc v t) = None" and "q_tokens (sq v) tok = None"
  shows "\<exists>q' i. fetch_section (sq v) tok = Some (Inr (q', i)) \<and>
    queue_ok (v\<lparr>sq := q', pc := (pc v)(t := case i of None \<Rightarrow> Idle | Some a \<Rightarrow> Working a)\<rparr>) \<and> data_of q' = data_of (sq v)"
proof -
  from assms(1) obtain as ts where q: "qinv v as ts" by (auto simp: queue_ok_def)
  note d = qinvD [OF q]
  from qinv_fetch [OF q assms(2,3)] obtain q' i as' ts' where
    f: "fetch_section (sq v) tok = Some (Inr (q', i))"
      "qinv (v\<lparr>sq := q', pc := (pc v)(t := case i of None \<Rightarrow> Idle | Some a \<Rightarrow> Working a)\<rparr>) as' ts'" by blast
  have "tok \<notin> set ts" using d(1) assms(3) by (auto simp: queue_rep_def)
  from fetch_section_rep [OF d(1) this d(2)] f(1) have "q_items q' = q_items (sq v)"
    by (auto split: option.splits)
  with f data_of_same [of q' "sq v"] show ?thesis by blast
qed

lemma ok_return:
  assumes "queue_ok v" and "pc v t = Working a"
  shows "\<exists>q'. return_token (sq v) a = Some (Inr q') \<and>
    queue_ok (v\<lparr>sq := q', pc := (pc v)(t := Returning a f)\<rparr>) \<and> data_of q' = data_of (sq v)"
proof -
  from assms(1) obtain as ts where q: "qinv v as ts" by (auto simp: queue_ok_def)
  note d = qinvD [OF q]
  from qinv_return_token [OF q assms(2), of f] obtain q' ts' where
    r: "return_token (sq v) a = Some (Inr q')" "qinv (v\<lparr>sq := q', pc := (pc v)(t := Returning a f)\<rparr>) as ts'" by blast
  from d(3) [of t a] assms(2) obtain it where "q_items (sq v) a = Some it" by auto
  with pending_remove_rep [OF d(1), of "qi_id it"] r(1) have "q_items q' = q_items (sq v)"
    by (auto simp: return_token_def)
  with r data_of_same [of q' "sq v"] show ?thesis by blast
qed

lemma ok_finish:
  assumes "queue_ok v" and "pc v t = Returning a f"
  shows "\<exists>q'. return_finish (sq v) a f = Inr q' \<and> queue_ok (v\<lparr>sq := q', pc := (pc v)(t := Idle)\<rparr>) \<and>
    data_of q' = (if f then (data_of (sq v))(a := None) else data_of (sq v))"
proof -
  from assms(1) obtain as ts where q: "qinv v as ts" by (auto simp: queue_ok_def)
  note d = qinvD [OF q]
  from d(3) [of t a] assms(2) have a: "q_items (sq v) a \<noteq> None" "a \<notin> set as" by auto
  show ?thesis
  proof (cases f)
    case True
    from qinv_finished [OF q assms(2)] obtain q' where
      r: "queue_item_delete (sq v) a = Inr q'" "qinv (v\<lparr>sq := q', pc := (pc v)(t := Idle)\<rparr>) as ts" by blast
    then have "q_items q' = (q_items (sq v))(a := None)" by (auto simp: queue_item_delete_def split: option.splits)
    with r True show ?thesis by (auto simp: return_finish_def data_of_def fun_eq_iff)
  next
    case False
    have "distinct (a # as)" using a(2) queue_rep_distinct [OF d(1)] by simp
    then have "length (a # as) \<le> unat (nextid v)"
      using items_below [OF q, of "a # as"] a(1) d(1) by (auto simp: queue_rep_def)
    moreover have "unat (nextid v) < 2 ^ 64" using unsigned_less [of "nextid v"] by simp
    ultimately have c: "q_count (sq v) \<noteq> -1" by (intro count_below [OF q]) simp
    from qinv_put_back [OF q assms(2) c] obtain q' b where
      r: "queue_add (sq v) a = Inr (q', b, 0)" "qinv (v\<lparr>sq := q', pc := (pc v)(t := Idle)\<rparr>) (as @ [a]) ts" by blast
    from queue_add_rep [OF d(1) a(2,1)] r(1) have "q_items q' = q_items (sq v)" by auto
    with r False data_of_same [of q' "sq v"] show ?thesis by (auto simp: return_finish_def)
  qed
qed

lemma ok_remove:
  assumes "queue_ok v"
  shows "\<exists>q' n. queue_remove_byptr (sq v) p = Some (Inr (q', n)) \<and> queue_ok (v\<lparr>sq := q'\<rparr>) \<and>
    (\<forall>b. data_of q' b = None \<or> data_of q' b = data_of (sq v) b) \<and>
    (\<forall>b. data_of q' b = Some (Some p) \<longrightarrow> (\<exists>t. held (pc v t) = Some b))"
proof -
  from assms(1) obtain as ts where q: "qinv v as ts" by (auto simp: queue_ok_def)
  note d = qinvD [OF q]
  from qinv_remove_ptr [OF q, of p] obtain q' n where
    r: "queue_remove_byptr (sq v) p = Some (Inr (q', n))" "queue_ok (v\<lparr>sq := q'\<rparr>)" by blast
  from queue_remove_byptr_rep [OF d(1), of p] r(1)
  have i: "q_items q' = (\<lambda>a. if a \<in> set as \<and> holds (sq v) p a then None else q_items (sq v) a)" by auto
  then have "data_of q' b = None \<or> data_of q' b = data_of (sq v) b" for b by (simp add: data_of_def)
  moreover have "\<exists>t. held (pc v t) = Some b" if "data_of q' b = Some (Some p)" for b
  proof -
    from that have "q_items q' b \<noteq> None" "holds q' p b" by (simp_all add: data_of_holds)
    then have "q_items (sq v) b \<noteq> None" "b \<notin> set as" by (auto simp: i holds_def split: if_splits)
    with d(5) show ?thesis by blast
  qed
  ultimately show ?thesis using r by blast
qed

lemma ok_unblock:
  assumes "queue_ok v"
  shows "\<exists>q' n. queue_unblock_byptr (sq v) p = Some (Inr (q', n)) \<and> queue_ok (v\<lparr>sq := q'\<rparr>) \<and> data_of q' = data_of (sq v)"
proof -
  from assms(1) obtain as ts where q: "qinv v as ts" by (auto simp: queue_ok_def)
  from qinv_unblock_ptr [OF q, of p] obtain q' n where
    r: "queue_unblock_byptr (sq v) p = Some (Inr (q', n))" "qinv (v\<lparr>sq := q'\<rparr>) as ts" by blast
  from queue_unblock_byptr_rep [OF qinvD(1) [OF q], of p] r(1)
  have "q' = (sq v)\<lparr>q_items := unblocked_items (sq v) p as\<rparr>" by auto
  then have "data_of q' b = data_of (sq v) b" for b
    by (cases "q_items (sq v) b") (simp_all add: data_of_def unblocked_items_def)
  with r show ?thesis by (auto simp: fun_eq_iff)
qed

lemma ok_blocked: "queue_ok v \<Longrightarrow> queue_ok (v\<lparr>sq := set_blocked b a (sq v)\<rparr>)"
  unfolding queue_ok_def using qinv_set_blocked by blast

lemma ok_waiting:
  assumes "queue_ok v" and "held (pc v t) = None"
  shows "queue_ok (v\<lparr>pc := (pc v)(t := Waiting)\<rparr>)"
proof -
  from assms(1) obtain as ts where "qinv v as ts" by (auto simp: queue_ok_def)
  then have "qinv (v\<lparr>pc := (pc v)(t := Waiting)\<rparr>) as ts"
    by (rule qinv_same_pc) (use assms(2) in auto)
  then show ?thesis by blast
qed

section \<open>The invariant\<close>

fun qpc_of :: "tpc \<Rightarrow> qpc" where
  "qpc_of T_Idle = Idle"
| "qpc_of T_Waiting = Waiting"
| "qpc_of (T_Item a) = Working a"
| "qpc_of (T_Done a b) = Working a"
| "qpc_of (T_Returning a f) = Returning a f"

definition view :: "server_state \<Rightarrow> (server_pool \<Rightarrow> nat \<Rightarrow> tpc) \<Rightarrow> server_pool \<Rightarrow> qsys" where
  "view st pcs pool = \<lparr>sq = ss_pools st pool, nextid = ss_item_id st, pc = (\<lambda>t. qpc_of (pcs pool t))\<rparr>"

definition st_inv :: "server_state \<Rightarrow> (server_pool \<Rightarrow> nat \<Rightarrow> tpc) \<Rightarrow> bool" where
  "st_inv st pcs \<longleftrightarrow> (\<forall>pool. queue_ok (view st pcs pool)) \<and>
     (\<forall>pool b x. data_of (ss_pools st pool) b = Some x \<longrightarrow> b < ss_fresh st \<and> x \<noteq> None) \<and>
     distinct (ss_clients st) \<and> (\<forall>p \<in> set (ss_clients st). ss_conns st p \<noteq> None \<and> p < ss_fresh st)"

fun loop_client :: "loop_pc \<Rightarrow> ptr option" where
  "loop_client L_Events = None"
| "loop_client (L_Remove p _) = Some p"
| "loop_client (L_Wait p _) = Some p"

definition sys_inv :: "system \<Rightarrow> bool" where
  "sys_inv s \<longleftrightarrow> st_inv (sy_server s) (sy_pc s) \<and>
     (\<forall>p. loop_client (sy_loop s) = Some p \<longrightarrow> p \<in> set (ss_clients (sy_server s)))"

lemma st_invD:
  assumes "st_inv st pcs"
  shows "queue_ok (view st pcs pool)"
    "data_of (ss_pools st pool) b = Some x \<Longrightarrow> b < ss_fresh st \<and> x \<noteq> None"
    "distinct (ss_clients st)" "p \<in> set (ss_clients st) \<Longrightarrow> ss_conns st p \<noteq> None \<and> p < ss_fresh st"
  using assms unfolding st_inv_def by blast+

text \<open>One queue changes, and what its thread \<open>t\<close> does.\<close>

lemma st_inv_queue:
  assumes "st_inv st pcs" and "queue_ok ((view st pcs pool)\<lparr>sq := q, pc := (\<lambda>u. qpc_of (pcs' pool u))\<rparr>)"
    and "\<And>b. data_of q b = None \<or> data_of q b = data_of (ss_pools st pool) b" and "\<And>R. R \<noteq> pool \<Longrightarrow> pcs' R = pcs R"
  shows "st_inv (st\<lparr>ss_pools := (ss_pools st)(pool := q)\<rparr>) pcs'"
proof -
  have "queue_ok (view (st\<lparr>ss_pools := (ss_pools st)(pool := q)\<rparr>) pcs' R)" for R
    using st_invD(1) [OF assms(1), of R] assms(2,4) by (cases "R = pool") (simp_all add: view_def)
  moreover have "b < ss_fresh st \<and> x \<noteq> None" if "data_of (((ss_pools st)(pool := q)) R) b = Some x" for R b x
    using that assms(3) [of b] st_invD(2) [OF assms(1), of _ b x] by (cases "R = pool") auto
  ultimately show ?thesis using assms(1) by (simp add: st_inv_def)
qed

lemma st_inv_clients:
  assumes "st_inv st pcs" and "ss_pools st' = ss_pools st" and "ss_item_id st' = ss_item_id st" and "ss_fresh st' = ss_fresh st"
    and "distinct (ss_clients st')" and "\<forall>p \<in> set (ss_clients st'). ss_conns st' p \<noteq> None \<and> p < ss_fresh st"
  shows "st_inv st' pcs"
  using assms by (simp add: st_inv_def view_def)

section \<open>Queueing\<close>

definition only_adds :: "ptr set \<Rightarrow> server_state \<Rightarrow> server_state \<Rightarrow> bool" where
  "only_adds P st st' \<longleftrightarrow> (\<forall>pool b x. data_of (ss_pools st' pool) b = Some x \<longrightarrow>
     x \<in> Some ` P \<or> data_of (ss_pools st pool) b = Some x)"

lemma only_adds_refl: "ss_pools st' = ss_pools st \<Longrightarrow> only_adds P st st'"
  by (simp add: only_adds_def)

lemma only_adds_mono: "only_adds P st st' \<Longrightarrow> P \<subseteq> Q \<Longrightarrow> only_adds Q st st'"
  unfolding only_adds_def by blast

lemma only_adds_trans: "only_adds P st st' \<Longrightarrow> only_adds P' st' st'' \<Longrightarrow> P \<subseteq> Q \<Longrightarrow> P' \<subseteq> Q \<Longrightarrow> only_adds Q st st''"
  unfolding only_adds_def by blast

lemma enqueue_st:
  assumes inv: "st_inv st pcs" and r: "room (Suc n) st"
  shows "\<exists>st'. enqueue pool name p st = Inr st' \<and> st_inv st' pcs \<and> room n st' \<and> only_adds {p} st st' \<and>
    ss_clients st' = ss_clients st \<and> ss_conns st' = ss_conns st"
proof -
  let ?a = "ss_fresh st"
  have free: "q_items (ss_pools st R) ?a = None" for R
    using st_invD(2) [OF inv, of R ?a] by (cases "data_of (ss_pools st R) ?a") auto
  have lt: "unat (ss_item_id st) + 1 < 2 ^ 64" using r by (simp add: room_def)
  have "ss_item_id st \<noteq> -1" using lt by (auto simp: unat_top)
  then have "1 + ss_item_id st \<noteq> 0" by (metis add.commute eq_neg_iff_add_eq_0)
  from unatSuc [OF this] have nx: "unat (ss_item_id st + 1) = unat (ss_item_id st) + 1" by (simp add: add.commute)
  from ok_enqueue [OF st_invD(1) [OF inv, of pool], of ?a name p] free lt obtain q q' b where
    q: "queue_item_new2 (ss_item_id st) ?a name p (ss_pools st pool) = (q, ss_item_id st + 1)"
      "queue_add q ?a = Inr (q', b, 0)" "queue_ok ((view st pcs pool)\<lparr>sq := q', nextid := ss_item_id st + 1\<rparr>)"
      "data_of q' = (data_of (ss_pools st pool))(?a \<mapsto> Some p)"
    by (auto simp: view_def)
  let ?st = "st\<lparr>ss_pools := (ss_pools st)(pool := q'), ss_item_id := ss_item_id st + 1, ss_fresh := Suc ?a\<rparr>"
  have "queue_ok (view ?st pcs R)" for R
  proof (cases "R = pool")
    case True
    with q(3) show ?thesis by (simp add: view_def)
  next
    case False
    have "ss_item_id st \<le> ss_item_id st + 1" using nx by (simp add: word_le_nat_alt)
    with queue_ok_nextid [OF st_invD(1) [OF inv, of R], of "ss_item_id st + 1"] False show ?thesis
      by (simp add: view_def)
  qed
  moreover have "x < Suc ?a \<and> y \<noteq> None" if "data_of (ss_pools ?st R) x = Some y" for R x y
    using that st_invD(2) [OF inv, of R x y] by (auto simp: q(4) split: if_splits intro: less_SucI)
  moreover have "only_adds {p} st ?st" by (auto simp: only_adds_def q(4))
  moreover have "room n ?st" using r nx by (simp add: room_def)
  moreover have "enqueue pool name p st = Inr ?st" using q(1,2) by (simp add: enqueue_def)
  ultimately show ?thesis using inv by (intro exI [of _ ?st]) (auto simp: st_inv_def)
qed

lemma enqueue_all_st:
  "st_inv st pcs \<Longrightarrow> room (length xs) st \<Longrightarrow>
   \<exists>st'. enqueue_all p xs st = Inr st' \<and> st_inv st' pcs \<and> only_adds {p} st st' \<and>
     ss_clients st' = ss_clients st \<and> ss_conns st' = ss_conns st"
proof (induction xs arbitrary: st)
  case Nil
  then show ?case by (simp add: only_adds_refl)
next
  case (Cons x xs)
  obtain pool name where x: "x = (pool, name)" by (cases x)
  from enqueue_st [OF Cons.prems(1), of "length xs" pool name p] Cons.prems(2) obtain st1 where
    1: "enqueue pool name p st = Inr st1" "st_inv st1 pcs" "room (length xs) st1" "only_adds {p} st st1"
      "ss_clients st1 = ss_clients st" "ss_conns st1 = ss_conns st" by auto
  from Cons.IH [OF 1(2,3)] obtain st2 where
    2: "enqueue_all p xs st1 = Inr st2" "st_inv st2 pcs" "only_adds {p} st1 st2"
      "ss_clients st2 = ss_clients st1" "ss_conns st2 = ss_conns st1" by blast
  from only_adds_trans [OF 1(4) 2(3)] 1 2 x show ?case by auto
qed

section \<open>Events\<close>

definition grows :: "server_state \<Rightarrow> server_state \<Rightarrow> bool" where
  "grows st st' \<longleftrightarrow> only_adds (set (ss_clients st')) st st' \<and> set (ss_clients st) \<subseteq> set (ss_clients st')"

lemma grows_refl: "ss_pools st' = ss_pools st \<Longrightarrow> ss_clients st' = ss_clients st \<Longrightarrow> grows st st'"
  by (simp add: grows_def only_adds_refl)

lemma grows_trans: "grows st st' \<Longrightarrow> grows st' st'' \<Longrightarrow> grows st st''"
  unfolding grows_def using only_adds_trans [of "set (ss_clients st')" st st' "set (ss_clients st'')" st''] by blast

lemma unblock_or_add_st:
  assumes inv: "st_inv st pcs" and r: "room (Suc n) st" and p: "p \<in> set (ss_clients st)"
  shows "\<exists>st'. unblock_or_add a b name p st = Some (Inr st') \<and> st_inv st' pcs \<and> grows st st'"
proof -
  from ok_unblock [OF st_invD(1) [OF inv, of a], of p] obtain q k where
    q: "queue_unblock_byptr (ss_pools st a) p = Some (Inr (q, k))" "queue_ok ((view st pcs a)\<lparr>sq := q\<rparr>)"
      "data_of q = data_of (ss_pools st a)" by (auto simp: view_def)
  let ?st = "st\<lparr>ss_pools := (ss_pools st)(a := q)\<rparr>"
  have i1: "st_inv ?st pcs"
    by (rule st_inv_queue [OF inv]) (use q(2,3) in \<open>simp_all add: view_def\<close>)
  have "only_adds {p} st ?st" by (auto simp: only_adds_def q(3) split: if_splits)
  then have g1: "grows st ?st" using p only_adds_mono [of "{p}" st ?st "set (ss_clients st)"] by (simp add: grows_def)
  have "room (Suc n) ?st" using r by (simp add: room_def)
  from enqueue_st [OF i1 this, of b name p] obtain st2 where
    e: "enqueue b name p ?st = Inr st2" "st_inv st2 pcs" "only_adds {p} ?st st2" "ss_clients st2 = ss_clients ?st" by blast
  then have "grows ?st st2" using p only_adds_mono [of "{p}" ?st st2 "set (ss_clients st2)"] by (simp add: grows_def)
  with g1 have "grows st st2" by (rule grows_trans)
  with q(1) i1 g1 e(1,2) show ?thesis by (auto simp: unblock_or_add_def Let_def)
qed

lemma accept_one_st:
  assumes inv: "st_inv st pcs" and r: "room (Suc n) st" and "0 < fd"
  shows "\<exists>st'. accept_one fd registered st = Some (Inr st') \<and> st_inv st' pcs \<and> room n st' \<and> grows st st'"
proof -
  let ?a = "ss_fresh st"
  obtain skt sid where skt: "skt_new (ss_skt_id st) fd = Inr (skt, sid)"
    using assms(3) by (simp add: skt_new_def skt_nextid_def)
  obtain client cid where client: "server_connection_new (ss_conn_id st) skt = (client, cid)" by fastforce
  let ?st = "st\<lparr>ss_skt_id := sid, ss_conn_id := cid, ss_fresh := Suc ?a\<rparr>"
  have fresh: "p \<in> set (ss_clients st) \<Longrightarrow> p < ?a" for p using st_invD(4) [OF inv] by blast
  have base: "(\<forall>R. queue_ok (view st' pcs R)) \<and>
      (\<forall>R b x. data_of (ss_pools st' R) b = Some x \<longrightarrow> b < Suc ?a \<and> x \<noteq> None)"
    if "ss_pools st' = ss_pools st" "ss_item_id st' = ss_item_id st" for st'
    using inv that unfolding st_inv_def view_def by (auto intro: less_SucI)
  show ?thesis
  proof (cases registered)
    case False
    have "st_inv ?st pcs"
      using base [of ?st] inv unfolding st_inv_def by (auto intro: less_SucI)
    moreover have "accept_one fd registered st = Some (Inr ?st)"
      using False new_connection_delete [where n = "ss_conn_id st" and skt = skt] client
      by (simp add: accept_one_def skt Let_def)
    moreover have "room n ?st" using r by (simp add: room_def)
    ultimately show ?thesis using grows_refl [of ?st st] by simp
  next
    case True
    let ?st1 = "?st\<lparr>ss_clients := ss_clients st @ [?a], ss_conns := (ss_conns st)(?a \<mapsto> client)\<rparr>"
    have "?a \<notin> set (ss_clients st)" using fresh by blast
    then have i1: "st_inv ?st1 pcs"
      using base [of ?st1] st_invD(3,4) [OF inv] fresh unfolding st_inv_def by (auto intro: less_SucI)
    have "room (Suc n) ?st1" using r by (simp add: room_def)
    from enqueue_st [OF i1 this, of POOL_READ "''READ''" ?a] obtain st2 where
      2: "enqueue POOL_READ ''READ'' ?a ?st1 = Inr st2" "st_inv st2 pcs" "room n st2" "only_adds {?a} ?st1 st2"
        "ss_clients st2 = ss_clients ?st1" by blast
    from 2(4,5) have "grows st st2" by (auto simp: grows_def only_adds_def)
    with 2 True show ?thesis by (simp add: accept_one_def skt client Let_def)
  qed
qed

lemma accept_all_st:
  "st_inv st pcs \<Longrightarrow> room (length fds) st \<Longrightarrow> \<forall>(fd, r) \<in> set fds. 0 < fd \<Longrightarrow>
   \<exists>st'. accept_all fds st = Some (Inr st') \<and> st_inv st' pcs \<and> grows st st'"
proof (induction fds arbitrary: st)
  case Nil
  then show ?case by (simp add: grows_refl)
next
  case (Cons x fds)
  obtain fd r where x: "x = (fd, r)" by (cases x)
  from Cons.prems(2,3) x have "room (Suc (length fds)) st" "0 < fd" by simp_all
  from accept_one_st [OF Cons.prems(1) this, of r] obtain st1 where
    1: "accept_one fd r st = Some (Inr st1)" "st_inv st1 pcs" "room (length fds) st1" "grows st st1" by blast
  from Cons.IH [OF 1(2,3)] Cons.prems(3) obtain st2 where
    "accept_all fds st1 = Some (Inr st2)" "st_inv st2 pcs" "grows st1 st2" by auto
  with 1 x grows_trans [OF 1(4)] show ?case by auto
qed

lemma close_client_st:
  assumes "st_inv st pcs" and "p \<in> set (ss_clients st)"
  shows "\<exists>st'. close_client p st = Inr st' \<and> st_inv st' pcs \<and> grows st st'"
proof -
  from st_invD(4) [OF assms] obtain c where c: "ss_conns st p = Some c" by auto
  let ?st = "st\<lparr>ss_conns := (ss_conns st)(p \<mapsto> c\<lparr>c_skt := skt_close (c_skt c)\<rparr>)\<rparr>"
  have "st_inv ?st pcs"
    by (rule st_inv_clients [OF assms(1)]) (use st_invD(3,4) [OF assms(1)] in auto)
  with assms(2) c grows_refl [of ?st st] show ?thesis by (simp add: close_client_def)
qed

lemma handle_event_st:
  assumes inv: "st_inv st pcs" and ev: "possible_event st ev"
    and r: "room (case ev_data ev of Listener new \<Rightarrow> length new | Client _ \<Rightarrow> 1) st"
  shows "\<exists>stop st'. handle_event ev st = Some (Inr (stop, st')) \<and> st_inv st' pcs \<and> grows st st'"
proof (cases "ev_data ev")
  case (Listener fds)
  have "st_inv (st\<lparr>ss_shutdown_requested := True\<rparr>) pcs"
    by (rule st_inv_clients [OF inv]) (use st_invD(3,4) [OF inv] in auto)
  with Listener ev r accept_all_st [OF inv, of fds] grows_refl [of "st\<lparr>ss_shutdown_requested := True\<rparr>" st]
  show ?thesis by (auto simp: handle_event_def possible_event_def Let_def)
next
  case (Client p)
  with ev have p: "p \<in> set (ss_clients st)" by (simp add: possible_event_def)
  from r Client have r1: "room (Suc 0) st" by simp
  from close_client_st [OF inv p] obtain st1 where
    1: "close_client p st = Inr st1" "st_inv st1 pcs" "grows st st1" by blast
  from unblock_or_add_st [OF inv r1 p, of POOL_READ POOL_READ "''READ''"] obtain st2 where
    2: "unblock_or_add POOL_READ POOL_READ ''READ'' p st = Some (Inr st2)" "st_inv st2 pcs" "grows st st2" by blast
  from unblock_or_add_st [OF inv r1 p, of POOL_READ POOL_WRITE "''WRITE''"] obtain st3 where
    3: "unblock_or_add POOL_READ POOL_WRITE ''WRITE'' p st = Some (Inr st3)" "st_inv st3 pcs" "grows st st3" by blast
  show ?thesis using Client p 1 2 3 by (intro exI [of _ False]) (simp add: handle_event_def Let_def)
qed

section \<open>Every action keeps it\<close>

lemma loop_event_sys:
  assumes inv: "sys_inv s" and en: "enabled env conf (A_Event ev fds) s"
  shows "\<exists>s'. loop_event ev fds s = Some (Inr s') \<and> sys_inv s' \<and> grows (sy_server s) (sy_server s') \<and>
    sy_loop s' = sy_loop s \<and> sy_pc s' = sy_pc s"
proof -
  from inv have i: "st_inv (sy_server s) (sy_pc s)" by (simp add: sys_inv_def)
  from en have "possible_event (sy_server s) ev"
    "room (case ev_data ev of Listener new \<Rightarrow> length new | Client _ \<Rightarrow> 1) (sy_server s)" "sy_loop s = L_Events"
    by (simp_all add: enabled.simps)
  with handle_event_st [OF i this(1,2)] show ?thesis by (auto simp: loop_event_def sys_inv_def)
qed

lemma loop_clean_sys:
  assumes inv: "sys_inv s" and p: "p \<in> set (ss_clients (sy_server s))"
  shows "\<exists>s'. loop_clean p s = Some (Inr s') \<and> sys_inv s' \<and> ss_pools (sy_server s') = ss_pools (sy_server s) \<and>
    ss_clients (sy_server s') = ss_clients (sy_server s) \<and> sy_pc s' = sy_pc s \<and>
    (sy_loop s' = L_Events \<or> sy_loop s' = L_Remove p all_pools)"
proof -
  from inv have i: "st_inv (sy_server s) (sy_pc s)" by (simp add: sys_inv_def)
  from st_invD(4) [OF i p] obtain c0 where c0: "ss_conns (sy_server s) p = Some c0" by auto
  let ?c = "if skt_error (c_skt c0) then c0\<lparr>c_skt := skt_close (c_skt c0)\<rparr> else c0"
  let ?st = "(sy_server s)\<lparr>ss_conns := (ss_conns (sy_server s))(p \<mapsto> ?c)\<rparr>"
  have "st_inv ?st (sy_pc s)"
    by (rule st_inv_clients [OF i]) (use st_invD(3,4) [OF i] in auto)
  with c0 p show ?thesis by (auto simp: loop_clean_def sys_inv_def Let_def)
qed

lemma loop_remove_sys:
  assumes inv: "sys_inv s" and l: "sy_loop s = L_Remove p (pool # pools)"
  shows "\<exists>s'. loop_remove s = Some (Inr s') \<and> sys_inv s' \<and> sy_pc s' = sy_pc s \<and>
    sy_loop s' = (if pools = [] then L_Wait p all_pools else L_Remove p pools) \<and>
    ss_clients (sy_server s') = ss_clients (sy_server s) \<and> only_adds {} (sy_server s) (sy_server s') \<and>
    (\<forall>b. data_of (ss_pools (sy_server s') pool) b = Some (Some p) \<longrightarrow> (\<exists>t. held (qpc_of (sy_pc s pool t)) = Some b))"
proof -
  from inv have i: "st_inv (sy_server s) (sy_pc s)" by (simp add: sys_inv_def)
  from ok_remove [OF st_invD(1) [OF i, of pool], of p] obtain q n where
    q: "queue_remove_byptr (ss_pools (sy_server s) pool) p = Some (Inr (q, n))"
      "queue_ok ((view (sy_server s) (sy_pc s) pool)\<lparr>sq := q\<rparr>)"
      "\<forall>b. data_of q b = None \<or> data_of q b = data_of (ss_pools (sy_server s) pool) b"
      "\<forall>b. data_of q b = Some (Some p) \<longrightarrow> (\<exists>t. held (qpc_of (sy_pc s pool t)) = Some b)"
    by (auto simp: view_def)
  let ?st = "(sy_server s)\<lparr>ss_pools := (ss_pools (sy_server s))(pool := q)\<rparr>"
  have "st_inv ?st (sy_pc s)"
    by (rule st_inv_queue [OF i]) (use q(2,3) in \<open>simp_all add: view_def\<close>)
  moreover have "only_adds {} (sy_server s) ?st"
    using q(3) by (auto simp: only_adds_def simp del: data_of_None split: if_splits) (metis option.distinct(1))
  moreover have "loop_remove s = Some (Inr (s\<lparr>sy_server := ?st,
      sy_loop := (if pools = [] then L_Wait p all_pools else L_Remove p pools)\<rparr>))"
    by (simp add: loop_remove_def l remove_from_def q(1))
  ultimately show ?thesis using inv l q(4) by (auto simp: sys_inv_def)
qed

text \<open>What a thread does to its queue; \<open>x\<close> is where it is then.\<close>

lemma thread_sys:
  assumes inv: "sys_inv s"
    and q: "queue_ok ((view (sy_server s) (sy_pc s) pool)\<lparr>sq := q,
      pc := (pc (view (sy_server s) (sy_pc s) pool))(t := qpc_of x)\<rparr>)"
    and d: "\<And>b. data_of q b = None \<or> data_of q b = data_of (ss_pools (sy_server s) pool) b"
  shows "sys_inv (set_pc pool t x (set_queue pool q s)) \<and>
    only_adds {} (sy_server s) (sy_server (set_pc pool t x (set_queue pool q s)))"
proof -
  let ?s = "set_pc pool t x (set_queue pool q s)"
  from inv have i: "st_inv (sy_server s) (sy_pc s)" by (simp add: sys_inv_def)
  have pcs: "(\<lambda>u. qpc_of (sy_pc s pool u))(t := qpc_of x) = (\<lambda>u. qpc_of (((sy_pc s pool)(t := x)) u))"
    by auto
  have "st_inv ((sy_server s)\<lparr>ss_pools := (ss_pools (sy_server s))(pool := q)\<rparr>)
      ((sy_pc s)(pool := (sy_pc s pool)(t := x)))"
    by (rule st_inv_queue [OF i _ d]) (use q in \<open>simp_all add: view_def pcs del: fun_upd_apply\<close>, simp_all)
  moreover have "only_adds {} (sy_server s) (sy_server ?s)"
    using d by (auto simp: only_adds_def set_pc_def set_queue_def simp del: data_of_None split: if_splits)
      (metis option.distinct(1))
  ultimately show ?thesis using inv by (simp add: sys_inv_def set_pc_def set_queue_def)
qed

lemma set_pc_queue_fields [simp]:
  "sy_loop (set_pc pool t x (set_queue pool q s)) = sy_loop s"
  "ss_clients (sy_server (set_pc pool t x (set_queue pool q s))) = ss_clients (sy_server s)"
  "ss_conns (sy_server (set_pc pool t x (set_queue pool q s))) = ss_conns (sy_server s)"
  "sy_pc (set_pc pool t x (set_queue pool q s)) = (sy_pc s)(pool := (sy_pc s pool)(t := x))"
  by (simp_all add: set_pc_def set_queue_def)

lemma sys_queue: "sys_inv s \<Longrightarrow> queue_ok (view (sy_server s) (sy_pc s) pool)"
  by (simp add: sys_inv_def st_inv_def)

definition quiet_step :: "system \<Rightarrow> system \<Rightarrow> bool" where
  "quiet_step s s' \<longleftrightarrow> sys_inv s' \<and> sy_loop s' = sy_loop s \<and> ss_clients (sy_server s') = ss_clients (sy_server s) \<and>
     only_adds {} (sy_server s) (sy_server s')"

lemma sleep_sys:
  assumes inv: "sys_inv s" and t: "sy_pc s pool t = T_Idle"
  shows "quiet_step s (set_pc pool t T_Waiting s)"
proof -
  have "queue_ok ((view (sy_server s) (sy_pc s) pool)\<lparr>pc := (pc (view (sy_server s) (sy_pc s) pool))(t := Waiting)\<rparr>)"
    by (rule ok_waiting [OF sys_queue [OF inv]]) (simp add: view_def t)
  then have "queue_ok ((view (sy_server s) (sy_pc s) pool)\<lparr>sq := ss_pools (sy_server s) pool,
      pc := (pc (view (sy_server s) (sy_pc s) pool))(t := qpc_of T_Waiting)\<rparr>)"
    by (simp add: view_def)
  moreover have "set_queue pool (ss_pools (sy_server s) pool) s = s" by (simp add: set_queue_def)
  ultimately show ?thesis using thread_sys [where pool = pool and q = "ss_pools (sy_server s) pool" and t = t and x = T_Waiting, OF inv]
    by (simp add: quiet_step_def set_pc_def)
qed

lemma fetch_sys:
  assumes inv: "sys_inv s" and t: "sy_pc s pool t = T_Idle \<or> sy_pc s pool t = T_Waiting"
    and tok: "q_tokens (ss_pools (sy_server s) pool) tok = None"
  shows "\<exists>s'. fetch_item pool t tok s = Some (Inr s') \<and> quiet_step s s'"
proof -
  from ok_fetch [OF sys_queue [OF inv], of pool t tok] t tok obtain q i where
    q: "fetch_section (ss_pools (sy_server s) pool) tok = Some (Inr (q, i))"
      "queue_ok ((view (sy_server s) (sy_pc s) pool)\<lparr>sq := q,
        pc := (pc (view (sy_server s) (sy_pc s) pool))(t := case i of None \<Rightarrow> Idle | Some a \<Rightarrow> Working a)\<rparr>)"
      "data_of q = data_of (ss_pools (sy_server s) pool)"
    by (auto simp: view_def)
  let ?x = "case i of None \<Rightarrow> T_Idle | Some a \<Rightarrow> T_Item a"
  have "qpc_of ?x = (case i of None \<Rightarrow> Idle | Some a \<Rightarrow> Working a)" by (cases i) simp_all
  with thread_sys [where pool = pool and q = q and t = t and x = ?x, OF inv] q show ?thesis
    by (intro exI [of _ "set_pc pool t ?x (set_queue pool q s)"]) (simp add: fetch_item_def quiet_step_def)
qed

lemma return_sys:
  assumes inv: "sys_inv s" and t: "sy_pc s pool t = T_Done a b"
  shows "\<exists>s'. return_item pool t a b s = Some (Inr s') \<and> quiet_step s s'"
proof -
  from ok_return [OF sys_queue [OF inv], of pool t a "\<not> b"] t obtain q where
    q: "return_token (ss_pools (sy_server s) pool) a = Some (Inr q)"
      "queue_ok ((view (sy_server s) (sy_pc s) pool)\<lparr>sq := q,
        pc := (pc (view (sy_server s) (sy_pc s) pool))(t := qpc_of (T_Returning a (\<not> b)))\<rparr>)"
      "data_of q = data_of (ss_pools (sy_server s) pool)"
    by (auto simp: view_def)
  with thread_sys [OF inv q(2)] show ?thesis
    by (intro exI [of _ "set_pc pool t (T_Returning a (\<not> b)) (set_queue pool q s)"])
      (simp add: return_item_def quiet_step_def)
qed

lemma finish_sys:
  assumes inv: "sys_inv s" and t: "sy_pc s pool t = T_Returning a f"
  shows "\<exists>s'. finish_item pool t a f s = Some (Inr s') \<and> quiet_step s s'"
proof -
  from ok_finish [OF sys_queue [OF inv], of pool t a f] t obtain q where
    q: "return_finish (ss_pools (sy_server s) pool) a f = Inr q"
      "queue_ok ((view (sy_server s) (sy_pc s) pool)\<lparr>sq := q,
        pc := (pc (view (sy_server s) (sy_pc s) pool))(t := qpc_of T_Idle)\<rparr>)"
      "data_of q = (if f then (data_of (ss_pools (sy_server s) pool))(a := None)
        else data_of (ss_pools (sy_server s) pool))"
    by (auto simp: view_def)
  have "data_of q b = None \<or> data_of q b = data_of (ss_pools (sy_server s) pool) b" for b
    by (simp add: q(3) del: data_of_None)
  with thread_sys [OF inv q(2)] q(1) show ?thesis
    by (intro exI [of _ "set_pc pool t T_Idle (set_queue pool q s)"]) (simp add: finish_item_def quiet_step_def)
qed

text \<open>The item of a thread is allocated and points somewhere.\<close>

lemma held_data:
  assumes "sys_inv s" and "held (qpc_of (sy_pc s pool t)) = Some a"
  shows "\<exists>p. data_of (ss_pools (sy_server s) pool) a = Some (Some p)"
proof -
  from sys_queue [OF assms(1), of pool] obtain as ts where "qinv (view (sy_server s) (sy_pc s) pool) as ts"
    by (auto simp: queue_ok_def)
  from qinvD(3) [OF this, of t a] assms(2) have "q_items (ss_pools (sy_server s) pool) a \<noteq> None" by (simp add: view_def)
  then obtain x where x: "data_of (ss_pools (sy_server s) pool) a = Some x"
    by (cases "q_items (ss_pools (sy_server s) pool) a") (simp_all add: data_of_def)
  from assms(1) have "x \<noteq> None" using st_invD(2) [OF _ x] by (auto simp: sys_inv_def)
  with x show ?thesis by auto
qed

lemma item_conn_held:
  assumes "sys_inv s" and "held (qpc_of (sy_pc s pool t)) = Some a"
  shows "\<exists>p. data_of (ss_pools (sy_server s) pool) a = Some (Some p) \<and> item_conn pool a (sy_server s) =
    (case ss_conns (sy_server s) p of None \<Rightarrow> Inl Use_after_free | Some c \<Rightarrow> Inr (p, c))"
  using held_data [OF assms] by (auto simp: item_conn_def data_of_def)

lemma handled_sys:
  assumes inv: "sys_inv s" and t: "sy_pc s pool t = T_Item a" and c: "ss_conns (sy_server s) p \<noteq> None"
    and r: "room (length (c_queued c')) (sy_server s)"
  shows "\<exists>s'. handled pool t a p fd b c' w s = Inr s' \<and> sys_inv s' \<and> sy_loop s' = sy_loop s \<and>
    ss_clients (sy_server s') = ss_clients (sy_server s) \<and> only_adds {p} (sy_server s) (sy_server s')"
proof -
  from inv have i: "st_inv (sy_server s) (sy_pc s)" by (simp add: sys_inv_def)
  let ?q = "if b then set_blocked True a (ss_pools (sy_server s) pool) else ss_pools (sy_server s) pool"
  let ?st1 = "(sy_server s)\<lparr>ss_conns := (ss_conns (sy_server s))(p \<mapsto> c'\<lparr>c_queued := []\<rparr>)\<rparr>"
  let ?st2 = "?st1\<lparr>ss_pools := (ss_pools ?st1)(pool := ?q)\<rparr>"
  let ?pcs = "(sy_pc s)(pool := (sy_pc s pool)(t := T_Done a b))"
  have i1: "st_inv ?st1 (sy_pc s)"
    by (rule st_inv_clients [OF i]) (use st_invD(3,4) [OF i] in auto)
  have pcs: "(\<lambda>u. qpc_of (?pcs pool u)) = (\<lambda>u. qpc_of (sy_pc s pool u))" using t by auto
  have dq: "data_of ?q = data_of (ss_pools (sy_server s) pool)" by simp
  have "queue_ok ((view ?st1 (sy_pc s) pool)\<lparr>sq := ?q\<rparr>)"
    using st_invD(1) [OF i1, of pool] ok_blocked [OF st_invD(1) [OF i1, of pool], of True a] by (simp add: view_def)
  then have i2: "st_inv ?st2 ?pcs"
    by (intro st_inv_queue [OF i1]) (simp_all only: pcs, simp_all add: view_def)
  have "room (length (c_queued c')) ?st2" using r by (simp add: room_def)
  from enqueue_all_st [OF i2 this, of p] obtain st3 where
    3: "enqueue_all p (c_queued c') ?st2 = Inr st3" "st_inv st3 ?pcs" "only_adds {p} ?st2 st3"
      "ss_clients st3 = ss_clients ?st2" by blast
  have "only_adds {p} (sy_server s) ?st2" by (auto simp: only_adds_def split: if_splits)
  then have add: "only_adds {p} (sy_server s) st3" by (rule only_adds_trans [OF _ 3(3)]) simp_all
  have same: "(if b then ?st1\<lparr>ss_pools := (ss_pools ?st1)(pool := set_blocked True a (ss_pools ?st1 pool))\<rparr> else ?st1) = ?st2"
    by simp
  have "handled pool t a p fd b c' w s =
      Inr (set_pc pool t (T_Done a b) (s\<lparr>sy_server := st3, sy_fd := (sy_fd s)(fd := w)\<rparr>))"
    unfolding handled_def Let_def same 3(1) by simp
  with 3 add inv show ?thesis by (auto simp: sys_inv_def set_pc_def)
qed

text \<open>
  Only two actions can fail, and only in the functions of a connection: a handler, and the
  freeing of a connection.
\<close>

definition conn_fails :: "server_env \<Rightarrow> config_server \<Rightarrow> action \<Rightarrow> system \<Rightarrow> bool" where
  "conn_fails env conf x s =
     (case x of
        A_Handle pool t date r \<Rightarrow>
          (case sy_pc s pool t of
             T_Item a \<Rightarrow>
               (case item_conn pool a (sy_server s) of
                  Inl e \<Rightarrow> e = Use_after_free
                | Inr (p, c) \<Rightarrow> \<not> (\<exists>y. run_handler env conf pool date r c (sy_fd s (skt_fd (c_skt c))) = Some (Inr y)))
           | _ \<Rightarrow> False)
      | A_Free \<Rightarrow>
          (case sy_loop s of
             L_Wait p _ \<Rightarrow> (\<exists>c. ss_conns (sy_server s) p = Some c \<and> server_connection_delete c \<noteq> Some (Inr ()))
           | _ \<Rightarrow> False)
      | _ \<Rightarrow> False)"

lemma handle_sys:
  assumes inv: "sys_inv s" and t: "sy_pc s pool t = T_Item a"
    and r: "room_for env conf pool a date r s"
  shows "conn_fails env conf (A_Handle pool t date r) s \<or>
    (\<exists>p s'. handle_item env conf pool t a date r s = Some (Inr s') \<and> sys_inv s' \<and> sy_loop s' = sy_loop s \<and>
      data_of (ss_pools (sy_server s) pool) a = Some (Some p) \<and>
      ss_clients (sy_server s') = ss_clients (sy_server s) \<and> only_adds {p} (sy_server s) (sy_server s'))"
proof -
  from item_conn_held [OF inv, of pool t a] t obtain p where
    p: "data_of (ss_pools (sy_server s) pool) a = Some (Some p)"
    and ic: "item_conn pool a (sy_server s) =
      (case ss_conns (sy_server s) p of None \<Rightarrow> Inl Use_after_free | Some c \<Rightarrow> Inr (p, c))" by auto
  show ?thesis
  proof (cases "ss_conns (sy_server s) p")
    case None
    with ic t show ?thesis by (simp add: conn_fails_def)
  next
    case (Some c)
    with ic have ic: "item_conn pool a (sy_server s) = Inr (p, c)" by simp
    show ?thesis
    proof (cases "\<exists>y. run_handler env conf pool date r c (sy_fd s (skt_fd (c_skt c))) = Some (Inr y)")
      case False
      with ic t show ?thesis by (simp add: conn_fails_def)
    next
      case True
      then obtain b c' w where h: "run_handler env conf pool date r c (sy_fd s (skt_fd (c_skt c))) = Some (Inr (b, c', w))"
        by (metis prod_cases3)
      with r ic have "room (length (c_queued c')) (sy_server s)" by (simp add: room_for_def)
      from handled_sys [OF inv t _ this, of p "skt_fd (c_skt c)" b w] Some obtain s' where
        "handled pool t a p (skt_fd (c_skt c)) b c' w s = Inr s'" "sys_inv s'" "sy_loop s' = sy_loop s"
        "ss_clients (sy_server s') = ss_clients (sy_server s)" "only_adds {p} (sy_server s) (sy_server s')" by auto
      with ic h p show ?thesis by (simp add: handle_item_def)
    qed
  qed
qed

lemma free_sys:
  assumes inv: "sys_inv s" and l: "sy_loop s = L_Wait p []"
  shows "conn_fails env conf A_Free s \<or>
    (\<exists>s'. loop_free p s = Some (Inr s') \<and> sys_inv s' \<and> sy_loop s' = L_Events \<and>
      ss_pools (sy_server s') = ss_pools (sy_server s) \<and>
      ss_clients (sy_server s') = remove1 p (ss_clients (sy_server s)))"
proof -
  from inv l have i: "st_inv (sy_server s) (sy_pc s)" and p: "p \<in> set (ss_clients (sy_server s))"
    by (simp_all add: sys_inv_def)
  from st_invD(4) [OF i p] obtain c where c: "ss_conns (sy_server s) p = Some c" by auto
  show ?thesis
  proof (cases "server_connection_delete c = Some (Inr ())")
    case False
    with l c show ?thesis by (simp add: conn_fails_def)
  next
    case True
    let ?st = "(sy_server s)\<lparr>ss_clients := remove1 p (ss_clients (sy_server s)),
        ss_conns := (ss_conns (sy_server s))(p := None)\<rparr>"
    have "st_inv ?st (sy_pc s)"
      by (rule st_inv_clients [OF i]) (use st_invD(3,4) [OF i] in auto)
    with True c l show ?thesis by (simp add: loop_free_def sys_inv_def Let_def)
  qed
qed

lemma act_sys:
  assumes inv: "sys_inv s" and en: "enabled env conf x s"
  shows "conn_fails env conf x s \<or> (\<exists>s'. act env conf x s = Some (Inr s') \<and> sys_inv s')"
proof (cases x)
  case (A_Event ev fds)
  with loop_event_sys [OF inv, of env conf ev fds] en show ?thesis by (auto simp: act.simps)
next
  case (A_Clean p)
  with loop_clean_sys [OF inv, of p] en show ?thesis by (auto simp: act.simps enabled.simps)
next
  case A_Remove
  with en obtain p pool pools where "sy_loop s = L_Remove p (pool # pools)"
    by (auto simp: enabled.simps split: loop_pc.splits list.splits)
  from loop_remove_sys [OF inv this] A_Remove show ?thesis by (auto simp: act.simps)
next
  case A_Waited
  with en obtain p pool pools where "sy_loop s = L_Wait p (pool # pools)"
    by (auto simp: enabled.simps split: loop_pc.splits list.splits)
  with inv A_Waited show ?thesis by (simp add: act.simps loop_waited_def sys_inv_def)
next
  case A_Free
  with en obtain p where l: "sy_loop s = L_Wait p []"
    by (auto simp: enabled.simps split: loop_pc.splits list.splits)
  from free_sys [OF inv l, of env conf] l A_Free show ?thesis by (auto simp: act.simps)
next
  case (A_Sleep pool t)
  with sleep_sys [OF inv, of pool t] en show ?thesis by (auto simp: act.simps enabled.simps quiet_step_def)
next
  case (A_Fetch pool t tok)
  with en have "sy_pc s pool t = T_Idle \<or> sy_pc s pool t = T_Waiting" "q_tokens (ss_pools (sy_server s) pool) tok = None"
    by (auto simp: enabled.simps)
  with fetch_sys [OF inv, of pool t tok] A_Fetch show ?thesis by (auto simp: act.simps quiet_step_def)
next
  case (A_Handle pool t date r)
  with en obtain a where a: "sy_pc s pool t = T_Item a" "room_for env conf pool a date r s"
    by (auto simp: enabled.simps split: tpc.splits)
  from handle_sys [OF inv a] a(1) A_Handle show ?thesis by (auto simp: act.simps)
next
  case (A_Return pool t)
  with en obtain a b where "sy_pc s pool t = T_Done a b" by (auto simp: enabled.simps split: tpc.splits)
  with return_sys [OF inv this] A_Return show ?thesis by (auto simp: act.simps quiet_step_def)
next
  case (A_Finish pool t)
  with en obtain a f where "sy_pc s pool t = T_Returning a f" by (auto simp: enabled.simps split: tpc.splits)
  with finish_sys [OF inv this] A_Finish show ?thesis by (auto simp: act.simps quiet_step_def)
qed

lemma started_inv: "sys_inv started_system"
proof -
  have "qinv (view empty_server (\<lambda>_ _. T_Idle) pool) [] []" for pool
    using qinv_init by (simp add: view_def empty_server_def qinit_def)
  then show ?thesis
    by (auto simp: sys_inv_def st_inv_def started_system_def queue_ok_def)
      (auto simp: empty_server_def data_of_def queue_new_def)
qed

lemma conn_fails_act: "conn_fails env conf x s \<Longrightarrow> act env conf x s \<noteq> Some (Inr s')"
proof (cases x)
  case (A_Handle pool t date r)
  assume "conn_fails env conf x s"
  with A_Handle show ?thesis
    by (auto simp: conn_fails_def act.simps handle_item_def bind_eq_Some_conv bind_res_eq_Inr
        split: tpc.splits sum.splits)
next
  case A_Free
  assume "conn_fails env conf x s"
  with A_Free show ?thesis
    by (auto simp: conn_fails_def act.simps loop_free_def bind_eq_Some_conv bind_res_eq_Inr Let_def split: loop_pc.splits)
qed (simp_all add: conn_fails_def)

lemma act_inv:
  "sys_inv s \<Longrightarrow> enabled env conf x s \<Longrightarrow> act env conf x s = Some (Inr s') \<Longrightarrow> sys_inv s'"
  using act_sys [of s env conf x] conn_fails_act [of env conf x s s'] by auto

lemma reach_inv: "reach env conf s \<Longrightarrow> sys_inv s"
  by (induction rule: reach.induct) (auto intro: started_inv act_inv)

section \<open>The queues of the server never fail\<close>

text \<open>
  C6: whatever the clients, the kernel and the scheduler do, no action of the loop or of a
  thread of any pool fails, dereferences null, touches freed memory or walks for ever in the
  queues: an action that is enabled either ends in a state where every queue is well formed
  and every client allocated, or fails in the functions of a connection.
\<close>

theorem server_queues_safe:
  assumes "reach env conf s" and "enabled env conf x s"
  shows "conn_fails env conf x s \<or> (\<exists>s'. act env conf x s = Some (Inr s') \<and> sys_inv s')"
  using act_sys [OF reach_inv [OF assms(1)] assms(2)] .

text \<open>A client connects.\<close>

definition connecting :: action where
  "connecting = A_Event (event True False (Listener [(7, True)])) (\<lambda>_. slow_fd)"

lemma connecting_enabled: "enabled env conf connecting started_system"
  by (simp add: connecting_def enabled.simps started_system_def empty_server_def possible_event_def event_def room_def)

theorem server_queues_safe_witness:
  "\<exists>s'. act small_env small_conf connecting started_system = Some (Inr s') \<and> sys_inv s'"
proof -
  have "\<not> conn_fails small_env small_conf connecting started_system" by (simp add: conn_fails_def connecting_def)
  with server_queues_safe [OF reach.start connecting_enabled] show ?thesis by blast
qed

end
