(* ===== verification/Server_Calm.thy ===== *)
theory Server_Calm
  imports Server_Queues
begin

text \<open>
  When the threads find the connection of their item. \<open>server_loop\<close> frees a connection after
  it took its items off the queues and waited for the tokens. That is enough when no thread
  has an item of the connection from the moment the clean-up starts: a calm run. The
  theorem is \<open>calm_threads_find_connections\<close> in \<open>Server_Run\<close>; \<open>Server_Race\<close> has a run that is
  not calm, in which a thread uses a connection that was freed.
\<close>

definition calm :: "system \<Rightarrow> bool" where
  "calm s \<longleftrightarrow> (\<forall>p pool t a. loop_client (sy_loop s) = Some p \<longrightarrow> held (qpc_of (sy_pc s pool t)) = Some a \<longrightarrow>
     data_of (ss_pools (sy_server s) pool) a \<noteq> Some (Some p))"

inductive calm_reach :: "server_env \<Rightarrow> config_server \<Rightarrow> system \<Rightarrow> bool" for env conf where
  start: "calm_reach env conf started_system"
| more: "calm_reach env conf s \<Longrightarrow> enabled env conf x s \<Longrightarrow> act env conf x s = Some (Inr s') \<Longrightarrow> calm s' \<Longrightarrow>
    calm_reach env conf s'"

text \<open>
  Every item points to a client; no queue the loop is through with has an item of the client
  it cleans up.
\<close>

definition points :: "system \<Rightarrow> server_pool \<Rightarrow> ptr \<Rightarrow> bool" where
  "points s pool p \<longleftrightarrow> (\<exists>b. data_of (ss_pools (sy_server s) pool) b = Some (Some p))"

fun cleared :: "loop_pc \<Rightarrow> server_pool \<Rightarrow> ptr \<Rightarrow> bool" where
  "cleared L_Events pool p = False"
| "cleared (L_Remove c pools) pool p = (p = c \<and> pool \<notin> set pools)"
| "cleared (L_Wait c pools) pool p = (p = c)"

definition calm_inv :: "system \<Rightarrow> bool" where
  "calm_inv s \<longleftrightarrow> sys_inv s \<and> calm s \<and>
     (\<forall>pool p. points s pool p \<longrightarrow> p \<in> set (ss_clients (sy_server s)) \<and> \<not> cleared (sy_loop s) pool p)"

lemma calm_invD:
  assumes "calm_inv s"
  shows "sys_inv s" "calm s" "points s pool p \<Longrightarrow> p \<in> set (ss_clients (sy_server s))"
    "points s pool p \<Longrightarrow> \<not> cleared (sy_loop s) pool p"
  using assms unfolding calm_inv_def by blast+

lemma points_adds:
  assumes "only_adds P (sy_server s) (sy_server s')" and "points s' pool p"
  shows "p \<in> P \<or> points s pool p"
  using assms unfolding points_def only_adds_def by blast

lemma points_same: "ss_pools (sy_server s') = ss_pools (sy_server s) \<Longrightarrow> points s' pool p = points s pool p"
  by (simp add: points_def)

text \<open>An action of a thread on a connection other than the one that is cleaned up.\<close>

lemma calm_thread:
  assumes inv: "calm_inv s" and s': "sys_inv s'" "calm s'" "sy_loop s' = sy_loop s"
    "ss_clients (sy_server s') = ss_clients (sy_server s)" "only_adds P (sy_server s) (sy_server s')"
    and P: "\<And>p. p \<in> P \<Longrightarrow> p \<in> set (ss_clients (sy_server s)) \<and> loop_client (sy_loop s) \<noteq> Some p"
  shows "calm_inv s'"
proof -
  have "p \<in> set (ss_clients (sy_server s)) \<and> \<not> cleared (sy_loop s) pool p" if "points s' pool p" for pool p
  proof -
    from points_adds [OF s'(5) that] show ?thesis
    proof
      assume "p \<in> P"
      with P [of p] show ?thesis by (cases "sy_loop s") auto
    next
      assume "points s pool p"
      with calm_invD(3,4) [OF inv] show ?thesis by blast
    qed
  qed
  with s' show ?thesis by (simp add: calm_inv_def)
qed

lemma calm_quiet:
  assumes "calm_inv s" and "quiet_step s s'" and "calm s'"
  shows "calm_inv s'"
  using calm_thread [OF assms(1), of s' "{}"] assms(2,3) by (simp add: quiet_step_def)

text \<open>A thread has the connection of its item.\<close>

lemma calm_conn:
  assumes inv: "calm_inv s" and t: "sy_pc s pool t = T_Item a"
  shows "\<exists>p c. item_conn pool a (sy_server s) = Inr (p, c) \<and> p \<in> set (ss_clients (sy_server s)) \<and>
    data_of (ss_pools (sy_server s) pool) a = Some (Some p) \<and> loop_client (sy_loop s) \<noteq> Some p"
proof -
  note i = calm_invD(1) [OF inv]
  from item_conn_held [OF i, of pool t a] t obtain p where
    p: "data_of (ss_pools (sy_server s) pool) a = Some (Some p)" and
    ic: "item_conn pool a (sy_server s) =
      (case ss_conns (sy_server s) p of None \<Rightarrow> Inl Use_after_free | Some c \<Rightarrow> Inr (p, c))" by auto
  from p have "points s pool p" by (auto simp: points_def)
  then have cl: "p \<in> set (ss_clients (sy_server s))" by (rule calm_invD(3) [OF inv])
  with i have "ss_conns (sy_server s) p \<noteq> None" by (auto simp: sys_inv_def st_inv_def)
  moreover have "loop_client (sy_loop s) \<noteq> Some p"
    using calm_invD(2) [OF inv] t p unfolding calm_def by (metis held.simps(1) qpc_of.simps(3))
  ultimately show ?thesis using ic p cl by auto
qed

lemma calm_act:
  assumes inv: "calm_inv s" and en: "enabled env conf x s" and a: "act env conf x s = Some (Inr s')" and c: "calm s'"
  shows "calm_inv s'"
proof -
  note i = calm_invD(1) [OF inv]
  have i': "sys_inv s'" by (rule act_inv [OF i en a])
  show ?thesis
  proof (cases x)
    case (A_Event ev fds)
    with en have l: "sy_loop s = L_Events" by (simp add: enabled.simps)
    from loop_event_sys [OF i, of env conf ev fds] en a A_Event have
      g: "grows (sy_server s) (sy_server s')" "sy_loop s' = L_Events" by (auto simp: act.simps l)
    have "p \<in> set (ss_clients (sy_server s'))" if "points s' pool p" for pool p
      using points_adds [OF _ that, of "set (ss_clients (sy_server s'))" s] calm_invD(3) [OF inv, of pool p] g(1)
      by (auto simp: grows_def)
    with i' c g(2) show ?thesis by (simp add: calm_inv_def)
  next
    case (A_Clean p)
    with loop_clean_sys [OF i, of p] en a have
      l: "ss_pools (sy_server s') = ss_pools (sy_server s)" "ss_clients (sy_server s') = ss_clients (sy_server s)"
        "sy_loop s' = L_Events \<or> sy_loop s' = L_Remove p all_pools" by (auto simp: act.simps enabled.simps)
    have all: "pool \<in> set all_pools" for pool by (cases pool) (simp_all add: all_pools_def)
    have "\<not> cleared (sy_loop s') pool q" for pool q using l(3) all [of pool] by auto
    with l(2) points_same [OF l(1)] calm_invD(3) [OF inv] i' c show ?thesis by (simp add: calm_inv_def)
  next
    case A_Remove
    with en obtain p pool pools where l: "sy_loop s = L_Remove p (pool # pools)"
      by (auto simp: enabled.simps split: loop_pc.splits list.splits)
    from loop_remove_sys [OF i l] A_Remove a have
      r: "sy_pc s' = sy_pc s" "sy_loop s' = (if pools = [] then L_Wait p all_pools else L_Remove p pools)"
        "ss_clients (sy_server s') = ss_clients (sy_server s)" "only_adds {} (sy_server s) (sy_server s')"
        "\<forall>b. data_of (ss_pools (sy_server s') pool) b = Some (Some p) \<longrightarrow> (\<exists>t. held (qpc_of (sy_pc s pool t)) = Some b)"
      by (auto simp: act.simps)
    have gone: "\<not> points s' pool p"
    proof
      assume "points s' pool p"
      then obtain b where b: "data_of (ss_pools (sy_server s') pool) b = Some (Some p)" by (auto simp: points_def)
      with r(5) obtain t where "held (qpc_of (sy_pc s' pool t)) = Some b" by (auto simp: r(1))
      with c b show False by (auto simp: calm_def r(2) split: if_splits)
    qed
    have "q \<in> set (ss_clients (sy_server s')) \<and> \<not> cleared (sy_loop s') R q" if q: "points s' R q" for R q
    proof -
      from points_adds [OF r(4) q] have old: "points s R q" by simp
      from calm_invD(3,4) [OF inv old] have "q \<in> set (ss_clients (sy_server s))" "\<not> cleared (sy_loop s) R q" by blast+
      with gone q show ?thesis by (cases "R = pool") (auto simp: l r(2,3))
    qed
    with i' c show ?thesis by (simp add: calm_inv_def)
  next
    case A_Waited
    with en obtain p pool pools where l: "sy_loop s = L_Wait p (pool # pools)"
      by (auto simp: enabled.simps split: loop_pc.splits list.splits)
    with A_Waited a have s': "s' = s\<lparr>sy_loop := L_Wait p pools\<rparr>" by (simp add: act.simps loop_waited_def)
    have "points s' R q = points s R q" for R q by (simp add: points_def s')
    with i' c calm_invD(3,4) [OF inv] l show ?thesis by (auto simp: calm_inv_def s')
  next
    case A_Free
    with en obtain p where l: "sy_loop s = L_Wait p []"
      by (auto simp: enabled.simps split: loop_pc.splits list.splits)
    from free_sys [OF i l, of env conf] conn_fails_act [of env conf A_Free s s'] A_Free a l have
      f: "sy_loop s' = L_Events" "ss_pools (sy_server s') = ss_pools (sy_server s)"
        "ss_clients (sy_server s') = remove1 p (ss_clients (sy_server s))" by (auto simp: act.simps)
    have "q \<in> set (ss_clients (sy_server s'))" if "points s' R q" for R q
    proof -
      from that have old: "points s R q" using points_same [OF f(2)] by simp
      from calm_invD(3,4) [OF inv old] l show ?thesis by (auto simp: f(3))
    qed
    with i' c show ?thesis by (simp add: calm_inv_def f(1))
  next
    case (A_Sleep pool t)
    with sleep_sys [OF i, of pool t] en a have "quiet_step s s'" by (auto simp: act.simps enabled.simps)
    from calm_quiet [OF inv this c] show ?thesis .
  next
    case (A_Fetch pool t tok)
    with en have "sy_pc s pool t = T_Idle \<or> sy_pc s pool t = T_Waiting" "q_tokens (ss_pools (sy_server s) pool) tok = None"
      by (auto simp: enabled.simps)
    from fetch_sys [OF i this] A_Fetch a have "quiet_step s s'" by (auto simp: act.simps)
    from calm_quiet [OF inv this c] show ?thesis .
  next
    case (A_Handle pool t date r)
    with en obtain b where b: "sy_pc s pool t = T_Item b" "room_for env conf pool b date r s"
      by (auto simp: enabled.simps split: tpc.splits)
    from handle_sys [OF i b] conn_fails_act [of env conf x s s'] A_Handle a b(1) obtain p where
      h: "sy_loop s' = sy_loop s" "data_of (ss_pools (sy_server s) pool) b = Some (Some p)"
        "ss_clients (sy_server s') = ss_clients (sy_server s)" "only_adds {p} (sy_server s) (sy_server s')"
      by (auto simp: act.simps)
    from calm_conn [OF inv b(1)] h(2) have
      "p \<in> set (ss_clients (sy_server s)) \<and> loop_client (sy_loop s) \<noteq> Some p" by auto
    with calm_thread [OF inv i' c h(1,3,4)] show ?thesis by simp
  next
    case (A_Return pool t)
    with en obtain b f where "sy_pc s pool t = T_Done b f" by (auto simp: enabled.simps split: tpc.splits)
    with return_sys [OF i this] A_Return a have "quiet_step s s'" by (auto simp: act.simps)
    from calm_quiet [OF inv this c] show ?thesis .
  next
    case (A_Finish pool t)
    with en obtain b f where "sy_pc s pool t = T_Returning b f" by (auto simp: enabled.simps split: tpc.splits)
    with finish_sys [OF i this] A_Finish a have "quiet_step s s'" by (auto simp: act.simps)
    from calm_quiet [OF inv this c] show ?thesis .
  qed
qed

lemma started_calm: "calm_inv started_system"
proof -
  have "\<not> points started_system pool p" for pool p
    by (simp add: points_def started_system_def empty_server_def data_of_def queue_new_def)
  then show ?thesis using started_inv by (simp add: calm_inv_def calm_def started_system_def)
qed

lemma calm_reach_inv: "calm_reach env conf s \<Longrightarrow> calm_inv s"
  by (induction rule: calm_reach.induct) (auto intro: started_calm calm_act)

end
