(* ===== verification/Server_Session.thy ===== *)
theory Server_Session
  imports Server_Loop_Read Server_Loop_Write
begin

text \<open>
  The parts together, along one connection: what the read pool makes of the bytes of a
  client, what the worker pool answers, and what the write pool sends.
\<close>

section \<open>The headers that are written\<close>

text \<open>Only five headers are touched when a response is written.\<close>

definition set_headers :: "string set" where
  "set_headers = {HEADER_CONTENT_TYPE, HEADER_CONTENT_LENGTH, HEADER_TRANSFER_ENCODING, HEADER_DATE, HEADER_SERVER}"

definition hdr_clean :: "http_header \<Rightarrow> bool" where
  "hdr_clean h \<longleftrightarrow> NUL \<notin> set (header_line h)"

lemma hdr_clean_new: "hdr_clean (http_header_new n (Some v)) \<longleftrightarrow> NUL \<notin> set n \<and> NUL \<notin> set v"
  by (auto simp: hdr_clean_def header_line_def printf_s_def)

lemma header_put_clean:
  assumes "unique_names l" and "header_put l n v = Inr l'" and "\<forall>h \<in> set l. hdr_clean h"
    and "NUL \<notin> set n" and "NUL \<notin> set v"
  shows "\<forall>h \<in> set l'. hdr_clean h"
proof -
  have "l' = others n l @ [http_header_new n (Some v)]" using assms(1,2) by (simp add: header_put_eq)
  with assms(3-5) show ?thesis by (auto simp: others_def hdr_clean_new)
qed

lemma dec_clean: "NUL \<notin> set (dec n)"
  using dec_digits [of NUL n] by (auto simp: isdigit_def)

lemma default_type_cases:
  assumes "add_default_type l = Inr l'" and "unique_names l"
  shows "unique_names l'" and "m \<noteq> HEADER_CONTENT_TYPE \<Longrightarrow> http_header_list_get l' m = http_header_list_get l m"
    and "\<forall>h \<in> set l. hdr_clean h \<Longrightarrow> \<forall>h \<in> set l'. hdr_clean h"
proof -
  have "l' = l \<or> l' = l @ [http_header_new HEADER_CONTENT_TYPE (Some DEFAULT_CONTENT_TYPE)]"
    using assms(1) by (auto simp: add_default_type_def http_header_list_add_def utarray_push_back_def split: option.splits)
  then show "m \<noteq> HEADER_CONTENT_TYPE \<Longrightarrow> http_header_list_get l' m = http_header_list_get l m"
    by (auto simp: http_header_list_get_def find_append split: option.splits)
  show "unique_names l'" using assms add_default_type_ok [OF assms(2)] by (metis sum.inject(2))
  show "\<forall>h \<in> set l'. hdr_clean h" if "\<forall>h \<in> set l. hdr_clean h"
    using \<open>l' = l \<or> _\<close> that by (auto simp: hdr_clean_new DEFAULT_CONTENT_TYPE_def)
qed

lemma response_headers_get:
  assumes "response_headers date r = Inr l" and "unat (sl_code (rs_line r)) \<noteq> 100" and "unique_names (rs_headers r)"
    and "framing_header r = Inr (n, v)" and "n \<in> set_headers" and "m \<notin> set_headers" and "m \<noteq> []"
  shows "http_header_list_get l m = http_header_list_get (rs_headers r) m"
    and "\<forall>h \<in> set (rs_headers r). hdr_clean h \<Longrightarrow> NUL \<notin> set v \<Longrightarrow> NUL \<notin> set date \<Longrightarrow> \<forall>h \<in> set l. hdr_clean h"
proof -
  from assms(1,2,4) obtain l1 l2 l3 where
    1: "header_put (rs_headers r) n v = Inr l1" and 2: "add_default_type l1 = Inr l2"
    and 3: "header_put l2 HEADER_DATE date = Inr l3" and 4: "header_put l3 HEADER_SERVER SERVER_NAME = Inr l"
    by (auto simp: response_headers_def bind_res_eq_Inr)
  have u1: "unique_names l1" using assms(3) 1 header_put_ok by (metis sum.inject(2))
  have u2: "unique_names l2" by (rule default_type_cases(1) [OF 2 u1])
  have u3: "unique_names l3" using u2 3 header_put_ok by (metis sum.inject(2))
  have ne: "m \<noteq> n" "m \<noteq> HEADER_CONTENT_TYPE" "m \<noteq> HEADER_DATE" "m \<noteq> HEADER_SERVER"
    using assms(5,6) unfolding set_headers_def by blast+
  show "http_header_list_get l m = http_header_list_get (rs_headers r) m"
    using get_after_put [OF assms(3) 1 ne(1) assms(7)] default_type_cases(2) [OF 2 u1 ne(2)]
      get_after_put [OF u2 3 ne(3) assms(7)] get_after_put [OF u3 4 ne(4) assms(7)] by simp
  assume c: "\<forall>h \<in> set (rs_headers r). hdr_clean h" "NUL \<notin> set v" "NUL \<notin> set date"
  have "NUL \<notin> set n" using assms(5) by (auto simp: set_headers_def)
  then have "\<forall>h \<in> set l1. hdr_clean h" using header_put_clean [OF assms(3) 1] c by blast
  then have "\<forall>h \<in> set l2. hdr_clean h" by (rule default_type_cases(3) [OF 2 u1])
  then have "\<forall>h \<in> set l3. hdr_clean h" using header_put_clean [OF u2 3] c by auto
  then show "\<forall>h \<in> set l. hdr_clean h" using header_put_clean [OF u3 4] by (auto simp: SERVER_NAME_def)
qed

section \<open>A response with a file\<close>

definition file_reply :: "string \<Rightarrow> bool \<Rightarrow> open_file \<Rightarrow> http_response" where
  "file_reply mt close f =
    \<lparr>rs_line = \<lparr>sl_version = HTTP11, sl_code = 200, sl_custom_message = None\<rparr>,
     rs_headers = http_header_new HEADER_CONTENT_TYPE (Some mt) #
       (if close then [http_header_new HEADER_CONNECTION (Some ''close'')] else []),
     rs_body_chunked = False, rs_body = http_body_new BODY_FILE (P_file f),
     rs_send_status = SEND_RESPONSE_LINE\<rparr>"

lemma ok_line: "status_line_text \<lparr>sl_version = HTTP11, sl_code = 200, sl_custom_message = None\<rparr> = ''HTTP/1.1 200 OK'' @ CRLF"
proof -
  have "dec 200 = ''200''" by (simp add: dec_step dec_small) code_simp
  then show ?thesis by (simp add: status_line_text_def http_response_line_get_message_def status_messages_def)
qed

lemma file_reply_sendable:
  assumes "\<forall>i. f_fails f i = None" and "length (f_bytes f) < 2 ^ 32" and "NUL \<notin> set mt" and "NUL \<notin> set date"
  shows "\<exists>l. sendable date (file_reply mt close f) \<and> closes date (file_reply mt close f) = close \<and>
    wire date (file_reply mt close f) = ''HTTP/1.1 200 OK'' @ CRLF @ header_lines l @ CRLF @ f_bytes f \<and>
    unique_names l \<and> header_value l HEADER_CONTENT_LENGTH = Some (dec (length (f_bytes f))) \<and>
    header_value l HEADER_CONTENT_TYPE = Some mt \<and> header_value l HEADER_DATE = Some date"
proof -
  let ?r = "file_reply mt close f"
  have code: "unat (sl_code (rs_line ?r)) \<noteq> 100" by (simp add: file_reply_def)
  have u: "unique_names (rs_headers ?r)" by (simp add: file_reply_def unique_names_def)
  have bytes: "body_bytes (rs_body ?r) = f_bytes f" by (simp add: file_reply_def http_body_new_def body_bytes_def)
  have ok: "body_ok (rs_body ?r)" using assms(2) bytes by (simp add: body_ok_def file_reply_def http_body_new_def)
  have fr: "framing_header ?r = Inr (HEADER_CONTENT_LENGTH, dec (length (f_bytes f)))"
    using ok bytes assms(2) by (simp add: framing_header_def) (simp add: file_reply_def)
  have set: "HEADER_CONTENT_LENGTH \<in> set_headers" by (simp add: set_headers_def)
  have conn: "HEADER_CONNECTION \<notin> set_headers" "HEADER_CONNECTION \<noteq> []" by (simp_all add: set_headers_def)
  from response_headers_ok [OF code u fr, of date] obtain l where l: "response_headers date ?r = Inr l" "unique_names l"
    and hv: "\<forall>m. m \<noteq> [] \<longrightarrow> header_value l m =
      (if m = HEADER_SERVER then Some SERVER_NAME
       else if m = HEADER_DATE then Some date
       else if m = HEADER_CONTENT_LENGTH then Some (dec (length (f_bytes f)))
       else if m = HEADER_CONTENT_TYPE \<and> http_header_list_get (rs_headers ?r) m = None
       then Some DEFAULT_CONTENT_TYPE
       else header_value (rs_headers ?r) m)" by auto
  note get = response_headers_get(1) [OF l(1) code u fr set conn]
  have hi: "header_is (http_header_list_get l HEADER_CONNECTION) ''close'' = Inr close"
    unfolding get by (simp add: file_reply_def http_header_list_get_def header_is_def)
  have "\<forall>h \<in> set (rs_headers ?r). hdr_clean h" using assms(3) by (simp add: file_reply_def hdr_clean_new)
  then have "\<forall>h \<in> set l. hdr_clean h"
    using response_headers_get(2) [OF l(1) code u fr set conn] dec_clean assms(4) by blast
  then have "NUL \<notin> set (header_lines l)" by (auto simp: header_lines_def hdr_clean_def)
  moreover have "rs_line ?r = \<lparr>sl_version = HTTP11, sl_code = 200, sl_custom_message = None\<rparr>"
    by (simp add: file_reply_def)
  ultimately have "wire date ?r = ''HTTP/1.1 200 OK'' @ CRLF @ header_lines l @ CRLF @ f_bytes f"
    by (simp add: wire_def l(1) bytes ok_line)
  moreover have "sendable date ?r"
    using ok assms(1) l(1) hi by (simp add: sendable_def) (simp add: file_reply_def http_body_new_def file_reads_def)
  moreover have "closes date ?r = close" using l(1) hi by (simp add: closes_def)
  moreover have "header_value l HEADER_CONTENT_TYPE = Some mt"
    using hv [rule_format, of HEADER_CONTENT_TYPE] by (simp add: file_reply_def http_header_list_get_def header_value_def)
  moreover have "header_value l HEADER_CONTENT_LENGTH = Some (dec (length (f_bytes f)))"
    using hv [rule_format, of HEADER_CONTENT_LENGTH] by simp
  moreover have "header_value l HEADER_DATE = Some date" using hv [rule_format, of HEADER_DATE] by simp
  ultimately show ?thesis using l(2) by blast
qed

section \<open>Reading a request\<close>

lemma queue_request_final:
  assumes "c_status c = fst server_parse_status_new" and "c_parser c = snd server_parse_status_new"
  shows "queue_request (c\<lparr>c_parser := pr, c_status := reader_final m t v hs\<rparr>) =
    Inr (CONN_ENQUEUE POOL_WORKER ''REQ'' (c\<lparr>c_requests := c_requests c @ [built_request m t v hs]\<rparr>))"
proof -
  obtain st0 pr0 where s0: "server_parse_status_new = (st0, pr0)" by fastforce
  have same: "c\<lparr>c_requests := x, c_status := st0, c_parser := pr0\<rparr> = c\<lparr>c_requests := x\<rparr>" for x
  proof -
    have "c_status c = st0" "c_parser c = pr0" by (simp_all add: assms s0)
    then show ?thesis by (cases c) simp
  qed
  have reset: "server_parser_status_reset (reader_final m t v hs) = (st0, pr0)"
    unfolding s0 [symmetric]
    by (simp add: server_parser_status_reset_def server_parse_status_new_def reader_final_def)
  have "sp_current_request (reader_final m t v hs) = Some (built_request m t v hs)"
    by (simp add: reader_final_def)
  then show ?thesis by (simp add: queue_request_def reset same)
qed

lemma read_request_run:
  assumes "request_ok m t d hs" and "NUL \<notin> set t" and "\<forall>nv \<in> set hs. no_nul nv" and "digit_val d \<le> 1"
    and "length (request_text m t d hs) \<le> READ_BUFFER_LEN"
    and "c_status c = fst server_parse_status_new" and "c_parser c = snd server_parse_status_new"
  shows "read_item env (Read_bytes (request_text m t d hs)) c = Inr (False,
    c\<lparr>c_requests := c_requests c @ [built_request m t (if hs = [] then HTTPXX else version_of (digit_val d)) hs],
      c_queued := c_queued c @ [(POOL_WORKER, ''REQ''), (POOL_WRITE, ''RESP'')]\<rparr>)"
proof -
  let ?t = "request_text m t d hs" and ?v = "if hs = [] then HTTPXX else version_of (digit_val d)"
  have init: "snd server_parse_status_new = http_parser_init HTTP_REQUEST"
    by (simp add: server_parse_status_new_def)
  obtain pr where pr: "http_parser_execute (settings_of reader) ?t (http_parser_init HTTP_REQUEST) fresh_status =
      Inr (length ?t, pr, reader_final m t ?v hs)" "p_errno pr = HPE_OK" "\<not> p_upgrade pr"
    using execute_request_run [OF assms(1) reader_from_fresh [OF assms(2-4)]] by blast
  have ne: "?t \<noteq> []" by (simp add: request_text_def)
  have q: "queue_request (c\<lparr>c_parser := pr, c_status := reader_final m t ?v hs\<rparr>) =
      Inr (CONN_ENQUEUE POOL_WORKER ''REQ'' (c\<lparr>c_requests := c_requests c @ [built_request m t ?v hs]\<rparr>))"
    by (rule queue_request_final [OF assms(6,7)])
  have comp: "sp_request_complete (reader_final m t ?v hs)" by (simp add: reader_final_def)
  have "read_bytes env ?t c = Inr (CONN_ENQUEUE POOL_WRITE ''RESP''
      (CONN_ENQUEUE POOL_WORKER ''REQ'' (c\<lparr>c_requests := c_requests c @ [built_request m t ?v hs]\<rparr>)))"
    unfolding read_bytes_def assms(6,7) init parser_get_settings_def pr(1) bind_res_simps case_prod_conv
    using pr(2,3) comp q by (simp add: Let_def)
  moreover have "sys_read (Read_bytes ?t) READ_BUFFER_LEN = Read_bytes ?t" using assms(5) by (simp add: sys_read_def)
  ultimately show ?thesis using ne by (simp add: read_item_def CONN_ENQUEUE_def)
qed

section \<open>A request from end to end\<close>

lemma get_method: "http_method_fromstring (method_strings HTTP_GET) = METHOD_GET"
  by (simp add: http_method_fromstring_def known_methods_def)

lemma worker_one:
  assumes "c_requests c = [q]" and "server_process_request env conf q = Inr r" and "http_request_delete q = Inr ()"
  shows "worker_item env conf c = Inr (c\<lparr>c_requests := [], c_responses := c_responses c @ [r],
    c_queued := c_queued c @ [(POOL_WRITE, ''RESP'')]\<rparr>)"
  using assms by (simp add: worker_item_def add_response_def CONN_ENQUEUE_def)

text \<open>
  A request that is served: a well-formed \<open>GET\<close> of HTTP/1.1, with the \<open>Host\<close> of a configured
  host, for a regular file \<open>f\<close> of type \<open>mt\<close> under its directory; \<open>close\<close> is whether it asks for
  the connection to be closed.
\<close>

definition get_served ::
  "server_env \<Rightarrow> config_server \<Rightarrow> string \<Rightarrow> (string \<times> string) list \<Rightarrow> string \<Rightarrow> bool \<Rightarrow> open_file \<Rightarrow> bool" where
  "get_served env conf target hs mt close f \<longleftrightarrow>
     (\<exists>pth rest host name p h sd path. target = pth @ rest \<and>
        request_ok HTTP_GET target (CHR ''1'') hs \<and> NUL \<notin> set target \<and> (\<forall>nv \<in> set hs. no_nul nv) \<and>
        length (request_text HTTP_GET target (CHR ''1'') hs) \<le> READ_BUFFER_LEN \<and>
        http_header_list_get (map (\<lambda>(n, v). http_header_new n (Some v)) hs) HEADER_HOST = Some host \<and>
        h_content host = Some name \<and>
        config_server_gethost conf (Some name) = Inr (Some p) \<and> host_at conf p = Some h \<and> serve_dir h = Some sd \<and>
        origin_form pth rest \<and> length pth < 65536 \<and>
        se_realpath env (sd @ pth) = Some path \<and> starts_with path sd \<and>
        se_stat env path = Some S_IFREG \<and> se_open env path = Some f \<and>
        mime_get_type (se_magic env) (se_mime_list env) path DEFAULT_CONTENT_TYPE = Text mt \<and>
        close_connection HTTP11 (http_header_list_get (map (\<lambda>(n, v). http_header_new n (Some v)) hs) HEADER_CONNECTION) =
          Inr close \<and>
        (\<forall>i. f_fails f i = None) \<and> length (f_bytes f) < 2 ^ 32 \<and> NUL \<notin> set mt)"

lemma get_served_run:
  assumes "get_served env conf target hs mt close f"
  shows "\<exists>q. (\<forall>n skt. read_item env (Read_bytes (request_text HTTP_GET target (CHR ''1'') hs))
        (fst (server_connection_new n skt)) = Inr (False, (fst (server_connection_new n skt))
          \<lparr>c_requests := [q], c_queued := [(POOL_WORKER, ''REQ''), (POOL_WRITE, ''RESP'')]\<rparr>)) \<and>
    server_process_request env conf q = Inr (file_reply mt close f) \<and> http_request_delete q = Inr ()"
proof -
  from assms obtain pth rest host name p h sd path where t: "target = pth @ rest"
    and ok: "request_ok HTTP_GET target (CHR ''1'') hs" "NUL \<notin> set target" "\<forall>nv \<in> set hs. no_nul nv"
      "length (request_text HTTP_GET target (CHR ''1'') hs) \<le> READ_BUFFER_LEN"
    and host: "http_header_list_get (map (\<lambda>(n, v). http_header_new n (Some v)) hs) HEADER_HOST = Some host"
      "h_content host = Some name"
      "config_server_gethost conf (Some name) = Inr (Some p)" "host_at conf p = Some h" "serve_dir h = Some sd"
    and form: "origin_form pth rest" "length pth < 65536"
    and fs: "se_realpath env (sd @ pth) = Some path" "starts_with path sd"
      "se_stat env path = Some S_IFREG" "se_open env path = Some f"
      "mime_get_type (se_magic env) (se_mime_list env) path DEFAULT_CONTENT_TYPE = Text mt"
    and cl: "close_connection HTTP11
      (http_header_list_get (map (\<lambda>(n, v). http_header_new n (Some v)) hs) HEADER_CONNECTION) = Inr close"
    unfolding get_served_def by blast
  have d: "digit_val (CHR ''1'') = 1" by code_simp
  have hs: "map header_of hs = map (\<lambda>(n, v). http_header_new n (Some v)) hs" by (auto simp: header_of_def)
  have "hs \<noteq> []" using host(1) by (auto simp: http_header_list_get_def)
  then have v: "(if hs = [] then HTTPXX else version_of (digit_val (CHR ''1''))) = HTTP11"
    by (simp add: d version_of_def)
  let ?q = "built_request HTTP_GET target HTTP11 hs"
  have r1: "read_item env (Read_bytes (request_text HTTP_GET target (CHR ''1'') hs)) (fst (server_connection_new n skt)) =
      Inr (False, (fst (server_connection_new n skt))
        \<lparr>c_requests := [?q], c_queued := [(POOL_WORKER, ''REQ''), (POOL_WRITE, ''RESP'')]\<rparr>)" for n skt
  proof -
    let ?c = "fst (server_connection_new n skt)"
    have new: "c_status ?c = fst server_parse_status_new" "c_parser ?c = snd server_parse_status_new"
      "c_requests ?c = []" "c_queued ?c = []"
      by (simp_all add: server_connection_new_def)
    show ?thesis using read_request_run [OF ok(1-3) _ ok(4) new(1,2)] d new v by simp
  qed
  have line: "rq_line ?q = Some (line_of HTTP_GET target HTTP11)" and heads: "rq_headers ?q = map header_of hs"
    by (simp_all add: built_request_def)
  have lf: "rl_method (line_of HTTP_GET target HTTP11) = METHOD_GET"
    "rl_uri (line_of HTTP_GET target HTTP11) = Some (pth @ rest)" "rl_version (line_of HTTP_GET target HTTP11) = HTTP11"
    using get_method by (simp_all add: line_of_def t)
  have rh: "request_host (line_of HTTP_GET target HTTP11) (rq_headers ?q) = Inr (Some (Some name))"
    using host(1,2) by (simp add: request_host_def lf heads hs)
  have proc: "server_process_request env conf ?q = Inr (file_reply mt close f)"
    using serves_file_run [OF line _ rh host(3-5) lf(2) form fs, of close] cl
    by (simp add: lf heads hs acceptable_methods_def file_reply_def)
  have "http_request_delete ?q = Inr ()" by (simp add: built_request_def http_request_new_def http_body_new_def)
  with r1 proc show ?thesis by blast
qed

lemma get_served_file:
  "get_served env conf target hs mt close f \<Longrightarrow>
    (\<forall>i. f_fails f i = None) \<and> length (f_bytes f) < 2 ^ 32 \<and> NUL \<notin> set mt"
  unfolding get_served_def by blast

text \<open>
  A client that connects and sends a well-formed \<open>GET\<close> of HTTP/1.1, with the \<open>Host\<close> of
  a configured host, for a regular file under its directory, gets exactly one answer when
  its socket takes what it is given: the status line 200, headers with distinct names that
  say the length and the type of the file and the date, an empty line and the bytes of the
  file; the connection is closed exactly when the request asks for it. Each of the three
  pools is told to do its part.
\<close>

theorem get_file_answered:
  assumes "request_ok HTTP_GET (pth @ rest) (CHR ''1'') hs" and "NUL \<notin> set (pth @ rest)" and "\<forall>nv \<in> set hs. no_nul nv"
    and "length (request_text HTTP_GET (pth @ rest) (CHR ''1'') hs) \<le> READ_BUFFER_LEN"
    and "http_header_list_get (map (\<lambda>(n, v). http_header_new n (Some v)) hs) HEADER_HOST = Some host"
    and "h_content host = Some name"
    and "config_server_gethost conf (Some name) = Inr (Some p)" and "host_at conf p = Some h" and "serve_dir h = Some sd"
    and "origin_form pth rest" and "length pth < 65536"
    and "se_realpath env (sd @ pth) = Some path" and "starts_with path sd"
    and "se_stat env path = Some S_IFREG" and "se_open env path = Some f"
    and "mime_get_type (se_magic env) (se_mime_list env) path DEFAULT_CONTENT_TYPE = Text mt"
    and "close_connection HTTP11 (http_header_list_get (map (\<lambda>(n, v). http_header_new n (Some v)) hs) HEADER_CONNECTION) =
      Inr close"
    and "\<forall>i. f_fails f i = None" and "length (f_bytes f) < 2 ^ 32" and "NUL \<notin> set mt" and "NUL \<notin> set date"
    and "takes_all w" and "\<not> skt_error skt"
  shows "\<exists>c1 c2 c3 w' l.
    read_item env (Read_bytes (request_text HTTP_GET (pth @ rest) (CHR ''1'') hs))
      (fst (server_connection_new n skt)) = Inr (False, c1) \<and>
    worker_item env conf c1 = Inr c2 \<and>
    write_item date c2 w = Some (Inr (False, c3, w')) \<and>
    sent w' = sent w @ ''HTTP/1.1 200 OK'' @ CRLF @ header_lines l @ CRLF @ f_bytes f \<and>
    unique_names l \<and> header_value l HEADER_CONTENT_LENGTH = Some (dec (length (f_bytes f))) \<and>
    header_value l HEADER_CONTENT_TYPE = Some mt \<and> header_value l HEADER_DATE = Some date \<and>
    skt_closed (c_skt c3) = (skt_closed skt \<or> close) \<and> c_requests c3 = [] \<and> c_responses c3 = [] \<and>
    c_queued c3 = [(POOL_WORKER, ''REQ''), (POOL_WRITE, ''RESP''), (POOL_WRITE, ''RESP'')]"
proof -
  let ?c = "fst (server_connection_new n skt)"
  have "get_served env conf (pth @ rest) hs mt close f"
    unfolding get_served_def using assms(1-20) by blast
  from get_served_run [OF this] obtain q where
    r: "read_item env (Read_bytes (request_text HTTP_GET (pth @ rest) (CHR ''1'') hs)) ?c = Inr (False, ?c
          \<lparr>c_requests := [q], c_queued := [(POOL_WORKER, ''REQ''), (POOL_WRITE, ''RESP'')]\<rparr>)"
      "server_process_request env conf q = Inr (file_reply mt close f)" "http_request_delete q = Inr ()" by blast
  have new: "c_requests ?c = []" "c_responses ?c = []" "c_queued ?c = []" "c_skt ?c = skt"
    by (simp_all add: server_connection_new_def)
  let ?c1 = "?c\<lparr>c_requests := [q], c_queued := [(POOL_WORKER, ''REQ''), (POOL_WRITE, ''RESP'')]\<rparr>"
  let ?c2 = "?c1\<lparr>c_requests := [], c_responses := [file_reply mt close f],
    c_queued := [(POOL_WORKER, ''REQ''), (POOL_WRITE, ''RESP''), (POOL_WRITE, ''RESP'')]\<rparr>"
  have r2: "worker_item env conf ?c1 = Inr ?c2"
    using worker_one [of ?c1, OF _ r(2,3)] new by simp
  obtain l where l: "sendable date (file_reply mt close f)" "closes date (file_reply mt close f) = close"
    "wire date (file_reply mt close f) = ''HTTP/1.1 200 OK'' @ CRLF @ header_lines l @ CRLF @ f_bytes f"
    "unique_names l \<and> header_value l HEADER_CONTENT_LENGTH = Some (dec (length (f_bytes f))) \<and>
      header_value l HEADER_CONTENT_TYPE = Some mt \<and> header_value l HEADER_DATE = Some date"
    using file_reply_sendable [OF assms(18-21), of close] by blast
  have h2: "dl_holds (c_writes ?c2) []" using connection_new_writes [of n skt] by simp
  have "\<forall>r \<in> set (c_responses ?c2). sendable date r" "\<not> skt_error (c_skt ?c2)" using l(1) assms(23) new by simp_all
  from write_item_run [OF this(1) h2 this(2) assms(22)] obtain q' w' where
    "write_item date ?c2 w = Some (Inr (False, ?c2\<lparr>c_writes := q', c_responses := [],
       c_skt := (if close then skt_close skt else skt)\<rparr>, w'))"
    "sent w' = sent w @ wire date (file_reply mt close f)"
    using l(2) new by (auto split: if_splits)
  with r(1) r2 l(3,4) show ?thesis
    by (intro exI [of _ ?c1] exI [of _ ?c2] exI conjI) auto
qed

section \<open>A request that cannot be parsed\<close>

lemma errno_no_brace: "CHR ''{'' \<notin> set (http_errno_description e)"
  by (cases e) simp_all

lemma bad_first_byte:
  assumes "\<not> IS_ALPHA b" and "b \<noteq> CR" and "b \<noteq> LF"
  shows "\<exists>pr. http_parser_execute st (b # bs) (http_parser_init HTTP_REQUEST) u = Inr (0, pr, u) \<and>
    p_errno pr = HPE_INVALID_METHOD \<and> \<not> p_upgrade pr"
  using assms
  by (simp add: http_parser_execute_def http_parser_init_def start_exec_def exec_loop.simps [of st "b # bs"]
      exec_byte.simps [of st "b # bs"] step_def in_start_req_def goto_error_def returned_def
      header_overflow_def count_byte_def Let_def reset_message_def)

text \<open>A built-in page, with the header \<open>reply_closing\<close> adds.\<close>

definition error_reply :: "16 word \<Rightarrow> string \<Rightarrow> string \<Rightarrow> http_response" where
  "error_reply code mt page =
     \<lparr>rs_line = http_response_line_new code,
      rs_headers = [http_header_new HEADER_CONTENT_TYPE (Some mt),
        http_header_new HEADER_CONNECTION (Some ''Close'')],
      rs_body_chunked = False, rs_body = \<lparr>b_type = BODY_STRING, r_offset = 0, b_data = P_str page\<rparr>,
      rs_send_status = SEND_RESPONSE_LINE\<rparr>"

lemma reply_closing_run:
  assumes "builtin_page (se_files env) code message = Some (mt, page)" and "CHR ''{'' \<notin> set message"
  shows "reply_closing env code message c = Inr (add_response (error_reply code mt page) c)"
proof -
  from create_builtin_page [OF assms] obtain r where
    r: "http_response_create_builtin (se_files env) code (Some message) = Inr r"
    and f: "rs_line r = http_response_line_new code" "rs_send_status r = SEND_RESPONSE_LINE"
      "rs_headers r = [http_header_new HEADER_CONTENT_TYPE (Some mt)]" "\<not> rs_body_chunked r"
      "rs_body r = \<lparr>b_type = BODY_STRING, r_offset = 0, b_data = P_str page\<rparr>" by blast
  have "r\<lparr>rs_headers := rs_headers r @ [http_header_new HEADER_CONNECTION (Some ''Close'')]\<rparr> =
      error_reply code mt page"
    using f by (cases r) (simp add: error_reply_def)
  with r show ?thesis
    by (simp add: reply_closing_def http_header_list_add_def utarray_push_back_def)
qed

lemma error_reply_sendable:
  assumes "unat code \<noteq> 100" and "length page < 2 ^ 32" and "NUL \<notin> set date" and "NUL \<notin> set mt"
  shows "\<exists>l. sendable date (error_reply code mt page) \<and> closes date (error_reply code mt page) \<and>
    wire date (error_reply code mt page) =
      status_line_text (http_response_line_new code) @ header_lines l @ CRLF @ page \<and>
    header_value l HEADER_CONTENT_LENGTH = Some (dec (length page)) \<and>
    header_value l HEADER_CONTENT_TYPE = Some mt \<and>
    header_value l HEADER_CONNECTION = Some ''Close''"
proof -
  let ?r = "error_reply code mt page"
  have code: "unat (sl_code (rs_line ?r)) \<noteq> 100" using assms(1) by (simp add: error_reply_def http_response_line_new_def)
  have u: "unique_names (rs_headers ?r)" by (simp add: error_reply_def unique_names_def)
  have bytes: "body_bytes (rs_body ?r) = page" by (simp add: error_reply_def body_bytes_def)
  have ok: "body_ok (rs_body ?r)" using assms(2) bytes by (simp add: body_ok_def error_reply_def)
  have fr: "framing_header ?r = Inr (HEADER_CONTENT_LENGTH, dec (length page))"
    using ok bytes assms(2) by (simp add: framing_header_def) (simp add: error_reply_def)
  have set: "HEADER_CONTENT_LENGTH \<in> set_headers" by (simp add: set_headers_def)
  have conn: "HEADER_CONNECTION \<notin> set_headers" "HEADER_CONNECTION \<noteq> []" by (simp_all add: set_headers_def)
  from response_headers_ok [OF code u fr, of date] obtain l where l: "response_headers date ?r = Inr l"
    and hv: "\<forall>m. m \<noteq> [] \<longrightarrow> header_value l m =
      (if m = HEADER_SERVER then Some SERVER_NAME
       else if m = HEADER_DATE then Some date
       else if m = HEADER_CONTENT_LENGTH then Some (dec (length page))
       else if m = HEADER_CONTENT_TYPE \<and> http_header_list_get (rs_headers ?r) m = None
       then Some DEFAULT_CONTENT_TYPE
       else header_value (rs_headers ?r) m)" by auto
  note get = response_headers_get(1) [OF l code u fr set conn]
  have hi: "header_is (http_header_list_get l HEADER_CONNECTION) ''close'' = Inr True"
    unfolding get by (simp add: error_reply_def http_header_list_get_def header_is_def close_text)
  have "\<forall>h \<in> set (rs_headers ?r). hdr_clean h" using assms(4) by (simp add: error_reply_def hdr_clean_new)
  then have "\<forall>h \<in> set l. hdr_clean h"
    using response_headers_get(2) [OF l code u fr set conn] dec_clean assms(3) by blast
  then have "NUL \<notin> set (header_lines l)" by (auto simp: header_lines_def hdr_clean_def)
  moreover have "NUL \<notin> set (status_line_text (http_response_line_new code))"
  proof -
    have "list_all (\<lambda>(_, m). NUL \<notin> set m) status_messages" by (simp add: status_messages_def)
    then have "NUL \<notin> set m" if "map_of status_messages k = Some m" for k m
      using map_of_SomeD [OF that] by (auto simp: list_all_iff)
    then show ?thesis
      by (auto simp: status_line_text_def http_response_line_get_message_def http_response_line_new_def dec_clean
          split: option.splits)
  qed
  moreover have "rs_line ?r = http_response_line_new code" by (simp add: error_reply_def)
  ultimately have "wire date ?r = status_line_text (http_response_line_new code) @ header_lines l @ CRLF @ page"
    by (simp add: wire_def l bytes)
  moreover have "sendable date ?r"
    using ok l hi by (simp add: sendable_def) (simp add: error_reply_def file_reads_def)
  moreover have "closes date ?r" using l hi by (simp add: closes_def)
  moreover have "header_value l HEADER_CONTENT_LENGTH = Some (dec (length page))"
    using hv [rule_format, of HEADER_CONTENT_LENGTH] by simp
  moreover have "header_value l HEADER_CONTENT_TYPE = Some mt"
    using hv [rule_format, of HEADER_CONTENT_TYPE]
    by (simp add: error_reply_def http_header_list_get_def header_value_def)
  moreover have "header_value l HEADER_CONNECTION = Some ''Close''"
    using hv [rule_format, of HEADER_CONNECTION]
    by (simp add: error_reply_def http_header_list_get_def header_value_def)
  ultimately show ?thesis by blast
qed

lemma upto_close_append:
  "\<forall>r \<in> set rs. \<not> closes date r \<Longrightarrow> upto_close date (rs @ [r]) = rs @ [r]"
  by (induction rs) simp_all

lemma bad_request_line: "status_line_text (http_response_line_new 400) = ''HTTP/1.1 400 Bad Request'' @ CRLF"
proof -
  have "dec 400 = ''400''" by (simp add: dec_step dec_small) code_simp
  then show ?thesis
    by (simp add: status_line_text_def http_response_line_get_message_def status_messages_def http_response_line_new_def)
qed

text \<open>
  C19: when the parser refuses what one read of a client gave (and has not seen an upgrade), a 400 page
  that names the parser's reason is appended to the responses of the connection; nothing goes
  to the workers. The page is \<open>error.html\<close> with its markers filled in when there is such a
  file (it must not begin with a \<open>NUL\<close>, and the page is to be shorter than 4 GiB), else the
  plain text. When the socket has not failed and takes what it is given, the bytes left over
  and the responses that were pending (each of which can be sent, and none of which closes the
  connection) are sent first, then the page with its status line, its right type and length
  and \<open>Connection: Close\<close>, and the connection is closed.
\<close>

theorem parse_error_answered:
  assumes "http_parser_execute parser_get_settings bs (c_parser c) (c_status c) = Inr (k, pr, st)"
    and "p_errno pr \<noteq> HPE_OK" and "\<not> p_upgrade pr" and "bs \<noteq> []" and "length bs \<le> READ_BUFFER_LEN"
    and "builtin_page (se_files env) 400 (http_errno_description (p_errno pr)) = Some (mt, page)"
    and "length page < 2 ^ 32" and "NUL \<notin> set date"
    and "\<forall>r \<in> set (c_responses c). sendable date r \<and> \<not> closes date r"
    and "dl_holds (c_writes c) left" and "\<not> skt_error (c_skt c)" and "takes_all w"
  shows "\<exists>c1 c2 w' l. read_item env (Read_bytes bs) c = Inr (False, c1) \<and>
    c_queued c1 = c_queued c @ [(POOL_WRITE, ''RESP'')] \<and> c_requests c1 = c_requests c \<and>
    write_item date c1 w = Some (Inr (False, c2, w')) \<and> skt_closed (c_skt c2) \<and>
    sent w' = sent w @ left @ concat (map (wire date) (c_responses c)) @
      ''HTTP/1.1 400 Bad Request'' @ CRLF @ header_lines l @ CRLF @ page \<and>
    header_value l HEADER_CONTENT_LENGTH = Some (dec (length page)) \<and>
    header_value l HEADER_CONTENT_TYPE = Some mt \<and>
    header_value l HEADER_CONNECTION = Some ''Close''"
proof -
  let ?r = "error_reply 400 mt page"
  let ?c1 = "c\<lparr>c_parser := pr, c_status := st, c_responses := c_responses c @ [?r],
    c_queued := c_queued c @ [(POOL_WRITE, ''RESP'')]\<rparr>"
  note rc = reply_closing_run [OF assms(6) errno_no_brace]
  have "read_bytes env bs c = Inr ?c1"
    unfolding read_bytes_def assms(1) bind_res_simps case_prod_conv
    using assms(2,3) rc by (simp add: Let_def add_response_def CONN_ENQUEUE_def)
  moreover have "sys_read (Read_bytes bs) READ_BUFFER_LEN = Read_bytes bs" using assms(5) by (simp add: sys_read_def)
  ultimately have r1: "read_item env (Read_bytes bs) c = Inr (False, ?c1)"
    using assms(4) by (simp add: read_item_def)
  have "NUL \<notin> set mt"
    using assms(6) by (auto simp: builtin_page_def Let_def split: option.splits if_splits)
  then obtain l where l: "sendable date ?r" "closes date ?r"
    "wire date ?r = status_line_text (http_response_line_new 400) @ header_lines l @ CRLF @ page"
    "header_value l HEADER_CONTENT_LENGTH = Some (dec (length page))"
    "header_value l HEADER_CONTENT_TYPE = Some mt"
    "header_value l HEADER_CONNECTION = Some ''Close''"
    using error_reply_sendable [of 400 page date mt] assms(7,8) by auto
  have "\<forall>r \<in> set (c_responses ?c1). sendable date r" "dl_holds (c_writes ?c1) left" "\<not> skt_error (c_skt ?c1)"
    using l(1) assms(9-11) by auto
  from write_item_run [OF this assms(12)] obtain c2 w' where
    "write_item date ?c1 w = Some (Inr (False, c2, w'))" "skt_closed (c_skt c2)"
    "sent w' = sent w @ left @ concat (map (wire date) (c_responses c @ [?r]))"
    using l(2) upto_close_append [of "c_responses c" date ?r] assms(9) by auto
  with r1 l(3-6) show ?thesis
    by (intro exI [of _ ?c1] exI [of _ c2] exI [of _ w'] exI [of _ l]) (simp add: bad_request_line)
qed

section \<open>Concrete sessions\<close>

definition small_skt :: socket_info where
  "small_skt = \<lparr>skt_id = 1, skt_fd = 5, skt_closed = False, skt_error = False\<rparr>"

text \<open>
  The \<open>error.html\<close> of the repository (\<open>content/error.html\<close>), beside the files of the small
  server; and a connection with a \<open>100 Continue\<close> that has not been written yet.
\<close>

definition shipped_page :: "string \<Rightarrow> string \<Rightarrow> string \<Rightarrow> string" where
  "shipped_page title body_title message =
     (''<!DOCTYPE html>'' @ [LF] @ ''<html>'' @ [LF] @ ''  <head>'' @ [LF] @ ''    <title>'') @ title @
     (''</title>'' @ [LF] @ ''    <meta charset='' @ [CHR 0x22] @ ''UTF-8'' @ [CHR 0x22] @ ''>'' @ [LF] @
      ''    <meta name='' @ [CHR 0x22] @ ''viewport'' @ [CHR 0x22] @ '' content='' @ [CHR 0x22] @
      ''width=device-width, initial-scale=1.0'' @ [CHR 0x22] @ ''>'' @ [LF] @ ''  </head>'' @ [LF] @ ''  <body>'' @ [LF] @
      ''      <h1>'') @ body_title @ (''</h1>'' @ [LF] @ ''      <p>'') @ message @
     (''</p>'' @ [LF] @ ''  </body>'' @ [LF] @ ''</html>'')"

definition shipped_env :: server_env where
  "shipped_env = small_env\<lparr>se_open := (se_open small_env)(''error.html'' \<mapsto>
     \<lparr>f_bytes = shipped_page ''{{title}}'' ''{{body_title}}'' ''{{message}}'', f_fails = (\<lambda>_. None)\<rparr>)\<rparr>"

lemma method_title:
  "builtin_title 400 (http_response_line_get_message (http_response_line_new 400)) = ''Error 400 - Bad Request''"
proof -
  have "dec 400 = ''400''" by (simp add: dec_step dec_small) code_simp
  then show ?thesis
    by (simp add: builtin_title_def http_response_line_get_message_def status_messages_def http_response_line_new_def)
qed

lemma shipped_builtin_page:
  "builtin_page (se_files shipped_env) 400 ''invalid HTTP method'' =
    Some (''text/html'', shipped_page ''Error 400 - Bad Request'' ''Error 400 - Bad Request'' ''invalid HTTP method'')"
proof -
  let ?m = "shipped_page ''{{title}}'' ''{{body_title}}'' ''{{message}}''"
  have fill: "builtin_fill ?m ''Error 400 - Bad Request'' ''invalid HTTP method'' =
      shipped_page ''Error 400 - Bad Request'' ''Error 400 - Bad Request'' ''invalid HTTP method''"
    unfolding shipped_page_def by (rule builtin_fill_html) simp_all
  have "NUL \<notin> set ?m" by (simp add: shipped_page_def)
  then have m: "cstr ?m = ?m" by (rule cstr_ident)
  have "?m \<noteq> []" by (simp add: shipped_page_def)
  then show ?thesis
    using m fill by (simp add: builtin_page_def method_title file_map_new_def se_files_def shipped_env_def)
qed

theorem parse_error_answered_witness:
  "\<exists>c1 c2 w' l. read_item shipped_env (Read_bytes ''%'')
      (add_response plain_continue (fst (server_connection_new 1 small_skt))) = Inr (False, c1) \<and>
    c_queued c1 = [(POOL_WRITE, ''RESP'')] \<and>
    write_item ''now'' c1 slow_fd = Some (Inr (False, c2, w')) \<and> skt_closed (c_skt c2) \<and>
    sent w' = wire ''now'' plain_continue @ ''HTTP/1.1 400 Bad Request'' @ CRLF @ header_lines l @ CRLF @
      shipped_page ''Error 400 - Bad Request'' ''Error 400 - Bad Request'' ''invalid HTTP method'' \<and>
    header_value l HEADER_CONTENT_TYPE = Some ''text/html''"
proof -
  let ?c = "add_response plain_continue (fst (server_connection_new 1 small_skt))"
  let ?page = "shipped_page ''Error 400 - Bad Request'' ''Error 400 - Bad Request'' ''invalid HTTP method''"
  have b: "\<not> IS_ALPHA (CHR ''%'')" by code_simp
  have c: "c_parser ?c = http_parser_init HTTP_REQUEST" "c_status ?c = fresh_status" "c_responses ?c = [plain_continue]"
    "c_queued ?c = []" "\<not> skt_error (c_skt ?c)" "c_writes ?c = c_writes (fst (server_connection_new 1 small_skt))"
    by (simp_all add: server_connection_new_def server_parse_status_new_def small_skt_def add_response_def)
  obtain pr where pr: "http_parser_execute parser_get_settings ''%'' (c_parser ?c) (c_status ?c) = Inr (0, pr, fresh_status)"
    "p_errno pr = HPE_INVALID_METHOD" "\<not> p_upgrade pr"
    using bad_first_byte [OF b, of parser_get_settings "[]" fresh_status] c by auto
  have e: "builtin_page (se_files shipped_env) 400 (http_errno_description (p_errno pr)) = Some (''text/html'', ?page)"
    using shipped_builtin_page pr(2) by simp
  have t: "takes_all slow_fd" "sent slow_fd = []"
    by (simp_all add: takes_all_def makes_progress_def never_fails_def slow_fd_def)
  have hyps: "p_errno pr \<noteq> HPE_OK" "''%'' \<noteq> []" "length ''%'' \<le> READ_BUFFER_LEN" "NUL \<notin> set ''now''"
    using pr(2) by (simp_all add: READ_BUFFER_LEN_def)
  have len: "length ?page < 2 ^ 32" by (simp add: shipped_page_def)
  have r: "\<forall>r \<in> set (c_responses ?c). sendable ''now'' r \<and> \<not> closes ''now'' r"
    using three_responses_sendable continue_closes unfolding c(3) by (simp add: three_responses_def)
  have writes: "dl_holds (c_writes ?c) []" unfolding c(6) by (rule connection_new_writes)
  from parse_error_answered [OF pr(1) hyps(1) pr(3) hyps(2,3) e len hyps(4) r writes c(5) t(1)]
  show ?thesis unfolding c(3,4) t(2) by (elim exE conjE, intro exI conjI) auto
qed

lemma small_target: "target_ok (''/a.html'' @ [])"
  by (simp add: target_ok_def parse_url_char_def IS_URL_CHAR_def)

lemma small_request_ok: "request_ok HTTP_GET (''/a.html'' @ []) (CHR ''1'') [(''Host'', ''a'')]"
proof -
  have "\<forall>nv \<in> set [(''Host'', ''a'')]. header_ok nv" using get_request_ok by (simp add: request_ok_def)
  then show ?thesis using small_target by (simp add: request_ok_def request_text_def isdigit_def)
qed

abbreviation small_headers :: "(string \<times> string) list" where
  "small_headers \<equiv> [(''Host'', ''a'')]"

definition small_file :: open_file where
  "small_file = \<lparr>f_bytes = ''hi'', f_fails = (\<lambda>_. None)\<rparr>"

lemma small_text:
  "request_text HTTP_GET (''/a.html'' @ []) (CHR ''1'') small_headers = ''GET /a.html HTTP/1.1'' @ CRLF @ ''Host: a'' @ CRLF @ CRLF"
  by (simp add: request_text_def)

lemma small_get:
  shows "NUL \<notin> set (''/a.html'' @ [])" "\<forall>nv \<in> set small_headers. no_nul nv"
    and "length (request_text HTTP_GET (''/a.html'' @ []) (CHR ''1'') small_headers) \<le> READ_BUFFER_LEN"
    and "http_header_list_get (map (\<lambda>(n, v). http_header_new n (Some v)) small_headers) HEADER_HOST =
      Some (http_header_new ''Host'' (Some ''a''))" "h_content (http_header_new ''Host'' (Some ''a'')) = Some ''a''"
    and "config_server_gethost small_conf (Some ''a'') = Inr (Some 0)" "host_at small_conf 0 = Some www_host"
      "serve_dir www_host = Some ''/www''"
    and "origin_form ''/a.html'' []" "length ''/a.html'' < 65536"
    and "se_realpath small_env (''/www'' @ ''/a.html'') = Some ''/www/a.html''" "starts_with ''/www/a.html'' ''/www''"
      "se_stat small_env ''/www/a.html'' = Some S_IFREG" "se_open small_env ''/www/a.html'' = Some small_file"
    and "mime_get_type (se_magic small_env) (se_mime_list small_env) ''/www/a.html'' DEFAULT_CONTENT_TYPE = Text ''text/html''"
    and "close_connection HTTP11 (http_header_list_get (map (\<lambda>(n, v). http_header_new n (Some v)) small_headers) HEADER_CONNECTION) =
      Inr False"
    and "\<forall>i. f_fails small_file i = None" "length (f_bytes small_file) < 2 ^ 32" "NUL \<notin> set ''text/html''"
proof -
  show "length (request_text HTTP_GET (''/a.html'' @ []) (CHR ''1'') small_headers) \<le> READ_BUFFER_LEN"
    unfolding small_text by (simp add: READ_BUFFER_LEN_def)
  show "mime_get_type (se_magic small_env) (se_mime_list small_env) ''/www/a.html'' DEFAULT_CONTENT_TYPE = Text ''text/html''"
    using mime_known_type [of "''html''" "se_mime_list small_env" "\<lparr>mime = ''text/html'', extension = ''html''\<rparr>" _ "''/www/a''"]
    by (simp add: small_env_def)
  show "close_connection HTTP11 (http_header_list_get (map (\<lambda>(n, v). http_header_new n (Some v)) small_headers) HEADER_CONNECTION) =
      Inr False"
    by (simp add: close_connection_def header_is_def http_header_list_get_def)
qed (simp_all add: no_nul_def http_header_list_get_def config_server_gethost_def foreach_host small_conf_def www_host_def
    origin_form_def url_tail_char_def IS_URL_CHAR_def small_env_def starts_with_def small_file_def)

lemma small_get_served: "get_served small_env small_conf ''/a.html'' small_headers ''text/html'' False small_file"
  unfolding get_served_def
  by (rule exI [of _ "''/a.html''"], rule exI [of _ "[]"], intro exI conjI)
    (rule append_Nil2 [symmetric] small_request_ok [unfolded append_Nil2] small_get [unfolded append_Nil2])+

theorem get_file_answered_witness:
  "\<exists>c1 c2 c3 w' l.
    read_item small_env (Read_bytes (''GET /a.html HTTP/1.1'' @ CRLF @ ''Host: a'' @ CRLF @ CRLF))
      (fst (server_connection_new 1 small_skt)) = Inr (False, c1) \<and>
    worker_item small_env small_conf c1 = Inr c2 \<and>
    write_item ''now'' c2 slow_fd = Some (Inr (False, c3, w')) \<and>
    sent w' = ''HTTP/1.1 200 OK'' @ CRLF @ header_lines l @ CRLF @ ''hi'' \<and>
    header_value l HEADER_CONTENT_TYPE = Some ''text/html'' \<and> \<not> skt_closed (c_skt c3)"
proof -
  have rest: "NUL \<notin> set ''now''" "takes_all slow_fd" "\<not> skt_error small_skt" "sent slow_fd = []" "\<not> skt_closed small_skt"
    "f_bytes small_file = ''hi''"
    by (simp_all add: takes_all_def makes_progress_def never_fails_def slow_fd_def small_skt_def small_file_def)
  from get_file_answered [OF small_request_ok small_get rest(1-3), of 1]
  show ?thesis unfolding small_text rest(4,6) using rest(5) by (simp only: append_Nil) (elim exE conjE, auto)
qed

end
