(* ===== verification/Server_Run.thy ===== *)
theory Server_Run
  imports Server_Calm Server_Session
begin

text \<open>
  Runs of the whole server, from the start. To follow one, the queues are read as lists
  (\<open>aqueue\<close>) and the server as a \<open>spec\<close>: its fields without the links of the queues. There is
  one lemma per action that says what it does to the \<open>spec\<close>; a run is then followed action by
  action. Two runs are followed: a client that connects, sends a request and gets the file;
  and a client that goes away while the worker is at its request, where a thread of the
  write pool uses the connection after the loop has freed it.
\<close>

section \<open>Queues as lists\<close>

record aqueue =
  aq_wait :: "ptr list"
  aq_items :: "ptr \<Rightarrow> queue_item option"
  aq_toks :: "(ptr \<times> queue_pending_item) list"

definition qrel :: "queue \<Rightarrow> aqueue \<Rightarrow> bool" where
  "qrel q A \<longleftrightarrow> queue_rep q (aq_wait A) (map fst (aq_toks A)) \<and> q_items q = aq_items A \<and>
     q_tokens q = map_of (aq_toks A)"

definition aq_empty :: aqueue where
  "aq_empty = \<lparr>aq_wait = [], aq_items = (\<lambda>_. None), aq_toks = []\<rparr>"

definition new_item :: "64 word \<Rightarrow> string \<Rightarrow> ptr \<Rightarrow> queue_item" where
  "new_item i name p = \<lparr>qi_id = i, qi_tag = take 15 name, qi_blocked = False, qi_data = Some p\<rparr>"

definition aq_add :: "ptr \<Rightarrow> queue_item \<Rightarrow> aqueue \<Rightarrow> aqueue" where
  "aq_add a it A = A\<lparr>aq_wait := aq_wait A @ [a], aq_items := (aq_items A)(a \<mapsto> it)\<rparr>"

definition aq_take :: "ptr \<Rightarrow> ptr \<Rightarrow> aqueue \<Rightarrow> aqueue" where
  "aq_take tok a A = A\<lparr>aq_wait := remove1 a (aq_wait A),
     aq_toks := aq_toks A @ [(tok, \<lparr>qp_qid = qi_id (the (aq_items A a)), qp_data = qi_data (the (aq_items A a))\<rparr>)]\<rparr>"

definition aq_free :: "ptr \<Rightarrow> aqueue \<Rightarrow> aqueue" where
  "aq_free a A = A\<lparr>aq_items := (aq_items A)(a := None)\<rparr>"

lemma qrel_new: "qrel queue_new aq_empty"
  using queue_rep_new by (simp add: qrel_def aq_empty_def) (simp add: queue_new_def)

lemma qrel_add:
  assumes "qrel q A" and "aq_items A a = None"
  shows "\<exists>q1 q' b. queue_item_new2 i a name p q = (q1, i + 1) \<and> queue_add q1 a = Inr (q', b, 0) \<and>
    qrel q' (aq_add a (new_item i name p) A)"
proof -
  from assms have r: "queue_rep q (aq_wait A) (map fst (aq_toks A))" "q_items q a = None" by (simp_all add: qrel_def)
  obtain q1 where q1: "queue_item_new2 i a name p q = (q1, i + 1)"
    by (simp add: queue_item_new2_def queue_item_new_def)
  from queue_rep_item_new [OF r, of i name p] q1
  have n: "queue_rep q1 (aq_wait A) (map fst (aq_toks A))" "q_items q1 = (q_items q)(a \<mapsto> new_item i name p)"
    "q_tokens q1 = q_tokens q" by (simp_all add: new_item_def)
  have "a \<notin> set (aq_wait A)" using r by (auto simp: queue_rep_def)
  moreover have "q_items q1 a \<noteq> None" by (simp add: n(2))
  ultimately obtain q' b where "queue_add q1 a = Inr (q', b, 0)"
    "queue_rep q' (aq_wait A @ [a]) (map fst (aq_toks A))" "q_items q' = q_items q1" "q_tokens q' = q_tokens q1"
    using queue_add_rep [OF n(1)] by blast
  with q1 n assms(1) show ?thesis by (auto simp: qrel_def aq_add_def)
qed

lemma qrel_take:
  assumes q: "qrel q A" and w: "aq_wait A = a # as" and it: "aq_items A a = Some it" "\<not> qi_blocked it"
    and tok: "tok \<notin> fst ` set (aq_toks A)" and len: "length (aq_wait A) < 2 ^ 64"
  shows "\<exists>q'. fetch_section q tok = Some (Inr (q', Some a)) \<and> qrel q' (aq_take tok a A)"
proof -
  from q have r: "queue_rep q (a # as) (map fst (aq_toks A))" "q_items q = aq_items A" "q_tokens q = map_of (aq_toks A)"
    by (simp_all add: qrel_def w)
  have "tok \<notin> set (map fst (aq_toks A))" "length (a # as) < 2 ^ 64" using tok len w by simp_all
  from fetch_section_rep [OF r(1) this] it obtain q' where
    "fetch_section q tok = Some (Inr (q', Some a))" "queue_rep q' as (map fst (aq_toks A) @ [tok])" "q_items q' = q_items q"
    "q_tokens q' = (q_tokens q)(tok \<mapsto> \<lparr>qp_qid = qi_id it, qp_data = qi_data it\<rparr>)" by (auto simp: r(2))
  moreover have "map_of (aq_toks A) tok = None" using tok by (simp add: map_of_eq_None_iff)
  moreover from this have "map_of (aq_toks A @ [(tok, k)]) = (map_of (aq_toks A))(tok \<mapsto> k)" for k
    by (auto simp: fun_eq_iff map_add_def split: option.splits)
  ultimately show ?thesis by (simp add: qrel_def aq_take_def w it r(2,3))
qed

lemma qrel_return:
  assumes q: "qrel q A" and it: "aq_items A a = Some it" and tok: "aq_toks A = [(tok, k)]" "qp_qid k = qi_id it"
  shows "\<exists>q'. return_token q a = Some (Inr q') \<and> qrel q' (A\<lparr>aq_toks := []\<rparr>)"
proof -
  from q have r: "queue_rep q (aq_wait A) [tok]" "q_items q = aq_items A" "q_tokens q = [tok \<mapsto> k]"
    by (simp_all add: qrel_def tok(1))
  have h: "has_id q (qi_id it) tok" by (simp add: has_id_def r(3) tok(2))
  from pending_remove_rep [OF r(1), of "qi_id it"] h obtain q' where
    "QUEUE_PENDING_REMOVE q (qi_id it) = Some (Inr q')" "queue_rep q' (aq_wait A) []" "q_items q' = q_items q"
    "q_tokens q' = other_tokens q (qi_id it) [tok]" by auto
  moreover have "other_tokens q (qi_id it) [tok] = Map.empty" using h by (auto simp: other_tokens_def r(3) fun_eq_iff)
  ultimately show ?thesis by (simp add: return_token_def r(2) it qrel_def)
qed

lemma qrel_free:
  assumes q: "qrel q A" and it: "aq_items A a = Some it" and "a \<notin> set (aq_wait A)"
  shows "\<exists>q'. return_finish q a True = Inr q' \<and> qrel q' (aq_free a A)"
proof -
  from q it have "q_items q a = Some it" by (simp add: qrel_def)
  moreover have "queue_rep (q\<lparr>q_items := (q_items q)(a := None)\<rparr>) (aq_wait A) (map fst (aq_toks A))"
    using q assms(3) by (auto simp: qrel_def queue_rep_def)
  ultimately show ?thesis using q by (simp add: return_finish_def queue_item_delete_def qrel_def aq_free_def)
qed

lemma qrel_remove:
  assumes q: "qrel q A" and "\<forall>a \<in> set (aq_wait A). holds q p a \<longrightarrow> False"
  shows "\<exists>q' n. queue_remove_byptr q p = Some (Inr (q', n)) \<and> qrel q' A"
proof -
  from q have r: "queue_rep q (aq_wait A) (map fst (aq_toks A))" by (simp add: qrel_def)
  have "filter (\<lambda>a. \<not> holds q p a) (aq_wait A) = aq_wait A" using assms(2) by (simp add: filter_id_conv)
  with queue_remove_byptr_rep [OF r, of p] assms(2) obtain q' n where
    "queue_remove_byptr q p = Some (Inr (q', n))" "queue_rep q' (aq_wait A) (map fst (aq_toks A))"
    "q_tokens q' = q_tokens q" "q_items q' = (\<lambda>a. if a \<in> set (aq_wait A) \<and> holds q p a then None else q_items q a)" by auto
  moreover from this(4) assms(2) have "q_items q' = q_items q" by (auto simp: fun_eq_iff)
  ultimately show ?thesis using q by (auto simp: qrel_def)
qed

section \<open>The server as a spec\<close>

record spec =
  a_loop :: loop_pc
  a_clients :: "ptr list"
  a_conns :: "ptr \<Rightarrow> server_connection option"
  a_id :: "64 word"
  a_conn_id :: "64 word"
  a_skt_id :: "64 word"
  a_fresh :: ptr
  a_q :: "server_pool \<Rightarrow> aqueue"
  a_pc :: "server_pool \<Rightarrow> nat \<Rightarrow> tpc"
  a_fd :: "int \<Rightarrow> fd_world"

definition st_rel :: "server_state \<Rightarrow> spec \<Rightarrow> bool" where
  "st_rel st A \<longleftrightarrow> \<not> ss_shutdown_requested st \<and> ss_clients st = a_clients A \<and> ss_conns st = a_conns A \<and>
     ss_item_id st = a_id A \<and> ss_conn_id st = a_conn_id A \<and> ss_skt_id st = a_skt_id A \<and> ss_fresh st = a_fresh A \<and>
     (\<forall>pool. qrel (ss_pools st pool) (a_q A pool))"

definition srel :: "system \<Rightarrow> spec \<Rightarrow> bool" where
  "srel s A \<longleftrightarrow> st_rel (sy_server s) A \<and> sy_loop s = a_loop A \<and> sy_pc s = a_pc A \<and> sy_fd s = a_fd A"

definition up_q :: "server_pool \<Rightarrow> (aqueue \<Rightarrow> aqueue) \<Rightarrow> spec \<Rightarrow> spec" where
  "up_q pool f A = A\<lparr>a_q := (a_q A)(pool := f (a_q A pool))\<rparr>"

definition up_pc :: "server_pool \<Rightarrow> tpc \<Rightarrow> spec \<Rightarrow> spec" where
  "up_pc pool x A = A\<lparr>a_pc := (a_pc A)(pool := (a_pc A pool)(0 := x))\<rparr>"

definition up_conn :: "ptr \<Rightarrow> server_connection option \<Rightarrow> spec \<Rightarrow> spec" where
  "up_conn p c A = A\<lparr>a_conns := (a_conns A)(p := c)\<rparr>"

definition up_add :: "ptr \<Rightarrow> server_pool \<times> string \<Rightarrow> spec \<Rightarrow> spec" where
  "up_add p x A = (up_q (fst x) (aq_add (a_fresh A) (new_item (a_id A) (snd x) p)) A)
     \<lparr>a_id := a_id A + 1, a_fresh := Suc (a_fresh A)\<rparr>"

lemmas ups = up_q_def up_pc_def up_conn_def up_add_def

text \<open>No address from \<open>a_fresh\<close> on is in use.\<close>

definition unused :: "spec \<Rightarrow> bool" where
  "unused A \<longleftrightarrow> (\<forall>pool a. a_fresh A \<le> a \<longrightarrow> aq_items (a_q A pool) a = None)"

lemma unused_add: "unused A \<Longrightarrow> unused (up_add p x A)"
  by (auto simp: unused_def ups aq_add_def)

lemma st_rel_queue:
  "st_rel st A \<Longrightarrow> qrel q (f (a_q A pool)) \<Longrightarrow> st_rel (st\<lparr>ss_pools := (ss_pools st)(pool := q)\<rparr>) (up_q pool f A)"
  by (auto simp: st_rel_def up_q_def)

lemma enqueue_rel:
  assumes "st_rel st A" and "unused A"
  shows "\<exists>st'. enqueue pool name p st = Inr st' \<and> st_rel st' (up_add p (pool, name) A)"
proof -
  from assms have q: "qrel (ss_pools st pool) (a_q A pool)" "aq_items (a_q A pool) (a_fresh A) = None"
    and f: "ss_fresh st = a_fresh A" "ss_item_id st = a_id A" by (simp_all add: st_rel_def unused_def)
  from qrel_add [OF q, of "a_id A" name p] obtain q1 q' b where
    e: "queue_item_new2 (a_id A) (a_fresh A) name p (ss_pools st pool) = (q1, a_id A + 1)"
      "queue_add q1 (a_fresh A) = Inr (q', b, 0)" "qrel q' (aq_add (a_fresh A) (new_item (a_id A) name p) (a_q A pool))"
    by blast
  let ?st = "st\<lparr>ss_pools := (ss_pools st)(pool := q'), ss_item_id := a_id A + 1, ss_fresh := Suc (a_fresh A)\<rparr>"
  have "enqueue pool name p st = Inr ?st" using e by (simp add: enqueue_def f)
  moreover have "st_rel ?st (up_add p (pool, name) A)" using assms(1) e(3) by (auto simp: st_rel_def ups)
  ultimately show ?thesis by blast
qed

lemma enqueue_all_rel:
  "st_rel st A \<Longrightarrow> unused A \<Longrightarrow> \<exists>st'. enqueue_all p xs st = Inr st' \<and> st_rel st' (fold (up_add p) xs A) \<and>
    unused (fold (up_add p) xs A)"
proof (induction xs arbitrary: st A)
  case Nil
  then show ?case by simp
next
  case (Cons x xs)
  obtain pool name where x: "x = (pool, name)" by (cases x)
  from enqueue_rel [OF Cons.prems, of pool name p] obtain st1 where
    1: "enqueue pool name p st = Inr st1" "st_rel st1 (up_add p x A)" by (auto simp: x)
  from Cons.IH [OF 1(2) unused_add [OF Cons.prems(2)]] 1(1) show ?case by (auto simp: x)
qed

section \<open>The actions\<close>

text \<open>\<open>does x s A\<close>: the action \<open>x\<close> is enabled in \<open>s\<close> and leads to a state with the spec \<open>A\<close>.\<close>

definition does :: "server_env \<Rightarrow> config_server \<Rightarrow> action list \<Rightarrow> system \<Rightarrow> spec \<Rightarrow> bool" where
  "does env conf xs s A \<longleftrightarrow> (\<exists>s'. run env conf xs s = Some (Inr s') \<and> srel s' A \<and> unused A)"

lemma does_one:
  "enabled env conf x s \<Longrightarrow> act env conf x s = Some (Inr s') \<Longrightarrow> srel s' A \<Longrightarrow> unused A \<Longrightarrow> does env conf [x] s A"
  by (simp add: does_def)

lemma run_append:
  "run env conf (xs @ ys) s =
    (case run env conf xs s of Some (Inr s') \<Rightarrow> run env conf ys s' | r \<Rightarrow> r)"
  by (induction xs arbitrary: s) (auto split: option.splits sum.splits)

lemma does_append:
  assumes "does env conf xs s A" and "\<And>s'. srel s' A \<Longrightarrow> unused A \<Longrightarrow> does env conf ys s' B"
  shows "does env conf (xs @ ys) s B"
  using assms unfolding does_def by (force simp: run_append)

lemma does_run: "run env conf xs s = Some (Inr s1) \<Longrightarrow> does env conf ys s1 B \<Longrightarrow> does env conf (xs @ ys) s B"
  by (simp add: does_def run_append)

lemma fetch_does:
  assumes s: "srel s A" "unused A" and w: "aq_wait (a_q A pool) = a # as"
    and it: "aq_items (a_q A pool) a = Some it" "\<not> qi_blocked it"
    and t: "a_pc A pool 0 = T_Idle" and tok: "aq_toks (a_q A pool) = []" and len: "length (a # as) < 2 ^ 64"
  shows "does env conf [A_Fetch pool 0 0] s (up_pc pool (T_Item a) (up_q pool (aq_take 0 a) A))"
proof -
  let ?q = "ss_pools (sy_server s) pool"
  from s(1) have q: "qrel ?q (a_q A pool)" by (simp add: srel_def st_rel_def)
  from qrel_take [OF q w it, of 0] tok len w obtain q' where
    f: "fetch_section ?q 0 = Some (Inr (q', Some a))" "qrel q' (aq_take 0 a (a_q A pool))" by auto
  from q w have "queue_rep ?q (a # as) []" by (simp add: qrel_def tok)
  then have "q_count ?q = of_nat (length (a # as))" by (simp add: queue_rep_def)
  with len have "unat (q_count ?q) = length (a # as)" using unat_count by metis
  then have "q_count ?q \<noteq> 0" by auto
  then have en: "enabled env conf (A_Fetch pool 0 0) s"
    using s(1) t q tok by (simp add: enabled.simps srel_def fetch_waits_def qrel_def)
  let ?s = "set_pc pool 0 (T_Item a) (set_queue pool q' s)"
  have "act env conf (A_Fetch pool 0 0) s = Some (Inr ?s)" by (simp add: act.simps fetch_item_def f(1))
  moreover have "srel ?s (up_pc pool (T_Item a) (up_q pool (aq_take 0 a) A))"
    using s(1) f(2) st_rel_queue [of "sy_server s" A q' "aq_take 0 a" pool]
    by (simp add: srel_def set_pc_def set_queue_def up_pc_def) (simp add: st_rel_def up_q_def)
  moreover have "unused (up_pc pool (T_Item a) (up_q pool (aq_take 0 a) A))"
    using s(2) by (auto simp: unused_def ups aq_take_def)
  ultimately show ?thesis by (rule does_one [OF en])
qed

lemma handle_does:
  assumes s: "srel s A" "unused A" and t: "a_pc A pool 0 = T_Item a"
    and it: "aq_items (a_q A pool) a = Some it" "qi_data it = Some p" and c: "a_conns A p = Some c"
    and h: "run_handler env conf pool date r c (a_fd A (skt_fd (c_skt c))) = Some (Inr (False, c', w))"
    and r: "skt_closed (c_skt c) \<Longrightarrow> r = Read_fails EBADF" and room: "unat (a_id A) + length (c_queued c') < 2 ^ 64"
  shows "does env conf [A_Handle pool 0 date r] s (up_pc pool (T_Done a False)
    (fold (up_add p) (c_queued c') (up_conn p (Some (c'\<lparr>c_queued := []\<rparr>)) A))
      \<lparr>a_fd := (a_fd A)(skt_fd (c_skt c) := w)\<rparr>)"
proof -
  let ?fd = "skt_fd (c_skt c)"
  from s(1) have st: "st_rel (sy_server s) A" and pcs: "sy_pc s = a_pc A" "sy_fd s = a_fd A" by (simp_all add: srel_def)
  then have "q_items (ss_pools (sy_server s) pool) a = Some it" "ss_conns (sy_server s) p = Some c"
    using it(1) c by (simp_all add: st_rel_def qrel_def)
  then have ic: "item_conn pool a (sy_server s) = Inr (p, c)" by (simp add: item_conn_def it(2))
  have en: "enabled env conf (A_Handle pool 0 date r) s"
    using st r room by (simp add: enabled.simps pcs t readable_def room_for_def ic h room_def st_rel_def)
  let ?st1 = "(sy_server s)\<lparr>ss_conns := (ss_conns (sy_server s))(p \<mapsto> c'\<lparr>c_queued := []\<rparr>)\<rparr>"
  have "st_rel ?st1 (up_conn p (Some (c'\<lparr>c_queued := []\<rparr>)) A)" using st by (simp add: st_rel_def up_conn_def)
  moreover have "unused (up_conn p (Some (c'\<lparr>c_queued := []\<rparr>)) A)" using s(2) by (simp add: unused_def up_conn_def)
  ultimately obtain st2 where 2: "enqueue_all p (c_queued c') ?st1 = Inr st2"
    "st_rel st2 (fold (up_add p) (c_queued c') (up_conn p (Some (c'\<lparr>c_queued := []\<rparr>)) A))"
    "unused (fold (up_add p) (c_queued c') (up_conn p (Some (c'\<lparr>c_queued := []\<rparr>)) A))"
    using enqueue_all_rel by blast
  have keep: "a_loop (fold (up_add p) xs B) = a_loop B" "a_pc (fold (up_add p) xs B) = a_pc B" for xs B
    by (induction xs arbitrary: B) (simp_all add: ups)
  let ?s = "set_pc pool 0 (T_Done a False) (s\<lparr>sy_server := st2, sy_fd := (sy_fd s)(?fd := w)\<rparr>)"
  have "act env conf (A_Handle pool 0 date r) s = Some (Inr ?s)"
    by (simp add: act.simps pcs t handle_item_def ic h handled_def 2(1))
  then show ?thesis using en 2(2,3) s(1)
    by (intro does_one [where s' = ?s])
      (simp_all add: srel_def set_pc_def up_pc_def keep pcs st_rel_def unused_def, simp_all add: up_conn_def)
qed

lemma return_does:
  assumes s: "srel s A" "unused A" and t: "a_pc A pool 0 = T_Done a False"
    and it: "aq_items (a_q A pool) a = Some it" and tok: "aq_toks (a_q A pool) = [(tok, k)]" "qp_qid k = qi_id it"
  shows "does env conf [A_Return pool 0] s (up_pc pool (T_Returning a True) (up_q pool (\<lambda>A. A\<lparr>aq_toks := []\<rparr>) A))"
proof -
  from s(1) have q: "qrel (ss_pools (sy_server s) pool) (a_q A pool)" and pcs: "sy_pc s = a_pc A"
    by (simp_all add: srel_def st_rel_def)
  from qrel_return [OF q it tok] obtain q' where
    f: "return_token (ss_pools (sy_server s) pool) a = Some (Inr q')" "qrel q' ((a_q A pool)\<lparr>aq_toks := []\<rparr>)" by blast
  let ?s = "set_pc pool 0 (T_Returning a True) (set_queue pool q' s)"
  have "enabled env conf (A_Return pool 0) s" by (simp add: enabled.simps pcs t)
  moreover have "act env conf (A_Return pool 0) s = Some (Inr ?s)" by (simp add: act.simps pcs t return_item_def f(1))
  ultimately show ?thesis
    using s f(2) by (intro does_one [where s' = ?s])
      (auto simp: srel_def set_pc_def set_queue_def ups st_rel_def unused_def)
qed

lemma finish_does:
  assumes s: "srel s A" "unused A" and t: "a_pc A pool 0 = T_Returning a True"
    and it: "aq_items (a_q A pool) a = Some it" and w: "a \<notin> set (aq_wait (a_q A pool))"
  shows "does env conf [A_Finish pool 0] s (up_pc pool T_Idle (up_q pool (aq_free a) A))"
proof -
  from s(1) have q: "qrel (ss_pools (sy_server s) pool) (a_q A pool)" and pcs: "sy_pc s = a_pc A"
    by (simp_all add: srel_def st_rel_def)
  from qrel_free [OF q it w] obtain q' where
    f: "return_finish (ss_pools (sy_server s) pool) a True = Inr q'" "qrel q' (aq_free a (a_q A pool))" by blast
  let ?s = "set_pc pool 0 T_Idle (set_queue pool q' s)"
  have "enabled env conf (A_Finish pool 0) s" by (simp add: enabled.simps pcs t)
  moreover have "act env conf (A_Finish pool 0) s = Some (Inr ?s)" by (simp add: act.simps pcs t finish_item_def f(1))
  ultimately show ?thesis
    using s f(2) by (intro does_one [where s' = ?s])
      (auto simp: srel_def set_pc_def set_queue_def ups st_rel_def unused_def aq_free_def)
qed

section \<open>An item from its queue to its end\<close>

definition cycle :: "server_pool \<Rightarrow> string \<Rightarrow> read_outcome \<Rightarrow> action list" where
  "cycle pool date r = [A_Fetch pool 0 0] @ [A_Handle pool 0 date r] @ [A_Return pool 0] @ [A_Finish pool 0]"

definition drop_item :: "ptr \<Rightarrow> aqueue \<Rightarrow> aqueue" where
  "drop_item a A = A\<lparr>aq_wait := remove1 a (aq_wait A), aq_items := (aq_items A)(a := None)\<rparr>"

lemma add_up_q: "fst x \<noteq> pool \<Longrightarrow> up_add p x (up_q pool f A) = up_q pool f (up_add p x A)"
  by (simp add: ups fun_upd_twist [of "fst x" pool])

lemma add_up_pc: "up_add p x (up_pc pool y A) = up_pc pool y (up_add p x A)"
  by (simp add: ups)

lemma add_up_conn: "up_add p x (up_conn q c A) = up_conn q c (up_add p x A)"
  by (simp add: ups)

lemma add_up_fd: "(up_add p x A)\<lparr>a_fd := d\<rparr> = up_add p x (A\<lparr>a_fd := d\<rparr>)"
  by (simp add: ups)

lemma fold_up_fd: "(fold (up_add p) xs A)\<lparr>a_fd := d\<rparr> = fold (up_add p) xs (A\<lparr>a_fd := d\<rparr>)"
  by (induction xs arbitrary: A) (simp_all add: add_up_fd)

lemma fold_up_q:
  "pool \<notin> fst ` set xs \<Longrightarrow> fold (up_add p) xs (up_q pool f A) = up_q pool f (fold (up_add p) xs A)"
  by (induction xs arbitrary: A) (auto simp: add_up_q)

lemma fold_up_pc: "fold (up_add p) xs (up_pc pool x A) = up_pc pool x (fold (up_add p) xs A)"
  by (induction xs arbitrary: A) (simp_all add: add_up_pc)

lemma fold_up_conn: "fold (up_add p) xs (up_conn q c A) = up_conn q c (fold (up_add p) xs A)"
  by (induction xs arbitrary: A) (simp_all add: add_up_conn)

lemma fold_up_fields [simp]:
  "a_pc (fold (up_add p) xs A) = a_pc A" "a_loop (fold (up_add p) xs A) = a_loop A"
  "a_conns (fold (up_add p) xs A) = a_conns A" "a_fd (fold (up_add p) xs A) = a_fd A"
  "a_clients (fold (up_add p) xs A) = a_clients A"
  by (induction xs arbitrary: A) (simp_all add: ups)

lemma fold_up_other [simp]: "pool \<notin> fst ` set xs \<Longrightarrow> a_q (fold (up_add p) xs A) pool = a_q A pool"
  by (induction xs arbitrary: A) (auto simp: ups)

lemma cycle_does:
  assumes s: "srel s A" "unused A" and w: "aq_wait (a_q A pool) = a # as" "a \<notin> set as" "length (a # as) < 2 ^ 64"
    and it: "aq_items (a_q A pool) a = Some (new_item i name p)"
    and t: "a_pc A pool 0 = T_Idle" and tok: "aq_toks (a_q A pool) = []" and c: "a_conns A p = Some c"
    and h: "run_handler env conf pool date r c (a_fd A (skt_fd (c_skt c))) = Some (Inr (False, c', w'))"
    and r: "skt_closed (c_skt c) \<Longrightarrow> r = Read_fails EBADF" and room: "unat (a_id A) + length (c_queued c') < 2 ^ 64"
    and other: "pool \<notin> fst ` set (c_queued c')"
  shows "does env conf (cycle pool date r) s
    (fold (up_add p) (c_queued c') (up_conn p (Some (c'\<lparr>c_queued := []\<rparr>)) (up_q pool (drop_item a) A))
      \<lparr>a_fd := (a_fd A)(skt_fd (c_skt c) := w')\<rparr>)"
proof -
  let ?A1 = "up_pc pool (T_Item a) (up_q pool (aq_take 0 a) A)"
  let ?F = "fold (up_add p) (c_queued c') (up_conn p (Some (c'\<lparr>c_queued := []\<rparr>)) A)"
  let ?fds = "(a_fd A)(skt_fd (c_skt c) := w')"
  let ?A2 = "up_pc pool (T_Done a False) (fold (up_add p) (c_queued c') (up_conn p (Some (c'\<lparr>c_queued := []\<rparr>)) ?A1))
    \<lparr>a_fd := (a_fd ?A1)(skt_fd (c_skt c) := w')\<rparr>"
  have A2: "?A2 = up_pc pool (T_Done a False) (up_q pool (aq_take 0 a) ?F)\<lparr>a_fd := ?fds\<rparr>"
    using fold_up_q [OF other, of p "aq_take 0 a"] by (simp add: fold_up_conn fold_up_pc) (simp add: ups)
  have q: "a_q ?F pool = a_q A pool" using other by (simp add: up_conn_def)
  have f: "does env conf [A_Fetch pool 0 0] s ?A1"
    by (rule fetch_does [OF s w(1) it _ t tok w(3)]) (simp add: new_item_def)
  have hd: "does env conf [A_Handle pool 0 date r] s' ?A2" if "srel s' ?A1" "unused ?A1" for s'
    by (rule handle_does [OF that]) (use it c h r room in \<open>auto simp: ups aq_take_def new_item_def\<close>)
  let ?A3 = "up_pc pool (T_Returning a True) (up_q pool (\<lambda>A. A\<lparr>aq_toks := []\<rparr>) ?A2)"
  have rt: "does env conf [A_Return pool 0] s' ?A3" if "srel s' ?A2" "unused ?A2" for s'
    by (rule return_does [OF that, where tok = 0 and it = "new_item i name p" and k = "\<lparr>qp_qid = i, qp_data = Some p\<rparr>"]) (simp_all only: A2, simp_all add: up_pc_def up_q_def q it aq_take_def tok new_item_def)
  let ?A4 = "up_pc pool T_Idle (up_q pool (aq_free a) ?A3)"
  have fin: "does env conf [A_Finish pool 0] s' ?A4" if "srel s' ?A3" "unused ?A3" for s'
    by (rule finish_does [OF that, where it = "new_item i name p"]) (simp_all only: A2, simp_all add: up_pc_def up_q_def q it aq_take_def w)
  have "does env conf (cycle pool date r) s ?A4"
    unfolding cycle_def by (rule does_append [OF f] does_append [OF hd] does_append [OF rt] fin | assumption)+
  moreover have "?A4 = fold (up_add p) (c_queued c') (up_conn p (Some (c'\<lparr>c_queued := []\<rparr>)) (up_q pool (drop_item a) A))
      \<lparr>a_fd := ?fds\<rparr>"
  proof -
    have goal: "fold (up_add p) (c_queued c') (up_conn p (Some (c'\<lparr>c_queued := []\<rparr>)) (up_q pool (drop_item a) A)) =
        up_q pool (drop_item a) ?F"
      by (simp add: fold_up_conn fold_up_q [OF other]) (simp add: ups)
    obtain F where F: "F = ?F" by simp
    have pc: "a_pc F = a_pc A" "(a_pc A)(pool := (a_pc A pool)(0 := T_Idle)) = a_pc A"
      using t by (simp_all add: F up_conn_def fun_eq_iff)
    have d: "aq_free a ((aq_take 0 a (a_q F pool))\<lparr>aq_toks := []\<rparr>) = drop_item a (a_q F pool)"
      using tok unfolding F q by (simp add: aq_take_def aq_free_def drop_item_def)
    have "up_pc pool T_Idle (up_q pool (aq_free a) (up_pc pool (T_Returning a True)
        (up_q pool (\<lambda>A. A\<lparr>aq_toks := []\<rparr>) (up_pc pool (T_Done a False) (up_q pool (aq_take 0 a) F)\<lparr>a_fd := ?fds\<rparr>)))) =
      (up_q pool (drop_item a) F)\<lparr>a_fd := ?fds\<rparr>"
      using pc d by (simp add: up_pc_def up_q_def)
    then show ?thesis unfolding A2 goal F [symmetric] .
  qed
  ultimately show ?thesis by simp
qed

section \<open>One client\<close>

text \<open>The queues by the items that wait in them, when no thread has one.\<close>

definition queue_of :: "(ptr \<times> queue_item) list \<Rightarrow> aqueue" where
  "queue_of xs = \<lparr>aq_wait = map fst xs, aq_items = map_of xs, aq_toks = []\<rparr>"

fun pools ::
  "(ptr \<times> queue_item) list \<Rightarrow> (ptr \<times> queue_item) list \<Rightarrow> (ptr \<times> queue_item) list \<Rightarrow> server_pool \<Rightarrow> aqueue" where
  "pools rd wr wk POOL_READ = queue_of rd"
| "pools rd wr wk POOL_WRITE = queue_of wr"
| "pools rd wr wk POOL_WORKER = queue_of wk"

text \<open>The address of the connection.\<close>

definition client :: ptr where
  "client = 1"

definition at_rest ::
  "server_connection \<Rightarrow> 64 word \<Rightarrow> ptr \<Rightarrow> (server_pool \<Rightarrow> aqueue) \<Rightarrow> (int \<Rightarrow> fd_world) \<Rightarrow> spec" where
  "at_rest c i n Q fds = \<lparr>a_loop = L_Events, a_clients = [client], a_conns = [client \<mapsto> c], a_id = i, a_conn_id = 2, a_skt_id = 2,
     a_fresh = n, a_q = Q, a_pc = (\<lambda>_ _. T_Idle), a_fd = fds\<rparr>"

lemma map_of_absent: "a \<notin> fst ` set xs \<Longrightarrow> map_of xs a = None"
  by (simp add: map_of_eq_None_iff)

lemma drop_queue_of: "a \<notin> fst ` set xs \<Longrightarrow> drop_item a (queue_of ((a, it) # xs)) = queue_of xs"
  by (simp add: drop_item_def queue_of_def fun_eq_iff map_of_absent)

lemma add_queue_of: "a \<notin> fst ` set xs \<Longrightarrow> aq_add a it (queue_of xs) = queue_of (xs @ [(a, it)])"
  using map_of_absent [of a xs] by (auto simp: aq_add_def queue_of_def fun_eq_iff map_add_def split: option.splits)

lemma pools_upd [simp]:
  "(pools rd wr wk)(POOL_READ := queue_of xs) = pools xs wr wk"
  "(pools rd wr wk)(POOL_WRITE := queue_of xs) = pools rd xs wk"
  "(pools rd wr wk)(POOL_WORKER := queue_of xs) = pools rd wr xs"
  by (auto simp: fun_eq_iff elim: pools.elims) (metis pools.simps server_pool.exhaust)+

lemma rest_add [simp]:
  "n \<notin> fst ` set wr \<Longrightarrow> up_add p (POOL_WRITE, nm) (at_rest c i n (pools rd wr wk) fds) =
    at_rest c (i + 1) (Suc n) (pools rd (wr @ [(n, new_item i nm p)]) wk) fds"
  "n \<notin> fst ` set wk \<Longrightarrow> up_add p (POOL_WORKER, nm) (at_rest c i n (pools rd wr wk) fds) =
    at_rest c (i + 1) (Suc n) (pools rd wr (wk @ [(n, new_item i nm p)])) fds"
  by (simp_all add: ups at_rest_def add_queue_of)

lemma rest_conn [simp]: "up_conn client (Some c') (at_rest c i n Q fds) = at_rest c' i n Q fds"
  by (simp add: ups at_rest_def)

lemma rest_fd [simp]: "(at_rest c i n Q fds)\<lparr>a_fd := fds'\<rparr> = at_rest c i n Q fds'"
  by (simp add: at_rest_def)

lemma rest_fields [simp]:
  "a_q (at_rest c i n Q fds) = Q" "a_pc (at_rest c i n Q fds) pool t = T_Idle" "a_fd (at_rest c i n Q fds) = fds"
  "a_conns (at_rest c i n Q fds) client = Some c" "a_id (at_rest c i n Q fds) = i"
  by (simp_all add: at_rest_def)

text \<open>The oldest item of a pool goes through; \<open>Q\<close> and \<open>Q'\<close> are the queues with and without it.\<close>

lemma cycle_rest:
  assumes s: "srel s (at_rest c i n Q fds)" "unused (at_rest c i n Q fds)"
    and q: "Q pool = queue_of ((a, new_item k nm client) # xs)" "a \<notin> fst ` set xs" "length xs < 2 ^ 63"
      "Q' = Q(pool := queue_of xs)"
    and h: "run_handler env conf pool date r c (fds (skt_fd (c_skt c))) = Some (Inr (False, c', w))"
    and r: "skt_closed (c_skt c) \<Longrightarrow> r = Read_fails EBADF" and room: "unat i + length (c_queued c') < 2 ^ 64"
    and other: "pool \<notin> fst ` set (c_queued c')"
  shows "does env conf (cycle pool date r) s
    (fold (up_add client) (c_queued c') (at_rest (c'\<lparr>c_queued := []\<rparr>) i n Q' (fds(skt_fd (c_skt c) := w))))"
proof -
  have "length (a # map fst xs) < 2 ^ 64" using q(3) by simp
  then have "does env conf (cycle pool date r) s
    (fold (up_add client) (c_queued c') (up_conn client (Some (c'\<lparr>c_queued := []\<rparr>)) (up_q pool (drop_item a) (at_rest c i n Q fds)))
      \<lparr>a_fd := fds(skt_fd (c_skt c) := w)\<rparr>)"
    using cycle_does [OF s, of pool a "map fst xs" k nm client c env conf date r c' w] q(1,2) h r room other
    by (simp add: queue_of_def)
  moreover have "up_q pool (drop_item a) (at_rest c i n Q fds) = at_rest c i n Q' fds"
    using q by (simp add: ups at_rest_def drop_queue_of)
  ultimately show ?thesis by (simp add: fold_up_fd)
qed

text \<open>The client connects: descriptor 7, address 1, its first item at 2.\<close>

definition client_skt :: socket_info where
  "client_skt = \<lparr>skt_id = 1, skt_fd = 7, skt_closed = False, skt_error = False\<rparr>"

definition new_client :: server_connection where
  "new_client = fst (server_connection_new 1 client_skt)"

definition connects :: "(int \<Rightarrow> fd_world) \<Rightarrow> action" where
  "connects fds = A_Event (event True False (Listener [(7, True)])) fds"

definition fds_at :: "(int \<Rightarrow> fd_world) \<Rightarrow> int \<Rightarrow> fd_world" where
  "fds_at fds = (sy_fd started_system)(7 := fds 7)"

lemma connects_does:
  "does env conf [connects fds] started_system
    (at_rest new_client 2 3 (pools [(2, new_item 1 ''READ'' client)] [] []) (fds_at fds))"
proof -
  let ?st1 = "empty_server\<lparr>ss_skt_id := 2, ss_conn_id := 2, ss_fresh := 2, ss_clients := [client], ss_conns := [client \<mapsto> new_client]\<rparr>"
  let ?A1 = "(at_rest new_client 1 2 (pools [] [] []) (fds_at fds))"
  have e: "queue_of [] = aq_empty" by (simp add: queue_of_def aq_empty_def)
  have Q: "qrel queue_new (pools [] [] [] pool)" for pool by (cases pool) (simp_all add: e qrel_new)
  then have r1: "st_rel ?st1 ?A1" by (simp add: st_rel_def at_rest_def empty_server_def)
  have u1: "unused ?A1"
  proof -
    have "aq_items (pools [] [] [] pool) a = None" for pool a by (cases pool) (simp_all add: queue_of_def)
    then show ?thesis by (simp add: unused_def at_rest_def)
  qed
  let ?A2 = "up_add client (POOL_READ, ''READ'') ?A1"
  from enqueue_rel [OF r1 u1, of POOL_READ "''READ''" client] obtain st2 where
    2: "enqueue POOL_READ ''READ'' client ?st1 = Inr st2" "st_rel st2 ?A2" by blast
  have new: "skt_new 1 7 = Inr (client_skt, 2)" "server_connection_new 1 client_skt = (new_client, 2)"
    by (simp_all add: skt_new_def skt_nextid_def client_skt_def new_client_def server_connection_new_def)
  have acc: "accept_all [(7, True)] empty_server = Some (Inr st2)"
  proof -
    have "empty_server\<lparr>ss_skt_id := 2, ss_conn_id := 2, ss_fresh := Suc (ss_fresh empty_server),
        ss_clients := ss_clients empty_server @ [ss_fresh empty_server],
        ss_conns := (ss_conns empty_server)(ss_fresh empty_server \<mapsto> new_client)\<rparr> = ?st1"
      by (simp add: empty_server_def client_def)
    moreover have "ss_skt_id empty_server = 1" "ss_conn_id empty_server = 1" "ss_fresh empty_server = client"
      by (simp_all add: empty_server_def client_def)
    ultimately show ?thesis using 2(1) new by (simp add: accept_one_def Let_def)
  qed
  let ?s = "started_system\<lparr>sy_server := st2, sy_fd := fds_at fds\<rparr>"
  have "act env conf (connects fds) started_system = Some (Inr ?s)"
    using acc by (simp add: act.simps connects_def loop_event_def handle_event_def event_def started_system_def Let_def
        fds_at_def fun_eq_iff)
  moreover have A2: "?A2 = at_rest new_client 2 3 (pools [(2, new_item 1 ''READ'' client)] [] []) (fds_at fds)"
    by (simp add: ups at_rest_def add_queue_of)
  moreover have "srel ?s ?A2"
    using 2(2) unfolding A2 by (simp add: srel_def started_system_def at_rest_def)
  moreover have "enabled env conf (connects fds) started_system"
    by (simp add: connects_def enabled.simps started_system_def empty_server_def possible_event_def event_def room_def)
  ultimately show ?thesis using unused_add [OF u1, of client "(POOL_READ, ''READ'')"] by (metis does_one)
qed

section \<open>A request through the three pools\<close>

text \<open>The client has asked; its request is with the worker pool, and the write pool has nothing yet.\<close>

definition asked :: "http_request \<Rightarrow> server_connection" where
  "asked q = new_client\<lparr>c_requests := [q]\<rparr>"

definition answered :: "http_response \<Rightarrow> server_connection" where
  "answered r = new_client\<lparr>c_responses := [r]\<rparr>"

abbreviation nothing :: read_outcome where
  "nothing \<equiv> Read_fails EBADF"

definition asking :: "string \<Rightarrow> string \<Rightarrow> (int \<Rightarrow> fd_world) \<Rightarrow> action list" where
  "asking date bs fds = [connects fds] @ cycle POOL_READ date (Read_bytes bs)"

definition asked_spec :: "http_request \<Rightarrow> (int \<Rightarrow> fd_world) \<Rightarrow> spec" where
  "asked_spec q fds = at_rest (asked q) 4 5
     (pools [] [(4, new_item 3 ''RESP'' client)] [(3, new_item 2 ''REQ'' client)]) (fds_at fds)"

lemma new_client_fields [simp]:
  "c_requests new_client = []" "c_responses new_client = []" "c_queued new_client = []" "c_skt new_client = client_skt"
  by (simp_all add: new_client_def server_connection_new_def)

lemma client_skt_fields [simp]:
  "skt_fd client_skt = 7" "\<not> skt_closed client_skt" "\<not> skt_error client_skt"
  by (simp_all add: client_skt_def)

lemma same_queued: "c_queued c = [] \<Longrightarrow> c\<lparr>c_queued := []\<rparr> = c"
  by (cases c) simp

lemma same_fd: "(fds_at fds)(7 := fds_at fds 7) = fds_at fds"
  by simp

lemma asking_does:
  assumes "read_item env (Read_bytes bs) new_client =
    Inr (False, new_client\<lparr>c_requests := [q], c_queued := [(POOL_WORKER, ''REQ''), (POOL_WRITE, ''RESP'')]\<rparr>)"
  shows "does env conf (asking date bs fds) started_system (asked_spec q fds)"
  unfolding asking_def
proof (rule does_append [OF connects_does])
  let ?A = "at_rest new_client 2 3 (pools [(2, new_item 1 ''READ'' client)] [] []) (fds_at fds)"
  let ?c = "new_client\<lparr>c_requests := [q], c_queued := [(POOL_WORKER, ''REQ''), (POOL_WRITE, ''RESP'')]\<rparr>"
  fix s assume s: "srel s ?A" "unused ?A"
  have h: "run_handler env conf POOL_READ date (Read_bytes bs) new_client (fds_at fds (skt_fd (c_skt new_client))) =
      Some (Inr (False, ?c, fds_at fds 7))"
    using assms by (simp add: run_handler_def)
  have c: "?c\<lparr>c_queued := []\<rparr> = asked q" using same_queued [of "asked q"] by (simp add: asked_def)
  have "does env conf (cycle POOL_READ date (Read_bytes bs)) s
      (fold (up_add client) (c_queued ?c) (at_rest (?c\<lparr>c_queued := []\<rparr>) 2 3 (pools [] [] [])
        ((fds_at fds)(skt_fd (c_skt new_client) := fds_at fds 7))))"
    by (rule cycle_rest [OF s, of _ 2 1 "''READ''" "[]"]) (use h in simp_all)
  then show "does env conf (cycle POOL_READ date (Read_bytes bs)) s (asked_spec q fds)"
    unfolding c by (simp add: asked_spec_def)
qed

text \<open>The worker answers; the write pool gets a second item.\<close>

lemma work_does:
  assumes "srel s (asked_spec q fds)" "unused (asked_spec q fds)"
    and "server_process_request env conf q = Inr r" and "http_request_delete q = Inr ()"
  shows "does env conf (cycle POOL_WORKER date nothing) s
    (at_rest (answered r) 5 6 (pools [] [(4, new_item 3 ''RESP'' client), (5, new_item 4 ''RESP'' client)] []) (fds_at fds))"
proof -
  let ?c = "(answered r)\<lparr>c_queued := [(POOL_WRITE, ''RESP'')]\<rparr>"
  have "worker_item env conf (asked q) = Inr ?c"
  proof -
    have "c_requests (asked q) = [q]" by (simp add: asked_def)
    from worker_one [OF this assms(3,4)] show ?thesis by (simp add: asked_def answered_def)
  qed
  then have h: "run_handler env conf POOL_WORKER date nothing (asked q) (fds_at fds (skt_fd (c_skt (asked q)))) =
      Some (Inr (False, ?c, fds_at fds 7))"
    by (simp add: run_handler_def asked_def)
  have c: "?c\<lparr>c_queued := []\<rparr> = answered r" using same_queued [of "answered r"] by (simp add: answered_def)
  have "does env conf (cycle POOL_WORKER date nothing) s
      (fold (up_add client) (c_queued ?c) (at_rest (?c\<lparr>c_queued := []\<rparr>) 4 5 (pools [] [(4, new_item 3 ''RESP'' client)] [])
        ((fds_at fds)(skt_fd (c_skt (asked q)) := fds_at fds 7))))"
    by (rule cycle_rest [OF assms(1,2) [unfolded asked_spec_def], of _ 3 2 "''REQ''" "[]"]) (use h in simp_all)
  then show ?thesis unfolding c by (simp add: asked_def)
qed

text \<open>The write pool takes an item; \<open>write_item_run\<close> says what it sends.\<close>

lemma write_does:
  assumes s: "srel s (at_rest c i n (pools [] ((a, new_item k nm client) # xs) []) fds)"
      "unused (at_rest c i n (pools [] ((a, new_item k nm client) # xs) []) fds)"
    and a: "a \<notin> fst ` set xs" "length xs < 2 ^ 63" and i: "unat i < 2 ^ 63"
    and c: "\<forall>r \<in> set (c_responses c). sendable date r" "dl_holds (c_writes c) []" "\<not> skt_error (c_skt c)" "c_queued c = []"
    and w: "takes_all (fds (skt_fd (c_skt c)))"
  shows "\<exists>q w'. does env conf (cycle POOL_WRITE date nothing) s (at_rest (c\<lparr>c_writes := q,
      c_responses := drop (length (upto_close date (c_responses c))) (c_responses c),
      c_skt := (if \<exists>r \<in> set (c_responses c). closes date r then skt_close (c_skt c) else c_skt c)\<rparr>) i n
      (pools [] xs []) (fds(skt_fd (c_skt c) := w'))) \<and>
    dl_holds q [] \<and> sent w' = sent (fds (skt_fd (c_skt c))) @ concat (map (wire date) (upto_close date (c_responses c)))"
proof -
  from write_item_run [OF c(1-3) w] obtain q w' where
    h: "write_item date c (fds (skt_fd (c_skt c))) = Some (Inr (False, c\<lparr>c_writes := q,
      c_responses := drop (length (upto_close date (c_responses c))) (c_responses c),
      c_skt := (if \<exists>r \<in> set (c_responses c). closes date r then skt_close (c_skt c) else c_skt c)\<rparr>, w'))"
    and q: "dl_holds q []"
      "sent w' = sent (fds (skt_fd (c_skt c))) @ concat (map (wire date) (upto_close date (c_responses c)))" by auto
  let ?c = "c\<lparr>c_writes := q, c_responses := drop (length (upto_close date (c_responses c))) (c_responses c),
      c_skt := (if \<exists>r \<in> set (c_responses c). closes date r then skt_close (c_skt c) else c_skt c)\<rparr>"
  have cq: "c_queued ?c = []" using c(4) by simp
  have "run_handler env conf POOL_WRITE date nothing c (fds (skt_fd (c_skt c))) = Some (Inr (False, ?c, w'))"
    using h by (simp add: run_handler_def)
  from cycle_rest [OF s, of POOL_WRITE a k nm xs "pools [] xs []", OF _ a _ this] i
  have "does env conf (cycle POOL_WRITE date nothing) s (fold (up_add client) (c_queued ?c)
      (at_rest (?c\<lparr>c_queued := []\<rparr>) i n (pools [] xs []) (fds(skt_fd (c_skt c) := w'))))"
    by (simp add: c(4))
  then have "does env conf (cycle POOL_WRITE date nothing) s
      (at_rest ?c i n (pools [] xs []) (fds(skt_fd (c_skt c) := w')))"
    unfolding cq same_queued [OF cq] by simp
  with q show ?thesis by blast
qed

lemma write_nothing:
  assumes "c_responses c = []" and "dl_holds (c_writes c) []"
  shows "write_item date c w = Some (Inr (False, c, w))"
  using dl_holds_first [OF assms(2)] assms(1)
  by (simp add: write_item_def flush_writes_def write_loop.simps [of date c])

lemma write_nothing_does:
  assumes s: "srel s (at_rest c i n (pools [] ((a, new_item k nm client) # xs) wk) fds)"
      "unused (at_rest c i n (pools [] ((a, new_item k nm client) # xs) wk) fds)"
    and a: "a \<notin> fst ` set xs" "length xs < 2 ^ 63" and i: "unat i < 2 ^ 63"
    and c: "c_responses c = []" "dl_holds (c_writes c) []" "c_queued c = []"
  shows "does env conf (cycle POOL_WRITE date nothing) s (at_rest c i n (pools [] xs wk) fds)"
proof -
  have "run_handler env conf POOL_WRITE date nothing c (fds (skt_fd (c_skt c))) = Some (Inr (False, c, fds (skt_fd (c_skt c))))"
    by (simp add: run_handler_def write_nothing [OF c(1,2)])
  from cycle_rest [OF s, of POOL_WRITE a k nm xs "pools [] xs wk", OF _ a _ this] i c(3)
  show ?thesis by (simp add: same_queued [OF c(3)])
qed

definition session :: "string \<Rightarrow> string \<Rightarrow> (int \<Rightarrow> fd_world) \<Rightarrow> action list" where
  "session date bs fds = asking date bs fds @ cycle POOL_WORKER date nothing @
     cycle POOL_WRITE date nothing @ cycle POOL_WRITE date nothing"

lemma session_does:
  assumes g: "get_served env conf target hs mt close f" and "NUL \<notin> set date" and w: "takes_all (fds 7)"
  shows "\<exists>c fds' l. does env conf (session date (request_text HTTP_GET target (CHR ''1'') hs) fds) started_system
      (at_rest c 5 6 (pools [] [] []) fds') \<and>
    sent (fds' 7) = sent (fds 7) @ ''HTTP/1.1 200 OK'' @ CRLF @ header_lines l @ CRLF @ f_bytes f \<and>
    unique_names l \<and> header_value l HEADER_CONTENT_LENGTH = Some (dec (length (f_bytes f))) \<and>
    header_value l HEADER_CONTENT_TYPE = Some mt \<and> header_value l HEADER_DATE = Some date \<and>
    c_requests c = [] \<and> c_responses c = [] \<and> skt_closed (c_skt c) = close"
proof -
  let ?r = "file_reply mt close f"
  from get_served_run [OF g] obtain q where
    rd: "read_item env (Read_bytes (request_text HTTP_GET target (CHR ''1'') hs)) new_client =
      Inr (False, new_client\<lparr>c_requests := [q], c_queued := [(POOL_WORKER, ''REQ''), (POOL_WRITE, ''RESP'')]\<rparr>)"
    and wk: "server_process_request env conf q = Inr ?r" "http_request_delete q = Inr ()"
    unfolding new_client_def by blast
  from get_served_file [OF g] file_reply_sendable [of f mt date close] assms(2) obtain l where
    l: "sendable date ?r" "closes date ?r = close"
      "wire date ?r = ''HTTP/1.1 200 OK'' @ CRLF @ header_lines l @ CRLF @ f_bytes f"
      "unique_names l \<and> header_value l HEADER_CONTENT_LENGTH = Some (dec (length (f_bytes f))) \<and>
        header_value l HEADER_CONTENT_TYPE = Some mt \<and> header_value l HEADER_DATE = Some date" by blast
  have a: "c_responses (answered ?r) = [?r]" "c_queued (answered ?r) = []" "c_skt (answered ?r) = client_skt"
    "c_requests (answered ?r) = []" "dl_holds (c_writes (answered ?r)) []"
    using connection_new_writes [of 1 client_skt] by (simp_all add: answered_def) (simp add: new_client_def)
  let ?W = "at_rest (answered ?r) 5 6 (pools [] [(4, new_item 3 ''RESP'' client), (5, new_item 4 ''RESP'' client)] []) (fds_at fds)"
  have "does env conf (asking date (request_text HTTP_GET target (CHR ''1'') hs) fds @ cycle POOL_WORKER date nothing)
      started_system ?W"
    by (rule does_append [OF asking_does [OF rd] work_does [OF _ _ wk]])
  then obtain s1 where s1: "run env conf (asking date (request_text HTTP_GET target (CHR ''1'') hs) fds @
      cycle POOL_WORKER date nothing) started_system = Some (Inr s1)" "srel s1 ?W" "unused ?W"
    by (auto simp: does_def)
  have t: "takes_all (fds_at fds (skt_fd (c_skt (answered ?r))))" using w by (simp add: a fds_at_def)
  have up: "upto_close date (c_responses (answered ?r)) = [?r]" by (simp add: a)
  have ok: "\<forall>r \<in> set (c_responses (answered ?r)). sendable date r" "\<not> skt_error (c_skt (answered ?r))"
    using l(1) by (simp_all add: a)
  have "sent (fds_at fds 7) = sent (fds 7)" by (simp add: fds_at_def)
  with write_does [where date = date and env = env and conf = conf, OF s1(2,3) _ _ _ ok(1) a(5) ok(2) a(2) t] obtain q2 w2 where
    d2: "does env conf (cycle POOL_WRITE date nothing) s1 (at_rest ((answered ?r)\<lparr>c_writes := q2, c_responses := [],
      c_skt := (if close then skt_close client_skt else client_skt)\<rparr>) 5 6
      (pools [] [(5, new_item 4 ''RESP'' client)] []) ((fds_at fds)(7 := w2)))" "dl_holds q2 []"
    "sent w2 = sent (fds 7) @ wire date ?r"
    unfolding up a by (auto simp: l(2) simp del: split_paired_Ex)
  let ?c = "(answered ?r)\<lparr>c_writes := q2, c_responses := [], c_skt := (if close then skt_close client_skt else client_skt)\<rparr>"
  have d3: "does env conf (cycle POOL_WRITE date nothing) s (at_rest ?c 5 6 (pools [] [] []) ((fds_at fds)(7 := w2)))"
    if "srel s (at_rest ?c 5 6 (pools [] [(5, new_item 4 ''RESP'' client)] []) ((fds_at fds)(7 := w2)))"
      "unused (at_rest ?c 5 6 (pools [] [(5, new_item 4 ''RESP'' client)] []) ((fds_at fds)(7 := w2)))" for s
    by (rule write_nothing_does [OF that]) (use d2(2) in \<open>simp_all add: a\<close>)
  from does_run [OF s1(1) does_append [OF d2(1) d3]]
  have "does env conf (session date (request_text HTTP_GET target (CHR ''1'') hs) fds) started_system
      (at_rest ?c 5 6 (pools [] [] []) ((fds_at fds)(7 := w2)))"
    by (simp add: session_def)
  then show ?thesis
    by (intro exI [of _ ?c] exI [of _ "(fds_at fds)(7 := w2)"] exI [of _ l]) (use d2(3) l(3,4) in \<open>simp add: a\<close>)
qed

text \<open>
  C2: a client connects to the server and sends a request for a file. With the threads of
  the pools taking turns, it goes through the queues of all three: the run ends, without a
  fault, with exactly the answer sent on the descriptor of the client, every queue empty,
  no thread with an item, and the client still connected, its socket closed exactly when
  it asked for it.
\<close>

theorem server_answers_get:
  assumes "get_served env conf target hs mt close f" and "NUL \<notin> set date" and "takes_all (fds 7)"
  shows "\<exists>s c l. run env conf (session date (request_text HTTP_GET target (CHR ''1'') hs) fds) started_system = Some (Inr s) \<and>
    sent (sy_fd s 7) = sent (fds 7) @ ''HTTP/1.1 200 OK'' @ CRLF @ header_lines l @ CRLF @ f_bytes f \<and>
    unique_names l \<and> header_value l HEADER_CONTENT_LENGTH = Some (dec (length (f_bytes f))) \<and>
    header_value l HEADER_CONTENT_TYPE = Some mt \<and> header_value l HEADER_DATE = Some date \<and>
    (\<forall>pool. queue_rep (ss_pools (sy_server s) pool) [] []) \<and> (\<forall>pool t. sy_pc s pool t = T_Idle) \<and>
    ss_clients (sy_server s) = [client] \<and> ss_conns (sy_server s) client = Some c \<and>
    c_requests c = [] \<and> c_responses c = [] \<and> skt_closed (c_skt c) = close"
proof -
  from session_does [where fds = fds, OF assms] obtain c fds' l s where
    d: "run env conf (session date (request_text HTTP_GET target (CHR ''1'') hs) fds) started_system = Some (Inr s)"
      "srel s (at_rest c 5 6 (pools [] [] []) fds')"
    and l: "sent (fds' 7) = sent (fds 7) @ ''HTTP/1.1 200 OK'' @ CRLF @ header_lines l @ CRLF @ f_bytes f"
      "unique_names l \<and> header_value l HEADER_CONTENT_LENGTH = Some (dec (length (f_bytes f))) \<and>
        header_value l HEADER_CONTENT_TYPE = Some mt \<and> header_value l HEADER_DATE = Some date"
      "c_requests c = [] \<and> c_responses c = [] \<and> skt_closed (c_skt c) = close"
    unfolding does_def by blast
  from d(2) have q: "qrel (ss_pools (sy_server s) pool) (pools [] [] [] pool)" for pool
    by (simp add: srel_def st_rel_def)
  have "queue_rep (ss_pools (sy_server s) pool) [] []" for pool
    using q [of pool] by (cases pool) (simp_all add: qrel_def queue_of_def)
  moreover have "sy_fd s 7 = fds' 7" "ss_clients (sy_server s) = [client]" "ss_conns (sy_server s) client = Some c"
    "\<forall>pool t. sy_pc s pool t = T_Idle"
    using d(2) by (simp_all add: srel_def st_rel_def) (simp_all add: at_rest_def)
  ultimately show ?thesis using d(1) l by (intro exI [of _ s] exI [of _ c] exI [of _ l]) simp
qed

theorem server_answers_get_witness:
  "\<exists>s l. run small_env small_conf (session ''now'' (''GET /a.html HTTP/1.1'' @ CRLF @ ''Host: a'' @ CRLF @ CRLF) (\<lambda>_. slow_fd))
      started_system = Some (Inr s) \<and>
    sent (sy_fd s 7) = ''HTTP/1.1 200 OK'' @ CRLF @ header_lines l @ CRLF @ ''hi'' \<and>
    header_value l HEADER_CONTENT_TYPE = Some ''text/html''"
proof -
  have t: "takes_all slow_fd" "sent slow_fd = []" "NUL \<notin> set ''now''" "f_bytes small_file = ''hi''"
    by (simp_all add: takes_all_def makes_progress_def never_fails_def slow_fd_def small_file_def)
  from server_answers_get [where fds = "\<lambda>_. slow_fd", OF small_get_served t(3,1)] show ?thesis
    unfolding small_text [unfolded append_Nil2] t(2,4) by (simp only: append_Nil) blast
qed

section \<open>Calm runs\<close>

text \<open>A run in which the loop starts no clean-up is calm.\<close>

lemma event_loop_stays:
  assumes "sys_inv s" and "sy_loop s = L_Events" and "enabled env conf x s" and "act env conf x s = Some (Inr s')"
    and "\<And>p. x \<noteq> A_Clean p"
  shows "sy_loop s' = L_Events"
proof (cases x)
  case (A_Event ev fds)
  with loop_event_sys [OF assms(1), of env conf ev fds] assms(2-4) show ?thesis by (auto simp: act.simps)
next
  case (A_Sleep pool t)
  with assms(2,4) show ?thesis by (auto simp: act.simps set_pc_def)
next
  case (A_Fetch pool t tok)
  with assms(3) have "sy_pc s pool t = T_Idle \<or> sy_pc s pool t = T_Waiting" "q_tokens (ss_pools (sy_server s) pool) tok = None"
    by (auto simp: enabled.simps)
  from fetch_sys [OF assms(1) this] A_Fetch assms(2,4) show ?thesis by (auto simp: act.simps quiet_step_def)
next
  case (A_Handle pool t date r)
  with assms(3) obtain b where b: "sy_pc s pool t = T_Item b" "room_for env conf pool b date r s"
    by (auto simp: enabled.simps split: tpc.splits)
  from handle_sys [OF assms(1) b] conn_fails_act [of env conf x s s'] A_Handle assms(2,4) b(1) show ?thesis
    by (auto simp: act.simps)
next
  case (A_Return pool t)
  with assms(3) obtain b f where "sy_pc s pool t = T_Done b f" by (auto simp: enabled.simps split: tpc.splits)
  with return_sys [OF assms(1) this] A_Return assms(2,4) show ?thesis by (auto simp: act.simps quiet_step_def)
next
  case (A_Finish pool t)
  with assms(3) obtain b f where "sy_pc s pool t = T_Returning b f" by (auto simp: enabled.simps split: tpc.splits)
  with finish_sys [OF assms(1) this] A_Finish assms(2,4) show ?thesis by (auto simp: act.simps quiet_step_def)
qed (use assms in \<open>auto simp: enabled.simps\<close>)

lemma calm_run:
  "calm_reach env conf s \<Longrightarrow> sy_loop s = L_Events \<Longrightarrow> \<forall>x \<in> set xs. \<forall>p. x \<noteq> A_Clean p \<Longrightarrow>
   run env conf xs s = Some (Inr s') \<Longrightarrow> calm_reach env conf s'"
proof (induction xs arbitrary: s)
  case Nil
  then show ?case by simp
next
  case (Cons x xs)
  from Cons.prems(4) obtain s1 where
    s1: "enabled env conf x s" "act env conf x s = Some (Inr s1)" "run env conf xs s1 = Some (Inr s')"
    by (auto split: if_splits option.splits sum.splits)
  have inv: "sys_inv s" using calm_invD(1) [OF calm_reach_inv [OF Cons.prems(1)]] .
  have l: "sy_loop s1 = L_Events" using event_loop_stays [OF inv Cons.prems(2) s1(1,2)] Cons.prems(3) by simp
  then have "calm s1" by (simp add: calm_def)
  with Cons.prems(1) s1(1,2) have "calm_reach env conf s1" by (rule calm_reach.more)
  with Cons.IH [OF _ l] s1(3) Cons.prems(3) show ?case by simp
qed

text \<open>
  C5: as long as no thread has an item of the connection that the loop is cleaning up, every
  thread finds the connection of its item allocated and in the list of clients, and no item
  of any queue points to anything else.
\<close>

theorem calm_threads_find_connections:
  assumes "calm_reach env conf s"
  shows "(\<forall>pool t a. sy_pc s pool t = T_Item a \<longrightarrow>
      (\<exists>p c. item_conn pool a (sy_server s) = Inr (p, c) \<and> p \<in> set (ss_clients (sy_server s)))) \<and>
    (\<forall>pool b p. data_of (ss_pools (sy_server s) pool) b = Some (Some p) \<longrightarrow> p \<in> set (ss_clients (sy_server s)))"
proof -
  note inv = calm_reach_inv [OF assms]
  from calm_conn [OF inv] calm_invD(3) [OF inv] show ?thesis unfolding points_def by blast
qed

theorem calm_threads_find_connections_witness:
  "\<exists>s c. calm_reach small_env small_conf s \<and> sy_pc s POOL_READ 0 = T_Item 2 \<and>
    item_conn POOL_READ 2 (sy_server s) = Inr (client, c) \<and> client \<in> set (ss_clients (sy_server s))"
proof -
  let ?fds = "\<lambda>_. slow_fd"
  let ?A = "at_rest new_client 2 3 (pools [(2, new_item 1 ''READ'' client)] [] []) (fds_at ?fds)"
  let ?B = "up_pc POOL_READ (T_Item 2) (up_q POOL_READ (aq_take 0 2) ?A)"
  have f: "does small_env small_conf [A_Fetch POOL_READ 0 0] s ?B" if "srel s ?A" "unused ?A" for s
    by (rule fetch_does [OF that, where as = "[]" and it = "new_item 1 ''READ'' client"])
      (simp_all add: queue_of_def new_item_def)
  from does_append [OF connects_does f] obtain s where
    s: "run small_env small_conf ([connects ?fds] @ [A_Fetch POOL_READ 0 0]) started_system = Some (Inr s)" "srel s ?B"
    unfolding does_def by blast
  have "sy_loop started_system = L_Events" by (simp add: started_system_def)
  from calm_run [OF calm_reach.start this _ s(1)] have c: "calm_reach small_env small_conf s" by (simp add: connects_def)
  have t: "sy_pc s POOL_READ 0 = T_Item 2" and it: "q_items (ss_pools (sy_server s) POOL_READ) 2 = Some (new_item 1 ''READ'' client)"
    using s(2) by (simp_all add: srel_def st_rel_def qrel_def ups at_rest_def aq_take_def queue_of_def)
  from calm_threads_find_connections [OF c] t obtain p d where
    p: "item_conn POOL_READ 2 (sy_server s) = Inr (p, d)" "p \<in> set (ss_clients (sy_server s))" by blast
  moreover have "p = client" using p(1) it by (auto simp: item_conn_def new_item_def split: option.splits)
  ultimately show ?thesis using c t by blast
qed

end
