(* ===== verification/Server_Race.thy ===== *)
theory Server_Race
  imports Server_Run
begin

text \<open>
  A run that is not calm. A client asks for a file and goes away while the worker is at its
  request. The loop takes the client's items off the queues, waits for the read pool and
  the write pool, then for the worker; the worker meanwhile puts the connection into the
  queue of the write pool again, where the loop has already been. The loop frees the
  connection, and a thread of the write pool fetches the item.
\<close>

section \<open>The actions of the loop\<close>

definition hangs_up :: action where
  "hangs_up = A_Event \<lparr>ev_in = True, ev_out = True, ev_rdhup = True, ev_err = False, ev_data = Client client\<rparr>
     (sy_fd started_system)"

lemma hangs_up_does:
  assumes s: "srel s A" "unused A" and l: "a_loop A = L_Events" and c: "a_clients A = [client]" "a_conns A client = Some c"
    and i: "unat (a_id A) + 1 < 2 ^ 64"
  shows "does env conf [hangs_up] s (up_conn client (Some (c\<lparr>c_skt := skt_close (c_skt c)\<rparr>)) A)"
proof -
  let ?st = "(sy_server s)\<lparr>ss_conns := (ss_conns (sy_server s))(client \<mapsto> c\<lparr>c_skt := skt_close (c_skt c)\<rparr>)\<rparr>"
  from s(1) have st: "st_rel (sy_server s) A" and lo: "sy_loop s = L_Events" using l by (simp_all add: srel_def)
  then have f: "ss_clients (sy_server s) = [client]" "ss_conns (sy_server s) client = Some c"
    "\<not> ss_shutdown_requested (sy_server s)" "ss_item_id (sy_server s) = a_id A"
    using c by (simp_all add: st_rel_def)
  have "enabled env conf hangs_up s"
    using i by (simp add: hangs_up_def enabled.simps lo f possible_event_def room_def)
  moreover have "act env conf hangs_up s = Some (Inr (s\<lparr>sy_server := ?st\<rparr>))"
    by (simp add: hangs_up_def act.simps loop_event_def handle_event_def close_client_def f)
  moreover have "srel (s\<lparr>sy_server := ?st\<rparr>) (up_conn client (Some (c\<lparr>c_skt := skt_close (c_skt c)\<rparr>)) A)"
    using s(1) by (simp add: srel_def st_rel_def up_conn_def)
  ultimately show ?thesis using s(2) by (intro does_one) (simp_all add: unused_def up_conn_def)
qed

lemma clean_does:
  assumes s: "srel s A" "unused A" and l: "a_loop A = L_Events" and c: "a_clients A = [client]" "a_conns A client = Some c"
    and closed: "skt_closed (c_skt c)" "\<not> skt_error (c_skt c)"
  shows "does env conf [A_Clean client] s (A\<lparr>a_loop := L_Remove client all_pools\<rparr>)"
proof -
  let ?s = "s\<lparr>sy_loop := L_Remove client all_pools\<rparr>"
  from s(1) have f: "ss_clients (sy_server s) = [client]" "ss_conns (sy_server s) client = Some c" "sy_loop s = L_Events"
    using c l by (simp_all add: srel_def st_rel_def)
  have "(ss_conns (sy_server s))(client \<mapsto> c) = ss_conns (sy_server s)" using f(2) by auto
  then have "act env conf (A_Clean client) s = Some (Inr ?s)"
    using closed by (simp add: act.simps loop_clean_def f(2) Let_def)
  moreover have "enabled env conf (A_Clean client) s" by (simp add: enabled.simps f)
  moreover have "srel ?s (A\<lparr>a_loop := L_Remove client all_pools\<rparr>)" using s(1) by (simp add: srel_def st_rel_def)
  ultimately show ?thesis using s(2) by (intro does_one) (simp_all add: unused_def)
qed

lemma remove_does:
  assumes s: "srel s A" "unused A" and l: "a_loop A = L_Remove client (pool # rest)"
    and e: "aq_wait (a_q A pool) = []"
  shows "does env conf [A_Remove] s (A\<lparr>a_loop := (if rest = [] then L_Wait client all_pools else L_Remove client rest)\<rparr>)"
proof -
  from s(1) have q: "qrel (ss_pools (sy_server s) pool) (a_q A pool)" and lo: "sy_loop s = L_Remove client (pool # rest)"
    using l by (simp_all add: srel_def st_rel_def)
  from qrel_remove [OF q, of client] e obtain q' n where
    r: "queue_remove_byptr (ss_pools (sy_server s) pool) client = Some (Inr (q', n))" "qrel q' (a_q A pool)" by auto
  let ?l = "if rest = [] then L_Wait client all_pools else L_Remove client rest"
  let ?s = "s\<lparr>sy_server := (sy_server s)\<lparr>ss_pools := (ss_pools (sy_server s))(pool := q')\<rparr>, sy_loop := ?l\<rparr>"
  have "act env conf A_Remove s = Some (Inr ?s)"
    by (simp add: act.simps loop_remove_def lo remove_from_def r(1))
  moreover have "enabled env conf A_Remove s" by (simp add: enabled.simps lo)
  moreover have "srel ?s (A\<lparr>a_loop := ?l\<rparr>)" using s(1) r(2) by (auto simp: srel_def st_rel_def)
  ultimately show ?thesis using s(2) by (intro does_one) (simp_all add: unused_def)
qed

lemma waited_does:
  assumes s: "srel s A" "unused A" and l: "a_loop A = L_Wait client (pool # rest)" and e: "aq_toks (a_q A pool) = []"
  shows "does env conf [A_Waited] s (A\<lparr>a_loop := L_Wait client rest\<rparr>)"
proof -
  from s(1) have q: "qrel (ss_pools (sy_server s) pool) (a_q A pool)" and lo: "sy_loop s = L_Wait client (pool # rest)"
    using l by (simp_all add: srel_def st_rel_def)
  from q e have "queue_rep (ss_pools (sy_server s) pool) (aq_wait (a_q A pool)) []" by (simp add: qrel_def)
  from find_token_rep [OF this] have "queue_pending_waitptr client [ss_pools (sy_server s) pool] = Some []" by simp
  then have "enabled env conf A_Waited s" by (simp add: enabled.simps lo)
  moreover have "act env conf A_Waited s = Some (Inr (s\<lparr>sy_loop := L_Wait client rest\<rparr>))"
    by (simp add: act.simps loop_waited_def lo)
  moreover have "srel (s\<lparr>sy_loop := L_Wait client rest\<rparr>) (A\<lparr>a_loop := L_Wait client rest\<rparr>)"
    using s(1) by (simp add: srel_def st_rel_def)
  ultimately show ?thesis using s(2) by (intro does_one) (simp_all add: unused_def)
qed

lemma free_does:
  assumes s: "srel s A" "unused A" and l: "a_loop A = L_Wait client []" and c: "a_conns A client = Some c"
    and d: "server_connection_delete c = Some (Inr ())"
  shows "does env conf [A_Free] s (up_conn client None A\<lparr>a_loop := L_Events, a_clients := remove1 client (a_clients A)\<rparr>)"
proof -
  from s(1) have f: "ss_conns (sy_server s) client = Some c" "sy_loop s = L_Wait client []"
    "ss_clients (sy_server s) = a_clients A"
    using c l by (simp_all add: srel_def st_rel_def)
  let ?st = "(sy_server s)\<lparr>ss_clients := remove1 client (a_clients A), ss_conns := (ss_conns (sy_server s))(client := None)\<rparr>"
  let ?s = "s\<lparr>sy_loop := L_Events, sy_server := ?st\<rparr>"
  let ?A = "up_conn client None A\<lparr>a_loop := L_Events, a_clients := remove1 client (a_clients A)\<rparr>"
  have "enabled env conf A_Free s" by (simp add: enabled.simps f)
  moreover have "act env conf A_Free s = Some (Inr ?s)" using d by (simp add: act.simps loop_free_def f Let_def)
  moreover have "srel ?s ?A" using s(1) by (simp add: srel_def st_rel_def up_conn_def)
  moreover have "unused ?A" using s(2) by (simp add: unused_def up_conn_def)
  ultimately show ?thesis by (rule does_one)
qed

section \<open>The run\<close>

text \<open>The worker has fetched the request, the client has gone, the loop waits for the worker.\<close>

definition worker_late :: "string \<Rightarrow> string \<Rightarrow> (int \<Rightarrow> fd_world) \<Rightarrow> action list" where
  "worker_late date bs fds = asking date bs fds @ cycle POOL_WRITE date nothing @ [A_Fetch POOL_WORKER 0 0] @
     [hangs_up] @ [A_Clean client] @ [A_Remove] @ [A_Remove] @ [A_Remove] @ [A_Waited] @ [A_Waited]"

text \<open>The worker ends its request, the loop frees the connection, the write pool fetches.\<close>

definition freed_meanwhile :: "string \<Rightarrow> action list" where
  "freed_meanwhile date = [A_Handle POOL_WORKER 0 date nothing] @ [A_Return POOL_WORKER 0] @ [A_Waited] @ [A_Free] @
     [A_Finish POOL_WORKER 0] @ [A_Fetch POOL_WRITE 0 0]"

definition gone :: "server_connection \<Rightarrow> server_connection" where
  "gone c = c\<lparr>c_skt := skt_close client_skt\<rparr>"

definition late_spec :: "http_request \<Rightarrow> (int \<Rightarrow> fd_world) \<Rightarrow> spec" where
  "late_spec q fds = (up_pc POOL_WORKER (T_Item 3) (up_q POOL_WORKER (aq_take 0 3)
     (at_rest (gone (asked q)) 4 5 (pools [] [] [(3, new_item 2 ''REQ'' client)]) (fds_at fds))))\<lparr>a_loop := L_Wait client [POOL_WORKER]\<rparr>"

lemma worker_late_does:
  assumes "read_item env (Read_bytes bs) new_client =
    Inr (False, new_client\<lparr>c_requests := [q], c_queued := [(POOL_WORKER, ''REQ''), (POOL_WRITE, ''RESP'')]\<rparr>)"
  shows "does env conf (worker_late date bs fds) started_system (late_spec q fds)"
proof -
  let ?Q = "pools [] [] [(3, new_item 2 ''REQ'' client)]"
  let ?A = "\<lambda>c l. (up_pc POOL_WORKER (T_Item 3) (up_q POOL_WORKER (aq_take 0 3) (at_rest c 4 5 ?Q (fds_at fds))))\<lparr>a_loop := l\<rparr>"
  have a: "c_responses (asked q) = []" "c_queued (asked q) = []" "dl_holds (c_writes (asked q)) []" "c_skt (asked q) = client_skt"
    using connection_new_writes [of 1 client_skt] by (simp_all add: asked_def) (simp add: new_client_def)
  have g: "c_skt (gone (asked q)) = skt_close client_skt" by (simp add: gone_def)
  have f: "a_loop (?A c l) = l" "a_clients (?A c l) = [client]" "a_conns (?A c l) client = Some c" "a_id (?A c l) = 4"
    "aq_wait (a_q (?A c l) POOL_READ) = []" "aq_wait (a_q (?A c l) POOL_WRITE) = []" "aq_wait (a_q (?A c l) POOL_WORKER) = []"
    "aq_toks (a_q (?A c l) POOL_READ) = []" "aq_toks (a_q (?A c l) POOL_WRITE) = []"
    "(?A c l)\<lparr>a_loop := l'\<rparr> = ?A c l'" "up_conn client (Some c') (?A c l) = ?A c' l" for c c' l l'
    by (simp_all add: at_rest_def ups aq_take_def queue_of_def)
  have d1: "does env conf (cycle POOL_WRITE date nothing) s (at_rest (asked q) 4 5 ?Q (fds_at fds))"
    if "srel s (asked_spec q fds)" "unused (asked_spec q fds)" for s
    by (rule write_nothing_does [OF that [unfolded asked_spec_def]]) (simp_all add: a)
  have d2: "does env conf [A_Fetch POOL_WORKER 0 0] s (?A (asked q) L_Events)"
    if "srel s (at_rest (asked q) 4 5 ?Q (fds_at fds))" "unused (at_rest (asked q) 4 5 ?Q (fds_at fds))" for s
  proof -
    have "?A (asked q) L_Events = up_pc POOL_WORKER (T_Item 3) (up_q POOL_WORKER (aq_take 0 3)
        (at_rest (asked q) 4 5 ?Q (fds_at fds)))" by (simp add: at_rest_def ups)
    then show ?thesis
      using fetch_does [OF that, of POOL_WORKER 3 "[]" "new_item 2 ''REQ'' client"] by (simp add: queue_of_def new_item_def)
  qed
  have d3: "does env conf [hangs_up] s (?A (gone (asked q)) L_Events)"
    if "srel s (?A (asked q) L_Events)" "unused (?A (asked q) L_Events)" for s
    using hangs_up_does [OF that f(1-3), of env conf] unfolding f a gone_def by simp
  have d4: "does env conf [A_Clean client] s (?A (gone (asked q)) (L_Remove client all_pools))"
    if "srel s (?A (gone (asked q)) L_Events)" "unused (?A (gone (asked q)) L_Events)" for s
    using clean_does [OF that f(1-3), of env conf] unfolding f g by simp
  have d5: "does env conf [A_Remove] s (?A c (if rest = [] then L_Wait client all_pools else L_Remove client rest))"
    if "srel s (?A c (L_Remove client (pool # rest)))" "unused (?A c (L_Remove client (pool # rest)))" for s c pool rest
    using remove_does [OF that f(1), of env conf] f(5-7) unfolding f(10) by (cases pool) simp_all
  have d6: "does env conf [A_Waited] s (?A c (L_Wait client rest))"
    if "srel s (?A c (L_Wait client (pool # rest)))" "unused (?A c (L_Wait client (pool # rest)))" "pool \<noteq> POOL_WORKER"
    for s c pool rest
    using waited_does [OF that(1,2) f(1), of env conf] that(3) f(8,9) unfolding f(10) by (cases pool) simp_all
  have d5a: "does env conf [A_Remove] s (?A c (L_Remove client [POOL_WRITE, POOL_WORKER]))"
    if "srel s (?A c (L_Remove client all_pools))" "unused (?A c (L_Remove client all_pools))" for s c
    using d5 [OF that [unfolded all_pools_def]] by simp
  have d5b: "does env conf [A_Remove] s (?A c (L_Remove client [POOL_WORKER]))"
    if "srel s (?A c (L_Remove client [POOL_WRITE, POOL_WORKER]))" "unused (?A c (L_Remove client [POOL_WRITE, POOL_WORKER]))"
    for s c
    using d5 [OF that] by simp
  have d5c: "does env conf [A_Remove] s (?A c (L_Wait client [POOL_READ, POOL_WRITE, POOL_WORKER]))"
    if "srel s (?A c (L_Remove client [POOL_WORKER]))" "unused (?A c (L_Remove client [POOL_WORKER]))" for s c
    using d5 [OF that] by (simp add: all_pools_def)
  have d6a: "does env conf [A_Waited] s (?A c (L_Wait client [POOL_WRITE, POOL_WORKER]))"
    if "srel s (?A c (L_Wait client [POOL_READ, POOL_WRITE, POOL_WORKER]))"
      "unused (?A c (L_Wait client [POOL_READ, POOL_WRITE, POOL_WORKER]))" for s c
    by (rule d6 [OF that]) simp
  have d6b: "does env conf [A_Waited] s (?A c (L_Wait client [POOL_WORKER]))"
    if "srel s (?A c (L_Wait client [POOL_WRITE, POOL_WORKER]))" "unused (?A c (L_Wait client [POOL_WRITE, POOL_WORKER]))" for s c
    by (rule d6 [OF that]) simp
  show ?thesis
    unfolding worker_late_def late_spec_def
    by (rule does_append [OF asking_does [OF assms]] does_append [OF d1] does_append [OF d2] does_append [OF d3]
        does_append [OF d4] does_append [OF d5a] does_append [OF d5b] does_append [OF d5c] does_append [OF d6a] d6b
      | assumption)+
qed

lemma freed_meanwhile_does:
  assumes s: "srel s (late_spec q fds)" "unused (late_spec q fds)"
    and p: "server_process_request env conf q = Inr (file_reply mt close f)" "http_request_delete q = Inr ()"
  shows "\<exists>A. does env conf (freed_meanwhile date) s A \<and> a_pc A POOL_WRITE 0 = T_Item 5 \<and>
    aq_items (a_q A POOL_WRITE) 5 = Some (new_item 4 ''RESP'' client) \<and> a_conns A client = None"
proof -
  let ?r = "file_reply mt close f" and ?it = "new_item 2 ''REQ'' client" and ?new = "new_item 4 ''RESP'' client"
  let ?c = "(gone (answered ?r))\<lparr>c_queued := [(POOL_WRITE, ''RESP'')]\<rparr>"
  have "c_requests (gone (asked q)) = [q]" by (simp add: gone_def asked_def)
  from worker_one [OF this p] have w: "worker_item env conf (gone (asked q)) = Inr ?c"
    by (simp add: gone_def asked_def answered_def)
  have c: "?c\<lparr>c_queued := []\<rparr> = gone (answered ?r)"
    using same_queued [of "gone (answered ?r)"] by (simp add: gone_def answered_def)
  have fd: "skt_fd (c_skt (gone (asked q))) = 7" by (simp add: gone_def skt_close_def client_skt_def)
  let ?A1 = "up_pc POOL_WORKER (T_Done 3 False) (fold (up_add client) (c_queued ?c)
    (up_conn client (Some (gone (answered ?r))) (late_spec q fds)))\<lparr>a_fd := (fds_at fds)(7 := fds_at fds 7)\<rparr>"
  have d1: "does env conf [A_Handle POOL_WORKER 0 date nothing] s ?A1"
  proof -
    have "a_fd (late_spec q fds) = fds_at fds" "a_conns (late_spec q fds) client = Some (gone (asked q))"
      "a_pc (late_spec q fds) POOL_WORKER 0 = T_Item 3" "a_id (late_spec q fds) = 4"
      "aq_items (a_q (late_spec q fds) POOL_WORKER) 3 = Some ?it"
      by (simp_all add: late_spec_def at_rest_def ups aq_take_def queue_of_def)
    moreover from this have "run_handler env conf POOL_WORKER date nothing (gone (asked q))
        (a_fd (late_spec q fds) (skt_fd (c_skt (gone (asked q))))) = Some (Inr (False, ?c, fds_at fds 7))"
      by (simp add: run_handler_def w fd)
    ultimately show ?thesis
      using handle_does [OF s, of POOL_WORKER 3 ?it client "gone (asked q)" env conf date nothing ?c "fds_at fds 7"]
      unfolding c fd by (simp add: new_item_def)
  qed
  obtain A1 where A1: "A1 = ?A1" by simp
  let ?K = "\<lparr>qp_qid = 2, qp_data = Some client\<rparr>"
  have f: "a_q A1 POOL_WORKER = \<lparr>aq_wait = [], aq_items = [3 \<mapsto> ?it], aq_toks = [(0, ?K)]\<rparr>"
    "a_q A1 POOL_WRITE = queue_of [(5, ?new)]" "a_pc A1 POOL_WORKER 0 = T_Done 3 False" "a_pc A1 POOL_WRITE 0 = T_Idle"
    "a_loop A1 = L_Wait client [POOL_WORKER]" "a_conns A1 client = Some (gone (answered ?r))"
    by (simp_all add: A1 late_spec_def at_rest_def ups aq_take_def aq_add_def queue_of_def new_item_def)
  let ?A2 = "up_pc POOL_WORKER (T_Returning 3 True) (up_q POOL_WORKER (\<lambda>A. A\<lparr>aq_toks := []\<rparr>) A1)"
  let ?A3 = "?A2\<lparr>a_loop := L_Wait client []\<rparr>"
  let ?A4 = "up_conn client None ?A3\<lparr>a_loop := L_Events, a_clients := remove1 client (a_clients ?A3)\<rparr>"
  let ?A5 = "up_pc POOL_WORKER T_Idle (up_q POOL_WORKER (aq_free 3) ?A4)"
  let ?A6 = "up_pc POOL_WRITE (T_Item 5) (up_q POOL_WRITE (aq_take 0 5) ?A5)"
  have d2: "does env conf [A_Return POOL_WORKER 0] s ?A2" if "srel s A1" "unused A1" for s
    by (rule return_does [OF that, where it = ?it and tok = 0 and k = ?K]) (simp_all add: f new_item_def)
  have d3: "does env conf [A_Waited] s ?A3" if "srel s ?A2" "unused ?A2" for s
    by (rule waited_does [OF that, where pool = POOL_WORKER]) (simp_all add: ups f)
  have del: "server_connection_delete (gone (answered ?r)) = Some (Inr ())"
  proof -
    have "http_response_delete ?r = Inr ()"
      by (simp add: http_response_delete_def file_reply_def http_body_new_def http_body_delete_def http_body_clear_def)
    then show ?thesis using new_connection_delete [where n = 1 and skt = client_skt and s = client_skt]
      by (simp add: server_connection_delete_def gone_def answered_def new_client_def server_connection_new_def
          split: sum.splits)
  qed
  have d4: "does env conf [A_Free] s ?A4" if "srel s ?A3" "unused ?A3" for s
    by (rule free_does [OF that, where c = "gone (answered ?r)"]) (simp_all add: ups f del)
  have d5: "does env conf [A_Finish POOL_WORKER 0] s ?A5" if "srel s ?A4" "unused ?A4" for s
    by (rule finish_does [OF that, where it = ?it]) (simp_all add: ups f)
  have d6: "does env conf [A_Fetch POOL_WRITE 0 0] s ?A6" if "srel s ?A5" "unused ?A5" for s
    by (rule fetch_does [OF that, where as = "[]" and it = ?new]) (simp_all add: ups f queue_of_def new_item_def)
  have "does env conf (freed_meanwhile date) s ?A6"
    unfolding freed_meanwhile_def
    by (rule does_append [OF d1 [folded A1]] does_append [OF d2] does_append [OF d3] does_append [OF d4]
        does_append [OF d5] d6 | assumption)+
  moreover have "a_pc ?A6 POOL_WRITE 0 = T_Item 5" "aq_items (a_q ?A6 POOL_WRITE) 5 = Some ?new" "a_conns ?A6 client = None"
    by (simp_all add: ups f aq_take_def queue_of_def)
  ultimately show ?thesis by blast
qed

text \<open>
  C4: a client whose request is a served one may go away at a moment when the server then
  uses its connection after freeing it: from the start there is a run, without a fault, in
  which the loop has cleaned up and freed the connection and a thread of the write pool has
  an item for it; the next thing that thread does is to read the freed connection.
\<close>

theorem freed_connection_used:
  assumes "get_served env conf target hs mt close f"
  shows "\<exists>s. run env conf (worker_late date (request_text HTTP_GET target (CHR ''1'') hs) fds @ freed_meanwhile date)
      started_system = Some (Inr s) \<and>
    ss_conns (sy_server s) client = None \<and> enabled env conf (A_Handle POOL_WRITE 0 date nothing) s \<and>
    act env conf (A_Handle POOL_WRITE 0 date nothing) s = Some (Inl Use_after_free)"
proof -
  from get_served_run [OF assms] obtain q where
    rd: "read_item env (Read_bytes (request_text HTTP_GET target (CHR ''1'') hs)) new_client =
      Inr (False, new_client\<lparr>c_requests := [q], c_queued := [(POOL_WORKER, ''REQ''), (POOL_WRITE, ''RESP'')]\<rparr>)"
    and wk: "server_process_request env conf q = Inr (file_reply mt close f)" "http_request_delete q = Inr ()"
    unfolding new_client_def by blast
  from worker_late_does [OF rd] obtain s1 where
    s1: "run env conf (worker_late date (request_text HTTP_GET target (CHR ''1'') hs) fds) started_system = Some (Inr s1)"
      "srel s1 (late_spec q fds)" "unused (late_spec q fds)" unfolding does_def by blast
  from freed_meanwhile_does [OF s1(2,3) wk] obtain A where
    A: "does env conf (freed_meanwhile date) s1 A" "a_pc A POOL_WRITE 0 = T_Item 5"
      "aq_items (a_q A POOL_WRITE) 5 = Some (new_item 4 ''RESP'' client)" "a_conns A client = None" by blast
  from does_run [OF s1(1) A(1)] obtain s where
    s: "run env conf (worker_late date (request_text HTTP_GET target (CHR ''1'') hs) fds @ freed_meanwhile date)
      started_system = Some (Inr s)" "srel s A" unfolding does_def by blast
  have ic: "item_conn POOL_WRITE 5 (sy_server s) = Inl Use_after_free" and n: "ss_conns (sy_server s) client = None"
    and t: "sy_pc s POOL_WRITE 0 = T_Item 5"
    using s(2) A(2-4) by (simp_all add: srel_def st_rel_def qrel_def item_conn_def new_item_def)
  then have "enabled env conf (A_Handle POOL_WRITE 0 date nothing) s"
    "act env conf (A_Handle POOL_WRITE 0 date nothing) s = Some (Inl Use_after_free)"
    by (simp_all add: enabled.simps act.simps readable_def room_for_def handle_item_def)
  with s(1) n show ?thesis by blast
qed

theorem freed_connection_used_witness:
  "\<exists>s. run small_env small_conf
      (worker_late ''now'' (''GET /a.html HTTP/1.1'' @ CRLF @ ''Host: a'' @ CRLF @ CRLF) (\<lambda>_. slow_fd) @ freed_meanwhile ''now'')
      started_system = Some (Inr s) \<and>
    act small_env small_conf (A_Handle POOL_WRITE 0 ''now'' nothing) s = Some (Inl Use_after_free)"
  using freed_connection_used [OF small_get_served, of "''now''" "\<lambda>_. slow_fd"]
  unfolding small_text [unfolded append_Nil2] by blast

end
