(* ===== verification/Server_Idle.thy ===== *)
theory Server_Idle
  imports Server_Run
begin

text \<open>
  A client that is connected and sends nothing. The thread of the read pool that looks at it
  leaves its item blocked in the queue, and only the event loop unblocks it. When the loop
  has ended, the manager of the pool waits for an empty queue: it waits for ever, whatever
  the threads still do.
\<close>

section \<open>An item that is parked\<close>

text \<open>It is allocated and blocked, and no thread has it.\<close>

definition blocked_at :: "queue \<Rightarrow> ptr \<Rightarrow> bool" where
  "blocked_at q a \<longleftrightarrow> (\<exists>it. q_items q a = Some it \<and> qi_blocked it)"

definition parked :: "server_pool \<Rightarrow> ptr \<Rightarrow> system \<Rightarrow> bool" where
  "parked pool a s \<longleftrightarrow> blocked_at (ss_pools (sy_server s) pool) a \<and> (\<forall>t. held (qpc_of (sy_pc s pool t)) \<noteq> Some a)"

text \<open>What the threads do once the loop has ended.\<close>

fun of_thread :: "action \<Rightarrow> bool" where
  "of_thread (A_Sleep pool t) \<longleftrightarrow> True"
| "of_thread (A_Fetch pool t tok) \<longleftrightarrow> True"
| "of_thread (A_Handle pool t date r) \<longleftrightarrow> True"
| "of_thread (A_Return pool t) \<longleftrightarrow> True"
| "of_thread (A_Finish pool t) \<longleftrightarrow> True"
| "of_thread _ \<longleftrightarrow> False"

text \<open>
  \<open>while (queue_count(pool->queue) > 0) nanosleep(...)\<close> of \<open>thread_pool_loop\<close>, the threads acting
  while it sleeps; \<open>None\<close> when it still waits at the end of what they do.
\<close>

fun drain ::
  "server_env \<Rightarrow> config_server \<Rightarrow> server_pool \<Rightarrow> action list list \<Rightarrow> system \<Rightarrow> system res option" where
  "drain env conf pool [] s = None"
| "drain env conf pool (xs # xss) s =
     (if queue_count (ss_pools (sy_server s) pool) > 0
      then case run env conf xs s of
        Some (Inr s') \<Rightarrow> drain env conf pool xss s'
      | r \<Rightarrow> r
      else Some (Inr s))"

section \<open>What the actions do to the items\<close>

lemma blocked_same: "q_items q' = q_items q \<Longrightarrow> blocked_at q' a = blocked_at q a"
  by (simp add: blocked_at_def)

lemma blocked_set: "blocked_at q a \<Longrightarrow> blocked_at (set_blocked True b q) a"
  by (auto simp: blocked_at_def set_blocked_def)

lemma fetch_items:
  assumes "queue_ok v" and "q_tokens (sq v) tok = None" and "fetch_section (sq v) tok = Some (Inr (q', i))"
  shows "q_items q' = q_items (sq v) \<and> (\<forall>b. i = Some b \<longrightarrow> \<not> blocked_at (sq v) b)"
proof -
  from assms(1) obtain as ts where q: "qinv v as ts" by (auto simp: queue_ok_def)
  note d = qinvD [OF q]
  have "tok \<notin> set ts" using d(1) assms(2) by (auto simp: queue_rep_def)
  note r = fetch_section_rep [OF d(1) this d(2)]
  show ?thesis
  proof (cases "find (\<lambda>a. \<not> qi_blocked (item_at (sq v) a)) as")
    case None
    with r assms(3) show ?thesis by simp
  next
    case (Some b)
    then have "\<not> qi_blocked (item_at (sq v) b)" by (auto simp: find_Some_iff)
    with Some r assms(3) show ?thesis by (auto simp: blocked_at_def)
  qed
qed

lemma pending_remove_items:
  assumes "QUEUE_PENDING_REMOVE q i = Some (Inr q')"
  shows "q_items q' = q_items q"
proof -
  let ?P = "\<lambda>(itemid :: 64 word) (q :: queue) (elem :: ptr option) (r :: queue res).
    \<forall>q'. r = Inr q' \<longrightarrow> q_items q' = q_items q"
  have "?P i q (q_processing q) (Inr q')"
  proof (rule pending_remove_loop.raw_induct [where P = ?P, OF _ assms [unfolded QUEUE_PENDING_REMOVE_def]])
    fix f and itemid :: "64 word" and q :: queue and elem :: "ptr option" and r :: "queue res"
    assume ih: "\<And>itemid q elem r. f itemid q elem = Some r \<Longrightarrow> ?P itemid q elem r"
      and eq: "(case elem of
        None \<Rightarrow> Some (Inr q)
      | Some t \<Rightarrow>
          (case q_tokens q t of
             None \<Rightarrow> Some (Inl Use_after_free)
           | Some tk \<Rightarrow>
               if qp_qid tk = itemid
               then Option.bind (LL_DELETE (q_tnext q) (q_processing q) t) (\<lambda>(tnext, processing).
                         f itemid
                           (q\<lparr>q_tnext := tnext, q_processing := processing,
                              q_tokens := (q_tokens q)(t := None)\<rparr>) (q_tnext q t))
               else f itemid q (q_tnext q t))) = Some r"
    show "\<forall>q'. r = Inr q' \<longrightarrow> q_items q' = q_items q"
    proof (cases elem)
      case None
      with eq show ?thesis by auto
    next
      case (Some t)
      with eq show ?thesis by (auto split: option.splits if_splits Option.bind_splits dest!: ih)
    qed
  qed
  then show ?thesis by simp
qed

lemma return_items: "return_token q b = Some (Inr q') \<Longrightarrow> q_items q' = q_items q"
  using pending_remove_items by (auto simp: return_token_def split: option.splits)

lemma finish_items:
  "return_finish q b f = Inr q' \<Longrightarrow> q_items q' = (if f then (q_items q)(b := None) else q_items q)"
  by (auto simp: return_finish_def queue_item_delete_def queue_add_def bind_res_eq_Inr split: if_splits option.splits)

lemma enqueue_items:
  assumes "enqueue pool name p st = Inr st'" and "a < ss_fresh st"
  shows "q_items (ss_pools st' R) a = q_items (ss_pools st R) a \<and> a < ss_fresh st'"
  using assms
  by (auto simp: enqueue_def queue_item_new2_def queue_item_new_def queue_add_def bind_res_eq_Inr Let_def)

lemma enqueue_all_items:
  "enqueue_all p xs st = Inr st' \<Longrightarrow> a < ss_fresh st \<Longrightarrow> q_items (ss_pools st' R) a = q_items (ss_pools st R) a"
proof (induction xs arbitrary: st)
  case Nil
  then show ?case by simp
next
  case (Cons x xs)
  obtain pool name where x: "x = (pool, name)" by (cases x)
  with Cons.prems(1) obtain st1 where st1: "enqueue pool name p st = Inr st1" "enqueue_all p xs st1 = Inr st'"
    by (auto simp: bind_res_eq_Inr)
  from enqueue_items [OF st1(1) Cons.prems(2), of R] Cons.IH [OF st1(2)] show ?case by simp
qed

lemma blocked_fresh:
  assumes "sys_inv s" and "blocked_at (ss_pools (sy_server s) pool) a"
  shows "a < ss_fresh (sy_server s)"
proof -
  from assms(2) obtain it where "q_items (ss_pools (sy_server s) pool) a = Some it" by (auto simp: blocked_at_def)
  then have "data_of (ss_pools (sy_server s) pool) a = Some (qi_data it)" by (simp add: data_of_def)
  with assms(1) show ?thesis using st_invD(2) by (auto simp: sys_inv_def)
qed

lemma handled_items:
  assumes "handled pool t a p fd b c' w s = Inr s'" and "x < ss_fresh (sy_server s)"
  shows "q_items (ss_pools (sy_server s') R) x =
      q_items (if b \<and> R = pool then set_blocked True a (ss_pools (sy_server s) pool) else ss_pools (sy_server s) R) x"
    and "sy_pc s' = (sy_pc s)(pool := (sy_pc s pool)(t := T_Done a b))"
  using assms by (auto simp: handled_def Let_def bind_res_eq_Inr set_pc_def dest!: enqueue_all_items [of _ _ _ _ x R] split: if_splits)

section \<open>Parked items stay\<close>

lemma parked_pc: "parked pool a s \<Longrightarrow> (R = pool \<Longrightarrow> held (qpc_of x) \<noteq> Some a) \<Longrightarrow> parked pool a (set_pc R t x s)"
  by (auto simp: parked_def set_pc_def split: if_splits)

lemma parked_queue: "parked pool a s \<Longrightarrow> (R = pool \<Longrightarrow> blocked_at q a) \<Longrightarrow> parked pool a (set_queue R q s)"
  by (auto simp: parked_def set_queue_def)

lemma parked_held: "parked pool a s \<Longrightarrow> held (qpc_of (sy_pc s pool t)) \<noteq> Some a"
  by (simp add: parked_def)

lemma parked_step:
  assumes inv: "sys_inv s" and en: "enabled env conf x s" and x: "of_thread x"
    and run: "act env conf x s = Some (Inr s')" and park: "parked pool a s"
  shows "parked pool a s'"
proof (cases x)
  case (A_Sleep R t)
  with run have "s' = set_pc R t T_Waiting s" by (simp add: act.simps)
  with parked_pc [OF park] show ?thesis by simp
next
  case (A_Fetch R t tok)
  with run obtain q' i where q': "fetch_section (ss_pools (sy_server s) R) tok = Some (Inr (q', i))"
    "s' = set_pc R t (case i of None \<Rightarrow> T_Idle | Some a \<Rightarrow> T_Item a) (set_queue R q' s)"
    by (auto simp: act.simps fetch_item_def bind_eq_Some_conv bind_res_eq_Inr)
  have "q_tokens (ss_pools (sy_server s) R) tok = None" using en A_Fetch by (simp add: enabled.simps)
  then have "q_tokens (sq (view (sy_server s) (sy_pc s) R)) tok = None"
    "fetch_section (sq (view (sy_server s) (sy_pc s) R)) tok = Some (Inr (q', i))" using q'(1) by (simp_all add: view_def)
  from fetch_items [OF sys_queue [OF inv] this]
  have f: "q_items q' = q_items (ss_pools (sy_server s) R)"
    "\<forall>b. i = Some b \<longrightarrow> \<not> blocked_at (ss_pools (sy_server s) R) b" unfolding view_def by simp_all
  have same: "blocked_at q' a = blocked_at (ss_pools (sy_server s) R) a" by (rule blocked_same [OF f(1)])
  have i: "i = Some a \<Longrightarrow> \<not> blocked_at (ss_pools (sy_server s) R) a" using f(2) by blast
  have pb: "blocked_at (ss_pools (sy_server s) pool) a" using park by (simp add: parked_def)
  have "held (qpc_of (case i of None \<Rightarrow> T_Idle | Some a \<Rightarrow> T_Item a)) \<noteq> Some a" if "R = pool"
    using that i pb by (cases i) auto
  moreover have "parked pool a (set_queue R q' s)" using park same pb by (intro parked_queue) simp_all
  ultimately show ?thesis unfolding q'(2) by (intro parked_pc)
next
  case (A_Handle R t date r)
  with en obtain b where b: "sy_pc s R t = T_Item b" by (auto simp: enabled.simps split: tpc.splits)
  with A_Handle run obtain p fd bl c w where h: "handled R t b p fd bl c w s = Inr s'"
    by (auto simp: act.simps handle_item_def bind_eq_Some_conv bind_res_eq_Inr split: sum.splits)
  have "a < ss_fresh (sy_server s)" using blocked_fresh [OF inv] park by (auto simp: parked_def)
  note hi = handled_items [OF h this]
  have "blocked_at (ss_pools (sy_server s') pool) a"
    using hi(1) [of pool] park blocked_set [of "ss_pools (sy_server s) pool" a b]
    by (auto simp: parked_def blocked_at_def split: if_splits)
  moreover have "R = pool \<Longrightarrow> b \<noteq> a" using parked_held [OF park, of t] b by auto
  then have "held (qpc_of (sy_pc s' pool u)) \<noteq> Some a" for u
    using parked_held [OF park, of u] by (auto simp: hi(2))
  ultimately show ?thesis by (simp add: parked_def)
next
  case (A_Return R t)
  with en obtain b bl where b: "sy_pc s R t = T_Done b bl" by (auto simp: enabled.simps split: tpc.splits)
  with A_Return run obtain q' where q': "return_token (ss_pools (sy_server s) R) b = Some (Inr q')"
    "s' = set_pc R t (T_Returning b (\<not> bl)) (set_queue R q' s)"
    by (auto simp: act.simps return_item_def bind_eq_Some_conv bind_res_eq_Inr)
  have nb: "R = pool \<Longrightarrow> b \<noteq> a" using parked_held [OF park, of t] b by auto
  have "blocked_at q' a = blocked_at (ss_pools (sy_server s) R) a" by (rule blocked_same [OF return_items [OF q'(1)]])
  then have "parked pool a (set_queue R q' s)" using park by (intro parked_queue) (auto simp: parked_def)
  then show ?thesis unfolding q'(2) by (rule parked_pc) (use nb in simp)
next
  case (A_Finish R t)
  with en obtain b f where b: "sy_pc s R t = T_Returning b f" by (auto simp: enabled.simps split: tpc.splits)
  with A_Finish run obtain q' where q': "return_finish (ss_pools (sy_server s) R) b f = Inr q'"
    "s' = set_pc R t T_Idle (set_queue R q' s)"
    by (auto simp: act.simps finish_item_def bind_res_eq_Inr)
  have nb: "R = pool \<Longrightarrow> b \<noteq> a" using parked_held [OF park, of t] b by auto
  have "R = pool \<Longrightarrow> q_items q' a = q_items (ss_pools (sy_server s) pool) a" using finish_items [OF q'(1)] nb by simp
  then have "parked pool a (set_queue R q' s)" using park by (intro parked_queue) (auto simp: parked_def blocked_at_def)
  then show ?thesis unfolding q'(2) by (rule parked_pc) simp
qed (use x in simp_all)

lemma parked_run:
  "sys_inv s \<Longrightarrow> parked pool a s \<Longrightarrow> \<forall>x \<in> set xs. of_thread x \<Longrightarrow> run env conf xs s = Some (Inr s') \<Longrightarrow>
   sys_inv s' \<and> parked pool a s'"
proof (induction xs arbitrary: s)
  case Nil
  then show ?case by simp
next
  case (Cons x xs)
  from Cons.prems(4) obtain s1 where s1: "enabled env conf x s" "act env conf x s = Some (Inr s1)"
    "run env conf xs s1 = Some (Inr s')" by (auto split: if_splits option.splits sum.splits)
  have "sys_inv s1" by (rule act_inv [OF Cons.prems(1) s1(1,2)])
  moreover have "parked pool a s1" using parked_step [OF Cons.prems(1) s1(1) _ s1(2) Cons.prems(2)] Cons.prems(3) by simp
  ultimately show ?case using Cons.IH s1(3) Cons.prems(3) by simp
qed

lemma parked_counts:
  assumes "sys_inv s" and "parked pool a s"
  shows "queue_count (ss_pools (sy_server s) pool) > 0"
proof -
  from sys_queue [OF assms(1), of pool] obtain as ts where "qinv (view (sy_server s) (sy_pc s) pool) as ts"
    by (auto simp: queue_ok_def)
  note d = qinvD [OF this]
  from assms(2) have "q_items (ss_pools (sy_server s) pool) a \<noteq> None" "\<nexists>t. held (qpc_of (sy_pc s pool t)) = Some a"
    by (auto simp: parked_def blocked_at_def)
  with d(5) [of a] have "a \<in> set as" by (auto simp: view_def)
  then have "length as \<noteq> 0" by auto
  moreover have "unat (q_count (ss_pools (sy_server s) pool)) = length as"
    using d(1,2) by (simp add: view_def queue_rep_def unat_count)
  ultimately show ?thesis by (simp add: queue_count_def word_less_nat_alt)
qed

lemma drain_parked:
  "sys_inv s \<Longrightarrow> parked pool a s \<Longrightarrow> \<forall>x \<in> set (concat xss). of_thread x \<Longrightarrow>
   run env conf (concat xss) s = Some (Inr s') \<Longrightarrow> drain env conf pool xss s = None"
proof (induction xss arbitrary: s)
  case Nil
  then show ?case by simp
next
  case (Cons xs xss)
  from Cons.prems(4) obtain s1 where s1: "run env conf xs s = Some (Inr s1)" "run env conf (concat xss) s1 = Some (Inr s')"
    by (auto simp: run_append split: option.splits sum.splits)
  from parked_run [OF Cons.prems(1,2) _ s1(1)] Cons.prems(3) have "sys_inv s1" "parked pool a s1" by auto
  with Cons.IH s1 Cons.prems(3) parked_counts [OF Cons.prems(1,2)] show ?case by simp
qed

section \<open>A client that sends nothing\<close>

definition finds_nothing :: "nat \<Rightarrow> string \<Rightarrow> action list" where
  "finds_nothing t date = [A_Handle POOL_READ t date (Read_fails EAGAIN), A_Return POOL_READ t, A_Finish POOL_READ t]"

lemma finds_nothing_parks:
  assumes inv: "sys_inv s" and t: "sy_pc s POOL_READ t = T_Item a"
    and ic: "item_conn POOL_READ a (sy_server s) = Inr (p, c)" and c: "\<not> skt_closed (c_skt c)" "c_queued c = []"
  shows "\<exists>s'. run env conf (finds_nothing t date) s = Some (Inr s') \<and> sys_inv s' \<and> parked POOL_READ a s'"
proof -
  let ?w = "sy_fd s (skt_fd (c_skt c))"
  have h: "run_handler env conf POOL_READ date (Read_fails EAGAIN) c ?w = Some (Inr (True, c, ?w))"
    by (simp add: run_handler_def read_item_def sys_read_def)
  let ?st = "(sy_server s)\<lparr>ss_conns := (ss_conns (sy_server s))(p \<mapsto> c\<lparr>c_queued := []\<rparr>)\<rparr>"
  let ?st1 = "?st\<lparr>ss_pools := (ss_pools ?st)(POOL_READ := set_blocked True a (ss_pools ?st POOL_READ))\<rparr>"
  define s1 where "s1 = set_pc POOL_READ t (T_Done a True) (s\<lparr>sy_server := ?st1, sy_fd := (sy_fd s)(skt_fd (c_skt c) := ?w)\<rparr>)"
  have a1: "act env conf (A_Handle POOL_READ t date (Read_fails EAGAIN)) s = Some (Inr s1)"
    by (simp add: act.simps t handle_item_def ic h handled_def c(2) s1_def)
  have e1: "enabled env conf (A_Handle POOL_READ t date (Read_fails EAGAIN)) s"
    using unsigned_less [of "ss_item_id (sy_server s)"]
    by (simp add: enabled.simps t readable_def room_for_def ic h c room_def)
  have i1: "sys_inv s1" by (rule act_inv [OF inv e1 a1])
  have p1: "sy_pc s1 POOL_READ t = T_Done a True" by (simp add: s1_def set_pc_def)
  have b1: "blocked_at (ss_pools (sy_server s1) POOL_READ) a"
  proof -
    from ic obtain it where "q_items (ss_pools (sy_server s) POOL_READ) a = Some it"
      by (auto simp: item_conn_def split: option.splits)
    then show ?thesis by (simp add: s1_def set_pc_def blocked_at_def set_blocked_def)
  qed
  from return_sys [OF i1 p1] obtain s2 where a2: "return_item POOL_READ t a True s1 = Some (Inr s2)" "sys_inv s2"
    by (auto simp: quiet_step_def)
  then obtain q2 where q2: "return_token (ss_pools (sy_server s1) POOL_READ) a = Some (Inr q2)"
    "s2 = set_pc POOL_READ t (T_Returning a False) (set_queue POOL_READ q2 s1)"
    by (auto simp: return_item_def bind_eq_Some_conv bind_res_eq_Inr)
  have p2: "sy_pc s2 POOL_READ t = T_Returning a False" by (simp add: q2(2))
  have b2: "blocked_at (ss_pools (sy_server s2) POOL_READ) a"
    using b1 blocked_same [OF return_items [OF q2(1)]] by (simp add: q2(2) set_pc_def set_queue_def)
  from finish_sys [OF a2(2) p2] obtain s3 where a3: "finish_item POOL_READ t a False s2 = Some (Inr s3)" "sys_inv s3"
    by (auto simp: quiet_step_def)
  then obtain q3 where q3: "return_finish (ss_pools (sy_server s2) POOL_READ) a False = Inr q3"
    "s3 = set_pc POOL_READ t T_Idle (set_queue POOL_READ q3 s2)"
    by (auto simp: finish_item_def bind_res_eq_Inr)
  have b3: "blocked_at (ss_pools (sy_server s3) POOL_READ) a"
    using b2 blocked_same [of q3 "ss_pools (sy_server s2) POOL_READ" a] finish_items [OF q3(1)]
    by (simp add: q3(2) set_pc_def set_queue_def)
  have "held (qpc_of (sy_pc s3 POOL_READ u)) \<noteq> Some a" for u
  proof
    assume h: "held (qpc_of (sy_pc s3 POOL_READ u)) = Some a"
    then have u: "u \<noteq> t" "held (qpc_of (sy_pc s2 POOL_READ u)) = Some a" by (auto simp: q3(2) split: if_splits)
    from sys_queue [OF a2(2), of POOL_READ] obtain as ts where "qinv (view (sy_server s2) (sy_pc s2) POOL_READ) as ts"
      by (auto simp: queue_ok_def)
    from qinvD(4) [OF this, of u a t] u p2 show False by (simp add: view_def)
  qed
  with b3 have "parked POOL_READ a s3" by (simp add: parked_def)
  moreover have "run env conf (finds_nothing t date) s = Some (Inr s3)"
    using e1 a1 a2(1) a3(1) p1 p2 by (simp add: finds_nothing_def act.simps enabled.simps)
  ultimately show ?thesis using a3(2) by blast
qed

text \<open>
  C7: a client that is connected and has sent nothing keeps the server from shutting down.
  A thread of the read pool that has its item leaves it blocked in the queue; whatever the
  threads of all pools do from then on, and however often the manager of the pool looks at
  it, the queue is not empty, so that its wait for an empty queue does not end.
\<close>

theorem idle_client_holds_shutdown:
  assumes "reach env conf s" and "sy_pc s POOL_READ t = T_Item a"
    and "item_conn POOL_READ a (sy_server s) = Inr (p, c)" and "\<not> skt_closed (c_skt c)" and "c_queued c = []"
  shows "\<exists>s1. run env conf (finds_nothing t date) s = Some (Inr s1) \<and>
    (\<forall>xss s2. (\<forall>x \<in> set (concat xss). of_thread x) \<longrightarrow> run env conf (concat xss) s1 = Some (Inr s2) \<longrightarrow>
      drain env conf POOL_READ xss s1 = None \<and> queue_count (ss_pools (sy_server s2) POOL_READ) > 0)"
proof -
  from finds_nothing_parks [OF reach_inv [OF assms(1)] assms(2-5)] obtain s1 where
    s1: "run env conf (finds_nothing t date) s = Some (Inr s1)" "sys_inv s1" "parked POOL_READ a s1" by blast
  with drain_parked [OF s1(2,3)] parked_run [OF s1(2,3)] parked_counts show ?thesis by blast
qed

theorem idle_client_holds_shutdown_witness:
  "\<exists>s s1. reach small_env small_conf s \<and> run small_env small_conf (finds_nothing 0 ''now'') s = Some (Inr s1) \<and>
    drain small_env small_conf POOL_READ [[], []] s1 = None"
proof -
  let ?A = "at_rest new_client 2 3 (pools [(2, new_item 1 ''READ'' client)] [] []) (fds_at (\<lambda>_. slow_fd))"
  have f: "does small_env small_conf [A_Fetch POOL_READ 0 0] s' (up_pc POOL_READ (T_Item 2) (up_q POOL_READ (aq_take 0 2) ?A))"
    if "srel s' ?A" "unused ?A" for s'
    by (rule fetch_does [OF that, where as = "[]" and it = "new_item 1 ''READ'' client"])
      (simp_all add: queue_of_def new_item_def)
  from does_append [OF connects_does f] obtain s where
    s: "run small_env small_conf ([connects (\<lambda>_. slow_fd)] @ [A_Fetch POOL_READ 0 0]) started_system = Some (Inr s)"
    "srel s (up_pc POOL_READ (T_Item 2) (up_q POOL_READ (aq_take 0 2) ?A))"
    unfolding does_def by blast
  have r: "reach small_env small_conf s" by (rule run_reach [OF reach.start s(1)])
  have t: "sy_pc s POOL_READ 0 = T_Item 2" using s(2) by (simp add: srel_def up_pc_def)
  have ic: "item_conn POOL_READ 2 (sy_server s) = Inr (client, new_client)"
    using s(2) by (simp add: srel_def st_rel_def qrel_def item_conn_def ups aq_take_def queue_of_def new_item_def)
  have c: "\<not> skt_closed (c_skt new_client)" "c_queued new_client = []"
    by (simp_all add: new_client_def server_connection_new_def client_skt_def)
  from idle_client_holds_shutdown [OF r t ic c, of "''now''"] obtain s1 where
    s1: "run small_env small_conf (finds_nothing 0 ''now'') s = Some (Inr s1)"
    "\<And>xss s2. (\<forall>x \<in> set (concat xss). of_thread x) \<Longrightarrow> run small_env small_conf (concat xss) s1 = Some (Inr s2) \<Longrightarrow>
      drain small_env small_conf POOL_READ xss s1 = None" by blast
  have "drain small_env small_conf POOL_READ [[], []] s1 = None"
    using s1(2) [of "[[], []]"] by simp
  with r s1(1) show ?thesis by blast
qed

end
