(* ===== verification/Thread_Pool.thy ===== *)
theory Thread_Pool
  imports Queue
begin

text \<open>
  \<open>src/thread-pool.c\<close>: the manager of a pool of threads. The threads are kept in the order
  of the linked list, the newest first; whether a thread has ended is what
  \<open>pthread_tryjoin_np\<close> answers, an argument. A manager that was joined is no longer
  joinable: a second join that goes through is undefined, a fault here. Counts are \<open>size_t\<close>, the
  difference of two of them is read as an \<open>int64_t\<close>.

  The second half shows that the manager keeps the number of threads that are not told to
  stop between the minimum and the maximum.
\<close>

section \<open>State\<close>

record thread =
  tid :: "64 word"
  stop :: bool

record thread_pool =
  pool_name :: string
  shutdown :: bool
  threads :: "thread list"
  thread_count :: "64 word"
  min_threads :: "64 word"
  max_threads :: "64 word"
  queue_factor :: "64 word"
  manager :: "bool option"

text \<open>\<open>manager\<close> is the management thread, if there is one, and whether it can be joined.\<close>

definition thread_newid :: "64 word \<Rightarrow> 64 word \<times> 64 word" where
  "thread_newid n = (n, n + 1)"

definition thread_new :: "64 word \<Rightarrow> thread \<times> 64 word" where
  "thread_new n = (case thread_newid n of (i, n') \<Rightarrow> (\<lparr>tid = i, stop = False\<rparr>, n'))"

definition thread_pool_new :: "string \<Rightarrow> thread_pool" where
  "thread_pool_new name =
     \<lparr>pool_name = name, shutdown = False, threads = [], thread_count = 0, min_threads = 1, max_threads = 1,
      queue_factor = 5, manager = None\<rparr>"

section \<open>Adding and removing\<close>

text \<open>\<open>thread_start\<close> ends the program when \<open>pthread_create\<close> fails.\<close>

definition thread_start :: "bool \<Rightarrow> unit res" where
  "thread_start created = (if created then Inr () else Inl Fatal)"

definition thread_pool_add_thread :: "bool \<Rightarrow> thread \<Rightarrow> thread_pool \<Rightarrow> thread_pool res" where
  "thread_pool_add_thread created th pool =
     bind_res (thread_start created) (\<lambda>_.
       Inr (pool\<lparr>threads := th # threads pool, thread_count := thread_count pool + 1\<rparr>))"

text \<open>\<open>LL_DELETE\<close> of the thread at a position of the list.\<close>

definition thread_pool_remove_thread :: "nat \<Rightarrow> thread_pool \<Rightarrow> thread_pool" where
  "thread_pool_remove_thread i pool =
     pool\<lparr>threads := take i (threads pool) @ drop (Suc i) (threads pool), thread_count := thread_count pool - 1\<rparr>"

definition thread_pool_start :: "bool \<Rightarrow> thread_pool \<Rightarrow> thread_pool res" where
  "thread_pool_start created pool = bind_res (thread_start created) (\<lambda>_. Inr (pool\<lparr>manager := Some True\<rparr>))"

text \<open>
  What \<open>pthread_join\<close> answers for the manager: 0, or an error, with whether \<open>errno\<close> is
  \<open>EINTR\<close> at that moment. \<open>pthread_join\<close> gives its error as its result and leaves \<open>errno\<close>
  alone, so that is what an earlier call left there. The answer 0 for a manager that was
  joined before is undefined behaviour.
\<close>

datatype manager_join = Join_zero | Join_error bool

definition thread_pool_stop :: "manager_join \<Rightarrow> thread_pool \<Rightarrow> thread_pool res" where
  "thread_pool_stop answer pool =
     (case manager pool of
        None \<Rightarrow> Inl Null_deref
      | Some joinable \<Rightarrow>
          (case answer of
             Join_zero \<Rightarrow>
               if joinable then Inr (pool\<lparr>shutdown := True, manager := Some False\<rparr>) else Inl Use_after_free
           | Join_error eintr \<Rightarrow> if \<not> eintr then Inl Fatal else Inr (pool\<lparr>shutdown := True\<rparr>)))"

text \<open>A manager whose \<open>shutdown\<close> is set runs to its end before the join comes back with 0.\<close>

section \<open>The manager\<close>

text \<open>The initial threads; \<open>created\<close> says for each whether \<open>pthread_create\<close> works.\<close>

fun start_initial :: "bool list \<Rightarrow> 64 word \<Rightarrow> thread_pool \<Rightarrow> (thread_pool \<times> 64 word) res" where
  "start_initial [] n pool = Inr (pool, n)"
| "start_initial (created # rest) n pool =
     (case thread_new n of (th, n') \<Rightarrow>
        bind_res (thread_pool_add_thread created th pool) (\<lambda>pool. start_initial rest n' pool))"

definition fix_max :: "thread_pool \<Rightarrow> thread_pool" where
  "fix_max pool =
     (if min_threads pool > max_threads pool then pool\<lparr>max_threads := min_threads pool\<rparr> else pool)"

definition manager_begin :: "(nat \<Rightarrow> bool) \<Rightarrow> 64 word \<Rightarrow> thread_pool \<Rightarrow> (thread_pool \<times> 64 word) res" where
  "manager_begin created n pool =
     bind_res (start_initial (map created [0..<unat (min_threads pool)]) n pool) (\<lambda>(pool, n).
       Inr (fix_max pool, n))"

text \<open>
  The decision of one turn: \<open>queue_count_diff\<close> and \<open>watermark\<close> are read as signed. The
  result is the pool, \<open>last_queue_count\<close> and the next thread id.
\<close>

definition queue_count_diff :: "64 word \<Rightarrow> 64 word \<Rightarrow> int" where
  "queue_count_diff queue_size last_count = sint (queue_size - last_count)"

definition watermark :: "thread_pool \<Rightarrow> int" where
  "watermark pool = sint (thread_count pool * queue_factor pool)"

definition adjust ::
  "bool \<Rightarrow> 64 word \<Rightarrow> 64 word \<Rightarrow> 64 word \<Rightarrow> thread_pool \<Rightarrow> (thread_pool \<times> 64 word \<times> 64 word) res" where
  "adjust created queue_size last_count n pool =
     (if queue_count_diff queue_size last_count > watermark pool \<and> thread_count pool < max_threads pool then
        (case thread_new n of (th, n') \<Rightarrow>
           bind_res (thread_pool_add_thread created th pool) (\<lambda>pool. Inr (pool, queue_size, n')))
      else if - queue_count_diff queue_size last_count > watermark pool \<and> thread_count pool > min_threads pool then
        (case threads pool of
           [] \<Rightarrow> Inl Null_deref
         | th # rest \<Rightarrow> Inr (pool\<lparr>threads := th\<lparr>stop := True\<rparr> # rest\<rparr>, queue_size, n))
      else Inr (pool, last_count, n))"

text \<open>The threads that ended are taken off: \<open>Join_failed\<close> is any answer but 0 and \<open>EBUSY\<close>.\<close>

datatype join_result = Joined | Busy | Join_failed

fun reap_from :: "(thread \<Rightarrow> join_result) \<Rightarrow> nat \<Rightarrow> thread list \<Rightarrow> thread_pool \<Rightarrow> thread_pool res" where
  "reap_from joins i [] pool = Inr pool"
| "reap_from joins i (th # rest) pool =
     (case joins th of
        Joined \<Rightarrow> reap_from joins i rest (thread_pool_remove_thread i pool)
      | Busy \<Rightarrow> reap_from joins (Suc i) rest pool
      | Join_failed \<Rightarrow> Inl Fatal)"

definition reap :: "(thread \<Rightarrow> join_result) \<Rightarrow> thread_pool \<Rightarrow> thread_pool res" where
  "reap joins pool = reap_from joins 0 (threads pool) pool"

definition manager_turn ::
  "bool \<Rightarrow> (thread \<Rightarrow> join_result) \<Rightarrow> 64 word \<Rightarrow> 64 word \<Rightarrow> 64 word \<Rightarrow> thread_pool \<Rightarrow>
   (thread_pool \<times> 64 word \<times> 64 word) res" where
  "manager_turn created joins queue_size last_count n pool =
     bind_res (adjust created queue_size last_count n pool) (\<lambda>(pool, last_count, n).
     bind_res (reap joins pool) (\<lambda>pool. Inr (pool, last_count, n)))"

text \<open>
  After \<open>shutdown\<close>: the counts \<open>queue_count\<close> gives until it is 0, then every thread is told to
  stop, and each is joined, by force when the timed join does not give it. \<open>None\<close>: the counts
  end before the queue is empty.
\<close>

fun await_empty :: "64 word list \<Rightarrow> unit option" where
  "await_empty [] = None"
| "await_empty (k # ks) = (if k > 0 then await_empty ks else Some ())"

definition thread_trystop :: "bool \<Rightarrow> bool" where
  "thread_trystop joined = joined"

text \<open>\<open>thread_stop\<close>: what is done to the thread. Either way it has been joined.\<close>

datatype stopped = Joined_in_time | Cancelled_and_joined

definition thread_stop :: "bool \<Rightarrow> stopped" where
  "thread_stop joined = (if thread_trystop joined = False then Cancelled_and_joined else Joined_in_time)"

primrec remove_all :: "nat \<Rightarrow> thread_pool \<Rightarrow> thread_pool" where
  "remove_all 0 pool = pool"
| "remove_all (Suc k) pool = remove_all k (thread_pool_remove_thread 0 pool)"

definition manager_end :: "64 word list \<Rightarrow> thread_pool \<Rightarrow> thread_pool option" where
  "manager_end counts pool =
     do { _ \<leftarrow> await_empty counts;
          let pool = pool\<lparr>threads := map (\<lambda>th. th\<lparr>stop := True\<rparr>) (threads pool)\<rparr>;
          Some (remove_all (length (threads pool)) pool) }"

section \<open>The manager as a step relation\<close>

text \<open>
  One turn at a time, with whatever the queue, \<open>pthread_create\<close> and the threads do; only a
  thread that was told to stop ends (the loops of the three pools return on nothing else).
\<close>

definition stops_only :: "(thread \<Rightarrow> join_result) \<Rightarrow> bool" where
  "stops_only joins \<longleftrightarrow> (\<forall>th. joins th = Joined \<longrightarrow> stop th)"

inductive manager_reach :: "thread_pool \<Rightarrow> thread_pool \<Rightarrow> bool" for initial where
  begin_it: "manager_begin created n initial = Inr (pool, n') \<Longrightarrow> manager_reach initial pool"
| turn: "manager_reach initial pool \<Longrightarrow> stops_only joins \<Longrightarrow>
    manager_turn created joins queue_size last_count n pool = Inr (pool', last', n') \<Longrightarrow>
    manager_reach initial pool'"

section \<open>The number of threads\<close>

definition running :: "thread list \<Rightarrow> nat" where
  "running ths = length (filter (\<lambda>th. \<not> stop th) ths)"

lemma running_simps [simp]:
  "running [] = 0" "running (th # ths) = (if stop th then running ths else Suc (running ths))"
  by (simp_all add: running_def)

lemma running_le: "running ths \<le> length ths"
  by (simp add: running_def)

text \<open>
  Only the first thread of the list is ever told to stop. So each running thread is above
  stopped ones only if enough others are running: \<open>spare m\<close> says it of every one.
\<close>

fun spare :: "nat \<Rightarrow> thread list \<Rightarrow> bool" where
  "spare m [] \<longleftrightarrow> True"
| "spare m (th # ths) \<longleftrightarrow>
     (\<not> stop th \<longrightarrow> running ths = length ths \<or> m < Suc (running ths)) \<and> spare m ths"

text \<open>A list from which stopped threads were taken off.\<close>

inductive thinned :: "thread list \<Rightarrow> thread list \<Rightarrow> bool" where
  thinned_Nil: "thinned [] []"
| thinned_keep: "thinned xs ys \<Longrightarrow> thinned (x # xs) (x # ys)"
| thinned_drop: "thinned xs ys \<Longrightarrow> stop x \<Longrightarrow> thinned (x # xs) ys"

lemma thinned_running: "thinned xs ys \<Longrightarrow> running ys = running xs \<and> length ys \<le> length xs"
  by (induction rule: thinned.induct) auto

lemma thinned_all: "thinned xs ys \<Longrightarrow> running xs = length xs \<Longrightarrow> ys = xs"
proof (induction rule: thinned.induct)
  case (thinned_keep xs ys x)
  then show ?case using running_le [of xs] by (auto split: if_splits)
next
  case (thinned_drop xs ys x)
  then show ?case using running_le [of xs] by simp
qed simp

lemma thinned_spare: "thinned xs ys \<Longrightarrow> spare m xs \<Longrightarrow> spare m ys"
proof (induction rule: thinned.induct)
  case (thinned_keep xs ys x)
  then show ?case using thinned_running [of xs ys] thinned_all [of xs ys] by auto
qed auto

lemma reap_from_thinned:
  assumes "reap_from joins (length us) vs (pool\<lparr>threads := us @ vs, thread_count := of_nat (length (us @ vs))\<rparr>) = Inr pool'"
    and "stops_only joins"
  shows "\<exists>ws. thinned vs ws \<and>
    pool' = pool\<lparr>threads := us @ ws, thread_count := of_nat (length (us @ ws))\<rparr>"
  using assms(1)
proof (induction vs arbitrary: us)
  case Nil
  then show ?case by (intro exI [of _ "[]"]) (simp add: thinned_Nil)
next
  case (Cons v vs)
  show ?case
  proof (cases "joins v")
    case Joined
    with assms(2) have s: "stop v" by (simp add: stops_only_def)
    have "thread_pool_remove_thread (length us)
        (pool\<lparr>threads := us @ v # vs, thread_count := of_nat (length (us @ v # vs))\<rparr>) =
      pool\<lparr>threads := us @ vs, thread_count := of_nat (length (us @ vs))\<rparr>"
      by (simp add: thread_pool_remove_thread_def)
    with Cons.prems Joined obtain ws where "thinned vs ws"
      "pool' = pool\<lparr>threads := us @ ws, thread_count := of_nat (length (us @ ws))\<rparr>"
      using Cons.IH [of us] by auto
    with s show ?thesis by (blast intro: thinned_drop)
  next
    case Busy
    with Cons.prems have "reap_from joins (length (us @ [v])) vs
        (pool\<lparr>threads := (us @ [v]) @ vs, thread_count := of_nat (length ((us @ [v]) @ vs))\<rparr>) = Inr pool'"
      by simp
    from Cons.IH [OF this] obtain ws where "thinned vs ws"
      "pool' = pool\<lparr>threads := (us @ [v]) @ ws, thread_count := of_nat (length ((us @ [v]) @ ws))\<rparr>" by blast
    then show ?thesis by (intro exI [of _ "v # ws"]) (simp add: thinned_keep)
  next
    case Join_failed
    with Cons.prems show ?thesis by simp
  qed
qed

definition manager_inv :: "nat \<Rightarrow> nat \<Rightarrow> thread_pool \<Rightarrow> bool" where
  "manager_inv m k pool \<longleftrightarrow>
     unat (min_threads pool) = m \<and> unat (max_threads pool) = k \<and> m \<le> k \<and>
     thread_count pool = of_nat (length (threads pool)) \<and> length (threads pool) \<le> k \<and>
     m \<le> running (threads pool) \<and> spare m (threads pool)"

lemma start_initial_run:
  "start_initial cs n pool = Inr (pool', n') \<Longrightarrow>
   \<exists>new. length new = length cs \<and> running new = length new \<and>
     pool' = pool\<lparr>threads := new @ threads pool, thread_count := thread_count pool + of_nat (length cs)\<rparr>"
proof (induction cs arbitrary: n pool)
  case Nil
  then show ?case by simp
next
  case (Cons c cs)
  let ?th = "\<lparr>tid = n, stop = False\<rparr>"
  let ?pool = "pool\<lparr>threads := ?th # threads pool, thread_count := thread_count pool + 1\<rparr>"
  from Cons.prems have "start_initial cs (n + 1) ?pool = Inr (pool', n')"
    by (auto simp: thread_new_def thread_newid_def thread_pool_add_thread_def thread_start_def split: if_splits)
  from Cons.IH [OF this] obtain new where new: "length new = length cs" "running new = length new"
    "pool' = ?pool\<lparr>threads := new @ threads ?pool, thread_count := thread_count ?pool + of_nat (length cs)\<rparr>" by blast
  have "running (new @ [?th]) = Suc (running new)" by (simp add: running_def)
  with new show ?case by (intro exI [of _ "new @ [?th]"]) (simp add: add.assoc)
qed

lemma all_running_spare: "running ths = length ths \<Longrightarrow> spare m ths"
proof (induction ths)
  case (Cons th ths)
  then show ?case using running_le [of ths] by (auto split: if_splits)
qed simp

lemma manager_begin_inv:
  assumes "manager_begin created n initial = Inr (pool, n')" and "threads initial = []" and "thread_count initial = 0"
  shows "manager_inv (unat (min_threads initial)) (max (unat (min_threads initial)) (unat (max_threads initial))) pool"
proof -
  from assms(1) obtain p1 where p1: "start_initial (map created [0..<unat (min_threads initial)]) n initial = Inr (p1, n')"
    and pool: "pool = fix_max p1" by (auto simp: manager_begin_def bind_res_eq_Inr)
  from start_initial_run [OF p1] assms(2,3) obtain new where
    new: "length new = unat (min_threads initial)" "running new = length new"
    "p1 = initial\<lparr>threads := new, thread_count := of_nat (unat (min_threads initial))\<rparr>" by auto
  then show ?thesis
    using all_running_spare [OF new(2)]
    by (auto simp: pool fix_max_def manager_inv_def word_less_nat_alt max_def)
qed

lemma count_less:
  "k \<le> unat (x :: 64 word) \<Longrightarrow> (of_nat k :: 64 word) < x \<longleftrightarrow> k < unat x"
  "k \<le> unat (x :: 64 word) \<Longrightarrow> y < (of_nat k :: 64 word) \<longleftrightarrow> unat y < k"
proof -
  have x: "unat x < 2 ^ LENGTH(64)" by (rule unsigned_less)
  show "k \<le> unat x \<Longrightarrow> (of_nat k :: 64 word) < x \<longleftrightarrow> k < unat x"
    "k \<le> unat x \<Longrightarrow> y < (of_nat k :: 64 word) \<longleftrightarrow> unat y < k"
    using x by (simp_all add: word_less_nat_alt unat_of_nat)
qed

lemma adjust_inv:
  assumes "adjust created queue_size last_count n pool = Inr (pool', last', n')" and "manager_inv m k pool"
  shows "manager_inv m k pool'"
proof -
  from assms(2) have inv: "unat (min_threads pool) = m" "unat (max_threads pool) = k" "m \<le> k"
    "thread_count pool = of_nat (length (threads pool))" "length (threads pool) \<le> k"
    "m \<le> running (threads pool)" "spare m (threads pool)" by (auto simp: manager_inv_def)
  have less: "thread_count pool < max_threads pool \<longleftrightarrow> length (threads pool) < k"
    "thread_count pool > min_threads pool \<longleftrightarrow> m < length (threads pool)"
    using inv(5) unfolding inv(4) inv(1) [symmetric] inv(2) [symmetric]
    by (simp_all add: count_less(1) count_less(2) [of _ "max_threads pool"])
  show ?thesis
  proof (cases "queue_count_diff queue_size last_count > watermark pool \<and> thread_count pool < max_threads pool")
    case True
    then have "pool' = pool\<lparr>threads := \<lparr>tid = n, stop = False\<rparr> # threads pool, thread_count := thread_count pool + 1\<rparr>"
      using assms(1)
      by (simp add: adjust_def thread_new_def thread_newid_def thread_pool_add_thread_def thread_start_def split: if_splits)
    moreover have "length (threads pool) < k" using True less(1) by simp
    ultimately show ?thesis using inv by (simp add: manager_inv_def)
  next
    case grow: False
    show ?thesis
    proof (cases "- queue_count_diff queue_size last_count > watermark pool \<and> thread_count pool > min_threads pool")
      case True
      then have "m < length (threads pool)" using less(2) by simp
      then obtain th rest where ths: "threads pool = th # rest" by (cases "threads pool") auto
      with assms(1) have "pool' = pool\<lparr>threads := th\<lparr>stop := True\<rparr> # rest\<rparr>"
        unfolding adjust_def if_not_P [OF grow] if_P [OF True] by simp
      with inv ths \<open>m < length (threads pool)\<close> show ?thesis by (auto simp: manager_inv_def split: if_splits)
    next
      case False
      from assms(1) have "pool' = pool"
        unfolding adjust_def if_not_P [OF grow] if_not_P [OF False] by simp
      with assms(2) show ?thesis by simp
    qed
  qed
qed

lemma reap_inv:
  assumes "reap joins pool = Inr pool'" and "stops_only joins" and "manager_inv m k pool"
  shows "manager_inv m k pool'"
proof -
  have "thread_count pool = of_nat (length (threads pool))" using assms(3) by (simp add: manager_inv_def)
  then have "pool\<lparr>threads := [] @ threads pool, thread_count := of_nat (length ([] @ threads pool))\<rparr> = pool" by simp
  with assms(1) have "reap_from joins (length []) (threads pool)
      (pool\<lparr>threads := [] @ threads pool, thread_count := of_nat (length ([] @ threads pool))\<rparr>) = Inr pool'"
    by (simp add: reap_def)
  from reap_from_thinned [OF this assms(2)] obtain ws where ws: "thinned (threads pool) ws"
    "pool' = pool\<lparr>threads := ws, thread_count := of_nat (length ws)\<rparr>" by auto
  then show ?thesis
    using assms(3) thinned_running [OF ws(1)] thinned_spare [OF ws(1)] by (auto simp: manager_inv_def)
qed

lemma manager_reach_inv:
  assumes "manager_reach initial pool" and "threads initial = []" and "thread_count initial = 0"
  shows "manager_inv (unat (min_threads initial)) (max (unat (min_threads initial)) (unat (max_threads initial))) pool"
  using assms
proof (induction rule: manager_reach.induct)
  case (begin_it created n pool n')
  then show ?case by (intro manager_begin_inv)
next
  case (turn pool joins created queue_size last_count n pool' last' n')
  then show ?case
    by (auto simp: manager_turn_def bind_res_eq_Inr intro: adjust_inv reap_inv)
qed

section \<open>Properties\<close>

text \<open>
  C13: whatever the queue does, whenever threads end and however often the manager turns, the
  pool has at least its minimum of threads that are not told to stop, at most its maximum of
  threads, and the count is the length of the list.
\<close>

theorem pool_keeps_threads:
  assumes "manager_reach initial pool" and "threads initial = []" and "thread_count initial = 0"
  shows "unat (min_threads initial) \<le> running (threads pool) \<and>
    length (threads pool) \<le> max (unat (min_threads initial)) (unat (max_threads initial)) \<and>
    thread_count pool = of_nat (length (threads pool))"
  using manager_reach_inv [OF assms] by (simp add: manager_inv_def)

text \<open>A pool that grew to two threads for six items.\<close>

lemma two_threads_reached:
  "\<exists>pool. manager_reach (thread_pool_new ''read''\<lparr>max_threads := 2\<rparr>) pool \<and> length (threads pool) = 2"
proof -
  let ?init = "thread_pool_new ''read''\<lparr>max_threads := 2\<rparr>"
  let ?p1 = "?init\<lparr>threads := [\<lparr>tid = 1, stop = False\<rparr>], thread_count := 1\<rparr>"
  let ?p2 = "?init\<lparr>threads := [\<lparr>tid = 2, stop = False\<rparr>, \<lparr>tid = 1, stop = False\<rparr>], thread_count := 2\<rparr>"
  have "manager_begin (\<lambda>_. True) 1 ?init = Inr (?p1, 2)"
    by (simp add: manager_begin_def thread_pool_new_def fix_max_def thread_new_def thread_newid_def
        thread_pool_add_thread_def thread_start_def)
  then have 1: "manager_reach ?init ?p1" by (rule begin_it)
  have joins: "stops_only (\<lambda>_. Busy)" by (simp add: stops_only_def)
  have s: "sint (6 :: 64 word) = 6" "sint (5 :: 64 word) = 5" by simp_all
  have "manager_turn True (\<lambda>_. Busy) 6 0 2 ?p1 = Inr (?p2, 6, 3)"
    by (simp add: manager_turn_def adjust_def queue_count_diff_def watermark_def thread_pool_new_def s
        thread_new_def thread_newid_def thread_pool_add_thread_def thread_start_def reap_def)
  with 1 joins have "manager_reach ?init ?p2" by (rule turn)
  then show ?thesis by (intro exI [of _ ?p2]) simp
qed

theorem pool_keeps_threads_witness:
  "\<exists>pool :: thread_pool. length (threads pool) = 2 \<and> 1 \<le> running (threads pool) \<and> thread_count pool = 2"
proof -
  obtain pool where p: "manager_reach (thread_pool_new ''read''\<lparr>max_threads := 2\<rparr>) pool" "length (threads pool) = 2"
    using two_threads_reached by blast
  from pool_keeps_threads [OF p(1)] p(2) show ?thesis
    by (intro exI [of _ pool]) (simp add: thread_pool_new_def)
qed

end
