(* ===== verification/Server_State.thy ===== *)
theory Server_State
  imports Thread_Pool Server_Loop
begin

text \<open>
  \<open>src/server-state.c\<close>: the pools of the server as they are started and stopped, and the
  assertions around the state. A pool is its manager with its threads (\<open>Thread_Pool\<close>) and
  its queue (\<open>Queue\<close>). Stopping a pool joins its manager, which returns once it has seen
  the queue empty, and then joins it again; what the joins answer is part of the environment.
\<close>

type_synonym started_pool = "thread_pool \<times> queue"

record server_status =
  st_loop :: server_state
  st_pools :: "server_pool \<Rightarrow> started_pool option"

definition server_status_new :: "config_server \<Rightarrow> server_status res" where
  "server_status_new conf =
     (if \<not> host_count conf > 0 then Inl Assert_failed
      else if \<not> listen_port conf > 0 then Inl Assert_failed
      else Inr \<lparr>st_loop = \<lparr>ss_started = False, ss_stopped = True, ss_shutdown_requested = False,
        ss_pools = (\<lambda>_. queue_new), ss_clients = [], ss_conns = (\<lambda>_. None), ss_item_id = 1, ss_conn_id = 1,
        ss_skt_id = 1, ss_fresh = 1\<rparr>, st_pools = (\<lambda>_. None)\<rparr>)"

fun delete_clients :: "ptr list \<Rightarrow> server_state \<Rightarrow> unit res option" where
  "delete_clients [] st = Some (Inr ())"
| "delete_clients (p # ps) st =
     (case ss_conns st p of
        None \<Rightarrow> Some (Inl Use_after_free)
      | Some c \<Rightarrow>
          (case server_connection_delete c of
             Some (Inr _) \<Rightarrow> delete_clients ps (st\<lparr>ss_conns := (ss_conns st)(p := None)\<rparr>)
           | r \<Rightarrow> r))"

definition server_status_delete :: "server_status \<Rightarrow> unit res option" where
  "server_status_delete s =
     (if \<not> ss_stopped (st_loop s) then Some (Inl Assert_failed)
      else if st_pools s POOL_READ \<noteq> None then Some (Inl Assert_failed)
      else delete_clients (ss_clients (st_loop s)) (st_loop s))"

section \<open>Starting and stopping the pools\<close>

definition pool_setup :: "server_pool \<Rightarrow> thread_pool" where
  "pool_setup p =
     (case p of
        POOL_READ \<Rightarrow> thread_pool_new ''read''\<lparr>min_threads := 1, max_threads := 2\<rparr>
      | POOL_WRITE \<Rightarrow> thread_pool_new ''write''\<lparr>min_threads := 1, max_threads := 2\<rparr>
      | POOL_WORKER \<Rightarrow> thread_pool_new ''worker''\<lparr>min_threads := 1, max_threads := 5\<rparr>)"

fun start_each :: "(server_pool \<Rightarrow> bool) \<Rightarrow> server_pool list \<Rightarrow> server_status \<Rightarrow> server_status res" where
  "start_each created [] s = Inr s"
| "start_each created (p # ps) s =
     bind_res (thread_pool_start (created p) (pool_setup p)) (\<lambda>pool.
       start_each created ps (s\<lparr>st_pools := (st_pools s)(p \<mapsto> (pool, queue_new))\<rparr>))"

definition server_start_pools :: "(server_pool \<Rightarrow> bool) \<Rightarrow> server_status \<Rightarrow> server_status res" where
  "server_start_pools created s =
     (if st_pools s POOL_READ \<noteq> None then Inl Assert_failed else start_each created all_pools s)"

text \<open>
  How the end of a pool goes: the lengths of the queue its manager sees while it waits for an
  empty one, the answers of the two joins, and, for a manager the first join did not wait for,
  whether it is still at work when the queue is deleted.
\<close>

record pool_end =
  pe_counts :: "64 word list"
  pe_first :: manager_join
  pe_late :: bool
  pe_second :: manager_join

text \<open>
  One turn of the loop of \<open>server_stop_pools\<close>. The manager comes to its end during the first
  join, or by itself before the queue is deleted, or (\<open>pe_late\<close>) looks at the queue that was
  deleted. \<open>thread_pool_delete\<close> frees the pool, which the caller forgets.
\<close>

definition stop_one :: "pool_end \<Rightarrow> started_pool \<Rightarrow> unit res option" where
  "stop_one e pq =
     (case pq of (pool, q) \<Rightarrow>
        (case thread_pool_stop (pe_first e) pool of
           Inl f \<Rightarrow> Some (Inl f)
         | Inr pool \<Rightarrow>
             let late = (manager pool = Some True \<and> pe_late e) in
             do { pool \<leftarrow> (if late then Some pool else manager_end (pe_counts e) pool);
                  d \<leftarrow> queue_delete q;
                  Some (bind_res d (\<lambda>_. bind_res (thread_pool_stop (pe_second e) pool) (\<lambda>_.
                    if late then Inl Use_after_free else Inr ()))) }))"

fun stop_each :: "(server_pool \<Rightarrow> pool_end) \<Rightarrow> server_pool list \<Rightarrow> server_status \<Rightarrow> unit res option" where
  "stop_each ends [] s = Some (Inr ())"
| "stop_each ends (p # ps) s =
     (case st_pools s p of
        None \<Rightarrow> Some (Inl Null_deref)
      | Some pq \<Rightarrow>
          (case stop_one (ends p) pq of
             Some (Inr _) \<Rightarrow> stop_each ends ps s
           | r \<Rightarrow> r))"

definition server_stop_pools ::
  "(server_pool \<Rightarrow> pool_end) \<Rightarrow> server_status \<Rightarrow> server_status res option" where
  "server_stop_pools ends s =
     (if st_pools s POOL_READ = None then Some (Inl Assert_failed)
      else do { r \<leftarrow> stop_each ends all_pools s;
                Some (bind_res r (\<lambda>_. Inr (s\<lparr>st_pools := (\<lambda>_. None)\<rparr>))) })"

section \<open>What holds of them\<close>

lemma start_pools_started:
  assumes "server_start_pools created s = Inr s'"
  shows "\<forall>p. st_pools s' p = Some ((pool_setup p)\<lparr>manager := Some True\<rparr>, queue_new)"
proof
  fix p
  show "st_pools s' p = Some ((pool_setup p)\<lparr>manager := Some True\<rparr>, queue_new)"
    using assms
    by (cases p) (auto simp: server_start_pools_def all_pools_def thread_pool_start_def thread_start_def split: if_splits)
qed

lemma remove_all_manager [simp]: "manager (remove_all k pool) = manager pool"
  by (induction k arbitrary: pool) (simp_all add: thread_pool_remove_thread_def)

lemma manager_end_manager: "manager_end counts pool = Some pool' \<Longrightarrow> manager pool' = manager pool"
  by (auto simp: manager_end_def Let_def split: Option.bind_splits)

lemma stop_cases:
  assumes "thread_pool_stop j pool = Inr pool'"
  obtains "j = Join_zero" "manager pool = Some True" "manager pool' = Some False"
  | "j = Join_error True" "manager pool' = manager pool"
  using assms by (cases j) (auto simp: thread_pool_stop_def split: option.splits if_splits)

text \<open>
  The manager is joined twice, so one of the two joins has to fail, and the program goes on
  only if \<open>errno\<close> happens to be \<open>EINTR\<close> then.
\<close>

definition join_slips :: "pool_end \<Rightarrow> bool" where
  "join_slips e \<longleftrightarrow> pe_first e = Join_error True \<or> pe_second e = Join_error True"

lemma stop_one_returns:
  assumes "stop_one e pq = Some (Inr u)"
  shows "join_slips e"
proof -
  obtain pool q where pq: "pq = (pool, q)" by fastforce
  from assms obtain p1 p2 p3 where p1: "thread_pool_stop (pe_first e) pool = Inr p1"
    and p2: "p2 = p1 \<or> manager_end (pe_counts e) p1 = Some p2" and p3: "thread_pool_stop (pe_second e) p2 = Inr p3"
    by (auto simp: stop_one_def pq bind_res_eq_Inr Let_def split: sum.splits Option.bind_splits if_splits)
  from p2 manager_end_manager have "manager p2 = manager p1" by blast
  with p1 p3 show ?thesis by (auto simp: join_slips_def elim!: stop_cases)
qed

text \<open>
  The pools of a running server: when the manager of the read pool has been joined and has
  seen its queue empty, \<open>server_stop_pools\<close> joins it a second time.
\<close>

lemma stop_one_second:
  assumes "manager pool = Some True" and "pe_first e = Join_zero" and "await_empty (pe_counts e) = Some ()"
    and "queue_delete q = Some (Inr b)"
  shows "stop_one e (pool, q) =
    Some (case pe_second e of Join_zero \<Rightarrow> Inl Use_after_free
          | Join_error eintr \<Rightarrow> if eintr then Inr () else Inl Fatal)"
  using assms by (simp add: stop_one_def thread_pool_stop_def manager_end_def Let_def split: manager_join.splits)

lemma stop_second_join:
  assumes "st_pools s POOL_READ = Some (pool, q)" and "manager pool = Some True"
    and "pe_first (ends POOL_READ) = Join_zero" and "await_empty (pe_counts (ends POOL_READ)) = Some ()"
    and "queue_delete q = Some (Inr b)" and "pe_second (ends POOL_READ) \<noteq> Join_error True"
  shows "server_stop_pools ends s =
    Some (Inl (if pe_second (ends POOL_READ) = Join_zero then Use_after_free else Fatal))"
  using assms stop_one_second [OF assms(2-5)]
  by (cases "pe_second (ends POOL_READ)") (auto simp: server_stop_pools_def all_pools_def)

theorem stop_pools_joins_twice:
  assumes "server_start_pools created s = Inr s'" and "await_empty (pe_counts (ends POOL_READ)) = Some ()"
    and "pe_first (ends POOL_READ) = Join_zero" and "pe_second (ends POOL_READ) = Join_zero"
  shows "server_stop_pools ends s' = Some (Inl Use_after_free)"
proof -
  have p: "st_pools s' POOL_READ = Some ((pool_setup POOL_READ)\<lparr>manager := Some True\<rparr>, queue_new)"
    using start_pools_started [OF assms(1)] by blast
  have d: "queue_delete queue_new = Some (Inr False)"
    by (simp add: queue_delete_def QUEUE_PENDING_COUNT_def pending_count_loop.simps queue_clear_def
        clear_items_loop.simps clear_tokens_loop.simps queue_new_def)
  from stop_second_join [where ends = ends, OF p _ assms(3,2) d] assms(4) show ?thesis by simp
qed

theorem stop_pools_joins_twice_witness:
  "\<exists>s'. server_start_pools (\<lambda>_. True) \<lparr>st_loop = empty_server, st_pools = (\<lambda>_. None)\<rparr> = Inr s' \<and>
    server_stop_pools (\<lambda>_. \<lparr>pe_counts = [3, 0], pe_first = Join_zero, pe_late = False, pe_second = Join_zero\<rparr>) s' =
      Some (Inl Use_after_free)"
proof -
  obtain s' where s': "server_start_pools (\<lambda>_. True) \<lparr>st_loop = empty_server, st_pools = (\<lambda>_. None)\<rparr> = Inr s'"
    by (simp add: server_start_pools_def all_pools_def thread_pool_start_def thread_start_def)
  with stop_pools_joins_twice [OF s', of
      "\<lambda>_. \<lparr>pe_counts = [3, 0], pe_first = Join_zero, pe_late = False, pe_second = Join_zero\<rparr>"]
  show ?thesis by simp
qed

end
