(* ===== verification/Server_Socket.thy ===== *)
theory Server_Socket
  imports Server_Loop
begin

text \<open>
  \<open>src/server-socket.c\<close>: the listening socket. What the kernel answers to each call is an
  argument: a descriptor or -1, or whether the call works. \<open>fatal\<close> ends the program:
  \<open>Inl Fatal\<close>. The calls that were made are a list, in order.

  The loop of \<open>server_loop\<close> over \<open>server_socket_accept\<close> is here as it is written, over what
  \<open>accept4\<close> answers time after time; \<open>Server_Loop\<close> takes the connections it gives.
\<close>

section \<open>The calls\<close>

text \<open>The address as it is given to \<open>bind\<close>; the port is in network order.\<close>

record sockaddr_in =
  sin_family :: nat
  sin_addr :: "32 word"
  sin_port :: "16 word"

definition AF_INET :: nat where
  "AF_INET = 2"

definition INADDR_ANY :: "32 word" where
  "INADDR_ANY = 0"

definition SOMAXCONN :: nat where
  "SOMAXCONN = 128"

text \<open>On a machine with the low byte first \<open>htons\<close> swaps the two bytes.\<close>

unbundle bit_operations_syntax

definition htons :: "16 word \<Rightarrow> 16 word" where
  "htons w = push_bit 8 w OR drop_bit 8 w"

datatype syscall =
  Sys_socket | Sys_bind int sockaddr_in | Sys_listen int nat | Sys_epoll_create | Sys_epoll_add int int | Sys_close int

section \<open>Opening and closing\<close>

definition server_socket_create :: "int \<Rightarrow> syscall list \<Rightarrow> (int \<times> syscall list) res" where
  "server_socket_create fd made =
     (let made = made @ [Sys_socket] in if fd < 0 then Inl Fatal else Inr (fd, made))"

definition server_address :: "16 word \<Rightarrow> sockaddr_in" where
  "server_address port = \<lparr>sin_family = AF_INET, sin_addr = INADDR_ANY, sin_port = htons port\<rparr>"

definition server_socket_listen :: "bool \<Rightarrow> bool \<Rightarrow> int \<Rightarrow> 16 word \<Rightarrow> syscall list \<Rightarrow> syscall list res" where
  "server_socket_listen bind_ok listen_ok fd port made =
     (if \<not> fd \<ge> 0 then Inl Assert_failed
      else if \<not> port > 0 then Inl Assert_failed
      else
        let made = made @ [Sys_bind fd (server_address port)] in
        if \<not> bind_ok then Inl Fatal
        else let made = made @ [Sys_listen fd SOMAXCONN] in
          if \<not> listen_ok then Inl Fatal else Inr made)"

definition server_socket_listen_epoll ::
  "bool \<Rightarrow> bool \<Rightarrow> int \<Rightarrow> bool \<Rightarrow> int \<Rightarrow> 16 word \<Rightarrow> syscall list \<Rightarrow> (int \<times> syscall list) res" where
  "server_socket_listen_epoll bind_ok listen_ok epfd ctl_ok fd port made =
     bind_res (server_socket_listen bind_ok listen_ok fd port made) (\<lambda>made.
       let made = made @ [Sys_epoll_create] in
       if epfd < 0 then Inl Fatal
       else let made = made @ [Sys_epoll_add epfd fd] in
         if \<not> ctl_ok then Inl Fatal else Inr (epfd, made))"

text \<open>A failing \<open>close\<close> is only a warning.\<close>

definition server_socket_release :: "int \<Rightarrow> syscall list \<Rightarrow> syscall list res" where
  "server_socket_release fd made = (if \<not> fd \<ge> 0 then Inl Assert_failed else Inr (made @ [Sys_close fd]))"

lemma htons_twice: "htons (htons w) = w"
  by (rule bit_word_eqI) (auto simp: htons_def bit_simps add.commute dest: bit_imp_le_length)

text \<open>The bytes of the port in memory, the low one first, are those of the port with the high one first.\<close>

lemma htons_bytes:
  "take_bit 8 (htons w) = drop_bit 8 w" "drop_bit 8 (htons w) = take_bit 8 w"
  by (rule bit_word_eqI, auto simp: htons_def bit_simps add.commute dest: bit_imp_le_length)+

section \<open>Addresses\<close>

text \<open>
  \<open>skt_clientaddr\<close> of \<open>src/socket.c\<close>: what \<open>inet_ntop\<close> prints, the four bytes of the address in
  the order they have in memory.
\<close>

definition addr_byte :: "nat \<Rightarrow> 32 word \<Rightarrow> nat" where
  "addr_byte k w = unat (take_bit 8 (drop_bit (8 * k) w))"

definition INET_ADDRSTRLEN :: nat where
  "INET_ADDRSTRLEN = 16"

definition skt_clientaddr :: "32 word \<Rightarrow> nat \<Rightarrow> string res" where
  "skt_clientaddr addr address_len =
     (if \<not> address_len \<ge> INET_ADDRSTRLEN then Inl Assert_failed
      else Inr (dec (addr_byte 0 addr) @ ''.'' @ dec (addr_byte 1 addr) @ ''.'' @
        dec (addr_byte 2 addr) @ ''.'' @ dec (addr_byte 3 addr)))"

lemma addr_byte_less: "addr_byte k w < 256"
proof -
  have "unat (take_bit 8 (drop_bit (8 * k) w)) = take_bit 8 (unat (drop_bit (8 * k) w))"
    by (simp add: unsigned_take_bit_eq)
  then show ?thesis by (simp add: addr_byte_def take_bit_eq_mod)
qed

lemma dec_three: "n < 1000 \<Longrightarrow> length (dec n) \<le> 3"
  by (simp add: dec.simps [of n] dec.simps [of "n div 10"] dec.simps [of "n div 10 div 10"])

text \<open>The text and its \<open>NUL\<close> fit into the arrays of the callers.\<close>

lemma clientaddr_fits:
  assumes "skt_clientaddr a INET_ADDRSTRLEN = Inr t"
  shows "length t < INET_ADDRSTRLEN"
proof -
  have d: "length (dec (addr_byte k a)) \<le> 3" for k using dec_three addr_byte_less [of k a] by simp
  from assms have "length t = length (dec (addr_byte 0 a)) + length (dec (addr_byte 1 a)) +
      length (dec (addr_byte 2 a)) + length (dec (addr_byte 3 a)) + 3"
    by (auto simp: skt_clientaddr_def)
  with d [of 0] d [of 1] d [of 2] d [of 3] show ?thesis by (simp add: INET_ADDRSTRLEN_def)
qed

section \<open>Accepting\<close>

datatype accept_outcome = Accepted int | Accept_fails errno

definition server_socket_accept ::
  "accept_outcome \<Rightarrow> int \<Rightarrow> 64 word \<Rightarrow> (socket_info option \<times> 64 word) res" where
  "server_socket_accept answer fd n =
     (if \<not> fd \<ge> 0 then Inl Assert_failed
      else case answer of
        Accept_fails e \<Rightarrow> Inr (None, n)
      | Accepted clientfd \<Rightarrow>
          bind_res (skt_new n clientfd) (\<lambda>(skt, n). Inr (Some (skt\<lparr>skt_fd := clientfd\<rparr>), n)))"

text \<open>
  The body of the loop once a socket was accepted; \<open>registered\<close> is what \<open>epoll_ctl\<close> answers.
\<close>

definition add_client :: "socket_info \<Rightarrow> bool \<Rightarrow> server_state \<Rightarrow> server_state res option" where
  "add_client skt registered st =
     (case server_connection_new (ss_conn_id st) skt of
        (client, cid) \<Rightarrow>
          let a = ss_fresh st; st = st\<lparr>ss_conn_id := cid, ss_fresh := Suc a\<rparr> in
          if \<not> registered
          then do { r \<leftarrow> server_connection_delete (client\<lparr>c_skt := skt_close (c_skt client)\<rparr>);
                    Some (bind_res r (\<lambda>_. Inr st)) }
          else Some (enqueue POOL_READ ''READ'' a
            (st\<lparr>ss_clients := ss_clients st @ [a], ss_conns := (ss_conns st)(a \<mapsto> client)\<rparr>)))"

text \<open>
  \<open>while (true) { skt = server_socket_accept(...); if (skt == NULL) break; ... }\<close> over the
  answers of the kernel, each with what \<open>epoll_ctl\<close> says if it is a connection. When the
  answers run out the loop is still at it.
\<close>

fun accept_loop :: "int \<Rightarrow> (accept_outcome \<times> bool) list \<Rightarrow> server_state \<Rightarrow> server_state res option" where
  "accept_loop sfd [] st = None"
| "accept_loop sfd ((answer, registered) # answers) st =
     (case server_socket_accept answer sfd (ss_skt_id st) of
        Inl e \<Rightarrow> Some (Inl e)
      | Inr (None, _) \<Rightarrow> Some (Inr st)
      | Inr (Some skt, n) \<Rightarrow>
          (case add_client skt registered (st\<lparr>ss_skt_id := n\<rparr>) of
             Some (Inr st') \<Rightarrow> accept_loop sfd answers st'
           | r \<Rightarrow> r))"

text \<open>The descriptors up to the first failure, whatever the failure is.\<close>

fun accepted :: "(accept_outcome \<times> bool) list \<Rightarrow> (int \<times> bool) list" where
  "accepted ((Accepted fd, registered) # answers) = (fd, registered) # accepted answers"
| "accepted _ = []"

lemma add_client_one:
  "skt_new (ss_skt_id st) fd = Inr (skt, n) \<Longrightarrow>
   add_client (skt\<lparr>skt_fd := fd\<rparr>) registered (st\<lparr>ss_skt_id := n\<rparr>) = accept_one fd registered st"
  by (auto simp: add_client_def accept_one_def Let_def skt_new_def skt_nextid_def split: if_splits)

text \<open>
  The loop takes the connections of the kernel in order up to the first answer that is not
  one. The code does not tell an empty queue of connections from an error: a connection
  that was aborted, or a call that was interrupted, ends the loop too, and since the
  listening socket is watched for edges those behind it wait for the next new connection.
\<close>

theorem accept_loop_accepts:
  assumes "0 \<le> sfd" and "Accept_fails e \<in> fst ` set answers" and "server_inv st"
    and "\<forall>(fd, r) \<in> set (accepted answers). 0 < fd"
  shows "accept_loop sfd answers st = accept_all (accepted answers) st"
  using assms(2-4)
proof (induction answers arbitrary: st)
  case Nil
  then show ?case by simp
next
  case (Cons x answers)
  obtain answer registered where x: "x = (answer, registered)" by (cases x)
  show ?case
  proof (cases answer)
    case (Accept_fails e')
    then show ?thesis using assms(1) by (simp add: x server_socket_accept_def)
  next
    case (Accepted fd)
    with Cons.prems(3) x have fd: "0 < fd" by simp
    then obtain skt n where skt: "skt_new (ss_skt_id st) fd = Inr (skt, n)" by (simp add: skt_new_def skt_nextid_def)
    from accept_one_run [OF Cons.prems(2) fd, of registered] obtain st1 where
      1: "accept_one fd registered st = Some (Inr st1)" "server_inv st1" by blast
    have "accept_loop sfd answers st1 = accept_all (accepted answers) st1"
      by (rule Cons.IH [OF _ 1(2)]) (use Cons.prems Accepted x in auto)
    with 1(1) add_client_one [OF skt, of registered] assms(1) skt show ?thesis
      by (simp add: x Accepted server_socket_accept_def)
  qed
qed

theorem accept_loop_accepts_witness:
  "accept_loop 4 [(Accepted 7, True), (Accept_fails EAGAIN, True)] empty_server = accept_all [(7, True)] empty_server"
  using accept_loop_accepts [of 4 EAGAIN "[(Accepted 7, True), (Accept_fails EAGAIN, True)]", OF _ _ empty_server_inv] by simp

end
