(* ===== verification/Log.thy ===== *)
theory Log
  imports Libc
begin

text \<open>
  \<open>src/log.c\<close>: the register of logs and where a message goes. A log is its name, whether
  its thread runs, and the messages its pipe was given in order; the thread only prints
  them with the time. The register is a list of entries, each with the levels of its log
  as bits. Two logs are the same when they have the same address.
\<close>

unbundle bit_operations_syntax

section \<open>Levels\<close>

datatype log_level = LDEBUG | LINFO | LWARNING | LERROR | LFATAL

fun level_bit :: "log_level \<Rightarrow> 32 word" where
  "level_bit LDEBUG = push_bit 0 1"
| "level_bit LINFO = push_bit 1 1"
| "level_bit LWARNING = push_bit 2 1"
| "level_bit LERROR = push_bit 3 1"
| "level_bit LFATAL = push_bit 4 1"

definition LALL :: "32 word" where
  "LALL = 0 OR level_bit LDEBUG OR level_bit LINFO OR level_bit LWARNING OR level_bit LERROR OR level_bit LFATAL"

fun log_level_name :: "log_level \<Rightarrow> string" where
  "log_level_name LDEBUG = ''DEBUG''"
| "log_level_name LINFO = ''INFO''"
| "log_level_name LWARNING = ''WARNING''"
| "log_level_name LERROR = ''ERROR''"
| "log_level_name LFATAL = ''FATAL''"

section \<open>Logs\<close>

record logger =
  lg_name :: string
  lg_running :: bool
  lg_msgs :: "(log_level \<times> string) list"

definition log_new :: "string \<Rightarrow> logger" where
  "log_new name = \<lparr>lg_name = name, lg_running = False, lg_msgs = []\<rparr>"

text \<open>\<open>works\<close>: the pipe and the thread can be made.\<close>

definition log_start :: "bool \<Rightarrow> logger \<Rightarrow> bool \<times> logger" where
  "log_start works l =
     (if lg_running l then (True, l)
      else if \<not> works then (False, l) else (True, l\<lparr>lg_running := True\<rparr>))"

definition log_stop :: "logger \<Rightarrow> logger" where
  "log_stop l = l\<lparr>lg_running := False\<rparr>"

record log_entry =
  le_log :: ptr
  le_def :: bool
  le_levels :: "32 word"

text \<open>The store of logs, what went to the standard error, and the register.\<close>

record log_state =
  ls_logs :: "ptr \<Rightarrow> logger"
  ls_stderr :: "string list"
  ls_register :: "log_entry list"

definition log_write :: "ptr option \<Rightarrow> log_level \<Rightarrow> string \<Rightarrow> log_state \<Rightarrow> log_state" where
  "log_write l level message s =
     (case l of
        None \<Rightarrow> s\<lparr>ls_stderr := ls_stderr s @ [message]\<rparr>
      | Some p \<Rightarrow>
          if \<not> lg_running (ls_logs s p) then s
          else s\<lparr>ls_logs := (ls_logs s)(p := (ls_logs s p)\<lparr>lg_msgs := lg_msgs (ls_logs s p) @ [(level, message)]\<rparr>)\<rparr>)"

section \<open>The register\<close>

definition log_register_add :: "bool \<Rightarrow> ptr \<Rightarrow> bool \<Rightarrow> 32 word \<Rightarrow> log_state \<Rightarrow> log_state" where
  "log_register_add works l def levels s =
     (let s = (if \<not> lg_running (ls_logs s l)
               then s\<lparr>ls_logs := (ls_logs s)(l := snd (log_start works (ls_logs s l)))\<rparr> else s);
          es = (if def then map (\<lambda>e. e\<lparr>le_def := False\<rparr>) (ls_register s) else ls_register s)
      in s\<lparr>ls_register := es @ [\<lparr>le_log = l, le_def = def, le_levels = levels\<rparr>]\<rparr>)"

text \<open>The first entry of the log goes.\<close>

fun remove_entry :: "ptr \<Rightarrow> log_entry list \<Rightarrow> log_entry list" where
  "remove_entry l [] = []"
| "remove_entry l (e # es) = (if le_log e = l then es else e # remove_entry l es)"

definition log_register_remove :: "ptr \<Rightarrow> log_state \<Rightarrow> log_state" where
  "log_register_remove l s = s\<lparr>ls_register := remove_entry l (ls_register s)\<rparr>"

text \<open>The loop of \<open>log_register_get\<close>; \<open>def\<close> is the default seen so far.\<close>

fun get_entry :: "(ptr \<Rightarrow> logger) \<Rightarrow> string option \<Rightarrow> ptr option \<Rightarrow> log_entry list \<Rightarrow> ptr option" where
  "get_entry logs name def [] = def"
| "get_entry logs name def (e # es) =
     (if \<exists>n. name = Some n \<and> strcaseeq n (lg_name (logs (le_log e))) then Some (le_log e)
      else if le_def e then if name = None then Some (le_log e) else get_entry logs name (Some (le_log e)) es
      else get_entry logs name def es)"

definition log_register_get :: "string option \<Rightarrow> log_state \<Rightarrow> ptr option" where
  "log_register_get name s = get_entry (ls_logs s) name None (ls_register s)"

definition log_register_clear :: "log_state \<Rightarrow> log_state" where
  "log_register_clear s =
     s\<lparr>ls_register := [], ls_logs := (\<lambda>p. if p \<in> le_log ` set (ls_register s) then log_stop (ls_logs s p) else ls_logs s p)\<rparr>"

definition LOG_LENGTH :: nat where
  "LOG_LENGTH = 256"

fun write_entries :: "log_level \<Rightarrow> string \<Rightarrow> log_entry list \<Rightarrow> nat \<Rightarrow> log_state \<Rightarrow> nat \<times> log_state" where
  "write_entries level msg [] count s = (count, s)"
| "write_entries level msg (e # es) count s =
     (if le_levels e AND level_bit level = level_bit level
      then write_entries level msg es (Suc count) (log_write (Some (le_log e)) level msg s)
      else write_entries level msg es count s)"

text \<open>The message as \<open>vsnprintf\<close> formats it, cut to the length of the array.\<close>

definition log_register_write :: "log_level \<Rightarrow> string \<Rightarrow> log_state \<Rightarrow> log_state" where
  "log_register_write level formatted s =
     (let msg = take (LOG_LENGTH - 1) formatted in
      case write_entries level msg (ls_register s) 0 s of
        (count, s') \<Rightarrow> if count = 0 then log_write (log_register_get None s') level msg s' else s')"

section \<open>Where a message goes\<close>

definition wants :: "log_level \<Rightarrow> log_entry \<Rightarrow> bool" where
  "wants level e \<longleftrightarrow> le_levels e AND level_bit level = level_bit level"

definition one_default :: "log_entry list \<Rightarrow> bool" where
  "one_default es \<longleftrightarrow> length (filter le_def es) \<le> 1"

lemma register_add_default:
  "one_default (ls_register s) \<Longrightarrow> one_default (ls_register (log_register_add works l def levels s))"
  by (auto simp: one_default_def log_register_add_def Let_def filter_map comp_def)

lemma remove_entry_filter: "length (filter P (remove_entry l es)) \<le> length (filter P es)"
  by (induction es) auto

lemma register_remove_default:
  "one_default (ls_register s) \<Longrightarrow> one_default (ls_register (log_register_remove l s))"
  using remove_entry_filter [of le_def l "ls_register s"] by (simp add: one_default_def log_register_remove_def)

lemma write_entries_run:
  "distinct (map le_log es) \<Longrightarrow> \<forall>e \<in> set es. lg_running (ls_logs s (le_log e)) \<Longrightarrow>
   write_entries level msg es n s = (n + length (filter (wants level) es),
     s\<lparr>ls_logs := (\<lambda>p. if \<exists>e \<in> set es. le_log e = p \<and> wants level e
        then (ls_logs s p)\<lparr>lg_msgs := lg_msgs (ls_logs s p) @ [(level, msg)]\<rparr> else ls_logs s p)\<rparr>)"
proof (induction es arbitrary: n s)
  case Nil
  then show ?case by simp
next
  case (Cons e es)
  show ?case
  proof (cases "wants level e")
    case True
    let ?s = "log_write (Some (le_log e)) level msg s"
    have s: "?s = s\<lparr>ls_logs := (ls_logs s)(le_log e :=
        (ls_logs s (le_log e))\<lparr>lg_msgs := lg_msgs (ls_logs s (le_log e)) @ [(level, msg)]\<rparr>)\<rparr>"
      using Cons.prems(2) by (simp add: log_write_def)
    have "\<forall>d \<in> set es. lg_running (ls_logs ?s (le_log d))" using Cons.prems by (auto simp: s)
    with Cons.prems(1) have ih: "write_entries level msg es (Suc n) ?s = (Suc n + length (filter (wants level) es),
     ?s\<lparr>ls_logs := (\<lambda>p. if \<exists>e \<in> set es. le_log e = p \<and> wants level e
        then (ls_logs ?s p)\<lparr>lg_msgs := lg_msgs (ls_logs ?s p) @ [(level, msg)]\<rparr> else ls_logs ?s p)\<rparr>)"
      by (intro Cons.IH) auto
    have "\<forall>d \<in> set es. le_log d \<noteq> le_log e" using Cons.prems(1) by (force simp: image_iff)
    then have "(\<lambda>p. if \<exists>d \<in> set es. le_log d = p \<and> wants level d
        then (ls_logs ?s p)\<lparr>lg_msgs := lg_msgs (ls_logs ?s p) @ [(level, msg)]\<rparr> else ls_logs ?s p) =
      (\<lambda>p. if \<exists>d \<in> set (e # es). le_log d = p \<and> wants level d
        then (ls_logs s p)\<lparr>lg_msgs := lg_msgs (ls_logs s p) @ [(level, msg)]\<rparr> else ls_logs s p)"
      using True by (auto simp: s fun_eq_iff)
    with ih True show ?thesis unfolding wants_def [symmetric] by (simp add: wants_def [symmetric]) (simp add: s)
  next
    case False
    with Cons show ?thesis by (simp add: wants_def [symmetric])
  qed
qed

text \<open>
  A message goes once to every running log whose levels include its level, and to no
  other log; when no log wants it, to the default log, and without one to the standard error.
\<close>

theorem message_routed:
  assumes "distinct (map le_log (ls_register s))" and "\<forall>e \<in> set (ls_register s). lg_running (ls_logs s (le_log e))"
    and "length msg < LOG_LENGTH"
  shows "log_register_write level msg s =
    (if \<exists>e \<in> set (ls_register s). wants level e
     then s\<lparr>ls_logs := (\<lambda>p. if \<exists>e \<in> set (ls_register s). le_log e = p \<and> wants level e
        then (ls_logs s p)\<lparr>lg_msgs := lg_msgs (ls_logs s p) @ [(level, msg)]\<rparr> else ls_logs s p)\<rparr>
     else log_write (log_register_get None s) level msg s)"
proof -
  have cut: "take (LOG_LENGTH - 1) msg = msg" using assms(3) by simp
  note run = write_entries_run [OF assms(1,2), of level msg 0]
  show ?thesis
  proof (cases "\<exists>e \<in> set (ls_register s). wants level e")
    case True
    then have "length (filter (wants level) (ls_register s)) \<noteq> 0" by (auto simp: filter_empty_conv)
    with True run show ?thesis unfolding log_register_write_def cut Let_def by simp
  next
    case False
    then have none: "length (filter (wants level) (ls_register s)) = 0" by (simp add: filter_empty_conv)
    have same: "(\<lambda>p. if \<exists>e \<in> set (ls_register s). le_log e = p \<and> wants level e
        then (ls_logs s p)\<lparr>lg_msgs := lg_msgs (ls_logs s p) @ [(level, msg)]\<rparr> else ls_logs s p) = ls_logs s"
      using False by (auto simp: fun_eq_iff)
    have "write_entries level msg (ls_register s) 0 s = (0, s)" using run unfolding same none by simp
    with False show ?thesis unfolding log_register_write_def cut Let_def by simp
  qed
qed

text \<open>The register of \<open>server_start\<close>.\<close>

definition server_logs :: log_state where
  "server_logs = log_register_add True 1 False (level_bit LDEBUG OR level_bit LINFO)
     (log_register_add True 0 True (LALL AND NOT (level_bit LINFO OR level_bit LDEBUG))
       \<lparr>ls_logs = (\<lambda>p. log_new (if p = 0 then ''stderr'' else ''stdout'')), ls_stderr = [], ls_register = []\<rparr>)"

theorem message_routed_witness:
  "lg_msgs (ls_logs (log_register_write LERROR ''bad'' server_logs) 0) = [(LERROR, ''bad'')] \<and>
   lg_msgs (ls_logs (log_register_write LERROR ''bad'' server_logs) 1) = []"
proof -
  have reg: "ls_register server_logs =
      [\<lparr>le_log = 0, le_def = True, le_levels = LALL AND NOT (level_bit LINFO OR level_bit LDEBUG)\<rparr>,
       \<lparr>le_log = 1, le_def = False, le_levels = level_bit LDEBUG OR level_bit LINFO\<rparr>]"
    by (simp add: server_logs_def log_register_add_def)
  have logs: "lg_running (ls_logs server_logs 0)" "lg_running (ls_logs server_logs 1)"
    "lg_msgs (ls_logs server_logs 0) = []" "lg_msgs (ls_logs server_logs 1) = []"
    by (simp_all add: server_logs_def log_register_add_def log_start_def log_new_def Let_def)
  have w: "wants LERROR \<lparr>le_log = 0, le_def = True, le_levels = LALL AND NOT (level_bit LINFO OR level_bit LDEBUG)\<rparr>"
    "\<not> wants LERROR \<lparr>le_log = 1, le_def = False, le_levels = level_bit LDEBUG OR level_bit LINFO\<rparr>"
    by (simp_all add: wants_def LALL_def)
  have "distinct (map le_log (ls_register server_logs))"
    "\<forall>e \<in> set (ls_register server_logs). lg_running (ls_logs server_logs (le_log e))"
    "length ''bad'' < LOG_LENGTH"
    using logs by (simp_all add: reg LOG_LENGTH_def)
  from message_routed [OF this, of LERROR] show ?thesis using w logs by (simp add: reg)
qed

end
