(* ===== verification/Server_Start.thy ===== *)
theory Server_Start
  imports Server_State Server_Socket Log
begin

text \<open>
  \<open>src/server.c\<close> and \<open>src/main.c\<close>: the program from the configuration file to its exit. What
  the system answers to the calls on the way is one record; the threads of the pools leave
  their queues and lists of threads in it as well. A signal is a flag on the turn of the
  loop in which it arrives. The loop that has not been told to stop is \<open>None\<close>: \<open>main\<close> has not
  come back.

  The messages on the way are left out; \<open>Log\<close> says where a message goes.
\<close>

section \<open>The program and its environment\<close>

record program =
  pg_status :: server_status
  pg_config :: "config_server option"
  pg_logs :: log_state
  pg_mimes :: "mime_type list"
  pg_sfd :: int
  pg_epollfd :: int
  pg_made :: "syscall list"

record start_env =
  en_config :: config_env
  en_files :: "string \<Rightarrow> string option"
  en_early :: bool
  en_log_works :: "ptr \<Rightarrow> bool"
  en_socket :: int
  en_bind :: bool
  en_listen :: bool
  en_epoll :: int
  en_ctl :: bool
  en_created :: "server_pool \<Rightarrow> bool"
  en_first :: bool
  en_turns :: "(turn \<times> bool) list"
  en_ends :: "server_pool \<Rightarrow> pool_end"
  en_threads :: "server_pool \<Rightarrow> thread list"
  en_queues :: "server_pool \<Rightarrow> queue"

text \<open>
  \<open>en_early\<close>: a signal between the installation of the handlers and \<open>server_start\<close>;
  \<open>en_first\<close>: one between the start of \<open>server_start\<close> and the loop.
\<close>

definition DEFAULT_CONFIG_FILE :: string where
  "DEFAULT_CONFIG_FILE = ''khttpd.ini''"

definition EXIT_SUCCESS :: int where
  "EXIT_SUCCESS = 0"

definition signal_handle :: "server_state \<Rightarrow> server_state" where
  "signal_handle st = st\<lparr>ss_shutdown_requested := True\<rparr>"

definition signal_if :: "bool \<Rightarrow> server_state \<Rightarrow> server_state" where
  "signal_if arrived st = (if arrived then signal_handle st else st)"

section \<open>The loop with signals\<close>

fun signalled_turns :: "(turn \<times> bool) list \<Rightarrow> server_state \<Rightarrow> server_state res option" where
  "signalled_turns ts st =
     (if ss_shutdown_requested st
      then Some (Inr (st\<lparr>ss_shutdown_requested := False, ss_started := False, ss_stopped := True\<rparr>))
      else case ts of
        [] \<Rightarrow> None
      | (t, arrived) # rest \<Rightarrow>
          (case server_turn t st of
             Some (Inr st') \<Rightarrow> signalled_turns rest (signal_if arrived st')
           | r \<Rightarrow> r))"

declare signalled_turns.simps [simp del]

definition signalled_loop :: "(turn \<times> bool) list \<Rightarrow> server_state \<Rightarrow> server_state res option" where
  "signalled_loop ts st = (if \<not> ss_started st then Some (Inl Assert_failed) else signalled_turns ts st)"

section \<open>Starting\<close>

text \<open>The two logs at the addresses \<open>calloc\<close> gave.\<close>

definition stderr_log :: ptr where
  "stderr_log = 0"

definition stdout_log :: ptr where
  "stdout_log = 1"

definition start_logging :: "(ptr \<Rightarrow> bool) \<Rightarrow> log_state \<Rightarrow> log_state" where
  "start_logging works s =
     (let s = s\<lparr>ls_logs := (ls_logs s)(stderr_log := log_new ''stderr'')\<rparr>;
          s = log_register_add (works stderr_log) stderr_log True (LALL AND NOT (level_bit LINFO OR level_bit LDEBUG)) s;
          s = s\<lparr>ls_logs := (ls_logs s)(stdout_log := log_new ''stdout'')\<rparr>
      in log_register_add (works stdout_log) stdout_log False (level_bit LDEBUG OR level_bit LINFO) s)"

text \<open>The queues the pools are made with are those the loop uses.\<close>

definition start_pools :: "(server_pool \<Rightarrow> bool) \<Rightarrow> server_status \<Rightarrow> server_status res" where
  "start_pools created s =
     bind_res (server_start_pools created s) (\<lambda>s.
       Inr (s\<lparr>st_loop := (st_loop s)\<lparr>ss_pools := (\<lambda>_. queue_new)\<rparr>\<rparr>))"

section \<open>Tearing down\<close>

fun close_clients :: "ptr list \<Rightarrow> server_state \<Rightarrow> server_state res option" where
  "close_clients [] st = Some (Inr st)"
| "close_clients (p # ps) st =
     (case ss_conns st p of
        None \<Rightarrow> Some (Inl Use_after_free)
      | Some c \<Rightarrow>
          (case server_connection_delete (c\<lparr>c_skt := skt_close (c_skt c)\<rparr>) of
             Some (Inr _) \<Rightarrow> close_clients ps
               (st\<lparr>ss_clients := remove1 p (ss_clients st), ss_conns := (ss_conns st)(p := None)\<rparr>)
           | Some (Inl e) \<Rightarrow> Some (Inl e)
           | None \<Rightarrow> None))"

text \<open>What the manager and the threads of each pool made of it while the loop ran.\<close>

definition left_by_threads :: "start_env \<Rightarrow> server_status \<Rightarrow> server_status" where
  "left_by_threads env s =
     s\<lparr>st_pools := (\<lambda>p. map_option (\<lambda>(pool, q).
        (pool\<lparr>threads := en_threads env p, thread_count := of_nat (length (en_threads env p))\<rparr>, en_queues env p))
        (st_pools s p))\<rparr>"

definition free_rest :: "program \<Rightarrow> program res" where
  "free_rest pg =
     (let made = pg_made pg @ [Sys_close (pg_epollfd pg)] in
      bind_res (server_socket_release (pg_sfd pg) made) (\<lambda>made.
        let pg = pg\<lparr>pg_made := made, pg_epollfd := 0, pg_sfd := 0, pg_mimes := mime_destroy (pg_mimes pg),
               pg_logs := log_register_clear (pg_logs pg)\<rparr> in
        case pg_config pg of
          None \<Rightarrow> Inl Null_deref
        | Some c \<Rightarrow> bind_res (config_server_delete c) (\<lambda>_. Inr (pg\<lparr>pg_config := None\<rparr>))))"

definition server_teardown :: "start_env \<Rightarrow> program \<Rightarrow> program res option" where
  "server_teardown env pg =
     (if \<not> ss_stopped (st_loop (pg_status pg)) then Some (Inl Assert_failed)
      else
        (case server_stop_pools (en_ends env) (left_by_threads env (pg_status pg)) of
           None \<Rightarrow> None
         | Some (Inl e) \<Rightarrow> Some (Inl e)
         | Some (Inr s) \<Rightarrow>
             (case close_clients (ss_clients (st_loop s)) (st_loop s) of
                None \<Rightarrow> None
              | Some (Inl e) \<Rightarrow> Some (Inl e)
              | Some (Inr st) \<Rightarrow> Some (free_rest (pg\<lparr>pg_status := s\<lparr>st_loop := st\<rparr>\<rparr>)))))"

section \<open>\<open>server_start\<close> and \<open>main\<close>\<close>

text \<open>Everything before the loop.\<close>

definition server_open :: "start_env \<Rightarrow> program \<Rightarrow> program res" where
  "server_open env pg =
     (if \<not> ss_stopped (st_loop (pg_status pg)) then Inl Assert_failed
      else
        let s = pg_status pg;
            s = s\<lparr>st_loop := signal_if (en_first env) ((st_loop s)\<lparr>ss_shutdown_requested := False\<rparr>)\<rparr>;
            pg = pg\<lparr>pg_logs := start_logging (en_log_works env) (pg_logs pg),
                   pg_mimes := snd (mime_init (en_files env) (pg_mimes pg) None)\<rparr>
        in bind_res (server_socket_create (en_socket env) (pg_made pg)) (\<lambda>(sfd, made).
           case pg_config pg of
             None \<Rightarrow> Inl Null_deref
           | Some c \<Rightarrow>
               bind_res (server_socket_listen_epoll (en_bind env) (en_listen env) (en_epoll env) (en_ctl env)
                 sfd (listen_port c) made) (\<lambda>(epfd, made).
               bind_res (start_pools (en_created env) s) (\<lambda>s.
                 Inr (pg\<lparr>pg_sfd := sfd, pg_epollfd := epfd, pg_made := made,
                   pg_status := s\<lparr>st_loop := (st_loop s)\<lparr>ss_started := True, ss_stopped := False\<rparr>\<rparr>\<rparr>)))))"

definition server_start :: "start_env \<Rightarrow> program \<Rightarrow> program res option" where
  "server_start env pg =
     (case server_open env pg of
        Inl e \<Rightarrow> Some (Inl e)
      | Inr pg \<Rightarrow>
          (case signalled_loop (en_turns env) (st_loop (pg_status pg)) of
             None \<Rightarrow> None
           | Some (Inl e) \<Rightarrow> Some (Inl e)
           | Some (Inr st) \<Rightarrow> server_teardown env (pg\<lparr>pg_status := (pg_status pg)\<lparr>st_loop := st\<rparr>\<rparr>)))"

text \<open>The state of the program when \<open>main\<close> begins, with what the configuration file gave.\<close>

definition new_program :: "server_status \<Rightarrow> config_server \<Rightarrow> program" where
  "new_program s c =
     \<lparr>pg_status = s, pg_config = Some c,
      pg_logs = \<lparr>ls_logs = (\<lambda>_. log_new []), ls_stderr = [], ls_register = []\<rparr>,
      pg_mimes = [], pg_sfd = 0, pg_epollfd = 0, pg_made = []\<rparr>"

definition read_config :: "start_env \<Rightarrow> int \<times> config_server" where
  "read_config env =
     config_read_ini (en_config env) (en_files env) DEFAULT_CONFIG_FILE (config_server_new (en_config env))"

definition program_main :: "start_env \<Rightarrow> int res option" where
  "program_main env =
     (case read_config env of (r, c) \<Rightarrow>
        if r < 0 then Some (Inl Fatal)
        else case server_status_new c of
          Inl e \<Rightarrow> Some (Inl e)
        | Inr s \<Rightarrow>
            (let s = s\<lparr>st_loop := signal_if (en_early env) (st_loop s)\<rparr> in
             case server_start env (new_program s c) of
               None \<Rightarrow> None
             | Some (Inl e) \<Rightarrow> Some (Inl e)
             | Some (Inr pg) \<Rightarrow>
                 do { d \<leftarrow> server_status_delete (pg_status pg);
                      Some (bind_res d (\<lambda>_. Inr EXIT_SUCCESS)) }))"

section \<open>How the program ends\<close>

lemma signalled_stopped: "signalled_turns ts st = Some (Inr st') \<Longrightarrow> ss_stopped st'"
  by (induction ts arbitrary: st)
    (subst (asm) signalled_turns.simps, auto split: if_splits option.splits sum.splits)+

text \<open>Without signals it is the loop of \<open>Server_Loop\<close>.\<close>

lemma signalled_plain:
  "signalled_turns (map (\<lambda>t. (t, False)) ts) st = Some (Inr st') \<Longrightarrow> server_turns ts st = Some (Inr st')"
proof (induction ts arbitrary: st)
  case Nil
  then show ?case by (subst (asm) signalled_turns.simps) (simp add: server_turns.simps split: if_splits)
next
  case (Cons t ts)
  then show ?case
    by (subst (asm) signalled_turns.simps)
      (auto simp: server_turns.simps [of "t # ts"] signal_if_def split: if_splits option.splits sum.splits)
qed

lemma stop_each_returns:
  "stop_each ends ps s = Some (Inr u) \<Longrightarrow> p \<in> set ps \<Longrightarrow> join_slips (ends p)"
  by (induction ps) (auto split: option.splits sum.splits dest: stop_one_returns)

lemma stop_pools_returns: "server_stop_pools ends s = Some (Inr s') \<Longrightarrow> join_slips (ends p)"
proof -
  assume "server_stop_pools ends s = Some (Inr s')"
  then have "stop_each ends all_pools s = Some (Inr ())"
    by (auto simp: server_stop_pools_def bind_res_eq_Inr simp del: stop_each.simps
        split: if_splits Option.bind_splits)
  then show "join_slips (ends p)"
    by (rule stop_each_returns) (cases p; simp add: all_pools_def)
qed

lemma teardown_returns: "server_teardown env pg = Some (Inr pg') \<Longrightarrow> join_slips (en_ends env p)"
  by (auto simp: server_teardown_def split: if_splits option.splits sum.splits dest: stop_pools_returns)

lemma main_returns:
  "program_main env = Some (Inr code) \<Longrightarrow> code = EXIT_SUCCESS \<and> join_slips (en_ends env p)"
  by (auto simp: program_main_def server_start_def Let_def bind_res_eq_Inr
      split: prod.splits if_splits option.splits sum.splits Option.bind_splits dest: teardown_returns)

text \<open>A signal before \<open>server_start\<close> is forgotten.\<close>

lemma early_signal_lost: "program_main (env\<lparr>en_early := True\<rparr>) = program_main (env\<lparr>en_early := False\<rparr>)"
proof -
  have "server_open (env\<lparr>en_early := True\<rparr>) (new_program (s\<lparr>st_loop := signal_handle (st_loop s)\<rparr>) c) =
    server_open (env\<lparr>en_early := False\<rparr>) (new_program s c)" for s c
    by (simp add: server_open_def new_program_def signal_handle_def Let_def)
  moreover have "server_teardown (env\<lparr>en_early := True\<rparr>) pg = server_teardown (env\<lparr>en_early := False\<rparr>) pg" for pg
    by (simp add: server_teardown_def left_by_threads_def)
  ultimately have "server_start (env\<lparr>en_early := True\<rparr>) (new_program (s\<lparr>st_loop := signal_handle (st_loop s)\<rparr>) c) =
    server_start (env\<lparr>en_early := False\<rparr>) (new_program s c)" for s c
    by (simp add: server_start_def cong: sum.case_cong option.case_cong)
  then show ?thesis
    by (simp add: program_main_def read_config_def signal_if_def Let_def cong: prod.case_cong if_cong sum.case_cong)
qed

section \<open>The end of a run\<close>

text \<open>The state in which the loop is entered.\<close>

definition started_loop :: "bool \<Rightarrow> server_state" where
  "started_loop first =
     \<lparr>ss_started = True, ss_stopped = False, ss_shutdown_requested = first, ss_pools = (\<lambda>_. queue_new),
      ss_clients = [], ss_conns = (\<lambda>_. None), ss_item_id = 1, ss_conn_id = 1, ss_skt_id = 1, ss_fresh = 1\<rparr>"

text \<open>Every call of the start works.\<close>

definition all_works :: "start_env \<Rightarrow> bool" where
  "all_works env \<longleftrightarrow> 0 \<le> en_socket env \<and> en_bind env \<and> en_listen env \<and> 0 \<le> en_epoll env \<and> en_ctl env \<and>
     (\<forall>p. en_created env p)"

lemma start_pools_works:
  "\<forall>p. created p \<Longrightarrow> st_pools s = (\<lambda>_. None) \<Longrightarrow>
   \<exists>s'. server_start_pools created s = Inr s' \<and> st_loop s' = st_loop s"
  by (simp add: server_start_pools_def all_pools_def thread_pool_start_def thread_start_def)

lemma server_open_works:
  assumes "all_works env" and "server_status_new c = Inr s"
  shows "\<exists>pg. server_open env (new_program (s\<lparr>st_loop := signal_if early (st_loop s)\<rparr>) c) = Inr pg \<and>
    st_loop (pg_status pg) = started_loop (en_first env) \<and>
    (\<forall>p. st_pools (pg_status pg) p = Some ((pool_setup p)\<lparr>manager := Some True\<rparr>, queue_new)) \<and>
    pg_config pg = Some c \<and> pg_sfd pg = en_socket env \<and> pg_epollfd pg = en_epoll env \<and>
    pg_made pg = [Sys_socket, Sys_bind (en_socket env) (server_address (listen_port c)),
      Sys_listen (en_socket env) SOMAXCONN, Sys_epoll_create, Sys_epoll_add (en_epoll env) (en_socket env)]"
proof -
  from assms(2) have port: "0 < listen_port c" and s: "ss_stopped (st_loop s)" "st_pools s = (\<lambda>_. None)"
    "ss_pools (st_loop s) = (\<lambda>_. queue_new)" "ss_clients (st_loop s) = []" "ss_conns (st_loop s) = (\<lambda>_. None)"
    "ss_item_id (st_loop s) = 1" "ss_conn_id (st_loop s) = 1" "ss_skt_id (st_loop s) = 1" "ss_fresh (st_loop s) = 1"
    by (auto simp: server_status_new_def split: if_splits)
  let ?s = "s\<lparr>st_loop := signal_if (en_first env) ((st_loop s)\<lparr>ss_shutdown_requested := False\<rparr>)\<rparr>"
  from start_pools_works [of "en_created env" ?s] assms(1) s(2) obtain s1 where
    s1: "server_start_pools (en_created env) ?s = Inr s1" "st_loop s1 = st_loop ?s" by (auto simp: all_works_def)
  have early: "signal_if early st\<lparr>ss_shutdown_requested := b\<rparr> = st\<lparr>ss_shutdown_requested := b\<rparr>"
    "ss_stopped (signal_if early st) = ss_stopped st" for st b
    by (simp_all add: signal_if_def signal_handle_def)
  have loop: "(st_loop s1)\<lparr>ss_pools := (\<lambda>_. queue_new), ss_started := True, ss_stopped := False\<rparr> =
      started_loop (en_first env)"
    using s by (cases "en_first env") (simp_all add: s1(2) started_loop_def signal_if_def signal_handle_def)
  show ?thesis
    using start_pools_started [OF s1(1)] assms(1) port s loop
    by (simp add: server_open_def new_program_def early s1(1) start_pools_def all_works_def Let_def
        server_socket_create_def server_socket_listen_epoll_def server_socket_listen_def)
qed

lemma empty_queue_deleted:
  assumes "queue_rep q [] ts"
  shows "queue_delete q = Some (Inr (ts \<noteq> []))"
proof -
  from queue_clear_empty [of q ts] assms obtain q' where "queue_clear q = Some (Inr q')" by blast
  with pending_count_rep [OF assms] show ?thesis by (simp add: queue_delete_def)
qed

lemma left_pools:
  assumes "\<forall>p. st_pools s p = Some ((pool_setup p)\<lparr>manager := Some True\<rparr>, queue_new)"
  shows "st_pools (left_by_threads env (s\<lparr>st_loop := st\<rparr>)) p =
    Some ((pool_setup p)\<lparr>manager := Some True, threads := en_threads env p,
      thread_count := of_nat (length (en_threads env p))\<rparr>, en_queues env p)"
  using assms by (simp add: left_by_threads_def)

text \<open>
  C18: everything works and the loop was told to stop; the first join of the manager of the
  read pool succeeds and finds its queue emptied. Then the program gets as far as that pool:
  the queue is deleted, and the second \<open>thread_pool_stop\<close> of \<open>server_stop_pools\<close> joins the
  same thread again. If that join goes through it is undefined behaviour; if it fails the
  program ends with the message that it could not join, unless \<open>errno\<close> is \<open>EINTR\<close> by an
  earlier call. The other pools, the clients and the listening socket are not reached. And
  in any environment at all, \<open>main\<close> returns (with 0) only if for each of the three pools a
  join failed while \<open>errno\<close> was \<open>EINTR\<close>.
\<close>

theorem main_ends_at_second_join:
  assumes "read_config env = (r, c)" and "0 \<le> r" and "0 < host_count c" and "0 < listen_port c"
    and "all_works env" and "signalled_loop (en_turns env) (started_loop (en_first env)) = Some (Inr st)"
    and "await_empty (pe_counts (en_ends env POOL_READ)) = Some ()" and "queue_rep (en_queues env POOL_READ) [] ts"
    and "pe_first (en_ends env POOL_READ) = Join_zero" and "pe_second (en_ends env POOL_READ) \<noteq> Join_error True"
  shows "program_main env =
      Some (Inl (if pe_second (en_ends env POOL_READ) = Join_zero then Use_after_free else Fatal)) \<and>
    (program_main env' = Some (Inr code) \<longrightarrow> code = 0 \<and>
      (\<forall>p. pe_first (en_ends env' p) = Join_error True \<or> pe_second (en_ends env' p) = Join_error True))"
proof -
  from assms(3,4) obtain s where s: "server_status_new c = Inr s" by (simp add: server_status_new_def)
  from server_open_works [OF assms(5) s, of "en_early env"] obtain pg where
    pg: "server_open env (new_program (s\<lparr>st_loop := signal_if (en_early env) (st_loop s)\<rparr>) c) = Inr pg"
    "st_loop (pg_status pg) = started_loop (en_first env)"
    "\<forall>p. st_pools (pg_status pg) p = Some ((pool_setup p)\<lparr>manager := Some True\<rparr>, queue_new)" by blast
  have "ss_stopped st" using assms(6) signalled_stopped by (auto simp: signalled_loop_def split: if_splits)
  moreover have "server_stop_pools (en_ends env)
      (left_by_threads env ((pg_status pg)\<lparr>st_loop := st\<rparr>)) =
    Some (Inl (if pe_second (en_ends env POOL_READ) = Join_zero then Use_after_free else Fatal))"
    by (rule stop_second_join [where ends = "en_ends env",
          OF left_pools [OF pg(3)] _ assms(9,7) empty_queue_deleted [OF assms(8)] assms(10)]) simp
  ultimately have "server_teardown env (pg\<lparr>pg_status := (pg_status pg)\<lparr>st_loop := st\<rparr>\<rparr>) =
    Some (Inl (if pe_second (en_ends env POOL_READ) = Join_zero then Use_after_free else Fatal))"
    by (simp add: server_teardown_def)
  then have "program_main env =
      Some (Inl (if pe_second (en_ends env POOL_READ) = Join_zero then Use_after_free else Fatal))"
    using pg assms(1,2,6) s by (simp add: program_main_def server_start_def Let_def)
  moreover have "code = 0 \<and> join_slips (en_ends env' p)" if "program_main env' = Some (Inr code)" for p
    using main_returns [OF that, of p] by (simp add: EXIT_SUCCESS_def)
  ultimately show ?thesis unfolding join_slips_def by blast
qed

text \<open>
  A run that is told to stop before the first turn, with the configuration of one default
  host; the second join answers \<open>answer\<close>.
\<close>

definition short_run :: "manager_join \<Rightarrow> start_env" where
  "short_run answer = \<lparr>en_config = no_env, en_files = (\<lambda>_. Some default_ini), en_early = False,
     en_log_works = (\<lambda>_. True), en_socket = 3, en_bind = True, en_listen = True, en_epoll = 4, en_ctl = True,
     en_created = (\<lambda>_. True), en_first = True, en_turns = [],
     en_ends = (\<lambda>_. \<lparr>pe_counts = [0], pe_first = Join_zero, pe_late = False, pe_second = answer\<rparr>),
     en_threads = (\<lambda>_. []), en_queues = (\<lambda>_. queue_new)\<rparr>"

text \<open>With \<open>errno\<close> left at \<open>EINTR\<close> the run does come to its end.\<close>

lemma main_may_return: "program_main (short_run (Join_error True)) = Some (Inr 0)"
proof -
  let ?e = "short_run (Join_error True)" and ?st = "(started_loop True)\<lparr>ss_shutdown_requested := False,
    ss_started := False, ss_stopped := True\<rparr>"
  obtain r c where rc: "read_config ?e = (r, c)" by fastforce
  have "fst (read_config ?e) = 0 \<and> host_count (snd (read_config ?e)) = 1 \<and>
      listen_port (snd (read_config ?e)) = 80 \<and> isl (config_server_delete (snd (read_config ?e))) = False"
    by code_simp
  with rc obtain h where c: "r = 0" "0 < host_count c" "0 < listen_port c" "config_server_delete c = Inr h"
    by (cases "config_server_delete c") auto
  from c obtain s where s: "server_status_new c = Inr s" by (simp add: server_status_new_def)
  have works: "all_works ?e" "en_early ?e = False" "en_first ?e" "en_turns ?e = []"
    by (simp_all add: all_works_def short_run_def)
  from server_open_works [OF works(1) s, of False] works obtain pg where
    pg: "server_open ?e (new_program s c) = Inr pg" "st_loop (pg_status pg) = started_loop True"
    "\<forall>p. st_pools (pg_status pg) p = Some ((pool_setup p)\<lparr>manager := Some True\<rparr>, queue_new)"
    "pg_config pg = Some c" "pg_sfd pg = 3"
    by (auto simp: signal_if_def short_run_def)
  have loop: "signalled_loop [] (started_loop True) = Some (Inr ?st)"
    by (simp add: signalled_loop_def signalled_turns.simps started_loop_def)
  have queues: "en_queues ?e p = queue_new" for p by (simp add: short_run_def)
  have stop: "stop_one (en_ends ?e p) (pool\<lparr>manager := Some True, threads := ths, thread_count := n\<rparr>, queue_new) =
      Some (Inr ())" for p pool ths n
    using stop_one_second [of "pool\<lparr>manager := Some True, threads := ths, thread_count := n\<rparr>" "en_ends ?e p"]
      empty_queue_deleted [OF queue_rep_new]
    by (simp add: short_run_def)
  have status: "left_by_threads ?e ((pg_status pg)\<lparr>st_loop := ?st\<rparr>)\<lparr>st_pools := (\<lambda>_. None)\<rparr> =
      \<lparr>st_loop = ?st, st_pools = (\<lambda>_. None)\<rparr>"
    by (simp add: left_by_threads_def)
  have pools: "server_stop_pools (en_ends ?e) (left_by_threads ?e ((pg_status pg)\<lparr>st_loop := ?st\<rparr>)) =
      Some (Inr \<lparr>st_loop = ?st, st_pools = (\<lambda>_. None)\<rparr>)"
    using left_pools [OF pg(3), of ?e ?st]
    by (simp only: server_stop_pools_def all_pools_def stop_each.simps queues stop option.case sum.case status
        option.distinct if_False bind.simps bind_res_simps)
  have empty: "ss_clients ?st = []" "ss_stopped ?st" by (simp_all add: started_loop_def)
  have "\<exists>pg'. free_rest (pg\<lparr>pg_status := \<lparr>st_loop = ?st, st_pools = (\<lambda>_. None)\<rparr>\<rparr>) = Inr pg' \<and>
      pg_status pg' = \<lparr>st_loop = ?st, st_pools = (\<lambda>_. None)\<rparr>"
    using c(4) pg(4,5) by (simp add: free_rest_def server_socket_release_def Let_def)
  then show ?thesis
    using rc c(1) s pg(1,2) loop works pools empty
    by (auto simp: program_main_def server_start_def server_teardown_def server_status_delete_def signal_if_def
        EXIT_SUCCESS_def)
qed

theorem main_ends_at_second_join_witness:
  "program_main (short_run Join_zero) = Some (Inl Use_after_free) \<and>
   program_main (short_run (Join_error False)) = Some (Inl Fatal)"
proof -
  have run: "program_main (short_run a) = Some (Inl (if a = Join_zero then Use_after_free else Fatal))"
    if "a \<noteq> Join_error True" for a
  proof -
    obtain r c where rc: "read_config (short_run a) = (r, c)" by fastforce
    have same: "read_config (short_run a) = read_config (short_run Join_zero)"
      by (simp add: read_config_def short_run_def)
    have "fst (read_config (short_run Join_zero)) = 0 \<and> host_count (snd (read_config (short_run Join_zero))) = 1 \<and>
        listen_port (snd (read_config (short_run Join_zero))) = 80"
      by code_simp
    with rc same have c: "0 \<le> r" "0 < host_count c" "0 < listen_port c" by simp_all
    have works: "all_works (short_run a)" by (simp add: all_works_def short_run_def)
    have first: "en_first (short_run a)" "en_turns (short_run a) = []" "en_queues (short_run a) POOL_READ = queue_new"
      "await_empty (pe_counts (en_ends (short_run a) POOL_READ)) = Some ()"
      "pe_first (en_ends (short_run a) POOL_READ) = Join_zero" "pe_second (en_ends (short_run a) POOL_READ) = a"
      by (simp_all add: short_run_def)
    then obtain st where st: "signalled_loop (en_turns (short_run a)) (started_loop (en_first (short_run a))) = Some (Inr st)"
      by (simp add: signalled_loop_def signalled_turns.simps started_loop_def)
    from queue_rep_new have rep: "queue_rep (en_queues (short_run a) POOL_READ) [] []" by (simp add: first)
    from main_ends_at_second_join [OF rc c works st first(4) rep first(5)] that first(6) show ?thesis by simp
  qed
  show ?thesis by (simp add: run)
qed

end
