(* ===== verification/Messages.thy ===== *)
theory Messages
  imports Log
begin

text \<open>
  \<open>fatal\<close>, \<open>warning\<close> and \<open>info\<close> of \<open>src/util.c\<close> over the register of \<open>Log\<close>, and the thread of
  a log (\<open>log_loop\<close> of \<open>src/log.c\<close>) that prints what comes through the pipe. The text is what
  \<open>vsnprintf\<close> makes of the format and its arguments; the three functions then hand it to \<open>LOG\<close>
  as a format of its own, without arguments: \<open>format0\<close>.
\<close>

section \<open>A format without arguments\<close>

text \<open>A conversion reads an argument that was not passed; \<open>%%\<close> is a percent sign.\<close>

fun format0 :: "string \<Rightarrow> string res" where
  "format0 [] = Inr []"
| "format0 [c] = (if c = CHR ''%'' then Inl Out_of_bounds else Inr [c])"
| "format0 (c # d # s) =
     (if c \<noteq> CHR ''%'' then bind_res (format0 (d # s)) (\<lambda>t. Inr (c # t))
      else if d = CHR ''%'' then bind_res (format0 s) (\<lambda>t. Inr (CHR ''%'' # t))
      else Inl Out_of_bounds)"

definition LOG :: "log_level \<Rightarrow> string \<Rightarrow> log_state \<Rightarrow> log_state res" where
  "LOG level fmt s = bind_res (format0 fmt) (\<lambda>m. Inr (log_register_write level m s))"

section \<open>\<open>fatal\<close>, \<open>warning\<close>, \<open>info\<close>\<close>

definition dec_int :: "int \<Rightarrow> string" where
  "dec_int i = (if i < 0 then CHR ''-'' # dec (nat (- i)) else dec (nat i))"

text \<open>\<open>strerror\<close> is what \<open>strerror_r\<close> gives for a number.\<close>

definition errno_text :: "(int \<Rightarrow> string) \<Rightarrow> int \<Rightarrow> string" where
  "errno_text strerror e = (if strerror e = [] then ''Code('' @ dec_int e @ '')'' else strerror e)"

definition cut_message :: "string \<Rightarrow> string" where
  "cut_message formatted = take (LOG_LENGTH - 1) formatted"

definition errno_message :: "(int \<Rightarrow> string) \<Rightarrow> int \<Rightarrow> string \<Rightarrow> string" where
  "errno_message strerror e formatted = cut_message formatted @ '': '' @ errno_text strerror e"

definition EXIT_FAILURE :: int where
  "EXIT_FAILURE = 1"

text \<open>The exit code of the program, and the logs, stopped once their threads have printed the rest.\<close>

definition fatal :: "(int \<Rightarrow> string) \<Rightarrow> int \<Rightarrow> string \<Rightarrow> log_state \<Rightarrow> (int \<times> log_state) res" where
  "fatal strerror e formatted s =
     bind_res (LOG LFATAL (if e \<noteq> 0 then errno_message strerror e formatted else cut_message formatted) s) (\<lambda>s.
       Inr (EXIT_FAILURE, log_register_clear s))"

definition warning :: "(int \<Rightarrow> string) \<Rightarrow> int \<Rightarrow> bool \<Rightarrow> string \<Rightarrow> log_state \<Rightarrow> log_state res" where
  "warning strerror e use_errno formatted s =
     LOG LWARNING (if use_errno then errno_message strerror e formatted else cut_message formatted) s"

definition info :: "string \<Rightarrow> log_state \<Rightarrow> log_state res" where
  "info formatted s = LOG LINFO (cut_message formatted) s"

section \<open>The thread of a log\<close>

text \<open>
  What a \<open>read\<close> of the pipe gives: a message, or nothing, with the text of \<open>errno\<close>. The time is
  \<open>None\<close> when \<open>strftime\<close> has no room for it.
\<close>

datatype pipe_read = Pipe_msg log_level string | Pipe_nothing string

definition log_line :: "string option \<Rightarrow> log_level \<Rightarrow> string \<Rightarrow> string" where
  "log_line time level msg =
     ''['' @ (case time of None \<Rightarrow> ''N/A'' | Some t \<Rightarrow> t) @ '']['' @ log_level_name level @ ''] '' @ msg @ [LF]"

text \<open>
  The log when its thread ends, what it printed and what went to the standard error; \<open>None\<close>
  while it waits in \<open>read\<close>.
\<close>

fun log_loop :: "(pipe_read \<times> string option) list \<Rightarrow> logger \<Rightarrow> (logger \<times> string \<times> string) option" where
  "log_loop [] l = None"
| "log_loop ((Pipe_nothing err, _) # _) l =
     Some (if \<not> lg_running l then (l, [], [])
           else (log_stop l, [], ''log['' @ lg_name l @ ''] read failed: '' @ err @ ''. logger aborted'' @ [LF]))"
| "log_loop ((Pipe_msg level msg, time) # rest) l =
     (case log_loop rest l of
        None \<Rightarrow> None
      | Some (l', out, err) \<Rightarrow> Some (l', log_line time level msg @ out, err))"

section \<open>What holds of them\<close>

lemma format0_plain: "CHR ''%'' \<notin> set m \<Longrightarrow> format0 m = Inr m"
  by (induction m rule: format0.induct) auto

lemma format0_shorter: "format0 m = Inr t \<Longrightarrow> length t \<le> length m"
  by (induction m arbitrary: t rule: format0.induct)
    (auto simp: bind_res_eq_Inr split: if_splits intro: le_SucI)

text \<open>A percent sign in a text that was formatted already is read as a conversion.\<close>

lemma format0_percent: "CHR ''%'' \<notin> set a \<Longrightarrow> c \<noteq> CHR ''%'' \<Longrightarrow> format0 (a @ CHR ''%'' # c # b) = Inl Out_of_bounds"
proof (induction a)
  case Nil
  then show ?case by simp
next
  case (Cons x a)
  then show ?case by (cases a) auto
qed

text \<open>Without one, a warning is the message and the text of the error, cut to the length of a message.\<close>

lemma warning_text:
  assumes "CHR ''%'' \<notin> set formatted" and "CHR ''%'' \<notin> set (errno_text strerror e)"
  shows "warning strerror e True formatted s =
    Inr (log_register_write LWARNING (take (LOG_LENGTH - 1) formatted @ '': '' @ errno_text strerror e) s)"
proof -
  have "CHR ''%'' \<notin> set (errno_message strerror e formatted)"
    using assms by (auto simp: errno_message_def cut_message_def dest: in_set_takeD)
  from format0_plain [OF this] show ?thesis
    by (simp add: warning_def LOG_def) (simp add: errno_message_def cut_message_def)
qed

text \<open>\<open>fatal\<close> leaves no log registered and no thread of one running.\<close>

lemma fatal_clears:
  assumes "fatal strerror e formatted s = Inr (code, s')"
  shows "code = EXIT_FAILURE \<and> ls_register s' = [] \<and>
    (\<forall>d \<in> set (ls_register s). \<not> lg_running (ls_logs s' (le_log d)))"
proof -
  have w: "ls_register (log_write l level m t) = ls_register t" for l level m t
    by (simp add: log_write_def split: option.split)
  have e: "ls_register (snd (write_entries level m es n t)) = ls_register t" for level m es n t
    by (induction es arbitrary: n t) (simp_all add: w)
  have "ls_register (log_register_write level m t) = ls_register t" for level m t
    using e [of level "take (LOG_LENGTH - 1) m" "ls_register t" 0 t]
    by (auto simp: log_register_write_def Let_def w split: prod.split)
  with assms show ?thesis
    by (auto simp: fatal_def LOG_def bind_res_eq_Inr log_register_clear_def log_stop_def)
qed

text \<open>The thread prints every message the pipe got before the log was stopped, in order, and ends.\<close>

lemma log_loop_prints:
  "log_loop (map (\<lambda>(t, level, msg). (Pipe_msg level msg, t)) msgs @ (Pipe_nothing err, t0) # rest) (log_stop l) =
     Some (log_stop l, concat (map (\<lambda>(t, level, msg). log_line t level msg) msgs), [])"
  by (induction msgs) (auto simp: log_stop_def)

text \<open>A read that fails while the log runs ends its thread: what comes later is not printed.\<close>

lemma log_loop_aborts:
  "lg_running l \<Longrightarrow> log_loop ((Pipe_nothing err, t) # rest) l =
     Some (log_stop l, [], ''log['' @ lg_name l @ ''] read failed: '' @ err @ ''. logger aborted'' @ [LF])"
  by simp

end
