(* ===== verification/Utarray.thy ===== *)
theory Utarray
  imports Http_Headers
begin

text \<open>
  The array of \<open>lib/ut/utarray.h\<close> as it is in memory: \<open>ua_n\<close> slots, of which the first \<open>ua_i\<close>
  are used, both \<open>unsigned\<close>. A slot is \<open>None\<close> until something is copied into it. An element
  pointer is the number of its slot. On it the functions of \<open>src/http.c\<close> for lists of headers,
  which \<open>Http_Headers\<close> has on sequences: \<open>ua_rep\<close> ties the two and every operation respects it.
\<close>

section \<open>The array\<close>

record 'a ut_array =
  ua_i :: "32 word"
  ua_n :: "32 word"
  ua_d :: "'a option list"

definition ua_init :: "'a ut_array" where
  "ua_init = \<lparr>ua_i = 0, ua_n = 0, ua_d = []\<rparr>"

text \<open>\<open>while ((i + by) > n) n = n ? 2 * n : 8\<close>, which wraps.\<close>

partial_function (option) ua_grow :: "32 word \<Rightarrow> 32 word \<Rightarrow> 32 word option" where
  "ua_grow need n = (if need > n then ua_grow need (if n \<noteq> 0 then 2 * n else 8) else Some n)"

definition ua_realloc :: "32 word \<Rightarrow> 'a option list \<Rightarrow> 'a option list" where
  "ua_realloc n d = take (unat n) d @ replicate (unat n - length d) None"

definition ua_reserve :: "'a ut_array \<Rightarrow> 32 word \<Rightarrow> 'a ut_array option" where
  "ua_reserve a by =
     (if ua_i a + by > ua_n a
      then do { n \<leftarrow> ua_grow (ua_i a + by) (ua_n a); Some (a\<lparr>ua_n := n, ua_d := ua_realloc n (ua_d a)\<rparr>) }
      else Some a)"

definition ua_copy :: "'a ut_array \<Rightarrow> nat \<Rightarrow> 'a \<Rightarrow> 'a ut_array res" where
  "ua_copy a j e = (if j < length (ua_d a) then Inr (a\<lparr>ua_d := (ua_d a)[j := Some e]\<rparr>) else Inl Out_of_bounds)"

definition ua_push_back :: "'a ut_array \<Rightarrow> 'a \<Rightarrow> 'a ut_array res option" where
  "ua_push_back a e =
     do { a \<leftarrow> ua_reserve a 1;
          Some (bind_res (ua_copy a (unat (ua_i a)) e) (\<lambda>a. Inr (a\<lparr>ua_i := ua_i a + 1\<rparr>))) }"

definition ua_eltptr :: "'a ut_array \<Rightarrow> nat \<Rightarrow> nat option" where
  "ua_eltptr a j = (if j < unat (ua_i a) then Some j else None)"

definition memmove :: "'b list \<Rightarrow> nat \<Rightarrow> nat \<Rightarrow> nat \<Rightarrow> 'b list res" where
  "memmove d dst src n =
     (if dst + n \<le> length d \<and> src + n \<le> length d
      then Inr (take dst d @ take n (drop src d) @ drop (dst + n) d) else Inl Out_of_bounds)"

text \<open>The destructor of the headers reads the element: a null pointer past the last one.\<close>

definition ua_erase :: "'a ut_array \<Rightarrow> nat \<Rightarrow> nat \<Rightarrow> 'a ut_array res" where
  "ua_erase a pos len =
     (if \<exists>k \<in> {..<len}. ua_eltptr a (pos + k) = None then Inl Null_deref
      else
        bind_res (if unat (ua_i a) > pos + len
                  then memmove (ua_d a) pos (pos + len) (unat (ua_i a) - (pos + len)) else Inr (ua_d a)) (\<lambda>d.
          Inr (a\<lparr>ua_d := d, ua_i := ua_i a - of_nat len\<rparr>)))"

definition ua_front :: "'a ut_array \<Rightarrow> nat option" where
  "ua_front a = (if ua_i a \<noteq> 0 then Some 0 else None)"

definition ua_next :: "'a ut_array \<Rightarrow> nat option \<Rightarrow> nat option" where
  "ua_next a e =
     (case e of None \<Rightarrow> ua_front a | Some k \<Rightarrow> if unat (ua_i a) > k + 1 then Some (k + 1) else None)"

text \<open>What is behind an element pointer.\<close>

definition ua_deref :: "'a ut_array \<Rightarrow> nat \<Rightarrow> 'a res" where
  "ua_deref a k =
     (if k < length (ua_d a) then (case ua_d a ! k of None \<Rightarrow> Inl Out_of_bounds | Some e \<Rightarrow> Inr e) else Inl Out_of_bounds)"

text \<open>\<open>utarray_done\<close>: the destructor of every element, then the slots.\<close>

definition ua_done :: "'a ut_array \<Rightarrow> 'a ut_array res" where
  "ua_done a =
     (if ua_n a \<noteq> 0 \<and> (\<exists>k \<in> {..<unat (ua_i a)}. ua_eltptr a k = None) then Inl Null_deref
      else Inr (a\<lparr>ua_n := 0, ua_d := []\<rparr>))"

section \<open>The list of headers on it\<close>

text \<open>\<open>HTTP_HEADER_FOREACH\<close> is \<open>utarray_next\<close> from the null pointer on.\<close>

partial_function (option) list_get_loop ::
  "http_header ut_array \<Rightarrow> string \<Rightarrow> nat option \<Rightarrow> nat option res option" where
  "list_get_loop a name e =
     (case e of
        None \<Rightarrow> Some (Inr None)
      | Some k \<Rightarrow>
          (case ua_deref a k of
             Inl er \<Rightarrow> Some (Inl er)
           | Inr h \<Rightarrow> if h_name h = name then Some (Inr (Some k)) else list_get_loop a name (ua_next a (Some k))))"

definition list_get :: "http_header ut_array \<Rightarrow> string \<Rightarrow> nat option res option" where
  "list_get a name = (if name = [] then Some (Inr None) else list_get_loop a name (ua_next a None))"

partial_function (option) list_getall_loop ::
  "http_header ut_array \<Rightarrow> string \<Rightarrow> nat option \<Rightarrow> nat list \<Rightarrow> nat list res option" where
  "list_getall_loop a name e found =
     (case e of
        None \<Rightarrow> Some (Inr found)
      | Some k \<Rightarrow>
          (case ua_deref a k of
             Inl er \<Rightarrow> Some (Inl er)
           | Inr h \<Rightarrow>
               list_getall_loop a name (ua_next a (Some k)) (if h_name h = name then found @ [k] else found)))"

definition list_getall :: "http_header ut_array \<Rightarrow> string \<Rightarrow> nat list res option" where
  "list_getall a name = list_getall_loop a name (ua_next a None) []"

fun erase_positions :: "http_header ut_array \<Rightarrow> nat list \<Rightarrow> http_header ut_array res" where
  "erase_positions a [] = Inr a"
| "erase_positions a (p # ps) = bind_res (ua_erase a p 1) (\<lambda>a. erase_positions a ps)"

definition list_remove :: "http_header ut_array \<Rightarrow> string \<Rightarrow> http_header ut_array res option" where
  "list_remove a name = do { r \<leftarrow> list_getall a name; Some (bind_res r (\<lambda>ps. erase_positions a ps)) }"

definition list_add :: "http_header ut_array \<Rightarrow> http_header \<Rightarrow> bool \<Rightarrow> http_header ut_array res option" where
  "list_add a h replace =
     do { r \<leftarrow> (if replace then list_remove a (h_name h) else Some (Inr a));
          case r of Inl e \<Rightarrow> Some (Inl e) | Inr a \<Rightarrow> ua_push_back a h }"

section \<open>The sequence it represents\<close>

definition ua_rep :: "'a ut_array \<Rightarrow> 'a list \<Rightarrow> bool" where
  "ua_rep a xs \<longleftrightarrow> unat (ua_i a) = length xs \<and> length (ua_d a) = unat (ua_n a) \<and>
     length xs \<le> unat (ua_n a) \<and> take (length xs) (ua_d a) = map Some xs"

lemma ua_rep_init: "ua_rep ua_init []"
  by (simp add: ua_rep_def ua_init_def)

lemma ua_rep_nth:
  assumes "ua_rep a xs" and "k < length xs"
  shows "k < length (ua_d a)" and "ua_d a ! k = Some (xs ! k)"
proof -
  from assms show "k < length (ua_d a)" by (simp add: ua_rep_def)
  from assms have "take (length xs) (ua_d a) ! k = map Some xs ! k" by (simp add: ua_rep_def)
  with assms(2) show "ua_d a ! k = Some (xs ! k)" by simp
qed

lemma ua_deref_rep: "ua_rep a xs \<Longrightarrow> k < length xs \<Longrightarrow> ua_deref a k = Inr (xs ! k)"
  using ua_rep_nth [of a xs k] by (simp add: ua_deref_def)

lemma ua_next_rep:
  assumes "ua_rep a xs"
  shows "ua_next a None = (if xs = [] then None else Some 0)"
    and "ua_next a (Some k) = (if Suc k < length xs then Some (Suc k) else None)"
  using assms by (auto simp: ua_next_def ua_front_def ua_rep_def unat_eq_zero)

subsection \<open>Growing\<close>

text \<open>Doubling reaches what is needed as long as that is at most half of the range.\<close>

lemma ua_grow_ends:
  assumes "unat need \<le> 2 ^ 31"
  shows "\<exists>m. ua_grow need n = Some m \<and> need \<le> m \<and> n \<le> m"
proof (induction "unat need - unat n" arbitrary: n rule: less_induct)
  case less
  show ?case
  proof (cases "need > n")
    case False
    then show ?thesis by (simp add: ua_grow.simps [of need n])
  next
    case True
    let ?m = "if n \<noteq> 0 then 2 * n else 8 :: 32 word"
    have n: "unat n < 2 ^ 31" using True assms by (simp add: word_less_nat_alt)
    have m: "unat ?m = (if n \<noteq> 0 then 2 * unat n else 8)"
    proof (cases "n = 0")
      case False
      have "unat (2 :: 32 word) * unat n < 2 ^ LENGTH(32)" using n by simp
      then have "unat (2 * n) = 2 * unat n" by (subst (asm) unat_mult_lem) simp
      with False show ?thesis by simp
    qed simp
    have up: "unat n < unat ?m" using m by (auto simp: unat_gt_0)
    moreover have "unat n < unat need" using True by (simp add: word_less_nat_alt)
    ultimately have "unat need - unat ?m < unat need - unat n" by linarith
    from less.hyps [OF this] obtain k where k: "ua_grow need ?m = Some k" "need \<le> k" "?m \<le> k" by blast
    from up k(3) have "n \<le> k" by (simp add: word_le_nat_alt)
    with k True show ?thesis by (simp add: ua_grow.simps [of need n])
  qed
qed

text \<open>
  Past half of the range it never ends: from 0 and 8 on the doubling gives powers of two, and
  after the largest comes 0 again.
\<close>

definition ua_sizes :: "32 word set" where
  "ua_sizes = {0, 2 ^ 3, 2 ^ 4, 2 ^ 5, 2 ^ 6, 2 ^ 7, 2 ^ 8, 2 ^ 9, 2 ^ 10, 2 ^ 11, 2 ^ 12, 2 ^ 13, 2 ^ 14, 2 ^ 15, 2 ^ 16,
     2 ^ 17, 2 ^ 18, 2 ^ 19, 2 ^ 20, 2 ^ 21, 2 ^ 22, 2 ^ 23, 2 ^ 24, 2 ^ 25, 2 ^ 26, 2 ^ 27, 2 ^ 28, 2 ^ 29, 2 ^ 30, 2 ^ 31}"

lemma ua_sizes_next: "n \<in> ua_sizes \<Longrightarrow> (if n \<noteq> 0 then 2 * n else 8) \<in> ua_sizes"
  by (auto simp: ua_sizes_def)

lemma ua_sizes_small: "n \<in> ua_sizes \<Longrightarrow> n \<le> 2 ^ 31"
  by (auto simp: ua_sizes_def)

lemma ua_grow_never:
  assumes "n \<in> ua_sizes" and "need > 2 ^ 31"
  shows "ua_grow need n = None"
proof -
  let ?P = "\<lambda>need (n :: 32 word) (m :: 32 word). 2 ^ 31 < need \<longrightarrow> n \<notin> ua_sizes"
  have "?P need n m" if "ua_grow need n = Some m" for m
  proof (rule ua_grow.raw_induct [where P = ?P, OF _ that], intro impI notI)
    fix f need n m
    assume ih: "\<And>need n m. f need n = Some m \<Longrightarrow> ?P need n m"
      and run: "(if need > n then f need (if n \<noteq> 0 then 2 * n else 8) else Some n) = Some m"
      and big: "2 ^ 31 < need" and n: "n \<in> ua_sizes"
    from ua_sizes_small [OF n] big have "need > n" by (rule order_le_less_trans)
    with run have "f need (if n \<noteq> 0 then 2 * n else 8) = Some m" by simp
    from ih [OF this] big ua_sizes_next [OF n] show False by blast
  qed
  with assms show ?thesis by (cases "ua_grow need n") auto
qed

lemma ua_reserve_rep:
  assumes "ua_rep a xs" and "length xs + unat by \<le> 2 ^ 31"
  shows "\<exists>a'. ua_reserve a by = Some a' \<and> ua_rep a' xs \<and> length xs + unat by \<le> length (ua_d a')"
proof -
  from assms have i: "unat (ua_i a) = length xs" "length (ua_d a) = unat (ua_n a)" "length xs \<le> unat (ua_n a)"
    "take (length xs) (ua_d a) = map Some xs" by (simp_all add: ua_rep_def)
  have "unat (ua_i a) + unat by < 2 ^ LENGTH(32)" using i(1) assms(2) by simp
  then have need: "unat (ua_i a + by) = length xs + unat by"
    using i(1) by (subst (asm) unat_add_lem) simp
  show ?thesis
  proof (cases "ua_i a + by > ua_n a")
    case False
    then have "length xs + unat by \<le> unat (ua_n a)" using need by (simp add: word_less_nat_alt)
    with False assms(1) i(2) show ?thesis by (simp add: ua_reserve_def)
  next
    case True
    from need assms(2) have "unat (ua_i a + by) \<le> 2 ^ 31" by simp
    from ua_grow_ends [OF this, of "ua_n a"] obtain m where
      m: "ua_grow (ua_i a + by) (ua_n a) = Some m" "ua_i a + by \<le> m" "ua_n a \<le> m" by blast
    let ?a = "a\<lparr>ua_n := m, ua_d := ua_realloc m (ua_d a)\<rparr>"
    from m(2,3) need have le: "length xs + unat by \<le> unat m" "unat (ua_n a) \<le> unat m"
      by (simp_all add: word_le_nat_alt)
    then have "ua_d ?a = ua_d a @ replicate (unat m - unat (ua_n a)) None"
      by (simp add: ua_realloc_def i(2))
    then have "ua_rep ?a xs" "length xs + unat by \<le> length (ua_d ?a)"
      using i le by (simp_all add: ua_rep_def)
    with m(1) True show ?thesis by (simp add: ua_reserve_def)
  qed
qed

lemma ua_push_back_rep:
  assumes "ua_rep a xs" and "length xs < 2 ^ 31"
  shows "\<exists>a'. ua_push_back a e = Some (Inr a') \<and> ua_rep a' (utarray_push_back xs e)"
proof -
  from ua_reserve_rep [OF assms(1), of 1] assms(2) obtain b where
    b: "ua_reserve a 1 = Some b" "ua_rep b xs" "length xs < length (ua_d b)" by auto
  let ?b = "b\<lparr>ua_d := (ua_d b)[length xs := Some e], ua_i := ua_i b + 1\<rparr>"
  from b(2) have i: "unat (ua_i b) = length xs" by (simp add: ua_rep_def)
  have "unat (ua_i b) + unat (1 :: 32 word) < 2 ^ LENGTH(32)" using i assms(2) by simp
  then have one: "unat (ua_i b + 1) = Suc (length xs)" using i by (subst (asm) unat_add_lem) simp
  have "take (Suc (length xs)) ((ua_d b)[length xs := Some e]) = map Some (xs @ [e])"
    using b(2,3) by (simp add: ua_rep_def take_Suc_conv_app_nth)
  with b one have "ua_rep ?b (xs @ [e])" by (simp add: ua_rep_def)
  moreover have "ua_push_back a e = Some (Inr ?b)"
    using b i by (simp add: ua_push_back_def ua_copy_def)
  ultimately show ?thesis by (simp add: utarray_push_back_def)
qed

text \<open>With 2^31 elements in as many slots, one more is never added.\<close>

lemma ua_push_back_full:
  assumes "ua_i a = 2 ^ 31" and "ua_n a = 2 ^ 31"
  shows "ua_push_back a e = None"
proof -
  have "ua_grow (2 ^ 31 + 1) (2 ^ 31) = None" by (rule ua_grow_never) (simp_all add: ua_sizes_def)
  with assms show ?thesis by (simp add: ua_push_back_def ua_reserve_def)
qed

subsection \<open>Erasing\<close>

lemma take_first: "length u = n \<Longrightarrow> take n (u @ v) = u"
  by simp

lemma ua_erase_rep:
  assumes "ua_rep a xs"
  shows "case utarray_erase xs pos of
      Inl e \<Rightarrow> ua_erase a pos 1 = Inl e
    | Inr ys \<Rightarrow> (\<exists>a'. ua_erase a pos 1 = Inr a' \<and> ua_rep a' ys)"
proof (cases "pos < length xs")
  case False
  with assms have "ua_eltptr a pos = None" by (simp add: ua_eltptr_def ua_rep_def)
  with False show ?thesis by (simp add: utarray_erase_def ua_erase_def)
next
  case True
  let ?n = "length xs" and ?d = "ua_d a"
  from assms have i: "unat (ua_i a) = ?n" "length ?d = unat (ua_n a)" "?n \<le> unat (ua_n a)"
    "take ?n ?d = map Some xs" by (simp_all add: ua_rep_def)
  let ?d' = "if Suc pos < ?n then take pos ?d @ take (?n - Suc pos) (drop (Suc pos) ?d) @ drop (?n - 1) ?d else ?d"
  have "1 \<le> ua_i a" using True i(1) by (simp add: word_le_nat_alt)
  then have one: "unat (ua_i a - 1) = ?n - 1" using i(1) by (simp add: unat_sub)
  have erase: "ua_erase a pos 1 = Inr (a\<lparr>ua_d := ?d', ua_i := ua_i a - 1\<rparr>)"
  proof (cases "Suc pos < ?n")
    case True
    then have "pos + (?n - Suc pos) = ?n - 1" "Suc pos + (?n - Suc pos) = ?n" by simp_all
    with True i show ?thesis by (simp add: ua_erase_def ua_eltptr_def memmove_def lessThan_Suc)
  next
    case False
    with \<open>pos < ?n\<close> i(1) show ?thesis by (simp add: ua_erase_def ua_eltptr_def lessThan_Suc)
  qed
  have tk: "take pos ?d = map Some (take pos xs)" "take (?n - Suc pos) (drop (Suc pos) ?d) = map Some (drop (Suc pos) xs)"
  proof -
    have "take pos (take ?n ?d) = take pos (map Some xs)" by (simp only: i(4))
    then show "take pos ?d = map Some (take pos xs)" using True by (simp add: take_map min_def)
    have "drop (Suc pos) (take ?n ?d) = drop (Suc pos) (map Some xs)" by (simp only: i(4))
    then show "take (?n - Suc pos) (drop (Suc pos) ?d) = map Some (drop (Suc pos) xs)"
      by (simp add: drop_take drop_map)
  qed
  have "take (?n - 1) ?d' = map Some (take pos xs @ drop (Suc pos) xs)"
  proof (cases "Suc pos < ?n")
    case True
    then have "length (take pos ?d @ take (?n - Suc pos) (drop (Suc pos) ?d)) = ?n - 1"
      using i(2,3) by simp
    then have "take (?n - 1) ((take pos ?d @ take (?n - Suc pos) (drop (Suc pos) ?d)) @ drop (?n - 1) ?d) =
        take pos ?d @ take (?n - Suc pos) (drop (Suc pos) ?d)"
      by (rule take_first)
    with True tk show ?thesis by simp
  next
    case False
    with \<open>pos < ?n\<close> have "pos = ?n - 1" "drop (Suc pos) xs = []" by simp_all
    with False tk(1) show ?thesis by simp
  qed
  moreover have "length ?d' = length ?d" using True i(2,3) by simp
  ultimately have "ua_rep (a\<lparr>ua_d := ?d', ua_i := ua_i a - 1\<rparr>) (take pos xs @ drop (Suc pos) xs)"
    using True i one by (simp add: ua_rep_def)
  with True erase show ?thesis by (simp add: utarray_erase_def)
qed

subsection \<open>The functions of the list\<close>


text \<open>A walk from a slot on; \<open>at k\<close> is the element pointer, null at the end.\<close>

abbreviation slot_at :: "'a list \<Rightarrow> nat \<Rightarrow> nat option" where
  "slot_at xs k \<equiv> (if k < length xs then Some k else None)"

lemma ua_next_slot:
  assumes "ua_rep a xs"
  shows "ua_next a None = slot_at xs 0" and "ua_next a (Some k) = slot_at xs (Suc k)"
  using ua_next_rep [OF assms] by auto

lemma getall_from_drop:
  "k < length l \<Longrightarrow> getall_from k (drop k l) name =
     (if h_name (l ! k) = name then [k] else []) @ getall_from (Suc k) (drop (Suc k) l) name"
  by (simp add: Cons_nth_drop_Suc [symmetric])

lemma list_getall_loop_rep:
  assumes "ua_rep a l"
  shows "list_getall_loop a name (slot_at l k) found = Some (Inr (found @ getall_from k (drop k l) name))"
proof (induction "length l - k" arbitrary: k found)
  case 0
  then show ?case by (simp add: list_getall_loop.simps [of a name None])
next
  case (Suc n)
  then have k: "k < length l" and n: "n = length l - Suc k" by simp_all
  show ?case
    using Suc.hyps(1) [OF n, of "if h_name (l ! k) = name then found @ [k] else found"] k
    by (simp add: list_getall_loop.simps [of a name "Some k"] ua_deref_rep [OF assms k]
        ua_next_slot(2) [OF assms] getall_from_drop)
qed

lemma list_getall_rep:
  "ua_rep a l \<Longrightarrow> list_getall a name = Some (Inr (http_header_list_getall l name))"
  by (simp add: list_getall_def ua_next_slot(1) list_getall_loop_rep [where k = 0 and found = "[]", simplified]
      http_header_list_getall_def del: One_nat_def)

lemma list_get_loop_rep:
  assumes "ua_rep a l"
  shows "\<exists>r. list_get_loop a name (slot_at l k) = Some (Inr r) \<and>
    map_option (\<lambda>j. l ! j) r = find (\<lambda>h. h_name h = name) (drop k l)"
proof (induction "length l - k" arbitrary: k)
  case 0
  then show ?case by (simp add: list_get_loop.simps [of a name None])
next
  case (Suc n)
  then have k: "k < length l" and n: "n = length l - Suc k" by simp_all
  show ?case
    using Suc.hyps(1) [OF n] k
    by (simp add: list_get_loop.simps [of a name "Some k"] ua_deref_rep [OF assms k]
        ua_next_slot(2) [OF assms] Cons_nth_drop_Suc [OF k, symmetric])
qed

lemma list_get_rep:
  assumes "ua_rep a l"
  shows "\<exists>r. list_get a name = Some (Inr r) \<and> map_option (\<lambda>j. l ! j) r = http_header_list_get l name"
  using list_get_loop_rep [OF assms, of name 0]
  by (auto simp: list_get_def http_header_list_get_def ua_next_slot(1) [OF assms])

text \<open>The two results agree: the same fault, or an array that represents the sequence.\<close>

definition agrees :: "'a ut_array res \<Rightarrow> 'a list res \<Rightarrow> bool" where
  "agrees r s = (case s of Inl e \<Rightarrow> r = Inl e | Inr xs \<Rightarrow> (\<exists>a. r = Inr a \<and> ua_rep a xs))"

lemma erase_positions_rep: "ua_rep a l \<Longrightarrow> agrees (erase_positions a ps) (remove_positions l ps)"
proof (induction ps arbitrary: a l)
  case Nil
  then show ?case by (simp add: agrees_def)
next
  case (Cons p ps)
  show ?case
  proof (cases "utarray_erase l p")
    case (Inl e)
    with ua_erase_rep [OF Cons.prems, of p] show ?thesis by (simp add: agrees_def)
  next
    case (Inr l')
    with ua_erase_rep [OF Cons.prems, of p] obtain a' where "ua_erase a p 1 = Inr a'" "ua_rep a' l'" by auto
    with Cons.IH [of a' l'] Inr show ?thesis by simp
  qed
qed

lemma list_remove_rep:
  assumes "ua_rep a l"
  shows "\<exists>r. list_remove a name = Some r \<and> agrees r (http_header_list_remove l name)"
  using erase_positions_rep [OF assms]
  by (simp add: list_remove_def list_getall_rep [OF assms] http_header_list_remove_def)

lemma remove_positions_length: "remove_positions l ps = Inr l' \<Longrightarrow> length l' \<le> length l"
proof (induction ps arbitrary: l)
  case (Cons p ps)
  then obtain m where m: "utarray_erase l p = Inr m" "remove_positions m ps = Inr l'"
    by (auto simp: bind_res_eq_Inr)
  then have "length m \<le> length l" by (auto simp: utarray_erase_def split: if_splits)
  with Cons.IH [OF m(2)] show ?case by simp
qed simp

lemma header_list_add_length:
  "http_header_list_add l h replace = Inr l' \<Longrightarrow> length l' \<le> Suc (length l)"
  using remove_positions_length
  by (fastforce simp: http_header_list_add_def http_header_list_remove_def bind_res_eq_Inr utarray_push_back_def
      split: if_splits)

lemma list_add_rep:
  assumes "ua_rep a l" and "length l < 2 ^ 31"
  shows "\<exists>r. list_add a h replace = Some r \<and> agrees r (http_header_list_add l h replace)"
proof (cases replace)
  case False
  with ua_push_back_rep [OF assms, of h] show ?thesis
    by (auto simp: list_add_def http_header_list_add_def agrees_def)
next
  case True
  obtain r where r: "list_remove a (h_name h) = Some r" "agrees r (http_header_list_remove l (h_name h))"
    using list_remove_rep [OF assms(1)] by blast
  show ?thesis
  proof (cases "http_header_list_remove l (h_name h)")
    case (Inl e)
    with r True show ?thesis by (simp add: list_add_def http_header_list_add_def agrees_def)
  next
    case (Inr l')
    with r(2) obtain b where b: "r = Inr b" "ua_rep b l'" by (auto simp: agrees_def)
    have "length l' < 2 ^ 31"
      using remove_positions_length Inr assms(2) by (fastforce simp: http_header_list_remove_def)
    from ua_push_back_rep [OF b(2) this, of h] r(1) b(1) Inr True show ?thesis
      by (auto simp: list_add_def http_header_list_add_def agrees_def)
  qed
qed

text \<open>
  The list of headers of the code, an array with its slots, its growth and its moves,
  does what the sequence of headers does that the rest of the model works on, faults
  included, as long as there are fewer than 2^31 headers; beyond that the doubling of the
  number of slots wraps and \<open>utarray_push_back\<close> never returns.
\<close>

theorem header_array_refines:
  assumes "ua_rep a l" and "length l < 2 ^ 31" and "ua_i full = 2 ^ 31" and "ua_n full = 2 ^ 31"
  shows "(\<exists>r. list_add a h replace = Some r \<and> agrees r (http_header_list_add l h replace)) \<and>
    (\<exists>r. list_get a name = Some (Inr r) \<and> map_option (\<lambda>j. l ! j) r = http_header_list_get l name) \<and>
    list_add full h False = None"
  using list_add_rep [OF assms(1,2)] list_get_rep [OF assms(1)] ua_push_back_full [OF assms(3,4)]
  by (simp add: list_add_def)

definition full_array :: "http_header ut_array" where
  "full_array = \<lparr>ua_i = 2 ^ 31, ua_n = 2 ^ 31, ua_d = []\<rparr>"

theorem header_array_refines_witness:
  "\<exists>r. list_add ua_init (http_header_new ''Host'' (Some ''a'')) True = Some r \<and>
    agrees r (Inr [http_header_new ''Host'' (Some ''a'')])"
proof -
  have "http_header_list_add [] (http_header_new ''Host'' (Some ''a'')) True = Inr [http_header_new ''Host'' (Some ''a'')]"
    by (simp add: http_header_list_add_def http_header_list_remove_def http_header_list_getall_def utarray_push_back_def)
  with header_array_refines [OF ua_rep_init, of full_array "http_header_new ''Host'' (Some ''a'')" True] show ?thesis
    by (simp add: full_array_def)
qed

end
