(* ===== verification/Utstring.thy ===== *)
theory Utstring
  imports Libc
begin

text \<open>
  The growing string of \<open>lib/ut/utstring.h\<close> as it is in memory: \<open>us_n\<close> bytes, \<open>us_i\<close> of them
  before the \<open>NUL\<close>. A byte is \<open>None\<close> until it is written. What \<open>vsnprintf\<close> formats is the text
  it is given; it answers the length of the text, or -1 when that is more than an \<open>int\<close> holds.
  Sizes are numbers: \<open>realloc\<close> ends the program long before a \<open>size_t\<close> wraps.
\<close>

section \<open>The string\<close>

record ut_string =
  us_d :: "char option list"
  us_n :: nat
  us_i :: nat

definition us_reserve :: "ut_string \<Rightarrow> nat \<Rightarrow> ut_string" where
  "us_reserve s amt =
     (if us_n s - us_i s < amt
      then s\<lparr>us_d := us_d s @ replicate (us_n s + amt - length (us_d s)) None, us_n := us_n s + amt\<rparr> else s)"

text \<open>\<open>memcpy\<close> to an offset of the bytes; out of their bounds is a fault.\<close>

definition put_bytes :: "ut_string \<Rightarrow> nat \<Rightarrow> string \<Rightarrow> ut_string res" where
  "put_bytes s at bs =
     (if at + length bs \<le> length (us_d s)
      then Inr (s\<lparr>us_d := take at (us_d s) @ map Some bs @ drop (at + length bs) (us_d s)\<rparr>) else Inl Out_of_bounds)"

definition us_init :: "ut_string res" where
  "us_init = put_bytes (us_reserve \<lparr>us_d = [], us_n = 0, us_i = 0\<rparr> 100) 0 [NUL]"

definition us_clear :: "ut_string \<Rightarrow> ut_string res" where
  "us_clear s = put_bytes (s\<lparr>us_i := 0\<rparr>) 0 [NUL]"

definition us_bincpy :: "ut_string \<Rightarrow> string \<Rightarrow> ut_string res" where
  "us_bincpy s b =
     (let s = us_reserve s (length b + 1) in
      bind_res (if b \<noteq> [] then put_bytes s (us_i s) b else Inr s) (\<lambda>s.
        let s = s\<lparr>us_i := us_i s + length b\<rparr> in put_bytes s (us_i s) [NUL]))"

text \<open>\<open>utstring_body\<close> read as a C string: up to the first \<open>NUL\<close>; none is a read out of bounds.\<close>

definition us_body :: "ut_string \<Rightarrow> string res" where
  "us_body s =
     (let t = takeWhile (\<lambda>b. b \<noteq> Some NUL \<and> b \<noteq> None) (us_d s) in
      if length t < length (us_d s) \<and> us_d s ! length t = Some NUL then Inr (map the t) else Inl Out_of_bounds)"

definition us_len :: "ut_string \<Rightarrow> nat" where
  "us_len s = us_i s mod 2 ^ 32"

definition us_concat :: "ut_string \<Rightarrow> ut_string \<Rightarrow> ut_string res" where
  "us_concat dst src =
     (let s = us_reserve dst (us_i src + 1) in
      bind_res (if us_i src \<noteq> 0 then put_bytes s (us_i s) (map the (take (us_i src) (us_d src))) else Inr s) (\<lambda>s.
        let s = s\<lparr>us_i := us_i s + us_i src\<rparr> in put_bytes s (us_i s) [NUL]))"

section \<open>Printing\<close>

definition INT_MAX :: nat where
  "INT_MAX = 2 ^ 31 - 1"

text \<open>\<open>vsnprintf(&d[i], room, ...)\<close>: as much of the text as there is room for before the \<open>NUL\<close>.\<close>

definition vsnprintf_at :: "ut_string \<Rightarrow> string \<Rightarrow> (int \<times> ut_string) res" where
  "vsnprintf_at s text =
     (let room = us_n s - us_i s in
      if length text > INT_MAX then Inr (-1, s)
      else if room = 0 then Inr (int (length text), s)
      else bind_res (put_bytes s (us_i s) (take (room - 1) text @ [NUL])) (\<lambda>s. Inr (int (length text), s)))"

text \<open>
  The loop of \<open>utstring_printf_va\<close>. For a text of \<open>INT_MAX\<close> characters without room the
  \<open>n+1\<close> of its reserve overflows the \<open>int\<close>.
\<close>

partial_function (option) us_printf :: "string \<Rightarrow> ut_string \<Rightarrow> ut_string res option" where
  "us_printf text s =
     (case vsnprintf_at s text of
        Inl e \<Rightarrow> Some (Inl e)
      | Inr (n, s) \<Rightarrow>
          if n > -1 \<and> nat n < us_n s - us_i s then Some (Inr (s\<lparr>us_i := us_i s + nat n\<rparr>))
          else if n = int INT_MAX then Some (Inl Overflow)
          else us_printf text (us_reserve s (if n > -1 then nat n + 1 else us_n s * 2)))"

section \<open>The text it holds\<close>

definition us_rep :: "ut_string \<Rightarrow> string \<Rightarrow> bool" where
  "us_rep s t \<longleftrightarrow> us_i s = length t \<and> length (us_d s) = us_n s \<and> length t < us_n s \<and>
     take (Suc (length t)) (us_d s) = map Some (t @ [NUL])"

lemma put_bytes_in:
  "at + length bs \<le> length (us_d s) \<Longrightarrow>
   put_bytes s at bs = Inr (s\<lparr>us_d := take at (us_d s) @ map Some bs @ drop (at + length bs) (us_d s)\<rparr>)"
  by (simp add: put_bytes_def)

lemma us_rep_init: "\<exists>s. us_init = Inr s \<and> us_rep s []"
  by (simp add: us_init_def us_reserve_def put_bytes_def us_rep_def)

lemma us_rep_prefix: "us_rep s t \<Longrightarrow> take (length t) (us_d s) = map Some t"
proof -
  assume rep: "us_rep s t"
  then have "take (length t) (take (Suc (length t)) (us_d s)) = take (length t) (map Some (t @ [NUL]))"
    by (simp add: us_rep_def)
  then show ?thesis by (simp add: min_def)
qed

text \<open>The same without a \<open>NUL\<close> after the text, as a call of \<open>vsnprintf\<close> without room leaves it.\<close>

definition us_pre :: "ut_string \<Rightarrow> string \<Rightarrow> bool" where
  "us_pre s t \<longleftrightarrow> us_i s = length t \<and> length (us_d s) = us_n s \<and> length t < us_n s \<and>
     take (length t) (us_d s) = map Some t"

lemma us_rep_pre: "us_rep s t \<Longrightarrow> us_pre s t"
  using us_rep_prefix by (auto simp: us_pre_def us_rep_def)

lemma us_reserve_pre:
  assumes "us_pre s t"
  shows "us_pre (us_reserve s amt) t" and "amt \<le> us_n (us_reserve s amt) - us_i (us_reserve s amt)"
  using assms by (auto simp: us_reserve_def us_pre_def)

text \<open>Text and its \<open>NUL\<close> written at the end of the text that is there.\<close>

lemma us_put:
  assumes "us_pre s t" and "length x < us_n s - us_i s"
  shows "put_bytes s (us_i s) (x @ [NUL]) =
      Inr (s\<lparr>us_d := map Some (t @ x @ [NUL]) @ drop (Suc (length t + length x)) (us_d s)\<rparr>)"
    and "us_rep (s\<lparr>us_d := map Some (t @ x @ [NUL]) @ drop (Suc (length t + length x)) (us_d s),
      us_i := length t + length x\<rparr>) (t @ x)"
  using assms by (auto simp: us_pre_def us_rep_def put_bytes_def)

lemma us_body_rep:
  assumes "us_rep s t" and "NUL \<notin> set t"
  shows "us_body s = Inr t"
proof -
  let ?k = "Suc (length t)"
  have d: "us_d s = map Some t @ Some NUL # drop ?k (us_d s)"
    using assms(1) append_take_drop_id [of ?k "us_d s"] by (simp add: us_rep_def)
  have "takeWhile (\<lambda>b. b \<noteq> Some NUL \<and> b \<noteq> None) (us_d s) = map Some t"
    by (subst d) (use assms(2) in \<open>auto simp: takeWhile_append takeWhile_eq_all_conv\<close>)
  moreover have "us_d s ! length t = Some NUL" "length t < length (us_d s)"
    by (subst d, simp add: nth_append) (use assms(1) in \<open>simp add: us_rep_def\<close>)
  ultimately show ?thesis by (simp add: us_body_def comp_def)
qed

lemma us_bincpy_rep:
  assumes "us_rep s t"
  shows "\<exists>s'. us_bincpy s x = Inr s' \<and> us_rep s' (t @ x)"
proof -
  define r where "r = us_reserve s (length x + 1)"
  have pre: "us_pre r t" and room: "length x < us_n r - us_i r"
    using us_reserve_pre [OF us_rep_pre [OF assms], of "length x + 1"] by (simp_all add: r_def)
  then have i: "us_i r = length t" "length (us_d r) = us_n r" "length t + length x < us_n r"
    "take (length t) (us_d r) = map Some t" by (auto simp: us_pre_def)
  have same: "r\<lparr>us_d := d, us_i := length t\<rparr> = r\<lparr>us_d := d\<rparr>" for d using i(1) by (cases r) simp
  have "us_bincpy s x =
      Inr (r\<lparr>us_d := map Some (t @ x @ [NUL]) @ drop (Suc (length t + length x)) (us_d r), us_i := length t + length x\<rparr>)"
    unfolding us_bincpy_def r_def [symmetric] Let_def
    using i by (cases "x = []") (simp_all add: put_bytes_def same)
  with us_put(2) [OF pre room] show ?thesis by simp
qed

text \<open>With room the first call of \<open>vsnprintf\<close> is the last, without it the second.\<close>

lemma us_printf_room:
  assumes "us_pre s t" and "length x < us_n s - us_i s" and "length x \<le> INT_MAX"
  shows "\<exists>s'. us_printf x s = Some (Inr s') \<and> us_rep s' (t @ x)"
proof -
  have i: "us_i s = length t" "us_n s - length t \<noteq> 0" using assms(1) by (auto simp: us_pre_def)
  have "take (us_n s - length t - 1) x = x" using assms(2) i by simp
  with assms(2,3) i us_put(1) [OF assms(1,2)] have
    "us_printf x s = Some (Inr (s\<lparr>us_d := map Some (t @ x @ [NUL]) @ drop (Suc (length t + length x)) (us_d s),
      us_i := length t + length x\<rparr>))"
    by (simp add: us_printf.simps [of x s] vsnprintf_at_def Let_def)
  with us_put(2) [OF assms(1,2)] show ?thesis by simp
qed

lemma us_printf_rep:
  assumes "us_rep s t" and "length x < INT_MAX"
  shows "\<exists>s'. us_printf x s = Some (Inr s') \<and> us_rep s' (t @ x)"
proof (cases "length x < us_n s - us_i s")
  case True
  from us_printf_room [OF us_rep_pre [OF assms(1)] this less_imp_le [OF assms(2)]] show ?thesis .
next
  case False
  let ?r = "us_n s - us_i s - 1"
  have pre: "us_pre s t" by (rule us_rep_pre [OF assms(1)])
  then have i: "us_i s = length t" "length (us_d s) = us_n s" "length t < us_n s" by (simp_all add: us_pre_def)
  have r: "length (take ?r x) < us_n s - us_i s" using i by simp
  let ?s = "s\<lparr>us_d := map Some (t @ take ?r x @ [NUL]) @ drop (Suc (length t + length (take ?r x))) (us_d s)\<rparr>"
  have v: "vsnprintf_at s x = Inr (int (length x), ?s)"
    using us_put(1) [OF pre r] i assms(2) by (simp add: vsnprintf_at_def Let_def)
  have "us_pre ?s t" using i False by (simp add: us_pre_def)
  from us_reserve_pre [OF this, of "length x + 1"] have
    "us_pre (us_reserve ?s (length x + 1)) t"
    "length x < us_n (us_reserve ?s (length x + 1)) - us_i (us_reserve ?s (length x + 1))" by simp_all
  from us_printf_room [OF this less_imp_le [OF assms(2)]] obtain s' where
    s': "us_printf x (us_reserve ?s (length x + 1)) = Some (Inr s')" "us_rep s' (t @ x)" by blast
  from False v s'(1) assms(2) have "us_printf x s = Some (Inr s')"
    by (simp add: us_printf.simps [of x s])
  with s'(2) show ?thesis by blast
qed

text \<open>A text of 2^31 characters or more is never printed: \<open>vsnprintf\<close> answers -1 every time.\<close>

lemma us_printf_too_long:
  assumes "length x > INT_MAX"
  shows "us_printf x s = None"
proof -
  let ?P = "\<lambda>x (s :: ut_string) (r :: ut_string res). length x \<le> INT_MAX"
  have "?P x s r" if "us_printf x s = Some r" for r
  proof (rule us_printf.raw_induct [where P = ?P, OF _ that])
    fix f x s r
    assume ih: "\<And>x s r. f x s = Some r \<Longrightarrow> ?P x s r"
      and run: "(case vsnprintf_at s x of
          Inl e \<Rightarrow> Some (Inl e)
        | Inr (n, s) \<Rightarrow>
            if n > -1 \<and> nat n < us_n s - us_i s then Some (Inr (s\<lparr>us_i := us_i s + nat n\<rparr>))
            else if n = int INT_MAX then Some (Inl Overflow)
            else f x (us_reserve s (if n > -1 then nat n + 1 else us_n s * 2))) = Some r"
    show "length x \<le> INT_MAX"
    proof (rule ccontr)
      assume "\<not> length x \<le> INT_MAX"
      then have v: "vsnprintf_at s x = Inr (-1, s)" by (simp add: vsnprintf_at_def Let_def)
      with run have "f x (us_reserve s (us_n s * 2)) = Some r" by simp
      from ih [OF this] \<open>\<not> length x \<le> INT_MAX\<close> show False by simp
    qed
  qed
  with assms show ?thesis by (cases "us_printf x s") force+
qed

section \<open>A string that takes pieces\<close>

text \<open>
  What the writers of requests, responses and chunks rely on: a piece that fits is put behind
  what is there.
\<close>

locale text_sink =
  fixes holds :: "'s \<Rightarrow> string \<Rightarrow> bool"
    and fits :: "string \<Rightarrow> bool"
    and put :: "string \<Rightarrow> 's \<Rightarrow> 's res option"
  assumes put_holds: "holds s t \<Longrightarrow> fits x \<Longrightarrow> \<exists>s'. put x s = Some (Inr s') \<and> holds s' (t @ x)"
begin

fun puts :: "string list \<Rightarrow> 's \<Rightarrow> 's res option" where
  "puts [] s = Some (Inr s)"
| "puts (x # xs) s =
     (case put x s of
        Some (Inr s') \<Rightarrow> puts xs s'
      | r \<Rightarrow> r)"

lemma puts_holds:
  "holds s t \<Longrightarrow> \<forall>x \<in> set xs. fits x \<Longrightarrow> \<exists>s'. puts xs s = Some (Inr s') \<and> holds s' (t @ concat xs)"
proof (induction xs arbitrary: s t)
  case Nil
  then show ?case by simp
next
  case (Cons x xs)
  then obtain s1 where s1: "put x s = Some (Inr s1)" "holds s1 (t @ x)" using put_holds by fastforce
  from Cons.IH [OF s1(2)] Cons.prems(2) obtain s2 where "puts xs s1 = Some (Inr s2)" "holds s2 ((t @ x) @ concat xs)"
    by auto
  with s1(1) show ?case by simp
qed

end

interpretation up: text_sink us_rep "\<lambda>x. length x < INT_MAX" us_printf
  by unfold_locales (rule us_printf_rep)

interpretation ub: text_sink us_rep "\<lambda>_. True" "\<lambda>x s. Some (us_bincpy s x)"
  by unfold_locales (use us_bincpy_rep in auto)

end
