(* ===== verification/Http_Memory.thy ===== *)
theory Http_Memory
  imports Utarray Utstring Http_Message
begin

text \<open>
  The writers of \<open>src/http.c\<close> over the array of headers and the growing string as they are in
  memory (\<open>Utarray\<close>, \<open>Utstring\<close>): every \<open>utstring_printf\<close> and \<open>utstring_bincpy\<close> of the code is
  one call, every \<open>HTTP_HEADER_FOREACH\<close> a walk over the slots. The lemmas show that they leave
  the text that \<open>Http_Message\<close> computes on sequences.
\<close>

section \<open>The writers\<close>

definition ro_bind :: "'a res option \<Rightarrow> ('a \<Rightarrow> 'b res option) \<Rightarrow> 'b res option" where
  "ro_bind x f = (case x of None \<Rightarrow> None | Some (Inl e) \<Rightarrow> Some (Inl e) | Some (Inr a) \<Rightarrow> f a)"

lemma ro_bind_simps [simp]:
  "ro_bind (Some (Inl e)) f = Some (Inl e)" "ro_bind (Some (Inr a)) f = f a" "ro_bind None f = None"
  by (simp_all add: ro_bind_def)

partial_function (option) print_headers ::
  "http_header ut_array \<Rightarrow> nat option \<Rightarrow> ut_string \<Rightarrow> ut_string res option" where
  "print_headers a e s =
     (case e of
        None \<Rightarrow> Some (Inr s)
      | Some k \<Rightarrow>
          (case ua_deref a k of
             Inl er \<Rightarrow> Some (Inl er)
           | Inr h \<Rightarrow>
               do { r \<leftarrow> us_printf (header_line h) s;
                    case r of
                      Inl er \<Rightarrow> Some (Inl er)
                    | Inr s \<Rightarrow> print_headers a (ua_next a (Some k)) s }))"

definition status_pieces :: "http_response_line \<Rightarrow> string list" where
  "status_pieces l =
     (case sl_version l of HTTP10 \<Rightarrow> [''HTTP/1.0 ''] | HTTP11 \<Rightarrow> [''HTTP/1.1 ''] | HTTPXX \<Rightarrow> []) @
     [dec (unat (sl_code l)) @ '' '' @ http_response_line_get_message l @ CRLF]"

definition add_headers_mem ::
  "string \<Rightarrow> http_response \<Rightarrow> http_header ut_array \<Rightarrow> http_header ut_array res option" where
  "add_headers_mem date r a =
     (if unat (sl_code (rs_line r)) = 100 then Some (Inr a)
      else
        ro_bind (Some (framing_header r)) (\<lambda>(n, v).
        ro_bind (list_add a (http_header_new n (Some v)) True) (\<lambda>a.
        ro_bind (list_get a HEADER_CONTENT_TYPE) (\<lambda>contenttype.
        ro_bind (if contenttype = None
                 then list_add a (http_header_new HEADER_CONTENT_TYPE (Some DEFAULT_CONTENT_TYPE)) False
                 else Some (Inr a)) (\<lambda>a.
        ro_bind (list_add a (http_header_new HEADER_DATE (Some date)) True) (\<lambda>a.
        list_add a (http_header_new HEADER_SERVER (Some SERVER_NAME)) True))))))"

text \<open>\<open>http_response_write\<close>; its headers are the array.\<close>

definition response_write_mem ::
  "string \<Rightarrow> http_response \<Rightarrow> http_header ut_array \<Rightarrow> (ut_string option \<times> http_header ut_array) res option" where
  "response_write_mem date r a =
     (if rs_send_status r = SEND_BODY \<or> rs_send_status r = SEND_DONE then Some (Inr (None, a))
      else
        ro_bind (Some us_init) (\<lambda>s.
        ro_bind (if rs_send_status r = SEND_RESPONSE_LINE then up.puts (status_pieces (rs_line r)) s
                 else Some (Inr s)) (\<lambda>s.
        ro_bind (add_headers_mem date r a) (\<lambda>a.
        ro_bind (print_headers a (ua_next a None) s) (\<lambda>s.
        ro_bind (us_printf CRLF s) (\<lambda>s. Some (Inr (Some s, a))))))))"

partial_function (option) chunks_mem :: "string \<Rightarrow> ut_string \<Rightarrow> ut_string res option" where
  "chunks_mem rest s =
     (if rest = [] then Some (Inr s)
      else
        do { r \<leftarrow> us_printf (chunk_line (chunk_len (length rest))) s;
             case r of
               Inl e \<Rightarrow> Some (Inl e)
             | Inr s \<Rightarrow>
                 (case us_bincpy s (take (chunk_len (length rest)) rest) of
                    Inl e \<Rightarrow> Some (Inl e)
                  | Inr s \<Rightarrow> chunks_mem (drop (chunk_len (length rest)) rest) s) })"

definition chunks_terminate_mem :: "http_header ut_array option \<Rightarrow> ut_string \<Rightarrow> ut_string res option" where
  "chunks_terminate_mem footers s =
     ro_bind (us_printf (''0'' @ CRLF) s) (\<lambda>s.
     ro_bind (case footers of None \<Rightarrow> Some (Inr s) | Some a \<Rightarrow> print_headers a (ua_next a None) s) (\<lambda>s.
     us_printf CRLF s))"

section \<open>What they leave\<close>

lemma print_headers_rep:
  assumes "ua_rep a l" and "\<forall>h \<in> set l. length (header_line h) < INT_MAX"
  shows "us_rep s t \<Longrightarrow> \<exists>s'. print_headers a (slot_at l k) s = Some (Inr s') \<and>
    us_rep s' (t @ header_lines (drop k l))"
proof (induction "length l - k" arbitrary: k s t)
  case 0
  then show ?case by (simp add: print_headers.simps [of a None] header_lines_def)
next
  case (Suc n)
  then have k: "k < length l" and n: "n = length l - Suc k" by simp_all
  from us_printf_rep [OF Suc.prems, of "header_line (l ! k)"] assms(2) k obtain s1 where
    s1: "us_printf (header_line (l ! k)) s = Some (Inr s1)" "us_rep s1 (t @ header_line (l ! k))" by auto
  from Suc.hyps(1) [OF n s1(2)] k s1(1) show ?case
    by (simp add: print_headers.simps [of a "Some k"] ua_deref_rep [OF assms(1) k] ua_next_slot(2) [OF assms(1)]
        header_lines_def Cons_nth_drop_Suc [OF k, symmetric])
qed

text \<open>Adding a header that the sequence takes.\<close>

lemma list_add_Inr:
  assumes "http_header_list_add l h replace = Inr l'" and "ua_rep a l" and "length l + n < 2 ^ 31"
  shows "\<exists>a'. list_add a h replace = Some (Inr a') \<and> ua_rep a' l' \<and> length l' + n \<le> Suc (length l + n)"
  using list_add_rep [OF assms(2), of h replace] header_list_add_length [OF assms(1)] assms(1,3)
  by (auto simp: agrees_def)

lemma add_headers_rep:
  assumes "response_headers date r = Inr l'" and "ua_rep a (rs_headers r)" and "length (rs_headers r) + 4 < 2 ^ 31"
  shows "\<exists>a'. add_headers_mem date r a = Some (Inr a') \<and> ua_rep a' l'"
proof (cases "unat (sl_code (rs_line r)) = 100")
  case True
  with assms show ?thesis by (simp add: response_headers_def add_headers_mem_def)
next
  case False
  with assms(1) obtain n v l1 l2 l3 where f: "framing_header r = Inr (n, v)"
    and l1: "http_header_list_add (rs_headers r) (http_header_new n (Some v)) True = Inr l1"
    and l2: "add_default_type l1 = Inr l2"
    and l3: "http_header_list_add l2 (http_header_new HEADER_DATE (Some date)) True = Inr l3"
    and l4: "http_header_list_add l3 (http_header_new HEADER_SERVER (Some SERVER_NAME)) True = Inr l'"
    by (auto simp: response_headers_def bind_res_eq_Inr header_put_def)
  from list_add_Inr [OF l1 assms(2), of 4] assms(3) obtain a1 where
    a1: "list_add a (http_header_new n (Some v)) True = Some (Inr a1)" "ua_rep a1 l1" "length l1 + 3 < 2 ^ 31" by auto
  from list_get_rep [OF a1(2), of HEADER_CONTENT_TYPE] obtain ct where
    ct: "list_get a1 HEADER_CONTENT_TYPE = Some (Inr ct)"
    "map_option (\<lambda>j. l1 ! j) ct = http_header_list_get l1 HEADER_CONTENT_TYPE" by blast
  obtain a2 where a2: "(if ct = None then list_add a1 (http_header_new HEADER_CONTENT_TYPE (Some DEFAULT_CONTENT_TYPE)) False
      else Some (Inr a1)) = Some (Inr a2)" "ua_rep a2 l2" "length l2 + 2 < 2 ^ 31"
  proof (cases ct)
    case None
    with ct(2) l2 have
      "http_header_list_add l1 (http_header_new HEADER_CONTENT_TYPE (Some DEFAULT_CONTENT_TYPE)) False = Inr l2"
      by (simp add: add_default_type_def)
    from list_add_Inr [OF this a1(2), of 3] a1(3) None that show ?thesis by auto
  next
    case (Some j)
    with ct(2) have "http_header_list_get l1 HEADER_CONTENT_TYPE = Some (l1 ! j)" by simp
    with l2 have "l2 = l1" by (simp add: add_default_type_def)
    with Some a1 that [of a1] show ?thesis by simp
  qed
  from list_add_Inr [OF l3 a2(2), of 2] a2(3) obtain a3 where
    a3: "list_add a2 (http_header_new HEADER_DATE (Some date)) True = Some (Inr a3)" "ua_rep a3 l3" "length l3 + 1 < 2 ^ 31"
    by auto
  from list_add_Inr [OF l4 a3(2), of 1] a3(3) obtain a4 where
    a4: "list_add a3 (http_header_new HEADER_SERVER (Some SERVER_NAME)) True = Some (Inr a4)" "ua_rep a4 l'" by auto
  with False f a1(1) ct(1) a2(1) a3(1) show ?thesis by (simp add: add_headers_mem_def)
qed

lemma status_pieces_text: "concat (status_pieces l) = status_line_text l"
  by (simp add: status_pieces_def status_line_text_def split: http_version.split)

lemma status_pieces_fit: "length (status_line_text l) < INT_MAX \<Longrightarrow> \<forall>x \<in> set (status_pieces l). length x < INT_MAX"
  by (auto simp: status_pieces_def status_line_text_def split: http_version.splits)

lemma crlf_fits: "length CRLF < INT_MAX"
  by (simp add: INT_MAX_def)

text \<open>
  C17: what the code writes of a response, through the slots of the header array and the
  growing string, is the text and the headers that the model of \<open>http_response_write\<close> gives on
  sequences, when every line is shorter than \<open>INT_MAX\<close> characters (one of that length makes
  the \<open>int\<close> of the reserve overflow) and there is room in the array for the headers that are
  added.
\<close>

theorem response_write_refines:
  assumes "http_response_write date r = Inr (text, r')" and "ua_rep a (rs_headers r)"
    and "length (rs_headers r) + 4 < 2 ^ 31" and "length (status_line_text (rs_line r)) < INT_MAX"
    and "\<forall>h \<in> set (rs_headers r'). length (header_line h) < INT_MAX"
  shows "\<exists>u a'. response_write_mem date r a = Some (Inr (u, a')) \<and> ua_rep a' (rs_headers r') \<and>
    rel_option us_rep u text"
proof (cases "rs_send_status r = SEND_BODY \<or> rs_send_status r = SEND_DONE")
  case True
  with assms(1,2) show ?thesis by (auto simp: http_response_write_def response_write_mem_def)
next
  case False
  let ?line = "if rs_send_status r = SEND_RESPONSE_LINE then status_line_text (rs_line r) else []"
  from False assms(1) obtain l where l: "response_headers date r = Inr l" "rs_headers r' = l"
    "text = Some (?line @ header_lines l @ CRLF)"
    by (auto simp: http_response_write_def Let_def bind_res_eq_Inr)
  obtain s0 where s0: "us_init = Inr s0" "us_rep s0 []" using us_rep_init by blast
  obtain s1 where s1: "(if rs_send_status r = SEND_RESPONSE_LINE then up.puts (status_pieces (rs_line r)) s0
      else Some (Inr s0)) = Some (Inr s1)" "us_rep s1 ?line"
  proof (cases "rs_send_status r = SEND_RESPONSE_LINE")
    case True
    from up.puts_holds [OF s0(2) status_pieces_fit [OF assms(4)]] True that show ?thesis
      by (auto simp: status_pieces_text)
  next
    case False
    with s0(2) that [of s0] show ?thesis by simp
  qed
  from add_headers_rep [OF l(1) assms(2,3)] obtain a' where
    a': "add_headers_mem date r a = Some (Inr a')" "ua_rep a' l" by blast
  from print_headers_rep [OF a'(2) _ s1(2), of 0] assms(5) l(2) obtain s2 where
    s2: "print_headers a' (ua_next a' None) s1 = Some (Inr s2)" "us_rep s2 (?line @ header_lines l)"
    by (auto simp: ua_next_slot(1) [OF a'(2)])
  from us_printf_rep [OF s2(2) crlf_fits] obtain s3 where
    s3: "us_printf CRLF s2 = Some (Inr s3)" "us_rep s3 ((?line @ header_lines l) @ CRLF)" by blast
  have "response_write_mem date r a = Some (Inr (Some s3, a'))"
    using False by (simp add: response_write_mem_def s0(1) s1(1) a'(1) s2(1) s3(1))
  with a'(2) l s3(2) show ?thesis by (intro exI [of _ "Some s3"] exI [of _ a']) simp
qed

lemma plain_response_headers:
  "response_headers ''now'' (http_response_new (http_response_line_new 204)) =
    Inr [http_header_new ''Content-Length'' (Some (dec 0)), http_header_new ''Content-Type'' (Some ''text/plain''),
      http_header_new ''Date'' (Some ''now''), http_header_new ''Server'' (Some ''KHTTP/0.1'')]"
  by (simp add: response_headers_def framing_header_def http_response_new_def http_response_line_new_def
      http_header_list_new_def header_put_def http_header_list_add_def http_header_list_remove_def
      http_header_list_getall_def utarray_push_back_def add_default_type_def http_header_list_get_def
      http_body_len_def http_body_new_def DEFAULT_CONTENT_TYPE_def SERVER_NAME_def)

theorem response_write_refines_witness:
  "\<exists>s a' t. response_write_mem ''now'' (http_response_new (http_response_line_new 204)) ua_init = Some (Inr (Some s, a')) \<and>
    us_rep s t"
proof -
  let ?r = "http_response_new (http_response_line_new 204)"
  obtain t r' where w: "http_response_write ''now'' ?r = Inr (Some t, r')"
    and r': "Inr (rs_headers r') = response_headers ''now'' ?r"
  proof -
    have "rs_send_status ?r = SEND_RESPONSE_LINE" by (simp add: http_response_new_def)
    with that show ?thesis by (simp add: http_response_write_def plain_response_headers Let_def)
  qed
  have "(100 :: nat) < INT_MAX" by (simp add: INT_MAX_def)
  with r' have fit: "\<forall>h \<in> set (rs_headers r'). length (header_line h) < INT_MAX"
    by (auto simp: plain_response_headers header_line_def printf_s_def dec_small)
  have "length (status_line_text (rs_line ?r)) \<le> 100"
    by code_simp
  with \<open>100 < INT_MAX\<close> have line: "length (status_line_text (rs_line ?r)) < INT_MAX" by simp
  have rep: "ua_rep ua_init (rs_headers ?r)" "length (rs_headers ?r) + 4 < 2 ^ 31"
    by (simp_all add: ua_rep_init http_response_new_def http_header_list_new_def)
  from response_write_refines [OF w rep line fit] show ?thesis
    by (auto simp: option_rel_Some2)
qed

text \<open>Chunks and the end of a chunked body.\<close>

lemma chunk_len_bound: "chunk_len n \<le> 16374"
  by (simp add: chunk_len_def chunk_overhead HTTP_CHUNK_MAXSIZE_def)

lemma hex_length: "length (hex n) \<le> Suc n"
proof (induction n rule: hex.induct)
  case (1 n)
  show ?case
  proof (cases "n < 16")
    case True
    then show ?thesis by (simp add: hex_small)
  next
    case False
    then have "Suc (n div 16) \<le> n" by linarith
    with False 1 show ?thesis by (simp add: hex_step)
  qed
qed

lemma chunk_line_fits: "length (chunk_line (chunk_len n)) < INT_MAX"
  using hex_length [of "chunk_len n"] chunk_len_bound [of n] by (simp add: chunk_line_def INT_MAX_def)

lemma chunks_mem_rep:
  "us_rep s out \<Longrightarrow> \<exists>s'. chunks_mem rest s = Some (Inr s') \<and> us_rep s' (chunks_loop rest out)"
proof (induction rest out arbitrary: s rule: chunks_loop.induct)
  case (1 rest out)
  show ?case
  proof (cases "rest = []")
    case True
    with "1.prems" show ?thesis by (simp add: chunks_mem.simps [of "[]"] chunks_loop.simps [of "[]"])
  next
    case False
    let ?n = "chunk_len (length rest)"
    from us_printf_rep [OF "1.prems" chunk_line_fits] obtain s1 where
      s1: "us_printf (chunk_line ?n) s = Some (Inr s1)" "us_rep s1 (out @ chunk_line ?n)" by blast
    from us_bincpy_rep [OF s1(2), of "take ?n rest"] obtain s2 where
      s2: "us_bincpy s1 (take ?n rest) = Inr s2" "us_rep s2 (out @ chunk_line ?n @ take ?n rest)" by auto
    from "1.IH" [OF False s2(2)] s1(1) s2(1) False show ?thesis
      by (simp add: chunks_mem.simps [of rest] chunks_loop.simps [of rest out])
  qed
qed

lemma chunks_terminate_rep:
  assumes "us_rep s out" and "\<forall>h \<in> set l. length (header_line h) < INT_MAX"
    and "\<And>a. footers = Some a \<Longrightarrow> ua_rep a l"
  shows "\<exists>s'. chunks_terminate_mem footers s = Some (Inr s') \<and>
    us_rep s' (http_chunks_terminate (map_option (\<lambda>_. l) footers) out)"
proof -
  have z: "length (''0'' @ CRLF) < INT_MAX" by (simp add: INT_MAX_def)
  from us_printf_rep [OF assms(1) z] obtain s1 where
    s1: "us_printf (''0'' @ CRLF) s = Some (Inr s1)" "us_rep s1 (out @ ''0'' @ CRLF)" by blast
  let ?f = "case footers of None \<Rightarrow> [] | Some _ \<Rightarrow> header_lines l"
  obtain s2 where s2: "(case footers of None \<Rightarrow> Some (Inr s1) | Some a \<Rightarrow> print_headers a (ua_next a None) s1) = Some (Inr s2)"
    "us_rep s2 ((out @ ''0'' @ CRLF) @ ?f)"
  proof (cases footers)
    case None
    with s1(2) that [of s1] show ?thesis by simp
  next
    case (Some b)
    with print_headers_rep [of b l s1 "out @ ''0'' @ CRLF" 0] assms s1(2) that show ?thesis
      by (auto simp: ua_next_slot(1) [of b l])
  qed
  from us_printf_rep [OF s2(2) crlf_fits] s1(1) s2(1) show ?thesis
    by (cases footers) (auto simp: chunks_terminate_mem_def http_chunks_terminate_def)
qed

end
