(* ===== verification/Http_Parser_Api.thy ===== *)
theory Http_Parser_Api
  imports Http_Parser
begin

text \<open>
  The functions of \<open>lib/http_parser.c\<close> around \<open>http_parser_execute\<close>: names of errors, pausing,
  the version.
\<close>

fun http_errno_name :: "http_errno \<Rightarrow> string" where
  "http_errno_name HPE_OK = ''HPE_OK''"
| "http_errno_name HPE_CB_message_begin = ''HPE_CB_message_begin''"
| "http_errno_name HPE_CB_url = ''HPE_CB_url''"
| "http_errno_name HPE_CB_header_field = ''HPE_CB_header_field''"
| "http_errno_name HPE_CB_header_value = ''HPE_CB_header_value''"
| "http_errno_name HPE_CB_headers_complete = ''HPE_CB_headers_complete''"
| "http_errno_name HPE_CB_body = ''HPE_CB_body''"
| "http_errno_name HPE_CB_message_complete = ''HPE_CB_message_complete''"
| "http_errno_name HPE_CB_status = ''HPE_CB_status''"
| "http_errno_name HPE_INVALID_EOF_STATE = ''HPE_INVALID_EOF_STATE''"
| "http_errno_name HPE_HEADER_OVERFLOW = ''HPE_HEADER_OVERFLOW''"
| "http_errno_name HPE_CLOSED_CONNECTION = ''HPE_CLOSED_CONNECTION''"
| "http_errno_name HPE_INVALID_VERSION = ''HPE_INVALID_VERSION''"
| "http_errno_name HPE_INVALID_STATUS = ''HPE_INVALID_STATUS''"
| "http_errno_name HPE_INVALID_METHOD = ''HPE_INVALID_METHOD''"
| "http_errno_name HPE_INVALID_URL = ''HPE_INVALID_URL''"
| "http_errno_name HPE_INVALID_HOST = ''HPE_INVALID_HOST''"
| "http_errno_name HPE_INVALID_PORT = ''HPE_INVALID_PORT''"
| "http_errno_name HPE_INVALID_PATH = ''HPE_INVALID_PATH''"
| "http_errno_name HPE_INVALID_QUERY_STRING = ''HPE_INVALID_QUERY_STRING''"
| "http_errno_name HPE_INVALID_FRAGMENT = ''HPE_INVALID_FRAGMENT''"
| "http_errno_name HPE_LF_EXPECTED = ''HPE_LF_EXPECTED''"
| "http_errno_name HPE_INVALID_HEADER_TOKEN = ''HPE_INVALID_HEADER_TOKEN''"
| "http_errno_name HPE_INVALID_CONTENT_LENGTH = ''HPE_INVALID_CONTENT_LENGTH''"
| "http_errno_name HPE_INVALID_CHUNK_SIZE = ''HPE_INVALID_CHUNK_SIZE''"
| "http_errno_name HPE_INVALID_CONSTANT = ''HPE_INVALID_CONSTANT''"
| "http_errno_name HPE_INVALID_INTERNAL_STATE = ''HPE_INVALID_INTERNAL_STATE''"
| "http_errno_name HPE_STRICT = ''HPE_STRICT''"
| "http_errno_name HPE_PAUSED = ''HPE_PAUSED''"
| "http_errno_name HPE_UNKNOWN = ''HPE_UNKNOWN''"

definition http_parser_pause :: "http_parser \<Rightarrow> bool \<Rightarrow> http_parser res" where
  "http_parser_pause pr paused =
     (if p_errno pr = HPE_OK \<or> p_errno pr = HPE_PAUSED
      then Inr (pr\<lparr>p_errno := if paused then HPE_PAUSED else HPE_OK\<rparr>)
      else Inl Assert_failed)"

definition http_body_is_final :: "http_parser \<Rightarrow> bool" where
  "http_body_is_final pr \<longleftrightarrow> p_state pr = s_message_done"

unbundle bit_operations_syntax

definition HTTP_PARSER_VERSION_MAJOR :: nat where
  "HTTP_PARSER_VERSION_MAJOR = 2"

definition HTTP_PARSER_VERSION_MINOR :: nat where
  "HTTP_PARSER_VERSION_MINOR = 3"

definition HTTP_PARSER_VERSION_PATCH :: nat where
  "HTTP_PARSER_VERSION_PATCH = 0"

definition http_parser_version :: nat where
  "http_parser_version =
     HTTP_PARSER_VERSION_MAJOR * 0x10000 OR HTTP_PARSER_VERSION_MINOR * 0x00100 OR HTTP_PARSER_VERSION_PATCH * 0x00001"

section \<open>What holds of them\<close>

text \<open>No two errors have the same name or the same description.\<close>

lemma http_errno_name_inj: "http_errno_name e = http_errno_name e' \<longleftrightarrow> e = e'"
  by (cases e; cases e') simp_all

text \<open>A paused parser takes no byte and calls nothing; resuming gives the parser as it was paused.\<close>

lemma paused_takes_nothing:
  assumes "http_parser_pause pr True = Inr pr'"
  shows "http_parser_execute st data pr' u = Inr (0, pr', u)"
  using assms by (auto simp: http_parser_pause_def http_parser_execute_def split: if_splits)

lemma pause_resume:
  assumes "p_errno pr = HPE_OK" and "http_parser_pause pr True = Inr paused"
    and "http_parser_execute st data paused u = Inr (n, after, u')"
  shows "n = 0 \<and> u' = u \<and> http_parser_pause after False = Inr pr"
proof -
  from paused_takes_nothing [OF assms(2), of st data u] assms(3) have "after = paused" "n = 0" "u' = u" by simp_all
  moreover have "paused = pr\<lparr>p_errno := HPE_PAUSED\<rparr>" using assms(1,2) by (simp add: http_parser_pause_def)
  ultimately show ?thesis using assms(1) by (simp add: http_parser_pause_def)
qed

text \<open>Pausing a parser that stopped with an error is an assertion.\<close>

lemma pause_after_error:
  "p_errno pr \<notin> {HPE_OK, HPE_PAUSED} \<Longrightarrow> http_parser_pause pr paused = Inl Assert_failed"
  by (simp add: http_parser_pause_def)

end
