(* ===== verification/Utlist_Sort.thy ===== *)
theory Utlist_Sort
  imports Utdlist "HOL-Library.Sorting_Algorithms"
begin

text \<open>
  The merge sort of \<open>lib/ut/utlist.h\<close>, in its three variants: \<open>DL_SORT\<close> and \<open>CDL_SORT\<close> over the
  \<open>next\<close> and \<open>prev\<close> fields, \<open>LL_SORT\<close> over \<open>next\<close> alone. \<open>ls_merge\<close> and \<open>ls_pass\<close> are the loops of
  the first two; in a circular list the old head stands for the end (\<open>old\<close>), in the other there
  is no such node. \<open>cmp\<close> is the comparison of two elements.

  The counters are \<open>int\<close>s: the number of merges of a pass, and the length of the runs, which is
  doubled after every pass, the last one as well. They only grow in a pass, so their range is
  looked at when it is over; leaving it is undefined, \<open>Overflow\<close> here. (\<open>psize\<close> and \<open>qsize\<close> are
  bounded by \<open>insize\<close>. The sort of \<open>uthash.h\<close>, which has unsigned counters, shares the passes.)
\<close>

section \<open>The loops\<close>

definition ls_next :: "ptr option \<Rightarrow> dlinks \<Rightarrow> ptr \<Rightarrow> ptr option" where
  "ls_next old s p = (if d_next s p = old then None else d_next s p)"

text \<open>\<open>for (i = 0; i < insize; i++) { psize++; q = q->next; if (!q) break; }\<close>: \<open>psize\<close> and \<open>q\<close>.\<close>

fun ls_walk :: "(ptr \<Rightarrow> ptr option) \<Rightarrow> nat \<Rightarrow> ptr \<Rightarrow> nat \<times> ptr option" where
  "ls_walk nx 0 q = (0, Some q)"
| "ls_walk nx (Suc k) q =
     (case nx q of
        None \<Rightarrow> (1, None)
      | Some q' \<Rightarrow> (case ls_walk nx k q' of (psize, r) \<Rightarrow> (Suc psize, r)))"

text \<open>The element is linked behind the tail, or is the head of the new list.\<close>

definition ls_link :: "ptr option \<Rightarrow> ptr option \<Rightarrow> ptr \<Rightarrow> dlinks \<Rightarrow> dlinks \<times> ptr option" where
  "ls_link list tail e s =
     (case tail of
        Some t \<Rightarrow> (set_prev e tail (set_next t (Some e) s), list)
      | None \<Rightarrow> (set_prev e tail s, Some e))"

text \<open>Whether the next element is that of the second run.\<close>

definition takes_q :: "(ptr \<Rightarrow> ptr \<Rightarrow> int) \<Rightarrow> nat \<Rightarrow> ptr option \<Rightarrow> nat \<Rightarrow> ptr option \<Rightarrow> bool" where
  "takes_q cmp psize p qsize q \<longleftrightarrow>
     (if psize = 0 then True else if qsize = 0 \<or> q = None then False else \<not> cmp (the p) (the q) \<le> 0)"

function ls_merge ::
  "ptr option \<Rightarrow> (ptr \<Rightarrow> ptr \<Rightarrow> int) \<Rightarrow> nat \<Rightarrow> ptr option \<Rightarrow> nat \<Rightarrow> ptr option \<Rightarrow>
   dlinks \<Rightarrow> ptr option \<Rightarrow> ptr option \<Rightarrow> (dlinks \<times> ptr option \<times> ptr option \<times> ptr option) res" where
  "ls_merge old cmp psize p qsize q s list tail =
     (if psize > 0 \<or> (qsize > 0 \<and> q \<noteq> None)
      then
        if takes_q cmp psize p qsize q
        then case q of
            None \<Rightarrow> Inl Null_deref
          | Some e \<Rightarrow>
              (case ls_link list tail e s of (s', list') \<Rightarrow>
                 ls_merge old cmp psize p (qsize - 1) (ls_next old s e) s' list' (Some e))
        else case p of
            None \<Rightarrow> Inl Null_deref
          | Some e \<Rightarrow>
              (case ls_link list tail e s of (s', list') \<Rightarrow>
                 ls_merge old cmp (psize - 1) (ls_next old s e) qsize q s' list' (Some e))
      else Inr (s, list, tail, q))"
  by pat_completeness auto

termination
  by (relation "measure (\<lambda>(old, cmp, psize, p, qsize, q, s, list, tail). psize + qsize)")
    (auto simp: takes_q_def split: if_splits)

declare ls_merge.simps [simp del]

text \<open>\<open>while (p) { nmerges++; ...; p = q; }\<close>\<close>

partial_function (option) ls_pass ::
  "ptr option \<Rightarrow> (ptr \<Rightarrow> ptr \<Rightarrow> int) \<Rightarrow> nat \<Rightarrow> ptr option \<Rightarrow> nat \<Rightarrow> dlinks \<Rightarrow> ptr option \<Rightarrow> ptr option \<Rightarrow>
   (dlinks \<times> ptr option \<times> ptr option \<times> nat) res option" where
  "ls_pass old cmp insize p nmerges s list tail =
     (case p of
        None \<Rightarrow> Some (Inr (s, list, tail, nmerges))
      | Some p0 \<Rightarrow>
          (case ls_merge old cmp (fst (ls_walk (ls_next old s) insize p0)) p insize
              (snd (ls_walk (ls_next old s) insize p0)) s list tail of
             Inl e \<Rightarrow> Some (Inl e)
           | Inr r \<Rightarrow> ls_pass old cmp insize (snd (snd (snd r))) (Suc nmerges) (fst r) (fst (snd r)) (fst (snd (snd r)))))"

text \<open>\<open>_ls_nmerges++\<close> and \<open>_ls_insize *= 2\<close> of a pass stay in the range of an \<open>int\<close>.\<close>

definition ints_fit :: "nat \<Rightarrow> nat \<Rightarrow> bool" where
  "ints_fit insize nmerges \<longleftrightarrow> nmerges \<le> 2 ^ 31 - 1 \<and> insize * 2 \<le> 2 ^ 31 - 1"

partial_function (option) dl_sort_loop ::
  "(ptr \<Rightarrow> ptr \<Rightarrow> int) \<Rightarrow> nat \<Rightarrow> dlinks \<Rightarrow> ptr option \<Rightarrow> (dlinks \<times> ptr option) res option" where
  "dl_sort_loop cmp insize s list =
     do { r \<leftarrow> ls_pass None cmp insize list 0 s None None;
          case r of
            Inl e \<Rightarrow> Some (Inl e)
          | Inr (s, list, tail, nmerges) \<Rightarrow>
              (case list of
                 None \<Rightarrow> Some (Inl Null_deref)
               | Some l \<Rightarrow>
                   (let s = set_prev l tail s in
                    case tail of
                      None \<Rightarrow> Some (Inl Null_deref)
                    | Some t \<Rightarrow>
                        (let s = set_next t None s in
                         if \<not> ints_fit insize nmerges then Some (Inl Overflow)
                         else if nmerges \<le> 1 then Some (Inr (s, list)) else dl_sort_loop cmp (insize * 2) s list))) }"

definition DL_SORT :: "(ptr \<Rightarrow> ptr \<Rightarrow> int) \<Rightarrow> dlinks \<Rightarrow> ptr option \<Rightarrow> (dlinks \<times> ptr option) res option" where
  "DL_SORT cmp s list = (if list = None then Some (Inr (s, list)) else dl_sort_loop cmp 1 s list)"

partial_function (option) cdl_sort_loop ::
  "(ptr \<Rightarrow> ptr \<Rightarrow> int) \<Rightarrow> nat \<Rightarrow> dlinks \<Rightarrow> ptr option \<Rightarrow> (dlinks \<times> ptr option) res option" where
  "cdl_sort_loop cmp insize s list =
     do { r \<leftarrow> ls_pass list cmp insize list 0 s None None;
          case r of
            Inl e \<Rightarrow> Some (Inl e)
          | Inr (s, list, tail, nmerges) \<Rightarrow>
              (case list of
                 None \<Rightarrow> Some (Inl Null_deref)
               | Some l \<Rightarrow>
                   (let s = set_prev l tail s in
                    case tail of
                      None \<Rightarrow> Some (Inl Null_deref)
                    | Some t \<Rightarrow>
                        (let s = set_next t list s in
                         if \<not> ints_fit insize nmerges then Some (Inl Overflow)
                         else if nmerges \<le> 1 then Some (Inr (s, list)) else cdl_sort_loop cmp (insize * 2) s list))) }"

definition CDL_SORT :: "(ptr \<Rightarrow> ptr \<Rightarrow> int) \<Rightarrow> dlinks \<Rightarrow> ptr option \<Rightarrow> (dlinks \<times> ptr option) res option" where
  "CDL_SORT cmp s list = (if list = None then Some (Inr (s, list)) else cdl_sort_loop cmp 1 s list)"

text \<open>\<open>LL_SORT\<close>: the same without the \<open>prev\<close> fields.\<close>

definition ll_link :: "ptr option \<Rightarrow> ptr option \<Rightarrow> ptr \<Rightarrow> nexts \<Rightarrow> nexts \<times> ptr option" where
  "ll_link list tail e nx = (case tail of Some t \<Rightarrow> (nx(t := Some e), list) | None \<Rightarrow> (nx, Some e))"

function ll_merge ::
  "(ptr \<Rightarrow> ptr \<Rightarrow> int) \<Rightarrow> nat \<Rightarrow> ptr option \<Rightarrow> nat \<Rightarrow> ptr option \<Rightarrow>
   nexts \<Rightarrow> ptr option \<Rightarrow> ptr option \<Rightarrow> (nexts \<times> ptr option \<times> ptr option \<times> ptr option) res" where
  "ll_merge cmp psize p qsize q nx list tail =
     (if psize > 0 \<or> (qsize > 0 \<and> q \<noteq> None)
      then
        if takes_q cmp psize p qsize q
        then case q of
            None \<Rightarrow> Inl Null_deref
          | Some e \<Rightarrow>
              (case ll_link list tail e nx of (nx', list') \<Rightarrow>
                 ll_merge cmp psize p (qsize - 1) (nx e) nx' list' (Some e))
        else case p of
            None \<Rightarrow> Inl Null_deref
          | Some e \<Rightarrow>
              (case ll_link list tail e nx of (nx', list') \<Rightarrow>
                 ll_merge cmp (psize - 1) (nx e) qsize q nx' list' (Some e))
      else Inr (nx, list, tail, q))"
  by pat_completeness auto

termination
  by (relation "measure (\<lambda>(cmp, psize, p, qsize, q, nx, list, tail). psize + qsize)")
    (auto simp: takes_q_def split: if_splits)

declare ll_merge.simps [simp del]

partial_function (option) ll_pass ::
  "(ptr \<Rightarrow> ptr \<Rightarrow> int) \<Rightarrow> nat \<Rightarrow> ptr option \<Rightarrow> nat \<Rightarrow> nexts \<Rightarrow> ptr option \<Rightarrow> ptr option \<Rightarrow>
   (nexts \<times> ptr option \<times> ptr option \<times> nat) res option" where
  "ll_pass cmp insize p nmerges nx list tail =
     (case p of
        None \<Rightarrow> Some (Inr (nx, list, tail, nmerges))
      | Some p0 \<Rightarrow>
          (case ll_merge cmp (fst (ls_walk nx insize p0)) p insize (snd (ls_walk nx insize p0)) nx list tail of
             Inl e \<Rightarrow> Some (Inl e)
           | Inr r \<Rightarrow> ll_pass cmp insize (snd (snd (snd r))) (Suc nmerges) (fst r) (fst (snd r)) (fst (snd (snd r)))))"

partial_function (option) ll_sort_loop ::
  "(ptr \<Rightarrow> ptr \<Rightarrow> int) \<Rightarrow> nat \<Rightarrow> nexts \<Rightarrow> ptr option \<Rightarrow> (nexts \<times> ptr option) res option" where
  "ll_sort_loop cmp insize nx list =
     do { r \<leftarrow> ll_pass cmp insize list 0 nx None None;
          case r of
            Inl e \<Rightarrow> Some (Inl e)
          | Inr (nx, list, tail, nmerges) \<Rightarrow>
              (let nx = (case tail of None \<Rightarrow> nx | Some t \<Rightarrow> nx(t := None)) in
               if \<not> ints_fit insize nmerges then Some (Inl Overflow)
               else if nmerges \<le> 1 then Some (Inr (nx, list)) else ll_sort_loop cmp (insize * 2) nx list) }"

definition LL_SORT :: "(ptr \<Rightarrow> ptr \<Rightarrow> int) \<Rightarrow> nexts \<Rightarrow> ptr option \<Rightarrow> (nexts \<times> ptr option) res option" where
  "LL_SORT cmp nx list = (if list = None then Some (Inr (nx, list)) else ll_sort_loop cmp 1 nx list)"

section \<open>On sequences\<close>

abbreviation merged :: "ptr comparator \<Rightarrow> ptr list \<Rightarrow> ptr list \<Rightarrow> ptr list" where
  "merged \<equiv> Sorting_Algorithms.merge"

definition orders :: "ptr comparator \<Rightarrow> (ptr \<Rightarrow> ptr \<Rightarrow> int) \<Rightarrow> bool" where
  "orders k cmp \<longleftrightarrow> (\<forall>a b. cmp a b > 0 \<longleftrightarrow> compare k a b = Greater)"

function pass_seq :: "ptr comparator \<Rightarrow> nat \<Rightarrow> ptr list \<Rightarrow> ptr list" where
  "pass_seq k w xs =
     (if xs = [] \<or> w = 0 then []
      else merged k (take w xs) (take w (drop w xs)) @ pass_seq k w (drop (2 * w) xs))"
  by pat_completeness auto

termination
  by (relation "measure (\<lambda>(k, w, xs). length xs)") auto

declare pass_seq.simps [simp del]

function runs :: "nat \<Rightarrow> ptr list \<Rightarrow> nat" where
  "runs w xs = (if xs = [] \<or> w = 0 then 0 else Suc (runs w (drop (2 * w) xs)))"
  by pat_completeness auto

termination
  by (relation "measure (\<lambda>(w, xs). length xs)") auto

declare runs.simps [simp del]

text \<open>The blocks of \<open>w\<close> elements, each sorted.\<close>

function blocks :: "ptr comparator \<Rightarrow> nat \<Rightarrow> ptr list \<Rightarrow> ptr list" where
  "blocks k w xs = (if xs = [] \<or> w = 0 then [] else sort k (take w xs) @ blocks k w (drop w xs))"
  by pat_completeness auto

termination
  by (relation "measure (\<lambda>(k, w, xs). length xs)") auto

declare blocks.simps [simp del]

lemma merged_sorts: "merged k (sort k xs) (sort k ys) = sort k (xs @ ys)"
proof (rule sort_eqI [symmetric])
  show "mset (xs @ ys) = mset (merged k (sort k xs) (sort k ys))" by (simp add: mset_merge)
  show "Sorting_Algorithms.sorted k (merged k (sort k xs) (sort k ys))" by (simp add: sorted_merge)
  show "stable_segment k l (xs @ ys) = stable_segment k l (merged k (sort k xs) (sort k ys))" for l
    by (simp add: filter_merge merge_stable_segments stable_sort)
qed

lemma runs_few: "0 < w \<Longrightarrow> runs w xs \<le> 1 \<longleftrightarrow> length xs \<le> 2 * w"
  by (simp add: runs.simps [of w xs] runs.simps [of w "drop (2 * w) xs"])

lemma runs_le: "runs w xs \<le> length xs"
proof (induction w xs rule: runs.induct)
  case (1 w xs)
  then show ?case by (cases xs) (auto simp: runs.simps [of w "[]"] runs.simps [of w "_ # _"])
qed

lemma blocks_one: "blocks k 1 xs = xs"
proof (induction xs)
  case (Cons x xs)
  then show ?case by (subst blocks.simps) simp
qed (simp add: blocks.simps)

lemma blocks_short: "0 < w \<Longrightarrow> length xs \<le> w \<Longrightarrow> blocks k w xs = sort k xs"
  by (cases "xs = []") (simp_all add: blocks.simps [of k w xs] blocks.simps [of k w "[]"])

lemma length_blocks: "0 < w \<Longrightarrow> length (blocks k w xs) = length xs"
proof (induction k w xs rule: blocks.induct)
  case (1 k w xs)
  then show ?case by (subst blocks.simps) (auto simp: min_def)
qed

lemma set_blocks: "0 < w \<Longrightarrow> set (blocks k w xs) = set xs"
proof (induction k w xs rule: blocks.induct)
  case (1 k w xs)
  show ?case
  proof (cases "xs = []")
    case False
    with 1 have "set (blocks k w xs) = set (take w xs) \<union> set (drop w xs)" by (simp add: blocks.simps [of k w xs])
    then show ?thesis by (metis append_take_drop_id set_append)
  qed (simp add: blocks.simps)
qed

lemma length_pass_seq: "0 < w \<Longrightarrow> length (pass_seq k w xs) = length xs"
proof (induction k w xs rule: pass_seq.induct)
  case (1 k w xs)
  have "length (merged k ys zs) = length ys + length zs" for ys zs
    by (metis mset_merge size_mset size_union)
  with 1 show ?case by (subst pass_seq.simps) auto
qed

lemma pass_blocks:
  assumes "0 < w"
  shows "pass_seq k w (blocks k w xs) = blocks k (2 * w) xs"
proof (induction "length xs" arbitrary: xs rule: less_induct)
  case less
  show ?case
  proof (cases "xs = []")
    case True
    then show ?thesis by (simp add: blocks.simps pass_seq.simps)
  next
    case False
    let ?a = "take w xs" and ?b = "take w (drop w xs)" and ?c = "drop (2 * w) xs"
    have d: "drop w (drop w xs) = ?c" by (simp add: mult_2)
    have b: "blocks k w xs = sort k ?a @ blocks k w (drop w xs)" "blocks k w (drop w xs) = sort k ?b @ blocks k w ?c"
      using False assms d by (simp_all add: blocks.simps [of k w xs] blocks.simps [of k w "drop w xs"] blocks.simps [of k w "[]"])
    have t: "take w (blocks k w xs) = sort k ?a" "take w (drop w (blocks k w xs)) = sort k ?b"
      "drop (2 * w) (blocks k w xs) = blocks k w ?c"
    proof -
      show "take w (blocks k w xs) = sort k ?a" "take w (drop w (blocks k w xs)) = sort k ?b"
        "drop (2 * w) (blocks k w xs) = blocks k w ?c"
        unfolding b by (cases "length xs \<le> w"; cases "length xs \<le> 2 * w";
          simp add: blocks.simps [of k w "[]"] mult_2 min_def)+
    qed
    have ne: "blocks k w xs \<noteq> []" using False assms length_blocks [of w k xs] by auto
    have "pass_seq k w (blocks k w xs) = merged k (sort k ?a) (sort k ?b) @ pass_seq k w (blocks k w ?c)"
      using ne assms by (subst pass_seq.simps) (simp add: t)
    also have "\<dots> = sort k (?a @ ?b) @ blocks k (2 * w) ?c"
      using less [of ?c] False assms by (simp add: merged_sorts)
    also have "?a @ ?b = take (2 * w) xs" by (simp add: mult_2 take_add)
    finally show ?thesis using False assms by (simp add: blocks.simps [of k "2 * w" xs])
  qed
qed

section \<open>What is linked already, and what is left\<close>

fun pchain :: "dlinks \<Rightarrow> ptr option \<Rightarrow> ptr list \<Rightarrow> bool" where
  "pchain s t [] \<longleftrightarrow> True"
| "pchain s t (a # as) \<longleftrightarrow> d_prev s a = t \<and> pchain s (Some a) as"

definition linked :: "dlinks \<Rightarrow> ptr option \<Rightarrow> ptr option \<Rightarrow> ptr list \<Rightarrow> bool" where
  "linked s list tail ds \<longleftrightarrow> pchain s None ds \<and>
     (case tail of None \<Rightarrow> ds = [] \<and> list = None
      | Some t \<Rightarrow> \<exists>us. ds = us @ [t] \<and> lpath (d_next s) list us (Some t))"

abbreviation left :: "ptr option \<Rightarrow> dlinks \<Rightarrow> ptr option \<Rightarrow> ptr list \<Rightarrow> ptr option \<Rightarrow> bool" where
  "left old s p as r \<equiv> lpath (ls_next old s) p as r"

lemma pchain_upd [simp]:
  "pchain (set_next u v s) t as = pchain s t as"
  "u \<notin> set as \<Longrightarrow> pchain (set_prev u v s) t as = pchain s t as"
  by (induction as arbitrary: t) auto

lemma pchain_append [simp]:
  "pchain s t (as @ bs) \<longleftrightarrow> pchain s t as \<and> pchain s (if as = [] then t else Some (last as)) bs"
  by (induction as arbitrary: t) auto

lemma left_cong:
  assumes "\<And>a. a \<in> set as \<Longrightarrow> d_next s' a = d_next s a"
  shows "left old s' p as r = left old s p as r"
  by (rule lpath_cong) (simp add: ls_next_def assms)

lemma ls_link_linked:
  assumes "linked s list tail ds" and "distinct (ds @ [e])" and "ls_link list tail e s = (s', list')"
  shows "linked s' list' (Some e) (ds @ [e])" and "\<And>x. x \<notin> set ds \<Longrightarrow> d_next s' x = d_next s x"
proof -
  have "linked s' list' (Some e) (ds @ [e]) \<and> (\<forall>x. x \<notin> set ds \<longrightarrow> d_next s' x = d_next s x)"
  proof (cases tail)
    case None
    with assms have "ds = []" "s' = set_prev e None s" "list' = Some e" by (auto simp: linked_def ls_link_def)
    then show ?thesis by (simp add: linked_def)
  next
    case (Some t)
    with assms have s': "s' = set_prev e (Some t) (set_next t (Some e) s)" "list' = list" by (auto simp: ls_link_def)
    from assms(1) Some obtain us where us: "ds = us @ [t]" "lpath (d_next s) list us (Some t)" "pchain s None ds"
      by (auto simp: linked_def)
    with assms(2) have d: "t \<notin> set us" "e \<noteq> t" "e \<notin> set us" "t \<noteq> e" by auto
    from us d have "lpath (d_next s') list ds (Some e)" by (simp add: s')
    moreover from us d have "pchain s' None (ds @ [e])" by (simp add: s')
    ultimately show ?thesis using s' us by (auto simp: linked_def)
  qed
  then show "linked s' list' (Some e) (ds @ [e])" "\<And>x. x \<notin> set ds \<Longrightarrow> d_next s' x = d_next s x" by auto
qed

lemma ls_walk_left:
  assumes "left old s (Some p) xs None"
  shows "ls_walk (ls_next old s) k p = (let n = min k (length xs) in (n, snd (ls_walk (ls_next old s) k p)))"
    and "left old s (Some p) (take k xs) (snd (ls_walk (ls_next old s) k p))"
    and "left old s (snd (ls_walk (ls_next old s) k p)) (drop k xs) None"
proof -
  have "fst (ls_walk (ls_next old s) k p) = min k (length xs) \<and>
    left old s (Some p) (take k xs) (snd (ls_walk (ls_next old s) k p)) \<and>
    left old s (snd (ls_walk (ls_next old s) k p)) (drop k xs) None"
    using assms
  proof (induction k arbitrary: p xs)
    case (Suc k)
    then obtain ys where xs: "xs = p # ys" "left old s (ls_next old s p) ys None" by (cases xs) auto
    show ?case
    proof (cases "ls_next old s p")
      case None
      with xs show ?thesis by simp
    next
      case (Some q)
      with Suc.IH [of q ys] xs show ?thesis by (auto split: prod.split)
    qed
  qed simp
  then show "ls_walk (ls_next old s) k p = (let n = min k (length xs) in (n, snd (ls_walk (ls_next old s) k p)))"
    "left old s (Some p) (take k xs) (snd (ls_walk (ls_next old s) k p))"
    "left old s (snd (ls_walk (ls_next old s) k p)) (drop k xs) None"
    by (simp_all add: Let_def prod_eq_iff)
qed

lemma ls_merge_holds:
  assumes k: "orders k cmp"
  shows "linked s list tail ds \<Longrightarrow> left old s p ps r \<Longrightarrow> left old s q qs None \<Longrightarrow> distinct (ds @ ps @ qs) \<Longrightarrow>
    \<exists>s' list' tail' q'. ls_merge old cmp (length ps) p n q s list tail = Inr (s', list', tail', q') \<and>
      linked s' list' tail' (ds @ merged k ps (take n qs)) \<and> left old s' q' (drop n qs) None \<and>
      (ps \<noteq> [] \<longrightarrow> tail' \<noteq> None)"
proof (induction "length ps + n" arbitrary: n ps qs ds p q s list tail rule: less_induct)
  case less
  have q: "q = None \<longleftrightarrow> qs = []" using less.prems(3) by (cases qs) auto
  show ?case
  proof (cases "ps = [] \<and> (n = 0 \<or> qs = [])")
    case True
    with less.prems q show ?thesis by (auto simp: ls_merge.simps)
  next
    case go: False
    show ?thesis
    proof (cases "takes_q cmp (length ps) p n q")
      case True
      with go q obtain b qs' m where b: "qs = b # qs'" "n = Suc m" "q = Some b"
        using less.prems(3) by (cases qs; cases n) (auto simp: takes_q_def split: if_splits)
      with less.prems(3) have nb: "left old s (ls_next old s b) qs' None" by simp
      obtain s1 list1 where l: "ls_link list tail b s = (s1, list1)" by fastforce
      have d: "distinct (ds @ [b])" using less.prems(4) b by auto
      note lk = ls_link_linked [OF less.prems(1) d l]
      have same: "d_next s1 x = d_next s x" if "x \<in> set ps \<union> set qs'" for x
        using that less.prems(4) b by (intro lk(2)) auto
      have lefts: "left old s1 p ps r" "left old s1 (ls_next old s b) qs' None"
        using less.prems(2) nb same left_cong [of ps s1 s] left_cong [of qs' s1 s] by simp_all
      have "merged k ps (take n qs) = b # merged k ps (take m qs')"
      proof (cases ps)
        case (Cons a ps')
        with less.prems(2) have "p = Some a" by simp
        with True Cons b have "cmp a b > 0" by (simp add: takes_q_def)
        with k Cons b show ?thesis by (simp add: orders_def)
      qed (simp add: b)
      with less.hyps [where ps = ps and n = m and ds = "ds @ [b]" and s = s1 and list = list1 and
          tail = "Some b" and p = p and q = "ls_next old s b" and qs = qs'] lk(1) lefts less.prems(4) b
      obtain s' list' tail' q' where
        "ls_merge old cmp (length ps) p m (ls_next old s b) s1 list1 (Some b) = Inr (s', list', tail', q')"
        "linked s' list' tail' (ds @ merged k ps (take n qs))" "left old s' q' (drop m qs') None"
        "ps \<noteq> [] \<longrightarrow> tail' \<noteq> None" by auto
      with go True b l q show ?thesis by (auto simp: ls_merge.simps [of old cmp "length ps"])
    next
      case False
      then obtain a ps' where a: "ps = a # ps'" by (cases ps) (auto simp: takes_q_def)
      with less.prems(2) have p: "p = Some a" "left old s (ls_next old s a) ps' r" by auto
      obtain s1 list1 where l: "ls_link list tail a s = (s1, list1)" by fastforce
      have d: "distinct (ds @ [a])" using less.prems(4) a by auto
      note lk = ls_link_linked [OF less.prems(1) d l]
      have same: "d_next s1 x = d_next s x" if "x \<in> set ps' \<union> set qs" for x
        using that less.prems(4) a by (intro lk(2)) auto
      have lefts: "left old s1 (ls_next old s a) ps' r" "left old s1 q qs None"
        using less.prems(3) p(2) same left_cong [of ps' s1 s] left_cong [of qs s1 s] by simp_all
      have m: "merged k ps (take n qs) = a # merged k ps' (take n qs)"
      proof (cases "take n qs")
        case (Cons b qs')
        then obtain m qs1 where "n = Suc m" "qs = b # qs1" by (cases n; cases qs) auto
        with less.prems(3) have "n \<noteq> 0" "q = Some b" by auto
        with False a p \<open>n \<noteq> 0\<close> have "\<not> cmp a b > 0" by (auto simp: takes_q_def)
        with k Cons a show ?thesis by (simp add: orders_def)
      next
        case Nil
        then show ?thesis unfolding Nil a by (cases ps') simp_all
      qed
      from less.hyps [where ps = ps' and n = n and ds = "ds @ [a]" and s = s1 and list = list1 and
          tail = "Some a" and p = "ls_next old s a" and q = q and qs = qs] lk(1) lefts less.prems(4) a
      obtain s' list' tail' q' where
        "ls_merge old cmp (length ps') (ls_next old s a) n q s1 list1 (Some a) = Inr (s', list', tail', q')"
        "linked s' list' tail' ((ds @ [a]) @ merged k ps' (take n qs))" "left old s' q' (drop n qs) None" by auto
      moreover from this(2) have "tail' \<noteq> None" by (cases tail') (auto simp: linked_def)
      ultimately show ?thesis using go False a l p m by (auto simp: ls_merge.simps [of old cmp "Suc _"])
    qed
  qed
qed

lemma merged_set: "set (merged k xs ys) = set xs \<union> set ys"
  by (metis mset_merge set_mset_mset set_mset_union)

lemma merged_distinct: "distinct (xs @ ys) \<Longrightarrow> distinct (merged k xs ys)"
  by (metis mset_append mset_eq_imp_distinct_iff mset_merge)

lemma ls_pass_holds:
  assumes k: "orders k cmp" and w: "0 < w"
  shows "linked s list tail ds \<Longrightarrow> left old s p xs None \<Longrightarrow> distinct (ds @ xs) \<Longrightarrow>
    \<exists>s' list' tail'. ls_pass old cmp w p m s list tail = Some (Inr (s', list', tail', m + runs w xs)) \<and>
      linked s' list' tail' (ds @ pass_seq k w xs)"
proof (induction "length xs" arbitrary: xs ds p m s list tail rule: less_induct)
  case less
  show ?case
  proof (cases xs)
    case Nil
    with less.prems show ?thesis by (simp add: ls_pass.simps pass_seq.simps runs.simps)
  next
    case (Cons a ys)
    with less.prems(2) have p: "p = Some a" by simp
    let ?ps = "take w xs" and ?qs = "drop w xs"
    define q where "q = snd (ls_walk (ls_next old s) w a)"
    note wk = ls_walk_left [OF less.prems(2) [unfolded p], of w, folded q_def]
    from wk(1) have f: "fst (ls_walk (ls_next old s) w a) = length ?ps" by (simp add: prod_eq_iff min.commute)
    have d: "distinct (ds @ ?ps @ ?qs)" using less.prems(3) by simp
    from ls_merge_holds [OF k less.prems(1) wk(2) [folded p] wk(3) d, of w] obtain s1 list1 tail1 q1 where
      m: "ls_merge old cmp (length ?ps) p w q s list tail = Inr (s1, list1, tail1, q1)"
      "linked s1 list1 tail1 (ds @ merged k ?ps (take w ?qs))" "left old s1 q1 (drop w ?qs) None" by blast
    have dr: "drop w ?qs = drop (2 * w) xs" by (simp add: mult_2)
    let ?A = "?ps @ take w ?qs" and ?m = "merged k ?ps (take w ?qs)"
    have "?A @ drop (2 * w) xs = xs" by (metis append_take_drop_id append_assoc dr)
    with less.prems(3) have A: "distinct (ds @ ?A @ drop (2 * w) xs)" by simp
    have "set ?m = set ?A" by (simp only: merged_set set_append)
    moreover from A have "distinct ?m" by (intro merged_distinct) (simp only: distinct_append)
    ultimately have d1: "distinct ((ds @ ?m) @ drop (2 * w) xs)" using A
      by (simp only: distinct_append set_append append_assoc) blast
    have sh: "length (drop (2 * w) xs) < length xs" using w Cons by simp
    from less.hyps [OF sh m(2) m(3) [unfolded dr] d1, of "Suc m"] obtain s' list' tail' where
      "ls_pass old cmp w q1 (Suc m) s1 list1 tail1 = Some (Inr (s', list', tail', Suc m + runs w (drop (2 * w) xs)))"
      "linked s' list' tail' ((ds @ merged k ?ps (take w ?qs)) @ pass_seq k w (drop (2 * w) xs))" by blast
    moreover have "runs w xs = Suc (runs w (drop (2 * w) xs))" "pass_seq k w xs = ?m @ pass_seq k w (drop (2 * w) xs)"
      using w Cons runs.simps [of w xs] pass_seq.simps [of k w xs] by simp_all
    ultimately show ?thesis using m(1)
      by (auto simp: p ls_pass.simps [of _ _ _ "Some a"] f q_def [symmetric] simp del: length_take)
  qed
qed

section \<open>The sorts\<close>

text \<open>A circular list: the \<open>next\<close> of the last node is the head.\<close>

definition cdlist :: "dlinks \<Rightarrow> ptr option \<Rightarrow> ptr list \<Rightarrow> bool" where
  "cdlist s head as \<longleftrightarrow> distinct as \<and>
     (if as = [] then head = None
      else lpath (d_next s) head as head \<and> head = Some (hd as) \<and> dprevs s (last as) as)"

lemma linked_all:
  assumes "linked s list tail ds" and "ds \<noteq> []" and "distinct ds"
  obtains l t where "list = Some l" "tail = Some t"
    "dlist (set_next t None (set_prev l tail s)) list ds"
    "cdlist (set_next t list (set_prev l tail s)) list ds"
proof -
  from assms obtain us t where t: "tail = Some t" "ds = us @ [t]" "lpath (d_next s) list us (Some t)" "pchain s None ds"
    by (auto simp: linked_def simp del: pchain_append split: option.splits)
  then obtain l where l: "list = Some l" "hd ds = l" by (cases us) auto
  obtain vs where vs: "ds = l # vs" using l assms(2) by (cases ds) auto
  have pc: "pchain s (Some a) as \<Longrightarrow> l \<notin> set as \<Longrightarrow> dprevs (set_next t n (set_prev l tail s)) a as" for a as n
    by (induction as arbitrary: a) auto
  from t(4) vs assms(3) have "dprevs (set_next t n (set_prev l tail s)) l vs" for n by (intro pc) auto
  with t(1) have "dprevs (set_next t n (set_prev l tail s)) t (l # vs)" for n by simp
  moreover have "last ds = t" using t(2) by simp
  ultimately have pr: "dprevs (set_next t n (set_prev l tail s)) (last ds) ds" for n by (simp only: vs)
  from t assms(3) have n: "lpath (d_next (set_next t n (set_prev l tail s))) list ds n" for n by simp
  show ?thesis
    using that [OF l(1) t(1)] n pr l assms(2,3) by (simp add: dlist_def cdlist_def)
qed

lemma left_dlist: "dlist s p xs \<Longrightarrow> left None s p xs None \<and> distinct xs"
proof -
  assume d: "dlist s p xs"
  have "left None s p xs None \<longleftrightarrow> llist (d_next s) p xs" by (rule lpath_cong) (auto simp: ls_next_def)
  with d dlist_distinct [OF d] show ?thesis by (simp add: dlist_def)
qed

lemma left_circle:
  "lpath (d_next s) q bs (Some h) \<Longrightarrow> h \<notin> set bs \<Longrightarrow>
    left (Some h) s (if q = Some h then None else q) bs None"
  by (induction bs arbitrary: q) (auto simp: ls_next_def)

lemma left_cdlist: "cdlist s p xs \<Longrightarrow> left p s p xs None \<and> distinct xs"
proof (cases xs)
  case (Cons a as)
  assume c: "cdlist s p xs"
  with Cons have p: "p = Some a" "lpath (d_next s) (d_next s a) as (Some a)" "a \<notin> set as" by (auto simp: cdlist_def)
  with left_circle [OF p(2,3)] Cons c show ?thesis by (simp add: cdlist_def ls_next_def)
qed (simp add: cdlist_def)

text \<open>A pass over blocks of \<open>w\<close> sorted elements leaves blocks of twice the size.\<close>

lemma pass_halves:
  assumes "orders k cmp" and "0 < w" and "left old s p (blocks k w xs) None" and "distinct (blocks k w xs)" and "xs \<noteq> []"
  obtains s1 list1 tail1 where
    "ls_pass old cmp w p 0 s None None = Some (Inr (s1, list1, tail1, runs w (blocks k w xs)))"
    "linked s1 list1 tail1 (blocks k (2 * w) xs)" "blocks k (2 * w) xs \<noteq> []" "distinct (blocks k (2 * w) xs)"
proof -
  have "linked s None None []" by (simp add: linked_def)
  from ls_pass_holds [OF assms(1,2) this assms(3), of 0] assms(2,4) obtain s1 list1 tail1 where
    p: "ls_pass old cmp w p 0 s None None = Some (Inr (s1, list1, tail1, runs w (blocks k w xs)))"
    "linked s1 list1 tail1 (blocks k (2 * w) xs)"
    by (auto simp: pass_blocks)
  have "length (blocks k (2 * w) xs) = length (blocks k w xs)" "set (blocks k (2 * w) xs) = set (blocks k w xs)"
    using assms(2) by (simp_all add: length_blocks set_blocks)
  with assms(4) have "distinct (blocks k (2 * w) xs)" by (metis card_distinct distinct_card)
  moreover have "blocks k (2 * w) xs \<noteq> []" using assms(2,5) length_blocks [of "2 * w" k xs] by auto
  ultimately show ?thesis using p that by blast
qed

lemma last_pass:
  assumes "0 < w"
  shows "runs w (blocks k w xs) \<le> 1 \<longleftrightarrow> length xs \<le> 2 * w"
    and "length xs \<le> 2 * w \<Longrightarrow> blocks k (2 * w) xs = sort k xs"
  using assms by (simp_all add: runs_few [OF assms, unfolded One_nat_def] length_blocks blocks_short)

lemma pass_fits:
  assumes "0 < w" and "w = 1 \<or> w < length xs" and "length xs \<le> 2 ^ 30"
  shows "ints_fit w (runs w (blocks k w xs))"
proof -
  have "runs w (blocks k w xs) \<le> 2 ^ 30"
    using runs_le [of w "blocks k w xs"] assms(1,3) by (simp add: length_blocks)
  moreover have "w < 2 ^ 30" using assms(2,3) by auto
  ultimately show ?thesis by (simp add: ints_fit_def)
qed

lemma dl_sort_holds:
  assumes k: "orders k cmp"
  shows "dlist s list (blocks k w xs) \<Longrightarrow> xs \<noteq> [] \<Longrightarrow> 0 < w \<Longrightarrow>
    w = 1 \<or> w < length xs \<Longrightarrow> length xs \<le> 2 ^ 30 \<Longrightarrow>
    \<exists>s' list'. dl_sort_loop cmp w s list = Some (Inr (s', list')) \<and> dlist s' list' (sort k xs)"
proof (induction "length xs - w" arbitrary: w s list rule: less_induct)
  case less
  from left_dlist [OF less.prems(1)] pass_halves [OF k less.prems(3) _ _ less.prems(2)] obtain s1 list1 tail1 where
    p: "ls_pass None cmp w list 0 s None None = Some (Inr (s1, list1, tail1, runs w (blocks k w xs)))"
    and l: "linked s1 list1 tail1 (blocks k (2 * w) xs)" "blocks k (2 * w) xs \<noteq> []" "distinct (blocks k (2 * w) xs)"
    by blast
  from linked_all [OF l] obtain l t where
    lt: "list1 = Some l" "tail1 = Some t" "dlist (set_next t None (set_prev l tail1 s1)) list1 (blocks k (2 * w) xs)"
    by metis
  have fit: "ints_fit w (runs w (blocks k w xs))" by (rule pass_fits [OF less.prems(3-5)])
  show ?case
  proof (cases "length xs \<le> 2 * w")
    case True
    with p lt last_pass [OF less.prems(3)] fit show ?thesis by (simp add: dl_sort_loop.simps [of cmp w] Let_def)
  next
    case False
    with less.hyps [of "2 * w", OF _ lt(3) less.prems(2)] less.prems(3,5) p lt last_pass [OF less.prems(3)] fit
    show ?thesis by (simp add: dl_sort_loop.simps [of cmp w] Let_def mult.commute)
  qed
qed

lemma cdl_sort_holds:
  assumes k: "orders k cmp"
  shows "cdlist s list (blocks k w xs) \<Longrightarrow> xs \<noteq> [] \<Longrightarrow> 0 < w \<Longrightarrow>
    w = 1 \<or> w < length xs \<Longrightarrow> length xs \<le> 2 ^ 30 \<Longrightarrow>
    \<exists>s' list'. cdl_sort_loop cmp w s list = Some (Inr (s', list')) \<and> cdlist s' list' (sort k xs)"
proof (induction "length xs - w" arbitrary: w s list rule: less_induct)
  case less
  from left_cdlist [OF less.prems(1)] pass_halves [OF k less.prems(3) _ _ less.prems(2)] obtain s1 list1 tail1 where
    p: "ls_pass list cmp w list 0 s None None = Some (Inr (s1, list1, tail1, runs w (blocks k w xs)))"
    and l: "linked s1 list1 tail1 (blocks k (2 * w) xs)" "blocks k (2 * w) xs \<noteq> []" "distinct (blocks k (2 * w) xs)"
    by blast
  from linked_all [OF l] obtain l t where
    lt: "list1 = Some l" "tail1 = Some t" "cdlist (set_next t list1 (set_prev l tail1 s1)) list1 (blocks k (2 * w) xs)"
    by metis
  have fit: "ints_fit w (runs w (blocks k w xs))" by (rule pass_fits [OF less.prems(3-5)])
  show ?case
  proof (cases "length xs \<le> 2 * w")
    case True
    with p lt last_pass [OF less.prems(3)] fit show ?thesis by (simp add: cdl_sort_loop.simps [of cmp w] Let_def)
  next
    case False
    with less.hyps [of "2 * w", OF _ lt(3) less.prems(2)] less.prems(3,5) p lt last_pass [OF less.prems(3)] fit
    show ?thesis by (simp add: cdl_sort_loop.simps [of cmp w] Let_def mult.commute)
  qed
qed

lemma ls_next_none: "ls_next None s = d_next s"
  by (auto simp: ls_next_def)

lemma ll_merge_next:
  "old = None \<Longrightarrow> ll_merge cmp psize p qsize q (d_next s) list tail =
    map_sum (\<lambda>e. e) (\<lambda>(s, list, tail, q). (d_next s, list, tail, q)) (ls_merge old cmp psize p qsize q s list tail)"
proof (induction old cmp psize p qsize q s list tail rule: ls_merge.induct)
  case (1 old cmp psize p qsize q s list tail)
  then show ?case
    by (subst ll_merge.simps, subst ls_merge.simps)
      (auto simp: ls_next_none ls_link_def ll_link_def split: option.splits)
qed

lemma ll_pass_next:
  assumes "ls_pass None cmp w p m s list tail = Some (Inr (s', list', tail', n))"
  shows "ll_pass cmp w p m (d_next s) list tail = Some (Inr (d_next s', list', tail', n))"
proof -
  let ?P = "\<lambda>(old :: ptr option) cmp w p m s list tail (r :: (dlinks \<times> ptr option \<times> ptr option \<times> nat) res).
    old = None \<longrightarrow> (\<forall>s' list' tail' n. r = Inr (s', list', tail', n) \<longrightarrow>
      ll_pass cmp w p m (d_next s) list tail = Some (Inr (d_next s', list', tail', n)))"
  have "?P None cmp w p m s list tail (Inr (s', list', tail', n))"
  proof (rule ls_pass.raw_induct [where P = ?P, OF _ assms], intro impI allI, goal_cases)
    case (1 f old cmp w p m s list tail r s' list' tail' n)
    show ?case
    proof (cases p)
      case None
      with 1(2,4) show ?thesis by (simp add: ll_pass.simps)
    next
      case (Some p0)
      let ?w = "ls_walk (d_next s) w p0"
      from 1(2-4) Some obtain s1 l1 t1 q1 where m: "ls_merge None cmp (fst ?w) p w (snd ?w) s list tail = Inr (s1, l1, t1, q1)"
        by (cases "ls_merge None cmp (fst ?w) p w (snd ?w) s list tail") (auto simp: ls_next_none)
      with 1(2-4) Some have "f None cmp w q1 (Suc m) s1 l1 t1 = Some (Inr (s', list', tail', n))"
        by (simp add: ls_next_none)
      with 1(1) have "ll_pass cmp w q1 (Suc m) (d_next s1) l1 t1 = Some (Inr (d_next s', list', tail', n))" by blast
      with Some m show ?thesis by (subst ll_pass.simps) (simp add: ll_merge_next)
    qed
  qed
  then show ?thesis by blast
qed

lemma ll_sort_next:
  assumes "dl_sort_loop cmp w s list = Some (Inr (s', list'))"
  shows "ll_sort_loop cmp w (d_next s) list = Some (Inr (d_next s', list'))"
proof -
  let ?P = "\<lambda>cmp w s list (r :: (dlinks \<times> ptr option) res). \<forall>s' list'. r = Inr (s', list') \<longrightarrow>
      ll_sort_loop cmp w (d_next s) list = Some (Inr (d_next s', list'))"
  have "?P cmp w s list (Inr (s', list'))"
  proof (rule dl_sort_loop.raw_induct [where P = ?P, OF _ assms], intro impI allI, goal_cases)
    case (1 f cmp w s list r s' list')
    let ?r = "ls_pass None cmp w list 0 s None None"
    from 1(2,3) obtain s1 l1 t1 n where p: "?r = Some (Inr (s1, l1, t1, n))"
      by (cases ?r) (auto split: sum.splits)
    from 1(2,3) p obtain l t where lt: "l1 = Some l" "t1 = Some t" by (auto simp: Let_def split: option.splits)
    let ?s = "set_next t None (set_prev l t1 s1)"
    from ll_pass_next [OF p] lt have q: "ll_pass cmp w list 0 (d_next s) None None = Some (Inr (d_next s1, l1, Some t, n))" by simp
    from 1(2,3) p lt have fit: "ints_fit w n" by (auto simp: Let_def split: if_splits)
    show ?case
    proof (cases "n \<le> 1")
      case True
      with fit 1(2,3) p lt q show ?thesis by (auto simp: ll_sort_loop.simps [of cmp w "d_next s"] Let_def)
    next
      case False
      with fit 1(2,3) p lt have "f cmp (w * 2) ?s l1 = Some (Inr (s', list'))" by (simp add: Let_def)
      with 1(1) have "ll_sort_loop cmp (w * 2) (d_next ?s) l1 = Some (Inr (d_next s', list'))" by blast
      with False fit lt q show ?thesis by (subst ll_sort_loop.simps) (simp add: Let_def)
    qed
  qed
  then show ?thesis by blast
qed

text \<open>
  With more than \<open>2 ^ 30\<close> elements the length of the runs does leave the range of an \<open>int\<close>.
\<close>

lemma dl_sort_overflows:
  assumes k: "orders k cmp" and long: "length xs > 2 ^ 30"
  shows "dlist s list (blocks k w xs) \<Longrightarrow> w = 2 ^ i \<Longrightarrow> i \<le> 30 \<Longrightarrow> dl_sort_loop cmp w s list = Some (Inl Overflow)"
proof (induction "30 - i" arbitrary: i w s list rule: less_induct)
  case less
  have w: "0 < w" and ne: "xs \<noteq> []" using less.prems(2) long by auto
  from left_dlist [OF less.prems(1)] pass_halves [OF k w _ _ ne] obtain s1 list1 tail1 where
    p: "ls_pass None cmp w list 0 s None None = Some (Inr (s1, list1, tail1, runs w (blocks k w xs)))"
    and l: "linked s1 list1 tail1 (blocks k (2 * w) xs)" "blocks k (2 * w) xs \<noteq> []" "distinct (blocks k (2 * w) xs)"
    by blast
  from linked_all [OF l] obtain l t where
    lt: "list1 = Some l" "tail1 = Some t" "dlist (set_next t None (set_prev l tail1 s1)) list1 (blocks k (2 * w) xs)"
    by metis
  show ?case
  proof (cases "ints_fit w (runs w (blocks k w xs))")
    case False
    with p lt show ?thesis by (simp add: dl_sort_loop.simps [of cmp w] Let_def)
  next
    case True
    have "i \<noteq> 30" using True less.prems(2) by (auto simp: ints_fit_def)
    then have i: "i < 30" using less.prems(3) by simp
    then have "(2 :: nat) ^ Suc i \<le> 2 ^ 30" by (intro power_increasing) simp_all
    then have more: "\<not> length xs \<le> 2 * w" using long less.prems(2) by simp
    have "dl_sort_loop cmp (2 * w) (set_next t None (set_prev l tail1 s1)) list1 = Some (Inl Overflow)"
      using less.hyps [where i = "Suc i" and w = "2 * w"] i lt(3) less.prems(2) by simp
    with True more p lt last_pass [OF w] show ?thesis
      by (simp add: dl_sort_loop.simps [of cmp w] Let_def mult.commute)
  qed
qed

text \<open>
  C38: for a comparison that orders the elements (a total preorder), and on a well-formed list
  of at most \<open>2 ^ 30\<close> elements (so that the \<open>int\<close> counters stay in range), the three sorts end, and leave the elements of the list in the order of the comparison, those
  that compare equal in the order they had: the stable sort of the sequence, in a list that is
  well formed again, with its \<open>prev\<close> fields.
\<close>

theorem sorts_stable:
  assumes "orders k cmp" and "dlist s p xs" and "cdlist t q ys"
    and "length xs \<le> 2 ^ 30" and "length ys \<le> 2 ^ 30"
  shows "\<exists>s' p' t' q'. DL_SORT cmp s p = Some (Inr (s', p')) \<and> dlist s' p' (sort k xs) \<and>
    LL_SORT cmp (d_next s) p = Some (Inr (d_next s', p')) \<and>
    CDL_SORT cmp t q = Some (Inr (t', q')) \<and> cdlist t' q' (sort k ys)"
proof -
  have "\<exists>s' p'. DL_SORT cmp s p = Some (Inr (s', p')) \<and> dlist s' p' (sort k xs) \<and>
      LL_SORT cmp (d_next s) p = Some (Inr (d_next s', p'))"
  proof (cases "xs = []")
    case True
    with assms(2) show ?thesis by (simp add: DL_SORT_def LL_SORT_def dlist_def)
  next
    case False
    with assms(2) have "p \<noteq> None" by (cases p) auto
    from dl_sort_holds [OF assms(1), where w = 1, unfolded blocks_one, OF assms(2) False] assms(4) obtain s' p' where
      d: "dl_sort_loop cmp 1 s p = Some (Inr (s', p'))" "dlist s' p' (sort k xs)" by auto
    with ll_sort_next [OF d(1)] \<open>p \<noteq> None\<close> show ?thesis by (auto simp: DL_SORT_def LL_SORT_def)
  qed
  moreover have "\<exists>t' q'. CDL_SORT cmp t q = Some (Inr (t', q')) \<and> cdlist t' q' (sort k ys)"
  proof (cases "ys = []")
    case True
    with assms(3) show ?thesis by (simp add: CDL_SORT_def cdlist_def)
  next
    case False
    with assms(3) have "q \<noteq> None" by (auto simp: cdlist_def)
    with cdl_sort_holds [OF assms(1), where w = 1, unfolded blocks_one, OF assms(3) False] assms(5) show ?thesis
      by (auto simp: CDL_SORT_def)
  qed
  ultimately show ?thesis by blast
qed

definition by_address :: "ptr \<Rightarrow> ptr \<Rightarrow> int" where
  "by_address a b = int a - int b"

theorem sorts_stable_witness:
  "\<exists>s p. DL_SORT by_address \<lparr>d_next = [5 \<mapsto> 3], d_prev = [5 \<mapsto> 3, 3 \<mapsto> 5]\<rparr> (Some 5) = Some (Inr (s, p)) \<and> dlist s p [3, 5]"
proof -
  let ?s = "\<lparr>d_next = [5 \<mapsto> 3], d_prev = [5 \<mapsto> 3, 3 \<mapsto> 5]\<rparr>"
  have k: "orders default by_address" by (auto simp: orders_def by_address_def)
  have d: "dlist ?s (Some 5) [5, 3]" by (simp add: dlist_def)
  have e: "cdlist ?s None []" by (simp add: cdlist_def)
  have "sort default [5, 3 :: nat] = [3, 5]" by (simp add: sort_def)
  with sorts_stable [OF k d e] show ?thesis by auto
qed

end
