(* ===== verification/Utlist_More.thy ===== *)
theory Utlist_More
  imports Utlist_Sort
begin

text \<open>
  The macros of \<open>lib/ut/utlist.h\<close> beside those of \<open>Utlist\<close>, \<open>Utdlist\<close> and \<open>Utlist_Sort\<close>: walking,
  counting and searching, replacing and inserting at an element, and the circular lists. Each
  does to a well-formed list what an operation on its sequence of nodes does.
\<close>

section \<open>Walking a list\<close>

text \<open>\<open>LL_COUNT\<close> and \<open>LL_SEARCH\<close> over \<open>LL_FOREACH\<close>; \<open>stops\<close> is the test of the search.\<close>

partial_function (option) ll_count_loop :: "nexts \<Rightarrow> ptr option \<Rightarrow> nat \<Rightarrow> nat option" where
  "ll_count_loop nx el counter =
     (case el of None \<Rightarrow> Some counter | Some p \<Rightarrow> ll_count_loop nx (nx p) (Suc counter))"

definition LL_COUNT :: "nexts \<Rightarrow> ptr option \<Rightarrow> nat option" where
  "LL_COUNT nx head = ll_count_loop nx head 0"

partial_function (option) LL_SEARCH :: "(ptr \<Rightarrow> bool) \<Rightarrow> nexts \<Rightarrow> ptr option \<Rightarrow> ptr option option" where
  "LL_SEARCH stops nx out =
     (case out of None \<Rightarrow> Some None | Some p \<Rightarrow> if stops p then Some out else LL_SEARCH stops nx (nx p))"

definition DL_COUNT :: "dlinks \<Rightarrow> ptr option \<Rightarrow> nat option" where
  "DL_COUNT s head = ll_count_loop (d_next s) head 0"

definition cdl_step :: "dlinks \<Rightarrow> ptr option \<Rightarrow> ptr \<Rightarrow> ptr option" where
  "cdl_step s head p = (if d_next s p = head then None else d_next s p)"

definition CDL_COUNT :: "dlinks \<Rightarrow> ptr option \<Rightarrow> nat option" where
  "CDL_COUNT s head = ll_count_loop (cdl_step s head) head 0"

definition CDL_SEARCH :: "(ptr \<Rightarrow> bool) \<Rightarrow> dlinks \<Rightarrow> ptr option \<Rightarrow> ptr option option" where
  "CDL_SEARCH stops s head = LL_SEARCH stops (cdl_step s head) head"

section \<open>Changing a list\<close>

definition LL_REPLACE_ELEM :: "nexts \<Rightarrow> ptr option \<Rightarrow> ptr \<Rightarrow> ptr \<Rightarrow> (nexts \<times> ptr option) res option" where
  "LL_REPLACE_ELEM nx head el add =
     (case head of
        None \<Rightarrow> Some (Inl Assert_failed)
      | Some h \<Rightarrow>
          (let nx = nx(add := nx el) in
           if h = el then Some (Inr (nx, Some add))
           else do { t \<leftarrow> ll_before nx h el;
                     Some (Inr (if nx t \<noteq> None then nx(t := Some add) else nx, head)) }))"

definition LL_PREPEND_ELEM :: "nexts \<Rightarrow> ptr option \<Rightarrow> ptr \<Rightarrow> ptr \<Rightarrow> (nexts \<times> ptr option) res option" where
  "LL_PREPEND_ELEM nx head el add =
     (case head of
        None \<Rightarrow> Some (Inl Assert_failed)
      | Some h \<Rightarrow>
          (let nx = nx(add := Some el) in
           if h = el then Some (Inr (nx, Some add))
           else do { t \<leftarrow> ll_before nx h el;
                     Some (Inr (if nx t \<noteq> None then nx(t := Some add) else nx, head)) }))"

definition DL_PREPEND :: "dlinks \<Rightarrow> ptr option \<Rightarrow> ptr \<Rightarrow> dlinks \<times> ptr option" where
  "DL_PREPEND s head add =
     (let s = set_next add head s in
      (case head of
         Some h \<Rightarrow> set_prev h (Some add) (set_prev add (d_prev s h) s)
       | None \<Rightarrow> set_prev add (Some add) s, Some add))"

definition DL_CONCAT :: "dlinks \<Rightarrow> ptr option \<Rightarrow> ptr option \<Rightarrow> (dlinks \<times> ptr option) res" where
  "DL_CONCAT s head1 head2 =
     (case head2 of
        None \<Rightarrow> Inr (s, head1)
      | Some h2 \<Rightarrow>
          (case head1 of
             None \<Rightarrow> Inr (s, head2)
           | Some h1 \<Rightarrow>
               (let tmp = d_prev s h2; s = set_prev h2 (d_prev s h1) s in
                case d_prev s h1 of
                  None \<Rightarrow> Inl Null_deref
                | Some l \<Rightarrow> Inr (set_prev h1 tmp (set_next l head2 s), head1))))"

definition DL_REPLACE_ELEM :: "dlinks \<Rightarrow> ptr option \<Rightarrow> ptr \<Rightarrow> ptr \<Rightarrow> (dlinks \<times> ptr option) res" where
  "DL_REPLACE_ELEM s head el add =
     (case head of
        None \<Rightarrow> Inl Assert_failed
      | Some h \<Rightarrow>
          if h = el then
            (let s = set_next add (d_next s el) s in
             case d_next s el of
               None \<Rightarrow> Inr (set_prev add (Some add) s, Some add)
             | Some n \<Rightarrow> Inr (set_prev n (Some add) (set_prev add (d_prev s el) s), Some add))
          else
            (let s = set_prev add (d_prev s el) (set_next add (d_next s el) s) in
             case d_prev s add of
               None \<Rightarrow> Inl Null_deref
             | Some p \<Rightarrow>
                 (let s = set_next p (Some add) s in
                  Inr (case d_next s el of
                         None \<Rightarrow> set_prev h (Some add) s
                       | Some n \<Rightarrow> (case d_next s add of None \<Rightarrow> s | Some m \<Rightarrow> set_prev m (Some add) s), head))))"

definition DL_PREPEND_ELEM :: "dlinks \<Rightarrow> ptr option \<Rightarrow> ptr \<Rightarrow> ptr \<Rightarrow> (dlinks \<times> ptr option) res" where
  "DL_PREPEND_ELEM s head el add =
     (if head = None then Inl Assert_failed
      else
        let s = set_prev el (Some add) (set_prev add (d_prev s el) (set_next add (Some el) s)) in
        if head = Some el then Inr (s, Some add)
        else case d_prev s add of None \<Rightarrow> Inl Null_deref | Some p \<Rightarrow> Inr (set_next p (Some add) s, head))"

definition CDL_PREPEND :: "dlinks \<Rightarrow> ptr option \<Rightarrow> ptr \<Rightarrow> (dlinks \<times> ptr option) res" where
  "CDL_PREPEND s head add =
     (case head of
        Some h \<Rightarrow>
          (let s = set_prev h (Some add) (set_next add head (set_prev add (d_prev s h) s)) in
           case d_prev s add of None \<Rightarrow> Inl Null_deref | Some p \<Rightarrow> Inr (set_next p (Some add) s, Some add))
      | None \<Rightarrow> Inr (set_next add (Some add) (set_prev add (Some add) s), Some add))"

definition CDL_DELETE :: "dlinks \<Rightarrow> ptr option \<Rightarrow> ptr \<Rightarrow> (dlinks \<times> ptr option) res" where
  "CDL_DELETE s head del =
     (if head = Some del \<and> d_next s del = head then Inr (s, None)
      else case d_next s del of
        None \<Rightarrow> Inl Null_deref
      | Some n \<Rightarrow>
          (let s = set_prev n (d_prev s del) s in
           case d_prev s del of
             None \<Rightarrow> Inl Null_deref
           | Some p \<Rightarrow>
               (let s = set_next p (d_next s del) s in
                Inr (s, if head = Some del then d_next s del else head))))"

definition CDL_REPLACE_ELEM :: "dlinks \<Rightarrow> ptr option \<Rightarrow> ptr \<Rightarrow> ptr \<Rightarrow> (dlinks \<times> ptr option) res" where
  "CDL_REPLACE_ELEM s head el add =
     (if head = None then Inl Assert_failed
      else if d_next s el = Some el then Inr (set_prev add (Some add) (set_next add (Some add) s), Some add)
      else
        let s = set_prev add (d_prev s el) (set_next add (d_next s el) s) in
        case d_next s add of
          None \<Rightarrow> Inl Null_deref
        | Some n \<Rightarrow>
            (let s = set_prev n (Some add) s in
             case d_prev s add of
               None \<Rightarrow> Inl Null_deref
             | Some p \<Rightarrow> Inr (set_next p (Some add) s, if head = Some el then Some add else head)))"

definition CDL_PREPEND_ELEM :: "dlinks \<Rightarrow> ptr option \<Rightarrow> ptr \<Rightarrow> ptr \<Rightarrow> (dlinks \<times> ptr option) res" where
  "CDL_PREPEND_ELEM s head el add =
     (if head = None then Inl Assert_failed
      else
        let s = set_prev el (Some add) (set_prev add (d_prev s el) (set_next add (Some el) s)) in
        case d_prev s add of
          None \<Rightarrow> Inl Null_deref
        | Some p \<Rightarrow> Inr (set_next p (Some add) s, if head = Some el then Some add else head))"

section \<open>Lists that end\<close>

lemma ll_count_llist: "llist nx p as \<Longrightarrow> ll_count_loop nx p n = Some (n + length as)"
  by (induction as arbitrary: p n) (auto simp: ll_count_loop.simps [of nx None] ll_count_loop.simps [of nx "Some _"])

lemma LL_SEARCH_llist: "llist nx p as \<Longrightarrow> LL_SEARCH stops nx p = Some (List.find stops as)"
  by (induction as arbitrary: p) (auto simp: LL_SEARCH.simps [of stops nx None] LL_SEARCH.simps [of stops nx "Some _"])

lemma llist_before:
  assumes "llist nx p (us @ x # vs)" and "us \<noteq> []"
  obtains h us1 where "p = Some h" "h \<noteq> x" "ll_before nx h x = Some (last us)" "us = us1 @ [last us]"
    "lpath nx p us1 (Some (last us))" "nx (last us) = Some x" "last us \<notin> set us1" "last us \<notin> set vs" "last us \<noteq> x"
proof -
  from assms obtain h us' where h: "p = Some h" "us = h # us'" by (cases us) auto
  from llist_distinct [OF assms(1)] have d: "distinct (us @ x # vs)" .
  from assms(2) have us: "us = butlast us @ [last us]" by simp
  with assms(1) have "llist nx p ((butlast us @ [last us]) @ x # vs)" by simp
  then have "lpath nx p (butlast us) (Some (last us))" "nx (last us) = Some x" by auto
  moreover have "distinct (butlast us @ [last us] @ x # vs)" using d us by (metis append_assoc)
  moreover have "h \<noteq> x" using d h(2) by auto
  ultimately show ?thesis
    using that [OF h(1) _ ll_before_llist [OF assms(1) [unfolded h(1)] assms(2)] us] by simp
qed

lemma LL_REPLACE_llist:
  assumes "llist nx p (us @ x # vs)" and "a \<notin> set (us @ x # vs)"
  shows "\<exists>nx' p'. LL_REPLACE_ELEM nx p x a = Some (Inr (nx', p')) \<and> llist nx' p' (us @ a # vs)"
proof (cases "us = []")
  case True
  with assms show ?thesis by (auto simp: LL_REPLACE_ELEM_def)
next
  case False
  let ?nx = "nx(a := nx x)"
  have l: "llist ?nx p (us @ x # vs)" using lpath_upd [OF assms(2)] assms(1) by blast
  obtain h us1 where b: "p = Some h" "h \<noteq> x" "ll_before ?nx h x = Some (last us)" "us = us1 @ [last us]"
    "lpath ?nx p us1 (Some (last us))" "?nx (last us) = Some x" "last us \<notin> set us1" "last us \<notin> set vs" "last us \<noteq> x"
    by (rule llist_before [OF l False])
  have al: "a \<noteq> last us" using assms(2) False by auto
  have vs: "llist ?nx (nx x) vs" using l assms(2) by auto
  have "llist (?nx(last us := Some a)) p (us1 @ last us # a # vs)" using b vs al by simp
  then have "llist (?nx(last us := Some a)) p (us @ a # vs)" using b(4) by (metis append.assoc append_Cons append_Nil)
  with b(1-3,6) show ?thesis by (simp add: LL_REPLACE_ELEM_def Let_def del: lpath_append)
qed

lemma LL_PREPEND_ELEM_llist:
  assumes "llist nx p (us @ x # vs)" and "a \<notin> set (us @ x # vs)"
  shows "\<exists>nx' p'. LL_PREPEND_ELEM nx p x a = Some (Inr (nx', p')) \<and> llist nx' p' (us @ a # x # vs)"
proof (cases "us = []")
  case True
  with assms show ?thesis by (auto simp: LL_PREPEND_ELEM_def)
next
  case False
  let ?nx = "nx(a := Some x)"
  have l: "llist ?nx p (us @ x # vs)" using lpath_upd [OF assms(2)] assms(1) by blast
  obtain h us1 where b: "p = Some h" "h \<noteq> x" "ll_before ?nx h x = Some (last us)" "us = us1 @ [last us]"
    "lpath ?nx p us1 (Some (last us))" "?nx (last us) = Some x" "last us \<notin> set us1" "last us \<notin> set vs" "last us \<noteq> x"
    by (rule llist_before [OF l False])
  have al: "a \<noteq> last us" "a \<noteq> x" using assms(2) False by auto
  have vs: "llist ?nx (?nx x) vs" using l by auto
  have "llist (?nx(last us := Some a)) p (us1 @ last us # a # x # vs)" using b vs al by simp
  then have "llist (?nx(last us := Some a)) p (us @ a # x # vs)" using b(4) by (metis append.assoc append_Cons append_Nil)
  with b(1-3,6) show ?thesis by (simp add: LL_PREPEND_ELEM_def Let_def del: lpath_append)
qed

lemma DL_PREPEND_dlist:
  assumes "dlist s p as" and "a \<notin> set as"
  shows "\<exists>s'. DL_PREPEND s p a = (s', Some a) \<and> dlist s' (Some a) (a # as)"
proof (cases as)
  case Nil
  with assms show ?thesis by (simp add: DL_PREPEND_def dlist_def Let_def)
next
  case (Cons h bs)
  with assms dlist_distinct [OF assms(1)] show ?thesis
    by (auto simp: DL_PREPEND_def dlist_Cons Let_def)
qed

lemma DL_CONCAT_dlist:
  assumes "dlist s p as" and "dlist s q bs" and "set as \<inter> set bs = {}"
  shows "\<exists>s' p'. DL_CONCAT s p q = Inr (s', p') \<and> dlist s' p' (as @ bs)"
proof (cases "as = [] \<or> bs = []")
  case True
  with assms(1,2) show ?thesis by (cases p; cases q) (auto simp: DL_CONCAT_def dlist_def)
next
  case False
  then obtain a as' b bs' where ab: "as = a # as'" "bs = b # bs'" by (cases as; cases bs) auto
  let ?l = "last as" and ?m = "last bs"
  have pq: "p = Some a" "q = Some b" "d_prev s a = Some ?l" "d_prev s b = Some ?m"
    using assms(1,2) ab by (auto simp: dlist_Cons)
  let ?s = "set_prev a (Some ?m) (set_next ?l (Some b) (set_prev b (Some ?l) s))"
  have dis: "distinct as" "distinct bs" using assms dlist_distinct by blast+
  have "a \<noteq> b" using assms(3) ab by auto
  then have r: "DL_CONCAT s p q = Inr (?s, p)" using pq by (simp add: DL_CONCAT_def Let_def)
  have n: "d_next ?s = (d_next s)(?l := q)" using pq by simp
  have ll: "llist (d_next s) p as" "llist (d_next s) q bs" using assms(1,2) by (simp_all add: dlist_def)
  have "llist (d_next ?s) p (as @ bs)" unfolding n using ll assms(3) False by (intro llist_extend) auto
  moreover have "dprevs ?s ?m (a # as')" "dprevs ?s ?l (b # bs')"
    using assms ab dis by (auto simp: dlist_Cons)
  ultimately have "dlist ?s p (as @ bs)" using ab by (simp add: dlist_def)
  with r show ?thesis by blast
qed

text \<open>The links after a node was put in front of another, in its place, or taken out.\<close>

lemma lpath_split:
  assumes "lpath nx p (us @ x # vs) r" and "us \<noteq> []" and "distinct (us @ x # vs)"
  obtains us1 where "us = us1 @ [last us]" "lpath nx p us1 (Some (last us))" "lpath nx (nx x) vs r" "nx (last us) = Some x"
    "last us \<notin> set us1" "last us \<notin> set vs" "last us \<noteq> x" "x \<notin> set us1" "x \<notin> set vs"
proof -
  from assms(2) have us: "us = butlast us @ [last us]" by simp
  with assms(1,3) have "lpath nx p ((butlast us @ [last us]) @ x # vs) r" "distinct ((butlast us @ [last us]) @ x # vs)"
    by simp_all
  then show ?thesis using that [OF us] by auto
qed

lemma lpath_insert:
  assumes "lpath nx p (us @ x # vs) r" and "us \<noteq> []" and "distinct (us @ x # vs)" and "a \<notin> set (us @ x # vs)"
  shows "lpath (nx(a := Some x, last us := Some a)) p (us @ a # x # vs) r"
proof -
  obtain us1 where u: "us = us1 @ [last us]" "lpath nx p us1 (Some (last us))" "lpath nx (nx x) vs r" "nx (last us) = Some x"
    "last us \<notin> set us1" "last us \<notin> set vs" "last us \<noteq> x" "x \<notin> set us1" "x \<notin> set vs"
    by (rule lpath_split [OF assms(1-3)])
  have a: "a \<notin> set us1" "a \<noteq> last us" "a \<noteq> x" "a \<notin> set vs" using assms(4) u(1) last_in_set [OF assms(2)] by (auto dest: in_set_butlastD) (metis UnI1 set_append)
  have "lpath (nx(a := Some x, last us := Some a)) p (us1 @ last us # a # x # vs) r" using u a by simp
  then show ?thesis using u(1) by (metis append.assoc append_Cons append_Nil)
qed

lemma lpath_replace:
  assumes "lpath nx p (us @ x # vs) r" and "us \<noteq> []" and "distinct (us @ x # vs)" and "a \<notin> set (us @ x # vs)"
  shows "lpath (nx(a := nx x, last us := Some a)) p (us @ a # vs) r"
proof -
  obtain us1 where u: "us = us1 @ [last us]" "lpath nx p us1 (Some (last us))" "lpath nx (nx x) vs r" "nx (last us) = Some x"
    "last us \<notin> set us1" "last us \<notin> set vs" "last us \<noteq> x" "x \<notin> set us1" "x \<notin> set vs"
    by (rule lpath_split [OF assms(1-3)])
  have a: "a \<notin> set us1" "a \<noteq> last us" "a \<noteq> x" "a \<notin> set vs" using assms(4) u(1) last_in_set [OF assms(2)] by (auto dest: in_set_butlastD) (metis UnI1 set_append)
  have "lpath (nx(a := nx x, last us := Some a)) p (us1 @ last us # a # vs) r" using u a by simp
  then show ?thesis using u(1) by (metis append.assoc append_Cons append_Nil)
qed

lemma lpath_remove:
  assumes "lpath nx p (us @ x # vs) r" and "us \<noteq> []" and "distinct (us @ x # vs)"
  shows "lpath (nx(last us := nx x)) p (us @ vs) r"
proof -
  obtain us1 where u: "us = us1 @ [last us]" "lpath nx p us1 (Some (last us))" "lpath nx (nx x) vs r" "nx (last us) = Some x"
    "last us \<notin> set us1" "last us \<notin> set vs" "last us \<noteq> x" "x \<notin> set us1" "x \<notin> set vs"
    by (rule lpath_split [OF assms(1-3)])
  have "lpath (nx(last us := nx x)) p (us1 @ last us # vs) r" using u by simp
  then show ?thesis using u(1) by (metis append.assoc append_Cons append_Nil)
qed

lemma lpath_close:
  assumes "lpath nx p as r" and "as \<noteq> []" and "distinct as"
  shows "lpath (nx(last as := r')) p as r'"
proof -
  from assms(2) have as: "as = butlast as @ [last as]" by simp
  with assms have "lpath nx p (butlast as) (Some (last as))" "last as \<notin> set (butlast as)"
    by (metis lpath.simps lpath_append, metis distinct_append disjoint_iff list.set_intros(1))
  then have "lpath (nx(last as := r')) p (butlast as @ [last as]) r'" by simp
  with as show ?thesis by simp
qed

lemma DL_PREPEND_ELEM_dlist:
  assumes "dlist s p (us @ x # vs)" and "a \<notin> set (us @ x # vs)"
  shows "\<exists>s' p'. DL_PREPEND_ELEM s p x a = Inr (s', p') \<and> dlist s' p' (us @ a # x # vs)"
proof -
  let ?L = "last (x # vs)"
  have d: "distinct (us @ x # vs)" by (rule dlist_distinct [OF assms(1)])
  have l: "llist (d_next s) p (us @ x # vs)" and pr: "dprevs s ?L us" "d_prev s x = Some (if us = [] then ?L else last us)" "dprevs s x vs"
    using assms(1) by (auto simp: dlist_def)
  let ?s = "set_prev x (Some a) (set_prev a (d_prev s x) (set_next a (Some x) s))"
  have ax: "a \<noteq> x" using assms(2) by simp
  show ?thesis
  proof (cases "us = []")
    case True
    with l have p: "p = Some x" by simp
    have r: "DL_PREPEND_ELEM s p x a = Inr (?s, Some a)" using p by (simp add: DL_PREPEND_ELEM_def Let_def)
    have "dlist ?s (Some a) (a # x # vs)"
      using True l pr ax assms(2) d by (auto simp: dlist_Cons)
    with r True show ?thesis by auto
  next
    case False
    let ?s' = "set_next (last us) (Some a) ?s"
    have p: "p \<noteq> None" "p \<noteq> Some x" using l d False by (cases us; auto)+
    have r: "DL_PREPEND_ELEM s p x a = Inr (?s', p)" using p ax pr(2) False by (auto simp: DL_PREPEND_ELEM_def Let_def)
    have n: "llist (d_next ?s') p (us @ a # x # vs)" using lpath_insert [OF l False d assms(2)] by simp
    have "dprevs ?s' ?L (us @ a # x # vs)" using pr False d assms(2) ax by auto
    with n have "dlist ?s' p (us @ a # x # vs)" by (simp add: dlist_def)
    with r show ?thesis by blast
  qed
qed

lemma DL_REPLACE_dlist:
  assumes "dlist s p (us @ x # vs)" and "a \<notin> set (us @ x # vs)"
  shows "\<exists>s' p'. DL_REPLACE_ELEM s p x a = Inr (s', p') \<and> dlist s' p' (us @ a # vs)"
proof -
  let ?L = "last (x # vs)"
  have d: "distinct (us @ x # vs)" by (rule dlist_distinct [OF assms(1)])
  have l: "llist (d_next s) p (us @ x # vs)" and pr: "dprevs s ?L us" "d_prev s x = Some (if us = [] then ?L else last us)" "dprevs s x vs"
    using assms(1) by (auto simp: dlist_def)
  have nx: "d_next s x = (if vs = [] then None else Some (hd vs))" using l by (cases vs) auto
  have ax: "a \<noteq> x" using assms(2) by simp
  show ?thesis
  proof (cases us)
    case Nil
    with l have p: "p = Some x" by simp
    show ?thesis
    proof (cases vs)
      case Nil
      with \<open>us = []\<close> p nx show ?thesis by (auto simp: DL_REPLACE_ELEM_def Let_def dlist_Cons)
    next
      case (Cons v ws)
      let ?s = "set_prev v (Some a) (set_prev a (d_prev s x) (set_next a (d_next s x) s))"
      have "DL_REPLACE_ELEM s p x a = Inr (?s, Some a)" using p nx Cons by (simp add: DL_REPLACE_ELEM_def Let_def)
      moreover have "dlist ?s (Some a) (a # vs)" using Cons \<open>us = []\<close> l pr ax assms(2) d by (auto simp: dlist_Cons)
      ultimately show ?thesis using \<open>us = []\<close> by auto
    qed
  next
    case (Cons h us')
    then have ne: "us \<noteq> []" and p: "p = Some h" "h \<noteq> x" using l d by auto
    let ?s = "set_next (last us) (Some a) (set_prev a (d_prev s x) (set_next a (d_next s x) s))"
    have n: "llist (d_next ?s) p (us @ a # vs)" using lpath_replace [OF l ne d assms(2)] by simp
    have la: "last us \<noteq> a" "last us \<noteq> x" "h \<noteq> a" using assms(2) d last_in_set [OF ne] Cons by auto
    have lp: "d_prev s x = Some (last us)" using pr(2) ne by simp
    show ?thesis
    proof (cases vs)
      case Nil
      have "DL_REPLACE_ELEM s p x a = Inr (set_prev h (Some a) ?s, p)"
        using p nx Nil la lp by (simp add: DL_REPLACE_ELEM_def Let_def ax [symmetric])
      moreover have "dprevs (set_prev h (Some a) ?s) a (us @ [a])" using pr(1) Cons d assms(2) la lp by auto
      ultimately show ?thesis using n Nil by (auto simp: dlist_def)
    next
      case (Cons v ws)
      have "DL_REPLACE_ELEM s p x a = Inr (set_prev v (Some a) ?s, p)"
        using p nx Cons la lp ne by (auto simp: DL_REPLACE_ELEM_def Let_def ax [symmetric])
      moreover have "dprevs (set_prev v (Some a) ?s) (last (a # vs)) (us @ a # vs)"
        using pr Cons d assms(2) lp ne by auto
      ultimately show ?thesis using n Cons by (auto simp: dlist_def)
    qed
  qed
qed

section \<open>Circular lists\<close>

lemma cdlist_Nil [simp]: "cdlist s p [] \<longleftrightarrow> p = None"
  by (simp add: cdlist_def)

lemma cdlist_parts:
  assumes "cdlist s p (us @ x # vs)"
  shows "distinct (us @ x # vs)" and "lpath (d_next s) p (us @ x # vs) p" and "p = Some (hd (us @ [x]))"
    and "dprevs s (last (x # vs)) us" and "d_prev s x = Some (if us = [] then last (x # vs) else last us)"
    and "dprevs s x vs"
  using assms by (cases us; auto simp: cdlist_def)+

lemma cdlistI:
  assumes "distinct as" and "as \<noteq> []" and "p = Some (hd as)" and "lpath (d_next s) p as p" and "dprevs s (last as) as"
  shows "cdlist s p as"
  using assms by (simp add: cdlist_def)

lemma CDL_PREPEND_ELEM_cdlist:
  assumes "cdlist s p (us @ x # vs)" and "a \<notin> set (us @ x # vs)"
  shows "\<exists>s' p'. CDL_PREPEND_ELEM s p x a = Inr (s', p') \<and> cdlist s' p' (us @ a # x # vs)"
proof -
  note c = cdlist_parts [OF assms(1)]
  let ?L = "last (x # vs)"
  let ?m = "if us = [] then ?L else last us"
  let ?s = "set_next ?m (Some a) (set_prev x (Some a) (set_prev a (Some ?m) (set_next a (Some x) s)))"
  have Lin: "?L \<in> set (x # vs)" by (rule last_in_set) simp
  have ax: "a \<noteq> x" "a \<noteq> ?L" "x \<notin> set us" using assms(2) c(1) Lin by auto
  have r: "CDL_PREPEND_ELEM s p x a = Inr (?s, if us = [] then Some a else p)"
    using c(3,5) ax by (cases us) (auto simp: CDL_PREPEND_ELEM_def Let_def)
  have "cdlist ?s (if us = [] then Some a else p) (us @ a # x # vs)"
  proof (rule cdlistI)
    show "distinct (us @ a # x # vs)" using c(1) assms(2) by auto
    show "(if us = [] then Some a else p) = Some (hd (us @ a # x # vs))" using c(3) by (cases us) auto
    show "lpath (d_next ?s) (if us = [] then Some a else p) (us @ a # x # vs) (if us = [] then Some a else p)"
    proof (cases "us = []")
      case True
      with c(2,3) have "lpath ((d_next s)(a := Some x)) (Some x) (x # vs) (Some x)"
        using lpath_upd [of a "x # vs"] assms(2) by auto
      from lpath_close [OF this, of "Some a"] c(1) True ax(2) show ?thesis by simp
    next
      case False
      with lpath_insert [OF c(2) False c(1) assms(2)] show ?thesis by simp
    qed
    show "dprevs ?s (last (us @ a # x # vs)) (us @ a # x # vs)"
      using c(1,4,6) assms(2) ax by auto
  qed simp
  with r show ?thesis by blast
qed

lemma CDL_PREPEND_cdlist:
  assumes "cdlist s p as" and "a \<notin> set as"
  shows "\<exists>s'. CDL_PREPEND s p a = Inr (s', Some a) \<and> cdlist s' (Some a) (a # as)"
proof (cases as)
  case Nil
  with assms(1) show ?thesis by (simp add: CDL_PREPEND_def cdlist_def)
next
  case (Cons h bs)
  from assms Cons have p: "p = Some h" by (simp add: cdlist_def)
  have "set_next a (Some h) (set_prev a (d_prev s h) s) = set_prev a (d_prev s h) (set_next a (Some h) s)"
    by (simp add: set_prev_def set_next_def)
  then have "CDL_PREPEND s p a = CDL_PREPEND_ELEM s p h a"
    by (simp add: CDL_PREPEND_def CDL_PREPEND_ELEM_def p Let_def split: option.split)
  with CDL_PREPEND_ELEM_cdlist [of s p "[]" h bs a] assms Cons show ?thesis by (auto simp: cdlist_def)
qed

lemma CDL_DELETE_cdlist:
  assumes "cdlist s p (us @ x # vs)"
  shows "\<exists>s' p'. CDL_DELETE s p x = Inr (s', p') \<and> cdlist s' p' (us @ vs)"
proof (cases "us = [] \<and> vs = []")
  case True
  with assms show ?thesis by (auto simp: CDL_DELETE_def cdlist_def)
next
  case False
  note c = cdlist_parts [OF assms]
  let ?L = "last (x # vs)"
  let ?m = "if us = [] then ?L else last us"
  let ?n = "if vs = [] then hd us else hd vs"
  let ?s = "set_next ?m (Some ?n) (set_prev ?n (Some ?m) s)"
  have n: "d_next s x = Some ?n" using c(2,3) False by (cases us; cases vs) auto
  have hx: "us \<noteq> [] \<Longrightarrow> hd us \<noteq> x" "vs \<noteq> [] \<Longrightarrow> hd vs \<noteq> x" using c(1) by (cases us; cases vs; auto)+
  have nx: "?n \<noteq> x" using hx False by auto
  have r: "CDL_DELETE s p x = Inr (?s, if us = [] then Some ?n else p)"
    using n nx c(3,5) hx by (cases us) (auto simp: CDL_DELETE_def Let_def)
  have "cdlist ?s (if us = [] then Some ?n else p) (us @ vs)"
  proof (rule cdlistI)
    show "distinct (us @ vs)" using c(1) by auto
    show "us @ vs \<noteq> []" using False by simp
    show "(if us = [] then Some ?n else p) = Some (hd (us @ vs))" using c(3) False by (cases us) auto
    show "lpath (d_next ?s) (if us = [] then Some ?n else p) (us @ vs) (if us = [] then Some ?n else p)"
    proof (cases "us = []")
      case True
      with False c(2) n have "lpath (d_next s) (Some ?n) vs p" "vs \<noteq> []" by auto
      from lpath_close [OF this, of "Some ?n"] c(1) True False show ?thesis by simp
    next
      case f: False
      with lpath_remove [OF c(2) f c(1)] n show ?thesis by simp
    qed
    show "dprevs ?s (last (us @ vs)) (us @ vs)"
    proof (cases vs)
      case Nil
      then obtain h us' where us: "us = h # us'" using False by (cases us) auto
      have "dprevs ?s (last us) us" using c(1,4) Nil us by auto
      with Nil show ?thesis by simp
    next
      case (Cons v ws)
      have "last (us @ vs) = ?L" using Cons by simp
      with c(1,4,6) Cons show ?thesis by auto
    qed
  qed
  with r show ?thesis by blast
qed

lemma CDL_REPLACE_cdlist:
  assumes "cdlist s p (us @ x # vs)" and "a \<notin> set (us @ x # vs)"
  shows "\<exists>s' p'. CDL_REPLACE_ELEM s p x a = Inr (s', p') \<and> cdlist s' p' (us @ a # vs)"
proof (cases "us = [] \<and> vs = []")
  case True
  with assms show ?thesis by (auto simp: CDL_REPLACE_ELEM_def Let_def cdlist_def)
next
  case False
  note c = cdlist_parts [OF assms(1)]
  let ?L = "last (x # vs)"
  let ?m = "if us = [] then ?L else last us"
  let ?n = "if vs = [] then hd us else hd vs"
  let ?s = "set_next ?m (Some a) (set_prev ?n (Some a) (set_prev a (Some ?m) (set_next a (d_next s x) s)))"
  have n: "d_next s x = Some ?n" using c(2,3) False by (cases us; cases vs) auto
  have hx: "us \<noteq> [] \<Longrightarrow> hd us \<noteq> x \<and> hd us \<noteq> a" "vs \<noteq> [] \<Longrightarrow> hd vs \<noteq> x \<and> hd vs \<noteq> a"
    using c(1) assms(2) by (cases us; cases vs; auto)+
  have nx: "?n \<noteq> x" "?n \<noteq> a" using hx False by auto
  have Lin: "?L \<in> set (x # vs)" by (rule last_in_set) simp
  have ax: "a \<noteq> x" "a \<noteq> ?m" using assms(2) Lin by auto
  have r: "CDL_REPLACE_ELEM s p x a = Inr (?s, if us = [] then Some a else p)"
    using n nx c(3,5) hx ax by (cases us) (auto simp: CDL_REPLACE_ELEM_def Let_def)
  have "cdlist ?s (if us = [] then Some a else p) (us @ a # vs)"
  proof (rule cdlistI)
    show "distinct (us @ a # vs)" using c(1) assms(2) by auto
    show "(if us = [] then Some a else p) = Some (hd (us @ a # vs))" using c(3) by (cases us) auto
    show "lpath (d_next ?s) (if us = [] then Some a else p) (us @ a # vs) (if us = [] then Some a else p)"
    proof (cases "us = []")
      case True
      with False c(2) n assms(2) have "lpath ((d_next s)(a := d_next s x)) (d_next s x) vs p" "vs \<noteq> []" by auto
      from lpath_close [OF this, of "Some a"] c(1) True False ax n show ?thesis by simp
    next
      case f: False
      with lpath_replace [OF c(2) f c(1) assms(2)] show ?thesis by simp
    qed
    show "dprevs ?s (last (us @ a # vs)) (us @ a # vs)"
    proof (cases vs)
      case Nil
      then obtain h us' where us: "us = h # us'" using False by (cases us) auto
      with Nil c(1,4) assms(2) nx show ?thesis by auto
    next
      case (Cons v ws)
      with c(1,4,6) assms(2) nx show ?thesis by auto
    qed
  qed simp
  with r show ?thesis by blast
qed

lemma cdl_walk: "cdlist s p as \<Longrightarrow> llist (cdl_step s p) p as"
  using left_cdlist [of s p as] by (simp add: ls_next_def [abs_def] cdl_step_def [abs_def])

lemma CDL_COUNT_cdlist: "cdlist s p as \<Longrightarrow> CDL_COUNT s p = Some (length as)"
  by (simp add: CDL_COUNT_def ll_count_llist [OF cdl_walk])

lemma CDL_SEARCH_cdlist: "cdlist s p as \<Longrightarrow> CDL_SEARCH stops s p = Some (List.find stops as)"
  by (simp add: CDL_SEARCH_def LL_SEARCH_llist [OF cdl_walk])

lemma LL_COUNT_llist: "llist nx p as \<Longrightarrow> LL_COUNT nx p = Some (length as)"
  by (simp add: LL_COUNT_def ll_count_llist)

lemma DL_COUNT_dlist: "dlist s p as \<Longrightarrow> DL_COUNT s p = Some (length as)"
  using ll_count_llist [of "d_next s" p as 0] by (simp add: DL_COUNT_def dlist_def)

end
