(* ===== verification/Utstring_Search.thy ===== *)
theory Utstring_Search
  imports Utstring "HOL-Library.Sublist"
begin

text \<open>
  The substring search of \<open>lib/ut/utstring.h\<close> (Knuth, Morris and Pratt), from the left and from
  the right. A \<open>long\<close> is an \<open>int\<close>; where one meets a \<open>size_t\<close>, or is cast to a C \<open>int\<close>, the
  conversion is written out. Memory is a list of bytes or numbers, \<open>None\<close> where nothing was
  written; a read of such a place, or of one out of bounds, is a fault.
\<close>

section \<open>The search\<close>

definition ulong :: "int \<Rightarrow> int" where
  "ulong i = i mod 2 ^ 64"

definition clong :: "int \<Rightarrow> int" where
  "clong i = (i + 2 ^ 63) mod 2 ^ 64 - 2 ^ 63"

definition cint :: "int \<Rightarrow> int" where
  "cint i = (i + 2 ^ 31) mod 2 ^ 32 - 2 ^ 31"

definition at :: "'a option list \<Rightarrow> int \<Rightarrow> 'a res" where
  "at d k =
     (if 0 \<le> k \<and> k < int (length d) then (case d ! nat k of None \<Rightarrow> Inl Out_of_bounds | Some x \<Rightarrow> Inr x)
      else Inl Out_of_bounds)"

definition put :: "'a option list \<Rightarrow> int \<Rightarrow> 'a \<Rightarrow> 'a option list res" where
  "put d k x = (if 0 \<le> k \<and> k < int (length d) then Inr (d[nat k := Some x]) else Inl Out_of_bounds)"

text \<open>\<open>while (inside(j) && c != P_Needle[j]) j = P_KMP_Table[j + off]\<close>, the inner loop of all four.\<close>

partial_function (option) fall_back ::
  "(int \<Rightarrow> bool) \<Rightarrow> int \<Rightarrow> char res \<Rightarrow> char option list \<Rightarrow> int option list \<Rightarrow> int \<Rightarrow> int res option" where
  "fall_back inside off c needle table j =
     (if inside j
      then case c of
        Inl e \<Rightarrow> Some (Inl e)
      | Inr x \<Rightarrow>
          (case at needle j of
             Inl e \<Rightarrow> Some (Inl e)
           | Inr y \<Rightarrow>
               if x \<noteq> y
               then case at table (j + off) of
                   Inl e \<Rightarrow> Some (Inl e)
                 | Inr j' \<Rightarrow> fall_back inside off c needle table j'
               else Some (Inr j))
      else Some (Inr j))"

text \<open>The entry of the table for the position that was reached; \<open>inside\<close>: it is in the needle.\<close>

definition table_entry ::
  "bool \<Rightarrow> int \<Rightarrow> char option list \<Rightarrow> int option list \<Rightarrow> int \<Rightarrow> int \<Rightarrow> int res" where
  "table_entry inside off needle table i j =
     (if inside
      then bind_res (at needle i) (\<lambda>x. bind_res (at needle j) (\<lambda>y.
        if x = y then at table (j + off) else Inr j))
      else Inr j)"

partial_function (option) build_loop ::
  "char option list \<Rightarrow> int \<Rightarrow> int \<Rightarrow> int \<Rightarrow> int option list \<Rightarrow> int option list res option" where
  "build_loop needle n i j table =
     (if ulong i < n
      then do { r \<leftarrow> fall_back (\<lambda>j. j > -1) 0 (at needle i) needle table j;
             case r of
               Inl e \<Rightarrow> Some (Inl e)
             | Inr j' \<Rightarrow>
                 (case bind_res (table_entry (ulong (i + 1) < n) 0 needle table (i + 1) (j' + 1)) (put table (i + 1)) of
                    Inl e \<Rightarrow> Some (Inl e)
                  | Inr table' \<Rightarrow> build_loop needle n (i + 1) (j' + 1) table') }
      else Some (Inr table))"

definition utstring_BuildTable ::
  "char option list \<Rightarrow> int \<Rightarrow> int option list \<Rightarrow> int option list res option" where
  "utstring_BuildTable needle n table =
     (case put table 0 (-1) of Inl e \<Rightarrow> Some (Inl e) | Inr table \<Rightarrow> build_loop needle n 0 (-1) table)"

partial_function (option) buildR_loop ::
  "char option list \<Rightarrow> int \<Rightarrow> int \<Rightarrow> int \<Rightarrow> int option list \<Rightarrow> int option list res option" where
  "buildR_loop needle n i j table =
     (if i \<ge> 0
      then do { r \<leftarrow> fall_back (\<lambda>j. ulong j < n) 1 (at needle i) needle table j;
             case r of
               Inl e \<Rightarrow> Some (Inl e)
             | Inr j' \<Rightarrow>
                 (case bind_res (table_entry (i - 1 \<ge> 0) 1 needle table (i - 1) (j' - 1)) (put table (i - 1 + 1)) of
                    Inl e \<Rightarrow> Some (Inl e)
                  | Inr table' \<Rightarrow> buildR_loop needle n (i - 1) (j' - 1) table') }
      else Some (Inr table))"

definition utstring_BuildTableR ::
  "char option list \<Rightarrow> int \<Rightarrow> int option list \<Rightarrow> int option list res option" where
  "utstring_BuildTableR needle n table =
     (case put table (n - 1 + 1) (n - 1 + 1) of
        Inl e \<Rightarrow> Some (Inl e)
      | Inr table \<Rightarrow> buildR_loop needle n (n - 1) (n - 1 + 1) table)"

text \<open>The haystack starts at \<open>off\<close> of the bytes.\<close>

partial_function (option) find_loop ::
  "char option list \<Rightarrow> int \<Rightarrow> int \<Rightarrow> char option list \<Rightarrow> int \<Rightarrow> int option list \<Rightarrow> int \<Rightarrow> int \<Rightarrow> int res option" where
  "find_loop hay off h needle n table i j =
     (if j < cint h \<and> ulong (h - j + i) \<ge> n
      then do { r \<leftarrow> fall_back (\<lambda>i. i > -1) 0 (at hay (off + j)) needle table i;
             case r of
               Inl e \<Rightarrow> Some (Inl e)
             | Inr i' \<Rightarrow>
                 if i' + 1 \<ge> cint n then Some (Inr (j + 1 - (i' + 1)))
                 else find_loop hay off h needle n table (i' + 1) (j + 1) }
      else Some (Inr (-1)))"

definition utstring_find_table ::
  "char option list \<Rightarrow> int \<Rightarrow> int \<Rightarrow> char option list \<Rightarrow> int \<Rightarrow> int option list \<Rightarrow> int res option" where
  "utstring_find_table hay off h needle n table = find_loop hay off h needle n table 0 0"

partial_function (option) findR_loop ::
  "char option list \<Rightarrow> char option list \<Rightarrow> int \<Rightarrow> int option list \<Rightarrow> int \<Rightarrow> int \<Rightarrow> int res option" where
  "findR_loop hay needle n table i j =
     (if j \<ge> 0 \<and> j \<ge> i
      then do { r \<leftarrow> fall_back (\<lambda>i. i < cint n) 1 (at hay j) needle table i;
             case r of
               Inl e \<Rightarrow> Some (Inl e)
             | Inr i' \<Rightarrow>
                 if i' - 1 < 0 then Some (Inr (j - 1 + 1))
                 else findR_loop hay needle n table (i' - 1) (j - 1) }
      else Some (Inr (-1)))"

definition utstring_findR_table ::
  "char option list \<Rightarrow> int \<Rightarrow> char option list \<Rightarrow> int \<Rightarrow> int option list \<Rightarrow> int res option" where
  "utstring_findR_table hay h needle n table = findR_loop hay needle n table (clong (n - 1)) (clong (h - 1))"

definition start_position :: "ut_string \<Rightarrow> int \<Rightarrow> int" where
  "start_position s start = (if start < 0 then clong (int (us_i s) + start) else start)"

text \<open>\<open>malloc_ok\<close> is whether the table could be allocated.\<close>

definition utstring_find :: "bool \<Rightarrow> ut_string \<Rightarrow> int \<Rightarrow> string \<Rightarrow> int res option" where
  "utstring_find malloc_ok s start needle =
     (let from = start_position s start;
          h = clong (int (us_i s) - from);
          n = int (length needle);
          bytes = map Some needle
      in if ulong h \<ge> n \<and> n > 0 \<and> malloc_ok
         then do { r \<leftarrow> utstring_BuildTable bytes n (replicate (length needle + 1) None);
                case r of
                  Inl e \<Rightarrow> Some (Inl e)
                | Inr table \<Rightarrow>
                    do { p \<leftarrow> utstring_find_table (us_d s) from (ulong h) bytes n table;
                         Some (bind_res p (\<lambda>p. Inr (if p \<ge> 0 then p + from else p))) } }
         else Some (Inr (-1)))"

definition utstring_findR :: "bool \<Rightarrow> ut_string \<Rightarrow> int \<Rightarrow> string \<Rightarrow> int res option" where
  "utstring_findR malloc_ok s start needle =
     (let from = start_position s start;
          h = clong (from + 1);
          n = int (length needle);
          bytes = map Some needle
      in if ulong h \<ge> n \<and> n > 0 \<and> malloc_ok
         then do { r \<leftarrow> utstring_BuildTableR bytes n (replicate (length needle + 1) None);
                case r of
                  Inl e \<Rightarrow> Some (Inl e)
                | Inr table \<Rightarrow> utstring_findR_table (us_d s) (ulong h) bytes n table }
         else Some (Inr (-1)))"

section \<open>Borders of the needle\<close>

text \<open>The first \<open>k\<close> characters of \<open>p\<close> are the last of the first \<open>i\<close>.\<close>

definition border :: "string \<Rightarrow> nat \<Rightarrow> nat \<Rightarrow> bool" where
  "border p k i \<longleftrightarrow> k < i \<and> suffix (take k p) (take i p)"

text \<open>What the table has for \<open>i\<close>: the longest border that goes on differently, or -1.\<close>

definition entry_ok :: "string \<Rightarrow> nat \<Rightarrow> int \<Rightarrow> bool" where
  "entry_ok p i v \<longleftrightarrow> -1 \<le> v \<and> v < int i \<and> (0 \<le> v \<longrightarrow> border p (nat v) i \<and> p ! nat v \<noteq> p ! i) \<and>
     (\<forall>k. border p k i \<and> p ! k \<noteq> p ! i \<longrightarrow> int k \<le> v)"

definition table_ok :: "string \<Rightarrow> int option list \<Rightarrow> nat \<Rightarrow> bool" where
  "table_ok p table m \<longleftrightarrow> length table = length p + 1 \<and> m \<le> length p \<and>
     (\<forall>i<m. \<exists>v. table ! i = Some v \<and> entry_ok p i v)"

text \<open>The longest beginning of \<open>p\<close> that ends \<open>w\<close>, short of all of \<open>p\<close>.\<close>

definition longest :: "string \<Rightarrow> string \<Rightarrow> nat \<Rightarrow> bool" where
  "longest p w j \<longleftrightarrow> j < length p \<and> suffix (take j p) w \<and> (\<forall>k<length p. suffix (take k p) w \<longrightarrow> k \<le> j)"

lemma at_some: "k < length p \<Longrightarrow> at (map Some p) (int k) = Inr (p ! k)"
  by (simp add: at_def)

lemma at_table: "table_ok p table m \<Longrightarrow> i < m \<Longrightarrow> \<exists>v. at table (int i) = Inr v \<and> entry_ok p i v"
  unfolding table_ok_def at_def by force

lemma suffix_shorter:
  assumes "suffix (take k p) w" and "suffix (take j p) w" and "k < j" and "j \<le> length p"
  shows "border p k j"
  using assms suffix_length_suffix [of "take k p" w "take j p"] by (simp add: border_def)

lemma border_suffix: "border p k j \<Longrightarrow> suffix (take j p) w \<Longrightarrow> suffix (take k p) w"
  by (auto simp: border_def intro: suffix_order.trans)

lemma suffix_take_Suc:
  assumes "k < length p"
  shows "suffix (take (Suc k) p) (w @ [c]) \<longleftrightarrow> suffix (take k p) w \<and> p ! k = c"
  using assms by (auto simp: take_Suc_conv_app_nth)

lemma fall_back_holds:
  assumes "table_ok p table m"
  shows "-1 \<le> j \<Longrightarrow> j < int m \<Longrightarrow> (0 \<le> j \<longrightarrow> suffix (take (nat j) p) w) \<Longrightarrow>
    \<exists>j'. fall_back (\<lambda>j. j > -1) 0 (Inr c) (map Some p) table j = Some (Inr j') \<and> -1 \<le> j' \<and> j' \<le> j \<and>
      (0 \<le> j' \<longrightarrow> suffix (take (nat j') p) w \<and> p ! nat j' = c) \<and>
      (\<forall>k. int k \<le> j \<and> suffix (take k p) w \<and> p ! k = c \<longrightarrow> int k \<le> j')"
proof (induction "nat (j + 1)" arbitrary: j rule: less_induct)
  case less
  note m = assms [unfolded table_ok_def]
  show ?case
  proof (cases "0 \<le> j")
    case False
    with less.prems have "j = -1" by simp
    then show ?thesis by (simp add: fall_back.simps)
  next
    case True
    define i where "i = nat j"
    then have i: "j = int i" "i < m" "i < length p" using True less.prems m by auto
    have s: "suffix (take i p) w" using less.prems i by simp
    show ?thesis
    proof (cases "p ! i = c")
      case True
      with i s show ?thesis
        by (intro exI [of _ j]) (simp add: fall_back.simps [of _ _ _ _ _ "int i"] at_some)
    next
      case False
      from at_table [OF assms i(2)] obtain v where v: "at table (int i) = Inr v" "entry_ok p i v" by blast
      have le: "int k \<le> v" if "k \<le> i" "suffix (take k p) w" "p ! k = c" for k
      proof -
        have "k < i" using that False by (cases "k = i") auto
        with suffix_shorter [OF that(2) s] i have "border p k i" by simp
        with v(2) that False show ?thesis by (auto simp: entry_ok_def)
      qed
      have vs: "0 \<le> v \<longrightarrow> suffix (take (nat v) p) w"
        using v(2) border_suffix [OF _ s] by (auto simp: entry_ok_def)
      from v(2) have small: "nat (v + 1) < nat (j + 1)" "-1 \<le> v" "v < int m" using i by (auto simp: entry_ok_def)
      from less.hyps [OF small vs] obtain j' where
        j': "fall_back (\<lambda>j. j > -1) 0 (Inr c) (map Some p) table v = Some (Inr j')" "-1 \<le> j'" "j' \<le> v"
        "0 \<le> j' \<longrightarrow> suffix (take (nat j') p) w \<and> p ! nat j' = c"
        "\<forall>k. int k \<le> v \<and> suffix (take k p) w \<and> p ! k = c \<longrightarrow> int k \<le> j'" by blast
      have "fall_back (\<lambda>j. j > -1) 0 (Inr c) (map Some p) table j = Some (Inr j')"
        using False i v(1) j'(1) by (simp add: fall_back.simps [of _ _ _ _ _ "int i"] at_some)
      with j' small le i v(2) show ?thesis by (intro exI [of _ j']) (auto simp: entry_ok_def)
    qed
  qed
qed

lemma longest_step:
  assumes "longest p w j" and "-1 \<le> j'" and "0 \<le> j' \<longrightarrow> suffix (take (nat j') p) w \<and> p ! nat j' = c"
    and "\<forall>k. int k \<le> int j \<and> suffix (take k p) w \<and> p ! k = c \<longrightarrow> int k \<le> j'" and "j' + 1 < int (length p)"
  shows "longest p (w @ [c]) (nat (j' + 1))"
proof -
  have k: "k \<le> nat (j' + 1)" if "k < length p" "suffix (take k p) (w @ [c])" for k
  proof (cases k)
    case (Suc i)
    from that have "i < length p" "suffix (take (Suc i) p) (w @ [c])" unfolding Suc by simp_all
    then have s: "suffix (take i p) w" "p ! i = c" unfolding suffix_take_Suc [OF \<open>i < length p\<close>] by simp_all
    with assms(1) \<open>i < length p\<close> have "i \<le> j" by (simp add: longest_def)
    with s assms(4) Suc show ?thesis by auto
  qed simp
  have "suffix (take (nat (j' + 1)) p) (w @ [c])"
  proof (cases "0 \<le> j'")
    case True
    then have e: "nat (j' + 1) = Suc (nat j')" and n: "nat j' < length p" using assms(5) by simp_all
    from assms(3) True show ?thesis unfolding e suffix_take_Suc [OF n] by simp
  next
    case False
    with assms(2) have "nat (j' + 1) = 0" by simp
    then show ?thesis by simp
  qed
  with k assms(2,5) show ?thesis by (auto simp: longest_def)
qed

section \<open>From the left\<close>

text \<open>The loop that builds the table: the text it runs over is the needle without its first character.\<close>

lemma take_tail: "0 < i \<Longrightarrow> i < length p \<Longrightarrow> drop 1 (take (Suc i) p) = drop 1 (take i p) @ [p ! i]"
  by (simp add: take_Suc_conv_app_nth)

lemma suffix_tail:
  assumes "0 < i" and "i \<le> length p" and "k < length p"
  shows "suffix (take k p) (drop 1 (take i p)) \<longleftrightarrow> border p k i"
proof
  assume s: "suffix (take k p) (drop 1 (take i p))"
  then have "length (take k p) \<le> length (drop 1 (take i p))" by (rule suffix_length_le)
  with assms have "k < i" by auto
  with s show "border p k i" by (auto simp: border_def intro: suffix_order.trans suffix_drop)
next
  assume b: "border p k i"
  have d: "suffix (drop 1 (take i p)) (take i p)" by (rule suffix_drop)
  from b have s: "suffix (take k p) (take i p)" "k < i" by (simp_all add: border_def)
  show "suffix (take k p) (drop 1 (take i p))"
    by (rule suffix_length_suffix [OF s(1) d]) (use s(2) assms in auto)
qed

lemma longest_border:
  assumes "longest p (drop 1 (take i p)) j" and "0 < i" and "i \<le> length p"
  shows "border p j i" and "border p k i \<Longrightarrow> k \<le> j"
proof -
  from assms(1) have j: "j < length p" "suffix (take j p) (drop 1 (take i p))" by (simp_all add: longest_def)
  with suffix_tail [OF assms(2,3) j(1)] show "border p j i" by simp
  assume b: "border p k i"
  then have k: "k < length p" using assms(3) by (simp add: border_def)
  with b suffix_tail [OF assms(2,3) k] assms(1) show "k \<le> j" by (simp add: longest_def)
qed

lemma entry_ok_new:
  assumes l: "longest p (drop 1 (take i p)) j" and i: "0 < i" "i < length p"
  shows "p ! i \<noteq> p ! j \<Longrightarrow> entry_ok p i (int j)"
    and "p ! i = p ! j \<Longrightarrow> entry_ok p j v \<Longrightarrow> entry_ok p i v"
proof -
  note b = longest_border [OF l i(1) less_imp_le [OF i(2)]]
  from b show "p ! i \<noteq> p ! j \<Longrightarrow> entry_ok p i (int j)"
    by (auto simp: entry_ok_def border_def [of p j i])
  assume e: "p ! i = p ! j" and v: "entry_ok p j v"
  have jp: "j \<le> length p" "suffix (take j p) (take i p)" "j < i" using b(1) i by (simp_all add: border_def)
  have "int k \<le> v" if "border p k i" "p ! k \<noteq> p ! i" for k
  proof -
    from that e b(2) have "k < j" by (cases "k = j") (auto simp: less_le)
    with suffix_shorter [OF _ jp(2) _ jp(1)] that(1) have "border p k j" by (simp add: border_def)
    with v that(2) e show ?thesis by (simp add: entry_ok_def)
  qed
  with v e jp show "entry_ok p i v"
    by (auto simp: entry_ok_def border_def intro: suffix_order.trans)
qed

lemma ulong_small: "0 \<le> i \<Longrightarrow> i < 2 ^ 64 \<Longrightarrow> ulong i = i"
  by (simp add: ulong_def)

lemma cint_small: "0 \<le> i \<Longrightarrow> i < 2 ^ 31 \<Longrightarrow> cint i = i"
  by (simp add: cint_def)

lemma clong_small: "- (2 ^ 63) \<le> i \<Longrightarrow> i < 2 ^ 63 \<Longrightarrow> clong i = i"
  by (simp add: clong_def)

lemma table_ok_put:
  assumes "table_ok p table i" and "i < length p" and "entry_ok p i v"
  shows "put table (int i) v = Inr (table[i := Some v])" and "table_ok p (table[i := Some v]) (Suc i)"
  using assms by (auto simp: put_def table_ok_def less_Suc_eq nth_list_update)

lemma build_step:
  assumes t: "table_ok p table (Suc i)" and l: "longest p (drop 1 (take (Suc i) p)) j" and i: "Suc i \<le> length p"
  shows "\<exists>table'. bind_res (table_entry (int i + 1 < int (length p)) 0 (map Some p) table (int i + 1) (int j))
      (put table (int i + 1)) = Inr table' \<and> table_ok p table' (min (Suc (Suc i)) (length p))"
proof (cases "Suc i < length p")
  case True
  have ij: "j < Suc i" "j < length p" using longest_border(1) [OF l] i by (simp_all add: border_def)
  from at_table [OF t ij(1)] obtain v where v: "at table (int j) = Inr v" "entry_ok p j v" by blast
  let ?v = "if p ! Suc i = p ! j then v else int j"
  have e: "entry_ok p (Suc i) ?v" using entry_ok_new [OF l _ True] v(2) by simp
  from True at_some [OF True] at_some [OF ij(2)] v(1)
  have "table_entry (int i + 1 < int (length p)) 0 (map Some p) table (int i + 1) (int j) = Inr ?v"
    by (simp add: table_entry_def add.commute)
  with table_ok_put [OF t True e] True show ?thesis by (simp add: add.commute)
next
  case False
  with i t show ?thesis
    by (auto simp: table_entry_def put_def table_ok_def nth_list_update min_def)
qed

lemma build_loop_holds:
  assumes n: "int (length p) < 2 ^ 63"
  shows "table_ok p table (min (Suc i) (length p)) \<Longrightarrow> longest p (drop 1 (take i p)) j \<Longrightarrow> 0 < i \<Longrightarrow> i \<le> length p \<Longrightarrow>
    \<exists>table'. build_loop (map Some p) (int (length p)) (int i) (int j) table = Some (Inr table') \<and>
      table_ok p table' (length p)"
proof (induction "length p - i" arbitrary: i j table)
  case 0
  with n show ?case by (simp add: build_loop.simps ulong_small min_def)
next
  case (Suc m)
  then have i: "i < length p" "m = length p - Suc i" and t: "table_ok p table (Suc i)"
    by (simp_all add: min_def split: if_splits)
  let ?w = "drop 1 (take i p)"
  have j: "j < i" using longest_border(1) [OF Suc.prems(2,3)] i by (simp add: border_def)
  from Suc.prems(2) have "suffix (take (nat (int j)) p) ?w" by (simp add: longest_def)
  with fall_back_holds [OF t, of "int j" ?w "p ! i"] j obtain j' where
    j': "fall_back (\<lambda>j. j > -1) 0 (Inr (p ! i)) (map Some p) table (int j) = Some (Inr j')" "-1 \<le> j'" "j' \<le> int j"
    "0 \<le> j' \<longrightarrow> suffix (take (nat j') p) ?w \<and> p ! nat j' = p ! i"
    "\<forall>k. int k \<le> int j \<and> suffix (take k p) ?w \<and> p ! k = p ! i \<longrightarrow> int k \<le> j'" by auto
  define k where "k = nat (j' + 1)"
  then have k: "j' + 1 = int k" using j'(2) by simp
  have l: "longest p (drop 1 (take (Suc i) p)) k"
    unfolding take_tail [OF Suc.prems(3) i(1)] k_def
    by (rule longest_step [OF Suc.prems(2) j'(2,4,5)]) (use j'(3) j i(1) in simp)
  from build_step [OF t l] i obtain table' where
    t': "bind_res (table_entry (int i + 1 < int (length p)) 0 (map Some p) table (int i + 1) (int k))
      (put table (int i + 1)) = Inr table'" "table_ok p table' (min (Suc (Suc i)) (length p))" by auto
  from Suc.hyps(1) [OF i(2) t'(2) l] i obtain table'' where
    t'': "build_loop (map Some p) (int (length p)) (int (Suc i)) (int k) table' = Some (Inr table'')"
    "table_ok p table'' (length p)" by auto
  have s: "int (Suc i) = int i + 1" by simp
  have u: "ulong (int i) = int i" "ulong (int i + 1) = int i + 1" using n i by (simp_all add: ulong_small)
  have "build_loop (map Some p) (int (length p)) (int i) (int j) table = Some (Inr table'')"
    using i t'(1) t''(1) [unfolded s] j'(1) by (simp add: build_loop.simps [of _ _ "int i"] u at_some k)
  with t''(2) show ?case by blast
qed

lemma build_table_holds:
  assumes n: "int (length p) < 2 ^ 63" and p: "p \<noteq> []" and len: "length table = length p + 1"
  shows "\<exists>table'. utstring_BuildTable (map Some p) (int (length p)) table = Some (Inr table') \<and>
    table_ok p table' (length p)"
proof -
  let ?t = "table[0 := Some (-1)]"
  from p len have t: "table_ok p ?t 1" by (auto simp: table_ok_def entry_ok_def border_def Suc_le_eq)
  have l: "longest p (drop 1 (take (Suc 0) p)) 0" using p by (auto simp: longest_def)
  from build_step [OF t [unfolded One_nat_def] l] p obtain t1 where
    t1: "bind_res (table_entry (1 < int (length p)) 0 (map Some p) ?t 1 0) (put ?t 1) = Inr t1"
    "table_ok p t1 (min (Suc (Suc 0)) (length p))" by (auto simp: Suc_le_eq)
  from build_loop_holds [OF n t1(2) l] p obtain t2 where
    t2: "build_loop (map Some p) (int (length p)) 1 0 t1 = Some (Inr t2)" "table_ok p t2 (length p)"
    by (auto simp: Suc_le_eq)
  have "build_loop (map Some p) (int (length p)) 0 (-1) ?t = Some (Inr t2)"
    using p t1(1) t2(1) n by (simp add: build_loop.simps [of _ _ 0] ulong_def fall_back.simps)
  with t2(2) len show ?thesis by (auto simp: utstring_BuildTable_def put_def)
qed

section \<open>The places of a text in another\<close>

definition occurrences :: "string \<Rightarrow> string \<Rightarrow> nat list" where
  "occurrences p t = filter (\<lambda>i. take (length p) (drop i t) = p) [0..<Suc (length t)]"

definition first_occurrence :: "string \<Rightarrow> string \<Rightarrow> nat option" where
  "first_occurrence p t = (case occurrences p t of [] \<Rightarrow> None | i # _ \<Rightarrow> Some i)"

definition last_occurrence :: "string \<Rightarrow> string \<Rightarrow> nat option" where
  "last_occurrence p t = (if occurrences p t = [] then None else Some (last (occurrences p t)))"

lemma upt_split: "k \<le> m \<Longrightarrow> [0..<Suc m] = [0..<k] @ k # [Suc k..<Suc m]"
  by (metis le_imp_less_Suc less_imp_le upt_add_eq_append upt_conv_Cons zero_le le_add_diff_inverse add_0)

lemma first_occurrence_is:
  assumes "take (length p) (drop k t) = p" and "\<forall>i<k. take (length p) (drop i t) \<noteq> p" and "k \<le> length t"
  shows "first_occurrence p t = Some k"
proof -
  have "filter (\<lambda>i. take (length p) (drop i t) = p) [0..<k] = []" using assms(2) by (simp add: filter_empty_conv)
  with assms(1) show ?thesis
    unfolding first_occurrence_def occurrences_def upt_split [OF assms(3)] by simp
qed

lemma last_occurrence_is:
  assumes "take (length p) (drop k t) = p" and "\<forall>i>k. take (length p) (drop i t) \<noteq> p" and "k \<le> length t"
  shows "last_occurrence p t = Some k"
proof -
  have "filter (\<lambda>i. take (length p) (drop i t) = p) [Suc k..<Suc (length t)] = []"
    using assms(2) by (auto simp: filter_empty_conv)
  with assms(1) show ?thesis
    unfolding last_occurrence_def occurrences_def upt_split [OF assms(3)] by simp
qed

lemma occurrences_nowhere: "(\<And>i. take (length p) (drop i t) \<noteq> p) \<Longrightarrow> occurrences p t = []"
  by (simp add: occurrences_def filter_empty_conv)

lemma first_occurrence_nowhere:
  assumes "\<And>i. take (length p) (drop i t) \<noteq> p"
  shows "first_occurrence p t = None"
  by (simp add: first_occurrence_def occurrences_nowhere [OF assms])

lemma first_occurrence_cases:
  obtains (none) "first_occurrence p t = None" "\<forall>i\<le>length t. take (length p) (drop i t) \<noteq> p"
  | (some) k where "first_occurrence p t = Some k" "take (length p) (drop k t) = p" "k \<le> length t"
      "\<forall>i<k. take (length p) (drop i t) \<noteq> p"
proof (cases "\<exists>i \<le> length t. take (length p) (drop i t) = p")
  case False
  then have "first_occurrence p t = None"
    by (auto simp: first_occurrence_def occurrences_def filter_empty_conv less_Suc_eq_le split: list.split
        dest: arg_cong [where f = set])
  with False none show ?thesis by blast
next
  case True
  define k where "k = (LEAST i. take (length p) (drop i t) = p)"
  from True obtain i where i: "i \<le> length t" "take (length p) (drop i t) = p" by blast
  have k: "take (length p) (drop k t) = p" "k \<le> i" unfolding k_def by (rule LeastI [of _ i], rule i, rule Least_le, rule i)
  have least: "\<forall>j<k. take (length p) (drop j t) \<noteq> p" unfolding k_def by (auto dest: not_less_Least)
  from first_occurrence_is [OF k(1) least] k i least some show ?thesis by simp
qed

lemma occurrence_longest:
  assumes l: "longest p (take j t) i" and j: "j \<le> length t" and p: "p \<noteq> []"
    and k: "take (length p) (drop k t) = p" and no: "\<forall>m. m + length p \<le> j \<longrightarrow> take (length p) (drop m t) \<noteq> p"
  shows "j - i \<le> k" and "k + length p \<le> length t"
proof -
  have len: "length p \<le> length t - k" using arg_cong [OF k, of length] by simp
  with p show "k + length p \<le> length t" by (cases "k \<le> length t") auto
  show "j - i \<le> k"
  proof (cases "k < j")
    case True
    have "j < k + length p" using no k by (meson not_le)
    with True have m: "j - k < length p" by simp
    have "take (j - k) p = take (j - k) (drop k t)" using m by (subst k [symmetric]) (simp add: min_def)
    also have "\<dots> = drop k (take j t)" by (simp add: drop_take)
    finally have "suffix (take (j - k) p) (take j t)" by (simp add: suffix_drop)
    with l m have "j - k \<le> i" by (simp add: longest_def)
    then show ?thesis by simp
  qed simp
qed

lemma suffix_occurrence:
  assumes "suffix (take i p) (take j t)" and "i \<le> length p" and "j \<le> length t"
  shows "i \<le> j" and "take i (drop (j - i) t) = take i p"
proof -
  from suffix_length_le [OF assms(1)] assms(2,3) show i: "i \<le> j" by simp
  from assms obtain zs where z: "take j t = zs @ take i p" by (auto simp: suffix_def)
  have "length (take j t) = length (zs @ take i p)" by (simp only: z)
  with assms(2,3) i have "length zs = j - i" by simp
  with z have "drop (j - i) (take j t) = take i p" by simp
  with i show "take i (drop (j - i) t) = take i p" by (simp add: drop_take)
qed

text \<open>
  The loop from \<open>j\<close> on, over a text \<open>t\<close> in memory, with nothing found that ends before \<open>j\<close>.
\<close>

definition found_at :: "nat option \<Rightarrow> int" where
  "found_at r = (case r of None \<Rightarrow> -1 | Some k \<Rightarrow> int k)"

lemma find_loop_holds:
  assumes T: "table_ok p table (length p)" and p: "p \<noteq> []" and h: "length t < 2 ^ 31" and n: "length p < 2 ^ 31"
    and hay: "\<forall>k<length t. at hay (off + int k) = Inr (t ! k)"
  shows "longest p (take j t) i \<Longrightarrow> j \<le> length t \<Longrightarrow>
    (\<forall>m. m + length p \<le> j \<longrightarrow> take (length p) (drop m t) \<noteq> p) \<Longrightarrow>
    find_loop hay off (int (length t)) (map Some p) (int (length p)) table (int i) (int j) =
      Some (Inr (found_at (first_occurrence p t)))"
proof (induction "length t - j" arbitrary: i j rule: less_induct)
  case less
  note l = less.prems(1) and j = less.prems(2) and no = less.prems(3)
  have i: "i < length p" "suffix (take i p) (take j t)" using l by (simp_all add: longest_def)
  note ij = suffix_occurrence(1) [OF i(2) less_imp_le [OF i(1)] j]
  have c: "cint (int (length t)) = int (length t)" "cint (int (length p)) = int (length p)"
    "ulong (int (length t) - int j + int i) = int (length t) - int j + int i"
    using h n j ij by (simp_all add: cint_small ulong_small)
  show ?case
  proof (cases "j < length t \<and> length p \<le> length t - j + i")
    case False
    have "take (length p) (drop k t) \<noteq> p" for k
    proof
      assume k: "take (length p) (drop k t) = p"
      from occurrence_longest [OF l j p k no] have "j - i \<le> k" "k + length p \<le> length t" .
      with False ij i(1) j show False by auto
    qed
    then have "first_occurrence p t = None" by (rule first_occurrence_nowhere)
    moreover have "\<not> (int j < int (length t) \<and> int (length p) \<le> int (length t) - int j + int i)"
      using False j by auto
    ultimately show ?thesis by (auto simp: find_loop.simps [of _ _ _ _ _ _ "int i"] c found_at_def)
  next
    case True
    then have g: "int j < int (length t) \<and> int (length p) \<le> int (length t) - int j + int i" by auto
    let ?w = "take j t"
    have T': "table_ok p table (length p)" and i': "int i < int (length p)" "suffix (take (nat (int i)) p) ?w"
      using T i by simp_all
    from fall_back_holds [OF T', of "int i" ?w "t ! j"] i' obtain i1 where
      i1: "fall_back (\<lambda>i. i > -1) 0 (Inr (t ! j)) (map Some p) table (int i) = Some (Inr i1)" "-1 \<le> i1" "i1 \<le> int i"
      "0 \<le> i1 \<longrightarrow> suffix (take (nat i1) p) ?w \<and> p ! nat i1 = t ! j"
      "\<forall>k. int k \<le> int i \<and> suffix (take k p) ?w \<and> p ! k = t ! j \<longrightarrow> int k \<le> i1" by auto
    have w: "take (Suc j) t = ?w @ [t ! j]" using True by (simp add: take_Suc_conv_app_nth)
    have step: "find_loop hay off (int (length t)) (map Some p) (int (length p)) table (int i) (int j) =
      (if i1 + 1 \<ge> int (length p) then Some (Inr (int j + 1 - (i1 + 1)))
       else find_loop hay off (int (length t)) (map Some p) (int (length p)) table (i1 + 1) (int j + 1))"
      using g True hay i1(1) by (simp add: find_loop.simps [of _ _ _ _ _ _ "int i"] c)
    show ?thesis
    proof (cases "i1 + 1 \<ge> int (length p)")
      case found: True
      with i1(3) i(1) have e: "i1 + 1 = int (length p)" "Suc (nat i1) = length p" "0 \<le> i1" "nat i1 < length p"
        using p by (auto simp: Suc_le_eq nat_less_iff)
      have "suffix (take (Suc (nat i1)) p) (?w @ [t ! j])"
        unfolding suffix_take_Suc [OF e(4)] using i1(4) e(3) by simp
      with e(2) w have s: "suffix (take (length p) p) (take (Suc j) t)" by simp
      note o = suffix_occurrence [OF s order_refl, unfolded Suc_le_eq, OF conjunct1 [OF True]]
      have "first_occurrence p t = Some (Suc j - length p)"
      proof (rule first_occurrence_is)
        show "take (length p) (drop (Suc j - length p) t) = p" using o by simp
        show "\<forall>m<Suc j - length p. take (length p) (drop m t) \<noteq> p" using no by auto
      qed (use True in linarith)
      with found step e(1) o(1) show ?thesis by (simp add: found_at_def of_nat_diff Suc_le_eq)
    next
      case False
      define k where "k = nat (i1 + 1)"
      then have k: "i1 + 1 = int k" using i1(2) by simp
      have l': "longest p (take (Suc j) t) k"
        unfolding w k_def by (rule longest_step [OF l i1(2,4,5)]) (use False in simp)
      have no': "\<forall>m. m + length p \<le> Suc j \<longrightarrow> take (length p) (drop m t) \<noteq> p"
      proof (intro allI impI notI)
        fix m assume m: "m + length p \<le> Suc j" "take (length p) (drop m t) = p"
        with no have e: "m + length p = Suc j" by (metis le_SucE)
        have "suffix p (take (Suc j) t)"
          using m(2) e by (metis add_diff_cancel_left' drop_take suffix_drop)
        moreover obtain n where n: "length p = Suc n" using p by (cases p) auto
        ultimately have "suffix (take (Suc n) p) (?w @ [t ! j])" using w by simp
        then have "suffix (take n p) ?w" "p ! n = t ! j"
          unfolding suffix_take_Suc [OF lessI [of n, folded n]] by simp_all
        moreover have "n \<le> i" using l n calculation(1) by (simp add: longest_def)
        ultimately have "int n \<le> i1" using i1(5) by simp
        with n False show False by simp
      qed
      have s: "int j + 1 = int (Suc j)" by simp
      from True have "length t - Suc j < length t - j" "Suc j \<le> length t" by linarith+
      from less.hyps [OF this(1) l' this(2) no'] step False show ?thesis by (simp add: k s del: of_nat_Suc)
    qed
  qed
qed

lemma find_table_holds:
  assumes "table_ok p table (length p)" and "p \<noteq> []" and "length t < 2 ^ 31" and "length p < 2 ^ 31"
    and "\<forall>k<length t. at hay (off + int k) = Inr (t ! k)"
  shows "utstring_find_table hay off (int (length t)) (map Some p) (int (length p)) table =
    Some (Inr (found_at (first_occurrence p t)))"
proof -
  have "longest p (take 0 t) 0" using assms(2) by (auto simp: longest_def)
  from find_loop_holds [OF assms this] assms(2) show ?thesis by (simp add: utstring_find_table_def)
qed

lemma at_text:
  assumes "us_rep s t" and "k < length t"
  shows "at (us_d s) (int k) = Inr (t ! k)"
proof -
  from us_rep_prefix [OF assms(1)] assms(2) have "us_d s ! k = Some (t ! k)"
    by (metis nth_map nth_take)
  moreover from assms have "k < length (us_d s)" by (simp add: us_rep_def)
  ultimately show ?thesis by (simp add: at_def)
qed

section \<open>From the right\<close>

text \<open>
  The search from the right is the one from the left over the needle and the haystack
  reversed, with every position \<open>i\<close> of the needle as \<open>n - 1 - i\<close>.
\<close>

definition mirror :: "int \<Rightarrow> int option list \<Rightarrow> int option list" where
  "mirror n table = map (map_option (\<lambda>v. n - 1 - v)) (rev table)"

definition in_range :: "int \<Rightarrow> int option list \<Rightarrow> bool" where
  "in_range n table \<longleftrightarrow> int (length table) = n + 1 \<and> (\<forall>k<length table. \<forall>v. table ! k = Some v \<longrightarrow> -1 \<le> v \<and> v < int k)"

abbreviation turned :: "int \<Rightarrow> int res \<Rightarrow> int res" where
  "turned n \<equiv> map_sum id (\<lambda>v. n - 1 - v)"

lemma at_rev: "at (map Some (rev p)) k = at (map Some p) (int (length p) - 1 - k)"
proof (cases "0 \<le> k \<and> k < int (length p)")
  case True
  then have "nat (int (length p) - 1 - k) = length p - Suc (nat k)" by (simp add: nat_diff_distrib)
  moreover from True have "nat k < length p" by (simp add: nat_less_iff)
  moreover from this have "length p - Suc (nat k) < length p" by simp
  ultimately show ?thesis using True by (simp add: at_def rev_nth)
qed (auto simp: at_def)

lemma at_mirror:
  assumes "in_range n table"
  shows "at (mirror n table) (n - k) = turned n (at table k)"
proof (cases "0 \<le> k \<and> k < int (length table)")
  case True
  with assms have "nat (n - k) = length table - Suc (nat k)" "nat k < length table" by (auto simp: in_range_def)
  with True assms show ?thesis
    by (auto simp: at_def mirror_def rev_nth in_range_def split: option.split)
next
  case False
  with assms show ?thesis by (auto simp: at_def mirror_def in_range_def)
qed

lemma at_in_range: "in_range n table \<Longrightarrow> at table k = Inr v \<Longrightarrow> -1 \<le> v \<and> v < k \<and> v < n"
proof -
  assume r: "in_range n table" and "at table k = Inr v"
  then have k: "nat k < length table" "table ! nat k = Some v" "0 \<le> k"
    by (auto simp: at_def nat_less_iff split: if_splits option.splits)
  with r have "-1 \<le> v \<and> v < k" unfolding in_range_def by (metis int_nat_eq)
  moreover from r k have "k \<le> n" by (simp add: in_range_def nat_less_iff)
  ultimately show ?thesis by linarith
qed

lemma put_mirror:
  assumes "in_range n table" and "0 \<le> k" and "k \<le> n"
  shows "put (mirror n table) (n - k) (n - 1 - v) = map_sum id (mirror n) (put table k v)"
proof -
  from assms have "nat (n - k) = length table - Suc (nat k)" "nat k < length table" by (auto simp: in_range_def)
  with assms show ?thesis
    by (simp add: put_def mirror_def in_range_def rev_update map_update)
qed

lemma put_in_range:
  assumes "in_range n table" and "-1 \<le> v" and "v < k" and "put table k v = Inr table'"
  shows "in_range n table'"
  using assms by (auto simp: in_range_def put_def nth_list_update split: if_splits)

lemma fall_back_mirror:
  assumes "in_range n table" and "\<forall>j. -1 \<le> j \<and> j < n \<longrightarrow> inside (n - 1 - j) = (j > -1)" and n: "n = int (length p)"
  shows "fall_back (\<lambda>j. j > -1) 0 c (map Some (rev p)) table j = Some r \<Longrightarrow> -1 \<le> j \<Longrightarrow> j < n \<Longrightarrow>
    fall_back inside 1 c (map Some p) (mirror n table) (n - 1 - j) = Some (turned n r) \<and>
      (\<forall>v. r = Inr v \<longrightarrow> -1 \<le> v \<and> v \<le> j)"
proof -
  let ?P = "\<lambda>(left :: int \<Rightarrow> bool) (off :: int) c needle tab j r.
    left = (\<lambda>j. j > -1) \<and> off = 0 \<and> needle = map Some (rev p) \<and> tab = table \<and> -1 \<le> j \<and> j < n \<longrightarrow>
      fall_back inside 1 c (map Some p) (mirror n table) (n - 1 - j) = Some (turned n r) \<and>
        (\<forall>v. r = Inr v \<longrightarrow> -1 \<le> v \<and> v \<le> j)"
  assume r: "fall_back (\<lambda>j. j > -1) 0 c (map Some (rev p)) table j = Some r" "-1 \<le> j" "j < n"
  have "?P (\<lambda>j. j > -1) 0 c (map Some (rev p)) table j r"
  proof (rule fall_back.raw_induct [where P = ?P, OF _ r(1)], intro impI, elim conjE, goal_cases)
    case (1 f left off c needle tab j r)
    show ?case
    proof (cases "j > -1")
      case False
      with 1(2-) have j: "j = -1" and r: "r = Inr (-1)" by auto
      from assms(2) [rule_format, of "-1"] 1(8) j have "\<not> inside n" by simp
      with j r 1(8) show ?thesis by (simp add: fall_back.simps [of inside])
    next
      case True
      with assms(2) 1(7,8) have ins: "inside (n - 1 - j)" by simp
      have nd: "at (map Some p) (n - 1 - j) = at (map Some (rev p)) j" by (simp add: at_rev n)
      have tb: "at (mirror n table) (n - 1 - j + 1) = turned n (at table j)"
        using at_mirror [OF assms(1), of j] by (simp add: algebra_simps)
      show ?thesis
      proof (cases "at table j")
        case (Inl e)
        with tb have "at (mirror n table) (n - 1 - j + 1) = Inl e" by simp
        with 1 True ins nd Inl show ?thesis
          by (subst fall_back.simps) (cases r; simp split: sum.splits if_splits)
      next
        case (Inr v)
        with tb have "at (mirror n table) (n - 1 - j + 1) = Inr (n - 1 - v)" by simp
        note tb' = this and v = at_in_range [OF assms(1) Inr]
        show ?thesis
        proof (cases "\<exists>x y. c = Inr x \<and> at (map Some (rev p)) j = Inr y \<and> x \<noteq> y")
          case neq: True
          with 1(2-6) True Inr have "f left off c needle tab v = Some r" by auto
          from 1(1) [OF this] 1(3-6) v have
            "fall_back inside 1 c (map Some p) (mirror n table) (n - 1 - v) = Some (turned n r)"
            "\<forall>w. r = Inr w \<longrightarrow> -1 \<le> w \<and> w \<le> v" by simp_all
          with neq ins nd tb' v show ?thesis by (subst fall_back.simps) auto
        next
          case False
          with 1(2-6) True ins nd Inr show ?thesis
            by (subst fall_back.simps) (cases r; force split: sum.splits if_splits)
        qed
      qed
    qed
  qed
  with r show "fall_back inside 1 c (map Some p) (mirror n table) (n - 1 - j) = Some (turned n r) \<and>
      (\<forall>v. r = Inr v \<longrightarrow> -1 \<le> v \<and> v \<le> j)" by blast
qed

lemma table_entry_mirror:
  assumes "in_range n table" and n: "n = int (length p)"
  shows "table_entry inside 1 (map Some p) (mirror n table) (n - 1 - i) (n - 1 - j) =
    turned n (table_entry inside 0 (map Some (rev p)) table i j)"
proof -
  have "at (mirror n table) (n - 1 - j + 1) = turned n (at table j)"
    using at_mirror [OF assms(1), of j] by (simp add: algebra_simps)
  then show ?thesis
    by (simp add: table_entry_def at_rev n bind_res_def split: sum.split)
qed

lemma build_loop_mirror:
  assumes n: "n = int (length p)" and small: "n < 2 ^ 63"
  shows "build_loop (map Some (rev p)) n i j table = Some (Inr table') \<Longrightarrow>
    in_range n table \<Longrightarrow> 0 \<le> i \<Longrightarrow> i \<le> n \<Longrightarrow> -1 \<le> j \<Longrightarrow> j < i \<Longrightarrow>
    buildR_loop (map Some p) n (n - 1 - i) (n - 1 - j) (mirror n table) = Some (Inr (mirror n table')) \<and>
      in_range n table'"
proof -
  let ?P = "\<lambda>needle m i j table (r :: int option list res). needle = map Some (rev p) \<and> m = n \<and> in_range n table \<and>
      0 \<le> i \<and> i \<le> n \<and> -1 \<le> j \<and> j < i \<longrightarrow>
      (\<forall>table'. r = Inr table' \<longrightarrow>
        buildR_loop (map Some p) n (n - 1 - i) (n - 1 - j) (mirror n table) = Some (Inr (mirror n table')) \<and>
        in_range n table')"
  assume r: "build_loop (map Some (rev p)) n i j table = Some (Inr table')"
    and range: "in_range n table" "0 \<le> i" "i \<le> n" "-1 \<le> j" "j < i"
  have "?P (map Some (rev p)) n i j table (Inr table')"
  proof (rule build_loop.raw_induct [where P = ?P, OF _ r], intro impI allI, elim conjE, goal_cases)
    case (1 f needle m i j table r table')
    have u: "ulong i = i" "ulong (i + 1) = i + 1" using 1(7,8) small by (simp_all add: ulong_small)
    show ?case
    proof (cases "i < n")
      case False
      with 1 u show ?thesis by (simp add: buildR_loop.simps)
    next
      case True
      have guard: "\<forall>j. -1 \<le> j \<and> j < n \<longrightarrow> (ulong (n - 1 - j) < n) = (j > -1)"
        using small by (auto simp: ulong_small)
      have c: "at (map Some p) (n - 1 - i) = at (map Some (rev p)) i" by (simp add: at_rev n)
      let ?f = "fall_back (\<lambda>j. j > -1) 0 (at (map Some (rev p)) i) (map Some (rev p)) table j"
      let ?e = "\<lambda>j1. bind_res (table_entry (i + 1 < n) 0 (map Some (rev p)) table (i + 1) (j1 + 1)) (put table (i + 1))"
      from 1(2-5) True u obtain r1 where f1: "?f = Some r1" by (cases ?f) auto
      with 1(2-5) True u obtain j1 where j1: "r1 = Inr j1" by (cases r1) auto
      with f1 1(2-5) True u obtain t1 where t1: "?e j1 = Inr t1" by (cases "?e j1") auto
      from f1 j1 have f: "?f = Some (Inr j1)" by simp
      with t1 1(2-5) True u have rec: "f (map Some (rev p)) n (i + 1) (j1 + 1) t1 = Some (Inr table')" by simp
      note e = t1
      from True 1(10) have jn: "j < n" by simp
      note m = fall_back_mirror [OF 1(6) guard n f 1(9) jn]
      then have fm: "fall_back (\<lambda>j. ulong j < n) 1 (at (map Some p) (n - 1 - i)) (map Some p) (mirror n table) (n - 1 - j) =
          Some (Inr (n - 1 - j1))" and j1: "-1 \<le> j1" "j1 < i" using c 1(10) by auto
      from e obtain v where v: "table_entry (i + 1 < n) 0 (map Some (rev p)) table (i + 1) (j1 + 1) = Inr v"
        "put table (i + 1) v = Inr t1" by (auto simp: bind_res_eq_Inr)
      have vr: "-1 \<le> v" "v < i + 1"
        using v(1) j1 at_in_range [OF 1(6), of "j1 + 1" v]
        by (auto simp: table_entry_def bind_res_eq_Inr split: if_splits)
      have ge: "(0 \<le> n - 1 - i - 1) = (i + 1 < n)" by auto
      have em: "table_entry (0 \<le> n - 1 - i - 1) 1 (map Some p) (mirror n table) (n - 1 - i - 1) (n - 1 - j1 - 1) = Inr (n - 1 - v)"
        using table_entry_mirror [OF 1(6) n, of "i + 1 < n" "i + 1" "j1 + 1"] v(1) unfolding ge by (simp add: algebra_simps)
      have pm: "put (mirror n table) (n - 1 - i - 1 + 1) (n - 1 - v) = Inr (mirror n t1)"
        using put_mirror [OF 1(6), of "i + 1" v] v(2) True 1(7) by (simp add: algebra_simps)
      have t1: "in_range n t1" using put_in_range [OF 1(6) vr v(2)] .
      from 1(1) [OF rec] t1 True 1(7) j1 have
        rec': "buildR_loop (map Some p) n (n - 1 - i - 1) (n - 1 - j1 - 1) (mirror n t1) = Some (Inr (mirror n table'))"
        and r': "in_range n table'" by (simp_all add: algebra_simps)
      define a b where "a = n - 1 - i" and "b = n - 1 - j1"
      note ab = this [symmetric]
      have "0 \<le> a" using True by (simp add: a_def)
      then have "buildR_loop (map Some p) n a (n - 1 - j) (mirror n table) = Some (Inr (mirror n table'))"
        by (subst buildR_loop.simps) (simp add: fm [unfolded ab] em [unfolded ab, simplified]
            pm [unfolded ab, simplified] rec' [unfolded ab])
      with r' show ?thesis by (simp add: a_def)
    qed
  qed
  with r range show ?thesis by blast
qed

lemma build_table_mirror:
  assumes n: "n = int (length p)" and small: "n < 2 ^ 63" and p: "p \<noteq> []" and len: "length table = length p + 1"
    and none: "\<forall>v. Some v \<notin> set table"
    and b: "utstring_BuildTable (map Some (rev p)) n table = Some (Inr table')"
  shows "utstring_BuildTableR (map Some p) n table = Some (Inr (mirror n table')) \<and> in_range n table'"
proof -
  let ?t = "table[0 := Some (-1)]"
  from len b have l: "build_loop (map Some (rev p)) n 0 (-1) ?t = Some (Inr table')"
    by (simp add: utstring_BuildTable_def put_def)
  have no: "table ! k = None" if "k < length table" for k
    using none that nth_mem by (cases "table ! k") force+
  have r: "in_range n ?t" using len no n by (auto simp: in_range_def nth_list_update)
  let ?xs = "replicate (length p) (None :: int option)"
  from no have e: "table = replicate (Suc (length p)) None" using len by (intro nth_equalityI) (simp_all del: replicate_Suc)
  then have "table = ?xs @ [None]" by (simp add: replicate_append_same)
  then have "table[length p := Some n] = ?xs @ [Some n]" using list_update_length [of ?xs None "[]" "Some n"] by simp
  moreover from e have "mirror n ?t = ?xs @ [Some n]" by (simp add: mirror_def)
  ultimately have m: "mirror n ?t = table[length p := Some n]" by simp
  from build_loop_mirror [OF n small l r, unfolded m] n p have
    "buildR_loop (map Some p) n (n - 1) n (table[length p := Some n]) = Some (Inr (mirror n table'))" "in_range n table'" by simp_all
  with len n show ?thesis by (simp add: utstring_BuildTableR_def put_def)
qed

lemma find_loop_mirror:
  assumes n: "n = int (length p)" and h: "h = int (length t)" and nh: "n \<le> h" "h < 2 ^ 31"
    and r: "in_range n table"
    and hay: "\<forall>k<length t. at hay (int k) = Inr (t ! k)"
  shows "find_loop (map Some (rev t)) 0 h (map Some (rev p)) n table i j = Some (Inr v) \<Longrightarrow>
    0 \<le> i \<Longrightarrow> i < n \<Longrightarrow> i \<le> j \<Longrightarrow> j \<le> h \<Longrightarrow>
    findR_loop hay (map Some p) n (mirror n table) (n - 1 - i) (h - 1 - j) =
      Some (Inr (if v = -1 then -1 else h - n - v))"
proof -
  let ?P = "\<lambda>left (off :: int) m needle l tab i j (r :: int res). left = map Some (rev t) \<and> off = 0 \<and> m = h \<and>
      needle = map Some (rev p) \<and> l = n \<and> tab = table \<and> 0 \<le> i \<and> i < n \<and> i \<le> j \<and> j \<le> h \<longrightarrow>
      (\<forall>v. r = Inr v \<longrightarrow>
        findR_loop hay (map Some p) n (mirror n table) (n - 1 - i) (h - 1 - j) =
          Some (Inr (if v = -1 then -1 else h - n - v)))"
  assume run: "find_loop (map Some (rev t)) 0 h (map Some (rev p)) n table i j = Some (Inr v)"
    and range: "0 \<le> i" "i < n" "i \<le> j" "j \<le> h"
  have c: "cint h = h" "cint n = n" using nh n by (simp_all add: cint_small)
  have "?P (map Some (rev t)) 0 h (map Some (rev p)) n table i j (Inr v)"
  proof (rule find_loop.raw_induct [where P = ?P, OF _ run], intro impI allI, elim conjE, goal_cases)
    case (1 f left off m needle l tab i j r v)
    then have u: "ulong (h - j + i) = h - j + i" using nh by (simp add: ulong_small)
    show ?case
    proof (cases "j < h \<and> n \<le> h - j + i")
      case False
      with 1(2-6,8,9) u c have "v = -1" by auto
      moreover from False have "\<not> (0 \<le> h - 1 - j \<and> n - 1 - i \<le> h - 1 - j)" by auto
      ultimately show ?thesis by (subst findR_loop.simps) auto
    next
      case True
      then have g: "0 \<le> h - 1 - j \<and> n - 1 - i \<le> h - 1 - j" by auto
      have guard: "\<forall>i. -1 \<le> i \<and> i < n \<longrightarrow> (n - 1 - i < cint n) = (i > -1)" using c by auto
      have ch: "at hay (h - 1 - j) = at (map Some (rev t)) j"
      proof -
        define k where "k = nat (h - 1 - j)"
        with True have k: "h - 1 - j = int k" by simp
        with True 1(10,12) h have "k < length t" by simp
        with hay show ?thesis unfolding k by (simp add: at_rev h [symmetric] k at_some)
      qed
      let ?f = "fall_back (\<lambda>i. i > -1) 0 (at (map Some (rev t)) j) (map Some (rev p)) table i"
      from 1(2-9) True u c obtain r1 where f1: "?f = Some r1" by (cases ?f) auto
      with 1(2-9) True u c obtain i1 where i1: "r1 = Inr i1" by (cases r1) auto
      with f1 have f: "?f = Some (Inr i1)" by simp
      from fall_back_mirror [OF r guard n f _ 1(11)] 1(10) ch have
        fm: "fall_back (\<lambda>i. i < cint n) 1 (at hay (h - 1 - j)) (map Some p) (mirror n table) (n - 1 - i) = Some (Inr (n - 1 - i1))"
        and i1r: "-1 \<le> i1" "i1 \<le> i" by simp_all
      show ?thesis
      proof (cases "i1 + 1 \<ge> n")
        case found: True
        with f 1(2-9) True u c have "v = j + 1 - (i1 + 1)" by simp
        with found i1r 1(11) have 
          e: "h - 1 - j = h - n - v" "n - 1 - i1 - 1 < 0" "v \<noteq> -1" using 1(12) by auto
        define a where "a = h - 1 - j"
        from g fm e(2) have "findR_loop hay (map Some p) n (mirror n table) (n - 1 - i) a = Some (Inr a)"
          unfolding a_def [symmetric] by (subst findR_loop.simps) simp
        with e show ?thesis unfolding a_def by simp
      next
        case False
        with f 1(2-9) True u c have "f (map Some (rev t)) 0 h (map Some (rev p)) n table (i1 + 1) (j + 1) = Some (Inr v)"
          by simp
        from 1(1) [OF this] False i1r 1(12) True have
          "findR_loop hay (map Some p) n (mirror n table) (n - 1 - (i1 + 1)) (h - 1 - (j + 1)) =
            Some (Inr (if v = -1 then -1 else h - n - v))" by simp
        moreover have "n - 1 - (i1 + 1) = n - 1 - i1 - 1" "h - 1 - (j + 1) = h - 1 - j - 1" by simp_all
        ultimately show ?thesis using False g fm by (subst findR_loop.simps) simp
      qed
    qed
  qed
  with run range show ?thesis by blast
qed

lemma find_table_mirror:
  assumes n: "n = int (length p)" and h: "h = int (length t)" and nh: "n \<le> h" "h < 2 ^ 31" and p: "p \<noteq> []"
    and r: "in_range n table"
    and hay: "\<forall>k<length t. at hay (int k) = Inr (t ! k)"
    and run: "utstring_find_table (map Some (rev t)) 0 h (map Some (rev p)) n table = Some (Inr v)"
  shows "utstring_findR_table hay h (map Some p) n (mirror n table) = Some (Inr (if v = -1 then -1 else h - n - v))"
proof -
  have "clong (n - 1) = n - 1" "clong (h - 1) = h - 1" using nh n p by (simp_all add: clong_small)
  with find_loop_mirror [OF n h nh r hay run [unfolded utstring_find_table_def]] n h p show ?thesis
    by (simp add: utstring_findR_table_def)
qed

lemma occurrence_rev:
  assumes "length p + i + j = length t"
  shows "take (length p) (drop i (rev t)) = rev p \<longleftrightarrow> take (length p) (drop j t) = p"
proof -
  have "length t - (i + length p) = j" "length t - i = length p + j" using assms by simp_all
  then have "take (length p) (drop i (rev t)) = rev (take (length p) (drop j t))"
    by (simp add: drop_rev take_rev take_drop)
  then show ?thesis by (simp add: rev_is_rev_conv)
qed

lemma occurrence_fits: "p \<noteq> [] \<Longrightarrow> take (length p) (drop i t) = p \<Longrightarrow> length p + i \<le> length t"
proof -
  assume "p \<noteq> []" and e: "take (length p) (drop i t) = p"
  then have "0 < length p" by simp
  moreover have "length (take (length p) (drop i t)) = length p" by (simp only: e)
  then have "length p \<le> length t - i" by (simp add: min_def split: if_splits)
  ultimately show ?thesis by linarith
qed

lemma last_occurrence_rev:
  assumes p: "p \<noteq> []"
  shows "last_occurrence p t = map_option (\<lambda>i. length t - length p - i) (first_occurrence (rev p) (rev t))"
proof (cases rule: first_occurrence_cases [of "rev p" "rev t"])
  case none
  have "take (length p) (drop j t) \<noteq> p" for j
  proof
    assume e: "take (length p) (drop j t) = p"
    from occurrence_fits [OF p e] obtain i where "length p + i + j = length t"
      by (metis add.assoc add.commute le_Suc_ex)
    with occurrence_rev [OF this] none(2) e show False by auto
  qed
  with none(1) show ?thesis by (simp add: last_occurrence_def occurrences_nowhere)
next
  case (some k)
  from p some(2) have "length p + k \<le> length t" using occurrence_fits [of "rev p" k "rev t"] by simp
  then obtain j where j: "length p + k + j = length t" by (metis le_Suc_ex)
  have "last_occurrence p t = Some j"
  proof (rule last_occurrence_is)
    show "take (length p) (drop j t) = p" using occurrence_rev [OF j] some(2) by simp
    show "\<forall>i>j. take (length p) (drop i t) \<noteq> p"
    proof (intro allI impI notI)
      fix i assume i: "j < i" "take (length p) (drop i t) = p"
      from occurrence_fits [OF p i(2)] obtain m where m: "length p + m + i = length t"
        by (metis add.assoc add.commute le_Suc_ex)
      with occurrence_rev [OF m] i some(4) j show False by auto
    qed
  qed (use j in simp)
  with some(1) j show ?thesis by auto
qed

section \<open>Both searches\<close>

lemma find_holds:
  assumes rep: "us_rep s t" and small: "length t < 2 ^ 31" and p: "p \<noteq> []" and k: "k \<le> length t"
    and start: "start_position s start = int k"
  shows "utstring_find True s start p = Some (Inr (found_at (map_option (\<lambda>i. i + k) (first_occurrence p (drop k t)))))"
proof -
  let ?h = "drop k t"
  have i: "us_i s = length t" using rep by (simp add: us_rep_def)
  have h: "clong (int (us_i s) - int k) = int (length ?h)" "ulong (int (length ?h)) = int (length ?h)"
    using small k i by (simp_all add: clong_small ulong_small of_nat_diff)
  show ?thesis
  proof (cases "length p \<le> length ?h")
    case False
    then have "first_occurrence p ?h = None" using occurrence_fits [OF p] by (intro first_occurrence_nowhere) fastforce
    with False show ?thesis by (simp add: utstring_find_def start h Let_def found_at_def del: length_drop)
  next
    case True
    then have n: "int (length p) < 2 ^ 63" "length p < 2 ^ 31" "length ?h < 2 ^ 31" using small by simp_all
    from build_table_holds [OF n(1) p, of "replicate (length p + 1) None"] obtain T where
      T: "utstring_BuildTable (map Some p) (int (length p)) (replicate (length p + 1) None) = Some (Inr T)"
      "table_ok p T (length p)" by auto
    have "\<forall>j<length ?h. at (us_d s) (int k + int j) = Inr (?h ! j)"
      using at_text [OF rep] by (simp flip: of_nat_add)
    note f = find_table_holds [OF T(2) p n(3,2) this]
    from True p show ?thesis
      by (auto simp: utstring_find_def start h Let_def T(1) [unfolded Suc_eq_plus1 [symmetric]] f found_at_def split: option.split simp del: replicate_Suc length_drop)
  qed
qed

lemma findR_holds:
  assumes rep: "us_rep s t" and small: "length t < 2 ^ 31" and p: "p \<noteq> []" and k: "k < length t"
    and start: "start_position s start = int k"
  shows "utstring_findR True s start p = Some (Inr (found_at (last_occurrence p (take (Suc k) t))))"
proof -
  let ?h = "take (Suc k) t"
  have l: "length ?h = Suc k" using k by simp
  have h: "clong (int k + 1) = int (length ?h)" "ulong (int (length ?h)) = int (length ?h)"
    using small k l by (simp_all add: clong_small ulong_small)
  show ?thesis
  proof (cases "length p \<le> length ?h")
    case False
    then have "occurrences p ?h = []" using occurrence_fits [OF p] by (intro occurrences_nowhere) fastforce
    with False show ?thesis by (simp add: utstring_findR_def start h Let_def found_at_def last_occurrence_def del: length_take)
  next
    case True
    let ?n = "int (length p)"
    have n: "?n < 2 ^ 63" "length p < 2 ^ 31" "length ?h < 2 ^ 31" using small l k True by simp_all
    have p': "rev p \<noteq> []" using p by simp
    let ?m = "replicate (length p + 1) (None :: int option)"
    from build_table_holds [of "rev p" ?m] n(1) p obtain T where
      T: "utstring_BuildTable (map Some (rev p)) ?n ?m = Some (Inr T)" "table_ok (rev p) T (length (rev p))" by auto
    from build_table_mirror [OF refl n(1) p _ _ T(1)] have
      R: "utstring_BuildTableR (map Some p) ?n ?m = Some (Inr (mirror ?n T))" "in_range ?n T" by auto
    have "\<forall>j<length (rev ?h). at (map Some (rev ?h)) (0 + int j) = Inr (rev ?h ! j)" by (simp add: at_some del: rev_take)
    from find_table_holds [OF T(2) p' _ _ this] n have
      f: "utstring_find_table (map Some (rev ?h)) 0 (int (length ?h)) (map Some (rev p)) ?n T =
        Some (Inr (found_at (first_occurrence (rev p) (rev ?h))))" by simp
    have hay: "\<forall>j<length ?h. at (us_d s) (int j) = Inr (?h ! j)" using at_text [OF rep] by simp
    have b: "?n \<le> int (length ?h)" "int (length ?h) < 2 ^ 31" using True n(3) by simp_all
    note that = find_table_mirror [OF refl refl b p R(2) hay f]
    then have g: "utstring_findR_table (us_d s) (int (length ?h)) (map Some p) ?n (mirror ?n T) =
        Some (Inr (found_at (last_occurrence p ?h)))"
    proof (cases rule: first_occurrence_cases [of "rev p" "rev ?h"])
      case (some i)
      with occurrence_fits [OF p' some(2)] l have "length p + i \<le> Suc k" by simp
      with that some l show ?thesis
        by (simp add: last_occurrence_rev [OF p] found_at_def of_nat_diff algebra_simps del: rev_take)
    qed (simp_all add: last_occurrence_rev [OF p] found_at_def that del: rev_take)
    from True p show ?thesis
      by (simp add: utstring_findR_def start h Let_def R(1) [unfolded Suc_eq_plus1 [symmetric]] g del: replicate_Suc length_take)
  qed
qed

lemma start_positions:
  assumes "us_rep s t" and "length t < 2 ^ 31" and "k \<le> length t"
  shows "start_position s (int k) = int k"
    and "k < length t \<Longrightarrow> start_position s (int k - int (length t)) = int k"
  using assms by (simp_all add: start_position_def us_rep_def clong_small)

text \<open>
  C39: both searches are exact. For a text of less than 2 GiB and a needle that is not
  empty, \<open>utstring_find\<close> gives the first place at or after the start where the needle stands,
  \<open>utstring_findR\<close> the last place where it ends at or before the start, and -1 if there is
  none; a negative start counts from the end, -1 being the last position. They always
  return and read nothing outside the text, the needle and the table.
\<close>

theorem search_exact:
  assumes "us_rep s t" and "length t < 2 ^ 31" and "p \<noteq> []" and "k < length t"
    and "start = int k \<or> start = int k - int (length t)"
  shows "utstring_find True s start p = Some (Inr (found_at (map_option (\<lambda>i. i + k) (first_occurrence p (drop k t))))) \<and>
    utstring_findR True s start p = Some (Inr (found_at (last_occurrence p (take (Suc k) t))))"
proof -
  have "start_position s start = int k" using start_positions [OF assms(1,2), of k] assms(4,5) by auto
  with find_holds [OF assms(1-3)] findR_holds [OF assms(1-3)] assms(4) show ?thesis by simp
qed

text \<open>A start past the end or too far before the beginning is not checked: the bytes are read all the same.\<close>

definition abab :: ut_string where
  "abab = \<lparr>us_d = map Some (''abab'' @ [NUL]), us_n = 5, us_i = 4\<rparr>"

lemma abab_rep: "us_rep abab ''abab''"
  by (simp add: us_rep_def abab_def)

lemma find_before_text: "utstring_find True abab (-6) ''b'' = Some (Inl Out_of_bounds)"
  by (simp add: utstring_find_def abab_def start_position_def clong_def ulong_def cint_def Let_def utstring_BuildTable_def
      build_loop.simps [of _ _ 0] build_loop.simps [of _ _ 1] put_def at_def fall_back.simps table_entry_def bind_res_def
      utstring_find_table_def find_loop.simps)

theorem search_exact_witness:
  "utstring_find True abab 0 ''ab'' = Some (Inr 0) \<and> utstring_findR True abab (-1) ''ab'' = Some (Inr 2)"
proof -
  have small: "length ''abab'' < 2 ^ 31" "''ab'' \<noteq> []" by simp_all
  have "first_occurrence ''ab'' ''abab'' = Some 0" "last_occurrence ''ab'' ''abab'' = Some 2" by code_simp+
  with search_exact [OF abab_rep small, of 0 0] search_exact [OF abab_rep small, of 3 "-1"] show ?thesis
    by (simp add: found_at_def)
qed

end
