(* ===== verification/Utarray_More.thy ===== *)
theory Utarray_More
  imports Utarray "HOL-Library.Multiset"
begin

text \<open>
  The macros of \<open>lib/ut/utarray.h\<close> the server does not use, over the same representation. What
  an array knows of its elements (\<open>UT_icd\<close>) is what \<open>init\<close> writes, if there is one, whether
  there is a destructor, which reads the element it is given, and what an element of zero bytes
  is. A copied element is equal to the original. \<open>utarray_find\<close> is \<open>bsearch\<close> of the C library and
  has no code of its own.
\<close>

record 'a icd =
  icd_init :: "'a option"
  icd_dtor :: bool
  icd_zero :: 'a

definition ua_dtors :: "'a icd \<Rightarrow> 'a ut_array \<Rightarrow> nat list \<Rightarrow> unit res" where
  "ua_dtors c a ks = (if icd_dtor c \<and> (\<exists>k \<in> set ks. ua_eltptr a k = None) then Inl Null_deref else Inr ())"

definition ua_free :: "'a icd \<Rightarrow> 'a ut_array \<Rightarrow> unit res" where
  "ua_free c a = (if ua_n a \<noteq> 0 then ua_dtors c a [0..<unat (ua_i a)] else Inr ())"

definition ua_clear :: "'a icd \<Rightarrow> 'a ut_array \<Rightarrow> 'a ut_array res" where
  "ua_clear c a =
     (if ua_i a > 0
      then bind_res (ua_dtors c a [0..<unat (ua_i a)]) (\<lambda>_. Inr (a\<lparr>ua_i := 0\<rparr>)) else Inr a)"

definition ua_renew :: "'a icd \<Rightarrow> 'a ut_array option \<Rightarrow> 'a ut_array res" where
  "ua_renew c a = (case a of Some a \<Rightarrow> ua_clear c a | None \<Rightarrow> Inr ua_init)"

text \<open>Nothing keeps \<open>utarray_pop_back\<close> from an empty array, whose \<open>i\<close> wraps.\<close>

definition ua_pop_back :: "'a icd \<Rightarrow> 'a ut_array \<Rightarrow> 'a ut_array res" where
  "ua_pop_back c a =
     (let i = ua_i a - 1 in
      if icd_dtor c \<and> \<not> unat i < length (ua_d a) then Inl Out_of_bounds else Inr (a\<lparr>ua_i := i\<rparr>))"

definition ua_extend_back :: "'a icd \<Rightarrow> 'a ut_array \<Rightarrow> 'a ut_array res option" where
  "ua_extend_back c a =
     do { a \<leftarrow> ua_reserve a 1;
          Some (bind_res (ua_copy a (unat (ua_i a)) (case icd_init c of Some v \<Rightarrow> v | None \<Rightarrow> icd_zero c))
            (\<lambda>a. Inr (a\<lparr>ua_i := ua_i a + 1\<rparr>))) }"

text \<open>\<open>init\<close> gets what \<open>utarray_eltptr\<close> gives for slots that are not yet in use.\<close>

fun ua_inits :: "'a \<Rightarrow> nat list \<Rightarrow> 'a ut_array \<Rightarrow> 'a ut_array res" where
  "ua_inits v [] a = Inr a"
| "ua_inits v (k # ks) a =
     (case ua_eltptr a k of
        None \<Rightarrow> Inl Null_deref
      | Some k \<Rightarrow> bind_res (ua_copy a k v) (ua_inits v ks))"

definition ua_zeros :: "'a \<Rightarrow> nat \<Rightarrow> nat \<Rightarrow> 'a ut_array \<Rightarrow> 'a ut_array res" where
  "ua_zeros z j n a =
     (if j + n \<le> length (ua_d a)
      then Inr (a\<lparr>ua_d := take j (ua_d a) @ replicate n (Some z) @ drop (j + n) (ua_d a)\<rparr>) else Inl Out_of_bounds)"

definition ua_resize :: "'a icd \<Rightarrow> 'a ut_array \<Rightarrow> 32 word \<Rightarrow> 'a ut_array res option" where
  "ua_resize c a num =
     (if ua_i a > num
      then Some (bind_res (ua_dtors c a [unat num..<unat (ua_i a)]) (\<lambda>_. Inr (a\<lparr>ua_i := num\<rparr>)))
      else if ua_i a < num
      then do { a \<leftarrow> ua_reserve a (num - ua_i a);
                Some (bind_res
                  (case icd_init c of
                     Some v \<Rightarrow> ua_inits v [unat (ua_i a)..<unat num] a
                   | None \<Rightarrow> ua_zeros (icd_zero c) (unat (ua_i a)) (unat (num - ua_i a)) a)
                  (\<lambda>a. Inr (a\<lparr>ua_i := num\<rparr>))) }
      else Some (Inr (a\<lparr>ua_i := num\<rparr>)))"

text \<open>What follows position \<open>j\<close> moves up by \<open>len\<close>.\<close>

definition ua_shift :: "'a ut_array \<Rightarrow> 32 word \<Rightarrow> nat \<Rightarrow> 'a ut_array res" where
  "ua_shift a j len =
     (if j < ua_i a
      then bind_res (memmove (ua_d a) (unat j + len) (unat j) (unat (ua_i a - j))) (\<lambda>d. Inr (a\<lparr>ua_d := d\<rparr>))
      else Inr a)"

definition ua_insert :: "'a icd \<Rightarrow> 'a ut_array \<Rightarrow> 'a \<Rightarrow> 32 word \<Rightarrow> 'a ut_array res option" where
  "ua_insert c a p j =
     do { r \<leftarrow> (if j > ua_i a then ua_resize c a j else Some (Inr a));
          case r of
            Inl e \<Rightarrow> Some (Inl e)
          | Inr a \<Rightarrow>
              do { a \<leftarrow> ua_reserve a 1;
                   Some (bind_res (ua_shift a j 1) (\<lambda>a.
                     bind_res (ua_copy a (unat j) p) (\<lambda>a. Inr (a\<lparr>ua_i := ua_i a + 1\<rparr>)))) } }"

fun ua_copies :: "'a ut_array \<Rightarrow> nat \<Rightarrow> nat list \<Rightarrow> 'a ut_array \<Rightarrow> 'a ut_array res" where
  "ua_copies w j [] a = Inr a"
| "ua_copies w j (k # ks) a =
     bind_res (ua_deref w k) (\<lambda>p. bind_res (ua_copy a (j + k) p) (ua_copies w j ks))"

definition ua_inserta :: "'a icd \<Rightarrow> 'a ut_array \<Rightarrow> 'a ut_array \<Rightarrow> 32 word \<Rightarrow> 'a ut_array res option" where
  "ua_inserta c a w j =
     (if ua_i w = 0 then Some (Inr a)
      else do { r \<leftarrow> (if j > ua_i a then ua_resize c a j else Some (Inr a));
                case r of
                  Inl e \<Rightarrow> Some (Inl e)
                | Inr a \<Rightarrow>
                    do { a \<leftarrow> ua_reserve a (ua_i w);
                         Some (bind_res (ua_shift a j (unat (ua_i w))) (\<lambda>a.
                           bind_res (ua_copies w (unat j) [0..<unat (ua_i w)] a) (\<lambda>a.
                             Inr (a\<lparr>ua_i := ua_i a + ua_i w\<rparr>)))) } })"

definition ua_concat :: "'a icd \<Rightarrow> 'a ut_array \<Rightarrow> 'a ut_array \<Rightarrow> 'a ut_array res option" where
  "ua_concat c dst src = ua_inserta c dst src (ua_i dst)"

definition ua_back :: "'a ut_array \<Rightarrow> nat option" where
  "ua_back a = (if ua_i a \<noteq> 0 then Some (unat (ua_i a - 1)) else None)"

definition ua_prev :: "'a ut_array \<Rightarrow> nat option \<Rightarrow> nat option" where
  "ua_prev a e = (case e of None \<Rightarrow> ua_back a | Some k \<Rightarrow> if k > 0 then Some (k - 1) else None)"

text \<open>\<open>utarray_sort\<close> gives the slots in use to \<open>qsort\<close> of the C library, an argument here.\<close>

definition ua_sort :: "('a option list \<Rightarrow> 'a option list) \<Rightarrow> 'a ut_array \<Rightarrow> 'a ut_array" where
  "ua_sort qsort a = a\<lparr>ua_d := qsort (take (unat (ua_i a)) (ua_d a)) @ drop (unat (ua_i a)) (ua_d a)\<rparr>"

text \<open>
  Arrays of strings: an element is a \<open>char *\<close>. The copy of a null pointer writes nothing to the
  slot, which keeps what it held.
\<close>

definition utarray_str_cpy :: "string option option \<Rightarrow> string option \<Rightarrow> string option option" where
  "utarray_str_cpy dst src = (case src of Some s \<Rightarrow> Some (Some s) | None \<Rightarrow> dst)"

definition utarray_str_dtor :: "string option option \<Rightarrow> unit res" where
  "utarray_str_dtor elt = (case elt of None \<Rightarrow> Inl Out_of_bounds | Some _ \<Rightarrow> Inr ())"

section \<open>What they do to the sequence\<close>

lemma ua_repD:
  assumes "ua_rep a xs"
  shows "unat (ua_i a) = length xs" and "length (ua_d a) = unat (ua_n a)" and "length xs \<le> length (ua_d a)"
    and "take (length xs) (ua_d a) = map Some xs" and "ua_i a = of_nat (length xs)"
proof -
  from assms show i: "unat (ua_i a) = length xs" and "length (ua_d a) = unat (ua_n a)"
    and "length xs \<le> length (ua_d a)" and "take (length xs) (ua_d a) = map Some xs" by (simp_all add: ua_rep_def)
  have "ua_i a = of_nat (unat (ua_i a))" by simp
  with i show "ua_i a = of_nat (length xs)" by simp
qed

lemma ua_rep_of:
  assumes "ua_i a = of_nat (length xs)" and "ua_d a = map Some xs @ ds" and "length (ua_d a) = unat (ua_n a)"
  shows "ua_rep a xs"
proof -
  have "length xs \<le> unat (ua_n a)" using assms(2,3) by simp
  moreover have "unat (ua_n a) < 2 ^ LENGTH(32)" by (rule unsigned_less)
  ultimately have "length xs < 2 ^ 32" by simp
  then have "unat (ua_i a) = length xs" using assms(1) by (simp add: unat_of_nat)
  with assms show ?thesis by (simp add: ua_rep_def)
qed

lemma ua_dtors_used:
  "ua_rep a xs \<Longrightarrow> \<forall>k \<in> set ks. k < length xs \<Longrightarrow> ua_dtors c a ks = Inr ()"
  by (auto simp: ua_dtors_def ua_eltptr_def dest: ua_repD(1))

lemma ua_rep_take:
  assumes "ua_rep a xs" and "k \<le> length xs"
  shows "ua_rep (a\<lparr>ua_i := of_nat k\<rparr>) (take k xs)"
proof -
  note d = ua_repD [OF assms(1)]
  have "ua_d a = map Some xs @ drop (length xs) (ua_d a)" using d(4) by (metis append_take_drop_id)
  then have "ua_d a = map Some (take k xs) @ map Some (drop k xs) @ drop (length xs) (ua_d a)"
    by (metis append.assoc append_take_drop_id map_append)
  then show ?thesis using d(2) assms(2) by (intro ua_rep_of) simp_all
qed

lemma ua_clear_rep:
  assumes "ua_rep a xs"
  shows "\<exists>a'. ua_clear c a = Inr a' \<and> ua_rep a' []"
proof (cases "ua_i a > 0")
  case True
  have "ua_clear c a = Inr (a\<lparr>ua_i := 0\<rparr>)"
    using True ua_dtors_used [OF assms, of "[0..<unat (ua_i a)]" c] ua_repD(1) [OF assms] by (simp add: ua_clear_def)
  with ua_rep_take [OF assms, of 0] show ?thesis by simp
next
  case False
  then have "xs = []" using ua_repD(1) [OF assms] by (simp add: word_neq_0_conv [symmetric])
  with False assms show ?thesis by (simp add: ua_clear_def)
qed

lemma ua_pop_back_rep:
  assumes "ua_rep a xs" and "xs \<noteq> []"
  shows "\<exists>a'. ua_pop_back c a = Inr a' \<and> ua_rep a' (butlast xs)"
proof -
  note d = ua_repD [OF assms(1)]
  have i: "ua_i a - 1 = of_nat (length xs - 1)" using d(5) assms(2) by (cases xs) simp_all
  have "1 \<le> ua_i a" using d(1) assms(2) by (simp add: word_le_nat_alt Suc_le_eq)
  then have "unat (ua_i a - 1) = length xs - 1" using d(1) by (simp add: unat_sub)
  then have "unat (ua_i a - 1) < length (ua_d a)" using assms(2) d(3) by (cases xs) simp_all
  then have "ua_pop_back c a = Inr (a\<lparr>ua_i := of_nat (length xs - 1)\<rparr>)" by (simp add: ua_pop_back_def i Let_def)
  with ua_rep_take [OF assms(1), of "length xs - 1"] show ?thesis by (simp add: butlast_conv_take)
qed

text \<open>From an empty array: the destructor gets a pointer out of bounds, or the array seems full.\<close>

lemma ua_pop_back_empty:
  assumes "ua_rep a []" and "ua_n a < 2 ^ 32 - 1"
  shows "ua_pop_back c a = (if icd_dtor c then Inl Out_of_bounds else Inr (a\<lparr>ua_i := 2 ^ 32 - 1\<rparr>))"
proof -
  note d = ua_repD [OF assms(1)]
  have i: "ua_i a - 1 = 2 ^ 32 - 1" using d(5) by simp
  have "length (ua_d a) \<le> unat (2 ^ 32 - 1 :: 32 word)"
    using assms(2) d(2) by (simp add: word_less_nat_alt)
  with i show ?thesis by (simp add: ua_pop_back_def Let_def)
qed

text \<open>Walking from the back.\<close>

lemma ua_prev_rep:
  assumes "ua_rep a xs"
  shows "ua_prev a None = (if xs = [] then None else Some (length xs - 1))"
    and "ua_prev a (Some k) = (if k = 0 then None else Some (k - 1))"
proof -
  note d = ua_repD [OF assms]
  show "ua_prev a None = (if xs = [] then None else Some (length xs - 1))"
  proof (cases "xs = []")
    case False
    have "1 \<le> ua_i a" using d(1) False by (simp add: word_le_nat_alt Suc_le_eq)
    then have "unat (ua_i a - 1) = length xs - 1" using d(1) by (simp add: unat_sub)
    moreover have "ua_i a \<noteq> 0" using d(1) False by auto
    ultimately show ?thesis using False by (simp add: ua_prev_def ua_back_def)
  qed (use d(5) in \<open>simp add: ua_prev_def ua_back_def\<close>)
qed (simp add: ua_prev_def)

subsection \<open>Room in the middle\<close>

lemma ua_shift_rep:
  assumes "ua_rep a xs" and "unat j \<le> length xs" and "length xs + len \<le> length (ua_d a)"
  shows "\<exists>bs. ua_shift a j len = Inr (a\<lparr>ua_d := map Some (take (unat j) xs) @ bs @ map Some (drop (unat j) xs) @
      drop (length xs + len) (ua_d a)\<rparr>) \<and> length bs = len"
proof -
  note d = ua_repD [OF assms(1)]
  let ?us = "map Some (take (unat j) xs)" and ?ms = "map Some (drop (unat j) xs)" and ?vs = "drop (length xs) (ua_d a)"
  have s: "ua_d a = ?us @ ?ms @ ?vs"
    using d(4) by (metis append.assoc append_take_drop_id map_append)
  have lv: "length ?vs \<ge> len" using assms(3) by simp
  have dr: "drop (length xs + len) (ua_d a) = drop len ?vs" by (simp add: add.commute)
  have len: "length ?us = unat j" "length ?ms = length xs - unat j" using assms(2) by simp_all
  show ?thesis
  proof (cases "j < ua_i a")
    case False
    then have "length xs = unat j" using assms(2) d(1) by (simp add: word_less_nat_alt)
    then have "?ms = []" by simp
    then have "ua_d a = ?us @ take len ?vs @ ?ms @ drop len ?vs" using s by (metis append_Nil append_take_drop_id)
    then have "?us @ take len ?vs @ ?ms @ drop (length xs + len) (ua_d a) = ua_d a" by (simp only: dr)
    then have "a\<lparr>ua_d := ?us @ take len ?vs @ ?ms @ drop (length xs + len) (ua_d a)\<rparr> = a"
      by (simp only:) simp
    with False lv show ?thesis by (intro exI [of _ "take len ?vs"]) (simp add: ua_shift_def)
  next
    case True
    then have k: "unat (ua_i a - j) = length xs - unat j" using d(1) by (simp add: unat_sub order_less_imp_le)
    let ?bs = "take len (?ms @ ?vs)"
    have "memmove (ua_d a) (unat j + len) (unat j) (length xs - unat j) =
        Inr (take (unat j + len) (ua_d a) @ ?ms @ drop (length xs + len) (ua_d a))"
    proof -
      have "take (length xs - unat j) (drop (unat j) (ua_d a)) = ?ms" using len by (subst s) simp
      with assms(2,3) show ?thesis by (simp add: memmove_def add.commute [of len])
    qed
    moreover have "take (unat j + len) (ua_d a) = ?us @ ?bs" using len by (subst s) simp
    moreover have "length ?bs = len" using lv by simp
    ultimately show ?thesis using True k by (intro exI [of _ ?bs]) (simp add: ua_shift_def)
  qed
qed

lemma ua_copies_rep:
  assumes "ua_rep w ws"
  shows "k \<le> length ws \<Longrightarrow> ua_d a = us @ ms @ vs \<Longrightarrow> length us = j + k \<Longrightarrow> length ms = length ws - k \<Longrightarrow>
    ua_copies w j [k..<length ws] a = Inr (a\<lparr>ua_d := us @ map Some (drop k ws) @ vs\<rparr>)"
proof (induction "length ws - k" arbitrary: k a us ms)
  case 0
  then show ?case by simp
next
  case (Suc n)
  then have k: "k < length ws" and n: "n = length ws - Suc k" by simp_all
  from Suc.hyps(2) Suc.prems(4) obtain m ms' where ms: "ms = m # ms'" by (cases ms) auto
  let ?a = "a\<lparr>ua_d := (us @ [Some (ws ! k)]) @ ms' @ vs\<rparr>"
  have "ua_copy a (j + k) (ws ! k) = Inr ?a"
    using Suc.prems(2,3) by (simp add: ua_copy_def ms list_update_append flip: Suc.prems(3))
  moreover have "[k..<length ws] = k # [Suc k..<length ws]" using k by (simp add: upt_rec)
  moreover have "ua_copies w j [Suc k..<length ws] ?a =
      Inr (?a\<lparr>ua_d := (us @ [Some (ws ! k)]) @ map Some (drop (Suc k) ws) @ vs\<rparr>)"
    by (rule Suc.hyps(1) [OF n]) (use k Suc.prems ms in \<open>simp_all, linarith?\<close>)
  ultimately show ?case using ua_deref_rep [OF assms k] k by (simp add: Cons_nth_drop_Suc [OF k, symmetric])
qed

lemma ua_filled_rep:
  assumes "ua_rep a xs" and "k \<le> length xs" and "length xs + length ws \<le> length (ua_d a)"
  shows "ua_rep (a\<lparr>ua_d := map Some (take k xs) @ map Some ws @ map Some (drop k xs) @ drop (length xs + length ws) (ua_d a),
      ua_i := ua_i a + of_nat (length ws)\<rparr>) (take k xs @ ws @ drop k xs)"
  using ua_repD [OF assms(1)] assms(2,3) by (intro ua_rep_of [where ds = "drop (length xs + length ws) (ua_d a)"]) simp_all

lemma ua_extend_back_rep:
  assumes "ua_rep a xs" and "length xs < 2 ^ 31"
  shows "\<exists>a'. ua_extend_back c a = Some (Inr a') \<and>
    ua_rep a' (xs @ [case icd_init c of Some v \<Rightarrow> v | None \<Rightarrow> icd_zero c])"
proof -
  let ?v = "case icd_init c of Some v \<Rightarrow> v | None \<Rightarrow> icd_zero c"
  have "ua_extend_back c a = ua_push_back a ?v" by (simp add: ua_extend_back_def ua_push_back_def)
  with ua_push_back_rep [OF assms, of ?v] show ?thesis by (simp add: utarray_push_back_def)
qed

lemma ua_insert_rep:
  assumes "ua_rep a xs" and "unat j \<le> length xs" and "length xs < 2 ^ 31"
  shows "\<exists>a'. ua_insert c a p j = Some (Inr a') \<and> ua_rep a' (take (unat j) xs @ p # drop (unat j) xs)"
proof -
  from ua_reserve_rep [OF assms(1), of 1] assms(3) obtain b where
    b: "ua_reserve a 1 = Some b" "ua_rep b xs" "length xs + 1 \<le> length (ua_d b)" by auto
  have j: "\<not> j > ua_i a" using assms(2) ua_repD(1) [OF assms(1)] by (simp add: word_less_nat_alt)
  obtain x where x: "ua_shift b j 1 = Inr (b\<lparr>ua_d := map Some (take (unat j) xs) @ [x] @ map Some (drop (unat j) xs) @
      drop (length xs + 1) (ua_d b)\<rparr>)"
    using ua_shift_rep [OF b(2) assms(2) b(3)] by (auto simp: length_Suc_conv)
  let ?b = "b\<lparr>ua_d := map Some (take (unat j) xs) @ map Some [p] @ map Some (drop (unat j) xs) @
      drop (length xs + length [p]) (ua_d b), ua_i := ua_i b + of_nat (length [p])\<rparr>"
  have "(map Some (take (unat j) xs) @ [x] @ zs)[unat j := Some p] = map Some (take (unat j) xs) @ [Some p] @ zs" for zs
    using assms(2) by (simp add: list_update_append)
  then have "ua_insert c a p j = Some (Inr ?b)"
    using j b(1) x assms(2) by (simp add: ua_insert_def ua_copy_def)
  moreover have "ua_rep ?b (take (unat j) xs @ [p] @ drop (unat j) xs)"
    by (rule ua_filled_rep [OF b(2) assms(2)]) (use b(3) in simp)
  ultimately show ?thesis by simp
qed

lemma ua_inserta_rep:
  assumes "ua_rep a xs" and "ua_rep w ws" and "unat j \<le> length xs" and "length xs + length ws \<le> 2 ^ 31"
  shows "\<exists>a'. ua_inserta c a w j = Some (Inr a') \<and> ua_rep a' (take (unat j) xs @ ws @ drop (unat j) xs)"
proof (cases "ua_i w = 0")
  case True
  then have "ws = []" using ua_repD(1) [OF assms(2)] by simp
  with True assms(1) show ?thesis by (simp add: ua_inserta_def)
next
  case False
  note w = ua_repD [OF assms(2)]
  from ua_reserve_rep [OF assms(1), of "ua_i w"] assms(4) w(1) obtain b where
    b: "ua_reserve a (ua_i w) = Some b" "ua_rep b xs" "length xs + length ws \<le> length (ua_d b)" by auto
  have j: "\<not> j > ua_i a" using assms(3) ua_repD(1) [OF assms(1)] by (simp add: word_less_nat_alt)
  let ?u = "map Some (take (unat j) xs)" and ?v = "map Some (drop (unat j) xs) @ drop (length xs + length ws) (ua_d b)"
  obtain bs where bs: "ua_shift b j (length ws) = Inr (b\<lparr>ua_d := ?u @ bs @ ?v\<rparr>)" "length bs = length ws"
    using ua_shift_rep [OF b(2) assms(3) b(3)] by auto
  have "ua_copies w (unat j) [0..<length ws] (b\<lparr>ua_d := ?u @ bs @ ?v\<rparr>) =
      Inr ((b\<lparr>ua_d := ?u @ bs @ ?v\<rparr>)\<lparr>ua_d := ?u @ map Some (drop 0 ws) @ ?v\<rparr>)"
    by (rule ua_copies_rep [OF assms(2)]) (use assms(3) bs(2) in simp_all)
  then have "ua_inserta c a w j = Some (Inr (b\<lparr>ua_d := ?u @ map Some ws @ ?v, ua_i := ua_i b + of_nat (length ws)\<rparr>))"
    using False j b(1) bs(1) w(1,5) by (simp add: ua_inserta_def)
  with ua_filled_rep [OF b(2) assms(3) b(3)] show ?thesis by simp
qed

text \<open>An array appended to another; it may be the same one, which is read before it is changed.\<close>

lemma ua_concat_rep:
  assumes "ua_rep a xs" and "ua_rep w ws" and "length xs + length ws \<le> 2 ^ 31"
  shows "\<exists>a'. ua_concat c a w = Some (Inr a') \<and> ua_rep a' (xs @ ws)"
  using ua_inserta_rep [OF assms(1,2) _ assms(3), of "ua_i a" c] ua_repD(1) [OF assms(1)]
  by (simp add: ua_concat_def)

subsection \<open>Resizing\<close>

lemma ua_resize_shrinks:
  assumes "ua_rep a xs" and "unat num \<le> length xs"
  shows "\<exists>a'. ua_resize c a num = Some (Inr a') \<and> ua_rep a' (take (unat num) xs)"
proof -
  note d = ua_repD [OF assms(1)]
  have "ua_dtors c a [unat num..<unat (ua_i a)] = Inr ()"
    by (rule ua_dtors_used [OF assms(1)]) (simp add: d(1))
  moreover have "\<not> ua_i a < num" using assms(2) d(1) by (simp add: word_less_nat_alt)
  ultimately have "ua_resize c a num = Some (Inr (a\<lparr>ua_i := num\<rparr>))" by (simp add: ua_resize_def)
  moreover have "of_nat (unat num) = num" by simp
  ultimately show ?thesis using ua_rep_take [OF assms] by simp
qed

lemma ua_resize_grows:
  assumes "ua_rep a xs" and "length xs < unat num" and "unat num \<le> 2 ^ 31"
  shows "case icd_init c of
      Some v \<Rightarrow> ua_resize c a num = Some (Inl Null_deref)
    | None \<Rightarrow> (\<exists>a'. ua_resize c a num = Some (Inr a') \<and> ua_rep a' (xs @ replicate (unat num - length xs) (icd_zero c)))"
proof -
  note d = ua_repD [OF assms(1)]
  have lt: "ua_i a < num" "\<not> ua_i a > num" using assms(2) d(1) by (simp_all add: word_less_nat_alt)
  then have k: "unat (num - ua_i a) = unat num - length xs" using d(1) by (simp add: unat_sub order_less_imp_le)
  from ua_reserve_rep [OF assms(1), of "num - ua_i a"] k assms(2,3) obtain b where
    b: "ua_reserve a (num - ua_i a) = Some b" "ua_rep b xs" "unat num \<le> length (ua_d b)" by auto
  note e = ua_repD [OF b(2)]
  show ?thesis
  proof (cases "icd_init c")
    case (Some v)
    have "[unat (ua_i b)..<unat num] = length xs # [Suc (length xs)..<unat num]"
      using e(1) assms(2) by (simp add: upt_rec)
    moreover have "ua_eltptr b (length xs) = None" by (simp add: ua_eltptr_def e(1))
    ultimately have "ua_inits v [unat (ua_i b)..<unat num] b = Inl Null_deref" by simp
    with Some lt b(1) show ?thesis by (simp add: ua_resize_def)
  next
    case None
    let ?zs = "replicate (unat num - length xs) (icd_zero c)"
    let ?b = "b\<lparr>ua_d := map Some xs @ map Some ?zs @ drop (unat num) (ua_d b), ua_i := num\<rparr>"
    have i: "ua_i b = ua_i a" using d(5) e(5) by simp
    have "ua_resize c a num = Some (Inr ?b)"
      using None lt b(1,3) assms(2) k e(1,4) i by (simp add: ua_resize_def ua_zeros_def)
    moreover have "ua_rep ?b (xs @ ?zs)"
      using assms(2) b(3) e(2) by (intro ua_rep_of [where ds = "drop (unat num) (ua_d b)"]) simp_all
    ultimately show ?thesis using None by simp
  qed
qed

text \<open>
  Inserting behind the end first fills the gap. With an \<open>init\<close> that fails, since it is given
  the null pointer.
\<close>

lemma ua_insert_behind:
  assumes "ua_rep a xs" and "length xs < unat j" and "unat j < 2 ^ 31"
  shows "case icd_init c of
      Some v \<Rightarrow> ua_insert c a p j = Some (Inl Null_deref)
    | None \<Rightarrow> (\<exists>a'. ua_insert c a p j = Some (Inr a') \<and>
        ua_rep a' (xs @ replicate (unat j - length xs) (icd_zero c) @ [p]))"
proof -
  have j: "j > ua_i a" using assms(2) ua_repD(1) [OF assms(1)] by (simp add: word_less_nat_alt)
  show ?thesis
  proof (cases "icd_init c")
    case (Some v)
    with ua_resize_grows [OF assms(1,2), of c] assms(3) j show ?thesis by (simp add: ua_insert_def)
  next
    case None
    let ?ys = "xs @ replicate (unat j - length xs) (icd_zero c)"
    from ua_resize_grows [OF assms(1,2), of c] assms(3) None obtain b where
      b: "ua_resize c a j = Some (Inr b)" "ua_rep b ?ys" by auto
    have l: "length ?ys = unat j" using assms(2) by simp
    have "\<not> j > ua_i b" using ua_repD(1) [OF b(2)] l by (simp add: word_less_nat_alt)
    then have "ua_insert c a p j = ua_insert c b p j" using b(1) j by (simp add: ua_insert_def)
    with ua_insert_rep [OF b(2), of j c p] l assms(3) None show ?thesis by simp
  qed
qed

subsection \<open>Sorting\<close>

lemma ua_sort_rep:
  assumes "ua_rep a xs" and "qsort (map Some xs) = map Some ys" and "mset ys = mset xs"
  shows "ua_rep (ua_sort qsort a) ys"
proof -
  note d = ua_repD [OF assms(1)]
  have "length ys = length xs" using assms(3) by (metis size_mset)
  with d assms(2) show ?thesis
    by (intro ua_rep_of [where ds = "drop (length xs) (ua_d a)"]) (simp_all add: ua_sort_def)
qed

subsection \<open>Strings\<close>

text \<open>A null pointer that is added leaves a slot nobody wrote to, which the destructor reads.\<close>

lemma str_null_uninitialised:
  "utarray_str_dtor (utarray_str_cpy None None) = Inl Out_of_bounds"
  "utarray_str_dtor (utarray_str_cpy dst (Some s)) = Inr ()"
  by (simp_all add: utarray_str_dtor_def utarray_str_cpy_def)

end
