(* ===== verification/Uthash_Functions.thy ===== *)
theory Uthash_Functions
  imports Prelude "HOL-Library.Word" "HOL-Library.Multiset"
begin

text \<open>
  The hash functions of \<open>lib/ut/uthash.h\<close>. A key is the list of its bytes; a hash value an
  \<open>unsigned\<close> of 32 bits. Functions that read the key through \<open>char\<close> extend the sign of a
  byte. \<open>HASH_FCN\<close> is \<open>HASH_JEN\<close>, and \<open>HASH_TO_BKT\<close> takes the low bits of the value.
\<close>

unbundle bit_operations_syntax

type_synonym bytes = "8 word list"
type_synonym hashv = "32 word"

definition schar :: "8 word \<Rightarrow> hashv" where
  "schar b = word_of_int (sint b)"

definition uchar :: "8 word \<Rightarrow> hashv" where
  "uchar b = word_of_nat (unat b)"

definition klen :: "bytes \<Rightarrow> hashv" where
  "klen key = word_of_nat (length key)"

definition HASH_TO_BKT :: "hashv \<Rightarrow> 32 word \<Rightarrow> nat" where
  "HASH_TO_BKT hashv num_bkts = unat (hashv AND (num_bkts - 1))"

section \<open>Bernstein, shift-add-xor, FNV, one at a time\<close>

definition HASH_BER :: "bytes \<Rightarrow> hashv" where
  "HASH_BER key = foldl (\<lambda>h b. (push_bit 5 h + h) + schar b) 0 key"

definition HASH_SAX :: "bytes \<Rightarrow> hashv" where
  "HASH_SAX key = foldl (\<lambda>h b. h XOR (push_bit 5 h + drop_bit 2 h + schar b)) 0 key"

text \<open>The body of the loop is its first statement alone: the product is taken once, after it.\<close>

definition HASH_FNV :: "bytes \<Rightarrow> hashv" where
  "HASH_FNV key = foldl (\<lambda>h b. h XOR schar b) 2166136261 key * 16777619"

definition oat_step :: "hashv \<Rightarrow> 8 word \<Rightarrow> hashv" where
  "oat_step h b =
     (let h = h + schar b; h = h + push_bit 10 h in h XOR drop_bit 6 h)"

definition HASH_OAT :: "bytes \<Rightarrow> hashv" where
  "HASH_OAT key =
     (let h = foldl oat_step 0 key;
          h = h + push_bit 3 h;
          h = h XOR drop_bit 11 h
      in h + push_bit 15 h)"

section \<open>Jenkins\<close>

text \<open>Three lines of the mix; the second shift is to the left.\<close>

definition jen_row :: "nat \<Rightarrow> nat \<Rightarrow> nat \<Rightarrow> hashv \<times> hashv \<times> hashv \<Rightarrow> hashv \<times> hashv \<times> hashv" where
  "jen_row k l m = (\<lambda>(a, b, c).
     let a = (a - b - c) XOR drop_bit k c;
         b = (b - c - a) XOR push_bit l a;
         c = (c - a - b) XOR drop_bit m b
     in (a, b, c))"

definition HASH_JEN_MIX :: "hashv \<times> hashv \<times> hashv \<Rightarrow> hashv \<times> hashv \<times> hashv" where
  "HASH_JEN_MIX x = jen_row 3 10 15 (jen_row 12 16 5 (jen_row 13 8 13 x))"

definition le32 :: "bytes \<Rightarrow> nat \<Rightarrow> hashv" where
  "le32 key k = uchar (key ! k) + push_bit 8 (uchar (key ! (k + 1))) + push_bit 16 (uchar (key ! (k + 2))) +
     push_bit 24 (uchar (key ! (k + 3)))"

function jen_loop :: "bytes \<Rightarrow> hashv \<times> hashv \<times> hashv \<Rightarrow> bytes \<times> hashv \<times> hashv \<times> hashv" where
  "jen_loop key (i, j, h) =
     (if length key \<ge> 12
      then jen_loop (drop 12 key) (HASH_JEN_MIX (i + le32 key 0, j + le32 key 4, h + le32 key 8))
      else (key, i, j, h))"
  by pat_completeness auto

termination
  by (relation "measure (\<lambda>(key, x). length key)") auto

declare jen_loop.simps [simp del]

text \<open>The cases of the switch fall through: all bytes that are left are added.\<close>

definition jen_tail :: "bytes \<Rightarrow> hashv \<times> hashv \<times> hashv \<Rightarrow> hashv \<times> hashv \<times> hashv" where
  "jen_tail key = (\<lambda>(i, j, h).
     let n = length key;
         h = (if n \<ge> 11 then h + push_bit 24 (uchar (key ! 10)) else h);
         h = (if n \<ge> 10 then h + push_bit 16 (uchar (key ! 9)) else h);
         h = (if n \<ge> 9 then h + push_bit 8 (uchar (key ! 8)) else h);
         j = (if n \<ge> 8 then j + push_bit 24 (uchar (key ! 7)) else j);
         j = (if n \<ge> 7 then j + push_bit 16 (uchar (key ! 6)) else j);
         j = (if n \<ge> 6 then j + push_bit 8 (uchar (key ! 5)) else j);
         j = (if n \<ge> 5 then j + uchar (key ! 4) else j);
         i = (if n \<ge> 4 then i + push_bit 24 (uchar (key ! 3)) else i);
         i = (if n \<ge> 3 then i + push_bit 16 (uchar (key ! 2)) else i);
         i = (if n \<ge> 2 then i + push_bit 8 (uchar (key ! 1)) else i);
         i = (if n \<ge> 1 then i + uchar (key ! 0) else i)
     in (i, j, h))"

definition HASH_JEN :: "bytes \<Rightarrow> hashv" where
  "HASH_JEN key =
     (case jen_loop key (0x9e3779b9, 0x9e3779b9, 0xfeedbeef) of (rest, i, j, h) \<Rightarrow>
        snd (snd (HASH_JEN_MIX (jen_tail rest (i, j, h + klen key)))))"

section \<open>Hsieh\<close>

definition get16bits :: "bytes \<Rightarrow> nat \<Rightarrow> hashv" where
  "get16bits d k = push_bit 8 (uchar (d ! (k + 1))) + uchar (d ! k)"

definition sfh_step :: "bytes \<Rightarrow> hashv \<Rightarrow> hashv" where
  "sfh_step key h =
     (let h = h + get16bits key 0;
          tmp = push_bit 11 (get16bits key 2) XOR h;
          h = push_bit 16 h XOR tmp
      in h + drop_bit 11 h)"

fun sfh_loop :: "nat \<Rightarrow> bytes \<Rightarrow> hashv \<Rightarrow> bytes \<times> hashv" where
  "sfh_loop 0 key h = (key, h)"
| "sfh_loop (Suc n) key h = sfh_loop n (drop 4 key) (sfh_step key h)"

definition sfh_tail :: "nat \<Rightarrow> bytes \<Rightarrow> hashv \<Rightarrow> hashv" where
  "sfh_tail rem key h =
     (if rem = 3 then
        let h = h + get16bits key 0; h = h XOR push_bit 16 h; h = h XOR push_bit 18 (uchar (key ! 2))
        in h + drop_bit 11 h
      else if rem = 2 then
        let h = h + get16bits key 0; h = h XOR push_bit 11 h in h + drop_bit 17 h
      else if rem = 1 then
        let h = h + uchar (key ! 0); h = h XOR push_bit 10 h in h + drop_bit 1 h
      else h)"

definition HASH_SFH :: "bytes \<Rightarrow> hashv" where
  "HASH_SFH key =
     (case sfh_loop (length key div 4) key 0xcafebabe of (rest, h) \<Rightarrow>
        let h = sfh_tail (length key mod 4) rest h;
            h = h XOR push_bit 3 h;
            h = h + drop_bit 5 h;
            h = h XOR push_bit 4 h;
            h = h + drop_bit 17 h;
            h = h XOR push_bit 25 h
        in h + drop_bit 6 h)"

section \<open>Murmur\<close>

text \<open>As it is on a machine that reads words at any address, the low byte first.\<close>

definition MUR_ROTL32 :: "hashv \<Rightarrow> nat \<Rightarrow> hashv" where
  "MUR_ROTL32 x r = push_bit r x OR drop_bit (32 - r) x"

definition MUR_FMIX :: "hashv \<Rightarrow> hashv" where
  "MUR_FMIX h =
     (let h = h XOR drop_bit 16 h;
          h = h * 0x85ebca6b;
          h = h XOR drop_bit 13 h;
          h = h * 0xc2b2ae35
      in h XOR drop_bit 16 h)"

definition mur_scramble :: "hashv \<Rightarrow> hashv" where
  "mur_scramble k = MUR_ROTL32 (k * 0xcc9e2d51) 15 * 0x1b873593"

fun mur_loop :: "nat \<Rightarrow> bytes \<Rightarrow> hashv \<Rightarrow> bytes \<times> hashv" where
  "mur_loop 0 key h = (key, h)"
| "mur_loop (Suc n) key h =
     mur_loop n (drop 4 key) (MUR_ROTL32 (h XOR mur_scramble (le32 key 0)) 13 * 5 + 0xe6546b64)"

definition mur_tail :: "bytes \<Rightarrow> hashv \<Rightarrow> hashv" where
  "mur_tail key h =
     (let n = length key; k = 0;
          k = (if n \<ge> 3 then k XOR push_bit 16 (uchar (key ! 2)) else k);
          k = (if n \<ge> 2 then k XOR push_bit 8 (uchar (key ! 1)) else k)
      in if n \<ge> 1 then h XOR mur_scramble (k XOR uchar (key ! 0)) else h)"

definition HASH_MUR :: "bytes \<Rightarrow> hashv" where
  "HASH_MUR key =
     (case mur_loop (length key div 4) key 0xf88D5353 of (rest, h) \<Rightarrow>
        MUR_FMIX (mur_tail rest h XOR klen key))"

section \<open>What holds of them\<close>

text \<open>The bucket is the value modulo the number of buckets, which is a power of two.\<close>

lemma unat_low_bits: "unat (h AND (2 ^ k - 1) :: 'a :: len word) = unat h mod 2 ^ k"
proof -
  have "h AND (2 ^ k - 1) = take_bit k h" by (simp add: take_bit_eq_mask mask_eq_exp_minus_1)
  then show ?thesis by (simp add: unsigned_take_bit_eq flip: take_bit_eq_mod)
qed

lemma to_bkt_mod: "HASH_TO_BKT h (2 ^ k) = unat h mod 2 ^ k"
  by (simp add: HASH_TO_BKT_def unat_low_bits)

text \<open>The mixing of three words loses nothing.\<close>

definition jen_unrow :: "nat \<Rightarrow> nat \<Rightarrow> nat \<Rightarrow> hashv \<times> hashv \<times> hashv \<Rightarrow> hashv \<times> hashv \<times> hashv" where
  "jen_unrow k l m = (\<lambda>(a, b, c).
     let c = (c XOR drop_bit m b) + b + a;
         b = (b XOR push_bit l a) + a + c;
         a = (a XOR drop_bit k c) + c + b
     in (a, b, c))"

lemma mix_line_undone: "(((x - y - z) XOR w) XOR w) + z + y = (x :: hashv)"
  by (simp add: xor.assoc)

lemma jen_unrow_undoes: "jen_unrow k l m (jen_row k l m x) = x"
  by (cases x) (simp only: jen_unrow_def jen_row_def Let_def prod.case mix_line_undone)

lemma jen_mix_inj: "inj HASH_JEN_MIX"
  by (rule inj_on_inverseI [of _ "\<lambda>x. jen_unrow 13 8 13 (jen_unrow 12 16 5 (jen_unrow 3 10 15 x))"])
    (simp add: HASH_JEN_MIX_def jen_unrow_undoes)

text \<open>Keys that are made of the same bytes have the same value under \<open>HASH_FNV\<close>, in whatever order.\<close>

lemma fnv_fold: "mset key = mset key' \<Longrightarrow> HASH_FNV key = HASH_FNV key'"
proof -
  assume "mset key = mset key'"
  then have "fold (\<lambda>b h. h XOR schar b) key h = fold (\<lambda>b h. h XOR schar b) key' h" for h :: hashv
    by (intro fold_permuted_eq [where P = "\<lambda>_. True"]) (simp_all add: xor.assoc xor.commute xor.left_commute)
  then show ?thesis by (simp add: HASH_FNV_def foldl_conv_fold)
qed

end
