(* ===== verification/Uthash.thy ===== *)
theory Uthash
  imports Uthash_Functions Utlist_Sort
begin

text \<open>
  The hash table of \<open>lib/ut/uthash.h\<close>. An element and the handle in it are one address. The
  handles are two pairs of links, the order of insertion (\<open>next\<close>, \<open>prev\<close>) and the chain of a
  bucket (\<open>hh_next\<close>, \<open>hh_prev\<close>), the key, its length and its hash value. The key is the bytes
  it consists of, which do not change while the element is in the table. There is one
  structure for all elements of a table, \<open>None\<close> when it is freed. \<open>fcn\<close> is \<open>HASH_FCN\<close>.
  Memory does not run out; a division by zero is the end of the program. \<open>HASH_BLOOM\<close>,
  \<open>HASH_DEBUG\<close> and \<open>HASH_EMIT_KEYS\<close> are off, so that what they add to the operations is empty;
  \<open>Uthash_Check\<close> has the filter and the check by themselves.
\<close>

section \<open>The table\<close>

record ut_bucket =
  bk_head :: "ptr option"
  bk_count :: "32 word"
  bk_mult :: "32 word"

record ut_table =
  tb_buckets :: "ut_bucket list"
  tb_num :: "32 word"
  tb_log2 :: "32 word"
  tb_items :: "32 word"
  tb_tail :: "ptr option"
  tb_ideal :: "32 word"
  tb_nonideal :: "32 word"
  tb_ineff :: "32 word"
  tb_noexpand :: "32 word"

record ut_hash =
  uh_head :: "ptr option"
  uh_app :: dlinks
  uh_hh :: dlinks
  uh_key :: "ptr \<Rightarrow> bytes"
  uh_keylen :: "ptr \<Rightarrow> 32 word"
  uh_hashv :: "ptr \<Rightarrow> hashv"
  uh_tbl :: "ut_table option"

abbreviation empty_bucket :: ut_bucket where
  "empty_bucket \<equiv> \<lparr>bk_head = None, bk_count = 0, bk_mult = 0\<rparr>"

definition HASH_MAKE_TABLE :: "ptr \<Rightarrow> ut_table" where
  "HASH_MAKE_TABLE head =
     \<lparr>tb_buckets = replicate 32 empty_bucket, tb_num = 32, tb_log2 = 5, tb_items = 0, tb_tail = Some head,
      tb_ideal = 0, tb_nonideal = 0, tb_ineff = 0, tb_noexpand = 0\<rparr>"

text \<open>The structure behind \<open>head->hh.tbl\<close>.\<close>

definition table_of :: "ut_hash \<Rightarrow> ut_table res" where
  "table_of s =
     (case uh_head s of
        None \<Rightarrow> Inl Null_deref
      | Some h \<Rightarrow> (case uh_tbl s of None \<Rightarrow> Inl Use_after_free | Some t \<Rightarrow> Inr t))"

definition bucket_at :: "ut_table \<Rightarrow> nat \<Rightarrow> ut_bucket res" where
  "bucket_at t b = (if b < length (tb_buckets t) then Inr (tb_buckets t ! b) else Inl Out_of_bounds)"

section \<open>Finding\<close>

definition HASH_KEYCMP :: "bytes \<Rightarrow> bytes \<Rightarrow> bool" where
  "HASH_KEYCMP a b \<longleftrightarrow> take (length b) a = b"

partial_function (option) find_chain :: "ut_hash \<Rightarrow> bytes \<Rightarrow> ptr option \<Rightarrow> ptr option option" where
  "find_chain s ky out =
     (case out of
        None \<Rightarrow> Some None
      | Some e \<Rightarrow>
          if uh_keylen s e = klen ky \<and> HASH_KEYCMP (uh_key s e) ky then Some (Some e)
          else find_chain s ky (d_next (uh_hh s) e))"

definition HASH_FIND :: "(bytes \<Rightarrow> hashv) \<Rightarrow> ut_hash \<Rightarrow> bytes \<Rightarrow> ptr option res option" where
  "HASH_FIND fcn s ky =
     (if uh_head s = None then Some (Inr None)
      else case bind_res (table_of s) (\<lambda>t. bucket_at t (HASH_TO_BKT (fcn ky) (tb_num t))) of
          Inl f \<Rightarrow> Some (Inl f)
        | Inr bk \<Rightarrow> map_option Inr (find_chain s ky (bk_head bk)))"

section \<open>Adding\<close>

text \<open>The handle becomes the first of a chain.\<close>

definition chain_push :: "ptr \<Rightarrow> ptr option \<Rightarrow> dlinks \<Rightarrow> dlinks" where
  "chain_push e h hh =
     (let hh = set_prev e None (set_next e h hh)
      in case h of Some p \<Rightarrow> set_prev p (Some e) hh | None \<Rightarrow> hh)"

text \<open>
  Expansion: every handle goes to the bucket of its value among twice as many. The state of
  the loops is the links, the new buckets and \<open>nonideal_items\<close>.
\<close>

type_synonym moving = "dlinks \<times> ut_bucket list \<times> 32 word"

definition move_item :: "(ptr \<Rightarrow> hashv) \<Rightarrow> 32 word \<Rightarrow> 32 word \<Rightarrow> ptr \<Rightarrow> moving \<Rightarrow> moving res" where
  "move_item hv num2 ideal e = (\<lambda>(hh, new, nonideal).
     let b = HASH_TO_BKT (hv e) num2 in
     if b < length new
     then
       let bk = new ! b; count = bk_count bk + 1 in
       if count > ideal \<and> ideal = 0 then Inl Fatal
       else
         let nonideal = (if count > ideal then nonideal + 1 else nonideal);
             mult = (if count > ideal then count div ideal else bk_mult bk)
         in Inr (chain_push e (bk_head bk) hh,
                 new[b := \<lparr>bk_head = Some e, bk_count = count, bk_mult = mult\<rparr>], nonideal)
     else Inl Out_of_bounds)"

partial_function (option) move_chain ::
  "(ptr \<Rightarrow> hashv) \<Rightarrow> 32 word \<Rightarrow> 32 word \<Rightarrow> ptr option \<Rightarrow> moving \<Rightarrow> moving res option" where
  "move_chain hv num2 ideal thh st =
     (case thh of
        None \<Rightarrow> Some (Inr st)
      | Some e \<Rightarrow>
          (case move_item hv num2 ideal e st of
             Inl f \<Rightarrow> Some (Inl f)
           | Inr st' \<Rightarrow> move_chain hv num2 ideal (d_next (fst st) e) st'))"

fun move_buckets ::
  "(ptr \<Rightarrow> hashv) \<Rightarrow> 32 word \<Rightarrow> 32 word \<Rightarrow> ut_table \<Rightarrow> nat list \<Rightarrow> moving \<Rightarrow> moving res option" where
  "move_buckets hv num2 ideal t [] st = Some (Inr st)"
| "move_buckets hv num2 ideal t (i # is) st =
     (case bucket_at t i of
        Inl f \<Rightarrow> Some (Inl f)
      | Inr bk \<Rightarrow>
          do { r \<leftarrow> move_chain hv num2 ideal (bk_head bk) st;
               case r of Inl f \<Rightarrow> Some (Inl f) | Inr st \<Rightarrow> move_buckets hv num2 ideal t is st })"

definition ideal_chain :: "ut_table \<Rightarrow> 32 word" where
  "ideal_chain t =
     drop_bit (unat (tb_log2 t + 1)) (tb_items t) + (if tb_items t AND (tb_num t * 2 - 1) \<noteq> 0 then 1 else 0)"

definition HASH_EXPAND_BUCKETS ::
  "(ptr \<Rightarrow> hashv) \<Rightarrow> ut_table \<Rightarrow> dlinks \<Rightarrow> (ut_table \<times> dlinks) res option" where
  "HASH_EXPAND_BUCKETS hv t hh =
     do { r \<leftarrow> move_buckets hv (tb_num t * 2) (ideal_chain t) t [0..<unat (tb_num t)]
            (hh, replicate (unat (2 * tb_num t)) empty_bucket, 0);
          Some (bind_res r (\<lambda>(hh, new, nonideal).
            let ineff = (if nonideal > drop_bit 1 (tb_items t) then tb_ineff t + 1 else 0) in
            Inr (t\<lparr>tb_buckets := new, tb_num := tb_num t * 2, tb_log2 := tb_log2 t + 1,
                   tb_ideal := ideal_chain t, tb_nonideal := nonideal, tb_ineff := ineff,
                   tb_noexpand := (if ineff > 1 then 1 else tb_noexpand t)\<rparr>, hh))) }"

definition HASH_ADD_TO_BKT ::
  "(ptr \<Rightarrow> hashv) \<Rightarrow> ut_table \<Rightarrow> dlinks \<Rightarrow> nat \<Rightarrow> ptr \<Rightarrow> (ut_table \<times> dlinks) res option" where
  "HASH_ADD_TO_BKT hv t hh b addhh =
     (case bucket_at t b of
        Inl f \<Rightarrow> Some (Inl f)
      | Inr bk \<Rightarrow>
          let count = bk_count bk + 1;
              hh = chain_push addhh (bk_head bk) hh;
              t = t\<lparr>tb_buckets := (tb_buckets t)[b := bk\<lparr>bk_head := Some addhh, bk_count := count\<rparr>]\<rparr>
          in if count \<ge> (bk_mult bk + 1) * 10 \<and> tb_noexpand t \<noteq> 1
             then HASH_EXPAND_BUCKETS hv t hh
             else Some (Inr (t, hh)))"

text \<open>The first element makes the table, another one is linked behind the tail.\<close>

definition add_last :: "ut_hash \<Rightarrow> ptr \<Rightarrow> (ut_hash \<times> ut_table) res" where
  "add_last s add =
     (case uh_head s of
        None \<Rightarrow> Inr (s\<lparr>uh_head := Some add, uh_app := set_prev add None (uh_app s)\<rparr>, HASH_MAKE_TABLE add)
      | Some h \<Rightarrow>
          bind_res (table_of s) (\<lambda>t.
            case tb_tail t of
              None \<Rightarrow> Inl Null_deref
            | Some l \<Rightarrow>
                Inr (s\<lparr>uh_app := set_prev add (Some l) (set_next l (Some add) (uh_app s))\<rparr>,
                     t\<lparr>tb_tail := Some add\<rparr>)))"

definition HASH_ADD_KEYPTR :: "(bytes \<Rightarrow> hashv) \<Rightarrow> ut_hash \<Rightarrow> bytes \<Rightarrow> ptr \<Rightarrow> ut_hash res option" where
  "HASH_ADD_KEYPTR fcn s ky add =
     (let s = s\<lparr>uh_app := set_next add None (uh_app s), uh_key := (uh_key s)(add := ky),
                uh_keylen := (uh_keylen s)(add := klen ky)\<rparr>
      in case add_last s add of
           Inl f \<Rightarrow> Some (Inl f)
         | Inr (s, t) \<Rightarrow>
             let t = t\<lparr>tb_items := tb_items t + 1\<rparr>;
                 s = s\<lparr>uh_hashv := (uh_hashv s)(add := fcn ky)\<rparr>
             in do { r \<leftarrow> HASH_ADD_TO_BKT (uh_hashv s) t (uh_hh s) (HASH_TO_BKT (fcn ky) (tb_num t)) add;
                     Some (bind_res r (\<lambda>(t, hh). Inr (s\<lparr>uh_tbl := Some t, uh_hh := hh\<rparr>))) })"

section \<open>Deleting\<close>

text \<open>The neighbours of a node are linked to each other.\<close>

definition chain_unlink :: "ptr \<Rightarrow> dlinks \<Rightarrow> dlinks" where
  "chain_unlink x hh =
     (let hh = (case d_prev hh x of Some p \<Rightarrow> set_next p (d_next hh x) hh | None \<Rightarrow> hh)
      in case d_next hh x of Some n \<Rightarrow> set_prev n (d_prev hh x) hh | None \<Rightarrow> hh)"

definition HASH_DEL_IN_BKT :: "ut_table \<Rightarrow> dlinks \<Rightarrow> nat \<Rightarrow> ptr \<Rightarrow> (ut_table \<times> dlinks) res" where
  "HASH_DEL_IN_BKT t hh b del =
     bind_res (bucket_at t b) (\<lambda>bk.
       let bk = bk\<lparr>bk_count := bk_count bk - 1\<rparr>;
           bk = (if bk_head bk = Some del then bk\<lparr>bk_head := d_next hh del\<rparr> else bk)
       in Inr (t\<lparr>tb_buckets := (tb_buckets t)[b := bk]\<rparr>, chain_unlink del hh))"

text \<open>The only element of the table is the one without neighbours.\<close>

definition HASH_DELETE :: "ut_hash \<Rightarrow> ptr \<Rightarrow> ut_hash res" where
  "HASH_DELETE s del =
     bind_res (table_of s) (\<lambda>t.
       if d_prev (uh_app s) del = None \<and> d_next (uh_app s) del = None
       then Inr (s\<lparr>uh_head := None, uh_tbl := None\<rparr>)
       else
         let t = (if tb_tail t = Some del then t\<lparr>tb_tail := d_prev (uh_app s) del\<rparr> else t);
             s = s\<lparr>uh_head := (if d_prev (uh_app s) del = None then d_next (uh_app s) del else uh_head s),
                   uh_app := chain_unlink del (uh_app s)\<rparr>
         in bind_res (HASH_DEL_IN_BKT t (uh_hh s) (HASH_TO_BKT (uh_hashv s del) (tb_num t)) del) (\<lambda>(t, hh).
              Inr (s\<lparr>uh_hh := hh, uh_tbl := Some (t\<lparr>tb_items := tb_items t - 1\<rparr>)\<rparr>)))"

definition HASH_REPLACE ::
  "(bytes \<Rightarrow> hashv) \<Rightarrow> ut_hash \<Rightarrow> bytes \<Rightarrow> ptr \<Rightarrow> (ut_hash \<times> ptr option) res option" where
  "HASH_REPLACE fcn s ky add =
     do { r \<leftarrow> HASH_FIND fcn s ky;
          case r of
            Inl f \<Rightarrow> Some (Inl f)
          | Inr replaced \<Rightarrow>
              (case (case replaced of None \<Rightarrow> Inr s | Some e \<Rightarrow> HASH_DELETE s e) of
                 Inl f \<Rightarrow> Some (Inl f)
               | Inr s \<Rightarrow>
                   do { r \<leftarrow> HASH_ADD_KEYPTR fcn s ky add; Some (bind_res r (\<lambda>s. Inr (s, replaced))) }) }"

definition HASH_CLEAR :: "ut_hash \<Rightarrow> ut_hash res" where
  "HASH_CLEAR s =
     (if uh_head s = None then Inr s
      else bind_res (table_of s) (\<lambda>t. Inr (s\<lparr>uh_head := None, uh_tbl := None\<rparr>)))"

definition HASH_CNT :: "ut_hash \<Rightarrow> 32 word res" where
  "HASH_CNT s = (if uh_head s = None then Inr 0 else bind_res (table_of s) (\<lambda>t. Inr (tb_items t)))"

text \<open>\<open>HASH_ITER\<close>: the next element is read before the body, which may delete the current one.\<close>

partial_function (option) hash_iter ::
  "(ptr \<Rightarrow> ut_hash \<Rightarrow> ut_hash res) \<Rightarrow> ptr option \<Rightarrow> ptr option \<Rightarrow> ut_hash \<Rightarrow> ut_hash res option" where
  "hash_iter body el tmp s =
     (case el of
        None \<Rightarrow> Some (Inr s)
      | Some e \<Rightarrow>
          (case body e s of
             Inl f \<Rightarrow> Some (Inl f)
           | Inr s' \<Rightarrow> hash_iter body tmp (case tmp of None \<Rightarrow> None | Some t \<Rightarrow> d_next (uh_app s') t) s'))"

definition HASH_ITER :: "(ptr \<Rightarrow> ut_hash \<Rightarrow> ut_hash res) \<Rightarrow> ut_hash \<Rightarrow> ut_hash res option" where
  "HASH_ITER body s =
     hash_iter body (uh_head s) (case uh_head s of None \<Rightarrow> None | Some h \<Rightarrow> d_next (uh_app s) h) s"

end
