(* ===== verification/Uthash_Rep.thy ===== *)
theory Uthash_Rep
  imports Uthash
begin

text \<open>
  What the hash table of \<open>Uthash\<close> represents: a sequence of elements with their keys, in the
  order of insertion, no key twice (\<open>hash_rep\<close>). Finding is looking the key up, adding is
  appending, deleting is removing, whatever the buckets look like and however often they are
  doubled. The laws are those of the locale \<open>keyed_table\<close>, from which replacing follows.
\<close>

section \<open>Chains\<close>

definition chain :: "dlinks \<Rightarrow> ptr option \<Rightarrow> ptr list \<Rightarrow> bool" where
  "chain s h xs \<longleftrightarrow> llist (d_next s) h xs \<and> pchain s None xs"

definition same_links :: "dlinks \<Rightarrow> dlinks \<Rightarrow> ptr \<Rightarrow> bool" where
  "same_links s s' x \<longleftrightarrow> d_next s' x = d_next s x \<and> d_prev s' x = d_prev s x"

lemma pchain_cong: "(\<And>x. x \<in> set xs \<Longrightarrow> d_prev s x = d_prev s' x) \<Longrightarrow> pchain s t xs = pchain s' t xs"
  by (induction xs arbitrary: t) auto

lemma chain_same:
  assumes "chain s h xs" and "\<And>x. x \<in> set xs \<Longrightarrow> same_links s s' x"
  shows "chain s' h xs"
proof -
  have "llist (d_next s') h xs = llist (d_next s) h xs"
    by (rule lpath_cong) (use assms(2) in \<open>auto simp: same_links_def\<close>)
  moreover have "pchain s' None xs = pchain s None xs"
    by (rule pchain_cong) (use assms(2) in \<open>auto simp: same_links_def\<close>)
  ultimately show ?thesis using assms(1) by (simp add: chain_def)
qed

lemma chain_head: "chain s h xs \<Longrightarrow> h = (if xs = [] then None else Some (hd xs))"
  by (cases xs) (auto simp: chain_def)

lemma chain_distinct: "chain s h xs \<Longrightarrow> distinct xs"
  by (auto simp: chain_def dest: llist_distinct)

lemma chain_push_holds:
  assumes "chain s h xs" and "e \<notin> set xs"
  shows "chain (chain_push e h s) (Some e) (e # xs)"
    and "x \<noteq> e \<Longrightarrow> x \<notin> set xs \<Longrightarrow> same_links s (chain_push e h s) x"
    and "x \<noteq> e \<Longrightarrow> d_next (chain_push e h s) x = d_next s x"
proof -
  show "chain (chain_push e h s) (Some e) (e # xs)"
  proof (cases xs)
    case Nil
    with assms show ?thesis by (simp add: chain_def chain_push_def)
  next
    case (Cons a as)
    with assms chain_distinct [OF assms(1)] show ?thesis by (auto simp: chain_def chain_push_def)
  qed
  show "same_links s (chain_push e h s) x" if "x \<noteq> e" "x \<notin> set xs"
    using that chain_head [OF assms(1)] by (auto simp: same_links_def chain_push_def)
  show "x \<noteq> e \<Longrightarrow> d_next (chain_push e h s) x = d_next s x"
    by (cases h) (simp_all add: chain_push_def Let_def)
qed

lemma chain_add_last:
  assumes "chain s h xs" and "e \<notin> set xs" and "xs \<noteq> []"
  shows "chain (set_prev e (Some (last xs)) (set_next (last xs) (Some e) (set_next e None s))) h (xs @ [e])"
proof -
  obtain us where us: "xs = us @ [last xs]" using assms(3) by (metis append_butlast_last_id)
  from chain_distinct [OF assms(1)] us have d: "last xs \<notin> set us" by (metis distinct_append not_distinct_conv_prefix distinct.simps(2))
  let ?s = "set_prev e (Some (last xs)) (set_next (last xs) (Some e) (set_next e None s))"
  have "lpath (d_next s) h us (Some (last xs))"
    using assms(1) us by (metis chain_def lpath.simps(2) lpath_append)
  moreover have "e \<notin> set us" "e \<noteq> last xs" using assms(2,3) us by (metis in_set_conv_decomp in_set_butlastD butlast_snoc, auto)
  ultimately have "llist (d_next ?s) h ((us @ [last xs]) @ [e])" using d by auto
  with us have "llist (d_next ?s) h (xs @ [e])" by simp
  moreover have "pchain ?s None (xs @ [e])" using assms by (simp add: chain_def)
  ultimately show ?thesis by (simp add: chain_def)
qed

lemma chain_unlink_holds:
  assumes "chain s h (us @ x # vs)"
  shows "chain (chain_unlink x s) (if us = [] then d_next s x else h) (us @ vs)"
    and "d_prev s x = (if us = [] then None else Some (last us))"
    and "d_next s x = (if vs = [] then None else Some (hd vs))"
    and "y \<notin> set us \<Longrightarrow> y \<notin> set vs \<Longrightarrow> same_links s (chain_unlink x s) y"
proof -
  from assms have l: "\<exists>r. lpath (d_next s) h us r \<and> r = Some x \<and> llist (d_next s) (d_next s x) vs"
    and pr: "pchain s None us" "d_prev s x = (if us = [] then None else Some (last us))" "pchain s (Some x) vs"
    by (auto simp: chain_def)
  from chain_distinct [OF assms] have dist: "distinct us" "distinct vs" "x \<notin> set us" "x \<notin> set vs" "set us \<inter> set vs = {}" by auto
  show prev: "d_prev s x = (if us = [] then None else Some (last us))" by (rule pr(2))
  show nxt: "d_next s x = (if vs = [] then None else Some (hd vs))" using l by (cases vs) auto
  let ?s1 = "if us = [] then s else set_next (last us) (d_next s x) s"
  let ?s2 = "if vs = [] then ?s1 else set_prev (hd vs) (d_prev s x) ?s1"
  have lu: "us \<noteq> [] \<Longrightarrow> last us \<in> set us" "vs \<noteq> [] \<Longrightarrow> hd vs \<in> set vs" by simp_all
  with dist have ne: "us \<noteq> [] \<Longrightarrow> last us \<noteq> x" by auto
  have s2: "chain_unlink x s = ?s2"
    using ne by (cases "us = []"; cases "vs = []") (simp_all add: chain_unlink_def prev nxt)
  have n: "llist (d_next ?s2) (if us = [] then d_next s x else h) (us @ vs)"
  proof (cases "us = []")
    case True
    with l show ?thesis by (cases "vs = []") auto
  next
    case False
    obtain us1 where us1: "us = us1 @ [last us]" using False by (metis append_butlast_last_id)
    then have "lpath (d_next s) h us1 (Some (last us))" using l by (metis lpath.simps(2) lpath_append)
    moreover have "last us \<notin> set us1" using dist(1) us1 by (metis distinct_append not_distinct_conv_prefix distinct.simps(2))
    moreover have "last us \<notin> set vs" using lu(1) [OF False] dist(5) by blast
    ultimately have "llist ((d_next s)(last us := d_next s x)) h ((us1 @ [last us]) @ vs)" using l by auto
    moreover have "d_next ?s2 = (d_next s)(last us := d_next s x)" using False by simp
    ultimately show ?thesis using us1 [symmetric] False by (simp only: if_False)
  qed
  have p: "pchain ?s2 None (us @ vs)"
  proof (cases vs)
    case Nil
    with pr(1) show ?thesis by simp
  next
    case (Cons v ws)
    with dist have "v \<notin> set us" "v \<notin> set ws" by auto
    with Cons pr show ?thesis by auto
  qed
  from n p s2 show "chain (chain_unlink x s) (if us = [] then d_next s x else h) (us @ vs)" by (simp add: chain_def)
  show "same_links s (chain_unlink x s) y" if "y \<notin> set us" "y \<notin> set vs"
  proof -
    have "us \<noteq> [] \<Longrightarrow> y \<noteq> last us" "vs \<noteq> [] \<Longrightarrow> y \<noteq> hd vs" using that lu by blast+
    then show ?thesis unfolding s2 by (cases "us = []"; cases "vs = []") (simp_all add: same_links_def)
  qed
qed

section \<open>Buckets\<close>

definition bucket_rep :: "dlinks \<Rightarrow> ut_bucket \<Rightarrow> ptr list \<Rightarrow> bool" where
  "bucket_rep hh bk ys \<longleftrightarrow> chain hh (bk_head bk) ys \<and> bk_count bk = of_nat (length ys)"

text \<open>The elements of \<open>S\<close> are each in the bucket of the low \<open>k\<close> bits of their value.\<close>

definition buckets_rep :: "(ptr \<Rightarrow> hashv) \<Rightarrow> dlinks \<Rightarrow> ut_bucket list \<Rightarrow> nat \<Rightarrow> ptr set \<Rightarrow> bool" where
  "buckets_rep hv hh bks k S \<longleftrightarrow> length bks = 2 ^ k \<and>
     (\<forall>b < 2 ^ k. \<exists>ys. bucket_rep hh (bks ! b) ys \<and> set ys = {x \<in> S. unat (hv x) mod 2 ^ k = b})"

lemma bucket_repI: "chain hh (bk_head bk) ys \<Longrightarrow> bk_count bk = of_nat (length ys) \<Longrightarrow> bucket_rep hh bk ys"
  by (simp add: bucket_rep_def)

lemma buckets_repD:
  assumes "buckets_rep hv hh bks k S" and "b < 2 ^ k"
  obtains ys where "chain hh (bk_head (bks ! b)) ys" "bk_count (bks ! b) = of_nat (length ys)"
    "set ys = {x \<in> S. unat (hv x) mod 2 ^ k = b}"
  using assms by (auto simp: buckets_rep_def bucket_rep_def)

lemma buckets_rep_empty: "buckets_rep hv hh (replicate (2 ^ k) empty_bucket) k {}"
  by (auto simp: buckets_rep_def bucket_rep_def chain_def intro: exI [of _ "[]"])

text \<open>One bucket changes, and the links of no element of another one.\<close>

lemma buckets_rep_upd:
  assumes "buckets_rep hv hh bks k S" and "b < 2 ^ k" and "bucket_rep hh' bk ys"
    and "set ys = {x \<in> T. unat (hv x) mod 2 ^ k = b}"
    and "\<And>x. unat (hv x) mod 2 ^ k \<noteq> b \<Longrightarrow> x \<in> S \<longleftrightarrow> x \<in> T"
    and "\<And>x. x \<in> S \<Longrightarrow> unat (hv x) mod 2 ^ k \<noteq> b \<Longrightarrow> same_links hh hh' x"
  shows "buckets_rep hv hh' (bks[b := bk]) k T"
  unfolding buckets_rep_def
proof (intro conjI allI impI)
  show "length (bks[b := bk]) = 2 ^ k" using assms(1) by (simp add: buckets_rep_def)
  fix c :: nat
  assume c: "c < 2 ^ k"
  show "\<exists>ys. bucket_rep hh' (bks[b := bk] ! c) ys \<and> set ys = {x \<in> T. unat (hv x) mod 2 ^ k = c}"
  proof (cases "c = b")
    case True
    with assms(1-4) show ?thesis by (auto simp: buckets_rep_def)
  next
    case False
    from buckets_repD [OF assms(1) c] obtain zs where zs: "chain hh (bk_head (bks ! c)) zs"
      "bk_count (bks ! c) = of_nat (length zs)" "set zs = {x \<in> S. unat (hv x) mod 2 ^ k = c}" .
    from zs(1) have "chain hh' (bk_head (bks ! c)) zs"
      by (rule chain_same) (use zs(3) assms(6) False in auto)
    moreover have "set zs = {x \<in> T. unat (hv x) mod 2 ^ k = c}" unfolding zs(3) using False by (auto simp: assms(5))
    ultimately show ?thesis using zs(2) False by (auto simp: bucket_rep_def)
  qed
qed

lemma bucket_push:
  assumes "buckets_rep hv hh bks k S" and "e \<notin> S" and "b = unat (hv e) mod 2 ^ k"
  shows "buckets_rep hv (chain_push e (bk_head (bks ! b)) hh)
      (bks[b := \<lparr>bk_head = Some e, bk_count = bk_count (bks ! b) + 1, bk_mult = m\<rparr>]) k (insert e S)"
proof -
  have b: "b < 2 ^ k" using assms(3) by simp
  from buckets_repD [OF assms(1) b] obtain ys where ys: "chain hh (bk_head (bks ! b)) ys"
    "bk_count (bks ! b) = of_nat (length ys)" "set ys = {x \<in> S. unat (hv x) mod 2 ^ k = b}" .
  have e: "e \<notin> set ys" using ys(3) assms(2) by simp
  note cp = chain_push_holds [OF ys(1) e]
  show ?thesis
  proof (rule buckets_rep_upd [OF assms(1) b, where ys = "e # ys"])
    show "bucket_rep (chain_push e (bk_head (bks ! b)) hh)
        \<lparr>bk_head = Some e, bk_count = bk_count (bks ! b) + 1, bk_mult = m\<rparr> (e # ys)"
      using cp(1) ys(2) by (simp add: bucket_rep_def)
    show "same_links hh (chain_push e (bk_head (bks ! b)) hh) x" if "x \<in> S" "unat (hv x) mod 2 ^ k \<noteq> b" for x
      by (rule cp(2)) (use that ys(3) assms(2) in auto)
  qed (use ys(3) assms(3) in auto)
qed

lemma bucket_unlink:
  assumes "buckets_rep hv hh bks k S" and "e \<in> S" and "b = unat (hv e) mod 2 ^ k"
  shows "buckets_rep hv (chain_unlink e hh)
      (bks[b := \<lparr>bk_head = (if bk_head (bks ! b) = Some e then d_next hh e else bk_head (bks ! b)),
                 bk_count = bk_count (bks ! b) - 1, bk_mult = m\<rparr>]) k (S - {e})"
proof -
  have b: "b < 2 ^ k" using assms(3) by simp
  from buckets_repD [OF assms(1) b] obtain ys where ys: "chain hh (bk_head (bks ! b)) ys"
    "bk_count (bks ! b) = of_nat (length ys)" "set ys = {x \<in> S. unat (hv x) mod 2 ^ k = b}" .
  from assms(2,3) ys(3) have "e \<in> set ys" by simp
  then obtain us vs where s: "ys = us @ e # vs" by (auto dest: split_list)
  note cu = chain_unlink_holds [OF ys(1) [unfolded s]]
  have d: "distinct ys" by (rule chain_distinct [OF ys(1)])
  have "us = [] \<longleftrightarrow> bk_head (bks ! b) = Some e"
    using chain_head [OF ys(1)] d s by (cases us) auto
  then have h: "(if bk_head (bks ! b) = Some e then d_next hh e else bk_head (bks ! b)) =
      (if us = [] then d_next hh e else bk_head (bks ! b))" by simp
  show ?thesis
  proof (rule buckets_rep_upd [OF assms(1) b, where ys = "us @ vs"])
    show "bucket_rep (chain_unlink e hh)
        \<lparr>bk_head = (if bk_head (bks ! b) = Some e then d_next hh e else bk_head (bks ! b)),
         bk_count = bk_count (bks ! b) - 1, bk_mult = m\<rparr> (us @ vs)"
      using cu(1) ys(2) s unfolding h by (simp add: bucket_rep_def)
    show "set (us @ vs) = {x \<in> S - {e}. unat (hv x) mod 2 ^ k = b}" using ys(3) s d by auto
    show "same_links hh (chain_unlink e hh) x" if "x \<in> S" "unat (hv x) mod 2 ^ k \<noteq> b" for x
      by (rule cu(4)) (use that ys(3) s in auto)
  qed (use assms(3) in auto)
qed

section \<open>Expanding\<close>

lemma unat_two_power: "k < 32 \<Longrightarrow> unat (2 ^ k :: 32 word) = 2 ^ k"
proof -
  assume "k < 32"
  then have "(2 :: nat) ^ k < 2 ^ 32" by (rule power_strict_increasing) simp
  moreover have "(2 :: 32 word) ^ k = of_nat (2 ^ k)" by simp
  ultimately show ?thesis by (simp only: unat_of_nat) simp
qed

lemma move_item_holds:
  assumes "buckets_rep hv hh new k S" and "e \<notin> S" and "ideal \<noteq> 0"
  shows "\<exists>hh' new' n'. move_item hv (2 ^ k) ideal e (hh, new, n) = Inr (hh', new', n') \<and>
    buckets_rep hv hh' new' k (insert e S) \<and> (\<forall>x. x \<noteq> e \<longrightarrow> d_next hh' x = d_next hh x)"
proof -
  define b where "b = unat (hv e) mod 2 ^ k"
  let ?bk = "new ! b" and ?hh = "chain_push e (bk_head (new ! b)) hh"
  define m where "m = (if bk_count ?bk + 1 > ideal then (bk_count ?bk + 1) div ideal else bk_mult ?bk)"
  have b: "b < length new" using assms(1) by (simp add: b_def buckets_rep_def)
  have "b < 2 ^ k" by (simp add: b_def)
  from buckets_repD [OF assms(1) this] obtain ys where ys: "chain hh (bk_head ?bk) ys"
    "set ys = {x \<in> S. unat (hv x) mod 2 ^ k = b}" by metis
  have e: "e \<notin> set ys" using ys(2) assms(2) by simp
  have nx: "\<forall>x. x \<noteq> e \<longrightarrow> d_next ?hh x = d_next hh x"
    by (intro allI impI) (rule chain_push_holds(3) [OF ys(1) e])
  have hb: "HASH_TO_BKT (hv e) (2 ^ k) = b" by (simp only: to_bkt_mod b_def)
  have "\<exists>n'. move_item hv (2 ^ k) ideal e (hh, new, n) =
      Inr (?hh, new[b := \<lparr>bk_head = Some e, bk_count = bk_count ?bk + 1, bk_mult = m\<rparr>], n')"
    unfolding move_item_def prod.case hb Let_def m_def using b assms(3) by simp
  with nx bucket_push [OF assms(1,2) b_def, of m] show ?thesis by blast
qed

lemma move_chain_holds:
  assumes "ideal \<noteq> 0"
  shows "llist (d_next hh) h ys \<Longrightarrow> buckets_rep hv hh new k S \<Longrightarrow> set ys \<inter> S = {} \<Longrightarrow>
    \<exists>hh' new' n'. move_chain hv (2 ^ k) ideal h (hh, new, n) = Some (Inr (hh', new', n')) \<and>
      buckets_rep hv hh' new' k (set ys \<union> S) \<and> (\<forall>x. x \<notin> set ys \<longrightarrow> d_next hh' x = d_next hh x)"
proof (induction ys arbitrary: h hh new n S)
  case Nil
  then show ?case by (simp add: move_chain.simps)
next
  case (Cons e ys)
  then have h: "h = Some e" "llist (d_next hh) (d_next hh e) ys" and e: "e \<notin> S" by auto
  from llist_distinct [OF Cons.prems(1)] have "e \<notin> set ys" by simp
  from move_item_holds [OF Cons.prems(2) e assms, of n] obtain hh1 new1 n1 where
    m: "move_item hv (2 ^ k) ideal e (hh, new, n) = Inr (hh1, new1, n1)"
    "buckets_rep hv hh1 new1 k (insert e S)" "\<And>x. x \<noteq> e \<Longrightarrow> d_next hh1 x = d_next hh x" by blast
  have "llist (d_next hh1) (d_next hh e) ys = llist (d_next hh) (d_next hh e) ys"
    by (rule lpath_cong) (use \<open>e \<notin> set ys\<close> m(3) in metis)
  with h have l: "llist (d_next hh1) (d_next hh e) ys" by simp
  have "set ys \<inter> insert e S = {}" using Cons.prems(3) \<open>e \<notin> set ys\<close> by auto
  from Cons.IH [OF l m(2) this, of n1] m(1,3) h(1) show ?case
    by (auto simp: move_chain.simps [of _ _ _ "Some e"])
qed

lemma move_buckets_holds:
  assumes "ideal \<noteq> 0"
  shows "distinct is \<Longrightarrow> \<forall>i \<in> set is. i < length (tb_buckets t) \<Longrightarrow>
    \<forall>i \<in> set is. llist (d_next hh) (bk_head (tb_buckets t ! i)) (yss i) \<Longrightarrow>
    \<forall>i \<in> set is. set (yss i) \<inter> S = {} \<and> (\<forall>j \<in> set is. i \<noteq> j \<longrightarrow> set (yss i) \<inter> set (yss j) = {}) \<Longrightarrow>
    buckets_rep hv hh new k S \<Longrightarrow>
    \<exists>hh' new' n'. move_buckets hv (2 ^ k) ideal t is (hh, new, n) = Some (Inr (hh', new', n')) \<and>
      buckets_rep hv hh' new' k ((\<Union>i \<in> set is. set (yss i)) \<union> S)"
proof (induction "is" arbitrary: hh new n S)
  case Nil
  then show ?case by simp
next
  case (Cons i "is")
  let ?h = "bk_head (tb_buckets t ! i)"
  from Cons.prems have "llist (d_next hh) ?h (yss i)" "set (yss i) \<inter> S = {}" by simp_all
  from move_chain_holds [OF assms this(1) Cons.prems(5) this(2), of n] obtain hh1 new1 n1 where
    m: "move_chain hv (2 ^ k) ideal ?h (hh, new, n) = Some (Inr (hh1, new1, n1))"
    "buckets_rep hv hh1 new1 k (set (yss i) \<union> S)" "\<And>x. x \<notin> set (yss i) \<Longrightarrow> d_next hh1 x = d_next hh x" by blast
  have l: "\<forall>j \<in> set is. llist (d_next hh1) (bk_head (tb_buckets t ! j)) (yss j)"
  proof
    fix j assume j: "j \<in> set is"
    with Cons.prems(1,4) have d: "set (yss i) \<inter> set (yss j) = {}" by auto
    have "llist (d_next hh1) (bk_head (tb_buckets t ! j)) (yss j) =
        llist (d_next hh) (bk_head (tb_buckets t ! j)) (yss j)"
      by (rule lpath_cong) (use m(3) d in blast)
    with Cons.prems(3) j show "llist (d_next hh1) (bk_head (tb_buckets t ! j)) (yss j)" by simp
  qed
  have d: "\<forall>j \<in> set is. set (yss j) \<inter> (set (yss i) \<union> S) = {} \<and>
      (\<forall>j' \<in> set is. j \<noteq> j' \<longrightarrow> set (yss j) \<inter> set (yss j') = {})"
    using Cons.prems(1,4) by (auto simp: Int_Un_distrib)
  from Cons.IH [OF _ _ l d m(2), of n1] Cons.prems(1,2) obtain hh' new' n' where
    "move_buckets hv (2 ^ k) ideal t is (hh1, new1, n1) = Some (Inr (hh', new', n'))"
    "buckets_rep hv hh' new' k ((\<Union>i \<in> set is. set (yss i)) \<union> (set (yss i) \<union> S))" by auto
  moreover have "(\<Union>i \<in> set is. set (yss i)) \<union> (set (yss i) \<union> S) = (\<Union>i \<in> set (i # is). set (yss i)) \<union> S" by auto
  ultimately show ?case using m(1) Cons.prems(2) by (simp add: bucket_at_def)
qed

text \<open>A table has 2^k buckets and counts its elements.\<close>

definition table_rep :: "(ptr \<Rightarrow> hashv) \<Rightarrow> dlinks \<Rightarrow> ut_table \<Rightarrow> nat \<Rightarrow> ptr set \<Rightarrow> bool" where
  "table_rep hv hh t k S \<longleftrightarrow> tb_num t = 2 ^ k \<and> tb_log2 t = of_nat k \<and> k < 32 \<and>
     buckets_rep hv hh (tb_buckets t) k S"

lemma ideal_chain_pos:
  assumes "tb_num t = 2 ^ k" and "tb_log2 t = of_nat k" and "k < 31" and "tb_items t \<noteq> 0"
  shows "ideal_chain t \<noteq> 0"
proof -
  let ?n = "tb_items t"
  have k: "unat (tb_log2 t + 1) = Suc k"
  proof -
    have "tb_log2 t + 1 = of_nat (Suc k)" using assms(2) by simp
    then show ?thesis using assms(3) by (simp only: unat_of_nat) simp
  qed
  have a: "?n AND (tb_num t * 2 - 1) = ?n AND (2 ^ Suc k - 1)" using assms(1) by (simp add: mult.commute)
  have u: "unat (?n AND (2 ^ Suc k - 1)) = unat ?n mod 2 ^ Suc k" by (rule unat_low_bits)
  have d: "unat (drop_bit (Suc k) ?n) = unat ?n div 2 ^ Suc k" by (simp only: unat_drop_bit_eq) (simp only: drop_bit_eq_div)
  show ?thesis
  proof (cases "?n AND (2 ^ Suc k - 1) = 0")
    case True
    with u have "unat ?n mod 2 ^ Suc k = 0" by simp
    moreover have "unat ?n \<noteq> 0" using assms(4) by (simp add: unat_gt_0)
    ultimately have "unat ?n div 2 ^ Suc k \<noteq> 0" by (metis div_mult_mod_eq add_0_right mult_0)
    with d have "drop_bit (Suc k) ?n \<noteq> 0" by (metis unsigned_0)
    with True a show ?thesis by (simp only: ideal_chain_def k) simp
  next
    case False
    have "unat (drop_bit (Suc k) ?n) \<le> unat ?n div 2" unfolding d by (rule div_le_mono2) simp_all
    also have "unat ?n < 2 ^ LENGTH(32)" by (rule unsigned_less)
    then have "unat ?n div 2 < 2 ^ 31" by simp
    finally have "unat (drop_bit (Suc k) ?n) + 1 < 2 ^ LENGTH(32)" by simp
    then have "unat (drop_bit (Suc k) ?n + 1) \<noteq> 0" by (simp add: unat_word_ariths)
    then have "drop_bit (Suc k) ?n + 1 \<noteq> 0" by (metis unsigned_0)
    with False a show ?thesis by (simp only: ideal_chain_def k) simp
  qed
qed

lemma expand_holds:
  assumes "table_rep hv hh t k S" and "k < 31" and "tb_items t \<noteq> 0"
  shows "\<exists>t' hh'. HASH_EXPAND_BUCKETS hv t hh = Some (Inr (t', hh')) \<and> table_rep hv hh' t' (Suc k) S \<and>
    tb_items t' = tb_items t \<and> tb_tail t' = tb_tail t"
proof -
  from assms(1) have t: "tb_num t = 2 ^ k" "tb_log2 t = of_nat k" "buckets_rep hv hh (tb_buckets t) k S"
    by (simp_all add: table_rep_def)
  have num: "tb_num t * 2 = 2 ^ Suc k" "2 * tb_num t = 2 ^ Suc k" using t(1) by simp_all
  have un: "unat (tb_num t) = 2 ^ k" "unat (2 ^ Suc k :: 32 word) = 2 ^ Suc k"
    using unat_two_power [of k] unat_two_power [of "Suc k"] assms(2) t(1) by simp_all
  from t(3) have "\<forall>b \<in> {..<2 ^ k}. \<exists>ys. chain hh (bk_head (tb_buckets t ! b)) ys \<and> set ys = {x \<in> S. unat (hv x) mod 2 ^ k = b}"
    by (auto simp: buckets_rep_def bucket_rep_def)
  from bchoice [OF this] obtain yss where yss: "\<And>b. b < 2 ^ k \<Longrightarrow> chain hh (bk_head (tb_buckets t ! b)) (yss b)"
    "\<And>b. b < 2 ^ k \<Longrightarrow> set (yss b) = {x \<in> S. unat (hv x) mod 2 ^ k = b}" by auto
  have ideal: "ideal_chain t \<noteq> 0" by (rule ideal_chain_pos [OF t(1,2) assms(2,3)])
  have len: "length (tb_buckets t) = 2 ^ k" using t(3) by (simp add: buckets_rep_def)
  have "(\<Union>i \<in> set [0..<2 ^ k]. set (yss i)) \<union> {} = S" using yss(2) by auto
  moreover have "\<exists>hh' new' n'. move_buckets hv (2 ^ Suc k) (ideal_chain t) t [0..<2 ^ k]
        (hh, replicate (2 ^ Suc k) empty_bucket, 0) = Some (Inr (hh', new', n')) \<and>
      buckets_rep hv hh' new' (Suc k) ((\<Union>i \<in> set [0..<2 ^ k]. set (yss i)) \<union> {})"
    by (rule move_buckets_holds [OF ideal]) (use len yss buckets_rep_empty in \<open>auto simp: chain_def simp del: power_Suc\<close>)
  ultimately obtain hh' new' n' where
    m: "move_buckets hv (2 ^ Suc k) (ideal_chain t) t [0..<2 ^ k] (hh, replicate (2 ^ Suc k) empty_bucket, 0) =
        Some (Inr (hh', new', n'))" "buckets_rep hv hh' new' (Suc k) S" by auto
  have "(of_nat k :: 32 word) + 1 = of_nat (Suc k)" by simp
  with m assms(2) t(2) show ?thesis
    by (auto simp: HASH_EXPAND_BUCKETS_def num un Let_def table_rep_def simp del: power_Suc of_nat_Suc)
qed

section \<open>The sequence of elements with their keys\<close>

type_synonym items = "(ptr \<times> bytes) list"

definition hash_rep :: "(bytes \<Rightarrow> hashv) \<Rightarrow> ut_hash \<Rightarrow> items \<Rightarrow> bool" where
  "hash_rep fcn s kvs \<longleftrightarrow>
     distinct (map fst kvs) \<and> distinct (map snd kvs) \<and> length kvs < 2 ^ 32 \<and>
     (\<forall>(x, k) \<in> set kvs. length k < 2 ^ 32 \<and> uh_key s x = k \<and> uh_keylen s x = klen k \<and> uh_hashv s x = fcn k) \<and>
     (if kvs = [] then uh_head s = None
      else \<exists>t k. uh_tbl s = Some t \<and> chain (uh_app s) (uh_head s) (map fst kvs) \<and>
        tb_tail t = Some (last (map fst kvs)) \<and> tb_items t = of_nat (length kvs) \<and>
        table_rep (uh_hashv s) (uh_hh s) t k (fst ` set kvs))"

text \<open>Up to 2^30 buckets, so that doubling them does not wrap.\<close>

definition bkt_room :: "ut_hash \<Rightarrow> bool" where
  "bkt_room s \<longleftrightarrow> (case uh_tbl s of None \<Rightarrow> True | Some t \<Rightarrow> tb_num t \<le> 2 ^ 30)"

definition lookup :: "items \<Rightarrow> bytes \<Rightarrow> ptr option" where
  "lookup kvs ky = map_option fst (find (\<lambda>(x, k). k = ky) kvs)"

definition without :: "ptr \<Rightarrow> items \<Rightarrow> items" where
  "without e kvs = filter (\<lambda>(x, k). x \<noteq> e) kvs"

lemma hash_rep_item:
  assumes "hash_rep fcn s kvs" and "(x, k) \<in> set kvs"
  shows "length k < 2 ^ 32" and "uh_key s x = k" and "uh_keylen s x = klen k" and "uh_hashv s x = fcn k"
  using assms by (auto simp: hash_rep_def)

lemma hash_repE:
  assumes "hash_rep fcn s kvs" and "kvs \<noteq> []"
  obtains t k where "uh_tbl s = Some t" "table_of s = Inr t" "chain (uh_app s) (uh_head s) (map fst kvs)"
    "uh_head s = Some (fst (hd kvs))" "tb_tail t = Some (last (map fst kvs))" "tb_items t = of_nat (length kvs)"
    "table_rep (uh_hashv s) (uh_hh s) t k (fst ` set kvs)"
proof -
  from assms obtain t k where t: "uh_tbl s = Some t" "chain (uh_app s) (uh_head s) (map fst kvs)"
    "tb_tail t = Some (last (map fst kvs))" "tb_items t = of_nat (length kvs)"
    "table_rep (uh_hashv s) (uh_hh s) t k (fst ` set kvs)" by (auto simp: hash_rep_def)
  from chain_head [OF t(2)] assms(2) have h: "uh_head s = Some (fst (hd kvs))" by (simp add: list.map_sel)
  with t(1) have "table_of s = Inr t" by (simp add: table_of_def)
  with t h that show ?thesis by blast
qed

lemma lookup_in:
  assumes "distinct (map snd kvs)"
  shows "lookup kvs ky = Some x \<longleftrightarrow> (x, ky) \<in> set kvs"
  using assms by (induction kvs) (auto simp: lookup_def split: if_splits, force+)

lemma lookup_notin: "lookup kvs ky = None \<longleftrightarrow> ky \<notin> snd ` set kvs"
  by (induction kvs) (auto simp: lookup_def)

lemma item_unique:
  fixes kvs :: items
  assumes "distinct (map fst kvs)" and "distinct (map snd kvs)" and "(y, j) \<in> set kvs" and "(x, i) \<in> set kvs"
  shows "j = i \<longleftrightarrow> y = x"
proof
  assume "j = i"
  with assms(3,4) have "lookup kvs i = Some y" "lookup kvs i = Some x" by (simp_all add: lookup_in [OF assms(2)])
  then show "y = x" by simp
next
  assume "y = x"
  with assms show "j = i" by (auto dest: eq_key_imp_eq_value)
qed

subsection \<open>Finding\<close>

lemma find_chain_holds:
  "llist (d_next (uh_hh s)) h ys \<Longrightarrow>
    find_chain s ky h = Some (find (\<lambda>e. uh_keylen s e = klen ky \<and> HASH_KEYCMP (uh_key s e) ky) ys)"
proof (induction ys arbitrary: h)
  case Nil
  then show ?case by (simp add: find_chain.simps)
next
  case (Cons e ys)
  then show ?case by (simp add: find_chain.simps [of s ky "Some e"])
qed

lemma find_one: "(\<And>y. y \<in> set ys \<Longrightarrow> P y \<longleftrightarrow> y = x) \<Longrightarrow> find P ys = (if x \<in> set ys then Some x else None)"
  by (induction ys) auto

lemma klen_eq: "length a < 2 ^ 32 \<Longrightarrow> length b < 2 ^ 32 \<Longrightarrow> klen a = klen b \<longleftrightarrow> length a = length b"
proof -
  assume l: "length a < 2 ^ 32" "length b < 2 ^ 32"
  then have "unat (klen a) = length a" "unat (klen b) = length b" by (simp_all add: klen_def unat_of_nat)
  then show ?thesis by (metis klen_def)
qed

lemma keys_match:
  assumes "hash_rep fcn s kvs" and "(x, k) \<in> set kvs" and "length ky < 2 ^ 32"
  shows "uh_keylen s x = klen ky \<and> HASH_KEYCMP (uh_key s x) ky \<longleftrightarrow> k = ky"
  using hash_rep_item [OF assms(1,2)] klen_eq [OF _ assms(3), of k] by (auto simp: HASH_KEYCMP_def)

lemma HASH_FIND_holds:
  assumes "hash_rep fcn s kvs" and "length ky < 2 ^ 32"
  shows "HASH_FIND fcn s ky = Some (Inr (lookup kvs ky))"
proof (cases "kvs = []")
  case True
  with assms(1) show ?thesis by (simp add: HASH_FIND_def hash_rep_def lookup_def)
next
  case False
  from hash_repE [OF assms(1) False] obtain t k where t: "table_of s = Inr t"
    "uh_head s = Some (fst (hd kvs))" "table_rep (uh_hashv s) (uh_hh s) t k (fst ` set kvs)" by metis
  define b where "b = unat (fcn ky) mod 2 ^ k"
  have b: "b < 2 ^ k" by (simp add: b_def)
  from t(3) have tb: "tb_num t = 2 ^ k" "length (tb_buckets t) = 2 ^ k"
    "buckets_rep (uh_hashv s) (uh_hh s) (tb_buckets t) k (fst ` set kvs)" by (auto simp: table_rep_def buckets_rep_def)
  from buckets_repD [OF tb(3) b] obtain ys where ys: "chain (uh_hh s) (bk_head (tb_buckets t ! b)) ys"
    "bk_count (tb_buckets t ! b) = of_nat (length ys)" "set ys = {x \<in> fst ` set kvs. unat (uh_hashv s x) mod 2 ^ k = b}" .
  let ?m = "\<lambda>e. uh_keylen s e = klen ky \<and> HASH_KEYCMP (uh_key s e) ky"
  have dk: "distinct (map snd kvs)" "distinct (map fst kvs)" using assms(1) by (simp_all add: hash_rep_def)
  have "find ?m ys = lookup kvs ky"
  proof (cases "lookup kvs ky")
    case None
    have "\<not> ?m y" if y: "y \<in> set ys" for y
    proof -
      from y ys(3) obtain j where "(y, j) \<in> set kvs" by auto
      with keys_match [OF assms(1) this assms(2)] None show ?thesis by (auto simp: lookup_notin rev_image_eqI)
    qed
    with None show ?thesis by (simp add: find_None_iff)
  next
    case (Some x)
    then have x: "(x, ky) \<in> set kvs" by (simp add: lookup_in [OF dk(1)])
    have "?m y \<longleftrightarrow> y = x" if y: "y \<in> set ys" for y
    proof -
      from y ys(3) obtain j where j: "(y, j) \<in> set kvs" by auto
      have "j = ky \<longleftrightarrow> y = x" by (rule item_unique [OF dk(2,1) j x])
      with keys_match [OF assms(1) j assms(2)] show ?thesis by simp
    qed
    from find_one [of ys ?m, OF this] have f: "find ?m ys = (if x \<in> set ys then Some x else None)" .
    have "uh_hashv s x = fcn ky" by (rule hash_rep_item(4) [OF assms(1) x])
    with x ys(3) have "x \<in> set ys" by (auto simp: b_def rev_image_eqI)
    with f Some show ?thesis by simp
  qed
  moreover have "llist (d_next (uh_hh s)) (bk_head (tb_buckets t ! b)) ys" using ys(1) by (simp add: chain_def)
  ultimately show ?thesis
    using t tb(1,2) b by (simp add: HASH_FIND_def bucket_at_def to_bkt_mod b_def [symmetric] find_chain_holds)
qed

subsection \<open>Adding\<close>

lemma buckets_rep_cong:
  "(\<And>x. x \<in> S \<Longrightarrow> hv x = hv' x) \<Longrightarrow> buckets_rep hv hh bks k S = buckets_rep hv' hh bks k S"
proof -
  assume "\<And>x. x \<in> S \<Longrightarrow> hv x = hv' x"
  then have "{x \<in> S. unat (hv x) mod 2 ^ k = b} = {x \<in> S. unat (hv' x) mod 2 ^ k = b}" for b by auto
  then show ?thesis by (simp add: buckets_rep_def)
qed

lemma few_buckets: "k < 32 \<Longrightarrow> (2 ^ k :: 32 word) \<le> 2 ^ 30 \<Longrightarrow> k < 31"
proof (rule ccontr)
  assume "k < 32" "(2 ^ k :: 32 word) \<le> 2 ^ 30" "\<not> k < 31"
  then have "k = 31" by simp
  with \<open>(2 ^ k :: 32 word) \<le> 2 ^ 30\<close> show False by simp
qed

lemma of_nat_32_nonzero: "0 < n \<Longrightarrow> n < 2 ^ 32 \<Longrightarrow> (of_nat n :: 32 word) \<noteq> 0"
proof
  assume n: "0 < n" "n < 2 ^ 32" and "(of_nat n :: 32 word) = 0"
  then have "unat (of_nat n :: 32 word) = 0" by simp
  with n show False by (simp add: unat_of_nat)
qed

text \<open>An element is put into its bucket; the buckets may be doubled.\<close>

lemma HASH_ADD_TO_BKT_holds:
  assumes "table_rep hv hh t k S" and "e \<notin> S" and "tb_num t \<le> 2 ^ 30" and "tb_items t \<noteq> 0"
  shows "\<exists>t' hh' k'. HASH_ADD_TO_BKT hv t hh (HASH_TO_BKT (hv e) (tb_num t)) e = Some (Inr (t', hh')) \<and>
    table_rep hv hh' t' k' (insert e S) \<and> tb_items t' = tb_items t \<and> tb_tail t' = tb_tail t"
proof -
  define b where "b = unat (hv e) mod 2 ^ k"
  from assms(1) have t: "tb_num t = 2 ^ k" "tb_log2 t = of_nat k" "k < 32" "buckets_rep hv hh (tb_buckets t) k S"
    by (simp_all add: table_rep_def)
  have k: "k < 31" by (rule few_buckets [OF t(3)]) (use assms(3) t(1) in simp)
  have len: "b < length (tb_buckets t)" using t(4) by (simp add: b_def buckets_rep_def)
  have hb: "HASH_TO_BKT (hv e) (tb_num t) = b" by (simp only: t(1) to_bkt_mod b_def)
  let ?bk = "tb_buckets t ! b"
  let ?bks = "(tb_buckets t)[b := ?bk\<lparr>bk_head := Some e, bk_count := bk_count ?bk + 1\<rparr>]"
  let ?t = "t\<lparr>tb_buckets := ?bks\<rparr>" and ?hh = "chain_push e (bk_head ?bk) hh"
  have "?bk\<lparr>bk_head := Some e, bk_count := bk_count ?bk + 1\<rparr> =
      \<lparr>bk_head = Some e, bk_count = bk_count ?bk + 1, bk_mult = bk_mult ?bk\<rparr>" by simp
  with bucket_push [OF t(4) assms(2) b_def, of "bk_mult ?bk"]
  have "buckets_rep hv ?hh ?bks k (insert e S)" by (simp only:)
  with t have rep: "table_rep hv ?hh ?t k (insert e S)" by (simp add: table_rep_def)
  show ?thesis
  proof (cases "bk_count ?bk + 1 \<ge> (bk_mult ?bk + 1) * 10 \<and> tb_noexpand t \<noteq> 1")
    case True
    then have "HASH_ADD_TO_BKT hv t hh (HASH_TO_BKT (hv e) (tb_num t)) e = HASH_EXPAND_BUCKETS hv ?t ?hh"
      unfolding HASH_ADD_TO_BKT_def hb bucket_at_def Let_def using len by simp
    with expand_holds [OF rep k] assms(4) show ?thesis by auto
  next
    case False
    then have "HASH_ADD_TO_BKT hv t hh (HASH_TO_BKT (hv e) (tb_num t)) e = Some (Inr (?t, ?hh))"
      unfolding HASH_ADD_TO_BKT_def hb bucket_at_def Let_def using len by auto
    with rep show ?thesis by auto
  qed
qed

text \<open>The element as the last in the order of insertion, with a table that has room for it.\<close>

lemma add_last_holds:
  assumes "hash_rep fcn s kvs" and "e \<notin> fst ` set kvs" and "bkt_room s"
  shows "\<exists>s' t k. add_last (s\<lparr>uh_app := set_next e None (uh_app s), uh_key := ks, uh_keylen := kl\<rparr>) e = Inr (s', t) \<and>
    chain (uh_app s') (uh_head s') (map fst kvs @ [e]) \<and> tb_tail t = Some e \<and> tb_items t = of_nat (length kvs) \<and>
    table_rep (uh_hashv s) (uh_hh s) t k (fst ` set kvs) \<and> tb_num t \<le> 2 ^ 30 \<and>
    uh_hashv s' = uh_hashv s \<and> uh_hh s' = uh_hh s \<and> uh_key s' = ks \<and> uh_keylen s' = kl"
proof (cases "kvs = []")
  case True
  have "buckets_rep (uh_hashv s) (uh_hh s) (replicate 32 empty_bucket) 5 {}"
    using buckets_rep_empty [of _ _ 5] by simp
  with True assms(1) show ?thesis
    by (auto simp: add_last_def HASH_MAKE_TABLE_def hash_rep_def chain_def table_rep_def intro!: exI [of _ 5])
next
  case False
  from hash_repE [OF assms(1) False] obtain t k where t: "uh_tbl s = Some t" "table_of s = Inr t"
    "chain (uh_app s) (uh_head s) (map fst kvs)" "uh_head s = Some (fst (hd kvs))"
    "tb_tail t = Some (last (map fst kvs))" "tb_items t = of_nat (length kvs)"
    "table_rep (uh_hashv s) (uh_hh s) t k (fst ` set kvs)" .
  have "e \<notin> set (map fst kvs)" using assms(2) by simp
  from chain_add_last [OF t(3) this] False
  have c: "chain (set_prev e (Some (last (map fst kvs))) (set_next (last (map fst kvs)) (Some e) (set_next e None (uh_app s))))
      (uh_head s) (map fst kvs @ [e])" by simp
  have "tb_num t \<le> 2 ^ 30" using assms(3) t(1) by (simp add: bkt_room_def)
  with t c show ?thesis by (auto simp: add_last_def table_of_def table_rep_def)
qed

lemma HASH_ADD_KEYPTR_holds:
  assumes "hash_rep fcn s kvs" and "e \<notin> fst ` set kvs" and "ky \<notin> snd ` set kvs" and "bkt_room s"
    and "length ky < 2 ^ 32" and "length kvs + 1 < 2 ^ 32"
  shows "\<exists>s'. HASH_ADD_KEYPTR fcn s ky e = Some (Inr s') \<and> hash_rep fcn s' (kvs @ [(e, ky)])"
proof -
  let ?ks = "(uh_key s)(e := ky)" and ?kl = "(uh_keylen s)(e := klen ky)"
  from add_last_holds [OF assms(1,2,4), where ks = ?ks and kl = ?kl] obtain s1 t k where
    a: "add_last (s\<lparr>uh_app := set_next e None (uh_app s), uh_key := ?ks, uh_keylen := ?kl\<rparr>) e = Inr (s1, t)"
    "chain (uh_app s1) (uh_head s1) (map fst kvs @ [e])" "tb_tail t = Some e" "tb_items t = of_nat (length kvs)"
    "table_rep (uh_hashv s) (uh_hh s) t k (fst ` set kvs)" "tb_num t \<le> 2 ^ 30"
    "uh_hashv s1 = uh_hashv s" "uh_hh s1 = uh_hh s" "uh_key s1 = ?ks" "uh_keylen s1 = ?kl" by blast
  let ?hv = "(uh_hashv s)(e := fcn ky)" and ?t = "t\<lparr>tb_items := tb_items t + 1\<rparr>"
  have "buckets_rep (uh_hashv s) (uh_hh s) (tb_buckets t) k (fst ` set kvs) =
      buckets_rep ?hv (uh_hh s) (tb_buckets t) k (fst ` set kvs)"
    by (rule buckets_rep_cong) (use assms(2) in auto)
  with a(5) have rep: "table_rep ?hv (uh_hh s) ?t k (fst ` set kvs)" by (simp add: table_rep_def)
  have "(of_nat (length kvs + 1) :: 32 word) \<noteq> 0" by (rule of_nat_32_nonzero) (use assms(6) in simp_all)
  then have items: "tb_items ?t \<noteq> 0" using a(4) by (simp add: add.commute)
  have num: "tb_num ?t \<le> 2 ^ 30" using a(6) by simp
  from HASH_ADD_TO_BKT_holds [OF rep assms(2) num items] obtain t' hh' k' where
    b: "HASH_ADD_TO_BKT ?hv ?t (uh_hh s) (HASH_TO_BKT (fcn ky) (tb_num t)) e = Some (Inr (t', hh'))"
    "table_rep ?hv hh' t' k' (insert e (fst ` set kvs))" "tb_items t' = tb_items ?t" "tb_tail t' = tb_tail ?t" by auto
  let ?s = "s1\<lparr>uh_hashv := ?hv, uh_tbl := Some t', uh_hh := hh'\<rparr>"
  have "HASH_ADD_KEYPTR fcn s ky e = Some (Inr ?s)"
    by (simp add: HASH_ADD_KEYPTR_def a(1,7,8) b(1))
  moreover have "hash_rep fcn ?s (kvs @ [(e, ky)])"
  proof -
    have img: "fst ` set (kvs @ [(e, ky)]) = insert e (fst ` set kvs)" by auto
    have "x \<noteq> e" if "(x, j) \<in> set kvs" for x j using that assms(2) by force
    then have items: "\<forall>(x, j) \<in> set (kvs @ [(e, ky)]). length j < 2 ^ 32 \<and> uh_key ?s x = j \<and> uh_keylen ?s x = klen j \<and> uh_hashv ?s x = fcn j"
      using hash_rep_item [OF assms(1)] assms(5) a(9,10) by auto
    have dist: "distinct (map fst (kvs @ [(e, ky)]))" "distinct (map snd (kvs @ [(e, ky)]))"
      using assms(1-3) by (auto simp: hash_rep_def)
    have "tb_items t' = of_nat (length (kvs @ [(e, ky)]))" using b(3) a(4) by simp
    with img b(2,4) a(2,3) have tab: "uh_tbl ?s = Some t' \<and> chain (uh_app ?s) (uh_head ?s) (map fst (kvs @ [(e, ky)])) \<and>
        tb_tail t' = Some (last (map fst (kvs @ [(e, ky)]))) \<and> tb_items t' = of_nat (length (kvs @ [(e, ky)])) \<and>
        table_rep (uh_hashv ?s) (uh_hh ?s) t' k' (fst ` set (kvs @ [(e, ky)]))" by simp
    have ne: "kvs @ [(e, ky)] \<noteq> []" and len: "length (kvs @ [(e, ky)]) < 2 ^ 32" using assms(6) by simp_all
    show ?thesis unfolding hash_rep_def if_not_P [OF ne] using items dist tab len by blast
  qed
  ultimately show ?thesis by blast
qed

subsection \<open>Deleting\<close>

lemma without_split:
  assumes "distinct (map fst (us @ (e, k) # vs))"
  shows "without e (us @ (e, k) # vs) = us @ vs"
proof -
  have "x \<noteq> e" if "(x, j) \<in> set us \<union> set vs" for x j using assms that by force
  then have "filter (\<lambda>(x, k). x \<noteq> e) us = us" "filter (\<lambda>(x, k). x \<noteq> e) vs = vs"
    by (auto intro!: filter_True)
  then show ?thesis by (simp add: without_def)
qed

lemma HASH_DEL_IN_BKT_holds:
  assumes "table_rep hv hh t k S" and "e \<in> S"
  shows "\<exists>t' hh'. HASH_DEL_IN_BKT t hh (HASH_TO_BKT (hv e) (tb_num t)) e = Inr (t', hh') \<and>
    table_rep hv hh' t' k (S - {e}) \<and> tb_items t' = tb_items t \<and> tb_tail t' = tb_tail t \<and> tb_num t' = tb_num t"
proof -
  define b where "b = unat (hv e) mod 2 ^ k"
  from assms(1) have t: "tb_num t = 2 ^ k" "tb_log2 t = of_nat k" "k < 32" "buckets_rep hv hh (tb_buckets t) k S"
    by (simp_all add: table_rep_def)
  have len: "b < length (tb_buckets t)" using t(4) by (simp add: b_def buckets_rep_def)
  have hb: "HASH_TO_BKT (hv e) (tb_num t) = b" by (simp only: t(1) to_bkt_mod b_def)
  let ?bk = "tb_buckets t ! b"
  let ?bk' = "\<lparr>bk_head = (if bk_head ?bk = Some e then d_next hh e else bk_head ?bk),
      bk_count = bk_count ?bk - 1, bk_mult = bk_mult ?bk\<rparr>"
  have "HASH_DEL_IN_BKT t hh (HASH_TO_BKT (hv e) (tb_num t)) e =
      Inr (t\<lparr>tb_buckets := (tb_buckets t)[b := ?bk']\<rparr>, chain_unlink e hh)"
    unfolding HASH_DEL_IN_BKT_def hb bucket_at_def Let_def using len by (cases ?bk) simp
  with bucket_unlink [OF t(4) assms(2) b_def, of "bk_mult ?bk"] t show ?thesis by (simp add: table_rep_def)
qed

lemma HASH_DELETE_holds:
  assumes "hash_rep fcn s kvs" and "(e, ky) \<in> set kvs"
  shows "\<exists>s'. HASH_DELETE s e = Inr s' \<and> hash_rep fcn s' (without e kvs) \<and> (bkt_room s \<longrightarrow> bkt_room s')"
proof -
  from assms(2) obtain us vs where s: "kvs = us @ (e, ky) # vs" by (auto dest: split_list)
  have df: "distinct (map fst kvs)" "distinct (map snd kvs)" "length kvs < 2 ^ 32" using assms(1) by (simp_all add: hash_rep_def)
  have wo: "without e kvs = us @ vs" using without_split df(1) s by metis
  have "kvs \<noteq> []" using s by simp
  from hash_repE [OF assms(1) this] obtain t k where t: "uh_tbl s = Some t" "table_of s = Inr t"
    "chain (uh_app s) (uh_head s) (map fst kvs)" "uh_head s = Some (fst (hd kvs))"
    "tb_tail t = Some (last (map fst kvs))" "tb_items t = of_nat (length kvs)"
    "table_rep (uh_hashv s) (uh_hh s) t k (fst ` set kvs)" .
  have "chain (uh_app s) (uh_head s) (map fst us @ e # map fst vs)" using t(3) s by simp
  note cu = chain_unlink_holds [OF this]
  have prev: "d_prev (uh_app s) e = None \<longleftrightarrow> us = []" and nxt: "d_next (uh_app s) e = None \<longleftrightarrow> vs = []"
    using cu(2,3) by simp_all
  show ?thesis
  proof (cases "us = [] \<and> vs = []")
    case True
    with t(2) prev nxt have "HASH_DELETE s e = Inr (s\<lparr>uh_head := None, uh_tbl := None\<rparr>)" by (simp add: HASH_DELETE_def)
    moreover have "hash_rep fcn (s\<lparr>uh_head := None, uh_tbl := None\<rparr>) []" by (simp add: hash_rep_def)
    ultimately show ?thesis using True wo by (simp add: bkt_room_def)
  next
    case False
    let ?t = "if tb_tail t = Some e then t\<lparr>tb_tail := d_prev (uh_app s) e\<rparr> else t"
    have "table_rep (uh_hashv s) (uh_hh s) ?t k (fst ` set kvs)" using t(7) by (simp add: table_rep_def)
    moreover have "e \<in> fst ` set kvs" using s by simp
    ultimately obtain t' hh' where
      b: "HASH_DEL_IN_BKT ?t (uh_hh s) (HASH_TO_BKT (uh_hashv s e) (tb_num ?t)) e = Inr (t', hh')"
      "table_rep (uh_hashv s) hh' t' k (fst ` set kvs - {e})" "tb_items t' = tb_items ?t" "tb_tail t' = tb_tail ?t"
      "tb_num t' = tb_num ?t" using HASH_DEL_IN_BKT_holds by blast
    let ?s = "s\<lparr>uh_head := (if us = [] then d_next (uh_app s) e else uh_head s), uh_app := chain_unlink e (uh_app s),
        uh_hh := hh', uh_tbl := Some (t'\<lparr>tb_items := tb_items t' - 1\<rparr>)\<rparr>"
    have c: "\<not> (us = [] \<and> d_next (uh_app s) e = None)" using False nxt by blast
    have "HASH_DELETE s e = Inr ?s"
      unfolding HASH_DELETE_def t(2) bind_res_simps if_not_P [OF c] Let_def prev
      using b(1) by (simp del: if_split)
    moreover have "hash_rep fcn ?s (us @ vs)"
    proof -
      let ?t' = "t'\<lparr>tb_items := tb_items t' - 1\<rparr>"
      have img: "fst ` set kvs - {e} = fst ` set (us @ vs)" using s df(1) by auto
      have tl: "tb_tail t' = Some (last (map fst (us @ vs)))"
      proof (cases "vs = []")
        case True
        with False t(5) s cu(2) b(4) show ?thesis by simp
      next
        case vs: False
        have "last (map fst kvs) = last (map fst vs)" using s vs by simp
        moreover have "last (map fst vs) \<in> set (map fst vs)" by (rule last_in_set) (use vs in simp)
        moreover have "e \<notin> set (map fst vs)" using df(1) s by simp
        ultimately have "last (map fst kvs) \<noteq> e" by metis
        with t(5) b(4) vs s show ?thesis by simp
      qed
      have it: "tb_items ?t' = of_nat (length (us @ vs))" using b(3) t(6) s by simp
      have "chain (uh_app ?s) (uh_head ?s) (map fst (us @ vs))" using cu(1) by simp
      moreover have "table_rep (uh_hashv ?s) (uh_hh ?s) ?t' k (fst ` set (us @ vs))"
        using b(2) img by (simp add: table_rep_def)
      ultimately have tab: "uh_tbl ?s = Some ?t' \<and> chain (uh_app ?s) (uh_head ?s) (map fst (us @ vs)) \<and>
          tb_tail ?t' = Some (last (map fst (us @ vs))) \<and> tb_items ?t' = of_nat (length (us @ vs)) \<and>
          table_rep (uh_hashv ?s) (uh_hh ?s) ?t' k (fst ` set (us @ vs))" using tl it by simp
      have dist: "distinct (map fst (us @ vs))" "distinct (map snd (us @ vs))" "length (us @ vs) < 2 ^ 32"
        using df s by auto
      have items: "\<forall>(x, j) \<in> set (us @ vs). length j < 2 ^ 32 \<and> uh_key ?s x = j \<and> uh_keylen ?s x = klen j \<and> uh_hashv ?s x = fcn j"
        using hash_rep_item [OF assms(1)] s by auto
      have ne: "us @ vs \<noteq> []" using False by simp
      show ?thesis unfolding hash_rep_def if_not_P [OF ne] using items dist tab by blast
    qed
    moreover have "bkt_room s \<longrightarrow> bkt_room ?s" using b(5) t(1) by (simp add: bkt_room_def)
    ultimately show ?thesis using wo by auto
  qed
qed

section \<open>What a client relies on\<close>

definition without_key :: "bytes \<Rightarrow> items \<Rightarrow> items" where
  "without_key ky kvs = filter (\<lambda>(x, k). k \<noteq> ky) kvs"

lemma without_lookup:
  assumes "distinct (map fst kvs)" and "distinct (map snd kvs)"
  shows "without_key ky kvs = (case lookup kvs ky of None \<Rightarrow> kvs | Some x \<Rightarrow> without x kvs)"
proof (cases "lookup kvs ky")
  case None
  then have "\<forall>(x, k) \<in> set kvs. k \<noteq> ky" by (force simp: lookup_notin)
  with None show ?thesis by (auto simp: without_key_def intro: filter_True)
next
  case (Some x)
  then have x: "(x, ky) \<in> set kvs" by (simp add: lookup_in [OF assms(2)])
  have "(k \<noteq> ky) = (y \<noteq> x)" if "(y, k) \<in> set kvs" for y k
    using item_unique [OF assms that x] by simp
  then have "without_key ky kvs = without x kvs" unfolding without_key_def without_def by (intro filter_cong) auto
  with Some show ?thesis by simp
qed

locale keyed_table =
  fixes rep :: "'s \<Rightarrow> items \<Rightarrow> bool"
    and free :: "'s \<Rightarrow> bool"
    and findk :: "'s \<Rightarrow> bytes \<Rightarrow> ptr option res option"
    and addk :: "'s \<Rightarrow> bytes \<Rightarrow> ptr \<Rightarrow> 's res option"
    and delk :: "'s \<Rightarrow> ptr \<Rightarrow> 's res"
  assumes rep_keys: "rep s kvs \<Longrightarrow> distinct (map fst kvs) \<and> distinct (map snd kvs)"
    and find_law: "rep s kvs \<Longrightarrow> length ky < 2 ^ 32 \<Longrightarrow> findk s ky = Some (Inr (lookup kvs ky))"
    and add_law: "rep s kvs \<Longrightarrow> e \<notin> fst ` set kvs \<Longrightarrow> ky \<notin> snd ` set kvs \<Longrightarrow> free s \<Longrightarrow> length ky < 2 ^ 32 \<Longrightarrow>
      length kvs + 1 < 2 ^ 32 \<Longrightarrow> \<exists>s'. addk s ky e = Some (Inr s') \<and> rep s' (kvs @ [(e, ky)])"
    and del_law: "rep s kvs \<Longrightarrow> (e, ky) \<in> set kvs \<Longrightarrow>
      \<exists>s'. delk s e = Inr s' \<and> rep s' (without e kvs) \<and> (free s \<longrightarrow> free s')"
begin

lemma replace_law:
  assumes "rep s kvs" and "e \<notin> fst ` set kvs" and "free s" and "length ky < 2 ^ 32" and "length kvs + 1 < 2 ^ 32"
  shows "\<exists>s'. (do { r \<leftarrow> findk s ky;
        case r of
          Inl f \<Rightarrow> Some (Inl f)
        | Inr replaced \<Rightarrow>
            (case (case replaced of None \<Rightarrow> Inr s | Some e \<Rightarrow> delk s e) of
               Inl f \<Rightarrow> Some (Inl f)
             | Inr s \<Rightarrow> do { r \<leftarrow> addk s ky e; Some (bind_res r (\<lambda>s. Inr (s, replaced))) }) }) =
      Some (Inr (s', lookup kvs ky)) \<and> rep s' (without_key ky kvs @ [(e, ky)])"
proof -
  from rep_keys [OF assms(1)] have d: "distinct (map fst kvs)" "distinct (map snd kvs)" by simp_all
  note f = find_law [OF assms(1,4)]
  show ?thesis
  proof (cases "lookup kvs ky")
    case None
    then have "ky \<notin> snd ` set kvs" by (simp add: lookup_notin)
    from add_law [OF assms(1,2) this assms(3-5)] f None show ?thesis by (auto simp: without_lookup [OF d])
  next
    case (Some x)
    then have x: "(x, ky) \<in> set kvs" by (simp add: lookup_in [OF d(2)])
    from del_law [OF assms(1) x] assms(3) obtain s1 where
      s1: "delk s x = Inr s1" "rep s1 (without x kvs)" "free s1" by blast
    have w: "without x kvs = without_key ky kvs" using Some by (simp add: without_lookup [OF d])
    have "ky \<notin> snd ` set (without x kvs)" unfolding w by (auto simp: without_key_def)
    moreover have "e \<notin> fst ` set (without x kvs)" using assms(2) by (auto simp: without_def)
    moreover have "length (without x kvs) + 1 < 2 ^ 32"
      using assms(5) length_filter_le [of "\<lambda>(y, k). y \<noteq> x" kvs] unfolding without_def by linarith
    ultimately obtain s2 where "addk s1 ky e = Some (Inr s2)" "rep s2 (without x kvs @ [(e, ky)])"
      using add_law [OF s1(2) _ _ s1(3) assms(4)] by blast
    then show ?thesis using f Some s1(1) w by simp
  qed
qed

end

interpretation kt: keyed_table "hash_rep fcn" bkt_room "HASH_FIND fcn" "HASH_ADD_KEYPTR fcn" HASH_DELETE for fcn
proof unfold_locales
  show "distinct (map fst kvs) \<and> distinct (map snd kvs)" if "hash_rep fcn s kvs" for s kvs
    using that by (simp add: hash_rep_def)
qed (rule HASH_FIND_holds HASH_ADD_KEYPTR_holds HASH_DELETE_holds; assumption)+

lemma HASH_REPLACE_holds:
  assumes "hash_rep fcn s kvs" and "e \<notin> fst ` set kvs" and "bkt_room s" and "length ky < 2 ^ 32" and "length kvs + 1 < 2 ^ 32"
  shows "\<exists>s'. HASH_REPLACE fcn s ky e = Some (Inr (s', lookup kvs ky)) \<and> hash_rep fcn s' (without_key ky kvs @ [(e, ky)])"
  unfolding HASH_REPLACE_def by (rule kt.replace_law [OF assms])

lemma HASH_CNT_holds:
  assumes "hash_rep fcn s kvs"
  shows "HASH_CNT s = Inr (of_nat (length kvs))"
proof (cases "kvs = []")
  case True
  with assms show ?thesis by (simp add: HASH_CNT_def hash_rep_def)
next
  case False
  from hash_repE [OF assms False] obtain t k where "table_of s = Inr t" "uh_head s = Some (fst (hd kvs))"
    "tb_items t = of_nat (length kvs)" .
  then show ?thesis by (simp add: HASH_CNT_def)
qed

lemma HASH_CLEAR_holds:
  assumes "hash_rep fcn s kvs"
  shows "\<exists>s'. HASH_CLEAR s = Inr s' \<and> hash_rep fcn s' []"
proof (cases "kvs = []")
  case True
  with assms show ?thesis by (auto simp: HASH_CLEAR_def hash_rep_def)
next
  case False
  from hash_repE [OF assms False] obtain t k where "table_of s = Inr t" "uh_head s = Some (fst (hd kvs))" .
  then show ?thesis by (simp add: HASH_CLEAR_def hash_rep_def)
qed

end
