(* ===== verification/Uthash_Check.thy ===== *)
theory Uthash_Check
  imports Uthash_Rep
begin

text \<open>
  Over the table of \<open>Uthash\<close>: the check of consistency that \<open>HASH_DEBUG\<close> turns on, walking while
  deleting, the selection of elements into a second table and the Bloom filter.
\<close>

section \<open>The check of consistency\<close>

text \<open>\<open>HASH_FSCK\<close> ends the program when something is wrong. Both of its walks are this loop.\<close>

partial_function (option) fsck_chain ::
  "dlinks \<Rightarrow> ptr option \<Rightarrow> ptr option \<Rightarrow> 32 word \<Rightarrow> 32 word res option" where
  "fsck_chain s thh prev num =
     (case thh of
        None \<Rightarrow> Some (Inr num)
      | Some e \<Rightarrow>
          if prev \<noteq> d_prev s e then Some (Inl Fatal) else fsck_chain s (d_next s e) (Some e) (num + 1))"

fun fsck_buckets :: "ut_table \<Rightarrow> dlinks \<Rightarrow> nat list \<Rightarrow> 32 word \<Rightarrow> 32 word res option" where
  "fsck_buckets t hh [] num = Some (Inr num)"
| "fsck_buckets t hh (i # is) num =
     (case bucket_at t i of
        Inl f \<Rightarrow> Some (Inl f)
      | Inr bk \<Rightarrow>
          do { r \<leftarrow> fsck_chain hh (bk_head bk) None 0;
               case r of
                 Inl f \<Rightarrow> Some (Inl f)
               | Inr bkt_count \<Rightarrow>
                   if bk_count bk \<noteq> bkt_count then Some (Inl Fatal)
                   else fsck_buckets t hh is (num + bkt_count) })"

definition HASH_FSCK :: "ut_hash \<Rightarrow> unit res option" where
  "HASH_FSCK s =
     (if uh_head s = None then Some (Inr ())
      else case table_of s of
          Inl f \<Rightarrow> Some (Inl f)
        | Inr t \<Rightarrow>
            do { r \<leftarrow> fsck_buckets t (uh_hh s) [0..<unat (tb_num t)] 0;
                 case r of
                   Inl f \<Rightarrow> Some (Inl f)
                 | Inr num \<Rightarrow>
                     if num \<noteq> tb_items t then Some (Inl Fatal)
                     else do { r \<leftarrow> fsck_chain (uh_app s) (uh_head s) None 0;
                               Some (bind_res r (\<lambda>num. if num \<noteq> tb_items t then Inl Fatal else Inr ())) } })"

lemma fsck_chain_holds:
  "llist (d_next s) h ys \<Longrightarrow> pchain s prev ys \<Longrightarrow> fsck_chain s h prev n = Some (Inr (n + of_nat (length ys)))"
proof (induction ys arbitrary: h prev n)
  case Nil
  then show ?case by (simp add: fsck_chain.simps)
next
  case (Cons e ys)
  then show ?case by (simp add: fsck_chain.simps [of s "Some e"] add.assoc)
qed

lemma fsck_buckets_holds:
  assumes "\<And>i. i \<in> set is \<Longrightarrow> i < length (tb_buckets t) \<and> bucket_rep hh (tb_buckets t ! i) (yss i)"
  shows "fsck_buckets t hh is n = Some (Inr (n + of_nat (\<Sum>i \<leftarrow> is. length (yss i))))"
  using assms
proof (induction "is" arbitrary: n)
  case (Cons i "is")
  then have "i < length (tb_buckets t)" "chain hh (bk_head (tb_buckets t ! i)) (yss i)"
    "bk_count (tb_buckets t ! i) = of_nat (length (yss i))" by (auto simp: bucket_rep_def)
  moreover from this(2) have "fsck_chain hh (bk_head (tb_buckets t ! i)) None 0 = Some (Inr (0 + of_nat (length (yss i))))"
    by (intro fsck_chain_holds) (auto simp: chain_def)
  ultimately show ?case using Cons by (simp add: bucket_at_def add.assoc)
qed simp

text \<open>Every bucket has its share of the elements, none is in two.\<close>

lemma bucket_lengths:
  assumes "finite S" and "\<And>b. b < n \<Longrightarrow> distinct (yss b) \<and> set (yss b) = {x \<in> S. f x = b}" and "\<And>x. x \<in> S \<Longrightarrow> f x < (n :: nat)"
  shows "(\<Sum>i \<leftarrow> [0..<n]. length (yss i)) = card S"
proof -
  have "length (yss b) = (\<Sum>x \<in> {x \<in> S. f x = b}. 1)" if "b < n" for b
    using assms(2) [OF that] by (metis card_eq_sum distinct_card)
  then have "(\<Sum>i \<leftarrow> [0..<n]. length (yss i)) = (\<Sum>b \<in> {..<n}. \<Sum>x \<in> {x \<in> S. f x = b}. 1)"
    by (simp add: interv_sum_list_conv_sum_set_nat atLeast0LessThan)
  also have "\<dots> = (\<Sum>x \<in> S. 1)" by (rule sum.group) (use assms(1,3) in auto)
  finally show ?thesis by simp
qed

lemma HASH_FSCK_holds:
  assumes "hash_rep fcn s kvs"
  shows "HASH_FSCK s = Some (Inr ())"
proof (cases "kvs = []")
  case True
  with assms show ?thesis by (simp add: HASH_FSCK_def hash_rep_def)
next
  case False
  from hash_repE [OF assms False] obtain t k where t: "uh_tbl s = Some t" "table_of s = Inr t"
    "chain (uh_app s) (uh_head s) (map fst kvs)" "uh_head s = Some (fst (hd kvs))"
    "tb_tail t = Some (last (map fst kvs))" "tb_items t = of_nat (length kvs)"
    "table_rep (uh_hashv s) (uh_hh s) t k (fst ` set kvs)" .
  from t(7) have tb: "tb_num t = 2 ^ k" "k < 32" "length (tb_buckets t) = 2 ^ k"
    "\<forall>b \<in> {..<2 ^ k}. \<exists>ys. bucket_rep (uh_hh s) (tb_buckets t ! b) ys \<and> set ys = {x \<in> fst ` set kvs. unat (uh_hashv s x) mod 2 ^ k = b}"
    by (auto simp: table_rep_def buckets_rep_def)
  from bchoice [OF tb(4)] obtain yss where yss: "\<And>b. b < 2 ^ k \<Longrightarrow> bucket_rep (uh_hh s) (tb_buckets t ! b) (yss b)"
    "\<And>b. b < 2 ^ k \<Longrightarrow> set (yss b) = {x \<in> fst ` set kvs. unat (uh_hashv s x) mod 2 ^ k = b}" by auto
  have "distinct (yss b)" if "b < 2 ^ k" for b using yss(1) [OF that] by (auto simp: bucket_rep_def dest: chain_distinct)
  then have "(\<Sum>i \<leftarrow> [0..<2 ^ k]. length (yss i)) = card (fst ` set kvs)"
    by (intro bucket_lengths [where f = "\<lambda>x. unat (uh_hashv s x) mod 2 ^ k"]) (use yss(2) in auto)
  also have "\<dots> = length kvs"
    using assms by (metis distinct_card hash_rep_def length_map list.set_map)
  finally have n: "(\<Sum>i \<leftarrow> [0..<2 ^ k]. length (yss i)) = length kvs" .
  have "fsck_buckets t (uh_hh s) [0..<2 ^ k] 0 = Some (Inr (0 + of_nat (\<Sum>i \<leftarrow> [0..<2 ^ k]. length (yss i))))"
    by (rule fsck_buckets_holds) (use yss(1) tb(3) in auto)
  then have b: "fsck_buckets t (uh_hh s) [0..<unat (tb_num t)] 0 = Some (Inr (tb_items t))"
    by (simp only: n t(6) tb(1) unat_two_power [OF tb(2)] add_0)
  have "fsck_chain (uh_app s) (uh_head s) None 0 = Some (Inr (tb_items t))"
    using t(3,6) fsck_chain_holds [of "uh_app s" "uh_head s" "map fst kvs" None 0] by (simp add: chain_def)
  with b t(2,4) show ?thesis by (simp add: HASH_FSCK_def)
qed

section \<open>Walking while deleting\<close>

text \<open>The third element of a chain is behind the second.\<close>

definition front :: "items \<Rightarrow> ptr option" where
  "front vs = (if vs = [] then None else Some (fst (hd vs)))"

lemma rep_next:
  assumes "hash_rep fcn s (us @ vs)" and "front vs = Some t"
  shows "d_next (uh_app s) t = front (tl vs)"
proof -
  from assms(2) obtain w ws where vs: "vs = w # ws" "t = fst w" by (cases vs) (auto simp: front_def)
  then have "us @ vs \<noteq> []" by simp
  from hash_repE [OF assms(1) this] obtain tb j where "chain (uh_app s) (uh_head s) (map fst (us @ vs))" .
  then have "chain (uh_app s) (uh_head s) (map fst us @ fst w # map fst ws)" using vs by simp
  from chain_unlink_holds(3) [OF this] vs show ?thesis by (simp add: front_def list.map_sel)
qed

lemma rep_head:
  assumes "hash_rep fcn s kvs"
  shows "uh_head s = front kvs"
proof (cases "kvs = []")
  case False
  from hash_repE [OF assms False] obtain tb j where "uh_head s = Some (fst (hd kvs))" .
  with False show ?thesis by (simp add: front_def)
qed (use assms in \<open>simp add: front_def hash_rep_def\<close>)

text \<open>The body of a walk that deletes the elements with \<open>P\<close>.\<close>

definition delete_if :: "(ptr \<Rightarrow> bool) \<Rightarrow> ptr \<Rightarrow> ut_hash \<Rightarrow> ut_hash res" where
  "delete_if P e s = (if P e then HASH_DELETE s e else Inr s)"

lemma hash_iter_holds:
  "hash_rep fcn s (us @ vs) \<Longrightarrow>
    \<exists>s'. hash_iter (delete_if P) (front vs) (front (tl vs)) s = Some (Inr s') \<and>
      hash_rep fcn s' (us @ filter (\<lambda>(e, k). \<not> P e) vs)"
proof (induction vs arbitrary: us s)
  case Nil
  then show ?case by (simp add: hash_iter.simps front_def)
next
  case (Cons v vs)
  obtain e k where v: "v = (e, k)" by (cases v)
  have d: "distinct (map fst (us @ (e, k) # vs))" using Cons.prems v by (simp add: hash_rep_def)
  define us' where "us' = (if P e then us else us @ [(e, k)])"
  have "\<exists>s'. delete_if P e s = Inr s' \<and> hash_rep fcn s' (us' @ vs)"
  proof (cases "P e")
    case True
    have "(e, k) \<in> set (us @ v # vs)" using v by simp
    from HASH_DELETE_holds [OF Cons.prems this] obtain s' where
      "HASH_DELETE s e = Inr s'" "hash_rep fcn s' (without e (us @ v # vs))" by blast
    with True v without_split [OF d] show ?thesis by (simp add: us'_def delete_if_def)
  next
    case False
    with Cons.prems v show ?thesis by (simp add: us'_def delete_if_def)
  qed
  then obtain s' where s': "delete_if P e s = Inr s'" "hash_rep fcn s' (us' @ vs)" by blast
  have "(case front vs of None \<Rightarrow> None | Some t \<Rightarrow> d_next (uh_app s') t) = front (tl vs)"
    using rep_next [OF s'(2)] by (cases "front vs") (auto simp: front_def split: if_splits)
  moreover have "front (v # vs) = Some e" by (simp add: front_def v)
  ultimately have "hash_iter (delete_if P) (front (v # vs)) (front (tl (v # vs))) s = hash_iter (delete_if P) (front vs) (front (tl vs)) s'"
    using s'(1) by (simp add: hash_iter.simps [of _ "Some e"])
  moreover have "us' @ filter (\<lambda>(e, k). \<not> P e) vs = us @ filter (\<lambda>(e, k). \<not> P e) (v # vs)" by (simp add: us'_def v)
  ultimately show ?case using Cons.IH [OF s'(2)] by (simp only:)
qed

text \<open>A walk that deletes some elements visits all of them and leaves the others, in their order.\<close>

lemma HASH_ITER_deletes:
  assumes "hash_rep fcn s kvs"
  shows "\<exists>s'. HASH_ITER (delete_if P) s = Some (Inr s') \<and> hash_rep fcn s' (filter (\<lambda>(e, k). \<not> P e) kvs)"
proof -
  have "(case uh_head s of None \<Rightarrow> None | Some h \<Rightarrow> d_next (uh_app s) h) = front (tl kvs)"
    using rep_next [of fcn s "[]" kvs] rep_head [OF assms] assms
    by (cases "front kvs") (auto simp: front_def split: if_splits)
  then have "HASH_ITER (delete_if P) s = hash_iter (delete_if P) (front kvs) (front (tl kvs)) s"
    by (simp add: HASH_ITER_def rep_head [OF assms])
  with hash_iter_holds [of fcn s "[]" kvs P] assms show ?thesis by simp
qed

section \<open>Selecting into a second table\<close>

text \<open>
  \<open>HASH_SELECT\<close>: the elements of the first table with \<open>cond\<close>, bucket by bucket, are added to the
  second through their other handle. The state is the second table and the element added last.
\<close>

definition select_item ::
  "ut_hash \<Rightarrow> ptr \<Rightarrow> ut_hash \<times> ptr option \<Rightarrow> (ut_hash \<times> ptr option) res option" where
  "select_item src e = (\<lambda>(dst, prior).
     let app = set_next e None (set_prev e prior (uh_app dst));
         app = (case prior of Some l \<Rightarrow> set_next l (Some e) app | None \<Rightarrow> app);
         dst = dst\<lparr>uh_app := app, uh_key := (uh_key dst)(e := uh_key src e),
                   uh_keylen := (uh_keylen dst)(e := uh_keylen src e),
                   uh_hashv := (uh_hashv dst)(e := uh_hashv src e)\<rparr>;
         r = (if uh_head dst = None then Inr (dst\<lparr>uh_head := Some e\<rparr>, HASH_MAKE_TABLE e)
              else bind_res (table_of dst) (\<lambda>t. Inr (dst, t)))
     in case r of
          Inl f \<Rightarrow> Some (Inl f)
        | Inr (dst, t) \<Rightarrow>
            do { r \<leftarrow> HASH_ADD_TO_BKT (uh_hashv dst) t (uh_hh dst) (HASH_TO_BKT (uh_hashv dst e) (tb_num t)) e;
                 Some (bind_res r (\<lambda>(t, hh).
                   Inr (dst\<lparr>uh_hh := hh, uh_tbl := Some (t\<lparr>tb_items := tb_items t + 1\<rparr>)\<rparr>, Some e))) })"

partial_function (option) select_chain ::
  "(ptr \<Rightarrow> bool) \<Rightarrow> ut_hash \<Rightarrow> ptr option \<Rightarrow> ut_hash \<times> ptr option \<Rightarrow> (ut_hash \<times> ptr option) res option" where
  "select_chain cond src hh st =
     (case hh of
        None \<Rightarrow> Some (Inr st)
      | Some e \<Rightarrow>
          if cond e
          then do { r \<leftarrow> select_item src e st;
                    case r of
                      Inl f \<Rightarrow> Some (Inl f)
                    | Inr st \<Rightarrow> select_chain cond src (d_next (uh_hh src) e) st }
          else select_chain cond src (d_next (uh_hh src) e) st)"

fun select_buckets ::
  "(ptr \<Rightarrow> bool) \<Rightarrow> ut_hash \<Rightarrow> ut_table \<Rightarrow> nat list \<Rightarrow> ut_hash \<times> ptr option \<Rightarrow> (ut_hash \<times> ptr option) res option" where
  "select_buckets cond src t [] st = Some (Inr st)"
| "select_buckets cond src t (i # is) st =
     (case bucket_at t i of
        Inl f \<Rightarrow> Some (Inl f)
      | Inr bk \<Rightarrow>
          do { r \<leftarrow> select_chain cond src (bk_head bk) st;
               case r of Inl f \<Rightarrow> Some (Inl f) | Inr st \<Rightarrow> select_buckets cond src t is st })"

definition HASH_SELECT :: "(ptr \<Rightarrow> bool) \<Rightarrow> ut_hash \<Rightarrow> ut_hash \<Rightarrow> ut_hash res option" where
  "HASH_SELECT cond src dst =
     (if uh_head src = None then Some (Inr dst)
      else case table_of src of
          Inl f \<Rightarrow> Some (Inl f)
        | Inr t \<Rightarrow>
            do { r \<leftarrow> select_buckets cond src t [0..<unat (tb_num t)] (dst, None);
                 Some (bind_res r (\<lambda>(dst, prior). Inr dst)) })"

text \<open>
  What the second table is after \<open>xs\<close> were added: all that \<open>hash_rep\<close> asks for except the tail,
  which stays at the first of them.
\<close>

definition sel_rep :: "ut_hash \<Rightarrow> ut_hash \<Rightarrow> ptr option \<Rightarrow> ptr list \<Rightarrow> bool" where
  "sel_rep src dst prior xs \<longleftrightarrow>
     prior = (if xs = [] then None else Some (last xs)) \<and> chain (uh_app dst) (uh_head dst) xs \<and>
     (\<forall>x \<in> set xs. uh_key dst x = uh_key src x \<and> uh_keylen dst x = uh_keylen src x \<and> uh_hashv dst x = uh_hashv src x) \<and>
     (xs \<noteq> [] \<longrightarrow> (\<exists>t k. uh_tbl dst = Some t \<and> tb_tail t = Some (hd xs) \<and> tb_items t = of_nat (length xs) \<and>
        table_rep (uh_hashv dst) (uh_hh dst) t k (set xs)))"

lemma first_bucket:
  "\<exists>t hh'. HASH_ADD_TO_BKT hv (HASH_MAKE_TABLE e) hh (HASH_TO_BKT (hv e) 32) e = Some (Inr (t, hh')) \<and>
    table_rep hv hh' t 5 {e} \<and> tb_items t = 0 \<and> tb_tail t = Some e"
proof -
  define b where "b = unat (hv e) mod 2 ^ 5"
  have hb: "HASH_TO_BKT (hv e) 32 = b" using to_bkt_mod [of "hv e" 5] by (simp add: b_def)
  have b: "b < 32" by (simp add: b_def)
  have e: "buckets_rep hv hh (replicate 32 empty_bucket) 5 {}" using buckets_rep_empty [of hv hh 5] by simp
  let ?t = "(HASH_MAKE_TABLE e)\<lparr>tb_buckets := (replicate 32 empty_bucket)[b := \<lparr>bk_head = Some e, bk_count = 1, bk_mult = 0\<rparr>]\<rparr>"
  have "HASH_ADD_TO_BKT hv (HASH_MAKE_TABLE e) hh b e = Some (Inr (?t, chain_push e None hh))"
    using b by (simp add: HASH_ADD_TO_BKT_def HASH_MAKE_TABLE_def bucket_at_def Let_def word_le_nat_alt)
  moreover have "table_rep hv (chain_push e None hh) ?t 5 {e}"
    using bucket_push [OF e _ b_def, of 0] b by (simp add: table_rep_def HASH_MAKE_TABLE_def)
  ultimately show ?thesis unfolding hb by (simp add: HASH_MAKE_TABLE_def)
qed

lemma select_item_holds:
  assumes "sel_rep src dst prior xs" and "e \<notin> set xs" and "Suc (length xs) < 2 ^ 32" and "xs \<noteq> [] \<longrightarrow> bkt_room dst"
  shows "\<exists>dst'. select_item src e (dst, prior) = Some (Inr (dst', Some e)) \<and> sel_rep src dst' (Some e) (xs @ [e]) \<and>
    (xs = [] \<longrightarrow> bkt_room dst')"
proof (cases "xs = []")
  case True
  with assms(1) have h: "prior = None" "uh_head dst = None" by (auto simp: sel_rep_def chain_def)
  from first_bucket [of "(uh_hashv dst)(e := uh_hashv src e)" e "uh_hh dst"] obtain t hh where
    t: "HASH_ADD_TO_BKT ((uh_hashv dst)(e := uh_hashv src e)) (HASH_MAKE_TABLE e) (uh_hh dst) (HASH_TO_BKT (uh_hashv src e) 32) e =
      Some (Inr (t, hh))" "table_rep ((uh_hashv dst)(e := uh_hashv src e)) hh t 5 {e}" "tb_items t = 0" "tb_tail t = Some e"
    by auto
  have "tb_num (HASH_MAKE_TABLE e) = 32" by (simp add: HASH_MAKE_TABLE_def)
  moreover have "tb_num t = 32" using t(2) by (simp add: table_rep_def)
  ultimately show ?thesis using t h True
    by (auto simp: select_item_def sel_rep_def chain_def table_rep_def bkt_room_def intro!: exI [of _ "5 :: nat"])
next
  case False
  with assms(1) obtain t k where t: "prior = Some (last xs)" "chain (uh_app dst) (uh_head dst) xs" "uh_tbl dst = Some t"
    "tb_tail t = Some (hd xs)" "tb_items t = of_nat (length xs)" "table_rep (uh_hashv dst) (uh_hh dst) t k (set xs)"
    "\<forall>x \<in> set xs. uh_key dst x = uh_key src x \<and> uh_keylen dst x = uh_keylen src x \<and> uh_hashv dst x = uh_hashv src x"
    by (auto simp: sel_rep_def)
  have hd: "uh_head dst = Some (hd xs)" using chain_head [OF t(2)] False by simp
  let ?hv = "(uh_hashv dst)(e := uh_hashv src e)"
  have "buckets_rep (uh_hashv dst) (uh_hh dst) (tb_buckets t) k (set xs) = buckets_rep ?hv (uh_hh dst) (tb_buckets t) k (set xs)"
    by (rule buckets_rep_cong) (use assms(2) in auto)
  with t(6) have rep: "table_rep ?hv (uh_hh dst) t k (set xs)" by (simp add: table_rep_def)
  have num: "tb_num t \<le> 2 ^ 30" using assms(4) False t(3) by (simp add: bkt_room_def)
  have items: "tb_items t \<noteq> 0" unfolding t(5) by (rule of_nat_32_nonzero) (use False assms(3) in auto)
  from HASH_ADD_TO_BKT_holds [OF rep assms(2) num items] obtain t' hh' k' where
    b: "HASH_ADD_TO_BKT ?hv t (uh_hh dst) (HASH_TO_BKT (uh_hashv src e) (tb_num t)) e = Some (Inr (t', hh'))"
    "table_rep ?hv hh' t' k' (insert e (set xs))" "tb_items t' = tb_items t" "tb_tail t' = tb_tail t" by auto
  let ?app = "set_next (last xs) (Some e) (set_next e None (set_prev e (Some (last xs)) (uh_app dst)))"
  have eq: "?app = set_prev e (Some (last xs)) (set_next (last xs) (Some e) (set_next e None (uh_app dst)))"
    by (simp add: set_next_def set_prev_def)
  have c: "chain ?app (uh_head dst) (xs @ [e])" unfolding eq by (rule chain_add_last [OF t(2) assms(2) False])
  let ?dst = "dst\<lparr>uh_app := ?app, uh_key := (uh_key dst)(e := uh_key src e), uh_keylen := (uh_keylen dst)(e := uh_keylen src e),
      uh_hashv := ?hv, uh_hh := hh', uh_tbl := Some (t'\<lparr>tb_items := tb_items t' + 1\<rparr>)\<rparr>"
  have "select_item src e (dst, prior) = Some (Inr (?dst, Some e))"
    using t(1,3) hd b(1) by (simp add: select_item_def table_of_def)
  moreover have "sel_rep src ?dst (Some e) (xs @ [e])"
    unfolding sel_rep_def
  proof (intro conjI)
    show "\<forall>x \<in> set (xs @ [e]). uh_key ?dst x = uh_key src x \<and> uh_keylen ?dst x = uh_keylen src x \<and> uh_hashv ?dst x = uh_hashv src x"
      using t(7) by simp
    show "xs @ [e] \<noteq> [] \<longrightarrow> (\<exists>t k. uh_tbl ?dst = Some t \<and> tb_tail t = Some (hd (xs @ [e])) \<and>
        tb_items t = of_nat (length (xs @ [e])) \<and> table_rep (uh_hashv ?dst) (uh_hh ?dst) t k (set (xs @ [e])))"
      using b(2-4) t(4,5) False by (auto simp: table_rep_def)
  qed (use c in simp_all)
  ultimately show ?thesis using False by blast
qed

text \<open>
  After two elements were selected the tail is the first of them. An element that is then
  added takes the place of the second one: a walk does not come to it any more.
\<close>

lemma select_then_add_loses:
  assumes "uh_head dst = None" and "a \<noteq> b" and "c \<noteq> a" and "c \<noteq> b"
  shows "\<exists>d1 d2. select_item src a (dst, None) = Some (Inr (d1, Some a)) \<and>
    select_item src b (d1, Some a) = Some (Inr (d2, Some b)) \<and> chain (uh_app d2) (uh_head d2) [a, b] \<and>
    (\<forall>d3. HASH_ADD_KEYPTR fcn d2 ky c = Some (Inr d3) \<longrightarrow> llist (d_next (uh_app d3)) (uh_head d3) [a, c])"
proof -
  have "sel_rep src dst None []" using assms(1) by (simp add: sel_rep_def chain_def)
  from select_item_holds [OF this, of a] obtain d1 where
    d1: "select_item src a (dst, None) = Some (Inr (d1, Some a))" "sel_rep src d1 (Some a) [a]" "bkt_room d1" by auto
  from select_item_holds [OF d1(2), of b] d1(3) assms(2) obtain d2 where
    d2: "select_item src b (d1, Some a) = Some (Inr (d2, Some b))" "sel_rep src d2 (Some b) [a, b]" by auto
  from d2(2) obtain t k where t: "chain (uh_app d2) (uh_head d2) [a, b]" "uh_tbl d2 = Some t" "tb_tail t = Some a"
    by (auto simp: sel_rep_def)
  then have h: "uh_head d2 = Some a" by (simp add: chain_def)
  have "llist (d_next (uh_app d3)) (uh_head d3) [a, c]" if r: "HASH_ADD_KEYPTR fcn d2 ky c = Some (Inr d3)" for d3
  proof -
    from r h t(2,3) have "uh_app d3 = set_prev c (Some a) (set_next a (Some c) (set_next c None (uh_app d2)))" "uh_head d3 = Some a"
      by (auto simp: HASH_ADD_KEYPTR_def add_last_def table_of_def Let_def bind_eq_Some_conv bind_res_eq_Inr)
    then show ?thesis using assms(3) by simp
  qed
  with d1(1) d2(1) t(1) show ?thesis by blast
qed

section \<open>The Bloom filter\<close>

text \<open>\<open>HASH_BLOOM\<close> bits, \<open>nbits\<close> its logarithm; \<open>bv\<close> is the vector of bytes.\<close>

definition bloom_index :: "nat \<Rightarrow> hashv \<Rightarrow> nat" where
  "bloom_index nbits hashv = unat (hashv AND (word_of_nat ((2 ^ nbits - 1) mod 2 ^ 32)))"

definition HASH_BLOOM_MAKE :: "nat \<Rightarrow> 8 word list" where
  "HASH_BLOOM_MAKE nbits = replicate (2 ^ nbits div 8 + (if 2 ^ nbits mod 8 \<noteq> (0 :: nat) then 1 else 0)) 0"

definition HASH_BLOOM_BITSET :: "8 word list \<Rightarrow> nat \<Rightarrow> 8 word list res" where
  "HASH_BLOOM_BITSET bv idx =
     (if idx div 8 < length bv then Inr (bv[idx div 8 := bv ! (idx div 8) OR push_bit (idx mod 8) 1]) else Inl Out_of_bounds)"

definition HASH_BLOOM_BITTEST :: "8 word list \<Rightarrow> nat \<Rightarrow> bool res" where
  "HASH_BLOOM_BITTEST bv idx =
     (if idx div 8 < length bv then Inr (bv ! (idx div 8) AND push_bit (idx mod 8) 1 \<noteq> 0) else Inl Out_of_bounds)"

definition HASH_BLOOM_ADD :: "nat \<Rightarrow> 8 word list \<Rightarrow> hashv \<Rightarrow> 8 word list res" where
  "HASH_BLOOM_ADD nbits bv hashv = HASH_BLOOM_BITSET bv (bloom_index nbits hashv)"

definition HASH_BLOOM_TEST :: "nat \<Rightarrow> 8 word list \<Rightarrow> hashv \<Rightarrow> bool res" where
  "HASH_BLOOM_TEST nbits bv hashv = HASH_BLOOM_BITTEST bv (bloom_index nbits hashv)"

lemma bloom_in_range: "nbits \<le> 32 \<Longrightarrow> bloom_index nbits hashv div 8 < length (HASH_BLOOM_MAKE nbits)"
proof -
  assume n: "nbits \<le> 32"
  have "(2 :: nat) ^ nbits \<le> 2 ^ 32" using n by (rule power_increasing) simp
  then have "(2 ^ nbits - 1) mod 2 ^ 32 = (2 :: nat) ^ nbits - 1" by (intro mod_less) simp
  moreover have "(word_of_nat (2 ^ nbits - 1) :: hashv) = 2 ^ nbits - 1"
    using of_nat_diff [of 1 "2 ^ nbits", where ?'a = hashv] by simp
  ultimately have "bloom_index nbits hashv = unat hashv mod 2 ^ nbits"
    by (simp only: bloom_index_def unat_low_bits)
  then have lt: "bloom_index nbits hashv < 2 ^ nbits" by simp
  have "a div 8 < b div 8 + (if b mod 8 \<noteq> 0 then 1 else 0)" if "a < b" for a b :: nat
  proof -
    have "a = 8 * (a div 8) + a mod 8" "b = 8 * (b div 8) + b mod 8" "a mod 8 < 8" "b mod 8 < 8" by simp_all
    with that have "b mod 8 = 0 \<Longrightarrow> a div 8 < b div 8" "a div 8 < b div 8 + 1" by linarith+
    then show ?thesis by (simp only: add_0_right split: if_split) blast
  qed
  from this [OF lt] show ?thesis unfolding HASH_BLOOM_MAKE_def length_replicate .
qed

lemma bit_test: "w AND 2 ^ n = 0 \<longleftrightarrow> \<not> bit w n" if "n < 8" for w :: "8 word"
proof -
  have "w AND 2 ^ n = (if bit w n then 2 ^ n else 0)"
    by (rule bit_eqI) (auto simp: bit_simps)
  moreover have "(2 :: 8 word) ^ n \<noteq> 0"
  proof
    have b: "bit (2 ^ n :: 8 word) n" using that by (simp add: bit_simps)
    assume "(2 :: 8 word) ^ n = 0"
    from b [unfolded this] show False by simp
  qed
  ultimately show ?thesis by simp
qed

text \<open>A value that was added is found, and adding another one does not change that.\<close>

lemma bloom_found:
  assumes "nbits \<le> 32" and "length bv = length (HASH_BLOOM_MAKE nbits)"
  shows "\<exists>bv'. HASH_BLOOM_ADD nbits bv h = Inr bv' \<and> length bv' = length bv \<and> HASH_BLOOM_TEST nbits bv' h = Inr True \<and>
    (HASH_BLOOM_TEST nbits bv g = Inr True \<longrightarrow> HASH_BLOOM_TEST nbits bv' g = Inr True)"
proof -
  have i: "bloom_index nbits x div 8 < length bv" for x using bloom_in_range [OF assms(1)] assms(2) by simp
  have m: "j mod 8 < 8" for j :: nat by simp
  show ?thesis using i
    by (auto simp: HASH_BLOOM_ADD_def HASH_BLOOM_TEST_def HASH_BLOOM_BITSET_def HASH_BLOOM_BITTEST_def bit_test [OF m]
        nth_list_update bit_simps)
qed

end
