(* ===== verification/Uthash_Sort.thy ===== *)
theory Uthash_Sort
  imports Uthash_Check
begin

text \<open>
  Sorting the table of \<open>Uthash\<close> (\<open>HASH_SRT\<close>), and what all of its operations together do to the
  sequence of elements it represents.
\<close>

section \<open>Sorting\<close>

text \<open>
  \<open>HASH_SRT\<close> is the merge sort of \<open>utlist.h\<close> over the handles; here \<open>p\<close> may be null where the
  other runs out first, and the head has no predecessor.
\<close>

definition hs_link :: "ptr option \<Rightarrow> ptr option \<Rightarrow> ptr option \<Rightarrow> dlinks \<Rightarrow> dlinks \<times> ptr option" where
  "hs_link list tail e s =
     (let s = (case tail of Some t \<Rightarrow> set_next t e s | None \<Rightarrow> s);
          list = (if tail = None then e else list);
          s = (case e of Some p \<Rightarrow> set_prev p tail s | None \<Rightarrow> s)
      in (s, list))"

function hs_merge ::
  "(ptr \<Rightarrow> ptr \<Rightarrow> int) \<Rightarrow> nat \<Rightarrow> ptr option \<Rightarrow> nat \<Rightarrow> ptr option \<Rightarrow>
   dlinks \<Rightarrow> ptr option \<Rightarrow> ptr option \<Rightarrow> (dlinks \<times> ptr option \<times> ptr option \<times> ptr option) res" where
  "hs_merge cmp psize p qsize q s list tail =
     (if psize > 0 \<or> (qsize > 0 \<and> q \<noteq> None)
      then
        if psize > 0 \<and> qsize > 0 \<and> q \<noteq> None \<and> p = None then Inl Null_deref
        else if takes_q cmp psize p qsize q
        then (case hs_link list tail q s of (s', list') \<Rightarrow>
               hs_merge cmp psize p (qsize - 1) (d_next s (the q)) s' list' q)
        else (case hs_link list tail p s of (s', list') \<Rightarrow>
               hs_merge cmp (psize - 1) (case p of Some e \<Rightarrow> d_next s e | None \<Rightarrow> None) qsize q s' list' p)
      else Inr (s, list, tail, q))"
  by pat_completeness auto

termination
  by (relation "measure (\<lambda>(cmp, psize, p, qsize, q, s, list, tail). psize + qsize)")
    (auto simp: takes_q_def split: if_splits)

declare hs_merge.simps [simp del]

partial_function (option) hs_pass ::
  "(ptr \<Rightarrow> ptr \<Rightarrow> int) \<Rightarrow> nat \<Rightarrow> ptr option \<Rightarrow> nat \<Rightarrow> dlinks \<Rightarrow> ptr option \<Rightarrow> ptr option \<Rightarrow>
   (dlinks \<times> ptr option \<times> ptr option \<times> nat) res option" where
  "hs_pass cmp insize p nmerges s list tail =
     (case p of
        None \<Rightarrow> Some (Inr (s, list, tail, nmerges))
      | Some p0 \<Rightarrow>
          (case hs_merge cmp (fst (ls_walk (d_next s) insize p0)) p insize
              (snd (ls_walk (d_next s) insize p0)) s list tail of
             Inl e \<Rightarrow> Some (Inl e)
           | Inr r \<Rightarrow> hs_pass cmp insize (snd (snd (snd r))) (Suc nmerges) (fst r) (fst (snd r)) (fst (snd (snd r)))))"

partial_function (option) hs_sort_loop ::
  "(ptr \<Rightarrow> ptr \<Rightarrow> int) \<Rightarrow> nat \<Rightarrow> dlinks \<Rightarrow> ptr option \<Rightarrow> (dlinks \<times> ptr option \<times> ptr option) res option" where
  "hs_sort_loop cmp insize s list =
     do { r \<leftarrow> hs_pass cmp insize list 0 s None None;
          case r of
            Inl e \<Rightarrow> Some (Inl e)
          | Inr (s, list, tail, nmerges) \<Rightarrow>
              (let s = (case tail of Some t \<Rightarrow> set_next t None s | None \<Rightarrow> s) in
               if nmerges \<le> 1 then Some (Inr (s, list, tail)) else hs_sort_loop cmp (insize * 2) s list) }"

definition HASH_SRT :: "(ptr \<Rightarrow> ptr \<Rightarrow> int) \<Rightarrow> ut_hash \<Rightarrow> ut_hash res option" where
  "HASH_SRT cmp s =
     (if uh_head s = None then Some (Inr s)
      else do { r \<leftarrow> hs_sort_loop cmp 1 (uh_app s) (uh_head s);
                Some (bind_res r (\<lambda>(app, list, tail).
                  bind_res (table_of s) (\<lambda>t.
                    Inr (s\<lparr>uh_app := app, uh_head := list, uh_tbl := Some (t\<lparr>tb_tail := tail\<rparr>)\<rparr>)))) })"

lemma hs_link_some: "hs_link list tail (Some e) s = ls_link list tail e s"
  by (simp add: hs_link_def ls_link_def split: option.split)

lemma ls_merge_null:
  "0 < psize \<Longrightarrow> p = None \<Longrightarrow> ls_merge old cmp psize p qsize q s list tail \<noteq> Inr r"
proof (induction old cmp psize p qsize q s list tail rule: ls_merge.induct)
  case (1 old cmp psize p qsize q s list tail)
  then show ?case
    unfolding ls_merge.simps [of old cmp psize p qsize q s list tail] by (auto split: option.split prod.split)
qed

lemma hs_merge_ls:
  "old = None \<Longrightarrow> ls_merge old cmp psize p qsize q s list tail = Inr r \<Longrightarrow>
    hs_merge cmp psize p qsize q s list tail = Inr r"
proof (induction old cmp psize p qsize q s list tail rule: ls_merge.induct)
  case (1 old cmp psize p qsize q s list tail)
  note ls = ls_merge.simps [of old cmp psize p qsize q s list tail]
  note hs = hs_merge.simps [of cmp psize p qsize q s list tail]
  have nx: "ls_next old s = d_next s" using "1.prems"(1) by (simp add: ls_next_none)
  show ?case
  proof (cases "psize > 0 \<or> (qsize > 0 \<and> q \<noteq> None)")
    case False
    with "1.prems"(2) show ?thesis unfolding ls hs if_not_P [OF False] by simp
  next
    case go: True
    show ?thesis
    proof (cases "takes_q cmp psize p qsize q")
      case True
      with "1.prems"(2) go obtain e where q: "q = Some e" unfolding ls by (auto split: option.splits)
      obtain s1 list1 where l: "ls_link list tail e s = (s1, list1)" by fastforce
      have g: "\<not> (psize > 0 \<and> qsize > 0 \<and> q \<noteq> None \<and> p = None)"
        using ls_merge_null [of psize p old cmp qsize q s list tail r] "1.prems"(2) by blast
      have "ls_merge old cmp psize p (qsize - 1) (d_next s e) s1 list1 q = Inr r"
        using "1.prems"(2) go True q l nx unfolding ls by simp
      moreover from "1.IH"(1) [OF go True q l [symmetric] "1.prems"(1)] this q nx
      have "hs_merge cmp psize p (qsize - 1) (d_next s e) s1 list1 q = Inr r" by simp
      ultimately show ?thesis unfolding hs if_P [OF go] if_not_P [OF g] if_P [OF True]
        using l q by (simp add: hs_link_some)
    next
      case False
      with "1.prems"(2) go obtain e where p: "p = Some e" unfolding ls by (auto split: option.splits)
      obtain s1 list1 where l: "ls_link list tail e s = (s1, list1)" by fastforce
      have "ls_merge old cmp (psize - 1) (d_next s e) qsize q s1 list1 p = Inr r"
        using "1.prems"(2) go False p l nx unfolding ls by simp
      with "1.IH"(2) [OF go False p l [symmetric] "1.prems"(1)] p nx
      have "hs_merge cmp (psize - 1) (d_next s e) qsize q s1 list1 p = Inr r" by simp
      moreover have g: "\<not> (psize > 0 \<and> qsize > 0 \<and> q \<noteq> None \<and> p = None)" using p by simp
      ultimately show ?thesis unfolding hs if_P [OF go] if_not_P [OF g] if_not_P [OF False]
        using l p by (simp add: hs_link_some)
    qed
  qed
qed

lemma hs_pass_ls:
  assumes "ls_pass None cmp w p m s list tail = Some (Inr r)"
  shows "hs_pass cmp w p m s list tail = Some (Inr r)"
proof -
  let ?P = "\<lambda>(old :: ptr option) cmp w p m s list tail (x :: (dlinks \<times> ptr option \<times> ptr option \<times> nat) res).
    old = None \<longrightarrow> (\<forall>r. x = Inr r \<longrightarrow> hs_pass cmp w p m s list tail = Some (Inr r))"
  have "?P None cmp w p m s list tail (Inr r)"
  proof (rule ls_pass.raw_induct [where P = ?P, OF _ assms], intro impI allI, goal_cases)
    case (1 f old cmp w p m s list tail x r)
    note nx = ls_next_none [of s]
    show ?case
    proof (cases p)
      case None
      with 1 show ?thesis by (simp add: hs_pass.simps)
    next
      case (Some p0)
      let ?l = "ls_walk (d_next s) w p0"
      from 1(2,3,4) Some obtain y where
        y: "ls_merge old cmp (fst ?l) p w (snd ?l) s list tail = Inr y"
        "f old cmp w (snd (snd (snd y))) (Suc m) (fst y) (fst (snd y)) (fst (snd (snd y))) = Some (Inr r)"
        by (auto simp: nx split: sum.splits)
      from hs_merge_ls [OF 1(3) y(1)] 1(1) [OF y(2)] 1(3) Some show ?thesis
        by (simp add: hs_pass.simps [of cmp w "Some p0"])
    qed
  qed
  then show ?thesis by simp
qed

text \<open>What a pass has linked is a chain once the tail ends it.\<close>

lemma linked_chain:
  assumes "linked s list tail ds" and "ds \<noteq> []" and "distinct ds"
  obtains t where "tail = Some t" "t = last ds" "chain (set_next t None s) list ds"
proof -
  from assms obtain us t where t: "tail = Some t" "ds = us @ [t]" "lpath (d_next s) list us (Some t)" "pchain s None ds"
    by (auto simp: linked_def simp del: pchain_append split: option.splits)
  then have "chain (set_next t None s) list ds" using assms(3) by (simp add: chain_def)
  with t that show ?thesis by simp
qed

lemma left_chain: "chain s p xs \<Longrightarrow> left None s p xs None \<and> distinct xs"
  using chain_distinct by (auto simp: chain_def ls_next_none)

lemma hs_sort_holds:
  assumes k: "orders k cmp"
  shows "chain s list (blocks k w xs) \<Longrightarrow> xs \<noteq> [] \<Longrightarrow> 0 < w \<Longrightarrow>
    \<exists>s' list'. hs_sort_loop cmp w s list = Some (Inr (s', list', Some (last (sort k xs)))) \<and> chain s' list' (sort k xs)"
proof (induction "length xs - w" arbitrary: w s list rule: less_induct)
  case less
  from left_chain [OF less.prems(1)] pass_halves [OF k less.prems(3) _ _ less.prems(2)] obtain s1 list1 tail1 where
    p: "ls_pass None cmp w list 0 s None None = Some (Inr (s1, list1, tail1, runs w (blocks k w xs)))"
    and l: "linked s1 list1 tail1 (blocks k (2 * w) xs)" "blocks k (2 * w) xs \<noteq> []" "distinct (blocks k (2 * w) xs)"
    by blast
  from linked_chain [OF l] obtain t where
    t: "tail1 = Some t" "t = last (blocks k (2 * w) xs)" "chain (set_next t None s1) list1 (blocks k (2 * w) xs)" .
  note p = hs_pass_ls [OF p]
  show ?case
  proof (cases "length xs \<le> 2 * w")
    case True
    with p t last_pass [OF less.prems(3)] show ?thesis by (simp add: hs_sort_loop.simps [of cmp w] Let_def)
  next
    case False
    with less.hyps [of "2 * w", OF _ t(3) less.prems(2)] less.prems(3) p t last_pass [OF less.prems(3)]
    show ?thesis by (simp add: hs_sort_loop.simps [of cmp w] Let_def mult.commute)
  qed
qed

lemma reorder_items:
  assumes "distinct (map fst kvs)" and "mset ys = mset (map fst kvs)"
  obtains kvs' :: items where "map fst kvs' = ys" "mset kvs' = mset kvs"
proof -
  let ?f = "\<lambda>x. (x, the (map_of kvs x))"
  have "map ?f (map fst kvs) = kvs"
    unfolding map_map comp_def by (rule map_idI) (auto simp: map_of_eq_Some_iff [OF assms(1), THEN iffD2])
  moreover have "mset (map ?f ys) = mset (map ?f (map fst kvs))" using assms(2) by (simp only: mset_map)
  ultimately have "mset (map ?f ys) = mset kvs" by (simp only:)
  moreover have "map fst (map ?f ys) = ys" by (simp add: comp_def)
  ultimately show ?thesis using that by blast
qed

text \<open>The table holds the same elements, in the order a stable sort gives.\<close>

lemma HASH_SRT_holds:
  assumes "hash_rep fcn s kvs" and "orders k cmp"
  shows "\<exists>s' kvs'. HASH_SRT cmp s = Some (Inr s') \<and> hash_rep fcn s' kvs' \<and> mset kvs' = mset kvs \<and>
    map fst kvs' = sort k (map fst kvs)"
proof (cases "kvs = []")
  case True
  with assms(1) show ?thesis by (simp add: HASH_SRT_def hash_rep_def)
next
  case False
  from hash_repE [OF assms(1) False] obtain t j where t: "uh_tbl s = Some t" "table_of s = Inr t"
    "chain (uh_app s) (uh_head s) (map fst kvs)" "uh_head s = Some (fst (hd kvs))"
    "tb_tail t = Some (last (map fst kvs))" "tb_items t = of_nat (length kvs)"
    "table_rep (uh_hashv s) (uh_hh s) t j (fst ` set kvs)" .
  let ?ys = "sort k (map fst kvs)"
  from hs_sort_holds [OF assms(2), of "uh_app s" "uh_head s" 1 "map fst kvs"] t(3) False obtain app list where
    r: "hs_sort_loop cmp 1 (uh_app s) (uh_head s) = Some (Inr (app, list, Some (last ?ys)))" "chain app list ?ys"
    by (auto simp: blocks_one [unfolded One_nat_def])
  have d: "distinct (map fst kvs)" using assms(1) by (simp add: hash_rep_def)
  obtain kvs' :: items where kv: "map fst kvs' = ?ys" "mset kvs' = mset kvs"
    by (rule reorder_items [OF d, of ?ys]) simp
  have same: "set kvs' = set kvs" "length kvs' = length kvs" using kv(2) by (metis set_mset_mset, metis size_mset)
  have ds: "distinct (map fst kvs')" "distinct (map snd kvs')"
    using assms(1) kv(2) by (auto simp: hash_rep_def) (metis mset_eq_imp_distinct_iff mset_map)+
  have ne: "kvs' \<noteq> []" using same(2) False by auto
  let ?s = "s\<lparr>uh_app := app, uh_head := list, uh_tbl := Some (t\<lparr>tb_tail := Some (last ?ys)\<rparr>)\<rparr>"
  have "HASH_SRT cmp s = Some (Inr ?s)" using r(1) t(2,4) by (simp add: HASH_SRT_def)
  moreover have "hash_rep fcn ?s kvs'"
  proof -
    have "uh_tbl ?s = Some (t\<lparr>tb_tail := Some (last ?ys)\<rparr>) \<and> chain (uh_app ?s) (uh_head ?s) (map fst kvs') \<and>
        tb_tail (t\<lparr>tb_tail := Some (last ?ys)\<rparr>) = Some (last (map fst kvs')) \<and>
        tb_items (t\<lparr>tb_tail := Some (last ?ys)\<rparr>) = of_nat (length kvs') \<and>
        table_rep (uh_hashv ?s) (uh_hh ?s) (t\<lparr>tb_tail := Some (last ?ys)\<rparr>) j (fst ` set kvs')"
      using r(2) kv(1) t(6,7) same by (simp add: table_rep_def)
    moreover have "length kvs' < 2 ^ 32" using assms(1) same(2) by (simp add: hash_rep_def)
    moreover have "\<forall>(x, j) \<in> set kvs'. length j < 2 ^ 32 \<and> uh_key ?s x = j \<and> uh_keylen ?s x = klen j \<and> uh_hashv ?s x = fcn j"
      using hash_rep_item [OF assms(1)] same(1) by auto
    ultimately show ?thesis unfolding hash_rep_def if_not_P [OF ne] using ds by blast
  qed
  ultimately show ?thesis using kv by blast
qed

section \<open>The table as a whole\<close>

text \<open>
  C40: A table that represents a sequence of elements with distinct keys (\<open>hash_rep\<close>: in the order
  of insertion, whatever the hash function, the number of buckets and the length of their chains)
  is searched, extended, reduced, sorted and counted as that sequence is: \<open>HASH_FIND\<close> gives the
  element with a key, \<open>HASH_ADD_KEYPTR\<close> appends one with a new key, expanding the buckets where
  it must, \<open>HASH_REPLACE\<close> first removes the one with the key and gives it back, a walk that deletes
  elements leaves exactly the others in their order, \<open>HASH_SRT\<close> is a stable sort, and the check
  of consistency of the table finds nothing wrong. There are at most 2^30 buckets before the
  addition, and the number of elements fits in 32 bits.
\<close>

theorem hash_table_refines:
  assumes "hash_rep fcn s kvs" and "bkt_room s" and "length ky < 2 ^ 32" and "length kvs + 1 < 2 ^ 32"
    and "e \<notin> fst ` set kvs" and "orders k cmp"
  shows "HASH_FIND fcn s ky = Some (Inr (lookup kvs ky)) \<and>
    (lookup kvs ky = None \<longrightarrow> (\<exists>s'. HASH_ADD_KEYPTR fcn s ky e = Some (Inr s') \<and> hash_rep fcn s' (kvs @ [(e, ky)]))) \<and>
    (\<exists>s'. HASH_REPLACE fcn s ky e = Some (Inr (s', lookup kvs ky)) \<and>
      hash_rep fcn s' (without_key ky kvs @ [(e, ky)])) \<and>
    (\<exists>s'. HASH_ITER (delete_if P) s = Some (Inr s') \<and> hash_rep fcn s' (filter (\<lambda>(e, k). \<not> P e) kvs)) \<and>
    (\<exists>s' kvs'. HASH_SRT cmp s = Some (Inr s') \<and> hash_rep fcn s' kvs' \<and> mset kvs' = mset kvs \<and>
      map fst kvs' = sort k (map fst kvs)) \<and>
    HASH_CNT s = Inr (of_nat (length kvs)) \<and> HASH_FSCK s = Some (Inr ())"
proof (intro conjI impI)
  show "HASH_FIND fcn s ky = Some (Inr (lookup kvs ky))" by (rule kt.find_law [OF assms(1,3)])
  show "\<exists>s'. HASH_ADD_KEYPTR fcn s ky e = Some (Inr s') \<and> hash_rep fcn s' (kvs @ [(e, ky)])" if "lookup kvs ky = None"
    by (rule kt.add_law [OF assms(1,5) _ assms(2-4)]) (use that in \<open>simp add: lookup_notin\<close>)
  show "\<exists>s'. HASH_REPLACE fcn s ky e = Some (Inr (s', lookup kvs ky)) \<and> hash_rep fcn s' (without_key ky kvs @ [(e, ky)])"
    by (rule HASH_REPLACE_holds [OF assms(1,5,2-4)])
  show "\<exists>s'. HASH_ITER (delete_if P) s = Some (Inr s') \<and> hash_rep fcn s' (filter (\<lambda>(e, k). \<not> P e) kvs)"
    by (rule HASH_ITER_deletes [OF assms(1)])
  show "\<exists>s' kvs'. HASH_SRT cmp s = Some (Inr s') \<and> hash_rep fcn s' kvs' \<and> mset kvs' = mset kvs \<and>
      map fst kvs' = sort k (map fst kvs)" by (rule HASH_SRT_holds [OF assms(1,6)])
  show "HASH_CNT s = Inr (of_nat (length kvs))" by (rule HASH_CNT_holds [OF assms(1)])
  show "HASH_FSCK s = Some (Inr ())" by (rule HASH_FSCK_holds [OF assms(1)])
qed

definition no_table :: ut_hash where
  "no_table = \<lparr>uh_head = None, uh_app = \<lparr>d_next = \<lambda>_. None, d_prev = \<lambda>_. None\<rparr>,
     uh_hh = \<lparr>d_next = \<lambda>_. None, d_prev = \<lambda>_. None\<rparr>, uh_key = \<lambda>_. [], uh_keylen = \<lambda>_. 0, uh_hashv = \<lambda>_. 0, uh_tbl = None\<rparr>"

text \<open>One element, added to the table that does not exist yet.\<close>

definition one_element :: ut_hash where
  "one_element = (case HASH_ADD_KEYPTR HASH_BER no_table [97] 7 of Some (Inr s) \<Rightarrow> s | _ \<Rightarrow> no_table)"

lemma one_element_rep: "hash_rep HASH_BER one_element [(7, [97])] \<and> bkt_room one_element"
proof -
  have r: "hash_rep HASH_BER no_table []" by (simp add: hash_rep_def no_table_def)
  have "bkt_room no_table" by (simp add: bkt_room_def no_table_def)
  from HASH_ADD_KEYPTR_holds [OF r _ _ this, of 7 "[97]"] obtain s where
    s: "HASH_ADD_KEYPTR HASH_BER no_table [97] 7 = Some (Inr s)" "hash_rep HASH_BER s [(7, [97])]" by auto
  from s(1) have "tb_num (the (uh_tbl s)) = 32 \<and> uh_tbl s \<noteq> None"
    by (auto simp: HASH_ADD_KEYPTR_def add_last_def no_table_def HASH_MAKE_TABLE_def HASH_ADD_TO_BKT_def bucket_at_def
        Let_def HASH_BER_def HASH_TO_BKT_def schar_def word_le_nat_alt split: if_splits)
  with s show ?thesis by (auto simp: one_element_def bkt_room_def)
qed

theorem hash_table_refines_witness:
  "HASH_FIND HASH_BER one_element [97] = Some (Inr (Some 7)) \<and>
   (\<exists>s'. HASH_REPLACE HASH_BER one_element [97] 8 = Some (Inr (s', Some 7)) \<and> hash_rep HASH_BER s' [(8, [97])]) \<and>
   HASH_CNT one_element = Inr 1"
proof -
  have "orders default by_address" by (auto simp: orders_def by_address_def)
  from hash_table_refines [OF one_element_rep [THEN conjunct1] one_element_rep [THEN conjunct2], of "[97]" 8, OF _ _ _ this]
  show ?thesis by (simp add: lookup_def without_key_def)
qed

end
