(* ===== verification/Spec2Isabelle.thy ===== *)
theory Spec2Isabelle
  imports Server_Race Server_Idle Server_Start Messages Http_Memory Http_Parser_Api Http_Parser_Safety
    Utlist_More Utstring_Search Utarray_More Uthash_Sort
begin

text \<open>
  A model of KHTTP, a small multi-threaded HTTP server in C, and what holds of it.

  \<^bold>\<open>The program.\<close> One thread runs the event loop (\<open>src/server-loop.c\<close>): it accepts clients,
  turns the readiness of sockets into items on the queues of three thread pools
  (\<open>src/queue.c\<close>, \<open>src/thread-pool.c\<close>) and frees connections that are closed. The threads of
  the read pool (\<open>src/server-loop-read.c\<close>) give what a client sent to the HTTP parser
  (\<open>lib/http_parser.c\<close>), whose callbacks (\<open>src/http-reader.c\<close>) build requests; those of the
  worker pool (\<open>src/server-loop-worker.c\<close>) answer them from the files of the configured host
  (\<open>src/http-server.c\<close>, \<open>src/config.c\<close>, \<open>src/mime.c\<close>); those of the write pool
  (\<open>src/server-loop-write.c\<close>) write the responses (\<open>src/http.c\<close>, \<open>src/http-body.c\<close>) through
  the output buffers of the connection (\<open>src/data-buffer.c\<close>).

  \<^bold>\<open>The theories\<close>, in the order they build on each other.

  \<^item> \<open>Prelude\<close>: pointers, faults (\<open>fault + 'a\<close>: a failed assertion, a null pointer, an access
    out of bounds or after a free, an \<open>int\<close> out of its range, the end of the program) and non-termination
    (\<open>'a option\<close>); lists.
  \<^item> \<open>Utlist\<close>, \<open>Utdlist\<close>: the list macros of \<open>lib/ut/utlist.h\<close> over explicit \<open>next\<close> and \<open>prev\<close>
    fields, and the predicates \<open>llist\<close>, \<open>dlist\<close> that tie them to sequences. \<open>Utlist_Sort\<close> has the
    merge sorts of the three kinds of list, \<open>Utlist_More\<close> the circular lists and the remaining
    macros.
  \<^item> \<open>Posix\<close>, \<open>Libc\<close>: \<open>write\<close> as a function of what the kernel answers, and the string
    functions of the C library.
  \<^item> \<open>Data_Buffer\<close>: the output buffers in a store with their mutexes, and the locale
    \<open>byte_fifo\<close> the write loop relies on, interpreted on them.
  \<^item> \<open>Http_Parser_Types\<close>, \<open>Http_Url\<close>, \<open>Http_Parser\<close>: the tables, the URL parser, and
    \<open>http_parser_execute\<close>, one definition per group of states, \<open>step\<close> the switch and
    \<open>exec_loop\<close> the loop. \<open>Http_Parser_Safety\<close> shows that no input makes it fault when its
    callbacks return;
    \<open>Http_Parser_Request\<close>, \<open>_Headers\<close>, \<open>_Body\<close>, \<open>_Calls\<close> what events a request gives, whole or in
    several calls.
    \<open>Http_Parser_Api\<close> has the small functions beside it.
  \<^item> \<open>Http_Headers\<close>, \<open>Http_Body\<close>, \<open>Util\<close>, \<open>Http_Message\<close>: header lists, bodies, string helpers,
    requests and responses with their text and the built-in pages.
  \<^item> \<open>Utarray\<close>, \<open>Utstring\<close>, \<open>Http_Memory\<close>: the growing array and the growing string as they are in
    memory (\<open>lib/ut/utarray.h\<close>, \<open>lib/ut/utstring.h\<close>), the header lists and the writing of a
    response over them, and that they do what the models on sequences say (\<open>ua_rep\<close>, \<open>us_rep\<close>,
    locale \<open>text_sink\<close>). \<open>Utarray_More\<close> has the remaining macros of the array, \<open>Utstring_Search\<close>
    the Knuth-Morris-Pratt searches of the string.
  \<^item> \<open>Uthash_Functions\<close>, \<open>Uthash\<close>, \<open>Uthash_Rep\<close>, \<open>Uthash_Check\<close>, \<open>Uthash_Sort\<close>: the hash table of
    \<open>lib/ut/uthash.h\<close>, its hash functions, its operations, the sequence it represents (locale
    \<open>keyed_table\<close>, interpreted on them), its check of consistency and its sort. Like the sorts and
    the searches it is vendored with the program, which does not use it.
  \<^item> \<open>Http_Reader\<close>: the callbacks and the parse status, composed with the parser.
  \<^item> \<open>Queue\<close>, \<open>Queue_Rep\<close>, \<open>Queue_Threads\<close>: the work queues over linked storage, as the
    sequences they represent (locale \<open>work_queue\<close>), and under any interleaving of threads as a
    step relation.
  \<^item> \<open>Ini\<close>, \<open>Config\<close>, \<open>Mime\<close>, \<open>Http_Server\<close>: the configuration file, the hosts, types of files,
    and \<open>server_process_request\<close>.
  \<^item> \<open>Socket\<close>, \<open>Server_Connection\<close>, \<open>Server_Loop_Read\<close>, \<open>Server_Loop_Write\<close>: a client, and what a
    thread of each pool does with one item for it.
  \<^item> \<open>Server_Session\<close>: these together, from the bytes a client sends to the bytes it gets.
  \<^item> \<open>Server_Loop\<close>, \<open>Thread_Pool\<close>, \<open>Server_State\<close>, \<open>Log\<close>, \<open>Messages\<close>: the event loop over the
    queues, the managers of the pools, starting and stopping, the routing of messages, and what
    \<open>fatal\<close>, \<open>warning\<close>, \<open>info\<close> and the thread of a log make of them.
  \<^item> \<open>Server_Socket\<close>, \<open>Server_Start\<close>: the listening socket (\<open>src/server-socket.c\<close>), and the program
    from its configuration file to its exit (\<open>src/server.c\<close>, \<open>src/main.c\<close>), signals included.
  \<^item> \<open>Server_System\<close>: the whole server, the loop and all threads over the same queues and
    connections, as a list of actions in any order (\<open>run\<close>) and the states it can reach (\<open>reach\<close>).
    \<open>Server_Queues\<close> has its invariant, \<open>Server_Calm\<close> the part of it that holds while no
    connection is cleaned up, \<open>Server_Run\<close> a request from the connection to the last byte of its
    answer, \<open>Server_Race\<close> the order in which a thread uses a connection that was freed, and
    \<open>Server_Idle\<close> what keeps the server from shutting down.

  \<^bold>\<open>State and representation.\<close> A structure is a record with the fields of the code. Where
  sharing or lifetime matters (buffers, queue items, hosts) there is a store from addresses to
  structures and freed entries are gone; \<open>calloc\<close> hands out addresses never used before.
  Integers whose wrap-around can be reached are words or carry an explicit \<open>mod\<close>. Strings are
  lists of characters, up to the \<open>NUL\<close> where the code sees a C string. A loop that may not end
  is a \<open>partial_function\<close>, so that not returning is \<open>None\<close>, and theorems that something
  returns say so; no fuel is used. What the environment answers (\<open>read\<close>, \<open>write\<close>, \<open>accept4\<close>,
  \<open>epoll_wait\<close>, \<open>stat\<close>, \<open>realpath\<close>, \<open>libmagic\<close>, the clock, the scheduler) is an argument.

  \<^bold>\<open>What the lemmas show.\<close> That the parser, with callbacks that return, neither faults nor loops
  on any input, the end of the stream included, and what it makes of a well-formed request; that the callbacks build that request, and where they do
  not (bodies, pipelining, targets cut by a read); that a request written is read back; what a
  response is on the wire; that output buffers keep bytes in order, and the one case in which
  they are tied into a cycle; that the queues are first in first out and keep their invariant
  under every interleaving; that a request for a file under the served directory is answered
  with that file, end to end; that errors are answered and close the connection; that the
  event loop schedules every readable connection, unless the client has ended its side by
  then (the connection is closed unread), and that the managers keep the number of threads
  in its bounds; that the queues stay consistent whatever the loop and the threads do and in
  whatever order; that arrays and strings in memory hold what the models on sequences say; that
  the list sorts end and are stable (up to \<open>2 ^ 30\<close> elements, where their \<open>int\<close> counters stay in
  range), and that the string searches find what a naive search
  finds; that the hash table is the sequence of its elements, whatever its buckets; how the
  program ends, and what has to go wrong for \<open>main\<close> to return. Several theorems state behaviour that is a defect of the program.

  \<^bold>\<open>Not modelled.\<close> Of the vendored headers: the variants for compilers without \<open>typeof\<close> and for
  machines that cannot read words at any address, and the macros that only call the C library
  or add up sizes. What \<open>vsnprintf\<close> and \<open>strftime\<close> print is given. The messages of
  the event loop and of the start are left out there; \<open>Log\<close> and \<open>Messages\<close> say what becomes of
  one. Data races are outside the model: a handler that holds the mutex of its connection is one
  step, and so is a critical section of a queue.
\<close>

end
